(* ===== verification/Go_Prelude.thy ===== *)
theory Go_Prelude
  imports Main "HOL-Library.Word" "HOL-Library.Monad_Syntax"
begin

text \<open>
  The shared layer of the development: Go's machine integers, byte slices, big-endian
  encodings, and the parts of the standard library's \<^verbatim>\<open>io\<close>, \<^verbatim>\<open>bufio\<close> and
  \<^verbatim>\<open>encoding/binary\<close> packages that the modelled code calls.

  Conventions used throughout the library:
  \<^item> a byte slice is a \<^typ>\<open>8 word list\<close>; a Go string is the list of its bytes;
  \<^item> an \<^verbatim>\<open>int32\<close> that the code adds to or subtracts from is an \<^typ>\<open>int\<close> normalised by
    \<open>i32\<close>; an unsigned integer is a word of its width;
  \<^item> a returned \<^verbatim>\<open>error\<close> is a value of \<open>goerr option\<close> (\<open>None\<close> is \<^verbatim>\<open>nil\<close>);
  \<^item> an operation that may panic returns an \<open>option\<close>, and \<open>None\<close> is the panic;
  \<^item> an \<^verbatim>\<open>io.Reader\<close> is an \<open>instream\<close>: the chunks its \<^verbatim>\<open>Read\<close> calls will deliver and the
    error it returns once they are used up; an \<^verbatim>\<open>io.Writer\<close> is a \<open>sink\<close>: the bytes
    written so far and a script of the failures its next \<^verbatim>\<open>Write\<close> calls will have.
\<close>

unbundle bit_operations_syntax

named_theorems wf_intro \<open>preservation of the well-formedness invariants\<close>
named_theorems content_simps \<open>what the operations do to the abstract content\<close>

type_synonym byte = "8 word"
type_synonym u16 = "16 word"
type_synonym u32 = "32 word"
type_synonym u64 = "64 word"
type_synonym gostring = "byte list"

section \<open>Errors\<close>

text \<open>
  \<open>EOF\<close>, \<open>ErrUnexpectedEOF\<close> and \<open>ErrClosedPipe\<close> are the sentinel values of package
  \<^verbatim>\<open>io\<close>; \<open>ErrMsg\<close> is an error made by \<^verbatim>\<open>errors.New\<close>, named by its message; \<open>ErrSys\<close>
  is an error of the operating system.
\<close>

datatype goerr =
    EOF
  | ErrUnexpectedEOF
  | ErrClosedPipe
  | ErrMsg string
  | ErrSys nat

text \<open>\<^verbatim>\<open>common.ErrNoClue\<close>.\<close>

definition ErrNoClue :: goerr where "ErrNoClue = ErrMsg ''not enough information for making a decision''"

section \<open>Machine integers and slices\<close>

definition i32 :: "int \<Rightarrow> int" where
  "i32 x = (x + 2147483648) mod 4294967296 - 2147483648"

lemma i32_id [simp]: "- 2147483648 \<le> x \<Longrightarrow> x < 2147483648 \<Longrightarrow> i32 x = x"
  by (simp add: i32_def)

lemma i32_range: "- 2147483648 \<le> i32 x \<and> i32 x < 2147483648"
  by (simp add: i32_def)

text \<open>\<open>go_slice xs i j\<close> is the Go expression \<^verbatim>\<open>xs[i:j]\<close>, which panics out of range.\<close>

definition go_slice :: "'a list \<Rightarrow> int \<Rightarrow> int \<Rightarrow> 'a list option" where
  "go_slice xs i j =
     (if 0 \<le> i \<and> i \<le> j \<and> j \<le> int (length xs)
      then Some (take (nat (j - i)) (drop (nat i) xs)) else None)"

lemma go_slice_Some_iff:
  "go_slice xs i j = Some ys \<longleftrightarrow>
     0 \<le> i \<and> i \<le> j \<and> j \<le> int (length xs) \<and> ys = take (nat (j - i)) (drop (nat i) xs)"
  by (auto simp: go_slice_def)

lemma go_slice_length: "go_slice xs i j = Some ys \<Longrightarrow> length ys = nat (j - i)"
  by (auto simp: go_slice_def split: if_splits)

text \<open>\<open>blit xs i ys\<close> overwrites \<open>xs\<close> from index \<open>i\<close> with \<open>ys\<close>, as \<^verbatim>\<open>copy(xs[i:], ys)\<close>
  does when \<open>ys\<close> fits.\<close>

definition blit :: "'a list \<Rightarrow> nat \<Rightarrow> 'a list \<Rightarrow> 'a list" where
  "blit xs i ys = take i xs @ ys @ drop (i + length ys) xs"

lemma length_blit [simp]:
  "i + length ys \<le> length xs \<Longrightarrow> length (blit xs i ys) = length xs"
  by (simp add: blit_def)

lemma take_blit [simp]: "i \<le> length xs \<Longrightarrow> take i (blit xs i ys) = take i xs"
  by (simp add: blit_def)

lemma take_drop_blit:
  "s \<le> i \<Longrightarrow> i + length ys \<le> length xs \<Longrightarrow>
   take (i + length ys - s) (drop s (blit xs i ys)) = take (i - s) (drop s xs) @ ys"
  by (simp add: blit_def drop_take)

section \<open>encoding/binary, big endian\<close>

definition PutUint16 :: "u16 \<Rightarrow> byte list" where
  "PutUint16 x = [ucast (drop_bit 8 x), ucast x]"

definition PutUint32 :: "u32 \<Rightarrow> byte list" where
  "PutUint32 x = [ucast (drop_bit 24 x), ucast (drop_bit 16 x), ucast (drop_bit 8 x), ucast x]"

definition PutUint64 :: "u64 \<Rightarrow> byte list" where
  "PutUint64 x =
     [ucast (drop_bit 56 x), ucast (drop_bit 48 x), ucast (drop_bit 40 x), ucast (drop_bit 32 x),
      ucast (drop_bit 24 x), ucast (drop_bit 16 x), ucast (drop_bit 8 x), ucast x]"

text \<open>
  The decoders panic on a short slice; every call in the modelled code is guarded by a
  length check, so the value on a short slice is never used.
\<close>

fun Uint16 :: "byte list \<Rightarrow> u16" where
  "Uint16 (b0 # b1 # _) = push_bit 8 (ucast b0) OR ucast b1"
| "Uint16 _ = 0"

fun Uint32 :: "byte list \<Rightarrow> u32" where
  "Uint32 (b0 # b1 # b2 # b3 # _) =
     push_bit 24 (ucast b0) OR push_bit 16 (ucast b1) OR push_bit 8 (ucast b2) OR ucast b3"
| "Uint32 _ = 0"

fun Uint64 :: "byte list \<Rightarrow> u64" where
  "Uint64 (b0 # b1 # b2 # b3 # b4 # b5 # b6 # b7 # _) =
     push_bit 56 (ucast b0) OR push_bit 48 (ucast b1) OR push_bit 40 (ucast b2) OR
     push_bit 32 (ucast b3) OR push_bit 24 (ucast b4) OR push_bit 16 (ucast b5) OR
     push_bit 8 (ucast b6) OR ucast b7"
| "Uint64 _ = 0"

lemma length_PutUint [simp]:
  "length (PutUint16 a) = 2" "length (PutUint32 b) = 4" "length (PutUint64 c) = 8"
  by (simp_all add: PutUint16_def PutUint32_def PutUint64_def)

lemma Uint16_PutUint16 [simp]: "Uint16 (PutUint16 x @ rest) = x"
  by (rule bit_word_eqI) (auto simp: PutUint16_def bit_simps less_diff_conv2)

lemma Uint32_PutUint32 [simp]: "Uint32 (PutUint32 x @ rest) = x"
proof (rule bit_word_eqI)
  fix n
  assume "n < LENGTH(32)"
  then consider "n < 8" | "8 \<le> n" "n < 16" | "16 \<le> n" "n < 24" | "24 \<le> n" "n < 32"
    by fastforce
  then show "bit (Uint32 (PutUint32 x @ rest)) n = bit x n"
    by cases (simp_all add: PutUint32_def bit_simps less_diff_conv2)
qed

lemma Uint64_PutUint64 [simp]: "Uint64 (PutUint64 x @ rest) = x"
proof (rule bit_word_eqI)
  fix n
  assume "n < LENGTH(64)"
  then consider "n < 8" | "8 \<le> n" "n < 16" | "16 \<le> n" "n < 24" | "24 \<le> n" "n < 32" | "32 \<le> n" "n < 40" | "40 \<le> n" "n < 48" | "48 \<le> n" "n < 56" | "56 \<le> n" "n < 64"
    by fastforce
  then show "bit (Uint64 (PutUint64 x @ rest)) n = bit x n"
    by cases (simp_all add: PutUint64_def bit_simps less_diff_conv2)
qed

lemma Uint_Put_exact [simp]:
  "Uint16 (PutUint16 a) = a" "Uint32 (PutUint32 b) = b" "Uint64 (PutUint64 c) = c"
  using Uint16_PutUint16 [of a "[]"] Uint32_PutUint32 [of b "[]"] Uint64_PutUint64 [of c "[]"]
  by simp_all

section \<open>Signed comparison\<close>

lemma wrap_shift_64:
  "(u + 2 ^ 63) mod 2 ^ 64 - 2 ^ 63 = (if u < 2 ^ 63 then u else u - 2 ^ 64)"
  if "0 \<le> u" "u < 2 ^ 64" for u :: int
proof (cases "u < 2 ^ 63")
  case True
  with that have "(u + 2 ^ 63) mod 2 ^ 64 = u + 2 ^ 63" by (intro mod_pos_pos_trivial) auto
  with True show ?thesis by simp
next
  case False
  have "(u + 2 ^ 63) mod 2 ^ 64 = (u + 2 ^ 63 - 2 ^ 64) mod 2 ^ 64"
    by (simp only: minus_mod_self2)
  also have "\<dots> = u + 2 ^ 63 - 2 ^ 64" using that False by (intro mod_pos_pos_trivial) auto
  finally show ?thesis using False by simp
qed

lemma sint_64: "sint x = (if uint x < 2 ^ 63 then uint x else uint x - 2 ^ 64)" for x :: "64 word"
proof -
  have "sint x = (uint x + 2 ^ 63) mod 2 ^ 64 - 2 ^ 63"
    by (simp add: sint_uint signed_take_bit_eq_take_bit_shift take_bit_eq_mod)
  then show ?thesis
    using wrap_shift_64 [of "uint x"] uint_bounded [of x] by simp
qed

lemma sless_0_iff: "0 <s x \<longleftrightarrow> 0 < unat x \<and> unat x < 2 ^ 63" for x :: "64 word"
proof -
  have u: "uint x < 2 ^ 64" "uint x = int (unat x)" using uint_bounded [of x] by simp_all
  have "0 <s x \<longleftrightarrow> 0 < sint x" by (simp add: word_sless_alt)
  also have "\<dots> \<longleftrightarrow> 0 < uint x \<and> uint x < 2 ^ 63"
    using u(1) sint_64 [of x] by (cases "uint x < 2 ^ 63") auto
  also have "\<dots> \<longleftrightarrow> int 0 < int (unat x) \<and> int (unat x) < int (2 ^ 63)"
    unfolding u(2) by simp
  finally show ?thesis unfolding of_nat_less_iff .
qed

lemma not_less_iff_sle: "\<not> x <s y \<longleftrightarrow> y \<le>s x"
  by (auto simp: word_sless_alt word_sle_eq)

lemma byte_16_le [simp]: "\<not> (16 :: byte) \<le> 1"
  by (simp add: word_le_nat_alt)

end
