(* ===== verification/Go_IO.thy ===== *)
theory Go_IO
  imports Go_Prelude
begin

text \<open>
  The model of the standard library's readers and writers: \<^verbatim>\<open>io.Reader\<close>, \<^verbatim>\<open>io.ReadFull\<close>,
  the \<^verbatim>\<open>Peek\<close> and \<^verbatim>\<open>ReadString\<close> of \<^verbatim>\<open>bufio.Reader\<close>, and \<^verbatim>\<open>io.Writer\<close>. The lemmas show that
  \<^verbatim>\<open>io.ReadFull\<close> does not depend on how the transport cuts the stream into chunks: it is a
  function of the concatenated bytes (\<open>flat\<close>) alone.
\<close>

section \<open>Readers\<close>

record instream =
  chunks :: "byte list list"
  fin :: goerr

definition flat :: "instream \<Rightarrow> byte list" where
  "flat r = concat (chunks r)"

lemma flat_simps [simp]:
  "flat \<lparr>chunks = [], fin = e\<rparr> = []"
  "flat \<lparr>chunks = c # cs, fin = e\<rparr> = c @ flat \<lparr>chunks = cs, fin = e\<rparr>"
  "flat (r\<lparr>chunks := []\<rparr>) = []" "flat (r\<lparr>chunks := c # cs\<rparr>) = c @ flat (r\<lparr>chunks := cs\<rparr>)"
  by (simp_all add: flat_def)

text \<open>One \<^verbatim>\<open>Read\<close> call on a slice of \<open>n\<close> bytes: the bytes read, the error, the reader after it.\<close>

fun io_Read :: "nat \<Rightarrow> instream \<Rightarrow> byte list \<times> goerr option \<times> instream" where
  "io_Read n r =
     (case chunks r of
        [] \<Rightarrow> ([], Some (fin r), r)
      | c # cs \<Rightarrow>
          if length c \<le> n then (c, None, r\<lparr>chunks := cs\<rparr>)
          else (take n c, None, r\<lparr>chunks := drop n c # cs\<rparr>))"

declare io_Read.simps [simp del]

lemma io_Read_cases:
  fixes n :: nat and r :: instream
  obtains (empty) "chunks r = []" "io_Read n r = ([], Some (fin r), r)"
  | (whole) c cs where "chunks r = c # cs" "length c \<le> n" "io_Read n r = (c, None, r\<lparr>chunks := cs\<rparr>)"
  | (part) c cs where "chunks r = c # cs" "n < length c"
      "io_Read n r = (take n c, None, r\<lparr>chunks := drop n c # cs\<rparr>)"
  by (cases "chunks r"; cases "length (hd (chunks r)) \<le> n") (auto simp: io_Read.simps)

lemma io_Read_flat:
  "io_Read n r = (bs, e, r') \<Longrightarrow> flat r = bs @ flat r' \<and> fin r' = fin r \<and> length bs \<le> n"
  by (cases n r rule: io_Read_cases) (auto simp: flat_def)

lemma io_Read_error:
  "io_Read n r = (bs, Some e, r') \<Longrightarrow> bs = [] \<and> e = fin r \<and> flat r = [] \<and> r' = r"
  by (cases n r rule: io_Read_cases) (auto simp: flat_def)

text \<open>
  \<^verbatim>\<open>io.ReadFull(r, buf)\<close> with \<^verbatim>\<open>len(buf) = k\<close>: the loop of \<^verbatim>\<open>io.ReadAtLeast\<close>. Each round either
  uses up a chunk or fills the buffer, so the loop ends.
\<close>

function ReadAtLeast :: "nat \<Rightarrow> byte list \<Rightarrow> instream \<Rightarrow> byte list \<times> goerr option \<times> instream" where
  "ReadAtLeast k acc r =
     (if length acc < k then
        (case io_Read (k - length acc) r of
           (bs, None, r') \<Rightarrow> ReadAtLeast k (acc @ bs) r'
         | (bs, Some e, r') \<Rightarrow>
             (acc @ bs, Some (if acc @ bs \<noteq> [] \<and> e = EOF then ErrUnexpectedEOF else e), r'))
      else (acc, None, r))"
  by pat_completeness auto
termination
  by (relation "measure (\<lambda>(k, acc, r). k - length acc + length (chunks r))")
    (auto simp: io_Read.simps split: list.splits if_splits)

declare ReadAtLeast.simps [simp del]

definition io_ReadFull :: "nat \<Rightarrow> instream \<Rightarrow> byte list \<times> goerr option \<times> instream" where
  "io_ReadFull k r = ReadAtLeast k [] r"

lemma ReadAtLeast_ok:
  "length acc \<le> k \<Longrightarrow> k - length acc \<le> length (flat r) \<Longrightarrow>
   \<exists>r'. ReadAtLeast k acc r = (acc @ take (k - length acc) (flat r), None, r') \<and>
        flat r' = drop (k - length acc) (flat r) \<and> fin r' = fin r"
proof (induction k acc r rule: ReadAtLeast.induct)
  case (1 k acc r)
  show ?case
  proof (cases "length acc < k")
    case False
    with "1.prems" show ?thesis by (simp add: ReadAtLeast.simps [of k acc r])
  next
    case lt: True
    obtain bs e r' where rd: "io_Read (k - length acc) r = (bs, e, r')"
      by (cases "io_Read (k - length acc) r") auto
    note fl = io_Read_flat [OF rd]
    have [simp]: "e = None"
      using io_Read_error rd lt "1.prems"(2) by (cases e) fastforce+
    have "length (acc @ bs) \<le> k" "k - length (acc @ bs) \<le> length (flat r')"
      using fl lt "1.prems" by auto
    from "1.IH" [OF lt rd [symmetric] refl, simplified, OF _ this(2)[simplified]] this(1)
    obtain r'' where
      "ReadAtLeast k (acc @ bs) r' =
         ((acc @ bs) @ take (k - length (acc @ bs)) (flat r'), None, r'')"
      "flat r'' = drop (k - length (acc @ bs)) (flat r')" "fin r'' = fin r'"
      by auto
    then show ?thesis
      using lt rd fl by (auto simp: ReadAtLeast.simps [of k acc r])
  qed
qed

lemma ReadAtLeast_short:
  "length acc \<le> k \<Longrightarrow> length (flat r) < k - length acc \<Longrightarrow>
   \<exists>r'. ReadAtLeast k acc r =
     (acc @ flat r, Some (if acc @ flat r \<noteq> [] \<and> fin r = EOF then ErrUnexpectedEOF else fin r), r')
     \<and> flat r' = [] \<and> fin r' = fin r"
proof (induction k acc r rule: ReadAtLeast.induct)
  case (1 k acc r)
  then have lt: "length acc < k" by simp
  obtain bs e r' where rd: "io_Read (k - length acc) r = (bs, e, r')"
    by (cases "io_Read (k - length acc) r") auto
  note fl = io_Read_flat [OF rd]
  show ?case
  proof (cases e)
    case None
    have "length (acc @ bs) \<le> k" "length (flat r') < k - length (acc @ bs)"
      using fl "1.prems" by auto
    with "1.IH" [OF lt rd [symmetric] refl None] show ?thesis
      using lt rd fl None by (auto simp: ReadAtLeast.simps [of k acc r])
  next
    case (Some x)
    with io_Read_error rd have "bs = []" "x = fin r" "flat r = []" "r' = r" by blast+
    then show ?thesis
      using lt rd Some by (simp add: ReadAtLeast.simps [of k acc r])
  qed
qed

text \<open>The two outcomes of \<^verbatim>\<open>io.ReadFull\<close>, over the flat content.\<close>

lemma io_ReadFull_ok:
  assumes "k \<le> length (flat r)"
  obtains r' where "io_ReadFull k r = (take k (flat r), None, r')"
    "flat r' = drop k (flat r)" "fin r' = fin r"
  using ReadAtLeast_ok [of "[]" k r] assms by (auto simp: io_ReadFull_def)

lemma io_ReadFull_short:
  assumes "length (flat r) < k"
  obtains r' where
    "io_ReadFull k r =
       (flat r, Some (if flat r \<noteq> [] \<and> fin r = EOF then ErrUnexpectedEOF else fin r), r')"
    "flat r' = []" "fin r' = fin r"
  using ReadAtLeast_short [of "[]" k r] assms by (auto simp: io_ReadFull_def)

lemma io_ReadFull_None:
  assumes "io_ReadFull k r = (bs, None, r')"
  shows "k \<le> length (flat r) \<and> bs = take k (flat r) \<and> flat r' = drop k (flat r) \<and> fin r' = fin r"
proof (cases "k \<le> length (flat r)")
  case True
  then obtain r'' where "io_ReadFull k r = (take k (flat r), None, r'')"
    "flat r'' = drop k (flat r)" "fin r'' = fin r"
    by (rule io_ReadFull_ok)
  with assms True show ?thesis by simp
next
  case False
  then obtain r'' where "io_ReadFull k r =
      (flat r, Some (if flat r \<noteq> [] \<and> fin r = EOF then ErrUnexpectedEOF else fin r), r'')"
    using io_ReadFull_short [of r k] by (metis not_le)
  with assms show ?thesis by simp
qed

lemma io_ReadFull_Some:
  assumes "io_ReadFull k r = (bs, Some e, r')"
  shows "length (flat r) < k \<and> bs = flat r \<and> flat r' = [] \<and> fin r' = fin r \<and>
         e = (if flat r \<noteq> [] \<and> fin r = EOF then ErrUnexpectedEOF else fin r)"
proof (cases "k \<le> length (flat r)")
  case True
  then obtain r'' where "io_ReadFull k r = (take k (flat r), None, r'')"
    by (rule io_ReadFull_ok)
  with assms show ?thesis by simp
next
  case False
  then obtain r'' where "io_ReadFull k r =
      (flat r, Some (if flat r \<noteq> [] \<and> fin r = EOF then ErrUnexpectedEOF else fin r), r'')"
    "flat r'' = []" "fin r'' = fin r"
    using io_ReadFull_short [of r k] by (metis not_le)
  with assms False show ?thesis by auto
qed

lemma io_ReadFull_shrinks:
  "io_ReadFull k r = (bs, e, r') \<Longrightarrow> length (flat r') \<le> length (flat r)"
  by (cases e) (auto dest: io_ReadFull_None io_ReadFull_Some)

section \<open>bufio.Reader\<close>

text \<open>
  \<^verbatim>\<open>Peek(n)\<close> for \<open>n\<close> within the 4096-byte default buffer: it returns the next \<open>n\<close> bytes
  and leaves them in the stream, or the error of the underlying reader when fewer are left.
\<close>

definition bufio_Peek :: "nat \<Rightarrow> instream \<Rightarrow> goerr + byte list" where
  "bufio_Peek n r = (if n \<le> length (flat r) then Inr (take n (flat r)) else Inl (fin r))"

text \<open>\<^verbatim>\<open>ReadString(delim)\<close>: everything up to and including the first \<open>delim\<close>.\<close>

definition bufio_ReadString :: "byte \<Rightarrow> instream \<Rightarrow> (goerr + byte list) \<times> instream" where
  "bufio_ReadString d r =
     (let line = takeWhile (\<lambda>b. b \<noteq> d) (flat r); rest = dropWhile (\<lambda>b. b \<noteq> d) (flat r)
      in case rest of
           [] \<Rightarrow> (Inl (fin r), r\<lparr>chunks := []\<rparr>)
         | b # rest' \<Rightarrow> (Inr (line @ [b]), r\<lparr>chunks := [rest']\<rparr>))"

lemma bufio_ReadString_shrinks:
  "bufio_ReadString d r = (Inr line, r') \<Longrightarrow> length (flat r') < length (flat r)"
proof -
  assume a: "bufio_ReadString d r = (Inr line, r')"
  have "length (dropWhile (\<lambda>b. b \<noteq> d) (flat r)) \<le> length (flat r)"
    by (rule length_dropWhile_le)
  with a show ?thesis
    by (auto simp: bufio_ReadString_def Let_def flat_def split: list.splits)
qed

section \<open>Writers\<close>

text \<open>
  A \<open>sink\<close> records what has been written, one entry per \<^verbatim>\<open>Write\<close> call, and whether it was
  closed. \<open>faults\<close> scripts the outcome of the next calls: \<open>None\<close> is success, \<open>Some (k, e)\<close>
  writes the first \<open>k\<close> bytes and returns \<open>e\<close>; past the script every call succeeds.
\<close>

record sink =
  written :: "byte list list"
  faults :: "(nat \<times> goerr) option list"
  sclosed :: bool

definition sent :: "sink \<Rightarrow> byte list" where
  "sent s = concat (written s)"

definition fresh_sink :: sink where
  "fresh_sink = \<lparr>written = [], faults = [], sclosed = False\<rparr>"

lemma fresh_sink_simps [simp]:
  "sent fresh_sink = []" "faults fresh_sink = []" "sclosed fresh_sink = False"
  by (simp_all add: fresh_sink_def sent_def)

fun io_Write :: "byte list \<Rightarrow> sink \<Rightarrow> nat \<times> goerr option \<times> sink" where
  "io_Write b s =
     (case faults s of
        [] \<Rightarrow> (length b, None, s\<lparr>written := written s @ [b]\<rparr>)
      | None # fs \<Rightarrow> (length b, None, s\<lparr>written := written s @ [b], faults := fs\<rparr>)
      | Some (k, e) # fs \<Rightarrow>
          (length (take k b), Some e, s\<lparr>written := written s @ [take k b], faults := fs\<rparr>))"

declare io_Write.simps [simp del]

lemma io_Write_ok:
  "io_Write b s = (n, None, s') \<Longrightarrow> n = length b \<and> sent s' = sent s @ b \<and> sclosed s' = sclosed s"
  by (auto simp: io_Write.simps sent_def split: list.splits option.splits prod.splits)

lemma io_Write_prefix:
  "io_Write b s = (n, e, s') \<Longrightarrow>
   sent s' = sent s @ take n b \<and> n \<le> length b \<and> sclosed s' = sclosed s"
  by (auto simp: io_Write.simps sent_def min_def split: list.splits option.splits prod.splits)

lemma io_Write_no_faults:
  "faults s = [] \<Longrightarrow> io_Write b s = (length b, None, s\<lparr>written := written s @ [b]\<rparr>)"
  by (simp add: io_Write.simps)

definition sink_Close :: "sink \<Rightarrow> sink" where
  "sink_Close s = s\<lparr>sclosed := True\<rparr>"

lemma sink_Close_simps [simp]:
  "sent (sink_Close s) = sent s" "sclosed (sink_Close s)" "faults (sink_Close s) = faults s"
  by (simp_all add: sink_Close_def sent_def)

section \<open>Strings\<close>

definition gostr :: "string \<Rightarrow> gostring" where
  "gostr s = map of_char s"

lemma gostr_simps [simp]:
  "gostr [] = []" "gostr (c # s) = of_char c # gostr s" "length (gostr s) = length s"
  by (simp_all add: gostr_def)

text \<open>\<^verbatim>\<open>strconv.Itoa\<close> on a non-negative number.\<close>

fun itoa :: "nat \<Rightarrow> gostring" where
  "itoa n = (if n < 10 then [of_nat (48 + n)] else itoa (n div 10) @ [of_nat (48 + n mod 10)])"

declare itoa.simps [simp del]

end
