(* ===== verification/Interfaces.thy ===== *)
theory Interfaces
  imports Go_IO
begin

text \<open>
  The contracts the components rely on, as locales, each with the lemmas its clients need
  proved once. They are interpreted in the theories of the components that provide them:
  \<^item> \<open>byte_fifo\<close>: a container of bytes written at one end and read at the other
    (\<^verbatim>\<open>MultiBufferContainer\<close>, the buffered reader, the in-memory pipe);
  \<^item> \<open>aead\<close>: Go's \<^verbatim>\<open>cipher.AEAD\<close> as the callers use it, and \<open>codec\<close>, an encoder whose
    output a decoder recognises at the front of any stream;
  \<^item> \<open>guarded_counter\<close>: a receiver that accepts only growing sequence numbers.
\<close>

section \<open>Byte queues\<close>

datatype 'd fifo_op = Put 'd | Get nat

fun fifo_run ::
  "('q \<Rightarrow> 'd \<Rightarrow> 'q) \<Rightarrow> ('q \<Rightarrow> nat \<Rightarrow> 'q \<times> byte list) \<Rightarrow> 'q \<Rightarrow> 'd fifo_op list \<Rightarrow> 'q \<times> byte list" where
  "fifo_run put get q [] = (q, [])"
| "fifo_run put get q (Put d # ops) = fifo_run put get (put q d) ops"
| "fifo_run put get q (Get k # ops) =
     (let (q', bs) = get q k; (q'', out) = fifo_run put get q' ops in (q'', bs @ out))"

fun puts :: "'d fifo_op list \<Rightarrow> 'd list" where
  "puts [] = []"
| "puts (Put d # ops) = d # puts ops"
| "puts (Get k # ops) = puts ops"

locale byte_fifo =
  fixes wf :: "'q \<Rightarrow> bool"
    and bytes :: "'q \<Rightarrow> byte list"
    and ok :: "'d \<Rightarrow> bool"
    and payload :: "'d \<Rightarrow> byte list"
    and put :: "'q \<Rightarrow> 'd \<Rightarrow> 'q"
    and get :: "'q \<Rightarrow> nat \<Rightarrow> 'q \<times> byte list"
  assumes put_wf: "wf q \<Longrightarrow> ok d \<Longrightarrow> wf (put q d)"
    and put_bytes: "wf q \<Longrightarrow> ok d \<Longrightarrow> bytes (put q d) = bytes q @ payload d"
    and get_wf: "wf q \<Longrightarrow> get q k = (q', bs) \<Longrightarrow> wf q'"
    and get_bytes: "wf q \<Longrightarrow> get q k = (q', bs) \<Longrightarrow> bytes q = bs @ bytes q'"
begin

text \<open>Whatever the order of writes and reads: what came out, then what is still inside, is
  what was inside at first, then what was written.\<close>

lemma run_fifo:
  "wf q \<Longrightarrow> list_all ok (puts ops) \<Longrightarrow> fifo_run put get q ops = (q', out) \<Longrightarrow>
   wf q' \<and> out @ bytes q' = bytes q @ concat (map payload (puts ops))"
proof (induction ops arbitrary: q q' out)
  case (Cons op ops)
  show ?case
  proof (cases op)
    case (Put d)
    with Cons.prems have "wf (put q d)" "bytes (put q d) = bytes q @ payload d"
      by (simp_all add: put_wf put_bytes)
    with Cons.IH [of "put q d" q' out] Cons.prems Put show ?thesis by simp
  next
    case (Get k)
    obtain q1 bs where g: "get q k = (q1, bs)" by (cases "get q k")
    obtain q2 out' where r: "fifo_run put get q1 ops = (q2, out')"
      by (cases "fifo_run put get q1 ops")
    have "wf q1" and b: "bytes q = bs @ bytes q1"
      using get_wf [OF Cons.prems(1) g] get_bytes [OF Cons.prems(1) g] by auto
    with Cons.IH [OF _ _ r] Cons.prems(2,3) Get g r show ?thesis by auto
  qed
qed simp

lemma run_prefix:
  assumes "wf q" "list_all ok (puts ops)" "fifo_run put get q ops = (q', out)"
  shows "\<exists>rest. bytes q @ concat (map payload (puts ops)) = out @ rest"
  using run_fifo [OF assms] by metis

end

section \<open>Authenticated encryption\<close>

text \<open>
  Go's \<^verbatim>\<open>cipher.AEAD\<close>, without associated data (all callers here pass \<^verbatim>\<open>nil\<close>): nonce and
  overhead sizes, \<^verbatim>\<open>Seal(nil, nonce, plain, nil)\<close> and \<^verbatim>\<open>Open(nil, nonce, cipher, nil)\<close>.
\<close>

record AEAD =
  NonceSize :: nat
  Overhead :: nat
  Seal :: "byte list \<Rightarrow> byte list \<Rightarrow> byte list"
  Open :: "byte list \<Rightarrow> byte list \<Rightarrow> goerr + byte list"

text \<open>
  The documented behaviour: with a nonce of the right size, sealing adds the overhead and
  opening undoes sealing, for every plaintext of less than 64 KiB.
\<close>

definition aead_ok :: "AEAD \<Rightarrow> bool" where
  "aead_ok a \<longleftrightarrow>
     (\<forall>nonce plain. length nonce = NonceSize a \<longrightarrow> length plain < 65536 \<longrightarrow>
        length (Seal a nonce plain) = length plain + Overhead a \<and>
        Open a nonce (Seal a nonce plain) = Inr plain)"

locale aead =
  fixes a :: AEAD
  assumes aead_ok: "aead_ok a"
begin

lemma open_seal:
  "length nonce = NonceSize a \<Longrightarrow> length plain < 65536 \<Longrightarrow>
   Open a nonce (Seal a nonce plain) = Inr plain"
  using aead_ok unfolding aead_ok_def by blast

lemma length_seal:
  "length nonce = NonceSize a \<Longrightarrow> length plain < 65536 \<Longrightarrow>
   length (Seal a nonce plain) = length plain + Overhead a"
  using aead_ok unfolding aead_ok_def by blast

lemma seal_inj:
  assumes "length nonce = NonceSize a" "length p < 65536" "length q < 65536"
    and "Seal a nonce p = Seal a nonce q"
  shows "p = q"
  using open_seal [OF assms(1,2)] open_seal [OF assms(1,3)] assms(4) by (metis sum.inject(2))

end

section \<open>Codecs\<close>

text \<open>
  An encoder and a decoder that reads one value from the front of a byte stream and answers
  the rest: decoding what was encoded gives the value back whatever follows it.
\<close>

locale codec =
  fixes ok :: "'v \<Rightarrow> bool"
    and enc :: "'v \<Rightarrow> byte list"
    and dec :: "byte list \<Rightarrow> ('v \<times> byte list) option"
  assumes dec_enc: "ok v \<Longrightarrow> dec (enc v @ rest) = Some (v, rest)"
begin

lemma enc_inj: "ok v \<Longrightarrow> ok w \<Longrightarrow> enc v @ r = enc w @ s \<Longrightarrow> v = w \<and> r = s"
  using dec_enc [of v r] dec_enc [of w s] by (metis option.inject prod.inject)

end

text \<open>Decoding value after value, for as many rounds as given.\<close>

fun decode_many :: "(byte list \<Rightarrow> ('v \<times> byte list) option) \<Rightarrow> nat \<Rightarrow> byte list \<Rightarrow> 'v list" where
  "decode_many dec 0 bs = []"
| "decode_many dec (Suc n) bs =
     (case dec bs of None \<Rightarrow> [] | Some (v, rest) \<Rightarrow> v # decode_many dec n rest)"

context codec
begin

lemma decode_stream:
  "list_all ok vs \<Longrightarrow> decode_many dec (length vs) (concat (map enc vs) @ rest) = vs"
  by (induction vs) (auto simp: dec_enc)

end

section \<open>Growing counters\<close>

text \<open>
  A receiver that remembers the last sequence number it accepted and takes a new one only if
  it is larger. \<open>accept s n\<close> is the state after a number is offered and whether it was taken.
\<close>

fun accepted :: "('s \<Rightarrow> 'i \<Rightarrow> 's \<times> 'c option) \<Rightarrow> 's \<Rightarrow> 'i list \<Rightarrow> 'c list" where
  "accepted step s [] = []"
| "accepted step s (i # is) =
     (case step s i of
        (s', None) \<Rightarrow> accepted step s' is
      | (s', Some n) \<Rightarrow> n # accepted step s' is)"

locale guarded_counter =
  fixes last_seen :: "'s \<Rightarrow> 'c::linorder option"
    and step :: "'s \<Rightarrow> 'i \<Rightarrow> 's \<times> 'c option"
  assumes reject: "step s i = (s', None) \<Longrightarrow> last_seen s' = last_seen s"
    and accept: "step s i = (s', Some n) \<Longrightarrow>
       last_seen s' = Some n \<and> (\<forall>m. last_seen s = Some m \<longrightarrow> m < n)"
begin

lemma accepted_above: "last_seen s = Some m \<Longrightarrow> n \<in> set (accepted step s is) \<Longrightarrow> m < n"
proof (induction "is" arbitrary: s m)
  case (Cons i "is")
  obtain s' x where st: "step s i = (s', x)" by (cases "step s i")
  show ?case
  proof (cases x)
    case None
    with Cons st reject [of s i s'] show ?thesis by simp
  next
    case (Some k)
    with st accept [of s i s' k] Cons.prems(1) have "last_seen s' = Some k" "m < k" by auto
    with Cons.IH [of s' k] Cons.prems(2) st Some show ?thesis
      by auto
  qed
qed simp

lemma accepted_strict: "sorted_wrt (<) (accepted step s is)"
proof (induction "is" arbitrary: s)
  case (Cons i "is")
  obtain s' x where st: "step s i = (s', x)" by (cases "step s i")
  show ?case
  proof (cases x)
    case None
    with Cons st show ?thesis by simp
  next
    case (Some k)
    with st accept [of s i s' k] have "last_seen s' = Some k" by auto
    with accepted_above [of s' k] Cons.IH st Some show ?thesis by simp
  qed
qed simp

lemma accepted_distinct: "distinct (accepted step s is)"
  using accepted_strict [of s "is"] by (simp add: strict_sorted_iff)

end

end
