(* ===== verification/Reflex_Session.thy ===== *)
theory Reflex_Session
  imports Interfaces
begin

text \<open>
  \<^verbatim>\<open>proxy/reflex/session.go\<close>: the encrypted frame layer of the Reflex protocol. A frame on the
  wire is a two-byte length, a 12-byte nonce that carries the sender's 64-bit counter, and the
  sealed plaintext (type byte and payload). The cipher (ChaCha20-Poly1305 of
  \<^verbatim>\<open>golang.org/x/crypto\<close>) is a parameter: the \<open>AEAD\<close> a session holds, and the function
  \<open>chacha_New\<close> that makes one from a key. Theorems that need its documented behaviour assume
  \<open>chacha_ok\<close>.
\<close>

section \<open>Model\<close>

definition FrameTypeData :: byte where "FrameTypeData = 0x00"
definition FrameTypePaddingCtrl :: byte where "FrameTypePaddingCtrl = 0x01"
definition FrameTypeTimingCtrl :: byte where "FrameTypeTimingCtrl = 0x02"

record Session =
  s_aead :: AEAD
  writeNonceCount :: u64
  readNonceCount :: u64
  readSeen :: bool

record Frame =
  f_Type :: byte
  f_Payload :: "byte list"

definition chacha_ok :: "AEAD \<Rightarrow> bool" where
  "chacha_ok a \<longleftrightarrow> aead_ok a \<and> NonceSize a = 12 \<and> Overhead a = 16"

definition NewSession :: "(byte list \<Rightarrow> goerr + AEAD) \<Rightarrow> byte list \<Rightarrow> goerr + Session" where
  "NewSession chacha_New sessionKey =
     (if length sessionKey \<noteq> 32 then Inl (ErrMsg ''reflex: session key must be 32 bytes'')
      else
        (case chacha_New sessionKey of
           Inl e \<Rightarrow> Inl e
         | Inr a \<Rightarrow> Inr \<lparr>s_aead = a, writeNonceCount = 0, readNonceCount = 0, readSeen = False\<rparr>))"

definition makeNonce :: "byte list \<Rightarrow> u64 \<Rightarrow> byte list" where
  "makeNonce nonceOut counter =
     (if length nonceOut < 12 then nonceOut else blit nonceOut 4 (PutUint64 counter))"

definition WriteFrame ::
  "Session \<Rightarrow> sink \<Rightarrow> byte \<Rightarrow> byte list \<Rightarrow> goerr option \<times> Session \<times> sink" where
  "WriteFrame s w frameType payload =
     (let nonceCount = writeNonceCount s;
          s' = s\<lparr>writeNonceCount := writeNonceCount s + 1\<rparr>;
          plaintext = frameType # payload;
          nonce = makeNonce (replicate (NonceSize (s_aead s)) 0) nonceCount;
          ciphertext = Seal (s_aead s) nonce plaintext;
          totalLen = length nonce + length ciphertext;
          header = PutUint16 (of_nat totalLen)
      in case io_Write header w of
           (_, Some e, w1) \<Rightarrow> (Some e, s', w1)
         | (_, None, w1) \<Rightarrow>
             (case io_Write nonce w1 of
                (_, Some e, w2) \<Rightarrow> (Some e, s', w2)
              | (_, None, w2) \<Rightarrow>
                  (case io_Write ciphertext w2 of (_, e, w3) \<Rightarrow> (e, s', w3))))"

text \<open>
  Reading a frame. The slice \<^verbatim>\<open>nonce[4:12]\<close> is in range because the cipher's nonce size is 12.
\<close>

definition ReadFrame :: "Session \<Rightarrow> instream \<Rightarrow> (goerr + Frame) \<times> Session \<times> instream" where
  "ReadFrame s r =
     (case io_ReadFull 2 r of
        (_, Some e, r1) \<Rightarrow> (Inl e, s, r1)
      | (lenBuf, None, r1) \<Rightarrow>
          (let totalLen = int (unat (Uint16 lenBuf));
               nonceSize = int (NonceSize (s_aead s));
               cipherLen = totalLen - nonceSize
           in if totalLen < nonceSize then (Inl (ErrMsg ''reflex: frame too short''), s, r1)
              else if cipherLen < int (Overhead (s_aead s))
                then (Inl (ErrMsg ''reflex: ciphertext too short''), s, r1)
              else
                (case io_ReadFull (nat nonceSize) r1 of
                   (_, Some e, r2) \<Rightarrow> (Inl e, s, r2)
                 | (nonce, None, r2) \<Rightarrow>
                     (case io_ReadFull (nat cipherLen) r2 of
                        (_, Some e, r3) \<Rightarrow> (Inl e, s, r3)
                      | (ciphertext, None, r3) \<Rightarrow>
                          (case Open (s_aead s) nonce ciphertext of
                             Inl e \<Rightarrow> (Inl e, s, r3)
                           | Inr plaintext \<Rightarrow>
                               (case plaintext of
                                  [] \<Rightarrow> (Inl (ErrMsg ''reflex: empty plaintext''), s, r3)
                                | ty # payload \<Rightarrow>
                                    (let readCounter = Uint64 (take 8 (drop 4 nonce)) in
                                     if readSeen s \<and> readCounter \<le> readNonceCount s
                                     then (Inl (ErrMsg ''reflex: replay detected''), s, r3)
                                     else (Inr \<lparr>f_Type = ty, f_Payload = payload\<rparr>,
                                           s\<lparr>readSeen := True, readNonceCount := readCounter\<rparr>,
                                           r3))))))))"

section \<open>The wire format\<close>

definition frame_nonce :: "u64 \<Rightarrow> byte list" where
  "frame_nonce n = replicate 4 0 @ PutUint64 n"

definition frame_wire :: "AEAD \<Rightarrow> u64 \<Rightarrow> byte \<Rightarrow> byte list \<Rightarrow> byte list" where
  "frame_wire a n ty payload =
     (let ct = Seal a (frame_nonce n) (ty # payload)
      in PutUint16 (of_nat (12 + length ct)) @ frame_nonce n @ ct)"

lemma length_frame_nonce [simp]: "length (frame_nonce n) = 12"
  by (simp add: frame_nonce_def)

lemma frame_nonce_inj: "frame_nonce m = frame_nonce n \<longleftrightarrow> m = n"
  by (metis Uint_Put_exact(3) append_eq_append_conv frame_nonce_def)

lemma makeNonce_12: "makeNonce (replicate 12 0) n = frame_nonce n"
  by (simp add: makeNonce_def frame_nonce_def blit_def)

lemma Uint64_frame_nonce [simp]:
  "Uint64 (take 8 (drop 4 (frame_nonce n))) = n" "Uint64 (drop 4 (frame_nonce n)) = n"
  by (simp_all add: frame_nonce_def)

lemma WriteFrame_ok:
  assumes "NonceSize (s_aead s) = 12" and "WriteFrame s w ty payload = (None, s', w')"
  shows "sent w' = sent w @ frame_wire (s_aead s) (writeNonceCount s) ty payload"
    and "s' = s\<lparr>writeNonceCount := writeNonceCount s + 1\<rparr>"
  using assms
  by (auto simp: WriteFrame_def Let_def makeNonce_12 frame_wire_def split: prod.splits option.splits
      dest!: io_Write_ok)

lemma WriteFrame_no_faults:
  assumes "NonceSize (s_aead s) = 12" and "faults w = []"
  obtains w' where "WriteFrame s w ty payload = (None, s\<lparr>writeNonceCount := writeNonceCount s + 1\<rparr>, w')"
    "sent w' = sent w @ frame_wire (s_aead s) (writeNonceCount s) ty payload" "faults w' = []"
  using assms that
  by (simp add: WriteFrame_def Let_def makeNonce_12 frame_wire_def io_Write_no_faults sent_def)

text \<open>The counter moves even when the connection fails: a nonce is never used again.\<close>

lemma WriteFrame_counter:
  "WriteFrame s w ty payload = (e, s', w') \<Longrightarrow>
   writeNonceCount s' = writeNonceCount s + 1 \<and> s_aead s' = s_aead s \<and>
   readSeen s' = readSeen s \<and> readNonceCount s' = readNonceCount s"
  by (auto simp: WriteFrame_def Let_def split: prod.splits option.splits)

section \<open>Reading back\<close>

lemma frame_ct:
  assumes "chacha_ok a" "length payload < 65535"
  shows length_frame_ct: "length (Seal a (frame_nonce n) (ty # payload)) = length payload + 17"
    and open_frame_ct:
      "Open a (frame_nonce n) (Seal a (frame_nonce n) (ty # payload)) = Inr (ty # payload)"
proof -
  have "aead a" using assms(1) by (simp add: chacha_ok_def aead_def)
  moreover have "length (frame_nonce n) = NonceSize a" "length (ty # payload) < 65536"
    using assms by (simp_all add: chacha_ok_def)
  ultimately show "length (Seal a (frame_nonce n) (ty # payload)) = length payload + 17"
    and "Open a (frame_nonce n) (Seal a (frame_nonce n) (ty # payload)) = Inr (ty # payload)"
    using assms(1) by (simp_all add: aead.length_seal aead.open_seal chacha_ok_def)
qed

lemma unat_of_nat_16: "n < 65536 \<Longrightarrow> unat (of_nat n :: u16) = n"
  by (simp add: unat_of_nat)

text \<open>The frame at the head of the stream is read, whatever the session's counters say.\<close>

lemma ReadFrame_wire:
  assumes "chacha_ok (s_aead s)" "length payload \<le> 65506"
    and "flat r = frame_wire (s_aead s) n ty payload @ rest"
  obtains r' where
    "ReadFrame s r =
       (if readSeen s \<and> n \<le> readNonceCount s
        then (Inl (ErrMsg ''reflex: replay detected''), s, r')
        else (Inr \<lparr>f_Type = ty, f_Payload = payload\<rparr>,
              s\<lparr>readSeen := True, readNonceCount := n\<rparr>, r'))"
    "flat r' = rest" "fin r' = fin r"
proof -
  define ct where "ct = Seal (s_aead s) (frame_nonce n) (ty # payload)"
  have ct: "length ct = length payload + 17" "Open (s_aead s) (frame_nonce n) ct = Inr (ty # payload)"
    using frame_ct [OF assms(1), of payload] assms(2) by (simp_all add: ct_def)
  define hdr where "hdr = PutUint16 (of_nat (12 + length ct))"
  have fl: "flat r = hdr @ frame_nonce n @ ct @ rest"
    using assms(3) by (simp add: frame_wire_def ct_def hdr_def Let_def)
  have len: "unat (Uint16 hdr) = length payload + 29"
    using unat_of_nat_16 [of "length payload + 29"] assms(2) ct(1) by (simp add: hdr_def add.commute)
  have lh: "length hdr = 2" by (simp add: hdr_def)
  obtain r1 where r1: "io_ReadFull 2 r = (hdr, None, r1)" "flat r1 = frame_nonce n @ ct @ rest"
      "fin r1 = fin r"
    using io_ReadFull_ok [of 2 r] fl lh by auto
  obtain r2 where r2: "io_ReadFull 12 r1 = (frame_nonce n, None, r2)" "flat r2 = ct @ rest"
      "fin r2 = fin r1"
    using io_ReadFull_ok [of 12 r1] r1 by auto
  obtain r3 where r3: "io_ReadFull (17 + length payload) r2 = (ct, None, r3)" "flat r3 = rest"
      "fin r3 = fin r2"
    using io_ReadFull_ok [of "17 + length payload" r2] r2 ct(1) by (auto simp: add.commute)
  have "NonceSize (s_aead s) = 12" "Overhead (s_aead s) = 16"
    using assms(1) by (simp_all add: chacha_ok_def)
  then have "ReadFrame s r =
       (if readSeen s \<and> n \<le> readNonceCount s
        then (Inl (ErrMsg ''reflex: replay detected''), s, r3)
        else (Inr \<lparr>f_Type = ty, f_Payload = payload\<rparr>,
              s\<lparr>readSeen := True, readNonceCount := n\<rparr>, r3))"
    using r1(1) r2(1) r3(1) len ct(2)
    by (simp add: ReadFrame_def Let_def nat_add_distrib)
  with that r1(3) r2(3) r3(2,3) show thesis by simp
qed

text \<open>A frame is accepted only with a counter above the last accepted one.\<close>

lemma ReadFrame_cases:
  assumes "ReadFrame s r = (res, s', r')"
  shows "(\<exists>e. res = Inl e \<and> s' = s) \<or>
    (\<exists>f n. res = Inr f \<and> s' = s\<lparr>readSeen := True, readNonceCount := n\<rparr> \<and>
       (readSeen s \<longrightarrow> readNonceCount s < n))"
  using assms
  by (auto simp: ReadFrame_def Let_def not_le split: prod.splits option.splits if_splits sum.splits
      list.splits)

lemma ReadFrame_shrinks:
  assumes "ReadFrame s r = (res, s', r')"
  shows "length (flat r') \<le> length (flat r)" and "res = Inr f \<Longrightarrow> length (flat r') < length (flat r)"
  using assms
  by (auto simp: ReadFrame_def Let_def split: prod.splits option.splits if_splits sum.splits
      list.splits dest!: io_ReadFull_None io_ReadFull_Some)

lemma ReadFrame_aead:
  "ReadFrame s r = (res, s', r') \<Longrightarrow> s_aead s' = s_aead s \<and> writeNonceCount s' = writeNonceCount s"
  using ReadFrame_cases [of s r res s' r'] by auto

text \<open>Reading depends on the bytes of the stream, not on how they arrive.\<close>

lemma io_ReadFull_cong:
  assumes "flat r2 = flat r" "io_ReadFull k r = (bs, None, r')"
  obtains r2' where "io_ReadFull k r2 = (bs, None, r2')" "flat r2' = flat r'"
  using io_ReadFull_None [OF assms(2)] io_ReadFull_ok [of k r2] assms(1) that by metis

lemma ReadFrame_again:
  assumes ok: "ReadFrame s r = (Inr f, s', r')"
    and same: "flat r2 = flat r" "s_aead s2 = s_aead s"
  obtains r2' where
    "ReadFrame s2 r2 =
       (if readSeen s2 \<and> readNonceCount s' \<le> readNonceCount s2
        then (Inl (ErrMsg ''reflex: replay detected''), s2, r2')
        else (Inr f, s2\<lparr>readSeen := True, readNonceCount := readNonceCount s'\<rparr>, r2'))"
proof -
  let ?N = "NonceSize (s_aead s)"
  obtain lenBuf r1 nonce ra ct rb ty pl where
    1: "io_ReadFull 2 r = (lenBuf, None, r1)"
    and 2: "\<not> int (unat (Uint16 lenBuf)) < int ?N"
      "\<not> int (unat (Uint16 lenBuf)) - int ?N < int (Overhead (s_aead s))"
    and 3: "io_ReadFull (nat (int ?N)) r1 = (nonce, None, ra)"
    and 4: "io_ReadFull (nat (int (unat (Uint16 lenBuf)) - int ?N)) ra = (ct, None, rb)"
    and 5: "Open (s_aead s) nonce ct = Inr (ty # pl)"
    and 6: "f = \<lparr>f_Type = ty, f_Payload = pl\<rparr>"
      "readNonceCount s' = Uint64 (take 8 (drop 4 nonce))"
    using ok unfolding ReadFrame_def
    by (auto simp: Let_def split: prod.splits option.splits if_splits sum.splits list.splits)
  obtain q1 where q1: "io_ReadFull 2 r2 = (lenBuf, None, q1)" "flat q1 = flat r1"
    using io_ReadFull_cong [OF same(1) 1] .
  obtain q2 where q2: "io_ReadFull (nat (int ?N)) q1 = (nonce, None, q2)" "flat q2 = flat ra"
    using io_ReadFull_cong [OF q1(2) 3] .
  obtain q3 where q3:
    "io_ReadFull (nat (int (unat (Uint16 lenBuf)) - int ?N)) q2 = (ct, None, q3)"
    using io_ReadFull_cong [OF q2(2) 4] .
  show thesis
    using that [of q3] 2 5 6 q1(1) q2(1) q3 same(2) unfolding ReadFrame_def by (simp add: Let_def)
qed

section \<open>Runs of a session\<close>

text \<open>One incoming stream offered to the reader, and the counter it accepted, if any.\<close>

definition last_read :: "Session \<Rightarrow> u64 option" where
  "last_read s = (if readSeen s then Some (readNonceCount s) else None)"

definition read_step :: "Session \<Rightarrow> instream \<Rightarrow> Session \<times> u64 option" where
  "read_step s r =
     (case ReadFrame s r of
        (Inl _, s', _) \<Rightarrow> (s', None)
      | (Inr _, s', _) \<Rightarrow> (s', Some (readNonceCount s')))"

definition read_run :: "Session \<Rightarrow> instream list \<Rightarrow> Session" where
  "read_run s rs = foldl (\<lambda>s r. fst (read_step s r)) s rs"

interpretation replay: guarded_counter last_read read_step
proof
  fix s i s'
  assume "read_step s i = (s', None)"
  then show "last_read s' = last_read s"
    using ReadFrame_cases [of s i] by (auto simp: read_step_def split: prod.splits sum.splits)
next
  fix s i s' n
  assume "read_step s i = (s', Some n)"
  then show "last_read s' = Some n \<and> (\<forall>m. last_read s = Some m \<longrightarrow> m < n)"
    using ReadFrame_cases [of s i]
    by (fastforce simp: read_step_def last_read_def split: prod.splits sum.splits if_splits)
qed

lemma read_run_mono:
  assumes "readSeen s"
  shows "readSeen (read_run s rs) \<and> readNonceCount s \<le> readNonceCount (read_run s rs) \<and>
         s_aead (read_run s rs) = s_aead s"
  using assms
proof (induction rs arbitrary: s)
  case Nil
  then show ?case by (simp add: read_run_def)
next
  case (Cons r rs)
  obtain res s1 r1 where rd: "ReadFrame s r = (res, s1, r1)" by (cases "ReadFrame s r") auto
  have "readSeen s1 \<and> readNonceCount s \<le> readNonceCount s1 \<and> s_aead s1 = s_aead s"
    using ReadFrame_cases [OF rd] Cons.prems by auto
  moreover have "read_run s (r # rs) = read_run s1 rs"
    using rd by (auto simp: read_run_def read_step_def split: sum.splits)
  ultimately show ?case
    using Cons.IH [of s1] by auto
qed

text \<open>Writing a list of frames, and reading a number of them.\<close>

fun write_frames :: "Session \<Rightarrow> sink \<Rightarrow> (byte \<times> byte list) list \<Rightarrow> goerr option \<times> Session \<times> sink" where
  "write_frames s w [] = (None, s, w)"
| "write_frames s w ((ty, payload) # fs) =
     (case WriteFrame s w ty payload of
        (Some e, s', w') \<Rightarrow> (Some e, s', w')
      | (None, s', w') \<Rightarrow> write_frames s' w' fs)"

fun read_frames :: "nat \<Rightarrow> Session \<Rightarrow> instream \<Rightarrow> Frame list \<times> Session \<times> instream" where
  "read_frames 0 s r = ([], s, r)"
| "read_frames (Suc k) s r =
     (case ReadFrame s r of
        (Inl _, s', r') \<Rightarrow> ([], s', r')
      | (Inr f, s', r') \<Rightarrow> (let (fs, s2, r2) = read_frames k s' r' in (f # fs, s2, r2)))"

fun wires :: "AEAD \<Rightarrow> u64 \<Rightarrow> (byte \<times> byte list) list \<Rightarrow> byte list" where
  "wires a n [] = []"
| "wires a n ((ty, payload) # fs) = frame_wire a n ty payload @ wires a (n + 1) fs"

lemma write_frames_wires:
  assumes "NonceSize (s_aead s) = 12" "write_frames s w fs = (None, s', w')"
  shows "sent w' = sent w @ wires (s_aead s) (writeNonceCount s) fs \<and>
         writeNonceCount s' = writeNonceCount s + of_nat (length fs)"
  using assms
proof (induction s w fs rule: write_frames.induct)
  case (2 s w ty payload fs)
  obtain s1 w1 where wr: "WriteFrame s w ty payload = (None, s1, w1)"
    using "2.prems"(2) by (auto split: prod.splits option.splits)
  note W = WriteFrame_ok [OF "2.prems"(1) wr]
  with "2.IH" [OF wr [symmetric] refl refl] "2.prems" wr show ?case
    by (auto simp: add_ac)
qed simp

text \<open>
  The reader's counter stays below the sender's as long as the sender's counter does not wrap.
\<close>

lemma read_frames_wires:
  assumes "chacha_ok (s_aead s)" "\<forall>(ty, payload) \<in> set fs. length payload \<le> 65506"
    and "flat r = wires (s_aead s) n fs @ rest"
    and "readSeen s \<longrightarrow> readNonceCount s < n"
    and "unat n + length fs \<le> 2 ^ 64"
  shows "\<exists>s' r'. read_frames (length fs) s r =
      (map (\<lambda>(ty, payload). \<lparr>f_Type = ty, f_Payload = payload\<rparr>) fs, s', r') \<and> flat r' = rest"
  using assms
proof (induction fs arbitrary: s r n)
  case Nil
  then show ?case by simp
next
  case (Cons x fs)
  obtain ty payload where x: "x = (ty, payload)" by (cases x)
  from Cons.prems x have "length payload \<le> 65506"
    "flat r = frame_wire (s_aead s) n ty payload @ wires (s_aead s) (n + 1) fs @ rest"
    by auto
  with Cons.prems(1) obtain r1 where
    rd: "ReadFrame s r =
       (if readSeen s \<and> n \<le> readNonceCount s
        then (Inl (ErrMsg ''reflex: replay detected''), s, r1)
        else (Inr \<lparr>f_Type = ty, f_Payload = payload\<rparr>,
              s\<lparr>readSeen := True, readNonceCount := n\<rparr>, r1))"
    and r1: "flat r1 = wires (s_aead s) (n + 1) fs @ rest"
    by (metis ReadFrame_wire)
  let ?s1 = "s\<lparr>readSeen := True, readNonceCount := n\<rparr>"
  have acc: "ReadFrame s r = (Inr \<lparr>f_Type = ty, f_Payload = payload\<rparr>, ?s1, r1)"
    using rd Cons.prems(4) by auto
  show ?case
  proof (cases "fs = []")
    case True
    with acc x r1 show ?thesis by simp
  next
    case False
    then have "unat n + 1 < 2 ^ 64"
      using Cons.prems(5) by (cases fs) auto
    then have n1: "unat (n + 1) = unat n + 1"
      by (simp add: unat_word_ariths)
    then have "n < n + 1"
      by (simp add: word_less_nat_alt)
    with Cons.IH [of ?s1 r1 "n + 1"] Cons.prems r1 n1 obtain s' r' where
      "read_frames (length fs) ?s1 r1 =
        (map (\<lambda>(ty, payload). \<lparr>f_Type = ty, f_Payload = payload\<rparr>) fs, s', r')" "flat r' = rest"
      by auto
    with acc x show ?thesis by simp
  qed
qed

text \<open>The header of a frame that is too large for the length field.\<close>

lemma unat_of_nat_16_wrap: "65536 \<le> n \<Longrightarrow> n < 131072 \<Longrightarrow> unat (of_nat n :: u16) = n - 65536"
  by (simp add: unat_of_nat mod_if)

lemma wires_nonces:
  "wires a n fs =
     concat (map2 (\<lambda>k (ty, payload). frame_wire a k ty payload)
       (map (\<lambda>i. n + of_nat i) [0..<length fs]) fs)"
proof (induction fs arbitrary: n)
  case (Cons x fs)
  have "map (\<lambda>i. n + of_nat i) [0..<length (x # fs)] =
        n # map (\<lambda>i. n + 1 + of_nat i) [0..<length fs]"
    by (simp add: upt_conv_Cons map_Suc_upt [symmetric] add_ac del: upt_Suc)
  with Cons show ?case by (cases x) (simp del: upt_Suc)
qed simp

lemma inj_counters: "m \<le> 2 ^ 64 \<Longrightarrow> distinct (map (\<lambda>i. n + of_nat i :: u64) [0..<m])"
  by (auto simp: distinct_map inj_on_def word_of_nat_eq_iff take_bit_nat_eq_self)

lemma write_frames_no_faults:
  assumes "NonceSize (s_aead s) = 12" "faults w = []"
  shows "\<exists>s' w'. write_frames s w fs = (None, s', w') \<and> faults w' = []"
  using assms
proof (induction fs arbitrary: s w)
  case (Cons x fs)
  obtain ty payload where x: "x = (ty, payload)" by (cases x)
  obtain w1 where "WriteFrame s w ty payload = (None, s\<lparr>writeNonceCount := writeNonceCount s + 1\<rparr>, w1)"
    "faults w1 = []"
    by (rule WriteFrame_no_faults [OF Cons.prems])
  with Cons.IH [of "s\<lparr>writeNonceCount := writeNonceCount s + 1\<rparr>" w1] Cons.prems x show ?case by simp
qed simp

text \<open>
  A concrete cipher for the witnesses: it has the sizes of ChaCha20-Poly1305, its tag is the
  nonce.
\<close>

definition tag_aead :: AEAD where
  "tag_aead = \<lparr>NonceSize = 12, Overhead = 16,
     Seal = (\<lambda>nonce plain. plain @ take 16 (nonce @ replicate 16 0)),
     Open = (\<lambda>nonce ct.
       if 16 \<le> length ct \<and> drop (length ct - 16) ct = take 16 (nonce @ replicate 16 0)
       then Inr (take (length ct - 16) ct)
       else Inl (ErrMsg ''chacha20poly1305: message authentication failed''))\<rparr>"

definition tag_session :: Session where
  "tag_session = \<lparr>s_aead = tag_aead, writeNonceCount = 0, readNonceCount = 0, readSeen = False\<rparr>"

lemma tag_aead_ok: "chacha_ok tag_aead"
  by (auto simp: tag_aead_def chacha_ok_def aead_ok_def min_def)

lemma tag_session_simps [simp]:
  "s_aead tag_session = tag_aead" "writeNonceCount tag_session = 0" "readSeen tag_session = False"
  "readNonceCount tag_session = 0" "NonceSize tag_aead = 12"
  by (simp_all add: tag_session_def tag_aead_def)

lemma length_Seal_tag: "length nonce = 12 \<Longrightarrow> length (Seal tag_aead nonce plain) = length plain + 16"
  by (simp add: tag_aead_def)

lemma tag_session_ok: "chacha_ok (s_aead tag_session)"
  by (simp add: tag_aead_ok)

end
