(* ===== verification/Reflex_Morph.thy ===== *)
theory Reflex_Morph
  imports Reflex_Session "HOL-Library.Log_Nat" "HOL-Library.Multiset"
begin

text \<open>
  \<^verbatim>\<open>proxy/reflex/morph.go\<close>: traffic morphing. A \<open>TrafficProfile\<close> holds the distributions of
  packet sizes and delays of an imitated protocol and two one-shot overrides that control
  frames set. The results of \<^verbatim>\<open>rand.Float64\<close> and \<^verbatim>\<open>crypto/rand.Read\<close> are arguments; so is the order
  in which Go iterates over a map. A \<^verbatim>\<open>float64\<close> is the rational it stands for, and every
  operation on it rounds to the nearest double, ties to even (\<open>float64\<close> below; the values here
  are far from overflow and from the subnormal range). A \<^verbatim>\<open>time.Duration\<close> is a 64-bit word read
  as signed.
\<close>

section \<open>Model\<close>

type_synonym Duration = "64 word"

definition Millisecond :: Duration where "Millisecond = 1000000"

definition round_half_even :: "rat \<Rightarrow> int" where
  "round_half_even x =
     (let f = \<lfloor>x\<rfloor>; d = x - of_int f
      in if d < 1 / 2 \<or> (d = 1 / 2 \<and> even f) then f else f + 1)"

definition binary_exponent :: "rat \<Rightarrow> int" where
  "binary_exponent x =
     (let (p, q) = quotient_of x; e = bitlen p - bitlen q
      in if 2 powi e \<le> x then e else e - 1)"

definition float64 :: "rat \<Rightarrow> rat" where
  "float64 x =
     (if x = 0 then 0
      else
        (let ulp = 2 powi (binary_exponent \<bar>x\<bar> - 52)
         in sgn x * (of_int (round_half_even (\<bar>x\<bar> / ulp)) * ulp)))"

record PacketSizeDist =
  ps_Size :: int
  ps_Weight :: rat

record DelayDist =
  dd_Delay :: Duration
  dd_Weight :: rat

record TrafficProfile =
  tp_Name :: string
  PacketSizes :: "PacketSizeDist list"
  Delays :: "DelayDist list"
  nextPacketSize :: int
  nextDelay :: Duration

definition size_dist :: "(int \<times> rat) list \<Rightarrow> PacketSizeDist list" where
  "size_dist xs = map (\<lambda>(n, w). \<lparr>ps_Size = n, ps_Weight = float64 w\<rparr>) xs"

definition delay_dist :: "(Duration \<times> rat) list \<Rightarrow> DelayDist list" where
  "delay_dist xs = map (\<lambda>(n, w). \<lparr>dd_Delay = n * Millisecond, dd_Weight = float64 w\<rparr>) xs"

definition Profiles :: "string \<rightharpoonup> TrafficProfile" where
  "Profiles =
     [''youtube'' \<mapsto>
        \<lparr>tp_Name = ''YouTube'',
         PacketSizes = size_dist [(1400, 4/10), (1200, 3/10), (1000, 2/10), (800, 1/10)],
         Delays = delay_dist [(10, 5/10), (20, 3/10), (30, 2/10)],
         nextPacketSize = 0, nextDelay = 0\<rparr>,
      ''zoom'' \<mapsto>
        \<lparr>tp_Name = ''Zoom'',
         PacketSizes = size_dist [(500, 3/10), (600, 4/10), (700, 3/10)],
         Delays = delay_dist [(30, 4/10), (40, 4/10), (50, 2/10)],
         nextPacketSize = 0, nextDelay = 0\<rparr>,
      ''http2-api'' \<mapsto>
        \<lparr>tp_Name = ''HTTP/2 API'',
         PacketSizes = size_dist [(200, 2/10), (500, 3/10), (1000, 3/10), (1500, 2/10)],
         Delays = delay_dist [(5, 3/10), (10, 4/10), (15, 3/10)],
         nextPacketSize = 0, nextDelay = 0\<rparr>]"

text \<open>The sampling loop: \<open>cs\<close> is the running sum, \<open>r\<close> the value of \<^verbatim>\<open>rand.Float64()\<close>.\<close>

fun sample :: "('d \<Rightarrow> 'v) \<Rightarrow> ('d \<Rightarrow> rat) \<Rightarrow> rat \<Rightarrow> rat \<Rightarrow> 'd list \<Rightarrow> 'v option" where
  "sample val weight r cs [] = None"
| "sample val weight r cs (d # ds) =
     (let cs' = float64 (cs + weight d)
      in if r \<le> cs' then Some (val d) else sample val weight r cs' ds)"

definition GetPacketSize :: "rat \<Rightarrow> TrafficProfile \<Rightarrow> int \<times> TrafficProfile" where
  "GetPacketSize r p =
     (if nextPacketSize p > 0 then (nextPacketSize p, p\<lparr>nextPacketSize := 0\<rparr>)
      else if PacketSizes p = [] then (0, p)
      else
        (case sample ps_Size ps_Weight r 0 (PacketSizes p) of
           Some n \<Rightarrow> (n, p)
         | None \<Rightarrow> (ps_Size (last (PacketSizes p)), p)))"

definition GetDelay :: "rat \<Rightarrow> TrafficProfile \<Rightarrow> Duration \<times> TrafficProfile" where
  "GetDelay r p =
     (if 0 <s nextDelay p then (nextDelay p, p\<lparr>nextDelay := 0\<rparr>)
      else if Delays p = [] then (0, p)
      else
        (case sample dd_Delay dd_Weight r 0 (Delays p) of
           Some d \<Rightarrow> (d, p)
         | None \<Rightarrow> (dd_Delay (last (Delays p)), p)))"

definition SetNextPacketSize :: "int \<Rightarrow> TrafficProfile \<Rightarrow> TrafficProfile" where
  "SetNextPacketSize n p = p\<lparr>nextPacketSize := n\<rparr>"

definition SetNextDelay :: "Duration \<Rightarrow> TrafficProfile \<Rightarrow> TrafficProfile" where
  "SetNextDelay d p = p\<lparr>nextDelay := d\<rparr>"

text \<open>\<open>crand n\<close> is what \<^verbatim>\<open>crypto/rand.Read\<close> puts into a slice of \<open>n\<close> bytes.\<close>

definition AddPadding :: "(nat \<Rightarrow> byte list) \<Rightarrow> byte list \<Rightarrow> int \<Rightarrow> byte list" where
  "AddPadding crand data targetSize =
     (if targetSize \<le> 0 then data
      else if int (length data) \<ge> targetSize then take (nat targetSize) data
      else data @ crand (nat (targetSize - int (length data))))"

record randomness =
  rd_size :: rat
  rd_delay :: rat
  rd_bytes :: "nat \<Rightarrow> byte list"

text \<open>The last component of the result is the time slept, \<open>0\<close> for none.\<close>

definition WriteFrameWithMorphing ::
  "randomness \<Rightarrow> Session \<Rightarrow> sink \<Rightarrow> byte \<Rightarrow> byte list \<Rightarrow> TrafficProfile option \<Rightarrow>
   goerr option \<times> Session \<times> sink \<times> TrafficProfile option \<times> Duration" where
  "WriteFrameWithMorphing rnd s w frameType payload profile =
     (case profile of
        None \<Rightarrow> (case WriteFrame s w frameType payload of (e, s', w') \<Rightarrow> (e, s', w', None, 0))
      | Some p \<Rightarrow>
          (case GetPacketSize (rd_size rnd) p of
             (targetSize, p1) \<Rightarrow>
               (let morphed = AddPadding (rd_bytes rnd) payload targetSize
                in case WriteFrame s w frameType morphed of
                     (Some e, s', w') \<Rightarrow> (Some e, s', w', Some p1, 0)
                   | (None, s', w') \<Rightarrow>
                       (case GetDelay (rd_delay rnd) p1 of
                          (d, p2) \<Rightarrow> (None, s', w', Some p2, if 0 <s d then d else 0)))))"

definition ApplyControlFrame :: "TrafficProfile option \<Rightarrow> byte \<Rightarrow> byte list \<Rightarrow> TrafficProfile option" where
  "ApplyControlFrame profile frameType payload =
     (case profile of
        None \<Rightarrow> None
      | Some p \<Rightarrow>
          if frameType = FrameTypePaddingCtrl then
            if length payload \<ge> 2 then Some (SetNextPacketSize (int (unat (Uint16 payload))) p)
            else Some p
          else if frameType = FrameTypeTimingCtrl then
            if length payload \<ge> 8 then Some (SetNextDelay (Uint64 payload * Millisecond) p)
            else Some p
          else Some p)"

text \<open>
  The distributions of a capture. \<open>freq\<close> is the Go map built by \<^verbatim>\<open>freq[v]++\<close>; \<open>order\<close> lists its
  keys in the order in which the \<^verbatim>\<open>range\<close> loop visits them.
\<close>

fun freq :: "'v list \<Rightarrow> ('v \<rightharpoonup> nat) \<Rightarrow> ('v \<rightharpoonup> nat)" where
  "freq [] m = m"
| "freq (v # vs) m = freq vs (m(v \<mapsto> (case m v of None \<Rightarrow> 0 | Some n \<Rightarrow> n) + 1))"

definition weight_of :: "('v \<rightharpoonup> nat) \<Rightarrow> nat \<Rightarrow> 'v \<Rightarrow> rat" where
  "weight_of m cnt v = float64 (of_nat (the (m v)) / of_nat cnt)"

definition calculateSizeDistribution :: "int list \<Rightarrow> int list \<Rightarrow> PacketSizeDist list" where
  "calculateSizeDistribution order values =
     (if values = [] then []
      else
        (let m = freq values Map.empty
         in sort_key ps_Size
              (map (\<lambda>v. \<lparr>ps_Size = v, ps_Weight = weight_of m (length values) v\<rparr>) order)))"

definition calculateDelayDistribution :: "Duration list \<Rightarrow> Duration list \<Rightarrow> DelayDist list" where
  "calculateDelayDistribution order values =
     (if values = [] then []
      else
        (let m = freq values Map.empty
         in sort_key (\<lambda>d. sint (dd_Delay d))
              (map (\<lambda>v. \<lparr>dd_Delay = v, dd_Weight = weight_of m (length values) v\<rparr>) order)))"

definition CreateProfileFromCapture ::
  "int list \<Rightarrow> Duration list \<Rightarrow> string \<Rightarrow> int list \<Rightarrow> Duration list \<Rightarrow> TrafficProfile" where
  "CreateProfileFromCapture sorder dorder name packetSizes delays =
     \<lparr>tp_Name = name, PacketSizes = calculateSizeDistribution sorder packetSizes,
      Delays = calculateDelayDistribution dorder delays, nextPacketSize = 0, nextDelay = 0\<rparr>"

section \<open>Lemmas\<close>

lemma sample_member: "sample val weight r cs ds = Some v \<Longrightarrow> v \<in> val ` set ds"
  by (induction ds arbitrary: cs) (auto simp: Let_def split: if_splits)

lemma GetPacketSize_sampled:
  assumes "nextPacketSize p \<le> 0" "PacketSizes p \<noteq> []" "GetPacketSize r p = (n, p')"
  shows "n \<in> ps_Size ` set (PacketSizes p) \<and> p' = p"
  using assms sample_member [of ps_Size ps_Weight r 0 "PacketSizes p"]
  by (auto simp: GetPacketSize_def split: option.splits)

lemma GetDelay_sampled:
  assumes "\<not> 0 <s nextDelay p" "Delays p \<noteq> []" "GetDelay r p = (d, p')"
  shows "d \<in> dd_Delay ` set (Delays p) \<and> p' = p"
  using assms sample_member [of dd_Delay dd_Weight r 0 "Delays p"]
  by (auto simp: GetDelay_def split: option.splits)

lemma length_AddPadding:
  assumes "\<And>n. length (crand n) = n" "0 < targetSize"
  shows "length (AddPadding crand data targetSize) = nat targetSize"
  using assms by (auto simp: AddPadding_def)

lemma AddPadding_prefix:
  "0 < targetSize \<Longrightarrow>
   take (min (length data) (nat targetSize)) (AddPadding crand data targetSize) =
   take (nat targetSize) data"
  by (auto simp: AddPadding_def min_def)

lemma freq_count:
  "freq vs m v =
     (if v \<in> set vs \<or> m v \<noteq> None
      then Some ((case m v of None \<Rightarrow> 0 | Some n \<Rightarrow> n) + count_list vs v) else None)"
  by (induction vs arbitrary: m) (auto split: option.splits)

lemma dom_freq: "dom (freq vs Map.empty) = set vs"
  by (auto simp: dom_def freq_count split: if_splits)

lemma weight_of_freq:
  "v \<in> set vs \<Longrightarrow>
   weight_of (freq vs Map.empty) n v = float64 (of_nat (count_list vs v) / of_nat n)"
  by (simp add: weight_of_def freq_count)

text \<open>Sorting by the key undoes the iteration order of the map.\<close>

lemma sort_key_keys:
  fixes key :: "'v \<Rightarrow> 'k::linorder"
  assumes "\<And>v. key' (f v) = key v" "inj key" "distinct vs" "distinct ws" "set vs = set ws"
  shows "sort_key key' (map f vs) = sort_key key' (map f ws)"
proof -
  have "mset (map f vs) = mset (map f ws)"
    using assms(3-5) by (metis mset_map set_eq_iff_mset_eq_distinct)
  then have "mset (map f vs) = mset (sort_key key' (map f ws))" by simp
  moreover have "inj_on key' (set (map f vs))"
    using assms(1,2) by (auto simp: inj_on_def inj_def)
  ultimately show ?thesis
    by (rule sort_key_inj_key_eq) simp
qed

lemma WriteFrameWithMorphing_Some:
  assumes "WriteFrameWithMorphing rnd s w ty payload (Some p) = (None, s', w', q, d)"
    "GetPacketSize (rd_size rnd) p = (n, p1)"
  shows "WriteFrame s w ty (AddPadding (rd_bytes rnd) payload n) = (None, s', w')"
    and "q = Some (snd (GetDelay (rd_delay rnd) p1))"
    and "d = (if 0 <s fst (GetDelay (rd_delay rnd) p1) then fst (GetDelay (rd_delay rnd) p1) else 0)"
  using assms
  by (auto simp: WriteFrameWithMorphing_def Let_def split: option.splits prod.splits)

lemma uint_pos_iff: "0 < uint k \<longleftrightarrow> k \<noteq> 0"
  by (metis uint_0_iff uint_ge_0 order_le_less less_irrefl)

lemma sort_key_sorted_map:
  fixes vs :: "'v::linorder list"
  assumes "\<And>v. key (f v) = v" "distinct vs"
  shows "sort_key key (map f vs) = map f (sorted_list_of_set (set vs))"
proof -
  have "sort_key key (map f vs) = sort_key key (map f (sorted_list_of_set (set vs)))"
    using assms by (intro sort_key_keys [where key = "\<lambda>v. v"]) auto
  moreover have "sorted (map key (map f (sorted_list_of_set (set vs))))"
    using assms(1) by (simp add: comp_def)
  ultimately show ?thesis by (simp add: sorted_sort_id sort_key_id_if_sorted)
qed

section \<open>Properties\<close>

definition morph_demo_rnd :: randomness where
  "morph_demo_rnd = \<lparr>rd_size = 0, rd_delay = 0, rd_bytes = (\<lambda>n. replicate n 0)\<rparr>"

definition morph_demo :: TrafficProfile where
  "morph_demo = \<lparr>tp_Name = ''demo'', PacketSizes = [\<lparr>ps_Size = 4, ps_Weight = 1\<rparr>], Delays = [],
     nextPacketSize = 0, nextDelay = 0\<rparr>"

text \<open>
  C10: a frame that a session sends with morphing, without an error, to a peer with the same key that has seen no
  counter from this one on, arrives with a payload of exactly one of the sizes of the
  profile (no override being set, all sizes between 1 and 65506), and that payload starts with as
  much of the data as fits: data that fits arrives whole, in front of the padding. Of larger data
  only the first bytes are sent, where \<^verbatim>\<open>docs/step5-advanced.md\<close> splits it and sends the rest in
  further frames; and nothing marks where padding begins.
\<close>

theorem morphed_frame_received:
  assumes "chacha_ok (s_aead s)" "s_aead t = s_aead s" "sent w = []" "flat r = sent w'"
    and "readSeen t \<longrightarrow> readNonceCount t < writeNonceCount s"
    and "\<And>n. length (rd_bytes rnd n) = n"
    and "nextPacketSize p \<le> 0" "PacketSizes p \<noteq> []"
    and "\<forall>d \<in> set (PacketSizes p). 0 < ps_Size d \<and> ps_Size d \<le> 65506"
    and "WriteFrameWithMorphing rnd s w ty payload (Some p) = (None, s', w', q, slept)"
  shows "\<exists>n f t' r'. n \<in> ps_Size ` set (PacketSizes p) \<and> ReadFrame t r = (Inr f, t', r') \<and>
      f_Type f = ty \<and> length (f_Payload f) = nat n \<and>
      take (min (length payload) (nat n)) (f_Payload f) = take (nat n) payload"
proof -
  obtain n p1 where g: "GetPacketSize (rd_size rnd) p = (n, p1)" by fastforce
  let ?m = "AddPadding (rd_bytes rnd) payload n"
  have n: "n \<in> ps_Size ` set (PacketSizes p)" using GetPacketSize_sampled [OF assms(7,8) g] by simp
  with assms(9) have pos: "0 < n" "n \<le> 65506" by auto
  have len: "length ?m = nat n" using length_AddPadding [OF assms(6) pos(1)] .
  have "flat r = frame_wire (s_aead t) (writeNonceCount s) ty ?m @ []"
    using WriteFrame_ok(1) [OF _ WriteFrameWithMorphing_Some(1) [OF assms(10) g]] assms(1-4)
    by (simp add: chacha_ok_def)
  moreover have "length ?m \<le> 65506" using len pos by simp
  ultimately have "\<exists>t' r'. ReadFrame t r = (Inr \<lparr>f_Type = ty, f_Payload = ?m\<rparr>, t', r')"
    using ReadFrame_wire [of t ?m r "writeNonceCount s" ty "[]"] assms(1,2,5)
    by (metis linorder_not_le)
  then obtain t' r' where rd: "ReadFrame t r = (Inr \<lparr>f_Type = ty, f_Payload = ?m\<rparr>, t', r')" by blast
  show ?thesis
    using n rd len AddPadding_prefix [OF pos(1), of payload "rd_bytes rnd"]
    by (intro exI [of _ n] exI [of _ "\<lparr>f_Type = ty, f_Payload = ?m\<rparr>"] exI [of _ t'] exI [of _ r'])
      simp
qed

theorem morphed_frame_received_witness:
  "\<exists>w' r f t' r'. flat r = sent w' \<and> ReadFrame tag_session r = (Inr f, t', r') \<and>
     f_Type f = 0 \<and> length (f_Payload f) = 4 \<and> take 2 (f_Payload f) = [8, 9]"
proof -
  obtain w' where w: "WriteFrame tag_session fresh_sink 0 [8, 9, 0, 0] =
      (None, tag_session\<lparr>writeNonceCount := writeNonceCount tag_session + 1\<rparr>, w')"
    by (rule WriteFrame_no_faults [of tag_session fresh_sink 0 "[8, 9, 0, 0]"]) simp_all
  have f1: "0 \<le> float64 1" by (simp add: float64_def Let_def round_half_even_def)
  have s: "sample ps_Size ps_Weight 0 0 [\<lparr>ps_Size = 4, ps_Weight = 1\<rparr>] = Some 4"
    using f1 by (simp add: Let_def)
  have "WriteFrameWithMorphing morph_demo_rnd tag_session fresh_sink 0 [8, 9] (Some morph_demo) =
      (None, tag_session\<lparr>writeNonceCount := writeNonceCount tag_session + 1\<rparr>, w', Some morph_demo, 0)"
    using w s by (simp add: WriteFrameWithMorphing_def GetPacketSize_def GetDelay_def AddPadding_def
        morph_demo_rnd_def morph_demo_def Let_def numeral_2_eq_2 word_sless_alt)
  from morphed_frame_received [OF tag_session_ok refl _ _ _ _ _ _ _ this,
      of "\<lparr>chunks = [sent w'], fin = EOF\<rparr>"]
  obtain n f t' r' where
    "ReadFrame tag_session \<lparr>chunks = [sent w'], fin = EOF\<rparr> = (Inr f, t', r')" "f_Type f = 0"
    "n = 4" "length (f_Payload f) = nat n" "take (min 2 (nat n)) (f_Payload f) = take (nat n) [8, 9]"
    by (auto simp: morph_demo_rnd_def morph_demo_def numeral_2_eq_2)
  then show ?thesis
    by (intro exI [of _ w'] exI [of _ "\<lparr>chunks = [sent w'], fin = EOF\<rparr>"] exI [of _ f]) simp
qed

text \<open>
  a PADDING_CTRL frame with a non-zero size fixes the size of the next packet whatever the
  random source says, and only of that one: the profile is then as before, with no override.
\<close>

theorem padding_ctrl_one_shot:
  assumes "k \<noteq> 0"
    and "ApplyControlFrame (Some p) FrameTypePaddingCtrl (PutUint16 k @ junk) = Some p'"
  shows "GetPacketSize r p' = (int (unat k), p\<lparr>nextPacketSize := 0\<rparr>)"
  using assms
  by (auto simp: ApplyControlFrame_def GetPacketSize_def SetNextPacketSize_def uint_pos_iff)

theorem padding_ctrl_one_shot_witness:
  "\<exists>p'. GetPacketSize (1 / 2) p' = (800, morph_demo\<lparr>nextPacketSize := 0\<rparr>)"
proof -
  have "\<exists>p'. ApplyControlFrame (Some morph_demo) FrameTypePaddingCtrl (PutUint16 800 @ []) = Some p'"
    by (simp add: ApplyControlFrame_def)
  then show ?thesis
    using padding_ctrl_one_shot [of 800 morph_demo "[]" _ "1 / 2"] by fastforce
qed

text \<open>
  a TIMING_CTRL frame of \<open>ms\<close> milliseconds, \<open>0 < ms\<close>, sets the next delay to exactly \<open>ms\<close>
  milliseconds when that fits a signed 64-bit nanosecond count; from \<open>2 ^ 63\<close> nanoseconds up to
  \<open>2 ^ 64\<close> the product wraps to a negative duration and the override is ignored.
\<close>

theorem timing_ctrl_delay:
  assumes "0 < ms" "unat ms * 1000000 < 2 ^ 64"
    and "ApplyControlFrame (Some p) FrameTypeTimingCtrl (PutUint64 ms) = Some p'"
  shows "GetDelay r p' =
      (if unat ms * 1000000 < 2 ^ 63 then (ms * Millisecond, p\<lparr>nextDelay := 0\<rparr>)
       else (fst (GetDelay r (p\<lparr>nextDelay := 0\<rparr>)), p\<lparr>nextDelay := ms * Millisecond\<rparr>))"
proof -
  have p': "p' = p\<lparr>nextDelay := ms * Millisecond\<rparr>"
    using assms(3)
    by (simp add: ApplyControlFrame_def FrameTypeTimingCtrl_def FrameTypePaddingCtrl_def SetNextDelay_def)
  have u: "unat (ms * Millisecond) = unat ms * 1000000"
    using assms(2) by (simp add: Millisecond_def unat_word_ariths)
  have "0 < unat ms" using assms(1) by (simp add: word_less_nat_alt)
  then have "0 <s ms * Millisecond \<longleftrightarrow> unat ms * 1000000 < 2 ^ 63"
    by (simp add: sless_0_iff u)
  then show ?thesis by (simp add: GetDelay_def p' split: option.splits)
qed

theorem timing_ctrl_delay_witness:
  "\<exists>p'. GetDelay (1 / 2) p' = (250 * Millisecond, morph_demo)"
proof -
  have "\<exists>p'. ApplyControlFrame (Some morph_demo) FrameTypeTimingCtrl (PutUint64 250) = Some p'"
    by (simp add: ApplyControlFrame_def)
  then show ?thesis
    using timing_ctrl_delay [of 250 morph_demo _ "1 / 2"] by (fastforce simp: morph_demo_def)
qed

text \<open>
  the size distribution of a capture lists each observed size once, in increasing order,
  weighted with its share of the packets rounded to a \<^verbatim>\<open>float64\<close>, whatever the order in which
  the runtime iterates over the frequency map.
\<close>

theorem size_distribution:
  assumes "distinct order" "set order = dom (freq values Map.empty)"
  shows "calculateSizeDistribution order values =
      map (\<lambda>v. \<lparr>ps_Size = v,
                ps_Weight = float64 (of_nat (count_list values v) / of_nat (length values))\<rparr>)
        (sorted_list_of_set (set values))"
proof (cases "values = []")
  case False
  have "set order = set values" using assms(2) by (simp add: dom_freq)
  with False assms(1) show ?thesis
    by (auto simp: calculateSizeDistribution_def Let_def sort_key_sorted_map weight_of_freq)
qed (simp add: calculateSizeDistribution_def)

theorem size_distribution_witness:
  "calculateSizeDistribution [900, 100] [100, 900, 100, 100] =
      [\<lparr>ps_Size = 100, ps_Weight = float64 (3 / 4)\<rparr>, \<lparr>ps_Size = 900, ps_Weight = float64 (1 / 4)\<rparr>]"
proof -
  have "set [900, 100] = dom (freq [100, 900, 100, 100 :: int] Map.empty)"
    by (auto simp: dom_freq)
  then show ?thesis
    using size_distribution [of "[900, 100]" "[100, 900, 100, 100]"] by (simp add: insort_remove1)
qed

end
