(* ===== verification/Net_Address.thy ===== *)
theory Net_Address
  imports Go_IO
begin

text \<open>
  Package \<^verbatim>\<open>common/net\<close>: ports and port lists (\<^verbatim>\<open>port.go\<close>), addresses (\<^verbatim>\<open>address.go\<close>),
  networks (\<^verbatim>\<open>network.go\<close>) and destinations (\<^verbatim>\<open>destination.go\<close>), with the textual IP parser
  \<^verbatim>\<open>net.ParseIP\<close> of the standard library they use. An address is never both an IP and a
  domain; a \<^verbatim>\<open>nil\<close> address is \<open>None\<close>.
\<close>

section \<open>Ports\<close>

type_synonym Port = u16

definition PortFromBytes :: "byte list \<Rightarrow> Port" where
  "PortFromBytes port = Uint16 port"

definition PortFromInt :: "u32 \<Rightarrow> goerr + Port" where
  "PortFromInt val = (if val > 65535 then Inl (ErrMsg ''invalid port range'') else Inr (ucast val))"

text \<open>\<^verbatim>\<open>strconv.ParseUint(s, 10, 32)\<close>: non-empty, decimal digits only, below \<open>2^32\<close>.\<close>

definition is_digit :: "byte \<Rightarrow> bool" where
  "is_digit c \<longleftrightarrow> 48 \<le> c \<and> c \<le> 57"

definition decimal :: "gostring \<Rightarrow> int" where
  "decimal s = foldl (\<lambda>n c. n * 10 + (uint c - 48)) 0 s"

definition ParseUint32 :: "gostring \<Rightarrow> int option" where
  "ParseUint32 s =
     (if s \<noteq> [] \<and> list_all is_digit s \<and> decimal s < 4294967296 then Some (decimal s) else None)"

definition PortFromString :: "gostring \<Rightarrow> goerr + Port" where
  "PortFromString s =
     (case ParseUint32 s of
        None \<Rightarrow> Inl (ErrMsg ''invalid port range'')
      | Some val \<Rightarrow> PortFromInt (of_int val))"

definition Port_String :: "Port \<Rightarrow> gostring" where
  "Port_String p = itoa (unat p)"

text \<open>A \<^verbatim>\<open>PortRange\<close> of the configuration keeps 32-bit bounds, which \<^verbatim>\<open>FromPort\<close> and
  \<^verbatim>\<open>ToPort\<close> cut to 16 bits.\<close>

record PortRange =
  From :: u32
  To :: u32

definition FromPort :: "PortRange \<Rightarrow> Port" where
  "FromPort p = ucast (From p)"

definition ToPort :: "PortRange \<Rightarrow> Port" where
  "ToPort p = ucast (To p)"

definition PortRange_Contains :: "PortRange \<Rightarrow> Port \<Rightarrow> bool" where
  "PortRange_Contains p port \<longleftrightarrow> FromPort p \<le> port \<and> port \<le> ToPort p"

definition SinglePortRange :: "Port \<Rightarrow> PortRange" where
  "SinglePortRange p = \<lparr>From = ucast p, To = ucast p\<rparr>"

type_synonym MemoryPortRange = "Port \<times> Port"

definition MemoryPortRange_Contains :: "MemoryPortRange \<Rightarrow> Port \<Rightarrow> bool" where
  "MemoryPortRange_Contains r port \<longleftrightarrow> fst r \<le> port \<and> port \<le> snd r"

definition PortListFromProto :: "PortRange list \<Rightarrow> MemoryPortRange list" where
  "PortListFromProto l = map (\<lambda>r. (ucast (From r), ucast (To r))) l"

fun MemoryPortList_Contains :: "MemoryPortRange list \<Rightarrow> Port \<Rightarrow> bool" where
  "MemoryPortList_Contains [] port = False"
| "MemoryPortList_Contains (pr # mpl) port =
     (if MemoryPortRange_Contains pr port then True else MemoryPortList_Contains mpl port)"

section \<open>Address families and addresses\<close>

datatype AddressFamily = AddressFamilyIPv4 | AddressFamilyIPv6 | AddressFamilyDomain

definition IsIP :: "AddressFamily \<Rightarrow> bool" where
  "IsIP af \<longleftrightarrow> af = AddressFamilyIPv4 \<or> af = AddressFamilyIPv6"

datatype Address =
    ipv4Address "byte list"
  | ipv6Address "byte list"
  | domainAddress gostring

fun Family :: "Address \<Rightarrow> AddressFamily" where
  "Family (ipv4Address _) = AddressFamilyIPv4"
| "Family (ipv6Address _) = AddressFamilyIPv6"
| "Family (domainAddress _) = AddressFamilyDomain"

text \<open>\<^verbatim>\<open>IP()\<close> and \<^verbatim>\<open>Domain()\<close> panic on the other kind of address.\<close>

fun Address_IP :: "Address \<Rightarrow> byte list option" where
  "Address_IP (ipv4Address a) = Some a"
| "Address_IP (ipv6Address a) = Some a"
| "Address_IP (domainAddress _) = None"

fun Address_Domain :: "Address \<Rightarrow> gostring option" where
  "Address_Domain (domainAddress d) = Some d"
| "Address_Domain _ = None"

definition DomainAddress :: "gostring \<Rightarrow> Address" where
  "DomainAddress domain = domainAddress domain"

text \<open>\<^verbatim>\<open>IPAddress\<close> unwraps an IPv4-mapped IPv6 address and answers \<^verbatim>\<open>nil\<close> on any other length.\<close>

definition v4_mapped :: "byte list \<Rightarrow> bool" where
  "v4_mapped ip \<longleftrightarrow> take 10 ip = replicate 10 0 \<and> ip ! 10 = 0xff \<and> ip ! 11 = 0xff"

text \<open>\<^verbatim>\<open>net.IP.To4\<close>.\<close>

definition To4 :: "byte list \<Rightarrow> byte list option" where
  "To4 ip = (if length ip = 4 then Some ip
     else if length ip = 16 \<and> v4_mapped ip then Some (drop 12 ip) else None)"

definition IPAddress :: "byte list \<Rightarrow> Address option" where
  "IPAddress ip =
     (if length ip = 4 then Some (ipv4Address ip)
      else if length ip = 16 then
        (if v4_mapped ip then Some (ipv4Address (drop 12 ip)) else Some (ipv6Address ip))
      else None)"

text \<open>The addresses the constructors of the package can make.\<close>

fun address_ok :: "Address \<Rightarrow> bool" where
  "address_ok (ipv4Address a) = (length a = 4)"
| "address_ok (ipv6Address a) = (length a = 16 \<and> \<not> v4_mapped a)"
| "address_ok (domainAddress d) = True"

lemma IPAddress_ok: "IPAddress ip = Some a \<Longrightarrow> address_ok a \<and> IsIP (Family a)"
  by (auto simp: IPAddress_def IsIP_def split: if_splits)

lemma IPAddress_IP:
  "address_ok a \<Longrightarrow> Address_IP a = Some ip \<Longrightarrow> IPAddress ip = Some a"
  by (cases a) (auto simp: IPAddress_def)

section \<open>net.ParseIP\<close>

fun split_on :: "byte \<Rightarrow> gostring \<Rightarrow> gostring list" where
  "split_on d [] = [[]]"
| "split_on d (c # s) =
     (if c = d then [] # split_on d s
      else (case split_on d s of [] \<Rightarrow> [[c]] | p # ps \<Rightarrow> (c # p) # ps))"

definition octet :: "gostring \<Rightarrow> byte option" where
  "octet s =
     (if s \<noteq> [] \<and> list_all is_digit s \<and> (length s = 1 \<or> hd s \<noteq> 48) \<and> decimal s \<le> 255
      then Some (of_int (decimal s)) else None)"

definition parseIPv4 :: "gostring \<Rightarrow> byte list option" where
  "parseIPv4 s =
     (case split_on 46 s of
        [a, b, c, d] \<Rightarrow>
          do { w \<leftarrow> octet a; x \<leftarrow> octet b; y \<leftarrow> octet c; z \<leftarrow> octet d; Some [w, x, y, z] }
      | _ \<Rightarrow> None)"

definition hexval :: "byte \<Rightarrow> nat option" where
  "hexval c =
     (if 48 \<le> c \<and> c \<le> 57 then Some (unat c - 48)
      else if 97 \<le> c \<and> c \<le> 102 then Some (unat c - 87)
      else if 65 \<le> c \<and> c \<le> 70 then Some (unat c - 55)
      else None)"

text \<open>The leading hexadecimal digits of a field, and what follows them.\<close>

fun hex_field :: "gostring \<Rightarrow> nat \<Rightarrow> nat \<Rightarrow> nat \<times> nat \<times> gostring" where
  "hex_field [] off acc = (off, acc, [])"
| "hex_field (c # s) off acc =
     (case hexval c of
        None \<Rightarrow> (off, acc, c # s)
      | Some d \<Rightarrow> hex_field s (Suc off) (acc * 16 + d))"

text \<open>
  The field loop of \<^verbatim>\<open>netip.parseIPv6\<close>. It reads at most eight two-byte fields, so eight
  rounds of fuel are the loop bound of the source (\<^verbatim>\<open>for i < 16\<close>, two bytes a round).
\<close>

fun parseIPv6_loop ::
  "nat \<Rightarrow> gostring \<Rightarrow> byte list \<Rightarrow> nat option \<Rightarrow> (gostring \<times> byte list \<times> nat option) option" where
  "parseIPv6_loop 0 s ip ell = Some (s, ip, ell)"
| "parseIPv6_loop (Suc k) s ip ell =
     (let (off, acc, s') = hex_field s 0 0 in
      if off = 0 \<or> off > 4 then None
      else if s' \<noteq> [] \<and> hd s' = 46 then
        (if ell = None \<and> length ip \<noteq> 12 then None
         else if length ip + 4 > 16 then None
         else do { v4 \<leftarrow> parseIPv4 s; Some ([], ip @ v4, ell) })
      else
        (let ip' = ip @ [of_nat (acc div 256), of_nat (acc mod 256)] in
         if s' = [] then Some ([], ip', ell)
         else if hd s' \<noteq> 58 \<or> length s' = 1 then None
         else
           (let s2 = tl s' in
            if hd s2 = 58 then
              (if ell \<noteq> None then None
               else if tl s2 = [] then Some ([], ip', Some (length ip'))
               else parseIPv6_loop k (tl s2) ip' (Some (length ip')))
            else parseIPv6_loop k s2 ip' ell)))"

definition parseIPv6 :: "gostring \<Rightarrow> byte list option" where
  "parseIPv6 str =
     (let (s, ell) =
        (if length str \<ge> 2 \<and> hd str = 58 \<and> str ! 1 = 58 then (drop 2 str, Some 0) else (str, None))
      in if ell = Some 0 \<and> s = [] then Some (replicate 16 0)
         else
           (case parseIPv6_loop 8 s [] ell of
              None \<Rightarrow> None
            | Some (rest, ip, ell') \<Rightarrow>
                if rest \<noteq> [] then None
                else if length ip < 16 then
                  (case ell' of
                     None \<Rightarrow> None
                   | Some e \<Rightarrow> Some (take e ip @ replicate (16 - length ip) 0 @ drop e ip))
                else if ell' \<noteq> None then None
                else Some ip))"

text \<open>The 16-byte form, IPv4 addresses mapped into \<^verbatim>\<open>::ffff:0:0/96\<close>; zones are refused.\<close>

definition ParseIP :: "gostring \<Rightarrow> byte list option" where
  "ParseIP s =
     (case find (\<lambda>c. c = 46 \<or> c = 58 \<or> c = 37) s of
        None \<Rightarrow> None
      | Some c \<Rightarrow>
          if c = 46 then map_option (\<lambda>ip. replicate 10 0 @ [0xff, 0xff] @ ip) (parseIPv4 s)
          else if c = 58 then (if 37 \<in> set s then None else parseIPv6 s)
          else None)"

section \<open>ParseAddress\<close>

definition isAlphaNum :: "byte \<Rightarrow> bool" where
  "isAlphaNum c \<longleftrightarrow> (48 \<le> c \<and> c \<le> 57) \<or> (97 \<le> c \<and> c \<le> 122) \<or> (65 \<le> c \<and> c \<le> 90)"

text \<open>\<^verbatim>\<open>strings.TrimSpace\<close> on the ASCII white space characters.\<close>

definition is_space :: "byte \<Rightarrow> bool" where
  "is_space c \<longleftrightarrow> c = 32 \<or> (9 \<le> c \<and> c \<le> 13)"

definition TrimSpace :: "gostring \<Rightarrow> gostring" where
  "TrimSpace s = rev (dropWhile is_space (rev (dropWhile is_space s)))"

definition strip_brackets :: "gostring \<Rightarrow> gostring" where
  "strip_brackets addr =
     (if addr \<noteq> [] \<and> hd addr = 91 \<and> last addr = 93
      then take (length addr - 2) (drop 1 addr) else addr)"

text \<open>The slice \<^verbatim>\<open>addr[1 : lenAddr-1]\<close> cannot panic: no one-byte string starts with \<^verbatim>\<open>[\<close>
  and ends with \<^verbatim>\<open>]\<close>. \<^verbatim>\<open>ParseIP\<close> answers 16 bytes, so \<^verbatim>\<open>IPAddress\<close> is not \<^verbatim>\<open>nil\<close> here
  (\<open>ParseIP_length\<close>).\<close>

definition ParseAddress :: "gostring \<Rightarrow> Address" where
  "ParseAddress addr0 =
     (let addr1 = strip_brackets addr0;
          addr2 = (if addr1 \<noteq> [] \<and> (\<not> isAlphaNum (hd addr1) \<or> \<not> isAlphaNum (last addr1))
                   then TrimSpace addr1 else addr1)
      in case ParseIP addr2 of
           Some ip \<Rightarrow> (case IPAddress ip of Some a \<Rightarrow> a | None \<Rightarrow> DomainAddress addr2)
         | None \<Rightarrow> DomainAddress addr2)"

section \<open>Networks and destinations\<close>

datatype Network = Network_Unknown | Network_TCP | Network_UDP | Network_UNIX

text \<open>The numbers of the protobuf enumeration.\<close>

fun Network_num :: "Network \<Rightarrow> nat" where
  "Network_num Network_Unknown = 0"
| "Network_num Network_TCP = 2"
| "Network_num Network_UDP = 3"
| "Network_num Network_UNIX = 4"

definition SystemString :: "Network \<Rightarrow> gostring" where
  "SystemString n =
     (case n of
        Network_TCP \<Rightarrow> gostr ''tcp''
      | Network_UDP \<Rightarrow> gostr ''udp''
      | Network_UNIX \<Rightarrow> gostr ''unix''
      | Network_Unknown \<Rightarrow> gostr ''unknown'')"

fun HasNetwork :: "Network list \<Rightarrow> Network \<Rightarrow> bool" where
  "HasNetwork [] network = False"
| "HasNetwork (v # list) network = (if v = network then True else HasNetwork list network)"

record Destination =
  d_Address :: "Address option"
  d_Port :: Port
  d_Network :: Network

definition zero_Destination :: Destination where
  "zero_Destination = \<lparr>d_Address = None, d_Port = 0, d_Network = Network_Unknown\<rparr>"

definition TCPDestination :: "Address \<Rightarrow> Port \<Rightarrow> Destination" where
  "TCPDestination address port =
     \<lparr>d_Address = Some address, d_Port = port, d_Network = Network_TCP\<rparr>"

definition UDPDestination :: "Address \<Rightarrow> Port \<Rightarrow> Destination" where
  "UDPDestination address port =
     \<lparr>d_Address = Some address, d_Port = port, d_Network = Network_UDP\<rparr>"

definition UnixDestination :: "Address \<Rightarrow> Destination" where
  "UnixDestination address =
     \<lparr>d_Address = Some address, d_Port = 0, d_Network = Network_UNIX\<rparr>"

definition Destination_IsValid :: "Destination \<Rightarrow> bool" where
  "Destination_IsValid d \<longleftrightarrow> d_Network d \<noteq> Network_Unknown"

text \<open>\<^verbatim>\<open>net.SplitHostPort\<close> of the standard library.\<close>

definition SplitHostPort :: "gostring \<Rightarrow> goerr + gostring \<times> gostring" where
  "SplitHostPort hp =
     (if 58 \<notin> set hp then Inl (ErrMsg ''missing port in address'')
      else
        (let i = length hp - 1 - length (takeWhile (\<lambda>c. c \<noteq> 58) (rev hp)) in
         if hd hp = 91 then
           (if 93 \<notin> set hp then Inl (ErrMsg ''missing ']' in address'')
            else
              (let e = length (takeWhile (\<lambda>c. c \<noteq> 93) hp) in
               if e + 1 = length hp then Inl (ErrMsg ''missing port in address'')
               else if e + 1 \<noteq> i then
                 Inl (ErrMsg (if hp ! (e + 1) = 58 then ''too many colons in address''
                              else ''missing port in address''))
               else if 91 \<in> set (drop 1 hp) then Inl (ErrMsg ''unexpected '[' in address'')
               else if 93 \<in> set (drop (e + 1) hp) then Inl (ErrMsg ''unexpected ']' in address'')
               else Inr (take (e - 1) (drop 1 hp), drop (i + 1) hp)))
         else if 58 \<in> set (take i hp) then Inl (ErrMsg ''too many colons in address'')
         else if 91 \<in> set hp then Inl (ErrMsg ''unexpected '[' in address'')
         else if 93 \<in> set hp then Inl (ErrMsg ''unexpected ']' in address'')
         else Inr (take i hp, drop (i + 1) hp)))"

definition ParseDestination :: "gostring \<Rightarrow> goerr + Destination" where
  "ParseDestination dest0 =
     (let pre = (\<lambda>p. take (length p) dest0 = p) in
      if \<not> pre (gostr ''tcp:'') \<and> \<not> pre (gostr ''udp:'') \<and> pre (gostr ''unix:'')
      then Inr (UnixDestination (DomainAddress (drop 5 dest0)))
      else
        (let net = (if pre (gostr ''tcp:'') then Network_TCP
                    else if pre (gostr ''udp:'') then Network_UDP else Network_Unknown);
             dest = (if net = Network_Unknown then dest0 else drop 4 dest0)
         in case SplitHostPort dest of
              Inl e \<Rightarrow> Inl e
            | Inr (hstr, pstr) \<Rightarrow>
                (let addr = (if hstr \<noteq> [] then ParseAddress hstr else ipv4Address [0, 0, 0, 0])
                 in if pstr \<noteq> [] then
                      (case PortFromString pstr of
                         Inl e \<Rightarrow> Inl e
                       | Inr port \<Rightarrow> Inr \<lparr>d_Address = Some addr, d_Port = port, d_Network = net\<rparr>)
                    else Inr \<lparr>d_Address = Some addr, d_Port = 0, d_Network = net\<rparr>)))"

section \<open>Lemmas\<close>

lemma uint_itoa_digit: "n < 10 \<Longrightarrow> uint (48 + of_nat n :: byte) = 48 + int n"
  by (simp add: uint_word_ariths unsigned_of_nat take_bit_eq_mod)

lemma decimal_snoc: "decimal (s @ [c]) = decimal s * 10 + (uint c - 48)"
  by (simp add: decimal_def)

lemma itoa_digits: "itoa n \<noteq> [] \<and> list_all is_digit (itoa n) \<and> decimal (itoa n) = int n"
proof (induction n rule: itoa.induct)
  case (1 n)
  have dig: "is_digit (48 + of_nat m)" if "m < 10" for m
    using that by (simp add: is_digit_def word_le_def uint_itoa_digit)
  show ?case
  proof (cases "n < 10")
    case True
    then show ?thesis
      using dig [OF True] uint_itoa_digit [OF True]
      by (simp add: itoa.simps [of n] decimal_def)
  next
    case False
    with "1.IH" show ?thesis
      using dig [of "n mod 10"] uint_itoa_digit [of "n mod 10"]
      by (simp add: itoa.simps [of n] decimal_snoc zdiv_int zmod_int)
  qed
qed

lemma octet_length_parseIPv4: "parseIPv4 s = Some ip \<Longrightarrow> length ip = 4"
  by (auto simp: parseIPv4_def split: list.splits Option.bind_splits)

lemma parseIPv6_loop_length:
  "parseIPv6_loop k s ip ell = Some (rest, ip', ell') \<Longrightarrow> length ip + 2 * k \<le> 16 \<Longrightarrow>
   length ip' \<le> 16"
proof (induction k arbitrary: s ip ell)
  case 0
  then show ?case by simp
next
  case (Suc k)
  then show ?case
    by (auto simp: Let_def octet_length_parseIPv4
        split: prod.splits if_splits Option.bind_splits)
qed

lemma parseIPv6_length: "parseIPv6 s = Some ip \<Longrightarrow> length ip = 16"
  using parseIPv6_loop_length [where k = 8 and ip = "[]"]
  by (fastforce simp: parseIPv6_def Let_def min_def split: option.splits if_splits prod.splits)

lemma ParseIP_length: "ParseIP s = Some ip \<Longrightarrow> length ip = 16"
  by (auto simp: ParseIP_def octet_length_parseIPv4 parseIPv6_length
      split: option.splits if_splits)

lemma MemoryPortList_Contains_iff:
  "MemoryPortList_Contains mpl port \<longleftrightarrow> (\<exists>r \<in> set mpl. fst r \<le> port \<and> port \<le> snd r)"
  by (induction mpl) (auto simp: MemoryPortRange_Contains_def)

end
