(* ===== verification/Buf_Buffer.thy ===== *)
theory Buf_Buffer
  imports Net_Address
begin

text \<open>
  \<^verbatim>\<open>common/bytespool/pool.go\<close> and \<^verbatim>\<open>common/buf/buffer.go\<close>: the recyclable byte array with a
  window \<^verbatim>\<open>[start, end)\<close> that every proxy of the program moves data in. The abstract value of
  a buffer is \<open>content\<close>, the bytes of its window; \<open>buffer_wf\<close> is the invariant
  \<^verbatim>\<open>0 <= start <= end <= len(v)\<close> that every constructor establishes and every operation
  keeps. Panics (slice or index out of range, explicit \<^verbatim>\<open>panic\<close>) are \<open>None\<close>; the operations
  without an option type cannot panic on a well-formed buffer.
\<close>

section \<open>bytespool\<close>

text \<open>The four pools, 2 KiB to 128 KiB, each four times the size of the one before.\<close>

definition poolSize :: "int list" where
  "poolSize = map (\<lambda>i. 2048 * 4 ^ i) [0..<4]"

definition GetPool :: "int \<Rightarrow> int option" where
  "GetPool sz = find (\<lambda>ps. sz \<le> ps) poolSize"

text \<open>\<open>Alloc\<close> answers the length of the slice: a pooled array has its pool's size.
  \<^verbatim>\<open>make\<close> with a negative size, which panics, is never reached: such a size fits a pool.\<close>

definition Alloc :: "int \<Rightarrow> int" where
  "Alloc sz = (case GetPool sz of Some ps \<Rightarrow> ps | None \<Rightarrow> sz)"

text \<open>\<open>Free\<close> answers the pool an array of the given capacity goes back to.\<close>

definition Free :: "int \<Rightarrow> int option" where
  "Free sz = find (\<lambda>ps. sz \<ge> ps) (rev poolSize)"

section \<open>The buffer\<close>

definition Size :: int where "Size = 8192"

definition ErrBufferFull :: goerr where "ErrBufferFull = ErrMsg ''buffer is full''"

datatype ownership = managed | unmanaged | bytespools

record Buffer =
  b_v :: "byte list"
  b_start :: int
  b_end :: int
  b_ownership :: ownership
  b_UDP :: "Destination option"

text \<open>\<^verbatim>\<open>int32(len(b.v))\<close>.\<close>

definition b_len32 :: "Buffer \<Rightarrow> int" where
  "b_len32 b = i32 (int (length (b_v b)))"

definition buffer_wf :: "Buffer \<Rightarrow> bool" where
  "buffer_wf b \<longleftrightarrow>
     0 \<le> b_start b \<and> b_start b \<le> b_end b \<and> b_end b \<le> int (length (b_v b)) \<and>
     int (length (b_v b)) < 2147483648"

definition content :: "Buffer \<Rightarrow> byte list" where
  "content b = take (nat (b_end b - b_start b)) (drop (nat (b_start b)) (b_v b))"

text \<open>\<open>room b\<close>: how many bytes can still be appended.\<close>

definition room :: "Buffer \<Rightarrow> nat" where
  "room b = length (b_v b) - nat (b_end b)"

subsection \<open>Constructors\<close>

text \<open>
  \<open>mem\<close> is the array the pool hands out, with whatever its last user left in it; an array
  that is too small is replaced by a new, zeroed one.
\<close>

definition buf_New :: "byte list \<Rightarrow> Buffer" where
  "buf_New mem =
     \<lparr>b_v = (if int (length mem) \<ge> Size then take (nat Size) mem else replicate (nat Size) 0),
      b_start = 0, b_end = 0, b_ownership = managed, b_UDP = None\<rparr>"

text \<open>\<open>tail\<close> is what the array behind the slice \<open>b\<close> holds between its length and its capacity.\<close>

definition NewExisted :: "byte list \<Rightarrow> byte list \<Rightarrow> Buffer option" where
  "NewExisted b tail =
     (if int (length (b @ tail)) < Size then None
      else Some \<lparr>b_v = (if int (length b) < Size then take (nat Size) (b @ tail) else b),
                 b_start = 0, b_end = i32 (int (length b)), b_ownership = managed, b_UDP = None\<rparr>)"

definition FromBytes :: "byte list \<Rightarrow> Buffer" where
  "FromBytes b =
     \<lparr>b_v = b, b_start = 0, b_end = i32 (int (length b)), b_ownership = unmanaged, b_UDP = None\<rparr>"

definition NewWithSize :: "byte list \<Rightarrow> int \<Rightarrow> Buffer option" where
  "NewWithSize mem sz =
     (if int (length mem) = Alloc sz
      then Some \<lparr>b_v = mem, b_start = 0, b_end = 0, b_ownership = bytespools, b_UDP = None\<rparr>
      else None)"

abbreviation fresh_buffer :: Buffer where
  "fresh_buffer \<equiv> buf_New []"

subsection \<open>Operations\<close>

definition Buffer_Clear :: "Buffer \<Rightarrow> Buffer" where
  "Buffer_Clear b = b\<lparr>b_start := 0, b_end := 0\<rparr>"

text \<open>The array goes back to a pool; \<^verbatim>\<open>nil\<close> is the empty array.\<close>

definition Buffer_Release :: "Buffer \<Rightarrow> Buffer" where
  "Buffer_Release b =
     (if b_v b = [] \<or> b_ownership b = unmanaged then b
      else (Buffer_Clear (b\<lparr>b_v := []\<rparr>))\<lparr>b_UDP := None\<rparr>)"

definition Buffer_Len :: "Buffer \<Rightarrow> int" where
  "Buffer_Len b = i32 (b_end b - b_start b)"

definition Buffer_Cap :: "Buffer \<Rightarrow> int" where
  "Buffer_Cap b = b_len32 b"

definition Buffer_Available :: "Buffer \<Rightarrow> int" where
  "Buffer_Available b = i32 (b_len32 b - b_end b)"

definition Buffer_IsEmpty :: "Buffer \<Rightarrow> bool" where
  "Buffer_IsEmpty b \<longleftrightarrow> Buffer_Len b = 0"

definition Buffer_IsFull :: "Buffer \<Rightarrow> bool" where
  "Buffer_IsFull b \<longleftrightarrow> b_end b = b_len32 b"

definition go_index :: "'a list \<Rightarrow> int \<Rightarrow> 'a option" where
  "go_index xs i = (if 0 \<le> i \<and> i < int (length xs) then Some (xs ! nat i) else None)"

definition Buffer_Byte :: "Buffer \<Rightarrow> int \<Rightarrow> byte option" where
  "Buffer_Byte b index = go_index (b_v b) (i32 (b_start b + index))"

definition Buffer_SetByte :: "Buffer \<Rightarrow> int \<Rightarrow> byte \<Rightarrow> Buffer option" where
  "Buffer_SetByte b index value =
     (let i = i32 (b_start b + index) in
      if 0 \<le> i \<and> i < int (length (b_v b)) then Some (b\<lparr>b_v := (b_v b)[nat i := value]\<rparr>) else None)"

definition Buffer_Bytes :: "Buffer \<Rightarrow> byte list option" where
  "Buffer_Bytes b = go_slice (b_v b) (b_start b) (b_end b)"

definition Buffer_Extend :: "Buffer \<Rightarrow> int \<Rightarrow> Buffer option" where
  "Buffer_Extend b n =
     (let e = i32 (b_end b + n) in
      if e > b_len32 b then None
      else do {
        ext \<leftarrow> go_slice (b_v b) (b_end b) e;
        Some (b\<lparr>b_v := blit (b_v b) (nat (b_end b)) (replicate (length ext) 0), b_end := e\<rparr>)
      })"

definition from_end :: "Buffer \<Rightarrow> int \<Rightarrow> int" where
  "from_end b i = (if i < 0 then i32 (i + Buffer_Len b) else i)"

definition Buffer_BytesRange :: "Buffer \<Rightarrow> int \<Rightarrow> int \<Rightarrow> byte list option" where
  "Buffer_BytesRange b from to =
     go_slice (b_v b) (i32 (b_start b + from_end b from)) (i32 (b_start b + from_end b to))"

definition Buffer_BytesFrom :: "Buffer \<Rightarrow> int \<Rightarrow> byte list option" where
  "Buffer_BytesFrom b from = go_slice (b_v b) (i32 (b_start b + from_end b from)) (b_end b)"

definition Buffer_BytesTo :: "Buffer \<Rightarrow> int \<Rightarrow> byte list option" where
  "Buffer_BytesTo b to =
     go_slice (b_v b) (b_start b) (i32 (b_start b + max 0 (from_end b to)))"

definition Buffer_Check :: "Buffer \<Rightarrow> Buffer" where
  "Buffer_Check b =
     (let s = (if b_start b < 0 then 0 else b_start b);
          e = (if b_end b < 0 then 0 else b_end b)
      in b\<lparr>b_start := (if s > e then e else s), b_end := e\<rparr>)"

definition Buffer_Resize :: "Buffer \<Rightarrow> int \<Rightarrow> int \<Rightarrow> Buffer option" where
  "Buffer_Resize b from0 to0 =
     (let oldEnd = b_end b; from = from_end b from0; to = from_end b to0 in
      if to < from then None
      else
        (let b1 = Buffer_Check (b\<lparr>b_end := i32 (b_start b + to), b_start := i32 (b_start b + from)\<rparr>)
         in if b_end b1 > oldEnd then do {
              gap \<leftarrow> go_slice (b_v b1) oldEnd (b_end b1);
              Some (b1\<lparr>b_v := blit (b_v b1) (nat oldEnd) (replicate (length gap) 0)\<rparr>)
            } else Some b1))"

definition Buffer_Advance :: "Buffer \<Rightarrow> int \<Rightarrow> Buffer" where
  "Buffer_Advance b from =
     Buffer_Check (b\<lparr>b_start := i32 (b_start b + from_end b from)\<rparr>)"

text \<open>\<^verbatim>\<open>copy(b.v[b.end:], data)\<close> moves as many bytes as there is room for.\<close>

definition Buffer_Write :: "Buffer \<Rightarrow> byte list \<Rightarrow> nat \<times> goerr option \<times> Buffer" where
  "Buffer_Write b data =
     (let n = min (room b) (length data);
          b' = b\<lparr>b_v := blit (b_v b) (nat (b_end b)) (take n data), b_end := i32 (b_end b + int n)\<rparr>
      in (n, if n < length data then Some ErrBufferFull else None, b'))"

definition Buffer_WriteByte :: "Buffer \<Rightarrow> byte \<Rightarrow> goerr option \<times> Buffer" where
  "Buffer_WriteByte b x =
     (if Buffer_IsFull b then (Some ErrBufferFull, b)
      else (None, b\<lparr>b_v := (b_v b)[nat (b_end b) := x], b_end := i32 (b_end b + 1)\<rparr>))"

definition Buffer_ReadByte :: "Buffer \<Rightarrow> (goerr + byte) \<times> Buffer" where
  "Buffer_ReadByte b =
     (if b_start b = b_end b then (Inl EOF, b)
      else (Inr (b_v b ! nat (b_start b)), b\<lparr>b_start := i32 (b_start b + 1)\<rparr>))"

definition Buffer_ReadBytes :: "Buffer \<Rightarrow> int \<Rightarrow> ((goerr + byte list) \<times> Buffer) option" where
  "Buffer_ReadBytes b len =
     (if i32 (b_end b - b_start b) < len then Some (Inl EOF, b)
      else do {
        nb \<leftarrow> go_slice (b_v b) (b_start b) (i32 (b_start b + len));
        Some (Inr nb, b\<lparr>b_start := i32 (b_start b + len)\<rparr>)
      })"

text \<open>\<^verbatim>\<open>Read\<close> into a slice of \<open>n\<close> bytes.\<close>

definition Buffer_Read :: "Buffer \<Rightarrow> nat \<Rightarrow> byte list \<times> goerr option \<times> Buffer" where
  "Buffer_Read b n =
     (if Buffer_Len b = 0 then ([], Some EOF, b)
      else
        (let out = take n (content b) in
         if int (length out) = Buffer_Len b then (out, None, Buffer_Clear b)
         else (out, None, b\<lparr>b_start := i32 (b_start b + int (length out))\<rparr>)))"

definition append_read :: "Buffer \<Rightarrow> byte list \<Rightarrow> Buffer" where
  "append_read b bs =
     b\<lparr>b_v := blit (b_v b) (nat (b_end b)) bs, b_end := i32 (b_end b + int (length bs))\<rparr>"

definition Buffer_ReadFrom ::
  "Buffer \<Rightarrow> instream \<Rightarrow> nat \<times> goerr option \<times> Buffer \<times> instream" where
  "Buffer_ReadFrom b reader =
     (let (bs, e, reader') = io_Read (room b) reader
      in (length bs, e, append_read b bs, reader'))"

definition Buffer_ReadFullFrom ::
  "Buffer \<Rightarrow> instream \<Rightarrow> int \<Rightarrow> (nat \<times> goerr option \<times> Buffer \<times> instream) option" where
  "Buffer_ReadFullFrom b reader sz =
     (let e = i32 (b_end b + sz) in
      if e > b_len32 b then Some (0, Some (ErrMsg ''out of bound''), b, reader)
      else do {
        area \<leftarrow> go_slice (b_v b) (b_end b) e;
        let (bs, err, reader') = io_ReadFull (length area) reader;
        Some (length bs, err, append_read b bs, reader')
      })"

section \<open>Well-formedness and content\<close>

lemma wf_new [wf_intro, simp]: "buffer_wf (buf_New mem)"
  by (simp add: buffer_wf_def buf_New_def Size_def)

lemma content_new [content_simps, simp]: "content (buf_New mem) = []"
  by (simp add: content_def buf_New_def)

lemma room_new [content_simps, simp]: "room (buf_New mem) = 8192"
  by (simp add: room_def buf_New_def Size_def)

lemma fields_new [simp]:
  "b_UDP (buf_New mem) = None" "b_start (buf_New mem) = 0" "b_end (buf_New mem) = 0"
  "length (b_v (buf_New mem)) = 8192"
  by (simp_all add: buf_New_def Size_def)

lemma length_content: "buffer_wf b \<Longrightarrow> int (length (content b)) = b_end b - b_start b"
  by (auto simp: buffer_wf_def content_def)

lemma Buffer_Len_content [content_simps]:
  "buffer_wf b \<Longrightarrow> Buffer_Len b = int (length (content b))"
  by (simp add: Buffer_Len_def length_content) (simp add: buffer_wf_def)

lemma b_len32_wf: "buffer_wf b \<Longrightarrow> b_len32 b = int (length (b_v b))"
  by (simp add: b_len32_def buffer_wf_def)

lemma Buffer_Available_room [content_simps]:
  "buffer_wf b \<Longrightarrow> Buffer_Available b = int (room b)"
  by (auto simp: Buffer_Available_def b_len32_wf room_def buffer_wf_def)

lemma Buffer_IsEmpty_content [content_simps]:
  "buffer_wf b \<Longrightarrow> Buffer_IsEmpty b \<longleftrightarrow> content b = []"
  by (simp add: Buffer_IsEmpty_def Buffer_Len_content)

lemma Buffer_IsFull_room [content_simps]: "buffer_wf b \<Longrightarrow> Buffer_IsFull b \<longleftrightarrow> room b = 0"
  by (auto simp: Buffer_IsFull_def b_len32_wf room_def buffer_wf_def)

lemma Buffer_Bytes_content [content_simps]:
  "buffer_wf b \<Longrightarrow> Buffer_Bytes b = Some (content b)"
  by (simp add: Buffer_Bytes_def go_slice_def content_def buffer_wf_def)

lemma wf_FromBytes [wf_intro]: "length bs < 2147483648 \<Longrightarrow> buffer_wf (FromBytes bs)"
  by (simp add: buffer_wf_def FromBytes_def)

lemma content_FromBytes [content_simps]:
  "length bs < 2147483648 \<Longrightarrow> content (FromBytes bs) = bs"
  by (simp add: content_def FromBytes_def)

subsection \<open>Appending\<close>

text \<open>Every operation that adds bytes is an \<open>append_read\<close>.\<close>

lemma append_read_wf [wf_intro]:
  assumes "buffer_wf b" "length bs \<le> room b"
  shows "buffer_wf (append_read b bs)"
  using assms by (auto simp: buffer_wf_def append_read_def room_def)

lemma append_read_content [content_simps]:
  assumes "buffer_wf b" "length bs \<le> room b"
  shows "content (append_read b bs) = content b @ bs"
proof -
  from assms obtain s e where [simp]: "b_start b = int s" "b_end b = int e"
    and se: "s \<le> e" "e + length bs \<le> length (b_v b)" "length (b_v b) < 2147483648"
    by (auto simp: buffer_wf_def room_def nonneg_int_cases intro: that [of "nat (b_start b)" "nat (b_end b)"])
  have "nat (int e + int (length bs) - int s) = e + length bs - s"
    by linarith
  with se take_drop_blit [of s e bs "b_v b"] show ?thesis
    by (simp add: content_def append_read_def nat_diff_distrib)
qed

lemma append_read_room [content_simps]:
  assumes "buffer_wf b" "length bs \<le> room b"
  shows "room (append_read b bs) = room b - length bs"
  using assms by (auto simp: buffer_wf_def append_read_def room_def)

lemma append_read_UDP [simp]: "b_UDP (append_read b bs) = b_UDP b"
  by (simp add: append_read_def)

lemma append_read_nil: "buffer_wf b \<Longrightarrow> append_read b [] = b"
  by (simp add: append_read_def blit_def) (simp add: buffer_wf_def)

lemma Buffer_Write_append [content_simps]:
  "buffer_wf b \<Longrightarrow>
   Buffer_Write b data =
     (min (room b) (length data),
      if room b < length data then Some ErrBufferFull else None,
      append_read b (take (room b) data))"
  by (auto simp: Buffer_Write_def append_read_def Let_def min_def)

lemma Buffer_WriteByte_append [content_simps]:
  assumes "buffer_wf b"
  shows "Buffer_WriteByte b x =
    (if room b = 0 then (Some ErrBufferFull, b) else (None, append_read b [x]))"
proof -
  have "(b_v b)[nat (b_end b) := x] = blit (b_v b) (nat (b_end b)) [x]" if "room b \<noteq> 0"
    using that assms by (simp add: blit_def room_def upd_conv_take_nth_drop)
  with assms show ?thesis
    by (simp add: Buffer_WriteByte_def Buffer_IsFull_room append_read_def)
qed

lemma Buffer_Extend_append [content_simps]:
  assumes "buffer_wf b" "0 \<le> n" "n < 2147483648"
  shows "Buffer_Extend b n =
    (if n \<le> int (room b) then Some (append_read b (replicate (nat n) 0)) else None)"
proof (cases "n \<le> int (room b)")
  case True
  with assms have "i32 (b_end b + n) = b_end b + n" "b_end b + n \<le> int (length (b_v b))"
    by (auto simp: buffer_wf_def room_def)
  with assms True show ?thesis
    by (auto simp: Buffer_Extend_def Let_def b_len32_wf go_slice_def append_read_def buffer_wf_def)
next
  case False
  with assms have gt: "b_end b + n > int (length (b_v b))"
    by (auto simp: buffer_wf_def room_def)
  show ?thesis
  proof (cases "b_end b + n < 2147483648")
    case True
    with gt assms False show ?thesis
      by (auto simp: Buffer_Extend_def Let_def b_len32_wf buffer_wf_def)
  next
    case ovf: False
    with assms have "(b_end b + n + 2147483648) mod 4294967296 = b_end b + n - 2147483648"
      by (subst mod_pos_geq) (auto simp: buffer_wf_def)
    with assms have "i32 (b_end b + n) < 0"
      by (auto simp: i32_def buffer_wf_def)
    with assms False show ?thesis
      by (auto simp: Buffer_Extend_def Let_def go_slice_def)
  qed
qed

text \<open>\<^verbatim>\<open>ReadFrom\<close> appends one chunk of the reader; \<^verbatim>\<open>ReadFullFrom\<close> appends exactly the bytes
  asked for when the reader has them.\<close>

lemma Buffer_ReadFrom_spec:
  assumes "buffer_wf b" "Buffer_ReadFrom b r = (n, e, b', r')"
  shows "buffer_wf b' \<and> flat r = take n (flat r) @ flat r' \<and> n \<le> room b \<and>
         content b' = content b @ take n (flat r) \<and> fin r' = fin r \<and> b_UDP b' = b_UDP b"
proof -
  obtain bs where rd: "io_Read (room b) r = (bs, e, r')" and eq: "n = length bs" "b' = append_read b bs"
    using assms(2) by (auto simp: Buffer_ReadFrom_def Let_def split: prod.splits)
  from io_Read_flat [OF rd] have "flat r = bs @ flat r'" "length bs \<le> room b" "fin r' = fin r"
    by auto
  with assms(1) eq show ?thesis
    by (simp add: append_read_wf append_read_content)
qed

lemma Buffer_ReadFullFrom_unfold:
  assumes "buffer_wf b" "0 \<le> sz" "sz \<le> int (room b)"
  shows "Buffer_ReadFullFrom b r sz =
    (let (bs, e, r') = io_ReadFull (nat sz) r in Some (length bs, e, append_read b bs, r'))"
proof -
  from assms have "i32 (b_end b + sz) = b_end b + sz" "b_end b + sz \<le> int (length (b_v b))"
    by (auto simp: buffer_wf_def room_def)
  with assms show ?thesis
    by (auto simp: Buffer_ReadFullFrom_def Let_def b_len32_wf go_slice_def buffer_wf_def
        split: prod.splits)
qed

lemma Buffer_ReadFullFrom_ok:
  assumes "buffer_wf b" "0 \<le> sz" "sz \<le> int (room b)" "nat sz \<le> length (flat r)"
  obtains r' where
    "Buffer_ReadFullFrom b r sz = Some (nat sz, None, append_read b (take (nat sz) (flat r)), r')"
    "flat r' = drop (nat sz) (flat r)" "fin r' = fin r"
proof -
  from assms(4) obtain r' where
    "io_ReadFull (nat sz) r = (take (nat sz) (flat r), None, r')"
    "flat r' = drop (nat sz) (flat r)" "fin r' = fin r"
    by (rule io_ReadFull_ok)
  with that assms show thesis
    by (simp add: Buffer_ReadFullFrom_unfold)
qed

lemma Buffer_ReadFullFrom_out_of_bound:
  assumes "buffer_wf b" "int (room b) < sz" "b_end b + sz < 2147483648"
  shows "Buffer_ReadFullFrom b r sz = Some (0, Some (ErrMsg ''out of bound''), b, r)"
  using assms by (auto simp: Buffer_ReadFullFrom_def Let_def b_len32_wf room_def buffer_wf_def)

subsection \<open>Consuming\<close>

lemma Buffer_Clear_wf [wf_intro]: "buffer_wf b \<Longrightarrow> buffer_wf (Buffer_Clear b)"
  by (simp add: buffer_wf_def Buffer_Clear_def)

lemma Buffer_Clear_content [content_simps]: "content (Buffer_Clear b) = []"
  by (simp add: content_def Buffer_Clear_def)

lemma Buffer_Clear_room [content_simps]: "room (Buffer_Clear b) = length (b_v b)"
  by (simp add: room_def Buffer_Clear_def)

lemma Buffer_Release_wf [wf_intro]: "buffer_wf b \<Longrightarrow> buffer_wf (Buffer_Release b)"
  by (simp add: Buffer_Release_def buffer_wf_def Buffer_Clear_def)

lemma advance_content:
  assumes "buffer_wf b" "k \<le> length (content b)"
  shows "content (b\<lparr>b_start := i32 (b_start b + int k)\<rparr>) = drop k (content b)"
    and "buffer_wf (b\<lparr>b_start := i32 (b_start b + int k)\<rparr>)"
    and "room (b\<lparr>b_start := i32 (b_start b + int k)\<rparr>) = room b"
proof -
  have "b_start b + int k \<le> b_end b"
    using assms length_content [OF assms(1)] by linarith
  moreover have "nat (b_start b + int k) = nat (b_start b) + k"
    using assms(1) by (simp add: buffer_wf_def nat_add_distrib)
  moreover have "nat (b_end b - (b_start b + int k)) = nat (b_end b - b_start b) - k"
    by linarith
  ultimately show "content (b\<lparr>b_start := i32 (b_start b + int k)\<rparr>) = drop k (content b)"
    "buffer_wf (b\<lparr>b_start := i32 (b_start b + int k)\<rparr>)"
    "room (b\<lparr>b_start := i32 (b_start b + int k)\<rparr>) = room b"
    using assms(1) by (auto simp: content_def buffer_wf_def room_def drop_take add.commute)
qed

lemma Buffer_Read_spec:
  assumes "buffer_wf b" "Buffer_Read b n = (bs, e, b')"
  shows "buffer_wf b' \<and> bs = take n (content b) \<and> content b' = drop n (content b) \<and>
         (e = Some EOF \<longleftrightarrow> content b = []) \<and> (e = None \<longleftrightarrow> content b \<noteq> []) \<and> b_UDP b' = b_UDP b"
proof (cases "content b = []")
  case True
  with assms show ?thesis
    by (auto simp: Buffer_Read_def Buffer_Len_content)
next
  case False
  note len = Buffer_Len_content [OF assms(1)]
  show ?thesis
  proof (cases "n < length (content b)")
    case True
    with assms False len show ?thesis
      using advance_content [OF assms(1), of n]
      by (auto simp: Buffer_Read_def Let_def)
  next
    case ge: False
    with assms False len show ?thesis
      by (auto simp: Buffer_Read_def Let_def Buffer_Clear_content Buffer_Clear_wf)
        (simp add: Buffer_Clear_def)
  qed
qed

lemma Buffer_ReadByte_spec:
  assumes "buffer_wf b"
  shows "Buffer_ReadByte b =
    (case content b of [] \<Rightarrow> (Inl EOF, b)
     | x # _ \<Rightarrow> (Inr x, b\<lparr>b_start := i32 (b_start b + 1)\<rparr>))"
proof (cases "content b")
  case Nil
  with assms length_content [OF assms] show ?thesis
    by (simp add: Buffer_ReadByte_def)
next
  case (Cons x xs)
  then have "b_v b ! nat (b_start b) = x"
    using assms
    by (metis content_def hd_drop_conv_nth hd_take length_content length_greater_0_conv
        list.distinct(1) list.sel(1) take_eq_Nil take_Nil drop_eq_Nil linorder_not_less nat_0_iff
        not_gr_zero)
  moreover have "b_start b \<noteq> b_end b"
    using Cons length_content [OF assms] by simp
  ultimately show ?thesis
    using Cons by (simp add: Buffer_ReadByte_def)
qed

lemma Buffer_ReadBytes_spec:
  assumes "buffer_wf b" "0 \<le> k"
  shows "Buffer_ReadBytes b k =
    (if int (length (content b)) < k then Some (Inl EOF, b)
     else Some (Inr (take (nat k) (content b)), b\<lparr>b_start := i32 (b_start b + k)\<rparr>))"
proof -
  have len: "i32 (b_end b - b_start b) = int (length (content b))"
    using Buffer_Len_content [OF assms(1)] by (simp add: Buffer_Len_def)
  show ?thesis
  proof (cases "int (length (content b)) < k")
    case True
    then show ?thesis by (simp add: Buffer_ReadBytes_def len)
  next
    case False
    then have le: "b_start b + k \<le> b_end b"
      using length_content [OF assms(1)] by linarith
    with assms have "i32 (b_start b + k) = b_start b + k"
      by (simp add: buffer_wf_def)
    with le False assms show ?thesis
      by (auto simp: Buffer_ReadBytes_def len go_slice_def content_def buffer_wf_def min_def)
  qed
qed

lemma Buffer_Advance_spec:
  assumes "buffer_wf b" "0 \<le> k" "k \<le> int (length (content b))"
  shows "Buffer_Advance b k = b\<lparr>b_start := i32 (b_start b + k)\<rparr>"
proof -
  have le: "b_start b + k \<le> b_end b"
    using assms length_content [OF assms(1)] by linarith
  with assms have "i32 (b_start b + k) = b_start b + k"
    by (simp add: buffer_wf_def)
  with le assms show ?thesis
    by (simp add: Buffer_Advance_def Buffer_Check_def from_end_def Let_def buffer_wf_def)
qed

subsection \<open>Looking at the content\<close>

lemma Buffer_Byte_content [content_simps]:
  assumes "buffer_wf b" "i < length (content b)"
  shows "Buffer_Byte b (int i) = Some (content b ! i)"
proof -
  have "b_start b + int i < b_end b"
    using assms length_content [OF assms(1)] by linarith
  with assms(1) show ?thesis
    by (auto simp: Buffer_Byte_def go_index_def content_def buffer_wf_def nat_add_distrib)
qed

lemma Buffer_BytesTo_content [content_simps]:
  assumes "buffer_wf b" "k \<le> length (content b)"
  shows "Buffer_BytesTo b (int k) = Some (take k (content b))"
proof -
  have "b_start b + int k \<le> b_end b"
    using assms length_content [OF assms(1)] by linarith
  with assms(1) show ?thesis
    by (auto simp: Buffer_BytesTo_def from_end_def go_slice_def content_def buffer_wf_def min_def)
qed

lemma Buffer_BytesFrom_nonneg [content_simps]:
  assumes "buffer_wf b" "k \<le> length (content b)"
  shows "Buffer_BytesFrom b (int k) = Some (drop k (content b))"
proof -
  have "b_start b + int k \<le> b_end b"
    using assms length_content [OF assms(1)] by linarith
  moreover have "nat (b_end b - (b_start b + int k)) = nat (b_end b - b_start b) - k"
    by linarith
  ultimately show ?thesis using assms(1)
    by (auto simp: Buffer_BytesFrom_def from_end_def go_slice_def content_def buffer_wf_def
        nat_add_distrib drop_take add.commute)
qed

text \<open>A negative index counts from the end; note that \<open>-0\<close> is the whole content.\<close>

lemma Buffer_BytesFrom_neg [content_simps]:
  assumes "buffer_wf b" "k \<le> length (content b)" "0 < k"
  shows "Buffer_BytesFrom b (- int k) = Some (drop (length (content b) - k) (content b))"
proof -
  have len: "Buffer_Len b = int (length (content b))"
    by (rule Buffer_Len_content [OF assms(1)])
  have "length (content b) < 2147483648"
    using assms(1) length_content [OF assms(1)] by (simp add: buffer_wf_def)
  with assms len have "from_end b (- int k) = int (length (content b) - k)"
    by (simp add: from_end_def of_nat_diff)
  then have "Buffer_BytesFrom b (- int k) = Buffer_BytesFrom b (int (length (content b) - k))"
    by (simp add: Buffer_BytesFrom_def from_end_def)
  with Buffer_BytesFrom_nonneg [OF assms(1), of "length (content b) - k"] show ?thesis by simp
qed

end
