(* ===== verification/Buf_MultiBuffer.thy ===== *)
theory Buf_MultiBuffer
  imports Buf_Buffer
begin

text \<open>
  \<^verbatim>\<open>common/buf/multi_buffer.go\<close>: lists of buffers. The abstract value of a multi-buffer is
  \<open>mb_content\<close>, the concatenation of its buffers' contents; the lemmas give every operation
  its effect on that value, so that clients reason about byte strings and not about how the
  bytes are cut into buffers. Buffers handed to an operation are owned by it, so the in-place
  updates of the source are returned as new lists.
\<close>

type_synonym MultiBuffer = "Buffer list"

definition mb_wf :: "MultiBuffer \<Rightarrow> bool" where
  "mb_wf mb \<longleftrightarrow> list_all buffer_wf mb"

definition mb_content :: "MultiBuffer \<Rightarrow> byte list" where
  "mb_content mb = concat (map content mb)"

lemma mb_wf_simps [simp]:
  "mb_wf []" "mb_wf (b # mb) \<longleftrightarrow> buffer_wf b \<and> mb_wf mb"
  "mb_wf (mb1 @ mb2) \<longleftrightarrow> mb_wf mb1 \<and> mb_wf mb2"
  by (simp_all add: mb_wf_def)

lemma mb_content_simps [simp]:
  "mb_content [] = []" "mb_content (b # mb) = content b @ mb_content mb"
  "mb_content (mb1 @ mb2) = mb_content mb1 @ mb_content mb2"
  by (simp_all add: mb_content_def)

section \<open>Operations\<close>

definition MergeMulti :: "MultiBuffer \<Rightarrow> MultiBuffer \<Rightarrow> MultiBuffer \<times> MultiBuffer" where
  "MergeMulti dest src = (dest @ src, [])"

text \<open>The loop of \<^verbatim>\<open>MergeBytes\<close> that fills new buffers: each takes at least one byte.\<close>

function new_buffers :: "byte list \<Rightarrow> MultiBuffer" where
  "new_buffers src =
     (if src = [] then []
      else (let (n, _, b) = Buffer_Write fresh_buffer src in b # new_buffers (drop n src)))"
  by pat_completeness auto
termination
  by (relation "measure length") (auto simp: Buffer_Write_append)

declare new_buffers.simps [simp del]

definition MergeBytes :: "MultiBuffer \<Rightarrow> byte list \<Rightarrow> MultiBuffer" where
  "MergeBytes dest src =
     (if dest \<noteq> [] \<and> \<not> Buffer_IsFull (last dest)
      then (let (n, _, b) = Buffer_Write (last dest) src
            in butlast dest @ [b] @ new_buffers (drop n src))
      else dest @ new_buffers src)"

definition ReleaseMulti :: "MultiBuffer \<Rightarrow> MultiBuffer" where
  "ReleaseMulti mb = take 0 mb"

text \<open>\<^verbatim>\<open>Copy\<close> into a slice of \<open>k\<close> bytes; the result is the bytes copied.\<close>

fun MultiBuffer_Copy :: "MultiBuffer \<Rightarrow> nat \<Rightarrow> byte list" where
  "MultiBuffer_Copy [] k = []"
| "MultiBuffer_Copy (bb # mb) k =
     (let out = take k (content bb) in
      if int (length out) < Buffer_Len bb then out
      else out @ MultiBuffer_Copy mb (k - length out))"

text \<open>\<^verbatim>\<open>ReadFrom\<close>: each round reads a full buffer or meets the end of the stream.\<close>

function buf_ReadFrom ::
  "instream \<Rightarrow> MultiBuffer \<Rightarrow> (MultiBuffer \<times> goerr option \<times> instream) option" where
  "buf_ReadFrom r mb =
     (case Buffer_ReadFullFrom fresh_buffer r Size of
        None \<Rightarrow> None
      | Some (_, e, b, r') \<Rightarrow>
          (let mb' = (if Buffer_IsEmpty b then mb else mb @ [b]) in
           case e of
             None \<Rightarrow> buf_ReadFrom r' mb'
           | Some err \<Rightarrow>
               if err = EOF \<or> err = ErrUnexpectedEOF then Some (mb', None, r')
               else Some (mb', Some err, r')))"
  by pat_completeness auto
termination
proof (relation "measure (\<lambda>(r, mb). length (flat r))", goal_cases)
  case 1
  show ?case by simp
next
  case (2 r mb x y z w e b r' mb')
  then have "Buffer_ReadFullFrom fresh_buffer r Size = Some (y, None, b, r')"
    by simp
  then have "io_ReadFull 8192 r = (take 8192 (flat r), None, r') \<and> 8192 \<le> length (flat r) \<and>
    flat r' = drop 8192 (flat r)"
    by (auto simp: Buffer_ReadFullFrom_unfold Size_def Let_def split: prod.splits
        dest: io_ReadFull_None)
  then show ?case by auto
qed

declare buf_ReadFrom.simps [simp del]

text \<open>\<^verbatim>\<open>SplitBytes\<close> into a slice of \<open>k\<close> bytes: what is left, and the bytes split off.\<close>

fun SplitBytes :: "MultiBuffer \<Rightarrow> nat \<Rightarrow> MultiBuffer \<times> byte list" where
  "SplitBytes [] k = ([], [])"
| "SplitBytes (p # mb) k =
     (let (bs, _, p') = Buffer_Read p k in
      if \<not> Buffer_IsEmpty p' then (p' # mb, bs)
      else (let (mb', bs') = SplitBytes mb (k - length bs) in (mb', bs @ bs')))"

fun SplitFirst :: "MultiBuffer \<Rightarrow> MultiBuffer \<times> Buffer option" where
  "SplitFirst [] = ([], None)"
| "SplitFirst (b # mb) = (mb, Some b)"

definition SplitFirstBytes :: "MultiBuffer \<Rightarrow> nat \<Rightarrow> MultiBuffer \<times> byte list" where
  "SplitFirstBytes mb k =
     (case SplitFirst mb of
        (mb', None) \<Rightarrow> (mb', [])
      | (mb', Some b) \<Rightarrow> (mb', take k (content b)))"

text \<open>
  \<^verbatim>\<open>Compact\<close>: \<^verbatim>\<open>common.Must2(last.ReadFrom(curr))\<close> panics on the \<^verbatim>\<open>io.EOF\<close> that reading an
  empty buffer answers.
\<close>

fun Compact_loop :: "Buffer \<Rightarrow> MultiBuffer \<Rightarrow> MultiBuffer option" where
  "Compact_loop lst [] = Some [lst]"
| "Compact_loop lst (cur # mb) =
     (if Buffer_Len cur > Buffer_Available lst
      then do { rest \<leftarrow> Compact_loop cur mb; Some (lst # rest) }
      else
        (case Buffer_Read cur (room lst) of
           (bs, Some e, _) \<Rightarrow> None
         | (bs, None, _) \<Rightarrow> Compact_loop (append_read lst bs) mb))"

definition Compact :: "MultiBuffer \<Rightarrow> MultiBuffer option" where
  "Compact mb = (case mb of [] \<Rightarrow> Some [] | b # mb' \<Rightarrow> Compact_loop b mb')"

text \<open>The loop of \<^verbatim>\<open>SplitSize\<close>: what is left, and the buffers taken.\<close>

fun SplitSize_loop :: "MultiBuffer \<Rightarrow> int \<Rightarrow> int \<Rightarrow> MultiBuffer \<times> MultiBuffer" where
  "SplitSize_loop [] tot sz = ([], [])"
| "SplitSize_loop (b # mb) tot sz =
     (if i32 (tot + Buffer_Len b) > sz then (b # mb, [])
      else (let (rest, r) = SplitSize_loop mb (i32 (tot + Buffer_Len b)) sz in (rest, b # r)))"

definition SplitSize :: "MultiBuffer \<Rightarrow> int \<Rightarrow> (MultiBuffer \<times> MultiBuffer) option" where
  "SplitSize mb sz =
     (case mb of
        [] \<Rightarrow> Some ([], [])
      | b0 # mb' \<Rightarrow>
          if Buffer_Len b0 > sz then do {
            b \<leftarrow> Buffer_Extend fresh_buffer sz;
            bs \<leftarrow> Buffer_BytesTo b0 sz;
            Some (Buffer_Advance b0 sz # mb', [b\<lparr>b_v := blit (b_v b) 0 bs\<rparr>])
          }
          else Some (SplitSize_loop mb 0 sz))"

definition SplitMulti :: "MultiBuffer \<Rightarrow> int \<Rightarrow> MultiBuffer \<times> MultiBuffer" where
  "SplitMulti mb i =
     (if i < int (length mb) \<and> i \<ge> 0 then (take (nat i) mb, drop (nat i) mb) else (mb, []))"

text \<open>\<^verbatim>\<open>WriteMultiBuffer\<close>: the buffers not yet written are handed back with the error.\<close>

fun buf_WriteMultiBuffer :: "sink \<Rightarrow> MultiBuffer \<Rightarrow> MultiBuffer \<times> goerr option \<times> sink" where
  "buf_WriteMultiBuffer w [] = ([], None, w)"
| "buf_WriteMultiBuffer w (b # mb) =
     (case io_Write (content b) w of
        (_, Some e, w') \<Rightarrow> (mb, Some e, w')
      | (_, None, w') \<Rightarrow> buf_WriteMultiBuffer w' mb)"

definition MultiBuffer_Len :: "MultiBuffer \<Rightarrow> int" where
  "MultiBuffer_Len mb = foldl (\<lambda>sz b. i32 (sz + Buffer_Len b)) 0 mb"

fun MultiBuffer_IsEmpty :: "MultiBuffer \<Rightarrow> bool" where
  "MultiBuffer_IsEmpty [] = True"
| "MultiBuffer_IsEmpty (b # mb) = (if \<not> Buffer_IsEmpty b then False else MultiBuffer_IsEmpty mb)"

definition ReadAllToBytes :: "instream \<Rightarrow> ((goerr + byte list) \<times> instream) option" where
  "ReadAllToBytes r =
     do {
       (mb, e, r') \<leftarrow> buf_ReadFrom r [];
       case e of
         Some err \<Rightarrow> Some (Inl err, r')
       | None \<Rightarrow>
           if MultiBuffer_Len mb = 0 then Some (Inr [], r')
           else Some (Inr (snd (SplitBytes mb (nat (MultiBuffer_Len mb)))), r')
     }"

subsection \<open>MultiBufferContainer\<close>

definition Container_Read :: "MultiBuffer \<Rightarrow> nat \<Rightarrow> byte list \<times> goerr option \<times> MultiBuffer" where
  "Container_Read c k =
     (if MultiBuffer_IsEmpty c then ([], Some EOF, c)
      else (let (mb, bs) = SplitBytes c k in (bs, None, mb)))"

definition Container_ReadMultiBuffer :: "MultiBuffer \<Rightarrow> MultiBuffer \<times> MultiBuffer" where
  "Container_ReadMultiBuffer c = (c, [])"

definition Container_Write :: "MultiBuffer \<Rightarrow> byte list \<Rightarrow> nat \<times> MultiBuffer" where
  "Container_Write c b = (length b, MergeBytes c b)"

definition Container_WriteMultiBuffer :: "MultiBuffer \<Rightarrow> MultiBuffer \<Rightarrow> MultiBuffer" where
  "Container_WriteMultiBuffer c b = fst (MergeMulti c b)"

definition Container_Close :: "MultiBuffer \<Rightarrow> MultiBuffer" where
  "Container_Close c = ReleaseMulti c"

section \<open>What the operations do to the content\<close>

lemma MultiBuffer_IsEmpty_content [content_simps]:
  "mb_wf mb \<Longrightarrow> MultiBuffer_IsEmpty mb \<longleftrightarrow> mb_content mb = []"
  by (induction mb) (auto simp: Buffer_IsEmpty_content)

lemma MultiBuffer_Len_foldl:
  "mb_wf mb \<Longrightarrow> 0 \<le> n \<Longrightarrow> n + int (length (mb_content mb)) < 2147483648 \<Longrightarrow>
   foldl (\<lambda>sz b. i32 (sz + Buffer_Len b)) n mb = n + int (length (mb_content mb))"
  by (induction mb arbitrary: n) (auto simp: Buffer_Len_content)

lemma MultiBuffer_Len_content [content_simps]:
  "mb_wf mb \<Longrightarrow> length (mb_content mb) < 2147483648 \<Longrightarrow>
   MultiBuffer_Len mb = int (length (mb_content mb))"
  by (simp add: MultiBuffer_Len_def MultiBuffer_Len_foldl)

lemma new_buffers_spec: "mb_wf (new_buffers src) \<and> mb_content (new_buffers src) = src"
proof (induction src rule: new_buffers.induct)
  case (1 src)
  show ?case
  proof (cases "src = []")
    case True
    then show ?thesis by (simp add: new_buffers.simps)
  next
    case False
    have w: "Buffer_Write fresh_buffer src =
      (min 8192 (length src), if 8192 < length src then Some ErrBufferFull else None,
       append_read fresh_buffer (take 8192 src))"
      by (simp add: Buffer_Write_append)
    have "mb_wf (new_buffers (drop 8192 src)) \<and> mb_content (new_buffers (drop 8192 src)) = drop 8192 src"
    proof (cases "length src \<le> 8192")
      case True
      then show ?thesis by (simp add: new_buffers.simps)
    next
      case gt: False
      with "1.IH" [OF False w [symmetric] refl] show ?thesis by (simp add: min_def)
    qed
    moreover have "drop (min 8192 (length src)) src = drop 8192 src"
      by (simp add: min_def)
    ultimately show ?thesis
      using False w
      by (simp add: new_buffers.simps [of src] append_read_wf append_read_content)
  qed
qed

lemma MergeBytes_wf [wf_intro]: "mb_wf dest \<Longrightarrow> mb_wf (MergeBytes dest src)"
  and MergeBytes_content [content_simps]:
    "mb_wf dest \<Longrightarrow> mb_content (MergeBytes dest src) = mb_content dest @ src"
proof -
  assume wf: "mb_wf dest"
  have "mb_wf (MergeBytes dest src) \<and> mb_content (MergeBytes dest src) = mb_content dest @ src"
  proof (cases "dest \<noteq> [] \<and> \<not> Buffer_IsFull (last dest)")
    case True
    then obtain d b where dest: "dest = d @ [b]"
      by (metis append_butlast_last_id)
    with wf have b: "buffer_wf b" and d: "mb_wf d" by simp_all
    have "drop (min (room b) (length src)) src = drop (room b) src"
      by (simp add: min_def)
    with True dest b d show ?thesis
      by (simp add: MergeBytes_def Buffer_Write_append new_buffers_spec append_read_wf
          append_read_content)
  next
    case False
    with wf show ?thesis
      by (auto simp: MergeBytes_def new_buffers_spec)
  qed
  then show "mb_wf (MergeBytes dest src)"
    and "mb_content (MergeBytes dest src) = mb_content dest @ src" by simp_all
qed

lemma MultiBuffer_Copy_content [content_simps]:
  "mb_wf mb \<Longrightarrow> MultiBuffer_Copy mb k = take k (mb_content mb)"
  by (induction mb arbitrary: k) (auto simp: Let_def Buffer_Len_content)

lemma SplitBytes_spec:
  "mb_wf mb \<Longrightarrow> SplitBytes mb k = (mb', bs) \<Longrightarrow>
   mb_wf mb' \<and> bs = take k (mb_content mb) \<and> mb_content mb' = drop k (mb_content mb)"
proof (induction mb arbitrary: k mb' bs)
  case Nil
  then show ?case by simp
next
  case (Cons p mb)
  obtain xs e p' where rd: "Buffer_Read p k = (xs, e, p')"
    by (cases "Buffer_Read p k") auto
  with Cons.prems have p: "buffer_wf p'" "xs = take k (content p)" "content p' = drop k (content p)"
    using Buffer_Read_spec [of p k xs e p'] by auto
  show ?case
  proof (cases "Buffer_IsEmpty p'")
    case False
    with p have "k < length (content p)"
      by (simp add: Buffer_IsEmpty_content)
    with False p rd Cons.prems show ?thesis by auto
  next
    case True
    with p have le: "length (content p) \<le> k"
      by (simp add: Buffer_IsEmpty_content)
    obtain m ys where sp: "SplitBytes mb (k - length xs) = (m, ys)"
      by (cases "SplitBytes mb (k - length xs)")
    with Cons.IH [OF _ sp] Cons.prems p True le rd show ?thesis by auto
  qed
qed

lemma SplitFirst_content:
  "SplitFirst mb = (mb', Some b) \<Longrightarrow> mb = b # mb'"
  "SplitFirst mb = (mb', None) \<Longrightarrow> mb = [] \<and> mb' = []"
  by (cases mb; simp)+

lemma Compact_loop_spec:
  "buffer_wf lst \<Longrightarrow> mb_wf mb \<Longrightarrow> \<forall>b \<in> set mb. content b \<noteq> [] \<Longrightarrow>
   \<exists>mb'. Compact_loop lst mb = Some mb' \<and> mb_wf mb' \<and> length mb' \<le> Suc (length mb) \<and>
         mb_content mb' = content lst @ mb_content mb"
proof (induction lst mb rule: Compact_loop.induct)
  case (1 lst)
  then show ?case by simp
next
  case (2 lst cur mb)
  show ?case
  proof (cases "Buffer_Len cur > Buffer_Available lst")
    case True
    with 2 show ?thesis by fastforce
  next
    case False
    with "2.prems" have fits: "length (content cur) \<le> room lst"
      by (simp add: Buffer_Len_content Buffer_Available_room)
    obtain bs e c' where rd: "Buffer_Read cur (room lst) = (bs, e, c')"
      by (cases "Buffer_Read cur (room lst)") auto
    with "2.prems" fits have [simp]: "bs = content cur" "e = None"
      using Buffer_Read_spec [of cur "room lst" bs e c'] by (auto simp del: not_None_eq)
    have "buffer_wf (append_read lst (content cur))"
      "content (append_read lst (content cur)) = content lst @ content cur"
      using "2.prems" fits by (simp_all add: append_read_wf append_read_content)
    with "2.IH"(2) [OF False rd [symmetric], simplified] "2.prems" False rd show ?thesis
      by (fastforce simp: le_Suc_eq)
  qed
qed

lemma SplitSize_loop_spec:
  "mb_wf mb \<Longrightarrow> 0 \<le> t \<Longrightarrow> t + int (length (mb_content mb)) < 2147483648 \<Longrightarrow>
   SplitSize_loop mb t sz = (rest, r) \<Longrightarrow>
   mb = r @ rest \<and> (r \<noteq> [] \<longrightarrow> t + int (length (mb_content r)) \<le> sz) \<and>
   (rest \<noteq> [] \<longrightarrow> sz < t + int (length (mb_content r)) + int (length (content (hd rest))))"
proof (induction mb arbitrary: t rest r)
  case Nil
  then show ?case by simp
next
  case (Cons b mb)
  then have b: "Buffer_Len b = int (length (content b))"
    by (simp add: Buffer_Len_content)
  show ?case
  proof (cases "t + int (length (content b)) > sz")
    case True
    with Cons.prems b show ?thesis by auto
  next
    case False
    obtain rest' r' where sp: "SplitSize_loop mb (t + int (length (content b))) sz = (rest', r')"
      by (cases "SplitSize_loop mb (t + int (length (content b))) sz")
    with Cons.prems b False have [simp]: "rest = rest'" "r = b # r'" by auto
    from Cons.IH [OF _ _ _ sp] Cons.prems False show ?thesis
      by (cases "r' = []") (auto simp: algebra_simps)
  qed
qed

text \<open>\<^verbatim>\<open>SplitSize\<close> with a size a buffer can hold never panics and cuts the content in two.\<close>

lemma SplitSize_spec:
  assumes "mb_wf mb" "0 \<le> sz" "sz \<le> 8192" "length (mb_content mb) < 2147483648"
  obtains rest r where "SplitSize mb sz = Some (rest, r)" "mb_wf rest" "mb_wf r"
    "mb_content r @ mb_content rest = mb_content mb" "int (length (mb_content r)) \<le> sz"
    "mb \<noteq> [] \<longrightarrow> 0 < sz \<longrightarrow>
       length (mb_content rest) + length rest < length (mb_content mb) + length mb"
proof (cases mb)
  case Nil
  with that [of "[]" "[]"] assms show thesis by (simp add: SplitSize_def)
next
  case (Cons b0 mb')
  with assms have b0: "buffer_wf b0" and mb': "mb_wf mb'" by simp_all
  show thesis
  proof (cases "Buffer_Len b0 > sz")
    case True
    define b where "b = append_read fresh_buffer (replicate (nat sz) 0)"
    have gt: "nat sz < length (content b0)"
      using True b0 assms by (simp add: Buffer_Len_content)
    have ext: "Buffer_Extend fresh_buffer sz = Some b"
      using assms by (simp add: Buffer_Extend_append b_def)
    have to: "Buffer_BytesTo b0 sz = Some (take (nat sz) (content b0))"
      using Buffer_BytesTo_content [OF b0, of "nat sz"] gt assms by simp
    have b: "b\<lparr>b_v := blit (b_v b) 0 (take (nat sz) (content b0))\<rparr>
        = append_read fresh_buffer (take (nat sz) (content b0))"
      using assms gt by (simp add: b_def append_read_def blit_def)
    have adv: "buffer_wf (Buffer_Advance b0 sz)" "content (Buffer_Advance b0 sz) = drop (nat sz) (content b0)"
      using advance_content [OF b0, of "nat sz"] gt assms
      by (simp_all add: Buffer_Advance_spec [OF b0])
    show thesis
    proof (rule that)
      show "SplitSize mb sz = Some (Buffer_Advance b0 sz # mb',
          [append_read fresh_buffer (take (nat sz) (content b0))])"
        using Cons True ext to b by (simp add: SplitSize_def)
    qed (use assms gt adv mb' Cons in \<open>auto simp: append_read_wf append_read_content\<close>)
  next
    case False
    obtain rest r where sp: "SplitSize_loop mb 0 sz = (rest, r)"
      by (cases "SplitSize_loop mb 0 sz")
    from SplitSize_loop_spec [OF assms(1) _ _ sp] assms
    have mb: "mb = r @ rest" and le: "r \<noteq> [] \<longrightarrow> int (length (mb_content r)) \<le> sz"
      and stop: "rest \<noteq> [] \<longrightarrow> sz < int (length (mb_content r)) + int (length (content (hd rest)))"
      by auto
    show thesis
    proof (rule that [of rest r])
      show "SplitSize mb sz = Some (rest, r)"
        using Cons False sp by (simp add: SplitSize_def)
      have "r \<noteq> []"
        using Cons False mb stop b0 by (auto simp: Buffer_Len_content)
      then show "mb \<noteq> [] \<longrightarrow> 0 < sz \<longrightarrow>
          length (mb_content rest) + length rest < length (mb_content mb) + length mb"
        using mb by simp
    qed (use assms mb le in auto)
  qed
qed

end
