(* ===== verification/Reflex_Inbound.thy ===== *)
theory Reflex_Inbound
  imports Reflex_Morph Buf_MultiBuffer Net_Address
begin

text \<open>
  \<^verbatim>\<open>proxy/reflex/inbound/inbound.go\<close>: the inbound handler. \<open>Process\<close> peeks at the connection,
  recognises a Reflex handshake (magic number or HTTP POST), authenticates the client, and
  then serves encrypted frames; every other connection is relayed to the fallback web server.

  Third-party code is a parameter: the record \<open>libs\<close> holds Curve25519, HKDF, the cipher's
  constructor, the textual form of a UUID, and the JSON and base64 decoders of the HTTP
  handshake. The dispatcher (an interface of \<^verbatim>\<open>features/routing\<close>) is the record \<open>dispatcher\<close>,
  whose functions change a state of their own. What one connection can change is the record
  \<open>world\<close>; \<open>w_profile\<close> is the traffic profile, which all connections share. The two copying
  goroutines of the fallback are a step relation.
\<close>

section \<open>Data\<close>

definition ReflexMagic :: u32 where "ReflexMagic = 0x5246584C"

definition ReflexMinHandshakeSize :: nat where "ReflexMinHandshakeSize = 64"

record MemoryAccount =
  acc_Id :: gostring

definition MemoryAccount_Equals :: "MemoryAccount \<Rightarrow> MemoryAccount \<Rightarrow> bool" where
  "MemoryAccount_Equals a account \<longleftrightarrow> acc_Id a = acc_Id account"

record MemoryUser =
  mu_Email :: gostring
  mu_Account :: MemoryAccount

record Handler =
  clients :: "MemoryUser list"
  fallback :: "u32 option"
  defaultProfile :: "TrafficProfile option"

record ClientHandshake =
  PublicKey :: "byte list"
  UserID :: "byte list"
  PolicyReq :: "byte list"
  Timestamp :: "64 word"
  Nonce :: "byte list"

record libs =
  ScalarBaseMult :: "byte list \<Rightarrow> byte list"
  ScalarMult :: "byte list \<Rightarrow> byte list \<Rightarrow> byte list"
  hkdf_key :: "byte list \<Rightarrow> byte list \<Rightarrow> gostring \<Rightarrow> byte list"
  chacha_New :: "byte list \<Rightarrow> goerr + AEAD"
  uuid_String :: "byte list \<Rightarrow> gostring"
  json_data :: "byte list \<Rightarrow> goerr + gostring"
  base64_Decode :: "gostring \<Rightarrow> goerr + byte list"

record ('d, 'l) dispatcher =
  Dispatch :: "'d \<Rightarrow> Destination \<Rightarrow> (goerr + 'l) \<times> 'd"
  link_Write :: "'d \<Rightarrow> 'l \<Rightarrow> MultiBuffer \<Rightarrow> 'd"
  link_Close :: "'d \<Rightarrow> 'l \<Rightarrow> 'd"
  link_Read :: "'d \<Rightarrow> 'l \<Rightarrow> (goerr + MultiBuffer) \<times> 'd"

record 'd world =
  w_reader :: instream
  w_conn :: sink
  w_disp :: 'd
  w_profile :: "TrafficProfile option"
  w_rand :: instream

text \<open>
  What the environment decides: the clock, the randomness of the \<open>k\<close>-th frame and the
  recycled memory of its buffer, and the result of closing the connection.
\<close>

record inputs =
  now :: "64 word"
  rnds :: "nat \<Rightarrow> randomness"
  mems :: "nat \<Rightarrow> byte list"
  close_err :: "goerr option"

section \<open>Detection\<close>

definition isReflexMagic :: "byte list \<Rightarrow> bool" where
  "isReflexMagic data = (if length data < 4 then False else Uint32 (take 4 data) = ReflexMagic)"

fun containsHTTPVersion :: "byte list \<Rightarrow> bool" where
  "containsHTTPVersion b =
     (if 8 \<le> length b then
        (if take 8 b = gostr ''HTTP/1.1'' then True else containsHTTPVersion (tl b))
      else False)"

declare containsHTTPVersion.simps [simp del]

definition isHTTPPostLike :: "byte list \<Rightarrow> bool" where
  "isHTTPPostLike peeked =
     (if length peeked < 14 then False
      else if take 4 peeked \<noteq> gostr ''POST'' then False
      else if \<not> containsHTTPVersion peeked then False
      else True)"

definition isReflexHandshake :: "byte list \<Rightarrow> bool" where
  "isReflexHandshake data =
     (if isReflexMagic data then True else if isHTTPPostLike data then True else False)"

section \<open>Keys and users\<close>

definition inbound_New :: "gostring list \<Rightarrow> u32 option \<Rightarrow> Handler" where
  "inbound_New config_Clients config_Fallback =
     \<lparr>clients = map (\<lambda>i. \<lparr>mu_Email = i, mu_Account = \<lparr>acc_Id = i\<rparr>\<rparr>) config_Clients,
      fallback = config_Fallback, defaultProfile = Profiles ''http2-api''\<rparr>"

definition generateKeyPair ::
  "libs \<Rightarrow> instream \<Rightarrow> (goerr + byte list \<times> byte list) \<times> instream" where
  "generateKeyPair L rd =
     (case io_ReadFull 32 rd of
        (_, Some e, rd') \<Rightarrow> (Inl e, rd')
      | (priv, None, rd') \<Rightarrow> (Inr (priv, ScalarBaseMult L priv), rd'))"

definition deriveSharedKey :: "libs \<Rightarrow> byte list \<Rightarrow> byte list \<Rightarrow> byte list" where
  "deriveSharedKey L privateKey peerPublicKey = ScalarMult L privateKey peerPublicKey"

definition deriveSessionKey :: "libs \<Rightarrow> byte list \<Rightarrow> byte list \<Rightarrow> byte list" where
  "deriveSessionKey L sharedKey salt = hkdf_key L sharedKey salt (gostr ''reflex-session'')"

definition authenticateUser :: "libs \<Rightarrow> Handler \<Rightarrow> byte list \<Rightarrow> goerr + MemoryUser" where
  "authenticateUser L h userID =
     (case find (\<lambda>user. acc_Id (mu_Account user) = uuid_String L userID) (clients h) of
        Some user \<Rightarrow> Inr user
      | None \<Rightarrow> Inl (ErrMsg ''user not found''))"

section \<open>Responses\<close>

definition CRLF :: gostring where "CRLF = [13, 10]"

definition conn_Close :: "inputs \<Rightarrow> 'd world \<Rightarrow> goerr option \<times> 'd world" where
  "conn_Close I W = (close_err I, W\<lparr>w_conn := sink_Close (w_conn W)\<rparr>)"

definition error_body :: "string \<Rightarrow> gostring" where
  "error_body reason = gostr ''{\"error\":\"'' @ gostr reason @ gostr ''\"}''"

definition forbidden_header :: "nat \<Rightarrow> gostring" where
  "forbidden_header n =
     gostr ''HTTP/1.1 403 Forbidden'' @ CRLF @ gostr ''Content-Type: application/json'' @ CRLF @
     gostr ''Content-Length: '' @ itoa n @ CRLF @ CRLF"

definition writeHTTPErrorAndClose ::
  "inputs \<Rightarrow> string \<Rightarrow> 'd world \<Rightarrow> goerr option \<times> 'd world" where
  "writeHTTPErrorAndClose I reason W =
     (let body = error_body reason
      in case io_Write (forbidden_header (length body)) (w_conn W) of
           (_, Some e, c1) \<Rightarrow> (Some e, snd (conn_Close I (W\<lparr>w_conn := c1\<rparr>)))
         | (_, None, c1) \<Rightarrow>
             (case io_Write body c1 of
                (_, Some e, c2) \<Rightarrow> (Some e, snd (conn_Close I (W\<lparr>w_conn := c2\<rparr>)))
              | (_, None, c2) \<Rightarrow> conn_Close I (W\<lparr>w_conn := c2\<rparr>)))"

text \<open>\<^verbatim>\<open>json.Marshal\<close> of a \<^verbatim>\<open>ServerHandshake\<close>: a byte array is a list of numbers, a nil slice is null.\<close>

fun json_bytes :: "byte list \<Rightarrow> gostring" where
  "json_bytes [] = []"
| "json_bytes [b] = itoa (unat b)"
| "json_bytes (b # bs) = itoa (unat b) @ gostr '','' @ json_bytes bs"

definition marshal_ServerHandshake :: "byte list \<Rightarrow> gostring" where
  "marshal_ServerHandshake pub =
     gostr ''{\"public_key\":['' @ json_bytes pub @ gostr ''],\"policy_grant\":null}''"

definition ok_header :: "nat \<Rightarrow> gostring" where
  "ok_header n =
     gostr ''HTTP/1.1 200 OK'' @ CRLF @ gostr ''Content-Type: application/json'' @ CRLF @
     gostr ''Content-Length: '' @ itoa n @ CRLF @ CRLF"

section \<open>The session loop\<close>

text \<open>What the body of the loop does with one frame; \<open>k\<close> counts the frames.\<close>

definition handle_data ::
  "('d, 'l) dispatcher \<Rightarrow> inputs \<Rightarrow> nat \<Rightarrow> byte list \<Rightarrow> Session \<times> 'd world \<Rightarrow> Session \<times> 'd world" where
  "handle_data D I k payload SW =
     (case SW of (s, W) \<Rightarrow>
       (let dest = TCPDestination (ParseAddress (gostr ''127.0.0.1'')) 80
        in case Dispatch D (w_disp W) dest of
             (Inl e, d1) \<Rightarrow> (s, W\<lparr>w_disp := d1\<rparr>)
           | (Inr link, d1) \<Rightarrow>
               (let b = snd (snd (Buffer_Write (buf_New (mems I k)) payload));
                    d2 = link_Write D d1 link [b];
                    d3 = link_Close D d2 link
                in case link_Read D d3 link of
                     (Inl e, d4) \<Rightarrow> (s, W\<lparr>w_disp := d4\<rparr>)
                   | (Inr mb, d4) \<Rightarrow>
                       if MultiBuffer_IsEmpty mb then (s, W\<lparr>w_disp := d4\<rparr>)
                       else
                         (let n = nat (MultiBuffer_Len mb);
                              bs = MultiBuffer_Copy mb n;
                              data = bs @ replicate (n - length bs) 0
                          in case WriteFrameWithMorphing (rnds I k) s (w_conn W) FrameTypeData data
                                    (w_profile W) of
                               (_, s', c', p', _) \<Rightarrow>
                                 (s', W\<lparr>w_disp := d4, w_conn := c', w_profile := p'\<rparr>)))))"

definition handle_frame ::
  "('d, 'l) dispatcher option \<Rightarrow> inputs \<Rightarrow> nat \<Rightarrow> Frame \<Rightarrow> Session \<times> 'd world \<Rightarrow> Session \<times> 'd world" where
  "handle_frame D I k f SW =
     (if f_Type f = FrameTypeData then
        (case D of None \<Rightarrow> SW | Some D' \<Rightarrow> handle_data D' I k (f_Payload f) SW)
      else if f_Type f = FrameTypePaddingCtrl \<or> f_Type f = FrameTypeTimingCtrl then
        (case SW of (s, W) \<Rightarrow>
          (s, W\<lparr>w_profile := ApplyControlFrame (w_profile W) (f_Type f) (f_Payload f)\<rparr>))
      else SW)"

lemma handle_data_reader: "w_reader (snd (handle_data D I k payload SW)) = w_reader (snd SW)"
  by (simp add: handle_data_def Let_def split: prod.splits sum.splits)

lemma handle_frame_reader [simp]: "w_reader (snd (handle_frame D I k f SW)) = w_reader (snd SW)"
  by (auto simp: handle_frame_def handle_data_reader split: option.splits prod.splits)

text \<open>Every frame takes at least its length field from the stream, so the loop ends.\<close>

function handleSession ::
  "('d, 'l) dispatcher option \<Rightarrow> inputs \<Rightarrow> nat \<Rightarrow> Session \<Rightarrow> 'd world \<Rightarrow>
   goerr option \<times> Session \<times> 'd world" where
  "handleSession D I k s W =
     (case ReadFrame s (w_reader W) of
        (Inl e, s', r') \<Rightarrow> (if e = EOF then None else Some e, s', W\<lparr>w_reader := r'\<rparr>)
      | (Inr f, s', r') \<Rightarrow>
          (case handle_frame D I k f (s', W\<lparr>w_reader := r'\<rparr>) of
             (s'', W'') \<Rightarrow> handleSession D I (k + 1) s'' W''))"
  by pat_completeness auto
termination
proof (relation "measure (\<lambda>(D, I, k, s, W). length (flat (w_reader W)))", goal_cases)
  case (2 D I k s W res x f s' r' s'' W'')
  then have "ReadFrame s (w_reader W) = (Inr f, s', r')" by simp
  from ReadFrame_shrinks(2) [OF this refl] 2(4) [symmetric]
    handle_frame_reader [of D I k f "(s', W\<lparr>w_reader := r'\<rparr>)"]
  show ?case by simp
qed simp

declare handleSession.simps [simp del]

section \<open>The handshake\<close>

definition processHandshake ::
  "libs \<Rightarrow> ('d, 'l) dispatcher option \<Rightarrow> inputs \<Rightarrow> Handler \<Rightarrow> ClientHandshake \<Rightarrow> 'd world \<Rightarrow>
   goerr option \<times> 'd world" where
  "processHandshake L D I h clientHS W =
     (if Timestamp clientHS <s now I - 300 \<or> now I + 300 <s Timestamp clientHS
      then writeHTTPErrorAndClose I ''invalid timestamp'' W
      else
        (case generateKeyPair L (w_rand W) of
           (Inl e, rd) \<Rightarrow> (Some e, W\<lparr>w_rand := rd\<rparr>)
         | (Inr (serverPriv, serverPub), rd) \<Rightarrow>
             (let W1 = W\<lparr>w_rand := rd\<rparr>;
                  shared = deriveSharedKey L serverPriv (PublicKey clientHS);
                  sessionKey = deriveSessionKey L shared (Nonce clientHS)
              in case authenticateUser L h (UserID clientHS) of
                   Inl _ \<Rightarrow> writeHTTPErrorAndClose I ''forbidden'' W1
                 | Inr user \<Rightarrow>
                     (let respBody = marshal_ServerHandshake serverPub
                      in case io_Write (ok_header (length respBody)) (w_conn W1) of
                           (_, Some e, c1) \<Rightarrow> (Some e, W1\<lparr>w_conn := c1\<rparr>)
                         | (_, None, c1) \<Rightarrow>
                             (case io_Write respBody c1 of
                                (_, Some e, c2) \<Rightarrow> (Some e, W1\<lparr>w_conn := c2\<rparr>)
                              | (_, None, c2) \<Rightarrow>
                                  (let W2 = W1\<lparr>w_conn := c2\<rparr>
                                   in case NewSession (chacha_New L) sessionKey of
                                        Inl e \<Rightarrow> (Some e, W2)
                                      | Inr session \<Rightarrow>
                                          (case handleSession D I 0 session W2 of
                                             (e, _, W3) \<Rightarrow> (e, W3))))))))"

text \<open>The fixed part of the handshake: public key, user, timestamp and nonce.\<close>

definition fixed_fields :: "byte list \<Rightarrow> byte list \<Rightarrow> ClientHandshake" where
  "fixed_fields b policy =
     \<lparr>PublicKey = take 32 b, UserID = take 16 (drop 32 b), PolicyReq = policy,
      Timestamp = Uint64 (take 8 (drop 48 b)), Nonce = take 16 (drop 56 b)\<rparr>"

definition handleReflexMagic ::
  "libs \<Rightarrow> ('d, 'l) dispatcher option \<Rightarrow> inputs \<Rightarrow> Handler \<Rightarrow> 'd world \<Rightarrow> goerr option \<times> 'd world" where
  "handleReflexMagic L D I h W =
     (case io_ReadFull 4 (w_reader W) of
        (_, Some e, r1) \<Rightarrow> (Some e, W\<lparr>w_reader := r1\<rparr>)
      | (_, None, r1) \<Rightarrow>
          (case io_ReadFull 74 r1 of
             (_, Some e, r2) \<Rightarrow> (Some e, W\<lparr>w_reader := r2\<rparr>)
           | (fixed, None, r2) \<Rightarrow>
               (let policyLen = unat (Uint16 (take 2 (drop 72 fixed)))
                in if policyLen > 0 then
                     (case io_ReadFull policyLen r2 of
                        (_, Some e, r3) \<Rightarrow> (Some e, W\<lparr>w_reader := r3\<rparr>)
                      | (policy, None, r3) \<Rightarrow>
                          processHandshake L D I h (fixed_fields fixed policy) (W\<lparr>w_reader := r3\<rparr>))
                   else processHandshake L D I h (fixed_fields fixed []) (W\<lparr>w_reader := r2\<rparr>))))"

definition parseClientHandshakeFromBytes :: "byte list \<Rightarrow> goerr + ClientHandshake" where
  "parseClientHandshakeFromBytes b =
     (if length b < 72 then Inl (ErrMsg ''handshake packet too short'')
      else Inr (fixed_fields b (drop 72 b)))"

text \<open>
  The header loop of the HTTP handshake. \<^verbatim>\<open>line[0:15]\<close> has 15 bytes; the strings it is compared
  with have 14. The number is the first run of digits of the line.
\<close>

definition header_number :: "gostring \<Rightarrow> 64 word option" where
  "header_number line =
     (let ds = takeWhile is_digit (dropWhile (\<lambda>c. \<not> is_digit c) line)
      in if ds = [] then None else Some (foldl (\<lambda>v c. v * 10 + ucast (c - 48)) 0 ds))"

function read_headers ::
  "64 word \<Rightarrow> instream \<Rightarrow> (goerr + 64 word) \<times> instream" where
  "read_headers contentLength r =
     (case bufio_ReadString 10 r of
        (Inl e, r') \<Rightarrow> (Inl e, r')
      | (Inr line, r') \<Rightarrow>
          if line = CRLF then (Inr contentLength, r')
          else if length line \<ge> 16 \<and>
            (take 15 line = gostr ''Content-Length'' \<or> take 15 line = gostr ''content-length'')
          then
            (case header_number line of
               Some v \<Rightarrow> read_headers v r'
             | None \<Rightarrow> read_headers contentLength r')
          else read_headers contentLength r')"
  by pat_completeness auto
termination
  by (relation "measure (\<lambda>(c, r). length (flat r))") (auto dest!: sym [THEN bufio_ReadString_shrinks])

declare read_headers.simps [simp del]

definition handleReflexHTTP ::
  "libs \<Rightarrow> ('d, 'l) dispatcher option \<Rightarrow> inputs \<Rightarrow> Handler \<Rightarrow> 'd world \<Rightarrow> goerr option \<times> 'd world" where
  "handleReflexHTTP L D I h W =
     (case read_headers 0 (w_reader W) of
        (Inl e, r1) \<Rightarrow> (Some e, W\<lparr>w_reader := r1\<rparr>)
      | (Inr contentLength, r1) \<Rightarrow>
          if \<not> 0 <s contentLength then (Some (ErrMsg ''invalid content length''), W\<lparr>w_reader := r1\<rparr>)
          else
            (case io_ReadFull (unat contentLength) r1 of
               (_, Some e, r2) \<Rightarrow> (Some e, W\<lparr>w_reader := r2\<rparr>)
             | (body, None, r2) \<Rightarrow>
                 (let W2 = W\<lparr>w_reader := r2\<rparr>
                  in case json_data L body of
                       Inl e \<Rightarrow> (Some e, W2)
                     | Inr dat \<Rightarrow>
                         (case base64_Decode L dat of
                            Inl e \<Rightarrow> (Some e, W2)
                          | Inr raw \<Rightarrow>
                              (case parseClientHandshakeFromBytes raw of
                                 Inl e \<Rightarrow> (Some e, W2)
                               | Inr hs \<Rightarrow> processHandshake L D I h hs W2)))))"

section \<open>Fallback\<close>

text \<open>
  The two goroutines that copy between the client and the web server, and the channel on which
  they report. \<open>fb_up\<close> and \<open>fb_down\<close> say whether each is still copying; \<open>fb_ret\<close> is the value
  \<^verbatim>\<open>handleFallback\<close> has returned.
\<close>

record fb =
  fb_client :: instream
  fb_target :: sink
  fb_reply :: instream
  fb_conn :: sink
  fb_up :: bool
  fb_down :: bool
  fb_errc :: "goerr option list"
  fb_ret :: "goerr option option"

definition use_of_closed :: goerr where
  "use_of_closed = ErrMsg ''use of closed network connection''"

datatype 'd outcome =
    Returned "goerr option" "'d world"
  | Relay fb "'d world"

definition handleFallback ::
  "(gostring \<Rightarrow> goerr + instream \<times> sink) \<Rightarrow> inputs \<Rightarrow> Handler \<Rightarrow> 'd world \<Rightarrow> 'd outcome" where
  "handleFallback Dial I h W =
     (case fallback h of
        None \<Rightarrow> Returned (Some (ErrMsg ''no fallback configured'')) (snd (conn_Close I W))
      | Some Dest \<Rightarrow>
          (case Dial (gostr ''127.0.0.1:'' @ itoa (unat Dest)) of
             Inl e \<Rightarrow> Returned (Some e) (snd (conn_Close I W))
           | Inr (treader, target) \<Rightarrow>
               Relay \<lparr>fb_client = w_reader W, fb_target = target, fb_reply = treader,
                      fb_conn = w_conn W, fb_up = True, fb_down = True, fb_errc = [],
                      fb_ret = None\<rparr> W))"

text \<open>\<^verbatim>\<open>io.Copy\<close> reports the end of its source as success.\<close>

definition copy_result :: "goerr \<Rightarrow> goerr option" where
  "copy_result e = (if e = EOF then None else Some e)"

text \<open>The result of \<^verbatim>\<open>handleFallback\<close> for the first value on the channel.\<close>

definition fallback_result :: "goerr option \<Rightarrow> goerr option" where
  "fallback_result e = (if e \<noteq> None \<and> e \<noteq> Some EOF then e else None)"

inductive fb_step :: "fb \<Rightarrow> fb \<Rightarrow> bool" where
  up_chunk: "fb_up s \<Longrightarrow> 0 < n \<Longrightarrow> io_Read n (fb_client s) = (bs, None, r) \<Longrightarrow>
    \<not> sclosed (fb_target s) \<Longrightarrow> io_Write bs (fb_target s) = (m, None, t) \<Longrightarrow>
    fb_step s (s\<lparr>fb_client := r, fb_target := t\<rparr>)"
| up_write_error: "fb_up s \<Longrightarrow> 0 < n \<Longrightarrow> io_Read n (fb_client s) = (bs, None, r) \<Longrightarrow>
    \<not> sclosed (fb_target s) \<Longrightarrow> io_Write bs (fb_target s) = (m, Some e, t) \<Longrightarrow>
    fb_step s (s\<lparr>fb_client := r, fb_target := t, fb_up := False, fb_errc := fb_errc s @ [Some e]\<rparr>)"
| up_target_closed: "fb_up s \<Longrightarrow> 0 < n \<Longrightarrow> io_Read n (fb_client s) = (bs, None, r) \<Longrightarrow>
    sclosed (fb_target s) \<Longrightarrow>
    fb_step s (s\<lparr>fb_client := r, fb_up := False, fb_errc := fb_errc s @ [Some use_of_closed]\<rparr>)"
| up_end: "fb_up s \<Longrightarrow> io_Read n (fb_client s) = (bs, Some e, r) \<Longrightarrow>
    fb_step s (s\<lparr>fb_up := False, fb_errc := fb_errc s @ [copy_result e]\<rparr>)"
| up_conn_closed: "fb_up s \<Longrightarrow> sclosed (fb_conn s) \<Longrightarrow>
    fb_step s (s\<lparr>fb_up := False, fb_errc := fb_errc s @ [Some use_of_closed]\<rparr>)"
| down_chunk: "fb_down s \<Longrightarrow> \<not> sclosed (fb_target s) \<Longrightarrow> 0 < n \<Longrightarrow>
    io_Read n (fb_reply s) = (bs, None, r) \<Longrightarrow> io_Write bs (fb_conn s) = (m, None, c) \<Longrightarrow>
    fb_step s (s\<lparr>fb_reply := r, fb_conn := c\<rparr>)"
| down_write_error: "fb_down s \<Longrightarrow> \<not> sclosed (fb_target s) \<Longrightarrow> 0 < n \<Longrightarrow>
    io_Read n (fb_reply s) = (bs, None, r) \<Longrightarrow> io_Write bs (fb_conn s) = (m, Some e, c) \<Longrightarrow>
    fb_step s (s\<lparr>fb_reply := r, fb_conn := sink_Close c, fb_down := False,
                fb_errc := fb_errc s @ [Some e]\<rparr>)"
| down_end: "fb_down s \<Longrightarrow> \<not> sclosed (fb_target s) \<Longrightarrow> io_Read n (fb_reply s) = (bs, Some e, r) \<Longrightarrow>
    fb_step s (s\<lparr>fb_conn := sink_Close (fb_conn s), fb_down := False,
                fb_errc := fb_errc s @ [copy_result e]\<rparr>)"
| down_target_closed: "fb_down s \<Longrightarrow> sclosed (fb_target s) \<Longrightarrow>
    fb_step s (s\<lparr>fb_conn := sink_Close (fb_conn s), fb_down := False,
                fb_errc := fb_errc s @ [Some use_of_closed]\<rparr>)"
| wait: "fb_ret s = None \<Longrightarrow> fb_errc s = e # es \<Longrightarrow>
    fb_step s (s\<lparr>fb_errc := es, fb_ret := Some (fallback_result e),
                fb_target := sink_Close (fb_target s)\<rparr>)"

inductive_cases fb_stepE: "fb_step s s'"

section \<open>The handler\<close>

definition Process ::
  "libs \<Rightarrow> (gostring \<Rightarrow> goerr + instream \<times> sink) \<Rightarrow> ('d, 'l) dispatcher option \<Rightarrow> inputs \<Rightarrow>
   Handler \<Rightarrow> 'd world \<Rightarrow> 'd outcome" where
  "Process L Dial D I h W =
     (case bufio_Peek ReflexMinHandshakeSize (w_reader W) of
        Inl e \<Rightarrow> Returned (if e = EOF then None else Some e) W
      | Inr peeked \<Rightarrow>
          if isReflexHandshake peeked then
            (if length peeked \<ge> 4 \<and> Uint32 (take 4 peeked) = ReflexMagic then
               (case handleReflexMagic L D I h W of (e, W') \<Rightarrow> Returned e W')
             else if isHTTPPostLike peeked then
               (case handleReflexHTTP L D I h W of (e, W') \<Rightarrow> Returned e W')
             else handleFallback Dial I h W)
          else handleFallback Dial I h W)"

end
