(* ===== verification/Reflex_Fallback.thy ===== *)
theory Reflex_Fallback
  imports Reflex_Inbound
begin

text \<open>
  The fallback relay of \<^verbatim>\<open>handleFallback\<close>: an invariant of the two copying goroutines under every
  interleaving, progress, and termination.
\<close>

section \<open>The relay invariant\<close>

text \<open>
  \<open>copied running src0 out0 src out\<close>: what was written is the old output and a beginning of the
  source, and as long as the copy runs nothing has been lost on the way.
\<close>

definition copied :: "bool \<Rightarrow> byte list \<Rightarrow> byte list \<Rightarrow> byte list \<Rightarrow> byte list \<Rightarrow> bool" where
  "copied running src0 out0 src out \<longleftrightarrow>
     (\<exists>done_part lost. out = out0 @ done_part \<and> src0 = done_part @ lost @ src \<and> (running \<longrightarrow> lost = []))"

definition finished :: "fb \<Rightarrow> nat" where
  "finished s = (if fb_up s then 0 else 1) + (if fb_down s then 0 else 1)"

definition fb_inv :: "fb \<Rightarrow> fb \<Rightarrow> bool" where
  "fb_inv s0 s \<longleftrightarrow>
     copied (fb_up s) (flat (fb_client s0)) (sent (fb_target s0)) (flat (fb_client s)) (sent (fb_target s)) \<and>
     copied (fb_down s) (flat (fb_reply s0)) (sent (fb_conn s0)) (flat (fb_reply s)) (sent (fb_conn s)) \<and>
     length (fb_errc s) + (if fb_ret s = None then 0 else 1) = finished s"

definition fb_init :: "fb \<Rightarrow> bool" where
  "fb_init s \<longleftrightarrow> fb_up s \<and> fb_down s \<and> fb_errc s = [] \<and> fb_ret s = None"

lemma copied_init [simp]: "copied b x y x y"
  by (auto simp: copied_def)

lemma copied_stop: "copied True a b c d \<Longrightarrow> copied False a b c d"
  by (auto simp: copied_def)

lemma copied_chunk:
  assumes "copied True src0 out0 (flat r) (sent t)" "io_Read n r = (bs, e, r')"
    "io_Write bs t = (m, e', t')"
  shows "copied (e' = None) src0 out0 (flat r') (sent t')"
proof -
  obtain d where d: "sent t = out0 @ d" "src0 = d @ flat r" using assms(1) by (auto simp: copied_def)
  have r: "flat r = bs @ flat r'" using io_Read_flat [OF assms(2)] by simp
  have t: "sent t' = sent t @ take m bs" using io_Write_prefix [OF assms(3)] by simp
  have all: "e' = None \<Longrightarrow> take m bs = bs" using io_Write_ok assms(3) by fastforce
  show ?thesis
    unfolding copied_def
    by (rule exI [of _ "d @ take m bs"], rule exI [of _ "drop m bs"])
      (use d r t all in auto)
qed

lemma copied_lose:
  assumes "copied True src0 out0 (flat r) out" "io_Read n r = (bs, e, r')"
  shows "copied False src0 out0 (flat r') out"
  using assms io_Read_flat [OF assms(2)] by (auto simp: copied_def)

lemma fb_inv_step: "fb_step s s' \<Longrightarrow> fb_inv s0 s \<Longrightarrow> fb_inv s0 s'"
proof (induction rule: fb_step.induct)
  case (up_chunk s n bs r m t)
  then show ?case using copied_chunk [OF _ up_chunk(3,5)] by (simp add: fb_inv_def finished_def)
next
  case (up_write_error s n bs r m e t)
  then show ?case using copied_chunk [OF _ up_write_error(3,5)] by (simp add: fb_inv_def finished_def)
next
  case (up_target_closed s n bs r)
  then show ?case using copied_lose [OF _ up_target_closed(3)] by (simp add: fb_inv_def finished_def)
next
  case (down_chunk s n bs r m c)
  then show ?case using copied_chunk [OF _ down_chunk(4,5)] by (simp add: fb_inv_def finished_def)
next
  case (down_write_error s n bs r m e c)
  then show ?case using copied_chunk [OF _ down_write_error(4,5)] by (simp add: fb_inv_def finished_def)
qed (auto simp: fb_inv_def finished_def dest: copied_stop)

lemma fb_inv_reach: "fb_step\<^sup>*\<^sup>* s0 s \<Longrightarrow> fb_init s0 \<Longrightarrow> fb_inv s0 s"
  by (induction rule: rtranclp_induct)
    (auto simp: fb_init_def fb_inv_def finished_def dest: fb_inv_step [unfolded fb_inv_def finished_def])

section \<open>Termination and progress\<close>

definition stream_measure :: "instream \<Rightarrow> nat" where
  "stream_measure r = length (flat r) + length (chunks r)"

definition fb_measure :: "fb \<Rightarrow> nat" where
  "fb_measure s = stream_measure (fb_client s) + stream_measure (fb_reply s) +
     (if fb_up s then 1 else 0) + (if fb_down s then 1 else 0) + (if fb_ret s = None then 1 else 0)"

lemma io_Read_measure:
  "0 < n \<Longrightarrow> io_Read n r = (bs, None, r') \<Longrightarrow> stream_measure r' < stream_measure r"
  by (cases n r rule: io_Read_cases) (auto simp: stream_measure_def flat_def)

lemma fb_step_measure: "fb_step s s' \<Longrightarrow> fb_measure s' < fb_measure s"
  by (induction rule: fb_step.induct)
    (auto simp: fb_measure_def dest!: io_Read_measure intro: add_less_mono)

lemma fb_progress:
  assumes "fb_inv s0 s" "fb_ret s = None"
  shows "\<exists>s'. fb_step s s'"
proof (cases "fb_errc s")
  case (Cons e es)
  with assms(2) show ?thesis by (blast intro: fb_step.wait)
next
  case Nil
  with assms have up: "fb_up s" by (simp add: fb_inv_def finished_def split: if_splits)
  obtain bs e r where rd: "io_Read 1 (fb_client s) = (bs, e, r)" by (cases "io_Read 1 (fb_client s)") auto
  show ?thesis
  proof (cases e)
    case (Some x)
    with up rd show ?thesis by (blast intro: fb_step.up_end)
  next
    case None
    obtain m e' t where "io_Write bs (fb_target s) = (m, e', t)"
      by (cases "io_Write bs (fb_target s)") auto
    with up rd None show ?thesis
      by (cases e'; cases "sclosed (fb_target s)")
        (blast intro: zero_less_one fb_step.up_chunk fb_step.up_write_error fb_step.up_target_closed)+
  qed
qed

section \<open>Properties\<close>

text \<open>
  C8: traffic that is not Reflex is relayed from its first byte. Under every interleaving of
  the two copies, the web server has received a beginning of the client's stream (the peeked
  bytes included), the client a beginning of the server's answer, in order and without gaps.
\<close>

theorem fallback_transparent:
  assumes "bufio_Peek 64 (w_reader W) = Inr peeked" "\<not> isReflexHandshake peeked"
    and "Process L Dial D I h W = Relay s0 W'" "fb_step\<^sup>*\<^sup>* s0 s"
    and "sent (fb_target s0) = []"
  shows "\<exists>up_rest down_rest.
      flat (w_reader W) = sent (fb_target s) @ up_rest \<and>
      sent (w_conn W) @ flat (fb_reply s0) = sent (fb_conn s) @ down_rest \<and>
      (fb_up s \<longrightarrow> up_rest = flat (fb_client s)) \<and> (fb_down s \<longrightarrow> down_rest = flat (fb_reply s))"
proof -
  have s0: "fb_init s0" "fb_client s0 = w_reader W" "fb_conn s0 = w_conn W"
    using assms(1-3)
    by (auto simp: Process_def ReflexMinHandshakeSize_def handleFallback_def fb_init_def
        split: option.splits sum.splits prod.splits)
  with fb_inv_reach [OF assms(4)] assms(5) show ?thesis
    by (auto simp: fb_inv_def copied_def)
qed

definition relay_demo :: "unit world" where
  "relay_demo = \<lparr>w_reader = \<lparr>chunks = [replicate 64 71], fin = EOF\<rparr>, w_conn = fresh_sink, w_disp = (),
     w_profile = None, w_rand = \<lparr>chunks = [], fin = EOF\<rparr>\<rparr>"

definition demo_inputs :: inputs where
  "demo_inputs = \<lparr>now = 1000, rnds = (\<lambda>_. morph_demo_rnd), mems = (\<lambda>_. []), close_err = None\<rparr>"

definition demo_libs :: libs where
  "demo_libs = \<lparr>ScalarBaseMult = (\<lambda>k. k), ScalarMult = (\<lambda>k p. k), hkdf_key = (\<lambda>k s i. take 32 k),
     chacha_New = (\<lambda>k. Inr tag_aead), uuid_String = (\<lambda>u. u),
     json_data = (\<lambda>b. Inl EOF), base64_Decode = (\<lambda>s. Inl EOF)\<rparr>"

definition demo_dial :: "gostring \<Rightarrow> goerr + instream \<times> sink" where
  "demo_dial a = Inr (\<lparr>chunks = [[79, 75]], fin = EOF\<rparr>, fresh_sink)"

theorem fallback_transparent_witness:
  "\<exists>s0 s up_rest. flat (w_reader relay_demo) = sent (fb_target s) @ up_rest \<and> fb_step s0 s \<and>
     sent (fb_target s) = replicate 64 71"
proof -
  have pk: "bufio_Peek 64 (w_reader relay_demo) = Inr (replicate 64 71)"
    by (simp add: bufio_Peek_def relay_demo_def)
  have nr: "\<not> isReflexHandshake (replicate 64 71)"
  proof -
    have four: "replicate 4 (71 :: byte) = [71, 71, 71, 71]"
      by (simp only: replicate.simps eval_nat_numeral BitM.simps)
    have "take 4 (replicate 64 (71 :: byte)) = [71, 71, 71, 71]"
      by (simp only: take_replicate four [symmetric]) simp
    then show ?thesis
      by (simp add: isReflexHandshake_def isReflexMagic_def isHTTPPostLike_def ReflexMagic_def)
  qed
  obtain s0 where s0: "Process demo_libs demo_dial (None :: (unit, unit) dispatcher option) demo_inputs
      (inbound_New [] (Some 8080)) relay_demo = Relay s0 relay_demo"
    "fb_client s0 = w_reader relay_demo" "fb_target s0 = fresh_sink" "fb_up s0"
    using pk nr by (simp add: Process_def ReflexMinHandshakeSize_def handleFallback_def inbound_New_def
        demo_dial_def)
  obtain r where rd: "io_Read 64 (fb_client s0) = (replicate 64 71, None, r)"
    by (simp add: s0(2) relay_demo_def io_Read.simps)
  let ?t = "fresh_sink\<lparr>written := written fresh_sink @ [replicate 64 71]\<rparr>"
  have st: "fb_step s0 (s0\<lparr>fb_client := r, fb_target := ?t\<rparr>)"
    using s0 rd by (intro fb_step.up_chunk [where n = 64]) (simp_all add: io_Write_no_faults)
  then have "fb_step\<^sup>*\<^sup>* s0 (s0\<lparr>fb_client := r, fb_target := ?t\<rparr>)" by blast
  from fallback_transparent [OF pk nr s0(1) this] s0(3) st show ?thesis
    by (fastforce simp: sent_def fresh_sink_def)
qed

text \<open>
  C9: the relay always comes to an end: there is no infinite sequence of steps, and a state in
  which no step is possible is one in which \<^verbatim>\<open>handleFallback\<close> has returned.
\<close>

theorem fallback_returns:
  "wfP (\<lambda>s' s. fb_step s s') \<and>
   (\<forall>s0 s. fb_init s0 \<and> fb_step\<^sup>*\<^sup>* s0 s \<and> \<not> (\<exists>s'. fb_step s s') \<longrightarrow> fb_ret s \<noteq> None)"
proof
  show "wfP (\<lambda>s' s. fb_step s s')"
    by (rule wfp_if_convertible_to_nat [of _ fb_measure]) (rule fb_step_measure)
  show "\<forall>s0 s. fb_init s0 \<and> fb_step\<^sup>*\<^sup>* s0 s \<and> \<not> (\<exists>s'. fb_step s s') \<longrightarrow> fb_ret s \<noteq> None"
    using fb_inv_reach fb_progress by blast
qed

theorem fallback_returns_witness:
  "wfP (\<lambda>s' s. fb_step s s') \<and>
   (\<exists>s. fb_init s \<and> (\<exists>s'. fb_step s s') \<and> fb_ret s = None)"
proof -
  let ?e = "\<lparr>chunks = [], fin = EOF\<rparr>"
  let ?s = "\<lparr>fb_client = ?e, fb_target = fresh_sink, fb_reply = ?e, fb_conn = fresh_sink, fb_up = True,
     fb_down = True, fb_errc = [], fb_ret = None\<rparr>"
  have i: "fb_init ?s" by (simp add: fb_init_def)
  then have "\<exists>s'. fb_step ?s s'"
    using fallback_returns by (metis fb.select_convs(8) rtranclp.rtrancl_refl)
  moreover have "fb_ret ?s = None" by simp
  ultimately show ?thesis using i fallback_returns by blast
qed

end
