(* ===== verification/Reflex_Inbound_Props.thy ===== *)
theory Reflex_Inbound_Props
  imports Reflex_Fallback
begin

text \<open>
  The properties of the inbound handler (\<^verbatim>\<open>proxy/reflex/inbound/inbound.go\<close>): detection and
  parsing of the handshake, who is let in, what the session loop does with the frames, and
  the fallback relay.
\<close>

section \<open>The session loop, decode first\<close>

text \<open>All frames a session reads from a stream, up to the first error.\<close>

function session_frames :: "Session \<Rightarrow> instream \<Rightarrow> Frame list \<times> goerr \<times> Session \<times> instream" where
  "session_frames s r =
     (case ReadFrame s r of
        (Inl e, s', r') \<Rightarrow> ([], e, s', r')
      | (Inr f, s', r') \<Rightarrow>
          (case session_frames s' r' of (fs, e, s'', r'') \<Rightarrow> (f # fs, e, s'', r'')))"
  by pat_completeness auto
termination
  by (relation "measure (\<lambda>(s, r). length (flat r))")
    (auto dest!: sym [THEN ReadFrame_shrinks(2)])

declare session_frames.simps [simp del]

fun handle_frames ::
  "('d, 'l) dispatcher option \<Rightarrow> inputs \<Rightarrow> nat \<Rightarrow> Session \<times> 'd world \<Rightarrow> Frame list \<Rightarrow> Session \<times> 'd world" where
  "handle_frames D I k SW [] = SW"
| "handle_frames D I k SW (f # fs) = handle_frames D I (k + 1) (handle_frame D I k f SW) fs"

text \<open>\<open>rd s1 r1\<close> puts the reading side of a session and the stream into a state.\<close>

definition rd :: "Session \<Rightarrow> instream \<Rightarrow> Session \<times> 'd world \<Rightarrow> Session \<times> 'd world" where
  "rd s1 r1 SW =
     ((fst SW)\<lparr>readSeen := readSeen s1, readNonceCount := readNonceCount s1\<rparr>,
      (snd SW)\<lparr>w_reader := r1\<rparr>)"

lemma WriteFrame_rd:
  "WriteFrame (s\<lparr>readSeen := a, readNonceCount := b\<rparr>) w ty p =
     (case WriteFrame s w ty p of (e, s', w') \<Rightarrow> (e, s'\<lparr>readSeen := a, readNonceCount := b\<rparr>, w'))"
  by (simp add: WriteFrame_def Let_def split: prod.splits option.splits)

lemma Morphing_rd:
  "WriteFrameWithMorphing R (s\<lparr>readSeen := a, readNonceCount := b\<rparr>) w ty p q =
     (case WriteFrameWithMorphing R s w ty p q of
        (e, s', w', q', d) \<Rightarrow> (e, s'\<lparr>readSeen := a, readNonceCount := b\<rparr>, w', q', d))"
  by (simp add: WriteFrameWithMorphing_def Let_def WriteFrame_rd split: prod.splits option.splits)

lemma handle_data_rd: "handle_data D I k p (rd s1 r1 SW) = rd s1 r1 (handle_data D I k p SW)"
  by (simp add: handle_data_def rd_def Let_def Morphing_rd split: prod.splits sum.splits)

lemma handle_frame_rd: "handle_frame D I k f (rd s1 r1 SW) = rd s1 r1 (handle_frame D I k f SW)"
  by (simp add: handle_frame_def handle_data_rd split: option.splits)
    (simp add: rd_def split: prod.splits)

lemma handle_frames_rd: "handle_frames D I k (rd s1 r1 SW) fs = rd s1 r1 (handle_frames D I k SW fs)"
  by (induction fs arbitrary: k SW) (simp_all add: handle_frame_rd)

lemma rd_rd [simp]: "rd s2 r2 (rd s1 r1 SW) = rd s2 r2 SW"
  by (simp add: rd_def)

lemma ReadFrame_write:
  "ReadFrame (s\<lparr>writeNonceCount := n\<rparr>) r =
     (case ReadFrame s r of (res, s', r') \<Rightarrow> (res, s'\<lparr>writeNonceCount := n\<rparr>, r'))"
  by (auto simp: ReadFrame_def Let_def split: prod.splits option.splits sum.splits list.splits)

lemma session_frames_write:
  fixes n :: u64
  shows "session_frames (s\<lparr>writeNonceCount := n\<rparr>) r =
     (case session_frames s r of (fs, e, s', r') \<Rightarrow> (fs, e, s'\<lparr>writeNonceCount := n\<rparr>, r'))"
proof (induction s r rule: session_frames.induct)
  case (1 s r)
  obtain res s1 r1 where rf: "ReadFrame s r = (res, s1, r1)" by (cases "ReadFrame s r") auto
  show ?case
  proof (cases res)
    case (Inl e)
    with rf show ?thesis by (simp add: session_frames.simps [of _ r] ReadFrame_write)
  next
    case (Inr f)
    from "1.IH" [OF rf [symmetric] Inr refl] rf Inr show ?thesis
      by (simp add: session_frames.simps [of _ r] ReadFrame_write split: prod.splits)
  qed
qed

lemma Morphing_session:
  assumes "WriteFrameWithMorphing R s w ty p q = (e, s', w', q', d)"
  shows "s_aead s' = s_aead s \<and> readSeen s' = readSeen s \<and> readNonceCount s' = readNonceCount s"
proof -
  obtain w1 p1 where "\<exists>e1. WriteFrame s w ty p1 = (e1, s', w1)"
    using assms by (fastforce simp: WriteFrameWithMorphing_def Let_def split: option.splits prod.splits)
  then show ?thesis using WriteFrame_counter by blast
qed

lemma handle_data_session:
  assumes "handle_data D I k p (s, W) = (s', W')"
  shows "s_aead s' = s_aead s \<and> readSeen s' = readSeen s \<and> readNonceCount s' = readNonceCount s"
  using assms unfolding handle_data_def Let_def prod.case
  by (simp split: prod.splits sum.splits if_splits)
    (metis (no_types, lifting) Morphing_session Pair_inject)+

lemma handle_frame_session:
  fixes D :: "('d, 'l) dispatcher option"
  shows "s_aead (fst (handle_frame D I k f SW)) = s_aead (fst SW) \<and>
   readSeen (fst (handle_frame D I k f SW)) = readSeen (fst SW) \<and>
   readNonceCount (fst (handle_frame D I k f SW)) = readNonceCount (fst SW)"
proof -
  obtain s W where SW: "SW = (s, W)" by (cases SW)
  have "s_aead (fst (handle_data D' I k p (s, W))) = s_aead s \<and>
      readSeen (fst (handle_data D' I k p (s, W))) = readSeen s \<and>
      readNonceCount (fst (handle_data D' I k p (s, W))) = readNonceCount s" for D' :: "('d, 'l) dispatcher" and p
    using handle_data_session [of D' I k p s W] by (cases "handle_data D' I k p (s, W)") simp
  then show ?thesis
    by (simp add: SW handle_frame_def split: option.splits)
qed

lemma handleSession_decode:
  "handleSession D I k s W =
     (case session_frames s (w_reader W) of
        (fs, e, s1, r1) \<Rightarrow>
          (case rd s1 r1 (handle_frames D I k (s, W) fs) of
             (s2, W2) \<Rightarrow> (if e = EOF then None else Some e, s2, W2)))"
proof (induction D I k s W rule: handleSession.induct)
  case (1 D I k s W)
  obtain res s1 r1 where rf: "ReadFrame s (w_reader W) = (res, s1, r1)"
    by (cases "ReadFrame s (w_reader W)") auto
  show ?case
  proof (cases res)
    case (Inl e)
    with rf have "s1 = s" using ReadFrame_cases [OF rf] by auto
    with rf Inl show ?thesis
      by (simp add: handleSession.simps [of D I k s W] session_frames.simps [of s] rd_def)
  next
    case (Inr f)
    obtain s2 W2 where hf: "handle_frame D I k f (s1, W\<lparr>w_reader := r1\<rparr>) = (s2, W2)" by fastforce
    obtain fs e s3 r3 where sf: "session_frames s1 r1 = (fs, e, s3, r3)"
      by (cases "session_frames s1 r1") auto
    have s2: "s2 = s1\<lparr>writeNonceCount := writeNonceCount s2\<rparr>"
      using handle_frame_session [of D I k f "(s1, W\<lparr>w_reader := r1\<rparr>)"] hf by simp
    have W2: "w_reader W2 = r1"
      using handle_frame_reader [of D I k f "(s1, W\<lparr>w_reader := r1\<rparr>)"] hf by simp
    have sf2: "session_frames s2 (w_reader W2) = (fs, e, s3\<lparr>writeNonceCount := writeNonceCount s2\<rparr>, r3)"
      using session_frames_write [of "writeNonceCount s2" s1 r1] sf s2 W2 by simp
    have start: "(s1, W\<lparr>w_reader := r1\<rparr>) = rd s1 r1 (s, W)"
      using ReadFrame_cases [OF rf] Inr by (auto simp: rd_def)
    have "handleSession D I k s W = handleSession D I (k + 1) s2 W2"
      using rf Inr hf by (simp add: handleSession.simps [of D I k s W])
    also have "\<dots> = (case rd s3 r3 (handle_frames D I (k + 1) (s2, W2) fs) of
             (s4, W4) \<Rightarrow> (if e = EOF then None else Some e, s4, W4))"
      using "1.IH" [OF rf [symmetric] Inr refl hf [symmetric]] sf2 by (simp add: rd_def)
    also have "(s2, W2) = rd s1 r1 (handle_frame D I k f (s, W))"
      using hf start by (simp add: handle_frame_rd)
    finally show ?thesis
      using rf Inr sf by (simp add: session_frames.simps [of s] handle_frames_rd)
  qed
qed

text \<open>
  C5: the session loop terminates on every input and is exactly this: decode all frames of the
  stream first, handle them one after the other, and answer the error that ended the stream
  (\<open>nil\<close> for \<open>EOF\<close>). What the handler writes to the peer never influences what it reads.
\<close>

theorem handleSession_decodes:
  "handleSession D I k s W =
     (case session_frames s (w_reader W) of
        (fs, e, s1, r1) \<Rightarrow>
          (case rd s1 r1 (handle_frames D I k (s, W) fs) of
             (s2, W2) \<Rightarrow> (if e = EOF then None else Some e, s2, W2)))"
  by (rule handleSession_decode)

section \<open>Handshakes\<close>

definition handshake_ok :: "ClientHandshake \<Rightarrow> bool" where
  "handshake_ok hs \<longleftrightarrow> length (PublicKey hs) = 32 \<and> length (UserID hs) = 16 \<and>
     length (Nonce hs) = 16 \<and> length (PolicyReq hs) < 65536"

text \<open>The client's packet, in the layout documented at \<^verbatim>\<open>ClientHandshakePacket\<close>.\<close>

definition encode_handshake :: "ClientHandshake \<Rightarrow> byte list" where
  "encode_handshake hs =
     PutUint32 ReflexMagic @ PublicKey hs @ UserID hs @ PutUint64 (Timestamp hs) @ Nonce hs @
     PutUint16 (of_nat (length (PolicyReq hs))) @ PolicyReq hs"

lemma fixed_fields_decode:
  assumes "length pk = 32" "length uid = 16" "length nonce = 16"
  shows "fixed_fields (pk @ uid @ PutUint64 ts @ nonce @ xs) policy =
    \<lparr>PublicKey = pk, UserID = uid, PolicyReq = policy, Timestamp = ts, Nonce = nonce\<rparr>"
  using assms by (simp add: fixed_fields_def)

lemma handleReflexMagic_parses:
  assumes "handshake_ok hs" "flat (w_reader W) = encode_handshake hs @ rest"
  obtains r' where "flat r' = rest" "fin r' = fin (w_reader W)"
    "handleReflexMagic L D I h W = processHandshake L D I h hs (W\<lparr>w_reader := r'\<rparr>)"
proof -
  let ?n = "length (PolicyReq hs)"
  let ?fixed = "PublicKey hs @ UserID hs @ PutUint64 (Timestamp hs) @ Nonce hs @ PutUint16 (of_nat ?n)"
  have lens: "length (PublicKey hs) = 32" "length (UserID hs) = 16" "length (Nonce hs) = 16"
    "?n < 65536" using assms(1) by (auto simp: handshake_ok_def)
  have fl: "flat (w_reader W) = PutUint32 ReflexMagic @ ?fixed @ PolicyReq hs @ rest"
    using assms(2) by (simp add: encode_handshake_def)
  have len74: "length ?fixed = 74" using lens by simp
  obtain r1 where r1: "io_ReadFull 4 (w_reader W) = (PutUint32 ReflexMagic, None, r1)"
    "flat r1 = ?fixed @ PolicyReq hs @ rest" "fin r1 = fin (w_reader W)"
    using io_ReadFull_ok [of 4 "w_reader W"] fl by auto
  obtain r2 where r2: "io_ReadFull 74 r1 = (?fixed, None, r2)" "flat r2 = PolicyReq hs @ rest"
    "fin r2 = fin r1"
    using io_ReadFull_ok [of 74 r1] r1(2) len74 by auto
  have pl: "unat (Uint16 (take 2 (drop 72 ?fixed))) = ?n"
    using lens unat_of_nat_16 [of ?n] by simp
  have ff: "fixed_fields ?fixed (PolicyReq hs) = hs"
    using lens by (simp add: fixed_fields_decode)
  show thesis
  proof (cases "?n = 0")
    case True
    with r1(1,3) r2 pl ff that [of r2] show ?thesis
      by (simp add: handleReflexMagic_def Let_def)
  next
    case False
    obtain r3 where "io_ReadFull ?n r2 = (PolicyReq hs, None, r3)" "flat r3 = rest" "fin r3 = fin r2"
      using io_ReadFull_ok [of ?n r2] r2(2) by auto
    with False r1(1,3) r2(1,3) pl ff that [of r3] show ?thesis
      by (simp add: handleReflexMagic_def Let_def)
  qed
qed

lemma Process_magic:
  assumes "handshake_ok hs" "flat (w_reader W) = encode_handshake hs @ rest"
  shows "Process L Dial D I h W = (case handleReflexMagic L D I h W of (e, W') \<Rightarrow> Returned e W')"
proof -
  have "64 \<le> length (flat (w_reader W))"
    using assms by (simp add: encode_handshake_def handshake_ok_def)
  moreover have "take 4 (take 64 (flat (w_reader W))) = PutUint32 ReflexMagic"
    using assms(2) by (simp add: encode_handshake_def)
  ultimately show ?thesis
    by (simp add: Process_def bufio_Peek_def ReflexMinHandshakeSize_def isReflexHandshake_def
        isReflexMagic_def)
qed

text \<open>
  A connection that starts with a well-formed handshake packet reaches the authentication
  step with exactly the fields of the packet, and the reader stands at the first byte after it.
\<close>

theorem magic_handshake_parsed:
  assumes "handshake_ok hs" "flat (w_reader W) = encode_handshake hs @ rest"
  shows "\<exists>r'. flat r' = rest \<and>
    Process L Dial D I h W =
      (case processHandshake L D I h hs (W\<lparr>w_reader := r'\<rparr>) of (e, W') \<Rightarrow> Returned e W')"
  using handleReflexMagic_parses [OF assms] Process_magic [OF assms] by metis

definition demo_hs :: ClientHandshake where
  "demo_hs = \<lparr>PublicKey = replicate 32 1, UserID = replicate 16 2, PolicyReq = [9], Timestamp = 1200,
     Nonce = replicate 16 3\<rparr>"

lemma demo_hs_ok: "handshake_ok demo_hs" "Timestamp demo_hs = 1200" "UserID demo_hs = replicate 16 2"
  by (simp_all add: handshake_ok_def demo_hs_def)

theorem magic_handshake_parsed_witness:
  "\<exists>r'. flat r' = [5] \<and>
    Process demo_libs demo_dial (None :: (unit, unit) dispatcher option) demo_inputs (inbound_New [] None)
      (relay_demo\<lparr>w_reader := \<lparr>chunks = [encode_handshake demo_hs, [5]], fin = EOF\<rparr>\<rparr>) =
      (case processHandshake demo_libs (None :: (unit, unit) dispatcher option) demo_inputs
              (inbound_New [] None) demo_hs (relay_demo\<lparr>w_reader := r'\<rparr>) of (e, W') \<Rightarrow> Returned e W')"
  using magic_handshake_parsed [OF demo_hs_ok(1), of
      "relay_demo\<lparr>w_reader := \<lparr>chunks = [encode_handshake demo_hs, [5]], fin = EOF\<rparr>\<rparr>" "[5]"]
  by simp

lemma header_never_matches:
  assumes "16 \<le> length line"
  shows "take 15 line \<noteq> gostr ''Content-Length'' \<and> take 15 line \<noteq> gostr ''content-length''"
proof -
  have "length (take 15 line) = 15" using assms by simp
  moreover have "length (gostr ''Content-Length'') = 14" "length (gostr ''content-length'') = 14"
    by simp_all
  ultimately show ?thesis by (metis numeral_eq_iff semiring_norm(87,89,90))
qed

lemma read_headers_keep: "read_headers c r = (Inr c', r') \<Longrightarrow> c' = c"
proof (induction c r rule: read_headers.induct)
  case (1 c r)
  obtain x r1 where rs: "bufio_ReadString 10 r = (x, r1)" by fastforce
  show ?case
  proof (cases x)
    case (Inl e)
    with "1.prems" rs show ?thesis by (simp add: read_headers.simps [of c r])
  next
    case (Inr line)
    show ?thesis
    proof (cases "line = CRLF")
      case True
      with "1.prems" rs Inr show ?thesis by (simp add: read_headers.simps [of c r])
    next
      case False
      have no: "\<not> (16 \<le> length line \<and>
          (take 15 line = gostr ''Content-Length'' \<or> take 15 line = gostr ''content-length''))"
        using header_never_matches by blast
      with False rs Inr have "read_headers c r = read_headers c r1"
        by (simp only: read_headers.simps [of c r] prod.case sum.case if_False)
      with "1.IH"(3) [OF rs [symmetric] Inr False no] "1.prems" show ?thesis by simp
    qed
  qed
qed

text \<open>
  C7: the HTTP handshake cannot succeed. Because 15 bytes of the header are compared with the 14
  bytes of \<open>Content-Length\<close>, every HTTP POST ends in an error before authentication, with
  nothing written to the connection, nothing dispatched and no key generated.
\<close>

theorem http_handshake_fails:
  "\<exists>e r'. handleReflexHTTP L D I h W = (Some e, W\<lparr>w_reader := r'\<rparr>)"
proof -
  obtain x r1 where rh: "read_headers 0 (w_reader W) = (x, r1)" by fastforce
  show ?thesis
  proof (cases x)
    case (Inl e)
    with rh show ?thesis by (auto simp: handleReflexHTTP_def)
  next
    case (Inr c)
    with rh read_headers_keep have "c = 0" by blast
    with rh Inr show ?thesis by (auto simp: handleReflexHTTP_def)
  qed
qed

section \<open>Who is let in\<close>

definition forbidden_response :: "string \<Rightarrow> gostring" where
  "forbidden_response reason = forbidden_header (length (error_body reason)) @ error_body reason"

lemma writeHTTPErrorAndClose_spec:
  assumes "writeHTTPErrorAndClose I reason W = (e, W')"
  shows "sclosed (w_conn W') \<and> w_disp W' = w_disp W \<and> w_profile W' = w_profile W \<and>
    (\<exists>n. sent (w_conn W') = sent (w_conn W) @ take n (forbidden_response reason)) \<and>
    (faults (w_conn W) = [] \<longrightarrow>
       e = close_err I \<and> sent (w_conn W') = sent (w_conn W) @ forbidden_response reason)"
proof -
  obtain n1 e1 c1 where w1: "io_Write (forbidden_header (length (error_body reason))) (w_conn W) = (n1, e1, c1)"
    by (cases "io_Write (forbidden_header (length (error_body reason))) (w_conn W)") auto
  obtain n2 e2 c2 where w2: "io_Write (error_body reason) c1 = (n2, e2, c2)"
    by (cases "io_Write (error_body reason) c1") auto
  note p1 = io_Write_prefix [OF w1] and p2 = io_Write_prefix [OF w2]
  show ?thesis
  proof (cases e1)
    case (Some err)
    with w1 assms p1 show ?thesis
      by (auto simp: writeHTTPErrorAndClose_def Let_def conn_Close_def forbidden_response_def
          io_Write_no_faults intro!: exI [of _ n1])
  next
    case None
    with w1 have full: "sent c1 = sent (w_conn W) @ forbidden_header (length (error_body reason))"
      using io_Write_ok by blast
    have "faults (w_conn W) = [] \<longrightarrow> e2 = None \<and> n2 = length (error_body reason)"
      using w1 w2 by (auto simp: io_Write_no_faults)
    then show ?thesis
      using None w1 w2 assms p2 full
      by (auto simp: writeHTTPErrorAndClose_def Let_def conn_Close_def forbidden_response_def
          split: option.splits
          intro!: exI [of _ "length (forbidden_header (length (error_body reason))) + n2"])
  qed
qed

definition in_window :: "64 word \<Rightarrow> 64 word \<Rightarrow> bool" where
  "in_window t ts \<longleftrightarrow> t - 300 \<le>s ts \<and> ts \<le>s t + 300"

text \<open>
  C6: a stranger gets a 403 response and nothing else. A client whose timestamp is more than 300 seconds off, or whose UUID is
  not that of a configured client, is answered with the 403 response for its case and the connection is closed: the whole
  response on a connection that does not fail, a prefix of it on one that does. Nothing is dispatched and the shared traffic profile
  does not change. The one exception is a failing random source, noticed before the UUID is looked up: then
  nothing is written, the connection stays as it is and the error is returned.
\<close>

theorem stranger_rejected:
  assumes "\<not> in_window (now I) (Timestamp hs) \<or>
      (\<forall>u \<in> set (clients h). acc_Id (mu_Account u) \<noteq> uuid_String L (UserID hs))"
    and "processHandshake L D I h hs W = (e, W')"
    and "response = forbidden_response (if in_window (now I) (Timestamp hs) then ''forbidden'' else ''invalid timestamp'')"
  shows "w_disp W' = w_disp W \<and> w_profile W' = w_profile W \<and>
    (case fst (generateKeyPair L (w_rand W)) of
       Inl err \<Rightarrow> in_window (now I) (Timestamp hs) \<longrightarrow> w_conn W' = w_conn W \<and> e = Some err
     | Inr _ \<Rightarrow> True) \<and>
    (\<not> in_window (now I) (Timestamp hs) \<or> (\<exists>ks. fst (generateKeyPair L (w_rand W)) = Inr ks) \<longrightarrow>
       sclosed (w_conn W') \<and> (\<exists>n. sent (w_conn W') = sent (w_conn W) @ take n response) \<and>
       (faults (w_conn W) = [] \<longrightarrow> sent (w_conn W') = sent (w_conn W) @ response))"
proof -
  have err: "w_disp W' = w_disp W \<and> w_profile W' = w_profile W \<and> sclosed (w_conn W') \<and>
      (\<exists>n. sent (w_conn W') = sent (w_conn W) @ take n (forbidden_response reason)) \<and>
      (faults (w_conn W) = [] \<longrightarrow> sent (w_conn W') = sent (w_conn W) @ forbidden_response reason)"
    if "writeHTTPErrorAndClose I reason V = (e, W')" "w_disp V = w_disp W"
    "w_profile V = w_profile W" "w_conn V = w_conn W" for reason V
    using writeHTTPErrorAndClose_spec [OF that(1)] that(2-4) by auto
  show ?thesis
  proof (cases "in_window (now I) (Timestamp hs)")
    case False
    then have late: "Timestamp hs <s now I - 300 \<or> now I + 300 <s Timestamp hs" by (auto simp: in_window_def not_less_iff_sle)
    from late assms(2) have "writeHTTPErrorAndClose I ''invalid timestamp'' W = (e, W')" by (simp add: processHandshake_def)
    from err [OF this] False assms(3) show ?thesis by (simp split: sum.split)
  next
    case True
    then have intime: "\<not> (Timestamp hs <s now I - 300 \<or> now I + 300 <s Timestamp hs)" by (auto simp: in_window_def not_less_iff_sle)
    from True assms(1) have auth: "authenticateUser L h (UserID hs) = Inl (ErrMsg ''user not found'')"
      by (auto simp: authenticateUser_def find_None_iff split: option.splits)
    obtain k r1 where kp: "generateKeyPair L (w_rand W) = (k, r1)" by fastforce
    show ?thesis
    proof (cases k)
      case (Inl e1)
      with intime kp assms(2) True show ?thesis by (auto simp: processHandshake_def)
    next
      case (Inr ks)
      with intime kp auth assms(2) have "writeHTTPErrorAndClose I ''forbidden'' (W\<lparr>w_rand := r1\<rparr>) = (e, W')"
        by (cases ks) (auto simp: processHandshake_def Let_def)
      from err [OF this] Inr kp True assms(3) show ?thesis by simp
    qed
  qed
qed

theorem stranger_rejected_witness:
  "\<exists>e W'. processHandshake demo_libs (None :: (unit, unit) dispatcher option) demo_inputs (inbound_New [[7]] None) demo_hs
       (relay_demo\<lparr>w_rand := \<lparr>chunks = [replicate 32 5], fin = EOF\<rparr>\<rparr>) = (e, W') \<and>
     sclosed (w_conn W') \<and> sent (w_conn W') = forbidden_response ''forbidden''"
proof -
  let ?W = "relay_demo\<lparr>w_rand := \<lparr>chunks = [replicate 32 5], fin = EOF\<rparr>\<rparr>"
  obtain e W' where p: "processHandshake demo_libs (None :: (unit, unit) dispatcher option) demo_inputs
       (inbound_New [[7]] None) demo_hs ?W = (e, W')" by fastforce
  have "\<forall>u \<in> set (clients (inbound_New [[7]] None)).
      acc_Id (mu_Account u) \<noteq> uuid_String demo_libs (UserID demo_hs)"
    by (auto simp: inbound_New_def demo_libs_def demo_hs_ok dest: arg_cong [where f = length])
  moreover have "in_window (now demo_inputs) (Timestamp demo_hs)" by (simp add: in_window_def demo_inputs_def demo_hs_def)
  moreover obtain r' where "io_ReadFull 32 (w_rand ?W) = (take 32 (flat (w_rand ?W)), None, r')"
    by (rule io_ReadFull_ok [of 32 "w_rand ?W"]) simp_all
  then have "\<exists>ks. fst (generateKeyPair demo_libs (w_rand ?W)) = Inr ks" by (simp add: generateKeyPair_def)
  moreover have "faults (w_conn ?W) = []" "sent (w_conn ?W) = []" by (simp_all add: relay_demo_def)
  ultimately show ?thesis using stranger_rejected [OF _ p refl] p by auto
qed

text \<open>
  A connection that ends before 64 bytes have arrived is dropped without a trace: \<^verbatim>\<open>Process\<close>
  returns success, nothing is forwarded to the fallback server, nothing is written and the
  connection is not closed.
\<close>

theorem short_connection_dropped:
  assumes "length (flat (w_reader W)) < 64" "fin (w_reader W) = EOF"
  shows "Process L Dial D I h W = Returned None W"
  using assms by (simp add: Process_def bufio_Peek_def ReflexMinHandshakeSize_def)

theorem short_connection_dropped_witness:
  "Process demo_libs demo_dial (None :: (unit, unit) dispatcher option) demo_inputs
     (inbound_New [] (Some 80)) (relay_demo\<lparr>w_reader := \<lparr>chunks = [gostr ''GET /''], fin = EOF\<rparr>\<rparr>) =
   Returned None (relay_demo\<lparr>w_reader := \<lparr>chunks = [gostr ''GET /''], fin = EOF\<rparr>\<rparr>)"
  by (rule short_connection_dropped) simp_all

end
