(* ===== verification/Reflex_Session_Props.thy ===== *)
theory Reflex_Session_Props
  imports Reflex_Session
begin

text \<open>
  The properties of the Reflex frame layer (\<^verbatim>\<open>proxy/reflex/session.go\<close>): the frame stream round
  trip, nonce uniqueness, replay protection, truncation, and the two limits of the format.
\<close>

text \<open>
  C1: a sequence of frames of at most 65506 bytes, written to any connection that does not
  fail, is read back unchanged by a peer with the same key, however the transport cuts the
  stream into reads, as long as the 64-bit counter does not wrap.
\<close>

theorem frame_stream_roundtrip:
  assumes "chacha_ok (s_aead s)" "s_aead t = s_aead s"
    and "write_frames s w fs = (None, s', w')" "sent w = []"
    and "\<forall>(ty, payload) \<in> set fs. length payload \<le> 65506"
    and "readSeen t \<longrightarrow> readNonceCount t < writeNonceCount s"
    and "unat (writeNonceCount s) + length fs \<le> 2 ^ 64"
    and "flat r = sent w' @ rest"
  shows "\<exists>t' r'. read_frames (length fs) t r =
      (map (\<lambda>(ty, payload). \<lparr>f_Type = ty, f_Payload = payload\<rparr>) fs, t', r') \<and> flat r' = rest"
proof -
  have "sent w' = wires (s_aead t) (writeNonceCount s) fs"
    using write_frames_wires [OF _ assms(3)] assms(1,2,4) by (simp add: chacha_ok_def)
  with read_frames_wires [of t fs r "writeNonceCount s" rest] assms show ?thesis by simp
qed

definition demo_frames :: "(byte \<times> byte list) list" where
  "demo_frames = [(0, [7, 8, 9]), (1, [2, 0])]"

definition demo_wire :: "byte list" where
  "demo_wire = sent (snd (snd (write_frames tag_session fresh_sink demo_frames)))"

lemma demo_frames_simps:
  "length demo_frames = 2" "\<forall>(ty, payload) \<in> set demo_frames. length payload \<le> 65506"
  "map (\<lambda>(ty, payload). \<lparr>f_Type = ty, f_Payload = payload\<rparr>) demo_frames =
     [\<lparr>f_Type = 0, f_Payload = [7, 8, 9]\<rparr>, \<lparr>f_Type = 1, f_Payload = [2, 0]\<rparr>]"
  by (simp_all add: demo_frames_def)

theorem frame_stream_roundtrip_witness:
  "\<exists>t' r'. read_frames 2 tag_session \<lparr>chunks = [take 5 demo_wire, drop 5 demo_wire], fin = EOF\<rparr> =
      ([\<lparr>f_Type = 0, f_Payload = [7, 8, 9]\<rparr>, \<lparr>f_Type = 1, f_Payload = [2, 0]\<rparr>], t', r') \<and>
      flat r' = []"
proof -
  obtain s' w' where "write_frames tag_session fresh_sink demo_frames = (None, s', w')"
    using write_frames_no_faults [of tag_session fresh_sink demo_frames] by auto
  then show ?thesis
    using frame_stream_roundtrip [of tag_session tag_session fresh_sink demo_frames s' w'
        "\<lparr>chunks = [take 5 demo_wire, drop 5 demo_wire], fin = EOF\<rparr>" "[]"]
    by (simp add: tag_aead_ok demo_wire_def demo_frames_simps)
qed

text \<open>
  A caller may go on writing after an error. What each call of \<^verbatim>\<open>WriteFrame\<close> answered and which bytes it put on the
  connection:
\<close>

fun write_attempts :: "Session \<Rightarrow> sink \<Rightarrow> (byte \<times> byte list) list \<Rightarrow> (goerr option \<times> byte list) list" where
  "write_attempts s w [] = []"
| "write_attempts s w ((ty, payload) # fs) =
     (case WriteFrame s w ty payload of
        (e, s', w') \<Rightarrow> (e, drop (length (sent w)) (sent w')) # write_attempts s' w' fs)"

text \<open>A call puts a prefix of its frame on the connection, all of it when it succeeds.\<close>

lemma WriteFrame_prefix:
  assumes "NonceSize (s_aead s) = 12" "WriteFrame s w ty payload = (e, s', w')"
  obtains k where "sent w' = sent w @ take k (frame_wire (s_aead s) (writeNonceCount s) ty payload)"
    "e = None \<longrightarrow> length (frame_wire (s_aead s) (writeNonceCount s) ty payload) \<le> k"
proof -
  define ct where "ct = Seal (s_aead s) (frame_nonce (writeNonceCount s)) (ty # payload)"
  let ?h = "PutUint16 (of_nat (12 + length ct)) :: byte list" and ?n = "frame_nonce (writeNonceCount s)"
  have wire: "frame_wire (s_aead s) (writeNonceCount s) ty payload = ?h @ ?n @ ct" by (simp add: frame_wire_def ct_def Let_def)
  obtain n1 e1 w1 where 1: "io_Write ?h w = (n1, e1, w1)" by (metis prod_cases3)
  obtain n2 e2 w2 where 2: "io_Write ?n w1 = (n2, e2, w2)" by (metis prod_cases3)
  obtain n3 e3 w3 where 3: "io_Write ct w2 = (n3, e3, w3)" by (metis prod_cases3)
  note p1 = io_Write_prefix [OF 1] and p2 = io_Write_prefix [OF 2] and p3 = io_Write_prefix [OF 3]
  have W: "WriteFrame s w ty payload = (let s' = s\<lparr>writeNonceCount := writeNonceCount s + 1\<rparr> in
      if e1 \<noteq> None then (e1, s', w1) else if e2 \<noteq> None then (e2, s', w2) else (e3, s', w3))"
    using assms(1) 1 2 3 by (auto simp: WriteFrame_def Let_def makeNonce_12 ct_def split: option.split)
  show thesis
  proof (cases "e1 = None \<and> e2 = None")
    case True
    then have "sent w2 = sent w @ ?h @ ?n" using io_Write_ok 1 2 by fastforce
    with True W assms(2) p3 that [of "length ?h + length ?n + n3"] show thesis
      using io_Write_ok [of ct w2 n3 w3] 3 by (auto simp: wire Let_def)
  next
    case False
    show thesis
    proof (cases "e1 = None")
      case True
      then have "sent w1 = sent w @ ?h" using io_Write_ok 1 by blast
      with True False W assms(2) p2 that [of "length ?h + n2"] show thesis by (auto simp: wire Let_def)
    next
      case e1: False
      with W assms(2) p1 that [of n1] show thesis by (auto simp: wire Let_def)
    qed
  qed
qed

lemma write_attempts_wires:
  assumes "NonceSize (s_aead s) = 12"
  shows "length (write_attempts s w fs) = length fs \<and>
    (\<forall>i<length fs. case (write_attempts s w fs ! i, fs ! i) of ((e, bs), (ty, payload)) \<Rightarrow>
      (let wire = frame_wire (s_aead s) (writeNonceCount s + of_nat i) ty payload
       in bs = take (length bs) wire \<and> (e = None \<longrightarrow> bs = wire)))"
  using assms
proof (induction fs arbitrary: s w)
  case (Cons x fs)
  obtain ty payload where x: "x = (ty, payload)" by force
  obtain e s' w' where W: "WriteFrame s w ty payload = (e, s', w')" by (metis prod_cases3)
  from WriteFrame_prefix [OF Cons.prems W] obtain k where k: "sent w' = sent w @ take k (frame_wire (s_aead s) (writeNonceCount s) ty payload)"
    "e = None \<longrightarrow> length (frame_wire (s_aead s) (writeNonceCount s) ty payload) \<le> k" by blast
  have s': "s_aead s' = s_aead s" "writeNonceCount s' = writeNonceCount s + 1" using WriteFrame_counter [OF W] by simp_all
  have IH: "length (write_attempts s' w' fs) = length fs"
    "\<And>i. i < length fs \<Longrightarrow> case (write_attempts s' w' fs ! i, fs ! i) of ((e, bs), (ty, payload)) \<Rightarrow>
      (let wire = frame_wire (s_aead s) (writeNonceCount s + 1 + of_nat i) ty payload
       in bs = take (length bs) wire \<and> (e = None \<longrightarrow> bs = wire))"
    using Cons.IH [of s' w'] Cons.prems s' by simp_all
  show ?case
  proof (intro conjI allI impI)
    show "length (write_attempts s w (x # fs)) = length (x # fs)" using x W IH(1) by simp
    fix i
    assume i: "i < length (x # fs)"
    show "case (write_attempts s w (x # fs) ! i, (x # fs) ! i) of ((e, bs), (ty, payload)) \<Rightarrow>
      (let wire = frame_wire (s_aead s) (writeNonceCount s + of_nat i) ty payload
       in bs = take (length bs) wire \<and> (e = None \<longrightarrow> bs = wire))"
    proof (cases i)
      case 0
      with x W k show ?thesis by (auto simp: Let_def min_def)
    next
      case (Suc j)
      with IH(2) [of j] i x W show ?thesis by (simp add: add_ac)
    qed
  qed
qed simp

text \<open>
  C2: a nonce is never used twice. Whatever a session writes, and also when writes fail and the caller goes on, there is one
  nonce for each call of \<^verbatim>\<open>WriteFrame\<close>, all of them different for up to \<open>2 ^ 64\<close> calls, such that the call puts on the connection
  a prefix of the frame sealed with its nonce, and the whole frame when it reports no error.
\<close>

theorem write_nonces_distinct:
  assumes "NonceSize (s_aead s) = 12" "length fs \<le> 2 ^ 64"
  shows "\<exists>nonces. length nonces = length fs \<and> distinct nonces \<and> list_all (\<lambda>n. length n = 12) nonces \<and> length (write_attempts s w fs) = length fs \<and>
      (\<forall>i<length fs. case (write_attempts s w fs ! i, fs ! i) of ((e, bs), (ty, payload)) \<Rightarrow>
        (let nonce = nonces ! i; ct = Seal (s_aead s) nonce (ty # payload);
             wire = PutUint16 (of_nat (length nonce + length ct)) @ nonce @ ct
         in bs = take (length bs) wire \<and> (e = None \<longrightarrow> bs = wire)))"
proof -
  let ?ns = "map (\<lambda>i. writeNonceCount s + of_nat i) [0..<length fs]"
  have "distinct (map frame_nonce ?ns)"
    using inj_counters [OF assms(2)] by (auto simp: distinct_map inj_on_def frame_nonce_inj)
  with write_attempts_wires [OF assms(1), of w fs] show ?thesis
    by (intro exI [of _ "map frame_nonce ?ns"]) (simp add: frame_wire_def Let_def case_prod_unfold list_all_iff)
qed

text \<open>The write of the ciphertext of the first frame fails after one byte; the next frame has another nonce.\<close>

definition faulty_sink :: sink where
  "faulty_sink = fresh_sink\<lparr>faults := [None, None, Some (1, ErrMsg ''reset'')]\<rparr>"

theorem write_nonces_distinct_witness:
  "\<exists>bs1 bs2 nonces. write_attempts tag_session faulty_sink demo_frames = [(Some (ErrMsg ''reset''), bs1), (None, bs2)] \<and>
     distinct nonces \<and> length nonces = 2 \<and> length bs1 = 15 \<and> take 12 (drop 2 bs1) = nonces ! 0 \<and> take 12 (drop 2 bs2) = nonces ! 1"
proof -
  obtain bs1 bs2 where w: "write_attempts tag_session faulty_sink demo_frames = [(Some (ErrMsg ''reset''), bs1), (None, bs2)]" "length bs1 = 15"
    by (auto simp: faulty_sink_def demo_frames_def fresh_sink_def WriteFrame_def makeNonce_def blit_def tag_aead_def io_Write.simps sent_def Let_def
        eval_nat_numeral)
  have len: "NonceSize (s_aead tag_session) = 12" "length demo_frames \<le> 2 ^ 64" by (simp_all add: demo_frames_simps)
  from write_nonces_distinct [OF len, of faulty_sink] obtain nonces where n: "length nonces = 2" "distinct nonces" "list_all (\<lambda>n. length n = 12) nonces"
    "\<And>i. i < 2 \<Longrightarrow> case (write_attempts tag_session faulty_sink demo_frames ! i, demo_frames ! i) of ((e, bs), (ty, payload)) \<Rightarrow>
        (let nonce = nonces ! i; ct = Seal (s_aead tag_session) nonce (ty # payload);
             wire = PutUint16 (of_nat (length nonce + length ct)) @ nonce @ ct
         in bs = take (length bs) wire \<and> (e = None \<longrightarrow> bs = wire))"
    unfolding demo_frames_simps(1) by blast
  have "length (nonces ! i) = 12" if "i < 2" for i using n(1,3) that by (simp add: list_all_length)
  note l = this [of 0] this [of 1]
  have pick: "take 12 (drop 2 (take k (PutUint16 x @ n @ ct))) = n" if "length n = 12" "14 \<le> k" for k x n ct
    using that by (simp add: drop_take take_take)
  from n(4) [of 0] w demo_frames_def obtain x1 ct1 where "bs1 = take 15 (PutUint16 x1 @ nonces ! 0 @ ct1)" by (auto simp: Let_def)
  moreover from n(4) [of 1] w demo_frames_def obtain x2 ct2 where "bs2 = PutUint16 x2 @ nonces ! 1 @ ct2" by (auto simp: Let_def)
  ultimately have "take 12 (drop 2 bs1) = nonces ! 0" "take 12 (drop 2 bs2) = nonces ! 1" using l pick by simp_all
  with w n(1,2) show ?thesis by blast
qed

text \<open>
  Whatever a peer or an attacker sends, in whatever order, the counters of the frames a
  session accepts are strictly increasing.
\<close>

theorem accepted_counters_increase: "sorted_wrt (<) (accepted read_step s rs)"
  by (rule replay.accepted_strict)

text \<open>
  C3: once a frame has been accepted, the same bytes offered again, after any further reads,
  are refused with the replay error and change nothing.
\<close>

theorem replay_rejected:
  assumes "ReadFrame s r = (Inr f, s', r')" "flat r2 = flat r"
  shows "\<exists>r2'. ReadFrame (read_run s' rs) r2 =
      (Inl (ErrMsg ''reflex: replay detected''), read_run s' rs, r2')"
proof -
  have "readSeen s'" "s_aead s' = s_aead s"
    using ReadFrame_cases [OF assms(1)] by auto
  with read_run_mono [of s' rs] have later: "readSeen (read_run s' rs)"
    "readNonceCount s' \<le> readNonceCount (read_run s' rs)" "s_aead (read_run s' rs) = s_aead s"
    by auto
  obtain r2' where "ReadFrame (read_run s' rs) r2 =
       (if readSeen (read_run s' rs) \<and> readNonceCount s' \<le> readNonceCount (read_run s' rs)
        then (Inl (ErrMsg ''reflex: replay detected''), read_run s' rs, r2')
        else (Inr f, (read_run s' rs)\<lparr>readSeen := True, readNonceCount := readNonceCount s'\<rparr>, r2'))"
    by (rule ReadFrame_again [OF assms later(3)])
  with later show ?thesis by auto
qed

definition wire0 :: instream where
  "wire0 = \<lparr>chunks = [frame_wire tag_aead 0 0 [7, 8, 9]], fin = EOF\<rparr>"

definition wire1 :: instream where
  "wire1 = \<lparr>chunks = [frame_wire tag_aead 1 1 [2, 0]], fin = EOF\<rparr>"

lemma wire0_accepted:
  "\<exists>r'. ReadFrame tag_session wire0 =
     (Inr \<lparr>f_Type = 0, f_Payload = [7, 8, 9]\<rparr>, tag_session\<lparr>readSeen := True, readNonceCount := 0\<rparr>, r')"
proof -
  have "flat wire0 = frame_wire tag_aead 0 0 [7, 8, 9] @ []" by (simp add: wire0_def flat_def)
  then show ?thesis
    using ReadFrame_wire [of tag_session "[7, 8, 9]" wire0 0 0 "[]"] tag_aead_ok by fastforce
qed

theorem replay_rejected_witness:
  "\<exists>s' r2'. ReadFrame (read_run s' [wire1]) wire0 =
      (Inl (ErrMsg ''reflex: replay detected''), read_run s' [wire1], r2')"
  using wire0_accepted replay_rejected [of tag_session wire0 _ _ _ wire0 "[wire1]"] by blast

text \<open>
  A frame cut short anywhere yields an error and no data, and the session is unchanged.
  The error is a plain \<open>EOF\<close> exactly when the cut falls on one of the three reads' boundaries.
\<close>

theorem truncated_frame:
  assumes "chacha_ok (s_aead s)" "length payload \<le> 65506" "fin r = EOF"
    and "k < length (frame_wire (s_aead s) n ty payload)"
    and "flat r = take k (frame_wire (s_aead s) n ty payload)"
  shows "\<exists>r'. ReadFrame s r =
      (Inl (if k \<in> {0, 2, 14} then EOF else ErrUnexpectedEOF), s, r') \<and> flat r' = []"
proof -
  define ct where "ct = Seal (s_aead s) (frame_nonce n) (ty # payload)"
  define hdr where "hdr = PutUint16 (of_nat (12 + length ct))"
  have lc: "length ct = length payload + 17"
    using frame_ct(1) [OF assms(1), of payload] assms(2) by (simp add: ct_def)
  have sizes: "NonceSize (s_aead s) = 12" "Overhead (s_aead s) = 16"
    using assms(1) by (simp_all add: chacha_ok_def)
  have lh: "length hdr = 2" by (simp add: hdr_def)
  have len: "unat (Uint16 hdr) = length payload + 29"
    using unat_of_nat_16 [of "length payload + 29"] assms(2) lc by (simp add: hdr_def add.commute)
  have fl: "flat r = take k (hdr @ frame_nonce n @ ct)" and k: "k < 2 + 12 + length ct"
    using assms(4,5) by (simp_all add: frame_wire_def ct_def hdr_def Let_def)
  consider "k < 2" | "2 \<le> k" "k < 14" | "14 \<le> k" by linarith
  then show ?thesis
  proof cases
    case 1
    with fl lh have "length (flat r) = k" "length (flat r) < 2" by simp_all
    then obtain r1 where "io_ReadFull 2 r =
        (flat r, Some (if flat r \<noteq> [] \<and> fin r = EOF then ErrUnexpectedEOF else fin r), r1)"
      "flat r1 = []"
      by (meson io_ReadFull_short)
    with \<open>length (flat r) = k\<close> 1 assms(3) show ?thesis by (auto simp: ReadFrame_def)
  next
    case 2
    obtain r1 where r1: "io_ReadFull 2 r = (hdr, None, r1)"
      "flat r1 = take (k - 2) (frame_nonce n)" "fin r1 = fin r"
      using io_ReadFull_ok [of 2 r] fl lh 2 by auto
    then have l: "length (flat r1) = k - 2" "length (flat r1) < 12" using 2 by simp_all
    then obtain r2 where "io_ReadFull 12 r1 =
        (flat r1, Some (if flat r1 \<noteq> [] \<and> fin r1 = EOF then ErrUnexpectedEOF else fin r1), r2)"
      "flat r2 = []"
      by (meson io_ReadFull_short)
    with l(1) r1(1,3) 2 assms(3) len sizes show ?thesis by (auto simp: ReadFrame_def Let_def)
  next
    case 3
    obtain r1 where r1: "io_ReadFull 2 r = (hdr, None, r1)"
      "flat r1 = frame_nonce n @ take (k - 14) ct" "fin r1 = fin r"
      using io_ReadFull_ok [of 2 r] fl lh 3 by auto
    obtain r2 where r2: "io_ReadFull 12 r1 = (frame_nonce n, None, r2)"
      "flat r2 = take (k - 14) ct" "fin r2 = fin r1"
      using io_ReadFull_ok [of 12 r1] r1 by auto
    then have l: "length (flat r2) = k - 14" "length (flat r2) < 17 + length payload"
      using 3 k lc by simp_all
    then obtain r3 where "io_ReadFull (17 + length payload) r2 =
        (flat r2, Some (if flat r2 \<noteq> [] \<and> fin r2 = EOF then ErrUnexpectedEOF else fin r2), r3)"
      "flat r3 = []"
      by (meson io_ReadFull_short)
    with l(1) r1(1,3) r2(1,3) 3 assms(3) len sizes show ?thesis
      by (auto simp: ReadFrame_def Let_def nat_add_distrib)
  qed
qed

theorem truncated_frame_witness:
  "\<exists>r'. ReadFrame tag_session \<lparr>chunks = [take 14 (frame_wire tag_aead 0 0 [7, 8, 9])], fin = EOF\<rparr> =
      (Inl EOF, tag_session, r') \<and> flat r' = []"
  using truncated_frame [of tag_session "[7, 8, 9]"
      "\<lparr>chunks = [take 14 (frame_wire tag_aead 0 0 [7, 8, 9])], fin = EOF\<rparr>" 14 0 0]
  by (simp add: tag_aead_ok frame_wire_def Let_def length_Seal_tag)

text \<open>
  The length field is 16 bits wide. \<^verbatim>\<open>WriteFrame\<close> accepts a payload of 65507 to 65534 bytes
  and reports success, but the peer rejects the frame it wrote as too short.
\<close>

theorem oversized_frame_lost:
  assumes "chacha_ok (s_aead s)" "65507 \<le> length payload" "length payload \<le> 65534"
    and "WriteFrame s w ty payload = (None, s', w')" "sent w = []"
    and "flat r = sent w'" "s_aead t = s_aead s"
  shows "fst (ReadFrame t r) \<in> {Inl (ErrMsg ''reflex: frame too short''),
                                 Inl (ErrMsg ''reflex: ciphertext too short'')}"
proof -
  define ct where "ct = Seal (s_aead s) (frame_nonce (writeNonceCount s)) (ty # payload)"
  define hdr where "hdr = PutUint16 (of_nat (12 + length ct))"
  have lc: "length ct = length payload + 17"
    using frame_ct(1) [OF assms(1), of payload] assms(3) by (simp add: ct_def)
  have sizes: "NonceSize (s_aead t) = 12" "Overhead (s_aead t) = 16"
    using assms(1,7) by (simp_all add: chacha_ok_def)
  have "flat r = frame_wire (s_aead s) (writeNonceCount s) ty payload"
    using WriteFrame_ok(1) [OF _ assms(4)] assms(5,6) sizes(1) assms(7) by simp
  then have fl: "flat r = hdr @ frame_nonce (writeNonceCount s) @ ct"
    by (simp add: frame_wire_def ct_def hdr_def Let_def)
  have lh: "length hdr = 2" by (simp add: hdr_def)
  have "unat (Uint16 hdr) = length payload + 29 - 65536"
    using unat_of_nat_16_wrap [of "length payload + 29"] assms(2,3) lc
    by (simp add: hdr_def add.commute)
  then have "int (unat (Uint16 hdr)) < 28" using assms(3) by simp
  moreover obtain r1 where "io_ReadFull 2 r = (hdr, None, r1)"
    using io_ReadFull_ok [of 2 r] fl lh by auto
  ultimately show ?thesis using sizes by (simp add: ReadFrame_def Let_def)
qed

theorem oversized_frame_lost_witness:
  "\<exists>w' r. flat r = sent w' \<and> fst (ReadFrame tag_session r) \<in>
     {Inl (ErrMsg ''reflex: frame too short''), Inl (ErrMsg ''reflex: ciphertext too short'')}"
proof -
  let ?p = "replicate 65507 (0::byte)"
  obtain w' where "WriteFrame tag_session fresh_sink 0 ?p =
      (None, tag_session\<lparr>writeNonceCount := writeNonceCount tag_session + 1\<rparr>, w')"
    by (rule WriteFrame_no_faults [of tag_session fresh_sink 0 ?p]) simp_all
  then have "fst (ReadFrame tag_session \<lparr>chunks = [sent w'], fin = EOF\<rparr>) \<in>
     {Inl (ErrMsg ''reflex: frame too short''), Inl (ErrMsg ''reflex: ciphertext too short'')}"
    by (intro oversized_frame_lost [of tag_session ?p fresh_sink 0 _ w' _ tag_session])
      (simp_all add: tag_aead_ok)
  then show ?thesis
    by (intro exI [of _ w'] exI [of _ "\<lparr>chunks = [sent w'], fin = EOF\<rparr>"]) simp
qed

text \<open>
  Both directions use one key and both counters start at 0, so a session that has not read
  anything accepts the first frame it wrote itself when it is sent back to it.
\<close>

theorem reflected_frame_accepted:
  assumes "chacha_ok (s_aead s)" "length payload \<le> 65506" "\<not> readSeen s"
    and "WriteFrame s w ty payload = (None, s', w')" "sent w = []" "flat r = sent w'"
  shows "\<exists>s'' r'. ReadFrame s' r = (Inr \<lparr>f_Type = ty, f_Payload = payload\<rparr>, s'', r')"
proof -
  have n: "NonceSize (s_aead s) = 12" using assms(1) by (simp add: chacha_ok_def)
  note w = WriteFrame_ok [OF n assms(4)]
  have "flat r = frame_wire (s_aead s') (writeNonceCount s) ty payload @ []"
    using w assms(5,6) by simp
  moreover have "chacha_ok (s_aead s')" "\<not> readSeen s'" using w(2) assms(1,3) by simp_all
  ultimately show ?thesis
    using ReadFrame_wire [of s' payload r "writeNonceCount s" ty "[]"] assms(2) by metis
qed

theorem reflected_frame_accepted_witness:
  "\<exists>s' r s'' r'. ReadFrame s' r = (Inr \<lparr>f_Type = 0, f_Payload = [7, 8, 9]\<rparr>, s'', r')"
proof -
  obtain w' where "WriteFrame tag_session fresh_sink 0 [7, 8, 9] =
      (None, tag_session\<lparr>writeNonceCount := writeNonceCount tag_session + 1\<rparr>, w')"
    by (rule WriteFrame_no_faults [of tag_session fresh_sink 0 "[7, 8, 9]"]) simp_all
  from reflected_frame_accepted [OF _ _ _ this, of "\<lparr>chunks = [sent w'], fin = EOF\<rparr>"]
  show ?thesis by (auto simp: tag_aead_ok flat_def)
qed

end
