(* ===== verification/Reflex_EndToEnd.thy ===== *)
theory Reflex_EndToEnd
  imports Reflex_Inbound_Props Reflex_Session_Props
begin

text \<open>
  The whole path of the Reflex protocol: a client's handshake packet and frames on one side, the
  inbound handler with its session loop and dispatcher on the other.
\<close>

definition local80 :: Destination where
  "local80 = TCPDestination (ParseAddress (gostr ''127.0.0.1'')) 80"

text \<open>A dispatcher that logs what is written to its links and answers with \<open>reply\<close>.\<close>

definition log_dispatcher ::
  "(nat \<Rightarrow> goerr + MultiBuffer) \<Rightarrow> ((Destination \<times> byte list) list, Destination) dispatcher" where
  "log_dispatcher reply =
     \<lparr>Dispatch = (\<lambda>log dest. (Inr dest, log)),
      link_Write = (\<lambda>log dest mb. log @ [(dest, mb_content mb)]),
      link_Close = (\<lambda>log dest. log),
      link_Read = (\<lambda>log dest. (reply (length log), log))\<rparr>"

lemma content_new_written:
  "content (snd (snd (Buffer_Write (buf_New mem) p))) = take 8192 p"
  by (simp add: Buffer_Write_append append_read_content)

lemma handle_data_log:
  "w_disp (snd (handle_data (log_dispatcher reply) I k p SW)) =
     w_disp (snd SW) @ [(local80, take 8192 p)]"
  by (cases SW)
    (simp add: handle_data_def log_dispatcher_def Let_def content_new_written local80_def
      split: sum.splits prod.splits)

lemma handle_frames_log:
  "w_disp (snd (handle_frames (Some (log_dispatcher reply)) I k SW fs)) =
     w_disp (snd SW) @
       map (\<lambda>f. (local80, take 8192 (f_Payload f))) (filter (\<lambda>f. f_Type f = FrameTypeData) fs)"
proof (induction fs arbitrary: k SW)
  case (Cons f fs)
  have "w_disp (snd (handle_frame (Some (log_dispatcher reply)) I k f SW)) =
      w_disp (snd SW) @ (if f_Type f = FrameTypeData then [(local80, take 8192 (f_Payload f))] else [])"
    by (simp add: handle_frame_def handle_data_log split: prod.splits)
  with Cons show ?case by simp
qed simp

text \<open>Decoding a stream of frames, to its end.\<close>

lemma ReadFrame_empty: "flat r = [] \<Longrightarrow> fin r = EOF \<Longrightarrow> \<exists>r'. ReadFrame s r = (Inl EOF, s, r')"
proof -
  assume a: "flat r = []" "fin r = EOF"
  then have "length (flat r) < 2" by simp
  then obtain r' where "io_ReadFull 2 r =
      (flat r, Some (if flat r \<noteq> [] \<and> fin r = EOF then ErrUnexpectedEOF else fin r), r')"
    by (rule io_ReadFull_short)
  with a show ?thesis by (simp add: ReadFrame_def)
qed

lemma session_frames_wires:
  assumes "chacha_ok (s_aead s)" "\<forall>(ty, payload) \<in> set fs. length payload \<le> 65506"
    and "flat r = wires (s_aead s) n fs" "fin r = EOF"
    and "readSeen s \<longrightarrow> readNonceCount s < n" "unat n + length fs \<le> 2 ^ 64"
  shows "\<exists>s' r'. session_frames s r =
      (map (\<lambda>(ty, payload). \<lparr>f_Type = ty, f_Payload = payload\<rparr>) fs, EOF, s', r')"
  using assms
proof (induction fs arbitrary: s r n)
  case Nil
  then show ?case using ReadFrame_empty [of r s] by (auto simp: session_frames.simps [of s r])
next
  case (Cons x fs)
  obtain ty payload where x: "x = (ty, payload)" by (cases x)
  have len: "length payload \<le> 65506" using Cons.prems(2) x by simp
  have fl: "flat r = frame_wire (s_aead s) n ty payload @ wires (s_aead s) (n + 1) fs"
    using Cons.prems(3) x by simp
  have fresh: "\<not> (readSeen s \<and> n \<le> readNonceCount s)" using Cons.prems(5) by auto
  let ?s1 = "s\<lparr>readSeen := True, readNonceCount := n\<rparr>"
  obtain r1 where acc: "ReadFrame s r = (Inr \<lparr>f_Type = ty, f_Payload = payload\<rparr>, ?s1, r1)"
    and r1: "flat r1 = wires (s_aead s) (n + 1) fs" "fin r1 = EOF"
    by (rule ReadFrame_wire [OF Cons.prems(1) len fl]) (use fresh Cons.prems(4) in simp)
  have "fs \<noteq> [] \<Longrightarrow> unat (n + 1) = unat n + 1"
    using Cons.prems(6) by (cases fs) (simp_all add: unat_word_ariths)
  then have next_n: "fs \<noteq> [] \<Longrightarrow> n < n + 1 \<and> unat (n + 1) + length fs \<le> 2 ^ 64"
    using Cons.prems(6) by (simp add: word_less_nat_alt)
  show ?case
  proof (cases "fs = []")
    case True
    then show ?thesis
      using acc x ReadFrame_empty [of r1 ?s1] r1
      by (auto simp: session_frames.simps [of s r] session_frames.simps [of ?s1 r1])
  next
    case False
    with Cons.IH [of ?s1 r1 "n + 1"] Cons.prems(1,2) r1 next_n x
    have "\<exists>s' r'. session_frames ?s1 r1 =
        (map (\<lambda>(ty, payload). \<lparr>f_Type = ty, f_Payload = payload\<rparr>) fs, EOF, s', r')" by simp
    then show ?thesis using acc x by (auto simp: session_frames.simps [of s r])
  qed
qed

lemma handleSession_wires:
  assumes "session_frames s (w_reader W) = (fs, EOF, s', r')"
    and "handleSession (Some (log_dispatcher reply)) I k s W = (e, s2, W2)"
  shows "e = None \<and> w_disp W2 = w_disp W @
      map (\<lambda>f. (local80, take 8192 (f_Payload f))) (filter (\<lambda>f. f_Type f = FrameTypeData) fs)"
  using assms handle_frames_log [of reply I k "(s, W)" fs]
  by (auto simp: handleSession_decode rd_def)

lemma processHandshake_accepted:
  assumes "in_window (now I) (Timestamp hs)"
    and "u \<in> set (clients h)" "acc_Id (mu_Account u) = uuid_String L (UserID hs)"
    and "generateKeyPair L (w_rand W) = (Inr (priv, pub), rd')" "faults (w_conn W) = []"
    and "NewSession (chacha_New L) (deriveSessionKey L (deriveSharedKey L priv (PublicKey hs)) (Nonce hs)) = Inr s"
  obtains W1 where "w_reader W1 = w_reader W" "w_disp W1 = w_disp W"
    "sent (w_conn W1) = sent (w_conn W) @ ok_header (length (marshal_ServerHandshake pub)) @
       marshal_ServerHandshake pub"
    "processHandshake L D I h hs W = (case handleSession D I 0 s W1 of (e, s', W') \<Rightarrow> (e, W'))"
proof -
  have "\<exists>v. authenticateUser L h (UserID hs) = Inr v"
    using assms(2,3) by (auto simp: authenticateUser_def find_None_iff split: option.splits)
  moreover have "\<not> (Timestamp hs <s now I - 300 \<or> now I + 300 <s Timestamp hs)"
    using assms(1) by (simp add: in_window_def not_less_iff_sle)
  ultimately show thesis
    using assms(4-6) by (intro that [of "W\<lparr>w_rand := rd', w_conn := (w_conn W)\<lparr>written := written (w_conn W) @
       [ok_header (length (marshal_ServerHandshake pub)), marshal_ServerHandshake pub]\<rparr>\<rparr>"])
      (auto simp: processHandshake_def io_Write_no_faults Let_def sent_def)
qed


definition demo_reply :: "nat \<Rightarrow> goerr + MultiBuffer" where
  "demo_reply n = Inl EOF"

definition demo_log_world :: "byte list \<Rightarrow> (Destination \<times> byte list) list world" where
  "demo_log_world bs = \<lparr>w_reader = \<lparr>chunks = [bs], fin = EOF\<rparr>, w_conn = fresh_sink, w_disp = [],
     w_profile = None, w_rand = \<lparr>chunks = [replicate 32 4], fin = EOF\<rparr>\<rparr>"


end
