(* ===== verification/Buf_Reader.thy ===== *)
theory Buf_Reader
  imports Buf_MultiBuffer
begin

text \<open>
  \<^verbatim>\<open>common/buf/reader.go\<close> and \<^verbatim>\<open>common/buf/copy.go\<close>: the reader that keeps an internal buffer, readers of single
  buffers, and the loop that copies from a reader to a writer. An underlying \<^verbatim>\<open>buf.Reader\<close> hands out its vectors of
  buffers one by one and then fails with its error; a reader that returns data together with an error, of which \<^verbatim>\<open>Read\<close> loses
  the data and \<^verbatim>\<open>ReadAtMost\<close> the error, is not among them. \<open>None\<close> is a panic; for the loop of \<^verbatim>\<open>Copy\<close>, which is a
  \<open>partial_function\<close>, it also stands for not returning.
\<close>

section \<open>Readers\<close>

record mbreader =
  mr_mbs :: "MultiBuffer list"
  mr_err :: goerr

definition mr_ReadMultiBuffer :: "mbreader \<Rightarrow> MultiBuffer \<times> goerr option \<times> mbreader" where
  "mr_ReadMultiBuffer r =
     (case mr_mbs r of
        [] \<Rightarrow> ([], Some (mr_err r), r)
      | mb # mbs \<Rightarrow> (mb, None, r\<lparr>mr_mbs := mbs\<rparr>))"

record BufferedReader =
  br_Reader :: mbreader
  br_Buffer :: MultiBuffer

definition nil_if_empty :: "MultiBuffer \<Rightarrow> MultiBuffer" where
  "nil_if_empty mb = (if MultiBuffer_IsEmpty mb then [] else mb)"

definition BufferedBytes :: "BufferedReader \<Rightarrow> int" where
  "BufferedBytes r = MultiBuffer_Len (br_Buffer r)"

text \<open>\<^verbatim>\<open>Read\<close> into a slice of \<open>k\<close> bytes; the splitter is \<^verbatim>\<open>SplitBytes\<close> unless one is set.\<close>

definition BufferedReader_Read :: "BufferedReader \<Rightarrow> nat \<Rightarrow> byte list \<times> goerr option \<times> BufferedReader" where
  "BufferedReader_Read r k =
     (if \<not> MultiBuffer_IsEmpty (br_Buffer r)
      then (case SplitBytes (br_Buffer r) k of (buffer, bs) \<Rightarrow> (bs, None, r\<lparr>br_Buffer := nil_if_empty buffer\<rparr>))
      else (case mr_ReadMultiBuffer (br_Reader r) of
              (_, Some e, rd) \<Rightarrow> ([], Some e, r\<lparr>br_Reader := rd\<rparr>)
            | (mb, None, rd) \<Rightarrow>
                (case SplitBytes mb k of (mb', bs) \<Rightarrow>
                   (bs, None, if \<not> MultiBuffer_IsEmpty mb' then r\<lparr>br_Reader := rd, br_Buffer := mb'\<rparr>
                              else r\<lparr>br_Reader := rd\<rparr>))))"

definition BufferedReader_ReadByte :: "BufferedReader \<Rightarrow> byte \<times> goerr option \<times> BufferedReader" where
  "BufferedReader_ReadByte r =
     (case BufferedReader_Read r 1 of (bs, e, r') \<Rightarrow> (if bs = [] then 0 else hd bs, e, r'))"

definition BufferedReader_ReadMultiBuffer :: "BufferedReader \<Rightarrow> MultiBuffer \<times> goerr option \<times> BufferedReader" where
  "BufferedReader_ReadMultiBuffer r =
     (if \<not> MultiBuffer_IsEmpty (br_Buffer r) then (br_Buffer r, None, r\<lparr>br_Buffer := []\<rparr>)
      else (case mr_ReadMultiBuffer (br_Reader r) of (mb, e, rd) \<Rightarrow> (mb, e, r\<lparr>br_Reader := rd\<rparr>)))"

definition ReadAtMost :: "BufferedReader \<Rightarrow> int \<Rightarrow> (MultiBuffer \<times> goerr option \<times> BufferedReader) option" where
  "ReadAtMost r sz =
     (let cut = (\<lambda>r buffer. do { (rb, mb) \<leftarrow> SplitSize buffer sz; Some (mb, None, r\<lparr>br_Buffer := nil_if_empty rb\<rparr>) }) in
      if MultiBuffer_IsEmpty (br_Buffer r)
      then (case mr_ReadMultiBuffer (br_Reader r) of
              (mb, e, rd) \<Rightarrow>
                if MultiBuffer_IsEmpty mb \<and> e \<noteq> None then Some ([], e, r\<lparr>br_Reader := rd\<rparr>)
                else cut (r\<lparr>br_Reader := rd\<rparr>) mb)
      else cut r (br_Buffer r))"

text \<open>\<^verbatim>\<open>ReadBuffer\<close>, and \<^verbatim>\<open>readOneUDP\<close> with its 64 attempts.\<close>

definition ReadBuffer :: "instream \<Rightarrow> Buffer option \<times> goerr option \<times> instream" where
  "ReadBuffer r =
     (case Buffer_ReadFrom fresh_buffer r of (n, e, b, r') \<Rightarrow> (if n > 0 then Some b else None, e, r'))"

fun readOneUDP_loop :: "nat \<Rightarrow> Buffer \<Rightarrow> instream \<Rightarrow> Buffer option \<times> goerr option \<times> instream" where
  "readOneUDP_loop 0 b r = (None, Some (ErrMsg ''Reader returns too many empty payloads.''), r)"
| "readOneUDP_loop (Suc i) b r =
     (case Buffer_ReadFrom b r of (n, e, b', r') \<Rightarrow>
        if \<not> Buffer_IsEmpty b' then (Some b', None, r')
        else if e \<noteq> None then (None, e, r') else readOneUDP_loop i b' r')"

definition readOneUDP :: "instream \<Rightarrow> Buffer option \<times> goerr option \<times> instream" where
  "readOneUDP r = readOneUDP_loop 64 fresh_buffer r"

text \<open>\<^verbatim>\<open>io.ReadFull\<close> on a buffered reader.\<close>

definition mb_size :: "MultiBuffer \<Rightarrow> nat" where
  "mb_size mb = length (mb_content mb) + length mb"

definition br_size :: "BufferedReader \<Rightarrow> nat" where
  "br_size r = mb_size (br_Buffer r) + sum_list (map (\<lambda>mb. mb_size mb + 1) (mr_mbs (br_Reader r)))"

partial_function (option) br_ReadAtLeast ::
  "nat \<Rightarrow> byte list \<Rightarrow> BufferedReader \<Rightarrow> (byte list \<times> goerr option \<times> BufferedReader) option" where
  "br_ReadAtLeast k acc r =
     (if length acc < k then
        (case BufferedReader_Read r (k - length acc) of
           (bs, None, r') \<Rightarrow> br_ReadAtLeast k (acc @ bs) r'
         | (bs, Some e, r') \<Rightarrow>
             Some (acc @ bs, Some (if acc @ bs \<noteq> [] \<and> e = EOF then ErrUnexpectedEOF else e), r'))
      else Some (acc, None, r))"

definition br_ReadFull :: "nat \<Rightarrow> BufferedReader \<Rightarrow> (byte list \<times> goerr option \<times> BufferedReader) option" where
  "br_ReadFull k r = br_ReadAtLeast k [] r"

section \<open>Copy\<close>

datatype copy_error = readError goerr | writeError goerr

text \<open>The reader and the writer are functions; \<open>onData\<close> is what the handlers do with each vector.\<close>

partial_function (option) copyInternal ::
  "('r \<Rightarrow> (MultiBuffer \<times> goerr option \<times> 'r) option) \<Rightarrow> ('w \<Rightarrow> MultiBuffer \<Rightarrow> goerr option \<times> 'w) \<Rightarrow>
   ('h \<Rightarrow> MultiBuffer \<Rightarrow> 'h) \<Rightarrow> 'r \<Rightarrow> 'w \<Rightarrow> 'h \<Rightarrow> (copy_error \<times> 'r \<times> 'w \<times> 'h) option" where
  "copyInternal rd wr onData r w h =
     do { (buffer, err, r') \<leftarrow> rd r;
          let h' = (if MultiBuffer_IsEmpty buffer then h else onData h buffer);
          let (werr, w') = (if MultiBuffer_IsEmpty buffer then (None, w) else wr w buffer);
          (case werr of
             Some e \<Rightarrow> Some (writeError e, r', w', h')
           | None \<Rightarrow>
               (case err of
                  Some e \<Rightarrow> Some (readError e, r', w', h')
                | None \<Rightarrow> copyInternal rd wr onData r' w' h')) }"

fun cause :: "copy_error \<Rightarrow> goerr" where
  "cause (readError e) = e" | "cause (writeError e) = e"

text \<open>\<^verbatim>\<open>Copy\<close> answers nil when the cause is \<^verbatim>\<open>io.EOF\<close>.\<close>

definition buf_Copy where
  "buf_Copy rd wr onData r w h =
     do { (err, r', w', h') \<leftarrow> copyInternal rd wr onData r w h;
          Some (if cause err \<noteq> EOF then Some err else None, r', w', h') }"

definition no_handlers :: "unit \<Rightarrow> MultiBuffer \<Rightarrow> unit" where "no_handlers h mb = ()"

definition CountSize :: "int \<Rightarrow> MultiBuffer \<Rightarrow> int" where "CountSize sc mb = sc + MultiBuffer_Len mb"

fun IsReadError :: "copy_error \<Rightarrow> bool" where
  "IsReadError (readError e) = True" | "IsReadError (writeError e) = False"

fun IsWriteError :: "copy_error \<Rightarrow> bool" where
  "IsWriteError (writeError e) = True" | "IsWriteError (readError e) = False"

section \<open>A buffered reader is a stream of bytes\<close>

definition br_wf :: "BufferedReader \<Rightarrow> bool" where
  "br_wf r \<longleftrightarrow> mb_wf (br_Buffer r) \<and> (\<forall>mb \<in> set (mr_mbs (br_Reader r)). mb_wf mb)"

definition br_stream :: "BufferedReader \<Rightarrow> instream" where
  "br_stream r =
     \<lparr>chunks = (if MultiBuffer_IsEmpty (br_Buffer r) then [] else [mb_content (br_Buffer r)]) @ map mb_content (mr_mbs (br_Reader r)),
      fin = mr_err (br_Reader r)\<rparr>"

text \<open>\<^verbatim>\<open>Read\<close> is the \<^verbatim>\<open>Read\<close> of the stream.\<close>

lemma BufferedReader_Read_stream:
  assumes "br_wf r" "BufferedReader_Read r k = (bs, e, r')" "0 < k"
  shows "br_wf r' \<and> io_Read k (br_stream r) = (bs, e, br_stream r')"
proof -
  have sp: "mb_wf mb' \<and> bs = take k (mb_content mb) \<and> mb_content mb' = drop k (mb_content mb)"
    if "mb_wf mb" "SplitBytes mb k = (mb', bs)" for mb mb' bs
    using SplitBytes_spec that by blast
  show ?thesis
  proof (cases "MultiBuffer_IsEmpty (br_Buffer r)")
    case False
    obtain mb' where s: "SplitBytes (br_Buffer r) k = (mb', bs)" and r': "r' = r\<lparr>br_Buffer := nil_if_empty mb'\<rparr>" "e = None"
      using assms(2) False by (auto simp: BufferedReader_Read_def split: prod.splits)
    from sp [OF _ s] assms(1) have p: "mb_wf mb'" "bs = take k (mb_content (br_Buffer r))" "mb_content mb' = drop k (mb_content (br_Buffer r))"
      by (auto simp: br_wf_def)
    have ne: "MultiBuffer_IsEmpty mb' \<longleftrightarrow> length (mb_content (br_Buffer r)) \<le> k"
      using p by (simp add: MultiBuffer_IsEmpty_content)
    show ?thesis
      using assms(1) False p r' ne by (auto simp: br_wf_def br_stream_def io_Read.simps nil_if_empty_def MultiBuffer_IsEmpty_content)
  next
    case True
    show ?thesis
    proof (cases "mr_mbs (br_Reader r)")
      case Nil
      with True assms show ?thesis
        by (auto simp: BufferedReader_Read_def mr_ReadMultiBuffer_def br_stream_def io_Read.simps br_wf_def)
    next
      case (Cons mb mbs)
      obtain mb' where s: "SplitBytes mb k = (mb', bs)" and e: "e = None"
        and r': "r' = (if \<not> MultiBuffer_IsEmpty mb' then r\<lparr>br_Reader := (br_Reader r)\<lparr>mr_mbs := mbs\<rparr>, br_Buffer := mb'\<rparr>
                       else r\<lparr>br_Reader := (br_Reader r)\<lparr>mr_mbs := mbs\<rparr>\<rparr>)"
        using assms(2) True Cons by (auto simp: BufferedReader_Read_def mr_ReadMultiBuffer_def split: prod.splits)
      from sp [OF _ s] assms(1) Cons have p: "mb_wf mb'" "bs = take k (mb_content mb)" "mb_content mb' = drop k (mb_content mb)"
        by (auto simp: br_wf_def)
      have ne: "MultiBuffer_IsEmpty mb' \<longleftrightarrow> length (mb_content mb) \<le> k"
        using p by (simp add: MultiBuffer_IsEmpty_content)
      show ?thesis
        using assms(1) True Cons p r' e ne by (auto simp: br_wf_def br_stream_def io_Read.simps MultiBuffer_IsEmpty_content)
    qed
  qed
qed


text \<open>Reading uses up the reader.\<close>

lemma SplitBytes_shorter: "SplitBytes mb k = (mb', bs) \<Longrightarrow> length mb' \<le> length mb"
proof (induction mb arbitrary: k mb' bs)
  case (Cons p mb)
  obtain xs e p' where rd: "Buffer_Read p k = (xs, e, p')" by (metis prod_cases3)
  obtain m ys where sp: "SplitBytes mb (k - length xs) = (m, ys)" by (cases "SplitBytes mb (k - length xs)")
  from Cons.IH [OF sp] Cons.prems rd sp show ?case by (auto split: if_splits)
qed simp

lemma SplitBytes_size: "mb_wf mb \<Longrightarrow> SplitBytes mb k = (mb', bs) \<Longrightarrow> mb_size mb' + length bs \<le> mb_size mb"
  using SplitBytes_spec [of mb k mb' bs] SplitBytes_shorter [of mb k mb' bs] by (simp add: mb_size_def)

lemma nil_if_empty_simps [simp]:
  "mb_wf mb \<Longrightarrow> mb_wf (nil_if_empty mb)" "mb_wf mb \<Longrightarrow> mb_content (nil_if_empty mb) = mb_content mb"
  by (auto simp: nil_if_empty_def MultiBuffer_IsEmpty_content)

lemma nil_if_empty_size: "mb_size (nil_if_empty mb) \<le> mb_size mb"
  by (simp add: nil_if_empty_def mb_size_def)

lemma BufferedReader_Read_size:
  assumes "br_wf r" "BufferedReader_Read r k = (bs, e, r')"
  shows "br_size r' + length bs \<le> br_size r"
proof (cases "MultiBuffer_IsEmpty (br_Buffer r)")
  case False
  obtain mb' where s: "SplitBytes (br_Buffer r) k = (mb', bs)" and r': "r' = r\<lparr>br_Buffer := nil_if_empty mb'\<rparr>"
    using assms(2) False by (auto simp: BufferedReader_Read_def split: prod.splits)
  with SplitBytes_size [OF _ s] assms(1) nil_if_empty_size [of mb'] show ?thesis by (simp add: br_size_def br_wf_def)
next
  case True
  show ?thesis
  proof (cases "mr_mbs (br_Reader r)")
    case Nil
    with True assms show ?thesis by (auto simp: BufferedReader_Read_def mr_ReadMultiBuffer_def br_size_def)
  next
    case (Cons mb mbs)
    obtain mb' where s: "SplitBytes mb k = (mb', bs)"
      and r': "r' = (if \<not> MultiBuffer_IsEmpty mb' then r\<lparr>br_Reader := (br_Reader r)\<lparr>mr_mbs := mbs\<rparr>, br_Buffer := mb'\<rparr>
                     else r\<lparr>br_Reader := (br_Reader r)\<lparr>mr_mbs := mbs\<rparr>\<rparr>)"
      using assms(2) True Cons by (auto simp: BufferedReader_Read_def mr_ReadMultiBuffer_def split: prod.splits)
    have "mb_wf mb" using assms(1) Cons by (simp add: br_wf_def)
    from SplitBytes_size [OF this s] r' Cons show ?thesis by (auto simp: br_size_def)
  qed
qed

section \<open>Taking at most so many bytes\<close>

text \<open>Buffers of the pool hold at most 8192 bytes; a vector holds fewer than \<open>2 ^ 31\<close>.\<close>

definition mb_small :: "MultiBuffer \<Rightarrow> bool" where
  "mb_small mb \<longleftrightarrow> mb_wf mb \<and> (\<forall>b \<in> set mb. length (content b) \<le> 8192) \<and> length (mb_content mb) < 2147483648"

definition br_small :: "BufferedReader \<Rightarrow> bool" where
  "br_small r \<longleftrightarrow> mb_small (br_Buffer r) \<and> (\<forall>mb \<in> set (mr_mbs (br_Reader r)). mb_small mb)"

lemma br_small_wf: "br_small r \<Longrightarrow> br_wf r"
  by (auto simp: br_small_def br_wf_def mb_small_def)

lemma SplitSize_small:
  assumes "mb_small mb" "0 < sz"
  obtains rest r where "SplitSize mb sz = Some (rest, r)" "mb_small rest" "mb_small r"
    "mb_content r @ mb_content rest = mb_content mb" "int (length (mb_content r)) \<le> sz"
    "mb \<noteq> [] \<longrightarrow> mb_size rest < mb_size mb"
proof (cases "mb = [] \<or> (sz \<le> 8192 \<and> Buffer_Len (hd mb) > sz)")
  case False
  then obtain b0 mb' where mb: "mb = b0 # mb'" by (cases mb) auto
  with assms have b0: "buffer_wf b0" "length (content b0) \<le> 8192" by (auto simp: mb_small_def)
  have le: "\<not> Buffer_Len b0 > sz" using False mb b0 by (auto simp: Buffer_Len_content)
  obtain rest r where sp: "SplitSize_loop mb 0 sz = (rest, r)" by (cases "SplitSize_loop mb 0 sz")
  from SplitSize_loop_spec [OF _ _ _ sp] assms
  have parts: "mb = r @ rest" and b: "r \<noteq> [] \<longrightarrow> int (length (mb_content r)) \<le> sz"
    and stop: "rest \<noteq> [] \<longrightarrow> sz < int (length (mb_content r)) + int (length (content (hd rest)))"
    by (auto simp: mb_small_def)
  have ne: "r \<noteq> []" using parts mb stop le b0 by (auto simp: Buffer_Len_content)
  have "mb_small rest" "mb_small r" using assms(1) parts by (auto simp: mb_small_def)
  moreover have "SplitSize mb sz = Some (rest, r)" using mb le sp by (simp add: SplitSize_def)
  ultimately show thesis using that ne b parts by (auto simp: mb_size_def)
next
  case True
  show thesis
  proof (cases "mb = []")
    case True
    with that [of "[]" "[]"] assms show thesis by (simp add: SplitSize_def)
  next
    case False
    with True have sz: "sz \<le> 8192" and gt: "Buffer_Len (hd mb) > sz" by auto
    obtain b0 mb' where mb: "mb = b0 # mb'" using False by (cases mb) auto
    from assms mb have b0: "buffer_wf b0" "mb_wf mb'" by (auto simp: mb_small_def)
    obtain rest r where sp: "SplitSize mb sz = Some (rest, r)" "mb_wf rest" "mb_wf r"
      "mb_content r @ mb_content rest = mb_content mb" "int (length (mb_content r)) \<le> sz"
      "mb \<noteq> [] \<longrightarrow> 0 < sz \<longrightarrow> length (mb_content rest) + length rest < length (mb_content mb) + length mb"
      by (rule SplitSize_spec [of mb sz]) (use assms sz in \<open>auto simp: mb_small_def\<close>)
    obtain b where shape: "rest = Buffer_Advance b0 sz # mb'" "r = [b]"
      using sp(1) gt mb by (auto simp: SplitSize_def bind_eq_Some_conv)
    have "content (Buffer_Advance b0 sz) = drop (nat sz) (content b0)"
      using advance_content [OF b0(1), of "nat sz"] gt mb b0 assms(2)
      by (simp add: Buffer_Advance_spec [OF b0(1)] Buffer_Len_content)
    then have "mb_small rest" using sp(2,4) assms(1) mb shape(1)
      by (auto simp: mb_small_def)
    moreover have "mb_small r" using sp(3,5) shape(2) sz by (auto simp: mb_small_def)
    ultimately show thesis using that sp assms(2) by (auto simp: mb_size_def)
  qed
qed

lemma SplitBytes_le:
  "mb_wf mb \<Longrightarrow> \<forall>b \<in> set mb. length (content b) \<le> n \<Longrightarrow> SplitBytes mb k = (mb', bs) \<Longrightarrow> b \<in> set mb' \<Longrightarrow> length (content b) \<le> n"
proof (induction mb arbitrary: k mb' bs)
  case (Cons p mb)
  obtain xs e p' where rd: "Buffer_Read p k = (xs, e, p')" by (metis prod_cases3)
  with Cons.prems have c: "content p' = drop k (content p)" using Buffer_Read_spec [of p k xs e p'] by auto
  obtain m ys where sp: "SplitBytes mb (k - length xs) = (m, ys)" by (cases "SplitBytes mb (k - length xs)")
  show ?case
  proof (cases "Buffer_IsEmpty p'")
    case True
    with Cons.prems rd sp have "mb' = m" by simp
    with Cons.IH [OF _ _ sp] Cons.prems show ?thesis by simp
  next
    case False
    with Cons.prems rd have "mb' = p' # mb" by simp
    with Cons.prems c show ?thesis by auto
  qed
qed simp

lemma SplitBytes_small:
  assumes "mb_small mb" "SplitBytes mb k = (mb', bs)"
  shows "mb_small mb'"
proof -
  have "mb_wf mb" using assms(1) by (simp add: mb_small_def)
  from SplitBytes_spec [OF this assms(2)] SplitBytes_le [OF this _ assms(2), of 8192] assms(1) show ?thesis
    by (simp add: mb_small_def less_imp_diff_less)
qed

lemma nil_if_empty_small: "mb_small mb \<Longrightarrow> mb_small (nil_if_empty mb)"
  by (simp add: nil_if_empty_def mb_small_def)

lemma BufferedReader_Read_small:
  assumes "br_small r" "BufferedReader_Read r k = (bs, e, r')"
  shows "br_small r'"
proof (cases "MultiBuffer_IsEmpty (br_Buffer r)")
  case False
  obtain mb' where s: "SplitBytes (br_Buffer r) k = (mb', bs)" and r': "r' = r\<lparr>br_Buffer := nil_if_empty mb'\<rparr>"
    using assms(2) False by (auto simp: BufferedReader_Read_def split: prod.splits)
  have "mb_small mb'" by (rule SplitBytes_small [OF _ s]) (use assms(1) in \<open>simp add: br_small_def\<close>)
  with assms(1) r' show ?thesis by (simp add: br_small_def nil_if_empty_small)
next
  case True
  show ?thesis
  proof (cases "mr_mbs (br_Reader r)")
    case Nil
    with True assms show ?thesis by (auto simp: BufferedReader_Read_def mr_ReadMultiBuffer_def br_small_def)
  next
    case (Cons mb mbs)
    obtain mb' where s: "SplitBytes mb k = (mb', bs)"
      and r': "r' = (if \<not> MultiBuffer_IsEmpty mb' then r\<lparr>br_Reader := (br_Reader r)\<lparr>mr_mbs := mbs\<rparr>, br_Buffer := mb'\<rparr>
                     else r\<lparr>br_Reader := (br_Reader r)\<lparr>mr_mbs := mbs\<rparr>\<rparr>)"
      using assms(2) True Cons by (auto simp: BufferedReader_Read_def mr_ReadMultiBuffer_def split: prod.splits)
    have "mb_small mb'" by (rule SplitBytes_small [OF _ s]) (use assms(1) Cons in \<open>simp add: br_small_def\<close>)
    with assms(1) r' Cons show ?thesis by (simp add: br_small_def)
  qed
qed

text \<open>So is \<^verbatim>\<open>io.ReadFull\<close>.\<close>

lemma br_ReadAtLeast_stream:
  "br_wf r \<Longrightarrow> \<exists>r'. br_ReadAtLeast k acc r = Some (fst (ReadAtLeast k acc (br_stream r)), fst (snd (ReadAtLeast k acc (br_stream r))), r') \<and>
     br_stream r' = snd (snd (ReadAtLeast k acc (br_stream r))) \<and> br_wf r' \<and>
     br_size r' + length (fst (ReadAtLeast k acc (br_stream r))) \<le> br_size r + length acc \<and> (br_small r \<longrightarrow> br_small r')"
proof (induction k acc "br_stream r" arbitrary: r rule: ReadAtLeast.induct)
  case (1 k acc r)
  show ?case
  proof (cases "length acc < k")
    case False
    with "1.prems" show ?thesis by (simp add: br_ReadAtLeast.simps [of k acc r] ReadAtLeast.simps [of k acc])
  next
    case True
    obtain bs e r' where rd: "BufferedReader_Read r (k - length acc) = (bs, e, r')" by (metis prod_cases3)
    from BufferedReader_Read_stream [OF "1.prems" rd] True
    have st: "br_wf r'" "io_Read (k - length acc) (br_stream r) = (bs, e, br_stream r')" by auto
    note sz = BufferedReader_Read_size [OF "1.prems" rd] BufferedReader_Read_small [OF _ rd]
    show ?thesis
    proof (cases e)
      case None
      with "1.hyps" [OF True st(2) [symmetric] refl None st(1)] rd st True sz show ?thesis
        by (auto simp add: br_ReadAtLeast.simps [of k acc r] ReadAtLeast.simps [of k acc])
    next
      case (Some x)
      with rd st True sz show ?thesis by (simp add: br_ReadAtLeast.simps [of k acc r] ReadAtLeast.simps [of k acc])
    qed
  qed
qed

lemma br_ReadFull_stream:
  assumes "br_wf r" "io_ReadFull k (br_stream r) = (bs, e, s)"
  obtains r' where "br_ReadFull k r = Some (bs, e, r')" "br_stream r' = s" "br_wf r'" "br_size r' + length bs \<le> br_size r"
    "br_small r \<Longrightarrow> br_small r'"
  using br_ReadAtLeast_stream [OF assms(1), of k "[]"] assms(2) that by (auto simp: br_ReadFull_def io_ReadFull_def)

lemma br_ReadFull_ok:
  assumes "br_wf r" "flat (br_stream r) = bs @ rest" "length bs = k"
  obtains r' where "br_ReadFull k r = Some (bs, None, r')" "br_wf r'" "flat (br_stream r') = rest" "fin (br_stream r') = fin (br_stream r)"
    "br_small r \<Longrightarrow> br_small r'" "br_size r' + length bs \<le> br_size r"
proof -
  obtain s where s: "io_ReadFull k (br_stream r) = (take k (flat (br_stream r)), None, s)" "flat s = drop k (flat (br_stream r))"
    "fin s = fin (br_stream r)"
    by (rule io_ReadFull_ok [of k "br_stream r"]) (use assms in auto)
  show thesis
    by (rule br_ReadFull_stream [OF assms(1) s(1)]) (rule that, use s assms(2,3) in auto)
qed

text \<open>\<^verbatim>\<open>ReadAtMost\<close> on pooled buffers never panics. It takes a prefix of the stream, or reports the end.\<close>

lemma ReadAtMost_small:
  assumes "br_small r" "0 < sz"
  obtains mb e r' where "ReadAtMost r sz = Some (mb, e, r')" "br_small r'" "mb_small mb" "fin (br_stream r') = fin (br_stream r)"
    "flat (br_stream r) = mb_content mb @ flat (br_stream r')" "int (length (mb_content mb)) \<le> sz"
    "e = None \<longrightarrow> br_size r' < br_size r" "e \<noteq> None \<longrightarrow> mb = [] \<and> flat (br_stream r) = [] \<and> r' = r"
proof -
  note done_ = that
  have cut: thesis if small: "br_small r1" and b: "mb_small buffer"
    and eq: "ReadAtMost r sz = do { (rb, mb) \<leftarrow> SplitSize buffer sz; Some (mb, None, r1\<lparr>br_Buffer := nil_if_empty rb\<rparr>) }"
    and fl: "flat (br_stream r) = mb_content buffer @ flat (br_stream (r1\<lparr>br_Buffer := []\<rparr>))" "fin (br_stream r1) = fin (br_stream r)"
    and sz: "buffer \<noteq> [] \<longrightarrow> mb_size buffer + br_size (r1\<lparr>br_Buffer := []\<rparr>) \<le> br_size r" "buffer = [] \<longrightarrow> br_size (r1\<lparr>br_Buffer := []\<rparr>) < br_size r"
    for buffer r1
  proof -
    obtain rest mb where s: "SplitSize buffer sz = Some (rest, mb)" "mb_small rest" "mb_small mb"
      "mb_content mb @ mb_content rest = mb_content buffer" "int (length (mb_content mb)) \<le> sz" "buffer \<noteq> [] \<longrightarrow> mb_size rest < mb_size buffer"
      by (rule SplitSize_small [OF b assms(2)])
    let ?r' = "r1\<lparr>br_Buffer := nil_if_empty rest\<rparr>"
    have e0: "buffer = [] \<Longrightarrow> rest = []" using s(1) by (auto simp: SplitSize_def)
    have flat': "flat (br_stream ?r') = mb_content rest @ flat (br_stream (r1\<lparr>br_Buffer := []\<rparr>))"
      using s(2) by (auto simp: br_stream_def flat_def nil_if_empty_def MultiBuffer_IsEmpty_content mb_small_def)
    have size': "br_size ?r' \<le> mb_size rest + br_size (r1\<lparr>br_Buffer := []\<rparr>)"
      using nil_if_empty_size [of rest] by (simp add: br_size_def mb_size_def)
    show thesis
    proof (rule done_ [of mb None ?r'])
      show "None = None \<longrightarrow> br_size ?r' < br_size r" using size' sz s(6) e0 by (cases "buffer = []") (auto simp: mb_size_def)
    qed (use eq s fl flat' small nil_if_empty_small in \<open>auto simp: br_small_def br_stream_def mb_small_def\<close>)
  qed
  show thesis
  proof (cases "MultiBuffer_IsEmpty (br_Buffer r)")
    case False
    then have ne: "br_Buffer r \<noteq> []" by auto
    show thesis
      by (rule cut [of r "br_Buffer r"])
        (use assms False ne in \<open>auto simp: ReadAtMost_def br_small_def br_stream_def flat_def br_size_def\<close>, simp add: mb_size_def)
  next
    case True
    then have c: "mb_content (br_Buffer r) = []" using assms(1) by (simp add: br_small_def mb_small_def MultiBuffer_IsEmpty_content)
    show thesis
    proof (cases "mr_mbs (br_Reader r)")
      case Nil
      show thesis
        by (rule that [of "[]" "Some (mr_err (br_Reader r))" r])
          (use assms True Nil in \<open>auto simp: ReadAtMost_def mr_ReadMultiBuffer_def br_stream_def flat_def mb_small_def\<close>)
    next
      case (Cons mb mbs)
      let ?r1 = "r\<lparr>br_Reader := (br_Reader r)\<lparr>mr_mbs := mbs\<rparr>\<rparr>"
      show thesis
        by (rule cut [of ?r1 mb])
          (use assms True Cons c in \<open>auto simp: ReadAtMost_def mr_ReadMultiBuffer_def br_small_def br_stream_def flat_def br_size_def mb_size_def\<close>)
    qed
  qed
qed

end
