(* ===== verification/Address_Parser.thy ===== *)
theory Address_Parser
  imports Buf_Buffer Interfaces
begin

text \<open>
  \<^verbatim>\<open>common/protocol/address.go\<close> and the length limit of \<^verbatim>\<open>headers.go\<close>: the serializer of
  addresses and ports that the proxy protocols and the multiplexer use, port first or port
  last. Reading goes through a \<open>Buffer\<close>, as in the source; \<open>None\<close> is a panic. Writing goes to
  an arbitrary writer \<open>wr\<close>. The lemmas give the wire format and the round trip.
\<close>

section \<open>Model\<close>

definition afInvalid :: byte where "afInvalid = 255"

record addressParser =
  addrTypeMap :: "nat \<Rightarrow> AddressFamily option"
  addrByteMap :: "AddressFamily \<Rightarrow> byte"
  typeParser :: "(byte \<Rightarrow> byte) option"

record parser_option =
  o_maps :: addressParser
  portFirst :: bool

datatype AddressOption =
    PortThenAddress
  | AddressFamilyByte byte AddressFamily
  | WithAddressTypeParser "byte \<Rightarrow> byte"

text \<open>\<open>None\<close>: the panic of \<^verbatim>\<open>AddressFamilyByte\<close> on a byte of 16 or more.\<close>

fun apply_option :: "AddressOption \<Rightarrow> parser_option \<Rightarrow> parser_option option" where
  "apply_option PortThenAddress p = Some (p\<lparr>portFirst := True\<rparr>)"
| "apply_option (AddressFamilyByte b f) p =
     (if b \<ge> 16 then None
      else Some (p\<lparr>o_maps := (o_maps p)
             \<lparr>addrTypeMap := (addrTypeMap (o_maps p))(unat b := Some f),
              addrByteMap := (addrByteMap (o_maps p))(f := b)\<rparr>\<rparr>))"
| "apply_option (WithAddressTypeParser atp) p =
     Some (p\<lparr>o_maps := (o_maps p)\<lparr>typeParser := Some atp\<rparr>\<rparr>)"

fun apply_options :: "AddressOption list \<Rightarrow> parser_option \<Rightarrow> parser_option option" where
  "apply_options [] p = Some p"
| "apply_options (x # xs) p = (case apply_option x p of None \<Rightarrow> None | Some p' \<Rightarrow> apply_options xs p')"

definition NewAddressParser :: "AddressOption list \<Rightarrow> parser_option option" where
  "NewAddressParser options =
     apply_options options
       \<lparr>o_maps = \<lparr>addrTypeMap = (\<lambda>_. None), addrByteMap = (\<lambda>_. afInvalid), typeParser = None\<rparr>,
        portFirst = False\<rparr>"

definition readPort :: "Buffer \<Rightarrow> instream \<Rightarrow> ((goerr + Port) \<times> Buffer \<times> instream) option" where
  "readPort b reader =
     (case Buffer_ReadFullFrom b reader 2 of
        None \<Rightarrow> None
      | Some (_, Some e, b1, r1) \<Rightarrow> Some (Inl e, b1, r1)
      | Some (_, None, b1, r1) \<Rightarrow>
          (case Buffer_BytesFrom b1 (- 2) of
             None \<Rightarrow> None
           | Some bs \<Rightarrow> Some (Inr (PortFromBytes bs), b1, r1)))"

definition maybeIPPrefix :: "byte \<Rightarrow> bool" where
  "maybeIPPrefix b \<longleftrightarrow> b = 91 \<or> (48 \<le> b \<and> b \<le> 57)"

definition isValidDomain :: "gostring \<Rightarrow> bool" where
  "isValidDomain d =
     list_all (\<lambda>c. (48 \<le> c \<and> c \<le> 57) \<or> (97 \<le> c \<and> c \<le> 122) \<or> (65 \<le> c \<and> c \<le> 90) \<or>
                   c = 45 \<or> c = 46 \<or> c = 95) d"

definition isDomainTooLong :: "gostring \<Rightarrow> bool" where
  "isDomainTooLong domain \<longleftrightarrow> length domain > 256"

text \<open>\<^verbatim>\<open>IPAddress(b.BytesFrom(-k))\<close> after reading \<open>k\<close> bytes.\<close>

definition read_ip ::
  "int \<Rightarrow> Buffer \<Rightarrow> instream \<Rightarrow> ((goerr + Address) \<times> Buffer \<times> instream) option" where
  "read_ip k b reader =
     (case Buffer_ReadFullFrom b reader k of
        None \<Rightarrow> None
      | Some (_, Some e, b1, r1) \<Rightarrow> Some (Inl e, b1, r1)
      | Some (_, None, b1, r1) \<Rightarrow>
          (case Buffer_BytesFrom b1 (- k) of
             None \<Rightarrow> None
           | Some bs \<Rightarrow> map_option (\<lambda>a. (Inr a, b1, r1)) (IPAddress bs)))"

definition read_domain ::
  "Buffer \<Rightarrow> instream \<Rightarrow> ((goerr + Address) \<times> Buffer \<times> instream) option" where
  "read_domain b reader =
     (case Buffer_ReadFullFrom b reader 1 of
        None \<Rightarrow> None
      | Some (_, Some e, b1, r1) \<Rightarrow> Some (Inl e, b1, r1)
      | Some (_, None, b1, r1) \<Rightarrow>
          (case Buffer_Byte b1 (Buffer_Len b1 - 1) of
             None \<Rightarrow> None
           | Some dl \<Rightarrow>
               (let domainLength = uint dl
                in case Buffer_ReadFullFrom b1 r1 domainLength of
                     None \<Rightarrow> None
                   | Some (_, Some e, b2, r2) \<Rightarrow> Some (Inl e, b2, r2)
                   | Some (_, None, b2, r2) \<Rightarrow>
                       (case Buffer_BytesFrom b2 (- domainLength) of
                          None \<Rightarrow> None
                        | Some [] \<Rightarrow> None
                        | Some (c # cs) \<Rightarrow>
                            (let domain = c # cs in
                             if maybeIPPrefix c \<and> IsIP (Family (ParseAddress domain))
                             then Some (Inr (ParseAddress domain), b2, r2)
                             else if \<not> isValidDomain domain
                             then Some (Inl (ErrMsg ''invalid domain name''), b2, r2)
                             else Some (Inr (DomainAddress domain), b2, r2))))))"

definition readAddress ::
  "addressParser \<Rightarrow> Buffer \<Rightarrow> instream \<Rightarrow> ((goerr + Address) \<times> Buffer \<times> instream) option" where
  "readAddress p b reader =
     (case Buffer_ReadFullFrom b reader 1 of
        None \<Rightarrow> None
      | Some (_, Some e, b1, r1) \<Rightarrow> Some (Inl e, b1, r1)
      | Some (_, None, b1, r1) \<Rightarrow>
          (case Buffer_Byte b1 (Buffer_Len b1 - 1) of
             None \<Rightarrow> None
           | Some t \<Rightarrow>
               (let addrType = (case typeParser p of None \<Rightarrow> t | Some f \<Rightarrow> f t) in
                if addrType \<ge> 16 then Some (Inl (ErrMsg ''unknown address type''), b1, r1)
                else
                  (case addrTypeMap p (unat addrType) of
                     None \<Rightarrow> Some (Inl (ErrMsg ''unknown address type''), b1, r1)
                   | Some AddressFamilyIPv4 \<Rightarrow> read_ip 4 b1 r1
                   | Some AddressFamilyIPv6 \<Rightarrow> read_ip 16 b1 r1
                   | Some AddressFamilyDomain \<Rightarrow> read_domain b1 r1))))"

text \<open>The parsers start with a new buffer when the caller passes none.\<close>

definition ReadAddressPort ::
  "parser_option \<Rightarrow> Buffer option \<Rightarrow> instream \<Rightarrow> ((goerr + Address \<times> Port) \<times> instream) option" where
  "ReadAddressPort p buffer input =
     (let b = (case buffer of None \<Rightarrow> fresh_buffer | Some b \<Rightarrow> b) in
      if portFirst p then
        (case readPort b input of
           None \<Rightarrow> None
         | Some (Inl e, b1, r1) \<Rightarrow> Some (Inl e, r1)
         | Some (Inr port, b1, r1) \<Rightarrow>
             (case readAddress (o_maps p) b1 r1 of
                None \<Rightarrow> None
              | Some (Inl e, b2, r2) \<Rightarrow> Some (Inl e, r2)
              | Some (Inr addr, b2, r2) \<Rightarrow> Some (Inr (addr, port), r2)))
      else
        (case readAddress (o_maps p) b input of
           None \<Rightarrow> None
         | Some (Inl e, b1, r1) \<Rightarrow> Some (Inl e, r1)
         | Some (Inr addr, b1, r1) \<Rightarrow>
             (case readPort b1 r1 of
                None \<Rightarrow> None
              | Some (Inl e, b2, r2) \<Rightarrow> Some (Inl e, r2)
              | Some (Inr port, b2, r2) \<Rightarrow> Some (Inr (addr, port), r2))))"

text \<open>\<open>wr bs w\<close>: a \<^verbatim>\<open>Write\<close> call on the writer \<open>w\<close>.\<close>

definition writePort :: "(byte list \<Rightarrow> 'w \<Rightarrow> goerr option \<times> 'w) \<Rightarrow> 'w \<Rightarrow> Port \<Rightarrow> goerr option \<times> 'w" where
  "writePort wr writer port = wr (PutUint16 port) writer"

definition write_two ::
  "(byte list \<Rightarrow> 'w \<Rightarrow> goerr option \<times> 'w) \<Rightarrow> 'w \<Rightarrow> byte list \<Rightarrow> byte list \<Rightarrow> goerr option \<times> 'w" where
  "write_two wr w x y = (case wr x w of (Some e, w1) \<Rightarrow> (Some e, w1) | (None, w1) \<Rightarrow> wr y w1)"

definition writeAddress ::
  "(byte list \<Rightarrow> 'w \<Rightarrow> goerr option \<times> 'w) \<Rightarrow> addressParser \<Rightarrow> 'w \<Rightarrow> Address \<Rightarrow> goerr option \<times> 'w" where
  "writeAddress wr p writer address =
     (let tb = addrByteMap p (Family address) in
      if tb = afInvalid then (Some (ErrMsg ''unknown address family''), writer)
      else
        (case address of
           ipv4Address ip \<Rightarrow> write_two wr writer [tb] ip
         | ipv6Address ip \<Rightarrow> write_two wr writer [tb] ip
         | domainAddress domain \<Rightarrow>
             if isDomainTooLong domain
             then (Some (ErrMsg ''Super long domain is not supported''), writer)
             else write_two wr writer [tb, of_nat (length domain)] domain))"

definition WriteAddressPort ::
  "(byte list \<Rightarrow> 'w \<Rightarrow> goerr option \<times> 'w) \<Rightarrow> parser_option \<Rightarrow> 'w \<Rightarrow> Address \<Rightarrow> Port \<Rightarrow> goerr option \<times> 'w" where
  "WriteAddressPort wr p writer addr port =
     (if portFirst p then
        (case writePort wr writer port of
           (Some e, w1) \<Rightarrow> (Some e, w1)
         | (None, w1) \<Rightarrow> writeAddress wr (o_maps p) w1 addr)
      else
        (case writeAddress wr (o_maps p) writer addr of
           (Some e, w1) \<Rightarrow> (Some e, w1)
         | (None, w1) \<Rightarrow> writePort wr w1 port))"

section \<open>Writers\<close>

definition sink_wr :: "byte list \<Rightarrow> sink \<Rightarrow> goerr option \<times> sink" where
  "sink_wr bs w = (case io_Write bs w of (_, e, w') \<Rightarrow> (e, w'))"

definition buffer_wr :: "byte list \<Rightarrow> Buffer \<Rightarrow> goerr option \<times> Buffer" where
  "buffer_wr bs b = (case Buffer_Write b bs of (_, e, b') \<Rightarrow> (e, b'))"

section \<open>The wire format\<close>

fun address_bytes :: "addressParser \<Rightarrow> Address \<Rightarrow> byte list" where
  "address_bytes p (ipv4Address ip) = addrByteMap p AddressFamilyIPv4 # ip"
| "address_bytes p (ipv6Address ip) = addrByteMap p AddressFamilyIPv6 # ip"
| "address_bytes p (domainAddress d) = [addrByteMap p AddressFamilyDomain, of_nat (length d)] @ d"

definition address_port_bytes :: "parser_option \<Rightarrow> Address \<times> Port \<Rightarrow> byte list" where
  "address_port_bytes p ap =
     (case ap of (a, port) \<Rightarrow>
       if portFirst p then PutUint16 port @ address_bytes (o_maps p) a
       else address_bytes (o_maps p) a @ PutUint16 port)"

text \<open>
  Which parsers and addresses round trip: every family has a type byte below 16 that maps back
  to it; a domain has 1 to 255 valid characters and does not read as an IP.
\<close>

definition parser_ok :: "addressParser \<Rightarrow> bool" where
  "parser_ok p \<longleftrightarrow> typeParser p = None \<and>
     (\<forall>f. addrByteMap p f < 16 \<and> addrTypeMap p (unat (addrByteMap p f)) = Some f)"

fun sendable :: "Address \<Rightarrow> bool" where
  "sendable (domainAddress d) \<longleftrightarrow>
     d \<noteq> [] \<and> length d < 256 \<and> isValidDomain d \<and> \<not> (maybeIPPrefix (hd d) \<and> IsIP (Family (ParseAddress d)))"
| "sendable a \<longleftrightarrow> address_ok a"

lemma parser_ok_D:
  assumes "parser_ok p"
  shows "addrByteMap p f \<noteq> afInvalid" "\<not> 16 \<le> addrByteMap p f"
    "addrTypeMap p (unat (addrByteMap p f)) = Some f" "typeParser p = None"
proof -
  have "addrByteMap p f < 16" using assms by (simp add: parser_ok_def)
  then show "addrByteMap p f \<noteq> afInvalid" "\<not> 16 \<le> addrByteMap p f"
    by (auto simp: afInvalid_def)
qed (use assms in \<open>auto simp: parser_ok_def\<close>)

lemma length_address_bytes:
  "sendable a \<Longrightarrow> length (address_bytes p a) \<le> 257"
  by (cases a) auto

lemma length_address_port_bytes:
  "sendable a \<Longrightarrow> length (address_port_bytes p (a, port)) \<le> 259"
  using length_address_bytes [of a "o_maps p"] by (simp add: address_port_bytes_def)

subsection \<open>Writing\<close>

lemma sink_wr_ok: "sink_wr bs w = (None, w') \<Longrightarrow> sent w' = sent w @ bs"
  by (auto simp: sink_wr_def dest: io_Write_ok split: prod.splits)

lemma WriteAddressPort_sink:
  assumes "parser_ok (o_maps p)" "sendable a" "WriteAddressPort sink_wr p w a port = (None, w')"
  shows "sent w' = sent w @ address_port_bytes p (a, port)"
  using assms parser_ok_D [OF assms(1)]
  by (cases a)
    (auto simp: WriteAddressPort_def writePort_def writeAddress_def write_two_def Let_def
      address_port_bytes_def dest!: sink_wr_ok split: if_splits prod.splits option.splits)

text \<open>Writing into a buffer with enough room is appending.\<close>

definition appended :: "Buffer \<Rightarrow> byte list \<Rightarrow> Buffer \<Rightarrow> bool" where
  "appended b bs b' \<longleftrightarrow> buffer_wf b' \<and> content b' = content b @ bs \<and> room b' = room b - length bs \<and>
     b_UDP b' = b_UDP b \<and> b_start b' = b_start b"

lemma appended_refl [simp]: "buffer_wf b \<Longrightarrow> appended b [] b"
  by (simp add: appended_def)

lemma appended_trans:
  "appended b xs b1 \<Longrightarrow> appended b1 ys b2 \<Longrightarrow> appended b (xs @ ys) b2"
  by (simp add: appended_def)

lemma append_read_appended:
  "buffer_wf b \<Longrightarrow> length bs \<le> room b \<Longrightarrow> appended b bs (append_read b bs)"
  by (simp add: appended_def append_read_content append_read_wf append_read_room)
    (simp add: append_read_def)

lemma buffer_wr_ok:
  assumes "buffer_wf b" "length bs \<le> room b"
  shows "buffer_wr bs b = (None, append_read b bs)"
  using assms by (simp add: buffer_wr_def Buffer_Write_append)

lemma write_two_buffer:
  assumes "buffer_wf b" "length x + length y \<le> room b"
  shows "\<exists>b'. write_two buffer_wr b x y = (None, b') \<and> appended b (x @ y) b'"
proof -
  have x: "appended b x (append_read b x)" using assms by (simp add: append_read_appended)
  then have "appended (append_read b x) y (append_read (append_read b x) y)"
    using assms by (intro append_read_appended) (auto simp: appended_def)
  moreover have "buffer_wr y (append_read b x) = (None, append_read (append_read b x) y)"
    using x assms by (intro buffer_wr_ok) (auto simp: appended_def)
  ultimately show ?thesis
    using x assms appended_trans by (auto simp: write_two_def buffer_wr_ok)
qed

lemma writeAddress_buffer:
  assumes "parser_ok p" "sendable a" "buffer_wf b" "length (address_bytes p a) \<le> room b"
  shows "\<exists>b'. writeAddress buffer_wr p b a = (None, b') \<and> appended b (address_bytes p a) b'"
proof (cases a)
  case (ipv4Address ip)
  with assms parser_ok_D [OF assms(1)] write_two_buffer [of b "[addrByteMap p AddressFamilyIPv4]" ip]
  show ?thesis by (simp add: writeAddress_def)
next
  case (ipv6Address ip)
  with assms parser_ok_D [OF assms(1)] write_two_buffer [of b "[addrByteMap p AddressFamilyIPv6]" ip]
  show ?thesis by (simp add: writeAddress_def)
next
  case (domainAddress d)
  with assms parser_ok_D [OF assms(1)]
    write_two_buffer [of b "[addrByteMap p AddressFamilyDomain, of_nat (length d)]" d]
  show ?thesis by (simp add: writeAddress_def isDomainTooLong_def)
qed

lemma WriteAddressPort_buffer:
  assumes "parser_ok (o_maps p)" "sendable a" "buffer_wf b"
    "length (address_port_bytes p (a, port)) \<le> room b"
  obtains b' where "WriteAddressPort buffer_wr p b a port = (None, b')"
    "appended b (address_port_bytes p (a, port)) b'"
proof (cases "portFirst p")
  case True
  have 1: "appended b (PutUint16 port) (append_read b (PutUint16 port))"
    using assms True by (intro append_read_appended) (simp_all add: address_port_bytes_def)
  moreover have "buffer_wf (append_read b (PutUint16 port))"
    "length (address_bytes (o_maps p) a) \<le> room (append_read b (PutUint16 port))"
    using 1 assms(4) True by (auto simp: appended_def address_port_bytes_def)
  ultimately obtain b' where
    "writeAddress buffer_wr (o_maps p) (append_read b (PutUint16 port)) a = (None, b')"
    "appended b (PutUint16 port @ address_bytes (o_maps p) a) b'"
    using writeAddress_buffer [OF assms(1,2)] appended_trans by blast
  then show thesis
    using that [of b'] True assms
    by (auto simp: WriteAddressPort_def writePort_def buffer_wr_ok address_port_bytes_def)
next
  case False
  obtain b1 where b1: "writeAddress buffer_wr (o_maps p) b a = (None, b1)"
    "appended b (address_bytes (o_maps p) a) b1"
    using writeAddress_buffer [OF assms(1-3)] assms(4) False by (auto simp: address_port_bytes_def)
  then have room: "buffer_wf b1" "length (PutUint16 port) \<le> room b1"
    using assms(4) False by (auto simp: appended_def address_port_bytes_def)
  with b1 False that [of "append_read b1 (PutUint16 port)"] append_read_appended [OF room] appended_trans
  show thesis
    by (auto simp: WriteAddressPort_def writePort_def buffer_wr_ok address_port_bytes_def)
qed

subsection \<open>Reading\<close>

lemma read_exact:
  assumes "buffer_wf b" "k \<le> room b" "flat r = bs @ rest" "length bs = k" "0 < k"
  obtains b1 r1 where "Buffer_ReadFullFrom b r (int k) = Some (k, None, b1, r1)"
    "appended b bs b1" "flat r1 = rest" "fin r1 = fin r"
    "Buffer_BytesFrom b1 (- int k) = Some bs"
    "k = 1 \<Longrightarrow> Buffer_Byte b1 (Buffer_Len b1 - 1) = Some (hd bs)"
proof -
  obtain r1 where r1: "Buffer_ReadFullFrom b r (int k) = Some (k, None, append_read b bs, r1)"
    "flat r1 = rest" "fin r1 = fin r"
    using Buffer_ReadFullFrom_ok [of b "int k" r] assms by auto
  have ap: "appended b bs (append_read b bs)"
    using assms by (intro append_read_appended) auto
  then have wf: "buffer_wf (append_read b bs)" and c: "content (append_read b bs) = content b @ bs"
    by (auto simp: appended_def)
  have "Buffer_BytesFrom (append_read b bs) (- int k) = Some bs"
    using Buffer_BytesFrom_neg [OF wf, of k] c assms(4,5) by simp
  moreover have "Buffer_Byte (append_read b bs) (Buffer_Len (append_read b bs) - 1) = Some (hd bs)"
    if "k = 1"
  proof -
    have "Buffer_Len (append_read b bs) - 1 = int (length (content b))"
      using that assms(4) c by (simp add: Buffer_Len_content [OF wf])
    then show ?thesis
      using Buffer_Byte_content [OF wf, of "length (content b)"] c assms(4,5)
      by (cases bs) (simp_all add: nth_append)
  qed
  ultimately show thesis using that r1 ap by blast
qed

lemma readPort_ok:
  assumes "buffer_wf b" "2 \<le> room b" "flat r = PutUint16 port @ rest"
  obtains b1 r1 where "readPort b r = Some (Inr port, b1, r1)"
    "appended b (PutUint16 port) b1" "flat r1 = rest" "fin r1 = fin r"
proof -
  obtain b1 r1 where "Buffer_ReadFullFrom b r (int 2) = Some (2, None, b1, r1)"
    "appended b (PutUint16 port) b1" "flat r1 = rest" "fin r1 = fin r"
    "Buffer_BytesFrom b1 (- int 2) = Some (PutUint16 port)"
    by (rule read_exact [OF assms(1,2,3)]) auto
  with that show thesis by (simp add: readPort_def PortFromBytes_def Uint_Put_exact)
qed

lemma read_ip_ok:
  assumes "buffer_wf b" "k \<le> room b" "flat r = ip @ rest" "length ip = k" "0 < k"
    and "IPAddress ip = Some a"
  obtains b1 r1 where "read_ip (int k) b r = Some (Inr a, b1, r1)"
    "appended b ip b1" "flat r1 = rest" "fin r1 = fin r"
proof -
  obtain b1 r1 where "Buffer_ReadFullFrom b r (int k) = Some (k, None, b1, r1)"
    "appended b ip b1" "flat r1 = rest" "fin r1 = fin r"
    "Buffer_BytesFrom b1 (- int k) = Some ip"
    by (rule read_exact [OF assms(1-5)]) auto
  with that assms(6) show thesis by (simp add: read_ip_def)
qed

lemma read_domain_ok:
  assumes "buffer_wf b" "length d + 1 \<le> room b" "flat r = of_nat (length d) # d @ rest"
    and "sendable (domainAddress d)"
  obtains b1 r1 where "read_domain b r = Some (Inr (domainAddress d), b1, r1)"
    "appended b (of_nat (length d) # d) b1" "flat r1 = rest" "fin r1 = fin r"
proof -
  have d: "d \<noteq> []" "length d < 256" "isValidDomain d"
    "\<not> (maybeIPPrefix (hd d) \<and> IsIP (Family (ParseAddress d)))" using assms(4) by auto
  obtain b1 r1 where 1: "Buffer_ReadFullFrom b r (int 1) = Some (1, None, b1, r1)"
    "appended b [of_nat (length d)] b1" "flat r1 = d @ rest" "fin r1 = fin r"
    "Buffer_Byte b1 (Buffer_Len b1 - 1) = Some (of_nat (length d))"
    by (rule read_exact [of b 1 r "[of_nat (length d)]" "d @ rest"]) (use assms in auto)
  have wf: "buffer_wf b1" "length d \<le> room b1"
    using 1(2) assms(2) by (auto simp: appended_def)
  obtain b2 r2 where 2: "Buffer_ReadFullFrom b1 r1 (int (length d)) = Some (length d, None, b2, r2)"
    "appended b1 d b2" "flat r2 = rest" "fin r2 = fin r1"
    "Buffer_BytesFrom b2 (- int (length d)) = Some d"
    by (rule read_exact [OF wf 1(3) refl]) (use d in auto)
  have u: "uint (of_nat (length d) :: byte) = int (length d)"
    using d(2) by (simp add: unsigned_of_nat take_bit_nat_eq_self)
  show thesis
    using that [of b2 r2] 1 2 u d appended_trans [OF 1(2) 2(2)]
    by (cases d) (auto simp: read_domain_def Let_def DomainAddress_def)
qed

lemma readAddress_ok:
  assumes "parser_ok p" "sendable a" "buffer_wf b" "257 \<le> room b" "flat r = address_bytes p a @ rest"
  obtains b1 r1 where "readAddress p b r = Some (Inr a, b1, r1)"
    "appended b (address_bytes p a) b1" "flat r1 = rest" "fin r1 = fin r"
proof -
  note P = parser_ok_D [OF assms(1)]
  let ?tb = "addrByteMap p (Family a)"
  obtain tl where tl: "address_bytes p a = ?tb # tl" by (cases a) auto
  obtain b1 r1 where 1: "Buffer_ReadFullFrom b r (int 1) = Some (1, None, b1, r1)"
    "appended b [?tb] b1" "flat r1 = tl @ rest" "fin r1 = fin r"
    "Buffer_Byte b1 (Buffer_Len b1 - 1) = Some ?tb"
    by (rule read_exact [of b 1 r "[?tb]" "tl @ rest"]) (use assms tl in auto)
  have wf: "buffer_wf b1" "256 \<le> room b1"
    using 1(2) assms(4) by (auto simp: appended_def)
  obtain b2 r2 where 2: "appended b1 tl b2" "flat r2 = rest" "fin r2 = fin r1"
    and rest: "(case Family a of AddressFamilyIPv4 \<Rightarrow> read_ip 4 b1 r1 | AddressFamilyIPv6 \<Rightarrow> read_ip 16 b1 r1
      | AddressFamilyDomain \<Rightarrow> read_domain b1 r1) = Some (Inr a, b2, r2)"
  proof (cases a)
    case (ipv4Address ip)
    obtain b2 r2 where "read_ip (int 4) b1 r1 = Some (Inr a, b2, r2)"
      "appended b1 ip b2" "flat r2 = rest" "fin r2 = fin r1"
      by (rule read_ip_ok [of b1 4 r1 ip rest a])
        (use ipv4Address assms(2) tl 1(3) wf in \<open>simp_all add: IPAddress_def\<close>)
    with that [of b2 r2] ipv4Address tl show thesis by simp
  next
    case (ipv6Address ip)
    obtain b2 r2 where "read_ip (int 16) b1 r1 = Some (Inr a, b2, r2)"
      "appended b1 ip b2" "flat r2 = rest" "fin r2 = fin r1"
      by (rule read_ip_ok [of b1 16 r1 ip rest a])
        (use ipv6Address assms(2) tl 1(3) wf in \<open>simp_all add: IPAddress_def\<close>)
    with that [of b2 r2] ipv6Address tl show thesis by simp
  next
    case (domainAddress d)
    obtain b2 r2 where "read_domain b1 r1 = Some (Inr (domainAddress d), b2, r2)"
      "appended b1 (of_nat (length d) # d) b2" "flat r2 = rest" "fin r2 = fin r1"
      by (rule read_domain_ok [of b1 d r1 rest]) (use domainAddress assms(2) tl 1(3) wf in simp_all)
    with that [of b2 r2] domainAddress tl show thesis by simp
  qed
  have "readAddress p b r = Some (Inr a, b2, r2)"
    using 1(1,5) P(2) [of "Family a"] P(3) [of "Family a"] P(4) rest
    by (cases "Family a") (simp_all add: readAddress_def Let_def)
  then show thesis
    using that [of b2 r2] appended_trans [OF 1(2) 2(1)] 2 1(4) tl by simp
qed

lemma ReadAddressPort_ok:
  assumes "parser_ok (o_maps p)" "sendable a" "flat r = address_port_bytes p (a, port) @ rest"
  obtains r1 where "ReadAddressPort p None r = Some (Inr (a, port), r1)" "flat r1 = rest" "fin r1 = fin r"
proof (cases "portFirst p")
  case True
  then have fl: "flat r = PutUint16 port @ address_bytes (o_maps p) a @ rest"
    using assms(3) by (simp add: address_port_bytes_def)
  obtain b1 r1 where 1: "readPort fresh_buffer r = Some (Inr port, b1, r1)"
    "appended fresh_buffer (PutUint16 port) b1" "flat r1 = address_bytes (o_maps p) a @ rest" "fin r1 = fin r"
    by (rule readPort_ok [OF wf_new _ fl]) auto
  have wf: "buffer_wf b1" "257 \<le> room b1" using 1(2) by (auto simp: appended_def)
  obtain b2 r2 where "readAddress (o_maps p) b1 r1 = Some (Inr a, b2, r2)" "flat r2 = rest" "fin r2 = fin r1"
    by (rule readAddress_ok [OF assms(1,2) wf 1(3)])
  with 1 True that [of r2] show thesis by (simp add: ReadAddressPort_def)
next
  case False
  then have fl: "flat r = address_bytes (o_maps p) a @ PutUint16 port @ rest"
    using assms(3) by (simp add: address_port_bytes_def)
  obtain b1 r1 where 1: "readAddress (o_maps p) fresh_buffer r = Some (Inr a, b1, r1)"
    "appended fresh_buffer (address_bytes (o_maps p) a) b1" "flat r1 = PutUint16 port @ rest" "fin r1 = fin r"
    by (rule readAddress_ok [OF assms(1,2) wf_new _ fl]) auto
  have wf: "buffer_wf b1" "2 \<le> room b1"
    using 1(2) length_address_bytes [OF assms(2), of "o_maps p"] by (auto simp: appended_def)
  obtain b2 r2 where "readPort b1 r1 = Some (Inr port, b2, r2)" "flat r2 = rest" "fin r2 = fin r1"
    by (rule readPort_ok [OF wf 1(3)])
  with 1 False that [of r2] show thesis by (simp add: ReadAddressPort_def)
qed

subsection \<open>No panic\<close>

lemma read_any:
  assumes "buffer_wf b" "k \<le> room b"
  obtains (ok) b1 r1 where "Buffer_ReadFullFrom b r (int k) = Some (k, None, b1, r1)"
    "k \<le> length (flat r)" "appended b (take k (flat r)) b1"
  | (err) n e b1 r1 where "Buffer_ReadFullFrom b r (int k) = Some (n, Some e, b1, r1)"
proof -
  obtain bs e r1 where rd: "io_ReadFull k r = (bs, e, r1)" by (cases "io_ReadFull k r") auto
  have un: "Buffer_ReadFullFrom b r (int k) = Some (length bs, e, append_read b bs, r1)"
    using Buffer_ReadFullFrom_unfold [OF assms(1), of "int k" r] assms(2) rd by simp
  show thesis
  proof (cases e)
    case None
    with rd have "k \<le> length (flat r)" "bs = take k (flat r)" using io_ReadFull_None by blast+
    moreover have "appended b bs (append_read b bs)"
      using assms calculation by (intro append_read_appended) auto
    ultimately show thesis using un None ok by simp
  next
    case (Some x)
    with un err show thesis by simp
  qed
qed

lemma last_byte:
  assumes "appended b [x] b1"
  shows "Buffer_Byte b1 (Buffer_Len b1 - 1) = Some x"
proof -
  have wf: "buffer_wf b1" and c: "content b1 = content b @ [x]" using assms by (auto simp: appended_def)
  have "Buffer_Len b1 - 1 = int (length (content b))" using c by (simp add: Buffer_Len_content [OF wf])
  then show ?thesis using Buffer_Byte_content [OF wf, of "length (content b)"] c by (simp add: nth_append)
qed

text \<open>What a reading step may answer: never a panic, and on success a proper address.\<close>

definition good_read :: "nat \<Rightarrow> Buffer \<Rightarrow> ((goerr + Address) \<times> Buffer \<times> instream) option \<Rightarrow> bool" where
  "good_read n b x \<longleftrightarrow>
     (case x of None \<Rightarrow> False | Some (Inl _, _, _) \<Rightarrow> True
      | Some (Inr a, b1, _) \<Rightarrow> address_ok a \<and> buffer_wf b1 \<and> room b \<le> room b1 + n)"

lemma good_read_mono: "good_read n b x \<Longrightarrow> n \<le> m \<Longrightarrow> good_read m b x"
  by (auto simp: good_read_def split: option.splits sum.splits)

lemma good_read_step: "good_read n b1 x \<Longrightarrow> room b1 = room b - k \<Longrightarrow> good_read (n + k) b x"
  by (auto simp: good_read_def split: option.splits sum.splits)

lemma good_read_simps [simp]:
  "good_read n b (Some (Inl e, b1, r1))"
  "good_read n b (Some (Inr a, b1, r1)) \<longleftrightarrow> address_ok a \<and> buffer_wf b1 \<and> room b \<le> room b1 + n"
  by (simp_all add: good_read_def)

lemma read_ip_good:
  assumes "buffer_wf b" "k \<le> room b" "k = 4 \<or> k = 16"
  shows "good_read k b (read_ip (int k) b r)"
proof (cases rule: read_any [OF assms(1,2), of r, case_names ok err])
  case (ok b1 r1)
  have "Buffer_BytesFrom b1 (- int k) = Some (take k (flat r))"
    using ok Buffer_BytesFrom_neg [of b1 k] assms(3) by (auto simp: appended_def)
  moreover obtain a where "IPAddress (take k (flat r)) = Some a"
    using ok(2) assms(3) by (cases "v4_mapped (take k (flat r))") (auto simp: IPAddress_def)
  ultimately show ?thesis
    using ok IPAddress_ok by (auto simp: read_ip_def good_read_def appended_def)
qed (simp add: read_ip_def good_read_def)

lemma ParseAddress_ok: "address_ok (ParseAddress s)"
  by (auto simp: ParseAddress_def Let_def DomainAddress_def split: option.splits
      dest: IPAddress_ok ParseIP_length)

lemma BytesFrom_whole: "buffer_wf b \<Longrightarrow> Buffer_BytesFrom b 0 = Some (content b)"
  using Buffer_BytesFrom_nonneg [of b 0] by simp

lemma read_domain_good:
  assumes "buffer_wf b" "256 \<le> room b"
  shows "good_read 256 b (read_domain b r)"
proof -
  have r1: "1 \<le> room b" using assms(2) by simp
  show ?thesis
  proof (cases rule: read_any [OF assms(1) r1, of r, case_names ok err])
  case 2: (ok b1 r1)
  obtain x xs where fl: "flat r = x # xs" using 2(2) by (cases "flat r") auto
  with 2(3) have ap: "appended b [x] b1" by simp
  have wf: "buffer_wf b1" "room b1 = room b - 1" "content b1 = content b @ [x]"
    using ap by (auto simp: appended_def)
  have k: "unat x \<le> room b1" "uint x = int (unat x)" "unat x \<le> 255" using wf(2) assms(2) unsigned_less [of x, where 'a = nat]
    by simp_all
  show ?thesis
  proof (cases rule: read_any [OF wf(1) k(1), of r1, case_names ok err])
    case (ok b2 r2)
    let ?d = "if unat x = 0 then content b1 else take (unat x) (flat r1)"
    have "Buffer_BytesFrom b2 (- int (unat x)) = Some ?d"
      using ok(2,3) Buffer_BytesFrom_neg [of b2 "unat x"] BytesFrom_whole [of b2]
      by (cases "unat x = 0") (simp_all add: appended_def del: of_nat_unat)
    moreover obtain c cs where "?d = c # cs"
      using wf(3) ok(2) by (cases ?d) (auto split: if_splits)
    ultimately have "read_domain b r =
       (let domain = c # cs in
        if maybeIPPrefix c \<and> IsIP (Family (ParseAddress domain)) then Some (Inr (ParseAddress domain), b2, r2)
        else if \<not> isValidDomain domain then Some (Inl (ErrMsg ''invalid domain name''), b2, r2)
        else Some (Inr (DomainAddress domain), b2, r2))"
      using 2(1) ok(1) last_byte [OF ap] by (simp add: read_domain_def Let_def)
    moreover have "buffer_wf b2" "room b \<le> room b2 + 256"
      using ok(3) wf(2) k(3) by (auto simp: appended_def)
    ultimately show ?thesis
      using ParseAddress_ok by (simp add: Let_def DomainAddress_def)
  next
    case (err n e b2 r2)
    then show ?thesis
      using 2(1) last_byte [OF ap] by (simp add: read_domain_def)
  qed
  next
    case (err n e b1 r1)
    then show ?thesis by (simp add: read_domain_def good_read_def)
  qed
qed

lemma readAddress_good:
  assumes "buffer_wf b" "257 \<le> room b"
  shows "good_read 257 b (readAddress p b r)"
proof -
  have r1: "1 \<le> room b" using assms(2) by simp
  show ?thesis
  proof (cases rule: read_any [OF assms(1) r1, of r, case_names ok err])
    case (ok b1 r1)
    obtain x xs where fl: "flat r = x # xs" using ok(2) by (cases "flat r") auto
    with ok(3) have ap: "appended b [x] b1" by simp
    then have wf: "buffer_wf b1" "room b1 = room b - 1" by (auto simp: appended_def)
    have room: "4 \<le> room b1" "16 \<le> room b1" "256 \<le> room b1" using wf(2) assms(2) by simp_all
    have "good_read 257 b (read_ip 4 b1 r1)" "good_read 257 b (read_ip 16 b1 r1)"
      "good_read 257 b (read_domain b1 r1)"
      using good_read_step [OF read_ip_good [OF wf(1) room(1), of r1] wf(2)]
        good_read_step [OF read_ip_good [OF wf(1) room(2), of r1] wf(2)]
        good_read_step [OF read_domain_good [OF wf(1) room(3), of r1] wf(2)]
      by (simp_all add: good_read_mono)
    then show ?thesis
      using ok(1) last_byte [OF ap]
      by (simp add: readAddress_def Let_def split: option.splits AddressFamily.splits)
  next
    case (err n e b1 r1)
    then show ?thesis by (simp add: readAddress_def good_read_def)
  qed
qed

lemma readPort_good:
  assumes "buffer_wf b" "2 \<le> room b"
  obtains (ok) port b1 r1 where "readPort b r = Some (Inr port, b1, r1)" "buffer_wf b1" "room b1 = room b - 2"
  | (err) e b1 r1 where "readPort b r = Some (Inl e, b1, r1)"
proof (cases rule: read_any [OF assms, of r, case_names rok rerr])
  case (rok b1 r1)
  moreover have "Buffer_BytesFrom b1 (- 2) = Some (take 2 (flat r))"
    using rok Buffer_BytesFrom_neg [of b1 2] by (simp add: appended_def)
  ultimately show thesis
    using ok by (auto simp: readPort_def appended_def)
next
  case (rerr n e b1 r1)
  then show thesis using err by (simp add: readPort_def)
qed

section \<open>Properties\<close>

text \<open>
  An address and port written by the serializer, port first or port last, are read back as
  they were, and the reader stands behind them, however the stream is cut into reads.
\<close>

theorem address_port_roundtrip:
  assumes "parser_ok (o_maps p)" "sendable a" "sent w = []"
    and "WriteAddressPort sink_wr p w a port = (None, w')" "flat r = sent w' @ rest"
  shows "\<exists>r'. ReadAddressPort p None r = Some (Inr (a, port), r') \<and> flat r' = rest"
  using WriteAddressPort_sink [OF assms(1,2,4)] ReadAddressPort_ok [OF assms(1,2), of r port rest] assms(3,5)
  by fastforce

definition demo_parser :: parser_option where
  "demo_parser = the (NewAddressParser [AddressFamilyByte 1 AddressFamilyIPv4,
     AddressFamilyByte 3 AddressFamilyDomain, AddressFamilyByte 4 AddressFamilyIPv6])"

lemma demo_parser_ok: "parser_ok (o_maps demo_parser)"
proof -
  have "addrByteMap (o_maps demo_parser) f < 16 \<and>
     addrTypeMap (o_maps demo_parser) (unat (addrByteMap (o_maps demo_parser) f)) = Some f" for f
    by (cases f) (simp_all add: demo_parser_def NewAddressParser_def)
  then show ?thesis by (simp add: parser_ok_def demo_parser_def NewAddressParser_def)
qed

theorem address_port_roundtrip_witness:
  "\<exists>bs r'. ReadAddressPort demo_parser None \<lparr>chunks = [take 2 bs, drop 2 bs], fin = EOF\<rparr> =
     Some (Inr (ipv4Address [10, 0, 0, 1], 8080), r') \<and> flat r' = []"
proof -
  have "addrByteMap (o_maps demo_parser) AddressFamilyIPv4 = 1" "portFirst demo_parser = False"
    by (simp_all add: demo_parser_def NewAddressParser_def)
  then obtain w' where "WriteAddressPort sink_wr demo_parser fresh_sink (ipv4Address [10, 0, 0, 1]) 8080 = (None, w')"
    by (simp add: WriteAddressPort_def writeAddress_def writePort_def write_two_def sink_wr_def
        io_Write_no_faults afInvalid_def)
  from address_port_roundtrip [OF demo_parser_ok _ _ this,
      of "\<lparr>chunks = [take 2 (sent w'), drop 2 (sent w')], fin = EOF\<rparr>" "[]"]
  show ?thesis by auto
qed

text \<open>
  No input makes the address parser panic, whatever type bytes it is configured with, and
  an address it answers is a proper one: 4 bytes, 16 bytes that are not a mapped IPv4 address,
  or a domain.
\<close>

theorem ReadAddressPort_safe:
  "\<exists>res r'. ReadAddressPort p None r = Some (res, r') \<and> (case res of Inl _ \<Rightarrow> True | Inr (a, port) \<Rightarrow> address_ok a)"
proof (cases "portFirst p")
  case True
  show ?thesis
  proof (cases rule: readPort_good [OF wf_new, of "[]" r, case_names room ok err])
    case room
    then show ?case by simp
  next
    case (ok port b1 r1)
    with readAddress_good [of b1 "o_maps p" r1] True show ?thesis
      by (auto simp: ReadAddressPort_def good_read_def split: option.splits sum.splits)
  next
    case (err e b1 r1)
    with True show ?thesis by (auto simp: ReadAddressPort_def)
  qed
next
  case False
  show ?thesis
  proof (cases "readAddress (o_maps p) fresh_buffer r")
    case None
    with readAddress_good [of fresh_buffer "o_maps p" r] show ?thesis by (simp add: good_read_def)
  next
    case (Some x)
    obtain res b1 r1 where x: "x = (res, b1, r1)" by (cases x)
    show ?thesis
    proof (cases res)
      case (Inl e)
      with False Some x show ?thesis by (simp add: ReadAddressPort_def)
    next
      case (Inr a)
      with Some x readAddress_good [of fresh_buffer "o_maps p" r]
      have g: "address_ok a" "buffer_wf b1" "2 \<le> room b1" by (auto simp: good_read_def)
      show ?thesis
        by (cases rule: readPort_good [OF g(2,3), of r1])
          (use False Some x Inr g(1) in \<open>auto simp: ReadAddressPort_def\<close>)
    qed
  qed
qed

end
