(* ===== verification/Mux_Frame.thy ===== *)
theory Mux_Frame
  imports Address_Parser
begin

unbundle bit_operations_syntax

text \<open>
  \<^verbatim>\<open>common/mux/frame.go\<close>: the metadata that starts every frame of the multiplexer, with
  \<^verbatim>\<open>common/bitmask/byte.go\<close> and \<^verbatim>\<open>common/serial/serial.go\<close>. \<open>None\<close> is a panic (\<^verbatim>\<open>Extend\<close> beyond the
  buffer, \<^verbatim>\<open>common.Must\<close> on an error, a nil address).
\<close>

section \<open>Bit masks and integers on streams\<close>

definition Byte_Has :: "byte \<Rightarrow> byte \<Rightarrow> bool" where
  "Byte_Has b bb \<longleftrightarrow> b AND bb \<noteq> 0"

definition Byte_Set :: "byte \<Rightarrow> byte \<Rightarrow> byte" where
  "Byte_Set b bb = b OR bb"

definition Byte_Clear :: "byte \<Rightarrow> byte \<Rightarrow> byte" where
  "Byte_Clear b bb = b AND NOT bb"

definition Byte_Toggle :: "byte \<Rightarrow> byte \<Rightarrow> byte" where
  "Byte_Toggle b bb = b XOR bb"

definition ReadUint16 :: "instream \<Rightarrow> (goerr + u16) \<times> instream" where
  "ReadUint16 reader =
     (case io_ReadFull 2 reader of
        (_, Some e, r1) \<Rightarrow> (Inl e, r1)
      | (bs, None, r1) \<Rightarrow> (Inr (Uint16 bs), r1))"

definition WriteUint16 :: "sink \<Rightarrow> u16 \<Rightarrow> nat \<times> goerr option \<times> sink" where
  "WriteUint16 w value = io_Write (PutUint16 value) w"

definition WriteUint64 :: "sink \<Rightarrow> u64 \<Rightarrow> nat \<times> goerr option \<times> sink" where
  "WriteUint64 w value = io_Write (PutUint64 value) w"

section \<open>Frame metadata\<close>

definition SessionStatusNew :: byte where "SessionStatusNew = 0x01"
definition SessionStatusKeep :: byte where "SessionStatusKeep = 0x02"
definition SessionStatusEnd :: byte where "SessionStatusEnd = 0x03"
definition SessionStatusKeepAlive :: byte where "SessionStatusKeepAlive = 0x04"

definition OptionData :: byte where "OptionData = 0x01"
definition OptionError :: byte where "OptionError = 0x02"

definition TargetNetworkTCP :: byte where "TargetNetworkTCP = 0x01"
definition TargetNetworkUDP :: byte where "TargetNetworkUDP = 0x02"

definition addrParser :: parser_option where
  "addrParser = the (NewAddressParser
     [AddressFamilyByte 1 AddressFamilyIPv4, AddressFamilyByte 2 AddressFamilyDomain,
      AddressFamilyByte 3 AddressFamilyIPv6, PortThenAddress])"

record Inbound =
  in_Source :: Destination
  in_Local :: Destination

record FrameMetadata =
  fm_Target :: Destination
  fm_SessionID :: u16
  fm_Option :: byte
  fm_SessionStatus :: byte
  fm_GlobalID :: "byte list"
  fm_Inbound :: "Inbound option"

subsection \<open>Writing\<close>

definition must_WriteByte :: "byte \<Rightarrow> Buffer \<Rightarrow> Buffer option" where
  "must_WriteByte x b = (case Buffer_WriteByte b x of (Some e, _) \<Rightarrow> None | (None, b') \<Rightarrow> Some b')"

text \<open>\<^verbatim>\<open>addrParser.WriteAddressPort(b, d.Address, d.Port)\<close>.\<close>

definition write_dest :: "Destination \<Rightarrow> Buffer \<Rightarrow> (goerr option \<times> Buffer) option" where
  "write_dest d b =
     (case d_Address d of
        None \<Rightarrow> None
      | Some a \<Rightarrow> Some (WriteAddressPort buffer_wr addrParser b a (d_Port d)))"

definition tcp_or_udp :: "Destination \<Rightarrow> bool" where
  "tcp_or_udp d \<longleftrightarrow> d_Network d = Network_TCP \<or> d_Network d = Network_UDP"

text \<open>The network byte \<^verbatim>\<open>byte(Network - 1)\<close> and the address of the source or local end.\<close>

definition write_end :: "Destination \<Rightarrow> Buffer \<Rightarrow> (goerr option \<times> Buffer) option" where
  "write_end d b =
     (case must_WriteByte (of_nat (Network_num (d_Network d) - 1)) b of
        None \<Rightarrow> None
      | Some b1 \<Rightarrow> write_dest d b1)"

definition write_inbound :: "Inbound \<Rightarrow> Buffer \<Rightarrow> (goerr option \<times> Buffer) option" where
  "write_inbound i b =
     (if tcp_or_udp (in_Source i) then
        (case write_end (in_Source i) b of
           None \<Rightarrow> None
         | Some (Some e, b1) \<Rightarrow> Some (Some e, b1)
         | Some (None, b1) \<Rightarrow>
             if tcp_or_udp (in_Local i) then write_end (in_Local i) b1 else Some (None, b1))
      else Some (None, b))"

definition write_target :: "FrameMetadata \<Rightarrow> Buffer \<Rightarrow> (goerr option \<times> Buffer) option" where
  "write_target f b =
     (case (if d_Network (fm_Target f) = Network_TCP then must_WriteByte TargetNetworkTCP b
            else if d_Network (fm_Target f) = Network_UDP then must_WriteByte TargetNetworkUDP b
            else Some b) of
        None \<Rightarrow> None
      | Some b1 \<Rightarrow>
          (case write_dest (fm_Target f) b1 of
             None \<Rightarrow> None
           | Some (Some e, b2) \<Rightarrow> Some (Some e, b2)
           | Some (None, b2) \<Rightarrow>
               (case fm_Inbound f of
                  Some i \<Rightarrow> write_inbound i b2
                | None \<Rightarrow>
                    if b_UDP b2 \<noteq> None then Some (None, snd (snd (Buffer_Write b2 (fm_GlobalID f))))
                    else Some (None, b2))))"

text \<open>The address of a UDP packet of a running session; errors are ignored.\<close>

definition write_udp :: "Destination \<Rightarrow> Buffer \<Rightarrow> Buffer option" where
  "write_udp u b =
     (case write_dest u (snd (Buffer_WriteByte b TargetNetworkUDP)) of
        None \<Rightarrow> None
      | Some (_, b') \<Rightarrow> Some b')"

definition meta_body :: "FrameMetadata \<Rightarrow> Buffer \<Rightarrow> (goerr option \<times> Buffer) option" where
  "meta_body f b =
     (if fm_SessionStatus f = SessionStatusNew then write_target f b
      else
        (case b_UDP b of
           None \<Rightarrow> Some (None, b)
         | Some u \<Rightarrow> map_option (Pair None) (write_udp u b)))"

text \<open>
  \<open>put_at pos\<close> writes through a slice that starts at array position \<open>pos\<close>: \<^verbatim>\<open>lenBytes\<close> and
  \<^verbatim>\<open>sessionBytes\<close> alias the buffer's array.
\<close>

definition put_at :: "nat \<Rightarrow> byte list \<Rightarrow> Buffer \<Rightarrow> Buffer" where
  "put_at pos bs b = b\<lparr>b_v := blit (b_v b) pos bs\<rparr>"

definition WriteTo :: "FrameMetadata \<Rightarrow> Buffer \<Rightarrow> (goerr option \<times> Buffer) option" where
  "WriteTo f b =
     do {
       b1 \<leftarrow> Buffer_Extend b 2;
       let len0 = Buffer_Len b1;
       b2 \<leftarrow> Buffer_Extend b1 2;
       let b3 = put_at (nat (b_end b1)) (PutUint16 (fm_SessionID f)) b2;
       b4 \<leftarrow> must_WriteByte (fm_SessionStatus f) b3;
       b5 \<leftarrow> must_WriteByte (fm_Option f) b4;
       (e, b6) \<leftarrow> meta_body f b5;
       (case e of
          Some err \<Rightarrow> Some (Some err, b6)
        | None \<Rightarrow>
            (let len1 = Buffer_Len b6
             in Some (None, put_at (nat (b_end b)) (PutUint16 (of_int (len1 - len0))) b6)))
     }"

subsection \<open>Reading\<close>

text \<open>A buffer as a reader, and the buffer after \<open>r\<close> is what is left of it.\<close>

definition buffer_stream :: "Buffer \<Rightarrow> instream" where
  "buffer_stream b = \<lparr>chunks = (if content b = [] then [] else [content b]), fin = EOF\<rparr>"

definition read_to :: "Buffer \<Rightarrow> instream \<Rightarrow> Buffer" where
  "read_to b r =
     (if flat r = [] then Buffer_Clear b
      else b\<lparr>b_start := i32 (b_start b + (Buffer_Len b - int (length (flat r))))\<rparr>)"

text \<open>A destination read from the front of \<open>b\<close>; \<open>msg\<close> and \<open>msg'\<close> are the two errors.\<close>

definition read_dest ::
  "string \<Rightarrow> string \<Rightarrow> byte \<Rightarrow> Buffer \<Rightarrow> ((goerr + Destination) \<times> Buffer) option" where
  "read_dest msg msg' network b =
     (case ReadAddressPort addrParser None (buffer_stream b) of
        None \<Rightarrow> None
      | Some (Inl e, r) \<Rightarrow> Some (Inl (ErrMsg msg), read_to b r)
      | Some (Inr (addr, port), r) \<Rightarrow>
          Some (if network = TargetNetworkTCP then Inr (TCPDestination addr port)
                else if network = TargetNetworkUDP then Inr (UDPDestination addr port)
                else Inl (ErrMsg msg'), read_to b r))"

definition zero_Inbound :: Inbound where
  "zero_Inbound = \<lparr>in_Source = zero_Destination, in_Local = zero_Destination\<rparr>"

definition read_local :: "FrameMetadata \<Rightarrow> Inbound \<Rightarrow> Buffer \<Rightarrow> (goerr option \<times> FrameMetadata \<times> Buffer) option" where
  "read_local f i b =
     (if Buffer_Len b = 0 then Some (None, f, b)
      else
        (case Buffer_Byte b 0 of
           None \<Rightarrow> None
         | Some network \<Rightarrow>
             if network = 0 then Some (None, f, b)
             else
               (case read_dest ''reading local: failed to parse address and port''
                       ''reading local: unknown network type'' network (Buffer_Advance b 1) of
                  None \<Rightarrow> None
                | Some (Inl e, b1) \<Rightarrow> Some (Some e, f, b1)
                | Some (Inr d, b1) \<Rightarrow> Some (None, f\<lparr>fm_Inbound := Some (i\<lparr>in_Local := d\<rparr>)\<rparr>, b1))))"

definition read_inbound :: "FrameMetadata \<Rightarrow> Buffer \<Rightarrow> (goerr option \<times> FrameMetadata \<times> Buffer) option" where
  "read_inbound f0 b =
     (let f = f0\<lparr>fm_Inbound := Some zero_Inbound\<rparr> in
      if Buffer_Len b = 0 then Some (None, f, b)
      else
        (case Buffer_Byte b 0 of
           None \<Rightarrow> None
         | Some network \<Rightarrow>
             if network = 0 then Some (None, f, b)
             else
               (case read_dest ''reading source: failed to parse address and port''
                       ''reading source: unknown network type'' network (Buffer_Advance b 1) of
                  None \<Rightarrow> None
                | Some (Inl e, b1) \<Rightarrow> Some (Some e, f, b1)
                | Some (Inr d, b1) \<Rightarrow>
                    read_local (f\<lparr>fm_Inbound := Some (zero_Inbound\<lparr>in_Source := d\<rparr>)\<rparr>)
                      (zero_Inbound\<lparr>in_Source := d\<rparr>) b1)))"

definition read_rest :: "FrameMetadata \<Rightarrow> bool \<Rightarrow> Buffer \<Rightarrow> (goerr option \<times> FrameMetadata \<times> Buffer) option" where
  "read_rest f readSourceAndLocal b =
     (if fm_SessionStatus f = SessionStatusNew \<and> readSourceAndLocal then read_inbound f b
      else if fm_SessionStatus f = SessionStatusNew \<and> Byte_Has (fm_Option f) OptionData \<and>
        d_Network (fm_Target f) = Network_UDP \<and> Buffer_Len b \<ge> 8
      then
        (case Buffer_Bytes b of
           None \<Rightarrow> None
         | Some bs \<Rightarrow> Some (None, f\<lparr>fm_GlobalID := take 8 bs @ drop 8 (fm_GlobalID f)\<rparr>, b))
      else Some (None, f, b))"

definition has_target :: "byte \<Rightarrow> Buffer \<Rightarrow> bool" where
  "has_target status b \<longleftrightarrow>
     status = SessionStatusNew \<or>
     (status = SessionStatusKeep \<and> Buffer_Len b > 4 \<and> Buffer_Byte b 4 = Some TargetNetworkUDP)"

definition UnmarshalFromBuffer ::
  "FrameMetadata \<Rightarrow> Buffer \<Rightarrow> bool \<Rightarrow> (goerr option \<times> FrameMetadata \<times> Buffer) option" where
  "UnmarshalFromBuffer f0 b readSourceAndLocal =
     (if Buffer_Len b < 4 then Some (Some (ErrMsg ''insufficient buffer''), f0, b)
      else
        do {
          sid \<leftarrow> Buffer_BytesTo b 2;
          status \<leftarrow> Buffer_Byte b 2;
          opt \<leftarrow> Buffer_Byte b 3;
          let f = f0\<lparr>fm_SessionID := Uint16 sid, fm_SessionStatus := status, fm_Option := opt,
                     fm_Target := (fm_Target f0)\<lparr>d_Network := Network_Unknown\<rparr>\<rparr>;
          (if has_target status b then
             if Buffer_Len b < 8 then Some (Some (ErrMsg ''insufficient buffer''), f, b)
             else
               do {
                 network \<leftarrow> Buffer_Byte b 4;
                 (res, b1) \<leftarrow> read_dest ''failed to parse address and port'' ''unknown network type''
                                network (Buffer_Advance b 5);
                 (case res of
                    Inl e \<Rightarrow> Some (Some e, f, b1)
                  | Inr d \<Rightarrow> read_rest (f\<lparr>fm_Target := d\<rparr>) readSourceAndLocal b1)
               }
           else read_rest f readSourceAndLocal b)
        })"

definition Unmarshal ::
  "FrameMetadata \<Rightarrow> instream \<Rightarrow> bool \<Rightarrow> (goerr option \<times> FrameMetadata \<times> instream) option" where
  "Unmarshal f reader readSourceAndLocal =
     (case ReadUint16 reader of
        (Inl e, r1) \<Rightarrow> Some (Some e, f, r1)
      | (Inr metaLen, r1) \<Rightarrow>
          if metaLen > 512 then Some (Some (ErrMsg ''invalid metalen''), f, r1)
          else
            (case Buffer_ReadFullFrom fresh_buffer r1 (uint metaLen) of
               None \<Rightarrow> None
             | Some (_, Some e, _, r2) \<Rightarrow> Some (Some e, f, r2)
             | Some (_, None, b, r2) \<Rightarrow>
                 map_option (\<lambda>(e, f', b'). (e, f', r2)) (UnmarshalFromBuffer f b readSourceAndLocal)))"

section \<open>What is written\<close>

lemma addrParser_ok: "parser_ok (o_maps addrParser)"
proof -
  have "addrByteMap (o_maps addrParser) f < 16 \<and>
     addrTypeMap (o_maps addrParser) (unat (addrByteMap (o_maps addrParser) f)) = Some f" for f
    by (cases f) (simp_all add: addrParser_def NewAddressParser_def)
  then show ?thesis by (simp add: parser_ok_def addrParser_def NewAddressParser_def)
qed

definition dest_ok :: "Destination \<Rightarrow> bool" where
  "dest_ok d \<longleftrightarrow> tcp_or_udp d \<and> (case d_Address d of None \<Rightarrow> False | Some a \<Rightarrow> sendable a)"

definition dest_bytes :: "Destination \<Rightarrow> byte list" where
  "dest_bytes d = address_port_bytes addrParser (the (d_Address d), d_Port d)"

definition net_byte :: "Destination \<Rightarrow> byte" where
  "net_byte d = (if d_Network d = Network_TCP then TargetNetworkTCP else TargetNetworkUDP)"

text \<open>\<open>emits u op bs\<close>: on every buffer with enough room and UDP address \<open>u\<close>, \<open>op\<close> appends \<open>bs\<close>.\<close>

definition emits ::
  "Destination option \<Rightarrow> (Buffer \<Rightarrow> (goerr option \<times> Buffer) option) \<Rightarrow> byte list \<Rightarrow> bool" where
  "emits u opn bs \<longleftrightarrow>
     (\<forall>b. buffer_wf b \<longrightarrow> b_UDP b = u \<longrightarrow> length bs \<le> room b \<longrightarrow>
        (\<exists>b'. opn b = Some (None, b') \<and> appended b bs b'))"

lemma emitsI:
  "(\<And>b. buffer_wf b \<Longrightarrow> b_UDP b = u \<Longrightarrow> length bs \<le> room b \<Longrightarrow>
     \<exists>b'. opn b = Some (None, b') \<and> appended b bs b') \<Longrightarrow> emits u opn bs"
  by (simp add: emits_def)

lemma emitsE:
  assumes "emits u opn bs" "buffer_wf b" "b_UDP b = u" "length bs \<le> room b"
  obtains b' where "opn b = Some (None, b')" "appended b bs b'"
  using assms by (auto simp: emits_def)

lemma emits_seq:
  assumes "emits u f xs" "emits u g ys"
    and "\<And>b b'. f b = Some (None, b') \<Longrightarrow> h b = g b'"
  shows "emits u h (xs @ ys)"
proof (rule emitsI)
  fix b
  assume b: "buffer_wf b" "b_UDP b = u" "length (xs @ ys) \<le> room b"
  obtain b1 where b1: "f b = Some (None, b1)" "appended b xs b1"
    using emitsE [OF assms(1) b(1,2)] b(3) by auto
  have "buffer_wf b1" "b_UDP b1 = u" "length ys \<le> room b1" using b1(2) b by (auto simp: appended_def)
  then obtain b2 where b2: "g b1 = Some (None, b2)" "appended b1 ys b2"
    by (rule emitsE [OF assms(2)])
  with b1 assms(3) [OF b1(1)] appended_trans
  show "\<exists>b'. h b = Some (None, b') \<and> appended b (xs @ ys) b'" by auto
qed

lemma must_WriteByte_ok:
  assumes "buffer_wf b" "1 \<le> room b"
  obtains b' where "must_WriteByte x b = Some b'" "appended b [x] b'"
  using assms append_read_appended [of b "[x]"]
  by (auto simp: must_WriteByte_def Buffer_WriteByte_append)

lemma emits_byte: "emits u (\<lambda>b. map_option (Pair None) (must_WriteByte x b)) [x]"
proof (rule emitsI)
  fix b
  assume "buffer_wf b" "length [x] \<le> room b"
  then obtain b' where "must_WriteByte x b = Some b'" "appended b [x] b'"
    using must_WriteByte_ok [of b x] by auto
  then show "\<exists>b'. map_option (Pair None) (must_WriteByte x b) = Some (None, b') \<and> appended b [x] b'"
    by simp
qed

lemma emits_dest: "dest_ok d \<Longrightarrow> emits u (write_dest d) (dest_bytes d)"
  by (rule emitsI)
    (auto simp: dest_ok_def write_dest_def dest_bytes_def split: option.splits
      intro: WriteAddressPort_buffer [OF addrParser_ok])

lemma net_byte_num: "tcp_or_udp d \<Longrightarrow> of_nat (Network_num (d_Network d) - 1) = net_byte d"
  by (auto simp: tcp_or_udp_def net_byte_def TargetNetworkTCP_def TargetNetworkUDP_def)

lemma emits_end: "dest_ok d \<Longrightarrow> emits u (write_end d) ([net_byte d] @ dest_bytes d)"
  by (rule emits_seq [OF emits_byte emits_dest])
    (auto simp: write_end_def net_byte_num [simplified] dest_ok_def)

definition inbound_bytes :: "Inbound \<Rightarrow> byte list" where
  "inbound_bytes i =
     ([net_byte (in_Source i)] @ dest_bytes (in_Source i)) @ [net_byte (in_Local i)] @ dest_bytes (in_Local i)"

lemma emits_inbound:
  assumes "dest_ok (in_Source i)" "dest_ok (in_Local i)"
  shows "emits u (write_inbound i) (inbound_bytes i)"
  unfolding inbound_bytes_def
  by (rule emits_seq [OF emits_end [OF assms(1)] emits_end [OF assms(2)]])
    (use assms in \<open>simp add: write_inbound_def dest_ok_def\<close>)

definition new_tail :: "FrameMetadata \<Rightarrow> Destination option \<Rightarrow> byte list" where
  "new_tail f u =
     (case fm_Inbound f of
        Some i \<Rightarrow> inbound_bytes i
      | None \<Rightarrow> if u \<noteq> None then fm_GlobalID f else [])"

definition inbound_ok :: "Inbound option \<Rightarrow> bool" where
  "inbound_ok i \<longleftrightarrow> (case i of None \<Rightarrow> True | Some i \<Rightarrow> dest_ok (in_Source i) \<and> dest_ok (in_Local i))"

lemma emits_tail:
  assumes "inbound_ok (fm_Inbound f)"
  shows "emits u (\<lambda>b. case fm_Inbound f of
                  Some i \<Rightarrow> write_inbound i b
                | None \<Rightarrow>
                    if b_UDP b \<noteq> None then Some (None, snd (snd (Buffer_Write b (fm_GlobalID f))))
                    else Some (None, b)) (new_tail f u)"
proof (cases "fm_Inbound f")
  case (Some i)
  with assms emits_inbound [of i u] show ?thesis by (simp add: new_tail_def inbound_ok_def)
next
  case None
  show ?thesis
    by (rule emitsI)
      (auto simp: None new_tail_def Buffer_Write_append intro!: append_read_appended split: if_splits)
qed

lemma emits_target:
  assumes "dest_ok (fm_Target f)" "inbound_ok (fm_Inbound f)"
  shows "emits u (write_target f) ([net_byte (fm_Target f)] @ dest_bytes (fm_Target f) @ new_tail f u)"
proof -
  let ?tail = "\<lambda>b. case fm_Inbound f of
                  Some i \<Rightarrow> write_inbound i b
                | None \<Rightarrow>
                    if b_UDP b \<noteq> None then Some (None, snd (snd (Buffer_Write b (fm_GlobalID f))))
                    else Some (None, b)"
  let ?dt = "\<lambda>b. case write_dest (fm_Target f) b of None \<Rightarrow> None
     | Some (Some e, b2) \<Rightarrow> Some (Some e, b2) | Some (None, b2) \<Rightarrow> ?tail b2"
  have "emits u ?dt (dest_bytes (fm_Target f) @ new_tail f u)"
    by (rule emits_seq [OF emits_dest [OF assms(1)] emits_tail [OF assms(2)]]) simp
  from emits_seq [OF emits_byte this] show ?thesis
    by (rule meta_mp) (use assms(1) in \<open>auto simp: write_target_def dest_ok_def tcp_or_udp_def net_byte_def\<close>)
qed

definition meta_tail :: "FrameMetadata \<Rightarrow> Destination option \<Rightarrow> byte list" where
  "meta_tail f u =
     (if fm_SessionStatus f = SessionStatusNew
      then [net_byte (fm_Target f)] @ dest_bytes (fm_Target f) @ new_tail f u
      else (case u of None \<Rightarrow> [] | Some d \<Rightarrow> [TargetNetworkUDP] @ dest_bytes d))"

definition meta_ok :: "FrameMetadata \<Rightarrow> Destination option \<Rightarrow> bool" where
  "meta_ok f u \<longleftrightarrow>
     (if fm_SessionStatus f = SessionStatusNew
      then dest_ok (fm_Target f) \<and> inbound_ok (fm_Inbound f) \<and> length (fm_GlobalID f) = 8
      else (case u of None \<Rightarrow> True | Some d \<Rightarrow> dest_ok d))"

lemma emits_body:
  assumes "meta_ok f u"
  shows "emits u (meta_body f) (meta_tail f u)"
proof (cases "fm_SessionStatus f = SessionStatusNew")
  case True
  with assms emits_target [of f u] show ?thesis
    by (simp add: meta_ok_def meta_tail_def meta_body_def emits_def)
next
  case False
  show ?thesis
  proof (cases u)
    case None
    with False show ?thesis by (simp add: emits_def meta_body_def meta_tail_def)
  next
    case (Some d)
    with assms False have d: "dest_ok d" by (simp add: meta_ok_def)
    have "emits u (\<lambda>b. case write_dest d b of None \<Rightarrow> None | Some (_, b') \<Rightarrow> Some (None, b')) (dest_bytes d)"
      by (rule emitsI) (use emits_dest [OF d, of u] in \<open>auto simp: emits_def\<close>)
    then have "emits u (\<lambda>b. map_option (Pair None) (write_udp d b)) ([TargetNetworkUDP] @ dest_bytes d)"
      by (rule emits_seq [OF emits_byte])
        (auto simp: write_udp_def must_WriteByte_def split: option.splits prod.splits)
    with False Some show ?thesis by (simp add: emits_def meta_body_def meta_tail_def)
  qed
qed

text \<open>Writing through an alias into the part that was appended.\<close>

lemma b_end_content: "buffer_wf b \<Longrightarrow> nat (b_end b) = nat (b_start b) + length (content b)"
  using length_content [of b] by (auto simp: buffer_wf_def)

lemma put_at_appended:
  assumes "buffer_wf b" "appended b (xs @ ys @ zs) b'" "length ys' = length ys"
    and "pos = nat (b_end b) + length xs"
  shows "appended b (xs @ ys' @ zs) (put_at pos ys' b')"
proof -
  let ?c = "content b @ xs @ ys @ zs"
  have wf: "buffer_wf b'" and c: "content b' = ?c" and st: "b_start b' = b_start b"
    using assms(2) by (auto simp: appended_def)
  define p where "p = nat (b_start b)"
  have pos: "pos = p + length (content b @ xs)"
    using assms(4) b_end_content [OF assms(1)] by (simp add: p_def)
  have v: "b_v b' = take p (b_v b') @ ?c @ drop (nat (b_end b')) (b_v b')"
  proof -
    have "drop p (b_v b') = ?c @ drop (length ?c) (drop p (b_v b'))"
      using c st length_content [OF wf]
      by (metis append_take_drop_id content_def nat_int p_def)
    moreover have "drop (length ?c) (drop p (b_v b')) = drop (nat (b_end b')) (b_v b')"
      using b_end_content [OF wf] c st by (simp add: p_def add.commute)
    ultimately show ?thesis by (metis append_take_drop_id)
  qed
  have lp: "p \<le> length (b_v b')"
    using wf st by (auto simp: p_def buffer_wf_def)
  have v': "blit (b_v b') pos ys' =
      take p (b_v b') @ (content b @ xs @ ys' @ zs) @ drop (nat (b_end b')) (b_v b')"
    by (subst v) (simp add: blit_def pos lp min.absorb2 assms(3))
  have len: "length (blit (b_v b') pos ys') = length (b_v b')"
    using v assms(3) by (metis length_append v')
  have "content (put_at pos ys' b') = content b @ xs @ ys' @ zs"
  proof -
    have "nat (b_end b' - b_start b') = length (content b @ xs @ ys' @ zs)"
      using length_content [OF wf] c assms(3) by simp
    then show ?thesis
      using st lp by (simp add: content_def [of "b'\<lparr>b_v := _\<rparr>"] put_at_def v' p_def [symmetric] min.absorb2)
  qed
  then show ?thesis
    using assms(2,3) len by (simp add: appended_def put_at_def buffer_wf_def room_def)
qed

definition meta_bytes :: "FrameMetadata \<Rightarrow> Destination option \<Rightarrow> byte list" where
  "meta_bytes f u = PutUint16 (fm_SessionID f) @ [fm_SessionStatus f, fm_Option f] @ meta_tail f u"

lemma WriteTo_ok:
  assumes "meta_ok f u" "buffer_wf b" "b_UDP b = u" "length (meta_bytes f u) + 2 \<le> room b"
  obtains b' where "WriteTo f b = Some (None, b')"
    "appended b (PutUint16 (of_nat (length (meta_bytes f u))) @ meta_bytes f u) b'"
proof -
  have ext: "Buffer_Extend c 2 = Some (append_read c [0, 0]) \<and> appended c [0, 0] (append_read c [0, 0])"
    if "buffer_wf c" "2 \<le> room c" for c
    using that Buffer_Extend_append [of c 2] append_read_appended [of c "[0, 0]"]
    by (simp add: numeral_2_eq_2)
  let ?b1 = "append_read b [0, 0]"
  have 1: "Buffer_Extend b 2 = Some ?b1" "appended b [0, 0] ?b1"
    using ext [OF assms(2)] assms(4) by auto
  let ?b2 = "append_read ?b1 [0, 0]"
  have wf1: "buffer_wf ?b1" "room ?b1 = room b - 2" using 1(2) by (auto simp: appended_def)
  have 2: "Buffer_Extend ?b1 2 = Some ?b2" "appended ?b1 ([0, 0]) ?b2"
    using ext [OF wf1(1)] wf1(2) assms(4) by (auto simp: meta_bytes_def)
  let ?b3 = "put_at (nat (b_end ?b1)) (PutUint16 (fm_SessionID f)) ?b2"
  have 3: "appended ?b1 (PutUint16 (fm_SessionID f)) ?b3"
    using put_at_appended [OF wf1(1), of "[]" "[0, 0]" "[]" ?b2 "PutUint16 (fm_SessionID f)"] 2(2) by simp
  have wf3: "buffer_wf ?b3" "b_UDP ?b3 = u" "length ([fm_SessionStatus f] @ [fm_Option f] @ meta_tail f u) \<le> room ?b3"
    using 3 1(2) wf1 assms(3,4) by (auto simp: appended_def meta_bytes_def)
  let ?rest = "\<lambda>c. case must_WriteByte (fm_SessionStatus f) c of None \<Rightarrow> None | Some b4 \<Rightarrow>
      (case must_WriteByte (fm_Option f) b4 of None \<Rightarrow> None | Some b5 \<Rightarrow> meta_body f b5)"
  have "emits u (\<lambda>c. case must_WriteByte (fm_Option f) c of None \<Rightarrow> None | Some b5 \<Rightarrow> meta_body f b5)
      ([fm_Option f] @ meta_tail f u)"
    by (rule emits_seq [OF emits_byte emits_body [OF assms(1)]]) auto
  from emits_seq [OF emits_byte this] have "emits u ?rest ([fm_SessionStatus f] @ [fm_Option f] @ meta_tail f u)"
    by (rule meta_mp) auto
  then obtain b6 where b6: "?rest ?b3 = Some (None, b6)"
    "appended ?b3 ([fm_SessionStatus f] @ [fm_Option f] @ meta_tail f u) b6"
    using emitsE wf3 by blast
  have all: "appended ?b1 (meta_bytes f u) b6"
    using appended_trans [OF 3 b6(2)] by (simp add: meta_bytes_def)
  then have wf6: "buffer_wf b6" "length (content b6) = length (content ?b1) + length (meta_bytes f u)"
    by (auto simp: appended_def)
  let ?n = "Buffer_Len b6 - Buffer_Len ?b1"
  have n: "of_int ?n = (of_nat (length (meta_bytes f u)) :: u16)"
    using wf6 by (simp add: Buffer_Len_content [OF wf6(1)] Buffer_Len_content [OF wf1(1)])
  have "WriteTo f b = Some (None, put_at (nat (b_end b)) (PutUint16 (of_int ?n)) b6)"
    using 1(1) 2(1) b6(1) by (auto simp: WriteTo_def Let_def split: option.splits)
  moreover have "appended b (PutUint16 (of_int ?n) @ meta_bytes f u)
      (put_at (nat (b_end b)) (PutUint16 (of_int ?n)) b6)"
    using put_at_appended [OF assms(2), of "[]" "[0, 0]" "meta_bytes f u" b6] appended_trans [OF 1(2) all]
    by simp
  ultimately show thesis using that unfolding n by blast
qed

section \<open>What is read back\<close>

lemma flat_buffer_stream [simp]: "flat (buffer_stream b) = content b"
  by (simp add: buffer_stream_def)

lemma read_to_content:
  assumes "buffer_wf b" "content b = xs @ flat r"
  shows "buffer_wf (read_to b r) \<and> content (read_to b r) = flat r"
proof (cases "flat r = []")
  case True
  then show ?thesis
    using assms(1) by (simp add: read_to_def Buffer_Clear_wf Buffer_Clear_content)
next
  case False
  have "Buffer_Len b - int (length (flat r)) = int (length xs)"
    using assms by (simp add: Buffer_Len_content)
  then show ?thesis
    using False advance_content [OF assms(1), of "length xs"] assms(2) by (simp add: read_to_def)
qed

lemma Advance_content:
  assumes "buffer_wf b" "k \<le> length (content b)"
  shows "buffer_wf (Buffer_Advance b (int k))" "content (Buffer_Advance b (int k)) = drop k (content b)"
  using Buffer_Advance_spec [OF assms(1), of "int k"] advance_content [OF assms] assms(2) by auto

lemma read_dest_any:
  assumes "buffer_wf b" "dest_ok d" "content b = dest_bytes d @ rest"
  obtains b' where "buffer_wf b'" "content b' = rest"
    "\<forall>msg msg' network. read_dest msg msg' network b =
       Some (if network = TargetNetworkTCP then Inr (d\<lparr>d_Network := Network_TCP\<rparr>)
             else if network = TargetNetworkUDP then Inr (d\<lparr>d_Network := Network_UDP\<rparr>)
             else Inl (ErrMsg msg'), b')"
proof -
  obtain a where a: "d_Address d = Some a" "sendable a"
    using assms(2) by (auto simp: dest_ok_def split: option.splits)
  obtain r where r: "ReadAddressPort addrParser None (buffer_stream b) = Some (Inr (a, d_Port d), r)"
    "flat r = rest"
    by (rule ReadAddressPort_ok [OF addrParser_ok a(2), of "buffer_stream b" "d_Port d" rest])
      (use assms(3) a(1) in \<open>simp_all add: dest_bytes_def\<close>)
  have "buffer_wf (read_to b r) \<and> content (read_to b r) = flat r"
    by (rule read_to_content [OF assms(1)]) (use assms(3) r(2) in simp)
  with that [of "read_to b r"] r a(1) show thesis
    by (simp add: read_dest_def TCPDestination_def UDPDestination_def)
qed

lemma net_byte_simps [simp]:
  "TargetNetworkTCP \<noteq> TargetNetworkUDP" "TargetNetworkUDP \<noteq> TargetNetworkTCP" "TargetNetworkTCP \<noteq> 0" "TargetNetworkUDP \<noteq> 0" "net_byte d \<noteq> 0"
  by (simp_all add: TargetNetworkTCP_def TargetNetworkUDP_def net_byte_def)

lemma dest_network_id:
  "dest_ok d \<Longrightarrow> net_byte d = TargetNetworkTCP \<Longrightarrow> d\<lparr>d_Network := Network_TCP\<rparr> = d"
  "dest_ok d \<Longrightarrow> net_byte d \<noteq> TargetNetworkTCP \<Longrightarrow> d\<lparr>d_Network := Network_UDP\<rparr> = d"
  "net_byte d \<noteq> TargetNetworkTCP \<Longrightarrow> net_byte d = TargetNetworkUDP"
  by (auto simp: dest_ok_def tcp_or_udp_def net_byte_def split: if_splits)

lemma read_dest_ok:
  assumes "buffer_wf b" "dest_ok d" "content b = dest_bytes d @ rest"
  obtains b' where "buffer_wf b'" "content b' = rest"
    "\<forall>msg msg'. read_dest msg msg' (net_byte d) b = Some (Inr d, b')"
proof -
  obtain b' where b': "buffer_wf b'" "content b' = rest"
    "\<forall>msg msg' network. read_dest msg msg' network b =
       Some (if network = TargetNetworkTCP then Inr (d\<lparr>d_Network := Network_TCP\<rparr>)
             else if network = TargetNetworkUDP then Inr (d\<lparr>d_Network := Network_UDP\<rparr>)
             else Inl (ErrMsg msg'), b')"
    by (rule read_dest_any [OF assms])
  with that [of b'] dest_network_id(1,2) [OF assms(2)] dest_network_id(3) [of d] show thesis
    by (cases "net_byte d = TargetNetworkTCP") auto
qed

lemma Byte_at: "buffer_wf b \<Longrightarrow> content b = xs @ y # ys \<Longrightarrow> Buffer_Byte b (int (length xs)) = Some y"
  using Buffer_Byte_content [of b "length xs"] by simp

lemma read_end_ok:
  assumes "buffer_wf b" "dest_ok d" "content b = [net_byte d] @ dest_bytes d @ rest"
  obtains b' where "buffer_wf b'" "content b' = rest" "Buffer_Byte b 0 = Some (net_byte d)"
    "Buffer_Len b \<noteq> 0"
    "\<forall>msg msg'. read_dest msg msg' (net_byte d) (Buffer_Advance b 1) = Some (Inr d, b')"
proof -
  have adv: "buffer_wf (Buffer_Advance b 1)" "content (Buffer_Advance b 1) = dest_bytes d @ rest"
    using Advance_content [OF assms(1), of 1] assms(3) by simp_all
  obtain b' where "buffer_wf b'" "content b' = rest"
    "\<forall>msg msg'. read_dest msg msg' (net_byte d) (Buffer_Advance b 1) = Some (Inr d, b')"
    by (rule read_dest_ok [OF adv(1) assms(2) adv(2)])
  moreover have "Buffer_Byte b 0 = Some (net_byte d)" "Buffer_Len b \<noteq> 0"
    using Byte_at [OF assms(1), of "[]"] assms(3) Buffer_Len_content [OF assms(1)] by simp_all
  ultimately show thesis using that by blast
qed

lemma read_inbound_ok:
  assumes "buffer_wf b" "content b = inbound_bytes i" "dest_ok (in_Source i)" "dest_ok (in_Local i)"
  obtains b' where "read_inbound f b = Some (None, f\<lparr>fm_Inbound := Some i\<rparr>, b')"
proof -
  have c: "content b = [net_byte (in_Source i)] @ dest_bytes (in_Source i) @
      [net_byte (in_Local i)] @ dest_bytes (in_Local i)"
    using assms(2) by (simp add: inbound_bytes_def)
  obtain b1 where 1: "buffer_wf b1" "content b1 = [net_byte (in_Local i)] @ dest_bytes (in_Local i) @ []"
    "Buffer_Byte b 0 = Some (net_byte (in_Source i))" "Buffer_Len b \<noteq> 0"
    "\<forall>msg msg'. read_dest msg msg' (net_byte (in_Source i)) (Buffer_Advance b 1) = Some (Inr (in_Source i), b1)"
    by (rule read_end_ok [OF assms(1,3) c]) auto
  obtain b2 where 2: "Buffer_Byte b1 0 = Some (net_byte (in_Local i))" "Buffer_Len b1 \<noteq> 0"
    "\<forall>msg msg'. read_dest msg msg' (net_byte (in_Local i)) (Buffer_Advance b1 1) = Some (Inr (in_Local i), b2)"
    by (rule read_end_ok [OF 1(1) assms(4) 1(2)]) auto
  show thesis
    using that [of b2] 1(3-5) 2 by (simp add: read_inbound_def read_local_def Let_def)
qed

text \<open>What the reader's record holds after a frame written with metadata \<open>f\<close> and UDP address \<open>u\<close>.\<close>

definition received :: "FrameMetadata \<Rightarrow> FrameMetadata \<Rightarrow> Destination option \<Rightarrow> FrameMetadata" where
  "received f0 f u =
     f0\<lparr>fm_SessionID := fm_SessionID f, fm_SessionStatus := fm_SessionStatus f, fm_Option := fm_Option f,
        fm_Target := (if fm_SessionStatus f = SessionStatusNew then fm_Target f
                      else (case u of
                              Some d \<Rightarrow> if fm_SessionStatus f = SessionStatusKeep
                                        then d\<lparr>d_Network := Network_UDP\<rparr>
                                        else (fm_Target f0)\<lparr>d_Network := Network_Unknown\<rparr>
                            | None \<Rightarrow> (fm_Target f0)\<lparr>d_Network := Network_Unknown\<rparr>)),
        fm_Inbound := (if fm_SessionStatus f = SessionStatusNew \<and> fm_Inbound f \<noteq> None
                       then fm_Inbound f else fm_Inbound f0),
        fm_GlobalID := (if fm_SessionStatus f = SessionStatusNew \<and> fm_Inbound f = None \<and> u \<noteq> None \<and>
                           Byte_Has (fm_Option f) OptionData \<and> d_Network (fm_Target f) = Network_UDP
                        then fm_GlobalID f else fm_GlobalID f0)\<rparr>"

lemma read_rest_ok:
  assumes "meta_ok f u" "fm_SessionStatus f = SessionStatusNew" "buffer_wf b" "content b = new_tail f u"
    and "fm_SessionStatus g = SessionStatusNew" "fm_Option g = fm_Option f" "fm_Target g = fm_Target f"
    and "length (fm_GlobalID g) = 8"
  obtains b' where "read_rest g (fm_Inbound f \<noteq> None) b =
     Some (None, g\<lparr>fm_Inbound := (if fm_Inbound f \<noteq> None then fm_Inbound f else fm_Inbound g),
       fm_GlobalID := (if fm_Inbound f = None \<and> u \<noteq> None \<and> Byte_Has (fm_Option f) OptionData \<and>
          d_Network (fm_Target f) = Network_UDP then fm_GlobalID f else fm_GlobalID g)\<rparr>, b')"
proof (cases "fm_Inbound f")
  case (Some i)
  then have i: "dest_ok (in_Source i)" "dest_ok (in_Local i)" "content b = inbound_bytes i"
    using assms(1,2,4) by (auto simp: meta_ok_def inbound_ok_def new_tail_def)
  obtain b' where "read_inbound g b = Some (None, g\<lparr>fm_Inbound := Some i\<rparr>, b')"
    by (rule read_inbound_ok [OF assms(3) i(3,1,2)])
  with that [of b'] Some assms(5) show thesis by (simp add: read_rest_def)
next
  case None
  have len: "length (fm_GlobalID f) = 8" using assms(1,2) by (simp add: meta_ok_def)
  have c: "content b = (if u \<noteq> None then fm_GlobalID f else [])"
    using None assms(4) by (simp add: new_tail_def)
  then have "Buffer_Len b = (if u \<noteq> None then 8 else 0)"
    using len by (simp add: Buffer_Len_content [OF assms(3)])
  with that [of b] None assms(5-8) c len show thesis
    by (auto simp: read_rest_def Buffer_Bytes_content [OF assms(3)])
qed

lemma meta_bytes_fields:
  assumes "buffer_wf b" "content b = meta_bytes f u"
  shows "Buffer_BytesTo b 2 = Some (PutUint16 (fm_SessionID f))"
    "Buffer_Byte b 2 = Some (fm_SessionStatus f)" "Buffer_Byte b 3 = Some (fm_Option f)"
    "Buffer_Len b = 4 + int (length (meta_tail f u))"
    "4 < Buffer_Len b \<Longrightarrow> Buffer_Byte b 4 = Some (hd (meta_tail f u))"
    "meta_tail f u = x # xs \<Longrightarrow> buffer_wf (Buffer_Advance b 5) \<and> content (Buffer_Advance b 5) = xs"
proof -
  let ?p = "PutUint16 (fm_SessionID f)"
  show "Buffer_BytesTo b 2 = Some ?p"
    using Buffer_BytesTo_content [OF assms(1), of 2] assms(2) by (simp add: meta_bytes_def)
  show "Buffer_Byte b 2 = Some (fm_SessionStatus f)"
    using Byte_at [OF assms(1), of ?p] assms(2) by (simp add: meta_bytes_def)
  show "Buffer_Byte b 3 = Some (fm_Option f)"
    using Byte_at [OF assms(1), of "?p @ [fm_SessionStatus f]"] assms(2) by (simp add: meta_bytes_def)
  show len: "Buffer_Len b = 4 + int (length (meta_tail f u))"
    using Buffer_Len_content [OF assms(1)] assms(2) by (simp add: meta_bytes_def)
  show "Buffer_Byte b 4 = Some (hd (meta_tail f u))" if "4 < Buffer_Len b"
    using Byte_at [OF assms(1), of "?p @ [fm_SessionStatus f, fm_Option f]"] that assms(2) len
    by (cases "meta_tail f u") (simp_all add: meta_bytes_def)
  show "buffer_wf (Buffer_Advance b 5) \<and> content (Buffer_Advance b 5) = xs" if "meta_tail f u = x # xs"
    using Advance_content [OF assms(1), of 5] that assms(2) by (simp add: meta_bytes_def)
qed

lemma dest_bytes_long: "dest_ok d \<Longrightarrow> 5 \<le> length (dest_bytes d)"
  by (auto simp: dest_ok_def dest_bytes_def address_port_bytes_def Suc_le_eq
      split: option.splits elim!: sendable.elims)

lemma status_simps [simp]:
  "SessionStatusNew \<noteq> SessionStatusKeep" "SessionStatusKeep \<noteq> SessionStatusNew"
  by (simp_all add: SessionStatusNew_def SessionStatusKeep_def)

lemma UnmarshalFromBuffer_ok:
  assumes "meta_ok f u" "buffer_wf b" "content b = meta_bytes f u" "length (fm_GlobalID f0) = 8"
  obtains b' where "UnmarshalFromBuffer f0 b (fm_Inbound f \<noteq> None) = Some (None, received f0 f u, b')"
proof -
  note F = meta_bytes_fields [OF assms(2,3)]
  let ?g = "f0\<lparr>fm_SessionID := fm_SessionID f, fm_SessionStatus := fm_SessionStatus f,
    fm_Option := fm_Option f, fm_Target := (fm_Target f0)\<lparr>d_Network := Network_Unknown\<rparr>\<rparr>"
  have uint: "Uint16 (PutUint16 (fm_SessionID f)) = fm_SessionID f" by (simp add: Uint_Put_exact)
  consider (new) "fm_SessionStatus f = SessionStatusNew"
    | (udp) d where "fm_SessionStatus f = SessionStatusKeep" "u = Some d"
    | (other) "fm_SessionStatus f \<noteq> SessionStatusNew" "fm_SessionStatus f = SessionStatusKeep \<longrightarrow> u = None"
    by fastforce
  then show thesis
  proof cases
    case new
    let ?d = "fm_Target f"
    have d: "dest_ok ?d" and tail: "meta_tail f u = net_byte ?d # dest_bytes ?d @ new_tail f u"
      using assms(1) new by (simp_all add: meta_ok_def meta_tail_def)
    have len: "8 \<le> Buffer_Len b" using F(4) tail dest_bytes_long [OF d] by simp
    have adv: "buffer_wf (Buffer_Advance b 5)" "content (Buffer_Advance b 5) = dest_bytes ?d @ new_tail f u"
      using F(6) [OF tail] by auto
    obtain b1 where b1: "buffer_wf b1" "content b1 = new_tail f u"
      "\<forall>msg msg'. read_dest msg msg' (net_byte ?d) (Buffer_Advance b 5) = Some (Inr ?d, b1)"
      by (rule read_dest_ok [OF adv(1) d adv(2)])
    obtain b2 where "read_rest (?g\<lparr>fm_Target := ?d\<rparr>) (fm_Inbound f \<noteq> None) b1 =
      Some (None, received f0 f u, b2)"
      by (rule read_rest_ok [OF assms(1) new b1(1,2), of "?g\<lparr>fm_Target := ?d\<rparr>"])
        (use new assms(4) in \<open>auto simp: received_def cong: if_cong\<close>)
    with that [of b2] F(1-3) F(5) len tail b1(3) new uint show thesis
      by (simp add: UnmarshalFromBuffer_def has_target_def)
  next
    case udp
    have d: "dest_ok d" and tail: "meta_tail f u = TargetNetworkUDP # dest_bytes d @ []"
      using assms(1) udp by (simp_all add: meta_ok_def meta_tail_def)
    have len: "8 \<le> Buffer_Len b" using F(4) tail dest_bytes_long [OF d] by simp
    have adv: "buffer_wf (Buffer_Advance b 5)" "content (Buffer_Advance b 5) = dest_bytes d @ []"
      using F(6) [OF tail] by auto
    obtain b1 where b1: "\<forall>msg msg' network. read_dest msg msg' network (Buffer_Advance b 5) =
       Some (if network = TargetNetworkTCP then Inr (d\<lparr>d_Network := Network_TCP\<rparr>)
             else if network = TargetNetworkUDP then Inr (d\<lparr>d_Network := Network_UDP\<rparr>)
             else Inl (ErrMsg msg'), b1)"
      by (rule read_dest_any [OF adv(1) d adv(2)])
    with that [of b1] F(1-3) F(5) len tail udp uint show thesis
      by (simp add: UnmarshalFromBuffer_def has_target_def read_rest_def received_def)
  next
    case other
    have "\<not> has_target (fm_SessionStatus f) b"
      using other F(4) by (auto simp: has_target_def meta_tail_def)
    with that [of b] F(1-4) other uint show thesis
      by (auto simp: UnmarshalFromBuffer_def read_rest_def received_def split: option.splits)
  qed
qed

section \<open>Properties\<close>

text \<open>
  Frame metadata of at most 512 bytes, written into a buffer and sent as a stream, is read
  back by the peer: session id, status, options, target, the source and local addresses when
  both sides use them, the address of each UDP packet, and the global id of a UDP session
  that carries data. The reader stands at the payload.
\<close>

theorem mux_metadata_roundtrip:
  assumes "meta_ok f (b_UDP b)" "buffer_wf b" "content b = []"
    and "length (meta_bytes f (b_UDP b)) \<le> 512" "514 \<le> room b"
    and "length (fm_GlobalID f0) = 8"
  shows "\<exists>b'. WriteTo f b = Some (None, b') \<and>
    (\<forall>r rest. flat r = content b' @ rest \<longrightarrow>
      (\<exists>r'. Unmarshal f0 r (fm_Inbound f \<noteq> None) = Some (None, received f0 f (b_UDP b), r') \<and> flat r' = rest))"
proof -
  let ?m = "meta_bytes f (b_UDP b)" and ?n = "length (meta_bytes f (b_UDP b))"
  obtain b' where b': "WriteTo f b = Some (None, b')" "appended b (PutUint16 (of_nat ?n) @ ?m) b'"
    by (rule WriteTo_ok [OF assms(1,2) refl]) (use assms(4,5) in auto)
  have "\<exists>r'. Unmarshal f0 r (fm_Inbound f \<noteq> None) = Some (None, received f0 f (b_UDP b), r') \<and> flat r' = rest"
    if "flat r = content b' @ rest" for r rest
  proof -
    have fl: "flat r = PutUint16 (of_nat ?n) @ ?m @ rest"
      using that b'(2) assms(3) by (simp add: appended_def)
    obtain r1 where r1: "io_ReadFull 2 r = (PutUint16 (of_nat ?n), None, r1)" "flat r1 = ?m @ rest"
      using io_ReadFull_ok [of 2 r] fl by auto
    have n: "uint (of_nat ?n :: u16) = int ?n" "\<not> (of_nat ?n :: u16) > 512"
      using assms(4) by (simp_all add: unsigned_of_nat take_bit_nat_eq_self word_less_nat_alt not_less)
    have "0 < ?n" by (simp add: meta_bytes_def)
    then obtain b1 r2 where b1: "Buffer_ReadFullFrom fresh_buffer r1 (int ?n) = Some (?n, None, b1, r2)"
      "appended fresh_buffer ?m b1" "flat r2 = rest"
      by (rule read_exact [OF wf_new _ r1(2) refl, rotated]) (use assms(4) in auto)
    then have c1: "buffer_wf b1" "content b1 = ?m" by (auto simp: appended_def)
    obtain b2 where "UnmarshalFromBuffer f0 b1 (fm_Inbound f \<noteq> None) = Some (None, received f0 f (b_UDP b), b2)"
      by (rule UnmarshalFromBuffer_ok [OF assms(1) c1 assms(6)])
    with r1(1) b1(1,3) n show ?thesis
      by (simp add: Unmarshal_def ReadUint16_def Uint_Put_exact)
  qed
  with b'(1) show ?thesis by blast
qed

definition demo_meta :: FrameMetadata where
  "demo_meta = \<lparr>fm_Target = UDPDestination (ipv4Address [8, 8, 8, 8]) 53, fm_SessionID = 7,
     fm_Option = OptionData, fm_SessionStatus = SessionStatusNew, fm_GlobalID = replicate 8 5,
     fm_Inbound = None\<rparr>"

definition demo_udp_buffer :: Buffer where
  "demo_udp_buffer = fresh_buffer\<lparr>b_UDP := Some (UDPDestination (ipv4Address [8, 8, 8, 8]) 53)\<rparr>"

lemma demo_udp_buffer_simps:
  "buffer_wf demo_udp_buffer" "content demo_udp_buffer = []" "room demo_udp_buffer = 8192"
  "b_UDP demo_udp_buffer = Some (UDPDestination (ipv4Address [8, 8, 8, 8]) 53)"
  using wf_new [of "[]"] content_new [of "[]"] room_new [of "[]"]
  by (simp_all add: demo_udp_buffer_def buffer_wf_def content_def room_def)

theorem mux_metadata_roundtrip_witness:
  "\<exists>b' r'. WriteTo demo_meta demo_udp_buffer = Some (None, b') \<and>
     Unmarshal (demo_meta\<lparr>fm_GlobalID := replicate 8 0\<rparr>) \<lparr>chunks = [content b', [9]], fin = EOF\<rparr> False =
     Some (None, demo_meta, r') \<and> flat r' = [9]"
proof -
  let ?u = "UDPDestination (ipv4Address [8, 8, 8, 8]) 53"
  have d: "dest_ok ?u" by (simp add: dest_ok_def tcp_or_udp_def UDPDestination_def)
  have ok: "meta_ok demo_meta (b_UDP demo_udp_buffer)"
    using d by (simp add: meta_ok_def demo_meta_def inbound_ok_def)
  have "length (dest_bytes ?u) = 7"
    by (simp add: dest_bytes_def address_port_bytes_def UDPDestination_def)
  then have len: "length (meta_bytes demo_meta (b_UDP demo_udp_buffer)) \<le> 512"
    by (simp add: meta_bytes_def meta_tail_def new_tail_def demo_meta_def demo_udp_buffer_simps)
  have rec: "received (demo_meta\<lparr>fm_GlobalID := replicate 8 0\<rparr>) demo_meta (b_UDP demo_udp_buffer) = demo_meta"
    by (simp add: received_def demo_meta_def demo_udp_buffer_simps UDPDestination_def Byte_Has_def OptionData_def)
  have inb: "fm_Inbound demo_meta = None" by (simp add: demo_meta_def)
  have "514 \<le> room demo_udp_buffer" "length (fm_GlobalID (demo_meta\<lparr>fm_GlobalID := replicate 8 0\<rparr>)) = 8"
    by (simp_all add: demo_udp_buffer_simps)
  from mux_metadata_roundtrip [OF ok demo_udp_buffer_simps(1,2) len this]
  obtain b' where "WriteTo demo_meta demo_udp_buffer = Some (None, b')"
    and "\<And>r rest. flat r = content b' @ rest \<Longrightarrow>
      (\<exists>r'. Unmarshal (demo_meta\<lparr>fm_GlobalID := replicate 8 0\<rparr>) r False = Some (None, demo_meta, r') \<and> flat r' = rest)"
    unfolding rec inb by auto
  from this(1) this(2) [of "\<lparr>chunks = [content b', [9]], fin = EOF\<rparr>" "[9]"] show ?thesis by auto
qed

end
