(* ===== verification/Mux_Session.thy ===== *)
theory Mux_Session
  imports Buf_Reader Mux_Frame "HOL-Library.AList"
begin

text \<open>
  The parts that both ends of the multiplexer use: \<^verbatim>\<open>common/mux/session.go\<close> (sessions and their manager),
  \<^verbatim>\<open>writer.go\<close>, \<^verbatim>\<open>reader.go\<close>, and the chunk reader of \<^verbatim>\<open>common/crypto/chunk.go\<close> with the plain size parser.
  Sessions are objects on a heap; a manager maps identifiers to them. A \<^verbatim>\<open>buf.Writer\<close> records the vectors written
  to it; a script says which writes fail. \<open>None\<close> is a panic, or a loop that does not return.
\<close>

section \<open>Writers of buffer vectors\<close>

record mbwriter =
  mw_written :: "MultiBuffer list"
  mw_faults :: "goerr option list"
  mw_closed :: bool

definition mw_Write :: "mbwriter \<Rightarrow> MultiBuffer \<Rightarrow> goerr option \<times> mbwriter" where
  "mw_Write w mb =
     (case mw_faults w of
        [] \<Rightarrow> (None, w\<lparr>mw_written := mw_written w @ [mb]\<rparr>)
      | None # fs \<Rightarrow> (None, w\<lparr>mw_written := mw_written w @ [mb], mw_faults := fs\<rparr>)
      | Some e # fs \<Rightarrow> (Some e, w\<lparr>mw_faults := fs\<rparr>))"

definition mw_content :: "mbwriter \<Rightarrow> byte list" where
  "mw_content w = concat (map mb_content (mw_written w))"

text \<open>\<^verbatim>\<open>buf.Discard\<close>.\<close>

definition Discard :: "unit \<Rightarrow> MultiBuffer \<Rightarrow> goerr option \<times> unit" where
  "Discard u mb = (None, ())"

section \<open>Sessions\<close>

datatype TransferType = TransferTypeStream | TransferTypePacket

datatype xudp_status = Initializing | Active | Expiring

record XUDP =
  x_GlobalID :: "byte list"
  x_Status :: xudp_status
  x_Expire :: int

record MuxSession =
  s_ID :: u16
  s_transferType :: TransferType
  s_closed :: bool
  s_done :: bool
  s_output :: mbwriter
  s_interrupted :: bool
  s_XUDP :: "nat option"

record SessionManager =
  sm_sessions :: "(u16 \<times> nat) list"
  sm_count :: u16
  sm_closed :: bool

record ClientStrategy =
  MaxConcurrency :: u32
  MaxConnection :: u32

text \<open>The state of one multiplexed connection: its manager, and the heaps of sessions and of XUDP entries.\<close>

record mux_state =
  mx_manager :: SessionManager
  mx_heap :: "MuxSession list"
  mx_xudp :: "XUDP list"

definition NewSessionManager :: SessionManager where
  "NewSessionManager = \<lparr>sm_sessions = [], sm_count = 0, sm_closed = False\<rparr>"

definition sm_Closed :: "SessionManager \<Rightarrow> bool" where "sm_Closed m = sm_closed m"

definition sm_Size :: "SessionManager \<Rightarrow> int" where "sm_Size m = int (length (sm_sessions m))"

definition sm_Count :: "SessionManager \<Rightarrow> int" where "sm_Count m = uint (sm_count m)"

definition new_session :: "u16 \<Rightarrow> MuxSession" where
  "new_session i = \<lparr>s_ID = i, s_transferType = TransferTypeStream, s_closed = False, s_done = False,
     s_output = \<lparr>mw_written = [], mw_faults = [], mw_closed = False\<rparr>, s_interrupted = False, s_XUDP = None\<rparr>"

definition Allocate :: "ClientStrategy \<Rightarrow> mux_state \<Rightarrow> mux_state \<times> nat option" where
  "Allocate Strategy st =
     (let m = mx_manager st; maxConcurrency = uint (MaxConcurrency Strategy); maxConnection = (ucast (MaxConnection Strategy) :: u16) in
      if sm_closed m \<or> (maxConcurrency > 0 \<and> int (length (sm_sessions m)) \<ge> maxConcurrency) \<or>
         (maxConnection > 0 \<and> sm_count m \<ge> maxConnection)
      then (st, None)
      else
        let c = sm_count m + 1; ref = length (mx_heap st) in
        (st\<lparr>mx_manager := m\<lparr>sm_count := c, sm_sessions := AList.update c ref (sm_sessions m)\<rparr>,
            mx_heap := mx_heap st @ [new_session c]\<rparr>, Some ref))"

definition sm_Add :: "mux_state \<Rightarrow> nat \<Rightarrow> mux_state \<times> bool" where
  "sm_Add st ref =
     (let m = mx_manager st in
      if sm_closed m then (st, False)
      else (st\<lparr>mx_manager := m\<lparr>sm_count := sm_count m + 1,
                 sm_sessions := AList.update (s_ID (mx_heap st ! ref)) ref (sm_sessions m)\<rparr>\<rparr>, True))"

definition sm_Remove :: "u16 \<Rightarrow> SessionManager \<Rightarrow> SessionManager" where
  "sm_Remove i m = (if sm_closed m then m else m\<lparr>sm_sessions := AList.delete i (sm_sessions m)\<rparr>)"

definition sm_Get :: "SessionManager \<Rightarrow> u16 \<Rightarrow> nat option" where
  "sm_Get m i = (if sm_closed m then None else map_of (sm_sessions m) i)"

definition CloseIfNoSessionAndIdle :: "SessionManager \<Rightarrow> int \<Rightarrow> int \<Rightarrow> SessionManager \<times> bool" where
  "CloseIfNoSessionAndIdle m checkSize checkCount =
     (if sm_closed m then (m, True)
      else if length (sm_sessions m) \<noteq> 0 \<or> checkSize \<noteq> 0 \<or> checkCount \<noteq> uint (sm_count m) then (m, False)
      else (m\<lparr>sm_closed := True, sm_sessions := []\<rparr>, True))"

text \<open>
  \<^verbatim>\<open>Session.Close\<close>. A session that belongs to an XUDP entry is only detached: its reader is made to return once,
  and the entry expires a minute later.
\<close>

definition Session_Close :: "int \<Rightarrow> mux_state \<Rightarrow> nat \<Rightarrow> mux_state" where
  "Session_Close now st ref =
     (let s = mx_heap st ! ref in
      if s_closed s then st
      else
        let s1 = s\<lparr>s_closed := True, s_done := True\<rparr> in
        (case s_XUDP s of
           None \<Rightarrow>
             st\<lparr>mx_heap := (mx_heap st)[ref := s1\<lparr>s_interrupted := True, s_output := (s_output s1)\<lparr>mw_closed := True\<rparr>\<rparr>],
                mx_manager := sm_Remove (s_ID s) (mx_manager st)\<rparr>
         | Some x \<Rightarrow>
             st\<lparr>mx_heap := (mx_heap st)[ref := s1],
                mx_xudp := (if x_Status (mx_xudp st ! x) = Active
                            then (mx_xudp st)[x := (mx_xudp st ! x)\<lparr>x_Expire := now + 60, x_Status := Expiring\<rparr>] else mx_xudp st),
                mx_manager := sm_Remove (s_ID s) (mx_manager st)\<rparr>))"

text \<open>\<^verbatim>\<open>SessionManager.Close\<close>: the sessions are closed while the manager is already marked closed.\<close>

definition sm_Close :: "int \<Rightarrow> mux_state \<Rightarrow> mux_state" where
  "sm_Close now st =
     (if sm_closed (mx_manager st) then st
      else
        let st1 = st\<lparr>mx_manager := (mx_manager st)\<lparr>sm_closed := True\<rparr>\<rparr>;
            st2 = foldl (Session_Close now) st1 (map snd (sm_sessions (mx_manager st)))
        in st2\<lparr>mx_manager := (mx_manager st2)\<lparr>sm_sessions := []\<rparr>\<rparr>)"

section \<open>Readers\<close>

text \<open>\<^verbatim>\<open>ChunkStreamReader\<close> with the plain size parser: two bytes of size, then that many bytes.\<close>

record ChunkStreamReader =
  cs_reader :: BufferedReader
  leftOverSize :: int
  maxNumChunk :: nat
  numChunk :: nat

definition NewChunkStreamReaderWithChunkCount :: "BufferedReader \<Rightarrow> nat \<Rightarrow> ChunkStreamReader" where
  "NewChunkStreamReaderWithChunkCount reader n = \<lparr>cs_reader = reader, leftOverSize = 0, maxNumChunk = n, numChunk = 0\<rparr>"

definition chunk_body :: "ChunkStreamReader \<Rightarrow> int \<Rightarrow> (MultiBuffer \<times> goerr option \<times> ChunkStreamReader) option" where
  "chunk_body r sz =
     do { (mb, err, rd) \<leftarrow> ReadAtMost (cs_reader r) sz;
          let r1 = r\<lparr>leftOverSize := sz, cs_reader := rd\<rparr>;
          Some (if \<not> MultiBuffer_IsEmpty mb then (mb, None, r1\<lparr>leftOverSize := i32 (sz - MultiBuffer_Len mb)\<rparr>) else ([], err, r1)) }"

definition Chunk_ReadMultiBuffer :: "ChunkStreamReader \<Rightarrow> (MultiBuffer \<times> goerr option \<times> ChunkStreamReader) option" where
  "Chunk_ReadMultiBuffer r =
     (if leftOverSize r = 0 then
        let r1 = r\<lparr>numChunk := numChunk r + 1\<rparr> in
        if maxNumChunk r1 > 0 \<and> numChunk r1 > maxNumChunk r1 then Some ([], Some EOF, r1)
        else
          do { (bs, err, rd) \<leftarrow> br_ReadFull 2 (cs_reader r1);
               let r2 = r1\<lparr>cs_reader := rd\<rparr>;
               (case err of
                  Some e \<Rightarrow> Some ([], Some e, r2)
                | None \<Rightarrow> if Uint16 bs = 0 then Some ([], Some EOF, r2) else chunk_body r2 (uint (Uint16 bs))) }
      else chunk_body r (leftOverSize r))"

text \<open>\<^verbatim>\<open>PacketReader\<close> of \<^verbatim>\<open>reader.go\<close>: one packet, then \<^verbatim>\<open>io.EOF\<close>.\<close>

record PacketReader =
  pr_reader :: BufferedReader
  pr_eof :: bool
  pr_dest :: "Destination option"

definition NewPacketReader :: "BufferedReader \<Rightarrow> Destination option \<Rightarrow> PacketReader" where
  "NewPacketReader reader dest = \<lparr>pr_reader = reader, pr_eof = False, pr_dest = dest\<rparr>"

definition Packet_ReadMultiBuffer :: "PacketReader \<Rightarrow> (MultiBuffer \<times> goerr option \<times> PacketReader) option" where
  "Packet_ReadMultiBuffer r =
     (if pr_eof r then Some ([], Some EOF, r)
      else
        do { (bs, err, rd) \<leftarrow> br_ReadFull 2 (pr_reader r);
             (case err of
                Some e \<Rightarrow> Some ([], Some e, r\<lparr>pr_reader := rd\<rparr>)
              | None \<Rightarrow>
                  if uint (Uint16 bs) > Size then Some ([], Some (ErrMsg ''packet size too large: ''), r\<lparr>pr_reader := rd\<rparr>)
                  else
                    do { (payload, err, rd') \<leftarrow> br_ReadFull (unat (Uint16 bs)) rd;
                         (case err of
                            Some e \<Rightarrow> Some ([], Some e, r\<lparr>pr_reader := rd'\<rparr>)
                          | None \<Rightarrow>
                              let b = append_read fresh_buffer payload;
                                  b' = (case pr_dest r of
                                          Some d \<Rightarrow> if d_Network d = Network_UDP then b\<lparr>b_UDP := Some d\<rparr> else b
                                        | None \<Rightarrow> b)
                              in Some ([b'], None, r\<lparr>pr_reader := rd', pr_eof := True\<rparr>)) }) })"

text \<open>The reader that \<^verbatim>\<open>Session.NewReader\<close> chooses.\<close>

datatype mux_reader = StreamReader ChunkStreamReader | PacketRd PacketReader

definition NewStreamReader :: "BufferedReader \<Rightarrow> mux_reader" where
  "NewStreamReader reader = StreamReader (NewChunkStreamReaderWithChunkCount reader 1)"

definition Session_NewReader :: "MuxSession \<Rightarrow> BufferedReader \<Rightarrow> Destination \<Rightarrow> mux_reader" where
  "Session_NewReader s reader dest =
     (if s_transferType s = TransferTypeStream then NewStreamReader reader else PacketRd (NewPacketReader reader (Some dest)))"

fun mux_ReadMultiBuffer :: "mux_reader \<Rightarrow> (MultiBuffer \<times> goerr option \<times> mux_reader) option" where
  "mux_ReadMultiBuffer (StreamReader r) = map_option (\<lambda>(mb, e, r'). (mb, e, StreamReader r')) (Chunk_ReadMultiBuffer r)"
| "mux_ReadMultiBuffer (PacketRd r) = map_option (\<lambda>(mb, e, r'). (mb, e, PacketRd r')) (Packet_ReadMultiBuffer r)"

fun mux_underlying :: "mux_reader \<Rightarrow> BufferedReader" where
  "mux_underlying (StreamReader r) = cs_reader r"
| "mux_underlying (PacketRd r) = pr_reader r"

section \<open>The frame writer\<close>

record MuxWriter =
  w_dest :: Destination
  w_id :: u16
  w_followup :: bool
  w_hasError :: bool
  w_transferType :: TransferType
  w_globalID :: "byte list"
  w_inbound :: "Inbound option"

definition NewWriter :: "u16 \<Rightarrow> Destination \<Rightarrow> TransferType \<Rightarrow> byte list \<Rightarrow> Inbound option \<Rightarrow> MuxWriter" where
  "NewWriter i dest transferType globalID inbound =
     \<lparr>w_dest = dest, w_id = i, w_followup = False, w_hasError = False, w_transferType = transferType, w_globalID = globalID, w_inbound = inbound\<rparr>"

definition NewResponseWriter :: "u16 \<Rightarrow> TransferType \<Rightarrow> MuxWriter" where
  "NewResponseWriter i transferType =
     \<lparr>w_dest = zero_Destination, w_id = i, w_followup = True, w_hasError = False, w_transferType = transferType,
      w_globalID = replicate 8 0, w_inbound = None\<rparr>"

definition getNextFrameMeta :: "MuxWriter \<Rightarrow> FrameMetadata \<times> MuxWriter" where
  "getNextFrameMeta w =
     (let meta = \<lparr>fm_Target = w_dest w, fm_SessionID = w_id w, fm_Option = 0, fm_SessionStatus = 0, fm_GlobalID = w_globalID w, fm_Inbound = w_inbound w\<rparr> in
      if w_followup w then (meta\<lparr>fm_SessionStatus := SessionStatusKeep\<rparr>, w)
      else (meta\<lparr>fm_SessionStatus := SessionStatusNew\<rparr>, w\<lparr>w_followup := True\<rparr>))"

definition writeMetaOnly :: "MuxWriter \<Rightarrow> mbwriter \<Rightarrow> (goerr option \<times> MuxWriter \<times> mbwriter) option" where
  "writeMetaOnly w link =
     (case getNextFrameMeta w of (meta, w') \<Rightarrow>
        do { (e, b) \<leftarrow> WriteTo meta fresh_buffer;
             Some (if e \<noteq> None then (e, w', link) else (case mw_Write link [b] of (e, link') \<Rightarrow> (e, w', link'))) })"

definition writeMetaWithFrame :: "FrameMetadata \<Rightarrow> MultiBuffer \<Rightarrow> mbwriter \<Rightarrow> (goerr option \<times> mbwriter) option" where
  "writeMetaWithFrame meta data link =
     (let frame = (if length data = 1 then fresh_buffer\<lparr>b_UDP := b_UDP (hd data)\<rparr> else fresh_buffer) in
      do { (e, frame1) \<leftarrow> WriteTo meta frame;
           if e \<noteq> None then Some (e, link)
           else
             (case Buffer_Write frame1 (PutUint16 (of_int (MultiBuffer_Len data))) of
                (_, Some e, _) \<Rightarrow> Some (Some e, link)
              | (_, None, frame2) \<Rightarrow> Some (mw_Write link (frame2 # data))) })"

definition writeData :: "MuxWriter \<Rightarrow> MultiBuffer \<Rightarrow> mbwriter \<Rightarrow> (goerr option \<times> MuxWriter \<times> mbwriter) option" where
  "writeData w mb link =
     (case getNextFrameMeta w of (meta, w') \<Rightarrow>
        map_option (\<lambda>(e, link'). (e, w', link')) (writeMetaWithFrame (meta\<lparr>fm_Option := Byte_Set (fm_Option meta) OptionData\<rparr>) mb link))"

definition next_chunk :: "TransferType \<Rightarrow> MultiBuffer \<Rightarrow> (MultiBuffer \<times> MultiBuffer) option" where
  "next_chunk t mb =
     (case t of
        TransferTypeStream \<Rightarrow> SplitSize mb (8 * 1024)
      | TransferTypePacket \<Rightarrow> (case SplitFirst mb of (mb2, Some b) \<Rightarrow> Some (mb2, [b]) | (mb2, None) \<Rightarrow> None))"

partial_function (option) write_chunks :: "MuxWriter \<Rightarrow> MultiBuffer \<Rightarrow> mbwriter \<Rightarrow> (goerr option \<times> MuxWriter \<times> mbwriter) option" where
  "write_chunks w mb link =
     (if MultiBuffer_IsEmpty mb then Some (None, w, link)
      else
        do { (mb', chunk) \<leftarrow> next_chunk (w_transferType w) mb;
             (e, w', link') \<leftarrow> writeData w chunk link;
             if e \<noteq> None then Some (e, w', link') else write_chunks w' mb' link' })"

definition Writer_WriteMultiBuffer :: "MuxWriter \<Rightarrow> MultiBuffer \<Rightarrow> mbwriter \<Rightarrow> (goerr option \<times> MuxWriter \<times> mbwriter) option" where
  "Writer_WriteMultiBuffer w mb link = (if MultiBuffer_IsEmpty mb then writeMetaOnly w link else write_chunks w mb link)"

definition end_meta :: "MuxWriter \<Rightarrow> FrameMetadata" where
  "end_meta w = \<lparr>fm_Target = zero_Destination, fm_SessionID = w_id w, fm_Option = (if w_hasError w then Byte_Set 0 OptionError else 0),
     fm_SessionStatus = SessionStatusEnd, fm_GlobalID = replicate 8 0, fm_Inbound = None\<rparr>"

definition Writer_Close :: "MuxWriter \<Rightarrow> mbwriter \<Rightarrow> mbwriter option" where
  "Writer_Close w link =
     (case WriteTo (end_meta w) fresh_buffer of
        Some (None, frame) \<Rightarrow> Some (snd (mw_Write link [frame]))
      | _ \<Rightarrow> None)"

end
