(* ===== verification/Mux_Copy.thy ===== *)
theory Mux_Copy
  imports Mux_Session
begin

text \<open>
  What the readers and writers of the multiplexer do to the bytes of a connection: a stream reader takes exactly the
  chunk at the front, copying returns whatever the writer does, and the frame writer puts its data into frames.
\<close>

section \<open>Reading a chunk\<close>

text \<open>Writers that take everything: a session's output without faults, and \<^verbatim>\<open>buf.Discard\<close>.\<close>

locale accepting_writer =
  fixes wr :: "'w \<Rightarrow> MultiBuffer \<Rightarrow> goerr option \<times> 'w"
    and healthy :: "'w \<Rightarrow> bool"
    and takes :: "'w \<Rightarrow> byte list \<Rightarrow> 'w \<Rightarrow> bool"
  assumes takes_nothing: "healthy w \<Longrightarrow> takes w [] w"
    and takes_trans: "takes w bs w1 \<Longrightarrow> takes w1 bs' w2 \<Longrightarrow> takes w (bs @ bs') w2"
    and accepts: "healthy w \<Longrightarrow> mb_small mb \<Longrightarrow> \<exists>w'. wr w mb = (None, w') \<and> healthy w' \<and> takes w (mb_content mb) w'"

definition mw_takes :: "mbwriter \<Rightarrow> byte list \<Rightarrow> mbwriter \<Rightarrow> bool" where
  "mw_takes w bs w' \<longleftrightarrow> mw_content w' = mw_content w @ bs \<and> mw_faults w' = mw_faults w \<and> mw_closed w' = mw_closed w"

interpretation session_output: accepting_writer mw_Write "\<lambda>w. mw_faults w = []" mw_takes
  by unfold_locales (auto simp: mw_takes_def mw_Write_def mw_content_def)

interpretation discarding: accepting_writer Discard "\<lambda>_. True" "\<lambda>_ _ _. True"
  by unfold_locales (auto simp: Discard_def)

lemma MultiBuffer_Len_small: "mb_small mb \<Longrightarrow> MultiBuffer_Len mb = int (length (mb_content mb))"
  by (simp add: mb_small_def MultiBuffer_Len_content)

lemma IsEmpty_small: "mb_small mb \<Longrightarrow> MultiBuffer_IsEmpty mb \<longleftrightarrow> mb_content mb = []"
  by (simp add: mb_small_def MultiBuffer_IsEmpty_content)

text \<open>A reader of one chunk, and one in the middle of it.\<close>

definition one_chunk :: "ChunkStreamReader \<Rightarrow> bool" where
  "one_chunk r \<longleftrightarrow> br_small (cs_reader r) \<and> 0 \<le> leftOverSize r \<and> leftOverSize r < 65536 \<and> maxNumChunk r = 1"

definition within :: "ChunkStreamReader \<Rightarrow> bool" where
  "within r \<longleftrightarrow> one_chunk r \<and> numChunk r \<ge> 1"

lemma chunk_body_step:
  assumes "one_chunk r" "0 < sz" "sz < 65536"
  obtains mb e r' where "chunk_body r sz = Some (mb, e, r')" "one_chunk r' \<and> numChunk r' = numChunk r" "mb_small mb"
    "flat (br_stream (cs_reader r)) = mb_content mb @ flat (br_stream (cs_reader r'))"
    "leftOverSize r' = sz - int (length (mb_content mb))" "e = None \<longrightarrow> br_size (cs_reader r') < br_size (cs_reader r)"
    "e \<noteq> None \<longrightarrow> mb = [] \<and> flat (br_stream (cs_reader r)) = [] \<and> br_size (cs_reader r') \<le> br_size (cs_reader r)"
proof -
  have small: "br_small (cs_reader r)" using assms(1) by (simp add: one_chunk_def)
  obtain mb e rd where rd: "ReadAtMost (cs_reader r) sz = Some (mb, e, rd)" "br_small rd" "mb_small mb" "fin (br_stream rd) = fin (br_stream (cs_reader r))"
    "flat (br_stream (cs_reader r)) = mb_content mb @ flat (br_stream rd)" "int (length (mb_content mb)) \<le> sz"
    "e = None \<longrightarrow> br_size rd < br_size (cs_reader r)" "e \<noteq> None \<longrightarrow> mb = [] \<and> flat (br_stream (cs_reader r)) = [] \<and> rd = cs_reader r"
    by (rule ReadAtMost_small [OF small assms(2)])
  have sz_le: "br_size rd \<le> br_size (cs_reader r)" using rd(7,8) by (cases e) auto
  have i: "i32 (sz - MultiBuffer_Len mb) = sz - int (length (mb_content mb))"
    using assms rd(6) by (simp add: MultiBuffer_Len_small [OF rd(3)])
  show thesis
  proof (cases "MultiBuffer_IsEmpty mb")
    case True
    let ?r' = "r\<lparr>leftOverSize := sz, cs_reader := rd\<rparr>"
    have c: "mb_content mb = []" using True rd(3) by (simp add: IsEmpty_small)
    have eq: "chunk_body r sz = Some ([], e, ?r')" using rd(1) True by (simp add: chunk_body_def)
    have w: "one_chunk ?r' \<and> numChunk ?r' = numChunk r" using assms rd(2) by (simp add: one_chunk_def)
    have f: "flat (br_stream (cs_reader r)) = flat (br_stream rd)" using rd(5) c by simp
    have n: "e \<noteq> None \<longrightarrow> flat (br_stream (cs_reader r)) = []" using rd(8) by blast
    show thesis by (rule that [OF eq w]) (use f n rd(7) sz_le in \<open>simp_all add: mb_small_def\<close>)
  next
    case False
    then have e: "e = None" using rd(8) by (cases e) auto
    let ?r' = "r\<lparr>leftOverSize := sz - int (length (mb_content mb)), cs_reader := rd\<rparr>"
    have eq: "chunk_body r sz = Some (mb, e, ?r')" using rd(1) False i e by (simp add: chunk_body_def)
    have w: "one_chunk ?r' \<and> numChunk ?r' = numChunk r" using assms rd(2,6) by (simp add: one_chunk_def)
    have lt: "br_size rd < br_size (cs_reader r)" using rd(7) e by blast
    show thesis by (rule that [OF eq w rd(3)]) (use rd(5) lt e in simp_all)
  qed
qed

lemma chunk_over: "within r \<Longrightarrow> leftOverSize r = 0 \<Longrightarrow> Chunk_ReadMultiBuffer r = Some ([], Some EOF, r\<lparr>numChunk := numChunk r + 1\<rparr>)"
  by (simp add: Chunk_ReadMultiBuffer_def within_def one_chunk_def)

context accepting_writer begin

lemma offered:
  assumes "healthy w" "mb_small mb"
  obtains w1 where "(if MultiBuffer_IsEmpty mb then (None, w) else wr w mb) = (None, w1)" "healthy w1" "takes w (mb_content mb) w1"
  using accepts [OF assms] takes_nothing [OF assms(1)] assms by (cases "MultiBuffer_IsEmpty mb") (auto simp: IsEmpty_small)

lemma copy_within:
  assumes "within r" "healthy w" "flat (br_stream (cs_reader r)) = data @ rest" "int (length data) = leftOverSize r"
  shows "\<exists>r' w'. copyInternal mux_ReadMultiBuffer wr no_handlers (StreamReader r) w h = Some (readError EOF, StreamReader r', w', h) \<and>
    br_small (cs_reader r') \<and> flat (br_stream (cs_reader r')) = rest \<and> healthy w' \<and> takes w data w' \<and> br_size (cs_reader r') \<le> br_size (cs_reader r)"
  using assms
proof (induction "br_size (cs_reader r)" arbitrary: r w data h rule: less_induct)
  case less
  show ?case
  proof (cases "leftOverSize r = 0")
    case True
    with chunk_over [OF less.prems(1) True] less.prems takes_nothing show ?thesis
      by (subst copyInternal.simps) (auto simp: within_def one_chunk_def)
  next
    case False
    then have pos: "0 < leftOverSize r" "leftOverSize r < 65536" using less.prems(1) by (auto simp: within_def one_chunk_def)
    have one: "one_chunk r" using less.prems(1) by (simp add: within_def)
    obtain mb e r1 where b: "chunk_body r (leftOverSize r) = Some (mb, e, r1)" "one_chunk r1 \<and> numChunk r1 = numChunk r" "mb_small mb"
      "flat (br_stream (cs_reader r)) = mb_content mb @ flat (br_stream (cs_reader r1))"
      "leftOverSize r1 = leftOverSize r - int (length (mb_content mb))" "e = None \<longrightarrow> br_size (cs_reader r1) < br_size (cs_reader r)"
      "e \<noteq> None \<longrightarrow> mb = [] \<and> flat (br_stream (cs_reader r)) = [] \<and> br_size (cs_reader r1) \<le> br_size (cs_reader r)"
      by (rule chunk_body_step [OF one pos])
    have w1r: "within r1" using b(2) less.prems(1) by (simp add: within_def)
    have e: "e = None" using b(7) less.prems(3,4) pos by (cases e) auto
    have le: "length (mb_content mb) \<le> length data"
      using b(2,5) less.prems(4) by (auto simp: one_chunk_def)
    have d: "flat (br_stream (cs_reader r1)) = drop (length (mb_content mb)) data @ rest" "mb_content mb = take (length (mb_content mb)) data"
      using b(4) less.prems(3) le by (metis append_eq_append_conv_if append_take_drop_id drop_append length_take min.absorb2 diff_is_0_eq drop_0 append_eq_conv_conj)+
    have rd: "mux_ReadMultiBuffer (StreamReader r) = Some (mb, None, StreamReader r1)"
      using b(1) e False by (simp add: Chunk_ReadMultiBuffer_def)
    obtain w1 where w1: "(if MultiBuffer_IsEmpty mb then (None, w) else wr w mb) = (None, w1)" "healthy w1" "takes w (mb_content mb) w1"
      by (rule offered [OF less.prems(2) b(3)])
    have "int (length (drop (length (mb_content mb)) data)) = leftOverSize r1" using b(5) less.prems(4) le by simp
    from less.hyps [OF b(6) [rule_format, OF e] w1r w1(2) d(1) this, of h] obtain r' w' where
      ih: "copyInternal mux_ReadMultiBuffer wr no_handlers (StreamReader r1) w1 h = Some (readError EOF, StreamReader r', w', h)"
      "br_small (cs_reader r')" "flat (br_stream (cs_reader r')) = rest" "healthy w'" "takes w1 (drop (length (mb_content mb)) data) w'"
      "br_size (cs_reader r') \<le> br_size (cs_reader r1)" by blast
    have "takes w data w'" using takes_trans [OF w1(3) ih(5)] d(2) by (metis append_take_drop_id)
    moreover have "copyInternal mux_ReadMultiBuffer wr no_handlers (StreamReader r) w h = Some (readError EOF, StreamReader r', w', h)"
      using rd w1(1) ih(1) by (subst copyInternal.simps) (simp add: no_handlers_def Let_def split: if_splits prod.splits)
    ultimately show ?thesis using ih b(6) e by (intro exI [of _ r'] exI [of _ w']) auto
  qed
qed

lemma copy_chunk:
  assumes "br_small reader" "healthy w" "flat (br_stream reader) = PutUint16 (of_nat (length data)) @ data @ rest" "length data < 65536"
  obtains r' w' where "buf_Copy mux_ReadMultiBuffer wr no_handlers (NewStreamReader reader) w () = Some (None, StreamReader r', w', ())"
    "br_small (cs_reader r')" "flat (br_stream (cs_reader r')) = rest" "healthy w'" "takes w data w'" "br_size (cs_reader r') \<le> br_size reader"
proof -
  let ?n = "of_nat (length data) :: u16"
  let ?c = "NewChunkStreamReaderWithChunkCount reader 1"
  obtain rd where rd: "br_ReadFull 2 reader = Some (PutUint16 ?n, None, rd)" "flat (br_stream rd) = data @ rest" "br_small rd" "br_size rd \<le> br_size reader"
    by (rule br_ReadFull_ok [OF br_small_wf [OF assms(1)] assms(3)]) (use assms(1) in auto)
  have n: "uint ?n = int (length data)" using assms(4) by (simp add: unsigned_of_nat take_bit_nat_eq_self)
  let ?r = "?c\<lparr>numChunk := 1, cs_reader := rd\<rparr>"
  show thesis
  proof (cases "data = []")
    case True
    have "mux_ReadMultiBuffer (NewStreamReader reader) = Some ([], Some EOF, StreamReader ?r)"
      using rd(1) True by (simp add: NewStreamReader_def NewChunkStreamReaderWithChunkCount_def Chunk_ReadMultiBuffer_def Uint_Put_exact)
    then have "buf_Copy mux_ReadMultiBuffer wr no_handlers (NewStreamReader reader) w () = Some (None, StreamReader ?r, w, ())"
      by (simp add: buf_Copy_def copyInternal.simps)
    with that [of ?r w] rd True assms(2) takes_nothing show thesis by simp
  next
    case False
    let ?s = "?r\<lparr>leftOverSize := int (length data)\<rparr>"
    have ne: "?n \<noteq> 0" using False n by (metis length_0_conv of_nat_0_eq_iff uint_0_eq)
    have body: "chunk_body ?r (int (length data)) = chunk_body ?s (int (length data))" by (simp add: chunk_body_def)
    have "mux_ReadMultiBuffer (NewStreamReader reader) = mux_ReadMultiBuffer (StreamReader ?s)"
      using rd(1) ne n body False
      by (simp add: NewStreamReader_def NewChunkStreamReaderWithChunkCount_def Chunk_ReadMultiBuffer_def Uint_Put_exact)
    then have eq: "copyInternal mux_ReadMultiBuffer wr no_handlers (NewStreamReader reader) w () =
        copyInternal mux_ReadMultiBuffer wr no_handlers (StreamReader ?s) w ()"
      by (simp add: copyInternal.simps)
    have s: "within ?s" using rd(3) assms(4) by (simp add: within_def one_chunk_def NewChunkStreamReaderWithChunkCount_def)
    obtain r' w' where "copyInternal mux_ReadMultiBuffer wr no_handlers (StreamReader ?s) w () = Some (readError EOF, StreamReader r', w', ())"
      "br_small (cs_reader r')" "flat (br_stream (cs_reader r')) = rest" "healthy w'" "takes w data w'" "br_size (cs_reader r') \<le> br_size rd"
      using copy_within [OF s assms(2), of data rest "()"] rd(2) by auto
    with that [of r' w'] eq rd(4) show thesis by (simp add: buf_Copy_def)
  qed
qed

lemma copy_packet:
  assumes "br_small reader" "healthy w" "flat (br_stream reader) = PutUint16 (of_nat (length data)) @ data @ rest" "length data \<le> 8192"
  obtains r' w' where "buf_Copy mux_ReadMultiBuffer wr no_handlers (PacketRd (NewPacketReader reader d)) w () = Some (None, PacketRd r', w', ())"
    "br_small (pr_reader r')" "flat (br_stream (pr_reader r')) = rest" "healthy w'" "takes w data w'" "br_size (pr_reader r') \<le> br_size reader"
    "fin (br_stream (pr_reader r')) = fin (br_stream reader)"
proof -
  let ?n = "of_nat (length data) :: u16" and ?p = "NewPacketReader reader d"
  obtain r1 where 1: "br_ReadFull 2 reader = Some (PutUint16 ?n, None, r1)" "br_wf r1" "flat (br_stream r1) = data @ rest" "br_small r1"
    "br_size r1 \<le> br_size reader" "fin (br_stream r1) = fin (br_stream reader)"
    by (rule br_ReadFull_ok [OF br_small_wf [OF assms(1)] assms(3)]) (use assms(1) in auto)
  obtain r2 where 2: "br_ReadFull (length data) r1 = Some (data, None, r2)" "flat (br_stream r2) = rest" "br_small r2"
    "br_size r2 \<le> br_size r1" "fin (br_stream r2) = fin (br_stream r1)"
    by (rule br_ReadFull_ok [OF 1(2,3) refl]) (use 1(4) in auto)
  have n: "unat ?n = length data" "uint ?n = int (length data)" using assms(4) by (simp_all add: unsigned_of_nat take_bit_nat_eq_self)
  let ?b = "append_read fresh_buffer data"
  obtain b where rd: "Packet_ReadMultiBuffer ?p = Some ([b], None, ?p\<lparr>pr_reader := r2, pr_eof := True\<rparr>)" "b = ?b \<or> b = ?b\<lparr>b_UDP := d\<rparr>"
    using 1(1) 2(1) n assms(4)
    by (auto simp: Packet_ReadMultiBuffer_def NewPacketReader_def Uint_Put_exact Size_def Let_def split: option.splits if_splits)
  have wf: "buffer_wf ?b" "content ?b = data" using assms(4) by (simp_all add: append_read_wf append_read_content)
  have udp: "buffer_wf (c\<lparr>b_UDP := u\<rparr>) = buffer_wf c" "content (c\<lparr>b_UDP := u\<rparr>) = content c" for c u
    by (simp_all add: buffer_wf_def content_def)
  have b: "mb_small [b]" "mb_content [b] = data"
    using wf rd(2) assms(4) by (auto simp: mb_small_def udp)
  obtain w1 where w1: "(if MultiBuffer_IsEmpty [b] then (None, w) else wr w [b]) = (None, w1)" "healthy w1" "takes w data w1"
    using offered [OF assms(2) b(1)] b(2) by metis
  let ?r' = "?p\<lparr>pr_reader := r2, pr_eof := True\<rparr>"
  have eof: "mux_ReadMultiBuffer (PacketRd ?r') = Some ([], Some EOF, PacketRd ?r')" by (simp add: Packet_ReadMultiBuffer_def)
  have "copyInternal mux_ReadMultiBuffer wr no_handlers (PacketRd ?r') w1 () = Some (readError EOF, PacketRd ?r', w1, ())"
    by (subst copyInternal.simps) (simp add: eof del: mux_ReadMultiBuffer.simps)
  then have "copyInternal mux_ReadMultiBuffer wr no_handlers (PacketRd ?p) w () = Some (readError EOF, PacketRd ?r', w1, ())"
    using rd(1) w1(1) by (subst copyInternal.simps) (simp add: no_handlers_def Let_def split: if_splits prod.splits)
  with that [of ?r' w1] 1 2 w1 show thesis by (simp add: buf_Copy_def)
qed

text \<open>Both kinds of sessions take a frame of at most 8192 bytes.\<close>

lemma copy_frame:
  assumes "br_small reader" "healthy w" "flat (br_stream reader) = PutUint16 (of_nat (length data)) @ data @ rest" "length data \<le> 8192"
  obtains rr w' where "buf_Copy mux_ReadMultiBuffer wr no_handlers (Session_NewReader s reader d) w () = Some (None, rr, w', ())"
    "br_small (mux_underlying rr)" "flat (br_stream (mux_underlying rr)) = rest" "healthy w'" "takes w data w'"
    "br_size (mux_underlying rr) \<le> br_size reader"
proof (cases "s_transferType s = TransferTypeStream")
  case True
  have "length data < 65536" using assms(4) by simp
  from True that show thesis
    by (rule_tac copy_chunk [OF assms(1-3) \<open>length data < 65536\<close>]) (auto simp: Session_NewReader_def)
next
  case False
  with that show thesis by (rule_tac copy_packet [OF assms, of "Some d"]) (auto simp: Session_NewReader_def)
qed

end

section \<open>Copying returns\<close>

fun reader_ok :: "mux_reader \<Rightarrow> bool" where
  "reader_ok (StreamReader r) = one_chunk r"
| "reader_ok (PacketRd r) = br_small (pr_reader r)"

fun reader_size :: "mux_reader \<Rightarrow> nat" where
  "reader_size (StreamReader r) = br_size (cs_reader r)"
| "reader_size (PacketRd r) = (if pr_eof r then 0 else 1)"

lemma br_ReadFull_total:
  assumes "br_small r"
  obtains bs e r' where "br_ReadFull k r = Some (bs, e, r')" "br_small r'" "br_size r' \<le> br_size r" "e = None \<longrightarrow> length bs = k"
    "br_size r' + length bs \<le> br_size r"
proof -
  obtain bs e s where s: "io_ReadFull k (br_stream r) = (bs, e, s)" by (metis prod_cases3)
  have "e = None \<longrightarrow> length bs = k" using s by (auto dest: io_ReadFull_None)
  with br_ReadFull_stream [OF br_small_wf [OF assms] s] that assms show thesis by (metis add_leD1)
qed

lemma packet_read_step:
  assumes "br_small (pr_reader r)"
  shows "\<exists>mb e r'. Packet_ReadMultiBuffer r = Some (mb, e, r') \<and> br_small (pr_reader r') \<and> mb_small mb \<and>
    br_size (pr_reader r') \<le> br_size (pr_reader r) \<and> (e = None \<longrightarrow> \<not> pr_eof r \<and> pr_eof r')"
proof (cases "pr_eof r")
  case True
  with assms show ?thesis by (simp add: Packet_ReadMultiBuffer_def mb_small_def)
next
  case False
  have nil: "mb_small []" by (simp add: mb_small_def)
  obtain bs e1 r1 where 1: "br_ReadFull 2 (pr_reader r) = Some (bs, e1, r1)" "br_small r1" "br_size r1 \<le> br_size (pr_reader r)"
    by (rule br_ReadFull_total [OF assms]) blast
  let ?n = "Uint16 bs"
  obtain pl e2 r2 where 2: "br_ReadFull (unat ?n) r1 = Some (pl, e2, r2)" "br_small r2" "br_size r2 \<le> br_size r1" "e2 = None \<longrightarrow> length pl = unat ?n"
    by (rule br_ReadFull_total [OF 1(2)])
  consider (head) e where "e1 = Some e" | (large) "e1 = None" "uint ?n > Size" | (short) e where "e1 = None" "uint ?n \<le> Size" "e2 = Some e"
    | (done_) "e1 = None" "uint ?n \<le> Size" "e2 = None"
    by (cases e1; cases e2; cases "uint ?n > Size") (auto simp: not_less)
  then show ?thesis
  proof cases
    case done_
    have "length pl = nat (uint ?n)" "uint ?n \<le> 8192" using 2(4) done_ by (simp_all add: Size_def)
    then have len: "length pl \<le> 8192" by linarith
    then have b: "buffer_wf (append_read fresh_buffer pl)" "content (append_read fresh_buffer pl) = pl"
      by (simp_all add: append_read_wf append_read_content)
    have sm: "mb_small [b\<lparr>b_UDP := u\<rparr>]" if "buffer_wf b" "content b = pl" for b u
      using that len by (simp add: mb_small_def buffer_wf_def content_def)
    have sm': "mb_small [append_read fresh_buffer pl]" using b len by (simp add: mb_small_def)
    show ?thesis using False 1 2 done_ sm [OF b] sm'
      by (auto simp: Packet_ReadMultiBuffer_def Let_def split: option.splits)
  qed (use False 1 2 nil in \<open>simp_all add: Packet_ReadMultiBuffer_def\<close>)
qed

lemma chunk_read_step:
  assumes "one_chunk r"
  shows "\<exists>mb e r'. Chunk_ReadMultiBuffer r = Some (mb, e, r') \<and> one_chunk r' \<and> mb_small mb \<and>
    br_size (cs_reader r') \<le> br_size (cs_reader r) \<and> (e = None \<longrightarrow> br_size (cs_reader r') < br_size (cs_reader r))"
proof -
  have nil: "mb_small []" by (simp add: mb_small_def)
  have body: "\<exists>mb e r'. chunk_body r0 sz = Some (mb, e, r') \<and> one_chunk r' \<and> mb_small mb \<and>
    br_size (cs_reader r') \<le> br_size (cs_reader r0) \<and> (e = None \<longrightarrow> br_size (cs_reader r') < br_size (cs_reader r0))"
    if "one_chunk r0" "0 < sz" "sz < 65536" for r0 sz
    by (rule chunk_body_step [OF that]) (metis less_imp_le_nat)
  show ?thesis
  proof (cases "leftOverSize r = 0")
    case False
    with assms body [of r "leftOverSize r"] show ?thesis by (auto simp: Chunk_ReadMultiBuffer_def one_chunk_def)
  next
    case True
    show ?thesis
    proof (cases "numChunk r = 0")
      case False
      with True assms nil show ?thesis by (auto simp: Chunk_ReadMultiBuffer_def one_chunk_def)
    next
      case new: True
      obtain bs e1 r1 where 1: "br_ReadFull 2 (cs_reader r) = Some (bs, e1, r1)" "br_small r1" "br_size r1 \<le> br_size (cs_reader r)"
        by (rule br_ReadFull_total [of "cs_reader r" 2]) (use assms in \<open>auto simp: one_chunk_def\<close>)
      let ?r2 = "r\<lparr>numChunk := 1, cs_reader := r1\<rparr>"
      have one: "one_chunk ?r2" using assms 1(2) by (simp add: one_chunk_def)
      have eq: "Chunk_ReadMultiBuffer r = (case e1 of Some e \<Rightarrow> Some ([], Some e, ?r2)
          | None \<Rightarrow> if Uint16 bs = 0 then Some ([], Some EOF, ?r2) else chunk_body ?r2 (uint (Uint16 bs)))"
        using True new 1(1) assms by (simp add: Chunk_ReadMultiBuffer_def one_chunk_def Let_def cong: option.case_cong)
      show ?thesis
      proof (cases "e1 = None \<and> Uint16 bs \<noteq> 0")
        case True
        have "0 < uint (Uint16 bs)" "uint (Uint16 bs) < 65536"
          using True uint_lt2p [of "Uint16 bs"] by (simp_all add: less_le uint_0_iff)
        from body [OF one this] True eq 1(3) show ?thesis by auto
      next
        case False
        with eq one nil 1(3) show ?thesis by (auto split: option.splits)
      qed
    qed
  qed
qed

lemma mux_read_step:
  assumes "reader_ok rr"
  shows "\<exists>mb e rr'. mux_ReadMultiBuffer rr = Some (mb, e, rr') \<and> reader_ok rr' \<and> mb_small mb \<and>
    br_size (mux_underlying rr') \<le> br_size (mux_underlying rr) \<and> (e = None \<longrightarrow> reader_size rr' < reader_size rr)"
proof (cases rr)
  case (PacketRd r)
  with packet_read_step [of r] assms show ?thesis by fastforce
next
  case (StreamReader r)
  with chunk_read_step [of r] assms show ?thesis by fastforce
qed

lemma copy_returns:
  assumes "reader_ok rr"
  shows "\<exists>err rr' w' h'. copyInternal mux_ReadMultiBuffer wr onData rr w h = Some (err, rr', w', h') \<and> reader_ok rr' \<and>
    br_size (mux_underlying rr') \<le> br_size (mux_underlying rr)"
  using assms
proof (induction "reader_size rr" arbitrary: rr w h rule: less_induct)
  case less
  obtain mb e rr1 where rd: "mux_ReadMultiBuffer rr = Some (mb, e, rr1)" "reader_ok rr1"
    "br_size (mux_underlying rr1) \<le> br_size (mux_underlying rr)" "e = None \<longrightarrow> reader_size rr1 < reader_size rr"
    using mux_read_step [OF less.prems] by blast
  define h1 where "h1 = (if MultiBuffer_IsEmpty mb then h else onData h mb)"
  obtain werr w1 where w: "(if MultiBuffer_IsEmpty mb then (None, w) else wr w mb) = (werr, w1)" by fastforce
  have eq: "copyInternal mux_ReadMultiBuffer wr onData rr w h =
     (case werr of Some x \<Rightarrow> Some (writeError x, rr1, w1, h1) | None \<Rightarrow> (case e of Some x \<Rightarrow> Some (readError x, rr1, w1, h1)
        | None \<Rightarrow> copyInternal mux_ReadMultiBuffer wr onData rr1 w1 h1))"
    by (subst copyInternal.simps) (cases "MultiBuffer_IsEmpty mb"; use w in \<open>simp add: rd(1) h1_def Let_def cong: option.case_cong\<close>)
  show ?case
  proof (cases "werr = None \<and> e = None")
    case True
    with less.hyps [of rr1 w1 h1] rd eq show ?thesis by fastforce
  next
    case False
    with rd eq show ?thesis by (cases werr; cases e) auto
  qed
qed

end
