(* ===== verification/Mux_Client.thy ===== *)
theory Mux_Client
  imports Mux_Copy
begin

text \<open>
  \<^verbatim>\<open>common/mux/client.go\<close>: the worker that owns one multiplexed connection, the handlers of the frames it receives,
  the goroutine that sends a session's input, and the picker of workers. The state of a worker is a record; each
  handler is a function on it. \<open>None\<close> is a panic, or a loop that does not return.
\<close>

section \<open>Reading metadata from the connection\<close>

text \<open>\<^verbatim>\<open>FrameMetadata.Unmarshal\<close> on the buffered reader of a worker.\<close>

definition Unmarshal_br ::
  "FrameMetadata \<Rightarrow> BufferedReader \<Rightarrow> bool \<Rightarrow> (goerr option \<times> FrameMetadata \<times> BufferedReader) option" where
  "Unmarshal_br f reader readSourceAndLocal =
     do { (bs, e, r1) \<leftarrow> br_ReadFull 2 reader;
          (case e of
             Some err \<Rightarrow> Some (Some err, f, r1)
           | None \<Rightarrow>
               if Uint16 bs > 512 then Some (Some (ErrMsg ''invalid metalen''), f, r1)
               else
                 do { (bs', e', r2) \<leftarrow> br_ReadFull (unat (Uint16 bs)) r1;
                      (case e' of
                         Some err \<Rightarrow> Some (Some err, f, r2)
                       | None \<Rightarrow> map_option (\<lambda>(e, f', b'). (e, f', r2))
                                   (UnmarshalFromBuffer f (append_read fresh_buffer bs') readSourceAndLocal)) }) }"

section \<open>The worker\<close>

record ClientWorker =
  cw_mux :: mux_state
  cw_writer :: mbwriter
  cw_done :: bool
  cw_interrupted :: bool
  cw_strategy :: ClientStrategy

definition NewClientWorker :: "mbwriter \<Rightarrow> ClientStrategy \<Rightarrow> ClientWorker" where
  "NewClientWorker writer s =
     \<lparr>cw_mux = \<lparr>mx_manager = NewSessionManager, mx_heap = [], mx_xudp = []\<rparr>, cw_writer = writer, cw_done = False,
      cw_interrupted = False, cw_strategy = s\<rparr>"

definition TotalConnections :: "ClientWorker \<Rightarrow> u32" where
  "TotalConnections m = of_int (sm_Count (mx_manager (cw_mux m)))"

definition ActiveConnections :: "ClientWorker \<Rightarrow> u32" where
  "ActiveConnections m = of_int (sm_Size (mx_manager (cw_mux m)))"

definition cw_Close :: "ClientWorker \<Rightarrow> ClientWorker" where
  "cw_Close m = m\<lparr>cw_done := True\<rparr>"

definition IsClosing :: "ClientWorker \<Rightarrow> bool" where
  "IsClosing m \<longleftrightarrow> MaxConnection (cw_strategy m) > 0 \<and>
     sm_Count (mx_manager (cw_mux m)) \<ge> uint (MaxConnection (cw_strategy m))"

definition IsFull :: "ClientWorker \<Rightarrow> bool" where
  "IsFull m \<longleftrightarrow> IsClosing m \<or> cw_done m \<or>
     (MaxConcurrency (cw_strategy m) > 0 \<and> sm_Size (mx_manager (cw_mux m)) \<ge> uint (MaxConcurrency (cw_strategy m)))"

text \<open>
  The two branches of the select of \<^verbatim>\<open>monitor\<close>; the sizes were read before the tick. The state between closing the manager and
  closing the worker, which other goroutines may see, is reached by the step \<open>idle\<close> of \<open>client_step\<close>.
\<close>

definition monitor_tick :: "int \<Rightarrow> int \<Rightarrow> ClientWorker \<Rightarrow> ClientWorker" where
  "monitor_tick checkSize checkCount m =
     (case CloseIfNoSessionAndIdle (mx_manager (cw_mux m)) checkSize checkCount of (sm, closed) \<Rightarrow>
        let m1 = m\<lparr>cw_mux := (cw_mux m)\<lparr>mx_manager := sm\<rparr>\<rparr> in if closed then cw_Close m1 else m1)"

definition monitor_done :: "int \<Rightarrow> ClientWorker \<Rightarrow> ClientWorker" where
  "monitor_done now m = m\<lparr>cw_mux := sm_Close now (cw_mux m), cw_interrupted := True\<rparr>"

text \<open>
  \<^verbatim>\<open>Dispatch\<close>: the new session gets the link's writer; \<^verbatim>\<open>fetchInput\<close> is started on it. The function runs it through; the steps
  \<open>allocate\<close> and \<open>connect\<close> of \<open>client_step\<close> have the states in between.
\<close>

definition cw_Dispatch :: "mbwriter \<Rightarrow> ClientWorker \<Rightarrow> (ClientWorker \<times> nat) option" where
  "cw_Dispatch link_writer m =
     (if IsFull m then None
      else
        (case Allocate (cw_strategy m) (cw_mux m) of
           (_, None) \<Rightarrow> None
         | (mx, Some ref) \<Rightarrow>
             Some (m\<lparr>cw_mux := mx\<lparr>mx_heap := (mx_heap mx)[ref := (mx_heap mx ! ref)\<lparr>s_output := link_writer\<rparr>]\<rparr>\<rparr>, ref)))"

section \<open>Received frames\<close>

definition discard_stream :: "mux_reader \<Rightarrow> (copy_error option \<times> BufferedReader) option" where
  "discard_stream rr =
     do { (err, rr', _, _) \<leftarrow> buf_Copy mux_ReadMultiBuffer Discard no_handlers rr () ();
          Some (err, mux_underlying rr') }"

definition discard_data :: "FrameMetadata \<Rightarrow> BufferedReader \<Rightarrow> (copy_error option \<times> BufferedReader) option" where
  "discard_data meta reader =
     (if Byte_Has (fm_Option meta) OptionData then discard_stream (NewStreamReader reader) else Some (None, reader))"

definition handleStatueKeepAlive ::
  "ClientWorker \<Rightarrow> FrameMetadata \<Rightarrow> BufferedReader \<Rightarrow> (copy_error option \<times> ClientWorker \<times> BufferedReader) option" where
  "handleStatueKeepAlive m meta reader = map_option (\<lambda>(err, r). (err, m, r)) (discard_data meta reader)"

definition handleStatusNew ::
  "ClientWorker \<Rightarrow> FrameMetadata \<Rightarrow> BufferedReader \<Rightarrow> (copy_error option \<times> ClientWorker \<times> BufferedReader) option" where
  "handleStatusNew m meta reader = map_option (\<lambda>(err, r). (err, m, r)) (discard_data meta reader)"

definition handleStatusEnd ::
  "int \<Rightarrow> ClientWorker \<Rightarrow> FrameMetadata \<Rightarrow> BufferedReader \<Rightarrow> (copy_error option \<times> ClientWorker \<times> BufferedReader) option" where
  "handleStatusEnd now m meta reader =
     (let m1 = (case sm_Get (mx_manager (cw_mux m)) (fm_SessionID meta) of
                  None \<Rightarrow> m | Some ref \<Rightarrow> m\<lparr>cw_mux := Session_Close now (cw_mux m) ref\<rparr>)
      in map_option (\<lambda>(err, r). (err, m1, r)) (discard_data meta reader))"

definition set_output :: "nat \<Rightarrow> mbwriter \<Rightarrow> mux_state \<Rightarrow> mux_state" where
  "set_output ref out st = st\<lparr>mx_heap := (mx_heap st)[ref := (mx_heap st ! ref)\<lparr>s_output := out\<rparr>]\<rparr>"

text \<open>The copy of a frame's data to its session, shared by the two ends; a session whose writer fails is closed.\<close>

definition copy_to_session ::
  "int \<Rightarrow> mux_state \<Rightarrow> nat \<Rightarrow> Destination \<Rightarrow> BufferedReader \<Rightarrow> (copy_error option \<times> mux_state \<times> BufferedReader) option" where
  "copy_to_session now st ref target reader =
     (let s = mx_heap st ! ref in
      do { (err, rr, out, _) \<leftarrow> buf_Copy mux_ReadMultiBuffer mw_Write no_handlers (Session_NewReader s reader target) (s_output s) ();
           let st1 = set_output ref out st;
           (if (case err of Some e \<Rightarrow> IsWriteError e | None \<Rightarrow> False)
            then map_option (\<lambda>(err', r). (err', Session_Close now st1 ref, r)) (discard_stream rr)
            else Some (err, st1, mux_underlying rr)) })"

definition handleStatusKeep ::
  "int \<Rightarrow> ClientWorker \<Rightarrow> FrameMetadata \<Rightarrow> BufferedReader \<Rightarrow> (copy_error option \<times> ClientWorker \<times> BufferedReader) option" where
  "handleStatusKeep now m meta reader =
     (if \<not> Byte_Has (fm_Option meta) OptionData then Some (None, m, reader)
      else
        (case sm_Get (mx_manager (cw_mux m)) (fm_SessionID meta) of
           None \<Rightarrow>
             do { link \<leftarrow> Writer_Close (NewResponseWriter (fm_SessionID meta) TransferTypeStream) (cw_writer m);
                  map_option (\<lambda>(err, r). (err, m\<lparr>cw_writer := link\<rparr>, r)) (discard_stream (NewStreamReader reader)) }
         | Some ref \<Rightarrow>
             map_option (\<lambda>(err, st, r). (err, m\<lparr>cw_mux := st\<rparr>, r)) (copy_to_session now (cw_mux m) ref (fm_Target meta) reader)))"

text \<open>The switch of \<^verbatim>\<open>fetchOutput\<close>: \<open>Inl\<close> leaves the function, \<open>Inr\<close> goes on with the next frame.\<close>

definition frame_switch ::
  "int \<Rightarrow> ClientWorker \<Rightarrow> FrameMetadata \<Rightarrow> BufferedReader \<Rightarrow> ((ClientWorker \<times> BufferedReader) + (ClientWorker \<times> BufferedReader)) option" where
  "frame_switch now m meta reader =
     (let go = map_option (\<lambda>(err, m', r). if err = None then Inr (m', r) else Inl (m', r)) in
      if fm_SessionStatus meta = SessionStatusKeepAlive then go (handleStatueKeepAlive m meta reader)
      else if fm_SessionStatus meta = SessionStatusEnd then go (handleStatusEnd now m meta reader)
      else if fm_SessionStatus meta = SessionStatusNew then go (handleStatusNew m meta reader)
      else if fm_SessionStatus meta = SessionStatusKeep then go (handleStatusKeep now m meta reader)
      else Some (Inl (m, reader)))"

definition zero_meta :: FrameMetadata where
  "zero_meta = \<lparr>fm_Target = zero_Destination, fm_SessionID = 0, fm_Option = 0, fm_SessionStatus = 0,
     fm_GlobalID = replicate 8 0, fm_Inbound = None\<rparr>"

partial_function (option) fetch_loop ::
  "int \<Rightarrow> ClientWorker \<Rightarrow> FrameMetadata \<Rightarrow> BufferedReader \<Rightarrow> (ClientWorker \<times> BufferedReader) option" where
  "fetch_loop now m meta reader =
     do { (e, meta', r1) \<leftarrow> Unmarshal_br meta reader False;
          (case e of
             Some err \<Rightarrow> Some (m, r1)
           | None \<Rightarrow>
               do { res \<leftarrow> frame_switch now m meta' r1;
                    (case res of Inl x \<Rightarrow> Some x | Inr (m', r2) \<Rightarrow> fetch_loop now m' meta' r2) }) }"

definition fetchOutput :: "int \<Rightarrow> ClientWorker \<Rightarrow> mbreader \<Rightarrow> (ClientWorker \<times> BufferedReader) option" where
  "fetchOutput now m link_reader =
     map_option (\<lambda>(m', r). (cw_Close m', r)) (fetch_loop now m zero_meta \<lparr>br_Reader = link_reader, br_Buffer = []\<rparr>)"

section \<open>Sending a session's input\<close>

text \<open>The frame writer as a \<^verbatim>\<open>buf.Writer\<close> for \<^verbatim>\<open>buf.Copy\<close>; \<open>None\<close> is the state after a panic.\<close>

definition frame_wr :: "(MuxWriter \<times> mbwriter) option \<Rightarrow> MultiBuffer \<Rightarrow> goerr option \<times> (MuxWriter \<times> mbwriter) option" where
  "frame_wr ws mb =
     (case ws of
        None \<Rightarrow> (Some (ErrMsg ''panic''), None)
      | Some (w, link) \<Rightarrow>
          (case Writer_WriteMultiBuffer w mb link of
             None \<Rightarrow> (Some (ErrMsg ''panic''), None)
           | Some (e, w', link') \<Rightarrow> (e, Some (w', link'))))"

text \<open>What the timed first read of the input meets.\<close>

datatype first_read = NotTimeoutReader | ReadTimeout | ReadInTime

definition writeFirstPayload ::
  "first_read \<Rightarrow> mbreader \<Rightarrow> (MuxWriter \<times> mbwriter) option \<Rightarrow> goerr option \<times> mbreader \<times> (MuxWriter \<times> mbwriter) option" where
  "writeFirstPayload t input ws =
     (case t of
        ReadInTime \<Rightarrow>
          (case mr_ReadMultiBuffer input of
             (mb, Some e, input') \<Rightarrow> (Some e, input', ws)
           | (mb, None, input') \<Rightarrow> (case frame_wr ws mb of (e, ws') \<Rightarrow> (e, input', ws')))
      | _ \<Rightarrow> (case frame_wr ws [] of (e, ws') \<Rightarrow> (e, input, ws')))"

definition fetchInput ::
  "int \<Rightarrow> Destination \<Rightarrow> byte list \<Rightarrow> Inbound option \<Rightarrow> first_read \<Rightarrow> mbreader \<Rightarrow> nat \<Rightarrow> ClientWorker \<Rightarrow> ClientWorker option" where
  "fetchInput now target globalID inbound t input ref m =
     (let transferType = (if d_Network target = Network_UDP then TransferTypePacket else TransferTypeStream);
          st1 = (cw_mux m)\<lparr>mx_heap := (mx_heap (cw_mux m))[ref := (mx_heap (cw_mux m) ! ref)\<lparr>s_transferType := transferType\<rparr>]\<rparr>;
          ws0 = Some (NewWriter (s_ID (mx_heap st1 ! ref)) target transferType globalID inbound, cw_writer m);
          finish = (\<lambda>failed ws. do { (w, link) \<leftarrow> ws;
                                     link' \<leftarrow> Writer_Close (if failed then w\<lparr>w_hasError := True\<rparr> else w) link;
                                     Some (m\<lparr>cw_mux := Session_Close now st1 ref, cw_writer := link'\<rparr>) })
      in case writeFirstPayload t input ws0 of
           (Some e, input1, ws1) \<Rightarrow> finish True ws1
         | (None, input1, ws1) \<Rightarrow>
             do { (err, _, ws2, _) \<leftarrow> buf_Copy (\<lambda>r. Some (mr_ReadMultiBuffer r)) frame_wr no_handlers input1 ws1 ();
                  finish (err \<noteq> None) ws2 })"

end
