(* ===== verification/Mux_Unmarshal.thy ===== *)
theory Mux_Unmarshal
  imports Mux_Client "HOL-Library.Sublist"
begin

text \<open>
  Reading frame metadata from the connection: no input makes it panic, it never hands back more than it was given, and
  on a buffered reader it does what it does on the stream of bytes behind the reader.
\<close>

section \<open>Reading consumes a prefix\<close>

lemma ReadFullFrom_suffix: "Buffer_ReadFullFrom b r k = Some (n, e, b1, r1) \<Longrightarrow> suffix (flat r1) (flat r)"
proof -
  have full: "suffix (flat r1) (flat r)" if "io_ReadFull k r = (bs, e, r1)" for bs e r1 k
    using that by (cases e) (auto dest!: io_ReadFull_None io_ReadFull_Some simp: suffix_drop)
  assume rd: "Buffer_ReadFullFrom b r k = Some (n, e, b1, r1)"
  show ?thesis
  proof (cases "i32 (b_end b + k) > b_len32 b")
    case False
    with rd obtain area :: "byte list" where "(case io_ReadFull (length area) r of (bs, err, r') \<Rightarrow> Some (length bs, err, append_read b bs, r')) = Some (n, e, b1, r1)"
      by (simp add: Buffer_ReadFullFrom_def Let_def bind_eq_Some_conv) blast
    then show ?thesis by (cases "io_ReadFull (length area) r") (auto dest: full)
  qed (use rd in \<open>simp add: Buffer_ReadFullFrom_def\<close>)
qed

lemma readPort_suffix: "readPort b r = Some (x, b1, r1) \<Longrightarrow> suffix (flat r1) (flat r)"
  by (auto simp: readPort_def split: option.splits prod.splits dest: ReadFullFrom_suffix)

lemma read_ip_suffix: "read_ip k b r = Some (x, b1, r1) \<Longrightarrow> suffix (flat r1) (flat r)"
  by (auto simp: read_ip_def split: option.splits prod.splits dest: ReadFullFrom_suffix)

lemma read_domain_suffix: "read_domain b r = Some (x, b1, r1) \<Longrightarrow> suffix (flat r1) (flat r)"
  by (auto simp: read_domain_def Let_def split: option.splits prod.splits list.splits if_splits
      dest!: ReadFullFrom_suffix intro: suffix_order.trans)

lemma readAddress_suffix: "readAddress p b r = Some (x, b1, r1) \<Longrightarrow> suffix (flat r1) (flat r)"
  by (auto simp: readAddress_def Let_def split: option.splits prod.splits if_splits AddressFamily.splits
      dest!: ReadFullFrom_suffix read_ip_suffix read_domain_suffix intro: suffix_order.trans)

lemma addrParser_portFirst: "portFirst addrParser"
  by (simp add: addrParser_def NewAddressParser_def)

lemma ReadAddressPort_returns:
  obtains res r' where "ReadAddressPort addrParser None r = Some (res, r')" "suffix (flat r') (flat r)"
proof (cases rule: readPort_good [OF wf_new, of "[]" r, case_names room ok err])
  case room
  then show ?case by simp
next
  case (ok port b1 r1)
  then have "good_read 257 b1 (readAddress (o_maps addrParser) b1 r1)" by (intro readAddress_good) auto
  then obtain x b2 r2 where x: "readAddress (o_maps addrParser) b1 r1 = Some (x, b2, r2)"
    by (auto simp: good_read_def split: option.splits)
  have "suffix (flat r2) (flat r)"
    using readAddress_suffix [OF x] readPort_suffix [OF ok(1)] by (rule suffix_order.trans)
  with that ok(1) x addrParser_portFirst show thesis by (cases x) (auto simp: ReadAddressPort_def)
next
  case (err e b1 r1)
  with that readPort_suffix [OF err(1)] addrParser_portFirst show thesis by (simp add: ReadAddressPort_def)
qed

section \<open>No panic\<close>

lemma read_dest_returns:
  assumes "buffer_wf b"
  obtains x b' where "read_dest msg msg' network b = Some (x, b')" "buffer_wf b'"
proof -
  obtain res r where r: "ReadAddressPort addrParser None (buffer_stream b) = Some (res, r)" "suffix (flat r) (flat (buffer_stream b))"
    by (rule ReadAddressPort_returns)
  then obtain xs where "content b = xs @ flat r" by (auto simp: suffix_def)
  from read_to_content [OF assms this] have "buffer_wf (read_to b r)" by simp
  with that r(1) show thesis by (cases res) (auto simp: read_dest_def)
qed

lemma read_rest_returns:
  assumes "buffer_wf b"
  shows "\<exists>e f' b'. read_rest f False b = Some (e, f', b')"
  by (auto simp: read_rest_def Buffer_Bytes_content [OF assms])

lemma UnmarshalFromBuffer_returns:
  assumes "buffer_wf b"
  shows "\<exists>e f' b'. UnmarshalFromBuffer f b False = Some (e, f', b')"
proof (cases "Buffer_Len b < 4")
  case False
  then have len: "4 \<le> length (content b)" using Buffer_Len_content [OF assms] by simp
  have byte: "Buffer_Byte b (int i) = Some (content b ! i)" if "i < length (content b)" for i
    using Buffer_Byte_content [OF assms that] .
  let ?g = "f\<lparr>fm_SessionID := Uint16 (take 2 (content b)), fm_SessionStatus := content b ! 2, fm_Option := content b ! 3,
              fm_Target := (fm_Target f)\<lparr>d_Network := Network_Unknown\<rparr>\<rparr>"
  have fields: "Buffer_BytesTo b 2 = Some (take 2 (content b))" "Buffer_Byte b 2 = Some (content b ! 2)" "Buffer_Byte b 3 = Some (content b ! 3)"
    using Buffer_BytesTo_content [OF assms, of 2] byte [of 2] byte [of 3] len by simp_all
  show ?thesis
  proof (cases "has_target (content b ! 2) b \<and> \<not> Buffer_Len b < 8")
    case True
    then have b4: "Buffer_Byte b 4 = Some (content b ! 4)" "5 \<le> length (content b)"
      using byte [of 4] Buffer_Len_content [OF assms] by simp_all
    have wf5: "buffer_wf (Buffer_Advance b 5)" using Advance_content [OF assms, of 5] b4(2) by simp
    obtain x b1 where x: "read_dest ''failed to parse address and port'' ''unknown network type'' (content b ! 4) (Buffer_Advance b 5) = Some (x, b1)" "buffer_wf b1"
      by (rule read_dest_returns [OF wf5])
    show ?thesis
    proof (cases x)
      case (Inr d)
      with read_rest_returns [OF x(2), of "?g\<lparr>fm_Target := d\<rparr>"] True False fields b4(1) x(1) show ?thesis
        by (simp add: UnmarshalFromBuffer_def)
    qed (use True False fields b4(1) x(1) in \<open>simp add: UnmarshalFromBuffer_def\<close>)
  next
    case no: False
    with read_rest_returns [OF assms, of ?g] False fields show ?thesis
      by (cases "has_target (content b ! 2) b") (simp_all add: UnmarshalFromBuffer_def Let_def)
  qed
qed (simp add: UnmarshalFromBuffer_def)

section \<open>On a buffered reader\<close>

lemma Unmarshal_br_returns:
  assumes "br_small reader"
  obtains e f' r' where "Unmarshal_br f reader False = Some (e, f', r')" "br_small r'" "br_size r' \<le> br_size reader"
    "e = None \<longrightarrow> br_size r' < br_size reader"
proof -
  obtain bs e1 r1 where 1: "br_ReadFull 2 reader = Some (bs, e1, r1)" "br_small r1" "br_size r1 + length bs \<le> br_size reader" "e1 = None \<longrightarrow> length bs = 2"
    by (rule br_ReadFull_total [OF assms]) blast
  show thesis
  proof (cases "e1 = None \<and> \<not> Uint16 bs > 512")
    case False
    with 1 that show thesis by (cases e1) (auto simp: Unmarshal_br_def)
  next
    case True
    obtain bs' e2 r2 where 2: "br_ReadFull (unat (Uint16 bs)) r1 = Some (bs', e2, r2)" "br_small r2" "br_size r2 + length bs' \<le> br_size r1"
      "e2 = None \<longrightarrow> length bs' = unat (Uint16 bs)"
      by (rule br_ReadFull_total [OF 1(2)]) blast
    show thesis
    proof (cases e2)
      case (Some err)
      with 1 2 True that show thesis by (auto simp: Unmarshal_br_def)
    next
      case None
      have "length bs' \<le> 512" using None 2(4) True by (simp add: word_less_nat_alt not_less)
      then have wf: "buffer_wf (append_read fresh_buffer bs')" by (simp add: append_read_wf)
      obtain e f' b' where "UnmarshalFromBuffer f (append_read fresh_buffer bs') False = Some (e, f', b')"
        using UnmarshalFromBuffer_returns [OF wf] by blast
      with 1 2 True None that show thesis by (auto simp: Unmarshal_br_def)
    qed
  qed
qed

text \<open>Metadata written by a peer is received; the reader stands behind it.\<close>

lemma Unmarshal_br_ok:
  assumes "meta_ok f u" "length (meta_bytes f u) \<le> 512" "length (fm_GlobalID f0) = 8" "br_small r"
    and "flat (br_stream r) = PutUint16 (of_nat (length (meta_bytes f u))) @ meta_bytes f u @ rest"
  obtains r' where "Unmarshal_br f0 r (fm_Inbound f \<noteq> None) = Some (None, received f0 f u, r')" "br_small r'"
    "flat (br_stream r') = rest" "fin (br_stream r') = fin (br_stream r)" "br_size r' \<le> br_size r"
proof -
  let ?m = "meta_bytes f u" and ?n = "of_nat (length (meta_bytes f u)) :: u16"
  have n: "unat ?n = length ?m" "\<not> ?n > 512"
    using assms(2) by (simp_all add: unsigned_of_nat take_bit_nat_eq_self word_less_nat_alt not_less)
  have two: "length (PutUint16 ?n) = 2" by simp
  obtain r1 where 1: "br_ReadFull 2 r = Some (PutUint16 ?n, None, r1)" "br_wf r1" "flat (br_stream r1) = ?m @ rest"
    "fin (br_stream r1) = fin (br_stream r)" "br_small r1" "br_size r1 \<le> br_size r"
    by (rule br_ReadFull_ok [OF br_small_wf [OF assms(4)] assms(5) two]) (use assms(4) in auto)
  obtain r2 where 2: "br_ReadFull (length ?m) r1 = Some (?m, None, r2)" "flat (br_stream r2) = rest"
    "fin (br_stream r2) = fin (br_stream r1)" "br_small r2" "br_size r2 \<le> br_size r1"
    by (rule br_ReadFull_ok [OF 1(2,3) refl]) (use 1(5) in auto)
  have wf: "buffer_wf (append_read fresh_buffer ?m)" "content (append_read fresh_buffer ?m) = ?m"
    using assms(2) by (simp_all add: append_read_wf append_read_content)
  obtain b' where "UnmarshalFromBuffer f0 (append_read fresh_buffer ?m) (fm_Inbound f \<noteq> None) = Some (None, received f0 f u, b')"
    by (rule UnmarshalFromBuffer_ok [OF assms(1) wf assms(3)])
  with that [of r2] 1 2 n show thesis by (simp add: Unmarshal_br_def Uint_Put_exact)
qed

end
