(* ===== verification/Mux_Framing.thy ===== *)
theory Mux_Framing
  imports Mux_Copy
begin

text \<open>
  The frame writer of \<^verbatim>\<open>common/mux/writer.go\<close>: whatever vectors a session writes, the connection gets a sequence of
  frames of at most 8192 bytes of data each that carry the session's bytes in order.
\<close>

section \<open>Frames on the wire\<close>

text \<open>A frame: its metadata, the UDP address of its only packet, and the data when it has the option for it.\<close>

type_synonym mframe = "FrameMetadata \<times> Destination option \<times> byte list option"

fun frame_bytes :: "mframe \<Rightarrow> byte list" where
  "frame_bytes (f, u, data) =
     PutUint16 (of_nat (length (meta_bytes f u))) @ meta_bytes f u @
     (case data of None \<Rightarrow> [] | Some d \<Rightarrow> PutUint16 (of_nat (length d)) @ d)"

definition udp_ok :: "Destination option \<Rightarrow> bool" where
  "udp_ok u \<longleftrightarrow> (case u of None \<Rightarrow> True | Some d \<Rightarrow> dest_ok d)"

fun frame_ok :: "mframe \<Rightarrow> bool" where
  "frame_ok (f, u, data) \<longleftrightarrow> meta_ok f u \<and> (Byte_Has (fm_Option f) OptionData \<longleftrightarrow> data \<noteq> None) \<and>
     (case data of None \<Rightarrow> True | Some d \<Rightarrow> length d \<le> 8192)"

lemma length_dest_bytes: "dest_ok d \<Longrightarrow> length (dest_bytes d) \<le> 259"
  using length_address_port_bytes by (auto simp: dest_ok_def dest_bytes_def split: option.splits)

lemma length_meta_bytes:
  assumes "meta_ok f u"
  shows "length (meta_bytes f u) \<le> 784" "fm_Inbound f = None \<Longrightarrow> length (meta_bytes f u) \<le> 512"
proof -
  consider (new) "fm_SessionStatus f = SessionStatusNew" | (udp) d where "fm_SessionStatus f \<noteq> SessionStatusNew" "u = Some d"
    | (short) "fm_SessionStatus f \<noteq> SessionStatusNew" "u = None"
    by (cases u) auto
  then have "length (meta_bytes f u) \<le> (if fm_Inbound f = None then 512 else 784)"
  proof cases
    case new
    then have "dest_ok (fm_Target f)" "inbound_ok (fm_Inbound f)" "length (fm_GlobalID f) = 8"
      using assms by (auto simp: meta_ok_def)
    moreover have "length (new_tail f u) \<le> (if fm_Inbound f = None then 8 else 520)"
      using calculation(2,3) length_dest_bytes [of "in_Source (the (fm_Inbound f))"] length_dest_bytes [of "in_Local (the (fm_Inbound f))"]
      by (cases "fm_Inbound f") (auto simp: new_tail_def inbound_bytes_def inbound_ok_def)
    ultimately show ?thesis using new length_dest_bytes [of "fm_Target f"]
      by (auto simp: meta_bytes_def meta_tail_def)
  next
    case udp
    then have "dest_ok d" using assms by (simp add: meta_ok_def)
    with udp length_dest_bytes [of d] show ?thesis by (simp add: meta_bytes_def meta_tail_def)
  next
    case short
    then show ?thesis by (simp add: meta_bytes_def meta_tail_def)
  qed
  then show "length (meta_bytes f u) \<le> 784" "fm_Inbound f = None \<Longrightarrow> length (meta_bytes f u) \<le> 512" by (auto split: if_splits)
qed

section \<open>One frame\<close>

definition writer_ok :: "MuxWriter \<Rightarrow> bool" where
  "writer_ok w \<longleftrightarrow> w_followup w \<or> (dest_ok (w_dest w) \<and> inbound_ok (w_inbound w) \<and> length (w_globalID w) = 8)"

definition next_meta :: "MuxWriter \<Rightarrow> byte \<Rightarrow> FrameMetadata" where
  "next_meta w opt = (fst (getNextFrameMeta w))\<lparr>fm_Option := opt\<rparr>"

lemma getNextFrameMeta_next: "getNextFrameMeta w = (next_meta w 0, w\<lparr>w_followup := True\<rparr>)"
  by (cases w) (simp add: getNextFrameMeta_def next_meta_def Let_def)

lemma next_meta_simps [simp]:
  "fm_SessionID (next_meta w opt) = w_id w" "fm_Option (next_meta w opt) = opt" "fm_Target (next_meta w opt) = w_dest w"
  "fm_SessionStatus (next_meta w opt) = (if w_followup w then SessionStatusKeep else SessionStatusNew)"
  "(next_meta w opt)\<lparr>fm_Option := opt'\<rparr> = next_meta w opt'" "fm_Inbound (next_meta w opt) = w_inbound w" "fm_GlobalID (next_meta w opt) = w_globalID w"
  by (simp_all add: next_meta_def getNextFrameMeta_def Let_def)

lemma next_meta_ok: "writer_ok w \<Longrightarrow> udp_ok u \<Longrightarrow> meta_ok (next_meta w opt) u"
  by (auto simp: meta_ok_def writer_ok_def udp_ok_def)

definition chunk_udp :: "MultiBuffer \<Rightarrow> Destination option" where
  "chunk_udp mb = (if length mb = 1 then b_UDP (hd mb) else None)"

lemma fresh_udp [simp]: "buffer_wf (fresh_buffer\<lparr>b_UDP := u\<rparr>)" "content (fresh_buffer\<lparr>b_UDP := u\<rparr>) = []" "room (fresh_buffer\<lparr>b_UDP := u\<rparr>) = 8192"
  using wf_new [of "[]"] content_new [of "[]"] room_new [of "[]"] by (simp_all add: buffer_wf_def content_def room_def)

lemma fresh_udp_None: "fresh_buffer\<lparr>b_UDP := None\<rparr> = fresh_buffer"
  by (simp add: buf_New_def)

lemma WriteTo_fresh:
  assumes "meta_ok f u"
  obtains b where "WriteTo f (fresh_buffer\<lparr>b_UDP := u\<rparr>) = Some (None, b)" "buffer_wf b" "content b = frame_bytes (f, u, None)" "2 \<le> room b"
proof -
  obtain b where "WriteTo f (fresh_buffer\<lparr>b_UDP := u\<rparr>) = Some (None, b)"
    "appended (fresh_buffer\<lparr>b_UDP := u\<rparr>) (PutUint16 (of_nat (length (meta_bytes f u))) @ meta_bytes f u) b"
    by (rule WriteTo_ok [OF assms, of "fresh_buffer\<lparr>b_UDP := u\<rparr>"]) (use length_meta_bytes(1) [OF assms] in auto)
  with that [of b] length_meta_bytes(1) [OF assms] show thesis by (simp add: appended_def)
qed

lemma mw_Write_takes: "mw_faults w = [] \<Longrightarrow> \<exists>w'. mw_Write w mb = (None, w') \<and> mw_takes w (mb_content mb) w'"
  by (auto simp: mw_Write_def mw_takes_def mw_content_def)

lemma writeMetaOnly_ok:
  assumes "writer_ok w" "mw_faults link = []"
  obtains link' where "writeMetaOnly w link = Some (None, w\<lparr>w_followup := True\<rparr>, link')" "mw_takes link (frame_bytes (next_meta w 0, None, None)) link'"
proof -
  obtain b where b: "WriteTo (next_meta w 0) fresh_buffer = Some (None, b)" "content b = frame_bytes (next_meta w 0, None, None)"
    by (rule WriteTo_fresh [OF next_meta_ok [OF assms(1), of None 0]]) (auto simp: udp_ok_def fresh_udp_None)
  obtain link' where "mw_Write link [b] = (None, link')" "mw_takes link (mb_content [b]) link'"
    using mw_Write_takes [OF assms(2)] by blast
  with b that show thesis by (simp add: writeMetaOnly_def getNextFrameMeta_next)
qed

lemma writeData_ok:
  assumes "writer_ok w" "mw_faults link = []" "mb_small mb" "length (mb_content mb) \<le> 8192" "udp_ok (chunk_udp mb)"
  obtains link' where "writeData w mb link = Some (None, w\<lparr>w_followup := True\<rparr>, link')"
    "mw_takes link (frame_bytes (next_meta w OptionData, chunk_udp mb, Some (mb_content mb))) link'"
proof -
  let ?f = "next_meta w OptionData" and ?u = "chunk_udp mb" and ?n = "of_nat (length (mb_content mb)) :: u16"
  obtain b where b: "WriteTo ?f (fresh_buffer\<lparr>b_UDP := ?u\<rparr>) = Some (None, b)" "buffer_wf b" "content b = frame_bytes (?f, ?u, None)" "2 \<le> room b"
    by (rule WriteTo_fresh [OF next_meta_ok [OF assms(1,5)]])
  have frame: "(if length mb = 1 then fresh_buffer\<lparr>b_UDP := b_UDP (hd mb)\<rparr> else fresh_buffer) = fresh_buffer\<lparr>b_UDP := ?u\<rparr>"
    by (simp add: chunk_udp_def fresh_udp_None)
  let ?b' = "append_read b (PutUint16 ?n)"
  have w: "Buffer_Write b (PutUint16 (of_int (MultiBuffer_Len mb))) = (2, None, ?b')"
    using b(2,4) by (simp add: Buffer_Write_append MultiBuffer_Len_small [OF assms(3)])
  have c: "content ?b' = content b @ PutUint16 ?n" using b(2,4) by (simp add: append_read_content)
  obtain link' where "mw_Write link (?b' # mb) = (None, link')" "mw_takes link (mb_content (?b' # mb)) link'"
    using mw_Write_takes [OF assms(2)] by blast
  with that [of link'] b(1,3) c w frame show thesis
    by (simp add: writeData_def getNextFrameMeta_next writeMetaWithFrame_def Byte_Set_def)
qed

section \<open>A vector of buffers\<close>

fun data_frames :: "MuxWriter \<Rightarrow> (Destination option \<times> byte list) list \<Rightarrow> mframe list" where
  "data_frames w [] = []"
| "data_frames w ((u, d) # cs) = (next_meta w OptionData, u, Some d) # data_frames (w\<lparr>w_followup := True\<rparr>) cs"

definition pieces_ok :: "(Destination option \<times> byte list) list \<Rightarrow> bool" where
  "pieces_ok cs \<longleftrightarrow> (\<forall>(u, d) \<in> set cs. udp_ok u \<and> length d \<le> 8192)"

definition udps_ok :: "MultiBuffer \<Rightarrow> bool" where
  "udps_ok mb \<longleftrightarrow> (\<forall>b \<in> set mb. udp_ok (b_UDP b))"

lemma chunk_udp_ok: "udps_ok mb \<Longrightarrow> udp_ok (chunk_udp mb)"
  by (cases mb) (auto simp: udps_ok_def chunk_udp_def udp_ok_def)

text \<open>A chunk is made of whole buffers: none is longer than the size it is split at.\<close>

lemma SplitSize_whole:
  assumes "mb_small mb" "mb \<noteq> []"
  obtains rest r where "SplitSize mb 8192 = Some (rest, r)" "mb = r @ rest" "r \<noteq> []" "length (mb_content r) \<le> 8192"
proof -
  obtain b0 mb' where mb: "mb = b0 # mb'" using assms(2) by (cases mb) auto
  with assms have b0: "buffer_wf b0" "length (content b0) \<le> 8192" by (auto simp: mb_small_def)
  obtain rest r where sp: "SplitSize_loop mb 0 8192 = (rest, r)" by (cases "SplitSize_loop mb 0 8192")
  from SplitSize_loop_spec [OF _ _ _ sp] assms
  have parts: "mb = r @ rest" "r \<noteq> [] \<longrightarrow> int (length (mb_content r)) \<le> 8192"
    "rest \<noteq> [] \<longrightarrow> 8192 < int (length (mb_content r)) + int (length (content (hd rest)))"
    by (auto simp: mb_small_def)
  then have "r \<noteq> []" using mb b0 by auto
  moreover have "SplitSize mb 8192 = Some (rest, r)" using mb b0 sp by (simp add: SplitSize_def Buffer_Len_content)
  ultimately show thesis using that [of rest r] parts by simp
qed

lemma next_chunk_ok:
  assumes "mb_small mb" "\<not> MultiBuffer_IsEmpty mb" "udps_ok mb"
  obtains rest r where "next_chunk t mb = Some (rest, r)" "mb = r @ rest" "r \<noteq> []" "length (mb_content r) \<le> 8192"
proof -
  have ne: "mb \<noteq> []" using assms(2) by auto
  show thesis
  proof (cases t)
    case TransferTypeStream
    with that SplitSize_whole [OF assms(1) ne] show thesis by (auto simp: next_chunk_def)
  next
    case TransferTypePacket
    with that ne assms(1) show thesis by (cases mb) (auto simp: next_chunk_def mb_small_def)
  qed
qed

lemma mb_small_append: "mb_small (r @ rest) \<Longrightarrow> mb_small r \<and> mb_small rest"
  by (auto simp: mb_small_def)

lemma mw_takes_trans: "mw_takes w a w1 \<Longrightarrow> mw_takes w1 b w2 \<Longrightarrow> mw_takes w (a @ b) w2"
  by (simp add: mw_takes_def)

lemma followup_twice: "w\<lparr>w_followup := True\<rparr>\<lparr>w_followup := True\<rparr> = w\<lparr>w_followup := True\<rparr>"
  by simp

lemma write_chunks_ok:
  assumes "writer_ok w" "mw_faults link = []" "mb_small mb" "udps_ok mb"
  shows "\<exists>cs link'. write_chunks w mb link = Some (None, if cs = [] then w else w\<lparr>w_followup := True\<rparr>, link') \<and>
    mw_takes link (concat (map frame_bytes (data_frames w cs))) link' \<and> pieces_ok cs \<and> concat (map snd cs) = mb_content mb \<and>
    (MultiBuffer_IsEmpty mb \<longleftrightarrow> cs = [])"
  using assms
proof (induction "length mb" arbitrary: w mb link rule: less_induct)
  case less
  show ?case
  proof (cases "MultiBuffer_IsEmpty mb")
    case True
    with less.prems show ?thesis
      by (intro exI [of _ "[]"] exI [of _ link]) (simp add: write_chunks.simps mw_takes_def pieces_ok_def IsEmpty_small)
  next
    case False
    obtain rest r where c: "next_chunk (w_transferType w) mb = Some (rest, r)" "mb = r @ rest" "r \<noteq> []" "length (mb_content r) \<le> 8192"
      by (rule next_chunk_ok [OF less.prems(3) False less.prems(4)])
    have sm: "mb_small r" "mb_small rest" "udps_ok r" "udps_ok rest"
      using mb_small_append [of r rest] less.prems(3,4) c(2) by (simp_all add: udps_ok_def)
    let ?w = "w\<lparr>w_followup := True\<rparr>" and ?p = "(chunk_udp r, mb_content r)"
    obtain link1 where 1: "writeData w r link = Some (None, ?w, link1)"
      "mw_takes link (frame_bytes (next_meta w OptionData, chunk_udp r, Some (mb_content r))) link1"
      by (rule writeData_ok [OF less.prems(1,2) sm(1) c(4) chunk_udp_ok [OF sm(3)]])
    have shorter: "length rest < length mb" using c(2,3) by simp
    have next_ok: "writer_ok ?w" "mw_faults link1 = []" using 1(2) less.prems(2) by (simp_all add: writer_ok_def mw_takes_def)
    from less.hyps [OF shorter next_ok sm(2,4)] obtain cs link' where
      ih: "write_chunks ?w rest link1 = Some (None, ?w, link')"
        "mw_takes link1 (concat (map frame_bytes (data_frames ?w cs))) link'" "pieces_ok cs" "concat (map snd cs) = mb_content rest"
      unfolding followup_twice if_cancel by blast
    have "write_chunks w mb link = Some (None, ?w, link')"
      using False c(1) 1(1) ih(1) by (subst write_chunks.simps) simp
    moreover have "mw_takes link (concat (map frame_bytes (data_frames w (?p # cs)))) link'"
      using mw_takes_trans [OF 1(2) ih(2)] by simp
    moreover have "pieces_ok (?p # cs)" using ih(3) c(4) chunk_udp_ok [OF sm(3)] by (simp add: pieces_ok_def)
    ultimately show ?thesis using ih(4) c(2) False by (intro exI [of _ "?p # cs"] exI [of _ link']) simp
  qed
qed

lemma Writer_WriteMultiBuffer_ok:
  assumes "writer_ok w" "mw_faults link = []" "mb_small mb" "udps_ok mb"
  obtains fs cs link' where "Writer_WriteMultiBuffer w mb link = Some (None, w\<lparr>w_followup := True\<rparr>, link')"
    "mw_takes link (concat (map frame_bytes fs)) link'" "pieces_ok cs" "concat (map snd cs) = mb_content mb"
    "fs = (if MultiBuffer_IsEmpty mb then [(next_meta w 0, None, None)] else data_frames w cs)"
proof (cases "MultiBuffer_IsEmpty mb")
  case True
  obtain link' where "writeMetaOnly w link = Some (None, w\<lparr>w_followup := True\<rparr>, link')" "mw_takes link (frame_bytes (next_meta w 0, None, None)) link'"
    by (rule writeMetaOnly_ok [OF assms(1,2)])
  with that [of link' "[(next_meta w 0, None, None)]" "[]"] True assms(3) show thesis
    by (simp add: Writer_WriteMultiBuffer_def pieces_ok_def IsEmpty_small)
next
  case False
  with write_chunks_ok [OF assms] that show thesis by (auto simp: Writer_WriteMultiBuffer_def)
qed

end
