(* ===== verification/Mux_Demux.thy ===== *)
theory Mux_Demux
  imports Mux_Unmarshal Mux_Framing
begin

text \<open>
  What a client worker does with the bytes of its connection: it returns on every input, preserves its session table
  consistent, and gives each session the data of its own frames.
\<close>

section \<open>The reading loop returns\<close>

lemma reader_ok_underlying: "reader_ok rr \<Longrightarrow> br_small (mux_underlying rr)"
  by (cases rr) (auto simp: one_chunk_def)

lemma NewStreamReader_ok [simp]: "reader_ok (NewStreamReader r) \<longleftrightarrow> br_small r" "mux_underlying (NewStreamReader r) = r"
  by (simp_all add: NewStreamReader_def NewChunkStreamReaderWithChunkCount_def one_chunk_def)

lemma Session_NewReader_ok [simp]: "reader_ok (Session_NewReader s r d) \<longleftrightarrow> br_small r" "mux_underlying (Session_NewReader s r d) = r"
  by (auto simp: Session_NewReader_def NewPacketReader_def)

lemma buf_Copy_returns:
  assumes "reader_ok rr"
  shows "\<exists>err rr' w' h'. buf_Copy mux_ReadMultiBuffer wr onData rr w h = Some (err, rr', w', h') \<and> reader_ok rr' \<and>
    br_size (mux_underlying rr') \<le> br_size (mux_underlying rr)"
  using copy_returns [OF assms, of wr onData w h] by (auto simp: buf_Copy_def)

lemma discard_stream_returns:
  assumes "reader_ok rr"
  shows "\<exists>err r'. discard_stream rr = Some (err, r') \<and> br_small r' \<and> br_size r' \<le> br_size (mux_underlying rr)"
  using buf_Copy_returns [OF assms, of Discard no_handlers "()" "()"] by (auto simp: discard_stream_def intro: reader_ok_underlying)

lemma discard_data_returns:
  assumes "br_small r"
  shows "\<exists>err r'. discard_data meta r = Some (err, r') \<and> br_small r' \<and> br_size r' \<le> br_size r"
  using discard_stream_returns [of "NewStreamReader r"] assms by (auto simp: discard_data_def)

lemma end_meta_written:
  obtains frame where "WriteTo (end_meta w) fresh_buffer = Some (None, frame)" "buffer_wf frame"
    "content frame = PutUint16 4 @ PutUint16 (w_id w) @ [SessionStatusEnd, if w_hasError w then OptionError else 0]"
proof -
  let ?m = "meta_bytes (end_meta w) None"
  have st: "fm_SessionStatus (end_meta w) = SessionStatusEnd" "SessionStatusEnd \<noteq> SessionStatusNew"
    by (simp_all add: end_meta_def SessionStatusEnd_def SessionStatusNew_def)
  have m: "?m = PutUint16 (w_id w) @ [SessionStatusEnd, if w_hasError w then OptionError else 0]"
    using st by (simp add: meta_bytes_def meta_tail_def end_meta_def Byte_Set_def)
  obtain b' where "WriteTo (end_meta w) fresh_buffer = Some (None, b')" "appended fresh_buffer (PutUint16 (of_nat (length ?m)) @ ?m) b'"
    by (rule WriteTo_ok [of "end_meta w" None fresh_buffer]) (use st m in \<open>auto simp: meta_ok_def\<close>)
  with that [of b'] m show thesis by (simp add: appended_def)
qed

lemma Writer_Close_written:
  obtains frame where "Writer_Close w link = Some (snd (mw_Write link [frame]))" "buffer_wf frame"
    "content frame = PutUint16 4 @ PutUint16 (w_id w) @ [SessionStatusEnd, if w_hasError w then OptionError else 0]"
proof -
  obtain frame where "WriteTo (end_meta w) fresh_buffer = Some (None, frame)" "buffer_wf frame"
    "content frame = PutUint16 4 @ PutUint16 (w_id w) @ [SessionStatusEnd, if w_hasError w then OptionError else 0]"
    by (rule end_meta_written)
  with that show thesis by (simp add: Writer_Close_def)
qed

lemma copy_to_session_returns:
  assumes "br_small r"
  shows "\<exists>err st' r'. copy_to_session now st ref target r = Some (err, st', r') \<and> br_small r' \<and> br_size r' \<le> br_size r"
proof -
  let ?s = "mx_heap st ! ref"
  obtain err rr out h where c: "buf_Copy mux_ReadMultiBuffer mw_Write no_handlers (Session_NewReader ?s r target) (s_output ?s) () = Some (err, rr, out, h)"
    "reader_ok rr" "br_size (mux_underlying rr) \<le> br_size r"
    using buf_Copy_returns [of "Session_NewReader ?s r target" mw_Write no_handlers "s_output ?s" "()"] assms by auto
  obtain err' r' where d: "discard_stream rr = Some (err', r')" "br_small r'" "br_size r' \<le> br_size (mux_underlying rr)"
    using discard_stream_returns [OF c(2)] by blast
  show ?thesis
    using c(1,3) d reader_ok_underlying [OF c(2)]
    by (cases "case err of Some e \<Rightarrow> IsWriteError e | None \<Rightarrow> False") (simp_all add: copy_to_session_def Let_def)
qed

lemma handlers_return:
  assumes "br_small r"
  shows "\<exists>err m' r'. handleStatueKeepAlive m meta r = Some (err, m', r') \<and> br_small r' \<and> br_size r' \<le> br_size r"
    "\<exists>err m' r'. handleStatusNew m meta r = Some (err, m', r') \<and> br_small r' \<and> br_size r' \<le> br_size r"
    "\<exists>err m' r'. handleStatusEnd now m meta r = Some (err, m', r') \<and> br_small r' \<and> br_size r' \<le> br_size r"
    "\<exists>err m' r'. handleStatusKeep now m meta r = Some (err, m', r') \<and> br_small r' \<and> br_size r' \<le> br_size r"
proof -
  show "\<exists>err m' r'. handleStatusKeep now m meta r = Some (err, m', r') \<and> br_small r' \<and> br_size r' \<le> br_size r"
  proof (cases "sm_Get (mx_manager (cw_mux m)) (fm_SessionID meta)")
    case None
    obtain frame where "Writer_Close (NewResponseWriter (fm_SessionID meta) TransferTypeStream) (cw_writer m) = Some (snd (mw_Write (cw_writer m) [frame]))"
      by (rule Writer_Close_written)
    with None discard_stream_returns [of "NewStreamReader r"] assms show ?thesis by (auto simp: handleStatusKeep_def)
  next
    case (Some ref)
    with copy_to_session_returns [OF assms] assms show ?thesis by (fastforce simp: handleStatusKeep_def)
  qed
qed (use discard_data_returns [OF assms, of meta] in \<open>auto simp: handleStatueKeepAlive_def handleStatusNew_def handleStatusEnd_def Let_def\<close>)

lemma frame_switch_returns:
  assumes "br_small r"
  shows "\<exists>m' r'. (frame_switch now m meta r = Some (Inl (m', r')) \<or> frame_switch now m meta r = Some (Inr (m', r'))) \<and>
    br_small r' \<and> br_size r' \<le> br_size r"
proof -
  have go: "\<exists>m' r'. (map_option (\<lambda>(err, m', r). if err = None then Inr (m', r) else Inl (m', r)) x = Some (Inl (m', r')) \<or>
        map_option (\<lambda>(err, m', r). if err = None then Inr (m', r) else Inl (m', r)) x = Some (Inr (m', r'))) \<and> br_small r' \<and> br_size r' \<le> br_size r"
    if "\<exists>err m' r'. x = Some (err, m', r') \<and> br_small r' \<and> br_size r' \<le> br_size r" for x :: "(copy_error option \<times> ClientWorker \<times> BufferedReader) option"
  proof -
    from that obtain err m1 r1 where "x = Some (err, m1, r1)" "br_small r1" "br_size r1 \<le> br_size r" by blast
    then show ?thesis by (cases err) auto
  qed
  show ?thesis
    unfolding frame_switch_def Let_def using go handlers_return [OF assms] assms by (auto simp del: map_option_eq_Some)
qed

lemma fetch_loop_returns:
  assumes "br_small r"
  shows "\<exists>m' r'. fetch_loop now m meta r = Some (m', r') \<and> br_small r'"
  using assms
proof (induction "br_size r" arbitrary: m meta r rule: less_induct)
  case less
  obtain e meta' r1 where u: "Unmarshal_br meta r False = Some (e, meta', r1)" "br_small r1" "e = None \<longrightarrow> br_size r1 < br_size r"
    by (rule Unmarshal_br_returns [OF less.prems]) blast
  obtain m2 r2 where h: "frame_switch now m meta' r1 = Some (Inl (m2, r2)) \<or> frame_switch now m meta' r1 = Some (Inr (m2, r2))"
    "br_small r2" "br_size r2 \<le> br_size r1"
    using frame_switch_returns [OF u(2)] by blast
  show ?case
  proof (cases e)
    case None
    with u h less.hyps [of r2 m2 meta'] show ?thesis by (subst fetch_loop.simps) auto
  qed (use u in \<open>simp add: fetch_loop.simps\<close>)
qed

section \<open>The session table\<close>

abbreviation table :: "mux_state \<Rightarrow> u16 \<Rightarrow> nat option" where
  "table st \<equiv> map_of (sm_sessions (mx_manager st))"

definition session_table_ok :: "mux_state \<Rightarrow> bool" where
  "session_table_ok st \<longleftrightarrow>
     (\<forall>i ref. table st i = Some ref \<longrightarrow> ref < length (mx_heap st) \<and> s_ID (mx_heap st ! ref) = i \<and> \<not> s_closed (mx_heap st ! ref)) \<and>
     (sm_closed (mx_manager st) \<longrightarrow> sm_sessions (mx_manager st) = []) \<and> (\<forall>s \<in> set (mx_heap st). s_XUDP s = None)"

lemma session_table_okD:
  assumes "session_table_ok st" "table st i = Some ref"
  shows "ref < length (mx_heap st)" "s_ID (mx_heap st ! ref) = i" "\<not> s_closed (mx_heap st ! ref)" "s_XUDP (mx_heap st ! ref) = None"
    "\<not> sm_closed (mx_manager st)"
  using assms by (auto simp: session_table_ok_def)

definition outputs_ok :: "mux_state \<Rightarrow> bool" where
  "outputs_ok st \<longleftrightarrow> (\<forall>i ref. table st i = Some ref \<longrightarrow> mw_faults (s_output (mx_heap st ! ref)) = [])"

text \<open>What a session looks like from outside: its identifier, whether the table has it, what its output got, whether it is closed.\<close>

record session_view =
  v_id :: u16
  v_live :: bool
  v_got :: "byte list"
  v_closed :: bool

definition view :: "mux_state \<Rightarrow> nat \<Rightarrow> session_view" where
  "view st ref = (let s = mx_heap st ! ref in
     \<lparr>v_id = s_ID s, v_live = (table st (s_ID s) = Some ref), v_got = mw_content (s_output s), v_closed = s_closed s\<rparr>)"

text \<open>The effect of a received frame on a session, as the protocol means it.\<close>

fun recv :: "mframe \<Rightarrow> session_view \<Rightarrow> session_view" where
  "recv (f, u, data) v =
     (if v_live v \<and> v_id v = fm_SessionID f then
        (if fm_SessionStatus f = SessionStatusEnd then v\<lparr>v_live := False, v_closed := True\<rparr>
         else v\<lparr>v_got := v_got v @ (case data of None \<Rightarrow> [] | Some d \<Rightarrow> d)\<rparr>)
      else v)"

lemma upd_nth: "i < length xs \<Longrightarrow> xs[i := v] ! j = (if j = i then v else xs ! j)"
  by (cases "j = i") auto

lemma Session_Close_table:
  assumes "session_table_ok st" "table st i = Some ref"
  defines "s \<equiv> mx_heap st ! ref"
  shows "Session_Close now st ref =
     st\<lparr>mx_heap := (mx_heap st)[ref := s\<lparr>s_closed := True, s_done := True, s_interrupted := True, s_output := (s_output s)\<lparr>mw_closed := True\<rparr>\<rparr>],
        mx_manager := (mx_manager st)\<lparr>sm_sessions := AList.delete i (sm_sessions (mx_manager st))\<rparr>\<rparr>"
  using session_table_okD [OF assms(1,2)] by (simp add: Session_Close_def sm_Remove_def s_def Let_def)

lemma close_view:
  assumes "session_table_ok st" "table st i = Some ref"
  shows "session_table_ok (Session_Close now st ref)" "outputs_ok st \<Longrightarrow> outputs_ok (Session_Close now st ref)"
    "length (mx_heap (Session_Close now st ref)) = length (mx_heap st)"
    "sm_closed (mx_manager (Session_Close now st ref)) = sm_closed (mx_manager st)"
    "table (Session_Close now st ref) = (table st)(i := None)"
    "j < length (mx_heap st) \<Longrightarrow> view (Session_Close now st ref) j =
       (if j = ref then (view st j)\<lparr>v_live := False, v_closed := True\<rparr> else view st j)"
proof -
  note close = Session_Close_table [OF assms] and D = session_table_okD [OF assms]
  show t: "table (Session_Close now st ref) = (table st)(i := None)" by (simp add: close delete_conv')
  have other: "k \<noteq> ref" if "table st i' = Some k" "i' \<noteq> i" for i' k using that session_table_okD(2) [OF assms(1) that(1)] D(2) by auto
  show "session_table_ok (Session_Close now st ref)"
    unfolding session_table_ok_def t using assms(1) other D(1,4,5)
    by (auto simp: close session_table_ok_def upd_nth dest!: set_update_subset_insert [THEN subsetD])
  show "outputs_ok (Session_Close now st ref)" if "outputs_ok st"
    unfolding outputs_ok_def t using that other D(1) by (auto simp: close outputs_ok_def upd_nth)
  show "length (mx_heap (Session_Close now st ref)) = length (mx_heap st)" "sm_closed (mx_manager (Session_Close now st ref)) = sm_closed (mx_manager st)"
    by (simp_all add: close)
  show "view (Session_Close now st ref) j = (if j = ref then (view st j)\<lparr>v_live := False, v_closed := True\<rparr> else view st j)" if "j < length (mx_heap st)"
  proof (cases "j = ref")
    case True
    with D show ?thesis by (simp add: view_def t Let_def) (simp add: close mw_content_def)
  next
    case False
    have "mx_heap (Session_Close now st ref) ! j = mx_heap st ! j" using False by (simp add: close)
    moreover have "((table st)(i := None)) (s_ID (mx_heap st ! j)) = Some j \<longleftrightarrow> table st (s_ID (mx_heap st ! j)) = Some j"
      using assms(2) False by (cases "s_ID (mx_heap st ! j) = i") simp_all
    ultimately show ?thesis using False by (simp add: view_def t)
  qed
qed

lemma set_output_view:
  assumes "session_table_ok st" "table st i = Some ref" "mw_takes (s_output (mx_heap st ! ref)) d out"
  shows "session_table_ok (set_output ref out st)" "outputs_ok st \<Longrightarrow> outputs_ok (set_output ref out st)"
    "length (mx_heap (set_output ref out st)) = length (mx_heap st)"
    "mx_manager (set_output ref out st) = mx_manager st"
    "j < length (mx_heap st) \<Longrightarrow> view (set_output ref out st) j = (if j = ref then (view st j)\<lparr>v_got := v_got (view st j) @ d\<rparr> else view st j)"
proof -
  note D = session_table_okD [OF assms(1,2)]
  show "session_table_ok (set_output ref out st)"
    using assms(1) D(1,4) by (auto simp: session_table_ok_def set_output_def upd_nth dest!: set_update_subset_insert [THEN subsetD])
  show "outputs_ok (set_output ref out st)" if "outputs_ok st"
    using that assms(2,3) D(1) by (auto simp: outputs_ok_def set_output_def upd_nth mw_takes_def)
qed (use assms(3) in \<open>auto simp: set_output_def view_def mw_takes_def Let_def nth_list_update\<close>)

section \<open>Receiving frames\<close>

definition ready :: "mux_state \<Rightarrow> bool" where
  "ready st \<longleftrightarrow> session_table_ok st \<and> outputs_ok st \<and> \<not> sm_closed (mx_manager st)"

definition tracks :: "mframe list \<Rightarrow> mux_state \<Rightarrow> mux_state \<Rightarrow> bool" where
  "tracks fs st st' \<longleftrightarrow> ready st' \<and> length (mx_heap st') = length (mx_heap st) \<and>
     (\<forall>j < length (mx_heap st). view st' j = fold recv fs (view st j))"

lemma tracks_Nil: "ready st \<Longrightarrow> tracks [] st st"
  by (simp add: tracks_def)

lemma tracks_Cons: "tracks [x] st st1 \<Longrightarrow> tracks xs st1 st2 \<Longrightarrow> tracks (x # xs) st st2"
  by (simp add: tracks_def)

lemma view_simps [simp]:
  "v_id (view st j) = s_ID (mx_heap st ! j)" "v_live (view st j) \<longleftrightarrow> table st (s_ID (mx_heap st ! j)) = Some j"
  "v_got (view st j) = mw_content (s_output (mx_heap st ! j))" "v_closed (view st j) = s_closed (mx_heap st ! j)"
  by (simp_all add: view_def Let_def)

lemma recv_other: "table st (fm_SessionID f) \<noteq> Some j \<Longrightarrow> recv (f, u, data) (view st j) = view st j"
  by auto

text \<open>A frame without data that does not end a session, or one whose session is not in the table, changes no session.\<close>

lemma tracks_same:
  assumes "ready st" "table st (fm_SessionID f) = None \<or> (fm_SessionStatus f \<noteq> SessionStatusEnd \<and> data = None)"
  shows "tracks [(f, u, data)] st st"
proof -
  have "recv (f, u, data) (view st j) = view st j" for j using assms(2) by (cases "table st (fm_SessionID f) = Some j") auto
  with assms(1) show ?thesis by (simp add: tracks_def del: recv.simps)
qed

lemma tracks_end:
  assumes "ready st" "table st (fm_SessionID f) = Some ref" "fm_SessionStatus f = SessionStatusEnd"
  shows "tracks [(f, u, data)] st (Session_Close now st ref)"
proof -
  note T = session_table_okD [OF _ assms(2)]
  have ok: "session_table_ok st" using assms(1) by (simp add: ready_def)
  have "view (Session_Close now st ref) j = recv (f, u, data) (view st j)" if "j < length (mx_heap st)" for j
    using close_view(6) [OF ok assms(2) that] recv_other [of st f j] T(2) [OF ok] assms(2,3) by (cases "j = ref") auto
  then show ?thesis using close_view(1-4) [OF ok assms(2)] assms(1) by (simp add: tracks_def ready_def del: recv.simps)
qed

lemma tracks_data:
  assumes "ready st" "table st (fm_SessionID f) = Some ref" "fm_SessionStatus f \<noteq> SessionStatusEnd"
    and "mw_takes (s_output (mx_heap st ! ref)) d out"
  shows "tracks [(f, u, Some d)] st (set_output ref out st)"
proof -
  have ok: "session_table_ok st" using assms(1) by (simp add: ready_def)
  note T = session_table_okD [OF ok assms(2)] and V = set_output_view [OF ok assms(2,4)]
  have "view (set_output ref out st) j = recv (f, u, Some d) (view st j)" if "j < length (mx_heap st)" for j
    using V(5) [OF that] recv_other [of st f j] T(2) assms(2,3) by (cases "j = ref") auto
  then show ?thesis using V(1-4) assms(1) by (simp add: tracks_def ready_def del: recv.simps)
qed

lemma discard_frame:
  assumes "br_small r" "flat (br_stream r) = PutUint16 (of_nat (length d)) @ d @ rest" "length d \<le> 8192"
  obtains r' where "discard_stream (NewStreamReader r) = Some (None, r')" "br_small r'" "flat (br_stream r') = rest"
proof -
  have "length d < 65536" using assms(3) by simp
  then obtain c where "buf_Copy mux_ReadMultiBuffer Discard no_handlers (NewStreamReader r) () () = Some (None, StreamReader c, (), ())"
    "br_small (cs_reader c)" "flat (br_stream (cs_reader c)) = rest"
    by (rule discarding.copy_chunk [OF assms(1) TrueI assms(2), of "()"]) auto
  with that [of "cs_reader c"] show thesis by (simp add: discard_stream_def)
qed

lemma discard_data_frame:
  assumes "br_small r" "frame_ok (f, u, data)" "fm_Option meta = fm_Option f"
    and "flat (br_stream r) = (case data of None \<Rightarrow> [] | Some d \<Rightarrow> PutUint16 (of_nat (length d)) @ d) @ rest"
  obtains r' where "discard_data meta r = Some (None, r')" "br_small r'" "flat (br_stream r') = rest"
proof (cases data)
  case None
  with that [of r] assms show thesis by (simp add: discard_data_def)
next
  case (Some d)
  obtain r' where "discard_stream (NewStreamReader r) = Some (None, r')" "br_small r'" "flat (br_stream r') = rest"
    by (rule discard_frame [of r d rest]) (use Some assms in auto)
  with that [of r'] Some assms show thesis by (simp add: discard_data_def)
qed

lemma copy_to_session_ok:
  assumes "ready st" "table st i = Some ref" "br_small r" "flat (br_stream r) = PutUint16 (of_nat (length d)) @ d @ rest" "length d \<le> 8192"
  obtains out r' where "copy_to_session now st ref target r = Some (None, set_output ref out st, r')"
    "mw_takes (s_output (mx_heap st ! ref)) d out" "br_small r'" "flat (br_stream r') = rest"
proof -
  have healthy: "mw_faults (s_output (mx_heap st ! ref)) = []" using assms(1,2) by (auto simp: ready_def outputs_ok_def)
  obtain rr out where "buf_Copy mux_ReadMultiBuffer mw_Write no_handlers (Session_NewReader (mx_heap st ! ref) r target) (s_output (mx_heap st ! ref)) () = Some (None, rr, out, ())"
    "br_small (mux_underlying rr)" "flat (br_stream (mux_underlying rr)) = rest" "mw_takes (s_output (mx_heap st ! ref)) d out"
    by (rule session_output.copy_frame [OF assms(3) healthy assms(4,5)]) blast
  with that show thesis by (simp add: copy_to_session_def)
qed

lemma status_distinct:
  "SessionStatusKeep \<noteq> SessionStatusEnd" "SessionStatusKeep \<noteq> SessionStatusKeepAlive" "SessionStatusEnd \<noteq> SessionStatusKeepAlive"
  "SessionStatusEnd \<noteq> SessionStatusNew"
  by (simp_all add: SessionStatusNew_def SessionStatusKeep_def SessionStatusEnd_def SessionStatusKeepAlive_def)

text \<open>The frames that a peer sends for the sessions of a client.\<close>

fun reply_frame :: "mframe \<Rightarrow> bool" where
  "reply_frame (f, u, data) \<longleftrightarrow> frame_ok (f, u, data) \<and> fm_Inbound f = None \<and> (fm_SessionStatus f = SessionStatusKeep \<or> fm_SessionStatus f = SessionStatusEnd)"

definition same_header :: "FrameMetadata \<Rightarrow> FrameMetadata \<Rightarrow> bool" where
  "same_header meta f \<longleftrightarrow> fm_SessionID meta = fm_SessionID f \<and> fm_SessionStatus meta = fm_SessionStatus f \<and> fm_Option meta = fm_Option f"

lemma handle_keep:
  assumes "ready (cw_mux m)" "frame_ok (f, u, data)" "same_header meta f" "fm_SessionStatus f = SessionStatusKeep" "br_small r"
    and "flat (br_stream r) = (case data of None \<Rightarrow> [] | Some d \<Rightarrow> PutUint16 (of_nat (length d)) @ d) @ rest"
  shows "\<exists>m' r'. handleStatusKeep now m meta r = Some (None, m', r') \<and> tracks [(f, u, data)] (cw_mux m) (cw_mux m') \<and>
    br_small r' \<and> flat (br_stream r') = rest"
proof (cases data)
  case None
  with assms tracks_same [OF assms(1), of f data u] status_distinct show ?thesis
    by (simp add: handleStatusKeep_def same_header_def)
next
  case (Some d)
  have fl: "flat (br_stream r) = PutUint16 (of_nat (length d)) @ d @ rest" "length d \<le> 8192" "Byte_Has (fm_Option meta) OptionData"
    using Some assms by (auto simp: same_header_def)
  have get: "sm_Get (mx_manager (cw_mux m)) (fm_SessionID meta) = table (cw_mux m) (fm_SessionID f)"
    using assms(1,3) by (simp add: sm_Get_def ready_def same_header_def)
  show ?thesis
  proof (cases "table (cw_mux m) (fm_SessionID f)")
    case None
    obtain r' where r': "discard_stream (NewStreamReader r) = Some (None, r')" "br_small r'" "flat (br_stream r') = rest"
      by (rule discard_frame [OF assms(5) fl(1,2)])
    obtain frame where "Writer_Close (NewResponseWriter (fm_SessionID meta) TransferTypeStream) (cw_writer m) = Some (snd (mw_Write (cw_writer m) [frame]))"
      by (rule Writer_Close_written)
    with r' None get fl(3) tracks_same [OF assms(1), of f data u] show ?thesis by (simp add: handleStatusKeep_def)
  next
    case ref: (Some ref)
    obtain out r' where c: "copy_to_session now (cw_mux m) ref (fm_Target meta) r = Some (None, set_output ref out (cw_mux m), r')"
      "mw_takes (s_output (mx_heap (cw_mux m) ! ref)) d out" "br_small r'" "flat (br_stream r') = rest"
      by (rule copy_to_session_ok [OF assms(1) ref assms(5) fl(1,2)])
    have "tracks [(f, u, Some d)] (cw_mux m) (set_output ref out (cw_mux m))"
      by (rule tracks_data [OF assms(1) ref _ c(2)]) (use assms(4) status_distinct in simp)
    with c get ref fl(3) Some show ?thesis by (simp add: handleStatusKeep_def)
  qed
qed

lemma handle_end:
  assumes "ready (cw_mux m)" "frame_ok (f, u, data)" "same_header meta f" "fm_SessionStatus f = SessionStatusEnd" "br_small r"
    and "flat (br_stream r) = (case data of None \<Rightarrow> [] | Some d \<Rightarrow> PutUint16 (of_nat (length d)) @ d) @ rest"
  shows "\<exists>m' r'. handleStatusEnd now m meta r = Some (None, m', r') \<and> tracks [(f, u, data)] (cw_mux m) (cw_mux m') \<and>
    br_small r' \<and> flat (br_stream r') = rest"
proof -
  have opt: "fm_Option meta = fm_Option f" and get: "sm_Get (mx_manager (cw_mux m)) (fm_SessionID meta) = table (cw_mux m) (fm_SessionID f)"
    using assms(1,3) by (simp_all add: sm_Get_def ready_def same_header_def)
  obtain r' where "discard_data meta r = Some (None, r')" "br_small r'" "flat (br_stream r') = rest"
    by (rule discard_data_frame [OF assms(5,2) opt assms(6)])
  with get tracks_same [OF assms(1), of f data u] tracks_end [OF assms(1) _ assms(4), of _ u data now] show ?thesis
    by (cases "table (cw_mux m) (fm_SessionID f)") (auto simp: handleStatusEnd_def)
qed

lemma handle_reply:
  assumes "ready (cw_mux m)" "reply_frame (f, u, data)" "same_header meta f" "br_small r"
    and "flat (br_stream r) = (case data of None \<Rightarrow> [] | Some d \<Rightarrow> PutUint16 (of_nat (length d)) @ d) @ rest"
  obtains m' r' where "frame_switch now m meta r = Some (Inr (m', r'))" "tracks [(f, u, data)] (cw_mux m) (cw_mux m')"
    "br_small r'" "flat (br_stream r') = rest"
proof -
  have st: "fm_SessionStatus meta = fm_SessionStatus f" "frame_ok (f, u, data)" using assms(2,3) by (auto simp: same_header_def)
  consider "fm_SessionStatus f = SessionStatusKeep" | "fm_SessionStatus f = SessionStatusEnd" using assms(2) by auto
  then show thesis
  proof cases
    case 1
    with handle_keep [OF assms(1) st(2) assms(3) 1 assms(4,5), of now] st(1) status_distinct that show thesis
      by (auto simp: frame_switch_def Let_def)
  next
    case 2
    with handle_end [OF assms(1) st(2) assms(3) 2 assms(4,5), of now] st(1) status_distinct that show thesis
      by (auto simp: frame_switch_def Let_def)
  qed
qed

lemma received_header:
  assumes "fm_SessionStatus f = SessionStatusKeep \<or> fm_SessionStatus f = SessionStatusEnd"
  shows "same_header (received f0 f u) f" "fm_GlobalID (received f0 f u) = fm_GlobalID f0"
  using assms status_distinct by (auto simp: same_header_def received_def)

lemma fetch_reply:
  assumes "ready (cw_mux m)" "reply_frame x" "br_small r" "length (fm_GlobalID meta) = 8" "flat (br_stream r) = frame_bytes x @ rest"
  obtains m' meta' r' where "fetch_loop now m meta r = fetch_loop now m' meta' r'" "tracks [x] (cw_mux m) (cw_mux m')"
    "br_small r'" "length (fm_GlobalID meta') = 8" "flat (br_stream r') = rest"
proof -
  obtain f u data where x: "x = (f, u, data)" by (cases x)
  let ?tail = "case data of None \<Rightarrow> [] | Some d \<Rightarrow> PutUint16 (of_nat (length d)) @ d" and ?meta = "received meta f u"
  have f: "meta_ok f u" "fm_Inbound f = None" "fm_SessionStatus f = SessionStatusKeep \<or> fm_SessionStatus f = SessionStatusEnd"
    and xf: "reply_frame (f, u, data)" using assms(2) x by auto
  have fl: "flat (br_stream r) = PutUint16 (of_nat (length (meta_bytes f u))) @ meta_bytes f u @ ?tail @ rest" using assms(5) x by simp
  obtain r1 where 1: "Unmarshal_br meta r (fm_Inbound f \<noteq> None) = Some (None, ?meta, r1)" "br_small r1" "flat (br_stream r1) = ?tail @ rest"
    by (rule Unmarshal_br_ok [OF f(1) length_meta_bytes(2) [OF f(1,2)] assms(4,3) fl])
  obtain m' r' where h: "frame_switch now m ?meta r1 = Some (Inr (m', r'))" "tracks [(f, u, data)] (cw_mux m) (cw_mux m')"
    "br_small r'" "flat (br_stream r') = rest"
    by (rule handle_reply [OF assms(1) xf received_header(1) [OF f(3)] 1(2,3)])
  have "fetch_loop now m meta r = fetch_loop now m' ?meta r'"
    using 1(1) f(2) h(1) by (subst fetch_loop.simps) simp
  with that h x assms(4) received_header(2) [OF f(3)] show thesis by simp
qed

lemma fetch_end:
  assumes "br_small r" "flat (br_stream r) = []"
  obtains r' where "fetch_loop now m meta r = Some (m, r')"
proof -
  have "length (flat (br_stream r)) < 2" using assms(2) by simp
  then obtain bs e s where "io_ReadFull 2 (br_stream r) = (bs, Some e, s)"
    using io_ReadFull_short by metis
  from br_ReadFull_stream [OF br_small_wf [OF assms(1)] this] obtain r' where "br_ReadFull 2 r = Some (bs, Some e, r')" by metis
  then have "fetch_loop now m meta r = Some (m, r')" by (subst fetch_loop.simps) (simp add: Unmarshal_br_def)
  with that show thesis by blast
qed

lemma fetch_replies:
  assumes "ready (cw_mux m)" "list_all reply_frame xs" "br_small r" "length (fm_GlobalID meta) = 8" "flat (br_stream r) = concat (map frame_bytes xs)"
  shows "\<exists>m' r'. fetch_loop now m meta r = Some (m', r') \<and> tracks xs (cw_mux m) (cw_mux m')"
  using assms
proof (induction xs arbitrary: m meta r)
  case Nil
  then obtain r' where "fetch_loop now m meta r = Some (m, r')" by (auto intro: fetch_end [of r now m meta])
  with Nil tracks_Nil show ?case by blast
next
  case (Cons x xs)
  then have x: "reply_frame x" "flat (br_stream r) = frame_bytes x @ concat (map frame_bytes xs)" by auto
  obtain m1 meta1 r1 where 1: "fetch_loop now m meta r = fetch_loop now m1 meta1 r1" "tracks [x] (cw_mux m) (cw_mux m1)"
    "br_small r1" "length (fm_GlobalID meta1) = 8" "flat (br_stream r1) = concat (map frame_bytes xs)"
    by (rule fetch_reply [OF Cons.prems(1) x(1) Cons.prems(3,4) x(2)])
  have "ready (cw_mux m1)" using 1(2) by (simp add: tracks_def)
  with Cons.IH [OF this _ 1(3-5)] Cons.prems(2) 1 tracks_Cons show ?case by fastforce
qed

end
