(* ===== verification/Mux_Worker.thy ===== *)
theory Mux_Worker
  imports Mux_Demux
begin

text \<open>
  The life of a client worker as a step relation: requests are dispatched to it, frames arrive, sessions end, the monitor
  ticks, the connection goes down. Dispatching and the tick of the monitor are also taken apart, since other goroutines may act in
  between: the session is entered in the table (which may be long after the check that the worker is not full) and gets its
  writer later, and the manager is closed before the worker is. Every reachable worker has a consistent session table.
\<close>

section \<open>Steps\<close>

inductive client_step :: "ClientWorker \<Rightarrow> ClientWorker \<Rightarrow> bool" where
  dispatch: "cw_Dispatch out m = Some (m', ref) \<Longrightarrow> client_step m m'"
| frame_more: "frame_switch now m meta r = Some (Inr (m', r')) \<Longrightarrow> client_step m m'"
| frame_last: "frame_switch now m meta r = Some (Inl (m', r')) \<Longrightarrow> client_step m (cw_Close m')"
| input: "ref < length (mx_heap (cw_mux m)) \<Longrightarrow> fetchInput now target globalID inbound t reader ref m = Some m' \<Longrightarrow> client_step m m'"
| allocate: "Allocate (cw_strategy m) (cw_mux m) = (mx, Some ref) \<Longrightarrow> client_step m (m\<lparr>cw_mux := mx\<rparr>)"
| connect: "client_step m (m\<lparr>cw_mux := set_output ref out (cw_mux m)\<rparr>)"
| tick: "client_step m (monitor_tick checkSize checkCount m)"
| idle: "CloseIfNoSessionAndIdle (mx_manager (cw_mux m)) checkSize checkCount = (sm, b) \<Longrightarrow>
    client_step m (m\<lparr>cw_mux := (cw_mux m)\<lparr>mx_manager := sm\<rparr>\<rparr>)"
| closing: "client_step m (cw_Close m)"
| closed: "cw_done m \<Longrightarrow> client_step m (monitor_done now m)"

inductive client_reachable :: "ClientStrategy \<Rightarrow> ClientWorker \<Rightarrow> bool" for s where
  start: "client_reachable s (NewClientWorker writer s)"
| more: "client_reachable s m \<Longrightarrow> client_step m m' \<Longrightarrow> client_reachable s m'"

section \<open>The invariant\<close>

text \<open>The table holds exactly the open sessions; the \<open>j\<close>-th session that was allocated has the identifier \<open>j + 1\<close>.\<close>

definition sessions_ok :: "mux_state \<Rightarrow> bool" where
  "sessions_ok st \<longleftrightarrow>
     (\<forall>i ref. table st i = Some ref \<longleftrightarrow> ref < length (mx_heap st) \<and> s_ID (mx_heap st ! ref) = i \<and> \<not> s_closed (mx_heap st ! ref)) \<and>
     (sm_closed (mx_manager st) \<longrightarrow> sm_sessions (mx_manager st) = []) \<and>
     (\<forall>j < length (mx_heap st). s_ID (mx_heap st ! j) = of_nat (j + 1) \<and> s_XUDP (mx_heap st ! j) = None) \<and>
     sm_count (mx_manager st) = of_nat (length (mx_heap st)) \<and> distinct (map fst (sm_sessions (mx_manager st)))"

definition bounded :: "ClientStrategy \<Rightarrow> bool" where
  "bounded s \<longleftrightarrow> 0 < uint (MaxConnection s) \<and> uint (MaxConnection s) < 65536"

definition client_inv :: "ClientWorker \<Rightarrow> bool" where
  "client_inv m \<longleftrightarrow> sessions_ok (cw_mux m) \<and> int (length (mx_heap (cw_mux m))) \<le> uint (MaxConnection (cw_strategy m))"

lemma small_id: "j < 65536 \<Longrightarrow> k < 65536 \<Longrightarrow> (of_nat j :: u16) = of_nat k \<longleftrightarrow> j = k"
  by (simp add: word_of_nat_eq_iff take_bit_nat_eq_self)

text \<open>A change of one session that preserves its identifier, its state and its XUDP entry.\<close>

lemma sessions_ok_update:
  assumes "sessions_ok st" "s_ID s = s_ID (mx_heap st ! ref)" "s_closed s = s_closed (mx_heap st ! ref)" "s_XUDP s = s_XUDP (mx_heap st ! ref)"
  shows "sessions_ok (st\<lparr>mx_heap := (mx_heap st)[ref := s]\<rparr>)"
proof (cases "ref < length (mx_heap st)")
  case True
  have "s_ID ((mx_heap st)[ref := s] ! j) = s_ID (mx_heap st ! j)" "s_closed ((mx_heap st)[ref := s] ! j) = s_closed (mx_heap st ! j)"
    "s_XUDP ((mx_heap st)[ref := s] ! j) = s_XUDP (mx_heap st ! j)" for j
    using assms(2-4) True by (simp_all add: upd_nth)
  with assms(1) show ?thesis by (simp add: sessions_ok_def)
qed (use assms(1) in \<open>simp add: list_update_beyond\<close>)

lemma sessions_ok_distinct:
  assumes "sessions_ok st" "length (mx_heap st) < 65536" "j < length (mx_heap st)" "k < length (mx_heap st)" "s_ID (mx_heap st ! j) = s_ID (mx_heap st ! k)"
  shows "j = k"
proof -
  have "(of_nat (j + 1) :: u16) = of_nat (k + 1)" using assms by (simp add: sessions_ok_def)
  with small_id [of "j + 1" "k + 1"] assms show ?thesis by simp
qed

lemma sessions_ok_table: "sessions_ok st \<Longrightarrow> session_table_ok st"
  by (auto simp: sessions_ok_def session_table_ok_def in_set_conv_nth)

lemma Session_Close_sessions:
  assumes "sessions_ok st" "length (mx_heap st) < 65536" "ref < length (mx_heap st)"
  shows "sessions_ok (Session_Close now st ref)" "length (mx_heap (Session_Close now st ref)) = length (mx_heap st)"
    "sm_closed (mx_manager (Session_Close now st ref)) = sm_closed (mx_manager st)"
proof -
  let ?s = "mx_heap st ! ref" and ?st' = "Session_Close now st ref"
  have "sessions_ok ?st' \<and> length (mx_heap ?st') = length (mx_heap st) \<and> sm_closed (mx_manager ?st') = sm_closed (mx_manager st)"
  proof (cases "s_closed ?s")
    case False
    have t: "table st (s_ID ?s) = Some ref" using assms False by (simp add: sessions_ok_def)
    note tok = sessions_ok_table [OF assms(1)] and D = session_table_okD [OF sessions_ok_table [OF assms(1)] t]
    note V = close_view(3-5) [OF tok t, of now]
    have heap: "mx_heap ?st' ! j = (if j = ref then ?s\<lparr>s_closed := True, s_done := True, s_interrupted := True, s_output := (s_output ?s)\<lparr>mw_closed := True\<rparr>\<rparr> else mx_heap st ! j)" for j
      using Session_Close_table [OF tok t, of now] D(1) by (simp add: upd_nth)
    have cnt: "sm_count (mx_manager ?st') = sm_count (mx_manager st)" "distinct (map fst (sm_sessions (mx_manager ?st')))"
      using Session_Close_table [OF tok t, of now] assms(1) by (simp_all add: sessions_ok_def distinct_delete)
    have "table ?st' i = Some k \<longleftrightarrow> k < length (mx_heap st) \<and> s_ID (mx_heap ?st' ! k) = i \<and> \<not> s_closed (mx_heap ?st' ! k)" for i k
    proof (cases "i = s_ID ?s")
      case True
      then show ?thesis using V(3) heap [of k] sessions_ok_distinct [OF assms(1,2) _ assms(3), of k] by auto
    next
      case False
      then have "table ?st' i = table st i" using V(3) by simp
      with False assms(1) heap [of k] show ?thesis by (auto simp: sessions_ok_def)
    qed
    then show ?thesis using assms(1) V(1,2) D(5) heap cnt by (simp add: sessions_ok_def)
  qed (use assms in \<open>simp add: Session_Close_def\<close>)
  then show "sessions_ok ?st'" "length (mx_heap ?st') = length (mx_heap st)" "sm_closed (mx_manager ?st') = sm_closed (mx_manager st)" by auto
qed

section \<open>Every step preserves it\<close>

definition preserves :: "mux_state \<Rightarrow> mux_state \<Rightarrow> bool" where
  "preserves st st' \<longleftrightarrow> sessions_ok st' \<and> length (mx_heap st') = length (mx_heap st) \<and> sm_closed (mx_manager st') = sm_closed (mx_manager st)"

lemma preserves_refl: "sessions_ok st \<Longrightarrow> preserves st st"
  by (simp add: preserves_def)

lemma preserves_close:
  "sessions_ok st \<Longrightarrow> length (mx_heap st) < 65536 \<Longrightarrow> ref < length (mx_heap st) \<Longrightarrow> preserves st (Session_Close now st ref)"
  using Session_Close_sessions [of st ref now] by (simp add: preserves_def)

lemma preserves_output: "sessions_ok st \<Longrightarrow> preserves st (set_output ref out st)"
  by (simp add: preserves_def set_output_def sessions_ok_update)

lemma preserves_trans: "preserves st st1 \<Longrightarrow> preserves st1 st2 \<Longrightarrow> preserves st st2"
  by (simp add: preserves_def)

lemma copy_to_session_keeps:
  assumes "copy_to_session now st ref target r = Some (err, st', r')" "sessions_ok st" "length (mx_heap st) < 65536" "ref < length (mx_heap st)"
  shows "preserves st st'"
proof -
  obtain out where "st' = set_output ref out st \<or> st' = Session_Close now (set_output ref out st) ref"
    using assms(1) by (auto simp: copy_to_session_def bind_eq_Some_conv Let_def split: if_splits)
  moreover have "preserves st (set_output ref out st)" using assms(2) by (rule preserves_output)
  moreover have "preserves (set_output ref out st) (Session_Close now (set_output ref out st) ref)"
    using calculation(2) assms(3,4) by (intro preserves_close) (auto simp: preserves_def)
  ultimately show ?thesis using preserves_trans by blast
qed

lemma sm_Get_table: "sm_Get (mx_manager st) i = Some ref \<Longrightarrow> table st i = Some ref"
  by (simp add: sm_Get_def split: if_splits)

lemma handlers_keep:
  assumes "sessions_ok (cw_mux m)" "length (mx_heap (cw_mux m)) < 65536"
  shows "handleStatusKeep now m meta r = Some (err, m', r') \<Longrightarrow> preserves (cw_mux m) (cw_mux m') \<and> cw_strategy m' = cw_strategy m \<and> cw_done m' = cw_done m"
    and "handleStatusEnd now m meta r = Some (err, m', r') \<Longrightarrow> preserves (cw_mux m) (cw_mux m') \<and> cw_strategy m' = cw_strategy m \<and> cw_done m' = cw_done m"
proof -
  have valid: "ref < length (mx_heap (cw_mux m))" if "sm_Get (mx_manager (cw_mux m)) i = Some ref" for i ref
    using sm_Get_table [OF that] assms(1) by (simp add: sessions_ok_def)
  show "preserves (cw_mux m) (cw_mux m') \<and> cw_strategy m' = cw_strategy m \<and> cw_done m' = cw_done m"
    if "handleStatusKeep now m meta r = Some (err, m', r')"
    using that valid copy_to_session_keeps [OF _ assms] preserves_refl [OF assms(1)]
    by (auto simp: handleStatusKeep_def bind_eq_Some_conv split: if_splits option.splits)
  show "preserves (cw_mux m) (cw_mux m') \<and> cw_strategy m' = cw_strategy m \<and> cw_done m' = cw_done m"
    if "handleStatusEnd now m meta r = Some (err, m', r')"
    using that valid preserves_close [OF assms] preserves_refl [OF assms(1)]
    by (auto simp: handleStatusEnd_def Let_def split: option.splits)
qed

lemma frame_switch_keeps:
  assumes "frame_switch now m meta r = Some (Inr (m', r')) \<or> frame_switch now m meta r = Some (Inl (m', r'))"
    and "sessions_ok (cw_mux m)" "length (mx_heap (cw_mux m)) < 65536"
  shows "preserves (cw_mux m) (cw_mux m') \<and> cw_strategy m' = cw_strategy m \<and> cw_done m' = cw_done m"
proof -
  consider "m' = m" | err r1 where "handleStatusKeep now m meta r = Some (err, m', r1)" | err r1 where "handleStatusEnd now m meta r = Some (err, m', r1)"
    using assms(1) by (auto simp: frame_switch_def handleStatueKeepAlive_def handleStatusNew_def Let_def split: if_splits)
  then show ?thesis using handlers_keep [OF assms(2,3)] preserves_refl [OF assms(2)] by cases auto
qed

lemma fetchInput_keeps:
  assumes "fetchInput now target globalID inbound t reader ref m = Some m'"
    and "sessions_ok (cw_mux m)" "length (mx_heap (cw_mux m)) < 65536" "ref < length (mx_heap (cw_mux m))"
  shows "preserves (cw_mux m) (cw_mux m') \<and> cw_strategy m' = cw_strategy m \<and> cw_done m' = cw_done m"
proof -
  let ?st = "\<lambda>t. (cw_mux m)\<lparr>mx_heap := (mx_heap (cw_mux m))[ref := (mx_heap (cw_mux m) ! ref)\<lparr>s_transferType := t\<rparr>]\<rparr>"
  obtain t' where m': "cw_mux m' = Session_Close now (?st t') ref" "cw_strategy m' = cw_strategy m" "cw_done m' = cw_done m"
    using assms(1) by (auto simp: fetchInput_def Let_def bind_eq_Some_conv split: prod.splits option.splits)
  have "sessions_ok (?st t')" by (rule sessions_ok_update [OF assms(2)]) auto
  with preserves_close [of "?st t'" ref now] assms(3,4) m' show ?thesis by (simp add: preserves_def)
qed

lemma Allocate_inv:
  assumes "Allocate (cw_strategy m) (cw_mux m) = (mx, Some ref)" "client_inv m" "bounded (cw_strategy m)"
  shows "client_inv (m\<lparr>cw_mux := mx\<rparr>) \<and> ref = length (mx_heap (cw_mux m)) \<and> length (mx_heap mx) = ref + 1 \<and>
    mx_heap mx ! ref = new_session (of_nat (ref + 1)) \<and> table mx (of_nat (ref + 1)) = Some ref"
proof -
  let ?st = "cw_mux m" and ?n = "length (mx_heap (cw_mux m))"
  let ?s = "new_session (of_nat (?n + 1))"
  have inv: "sessions_ok ?st" "int ?n \<le> uint (MaxConnection (cw_strategy m))" using assms(2) by (auto simp: client_inv_def)
  then have cnt: "sm_count (mx_manager ?st) + 1 = of_nat (?n + 1)" by (simp add: sessions_ok_def add.commute)
  have open_: "\<not> sm_closed (mx_manager ?st)" using assms(1) by (auto simp: Allocate_def Let_def split: if_splits)
  have lt: "int ?n < uint (MaxConnection (cw_strategy m))"
  proof -
    have n: "?n < 65536" using inv(2) assms(3) by (simp add: bounded_def)
    then have "uint (sm_count (mx_manager ?st)) = int ?n" using inv(1) by (simp add: sessions_ok_def unsigned_of_nat take_bit_nat_eq_self)
    moreover have "uint (ucast (MaxConnection (cw_strategy m)) :: u16) = uint (MaxConnection (cw_strategy m))"
      using assms(3) by (simp add: bounded_def unsigned_ucast_eq take_bit_int_eq_self)
    ultimately show ?thesis
      using assms(1,3) by (auto simp: Allocate_def Let_def bounded_def word_less_def word_le_def split: if_splits)
  qed
  have n: "?n + 1 < 65536" using lt assms(3) by (simp add: bounded_def)
  have mx: "mx = ?st\<lparr>mx_manager := (mx_manager ?st)\<lparr>sm_count := of_nat (?n + 1), sm_sessions := AList.update (of_nat (?n + 1)) ?n (sm_sessions (mx_manager ?st))\<rparr>,
      mx_heap := mx_heap ?st @ [?s]\<rparr>" "ref = ?n"
    using assms(1) cnt by (auto simp: Allocate_def Let_def add.commute split: if_splits)
  have ids: "s_ID (mx_heap ?st ! j) \<noteq> of_nat (?n + 1)" if "j < ?n" for j
    using that inv(1) small_id [of "j + 1" "?n + 1"] n by (simp add: sessions_ok_def)
  have t: "table mx = (table ?st)(of_nat (?n + 1) \<mapsto> ?n)" using mx by (simp add: update_conv')
  have h: "mx_heap mx ! j = (if j = ?n then ?s else mx_heap ?st ! j)" if "j < ?n + 1" for j using that mx by (simp add: nth_append)
  have tab: "table mx i = Some k \<longleftrightarrow> k < ?n + 1 \<and> s_ID (mx_heap mx ! k) = i \<and> \<not> s_closed (mx_heap mx ! k)" for i k
  proof (cases "k = ?n")
    case True
    have "table ?st i \<noteq> Some ?n" using inv(1) by (simp add: sessions_ok_def)
    with True t h [of k] show ?thesis by (auto simp: new_session_def)
  next
    case False
    with t h [of k] inv(1) ids [of k] show ?thesis by (auto simp: sessions_ok_def)
  qed
  have "sessions_ok mx"
    unfolding sessions_ok_def using tab h inv(1) mx open_ by (auto simp: sessions_ok_def new_session_def nth_append less_Suc_eq intro: distinct_update)
  with lt mx t show ?thesis by (simp add: client_inv_def)
qed

lemma set_output_inv:
  "client_inv m \<Longrightarrow> client_inv (m\<lparr>cw_mux := set_output ref out (cw_mux m)\<rparr>)"
  using sessions_ok_update [of "cw_mux m" "(mx_heap (cw_mux m) ! ref)\<lparr>s_output := out\<rparr>" ref]
  by (simp add: client_inv_def set_output_def)

lemma Dispatch_inv:
  assumes "cw_Dispatch out m = Some (m', ref)" "client_inv m" "bounded (cw_strategy m)"
  shows "client_inv m' \<and> cw_strategy m' = cw_strategy m \<and> ref = length (mx_heap (cw_mux m)) \<and> view (cw_mux m') ref = \<lparr>v_id = of_nat (ref + 1), v_live = True, v_got = mw_content out, v_closed = False\<rparr>"
proof -
  obtain mx where mx: "Allocate (cw_strategy m) (cw_mux m) = (mx, Some ref)" "m' = m\<lparr>cw_mux := set_output ref out mx\<rparr>"
    using assms(1) by (auto simp: cw_Dispatch_def set_output_def split: if_splits prod.splits option.splits)
  note a = Allocate_inv [OF mx(1) assms(2,3)]
  from set_output_inv [of "m\<lparr>cw_mux := mx\<rparr>" ref out] a mx(2) have "client_inv m'" by simp
  moreover have "view (cw_mux m') ref = \<lparr>v_id = of_nat (ref + 1), v_live = True, v_got = mw_content out, v_closed = False\<rparr>"
  proof -
    have "ref < length (mx_heap mx)" "mx_heap mx ! ref = new_session (of_nat (ref + 1))" "table mx (of_nat (ref + 1)) = Some ref"
      using a by (linarith, blast, blast)
    then show ?thesis by (simp add: view_def set_output_def new_session_def mx(2))
  qed
  ultimately show ?thesis using a mx(2) by simp
qed

lemma closing_fold:
  assumes "sm_closed (mx_manager st)" "\<forall>j < length (mx_heap st). s_XUDP (mx_heap st ! j) = None" "\<forall>ref \<in> set refs. ref < length (mx_heap st)"
  shows "mx_manager (foldl (Session_Close now) st refs) = mx_manager st \<and> length (mx_heap (foldl (Session_Close now) st refs)) = length (mx_heap st) \<and>
    (\<forall>j < length (mx_heap st). s_ID (mx_heap (foldl (Session_Close now) st refs) ! j) = s_ID (mx_heap st ! j) \<and>
      s_XUDP (mx_heap (foldl (Session_Close now) st refs) ! j) = None \<and>
      s_closed (mx_heap (foldl (Session_Close now) st refs) ! j) = (s_closed (mx_heap st ! j) \<or> j \<in> set refs))"
  using assms
proof (induction refs arbitrary: st)
  case (Cons ref refs)
  let ?s = "mx_heap st ! ref" and ?st = "Session_Close now st ref"
  have st: "?st = (if s_closed ?s then st else st\<lparr>mx_heap := (mx_heap st)[ref := ?s\<lparr>s_closed := True, s_done := True, s_interrupted := True, s_output := (s_output ?s)\<lparr>mw_closed := True\<rparr>\<rparr>]\<rparr>)"
    using Cons.prems by (simp add: Session_Close_def sm_Remove_def Let_def)
  have step: "mx_manager ?st = mx_manager st" "length (mx_heap ?st) = length (mx_heap st)"
    "\<forall>j < length (mx_heap st). s_ID (mx_heap ?st ! j) = s_ID (mx_heap st ! j) \<and> s_XUDP (mx_heap ?st ! j) = None \<and> s_closed (mx_heap ?st ! j) = (s_closed (mx_heap st ! j) \<or> j = ref)"
    using st Cons.prems(2,3) by (auto simp: upd_nth)
  with Cons.IH [of ?st] Cons.prems show ?case by auto
qed simp

lemma sm_Close_sessions:
  assumes "sessions_ok st"
  shows "sessions_ok (sm_Close now st)" "length (mx_heap (sm_Close now st)) = length (mx_heap st)"
    "j < length (mx_heap st) \<Longrightarrow> \<not> sm_closed (mx_manager st) \<Longrightarrow> s_closed (mx_heap (sm_Close now st) ! j)"
proof -
  let ?st1 = "st\<lparr>mx_manager := (mx_manager st)\<lparr>sm_closed := True\<rparr>\<rparr>" 
  define refs where "refs = map snd (sm_sessions (mx_manager st))"
  let ?st2 = "foldl (Session_Close now) ?st1 refs"
  have close: "sm_Close now st = (if sm_closed (mx_manager st) then st else ?st2\<lparr>mx_manager := (mx_manager ?st2)\<lparr>sm_sessions := []\<rparr>\<rparr>)"
    by (simp add: sm_Close_def refs_def Let_def)
  have R: "ref \<in> set refs \<longleftrightarrow> ref < length (mx_heap st) \<and> \<not> s_closed (mx_heap st ! ref)" for ref
  proof
    assume "ref \<in> set refs"
    then obtain i where "(i, ref) \<in> set (sm_sessions (mx_manager st))" by (auto simp: refs_def)
    then have "table st i = Some ref" using assms by (simp add: sessions_ok_def)
    then show "ref < length (mx_heap st) \<and> \<not> s_closed (mx_heap st ! ref)" using assms by (simp add: sessions_ok_def)
  next
    assume "ref < length (mx_heap st) \<and> \<not> s_closed (mx_heap st ! ref)"
    then have "table st (s_ID (mx_heap st ! ref)) = Some ref" using assms by (simp add: sessions_ok_def)
    then show "ref \<in> set refs" by (force simp: refs_def dest: map_of_SomeD)
  qed
  have F: "mx_manager ?st2 = mx_manager ?st1" "length (mx_heap ?st2) = length (mx_heap st)"
    "\<forall>j < length (mx_heap st). s_ID (mx_heap ?st2 ! j) = s_ID (mx_heap st ! j) \<and> s_XUDP (mx_heap ?st2 ! j) = None \<and> s_closed (mx_heap ?st2 ! j)"
    using closing_fold [of ?st1 refs now] R assms by (simp_all add: sessions_ok_def)
  show "length (mx_heap (sm_Close now st)) = length (mx_heap st)" using F(2) by (simp add: close)
  show "s_closed (mx_heap (sm_Close now st) ! j)" if "j < length (mx_heap st)" "\<not> sm_closed (mx_manager st)"
    using F(3) that by (simp add: close)
  show "sessions_ok (sm_Close now st)"
    using F assms by (auto simp: close sessions_ok_def)
qed

lemma tick_inv:
  assumes "client_inv m"
  shows "client_inv (monitor_tick checkSize checkCount m) \<and> cw_strategy (monitor_tick checkSize checkCount m) = cw_strategy m"
  using assms by (auto simp: monitor_tick_def CloseIfNoSessionAndIdle_def client_inv_def cw_Close_def sessions_ok_def Let_def split: if_splits)

lemma client_step_inv:
  assumes "client_step m m'" "client_inv m" "bounded (cw_strategy m)"
  shows "client_inv m' \<and> cw_strategy m' = cw_strategy m"
proof -
  have ok: "sessions_ok (cw_mux m)" "length (mx_heap (cw_mux m)) < 65536" using assms(2,3) by (auto simp: client_inv_def bounded_def)
  have kept: "client_inv m1 \<and> cw_strategy m1 = cw_strategy m" if "preserves (cw_mux m) (cw_mux m1) \<and> cw_strategy m1 = cw_strategy m \<and> cw_done m1 = cw_done m" for m1
    using that assms(2) by (simp add: client_inv_def preserves_def)
  from assms(1) show ?thesis
  proof cases
    case dispatch
    with Dispatch_inv [OF _ assms(2,3)] show ?thesis by blast
  next
    case frame_more
    with frame_switch_keeps [OF _ ok] kept show ?thesis by blast
  next
    case (frame_last now meta r m1 r1)
    with frame_switch_keeps [OF _ ok, of now meta r m1 r1] kept [of m1] show ?thesis by (auto simp: client_inv_def cw_Close_def)
  next
    case input
    with fetchInput_keeps [OF _ ok] kept show ?thesis by blast
  next
    case allocate
    with Allocate_inv [OF _ assms(2,3)] show ?thesis by simp
  next
    case (connect ref out)
    with set_output_inv [OF assms(2)] show ?thesis by simp
  next
    case tick
    with tick_inv [OF assms(2)] show ?thesis by blast
  next
    case idle
    with assms(2) show ?thesis by (auto simp: CloseIfNoSessionAndIdle_def client_inv_def sessions_ok_def split: if_splits)
  next
    case closing
    with assms(2) show ?thesis by (simp add: client_inv_def cw_Close_def)
  next
    case closed
    with sm_Close_sessions(1,2) [OF ok(1)] assms(2) show ?thesis by (simp add: client_inv_def monitor_done_def)
  qed
qed

lemma client_reachable_inv:
  assumes "client_reachable s m" "bounded s"
  shows "client_inv m \<and> cw_strategy m = s"
  using assms
proof (induction rule: client_reachable.induct)
  case (start writer)
  then show ?case by (simp add: client_inv_def NewClientWorker_def sessions_ok_def NewSessionManager_def)
next
  case (more m m')
  with client_step_inv show ?case by metis
qed

section \<open>Properties\<close>

text \<open>
  C15: in a client worker whose connection limit is between 1 and 65535, whatever requests, frames, failures and ticks it
  has seen, no two sessions have ever had the same identifier, the session table holds exactly the sessions that are not
  closed, each under its own identifier, and no more sessions were opened than the limit.
\<close>

theorem mux_sessions_invariant:
  assumes "client_reachable s m" "0 < MaxConnection s" "MaxConnection s < 65536"
  shows "inj_on (\<lambda>j. s_ID (mx_heap (cw_mux m) ! j)) {..< length (mx_heap (cw_mux m))} \<and>
    (\<forall>i ref. table (cw_mux m) i = Some ref \<longleftrightarrow>
       ref < length (mx_heap (cw_mux m)) \<and> s_ID (mx_heap (cw_mux m) ! ref) = i \<and> \<not> s_closed (mx_heap (cw_mux m) ! ref)) \<and>
    length (mx_heap (cw_mux m)) \<le> unat (MaxConnection s)"
proof -
  have b: "bounded s" using assms(2,3) by (simp add: bounded_def word_less_def)
  have inv: "client_inv m" "cw_strategy m = s" using client_reachable_inv [OF assms(1) b] by auto
  then have le: "int (length (mx_heap (cw_mux m))) \<le> uint (MaxConnection s)" and ok: "sessions_ok (cw_mux m)" by (simp_all add: client_inv_def)
  have "length (mx_heap (cw_mux m)) < 65536" "length (mx_heap (cw_mux m)) \<le> unat (MaxConnection s)"
    using le b nat_mono [OF le] by (simp_all add: bounded_def)
  with sessions_ok_distinct [OF ok] ok show ?thesis by (simp add: inj_on_def sessions_ok_def)
qed

text \<open>
  Without a limit the identifiers wrap around: a new session then takes the place of an open one in the table, and the
  old session stays open with no frame that could reach or close it.
\<close>

lemma session_identifier_reused:
  assumes "\<not> sm_closed (mx_manager st)" "ucast (MaxConnection s) = (0 :: u16)" "MaxConcurrency s = 0"
    and "table st (sm_count (mx_manager st) + 1) = Some ref" "ref < length (mx_heap st)" "\<not> s_closed (mx_heap st ! ref)"
  obtains st' new where "Allocate s st = (st', Some new)" "new \<noteq> ref" "\<not> s_closed (mx_heap st' ! ref)" "table st' (sm_count (mx_manager st) + 1) = Some new"
  using assms that by (simp add: Allocate_def Let_def nth_append update_conv')

definition idle_writer :: mbwriter where
  "idle_writer = \<lparr>mw_written = [], mw_faults = [], mw_closed = False\<rparr>"

definition demo_limits :: ClientStrategy where
  "demo_limits = \<lparr>MaxConcurrency = 8, MaxConnection = 128\<rparr>"

text \<open>A worker with two open sessions.\<close>

definition demo_client :: ClientWorker where
  "demo_client = fst (the (cw_Dispatch idle_writer (fst (the (cw_Dispatch idle_writer (NewClientWorker idle_writer demo_limits))))))"

lemma demo_client_reachable: "client_reachable demo_limits demo_client"
proof -
  let ?m0 = "NewClientWorker idle_writer demo_limits"
  let ?m1 = "fst (the (cw_Dispatch idle_writer ?m0))"
  have some: "x = Some (fst (the x), snd (the x))" if "x \<noteq> None" for x :: "('a \<times> 'b) option" using that by auto
  have "cw_Dispatch idle_writer ?m0 \<noteq> None" "cw_Dispatch idle_writer ?m1 \<noteq> None" by code_simp+
  then have "client_step ?m0 ?m1" "client_step ?m1 demo_client"
    unfolding demo_client_def by (auto intro: client_step.dispatch some)
  then show ?thesis by (blast intro: client_reachable.intros)
qed

theorem mux_sessions_invariant_witness:
  "inj_on (\<lambda>j. s_ID (mx_heap (cw_mux demo_client) ! j)) {..< 2} \<and> table (cw_mux demo_client) 2 = Some 1"
proof -
  have "length (mx_heap (cw_mux demo_client)) = 2" "s_ID (mx_heap (cw_mux demo_client) ! 1) = 2" "\<not> s_closed (mx_heap (cw_mux demo_client) ! 1)"
    by code_simp+
  with mux_sessions_invariant [OF demo_client_reachable] show ?thesis by (simp add: demo_limits_def)
qed

end
