(* ===== verification/Mux_EndToEnd.thy ===== *)
theory Mux_EndToEnd
  imports Mux_Worker
begin

text \<open>
  From the writers of a server to the sessions of a client: the frames that the response writers of many sessions put
  on one connection, in any order, and what the client's reading loop makes of them.
\<close>

section \<open>The peer\<close>

text \<open>What the goroutines of a server do to the connection: write a vector of a session, or end it.\<close>

datatype reply = Reply u16 TransferType MultiBuffer | Finish u16 TransferType bool

fun peer_send :: "reply \<Rightarrow> mbwriter \<Rightarrow> mbwriter option" where
  "peer_send (Reply i t mb) link =
     (case Writer_WriteMultiBuffer (NewResponseWriter i t) mb link of Some (None, _, link') \<Rightarrow> Some link' | _ \<Rightarrow> None)"
| "peer_send (Finish i t failed) link = Writer_Close ((NewResponseWriter i t)\<lparr>w_hasError := failed\<rparr>) link"

fun peer_sends :: "reply list \<Rightarrow> mbwriter \<Rightarrow> mbwriter option" where
  "peer_sends [] link = Some link"
| "peer_sends (x # xs) link = (case peer_send x link of None \<Rightarrow> None | Some link' \<Rightarrow> peer_sends xs link')"

fun reply_ok :: "reply \<Rightarrow> bool" where
  "reply_ok (Reply i t mb) \<longleftrightarrow> mb_small mb \<and> udps_ok mb"
| "reply_ok (Finish i t failed) \<longleftrightarrow> True"

text \<open>What a session is to get of all this: its own data up to its end.\<close>

fun delivered :: "u16 \<Rightarrow> reply list \<Rightarrow> byte list" where
  "delivered i [] = []"
| "delivered i (Reply j t mb # xs) = (if i = j then mb_content mb else []) @ delivered i xs"
| "delivered i (Finish j t failed # xs) = (if i = j then [] else delivered i xs)"

fun ended :: "u16 \<Rightarrow> reply list \<Rightarrow> bool" where
  "ended i [] \<longleftrightarrow> False"
| "ended i (Reply j t mb # xs) \<longleftrightarrow> ended i xs"
| "ended i (Finish j t failed # xs) \<longleftrightarrow> i = j \<or> ended i xs"

section \<open>The frames of a reply\<close>

text \<open>\<open>sends x fs\<close>: the frames \<open>fs\<close> do to a session what the reply \<open>x\<close> means.\<close>

fun reply_recv :: "reply \<Rightarrow> session_view \<Rightarrow> session_view" where
  "reply_recv (Reply i t mb) v = (if v_live v \<and> v_id v = i then v\<lparr>v_got := v_got v @ mb_content mb\<rparr> else v)"
| "reply_recv (Finish i t failed) v = (if v_live v \<and> v_id v = i then v\<lparr>v_live := False, v_closed := True\<rparr> else v)"

lemma response_writer_simps [simp]:
  "w_id (NewResponseWriter i t) = i" "w_followup (NewResponseWriter i t)" "w_inbound (NewResponseWriter i t) = None"
  "writer_ok (NewResponseWriter i t)" "(NewResponseWriter i t)\<lparr>w_followup := True\<rparr> = NewResponseWriter i t"
  by (simp_all add: NewResponseWriter_def writer_ok_def)

lemma data_frames_reply:
  assumes "pieces_ok cs"
  shows "list_all reply_frame (data_frames (NewResponseWriter i t) cs)"
    "fold recv (data_frames (NewResponseWriter i t) cs) v =
      (if v_live v \<and> v_id v = i then v\<lparr>v_got := v_got v @ concat (map snd cs)\<rparr> else v)"
proof -
  let ?w = "NewResponseWriter i t"
  show "list_all reply_frame (data_frames ?w cs)"
    using assms
  proof (induction cs)
    case (Cons p cs)
    obtain u d where p: "p = (u, d)" by (cases p)
    have "meta_ok (next_meta ?w OptionData) u" using next_meta_ok Cons.prems p by (simp add: pieces_ok_def)
    moreover have "Byte_Has OptionData OptionData" by (simp add: Byte_Has_def OptionData_def)
    ultimately show ?case using Cons p by (simp add: pieces_ok_def)
  qed simp
  show "fold recv (data_frames ?w cs) v = (if v_live v \<and> v_id v = i then v\<lparr>v_got := v_got v @ concat (map snd cs)\<rparr> else v)"
  proof (induction cs arbitrary: v)
    case (Cons p cs)
    then show ?case by (cases p) (simp add: status_distinct)
  qed simp
qed

lemma peer_send_frames:
  assumes "reply_ok x" "mw_faults link = []"
  obtains fs link' where "peer_send x link = Some link'" "mw_takes link (concat (map frame_bytes fs)) link'" "list_all reply_frame fs"
    "\<forall>v. fold recv fs v = reply_recv x v"
proof (cases x)
  case (Reply i t mb)
  let ?w = "NewResponseWriter i t"
  obtain fs cs link' where w: "Writer_WriteMultiBuffer ?w mb link = Some (None, ?w\<lparr>w_followup := True\<rparr>, link')"
    "mw_takes link (concat (map frame_bytes fs)) link'" "pieces_ok cs" "concat (map snd cs) = mb_content mb"
    "fs = (if MultiBuffer_IsEmpty mb then [(next_meta ?w 0, None, None)] else data_frames ?w cs)"
    by (rule Writer_WriteMultiBuffer_ok [of ?w link mb]) (use Reply assms in auto)
  have empty: "reply_frame (next_meta ?w 0, None, None)" using next_meta_ok [of ?w None 0] by (simp add: udp_ok_def Byte_Has_def)
  have "list_all reply_frame fs" using w(3,5) data_frames_reply(1) empty by (simp del: reply_frame.simps)
  moreover have "fold recv fs v = reply_recv x v" for v
    using w(3-5) data_frames_reply(2) [OF w(3)] Reply assms(1) by (auto simp: IsEmpty_small status_distinct)
  ultimately show thesis using that [of link' fs] w(1,2) Reply by simp
next
  case (Finish i t failed)
  let ?w = "(NewResponseWriter i t)\<lparr>w_hasError := failed\<rparr>"
  let ?f = "(end_meta ?w, None, None) :: mframe"
  obtain frame where f: "Writer_Close ?w link = Some (snd (mw_Write link [frame]))" "buffer_wf frame"
    "content frame = PutUint16 4 @ PutUint16 (w_id ?w) @ [SessionStatusEnd, if w_hasError ?w then OptionError else 0]"
    by (rule Writer_Close_written)
  have fb: "frame_bytes ?f = content frame"
    using status_distinct f(3) by (simp add: meta_bytes_def meta_tail_def end_meta_def Byte_Set_def)
  have "mw_takes link (frame_bytes ?f) (snd (mw_Write link [frame]))"
    using mw_Write_takes [OF assms(2), of "[frame]"] fb by auto
  moreover have "reply_frame ?f"
    using status_distinct by (auto simp: end_meta_def meta_ok_def Byte_Has_def Byte_Set_def OptionError_def OptionData_def)
  moreover have "recv ?f v = reply_recv x v" for v using Finish by (simp add: end_meta_def)
  ultimately show thesis using that [of "snd (mw_Write link [frame])" "[?f]"] f(1) Finish by simp
qed

lemma peer_sends_frames:
  assumes "list_all reply_ok xs" "mw_faults link = []"
  shows "\<exists>fs link'. peer_sends xs link = Some link' \<and> mw_takes link (concat (map frame_bytes fs)) link' \<and> list_all reply_frame fs \<and>
    (\<forall>v. fold recv fs v = fold reply_recv xs v)"
  using assms
proof (induction xs arbitrary: link)
  case Nil
  then show ?case by (intro exI [of _ "[]"] exI [of _ link]) (simp add: mw_takes_def)
next
  case (Cons x xs)
  obtain fs link1 where 1: "peer_send x link = Some link1" "mw_takes link (concat (map frame_bytes fs)) link1" "list_all reply_frame fs"
    "\<forall>v. fold recv fs v = reply_recv x v"
    by (rule peer_send_frames [of x link]) (use Cons.prems in auto)
  have ok: "list_all reply_ok xs" "mw_faults link1 = []" using 1(2) Cons.prems by (simp_all add: mw_takes_def)
  from Cons.IH [OF this] obtain fs' link' where 2: "peer_sends xs link1 = Some link'" "mw_takes link1 (concat (map frame_bytes fs')) link'"
    "list_all reply_frame fs'" "\<forall>v. fold recv fs' v = fold reply_recv xs v" by blast
  have "mw_takes link (concat (map frame_bytes (fs @ fs'))) link'" using mw_takes_trans [OF 1(2) 2(2)] by simp
  with 1 2 show ?case by (intro exI [of _ "fs @ fs'"] exI [of _ link']) simp
qed

lemma fold_reply_recv:
  "fold reply_recv xs v =
     (if v_live v then v\<lparr>v_got := v_got v @ delivered (v_id v) xs, v_live := \<not> ended (v_id v) xs, v_closed := v_closed v \<or> ended (v_id v) xs\<rparr> else v)"
proof (induction xs arbitrary: v)
  case (Cons x xs)
  then show ?case by (cases x) auto
qed simp

section \<open>Properties\<close>

text \<open>
  C14: demultiplexing. The response writers of any number of sessions write any vectors (of buffers of at most 8192 bytes, packets
  with addresses that can be sent) to one connection, in any order; where neither this connection nor the writers of the sessions
  fail, a client whose reader gets these bytes, cut into buffers of at most 8192 bytes in whatever way, returns from its reading loop, and then each
  open session has got exactly the data written under its identifier before that session was ended, in order, and is
  closed and out of the session table when it was ended; the sessions that were not open have changed in nothing.
\<close>

theorem mux_demultiplexed:
  assumes "list_all reply_ok replies" "mw_faults link = []" "mw_content link = []"
    and "session_table_ok (cw_mux m)" "outputs_ok (cw_mux m)" "\<not> sm_closed (mx_manager (cw_mux m))"
  shows "\<exists>link'. peer_sends replies link = Some link' \<and>
    (\<forall>rd. (\<forall>mb \<in> set (mr_mbs rd). mb_small mb) \<and> concat (map mb_content (mr_mbs rd)) = mw_content link' \<longrightarrow>
      (\<exists>m' r'. fetchOutput now m rd = Some (m', r') \<and> cw_done m' \<and> length (mx_heap (cw_mux m')) = length (mx_heap (cw_mux m)) \<and>
        (\<forall>j < length (mx_heap (cw_mux m)). let v = view (cw_mux m) j in view (cw_mux m') j =
           (if v_live v then \<lparr>v_id = v_id v, v_live = (\<not> ended (v_id v) replies), v_got = v_got v @ delivered (v_id v) replies,
              v_closed = ended (v_id v) replies\<rparr> else v))))"
proof -
  obtain fs link' where p: "peer_sends replies link = Some link'" "mw_takes link (concat (map frame_bytes fs)) link'"
    "list_all reply_frame fs" "\<forall>v. fold recv fs v = fold reply_recv replies v"
    using peer_sends_frames [OF assms(1,2)] by blast
  have c: "mw_content link' = concat (map frame_bytes fs)" using p(2) assms(3) by (simp add: mw_takes_def)
  have rdy: "ready (cw_mux m)" using assms(4-6) by (simp add: ready_def)
  have "\<exists>m' r'. fetchOutput now m rd = Some (m', r') \<and> cw_done m' \<and> length (mx_heap (cw_mux m')) = length (mx_heap (cw_mux m)) \<and>
        (\<forall>j < length (mx_heap (cw_mux m)). let v = view (cw_mux m) j in view (cw_mux m') j =
           (if v_live v then \<lparr>v_id = v_id v, v_live = (\<not> ended (v_id v) replies), v_got = v_got v @ delivered (v_id v) replies,
              v_closed = ended (v_id v) replies\<rparr> else v))"
    if rd: "\<forall>mb \<in> set (mr_mbs rd). mb_small mb" "concat (map mb_content (mr_mbs rd)) = mw_content link'" for rd
  proof -
    let ?r = "\<lparr>br_Reader = rd, br_Buffer = []\<rparr>"
    have small: "br_small ?r" using rd(1) by (simp add: br_small_def mb_small_def)
    have fl: "flat (br_stream ?r) = concat (map frame_bytes fs)" using rd(2) c by (simp add: br_stream_def flat_def)
    obtain m' r' where f: "fetch_loop now m zero_meta ?r = Some (m', r')" "tracks fs (cw_mux m) (cw_mux m')"
      using fetch_replies [OF rdy p(3) small _ fl, of zero_meta now] by (auto simp: zero_meta_def)
    have open_: "\<not> v_closed (view (cw_mux m) j)" if "v_live (view (cw_mux m) j)" for j
      using that session_table_okD(3) [OF assms(4)] by simp
    have "let v = view (cw_mux m) j in view (cw_mux m') j =
           (if v_live v then \<lparr>v_id = v_id v, v_live = (\<not> ended (v_id v) replies), v_got = v_got v @ delivered (v_id v) replies,
              v_closed = ended (v_id v) replies\<rparr> else v)" if "j < length (mx_heap (cw_mux m))" for j
    proof -
      have "view (cw_mux m') j = fold reply_recv replies (view (cw_mux m) j)" using f(2) p(4) that by (simp add: tracks_def)
      then show ?thesis using open_ [of j] by (cases "view (cw_mux m) j") (simp add: fold_reply_recv del: view_simps)
    qed
    with f show ?thesis by (simp add: fetchOutput_def cw_Close_def tracks_def)
  qed
  with p(1) show ?thesis by blast
qed

definition demo_buffer :: "byte list \<Rightarrow> MultiBuffer" where
  "demo_buffer bs = [append_read fresh_buffer bs]"

definition demo_replies :: "reply list" where
  "demo_replies = [Reply 1 TransferTypeStream (demo_buffer [1, 2]), Reply 2 TransferTypePacket (demo_buffer [7]),
     Finish 1 TransferTypeStream False, Reply 2 TransferTypePacket (demo_buffer [8, 9]), Reply 1 TransferTypeStream (demo_buffer [3])]"

lemma demo_buffer_small:
  assumes "length bs \<le> 8192"
  shows "mb_small (demo_buffer bs)" "udps_ok (demo_buffer bs)" "mb_content (demo_buffer bs) = bs"
proof -
  have ap: "appended fresh_buffer bs (append_read fresh_buffer bs)" using assms by (intro append_read_appended) auto
  have "b_UDP fresh_buffer = None" by (simp add: buf_New_def)
  with ap have b: "buffer_wf (append_read fresh_buffer bs)" "content (append_read fresh_buffer bs) = bs" "b_UDP (append_read fresh_buffer bs) = None"
    by (auto simp: appended_def)
  with assms show "mb_small (demo_buffer bs)" "udps_ok (demo_buffer bs)" "mb_content (demo_buffer bs) = bs"
    by (simp_all add: demo_buffer_def mb_small_def udps_ok_def udp_ok_def)
qed

text \<open>The bytes arrive one by one.\<close>

theorem mux_demultiplexed_witness:
  "\<exists>link' m' r'. peer_sends demo_replies idle_writer = Some link' \<and>
     fetchOutput 0 demo_client \<lparr>mr_mbs = map (\<lambda>b. demo_buffer [b]) (mw_content link'), mr_err = EOF\<rparr> = Some (m', r') \<and>
     view (cw_mux m') 0 = \<lparr>v_id = 1, v_live = False, v_got = [1, 2], v_closed = True\<rparr> \<and>
     view (cw_mux m') 1 = \<lparr>v_id = 2, v_live = True, v_got = [7, 8, 9], v_closed = False\<rparr>"
proof -
  let ?st = "cw_mux demo_client"
  have replies: "list_all reply_ok demo_replies" by (simp add: demo_replies_def demo_buffer_small)
  have link: "mw_faults idle_writer = []" "mw_content idle_writer = []" by (simp_all add: idle_writer_def mw_content_def)
  have n: "length (mx_heap ?st) = 2" "\<not> sm_closed (mx_manager ?st)" by code_simp+
  have v: "view ?st 0 = \<lparr>v_id = 1, v_live = True, v_got = [], v_closed = False\<rparr>"
    "view ?st 1 = \<lparr>v_id = 2, v_live = True, v_got = [], v_closed = False\<rparr>" by code_simp+
  have "bounded demo_limits" by (simp add: bounded_def demo_limits_def)
  with client_reachable_inv [OF demo_client_reachable] have tab: "session_table_ok ?st"
    by (simp add: client_inv_def sessions_ok_table)
  have healthy: "mw_faults (s_output (mx_heap ?st ! 0)) = []" "mw_faults (s_output (mx_heap ?st ! 1)) = []" by code_simp+
  have outs: "outputs_ok ?st"
    unfolding outputs_ok_def
  proof (intro allI impI)
    fix i ref assume "table ?st i = Some ref"
    then have "ref = 0 \<or> ref = 1" using session_table_okD(1) [OF tab] n(1) by fastforce
    with healthy show "mw_faults (s_output (mx_heap ?st ! ref)) = []" by auto
  qed
  from mux_demultiplexed [OF replies link tab outs n(2), of 0] obtain link' where
    l: "peer_sends demo_replies idle_writer = Some link'" and
    f: "\<And>rd. \<forall>mb \<in> set (mr_mbs rd). mb_small mb \<Longrightarrow> concat (map mb_content (mr_mbs rd)) = mw_content link' \<Longrightarrow>
      \<exists>m' r'. fetchOutput 0 demo_client rd = Some (m', r') \<and> (\<forall>j < length (mx_heap ?st). let v = view ?st j in view (cw_mux m') j =
           (if v_live v then \<lparr>v_id = v_id v, v_live = (\<not> ended (v_id v) demo_replies), v_got = v_got v @ delivered (v_id v) demo_replies,
              v_closed = ended (v_id v) demo_replies\<rparr> else v))" by blast
  let ?rd = "\<lparr>mr_mbs = map (\<lambda>b. demo_buffer [b]) (mw_content link'), mr_err = EOF\<rparr>"
  have one: "mb_content (demo_buffer [b]) = [b]" "mb_small (demo_buffer [b])" for b using demo_buffer_small [of "[b]"] by simp_all
  have "concat (map mb_content (mr_mbs ?rd)) = mw_content link'" by (simp add: comp_def one)
  with f [of ?rd] obtain m' r' where m': "fetchOutput 0 demo_client ?rd = Some (m', r')"
    "\<forall>j < length (mx_heap ?st). let v = view ?st j in view (cw_mux m') j =
           (if v_live v then \<lparr>v_id = v_id v, v_live = (\<not> ended (v_id v) demo_replies), v_got = v_got v @ delivered (v_id v) demo_replies,
              v_closed = ended (v_id v) demo_replies\<rparr> else v)"
    using one(2) by auto
  have "view (cw_mux m') 0 = \<lparr>v_id = 1, v_live = False, v_got = [1, 2], v_closed = True\<rparr>"
    "view (cw_mux m') 1 = \<lparr>v_id = 2, v_live = True, v_got = [7, 8, 9], v_closed = False\<rparr>"
    using m'(2) n(1) by (simp_all add: Let_def v demo_replies_def demo_buffer_small del: view_simps One_nat_def)
  with l m'(1) show ?thesis by blast
qed

text \<open>
  \<^verbatim>\<open>SplitSize\<close> cuts the first buffer into a fresh one of the pool. Of a buffer that holds more than is asked for, a request
  for more than 8192 bytes therefore panics in \<^verbatim>\<open>Extend\<close>: buffers larger than those of the pool break the readers.
\<close>

lemma ReadAtMost_large_panics:
  assumes "8192 < sz" "sz < Buffer_Len b" "Buffer_Len b < 2147483648" "br_Buffer r = []" "mr_mbs (br_Reader r) = (b # mb) # ms"
  shows "ReadAtMost r sz = None"
proof -
  have "Buffer_Extend fresh_buffer sz = None"
    using assms(1-3) by (simp add: Buffer_Extend_def Size_def buf_New_def Let_def i32_def b_len32_def)
  with assms(1,2,4,5) show ?thesis
    by (simp add: ReadAtMost_def mr_ReadMultiBuffer_def SplitSize_def)
qed

text \<open>
  C17: whatever bytes a client worker receives, well-formed or not, in buffers of at most 8192 bytes (those of the pool) and less
  than 2 GB in one read, and however the writers of its sessions and of the connection fail, its reading loop neither panics nor
  runs forever: it returns, and the worker is then done. The bound is needed: see \<open>ReadAtMost_large_panics\<close>.
\<close>

theorem mux_client_returns:
  assumes "\<forall>mb \<in> set (mr_mbs rd). mb_small mb"
  shows "\<exists>m' r'. fetchOutput now m rd = Some (m', r') \<and> cw_done m'"
proof -
  have "br_small \<lparr>br_Reader = rd, br_Buffer = []\<rparr>" using assms by (simp add: br_small_def mb_small_def)
  from fetch_loop_returns [OF this, of now m zero_meta] show ?thesis by (auto simp: fetchOutput_def cw_Close_def)
qed

text \<open>A frame for an unknown session, then one whose metadata ends early.\<close>

theorem mux_client_returns_witness:
  "\<exists>m' r'. fetchOutput 0 demo_client \<lparr>mr_mbs = [demo_buffer [0, 4, 9, 9, 2, 1, 0, 2, 5, 5], demo_buffer [0, 5, 1, 1, 1, 0, 1, 99]], mr_err = EOF\<rparr> =
     Some (m', r') \<and> cw_done m'"
  by (rule mux_client_returns) (simp add: demo_buffer_small)

end
