(* ===== verification/Mux_Picker.thy ===== *)
theory Mux_Picker
  imports Mux_Worker
begin

text \<open>
  The pool of client workers: \<^verbatim>\<open>IncrementalWorkerPicker\<close> and \<^verbatim>\<open>ClientManager\<close> of \<^verbatim>\<open>common/mux/client.go\<close>, with the periodic
  cleanup of \<^verbatim>\<open>common/task/periodic.go\<close>. Workers are objects on a heap; the picker's slice holds references to them. The
  factory is a parameter: what \<^verbatim>\<open>Create\<close> answers.
\<close>

section \<open>The picker\<close>

record worker_pool =
  p_heap :: "ClientWorker list"
  p_workers :: "nat list"
  p_cleanupTask :: bool
  p_running :: bool

definition worker_at :: "worker_pool \<Rightarrow> nat \<Rightarrow> ClientWorker" where
  "worker_at p i = p_heap p ! (p_workers p ! i)"

definition picker_cleanup :: "worker_pool \<Rightarrow> worker_pool" where
  "picker_cleanup p = p\<lparr>p_workers := filter (\<lambda>w. \<not> cw_done (p_heap p ! w)) (p_workers p)\<rparr>"

definition cleanupFunc :: "worker_pool \<Rightarrow> goerr option \<times> worker_pool" where
  "cleanupFunc p = (if p_workers p = [] then (Some (ErrMsg ''no worker''), p) else (None, picker_cleanup p))"

fun find_from :: "(nat \<Rightarrow> bool) \<Rightarrow> nat \<Rightarrow> nat list \<Rightarrow> int" where
  "find_from full idx [] = - 1"
| "find_from full idx (w # ws) = (if \<not> full w then int idx else find_from full (idx + 1) ws)"

definition findAvailable :: "worker_pool \<Rightarrow> int" where
  "findAvailable p = find_from (\<lambda>w. IsFull (p_heap p ! w)) 0 (p_workers p)"

text \<open>The worker, whether the cleanup task is to be started, and the error.\<close>

definition pickInternal :: "goerr + ClientWorker \<Rightarrow> worker_pool \<Rightarrow> ((goerr + nat) \<times> bool) \<times> worker_pool" where
  "pickInternal create p =
     (let idx = findAvailable p in
      if idx \<ge> 0 then
        let n = length (p_workers p); i = nat idx;
            ws = (if n > 1 \<and> i \<noteq> n - 1
                  then (p_workers p)[n - 1 := p_workers p ! i, i := p_workers p ! (n - 1)] else p_workers p)
        in ((Inr (ws ! i), False), p\<lparr>p_workers := ws\<rparr>)
      else
        let p1 = picker_cleanup p in
        (case create of
           Inl e \<Rightarrow> ((Inl e, False), p1)
         | Inr w \<Rightarrow>
             ((Inr (length (p_heap p1)), True),
              p1\<lparr>p_heap := p_heap p1 @ [w], p_workers := p_workers p1 @ [length (p_heap p1)], p_cleanupTask := True\<rparr>)))"

text \<open>\<^verbatim>\<open>Periodic.Start\<close> runs the task once, then at intervals; \<open>None\<close> is the panic of \<^verbatim>\<open>common.Must\<close>.\<close>

definition periodic_tick :: "worker_pool \<Rightarrow> goerr option \<times> worker_pool" where
  "periodic_tick p =
     (if \<not> p_running p then (None, p)
      else (case cleanupFunc p of (Some e, p1) \<Rightarrow> (Some e, p1\<lparr>p_running := False\<rparr>) | (None, p1) \<Rightarrow> (None, p1)))"

definition periodic_Start :: "worker_pool \<Rightarrow> goerr option \<times> worker_pool" where
  "periodic_Start p = (if p_running p then (None, p) else periodic_tick (p\<lparr>p_running := True\<rparr>))"

definition PickAvailable :: "goerr + ClientWorker \<Rightarrow> worker_pool \<Rightarrow> ((goerr + nat) \<times> worker_pool) option" where
  "PickAvailable create p =
     (case pickInternal create p of ((res, start), p1) \<Rightarrow>
        if start then (case periodic_Start p1 of (Some e, _) \<Rightarrow> None | (None, p2) \<Rightarrow> Some (res, p2)) else Some (res, p1))"

definition DialingWorkerFactory_Create :: "mbwriter \<Rightarrow> ClientStrategy \<Rightarrow> goerr + ClientWorker" where
  "DialingWorkerFactory_Create upLinkWriter strategy = Inr (NewClientWorker upLinkWriter strategy)"

section \<open>The manager\<close>

fun dispatch_attempts :: "nat \<Rightarrow> goerr + ClientWorker \<Rightarrow> mbwriter \<Rightarrow> worker_pool \<Rightarrow> (goerr option \<times> worker_pool) option" where
  "dispatch_attempts 0 create out p = Some (Some (ErrMsg ''unable to find an available mux client''), p)"
| "dispatch_attempts (Suc k) create out p =
     (case PickAvailable create p of
        None \<Rightarrow> None
      | Some (Inl e, p1) \<Rightarrow> Some (Some e, p1)
      | Some (Inr w, p1) \<Rightarrow>
          (case cw_Dispatch out (p_heap p1 ! w) of
             Some (m, _) \<Rightarrow> Some (None, p1\<lparr>p_heap := (p_heap p1)[w := m]\<rparr>)
           | None \<Rightarrow> dispatch_attempts k create out p1))"

definition ClientManager_Dispatch :: "goerr + ClientWorker \<Rightarrow> mbwriter \<Rightarrow> worker_pool \<Rightarrow> (goerr option \<times> worker_pool) option" where
  "ClientManager_Dispatch create out p = dispatch_attempts 16 create out p"

section \<open>Finding a worker\<close>

lemma find_from_cases:
  obtains (none) "find_from full k ws = - 1" "\<forall>w \<in> set ws. full w"
  | (some) i where "find_from full k ws = int (k + i)" "i < length ws" "\<not> full (ws ! i)" "\<forall>j < i. full (ws ! j)"
proof (induction ws arbitrary: k thesis)
  case (Cons w ws)
  show ?case
  proof (cases "full w")
    case True
    show ?thesis
    proof (rule Cons.IH [of "k + 1"])
      assume "find_from full (k + 1) ws = - 1" "\<forall>w \<in> set ws. full w"
      with Cons.prems(1) True show thesis by simp
    next
      fix i assume "find_from full (k + 1) ws = int (k + 1 + i)" "i < length ws" "\<not> full (ws ! i)" "\<forall>j < i. full (ws ! j)"
      with Cons.prems(2) [of "i + 1"] True show thesis by (auto simp: nth_Cons split: nat.splits)
    qed
  next
    case False
    with Cons.prems(2) [of 0] show ?thesis by simp
  qed
qed simp

text \<open>A worker as the pool relies on it: the manager only closes with the worker, and the limit fits the identifiers.\<close>

definition worker_ok :: "ClientWorker \<Rightarrow> bool" where
  "worker_ok m \<longleftrightarrow> (sm_closed (mx_manager (cw_mux m)) \<longrightarrow> cw_done m) \<and> uint (MaxConnection (cw_strategy m)) < 65536"

lemma Dispatch_accepts:
  assumes "worker_ok m" "\<not> IsFull m"
  obtains m' ref where "cw_Dispatch out m = Some (m', ref)"
proof -
  let ?c = "MaxConnection (cw_strategy m)"
  have u: "uint (ucast ?c :: u16) = uint ?c"
    using assms(1) by (simp add: worker_ok_def unsigned_ucast_eq take_bit_int_eq_self)
  have "\<not> sm_closed (mx_manager (cw_mux m))" "\<not> (uint (MaxConcurrency (cw_strategy m)) > 0 \<and> int (length (sm_sessions (mx_manager (cw_mux m)))) \<ge> uint (MaxConcurrency (cw_strategy m)))"
    "\<not> ((ucast ?c :: u16) > 0 \<and> sm_count (mx_manager (cw_mux m)) \<ge> ucast ?c)"
    using assms u by (auto simp: worker_ok_def IsFull_def IsClosing_def sm_Count_def sm_Size_def word_less_def word_le_def)
  with assms(2) that show thesis by (auto simp: cw_Dispatch_def Allocate_def Let_def)
qed

definition workers_ok :: "worker_pool \<Rightarrow> bool" where
  "workers_ok p \<longleftrightarrow> (\<forall>w \<in> set (p_workers p). w < length (p_heap p) \<and> worker_ok (p_heap p ! w))"

definition pick_swap :: "nat \<Rightarrow> worker_pool \<Rightarrow> worker_pool" where
  "pick_swap i p = (let n = length (p_workers p) in
     p\<lparr>p_workers := (if n > 1 \<and> i \<noteq> n - 1 then (p_workers p)[n - 1 := p_workers p ! i, i := p_workers p ! (n - 1)] else p_workers p)\<rparr>)"

lemma PickAvailable_found:
  assumes "findAvailable p = int i" "i < length (p_workers p)"
  shows "PickAvailable create p = Some (Inr (p_workers p ! (length (p_workers p) - 1)), pick_swap i p)"
proof -
  have "p_workers (pick_swap i p) ! i = p_workers p ! (length (p_workers p) - 1)"
    using assms(2) by (cases "i = length (p_workers p) - 1") (auto simp: pick_swap_def Let_def)
  with assms show ?thesis by (simp add: PickAvailable_def pickInternal_def pick_swap_def Let_def cong: if_cong)
qed

lemma pick_swap_simps [simp]:
  "p_heap (pick_swap i p) = p_heap p" "length (p_workers (pick_swap i p)) = length (p_workers p)"
  by (simp_all add: pick_swap_def Let_def)

lemma pick_swap_nth:
  assumes "i < length (p_workers p)" "k < length (p_workers p)"
  shows "p_workers (pick_swap i p) ! k =
    (if k = i then p_workers p ! (length (p_workers p) - 1) else if k = length (p_workers p) - 1 then p_workers p ! i else p_workers p ! k)"
  using assms by (cases "i = length (p_workers p) - 1") (auto simp: pick_swap_def Let_def nth_list_update)

lemma pick_swap_ok:
  assumes "workers_ok p" "i < length (p_workers p)"
  shows "workers_ok (pick_swap i p)"
proof -
  have "w \<in> set (p_workers p)" if w: "w \<in> set (p_workers (pick_swap i p))" for w
  proof -
    from w obtain k where "k < length (p_workers p)" "w = p_workers (pick_swap i p) ! k" by (auto simp: in_set_conv_nth)
    with assms(2) show ?thesis by (simp add: pick_swap_nth)
  qed
  with assms(1) show ?thesis by (auto simp: workers_ok_def)
qed

lemma findAvailable_cases:
  obtains (none) "findAvailable p = - 1" "\<forall>w \<in> set (p_workers p). IsFull (p_heap p ! w)"
  | (some) i where "findAvailable p = int i" "i < length (p_workers p)" "\<not> IsFull (worker_at p i)" "\<forall>j < i. IsFull (worker_at p j)"
  by (cases rule: find_from_cases [of "\<lambda>w. IsFull (p_heap p ! w)" 0 "p_workers p"]) (auto simp: findAvailable_def worker_at_def)

definition served :: "mbwriter \<Rightarrow> worker_pool \<Rightarrow> worker_pool \<Rightarrow> bool" where
  "served out p p' \<longleftrightarrow> (\<exists>w m ref. w < length (p_heap p') \<and> p_heap p' ! w = m \<and> ref < length (mx_heap (cw_mux m)) \<and>
     s_output (mx_heap (cw_mux m) ! ref) = out \<and> (w < length (p_heap p) \<longrightarrow> length (mx_heap (cw_mux (p_heap p ! w))) = ref))"

lemma Dispatch_served:
  assumes "cw_Dispatch out m = Some (m', ref)"
  shows "ref = length (mx_heap (cw_mux m)) \<and> ref < length (mx_heap (cw_mux m')) \<and> s_output (mx_heap (cw_mux m') ! ref) = out"
  using assms by (auto simp: cw_Dispatch_def Allocate_def Let_def split: if_splits)

text \<open>The attempt after one that met a full worker succeeds; so does the one that meets a worker with room.\<close>

lemma attempt_with_room:
  assumes "findAvailable p = int i" "i < length (p_workers p)" "workers_ok p" "\<not> IsFull (worker_at p (length (p_workers p) - 1))"
  shows "\<exists>p'. dispatch_attempts (Suc k) create out p = Some (None, p') \<and> served out p p'"
proof -
  let ?w = "p_workers p ! (length (p_workers p) - 1)"
  have w: "?w < length (p_heap p)" "worker_ok (p_heap p ! ?w)"
    using assms(2,3) nth_mem [of "length (p_workers p) - 1" "p_workers p"] by (auto simp: workers_ok_def)
  have nf: "\<not> IsFull (p_heap p ! ?w)" using assms(4) by (simp add: worker_at_def)
  obtain m' ref where d: "cw_Dispatch out (p_heap p ! ?w) = Some (m', ref)" by (rule Dispatch_accepts [OF w(2) nf])
  have "served out p ((pick_swap i p)\<lparr>p_heap := (p_heap p)[?w := m']\<rparr>)"
    unfolding served_def using w(1) Dispatch_served [OF d] by (intro exI [of _ ?w]) auto
  with d show ?thesis using PickAvailable_found [OF assms(1,2), of create] by simp
qed

lemma attempt_after_full:
  assumes "findAvailable p = int i" "i < length (p_workers p)" "workers_ok p" "\<not> IsFull (worker_at p i)" "\<forall>j < i. IsFull (worker_at p j)"
    and "IsFull (worker_at p (length (p_workers p) - 1))"
  shows "\<exists>p'. dispatch_attempts (Suc (Suc k)) create out p = Some (None, p') \<and> served out p p'"
proof -
  let ?n = "length (p_workers p)" and ?p = "pick_swap i p"
  have last_i: "\<not> IsFull (worker_at ?p (?n - 1))" using assms(2,4,6) pick_swap_nth [OF assms(2), of "?n - 1"] by (auto simp: worker_at_def)
  have refused: "cw_Dispatch out (p_heap ?p ! (p_workers p ! (?n - 1))) = None" using assms(6) by (simp add: cw_Dispatch_def worker_at_def)
  have "\<exists>p'. dispatch_attempts (Suc k) create out ?p = Some (None, p') \<and> served out ?p p'"
  proof (cases rule: findAvailable_cases [of ?p])
    case none
    have "p_workers ?p ! (?n - 1) \<in> set (p_workers ?p)" using assms(2) by (intro nth_mem) simp
    with none(2) last_i show ?thesis by (auto simp: worker_at_def)
  next
    case (some j)
    show ?thesis
      by (rule attempt_with_room [OF some(1,2) pick_swap_ok [OF assms(3,2)]]) (use last_i in simp)
  qed
  then show ?thesis
    using PickAvailable_found [OF assms(1,2), of create] refused by (simp add: served_def)
qed

lemma attempt_new_worker:
  assumes "findAvailable p = - 1" "create = Inr w" "\<not> IsFull w" "worker_ok w"
  shows "\<exists>p'. dispatch_attempts (Suc k) create out p = Some (None, p') \<and> served out p p'"
proof -
  obtain m' ref where d: "cw_Dispatch out w = Some (m', ref)" by (rule Dispatch_accepts [OF assms(4,3)])
  let ?n = "length (p_heap p)" and ?c = "picker_cleanup p"
  let ?p1 = "?c\<lparr>p_heap := p_heap p @ [w], p_workers := p_workers ?c @ [?n], p_cleanupTask := True\<rparr>"
  have pick: "pickInternal create p = ((Inr ?n, True), ?p1)"
    using assms(1,2) by (simp add: pickInternal_def picker_cleanup_def)
  have "\<exists>p2. periodic_Start ?p1 = (None, p2) \<and> p_heap p2 = p_heap p @ [w]"
    by (auto simp: periodic_Start_def periodic_tick_def cleanupFunc_def picker_cleanup_def)
  then obtain p2 where p2: "PickAvailable create p = Some (Inr ?n, p2)" "p_heap p2 = p_heap p @ [w]"
    using pick by (auto simp: PickAvailable_def)
  have "served out p (p2\<lparr>p_heap := (p_heap p2)[?n := m']\<rparr>)"
    unfolding served_def using Dispatch_served [OF d] p2(2) by (intro exI [of _ ?n]) auto
  with p2 d show ?thesis by simp
qed

lemma new_worker_ok: "uint (MaxConnection s) < 65536 \<Longrightarrow> worker_ok (NewClientWorker out s) \<and> \<not> IsFull (NewClientWorker out s)"
  by (auto simp: worker_ok_def NewClientWorker_def NewSessionManager_def IsFull_def IsClosing_def sm_Count_def sm_Size_def word_less_def)

text \<open>More attempts change nothing once one has succeeded.\<close>

lemma attempts_mono: "dispatch_attempts k create out p = Some (None, p') \<Longrightarrow> dispatch_attempts (k + j) create out p = Some (None, p')"
  by (induction k create out p rule: dispatch_attempts.induct) (auto split: option.splits sum.splits)

section \<open>Properties\<close>


definition demo_strategy :: ClientStrategy where
  "demo_strategy = \<lparr>MaxConcurrency = 1, MaxConnection = 128\<rparr>"

definition silent_writer :: mbwriter where
  "silent_writer = \<lparr>mw_written = [], mw_faults = [], mw_closed = False\<rparr>"

text \<open>A worker with room, then a full one: the first attempt meets the full one.\<close>

definition demo_pool :: worker_pool where
  "demo_pool = \<lparr>p_heap = [NewClientWorker silent_writer demo_strategy,
       fst (the (cw_Dispatch silent_writer (NewClientWorker silent_writer demo_strategy)))],
     p_workers = [0, 1], p_cleanupTask = True, p_running = True\<rparr>"

lemma demo_workers_ok: "workers_ok demo_pool"
  by (simp add: workers_ok_def demo_pool_def worker_ok_def demo_strategy_def NewClientWorker_def cw_Dispatch_def Allocate_def Let_def
      IsFull_def IsClosing_def sm_Count_def sm_Size_def NewSessionManager_def)


end
