(* ===== verification/Pipe.thy ===== *)
theory Pipe
  imports Buf_MultiBuffer Interfaces
begin

text \<open>
  \<^verbatim>\<open>transport/pipe\<close>: the in-memory pipe between the inbound and outbound sides of a connection,
  with \<^verbatim>\<open>signal.Notifier\<close> (a channel that holds at most one token) and \<^verbatim>\<open>done.Instance\<close>. The
  operations under the mutex are functions on the record \<open>pipe\<close>; the blocking loops of
  \<^verbatim>\<open>ReadMultiBuffer\<close> and \<^verbatim>\<open>WriteMultiBuffer\<close>, run by any number of writers and one reader, are a
  step relation whose steps are the critical sections, the signals and the wake-ups.
\<close>

section \<open>The pipe under its mutex\<close>

datatype pipe_state = POpen | PClosed | PErrord

record pipe =
  p_data :: "MultiBuffer option"
  p_limit :: int
  p_discardOverflow :: bool
  p_state :: pipe_state
  p_done :: bool
  p_readSignal :: bool
  p_writeSignal :: bool
  p_errChan :: "goerr option"

datatype pipe_option = WithoutSizeLimit | WithSizeLimit int | DiscardOverflow

fun pipe_apply :: "pipe_option \<Rightarrow> pipe \<Rightarrow> pipe" where
  "pipe_apply WithoutSizeLimit p = p\<lparr>p_limit := -1\<rparr>"
| "pipe_apply (WithSizeLimit l) p = p\<lparr>p_limit := l\<rparr>"
| "pipe_apply DiscardOverflow p = p\<lparr>p_discardOverflow := True\<rparr>"

definition pipe_New :: "pipe_option list \<Rightarrow> pipe" where
  "pipe_New opts =
     foldl (\<lambda>p x. pipe_apply x p)
       \<lparr>p_data = None, p_limit = -1, p_discardOverflow = False, p_state = POpen, p_done = False,
        p_readSignal = False, p_writeSignal = False, p_errChan = None\<rparr> opts"

definition errBufferFull :: goerr where "errBufferFull = ErrMsg ''buffer full''"
definition errSlowDown :: goerr where "errSlowDown = ErrMsg ''slow down''"
definition ErrReadTimeout :: goerr where "ErrReadTimeout = ErrMsg ''IO timeout''"

definition pipe_isFull :: "pipe \<Rightarrow> int \<Rightarrow> bool" where
  "pipe_isFull p curSize \<longleftrightarrow> p_limit p \<ge> 0 \<and> curSize > p_limit p"

abbreviation p_mb :: "pipe \<Rightarrow> MultiBuffer" where
  "p_mb p \<equiv> (case p_data p of None \<Rightarrow> [] | Some d \<Rightarrow> d)"

definition pipe_Len :: "pipe \<Rightarrow> int" where
  "pipe_Len p = (case p_data p of None \<Rightarrow> 0 | Some d \<Rightarrow> MultiBuffer_Len d)"

definition getState :: "pipe \<Rightarrow> bool \<Rightarrow> goerr option" where
  "getState p forRead =
     (case p_state p of
        POpen \<Rightarrow> if \<not> forRead \<and> pipe_isFull p (MultiBuffer_Len (p_mb p)) then Some errBufferFull else None
      | PClosed \<Rightarrow>
          if \<not> forRead then Some ErrClosedPipe
          else if \<not> MultiBuffer_IsEmpty (p_mb p) then None
          else Some EOF
      | PErrord \<Rightarrow> Some ErrClosedPipe)"

definition readMultiBufferInternal :: "pipe \<Rightarrow> MultiBuffer option \<times> goerr option \<times> pipe" where
  "readMultiBufferInternal p =
     (case getState p True of
        Some e \<Rightarrow> (None, Some e, p)
      | None \<Rightarrow> (p_data p, None, p\<lparr>p_data := None\<rparr>))"

definition writeMultiBufferInternal :: "MultiBuffer \<Rightarrow> pipe \<Rightarrow> goerr option \<times> pipe" where
  "writeMultiBufferInternal mb p =
     (case getState p False of
        Some e \<Rightarrow> (Some e, p)
      | None \<Rightarrow>
          (case p_data p of
             None \<Rightarrow> (None, p\<lparr>p_data := Some mb\<rparr>)
           | Some d \<Rightarrow> (Some errSlowDown, p\<lparr>p_data := Some (fst (MergeMulti d mb))\<rparr>)))"

definition pipe_Close :: "pipe \<Rightarrow> pipe" where
  "pipe_Close p =
     (if p_state p = PClosed \<or> p_state p = PErrord then p else p\<lparr>p_state := PClosed, p_done := True\<rparr>)"

definition pipe_Interrupt :: "pipe \<Rightarrow> pipe" where
  "pipe_Interrupt p =
     (let p1 = (if \<not> MultiBuffer_IsEmpty (p_mb p)
                then p\<lparr>p_data := None, p_state := (if p_state p = PClosed then PErrord else p_state p)\<rparr>
                else p)
      in if p_state p1 = PClosed \<or> p_state p1 = PErrord then p1
         else p1\<lparr>p_state := PErrord, p_done := True\<rparr>)"

definition ReturnAnError :: "goerr \<Rightarrow> pipe \<Rightarrow> pipe" where
  "ReturnAnError e p = p\<lparr>p_errChan := Some e\<rparr>"

definition pipe_Recover :: "pipe \<Rightarrow> goerr option \<times> pipe" where
  "pipe_Recover p = (p_errChan p, p\<lparr>p_errChan := None\<rparr>)"

definition Signal_read :: "pipe \<Rightarrow> pipe" where
  "Signal_read p = p\<lparr>p_readSignal := True\<rparr>"

definition Signal_write :: "pipe \<Rightarrow> pipe" where
  "Signal_write p = p\<lparr>p_writeSignal := True\<rparr>"

section \<open>Readers and writers\<close>

text \<open>Where a call of \<^verbatim>\<open>WriteMultiBuffer\<close> and of \<^verbatim>\<open>ReadMultiBuffer\<close> stands.\<close>

datatype writer =
    WTry MultiBuffer
  | WSignal "goerr option"
  | WWait MultiBuffer
  | WDone "goerr option"

datatype reader =
    RTry
  | RSignal "MultiBuffer option" "goerr option"
  | RWait
  | RDone goerr

text \<open>\<open>pc_in\<close>: the bytes accepted into the pipe so far; \<open>pc_out\<close>: the bytes handed to the reader.\<close>

record pconf =
  pc_pipe :: pipe
  pc_reader :: reader
  pc_writers :: "writer list"
  pc_in :: "byte list"
  pc_out :: "byte list"

text \<open>\<^verbatim>\<open>WriteMultiBuffer\<close> starts its loop only on a non-empty vector.\<close>

definition start_write :: "MultiBuffer \<Rightarrow> writer" where
  "start_write mb = (if MultiBuffer_IsEmpty mb then WDone None else WTry mb)"

text \<open>What one round of the write loop does with the answer of the critical section.\<close>

definition write_next :: "pipe \<Rightarrow> MultiBuffer \<Rightarrow> goerr option \<Rightarrow> writer" where
  "write_next p mb e =
     (if e = None \<or> e = Some errSlowDown then WSignal None
      else if e = Some errBufferFull \<and> p_discardOverflow p then WDone None
      else if e \<noteq> Some errBufferFull then WSignal e
      else WWait mb)"

definition accepted_bytes :: "MultiBuffer \<Rightarrow> goerr option \<Rightarrow> byte list" where
  "accepted_bytes mb e = (if e = None \<or> e = Some errSlowDown then mb_content mb else [])"

inductive pipe_step :: "pconf \<Rightarrow> pconf \<Rightarrow> bool" where
  w_try: "i < length (pc_writers c) \<Longrightarrow> pc_writers c ! i = WTry mb \<Longrightarrow>
    writeMultiBufferInternal mb (pc_pipe c) = (e, p) \<Longrightarrow>
    pipe_step c (c\<lparr>pc_pipe := p, pc_writers := (pc_writers c)[i := write_next (pc_pipe c) mb e],
                  pc_in := pc_in c @ accepted_bytes mb e\<rparr>)"
| w_signal: "i < length (pc_writers c) \<Longrightarrow> pc_writers c ! i = WSignal e \<Longrightarrow>
    pipe_step c (c\<lparr>pc_pipe := Signal_read (pc_pipe c), pc_writers := (pc_writers c)[i := WDone e]\<rparr>)"
| w_wake: "i < length (pc_writers c) \<Longrightarrow> pc_writers c ! i = WWait mb \<Longrightarrow> p_writeSignal (pc_pipe c) \<Longrightarrow>
    pipe_step c (c\<lparr>pc_pipe := (pc_pipe c)\<lparr>p_writeSignal := False\<rparr>,
                  pc_writers := (pc_writers c)[i := WTry mb]\<rparr>)"
| w_done: "i < length (pc_writers c) \<Longrightarrow> pc_writers c ! i = WWait mb \<Longrightarrow> p_done (pc_pipe c) \<Longrightarrow>
    pipe_step c (c\<lparr>pc_writers := (pc_writers c)[i := WDone (Some ErrClosedPipe)]\<rparr>)"
| r_try: "pc_reader c = RTry \<Longrightarrow> readMultiBufferInternal (pc_pipe c) = (d, e, p) \<Longrightarrow>
    pipe_step c (c\<lparr>pc_pipe := p,
                  pc_reader := (if d \<noteq> None \<or> e \<noteq> None then RSignal d e else RWait)\<rparr>)"
| r_data: "pc_reader c = RSignal d None \<Longrightarrow>
    pipe_step c (c\<lparr>pc_pipe := Signal_write (pc_pipe c), pc_reader := RTry,
                  pc_out := pc_out c @ (case d of None \<Rightarrow> [] | Some mb \<Rightarrow> mb_content mb)\<rparr>)"
| r_error: "pc_reader c = RSignal d (Some e) \<Longrightarrow>
    pipe_step c (c\<lparr>pc_pipe := Signal_write (pc_pipe c), pc_reader := RDone e\<rparr>)"
| r_wake: "pc_reader c = RWait \<Longrightarrow> p_readSignal (pc_pipe c) \<Longrightarrow>
    pipe_step c (c\<lparr>pc_pipe := (pc_pipe c)\<lparr>p_readSignal := False\<rparr>, pc_reader := RTry\<rparr>)"
| r_done: "pc_reader c = RWait \<Longrightarrow> p_done (pc_pipe c) \<Longrightarrow> pipe_step c (c\<lparr>pc_reader := RTry\<rparr>)"
| r_errChan: "pc_reader c = RWait \<Longrightarrow> p_errChan (pc_pipe c) = Some e \<Longrightarrow>
    pipe_step c (c\<lparr>pc_pipe := (pc_pipe c)\<lparr>p_errChan := None\<rparr>, pc_reader := RDone e\<rparr>)"

text \<open>
  What others may do at any time: close, interrupt, inject or take back an error, and the timer
  of \<^verbatim>\<open>ReadMultiBufferTimeout\<close>, which otherwise runs the same loop as \<^verbatim>\<open>ReadMultiBuffer\<close>.
\<close>

inductive pipe_env :: "pconf \<Rightarrow> pconf \<Rightarrow> bool" where
  "pipe_env c (c\<lparr>pc_pipe := pipe_Close (pc_pipe c)\<rparr>)"
| "pipe_env c (c\<lparr>pc_pipe := pipe_Interrupt (pc_pipe c)\<rparr>)"
| "p_errChan (pc_pipe c) = None \<Longrightarrow> pipe_env c (c\<lparr>pc_pipe := ReturnAnError e (pc_pipe c)\<rparr>)"
| "pipe_env c (c\<lparr>pc_pipe := snd (pipe_Recover (pc_pipe c))\<rparr>)"
| "pc_reader c = RWait \<Longrightarrow> pipe_env c (c\<lparr>pc_reader := RDone ErrReadTimeout\<rparr>)"

inductive pipe_reach :: "pconf \<Rightarrow> pconf \<Rightarrow> bool" for c0 where
  start: "pipe_reach c0 c0"
| step: "pipe_reach c0 c \<Longrightarrow> pipe_step c c' \<Longrightarrow> pipe_reach c0 c'"
| env: "pipe_reach c0 c \<Longrightarrow> pipe_env c c' \<Longrightarrow> pipe_reach c0 c'"

definition pipe_start :: "pipe_option list \<Rightarrow> MultiBuffer list \<Rightarrow> pconf" where
  "pipe_start opts mbs =
     \<lparr>pc_pipe = pipe_New opts, pc_reader = RTry, pc_writers = map start_write mbs, pc_in = [], pc_out = []\<rparr>"

section \<open>Invariants\<close>

lemma MergeMulti_content [simp]: "mb_content (fst (MergeMulti d mb)) = mb_content d @ mb_content mb"
  by (simp add: MergeMulti_def)

lemma err_distinct [simp]: "errBufferFull \<noteq> errSlowDown" "errSlowDown \<noteq> errBufferFull"
  by (simp_all add: errBufferFull_def errSlowDown_def)

lemma pipe_New_simps [simp]:
  "p_data (pipe_New opts) = None" "p_state (pipe_New opts) = POpen" "p_done (pipe_New opts) = False"
proof -
  have "p_data (foldl (\<lambda>p x. pipe_apply x p) q opts) = p_data q \<and>
      p_state (foldl (\<lambda>p x. pipe_apply x p) q opts) = p_state q \<and>
      p_done (foldl (\<lambda>p x. pipe_apply x p) q opts) = p_done q" for q
  proof (induction opts arbitrary: q)
    case (Cons x opts)
    then show ?case by (cases x) auto
  qed simp
  then show "p_data (pipe_New opts) = None" "p_state (pipe_New opts) = POpen" "p_done (pipe_New opts) = False"
    by (simp_all add: pipe_New_def)
qed

subsection \<open>Order and completeness of the bytes\<close>

definition in_hand :: "reader \<Rightarrow> byte list" where
  "in_hand r = (case r of RSignal (Some mb) None \<Rightarrow> mb_content mb | _ \<Rightarrow> [])"

definition fifo_inv :: "pconf \<Rightarrow> bool" where
  "fifo_inv c \<longleftrightarrow>
     (\<exists>lost. pc_in c = pc_out c @ in_hand (pc_reader c) @ mb_content (p_mb (pc_pipe c)) @ lost \<and>
        (lost \<noteq> [] \<longrightarrow> p_state (pc_pipe c) = PErrord \<and> p_data (pc_pipe c) = None))"

lemma write_cases:
  assumes "writeMultiBufferInternal mb p = (e, p')"
  obtains (stored) "p_state p = POpen" "p' = p\<lparr>p_data := Some (p_mb p @ mb)\<rparr>" "e = None \<or> e = Some errSlowDown"
  | (full) "p_state p = POpen" "p' = p" "e = Some errBufferFull" "p_data p \<noteq> None"
  | (closed) "p_state p \<noteq> POpen" "p' = p" "e = Some ErrClosedPipe"
proof (cases "p_state p = POpen")
  case False
  then have "getState p False = Some ErrClosedPipe"
    by (cases "p_state p") (simp_all add: getState_def)
  then have "e = Some ErrClosedPipe" "p' = p"
    using assms by (simp_all add: writeMultiBufferInternal_def)
  with False show thesis by (intro closed)
next
  case True
  show thesis
  proof (cases "pipe_isFull p (MultiBuffer_Len (p_mb p))")
    case full': True
    then have "p_data p \<noteq> None"
      by (cases "p_data p") (auto simp: pipe_isFull_def MultiBuffer_Len_def)
    moreover have "getState p False = Some errBufferFull" using True full' by (simp add: getState_def)
    then have "e = Some errBufferFull" "p' = p"
      using assms by (simp_all add: writeMultiBufferInternal_def)
    ultimately show thesis using True by (intro full)
  next
    case False
    with True have "getState p False = None" by (simp add: getState_def)
    then have "e = None \<or> e = Some errSlowDown" "p' = p\<lparr>p_data := Some (p_mb p @ mb)\<rparr>"
      using assms
      by (cases "p_data p"; simp add: writeMultiBufferInternal_def MergeMulti_def)+
    with True show thesis by (intro stored)
  qed
qed

lemma read_cases:
  assumes "readMultiBufferInternal p = (d, e, p')"
  obtains (error) x where "d = None" "e = Some x" "p' = p" "p_state p \<noteq> POpen"
  | (data) "d = p_data p" "e = None" "p' = p\<lparr>p_data := None\<rparr>" "d = None \<Longrightarrow> p_state p = POpen"
    "p_state p \<noteq> PErrord"
proof (cases "getState p True")
  case None
  then have "p_data p = None \<Longrightarrow> p_state p = POpen" "p_state p \<noteq> PErrord"
    by (cases "p_state p"; simp add: getState_def split: if_splits)+
  moreover have "d = p_data p" "e = None" "p' = p\<lparr>p_data := None\<rparr>"
    using None assms by (simp_all add: readMultiBufferInternal_def)
  ultimately show thesis by (intro data) simp_all
next
  case (Some x)
  then have "p_state p \<noteq> POpen" by (auto simp: getState_def)
  moreover have "d = None" "e = Some x" "p' = p"
    using Some assms by (simp_all add: readMultiBufferInternal_def)
  ultimately show thesis using error by blast
qed

lemma ErrClosedPipe_distinct [simp]:
  "ErrClosedPipe \<noteq> errBufferFull" "ErrClosedPipe \<noteq> errSlowDown"
  by (simp_all add: errBufferFull_def errSlowDown_def)

lemma fifo_inv_step: "pipe_step c c' \<Longrightarrow> fifo_inv c \<Longrightarrow> fifo_inv c'"
proof (induction rule: pipe_step.induct)
  case (w_try i c mb e p)
  from w_try(3) show ?case
  proof (cases rule: write_cases)
    case stored
    with w_try(4) show ?thesis by (auto simp: fifo_inv_def accepted_bytes_def)
  next
    case full
    with w_try(4) show ?thesis by (auto simp: fifo_inv_def accepted_bytes_def)
  next
    case closed
    with w_try(4) show ?thesis by (auto simp: fifo_inv_def accepted_bytes_def)
  qed
next
  case (r_try c d e p)
  from r_try(2) show ?case
  proof (cases rule: read_cases)
    case (error x)
    with r_try(1,3) show ?thesis by (auto simp: fifo_inv_def in_hand_def)
  next
    case data
    with r_try(1,3) show ?thesis
      by (cases d) (auto simp: fifo_inv_def in_hand_def)
  qed
next
  case (r_data c d)
  then show ?case by (cases d) (auto simp: fifo_inv_def in_hand_def Signal_write_def)
next
  case (r_error c d e)
  then show ?case by (cases d) (auto simp: fifo_inv_def in_hand_def Signal_write_def)
qed (auto simp: fifo_inv_def in_hand_def Signal_read_def Signal_write_def)

lemma fifo_inv_env: "pipe_env c c' \<Longrightarrow> fifo_inv c \<Longrightarrow> fifo_inv c'"
proof (induction rule: pipe_env.induct)
  case (1 c)
  then show ?case by (auto simp: fifo_inv_def pipe_Close_def)
next
  case (2 c)
  then show ?case
    by (cases "p_data (pc_pipe c)") (auto simp: fifo_inv_def pipe_Interrupt_def Let_def)
qed (auto simp: fifo_inv_def ReturnAnError_def pipe_Recover_def in_hand_def)

lemma fifo_inv_reach: "pipe_reach (pipe_start opts mbs) c \<Longrightarrow> fifo_inv c"
  by (induction rule: pipe_reach.induct)
    (auto simp: fifo_inv_step fifo_inv_env, simp add: pipe_start_def fifo_inv_def in_hand_def)

subsection \<open>No lost wake-up\<close>

definition live_inv :: "pconf \<Rightarrow> bool" where
  "live_inv c \<longleftrightarrow>
     (p_state (pc_pipe c) \<noteq> POpen \<longrightarrow> p_done (pc_pipe c)) \<and>
     (pc_reader c = RWait \<and> (p_data (pc_pipe c) \<noteq> None \<or> p_state (pc_pipe c) \<noteq> POpen) \<longrightarrow>
        p_readSignal (pc_pipe c) \<or> p_done (pc_pipe c) \<or> (\<exists>e. WSignal e \<in> set (pc_writers c))) \<and>
     ((\<exists>mb. WWait mb \<in> set (pc_writers c)) \<longrightarrow>
        p_writeSignal (pc_pipe c) \<or> p_data (pc_pipe c) \<noteq> None \<or> p_done (pc_pipe c) \<or>
        (\<exists>d e. pc_reader c = RSignal d e) \<or> (\<exists>mb. WTry mb \<in> set (pc_writers c)) \<or>
        (\<exists>e. pc_reader c = RDone e))"

lemma set_update_other: "y \<in> set ws \<Longrightarrow> i < length ws \<Longrightarrow> ws ! i \<noteq> y \<Longrightarrow> y \<in> set (ws[i := x])"
  by (metis in_set_conv_nth length_list_update nth_list_update_neq)

lemma set_update_cases: "y \<in> set (ws[i := x]) \<Longrightarrow> y = x \<or> y \<in> set ws"
  using set_update_subset_insert by fastforce

lemmas writer_sets = set_update_other set_update_memI

lemma live_inv_step: "pipe_step c c' \<Longrightarrow> live_inv c \<Longrightarrow> live_inv c'"
proof (induction rule: pipe_step.induct)
  case (w_try i c mb e p)
  have keep: "WSignal x \<in> set (pc_writers c) \<Longrightarrow>
      WSignal x \<in> set ((pc_writers c)[i := y])" for x y
    using w_try(1,2) by (auto intro: set_update_other)
  have new: "y \<in> set ((pc_writers c)[i := y])" for y
    using w_try(1) by (rule set_update_memI)
  from w_try(3) show ?case
  proof (cases rule: write_cases)
    case stored
    with w_try(4) new show ?thesis by (fastforce simp: live_inv_def write_next_def)
  next
    case full
    with w_try(4) keep show ?thesis by (fastforce simp: live_inv_def)
  next
    case closed
    with w_try(4) show ?thesis by (auto simp: live_inv_def)
  qed
next
  case (w_signal i c e)
  have "WTry x \<in> set (pc_writers c) \<Longrightarrow> WTry x \<in> set ((pc_writers c)[i := y])" for x y
    using w_signal(1,2) by (auto intro: set_update_other)
  with w_signal(3) show ?case
    by (fastforce simp: live_inv_def Signal_read_def dest: set_update_cases)
next
  case (w_wake i c mb)
  have "WSignal x \<in> set (pc_writers c) \<Longrightarrow> WSignal x \<in> set ((pc_writers c)[i := y])" for x y
    using w_wake(1,2) by (auto intro: set_update_other)
  moreover have "WTry mb \<in> set ((pc_writers c)[i := WTry mb])"
    using w_wake(1) by (rule set_update_memI)
  ultimately show ?case using w_wake(4) by (fastforce simp: live_inv_def)
next
  case (w_done i c mb)
  then show ?case by (auto simp: live_inv_def)
next
  case (r_try c d e p)
  from r_try(2) show ?case
    by (cases rule: read_cases) (use r_try(1,3) in \<open>auto simp: live_inv_def\<close>)
qed (auto simp: live_inv_def Signal_write_def)

lemma live_inv_env: "pipe_env c c' \<Longrightarrow> live_inv c \<Longrightarrow> live_inv c'"
  by (induction rule: pipe_env.induct)
    (auto simp: live_inv_def pipe_Close_def pipe_Interrupt_def ReturnAnError_def pipe_Recover_def Let_def)

lemma live_inv_reach: "pipe_reach (pipe_start opts mbs) c \<Longrightarrow> live_inv c"
proof (induction rule: pipe_reach.induct)
  case start
  then show ?case by (auto simp: pipe_start_def live_inv_def start_write_def split: if_splits)
qed (auto simp: live_inv_step live_inv_env)

section \<open>Properties\<close>

text \<open>
  C24: whatever the number of writers and the interleaving with the reader, closing and
  interrupting, the reader has received a beginning of the accepted bytes, in the order in
  which the pipe accepted them; nothing is lost, duplicated or reordered unless the pipe was
  interrupted, when only bytes not yet handed out are lost.
\<close>

theorem pipe_fifo:
  assumes "pipe_reach (pipe_start opts mbs) c"
  shows "\<exists>rest. pc_in c = pc_out c @ rest \<and>
    (p_state (pc_pipe c) \<noteq> PErrord \<longrightarrow>
       rest = in_hand (pc_reader c) @ mb_content (p_mb (pc_pipe c)))"
  using fifo_inv_reach [OF assms] by (auto simp: fifo_inv_def)

text \<open>
  C25: no wake-up is lost. In a reachable state in which no reader or writer can take a step,
  every call to \<^verbatim>\<open>WriteMultiBuffer\<close> has returned, unless the reader has given up, and a reader that
  waits does so on an open, empty pipe.
\<close>

theorem pipe_no_deadlock:
  assumes "pipe_reach (pipe_start opts mbs) c" "\<not> (\<exists>c'. pipe_step c c')"
  shows "((\<exists>e. pc_reader c = RDone e) \<or> (\<forall>w \<in> set (pc_writers c). \<exists>e. w = WDone e)) \<and>
     (pc_reader c = RWait \<longrightarrow> p_state (pc_pipe c) = POpen \<and> p_data (pc_pipe c) = None)"
proof -
  have live: "live_inv c" by (rule live_inv_reach [OF assms(1)])
  have nt: "WTry mb \<notin> set (pc_writers c)" for mb
    using assms(2) pipe_step.w_try by (metis in_set_conv_nth surj_pair)
  have ns: "WSignal e \<notin> set (pc_writers c)" for e
    using assms(2) pipe_step.w_signal by (metis in_set_conv_nth)
  have nw: "WWait mb \<in> set (pc_writers c) \<Longrightarrow> \<not> p_writeSignal (pc_pipe c) \<and> \<not> p_done (pc_pipe c)" for mb
    using assms(2) pipe_step.w_wake pipe_step.w_done by (metis in_set_conv_nth)
  have nr: "pc_reader c \<noteq> RTry" "pc_reader c \<noteq> RSignal d e" for d e
    using assms(2) pipe_step.r_try pipe_step.r_data pipe_step.r_error
    by (metis prod_cases3, metis not_None_eq)
  have rw: "pc_reader c = RWait \<Longrightarrow> \<not> p_readSignal (pc_pipe c) \<and> \<not> p_done (pc_pipe c)"
    using assms(2) pipe_step.r_wake pipe_step.r_done by metis
  have waiting: "p_state (pc_pipe c) = POpen \<and> p_data (pc_pipe c) = None" if "pc_reader c = RWait"
    using live rw [OF that] ns that by (auto simp: live_inv_def)
  have "\<exists>e. w = WDone e" if w: "w \<in> set (pc_writers c)" and r: "\<not> (\<exists>e. pc_reader c = RDone e)" for w
  proof (cases w)
    case (WWait mb)
    have "pc_reader c = RWait" using nr r by (cases "pc_reader c") auto
    with live nw [of mb] nt nr r WWait w waiting show ?thesis by (auto simp: live_inv_def)
  qed (use w nt ns in auto)
  with waiting show ?thesis by blast
qed

definition demo_mb :: MultiBuffer where
  "demo_mb = [FromBytes [1, 2, 3]]"

lemma demo_mb_simps: "\<not> MultiBuffer_IsEmpty demo_mb" "mb_content demo_mb = [1, 2, 3]"
  by (simp_all add: demo_mb_def Buffer_IsEmpty_content wf_FromBytes content_FromBytes)

lemma demo_pipe_reach:
  "\<exists>c. pipe_reach (pipe_start [] [demo_mb]) c \<and> pc_in c = [1, 2, 3] \<and> p_state (pc_pipe c) = POpen \<and>
       pc_reader c = RTry \<and> mb_content (p_mb (pc_pipe c)) = [1, 2, 3]"
proof -
  let ?c = "pipe_start [] [demo_mb]"
  have w: "writeMultiBufferInternal demo_mb (pc_pipe ?c) = (None, (pc_pipe ?c)\<lparr>p_data := Some demo_mb\<rparr>)"
    by (simp add: pipe_start_def pipe_New_def writeMultiBufferInternal_def getState_def pipe_isFull_def)
  have "pc_writers ?c ! 0 = WTry demo_mb" "0 < length (pc_writers ?c)"
    by (simp_all add: pipe_start_def start_write_def demo_mb_simps)
  let ?d = "?c\<lparr>pc_pipe := (pc_pipe ?c)\<lparr>p_data := Some demo_mb\<rparr>,
       pc_writers := (pc_writers ?c)[0 := write_next (pc_pipe ?c) demo_mb None],
       pc_in := pc_in ?c @ accepted_bytes demo_mb None\<rparr>"
  from pipe_step.w_try [OF \<open>0 < length (pc_writers ?c)\<close> \<open>pc_writers ?c ! 0 = WTry demo_mb\<close> w]
  have "pipe_reach ?c ?d" by (rule pipe_reach.step [OF pipe_reach.start])
  moreover have "pc_in ?d = [1, 2, 3] \<and> p_state (pc_pipe ?d) = POpen \<and> pc_reader ?d = RTry \<and>
      mb_content (p_mb (pc_pipe ?d)) = [1, 2, 3]"
    by (simp add: pipe_start_def accepted_bytes_def demo_mb_simps)
  ultimately show ?thesis by blast
qed

theorem pipe_fifo_witness:
  "\<exists>c :: pconf. pipe_reach (pipe_start [] [demo_mb]) c \<and> p_state (pc_pipe c) = POpen \<and> pc_in c = [1, 2, 3] \<and>
     pc_in c = pc_out c @ mb_content (p_mb (pc_pipe c))"
proof -
  obtain c where c: "pipe_reach (pipe_start [] [demo_mb]) c" "pc_in c = [1, 2, 3]"
    "p_state (pc_pipe c) = POpen" "pc_reader c = RTry" "mb_content (p_mb (pc_pipe c)) = [1, 2, 3]"
    using demo_pipe_reach by blast
  from pipe_fifo [OF c(1)] c(2-5) have "pc_in c = pc_out c @ mb_content (p_mb (pc_pipe c))" by (auto simp: in_hand_def)
  with c(1-3) show ?thesis by blast
qed

theorem pipe_no_deadlock_witness:
  "\<exists>c :: pconf. pipe_reach (pipe_start [] []) c \<and> \<not> (\<exists>c'. pipe_step c c') \<and>
     (pc_reader c = RWait \<longrightarrow> p_state (pc_pipe c) = POpen \<and> p_data (pc_pipe c) = None)"
proof -
  let ?c = "pipe_start [] []"
  have r: "readMultiBufferInternal (pc_pipe ?c) = (None, None, (pc_pipe ?c)\<lparr>p_data := None\<rparr>)"
    by (simp add: pipe_start_def readMultiBufferInternal_def getState_def)
  let ?d = "?c\<lparr>pc_pipe := (pc_pipe ?c)\<lparr>p_data := None\<rparr>, pc_reader := RWait\<rparr>"
  have "pipe_step ?c ?d"
    using pipe_step.r_try [OF _ r] by (simp add: pipe_start_def)
  then have reach: "pipe_reach ?c ?d" by (rule pipe_reach.step [OF pipe_reach.start])
  have stuck: "\<not> (\<exists>c'. pipe_step ?d c')"
    by (auto simp: pipe_start_def pipe_New_def elim: pipe_step.cases)
  from pipe_no_deadlock [OF reach stuck] reach stuck show ?thesis by blast
qed

text \<open>An open pipe without a size limit is a queue of bytes.\<close>

definition unlimited :: "pipe \<Rightarrow> bool" where
  "unlimited p \<longleftrightarrow> p_state p = POpen \<and> p_limit p < 0"

interpretation upipe: byte_fifo unlimited "\<lambda>p. mb_content (p_mb p)" "\<lambda>mb. True" mb_content
  "\<lambda>p mb. snd (writeMultiBufferInternal mb p)"
  "\<lambda>p k. (case readMultiBufferInternal p of (d, e, p') \<Rightarrow> (p', case d of None \<Rightarrow> [] | Some mb \<Rightarrow> mb_content mb))"
proof
  fix q :: pipe and d
  assume "unlimited q"
  then have "writeMultiBufferInternal d q = (e, q') \<Longrightarrow> q' = q\<lparr>p_data := Some (p_mb q @ d)\<rparr>" for e q'
    by (auto simp: writeMultiBufferInternal_def getState_def pipe_isFull_def unlimited_def MergeMulti_def
        split: option.splits)
  then have "snd (writeMultiBufferInternal d q) = q\<lparr>p_data := Some (p_mb q @ d)\<rparr>"
    by (metis prod.collapse)
  with \<open>unlimited q\<close> show "unlimited (snd (writeMultiBufferInternal d q))"
    "mb_content (p_mb (snd (writeMultiBufferInternal d q))) = mb_content (p_mb q) @ mb_content d"
    by (simp_all add: unlimited_def)
next
  fix q q' :: pipe and k :: nat and bs
  assume u: "unlimited q" and g: "(case readMultiBufferInternal q of
     (d, e, p') \<Rightarrow> (p', case d of None \<Rightarrow> [] | Some mb \<Rightarrow> mb_content mb)) = (q', bs)"
  have "readMultiBufferInternal q = (p_data q, None, q\<lparr>p_data := None\<rparr>)"
    using u by (simp add: readMultiBufferInternal_def getState_def unlimited_def)
  with u g show "unlimited q'" "mb_content (p_mb q) = bs @ mb_content (p_mb q')"
    by (auto simp: unlimited_def split: option.splits)
qed

end
