(* ===== verification/KCP_Segment.thy ===== *)
theory KCP_Segment
  imports Buf_Buffer Interfaces
begin

unbundle bit_operations_syntax

text \<open>
  \<^verbatim>\<open>transport/internet/kcp\<close>, the wire side: segments and their serialization (\<^verbatim>\<open>segment.go\<close>), the
  legacy authenticator (\<^verbatim>\<open>crypt.go\<close>, \<^verbatim>\<open>xor.go\<close>) with FNV-1a of the standard library, packets
  (\<^verbatim>\<open>io.go\<close>, the header obfuscation and the cipher being parameters) and the derived settings
  (\<^verbatim>\<open>config.go\<close>). \<open>None\<close> is a panic, or nil for a segment.
\<close>

section \<open>Segments\<close>

definition CommandACK :: byte where "CommandACK = 0"
definition CommandData :: byte where "CommandData = 1"
definition CommandTerminate :: byte where "CommandTerminate = 2"
definition CommandPing :: byte where "CommandPing = 3"

definition SegmentOptionClose :: byte where "SegmentOptionClose = 1"

definition ackNumberLimit :: nat where "ackNumberLimit = 128"

record DataSegment =
  ds_Conv :: u16
  ds_Option :: byte
  ds_Timestamp :: u32
  ds_Number :: u32
  ds_SendingNext :: u32
  ds_payload :: "Buffer option"
  ds_timeout :: u32
  ds_transmit :: u32

record AckSegment =
  as_Conv :: u16
  as_Option :: byte
  as_ReceivingWindow :: u32
  as_ReceivingNext :: u32
  as_Timestamp :: u32
  as_NumberList :: "u32 list"

record CmdOnlySegment =
  cs_Conv :: u16
  cs_Cmd :: byte
  cs_Option :: byte
  cs_SendingNext :: u32
  cs_ReceivingNext :: u32
  cs_PeerRTO :: u32

datatype Segment = Data DataSegment | Ack AckSegment | CmdOnly CmdOnlySegment

definition NewDataSegment :: DataSegment where
  "NewDataSegment = \<lparr>ds_Conv = 0, ds_Option = 0, ds_Timestamp = 0, ds_Number = 0, ds_SendingNext = 0,
     ds_payload = None, ds_timeout = 0, ds_transmit = 0\<rparr>"

definition NewAckSegment :: AckSegment where
  "NewAckSegment = \<lparr>as_Conv = 0, as_Option = 0, as_ReceivingWindow = 0, as_ReceivingNext = 0,
     as_Timestamp = 0, as_NumberList = []\<rparr>"

definition NewCmdOnlySegment :: CmdOnlySegment where
  "NewCmdOnlySegment = \<lparr>cs_Conv = 0, cs_Cmd = 0, cs_Option = 0, cs_SendingNext = 0, cs_ReceivingNext = 0,
     cs_PeerRTO = 0\<rparr>"

fun Conversation :: "Segment \<Rightarrow> u16" where
  "Conversation (Data s) = ds_Conv s"
| "Conversation (Ack s) = as_Conv s"
| "Conversation (CmdOnly s) = cs_Conv s"

fun Command :: "Segment \<Rightarrow> byte" where
  "Command (Data s) = CommandData"
| "Command (Ack s) = CommandACK"
| "Command (CmdOnly s) = cs_Cmd s"

definition DataSegment_Data :: "DataSegment \<Rightarrow> Buffer \<times> DataSegment" where
  "DataSegment_Data s =
     (case ds_payload s of
        None \<Rightarrow> (fresh_buffer, s\<lparr>ds_payload := Some fresh_buffer\<rparr>)
      | Some b \<Rightarrow> (b, s))"

definition DataSegment_Detach :: "DataSegment \<Rightarrow> Buffer option \<times> DataSegment" where
  "DataSegment_Detach s = (ds_payload s, s\<lparr>ds_payload := None\<rparr>)"

definition DataSegment_parse ::
  "DataSegment \<Rightarrow> u16 \<Rightarrow> byte \<Rightarrow> byte list \<Rightarrow> (DataSegment \<times> byte list) option" where
  "DataSegment_parse s conv opt buf =
     (if length buf < 15 then None
      else
        (let s1 = s\<lparr>ds_Conv := conv, ds_Option := opt, ds_Timestamp := Uint32 buf,
                    ds_Number := Uint32 (drop 4 buf), ds_SendingNext := Uint32 (drop 8 buf)\<rparr>;
             dataLen = unat (Uint16 (drop 12 buf));
             buf' = drop 14 buf
         in if length buf' < dataLen then None
            else
              (case DataSegment_Data s1 of (b, s2) \<Rightarrow>
                Some (s2\<lparr>ds_payload := Some (snd (snd (Buffer_Write (Buffer_Clear b) (take dataLen buf'))))\<rparr>,
                      drop dataLen buf'))))"

definition AckSegment_PutTimestamp :: "AckSegment \<Rightarrow> u32 \<Rightarrow> AckSegment" where
  "AckSegment_PutTimestamp s timestamp =
     (if timestamp - as_Timestamp s < 0x7FFFFFFF then s\<lparr>as_Timestamp := timestamp\<rparr> else s)"

definition AckSegment_PutNumber :: "AckSegment \<Rightarrow> u32 \<Rightarrow> AckSegment" where
  "AckSegment_PutNumber s number = s\<lparr>as_NumberList := as_NumberList s @ [number]\<rparr>"

definition AckSegment_IsFull :: "AckSegment \<Rightarrow> bool" where
  "AckSegment_IsFull s \<longleftrightarrow> length (as_NumberList s) = ackNumberLimit"

definition AckSegment_IsEmpty :: "AckSegment \<Rightarrow> bool" where
  "AckSegment_IsEmpty s \<longleftrightarrow> length (as_NumberList s) = 0"

fun parse_numbers :: "nat \<Rightarrow> AckSegment \<Rightarrow> byte list \<Rightarrow> AckSegment \<times> byte list" where
  "parse_numbers 0 s buf = (s, buf)"
| "parse_numbers (Suc n) s buf = parse_numbers n (AckSegment_PutNumber s (Uint32 buf)) (drop 4 buf)"

definition AckSegment_parse ::
  "AckSegment \<Rightarrow> u16 \<Rightarrow> byte \<Rightarrow> byte list \<Rightarrow> (AckSegment \<times> byte list) option" where
  "AckSegment_parse s conv opt buf =
     (if length buf < 13 then None
      else
        (let s1 = s\<lparr>as_Conv := conv, as_Option := opt, as_ReceivingWindow := Uint32 buf,
                    as_ReceivingNext := Uint32 (drop 4 buf), as_Timestamp := Uint32 (drop 8 buf)\<rparr>;
             cnt = unat (buf ! 12);
             buf' = drop 13 buf
         in if length buf' < cnt * 4 then None else Some (parse_numbers cnt s1 buf')))"

definition CmdOnlySegment_parse ::
  "CmdOnlySegment \<Rightarrow> u16 \<Rightarrow> byte \<Rightarrow> byte \<Rightarrow> byte list \<Rightarrow> (CmdOnlySegment \<times> byte list) option" where
  "CmdOnlySegment_parse s conv cmd opt buf =
     (if length buf < 12 then None
      else Some (s\<lparr>cs_Conv := conv, cs_Cmd := cmd, cs_Option := opt, cs_SendingNext := Uint32 buf,
                   cs_ReceivingNext := Uint32 (drop 4 buf), cs_PeerRTO := Uint32 (drop 8 buf)\<rparr>,
                 drop 12 buf))"

definition ReadSegment :: "byte list \<Rightarrow> (Segment \<times> byte list) option" where
  "ReadSegment buf =
     (if length buf < 4 then None
      else
        (let conv = Uint16 buf; cmd = buf ! 2; opt = buf ! 3; buf' = drop 4 buf in
         if cmd = CommandData then map_option (\<lambda>(s, r). (Data s, r)) (DataSegment_parse NewDataSegment conv opt buf')
         else if cmd = CommandACK then map_option (\<lambda>(s, r). (Ack s, r)) (AckSegment_parse NewAckSegment conv opt buf')
         else map_option (\<lambda>(s, r). (CmdOnly s, r)) (CmdOnlySegment_parse NewCmdOnlySegment conv cmd opt buf')))"

text \<open>\<^verbatim>\<open>ByteSize\<close>, and \<^verbatim>\<open>Serialize\<close> into a slice of exactly that size.\<close>

fun ByteSize :: "Segment \<Rightarrow> int" where
  "ByteSize (Data s) = i32 (18 + (case ds_payload s of None \<Rightarrow> 0 | Some b \<Rightarrow> Buffer_Len b))"
| "ByteSize (Ack s) = i32 (17 + int (length (as_NumberList s) * 4))"
| "ByteSize (CmdOnly s) = 16"

definition DataSegment_Serialize :: "DataSegment \<Rightarrow> byte list option" where
  "DataSegment_Serialize s =
     (case ds_payload s of
        None \<Rightarrow> None
      | Some b \<Rightarrow>
          Some (PutUint16 (ds_Conv s) @ [CommandData, ds_Option s] @ PutUint32 (ds_Timestamp s) @
                PutUint32 (ds_Number s) @ PutUint32 (ds_SendingNext s) @
                PutUint16 (of_int (Buffer_Len b)) @ content b))"

definition AckSegment_Serialize :: "AckSegment \<Rightarrow> byte list" where
  "AckSegment_Serialize s =
     PutUint16 (as_Conv s) @ [CommandACK, as_Option s] @ PutUint32 (as_ReceivingWindow s) @
     PutUint32 (as_ReceivingNext s) @ PutUint32 (as_Timestamp s) @
     [of_nat (length (as_NumberList s))] @ concat (map PutUint32 (as_NumberList s))"

definition CmdOnlySegment_Serialize :: "CmdOnlySegment \<Rightarrow> byte list" where
  "CmdOnlySegment_Serialize s =
     PutUint16 (cs_Conv s) @ [cs_Cmd s, cs_Option s] @ PutUint32 (cs_SendingNext s) @
     PutUint32 (cs_ReceivingNext s) @ PutUint32 (cs_PeerRTO s)"

fun Serialize :: "Segment \<Rightarrow> byte list option" where
  "Serialize (Data s) = DataSegment_Serialize s"
| "Serialize (Ack s) = Some (AckSegment_Serialize s)"
| "Serialize (CmdOnly s) = Some (CmdOnlySegment_Serialize s)"

section \<open>The simple authenticator\<close>

definition xorfwd :: "byte list \<Rightarrow> byte list" where
  "xorfwd x = foldl (\<lambda>x i. x[i := x ! i XOR x ! (i - 4)]) x [4..<length x]"

definition xorbkd :: "byte list \<Rightarrow> byte list" where
  "xorbkd x = foldl (\<lambda>x i. x[i := x ! i XOR x ! (i - 4)]) x (rev [4..<length x])"

definition fnv32a :: "byte list \<Rightarrow> u32" where
  "fnv32a bs = foldl (\<lambda>h c. (h XOR ucast c) * 16777619) 2166136261 bs"

text \<open>Padding to a multiple of four around the xor pass.\<close>

definition padded :: "(byte list \<Rightarrow> byte list) \<Rightarrow> byte list \<Rightarrow> byte list" where
  "padded f dst =
     (let dstLen = length dst; xtra = 4 - dstLen mod 4
      in if xtra \<noteq> 4 then take dstLen (f (dst @ replicate xtra 0)) else f dst)"

definition SA_Seal :: "byte list \<Rightarrow> byte list" where
  "SA_Seal plain =
     (let body = PutUint16 (of_nat (length plain)) @ plain
      in padded xorfwd (PutUint32 (fnv32a body) @ body))"

text \<open>The slices of \<^verbatim>\<open>Open\<close> need six bytes; the packet reader never passes fewer.\<close>

definition SA_Open :: "byte list \<Rightarrow> goerr + byte list" where
  "SA_Open cipherText =
     (let dst = padded xorbkd cipherText in
      if length dst < 6 then Inl (ErrMsg ''slice bounds out of range'')
      else if Uint32 (take 4 dst) \<noteq> fnv32a (drop 4 dst) then Inl (ErrMsg ''invalid auth'')
      else if int (length dst) - 6 \<noteq> uint (Uint16 (take 2 (drop 4 dst))) then Inl (ErrMsg ''invalid auth'')
      else Inr (drop 6 dst))"

definition SimpleAuthenticator :: AEAD where
  "SimpleAuthenticator =
     \<lparr>NonceSize = 0, Overhead = 6, Seal = (\<lambda>nonce plain. SA_Seal plain), Open = (\<lambda>nonce c. SA_Open c)\<rparr>"

section \<open>Packets\<close>

text \<open>A header obfuscation: its size and the bytes of the next header.\<close>

record PacketHeader =
  h_Size :: nat
  h_bytes :: "byte list"

lemma parse_numbers_rest: "snd (parse_numbers n s buf) = drop (4 * n) buf"
  by (induction n arbitrary: s buf) (simp_all add: algebra_simps)

lemma parse_shrinks:
  "DataSegment_parse s conv opt buf = Some (ds, x) \<Longrightarrow> length x \<le> length buf"
  "AckSegment_parse a conv opt buf = Some (as, x) \<Longrightarrow> length x \<le> length buf"
  "CmdOnlySegment_parse c conv cmd opt buf = Some (cs, x) \<Longrightarrow> length x \<le> length buf"
proof -
  show "DataSegment_parse s conv opt buf = Some (ds, x) \<Longrightarrow> length x \<le> length buf"
    by (auto simp: DataSegment_parse_def Let_def split: if_splits prod.splits)
  show "length x \<le> length buf" if "AckSegment_parse a conv opt buf = Some (as, x)"
  proof -
    have "\<exists>n s. parse_numbers n s (drop 13 buf) = (as, x)"
      using that by (simp add: AckSegment_parse_def Let_def split: if_splits) blast
    then obtain n s where "parse_numbers n s (drop 13 buf) = (as, x)" by blast
    then have "x = drop (4 * n) (drop 13 buf)"
      by (metis parse_numbers_rest snd_conv)
    then show ?thesis by simp
  qed
  show "CmdOnlySegment_parse c conv cmd opt buf = Some (cs, x) \<Longrightarrow> length x \<le> length buf"
    by (auto simp: CmdOnlySegment_parse_def split: if_splits)
qed

lemma ReadSegment_shrinks:
  assumes "ReadSegment b = Some (seg, x)"
  shows "length x < length b"
proof -
  have "4 \<le> length b" "length x \<le> length (drop 4 b)"
    using assms by (auto simp: ReadSegment_def Let_def dest: parse_shrinks split: if_splits)
  then show ?thesis by simp
qed

text \<open>The loop that takes a packet apart; every segment takes at least four bytes.\<close>

function read_segments :: "byte list \<Rightarrow> Segment list" where
  "read_segments b =
     (if b = [] then []
      else
        (case ReadSegment b of
           None \<Rightarrow> []
         | Some (seg, x) \<Rightarrow> seg # read_segments x))"
  by pat_completeness auto
termination by (relation "measure length") (auto dest: ReadSegment_shrinks)

declare read_segments.simps [simp del]

definition KCPPacketReader_Read :: "PacketHeader option \<Rightarrow> AEAD option \<Rightarrow> byte list \<Rightarrow> Segment list" where
  "KCPPacketReader_Read Header Security b0 =
     (case (case Header of
              None \<Rightarrow> Some b0
            | Some h \<Rightarrow> if length b0 \<le> h_Size h then None else Some (drop (h_Size h) b0)) of
        None \<Rightarrow> []
      | Some b \<Rightarrow>
          (case Security of
             None \<Rightarrow> read_segments b
           | Some a \<Rightarrow>
               if length b \<le> NonceSize a + Overhead a then []
               else
                 (case Open a (take (NonceSize a) b) (drop (NonceSize a) b) of
                    Inl _ \<Rightarrow> []
                  | Inr out \<Rightarrow> read_segments out)))"

definition KCPPacketWriter_Overhead :: "PacketHeader option \<Rightarrow> AEAD option \<Rightarrow> nat" where
  "KCPPacketWriter_Overhead Header Security =
     (case Header of None \<Rightarrow> 0 | Some h \<Rightarrow> h_Size h) + (case Security of None \<Rightarrow> 0 | Some a \<Rightarrow> Overhead a)"

text \<open>
  The packet that is written, for random bytes \<open>nonce\<close>; with a nonce size of 0 the source passes
  the header as nonce. The packet is put together in one buffer of 8192 bytes: \<^verbatim>\<open>Extend\<close> panics
  beyond it. The sealed bytes are taken to be written in place, which \<^verbatim>\<open>cipher.AEAD\<close> promises
  while the capacity lasts (the simple authenticator pads by up to three bytes while it works).
\<close>

definition KCPPacketWriter_packet ::
  "PacketHeader option \<Rightarrow> AEAD option \<Rightarrow> byte list \<Rightarrow> byte list \<Rightarrow> byte list option" where
  "KCPPacketWriter_packet Header Security nonce b =
     (let hdr = (case Header of None \<Rightarrow> [] | Some h \<Rightarrow> h_bytes h)
      in case Security of
           None \<Rightarrow> Some (hdr @ take (8192 - length hdr) b)
         | Some a \<Rightarrow>
             if length hdr + length nonce + Overhead a + length b > 8192 then None
             else Some (hdr @ nonce @ Seal a (if nonce = [] then hdr else nonce) b))"

definition KCPPacketWriter_Write ::
  "PacketHeader option \<Rightarrow> AEAD option \<Rightarrow> byte list \<Rightarrow> sink \<Rightarrow> byte list \<Rightarrow> (nat \<times> goerr option \<times> sink) option" where
  "KCPPacketWriter_Write Header Security nonce w b =
     (case KCPPacketWriter_packet Header Security nonce b of
        None \<Rightarrow> None
      | Some packet \<Rightarrow> (case io_Write packet w of (_, e, w') \<Rightarrow> Some (length b, e, w')))"

section \<open>Settings\<close>

record Config =
  c_Mtu :: "u32 option"
  c_Tti :: "u32 option"
  c_UplinkCapacity :: "u32 option"
  c_DownlinkCapacity :: "u32 option"
  c_WriteBuffer :: "u32 option"
  c_ReadBuffer :: "u32 option"
  c_Congestion :: bool

definition dflt :: "'a \<Rightarrow> 'a option \<Rightarrow> 'a" where
  "dflt d x = (case x of None \<Rightarrow> d | Some v \<Rightarrow> v)"

definition GetMTUValue :: "Config \<Rightarrow> u32" where "GetMTUValue c = dflt 1350 (c_Mtu c)"
definition GetTTIValue :: "Config \<Rightarrow> u32" where "GetTTIValue c = dflt 50 (c_Tti c)"
definition GetUplinkCapacityValue :: "Config \<Rightarrow> u32" where
  "GetUplinkCapacityValue c = dflt 5 (c_UplinkCapacity c)"
definition GetDownlinkCapacityValue :: "Config \<Rightarrow> u32" where
  "GetDownlinkCapacityValue c = dflt 20 (c_DownlinkCapacity c)"
definition GetWriteBufferSize :: "Config \<Rightarrow> u32" where
  "GetWriteBufferSize c = dflt (2 * 1024 * 1024) (c_WriteBuffer c)"
definition GetReadBufferSize :: "Config \<Rightarrow> u32" where
  "GetReadBufferSize c = dflt (2 * 1024 * 1024) (c_ReadBuffer c)"

text \<open>Unsigned division; \<open>None\<close> is the run-time panic on a zero divisor.\<close>

definition udiv :: "u32 \<Rightarrow> u32 \<Rightarrow> u32 option" where
  "udiv a b = (if b = 0 then None else Some (a div b))"

definition in_flight_size :: "u32 \<Rightarrow> Config \<Rightarrow> u32 option" where
  "in_flight_size cap c =
     do {
       x \<leftarrow> udiv (cap * 1024 * 1024) (GetMTUValue c);
       y \<leftarrow> udiv 1000 (GetTTIValue c);
       sz \<leftarrow> udiv x y;
       Some (if sz < 8 then 8 else sz)
     }"

definition GetSendingInFlightSize :: "Config \<Rightarrow> u32 option" where
  "GetSendingInFlightSize c = in_flight_size (GetUplinkCapacityValue c) c"

definition GetReceivingInFlightSize :: "Config \<Rightarrow> u32 option" where
  "GetReceivingInFlightSize c = in_flight_size (GetDownlinkCapacityValue c) c"

definition GetSendingBufferSize :: "Config \<Rightarrow> u32 option" where
  "GetSendingBufferSize c = udiv (GetWriteBufferSize c) (GetMTUValue c)"

definition GetReceivingBufferSize :: "Config \<Rightarrow> u32 option" where
  "GetReceivingBufferSize c = udiv (GetReadBufferSize c) (GetMTUValue c)"

section \<open>Round trips of segments\<close>

text \<open>
  A segment that can be sent: the payload is what a new buffer holds after a write, an
  acknowledgement lists at most 255 numbers, a command is neither DATA nor ACK. A data segment
  with an empty payload is only parsed when something follows it.
\<close>

fun segment_ok :: "Segment \<Rightarrow> bool" where
  "segment_ok (Data s) \<longleftrightarrow> ds_timeout s = 0 \<and> ds_transmit s = 0 \<and>
     (\<exists>bs. ds_payload s = Some (append_read fresh_buffer bs) \<and> bs \<noteq> [] \<and> length bs \<le> 8192)"
| "segment_ok (Ack s) \<longleftrightarrow> length (as_NumberList s) < 256"
| "segment_ok (CmdOnly s) \<longleftrightarrow> cs_Cmd s \<noteq> CommandData \<and> cs_Cmd s \<noteq> CommandACK"

definition wire :: "Segment \<Rightarrow> byte list" where
  "wire s = (case Serialize s of None \<Rightarrow> [] | Some bs \<Rightarrow> bs)"

lemma parse_numbers_concat:
  "parse_numbers (length ns) s (concat (map PutUint32 ns) @ rest) =
     (s\<lparr>as_NumberList := as_NumberList s @ ns\<rparr>, rest)"
  by (induction ns arbitrary: s) (simp_all add: AckSegment_PutNumber_def)

lemma payload_written:
  assumes "length bs \<le> 8192"
  shows "snd (snd (Buffer_Write (Buffer_Clear fresh_buffer) bs)) = append_read fresh_buffer bs"
proof -
  have "Buffer_Clear fresh_buffer = fresh_buffer" by (simp add: Buffer_Clear_def buf_New_def)
  with assms show ?thesis by (simp add: Buffer_Write_append)
qed

lemma commands [simp]: "CommandData \<noteq> CommandACK" "CommandACK \<noteq> CommandData"
  by (simp_all add: CommandData_def CommandACK_def)

lemma header_split:
  "Uint16 (PutUint16 c @ [x, y] @ r) = c" "(PutUint16 c @ [x, y] @ r) ! 2 = x"
  "(PutUint16 c @ [x, y] @ r) ! 3 = y" "drop 4 (PutUint16 c @ [x, y] @ r) = r"
  by (simp_all add: nth_append)

text \<open>What a data segment becomes on the other side.\<close>

definition arrived :: "DataSegment \<Rightarrow> Buffer \<Rightarrow> DataSegment" where
  "arrived s b = s\<lparr>ds_payload := Some (append_read fresh_buffer (content b)), ds_timeout := 0, ds_transmit := 0\<rparr>"

lemma ReadSegment_Data_arrived:
  assumes "ds_payload s = Some b" "buffer_wf b" "content b \<noteq> []" "length (content b) \<le> 8192"
  shows "ReadSegment (wire (Data s) @ rest) = Some (Data (arrived s b), rest)"
proof -
  let ?bs = "content b"
  let ?r = "PutUint32 (ds_Timestamp s) @ PutUint32 (ds_Number s) @ PutUint32 (ds_SendingNext s) @
     PutUint16 (of_nat (length ?bs)) @ ?bs @ rest"
  have w: "wire (Data s) @ rest = PutUint16 (ds_Conv s) @ [CommandData, ds_Option s] @ ?r"
    using assms(1) by (simp add: wire_def DataSegment_Serialize_def Buffer_Len_content [OF assms(2)])
  have len: "unat (of_nat (length ?bs) :: u16) = length ?bs"
    using assms(4) by (simp add: unat_of_nat)
  have "DataSegment_parse NewDataSegment (ds_Conv s) (ds_Option s) ?r = Some (arrived s b, rest)"
    using assms(3) len payload_written [OF assms(4)]
    by (cases ?bs) (simp_all add: DataSegment_parse_def Let_def DataSegment_Data_def NewDataSegment_def arrived_def)
  then show ?thesis
    unfolding ReadSegment_def Let_def w header_split by simp
qed

lemma ReadSegment_Data:
  assumes "segment_ok (Data s)"
  shows "ReadSegment (wire (Data s) @ rest) = Some (Data s, rest)"
proof -
  obtain bs where s: "ds_timeout s = 0" "ds_transmit s = 0" "ds_payload s = Some (append_read fresh_buffer bs)"
    "bs \<noteq> []" "length bs \<le> 8192"
    using assms by auto
  have wf: "buffer_wf (append_read fresh_buffer bs)" and c: "content (append_read fresh_buffer bs) = bs"
    using s(5) by (simp_all add: append_read_wf append_read_content)
  have "arrived s (append_read fresh_buffer bs) = s" using s c by (simp add: arrived_def)
  then show ?thesis using ReadSegment_Data_arrived [OF s(3) wf] c s(4,5) by simp
qed

lemma ReadSegment_Ack:
  assumes "segment_ok (Ack s)"
  shows "ReadSegment (wire (Ack s) @ rest) = Some (Ack s, rest)"
proof -
  let ?n = "length (as_NumberList s)"
  let ?r = "PutUint32 (as_ReceivingWindow s) @ PutUint32 (as_ReceivingNext s) @ PutUint32 (as_Timestamp s) @
     [of_nat ?n] @ concat (map PutUint32 (as_NumberList s)) @ rest"
  have w: "wire (Ack s) @ rest = PutUint16 (as_Conv s) @ [CommandACK, as_Option s] @ ?r"
    by (simp add: wire_def AckSegment_Serialize_def)
  have len: "unat (of_nat ?n :: byte) = ?n" using assms by (simp add: unat_of_nat)
  have "length (concat (map PutUint32 ns)) = 4 * length ns" for ns
    by (induction ns) auto
  then have "AckSegment_parse NewAckSegment (as_Conv s) (as_Option s) ?r = Some (s, rest)"
    using len
    by (simp add: AckSegment_parse_def Let_def nth_append parse_numbers_concat NewAckSegment_def)
  then show ?thesis
    unfolding ReadSegment_def Let_def w header_split by simp
qed

lemma ReadSegment_CmdOnly:
  assumes "segment_ok (CmdOnly s)"
  shows "ReadSegment (wire (CmdOnly s) @ rest) = Some (CmdOnly s, rest)"
proof -
  let ?r = "PutUint32 (cs_SendingNext s) @ PutUint32 (cs_ReceivingNext s) @ PutUint32 (cs_PeerRTO s) @ rest"
  have w: "wire (CmdOnly s) @ rest = PutUint16 (cs_Conv s) @ [cs_Cmd s, cs_Option s] @ ?r"
    by (simp add: wire_def CmdOnlySegment_Serialize_def)
  have "CmdOnlySegment_parse NewCmdOnlySegment (cs_Conv s) (cs_Cmd s) (cs_Option s) ?r = Some (s, rest)"
    by (simp add: CmdOnlySegment_parse_def NewCmdOnlySegment_def)
  with assms show ?thesis
    unfolding ReadSegment_def Let_def w header_split by simp
qed

interpretation segments: codec segment_ok wire ReadSegment
proof
  fix v rest
  assume "segment_ok v"
  then show "ReadSegment (wire v @ rest) = Some (v, rest)"
    by (cases v) (simp_all only: ReadSegment_Data ReadSegment_Ack ReadSegment_CmdOnly)
qed

lemma wire_nonempty: "segment_ok v \<Longrightarrow> wire v \<noteq> []"
  by (cases v) (auto simp: wire_def DataSegment_Serialize_def AckSegment_Serialize_def
      CmdOnlySegment_Serialize_def)

lemma read_segments_wires: "list_all segment_ok segs \<Longrightarrow> read_segments (concat (map wire segs)) = segs"
proof (induction segs)
  case (Cons s segs)
  then have "ReadSegment (wire s @ concat (map wire segs)) = Some (s, concat (map wire segs))"
    by (intro segments.dec_enc) simp
  with Cons wire_nonempty [of s] show ?case
    by (simp add: read_segments.simps [of "wire s @ concat (map wire segs)"])
qed (simp add: read_segments.simps)

section \<open>Numbered payloads\<close>

text \<open>
  The sender numbers its payloads from 0: \<open>stream k\<close> is the \<open>k\<close>-th. A data segment is genuine
  if it carries the payload of its number, and the number is below \<open>N\<close> (numbers do not wrap:
  the sender compares them as plain integers).
\<close>

definition genuine :: "(nat \<Rightarrow> byte list) \<Rightarrow> nat \<Rightarrow> DataSegment \<Rightarrow> bool" where
  "genuine stream N seg \<longleftrightarrow> unat (ds_Number seg) < N \<and>
     (\<exists>b. ds_payload seg = Some b \<and> buffer_wf b \<and> content b = stream (unat (ds_Number seg)))"

section \<open>The authenticator opens what it seals\<close>

definition xor_step :: "byte list \<Rightarrow> nat \<Rightarrow> byte list" where
  "xor_step x i = x[i := x ! i XOR x ! (i - 4)]"

lemma xor_folds:
  "xorfwd x = foldl xor_step x [4..<length x]" "xorbkd x = foldl xor_step x (rev [4..<length x])"
  by (simp_all add: xorfwd_def xorbkd_def xor_step_def [abs_def])

lemma length_xor_step [simp]: "length (xor_step x i) = length x"
  by (simp add: xor_step_def)

lemma length_xor_fold [simp]: "length (foldl xor_step x is) = length x"
  by (induction "is" arbitrary: x) simp_all

lemma xor_step_twice: "4 \<le> i \<Longrightarrow> i < length x \<Longrightarrow> xor_step (xor_step x i) i = x"
  by (simp add: xor_step_def ac_simps flip: xor.assoc)

lemma xor_fold_undone:
  "\<forall>i\<in>set is. 4 \<le> i \<and> i < length x \<Longrightarrow> foldl xor_step (foldl xor_step x is) (rev is) = x"
  by (induction "is" rule: rev_induct) (simp_all add: xor_step_twice)

lemma xorbkd_xorfwd: "xorbkd (xorfwd x) = x"
  using xor_fold_undone [of "[4..<length x]" x] by (simp add: xor_folds)

lemma length_xor [simp]: "length (xorfwd x) = length x" "length (xorbkd x) = length x"
  by (simp_all add: xor_folds)

text \<open>The first \<open>n\<close> bytes depend on the first \<open>n\<close> bytes only, so that the padding has no effect.\<close>

lemma take_xor_step:
  "n \<le> length x \<Longrightarrow> take n (xor_step x i) = (if i < n then xor_step (take n x) i else take n x)"
  by (simp add: xor_step_def take_update_swap list_update_beyond)

lemma take_xor_fold:
  "n \<le> length x \<Longrightarrow>
   take n (foldl xor_step x is) = foldl xor_step (take n x) (filter (\<lambda>i. i < n) is)"
  by (induction "is" arbitrary: x) (simp_all add: take_xor_step)

lemma filter_less_upt: "n \<le> m \<Longrightarrow> filter (\<lambda>i. i < n) [k..<m] = [k..<n]"
proof (induction m)
  case (Suc m)
  then show ?case
    by (cases "n = Suc m") (auto intro!: filter_True)
qed simp

lemma padded_xor: "padded xorfwd x = xorfwd x" "padded xorbkd x = xorbkd x"
  by (simp_all add: padded_def Let_def xor_folds take_xor_fold filter_less_upt flip: rev_filter)

lemma length_SA_Seal: "length (SA_Seal plain) = length plain + 6"
  by (simp add: SA_Seal_def Let_def padded_xor)

lemma SA_Open_Seal:
  assumes "length plain < 65536"
  shows "SA_Open (SA_Seal plain) = Inr plain"
proof -
  let ?body = "PutUint16 (of_nat (length plain)) @ plain"
  have dst: "padded xorbkd (SA_Seal plain) = PutUint32 (fnv32a ?body) @ ?body"
    by (simp add: SA_Seal_def Let_def padded_xor xorbkd_xorfwd)
  have "uint (of_nat (length plain) :: u16) = int (length plain)"
    using assms by (simp add: uint_nat unat_of_nat)
  then show ?thesis by (simp add: SA_Open_def Let_def dst)
qed

interpretation sa: aead SimpleAuthenticator
  by unfold_locales (simp add: aead_ok_def SimpleAuthenticator_def length_SA_Seal SA_Open_Seal)


section \<open>Packets and settings\<close>

text \<open>
  The security settings the dialer and the listener build (\<^verbatim>\<open>GetSecurity\<close>): none, the
  simple authenticator, or a cipher with a real nonce.
\<close>

definition security_ok :: "AEAD option \<Rightarrow> byte list \<Rightarrow> bool" where
  "security_ok Security nonce \<longleftrightarrow>
     (case Security of
        None \<Rightarrow> nonce = []
      | Some a \<Rightarrow> aead_ok a \<and> length nonce = NonceSize a \<and> (nonce = [] \<longrightarrow> a = SimpleAuthenticator))"

definition header_ok :: "PacketHeader option \<Rightarrow> bool" where
  "header_ok Header \<longleftrightarrow> (case Header of None \<Rightarrow> True | Some h \<Rightarrow> length (h_bytes h) = h_Size h)"

lemma KCPPacketReader_header:
  assumes "header_ok Header" "b \<noteq> []"
  shows "KCPPacketReader_Read Header Security ((case Header of None \<Rightarrow> [] | Some h \<Rightarrow> h_bytes h) @ b) =
    KCPPacketReader_Read None Security b"
  using assms by (auto simp: KCPPacketReader_Read_def header_ok_def split: option.splits)

lemma KCPPacketReader_sealed:
  assumes "security_ok (Some a) nonce" "b \<noteq> []" "length b < 65536"
  shows "KCPPacketReader_Read None (Some a) (nonce @ Seal a (if nonce = [] then hdr else nonce) b) =
    read_segments b"
proof -
  have a: "aead_ok a" "length nonce = NonceSize a" "nonce = [] \<longrightarrow> a = SimpleAuthenticator"
    using assms(1) by (simp_all add: security_ok_def)
  have "Seal a (if nonce = [] then hdr else nonce) b = Seal a nonce b"
    using a(3) by (simp add: SimpleAuthenticator_def)
  moreover have "Open a nonce (Seal a nonce b) = Inr b" "length (Seal a nonce b) = length b + Overhead a"
    using a(1,2) assms(3) by (simp_all add: aead_ok_def)
  ultimately show ?thesis
    using a(2) assms(2) by (simp add: KCPPacketReader_Read_def)
qed

lemma packets_received:
  assumes "header_ok Header" "security_ok Security nonce" "b \<noteq> []" "length b < 65536"
    and "KCPPacketWriter_Overhead Header Security + length nonce + length b \<le> 8192"
  shows "\<exists>packet. KCPPacketWriter_packet Header Security nonce b = Some packet \<and>
    length packet = KCPPacketWriter_Overhead Header Security + length nonce + length b \<and>
    KCPPacketReader_Read Header Security packet = read_segments b"
proof (cases Security)
  case None
  let ?hdr = "case Header of None \<Rightarrow> [] | Some h \<Rightarrow> h_bytes h"
  have "length ?hdr = (case Header of None \<Rightarrow> 0 | Some h \<Rightarrow> h_Size h)"
    using assms(1) by (simp add: header_ok_def split: option.splits)
  with None assms(2,5) KCPPacketReader_header [OF assms(1,3), of None] show ?thesis
    by (simp add: KCPPacketWriter_packet_def Let_def KCPPacketWriter_Overhead_def security_ok_def
        KCPPacketReader_Read_def [of None None])
next
  case (Some a)
  let ?hdr = "case Header of None \<Rightarrow> [] | Some h \<Rightarrow> h_bytes h"
  let ?body = "nonce @ Seal a (if nonce = [] then ?hdr else nonce) b"
  have hl: "length ?hdr = (case Header of None \<Rightarrow> 0 | Some h \<Rightarrow> h_Size h)"
    using assms(1) by (simp add: header_ok_def split: option.splits)
  have a: "aead_ok a" "length nonce = NonceSize a" "nonce = [] \<longrightarrow> a = SimpleAuthenticator"
    using assms(2) Some by (simp_all add: security_ok_def)
  have "Seal a (if nonce = [] then ?hdr else nonce) b = Seal a nonce b"
    using a(3) by (simp add: SimpleAuthenticator_def)
  then have bl: "length ?body = length nonce + length b + Overhead a"
    using a(1,2) assms(4) by (simp add: aead_ok_def)
  have "KCPPacketWriter_packet Header Security nonce b = Some (?hdr @ ?body)"
    using assms(5) Some hl by (simp add: KCPPacketWriter_packet_def Let_def KCPPacketWriter_Overhead_def)
  moreover have "?body \<noteq> []" using bl assms(3) by auto
  then have "KCPPacketReader_Read Header Security (?hdr @ ?body) = read_segments b"
    using KCPPacketReader_header [OF assms(1), of ?body Security]
      KCPPacketReader_sealed [of a nonce b ?hdr] assms(2,3,4) Some by simp
  moreover have "length (?hdr @ ?body) = KCPPacketWriter_Overhead Header Security + length nonce + length b"
    using bl hl Some by (simp add: KCPPacketWriter_Overhead_def)
  ultimately show ?thesis by blast
qed

lemma concat_wire_nonempty: "list_all segment_ok segs \<Longrightarrow> segs \<noteq> [] \<Longrightarrow> concat (map wire segs) \<noteq> []"
  by (cases segs) (simp_all add: wire_nonempty)

definition demo_segment :: Segment where
  "demo_segment = CmdOnly (NewCmdOnlySegment\<lparr>cs_Conv := 7, cs_Cmd := CommandPing, cs_PeerRTO := 100\<rparr>)"



lemma udiv_None: "udiv x y = None \<longleftrightarrow> y = 0"
  by (simp add: udiv_def)

lemma div_1000_zero: "(1000 :: u32) div t = 0 \<longleftrightarrow> t = 0 \<or> 1000 < t"
proof -
  have "(1000 :: u32) div t = 0 \<longleftrightarrow> (1000 :: nat) div unat t = 0"
    by (simp add: unat_div word_unat_eq_iff)
  also have "\<dots> \<longleftrightarrow> unat t = 0 \<or> 1000 < unat t"
    by (auto simp: div_eq_0_iff)
  finally show ?thesis by (simp add: word_less_nat_alt unat_eq_0)
qed

lemma in_flight_size_None:
  "in_flight_size cap c = None \<longleftrightarrow> GetMTUValue c = 0 \<or> GetTTIValue c = 0 \<or> 1000 < GetTTIValue c"
  using div_1000_zero [of "GetTTIValue c"]
  by (auto simp: in_flight_size_def udiv_def bind_eq_None_conv split: if_splits)

lemma in_flight_size_Some: "in_flight_size cap c = Some w \<Longrightarrow> 8 \<le> w"
  by (auto simp: in_flight_size_def bind_eq_Some_conv split: if_splits)

text \<open>
  The window sizes derived from the settings are at least 8, whatever the capacities (the
  products wrap in 32 bits), and computing them panics exactly when the MTU or the interval
  is 0 or the interval exceeds 1000 ms.
\<close>

theorem in_flight_window:
  "(GetSendingInFlightSize c = None \<longleftrightarrow> GetMTUValue c = 0 \<or> GetTTIValue c = 0 \<or> 1000 < GetTTIValue c) \<and>
   (\<forall>w. GetSendingInFlightSize c = Some w \<or> GetReceivingInFlightSize c = Some w \<longrightarrow> 8 \<le> w)"
  unfolding GetSendingInFlightSize_def GetReceivingInFlightSize_def
  using in_flight_size_None in_flight_size_Some by blast

definition default_config :: Config where
  "default_config = \<lparr>c_Mtu = None, c_Tti = None, c_UplinkCapacity = None, c_DownlinkCapacity = None,
     c_WriteBuffer = None, c_ReadBuffer = None, c_Congestion = False\<rparr>"

lemma default_in_flight:
  "GetSendingInFlightSize default_config = Some 194" "GetReceivingInFlightSize default_config = Some 776"
  by code_simp+

theorem in_flight_window_witness:
  "GetSendingInFlightSize default_config = Some 194 \<and> (8 :: u32) \<le> 194 \<and>
   GetReceivingInFlightSize default_config = Some 776 \<and> (8 :: u32) \<le> 776"
  using in_flight_window [of default_config] default_in_flight by blast

end
