(* ===== verification/KCP_RoundTrip.thy ===== *)
theory KCP_RoundTrip
  imports Go_Prelude
begin

text \<open>
  \<^verbatim>\<open>transport/internet/kcp/connection.go\<close>, first part: the connection states and the round-trip
  estimator (RFC 6298 in unsigned 32-bit arithmetic).
\<close>

section \<open>States\<close>

datatype State =
    StateActive
  | StateReadyToClose
  | StatePeerClosed
  | StateTerminating
  | StatePeerTerminating
  | StateTerminated

definition State_Is :: "State \<Rightarrow> State list \<Rightarrow> bool" where
  "State_Is s states \<longleftrightarrow> s \<in> set states"

section \<open>Round trips\<close>

record RoundTripInfo =
  rt_variation :: u32
  rt_srtt :: u32
  rt_rto :: u32
  rt_minRtt :: u32
  rt_updatedTimestamp :: u32

definition UpdatePeerRTO :: "u32 \<Rightarrow> u32 \<Rightarrow> RoundTripInfo \<Rightarrow> RoundTripInfo" where
  "UpdatePeerRTO rto current info =
     (if current - rt_updatedTimestamp info < 3000 then info
      else info\<lparr>rt_updatedTimestamp := current, rt_rto := rto\<rparr>)"

definition rt_smooth :: "u32 \<Rightarrow> RoundTripInfo \<Rightarrow> RoundTripInfo" where
  "rt_smooth rtt info =
     (if rt_srtt info = 0 then info\<lparr>rt_srtt := rtt, rt_variation := rtt div 2\<rparr>
      else
        (let delta = (if rt_srtt info > rtt then rt_srtt info - rtt else rtt - rt_srtt info);
             srtt = (7 * rt_srtt info + rtt) div 8
         in info\<lparr>rt_variation := (3 * rt_variation info + delta) div 4,
                 rt_srtt := (if srtt < rt_minRtt info then rt_minRtt info else srtt)\<rparr>))"

definition rt_timeout :: "RoundTripInfo \<Rightarrow> u32" where
  "rt_timeout info =
     (let rto = (if rt_minRtt info < 4 * rt_variation info
                 then rt_srtt info + 4 * rt_variation info
                 else rt_srtt info + rt_variation info)
      in if rto > 10000 then 10000 else rto)"

definition RoundTripInfo_Update :: "u32 \<Rightarrow> u32 \<Rightarrow> RoundTripInfo \<Rightarrow> RoundTripInfo" where
  "RoundTripInfo_Update rtt current info =
     (if rtt > 0x7FFFFFFF then info
      else
        (let info' = rt_smooth rtt info
         in info'\<lparr>rt_rto := rt_timeout info' * 5 div 4, rt_updatedTimestamp := current\<rparr>))"

definition Timeout :: "RoundTripInfo \<Rightarrow> u32" where
  "Timeout info = rt_rto info"

definition SmoothedTime :: "RoundTripInfo \<Rightarrow> u32" where
  "SmoothedTime info = rt_srtt info"

section \<open>Bounds\<close>

text \<open>Round trips the caller passes on are below 10000 ms, and the interval is at most 1000 ms.\<close>

definition rt_wf :: "RoundTripInfo \<Rightarrow> bool" where
  "rt_wf info \<longleftrightarrow> unat (rt_srtt info) \<le> 10000 \<and> unat (rt_variation info) \<le> 10000 \<and>
     unat (rt_minRtt info) \<le> 1000"

text \<open>The same estimator in unbounded arithmetic.\<close>

definition srtt_spec :: "nat \<Rightarrow> nat \<Rightarrow> nat \<Rightarrow> nat" where
  "srtt_spec minRtt srtt rtt = (if srtt = 0 then rtt else max minRtt ((7 * srtt + rtt) div 8))"

definition variation_spec :: "nat \<Rightarrow> nat \<Rightarrow> nat \<Rightarrow> nat" where
  "variation_spec srtt var rtt =
     (if srtt = 0 then rtt div 2 else (3 * var + nat \<bar>int rtt - int srtt\<bar>) div 4)"

definition rto_spec :: "nat \<Rightarrow> nat \<Rightarrow> nat \<Rightarrow> nat" where
  "rto_spec minRtt srtt var =
     min 10000 (if minRtt < 4 * var then srtt + 4 * var else srtt + var) * 5 div 4"

lemma unat_mult_small: "unat (k * x :: u32) = unat k * unat x"
  if "unat k * unat x < 4294967296" for k x :: u32
  using that by (simp add: unat_word_ariths)

lemma unat_add_small: "unat (x + y :: u32) = unat x + unat y"
  if "unat x + unat y < 4294967296" for x y :: u32
  using that by (simp add: unat_word_ariths)

lemma unat_delta:
  "unat (if s > r then s - r else r - s :: u32) = nat \<bar>int (unat r) - int (unat s)\<bar>"
proof (cases "r < s")
  case True
  then have "unat (s - r) = unat s - unat r" "unat r < unat s"
    by (simp_all add: unat_sub less_imp_le word_less_nat_alt)
  with True show ?thesis by (simp add: uint_nat del: of_nat_unat)
next
  case False
  then have "unat (r - s) = unat r - unat s" "unat s \<le> unat r"
    by (simp_all add: unat_sub not_less word_le_nat_alt)
  with False show ?thesis by (simp add: uint_nat del: of_nat_unat)
qed

lemma rt_smooth_spec:
  assumes "rt_wf info" "unat rtt < 10000"
  shows "unat (rt_srtt (rt_smooth rtt info)) = srtt_spec (unat (rt_minRtt info)) (unat (rt_srtt info)) (unat rtt)"
    and "unat (rt_variation (rt_smooth rtt info)) =
      variation_spec (unat (rt_srtt info)) (unat (rt_variation info)) (unat rtt)"
    and "rt_minRtt (rt_smooth rtt info) = rt_minRtt info"
proof -
  let ?s = "rt_srtt info" let ?v = "rt_variation info" let ?m = "rt_minRtt info"
  have w: "unat ?s \<le> 10000" "unat ?v \<le> 10000" "unat ?m \<le> 1000" using assms(1) by (simp_all add: rt_wf_def)
  have "unat ((7 * ?s + rtt) div 8) = (7 * unat ?s + unat rtt) div 8"
    using w assms(2) by (simp add: unat_div unat_add_small unat_mult_small)
  then show "unat (rt_srtt (rt_smooth rtt info)) = srtt_spec (unat ?m) (unat ?s) (unat rtt)"
    by (simp add: rt_smooth_def srtt_spec_def Let_def unat_eq_0 word_less_nat_alt)
  let ?d = "if ?s > rtt then ?s - rtt else rtt - ?s"
  have d: "unat ?d = nat \<bar>int (unat rtt) - int (unat ?s)\<bar>" by (rule unat_delta)
  also have "\<dots> \<le> 10000" using w assms(2) by linarith
  finally have "unat ((3 * ?v + ?d) div 4) = (3 * unat ?v + unat ?d) div 4"
    using w by (simp only: unat_div) (simp add: unat_add_small unat_mult_small)
  with d show "unat (rt_variation (rt_smooth rtt info)) = variation_spec (unat ?s) (unat ?v) (unat rtt)"
    unfolding rt_smooth_def variation_spec_def Let_def by (simp add: unat_eq_0 unat_div)
  show "rt_minRtt (rt_smooth rtt info) = rt_minRtt info" by (simp add: rt_smooth_def Let_def)
qed

lemma spec_bounds:
  assumes "s \<le> 10000" "v \<le> 10000" "m \<le> 1000" "r < 10000"
  shows "srtt_spec m s r \<le> 10000" "variation_spec s v r \<le> 10000"
proof -
  show "srtt_spec m s r \<le> 10000" using assms by (auto simp: srtt_spec_def)
  have "nat \<bar>int r - int s\<bar> \<le> 10000" using assms by linarith
  then show "variation_spec s v r \<le> 10000" using assms by (auto simp: variation_spec_def)
qed

lemma rt_smooth_wf: "rt_wf info \<Longrightarrow> unat rtt < 10000 \<Longrightarrow> rt_wf (rt_smooth rtt info)"
  using rt_smooth_spec [of info rtt] spec_bounds [of "unat (rt_srtt info)" "unat (rt_variation info)" "unat (rt_minRtt info)" "unat rtt"]
  by (simp add: rt_wf_def)

lemma rt_timeout_spec:
  assumes "rt_wf info"
  shows "unat (rt_timeout info * 5 div 4) =
    rto_spec (unat (rt_minRtt info)) (unat (rt_srtt info)) (unat (rt_variation info))"
proof -
  let ?s = "rt_srtt info" let ?v = "rt_variation info" let ?m = "rt_minRtt info"
  have w: "unat ?s \<le> 10000" "unat ?v \<le> 10000" using assms by (simp_all add: rt_wf_def)
  then have v4: "unat (4 * ?v) = 4 * unat ?v" by (simp add: unat_mult_small)
  have a: "unat (?s + 4 * ?v) = unat ?s + 4 * unat ?v" using v4 w by (subst unat_add_small) simp_all
  have b: "unat (?s + ?v) = unat ?s + unat ?v" using w by (simp add: unat_add_small)
  have t: "unat (rt_timeout info) =
      min 10000 (if unat ?m < 4 * unat ?v then unat ?s + 4 * unat ?v else unat ?s + unat ?v)"
    by (simp add: rt_timeout_def Let_def word_less_nat_alt v4 a b min_def)
  then have "unat (rt_timeout info) \<le> 10000" by simp
  then have "unat (rt_timeout info * 5) = unat (rt_timeout info) * 5"
    by (simp add: unat_word_ariths)
  then show ?thesis by (simp add: unat_div t rto_spec_def)
qed

lemma Update_wf: "rt_wf info \<Longrightarrow> unat rtt < 10000 \<Longrightarrow> rt_wf (RoundTripInfo_Update rtt current info)"
  using rt_smooth_wf [of info rtt] by (simp add: RoundTripInfo_Update_def Let_def rt_wf_def)

lemma UpdatePeerRTO_wf: "rt_wf info \<Longrightarrow> rt_wf (UpdatePeerRTO rto current info)"
  by (simp add: UpdatePeerRTO_def rt_wf_def)

text \<open>
  For the round trips the sender feeds it (below 10 s), the estimator never overflows: the
  32-bit computation equals RFC 6298's in unbounded arithmetic, with the smoothed time held at
  the flush interval from below and the time-out at 12.5 s from above; the invariant is kept.
\<close>

theorem round_trip_estimate:
  assumes "rt_wf info" "unat rtt < 10000"
  defines "m \<equiv> unat (rt_minRtt info)" and "s \<equiv> unat (rt_srtt info)" and "v \<equiv> unat (rt_variation info)"
  shows "rt_wf (RoundTripInfo_Update rtt current info) \<and>
    unat (SmoothedTime (RoundTripInfo_Update rtt current info)) = srtt_spec m s (unat rtt) \<and>
    unat (Timeout (RoundTripInfo_Update rtt current info)) =
      rto_spec m (srtt_spec m s (unat rtt)) (variation_spec s v (unat rtt)) \<and>
    Timeout (RoundTripInfo_Update rtt current info) \<le> 12500"
proof -
  have r: "\<not> rtt > 0x7FFFFFFF" using assms(2) by (simp add: word_less_nat_alt)
  have "unat (rt_timeout (rt_smooth rtt info) * 5 div 4) =
      rto_spec m (srtt_spec m s (unat rtt)) (variation_spec s v (unat rtt))"
    using rt_timeout_spec [OF rt_smooth_wf [OF assms(1,2)]] rt_smooth_spec [OF assms(1,2)]
    by (simp add: m_def s_def v_def)
  moreover have "rto_spec m x y \<le> 12500" for x y by (simp add: rto_spec_def)
  ultimately show ?thesis
    using r rt_smooth_spec(1) [OF assms(1,2)] Update_wf [OF assms(1,2), of current]
    by (simp add: RoundTripInfo_Update_def Let_def Timeout_def SmoothedTime_def m_def s_def word_le_nat_alt)
qed

theorem round_trip_estimate_witness:
  "unat (Timeout (RoundTripInfo_Update 120 7000
     \<lparr>rt_variation = 40, rt_srtt = 200, rt_rto = 100, rt_minRtt = 50, rt_updatedTimestamp = 0\<rparr>)) = 487"
  using round_trip_estimate [of "\<lparr>rt_variation = 40, rt_srtt = 200, rt_rto = 100, rt_minRtt = 50, rt_updatedTimestamp = 0\<rparr>" 120 7000]
  by (simp add: rt_wf_def srtt_spec_def variation_spec_def rto_spec_def)

end
