(* ===== verification/KCP_Sending.thy ===== *)
theory KCP_Sending
  imports KCP_Segment KCP_RoundTrip Buf_MultiBuffer
begin

text \<open>
  \<^verbatim>\<open>transport/internet/kcp/sending.go\<close>: the sending window (a linked list of data segments that
  are shared with the visitor and the writer, so that what these change stays in the list) and
  the sending worker. The connection appears as arguments: conversation number, state, settings
  and round-trip information; what is written to its output is answered as a list.
\<close>

section \<open>The sending window\<close>

record SendingWindow =
  sw_cache :: "DataSegment list"
  sw_totalInFlightSize :: u32

definition NewSendingWindow :: SendingWindow where
  "NewSendingWindow = \<lparr>sw_cache = [], sw_totalInFlightSize = 0\<rparr>"

definition SendingWindow_Release :: "SendingWindow \<Rightarrow> SendingWindow" where
  "SendingWindow_Release sw = sw\<lparr>sw_cache := []\<rparr>"

definition SendingWindow_Len :: "SendingWindow \<Rightarrow> u32" where
  "SendingWindow_Len sw = of_nat (length (sw_cache sw))"

definition SendingWindow_IsEmpty :: "SendingWindow \<Rightarrow> bool" where
  "SendingWindow_IsEmpty sw \<longleftrightarrow> length (sw_cache sw) = 0"

definition SendingWindow_Push :: "u32 \<Rightarrow> Buffer \<Rightarrow> SendingWindow \<Rightarrow> SendingWindow" where
  "SendingWindow_Push number b sw =
     sw\<lparr>sw_cache := sw_cache sw @ [NewDataSegment\<lparr>ds_Number := number, ds_payload := Some b\<rparr>]\<rparr>"

definition FirstNumber :: "SendingWindow \<Rightarrow> u32 option" where
  "FirstNumber sw = (case sw_cache sw of [] \<Rightarrow> None | seg # _ \<Rightarrow> Some (ds_Number seg))"

fun clear_front :: "u32 \<Rightarrow> DataSegment list \<Rightarrow> DataSegment list" where
  "clear_front una [] = []"
| "clear_front una (seg # segs) = (if ds_Number seg \<ge> una then seg # segs else clear_front una segs)"

definition SendingWindow_Clear :: "u32 \<Rightarrow> SendingWindow \<Rightarrow> SendingWindow" where
  "SendingWindow_Clear una sw = sw\<lparr>sw_cache := clear_front una (sw_cache sw)\<rparr>"

text \<open>\<^verbatim>\<open>Visit\<close>: the visitor may change the segment and the variables it captures.\<close>

fun Visit ::
  "(DataSegment \<Rightarrow> 's \<Rightarrow> bool \<times> DataSegment \<times> 's) \<Rightarrow> DataSegment list \<Rightarrow> 's \<Rightarrow> DataSegment list \<times> 's" where
  "Visit visitor [] s = ([], s)"
| "Visit visitor (seg # segs) s =
     (case visitor seg s of
        (go_on, seg', s') \<Rightarrow>
          (if go_on then (case Visit visitor segs s' of (segs', s'') \<Rightarrow> (seg' # segs', s''))
           else (seg' # segs, s')))"

definition fast_ack :: "u32 \<Rightarrow> u32 \<Rightarrow> DataSegment \<Rightarrow> unit \<Rightarrow> bool \<times> DataSegment \<times> unit" where
  "fast_ack number rto seg s =
     (if number = ds_Number seg \<or> number - ds_Number seg > 0x7FFFFFFF then (False, seg, s)
      else (True,
            if ds_transmit seg > 0 \<and> ds_timeout seg > rto div 3
            then seg\<lparr>ds_timeout := ds_timeout seg - rto div 3\<rparr> else seg, s))"

definition HandleFastAck :: "u32 \<Rightarrow> u32 \<Rightarrow> SendingWindow \<Rightarrow> SendingWindow" where
  "HandleFastAck number rto sw =
     (if SendingWindow_IsEmpty sw then sw
      else sw\<lparr>sw_cache := fst (Visit (fast_ack number rto) (sw_cache sw) ())\<rparr>)"

text \<open>The variables captured by the visitor of \<^verbatim>\<open>Flush\<close>, and what it has written.\<close>

record flush_vars =
  fl_total :: u32
  fl_lost :: u32
  fl_inFlightSize :: u32
  fl_out :: "DataSegment list"

definition flush_visitor ::
  "(DataSegment \<Rightarrow> DataSegment) \<Rightarrow> u32 \<Rightarrow> u32 \<Rightarrow> u32 \<Rightarrow> DataSegment \<Rightarrow> flush_vars \<Rightarrow>
   bool \<times> DataSegment \<times> flush_vars" where
  "flush_visitor write current rto maxInFlightSize seg v =
     (if current - ds_timeout seg \<ge> 0x7FFFFFFF then (True, seg, v)
      else
        (let v1 = (if ds_transmit seg = 0 then v\<lparr>fl_total := fl_total v + 1\<rparr>
                   else v\<lparr>fl_lost := fl_lost v + 1\<rparr>);
             seg' = write (seg\<lparr>ds_timeout := current + rto, ds_Timestamp := current,
                               ds_transmit := ds_transmit seg + 1\<rparr>);
             v2 = v1\<lparr>fl_out := fl_out v1 @ [seg'], fl_inFlightSize := fl_inFlightSize v1 + 1\<rparr>
         in (fl_inFlightSize v2 < maxInFlightSize, seg', v2)))"

text \<open>\<^verbatim>\<open>Flush\<close>: the segments written, the loss rate passed to \<^verbatim>\<open>onPacketLoss\<close> (if it is called).\<close>

definition SendingWindow_Flush ::
  "(DataSegment \<Rightarrow> DataSegment) \<Rightarrow> u32 \<Rightarrow> u32 \<Rightarrow> u32 \<Rightarrow> SendingWindow \<Rightarrow>
   DataSegment list \<times> u32 option \<times> SendingWindow" where
  "SendingWindow_Flush write current rto maxInFlightSize sw =
     (if SendingWindow_IsEmpty sw then ([], None, sw)
      else
        (case Visit (flush_visitor write current rto maxInFlightSize) (sw_cache sw)
            \<lparr>fl_total = sw_totalInFlightSize sw, fl_lost = 0, fl_inFlightSize = 0, fl_out = []\<rparr> of
           (cache, v) \<Rightarrow>
             (fl_out v,
              if fl_inFlightSize v > 0 \<and> fl_total v \<noteq> 0 then Some (fl_lost v * 100 div fl_total v) else None,
              sw\<lparr>sw_cache := cache, sw_totalInFlightSize := fl_total v\<rparr>)))"

text \<open>The loop of \<^verbatim>\<open>Remove\<close>: the list without the segment, if it is found before a larger number.\<close>

fun remove_loop :: "u32 \<Rightarrow> DataSegment list \<Rightarrow> DataSegment list option" where
  "remove_loop number [] = None"
| "remove_loop number (seg # segs) =
     (if ds_Number seg > number then None
      else if ds_Number seg = number then Some segs
      else map_option ((#) seg) (remove_loop number segs))"

definition SendingWindow_Remove :: "u32 \<Rightarrow> SendingWindow \<Rightarrow> bool \<times> SendingWindow" where
  "SendingWindow_Remove number sw =
     (case remove_loop number (sw_cache sw) of
        None \<Rightarrow> (False, sw)
      | Some segs \<Rightarrow>
          (True, sw\<lparr>sw_cache := segs,
                    sw_totalInFlightSize := (if sw_totalInFlightSize sw > 0 then sw_totalInFlightSize sw - 1
                                             else sw_totalInFlightSize sw)\<rparr>))"

section \<open>The sending worker\<close>

record SendingWorker =
  w_window :: SendingWindow
  w_firstUnacknowledged :: u32
  w_nextNumber :: u32
  w_remoteNextNumber :: u32
  w_controlWindow :: u32
  w_fastResend :: u32
  w_windowSize :: u32
  w_firstUnacknowledgedUpdated :: bool
  w_closed :: bool

definition NewSendingWorker :: "Config \<Rightarrow> SendingWorker option" where
  "NewSendingWorker c =
     do {
       cw \<leftarrow> GetSendingInFlightSize c;
       sz \<leftarrow> GetSendingBufferSize c;
       Some \<lparr>w_window = NewSendingWindow, w_firstUnacknowledged = 0, w_nextNumber = 0, w_remoteNextNumber = 32,
             w_controlWindow = cw, w_fastResend = 2, w_windowSize = sz, w_firstUnacknowledgedUpdated = False,
             w_closed = False\<rparr>
     }"

definition SendingWorker_Release :: "SendingWorker \<Rightarrow> SendingWorker" where
  "SendingWorker_Release w = w\<lparr>w_window := SendingWindow_Release (w_window w), w_closed := True\<rparr>"

definition FindFirstUnacknowledged :: "SendingWorker \<Rightarrow> SendingWorker" where
  "FindFirstUnacknowledged w =
     (let first = (case FirstNumber (w_window w) of Some n \<Rightarrow> n | None \<Rightarrow> w_nextNumber w)
      in w\<lparr>w_firstUnacknowledged := first,
           w_firstUnacknowledgedUpdated :=
             (if w_firstUnacknowledged w \<noteq> first then True else w_firstUnacknowledgedUpdated w)\<rparr>)"

definition ProcessReceivingNext :: "u32 \<Rightarrow> SendingWorker \<Rightarrow> SendingWorker" where
  "ProcessReceivingNext nextNumber w =
     FindFirstUnacknowledged (w\<lparr>w_window := SendingWindow_Clear nextNumber (w_window w)\<rparr>)"

definition processAck :: "u32 \<Rightarrow> SendingWorker \<Rightarrow> bool \<times> SendingWorker" where
  "processAck number w =
     (if number - w_firstUnacknowledged w > 0x7FFFFFFF \<or> number - w_nextNumber w < 0x7FFFFFFF then (False, w)
      else
        (case SendingWindow_Remove number (w_window w) of
           (removed, win) \<Rightarrow>
             (removed, if removed then FindFirstUnacknowledged (w\<lparr>w_window := win\<rparr>) else w\<lparr>w_window := win\<rparr>)))"

fun ack_loop :: "u32 list \<Rightarrow> u32 \<Rightarrow> bool \<Rightarrow> SendingWorker \<Rightarrow> u32 \<times> bool \<times> SendingWorker" where
  "ack_loop [] maxack maxackRemoved w = (maxack, maxackRemoved, w)"
| "ack_loop (number # numbers) maxack maxackRemoved w =
     (case processAck number w of
        (removed, w') \<Rightarrow>
          (if maxack < number then ack_loop numbers number removed w'
           else ack_loop numbers maxack maxackRemoved w'))"

definition SendingWorker_ProcessSegment ::
  "u32 \<Rightarrow> AckSegment \<Rightarrow> u32 \<Rightarrow> SendingWorker \<Rightarrow> RoundTripInfo \<Rightarrow> SendingWorker \<times> RoundTripInfo" where
  "SendingWorker_ProcessSegment current seg rto w rt =
     (if w_closed w then (w, rt)
      else
        (let w1 = (if w_remoteNextNumber w < as_ReceivingWindow seg
                   then w\<lparr>w_remoteNextNumber := as_ReceivingWindow seg\<rparr> else w);
             w2 = ProcessReceivingNext (as_ReceivingNext seg) w1
         in if AckSegment_IsEmpty seg then (w2, rt)
            else
              (case ack_loop (as_NumberList seg) 0 False w2 of
                 (maxack, maxackRemoved, w3) \<Rightarrow>
                   (if maxackRemoved then
                      (w3\<lparr>w_window := HandleFastAck maxack rto (w_window w3)\<rparr>,
                       if current - as_Timestamp seg < 10000
                       then RoundTripInfo_Update (current - as_Timestamp seg) current rt else rt)
                    else (w3, rt)))))"

definition SendingWorker_Push :: "Buffer \<Rightarrow> SendingWorker \<Rightarrow> bool \<times> SendingWorker" where
  "SendingWorker_Push b w =
     (if w_closed w then (False, w)
      else if SendingWindow_Len (w_window w) > w_windowSize w then (False, w)
      else (True, w\<lparr>w_window := SendingWindow_Push (w_nextNumber w) b (w_window w),
                    w_nextNumber := w_nextNumber w + 1\<rparr>))"

definition SendingWorker_Write :: "u16 \<Rightarrow> State \<Rightarrow> SendingWorker \<Rightarrow> DataSegment \<Rightarrow> DataSegment" where
  "SendingWorker_Write conv st w seg =
     seg\<lparr>ds_Conv := conv, ds_SendingNext := w_firstUnacknowledged w,
         ds_Option := (if st = StateReadyToClose then SegmentOptionClose else 0)\<rparr>"

definition OnPacketLoss :: "Config \<Rightarrow> RoundTripInfo \<Rightarrow> u32 \<Rightarrow> SendingWorker \<Rightarrow> SendingWorker option" where
  "OnPacketLoss c rt lossRate w =
     (if \<not> c_Congestion c \<or> Timeout rt = 0 then Some w
      else
        (let cw1 = (if lossRate \<ge> 15 then 3 * w_controlWindow w div 4
                    else if lossRate \<le> 5 then w_controlWindow w + w_controlWindow w div 4
                    else w_controlWindow w);
             cw2 = (if cw1 < 16 then 16 else cw1)
         in map_option (\<lambda>infl. w\<lparr>w_controlWindow := (if cw2 > 2 * infl then 2 * infl else cw2)\<rparr>)
              (GetSendingInFlightSize c)))"

definition flush_cwnd :: "Config \<Rightarrow> SendingWorker \<Rightarrow> u32 option" where
  "flush_cwnd c w =
     map_option (\<lambda>infl.
       (let cwnd1 = (if infl > w_remoteNextNumber w - w_firstUnacknowledged w
                     then w_remoteNextNumber w - w_firstUnacknowledged w else infl);
            cwnd2 = (if c_Congestion c \<and> cwnd1 > w_controlWindow w then w_controlWindow w else cwnd1)
        in cwnd2 * 20)) (GetSendingInFlightSize c)"

text \<open>\<^verbatim>\<open>Flush\<close>: what is sent, and whether the connection is to be pinged afterwards.\<close>

definition SendingWorker_Flush ::
  "u16 \<Rightarrow> State \<Rightarrow> Config \<Rightarrow> RoundTripInfo \<Rightarrow> u32 \<Rightarrow> SendingWorker \<Rightarrow>
   (DataSegment list \<times> bool \<times> SendingWorker) option" where
  "SendingWorker_Flush conv st c rt current w =
     (if w_closed w then Some ([], False, w)
      else
        do {
          cwnd \<leftarrow> flush_cwnd c w;
          (out, w1) \<leftarrow>
            (if \<not> SendingWindow_IsEmpty (w_window w) then
               (case SendingWindow_Flush (SendingWorker_Write conv st w) current (Timeout rt) cwnd (w_window w) of
                  (out, loss, win) \<Rightarrow>
                    do {
                      w' \<leftarrow> (case loss of None \<Rightarrow> Some (w\<lparr>w_window := win\<rparr>)
                                        | Some rate \<Rightarrow> OnPacketLoss c rt rate (w\<lparr>w_window := win\<rparr>));
                      Some (out, w'\<lparr>w_firstUnacknowledgedUpdated := False\<rparr>)
                    })
             else Some ([], w));
          Some (out, w_firstUnacknowledgedUpdated w1, w1\<lparr>w_firstUnacknowledgedUpdated := False\<rparr>)
        })"

definition CloseWrite :: "SendingWorker \<Rightarrow> SendingWorker" where
  "CloseWrite w = w\<lparr>w_window := SendingWindow_Clear 0xFFFFFFFF (w_window w)\<rparr>"

definition SendingWorker_IsEmpty :: "SendingWorker \<Rightarrow> bool" where
  "SendingWorker_IsEmpty w \<longleftrightarrow> SendingWindow_IsEmpty (w_window w)"

definition SendingWorker_UpdateNecessary :: "SendingWorker \<Rightarrow> bool" where
  "SendingWorker_UpdateNecessary w \<longleftrightarrow> \<not> SendingWorker_IsEmpty w"

definition FirstUnacknowledged :: "SendingWorker \<Rightarrow> u32" where
  "FirstUnacknowledged w = w_firstUnacknowledged w"

section \<open>The loops over the window\<close>

abbreviation numbers :: "DataSegment list \<Rightarrow> u32 list" where
  "numbers segs \<equiv> map ds_Number segs"

definition same_data :: "DataSegment \<Rightarrow> DataSegment \<Rightarrow> bool" where
  "same_data s s' \<longleftrightarrow> ds_Number s' = ds_Number s \<and> ds_payload s' = ds_payload s"

lemma same_data_refl [simp]: "same_data s s"
  by (simp add: same_data_def)

lemma same_data_list:
  assumes "list_all2 same_data segs segs'"
  shows "numbers segs' = numbers segs" "map ds_payload segs' = map ds_payload segs"
  using assms by (induction segs segs' rule: list_all2_induct) (simp_all add: same_data_def)

lemma clear_front_sorted:
  "sorted_wrt (<) (numbers segs) \<Longrightarrow> clear_front una segs = filter (\<lambda>s. una \<le> ds_Number s) segs"
proof (induction segs)
  case (Cons s segs)
  show ?case
  proof (cases "una \<le> ds_Number s")
    case True
    then have "\<forall>x\<in>set segs. una \<le> ds_Number x" using Cons.prems by fastforce
    with True show ?thesis by simp
  next
    case False
    with Cons show ?thesis by simp
  qed
qed simp

lemma remove_loop_sorted:
  "sorted_wrt (<) (numbers segs) \<Longrightarrow>
   remove_loop n segs =
     (if n \<in> set (numbers segs) then Some (filter (\<lambda>s. ds_Number s \<noteq> n) segs) else None)"
proof (induction segs)
  case (Cons s segs)
  have gt: "\<forall>x\<in>set segs. ds_Number s < ds_Number x" using Cons.prems by simp
  consider "ds_Number s > n" | "ds_Number s = n" | "ds_Number s < n" by fastforce
  then show ?case
  proof cases
    case 1
    then have "n \<notin> set (numbers (s # segs))" using gt by fastforce
    with 1 show ?thesis by simp
  next
    case 2
    then have "filter (\<lambda>x. ds_Number x \<noteq> n) segs = segs" using gt by (auto intro!: filter_True)
    with 2 show ?thesis by simp
  next
    case 3
    with Cons show ?thesis by auto
  qed
qed simp

lemma Visit_same_data:
  "(\<And>seg s. same_data seg (fst (snd (visitor seg s)))) \<Longrightarrow>
   list_all2 same_data segs (fst (Visit visitor segs s))"
proof (induction segs arbitrary: s)
  case (Cons seg segs)
  obtain go_on seg' s' where v: "visitor seg s = (go_on, seg', s')" by (metis prod_cases3)
  have "same_data seg seg'" using Cons.prems [of seg s] v by simp
  moreover have "list_all2 same_data segs (fst (Visit visitor segs s'))" using Cons by blast
  ultimately show ?case using v by (auto simp: list.rel_refl split: prod.splits)
qed simp

lemma fast_ack_same: "same_data seg (fst (snd (fast_ack number rto seg s)))"
  by (simp add: fast_ack_def same_data_def)

lemma HandleFastAck_same: "list_all2 same_data (sw_cache sw) (sw_cache (HandleFastAck number rto sw))"
  using Visit_same_data [of "fast_ack number rto" "sw_cache sw" "()"] fast_ack_same
  by (auto simp: HandleFastAck_def list.rel_refl)

text \<open>A segment is due when its time-out lies in the past half of the 32-bit clock.\<close>

definition is_due :: "u32 \<Rightarrow> DataSegment \<Rightarrow> bool" where
  "is_due current seg \<longleftrightarrow> \<not> current - ds_timeout seg \<ge> 0x7FFFFFFF"

definition stamp :: "u32 \<Rightarrow> u32 \<Rightarrow> DataSegment \<Rightarrow> DataSegment" where
  "stamp current rto seg =
     seg\<lparr>ds_timeout := current + rto, ds_Timestamp := current, ds_transmit := ds_transmit seg + 1\<rparr>"

lemma flush_visitor_alt:
  "flush_visitor write current rto M seg v =
     (if is_due current seg then
        (let v' = (if ds_transmit seg = 0 then v\<lparr>fl_total := fl_total v + 1\<rparr> else v\<lparr>fl_lost := fl_lost v + 1\<rparr>)
           \<lparr>fl_out := fl_out v @ [write (stamp current rto seg)], fl_inFlightSize := fl_inFlightSize v + 1\<rparr>
         in (fl_inFlightSize v + 1 < M, write (stamp current rto seg), v'))
      else (True, seg, v))"
  by (simp add: flush_visitor_def is_due_def stamp_def Let_def)

lemma flush_visit_out:
  "fl_inFlightSize v = of_nat (length (fl_out v)) \<Longrightarrow> length (fl_out v) < max 1 (unat M) \<Longrightarrow>
   fl_out (snd (Visit (flush_visitor write current rto M) segs v)) =
     fl_out v @ map (write \<circ> stamp current rto)
       (take (max 1 (unat M) - length (fl_out v)) (filter (is_due current) segs))"
proof (induction segs arbitrary: v)
  case (Cons seg segs)
  show ?case
  proof (cases "is_due current seg")
    case False
    then have "flush_visitor write current rto M seg v = (True, seg, v)" by (simp add: flush_visitor_alt)
    with False Cons.IH [OF Cons.prems] show ?thesis by (simp add: case_prod_unfold)
  next
    case True
    let ?v = "(if ds_transmit seg = 0 then v\<lparr>fl_total := fl_total v + 1\<rparr> else v\<lparr>fl_lost := fl_lost v + 1\<rparr>)
           \<lparr>fl_out := fl_out v @ [write (stamp current rto seg)], fl_inFlightSize := fl_inFlightSize v + 1\<rparr>"
    have fv: "flush_visitor write current rto M seg v = (fl_inFlightSize v + 1 < M, write (stamp current rto seg), ?v)"
      using True by (simp add: flush_visitor_alt)
    have v: "fl_out ?v = fl_out v @ [write (stamp current rto seg)]"
      "fl_inFlightSize ?v = of_nat (length (fl_out ?v))"
      using Cons.prems(1) by simp_all
    have "unat M < 2 ^ LENGTH(32)" by (rule unsigned_less)
    then have "length (fl_out v) + 1 < 4294967296" using Cons.prems(2) by simp
    then have "unat (fl_inFlightSize v + 1) = length (fl_out v) + 1"
      using Cons.prems(1) by (simp add: unat_word_ariths unat_of_nat)
    then have go: "fl_inFlightSize v + 1 < M \<longleftrightarrow> length (fl_out v) + 1 < unat M"
      by (simp add: word_less_nat_alt)
    show ?thesis
    proof (cases "fl_inFlightSize v + 1 < M")
      case g: True
      have "length (fl_out ?v) < max 1 (unat M)" using g go v(1) by simp
      note IH = Cons.IH [OF v(2) this]
      have "max 1 (unat M) - length (fl_out v) = Suc (max 1 (unat M) - length (fl_out ?v))"
        using Cons.prems(2) v(1) by simp
      with IH g True v(1) show ?thesis
        unfolding Visit.simps fv by (simp add: case_prod_unfold)
    next
      case g: False
      then have "max 1 (unat M) - length (fl_out v) = 1" using go Cons.prems(2) by (auto simp: max_def split: if_splits)
      with g True v(1) show ?thesis unfolding Visit.simps fv by simp
    qed
  qed
qed simp

section \<open>The invariant of the sender\<close>

text \<open>
  \<open>log\<close> is the list of payloads pushed so far. The window holds segments with growing numbers,
  each with the payload of its number. Fewer than \<open>2 ^ 31 - 1\<close> payloads have been pushed: beyond
  that, the sender's comparisons are no longer meaningful.
\<close>

abbreviation cache :: "SendingWorker \<Rightarrow> DataSegment list" where
  "cache w \<equiv> sw_cache (w_window w)"

definition sender_inv :: "byte list list \<Rightarrow> SendingWorker \<Rightarrow> bool" where
  "sender_inv log w \<longleftrightarrow>
     length log < 0x7FFFFFFF \<and> unat (w_nextNumber w) = length log \<and>
     sorted_wrt (<) (numbers (cache w)) \<and> list_all (genuine (nth log) (length log)) (cache w) \<and>
     (\<forall>n\<in>set (numbers (cache w)). unat (w_firstUnacknowledged w) \<le> unat n) \<and>
     unat (w_firstUnacknowledged w) \<le> length log"

lemma genuine_same_data: "genuine stream N s \<Longrightarrow> same_data s s' \<Longrightarrow> genuine stream N s'"
  by (simp add: genuine_def same_data_def)

lemma genuine_same_list:
  "list_all2 same_data segs segs' \<Longrightarrow> list_all (genuine stream N) segs \<Longrightarrow> list_all (genuine stream N) segs'"
  by (induction segs segs' rule: list_all2_induct) (auto intro: genuine_same_data)

lemma sender_inv_same:
  assumes "sender_inv log w" "list_all2 same_data (cache w) (cache w')"
    and "w_nextNumber w' = w_nextNumber w" "w_firstUnacknowledged w' = w_firstUnacknowledged w"
  shows "sender_inv log w'" "set (numbers (cache w')) = set (numbers (cache w))"
  using assms same_data_list(1) [OF assms(2)] genuine_same_list [OF assms(2)]
  unfolding sender_inv_def by metis+

text \<open>Dropping segments from the window and then looking for the first one left.\<close>

lemma FindFirst_filter:
  assumes "sender_inv log w" "cache w1 = filter P (cache w)"
    and "w_nextNumber w1 = w_nextNumber w"
  shows "sender_inv log (FindFirstUnacknowledged w1)"
    and "cache (FindFirstUnacknowledged w1) = filter P (cache w)"
    and "w_nextNumber (FindFirstUnacknowledged w1) = w_nextNumber w"
proof -
  have s: "sorted_wrt (<) (numbers (filter P (cache w)))"
    using assms(1) by (simp add: sender_inv_def sorted_wrt_map sorted_wrt_filter)
  have g: "list_all (genuine (nth log) (length log)) (filter P (cache w))"
    using assms(1) by (simp add: sender_inv_def list_all_iff)
  let ?f = "case FirstNumber (w_window w1) of Some n \<Rightarrow> n | None \<Rightarrow> w_nextNumber w1"
  have "(\<forall>n\<in>set (numbers (filter P (cache w))). unat ?f \<le> unat n) \<and> unat ?f \<le> length log"
  proof (cases "filter P (cache w)")
    case Nil
    with assms show ?thesis by (simp add: FirstNumber_def sender_inv_def)
  next
    case (Cons x xs)
    then have "?f = ds_Number x" using assms(2) by (simp add: FirstNumber_def)
    moreover have "unat (ds_Number x) < length log" using g Cons by (simp add: genuine_def)
    moreover have "\<forall>n\<in>set (numbers (x # xs)). unat (ds_Number x) \<le> unat n"
      using s Cons by (auto simp: word_less_nat_alt intro: less_imp_le)
    ultimately show ?thesis using Cons by simp
  qed
  with s g assms show "sender_inv log (FindFirstUnacknowledged w1)"
    by (simp add: sender_inv_def FindFirstUnacknowledged_def Let_def)
  show "cache (FindFirstUnacknowledged w1) = filter P (cache w)"
    and "w_nextNumber (FindFirstUnacknowledged w1) = w_nextNumber w"
    using assms(2,3) by (simp_all add: FindFirstUnacknowledged_def Let_def)
qed

lemma ProcessReceivingNext_spec:
  assumes "sender_inv log w"
  shows "sender_inv log (ProcessReceivingNext n w)"
    and "cache (ProcessReceivingNext n w) = filter (\<lambda>s. n \<le> ds_Number s) (cache w)"
    and "w_nextNumber (ProcessReceivingNext n w) = w_nextNumber w"
proof -
  have "cache (w\<lparr>w_window := SendingWindow_Clear n (w_window w)\<rparr>) = filter (\<lambda>s. n \<le> ds_Number s) (cache w)"
    using assms by (simp add: SendingWindow_Clear_def clear_front_sorted sender_inv_def)
  from FindFirst_filter [OF assms this] show "sender_inv log (ProcessReceivingNext n w)"
    and "cache (ProcessReceivingNext n w) = filter (\<lambda>s. n \<le> ds_Number s) (cache w)"
    and "w_nextNumber (ProcessReceivingNext n w) = w_nextNumber w"
    by (simp_all add: ProcessReceivingNext_def)
qed

text \<open>An acknowledgement of a number in the window passes the guards and removes exactly it.\<close>

lemma ack_guard:
  assumes "sender_inv log w" "n \<in> set (numbers (cache w))"
  shows "\<not> (n - w_firstUnacknowledged w > 0x7FFFFFFF \<or> n - w_nextNumber w < 0x7FFFFFFF)"
proof -
  have n: "unat n < length log" "length log < 0x7FFFFFFF" "unat (w_firstUnacknowledged w) \<le> unat n"
    "unat (w_nextNumber w) = length log"
    using assms by (auto simp: sender_inv_def list_all_iff genuine_def)
  then have "unat (n - w_firstUnacknowledged w) = unat n - unat (w_firstUnacknowledged w)"
    by (simp add: unat_sub word_le_nat_alt)
  moreover have "unat (n - w_nextNumber w) = unat n + 4294967296 - length log"
    using n by (simp add: unat_sub_if_size word_size word_le_nat_alt)
  ultimately show ?thesis using n unfolding word_less_nat_alt by simp linarith
qed

lemma processAck_spec:
  assumes "sender_inv log w" "processAck n w = (removed, w')"
  shows "sender_inv log w'" "removed \<longleftrightarrow> n \<in> set (numbers (cache w))"
    and "cache w' = filter (\<lambda>s. ds_Number s \<noteq> n) (cache w)"
    and "w_nextNumber w' = w_nextNumber w"
proof -
  have r: "remove_loop n (cache w) =
      (if n \<in> set (numbers (cache w)) then Some (filter (\<lambda>s. ds_Number s \<noteq> n) (cache w)) else None)"
    using assms(1) by (intro remove_loop_sorted) (simp add: sender_inv_def)
  have "sender_inv log w' \<and> (removed \<longleftrightarrow> n \<in> set (numbers (cache w))) \<and>
    cache w' = filter (\<lambda>s. ds_Number s \<noteq> n) (cache w) \<and> w_nextNumber w' = w_nextNumber w"
  proof (cases "n \<in> set (numbers (cache w))")
    case True
    with ack_guard [OF assms(1) True] r assms(2)
    obtain w1 where w': "removed" "w' = FindFirstUnacknowledged w1" "w_nextNumber w1 = w_nextNumber w"
      "cache w1 = filter (\<lambda>s. ds_Number s \<noteq> n) (cache w)"
      by (auto simp: processAck_def SendingWindow_Remove_def split: if_splits)
    from FindFirst_filter [OF assms(1) w'(4,3)] w'(1,2) True show ?thesis by simp
  next
    case False
    then have "filter (\<lambda>s. ds_Number s \<noteq> n) (cache w) = cache w" by (auto intro!: filter_True)
    moreover have "w' = w" "\<not> removed"
      using False r assms(2) by (auto simp: processAck_def SendingWindow_Remove_def split: if_splits)
    ultimately show ?thesis using False assms(1) by simp
  qed
  then show "sender_inv log w'" "removed \<longleftrightarrow> n \<in> set (numbers (cache w))"
    "cache w' = filter (\<lambda>s. ds_Number s \<noteq> n) (cache w)" "w_nextNumber w' = w_nextNumber w" by blast+
qed

lemma ack_loop_spec:
  "sender_inv log w \<Longrightarrow> ack_loop ns m r w = (m', r', w') \<Longrightarrow>
   sender_inv log w' \<and> cache w' = filter (\<lambda>s. ds_Number s \<notin> set ns) (cache w) \<and>
   w_nextNumber w' = w_nextNumber w"
proof (induction ns arbitrary: m r w)
  case (Cons n ns)
  obtain x w1 where a: "processAck n w = (x, w1)" by (cases "processAck n w")
  obtain m1 r1 where l: "ack_loop ns m1 r1 w1 = (m', r', w')"
    using Cons.prems(2) a by (auto split: if_splits)
  note s = processAck_spec [OF Cons.prems(1) a]
  have "(\<lambda>s. ds_Number s \<noteq> n \<and> ds_Number s \<notin> set ns) = (\<lambda>s. ds_Number s \<notin> set (n # ns))" by auto
  with Cons.IH [OF s(1) l] s(3,4) show ?case by (simp add: conj_commute)
qed simp

lemma SendingWorker_ProcessSegment_spec:
  assumes "sender_inv log w" "\<not> w_closed w" "SendingWorker_ProcessSegment current seg rto w rt = (w', rt')"
  shows "sender_inv log w' \<and> w_nextNumber w' = w_nextNumber w \<and>
    numbers (cache w') = numbers (filter (\<lambda>s. as_ReceivingNext seg \<le> ds_Number s \<and>
       ds_Number s \<notin> set (as_NumberList seg)) (cache w))"
proof -
  define w1 where "w1 = (if w_remoteNextNumber w < as_ReceivingWindow seg
    then w\<lparr>w_remoteNextNumber := as_ReceivingWindow seg\<rparr> else w)"
  have w1: "sender_inv log w1" "cache w1 = cache w" "w_nextNumber w1 = w_nextNumber w"
    using assms(1) by (simp_all add: w1_def sender_inv_def)
  define w2 where "w2 = ProcessReceivingNext (as_ReceivingNext seg) w1"
  have w2: "sender_inv log w2" "cache w2 = filter (\<lambda>s. as_ReceivingNext seg \<le> ds_Number s) (cache w)"
    "w_nextNumber w2 = w_nextNumber w"
    using ProcessReceivingNext_spec [OF w1(1)] w1(2,3) by (simp_all add: w2_def)
  obtain m r w3 where l: "ack_loop (as_NumberList seg) 0 False w2 = (m, r, w3)" by (metis prod_cases3)
  have w3: "sender_inv log w3" "w_nextNumber w3 = w_nextNumber w" "cache w3 =
      filter (\<lambda>s. as_ReceivingNext seg \<le> ds_Number s \<and> ds_Number s \<notin> set (as_NumberList seg)) (cache w)"
    using ack_loop_spec [OF w2(1) l] w2(2,3) by (auto simp: conj_commute)
  have "SendingWorker_ProcessSegment current seg rto w rt =
      (if AckSegment_IsEmpty seg then (w2, rt)
       else if r then (w3\<lparr>w_window := HandleFastAck m rto (w_window w3)\<rparr>,
         if current - as_Timestamp seg < 10000
         then RoundTripInfo_Update (current - as_Timestamp seg) current rt else rt)
       else (w3, rt))"
    using assms(2) by (simp only: SendingWorker_ProcessSegment_def Let_def flip: w1_def w2_def) (simp add: l)
  with assms(3) consider "as_NumberList seg = []" "w' = w2" | "w' = w3"
    | "w' = w3\<lparr>w_window := HandleFastAck m rto (w_window w3)\<rparr>"
    by (auto simp: AckSegment_IsEmpty_def split: if_splits)
  then show ?thesis
  proof cases
    case 1
    with w2 show ?thesis by simp
  next
    case 2
    with w3 show ?thesis by simp
  next
    case 3
    then have s: "list_all2 same_data (cache w3) (cache w')" using HandleFastAck_same by simp
    from sender_inv_same(1) [OF w3(1) s] same_data_list(1) [OF s] 3 w3 show ?thesis by simp
  qed
qed

lemma closed_kept [simp]:
  "w_closed (FindFirstUnacknowledged w) = w_closed w" "w_closed (ProcessReceivingNext n w) = w_closed w"
  by (simp_all add: ProcessReceivingNext_def FindFirstUnacknowledged_def Let_def)

lemma processAck_closed: "w_closed (snd (processAck n w)) = w_closed w"
  by (simp add: processAck_def split: prod.splits)

lemma ack_loop_closed: "w_closed (snd (snd (ack_loop ns m r w))) = w_closed w"
  by (induction ns arbitrary: m r w) (simp_all add: case_prod_unfold processAck_closed)

lemma SendingWorker_ProcessSegment_closed:
  "w_closed (fst (SendingWorker_ProcessSegment current seg rto w rt)) = w_closed w"
  using ack_loop_closed [of "as_NumberList seg" 0 False]
  by (simp add: SendingWorker_ProcessSegment_def Let_def case_prod_unfold)

lemma genuine_append: "genuine (nth log) (length log) s \<Longrightarrow> genuine (nth (log @ x)) (length (log @ x)) s"
  by (auto simp: genuine_def nth_append)

lemma SendingWorker_Push_spec:
  assumes "sender_inv log w" "SendingWorker_Push b w = (True, w')" "buffer_wf b" "length log < 0x7FFFFFFE"
  shows "sender_inv (log @ [content b]) w'" "numbers (cache w') = numbers (cache w) @ [of_nat (length log)]"
proof -
  let ?seg = "NewDataSegment\<lparr>ds_Number := w_nextNumber w, ds_payload := Some b\<rparr>"
  have w': "cache w' = cache w @ [?seg]" "w_nextNumber w' = w_nextNumber w + 1"
    "w_firstUnacknowledged w' = w_firstUnacknowledged w"
    using assms(2) by (auto simp: SendingWorker_Push_def SendingWindow_Push_def split: if_splits)
  have n: "unat (w_nextNumber w) = length log" using assms(1) by (simp add: sender_inv_def)
  then have n1: "unat (w_nextNumber w + 1) = length log + 1" using assms(4) by (simp add: unat_word_ariths)
  have wn: "w_nextNumber w = of_nat (length log)" unfolding n [symmetric] by simp
  have "genuine (nth (log @ [content b])) (length (log @ [content b])) ?seg"
    using n assms(3) by (simp add: genuine_def NewDataSegment_def nth_append)
  moreover have "\<forall>s\<in>set (cache w). ds_Number s < w_nextNumber w"
    using assms(1) n by (auto simp: sender_inv_def list_all_iff genuine_def word_less_nat_alt)
  moreover have "list_all (genuine (nth (log @ [content b])) (length (log @ [content b]))) (cache w)"
    using assms(1) genuine_append [of log _ "[content b]"] by (auto simp: sender_inv_def list_all_iff)
  ultimately show "sender_inv (log @ [content b]) w'"
    using assms(1,4) n n1 by (auto simp: sender_inv_def w' sorted_wrt_append NewDataSegment_def)
  show "numbers (cache w') = numbers (cache w) @ [of_nat (length log)]"
    using w' wn by (simp add: NewDataSegment_def)
qed

lemma Write_same: "same_data seg (SendingWorker_Write conv st w (stamp current rto seg))"
  by (simp add: same_data_def SendingWorker_Write_def stamp_def)

lemma flush_visitor_same:
  "same_data seg (fst (snd (flush_visitor (SendingWorker_Write conv st w) current rto M seg v)))"
  by (simp add: flush_visitor_alt Let_def Write_same)

lemma SendingWindow_Flush_spec:
  assumes "SendingWindow_Flush (SendingWorker_Write conv st w) current rto M sw = (out, loss, sw')"
  shows "out = map (SendingWorker_Write conv st w \<circ> stamp current rto)
      (take (max 1 (unat M)) (filter (is_due current) (sw_cache sw)))"
    and "list_all2 same_data (sw_cache sw) (sw_cache sw')"
proof -
  let ?vis = "flush_visitor (SendingWorker_Write conv st w) current rto M"
  let ?v = "\<lparr>fl_total = sw_totalInFlightSize sw, fl_lost = 0, fl_inFlightSize = 0, fl_out = []\<rparr>"
  have "sw_cache sw = [] \<or> (out = fl_out (snd (Visit ?vis (sw_cache sw) ?v)) \<and>
      sw_cache sw' = fst (Visit ?vis (sw_cache sw) ?v))"
    and e: "sw_cache sw = [] \<Longrightarrow> out = [] \<and> sw' = sw"
    using assms by (auto simp: SendingWindow_Flush_def SendingWindow_IsEmpty_def split: prod.splits)
  with flush_visit_out [of ?v M "SendingWorker_Write conv st w" current rto "sw_cache sw"]
    Visit_same_data [of ?vis "sw_cache sw" ?v] flush_visitor_same [of _ conv st w current rto M]
  show "out = map (SendingWorker_Write conv st w \<circ> stamp current rto)
      (take (max 1 (unat M)) (filter (is_due current) (sw_cache sw)))"
    and "list_all2 same_data (sw_cache sw) (sw_cache sw')"
    by auto
qed

lemma OnPacketLoss_fields:
  "OnPacketLoss c rt rate w = Some w' \<Longrightarrow>
   w_window w' = w_window w \<and> w_nextNumber w' = w_nextNumber w \<and> w_closed w' = w_closed w \<and>
   w_firstUnacknowledged w' = w_firstUnacknowledged w"
  by (auto simp: OnPacketLoss_def Let_def split: if_splits)

lemma OnPacketLoss_Some: "GetSendingInFlightSize c \<noteq> None \<Longrightarrow> OnPacketLoss c rt rate w \<noteq> None"
  by (auto simp: OnPacketLoss_def Let_def)

lemma flush_cwnd_Some: "flush_cwnd c w = None \<longleftrightarrow> GetSendingInFlightSize c = None"
  by (simp add: flush_cwnd_def)

lemma SendingWorker_Flush_nonempty:
  assumes "\<not> w_closed w" "flush_cwnd c w = Some cwnd" "cache w \<noteq> []"
    and "SendingWindow_Flush (SendingWorker_Write conv st w) current (Timeout rt) cwnd (w_window w) = (o1, loss, win)"
  shows "SendingWorker_Flush conv st c rt current w =
    map_option (\<lambda>w1. (o1, False, w1\<lparr>w_firstUnacknowledgedUpdated := False\<rparr>))
      (case loss of None \<Rightarrow> Some (w\<lparr>w_window := win\<rparr>) | Some r \<Rightarrow> OnPacketLoss c rt r (w\<lparr>w_window := win\<rparr>))"
proof (cases loss)
  case None
  with assms show ?thesis by (simp add: SendingWorker_Flush_def SendingWindow_IsEmpty_def)
next
  case (Some r)
  with assms show ?thesis
    by (cases "OnPacketLoss c rt r (w\<lparr>w_window := win\<rparr>)")
      (simp_all add: SendingWorker_Flush_def SendingWindow_IsEmpty_def)
qed

lemma SendingWorker_Flush_empty:
  "\<not> w_closed w \<Longrightarrow> flush_cwnd c w = Some cwnd \<Longrightarrow> cache w = [] \<Longrightarrow>
   SendingWorker_Flush conv st c rt current w =
     Some ([], w_firstUnacknowledgedUpdated w, w\<lparr>w_firstUnacknowledgedUpdated := False\<rparr>)"
  by (simp add: SendingWorker_Flush_def SendingWindow_IsEmpty_def)

lemma SendingWorker_Flush_spec:
  assumes "\<not> w_closed w" "flush_cwnd c w = Some cwnd"
    and "SendingWorker_Flush conv st c rt current w = Some (out, ping, w')"
  shows "out = map (SendingWorker_Write conv st w \<circ> stamp current (Timeout rt))
      (take (max 1 (unat cwnd)) (filter (is_due current) (cache w)))"
    and "list_all2 same_data (cache w) (cache w')"
    and "w_nextNumber w' = w_nextNumber w" "w_firstUnacknowledged w' = w_firstUnacknowledged w"
    and "\<not> w_closed w'"
proof -
  have "out = map (SendingWorker_Write conv st w \<circ> stamp current (Timeout rt))
      (take (max 1 (unat cwnd)) (filter (is_due current) (cache w))) \<and>
    list_all2 same_data (cache w) (cache w') \<and> w_nextNumber w' = w_nextNumber w \<and>
    w_firstUnacknowledged w' = w_firstUnacknowledged w \<and> \<not> w_closed w'"
  proof (cases "cache w = []")
    case True
    with assms show ?thesis by (auto simp: SendingWorker_Flush_empty)
  next
    case False
    obtain o1 loss win where f: "SendingWindow_Flush (SendingWorker_Write conv st w) current (Timeout rt) cwnd
        (w_window w) = (o1, loss, win)" by (metis prod_cases3)
    obtain w1 where w1: "(case loss of None \<Rightarrow> Some (w\<lparr>w_window := win\<rparr>)
        | Some r \<Rightarrow> OnPacketLoss c rt r (w\<lparr>w_window := win\<rparr>)) = Some w1"
      and w': "out = o1" "w' = w1\<lparr>w_firstUnacknowledgedUpdated := False\<rparr>"
      using assms(3) unfolding SendingWorker_Flush_nonempty [OF assms(1,2) False f] by auto
    have "w_window w1 = win \<and> w_nextNumber w1 = w_nextNumber w \<and> w_closed w1 = w_closed w \<and>
        w_firstUnacknowledged w1 = w_firstUnacknowledged w"
      using w1 by (cases loss) (auto dest: OnPacketLoss_fields)
    with w' SendingWindow_Flush_spec [OF f] assms(1) show ?thesis by simp
  qed
  then show "out = map (SendingWorker_Write conv st w \<circ> stamp current (Timeout rt))
      (take (max 1 (unat cwnd)) (filter (is_due current) (cache w)))"
    "list_all2 same_data (cache w) (cache w')" "w_nextNumber w' = w_nextNumber w"
    "w_firstUnacknowledged w' = w_firstUnacknowledged w" "\<not> w_closed w'" by blast+
qed

section \<open>What every segment of the window keeps\<close>

text \<open>
  Acknowledgements only take segments out of the window, and a flush changes a segment only by
  stamping it: a property of segments that these changes keep is kept by the worker.
\<close>

lemma Visit_all:
  "(\<And>x v. P x \<Longrightarrow> P (fst (snd (visitor x v)))) \<Longrightarrow> list_all P segs \<Longrightarrow> list_all P (fst (Visit visitor segs v))"
proof (induction segs arbitrary: v)
  case (Cons x segs)
  obtain go_on x' v' where v: "visitor x v = (go_on, x', v')" by (metis prod_cases3)
  have "P x'" using Cons.prems(1) [of x v] Cons.prems(2) v by simp
  moreover have "list_all P (fst (Visit visitor segs v'))" using Cons by simp
  ultimately show ?case using v Cons.prems(2) by (auto split: prod.splits)
qed simp

lemma set_clear_front: "set (clear_front una segs) \<subseteq> set segs"
  by (induction segs) auto

lemma set_remove_loop: "remove_loop n segs = Some segs' \<Longrightarrow> set segs' \<subseteq> set segs"
  by (induction segs arbitrary: segs') (auto split: if_splits)

lemma cache_FindFirst [simp]: "cache (FindFirstUnacknowledged w) = cache w"
  by (simp add: FindFirstUnacknowledged_def Let_def)

lemma cache_processAck: "set (cache (snd (processAck n w))) \<subseteq> set (cache w)"
  using set_remove_loop by (auto simp: processAck_def SendingWindow_Remove_def split: option.splits)

lemma cache_ack_loop: "set (cache (snd (snd (ack_loop ns m r w)))) \<subseteq> set (cache w)"
proof (induction ns m r w rule: ack_loop.induct)
  case (2 n ns m r w)
  obtain removed w' where p: "processAck n w = (removed, w')" by fastforce
  then have "set (cache w') \<subseteq> set (cache w)" using cache_processAck [of n w] by simp
  with 2 p show ?case by (auto split: if_splits)
qed simp

lemma ProcessReceivingNext_all: "list_all P (cache w) \<Longrightarrow> list_all P (cache (ProcessReceivingNext n w))"
  using set_clear_front by (fastforce simp: ProcessReceivingNext_def SendingWindow_Clear_def list_all_iff)

lemma ProcessSegment_all:
  assumes "list_all P (cache w)" "\<And>x n v. P x \<Longrightarrow> P (fst (snd (fast_ack n rto x v)))"
    and "SendingWorker_ProcessSegment current seg rto w rt = (w', rt')"
  shows "list_all P (cache w')"
proof (cases "w_closed w")
  case True
  with assms show ?thesis by (simp add: SendingWorker_ProcessSegment_def)
next
  case False
  define w1 where "w1 = (if w_remoteNextNumber w < as_ReceivingWindow seg
     then w\<lparr>w_remoteNextNumber := as_ReceivingWindow seg\<rparr> else w)"
  define w2 where "w2 = ProcessReceivingNext (as_ReceivingNext seg) w1"
  obtain m r w3 where l: "ack_loop (as_NumberList seg) 0 False w2 = (m, r, w3)" by (metis prod_cases3)
  have "list_all P (cache w1)" using assms(1) by (simp add: w1_def)
  then have p2: "list_all P (cache w2)" unfolding w2_def by (rule ProcessReceivingNext_all)
  then have p3: "list_all P (cache w3)"
    using cache_ack_loop [of "as_NumberList seg" 0 False w2] l by (auto simp: list_all_iff)
  have "list_all P (sw_cache (HandleFastAck m rto (w_window w3)))"
    using p3 Visit_all [of P "fast_ack m rto", OF assms(2)] by (simp add: HandleFastAck_def)
  moreover have "w' = w2 \<or> w' = w3 \<or> w' = w3\<lparr>w_window := HandleFastAck m rto (w_window w3)\<rparr>"
    using assms(3) False l
    by (auto simp: SendingWorker_ProcessSegment_def Let_def w1_def [symmetric] w2_def [symmetric] split: if_splits)
  ultimately show ?thesis using p2 p3 by auto
qed

lemma SendingWorker_Flush_all:
  assumes "list_all P (cache w)" "\<And>x. P x \<Longrightarrow> P (SendingWorker_Write conv st w (stamp current (Timeout rt) x))"
    and "SendingWorker_Flush conv st c rt current w = Some (out, ping, w')"
  shows "list_all P (cache w') \<and> list_all P out"
proof (cases "w_closed w")
  case True
  with assms show ?thesis by (simp add: SendingWorker_Flush_def)
next
  case open_w: False
  then obtain M where M: "flush_cwnd c w = Some M"
    using assms(3) by (auto simp: SendingWorker_Flush_def bind_eq_Some_conv)
  have "list_all P out"
    using assms(1,2) unfolding SendingWorker_Flush_spec(1) [OF open_w M assms(3)]
    by (auto simp: list_all_iff dest!: in_set_takeD)
  moreover have "list_all P (cache w')"
  proof (cases "cache w = []")
    case True
    then show ?thesis using SendingWorker_Flush_empty [OF open_w M True] assms(1,3) by auto
  next
    case False
    let ?visitor = "flush_visitor (SendingWorker_Write conv st w) current (Timeout rt) M"
    have "list_all P (fst (Visit ?visitor (cache w) v))" for v
      using assms(1,2) by (intro Visit_all) (auto simp: flush_visitor_alt Let_def)
    then have win: "list_all P (sw_cache (snd (snd (SendingWindow_Flush (SendingWorker_Write conv st w) current (Timeout rt) M (w_window w)))))"
      using False by (simp add: SendingWindow_Flush_def SendingWindow_IsEmpty_def case_prod_beta)
    obtain o1 loss sw where f: "SendingWindow_Flush (SendingWorker_Write conv st w) current (Timeout rt) M (w_window w) = (o1, loss, sw)"
      by (metis prod_cases3)
    have "w_window w' = sw"
      using assms(3) unfolding SendingWorker_Flush_nonempty [OF open_w M False f]
      by (auto dest: OnPacketLoss_fields split: option.splits)
    with win f show ?thesis by simp
  qed
  ultimately show ?thesis by blast
qed

lemma SendingWorker_Flush_total:
  assumes "GetSendingInFlightSize c \<noteq> None"
  shows "SendingWorker_Flush conv st c rt current w \<noteq> None"
proof (cases "w_closed w \<or> cache w = []")
  case True
  obtain cwnd where c: "flush_cwnd c w = Some cwnd" using assms flush_cwnd_Some [of c w] by auto
  show ?thesis
  proof (cases "w_closed w")
    case False
    with True c show ?thesis by (simp add: SendingWorker_Flush_empty)
  qed (simp add: SendingWorker_Flush_def)
next
  case False
  obtain cwnd where c: "flush_cwnd c w = Some cwnd" using assms flush_cwnd_Some [of c w] by auto
  obtain o1 loss win where f: "SendingWindow_Flush (SendingWorker_Write conv st w) current (Timeout rt) cwnd
      (w_window w) = (o1, loss, win)" by (metis prod_cases3)
  show ?thesis
    using False OnPacketLoss_Some [OF assms]
    by (subst SendingWorker_Flush_nonempty [OF _ c _ f]) (auto split: option.splits)
qed

lemma flush_genuine:
  assumes "list_all (genuine stream N) segs" "s \<in> set (map (SendingWorker_Write conv st w \<circ> stamp current rto)
    (take k (filter P segs)))"
  shows "genuine stream N s"
proof -
  obtain x where x: "x \<in> set segs" "s = SendingWorker_Write conv st w (stamp current rto x)"
    using assms(2) by (auto dest!: in_set_takeD)
  then show ?thesis
    using assms(1) genuine_same_data [OF _ Write_same] by (auto simp: list_all_iff)
qed

section \<open>Properties\<close>

text \<open>
  A flush sends exactly the segments of the window that are due, oldest first, up to the
  congestion window (one even if the window is 0), each stamped with the current time, the
  conversation number and the first unacknowledged number; no segment leaves the window and
  none loses its number or payload.
\<close>

theorem sender_flush:
  assumes "sender_inv log w" "\<not> w_closed w" "flush_cwnd c w = Some cwnd"
  shows "\<exists>out ping w'. SendingWorker_Flush conv st c rt current w = Some (out, ping, w') \<and>
    map ds_payload out = map ds_payload (take (max 1 (unat cwnd)) (filter (is_due current) (cache w))) \<and>
    numbers out = numbers (take (max 1 (unat cwnd)) (filter (is_due current) (cache w))) \<and>
    (\<forall>s\<in>set out. ds_Timestamp s = current \<and> ds_Conv s = conv \<and>
       ds_SendingNext s = FirstUnacknowledged w \<and> genuine (nth log) (length log) s) \<and>
    numbers (cache w') = numbers (cache w) \<and> sender_inv log w'"
proof -
  have "GetSendingInFlightSize c \<noteq> None" using assms(3) by (auto simp: flush_cwnd_def)
  from SendingWorker_Flush_total [OF this, of conv st rt current w]
  obtain out ping w' where f: "SendingWorker_Flush conv st c rt current w = Some (out, ping, w')" by auto
  note s = SendingWorker_Flush_spec [OF assms(2,3) f]
  have g: "list_all (genuine (nth log) (length log)) (cache w)" using assms(1) by (simp add: sender_inv_def)
  have "map ds_payload out = map ds_payload (take (max 1 (unat cwnd)) (filter (is_due current) (cache w)))"
    "numbers out = numbers (take (max 1 (unat cwnd)) (filter (is_due current) (cache w)))"
    by (simp_all add: s(1) SendingWorker_Write_def stamp_def)
  moreover have "\<forall>s\<in>set out. ds_Timestamp s = current \<and> ds_Conv s = conv \<and> ds_SendingNext s = FirstUnacknowledged w"
    by (auto simp: s(1) SendingWorker_Write_def stamp_def FirstUnacknowledged_def)
  moreover have "\<forall>s\<in>set out. genuine (nth log) (length log) s"
    using flush_genuine [OF g] by (simp only: s(1)) blast
  moreover have "numbers (cache w') = numbers (cache w)" by (rule same_data_list(1) [OF s(2)])
  moreover have "sender_inv log w'" by (rule sender_inv_same(1) [OF assms(1) s(2,3,4)])
  ultimately show ?thesis using f by blast
qed

definition demo_sender :: SendingWorker where
  "demo_sender = \<lparr>w_window = NewSendingWindow, w_firstUnacknowledged = 0, w_nextNumber = 0,
     w_remoteNextNumber = 32, w_controlWindow = 194, w_fastResend = 2, w_windowSize = 1553,
     w_firstUnacknowledgedUpdated = False, w_closed = False\<rparr>"

lemma demo_sender_New: "NewSendingWorker default_config = Some demo_sender"
proof -
  have "GetSendingBufferSize default_config = Some 1553" by code_simp
  then show ?thesis by (simp add: NewSendingWorker_def default_in_flight demo_sender_def)
qed

lemma NewSendingWorker_inv:
  "NewSendingWorker c = Some w \<Longrightarrow> sender_inv [] w \<and> \<not> w_closed w \<and> cache w = [] \<and> w_nextNumber w = 0"
  by (auto simp: NewSendingWorker_def bind_eq_Some_conv sender_inv_def NewSendingWindow_def)

lemma demo_cwnd: "flush_cwnd default_config (demo_sender\<lparr>w_window := win, w_nextNumber := n\<rparr>) = Some 640"
proof -
  have "\<not> c_Congestion default_config" by (simp add: default_config_def)
  then show ?thesis by (simp add: flush_cwnd_def default_in_flight demo_sender_def)
qed

theorem sender_flush_witness:
  "\<exists>out ping w'. SendingWorker_Flush 9 StateActive default_config
     \<lparr>rt_variation = 0, rt_srtt = 0, rt_rto = 100, rt_minRtt = 50, rt_updatedTimestamp = 0\<rparr> 1000
     (demo_sender\<lparr>w_window := SendingWindow_Push 0 (FromBytes [1, 2]) NewSendingWindow, w_nextNumber := 1\<rparr>) =
       Some (out, ping, w') \<and> numbers out = [0]"
proof -
  let ?w = "demo_sender\<lparr>w_window := SendingWindow_Push 0 (FromBytes [1, 2]) NewSendingWindow, w_nextNumber := 1\<rparr>"
  have c: "cache ?w = [NewDataSegment\<lparr>ds_Number := 0, ds_payload := Some (FromBytes [1, 2])\<rparr>]"
    by (simp add: SendingWindow_Push_def NewSendingWindow_def)
  then have "sender_inv [[1, 2]] ?w"
    by (simp add: sender_inv_def genuine_def demo_sender_def NewDataSegment_def wf_FromBytes content_FromBytes)
  moreover have "flush_cwnd default_config ?w = Some 640" by (rule demo_cwnd)
  moreover have "\<not> w_closed ?w" by (simp add: demo_sender_def)
  moreover have "is_due 1000 (NewDataSegment\<lparr>ds_Number := 0, ds_payload := Some (FromBytes [1, 2])\<rparr>)"
    by (simp add: is_due_def NewDataSegment_def)
  ultimately show ?thesis
    using sender_flush [of "[[1, 2]]" ?w default_config 640 9 StateActive
      "\<lparr>rt_variation = 0, rt_srtt = 0, rt_rto = 100, rt_minRtt = 50, rt_updatedTimestamp = 0\<rparr>" 1000] c
    by (auto simp: NewDataSegment_def)
qed

text \<open>
  An acknowledgement removes from the window exactly the numbers it lists and those below
  its next expected number, keeps all others, and keeps the invariant of the sender.
\<close>

theorem acknowledgement_processed:
  assumes "sender_inv log w" "\<not> w_closed w"
  shows "\<exists>w' rt'. SendingWorker_ProcessSegment current seg rto w rt = (w', rt') \<and> sender_inv log w' \<and>
    (\<forall>n. n \<in> set (numbers (cache w')) \<longleftrightarrow>
       n \<in> set (numbers (cache w)) \<and> as_ReceivingNext seg \<le> n \<and> n \<notin> set (as_NumberList seg))"
proof -
  obtain w' rt' where p: "SendingWorker_ProcessSegment current seg rto w rt = (w', rt')"
    by (cases "SendingWorker_ProcessSegment current seg rto w rt")
  have s: "sender_inv log w'" and n: "set (numbers (cache w')) = set (numbers (filter (\<lambda>s.
      as_ReceivingNext seg \<le> ds_Number s \<and> ds_Number s \<notin> set (as_NumberList seg)) (cache w)))"
    using SendingWorker_ProcessSegment_spec [OF assms p] by simp_all
  have "n \<in> set (numbers (cache w')) \<longleftrightarrow>
      n \<in> set (numbers (cache w)) \<and> as_ReceivingNext seg \<le> n \<and> n \<notin> set (as_NumberList seg)" for n
    unfolding n by auto
  with s p show ?thesis by blast
qed

theorem acknowledgement_processed_witness:
  "\<exists>w' rt'. SendingWorker_ProcessSegment 1000 (NewAckSegment\<lparr>as_NumberList := [3, 5]\<rparr>) 100 demo_sender
     \<lparr>rt_variation = 0, rt_srtt = 0, rt_rto = 100, rt_minRtt = 50, rt_updatedTimestamp = 0\<rparr> = (w', rt') \<and>
     sender_inv [] w'"
  using acknowledgement_processed [of "[]" demo_sender 1000 "NewAckSegment\<lparr>as_NumberList := [3, 5]\<rparr>" 100
      "\<lparr>rt_variation = 0, rt_srtt = 0, rt_rto = 100, rt_minRtt = 50, rt_updatedTimestamp = 0\<rparr>"]
    NewSendingWorker_inv [OF demo_sender_New] by blast

text \<open>
  C22: what a reported loss rate does to the control window, for an in-flight size below \<open>2 ^ 31\<close>.
  With congestion control off, or while the retransmission time-out is 0, the
  worker stays as it is, with whatever window it had. Otherwise only the window changes, and is then between 16 and twice the in-flight size; a rate of 15
  percent or more never enlarges a window below \<open>2 ^ 30\<close> beyond what it was (16 at least), and
  a rate from 6 to 14 percent leaves one that is within the bounds as it is.
\<close>

theorem congestion_window:
  assumes "GetSendingInFlightSize c = Some infl" "unat infl < 0x80000000"
  shows "\<exists>w'. OnPacketLoss c rt lossRate w = Some w' \<and>
    (\<not> c_Congestion c \<or> Timeout rt = 0 \<longrightarrow> w' = w) \<and>
    (c_Congestion c \<and> Timeout rt \<noteq> 0 \<longrightarrow>
       w' = w\<lparr>w_controlWindow := w_controlWindow w'\<rparr> \<and>
       16 \<le> w_controlWindow w' \<and> w_controlWindow w' \<le> 2 * infl \<and>
       (15 \<le> lossRate \<and> unat (w_controlWindow w) < 0x40000000 \<longrightarrow>
          unat (w_controlWindow w') \<le> max 16 (unat (w_controlWindow w))) \<and>
       (5 < lossRate \<and> lossRate < 15 \<and> 16 \<le> w_controlWindow w \<and> w_controlWindow w \<le> 2 * infl \<longrightarrow> w' = w))"
proof (cases "c_Congestion c \<and> Timeout rt \<noteq> 0")
  case False
  then show ?thesis by (auto simp: OnPacketLoss_def)
next
  case True
  have infl: "unat (2 * infl) = 2 * unat infl" using assms(2) by (simp add: unat_word_ariths)
  have "8 \<le> infl" using assms(1) in_flight_size_Some by (auto simp: GetSendingInFlightSize_def)
  then have two: "16 \<le> 2 * infl" using infl by (simp add: word_le_nat_alt)
  let ?cw = "w_controlWindow w"
  define cw1 where "cw1 = (if lossRate \<ge> 15 then 3 * ?cw div 4 else if lossRate \<le> 5 then ?cw + ?cw div 4 else ?cw)"
  define cw3 where "cw3 = (let cw2 = (if cw1 < 16 then 16 else cw1) in if cw2 > 2 * infl then 2 * infl else cw2)"
  have "OnPacketLoss c rt lossRate w = Some (w\<lparr>w_controlWindow := cw3\<rparr>)"
    using True assms(1) by (simp add: OnPacketLoss_def Let_def cw3_def cw1_def)
  moreover have "16 \<le> cw3" "cw3 \<le> 2 * infl" using two by (auto simp: cw3_def Let_def)
  moreover have "cw3 = ?cw" if "5 < lossRate" "lossRate < 15" "16 \<le> ?cw" "?cw \<le> 2 * infl"
    using that by (simp add: cw3_def cw1_def not_less not_le [symmetric])
  moreover have "unat cw3 \<le> max 16 (unat ?cw)" if "15 \<le> lossRate" "unat ?cw < 0x40000000"
  proof -
    have "unat (3 * ?cw) = 3 * unat ?cw" using that(2) by (simp add: unat_word_ariths)
    then have "unat cw1 \<le> unat ?cw" using that(1) by (simp add: cw1_def unat_div)
    then show ?thesis by (auto simp: cw3_def Let_def word_less_nat_alt max_def)
  qed
  ultimately show ?thesis using True by auto
qed

theorem congestion_window_witness:
  "\<exists>w'. OnPacketLoss (default_config\<lparr>c_Congestion := True\<rparr>)
     \<lparr>rt_variation = 0, rt_srtt = 0, rt_rto = 100, rt_minRtt = 50, rt_updatedTimestamp = 0\<rparr> 20 demo_sender = Some w' \<and>
     16 \<le> w_controlWindow w' \<and> w_controlWindow w' \<le> 2 * 194 \<and> unat (w_controlWindow w') \<le> 194"
proof -
  have "GetSendingInFlightSize (default_config\<lparr>c_Congestion := True\<rparr>) = Some 194" by code_simp
  then show ?thesis
    using congestion_window [of "default_config\<lparr>c_Congestion := True\<rparr>"
      194 "\<lparr>rt_variation = 0, rt_srtt = 0, rt_rto = 100, rt_minRtt = 50, rt_updatedTimestamp = 0\<rparr>" 20 demo_sender]
    by (auto simp: Timeout_def demo_sender_def)
qed

text \<open>
  A connection that has been up for \<open>2 ^ 31 - 1\<close> ms (some 25 days) no longer sends new data:
  a segment just pushed has time-out 0, which the comparison then takes to lie in the future,
  so that a flush of a window of new segments sends nothing.
\<close>

theorem new_data_stalls:
  assumes "0x7FFFFFFF \<le> current" "\<forall>s\<in>set (cache w). ds_timeout s = 0"
    and "SendingWorker_Flush conv st c rt current w = Some (out, ping, w')"
  shows "out = []"
proof (cases "w_closed w")
  case True
  with assms(3) show ?thesis by (simp add: SendingWorker_Flush_def)
next
  case False
  obtain cwnd where c: "flush_cwnd c w = Some cwnd"
    using assms(3) False by (auto simp: SendingWorker_Flush_def bind_eq_Some_conv)
  have "filter (is_due current) (cache w) = []"
    using assms(1,2) by (auto simp: filter_empty_conv is_due_def)
  then show ?thesis using SendingWorker_Flush_spec(1) [OF False c assms(3)] by simp
qed

theorem new_data_stalls_witness:
  "map_option fst (SendingWorker_Flush 9 StateActive default_config
     \<lparr>rt_variation = 0, rt_srtt = 0, rt_rto = 100, rt_minRtt = 50, rt_updatedTimestamp = 0\<rparr> 0x80000000
     (demo_sender\<lparr>w_window := SendingWindow_Push 0 (FromBytes [1, 2]) NewSendingWindow, w_nextNumber := 1\<rparr>)) = Some []"
proof -
  let ?w = "demo_sender\<lparr>w_window := SendingWindow_Push 0 (FromBytes [1, 2]) NewSendingWindow, w_nextNumber := 1\<rparr>"
  let ?rt = "\<lparr>rt_variation = 0, rt_srtt = 0, rt_rto = 100, rt_minRtt = 50, rt_updatedTimestamp = 0\<rparr>"
  have "SendingWorker_Flush 9 StateActive default_config ?rt 0x80000000 ?w \<noteq> None"
    by (rule SendingWorker_Flush_total) (simp add: default_in_flight)
  then obtain out ping w' where f: "SendingWorker_Flush 9 StateActive default_config ?rt 0x80000000 ?w = Some (out, ping, w')"
    by auto
  have "\<forall>s\<in>set (cache ?w). ds_timeout s = 0"
    by (simp add: SendingWindow_Push_def NewSendingWindow_def NewDataSegment_def)
  from new_data_stalls [OF _ this f] f show ?thesis by (simp add: word_le_nat_alt)
qed

end
