(* ===== verification/KCP_Receiving.thy ===== *)
theory KCP_Receiving
  imports KCP_Segment KCP_RoundTrip Buf_MultiBuffer
begin

text \<open>
  \<^verbatim>\<open>transport/internet/kcp/receiving.go\<close>: the receiving window, the list of acknowledgements
  still to be sent and the receiving worker. The connection the worker refers to appears as
  arguments: its conversation number, its state and its time-out; what the worker writes to the
  connection's output is answered as a list of segments.
\<close>

section \<open>The receiving window\<close>

type_synonym ReceivingWindow = "u32 \<rightharpoonup> DataSegment"

definition NewReceivingWindow :: ReceivingWindow where
  "NewReceivingWindow = Map.empty"

definition ReceivingWindow_Set :: "ReceivingWindow \<Rightarrow> u32 \<Rightarrow> DataSegment \<Rightarrow> bool \<times> ReceivingWindow" where
  "ReceivingWindow_Set w i val = (case w i of Some _ \<Rightarrow> (False, w) | None \<Rightarrow> (True, w(i \<mapsto> val)))"

definition ReceivingWindow_Has :: "ReceivingWindow \<Rightarrow> u32 \<Rightarrow> bool" where
  "ReceivingWindow_Has w i \<longleftrightarrow> w i \<noteq> None"

definition ReceivingWindow_Remove :: "ReceivingWindow \<Rightarrow> u32 \<Rightarrow> DataSegment option \<times> ReceivingWindow" where
  "ReceivingWindow_Remove w i = (case w i of None \<Rightarrow> (None, w) | Some v \<Rightarrow> (Some v, w(i := None)))"

section \<open>Pending acknowledgements\<close>

record AckList =
  al_timestamps :: "u32 list"
  al_numbers :: "u32 list"
  al_nextFlush :: "u32 list"
  al_flushCandidates :: "u32 list"
  al_dirty :: bool

definition NewAckList :: AckList where
  "NewAckList = \<lparr>al_timestamps = [], al_numbers = [], al_nextFlush = [], al_flushCandidates = [], al_dirty = False\<rparr>"

definition AckList_Add :: "u32 \<Rightarrow> u32 \<Rightarrow> AckList \<Rightarrow> AckList" where
  "AckList_Add number timestamp l =
     l\<lparr>al_timestamps := al_timestamps l @ [timestamp], al_numbers := al_numbers l @ [number],
       al_nextFlush := al_nextFlush l @ [0], al_dirty := True\<rparr>"

text \<open>The compaction loop of \<^verbatim>\<open>Clear\<close>: what is kept of the three parallel slices.\<close>

fun clear_loop :: "u32 \<Rightarrow> u32 list \<Rightarrow> u32 list \<Rightarrow> u32 list \<Rightarrow> u32 list \<times> u32 list \<times> u32 list" where
  "clear_loop una (n # ns) (t # ts) (f # fs) =
     (let (ns', ts', fs') = clear_loop una ns ts fs
      in if n < una then (ns', ts', fs') else (n # ns', t # ts', f # fs'))"
| "clear_loop una _ _ _ = ([], [], [])"

definition AckList_Clear :: "u32 \<Rightarrow> AckList \<Rightarrow> AckList" where
  "AckList_Clear una l =
     (let (ns, ts, fs) = clear_loop una (al_numbers l) (al_timestamps l) (al_nextFlush l)
      in if length ns < length (al_numbers l)
         then l\<lparr>al_numbers := ns, al_timestamps := ts, al_nextFlush := fs, al_dirty := True\<rparr>
         else l)"

text \<open>
  The first loop of \<^verbatim>\<open>Flush\<close>: the list after it (next flush times), the segment under
  construction, the candidates (the slice has a capacity of 128), whether the list is still
  dirty, and the segments handed to the writer.
\<close>

fun flush_loop ::
  "u32 \<Rightarrow> u32 \<Rightarrow> u32 list \<Rightarrow> u32 list \<Rightarrow> u32 list \<Rightarrow> AckSegment \<Rightarrow> u32 list \<Rightarrow> bool \<Rightarrow>
   u32 list \<times> AckSegment \<times> u32 list \<times> bool \<times> AckSegment list" where
  "flush_loop current rto (n # ns) (t # ts) (f # fs) seg cand dirty =
     (if f > current then
        (case flush_loop current rto ns ts fs seg (if length cand < 128 then cand @ [n] else cand) dirty of
           (fs', r) \<Rightarrow> (f # fs', r))
      else
        (let seg' = AckSegment_PutTimestamp (AckSegment_PutNumber seg n) t;
             timeout = (if rto div 2 < 20 then 20 else rto div 2)
         in if AckSegment_IsFull seg'
            then (case flush_loop current rto ns ts fs NewAckSegment cand False of
                    (fs', s, c, d, out) \<Rightarrow> ((current + timeout) # fs', s, c, d, seg' # out))
            else (case flush_loop current rto ns ts fs seg' cand dirty of
                    (fs', r) \<Rightarrow> ((current + timeout) # fs', r))))"
| "flush_loop current rto _ _ _ seg cand dirty = ([], seg, cand, dirty, [])"

fun add_candidates :: "AckSegment \<Rightarrow> u32 list \<Rightarrow> AckSegment" where
  "add_candidates seg [] = seg"
| "add_candidates seg (n # ns) =
     (if AckSegment_IsFull seg then seg else add_candidates (AckSegment_PutNumber seg n) ns)"

definition AckList_Flush :: "u32 \<Rightarrow> u32 \<Rightarrow> AckList \<Rightarrow> AckSegment list \<times> AckList" where
  "AckList_Flush current rto l =
     (case flush_loop current rto (al_numbers l) (al_timestamps l) (al_nextFlush l) NewAckSegment [] (al_dirty l) of
        (fs, seg, cand, dirty, out) \<Rightarrow>
          (if dirty \<or> \<not> AckSegment_IsEmpty seg
           then (out @ [add_candidates seg cand],
                 l\<lparr>al_nextFlush := fs, al_flushCandidates := cand, al_dirty := False\<rparr>)
           else (out, l\<lparr>al_nextFlush := fs, al_flushCandidates := cand, al_dirty := dirty\<rparr>)))"

section \<open>The receiving worker\<close>

record ReceivingWorker =
  rw_leftOver :: "MultiBuffer option"
  rw_window :: ReceivingWindow
  rw_acklist :: AckList
  rw_nextNumber :: u32
  rw_windowSize :: u32

definition NewReceivingWorker :: "Config \<Rightarrow> ReceivingWorker option" where
  "NewReceivingWorker c =
     map_option (\<lambda>sz. \<lparr>rw_leftOver = None, rw_window = NewReceivingWindow, rw_acklist = NewAckList,
       rw_nextNumber = 0, rw_windowSize = sz\<rparr>) (GetReceivingInFlightSize c)"

definition ReceivingWorker_Release :: "ReceivingWorker \<Rightarrow> ReceivingWorker" where
  "ReceivingWorker_Release w = w\<lparr>rw_leftOver := None\<rparr>"

definition ProcessSendingNext :: "u32 \<Rightarrow> ReceivingWorker \<Rightarrow> ReceivingWorker" where
  "ProcessSendingNext number w = w\<lparr>rw_acklist := AckList_Clear number (rw_acklist w)\<rparr>"

definition ReceivingWorker_ProcessSegment :: "DataSegment \<Rightarrow> ReceivingWorker \<Rightarrow> ReceivingWorker" where
  "ReceivingWorker_ProcessSegment seg w =
     (if ds_Number seg - rw_nextNumber w \<ge> rw_windowSize w then w
      else
        w\<lparr>rw_acklist := AckList_Add (ds_Number seg) (ds_Timestamp seg)
                          (AckList_Clear (ds_SendingNext seg) (rw_acklist w)),
          rw_window := snd (ReceivingWindow_Set (rw_window w) (ds_Number seg) seg)\<rparr>)"

text \<open>
  The loop of \<^verbatim>\<open>ReadMultiBuffer\<close>; it ends since every round takes a segment out of the window. A
  segment that was parsed always has a payload; a nil one would add a nil buffer, which
  every reader skips.
\<close>

function drain :: "u32 \<Rightarrow> ReceivingWindow \<Rightarrow> MultiBuffer \<times> u32 \<times> ReceivingWindow" where
  "drain next w =
     (case w next of
        None \<Rightarrow> ([], next, w)
      | Some seg \<Rightarrow>
          (case drain (next + 1) (w(next := None)) of
             (mb, r) \<Rightarrow> ((case fst (DataSegment_Detach seg) of None \<Rightarrow> mb | Some b \<Rightarrow> b # mb), r)))"
  by pat_completeness auto
termination
  by (relation "measure (\<lambda>(next, w). card (dom w))") (auto simp: dom_def intro!: psubset_card_mono)

declare drain.simps [simp del]

definition ReceivingWorker_ReadMultiBuffer :: "ReceivingWorker \<Rightarrow> MultiBuffer \<times> ReceivingWorker" where
  "ReceivingWorker_ReadMultiBuffer w =
     (case rw_leftOver w of
        Some mb \<Rightarrow> (mb, w\<lparr>rw_leftOver := None\<rparr>)
      | None \<Rightarrow>
          (case drain (rw_nextNumber w) (rw_window w) of
             (mb, next, win) \<Rightarrow> (mb, w\<lparr>rw_nextNumber := next, rw_window := win\<rparr>)))"

text \<open>\<^verbatim>\<open>Read\<close> into a slice of length \<open>k\<close>: the bytes copied into it.\<close>

definition ReceivingWorker_Read :: "ReceivingWorker \<Rightarrow> nat \<Rightarrow> byte list \<times> ReceivingWorker" where
  "ReceivingWorker_Read w k =
     (case ReceivingWorker_ReadMultiBuffer w of
        (mb, w') \<Rightarrow>
          (if MultiBuffer_IsEmpty mb then ([], w')
           else
             (case SplitBytes mb k of
                (mb', bs) \<Rightarrow> (bs, if MultiBuffer_IsEmpty mb' then w' else w'\<lparr>rw_leftOver := Some mb'\<rparr>))))"

definition IsDataAvailable :: "ReceivingWorker \<Rightarrow> bool" where
  "IsDataAvailable w \<longleftrightarrow> ReceivingWindow_Has (rw_window w) (rw_nextNumber w)"

definition NextNumber :: "ReceivingWorker \<Rightarrow> u32" where
  "NextNumber w = rw_nextNumber w"

definition ReceivingWorker_Write :: "u16 \<Rightarrow> State \<Rightarrow> ReceivingWorker \<Rightarrow> AckSegment \<Rightarrow> AckSegment" where
  "ReceivingWorker_Write conv st w seg =
     seg\<lparr>as_Conv := conv, as_ReceivingNext := rw_nextNumber w,
         as_ReceivingWindow := rw_nextNumber w + rw_windowSize w,
         as_Option := (if st = StateReadyToClose then SegmentOptionClose else 0)\<rparr>"

definition ReceivingWorker_Flush ::
  "u16 \<Rightarrow> State \<Rightarrow> u32 \<Rightarrow> u32 \<Rightarrow> ReceivingWorker \<Rightarrow> AckSegment list \<times> ReceivingWorker" where
  "ReceivingWorker_Flush conv st rto current w =
     (case AckList_Flush current rto (rw_acklist w) of
        (segs, l) \<Rightarrow> (map (ReceivingWorker_Write conv st w) segs, w\<lparr>rw_acklist := l\<rparr>))"

definition CloseRead :: "ReceivingWorker \<Rightarrow> ReceivingWorker" where
  "CloseRead w = w"

definition ReceivingWorker_UpdateNecessary :: "ReceivingWorker \<Rightarrow> bool" where
  "ReceivingWorker_UpdateNecessary w \<longleftrightarrow> length (al_numbers (rw_acklist w)) > 0"

section \<open>Invariants\<close>

lemma unat_diff_u32:
  "unat (a - b :: u32) = (if unat b \<le> unat a then unat a - unat b else unat a + 4294967296 - unat b)"
  by (auto simp: unat_sub_if_size word_size word_le_nat_alt)

definition left_bytes :: "ReceivingWorker \<Rightarrow> byte list" where
  "left_bytes w = (case rw_leftOver w of None \<Rightarrow> [] | Some mb \<Rightarrow> mb_content mb)"

definition cache_ok :: "(nat \<Rightarrow> byte list) \<Rightarrow> nat \<Rightarrow> nat \<Rightarrow> nat \<Rightarrow> ReceivingWindow \<Rightarrow> bool" where
  "cache_ok stream N lo hi win \<longleftrightarrow>
     (\<forall>k seg. win k = Some seg \<longrightarrow> genuine stream N seg \<and> ds_Number seg = k \<and> lo \<le> unat k \<and> unat k < hi)"

definition rw_wf :: "(nat \<Rightarrow> byte list) \<Rightarrow> nat \<Rightarrow> ReceivingWorker \<Rightarrow> bool" where
  "rw_wf stream N w \<longleftrightarrow>
     N + unat (rw_windowSize w) \<le> 4294967296 \<and> 0 < unat (rw_windowSize w) \<and> unat (rw_nextNumber w) \<le> N \<and>
     cache_ok stream N (unat (rw_nextNumber w)) (unat (rw_nextNumber w) + unat (rw_windowSize w)) (rw_window w) \<and>
     (case rw_leftOver w of None \<Rightarrow> True | Some mb \<Rightarrow> mb_wf mb)"

lemma cache_ok_remove:
  assumes "cache_ok stream N (unat k) hi win" "unat (k + 1) = unat k + 1"
  shows "cache_ok stream N (unat (k + 1)) hi (win(k := None))"
  unfolding cache_ok_def
proof (intro allI impI)
  fix i seg
  assume "(win(k := None)) i = Some seg"
  then have i: "i \<noteq> k" "win i = Some seg" by (auto split: if_splits)
  then have "unat k \<le> unat i" "genuine stream N seg" "ds_Number seg = i" "unat i < hi"
    using assms(1) by (auto simp: cache_ok_def)
  moreover from i(1) have "unat i \<noteq> unat k" by (simp add: word_unat_eq_iff)
  ultimately show "genuine stream N seg \<and> ds_Number seg = i \<and> unat (k + 1) \<le> unat i \<and> unat i < hi"
    using assms(2) by simp
qed

lemma drain_spec:
  assumes "cache_ok stream N (unat k) hi win" "N < 4294967296" "drain k win = (mb, k', win')"
  shows "mb_wf mb \<and> unat k \<le> unat k' \<and> (unat k' \<le> N \<or> k' = k) \<and> win' k' = None \<and>
    mb_content mb = concat (map stream [unat k..<unat k']) \<and>
    cache_ok stream N (unat k') hi win' \<and>
    win' = (\<lambda>i. if unat k \<le> unat i \<and> unat i < unat k' then None else win i) \<and>
    (\<forall>i. unat k \<le> unat i \<and> unat i < unat k' \<longrightarrow> win i \<noteq> None)"
  using assms
proof (induction k win arbitrary: mb k' win' rule: drain.induct)
  case (1 k win)
  show ?case
  proof (cases "win k")
    case None
    with "1.prems" show ?thesis by (auto simp: drain.simps [of k win] fun_eq_iff)
  next
    case (Some seg)
    obtain mb1 where r: "drain (k + 1) (win(k := None)) = (mb1, k', win')"
      and mb: "mb = (case ds_payload seg of None \<Rightarrow> mb1 | Some b \<Rightarrow> b # mb1)"
      using "1.prems"(3) Some
      by (auto simp: drain.simps [of k win] DataSegment_Detach_def split: prod.splits)
    have g: "genuine stream N seg" "ds_Number seg = k" using "1.prems"(1) Some by (auto simp: cache_ok_def)
    then obtain b where b: "ds_payload seg = Some b" "buffer_wf b" "content b = stream (unat k)"
      and kN: "unat k < N" by (auto simp: genuine_def)
    have k1: "unat (k + 1) = unat k + 1" using kN "1.prems"(2) by (simp add: unat_word_ariths)
    have IH: "mb_wf mb1" "unat (k + 1) \<le> unat k'" "unat k' \<le> N \<or> k' = k + 1" "win' k' = None"
      "mb_content mb1 = concat (map stream [unat (k + 1)..<unat k'])" "cache_ok stream N (unat k') hi win'"
      "win' = (\<lambda>i. if unat (k + 1) \<le> unat i \<and> unat i < unat k' then None else (win(k := None)) i)"
      "\<forall>i. unat (k + 1) \<le> unat i \<and> unat i < unat k' \<longrightarrow> (win(k := None)) i \<noteq> None"
      using "1.IH" [OF Some cache_ok_remove [OF "1.prems"(1) k1] "1.prems"(2) r] by blast+
    have i: "i = k \<or> unat k + 1 \<le> unat i" if "unat k \<le> unat i" for i :: u32
      using that by (metis Suc_eq_plus1 not_less_eq_eq order_antisym word_unat_eq_iff)
    have u: "[unat k..<unat k'] = unat k # [unat (k + 1)..<unat k']"
      using IH(2) k1 by (simp add: upt_conv_Cons)
    have "win' = (\<lambda>i. if unat k \<le> unat i \<and> unat i < unat k' then None else win i)"
      using IH(2) k1 i by (subst IH(7)) (auto simp: fun_eq_iff)
    moreover have "\<forall>i. unat k \<le> unat i \<and> unat i < unat k' \<longrightarrow> win i \<noteq> None"
    proof (intro allI impI)
      fix j :: u32 assume "unat k \<le> unat j \<and> unat j < unat k'"
      with i [of j] IH(8) [rule_format, of j] Some k1 show "win j \<noteq> None" by (auto split: if_splits)
    qed
    moreover have "unat k' \<le> N" using IH(3) kN k1 by auto
    ultimately show ?thesis using IH(1,2,4,5,6) k1 b mb u by auto
  qed
qed

lemma rw_wf_N: "rw_wf stream N w \<Longrightarrow> N < 4294967296"
  by (auto simp: rw_wf_def)

lemma cache_ok_mono: "cache_ok stream N lo hi win \<Longrightarrow> hi \<le> hi' \<Longrightarrow> cache_ok stream N lo hi' win"
  by (fastforce simp: cache_ok_def)

text \<open>Everything between two values of the next number, handed on in order.\<close>

abbreviation between :: "(nat \<Rightarrow> byte list) \<Rightarrow> ReceivingWorker \<Rightarrow> ReceivingWorker \<Rightarrow> byte list" where
  "between stream w w' \<equiv> concat (map stream [unat (rw_nextNumber w)..<unat (rw_nextNumber w')])"

lemma ReadMultiBuffer_spec:
  assumes "rw_wf stream N w" "ReceivingWorker_ReadMultiBuffer w = (mb, w')"
  shows "rw_wf stream N w' \<and> mb_wf mb \<and> unat (rw_nextNumber w) \<le> unat (rw_nextNumber w') \<and>
    left_bytes w @ between stream w w' = mb_content mb \<and> rw_leftOver w' = None \<and>
    rw_acklist w' = rw_acklist w \<and> rw_windowSize w' = rw_windowSize w \<and>
    (\<forall>i. unat (rw_nextNumber w') \<le> unat i \<longrightarrow> rw_window w' i = rw_window w i)"
proof (cases "rw_leftOver w")
  case (Some l)
  with assms show ?thesis
    by (auto simp: ReceivingWorker_ReadMultiBuffer_def rw_wf_def left_bytes_def)
next
  case None
  obtain k' win' where d: "drain (rw_nextNumber w) (rw_window w) = (mb, k', win')"
    and w': "w' = w\<lparr>rw_nextNumber := k', rw_window := win'\<rparr>"
    using assms(2) None by (auto simp: ReceivingWorker_ReadMultiBuffer_def split: prod.splits)
  have s: "mb_wf mb" "unat (rw_nextNumber w) \<le> unat k'" "unat k' \<le> N \<or> k' = rw_nextNumber w"
    "mb_content mb = concat (map stream [unat (rw_nextNumber w)..<unat k'])"
    "cache_ok stream N (unat k') (unat (rw_nextNumber w) + unat (rw_windowSize w)) win'"
    "win' = (\<lambda>i. if unat (rw_nextNumber w) \<le> unat i \<and> unat i < unat k' then None else rw_window w i)"
    using drain_spec [OF _ rw_wf_N [OF assms(1)] d] assms(1) by (auto simp: rw_wf_def)
  have "cache_ok stream N (unat k') (unat k' + unat (rw_windowSize w)) win'"
    using cache_ok_mono [OF s(5)] s(2) by simp
  with None w' s assms(1) show ?thesis
    by (auto simp: rw_wf_def left_bytes_def)
qed

lemma Read_spec:
  assumes "rw_wf stream N w" "ReceivingWorker_Read w k = (bs, w')"
  shows "rw_wf stream N w' \<and> unat (rw_nextNumber w) \<le> unat (rw_nextNumber w') \<and>
    left_bytes w @ between stream w w' = bs @ left_bytes w' \<and> length bs \<le> k \<and>
    rw_acklist w' = rw_acklist w \<and> rw_windowSize w' = rw_windowSize w \<and>
    (\<forall>i. unat (rw_nextNumber w') \<le> unat i \<longrightarrow> rw_window w' i = rw_window w i)"
proof -
  obtain mb w1 where r: "ReceivingWorker_ReadMultiBuffer w = (mb, w1)"
    by (cases "ReceivingWorker_ReadMultiBuffer w")
  have s: "rw_wf stream N w1" "mb_wf mb" "unat (rw_nextNumber w) \<le> unat (rw_nextNumber w1)"
    "left_bytes w @ between stream w w1 = mb_content mb" "rw_leftOver w1 = None"
    "rw_acklist w1 = rw_acklist w" "rw_windowSize w1 = rw_windowSize w"
    "\<forall>i. unat (rw_nextNumber w1) \<le> unat i \<longrightarrow> rw_window w1 i = rw_window w i"
    using ReadMultiBuffer_spec [OF assms(1) r] by blast+
  obtain mb' cs where sp: "SplitBytes mb k = (mb', cs)" by (cases "SplitBytes mb k")
  have c: "mb_wf mb'" "cs = take k (mb_content mb)" "mb_content mb' = drop k (mb_content mb)"
    using SplitBytes_spec [OF s(2) sp] by blast+
  show ?thesis
  proof (cases "MultiBuffer_IsEmpty mb")
    case True
    with r assms(2) have "w' = w1" "bs = []" by (simp_all add: ReceivingWorker_Read_def)
    with True s show ?thesis by (simp add: MultiBuffer_IsEmpty_content left_bytes_def)
  next
    case False
    with r assms(2) sp have w': "bs = cs" "w' = (if MultiBuffer_IsEmpty mb' then w1 else w1\<lparr>rw_leftOver := Some mb'\<rparr>)"
      by (simp_all add: ReceivingWorker_Read_def)
    show ?thesis
    proof (cases "MultiBuffer_IsEmpty mb'")
      case True
      then have "mb_content mb' = []" using c(1) by (simp add: MultiBuffer_IsEmpty_content)
      with True w' s c show ?thesis by (simp add: left_bytes_def)
    next
      case False
      with w' s c show ?thesis by (simp add: left_bytes_def rw_wf_def)
    qed
  qed
qed

section \<open>Acknowledgements\<close>

definition al_wf :: "AckList \<Rightarrow> bool" where
  "al_wf l \<longleftrightarrow> length (al_timestamps l) = length (al_numbers l) \<and> length (al_nextFlush l) = length (al_numbers l)"

lemma clear_loop_spec:
  "length ts = length ns \<Longrightarrow> length fs = length ns \<Longrightarrow>
   \<exists>ts' fs'. clear_loop una ns ts fs = (filter (\<lambda>n. \<not> n < una) ns, ts', fs') \<and>
     length ts' = length (filter (\<lambda>n. \<not> n < una) ns) \<and> length fs' = length (filter (\<lambda>n. \<not> n < una) ns)"
proof (induction ns arbitrary: ts fs)
  case (Cons n ns)
  then obtain t ts1 f fs1 where [simp]: "ts = t # ts1" "fs = f # fs1"
    by (metis length_Suc_conv)
  obtain ts' fs' where "clear_loop una ns ts1 fs1 = (filter (\<lambda>n. \<not> n < una) ns, ts', fs')"
    "length ts' = length (filter (\<lambda>n. \<not> n < una) ns)" "length fs' = length (filter (\<lambda>n. \<not> n < una) ns)"
    using Cons.IH [of ts1 fs1] Cons.prems by auto
  then show ?case by simp
qed simp

lemma AckList_Clear_spec:
  assumes "al_wf l"
  shows "al_wf (AckList_Clear una l)"
    and "al_numbers (AckList_Clear una l) = filter (\<lambda>n. \<not> n < una) (al_numbers l)"
proof -
  obtain ts' fs' where c: "clear_loop una (al_numbers l) (al_timestamps l) (al_nextFlush l) =
      (filter (\<lambda>n. \<not> n < una) (al_numbers l), ts', fs')"
    "length ts' = length (filter (\<lambda>n. \<not> n < una) (al_numbers l))"
    "length fs' = length (filter (\<lambda>n. \<not> n < una) (al_numbers l))"
    using clear_loop_spec [of "al_timestamps l" "al_numbers l" "al_nextFlush l" una] assms
    by (auto simp: al_wf_def)
  then show "al_wf (AckList_Clear una l)" using assms by (simp add: AckList_Clear_def al_wf_def)
  have "filter P xs = xs" if "\<not> length (filter P xs) < length xs" for P and xs :: "u32 list"
    using that by (metis length_filter_less filter_True)
  then have "\<not> length (filter (\<lambda>n. \<not> n < una) (al_numbers l)) < length (al_numbers l) \<longrightarrow>
      al_numbers l = filter (\<lambda>n. \<not> n < una) (al_numbers l)" by metis
  with c show "al_numbers (AckList_Clear una l) = filter (\<lambda>n. \<not> n < una) (al_numbers l)"
    by (simp add: AckList_Clear_def)
qed

lemma AckList_Add_spec:
  "al_wf l \<Longrightarrow> al_wf (AckList_Add n t l)" "al_numbers (AckList_Add n t l) = al_numbers l @ [n]"
  by (simp_all add: AckList_Add_def al_wf_def)

lemma AckSegment_simps [simp]:
  "as_NumberList (AckSegment_PutNumber s n) = as_NumberList s @ [n]"
  "as_NumberList (AckSegment_PutTimestamp s t) = as_NumberList s"
  "as_NumberList NewAckSegment = []"
  by (simp_all add: AckSegment_PutNumber_def AckSegment_PutTimestamp_def NewAckSegment_def)

text \<open>The numbers that are due, and those that are not, in the order of the list.\<close>

abbreviation due :: "u32 \<Rightarrow> u32 list \<Rightarrow> u32 list \<Rightarrow> u32 list" where
  "due current ns fs \<equiv> map fst (filter (\<lambda>(n, f). f \<le> current) (zip ns fs))"

abbreviation waiting :: "u32 \<Rightarrow> u32 list \<Rightarrow> u32 list \<Rightarrow> u32 list" where
  "waiting current ns fs \<equiv> map fst (filter (\<lambda>(n, f). f > current) (zip ns fs))"

lemma flush_loop_spec:
  "length ts = length ns \<Longrightarrow> length fs = length ns \<Longrightarrow> length (as_NumberList seg) < 128 \<Longrightarrow>
   length cand \<le> 128 \<Longrightarrow>
   flush_loop current rto ns ts fs seg cand dirty = (fs', seg', cand', dirty', out) \<Longrightarrow>
   length fs' = length ns \<and> length (as_NumberList seg') < 128 \<and> length cand' \<le> 128 \<and>
   (\<forall>s\<in>set out. length (as_NumberList s) = 128) \<and>
   concat (map as_NumberList out) @ as_NumberList seg' = as_NumberList seg @ due current ns fs \<and>
   cand' = cand @ take (128 - length cand) (waiting current ns fs) \<and> dirty' = (dirty \<and> out = [])"
proof (induction ns arbitrary: ts fs seg cand dirty fs' seg' cand' dirty' out)
  case (Cons n ns)
  then obtain t ts1 f fs1 where [simp]: "ts = t # ts1" "fs = f # fs1"
    by (metis length_Suc_conv)
  note prems = Cons.prems(5) [simplified]
  have len: "length ts1 = length ns" "length fs1 = length ns" using Cons.prems by simp_all
  show ?case
  proof (cases "f > current")
    case True
    let ?cand = "if length cand < 128 then cand @ [n] else cand"
    obtain fs2 where r: "flush_loop current rto ns ts1 fs1 seg ?cand dirty = (fs2, seg', cand', dirty', out)"
      and fs': "fs' = f # fs2"
      using prems True by (auto split: prod.splits)
    have "length ?cand \<le> 128" using Cons.prems(4) by simp
    from Cons.IH [OF len Cons.prems(3) this r] True fs' Cons.prems(4) show ?thesis
      by (auto simp: take_Cons')
  next
    case False
    let ?seg = "AckSegment_PutTimestamp (AckSegment_PutNumber seg n) t"
    show ?thesis
    proof (cases "AckSegment_IsFull ?seg")
      case True
      obtain fs2 out2 x where r: "flush_loop current rto ns ts1 fs1 NewAckSegment cand False =
          (fs2, seg', cand', dirty', out2)"
        and fs': "fs' = x # fs2" "out = ?seg # out2"
        using prems False True by (auto simp: Let_def split: prod.splits)
      have "length (as_NumberList NewAckSegment) < 128" by simp
      from Cons.IH [OF len this Cons.prems(4) r] True False fs' show ?thesis
        by (auto simp: AckSegment_IsFull_def ackNumberLimit_def not_less)
    next
      case nf: False
      obtain fs2 x where r: "flush_loop current rto ns ts1 fs1 ?seg cand dirty = (fs2, seg', cand', dirty', out)"
        and fs': "fs' = x # fs2"
        using prems False nf by (auto simp: Let_def split: prod.splits)
      have "length (as_NumberList ?seg) < 128"
        using nf Cons.prems(3) by (simp add: AckSegment_IsFull_def ackNumberLimit_def)
      from Cons.IH [OF len this Cons.prems(4) r] False fs' show ?thesis by (auto simp: not_less)
    qed
  qed
qed simp

lemma add_candidates_spec:
  "length (as_NumberList seg) \<le> 128 \<Longrightarrow>
   as_NumberList (add_candidates seg ns) = as_NumberList seg @ take (128 - length (as_NumberList seg)) ns"
proof (induction ns arbitrary: seg)
  case (Cons n ns)
  show ?case
  proof (cases "AckSegment_IsFull seg")
    case True
    then show ?thesis by (simp add: AckSegment_IsFull_def ackNumberLimit_def)
  next
    case False
    with Cons.prems have "length (as_NumberList seg) < 128"
      by (simp add: AckSegment_IsFull_def ackNumberLimit_def)
    with False Cons.IH [of "AckSegment_PutNumber seg n"] show ?thesis
      by (simp add: take_Cons')
  qed
qed simp

lemma AckList_Flush_spec:
  assumes "al_wf l" "AckList_Flush current rto l = (segs, l')"
  shows "al_wf l' \<and> al_numbers l' = al_numbers l \<and> \<not> al_dirty l' \<and>
    (\<forall>s\<in>set segs. length (as_NumberList s) \<le> 128) \<and> (al_dirty l \<longrightarrow> segs \<noteq> []) \<and>
    (\<exists>extra. concat (map as_NumberList segs) = due current (al_numbers l) (al_nextFlush l) @ extra \<and>
       set extra \<subseteq> set (waiting current (al_numbers l) (al_nextFlush l)))"
proof -
  obtain fs seg cand dirty out where f: "flush_loop current rto (al_numbers l) (al_timestamps l)
      (al_nextFlush l) NewAckSegment [] (al_dirty l) = (fs, seg, cand, dirty, out)"
    by (metis prod_cases5)
  have s: "length fs = length (al_numbers l)" "length (as_NumberList seg) < 128" "length cand \<le> 128"
    "\<forall>s\<in>set out. length (as_NumberList s) = 128"
    "concat (map as_NumberList out) @ as_NumberList seg = due current (al_numbers l) (al_nextFlush l)"
    "cand = take 128 (waiting current (al_numbers l) (al_nextFlush l))" "dirty = (al_dirty l \<and> out = [])"
    using flush_loop_spec [OF _ _ _ _ f] assms(1) by (simp_all add: al_wf_def)
  have cs: "set cand \<subseteq> set (waiting current (al_numbers l) (al_nextFlush l))"
    unfolding s(6) by (rule set_take_subset)
  show ?thesis
  proof (cases "dirty \<or> \<not> AckSegment_IsEmpty seg")
    case True
    then have l': "segs = out @ [add_candidates seg cand]"
      "l' = l\<lparr>al_nextFlush := fs, al_flushCandidates := cand, al_dirty := False\<rparr>"
      using assms(2) f by (auto simp: AckList_Flush_def)
    have "concat (map as_NumberList segs) = due current (al_numbers l) (al_nextFlush l) @
        take (128 - length (as_NumberList seg)) cand"
      using l'(1) s(2,5) by (simp add: add_candidates_spec flip: append_assoc)
    moreover have "set (take (128 - length (as_NumberList seg)) cand) \<subseteq>
        set (waiting current (al_numbers l) (al_nextFlush l))"
      using cs set_take_subset [of "128 - length (as_NumberList seg)" cand] by blast
    moreover have "length (as_NumberList (add_candidates seg cand)) \<le> 128"
      using s(2) by (simp add: add_candidates_spec)
    then have "\<forall>s\<in>set segs. length (as_NumberList s) \<le> 128"
      using l'(1) s(4) by auto
    ultimately show ?thesis using l' s(1) assms(1) by (auto simp: al_wf_def)
  next
    case False
    then have l': "segs = out" "l' = l\<lparr>al_nextFlush := fs, al_flushCandidates := cand, al_dirty := dirty\<rparr>"
      and e: "as_NumberList seg = []" "\<not> dirty"
      using assms(2) f by (auto simp: AckList_Flush_def AckSegment_IsEmpty_def)
    have "concat (map as_NumberList segs) = due current (al_numbers l) (al_nextFlush l) @ []"
      using l'(1) s(5) e(1) by simp
    moreover have "\<forall>s\<in>set segs. length (as_NumberList s) \<le> 128" using l'(1) s(4) by auto
    ultimately show ?thesis using l' s(1,7) e assms(1) by (auto simp: al_wf_def)
  qed
qed

section \<open>The worker as a whole\<close>

text \<open>A number is received when it was handed on or waits in the window.\<close>

definition received :: "ReceivingWorker \<Rightarrow> u32 \<Rightarrow> bool" where
  "received w n \<longleftrightarrow> unat n < unat (rw_nextNumber w) \<or> rw_window w n \<noteq> None"

definition rw_inv :: "(nat \<Rightarrow> byte list) \<Rightarrow> nat \<Rightarrow> ReceivingWorker \<Rightarrow> bool" where
  "rw_inv stream N w \<longleftrightarrow> rw_wf stream N w \<and> al_wf (rw_acklist w) \<and>
     (\<forall>n\<in>set (al_numbers (rw_acklist w)). received w n)"

lemma received_mono:
  assumes "unat (rw_nextNumber w) \<le> unat (rw_nextNumber w')"
    and "\<forall>i. unat (rw_nextNumber w') \<le> unat i \<longrightarrow> rw_window w' i = rw_window w i"
  shows "received w k \<Longrightarrow> received w' k"
  using assms by (cases "unat k < unat (rw_nextNumber w')") (auto simp: received_def)

lemma NewReceivingWorker_inv:
  assumes "NewReceivingWorker c = Some w" "N + unat (rw_windowSize w) \<le> 4294967296"
  shows "rw_inv stream N w" "left_bytes w = []" "rw_nextNumber w = 0"
proof -
  obtain sz where w: "GetReceivingInFlightSize c = Some sz"
    "w = \<lparr>rw_leftOver = None, rw_window = NewReceivingWindow, rw_acklist = NewAckList,
       rw_nextNumber = 0, rw_windowSize = sz\<rparr>"
    using assms(1) by (auto simp: NewReceivingWorker_def)
  have "8 \<le> sz" using w(1) in_flight_size_Some by (auto simp: GetReceivingInFlightSize_def)
  then have "0 < unat sz" by (simp add: word_le_nat_alt)
  with w(2) assms(2) show "rw_inv stream N w" "left_bytes w = []" "rw_nextNumber w = 0"
    by (simp_all add: rw_inv_def rw_wf_def cache_ok_def NewReceivingWindow_def al_wf_def NewAckList_def left_bytes_def)
qed

lemma window_accepts:
  assumes "rw_wf stream N w" "unat n < N" "\<not> n - rw_nextNumber w \<ge> rw_windowSize w"
  shows "unat (rw_nextNumber w) \<le> unat n \<and> unat n < unat (rw_nextNumber w) + unat (rw_windowSize w)"
proof (cases "unat (rw_nextNumber w) \<le> unat n")
  case True
  then show ?thesis using assms(3) by (simp add: word_le_nat_alt unat_diff_u32 not_le)
next
  case False
  then have "unat (n - rw_nextNumber w) = unat n + 4294967296 - unat (rw_nextNumber w)"
    by (simp add: unat_diff_u32)
  moreover have "unat (rw_nextNumber w) \<le> N" "N + unat (rw_windowSize w) \<le> 4294967296"
    using assms(1) by (simp_all add: rw_wf_def)
  ultimately have "unat (rw_windowSize w) \<le> unat (n - rw_nextNumber w)" using False by linarith
  with assms(3) show ?thesis by (simp add: word_le_nat_alt)
qed

lemma ProcessSegment_inv:
  assumes "rw_inv stream N w" "genuine stream N seg"
  defines "w' \<equiv> ReceivingWorker_ProcessSegment seg w"
  shows "rw_inv stream N w' \<and> rw_nextNumber w' = rw_nextNumber w \<and> left_bytes w' = left_bytes w \<and>
    rw_windowSize w' = rw_windowSize w \<and> (\<forall>k. received w k \<longrightarrow> received w' k)"
proof (cases "ds_Number seg - rw_nextNumber w \<ge> rw_windowSize w")
  case True
  with assms show ?thesis by (simp add: ReceivingWorker_ProcessSegment_def)
next
  case False
  let ?n = "ds_Number seg" and ?l = "AckList_Clear (ds_SendingNext seg) (rw_acklist w)"
  let ?win = "snd (ReceivingWindow_Set (rw_window w) ?n seg)"
  have w': "w' = w\<lparr>rw_acklist := AckList_Add ?n (ds_Timestamp seg) ?l, rw_window := ?win\<rparr>"
    using False by (simp add: w'_def ReceivingWorker_ProcessSegment_def)
  have wf: "rw_wf stream N w" and al: "al_wf (rw_acklist w)"
    and rc: "\<forall>n\<in>set (al_numbers (rw_acklist w)). received w n"
    using assms(1) by (simp_all add: rw_inv_def)
  have n: "unat (rw_nextNumber w) \<le> unat ?n \<and> unat ?n < unat (rw_nextNumber w) + unat (rw_windowSize w)"
    using window_accepts [OF wf _ False] assms(2) by (simp add: genuine_def)
  have win: "?win = (if rw_window w ?n = None then (rw_window w)(?n \<mapsto> seg) else rw_window w)"
    by (simp add: ReceivingWindow_Set_def split: option.splits)
  have "rw_wf stream N w'"
    using wf n assms(2) by (auto simp: rw_wf_def w' win cache_ok_def)
  moreover have mono: "received w k \<Longrightarrow> received w' k" for k
    by (auto simp: received_def w' win)
  moreover have "received w' ?n" by (auto simp: received_def w' win)
  then have "\<forall>n\<in>set (al_numbers (rw_acklist w')). received w' n"
    using rc mono by (auto simp: w' AckList_Add_spec AckList_Clear_spec [OF al])
  moreover have "al_wf (rw_acklist w')"
    by (simp add: w' AckList_Add_spec AckList_Clear_spec [OF al])
  ultimately show ?thesis by (simp add: rw_inv_def w' left_bytes_def)
qed

lemma ProcessSegment_received:
  assumes "rw_inv stream N w" "genuine stream N seg"
    and "unat (ds_Number seg) < unat (rw_nextNumber w) + unat (rw_windowSize w)"
  shows "received (ReceivingWorker_ProcessSegment seg w) (ds_Number seg)"
proof (cases "unat (ds_Number seg) < unat (rw_nextNumber w)")
  case True
  then have "received w (ds_Number seg)" by (simp add: received_def)
  then show ?thesis using ProcessSegment_inv [OF assms(1,2)] by blast
next
  case False
  with assms(3) have "\<not> ds_Number seg - rw_nextNumber w \<ge> rw_windowSize w"
    by (simp add: word_le_nat_alt unat_diff_u32)
  then show ?thesis
    by (auto simp: ReceivingWorker_ProcessSegment_def received_def ReceivingWindow_Set_def split: option.splits)
qed

lemma ProcessSendingNext_inv:
  fixes n :: u32
  assumes "rw_inv stream N w"
  defines "w' \<equiv> ProcessSendingNext n w"
  shows "rw_inv stream N w' \<and> rw_nextNumber w' = rw_nextNumber w \<and> left_bytes w' = left_bytes w \<and>
    rw_windowSize w' = rw_windowSize w \<and> (\<forall>k. received w k \<longrightarrow> received w' k)"
  using assms by (auto simp: rw_inv_def rw_wf_def ProcessSendingNext_def received_def left_bytes_def AckList_Clear_spec)

lemma ReceivingWorker_Flush_inv:
  assumes "rw_inv stream N w" "ReceivingWorker_Flush conv st rto current w = (segs, w')"
  shows "rw_inv stream N w' \<and> rw_nextNumber w' = rw_nextNumber w \<and> left_bytes w' = left_bytes w \<and>
    rw_windowSize w' = rw_windowSize w \<and> (\<forall>k. received w k \<longrightarrow> received w' k) \<and>
    (\<forall>s\<in>set segs. as_ReceivingNext s = rw_nextNumber w \<and>
       (\<forall>n\<in>set (as_NumberList s). received w n))"
proof -
  obtain raw l where f: "AckList_Flush current rto (rw_acklist w) = (raw, l)"
    by (cases "AckList_Flush current rto (rw_acklist w)")
  with assms(2) have w': "segs = map (ReceivingWorker_Write conv st w) raw" "w' = w\<lparr>rw_acklist := l\<rparr>"
    by (simp_all add: ReceivingWorker_Flush_def)
  have al: "al_wf (rw_acklist w)" and rc: "\<forall>n\<in>set (al_numbers (rw_acklist w)). received w n"
    using assms(1) by (simp_all add: rw_inv_def)
  obtain extra where s: "al_wf l" "al_numbers l = al_numbers (rw_acklist w)"
    "concat (map as_NumberList raw) = due current (al_numbers (rw_acklist w)) (al_nextFlush (rw_acklist w)) @ extra"
    "set extra \<subseteq> set (waiting current (al_numbers (rw_acklist w)) (al_nextFlush (rw_acklist w)))"
    using AckList_Flush_spec [OF al f] by blast
  have "set (concat (map as_NumberList raw)) \<subseteq> set (al_numbers (rw_acklist w))"
    unfolding s(3) using s(4) by (auto dest!: set_zip_leftD)
  then have "\<forall>s\<in>set raw. \<forall>n\<in>set (as_NumberList s). received w n" using rc by auto
  moreover have "rw_inv stream N w'"
    using assms(1) s(1,2) by (simp add: rw_inv_def rw_wf_def w' received_def)
  moreover have "\<forall>s\<in>set segs. as_ReceivingNext s = rw_nextNumber w"
    by (simp add: w' ReceivingWorker_Write_def)
  ultimately show ?thesis by (auto simp: w' left_bytes_def received_def ReceivingWorker_Write_def)
qed

lemma ReadMultiBuffer_inv:
  "rw_inv stream N w \<Longrightarrow> ReceivingWorker_ReadMultiBuffer w = (mb, w') \<Longrightarrow> rw_inv stream N w'"
  using ReadMultiBuffer_spec [of stream N w mb w'] received_mono [of w w'] by (auto simp: rw_inv_def)

lemma Read_inv: "rw_inv stream N w \<Longrightarrow> ReceivingWorker_Read w k = (bs, w') \<Longrightarrow> rw_inv stream N w'"
  using Read_spec [of stream N w k bs w'] received_mono [of w w'] by (auto simp: rw_inv_def)

text \<open>What may happen to the worker, and the bytes handed to the application.\<close>

datatype rw_op =
    GotData DataSegment
  | GotSendingNext u32
  | AppReadMultiBuffer
  | AppRead nat
  | SendAcks u16 State u32 u32

fun rw_step :: "rw_op \<Rightarrow> ReceivingWorker \<Rightarrow> byte list \<times> ReceivingWorker" where
  "rw_step (GotData seg) w = ([], ReceivingWorker_ProcessSegment seg w)"
| "rw_step (GotSendingNext n) w = ([], ProcessSendingNext n w)"
| "rw_step AppReadMultiBuffer w = (case ReceivingWorker_ReadMultiBuffer w of (mb, w') \<Rightarrow> (mb_content mb, w'))"
| "rw_step (AppRead k) w = ReceivingWorker_Read w k"
| "rw_step (SendAcks conv st rto current) w = ([], snd (ReceivingWorker_Flush conv st rto current w))"

fun rw_run :: "rw_op list \<Rightarrow> ReceivingWorker \<Rightarrow> byte list \<times> ReceivingWorker" where
  "rw_run [] w = ([], w)"
| "rw_run (op # ops) w =
     (case rw_step op w of (bs, w1) \<Rightarrow> case rw_run ops w1 of (bs', w2) \<Rightarrow> (bs @ bs', w2))"

fun op_ok :: "(nat \<Rightarrow> byte list) \<Rightarrow> nat \<Rightarrow> rw_op \<Rightarrow> bool" where
  "op_ok stream N (GotData seg) = genuine stream N seg"
| "op_ok stream N _ = True"

lemma between_refl: "rw_nextNumber w' = rw_nextNumber w \<Longrightarrow> between stream w w' = []"
  by simp

lemma rw_step_inv:
  assumes "rw_inv stream N w" "op_ok stream N op" "rw_step op w = (bs, w')"
  shows "rw_inv stream N w' \<and> unat (rw_nextNumber w) \<le> unat (rw_nextNumber w') \<and>
    left_bytes w @ between stream w w' = bs @ left_bytes w'"
proof (cases op)
  case (GotData seg)
  with assms ProcessSegment_inv [OF assms(1), of seg] show ?thesis by auto
next
  case (GotSendingNext n)
  with assms ProcessSendingNext_inv [OF assms(1), of n] show ?thesis by auto
next
  case AppReadMultiBuffer
  then obtain mb where r: "ReceivingWorker_ReadMultiBuffer w = (mb, w')" and "bs = mb_content mb"
    using assms(3) by (auto split: prod.splits)
  moreover have "rw_wf stream N w" using assms(1) by (simp add: rw_inv_def)
  ultimately show ?thesis
    using ReadMultiBuffer_spec [OF _ r] ReadMultiBuffer_inv [OF assms(1) r] by (auto simp: left_bytes_def)
next
  case (AppRead k)
  then have r: "ReceivingWorker_Read w k = (bs, w')" using assms(3) by simp
  moreover have "rw_wf stream N w" using assms(1) by (simp add: rw_inv_def)
  ultimately show ?thesis using Read_spec [OF _ r] Read_inv [OF assms(1) r] by auto
next
  case (SendAcks conv st rto current)
  obtain segs w1 where f: "ReceivingWorker_Flush conv st rto current w = (segs, w1)"
    by (cases "ReceivingWorker_Flush conv st rto current w")
  with assms(3) SendAcks ReceivingWorker_Flush_inv [OF assms(1) f] show ?thesis by auto
qed

lemma rw_step_received:
  assumes "rw_inv stream N w" "op_ok stream N op" "rw_step op w = (bs, w')"
  shows "rw_windowSize w' = rw_windowSize w" "received w n \<Longrightarrow> received w' n"
proof -
  have wf: "rw_wf stream N w" using assms(1) by (simp add: rw_inv_def)
  have "rw_windowSize w' = rw_windowSize w \<and> (\<forall>n. received w n \<longrightarrow> received w' n)"
  proof (cases op)
    case (GotData seg)
    with assms ProcessSegment_inv [OF assms(1), of seg] show ?thesis by auto
  next
    case (GotSendingNext n)
    with assms ProcessSendingNext_inv [OF assms(1), of n] show ?thesis by auto
  next
    case AppReadMultiBuffer
    then obtain mb where r: "ReceivingWorker_ReadMultiBuffer w = (mb, w')"
      using assms(3) by (auto split: prod.splits)
    from ReadMultiBuffer_spec [OF wf r] received_mono [of w w'] show ?thesis by auto
  next
    case (AppRead k)
    then have r: "ReceivingWorker_Read w k = (bs, w')" using assms(3) by simp
    from Read_spec [OF wf r] received_mono [of w w'] show ?thesis by auto
  next
    case (SendAcks conv st rto current)
    obtain segs w1 where f: "ReceivingWorker_Flush conv st rto current w = (segs, w1)"
      by (cases "ReceivingWorker_Flush conv st rto current w")
    with assms(3) SendAcks ReceivingWorker_Flush_inv [OF assms(1) f] show ?thesis by auto
  qed
  then show "rw_windowSize w' = rw_windowSize w" "received w n \<Longrightarrow> received w' n" by blast+
qed

lemma between_trans:
  assumes "unat (rw_nextNumber w) \<le> unat (rw_nextNumber w1)" "unat (rw_nextNumber w1) \<le> unat (rw_nextNumber w2)"
  shows "between stream w w1 @ between stream w1 w2 = between stream w w2"
proof -
  have "[unat (rw_nextNumber w)..<unat (rw_nextNumber w2)] =
      [unat (rw_nextNumber w)..<unat (rw_nextNumber w1)] @ [unat (rw_nextNumber w1)..<unat (rw_nextNumber w2)]"
    using assms by (metis le_add_diff_inverse upt_add_eq_append)
  then show ?thesis by simp
qed

lemma rw_run_inv:
  "rw_inv stream N w \<Longrightarrow> list_all (op_ok stream N) ops \<Longrightarrow> rw_run ops w = (bs, w') \<Longrightarrow>
   rw_inv stream N w' \<and> unat (rw_nextNumber w) \<le> unat (rw_nextNumber w') \<and>
   left_bytes w @ between stream w w' = bs @ left_bytes w'"
proof (induction ops arbitrary: w bs)
  case (Cons op ops)
  obtain b1 w1 where s: "rw_step op w = (b1, w1)" by (cases "rw_step op w")
  obtain b2 where r: "rw_run ops w1 = (b2, w')" and bs: "bs = b1 @ b2"
    using Cons.prems(3) s by (auto split: prod.splits)
  have 1: "rw_inv stream N w1" "unat (rw_nextNumber w) \<le> unat (rw_nextNumber w1)"
    "left_bytes w @ between stream w w1 = b1 @ left_bytes w1"
    using rw_step_inv [OF Cons.prems(1) _ s] Cons.prems(2) by auto
  have 2: "rw_inv stream N w'" "unat (rw_nextNumber w1) \<le> unat (rw_nextNumber w')"
    "left_bytes w1 @ between stream w1 w' = b2 @ left_bytes w'"
    using Cons.IH [OF 1(1) _ r] Cons.prems(2) by auto
  have "left_bytes w @ between stream w w' = (left_bytes w @ between stream w w1) @ between stream w1 w'"
    using between_trans [OF 1(2) 2(2), of stream] by (simp add: append_assoc del: map_append)
  also have "\<dots> = b1 @ (left_bytes w1 @ between stream w1 w')" unfolding 1(3) by simp
  also have "\<dots> = bs @ left_bytes w'" unfolding 2(3) bs by simp
  finally show ?case using 2(1,2) 1(2) by auto
qed auto

section \<open>Properties\<close>

text \<open>A small exchange: segments 1, 0 and again 1 arrive, the application reads, acknowledgements go out.\<close>

definition demo_data :: "u32 \<Rightarrow> DataSegment" where
  "demo_data n = NewDataSegment\<lparr>ds_Number := n, ds_Timestamp := 5, ds_payload := Some (FromBytes [ucast n, 7])\<rparr>"

definition demo_stream :: "nat \<Rightarrow> byte list" where
  "demo_stream k = [of_nat k, 7]"

definition demo_receiver :: ReceivingWorker where
  "demo_receiver = \<lparr>rw_leftOver = None, rw_window = NewReceivingWindow, rw_acklist = NewAckList,
     rw_nextNumber = 0, rw_windowSize = 776\<rparr>"

definition demo_ops :: "rw_op list" where
  "demo_ops = [GotData (demo_data 1), GotData (demo_data 0), GotData (demo_data 1), AppRead 3,
     SendAcks 9 StateActive 100 1000]"

lemma demo_receiver_New: "NewReceivingWorker default_config = Some demo_receiver"
  by (simp add: NewReceivingWorker_def default_in_flight demo_receiver_def)

lemma demo_genuine: "n \<in> {0, 1} \<Longrightarrow> genuine demo_stream 2 (demo_data n)"
  by (auto simp: genuine_def demo_data_def demo_stream_def wf_FromBytes content_FromBytes)

lemma demo_ops_ok: "list_all (op_ok demo_stream 2) demo_ops"
  by (simp add: demo_ops_def demo_genuine)

text \<open>
  C21: In-order delivery. Whatever data segments arrive (in any order, repeated, or not at all)
  and however reads and acknowledgements are interleaved with them, the bytes handed to the
  application, followed by what a short read left over, are the payloads 0, 1, 2, ... up to the
  next expected number, each once; and the window only ever holds numbers from the next
  expected one to the window size beyond it.
\<close>

theorem receiver_in_order:
  assumes "NewReceivingWorker c = Some w" "N + unat (rw_windowSize w) \<le> 4294967296"
    and "list_all (op_ok stream N) ops" "rw_run ops w = (bs, w')"
  shows "bs @ left_bytes w' = concat (map stream [0..<unat (rw_nextNumber w')]) \<and>
    unat (rw_nextNumber w') \<le> N \<and>
    (\<forall>n. rw_window w' n \<noteq> None \<longrightarrow> unat (rw_nextNumber w') \<le> unat n \<and>
       unat n < unat (rw_nextNumber w') + unat (rw_windowSize w'))"
proof -
  note n = NewReceivingWorker_inv [OF assms(1,2)]
  have "rw_inv stream N w'" "bs @ left_bytes w' = concat (map stream [0..<unat (rw_nextNumber w')])"
    using rw_run_inv [OF n(1) assms(3,4)] n(2,3) by auto
  then show ?thesis by (auto simp: rw_inv_def rw_wf_def cache_ok_def)
qed

theorem receiver_in_order_witness:
  "case rw_run demo_ops demo_receiver of (bs, w') \<Rightarrow>
     bs @ left_bytes w' = concat (map demo_stream [0..<unat (rw_nextNumber w')])"
proof -
  obtain bs w' where r: "rw_run demo_ops demo_receiver = (bs, w')" by (cases "rw_run demo_ops demo_receiver")
  then show ?thesis
    using receiver_in_order [OF demo_receiver_New _ demo_ops_ok r] by (simp add: demo_receiver_def)
qed

lemma drain_complete:
  assumes "cache_ok stream N (unat k) hi win" "N < 4294967296" "drain k win = (mb, k', win')"
    and "\<forall>i. unat k \<le> unat i \<and> unat i < n \<longrightarrow> win i \<noteq> None"
  shows "n \<le> unat k'"
proof (rule ccontr)
  assume "\<not> n \<le> unat k'"
  moreover have d: "win' k' = None" "unat k \<le> unat k'"
    "win' = (\<lambda>i. if unat k \<le> unat i \<and> unat i < unat k' then None else win i)"
    using drain_spec [OF assms(1-3)] by blast+
  have "win' k' = win k'" by (subst d(3)) simp
  ultimately show False using assms(4) d(1,2) by auto
qed

lemma hands_on:
  assumes "rw_inv stream N w" "rw_leftOver w = None" "\<forall>i. unat i < n \<longrightarrow> received w i"
    and "ReceivingWorker_ReadMultiBuffer w = (mb, w')"
  shows "n \<le> unat (rw_nextNumber w')" "\<not> IsDataAvailable w'"
    and "mb_content mb = concat (map stream [unat (rw_nextNumber w)..<unat (rw_nextNumber w')])"
proof -
  obtain k' win' where d: "drain (rw_nextNumber w) (rw_window w) = (mb, k', win')"
    and w': "w' = w\<lparr>rw_nextNumber := k', rw_window := win'\<rparr>"
    using assms(2,4) by (auto simp: ReceivingWorker_ReadMultiBuffer_def split: prod.splits)
  have wf: "rw_wf stream N w" using assms(1) by (simp add: rw_inv_def)
  then have c: "cache_ok stream N (unat (rw_nextNumber w)) (unat (rw_nextNumber w) + unat (rw_windowSize w)) (rw_window w)"
    by (simp add: rw_wf_def)
  have "\<forall>i. unat (rw_nextNumber w) \<le> unat i \<and> unat i < n \<longrightarrow> rw_window w i \<noteq> None"
    using assms(3) by (auto simp: received_def not_less)
  from drain_complete [OF c rw_wf_N [OF wf] d this] show "n \<le> unat (rw_nextNumber w')" by (simp add: w')
  from drain_spec [OF c rw_wf_N [OF wf] d] show "\<not> IsDataAvailable w'"
    and "mb_content mb = concat (map stream [unat (rw_nextNumber w)..<unat (rw_nextNumber w')])"
    by (auto simp: w' IsDataAvailable_def ReceivingWindow_Has_def)
qed

text \<open>
  Nothing received is held back: if all numbers below \<open>n\<close> have arrived and no short read
  left bytes over, one \<^verbatim>\<open>ReadMultiBuffer\<close> hands on all their remaining payloads and the next
  expected number is at least \<open>n\<close>.
\<close>

theorem receiver_hands_on:
  assumes "rw_inv stream N w" "rw_leftOver w = None" "\<forall>i. unat i < n \<longrightarrow> received w i"
    and "ReceivingWorker_ReadMultiBuffer w = (mb, w')"
  shows "n \<le> unat (rw_nextNumber w') \<and>
    mb_content mb = concat (map stream [unat (rw_nextNumber w)..<unat (rw_nextNumber w')]) \<and>
    \<not> IsDataAvailable w'"
  using hands_on [OF assms] by blast

theorem receiver_hands_on_witness:
  "2 \<le> unat (rw_nextNumber (snd (ReceivingWorker_ReadMultiBuffer
     (ReceivingWorker_ProcessSegment (demo_data 0) (ReceivingWorker_ProcessSegment (demo_data 1) demo_receiver)))))"
proof -
  define w1 where "w1 = ReceivingWorker_ProcessSegment (demo_data 1) demo_receiver"
  define w2 where "w2 = ReceivingWorker_ProcessSegment (demo_data 0) w1"
  have 0: "rw_inv demo_stream 2 demo_receiver"
    using NewReceivingWorker_inv(1) [OF demo_receiver_New] by (simp add: demo_receiver_def)
  have 1: "rw_inv demo_stream 2 w1" using ProcessSegment_inv [OF 0 demo_genuine] by (simp add: w1_def)
  have 2: "rw_inv demo_stream 2 w2" using ProcessSegment_inv [OF 1 demo_genuine] by (simp add: w2_def)
  have "received w2 0" "received w2 1" "rw_leftOver w2 = None"
    by (simp_all add: w2_def w1_def ReceivingWorker_ProcessSegment_def demo_receiver_def demo_data_def
        ReceivingWindow_Set_def NewReceivingWindow_def received_def word_le_nat_alt)
  moreover have "i = 0 \<or> i = 1" if "unat i < 2" for i :: u32
    using that by (metis One_nat_def less_2_cases unat_1 unat_0 word_unat_eq_iff)
  ultimately show ?thesis
    using receiver_hands_on [OF 2, of 2] unfolding w2_def w1_def by (metis prod.collapse)
qed

lemma Flush_segment_ok:
  assumes "rw_inv stream N w" "ReceivingWorker_Flush conv st rto current w = (segs, w')" "x \<in> set segs"
  shows "segment_ok (Ack x)"
proof -
  obtain raw l where f: "AckList_Flush current rto (rw_acklist w) = (raw, l)"
    by (cases "AckList_Flush current rto (rw_acklist w)")
  have "al_wf (rw_acklist w)" using assms(1) by (simp add: rw_inv_def)
  from AckList_Flush_spec [OF this f] have "\<forall>s\<in>set raw. length (as_NumberList s) \<le> 128" by blast
  then show ?thesis using assms(2,3) f by (fastforce simp: ReceivingWorker_Flush_def ReceivingWorker_Write_def)
qed

text \<open>
  Acknowledgements are sound and complete. The segments a flush sends list, in order, every
  pending number whose retransmission time has come; everything they list was received; each
  lists at most 128 numbers, so that its count fits the byte on the wire, and names the next
  expected number and the end of the window.
\<close>

theorem acknowledgements_sent:
  assumes "rw_inv stream N w" "ReceivingWorker_Flush conv st rto current w = (segs, w')"
  shows "set (due current (al_numbers (rw_acklist w)) (al_nextFlush (rw_acklist w))) \<subseteq>
      set (concat (map as_NumberList segs)) \<and>
    (\<forall>s\<in>set segs. segment_ok (Ack s) \<and> as_Conv s = conv \<and> as_ReceivingNext s = rw_nextNumber w \<and>
       as_ReceivingWindow s = rw_nextNumber w + rw_windowSize w \<and>
       (\<forall>n\<in>set (as_NumberList s). received w n))"
proof -
  obtain raw l where f: "AckList_Flush current rto (rw_acklist w) = (raw, l)"
    by (cases "AckList_Flush current rto (rw_acklist w)")
  with assms(2) have segs: "segs = map (ReceivingWorker_Write conv st w) raw"
    by (simp add: ReceivingWorker_Flush_def)
  have al: "al_wf (rw_acklist w)" using assms(1) by (simp add: rw_inv_def)
  obtain extra where "concat (map as_NumberList raw) =
      due current (al_numbers (rw_acklist w)) (al_nextFlush (rw_acklist w)) @ extra"
    using AckList_Flush_spec [OF al f] by blast
  moreover have nl: "map as_NumberList segs = map as_NumberList raw"
    by (simp add: segs ReceivingWorker_Write_def)
  ultimately have "set (due current (al_numbers (rw_acklist w)) (al_nextFlush (rw_acklist w))) \<subseteq>
      set (concat (map as_NumberList segs))"
    unfolding nl by (simp add: le_supI1 del: set_concat)
  moreover have "\<forall>s\<in>set segs. segment_ok (Ack s) \<and> as_Conv s = conv \<and>
      as_ReceivingWindow s = rw_nextNumber w + rw_windowSize w"
    using Flush_segment_ok [OF assms] by (auto simp: segs ReceivingWorker_Write_def)
  ultimately show ?thesis using ReceivingWorker_Flush_inv [OF assms] by blast
qed

theorem acknowledgements_sent_witness:
  "(1 :: u32) \<in> set (concat (map as_NumberList (fst (ReceivingWorker_Flush 9 StateActive 100 1000
     (ReceivingWorker_ProcessSegment (demo_data 1) demo_receiver)))))"
proof -
  define w where "w = ReceivingWorker_ProcessSegment (demo_data 1) demo_receiver"
  have "rw_inv demo_stream 2 demo_receiver"
    using NewReceivingWorker_inv(1) [OF demo_receiver_New] by (simp add: demo_receiver_def)
  then have inv: "rw_inv demo_stream 2 w" using ProcessSegment_inv [OF _ demo_genuine] by (simp add: w_def)
  obtain segs w' where f: "ReceivingWorker_Flush 9 StateActive 100 1000 w = (segs, w')"
    by (cases "ReceivingWorker_Flush 9 StateActive 100 1000 w")
  have "al_numbers (rw_acklist w) = [1]" "al_nextFlush (rw_acklist w) = [0]"
    by (simp_all add: w_def ReceivingWorker_ProcessSegment_def demo_receiver_def demo_data_def
        AckList_Add_def AckList_Clear_def NewAckList_def word_le_nat_alt)
  with acknowledgements_sent [OF inv f] have "(1 :: u32) \<in> set (concat (map as_NumberList segs))" by simp
  with f show ?thesis by (simp add: w_def)
qed

end
