(* ===== verification/KCP_Protocol.thy ===== *)
theory KCP_Protocol
  imports KCP_Sending KCP_Receiving
begin

text \<open>
  One direction of a KCP connection: a sending worker on one side, a receiving worker on the
  other, and a network that may lose, delay, reorder and repeat packets. The network is the set
  of all packets ever sent; any of them may arrive at any time, any number of times, or never.
  Packets are the serialized segments, one segment per packet as \<^verbatim>\<open>SimpleSegmentWriter\<close> sends
  them, and are taken apart again by \<open>read_segments\<close> on arrival.

  Each side has its clock, the milliseconds since its connection was made (\<^verbatim>\<open>Elapsed\<close>, which
  keeps the lower 32 bits). Clocks only go forward, and not necessarily together; an operation
  reads the clock of its side once, when it begins. The round-trip information of the peer is
  changed by the other direction of the connection, to values left open here.
\<close>

record kcp_sys =
  ks_snd :: SendingWorker
  ks_rt :: RoundTripInfo
  ks_rcv :: ReceivingWorker
  ks_net :: "byte list set"
  ks_log :: "byte list list"
  ks_out :: "byte list"
  ks_now :: nat
  ks_peer_now :: nat
  ks_peer_rt :: RoundTripInfo

abbreviation elapsed :: "kcp_sys \<Rightarrow> u32" where
  "elapsed s \<equiv> of_nat (ks_now s)"

abbreviation peer_elapsed :: "kcp_sys \<Rightarrow> u32" where
  "peer_elapsed s \<equiv> of_nat (ks_peer_now s)"

text \<open>\<open>N\<close> bounds the number of payloads sent over the lifetime of the connection.\<close>

inductive kcp_step :: "Config \<Rightarrow> nat \<Rightarrow> kcp_sys \<Rightarrow> kcp_sys \<Rightarrow> bool" for cfg N where
  push: "SendingWorker_Push b (ks_snd s) = (True, snd') \<Longrightarrow> buffer_wf b \<Longrightarrow> content b \<noteq> [] \<Longrightarrow>
    length (content b) \<le> 8192 \<Longrightarrow> length (ks_log s) < N \<Longrightarrow>
    kcp_step cfg N s (s\<lparr>ks_snd := snd', ks_log := ks_log s @ [content b]\<rparr>)"
| send: "SendingWorker_Flush conv st cfg (ks_rt s) (elapsed s) (ks_snd s) = Some (out, ping, snd') \<Longrightarrow>
    kcp_step cfg N s (s\<lparr>ks_snd := snd', ks_net := ks_net s \<union> (wire \<circ> Data) ` set out\<rparr>)"
| data: "packet \<in> ks_net s \<Longrightarrow> Data seg \<in> set (read_segments packet) \<Longrightarrow>
    kcp_step cfg N s (s\<lparr>ks_rcv := ReceivingWorker_ProcessSegment seg (ks_rcv s)\<rparr>)"
| send_acks: "ReceivingWorker_Flush conv st (Timeout (ks_peer_rt s)) (peer_elapsed s) (ks_rcv s) = (segs, rcv') \<Longrightarrow>
    kcp_step cfg N s (s\<lparr>ks_rcv := rcv', ks_net := ks_net s \<union> (wire \<circ> Ack) ` set segs\<rparr>)"
| ack: "packet \<in> ks_net s \<Longrightarrow> Ack seg \<in> set (read_segments packet) \<Longrightarrow>
    SendingWorker_ProcessSegment (elapsed s) seg (Timeout (ks_rt s)) (ks_snd s) (ks_rt s) = (snd', rt') \<Longrightarrow>
    kcp_step cfg N s (s\<lparr>ks_snd := snd', ks_rt := rt'\<rparr>)"
| send_ping: "cs_ReceivingNext c = NextNumber (ks_rcv s) \<Longrightarrow> cs_PeerRTO c = Timeout (ks_peer_rt s) \<Longrightarrow> cs_Cmd c \<in> {CommandPing, CommandTerminate} \<Longrightarrow>
    kcp_step cfg N s (s\<lparr>ks_net := ks_net s \<union> {wire (CmdOnly c)}\<rparr>)"
| ping: "packet \<in> ks_net s \<Longrightarrow> CmdOnly c \<in> set (read_segments packet) \<Longrightarrow>
    kcp_step cfg N s (s\<lparr>ks_snd := ProcessReceivingNext (cs_ReceivingNext c) (ks_snd s),
                        ks_rt := UpdatePeerRTO (cs_PeerRTO c) (elapsed s) (ks_rt s)\<rparr>)"
| forget_acks: "kcp_step cfg N s (s\<lparr>ks_rcv := ProcessSendingNext n (ks_rcv s)\<rparr>)"
| read: "op = AppReadMultiBuffer \<or> op = AppRead k \<Longrightarrow> rw_step op (ks_rcv s) = (bs, rcv') \<Longrightarrow>
    kcp_step cfg N s (s\<lparr>ks_rcv := rcv', ks_out := ks_out s @ bs\<rparr>)"
| tick: "kcp_step cfg N s (s\<lparr>ks_now := ks_now s + d, ks_peer_now := ks_peer_now s + d'\<rparr>)"
| peer_rt: "kcp_step cfg N s (s\<lparr>ks_peer_rt := rt'\<rparr>)"

inductive kcp_reach :: "Config \<Rightarrow> nat \<Rightarrow> kcp_sys \<Rightarrow> kcp_sys \<Rightarrow> bool" for cfg N s0 where
  start: "kcp_reach cfg N s0 s0"
| step: "kcp_reach cfg N s0 s \<Longrightarrow> kcp_step cfg N s s' \<Longrightarrow> kcp_reach cfg N s0 s'"

definition kcp_start :: "SendingWorker \<Rightarrow> ReceivingWorker \<Rightarrow> RoundTripInfo \<Rightarrow> kcp_sys" where
  "kcp_start w rcv rt = \<lparr>ks_snd = w, ks_rt = rt, ks_rcv = rcv, ks_net = {}, ks_log = [], ks_out = [],
     ks_now = 0, ks_peer_now = 0, ks_peer_rt = rt\<rparr>"

section \<open>The invariant\<close>

text \<open>What the segments in the network say is true of the two sides.\<close>

fun truthful :: "byte list list \<Rightarrow> ReceivingWorker \<Rightarrow> Segment \<Rightarrow> bool" where
  "truthful log rcv (Data s) \<longleftrightarrow> genuine (nth log) (length log) s \<and>
     (\<exists>b. ds_payload s = Some b \<and> content b \<noteq> [] \<and> length (content b) \<le> 8192)"
| "truthful log rcv (Ack s) \<longleftrightarrow> segment_ok (Ack s) \<and> unat (as_ReceivingNext s) \<le> unat (rw_nextNumber rcv) \<and>
     (\<forall>n\<in>set (as_NumberList s). received rcv n)"
| "truthful log rcv (CmdOnly c) \<longleftrightarrow> segment_ok (CmdOnly c) \<and> unat (cs_ReceivingNext c) \<le> unat (rw_nextNumber rcv)"

definition net_ok :: "byte list list \<Rightarrow> ReceivingWorker \<Rightarrow> byte list set \<Rightarrow> bool" where
  "net_ok log rcv net \<longleftrightarrow> (\<forall>p\<in>net. \<exists>seg. p = wire seg \<and> truthful log rcv seg)"

definition kcp_inv :: "nat \<Rightarrow> kcp_sys \<Rightarrow> bool" where
  "kcp_inv N s \<longleftrightarrow>
     sender_inv (ks_log s) (ks_snd s) \<and> \<not> w_closed (ks_snd s) \<and>
     list_all (\<lambda>x. x \<noteq> [] \<and> length x \<le> 8192) (ks_log s) \<and> length (ks_log s) \<le> N \<and>
     N + unat (rw_windowSize (ks_rcv s)) \<le> 4294967296 \<and>
     rw_inv (nth (ks_log s)) (length (ks_log s)) (ks_rcv s) \<and>
     net_ok (ks_log s) (ks_rcv s) (ks_net s) \<and>
     ks_out s @ left_bytes (ks_rcv s) = concat (take (unat (rw_nextNumber (ks_rcv s))) (ks_log s)) \<and>
     (\<forall>n. unat n < length (ks_log s) \<longrightarrow>
        n \<in> set (numbers (cache (ks_snd s))) \<or> received (ks_rcv s) n)"

lemma truthful_mono:
  assumes "truthful log rcv seg" "unat (rw_nextNumber rcv) \<le> unat (rw_nextNumber rcv')"
    and "\<And>n. received rcv n \<Longrightarrow> received rcv' n"
  shows "truthful log rcv' seg"
  using assms by (cases seg) auto

lemma net_ok_mono:
  "net_ok log rcv net \<Longrightarrow> unat (rw_nextNumber rcv) \<le> unat (rw_nextNumber rcv') \<Longrightarrow>
   (\<And>n. received rcv n \<Longrightarrow> received rcv' n) \<Longrightarrow> net_ok log rcv' net"
  unfolding net_ok_def using truthful_mono by meson

lemma truthful_append: "truthful log rcv seg \<Longrightarrow> truthful (log @ [x]) rcv seg"
  using genuine_append [of log _ "[x]"] by (cases seg) auto

lemma net_ok_append: "net_ok log rcv net \<Longrightarrow> net_ok (log @ [x]) rcv net"
  unfolding net_ok_def using truthful_append by meson

lemma net_ok_insert:
  "net_ok log rcv net \<Longrightarrow> (\<And>seg. seg \<in> S \<Longrightarrow> truthful log rcv seg) \<Longrightarrow> net_ok log rcv (net \<union> wire ` S)"
  unfolding net_ok_def by blast

lemma rw_inv_append:
  assumes "rw_inv (nth log) (length log) w" "length log + 1 + unat (rw_windowSize w) \<le> 4294967296"
  shows "rw_inv (nth (log @ [x])) (length (log @ [x])) w"
proof -
  have "cache_ok (nth (log @ [x])) (length (log @ [x])) lo hi win" if "cache_ok (nth log) (length log) lo hi win" for lo hi win
    using that genuine_append [of log _ "[x]"] by (fastforce simp: cache_ok_def)
  then show ?thesis using assms by (simp add: rw_inv_def rw_wf_def)
qed

text \<open>The only segment of a packet is the one that was sent, up to the fields that are not sent.\<close>

lemma read_wire:
  assumes "truthful log rcv seg"
  obtains seg' where "read_segments (wire seg) = [seg']" "truthful log rcv seg'"
proof (cases seg)
  case (Data s)
  then obtain b where b: "genuine (nth log) (length log) s" "ds_payload s = Some b" "content b \<noteq> []"
    "length (content b) \<le> 8192" using assms by auto
  then have wf: "buffer_wf b" by (auto simp: genuine_def)
  have "ReadSegment (wire (Data s)) = Some (Data (arrived s b), [])"
    using ReadSegment_Data_arrived [OF b(2) wf b(3,4), of "[]"] by simp
  moreover from this have "wire (Data s) \<noteq> []" by (auto simp: ReadSegment_def)
  ultimately have "read_segments (wire seg) = [Data (arrived s b)]"
    using Data by (simp add: read_segments.simps)
  moreover have "truthful log rcv (Data (arrived s b))"
    using b by (auto simp: arrived_def genuine_def append_read_wf append_read_content)
  ultimately show ?thesis by (rule that)
next
  case (Ack s)
  with assms have "segment_ok seg" by simp
  then have "read_segments (wire seg) = [seg]" using read_segments_wires [of "[seg]"] by simp
  then show ?thesis using assms by (rule that)
next
  case (CmdOnly c)
  with assms have "segment_ok seg" by simp
  then have "read_segments (wire seg) = [seg]" using read_segments_wires [of "[seg]"] by simp
  then show ?thesis using assms by (rule that)
qed

lemma arrival_truthful:
  assumes "net_ok log rcv net" "packet \<in> net" "seg \<in> set (read_segments packet)"
  shows "truthful log rcv seg"
proof -
  obtain s where s: "packet = wire s" "truthful log rcv s" using assms(1,2) by (auto simp: net_ok_def)
  obtain seg' where "read_segments (wire s) = [seg']" "truthful log rcv seg'" by (rule read_wire [OF s(2)])
  with s(1) assms(3) show ?thesis by simp
qed

section \<open>Every step keeps it\<close>

text \<open>Steps of the receiver: the invariant depends on it only through what it has received.\<close>

lemma receiver_step:
  assumes "kcp_inv N s" "op_ok (nth (ks_log s)) (length (ks_log s)) op" "rw_step op (ks_rcv s) = (bs, rcv')"
  shows "kcp_inv N (s\<lparr>ks_rcv := rcv', ks_out := ks_out s @ bs\<rparr>)"
proof -
  let ?log = "ks_log s"
  have inv: "rw_inv (nth ?log) (length ?log) (ks_rcv s)" using assms(1) by (simp add: kcp_inv_def)
  have s: "rw_inv (nth ?log) (length ?log) rcv'" "unat (rw_nextNumber (ks_rcv s)) \<le> unat (rw_nextNumber rcv')"
    "left_bytes (ks_rcv s) @ between (nth ?log) (ks_rcv s) rcv' = bs @ left_bytes rcv'"
    using rw_step_inv [OF inv assms(2,3)] by blast+
  note r = rw_step_received [OF inv assms(2,3)]
  have le: "unat (rw_nextNumber rcv') \<le> length ?log" using s(1) by (simp add: rw_inv_def rw_wf_def)
  have "concat (take (unat (rw_nextNumber rcv')) ?log) =
      concat (take (unat (rw_nextNumber (ks_rcv s))) ?log) @ between (nth ?log) (ks_rcv s) rcv'"
  proof -
    have "take (unat (rw_nextNumber rcv')) ?log =
        take (unat (rw_nextNumber (ks_rcv s))) ?log @
        map (nth ?log) [unat (rw_nextNumber (ks_rcv s))..<unat (rw_nextNumber rcv')]"
      using s(2) le by (intro nth_equalityI) (auto simp: nth_append)
    then show ?thesis by simp
  qed
  also have "\<dots> = (ks_out s @ left_bytes (ks_rcv s)) @ between (nth ?log) (ks_rcv s) rcv'"
    using assms(1) by (simp add: kcp_inv_def)
  also have "\<dots> = ks_out s @ (bs @ left_bytes rcv')" unfolding s(3) [symmetric] by simp
  finally have "(ks_out s @ bs) @ left_bytes rcv' = concat (take (unat (rw_nextNumber rcv')) ?log)" by simp
  moreover have "net_ok ?log rcv' (ks_net s)"
    using assms(1) s(2) r(2) by (auto simp: kcp_inv_def intro: net_ok_mono)
  ultimately show ?thesis using assms(1) s(1) r by (auto simp: kcp_inv_def)
qed

lemma sender_changed:
  assumes "kcp_inv N s" "sender_inv (ks_log s) snd'" "\<not> w_closed snd'"
    and "\<And>n. n \<in> set (numbers (cache (ks_snd s))) \<Longrightarrow> n \<notin> set (numbers (cache snd')) \<Longrightarrow> received (ks_rcv s) n"
  shows "kcp_inv N (s\<lparr>ks_snd := snd', ks_rt := rt'\<rparr>)"
proof -
  have "n \<in> set (numbers (cache snd')) \<or> received (ks_rcv s) n" if "unat n < length (ks_log s)" for n
    using that assms(1) assms(4) [of n] unfolding kcp_inv_def by blast
  then show ?thesis using assms(1-3) by (simp add: kcp_inv_def)
qed

lemma net_changed:
  assumes "kcp_inv N s" "\<And>seg. seg \<in> S \<Longrightarrow> truthful (ks_log s) (ks_rcv s) seg"
  shows "kcp_inv N (s\<lparr>ks_net := ks_net s \<union> wire ` S\<rparr>)"
  using assms net_ok_insert [of "ks_log s" "ks_rcv s" "ks_net s" S] by (simp add: kcp_inv_def)

lemma push_kept:
  assumes "kcp_inv N s" "N \<le> 0x7FFFFFFE" "SendingWorker_Push b (ks_snd s) = (True, snd')" "buffer_wf b"
    and "content b \<noteq> []" "length (content b) \<le> 8192" "length (ks_log s) < N"
  shows "kcp_inv N (s\<lparr>ks_snd := snd', ks_log := ks_log s @ [content b]\<rparr>)"
proof -
  let ?log = "ks_log s"
  have inv: "sender_inv ?log (ks_snd s)" "rw_inv (nth ?log) (length ?log) (ks_rcv s)"
    and nl: "\<And>n. unat n < length ?log \<Longrightarrow> n \<in> set (numbers (cache (ks_snd s))) \<or> received (ks_rcv s) n"
    using assms(1) by (auto simp: kcp_inv_def)
  note p = SendingWorker_Push_spec [OF inv(1) assms(3,4)]
  have l: "length ?log < 0x7FFFFFFE" using assms(2,7) by simp
  have "n \<in> set (numbers (cache snd')) \<or> received (ks_rcv s) n" if "unat n < length ?log + 1" for n
  proof (cases "unat n = length ?log")
    case True
    have "n = of_nat (length ?log)" unfolding True [symmetric] by simp
    then show ?thesis using p(2) [OF l] by simp
  next
    case False
    then show ?thesis using that nl [of n] p(2) [OF l] by auto
  qed
  moreover have "rw_inv (nth (?log @ [content b])) (length (?log @ [content b])) (ks_rcv s)"
    using assms(1,7) by (intro rw_inv_append [OF inv(2)]) (simp add: kcp_inv_def)
  moreover have "unat (rw_nextNumber (ks_rcv s)) \<le> length ?log"
    using inv(2) by (simp add: rw_inv_def rw_wf_def)
  moreover have "\<not> w_closed snd'" using assms(3) by (auto simp: SendingWorker_Push_def split: if_splits)
  ultimately show ?thesis
    using assms(1,5,6,7) p(1) [OF l] by (simp add: kcp_inv_def net_ok_append)
qed

lemma send_kept:
  assumes "kcp_inv N s" "SendingWorker_Flush conv st cfg (ks_rt s) current (ks_snd s) = Some (out, ping, snd')"
  shows "kcp_inv N (s\<lparr>ks_snd := snd', ks_net := ks_net s \<union> (wire \<circ> Data) ` set out\<rparr>)"
proof -
  let ?log = "ks_log s"
  have inv: "sender_inv ?log (ks_snd s)" "\<not> w_closed (ks_snd s)" using assms(1) by (simp_all add: kcp_inv_def)
  obtain cwnd where c: "flush_cwnd cfg (ks_snd s) = Some cwnd"
    using assms(2) inv(2) by (auto simp: SendingWorker_Flush_def bind_eq_Some_conv)
  note f = SendingWorker_Flush_spec [OF inv(2) c assms(2)]
  have g: "list_all (genuine (nth ?log) (length ?log)) (cache (ks_snd s))" using inv(1) by (simp add: sender_inv_def)
  have "truthful ?log (ks_rcv s) (Data seg)" if "seg \<in> set out" for seg
  proof -
    have gs: "genuine (nth ?log) (length ?log) seg"
      using that by (simp only: f(1)) (rule flush_genuine [OF g])
    then obtain b where "ds_payload seg = Some b" "content b = ?log ! unat (ds_Number seg)"
      "unat (ds_Number seg) < length ?log" by (auto simp: genuine_def)
    moreover have "list_all (\<lambda>x. x \<noteq> [] \<and> length x \<le> 8192) ?log" using assms(1) by (simp add: kcp_inv_def)
    ultimately show ?thesis using gs by (auto simp: list_all_length)
  qed
  then have "kcp_inv N (s\<lparr>ks_net := ks_net s \<union> wire ` (Data ` set out)\<rparr>)"
    by (intro net_changed [OF assms(1)]) auto
  from sender_changed [OF this, of snd' "ks_rt s"] sender_inv_same [OF inv(1) f(2,3,4)] f(5)
  have "kcp_inv N (s\<lparr>ks_net := ks_net s \<union> (wire \<circ> Data) ` set out, ks_snd := snd', ks_rt := ks_rt s\<rparr>)"
    by (simp add: image_comp)
  then show ?thesis by (simp add: kcp_inv_def)
qed

lemma ack_kept:
  assumes "kcp_inv N s" "truthful (ks_log s) (ks_rcv s) (Ack seg)"
    and "SendingWorker_ProcessSegment current seg rto (ks_snd s) (ks_rt s) = (snd', rt')"
  shows "kcp_inv N (s\<lparr>ks_snd := snd', ks_rt := rt'\<rparr>)"
proof -
  have inv: "sender_inv (ks_log s) (ks_snd s)" "\<not> w_closed (ks_snd s)" using assms(1) by (simp_all add: kcp_inv_def)
  have p: "sender_inv (ks_log s) snd'" "numbers (cache snd') = numbers (filter (\<lambda>x.
      as_ReceivingNext seg \<le> ds_Number x \<and> ds_Number x \<notin> set (as_NumberList seg)) (cache (ks_snd s)))"
    using SendingWorker_ProcessSegment_spec [OF inv assms(3)] by blast+
  have "received (ks_rcv s) n" if "n \<in> set (numbers (cache (ks_snd s)))" "n \<notin> set (numbers (cache snd'))" for n
  proof -
    have "n < as_ReceivingNext seg \<or> n \<in> set (as_NumberList seg)" using that unfolding p(2) by auto
    then show ?thesis using assms(2) by (auto simp: received_def word_less_nat_alt)
  qed
  moreover have "\<not> w_closed snd'"
    using SendingWorker_ProcessSegment_closed [of current seg rto "ks_snd s" "ks_rt s"] assms(3) inv(2) by simp
  ultimately show ?thesis using sender_changed [OF assms(1) p(1)] by blast
qed

lemma ping_kept:
  assumes "kcp_inv N s" "truthful (ks_log s) (ks_rcv s) (CmdOnly c)"
  shows "kcp_inv N (s\<lparr>ks_snd := ProcessReceivingNext (cs_ReceivingNext c) (ks_snd s), ks_rt := rt'\<rparr>)"
proof -
  have inv: "sender_inv (ks_log s) (ks_snd s)" "\<not> w_closed (ks_snd s)" using assms(1) by (simp_all add: kcp_inv_def)
  note p = ProcessReceivingNext_spec [OF inv(1), of "cs_ReceivingNext c"]
  have "received (ks_rcv s) n" if "n \<in> set (numbers (cache (ks_snd s)))"
    "n \<notin> set (numbers (cache (ProcessReceivingNext (cs_ReceivingNext c) (ks_snd s))))" for n
  proof -
    have "n < cs_ReceivingNext c" using that unfolding p(2) by auto
    then show ?thesis using assms(2) by (auto simp: received_def word_less_nat_alt)
  qed
  then show ?thesis using sender_changed [OF assms(1) p(1)] inv(2) by simp
qed

lemma acks_kept:
  assumes "kcp_inv N s" "ReceivingWorker_Flush conv st rto current (ks_rcv s) = (segs, rcv')"
  shows "kcp_inv N (s\<lparr>ks_rcv := rcv', ks_net := ks_net s \<union> (wire \<circ> Ack) ` set segs\<rparr>)"
proof -
  have inv: "rw_inv (nth (ks_log s)) (length (ks_log s)) (ks_rcv s)" using assms(1) by (simp add: kcp_inv_def)
  have f: "rw_nextNumber rcv' = rw_nextNumber (ks_rcv s)" "\<forall>n. received (ks_rcv s) n \<longrightarrow> received rcv' n"
    "\<forall>x\<in>set segs. as_ReceivingNext x = rw_nextNumber (ks_rcv s) \<and>
       (\<forall>n\<in>set (as_NumberList x). received (ks_rcv s) n)"
    using ReceivingWorker_Flush_inv [OF inv assms(2)] by blast+
  have "truthful (ks_log s) rcv' (Ack x)" if "x \<in> set segs" for x
    using that f Flush_segment_ok [OF inv assms(2) that] by auto
  then have "truthful (ks_log s) rcv' seg" if "seg \<in> Ack ` set segs" for seg
    using that by blast
  moreover have "kcp_inv N (s\<lparr>ks_rcv := rcv'\<rparr>)"
    using receiver_step [OF assms(1), of "SendAcks conv st rto current" "[]" rcv'] assms(2) by simp
  ultimately have "kcp_inv N (s\<lparr>ks_rcv := rcv', ks_net := ks_net s \<union> wire ` (Ack ` set segs)\<rparr>)"
    using net_changed [of N "s\<lparr>ks_rcv := rcv'\<rparr>" "Ack ` set segs"] by simp
  then show ?thesis by (simp add: image_comp)
qed

lemma kcp_step_inv:
  assumes "kcp_step cfg N s s'" "kcp_inv N s" "N \<le> 0x7FFFFFFE"
  shows "kcp_inv N s'"
  using assms(1)
proof cases
  case (push b snd')
  then show ?thesis using push_kept [OF assms(2,3)] by simp
next
  case (send conv st out ping snd')
  then show ?thesis using send_kept [OF assms(2)] by simp
next
  case (data packet seg)
  have net: "net_ok (ks_log s) (ks_rcv s) (ks_net s)" using assms(2) by (simp add: kcp_inv_def)
  from arrival_truthful [OF net data(2,3)]
  show ?thesis using receiver_step [OF assms(2), of "GotData seg" "[]"] data(1) by simp
next
  case (send_acks conv st segs rcv')
  then show ?thesis using acks_kept [OF assms(2)] by simp
next
  case (ack packet seg snd' rt')
  have net: "net_ok (ks_log s) (ks_rcv s) (ks_net s)" using assms(2) by (simp add: kcp_inv_def)
  show ?thesis using ack_kept [OF assms(2) arrival_truthful [OF net ack(2,3)] ack(4)] ack(1) by simp
next
  case (send_ping c)
  then have "truthful (ks_log s) (ks_rcv s) (CmdOnly c)"
    by (auto simp: NextNumber_def CommandPing_def CommandTerminate_def CommandData_def CommandACK_def)
  then show ?thesis using net_changed [OF assms(2), of "{CmdOnly c}"] send_ping(1) by simp
next
  case (ping packet c)
  have net: "net_ok (ks_log s) (ks_rcv s) (ks_net s)" using assms(2) by (simp add: kcp_inv_def)
  show ?thesis using ping_kept [OF assms(2) arrival_truthful [OF net ping(2,3)]] ping(1) by simp
next
  case (forget_acks n)
  then show ?thesis using receiver_step [OF assms(2), of "GotSendingNext n" "[]"] by simp
next
  case (read op k bs rcv')
  then have "op_ok (nth (ks_log s)) (length (ks_log s)) op" by auto
  then show ?thesis using receiver_step [OF assms(2) _ read(3)] read(1) by simp
next
  case (tick d d')
  then show ?thesis using assms(2) by (simp add: kcp_inv_def)
next
  case (peer_rt rt')
  then show ?thesis using assms(2) by (simp add: kcp_inv_def)
qed

lemma kcp_start_inv:
  assumes "NewSendingWorker cfg = Some w" "NewReceivingWorker cfg' = Some rcv"
    and "N + unat (rw_windowSize rcv) \<le> 4294967296"
  shows "kcp_inv N (kcp_start w rcv rt)"
proof -
  note s = NewSendingWorker_inv [OF assms(1)]
  have r: "rw_inv (nth []) (length []) rcv" "left_bytes rcv = []" "rw_nextNumber rcv = 0"
    using NewReceivingWorker_inv [OF assms(2), of 0] assms(3) by simp_all
  show ?thesis using s r assms(3) by (simp add: kcp_inv_def kcp_start_def net_ok_def)
qed

lemma kcp_reach_inv:
  assumes "kcp_reach cfg N s0 s" "kcp_inv N s0" "N \<le> 0x7FFFFFFE"
  shows "kcp_inv N s"
  using assms(1) by induction (use assms(2,3) kcp_step_inv in blast)+

section \<open>Time-outs\<close>

text \<open>
  A segment of the window is never due later than the largest time-out that was ever in use after
  now. Time-outs come from the connection's own estimate, at most 12500 ms, or from the peer.
\<close>

definition timely :: "nat \<Rightarrow> SendingWorker \<Rightarrow> bool" where
  "timely t w \<longleftrightarrow> list_all (\<lambda>x. unat (ds_timeout x) \<le> t) (cache w)"

lemma timely_mono: "timely t w \<Longrightarrow> t \<le> t' \<Longrightarrow> timely t' w"
  by (fastforce simp: timely_def list_all_iff)

lemma timely_ProcessReceivingNext: "timely t w \<Longrightarrow> timely t (ProcessReceivingNext n w)"
  unfolding timely_def by (rule ProcessReceivingNext_all)

lemma timely_ProcessSegment:
  assumes "timely t w" "SendingWorker_ProcessSegment current seg rto w rt = (w', rt')"
  shows "timely t w'"
  using assms(1) unfolding timely_def
proof (rule ProcessSegment_all [OF _ _ assms(2)])
  fix x :: DataSegment and n v
  assume "unat (ds_timeout x) \<le> t"
  moreover have "unat (ds_timeout x - rto div 3) \<le> unat (ds_timeout x)" if "ds_timeout x > rto div 3"
    using that by (simp add: unat_sub less_imp_le)
  ultimately show "unat (ds_timeout (fst (snd (fast_ack n rto x v)))) \<le> t" by (fastforce simp: fast_ack_def)
qed

lemma rto_ProcessSegment:
  assumes "SendingWorker_ProcessSegment current seg rto w rt = (w', rt')" "unat (Timeout rt) \<le> R" "12500 \<le> R"
  shows "unat (Timeout rt') \<le> R"
proof -
  have "unat (rt_timeout info * 5 div 4) \<le> 12500" for info
  proof -
    have "unat (rt_timeout info) \<le> 10000" by (auto simp: rt_timeout_def Let_def word_less_nat_alt)
    then have "unat (rt_timeout info * 5) = unat (rt_timeout info) * 5" by (simp add: unat_word_ariths)
    then show ?thesis using \<open>unat (rt_timeout info) \<le> 10000\<close> by (simp add: unat_div)
  qed
  then have "unat (Timeout (RoundTripInfo_Update rtt now rt)) \<le> R" for rtt now
    using assms(2,3) order_trans by (fastforce simp: RoundTripInfo_Update_def Let_def Timeout_def)
  moreover have "rt' = rt \<or> (\<exists>rtt now. rt' = RoundTripInfo_Update rtt now rt)"
    using assms(1) by (auto simp: SendingWorker_ProcessSegment_def Let_def split: if_splits prod.splits)
  ultimately show ?thesis using assms(2) by blast
qed

lemma timely_Push: "SendingWorker_Push b w = (ok, w') \<Longrightarrow> timely t w \<Longrightarrow> timely t w'"
  by (auto simp: SendingWorker_Push_def SendingWindow_Push_def NewDataSegment_def timely_def split: if_splits)

lemma timely_Flush:
  assumes "timely t w" "SendingWorker_Flush conv st cfg rt (of_nat now) w = Some (out, ping, w')"
    and "now + unat (Timeout rt) \<le> t"
  shows "timely t w'"
proof -
  have "unat (of_nat now + Timeout rt :: u32) \<le> unat (of_nat now :: u32) + unat (Timeout rt)"
    by (simp add: unat_word_ariths)
  moreover have "unat (of_nat now :: u32) \<le> now" by (simp add: unat_of_nat)
  ultimately have "unat (of_nat now + Timeout rt :: u32) \<le> t" using assms(3) by linarith
  then show ?thesis
    using SendingWorker_Flush_all [OF _ _ assms(2), of "\<lambda>x. unat (ds_timeout x) \<le> t"] assms(1)
    by (simp add: timely_def stamp_def SendingWorker_Write_def)
qed

text \<open>No packet of the peer asks for a time-out of more than \<open>R\<close> ms, and what then holds of the sender.\<close>

definition peer_asks :: "nat \<Rightarrow> kcp_sys \<Rightarrow> bool" where
  "peer_asks R s \<longleftrightarrow> unat (Timeout (ks_peer_rt s)) \<le> R \<and>
     (\<forall>p \<in> ks_net s. \<forall>c. CmdOnly c \<in> set (read_segments p) \<longrightarrow> unat (cs_PeerRTO c) \<le> R)"

definition paced :: "nat \<Rightarrow> kcp_sys \<Rightarrow> bool" where
  "paced R s \<longleftrightarrow> unat (Timeout (ks_rt s)) \<le> R \<and> timely (ks_now s + R) (ks_snd s)"

lemma rto_UpdatePeerRTO:
  "unat (Timeout rt) \<le> R \<Longrightarrow> unat rto \<le> R \<Longrightarrow> unat (Timeout (UpdatePeerRTO rto current rt)) \<le> R"
  by (simp add: UpdatePeerRTO_def Timeout_def)

lemma paced_step:
  assumes "kcp_step cfg N s s'" "paced R s" "12500 \<le> R"
    and "\<forall>p \<in> ks_net s'. \<forall>c. CmdOnly c \<in> set (read_segments p) \<longrightarrow> unat (cs_PeerRTO c) \<le> R"
  shows "paced R s'"
  using assms(1)
proof cases
  case (ack packet seg snd' rt')
  then show ?thesis
    using assms(2,3) timely_ProcessSegment [OF _ ack(4)] rto_ProcessSegment [OF ack(4)] by (simp add: paced_def)
next
  case (send conv st out ping snd')
  then show ?thesis using assms(2) timely_Flush [OF _ send(2)] by (simp add: paced_def)
next
  case (ping packet c)
  then have "unat (cs_PeerRTO c) \<le> R" using assms(4) by simp
  with ping(1) assms(2) show ?thesis by (simp add: paced_def rto_UpdatePeerRTO timely_ProcessReceivingNext)
qed (use assms(2) in \<open>auto simp: paced_def dest: timely_Push elim: timely_mono\<close>)

lemma net_grows: "kcp_step cfg N s s' \<Longrightarrow> ks_net s \<subseteq> ks_net s'"
  by (induction rule: kcp_step.induct) auto

lemma reach_paced:
  assumes "kcp_reach cfg N (kcp_start w rcv rt) s" "NewSendingWorker cfg = Some w" "unat (Timeout rt) \<le> R" "12500 \<le> R"
    and "\<forall>p \<in> ks_net s. \<forall>c. CmdOnly c \<in> set (read_segments p) \<longrightarrow> unat (cs_PeerRTO c) \<le> R"
  shows "paced R s"
  using assms(1,5)
proof induction
  case start
  have "cache w = []" using assms(2) by (auto simp: NewSendingWorker_def NewSendingWindow_def bind_eq_Some_conv)
  then show ?case using assms(3) by (simp add: paced_def kcp_start_def timely_def)
next
  case (step s s')
  have "paced R s" using step.IH step.prems net_grows [OF step.hyps(2)] by blast
  then show ?case using paced_step [OF step.hyps(2) _ assms(4) step.prems] by blast
qed

text \<open>How long to wait until a segment is due: at most a period of the clock, and little on a young connection.\<close>

lemma due_wait:
  obtains d where "is_due (of_nat (now + d)) x" "d < 4294967296"
    "\<forall>R. now < 0x7FFFFFFF \<longrightarrow> unat (ds_timeout x) \<le> now + R \<longrightarrow> d \<le> R"
proof (cases "now < 0x7FFFFFFF \<and> unat (ds_timeout x) \<le> now")
  case True
  have "unat (of_nat now :: u32) = now" using True by (simp add: unat_of_nat)
  then have "unat (of_nat now - ds_timeout x) = now - unat (ds_timeout x)" using True by (simp add: unat_sub word_le_nat_alt)
  moreover have "now - unat (ds_timeout x) < 2147483647" using True by linarith
  ultimately have "is_due (of_nat (now + 0)) x" by (simp add: is_due_def word_le_nat_alt)
  then show ?thesis by (rule that) simp_all
next
  case False
  let ?d = "unat (ds_timeout x - of_nat now)"
  have "is_due (of_nat (now + ?d)) x" by (simp add: is_due_def word_le_nat_alt)
  moreover have "?d < 4294967296" using unsigned_less [of "ds_timeout x - of_nat now"] by simp
  moreover have "?d \<le> R" if "now < 0x7FFFFFFF" "unat (ds_timeout x) \<le> now + R" for R
  proof -
    have "unat (of_nat now :: u32) = now" using that(1) by (simp add: unat_of_nat)
    then have "?d = unat (ds_timeout x) - now" using False that(1) by (simp add: unat_sub word_le_nat_alt)
    with that(2) show ?thesis by simp
  qed
  ultimately show ?thesis using that by blast
qed

section \<open>Progress\<close>

text \<open>What the runs below keep: the time-outs of both sides are at most \<open>R\<close>.\<close>

definition steady :: "nat \<Rightarrow> kcp_sys \<Rightarrow> bool" where
  "steady R s \<longleftrightarrow> paced R s \<and> unat (Timeout (ks_peer_rt s)) \<le> R"

lemma kcp_reach_trans: "kcp_reach cfg N s2 s3 \<Longrightarrow> kcp_reach cfg N s1 s2 \<Longrightarrow> kcp_reach cfg N s1 s3"
  by (induction rule: kcp_reach.induct) (auto intro: kcp_reach.step)

lemma kcp_reach_one: "kcp_step cfg N s s' \<Longrightarrow> kcp_reach cfg N s s'"
  by (rule kcp_reach.step [OF kcp_reach.start])

text \<open>A read that empties what a short read left over.\<close>

lemma read_step:
  assumes "kcp_inv N s"
  obtains s' where "kcp_step cfg N s s'" "ks_log s' = ks_log s" "rw_leftOver (ks_rcv s') = None"
    "unat (rw_nextNumber (ks_rcv s)) \<le> unat (rw_nextNumber (ks_rcv s'))"
    "ks_now s' = ks_now s" "\<forall>R. steady R s \<longrightarrow> steady R s'"
proof -
  obtain mb rcv' where r: "ReceivingWorker_ReadMultiBuffer (ks_rcv s) = (mb, rcv')"
    by (cases "ReceivingWorker_ReadMultiBuffer (ks_rcv s)")
  have "rw_wf (nth (ks_log s)) (length (ks_log s)) (ks_rcv s)"
    using assms by (simp add: kcp_inv_def rw_inv_def)
  from ReadMultiBuffer_spec [OF this r]
  have "rw_leftOver rcv' = None" "unat (rw_nextNumber (ks_rcv s)) \<le> unat (rw_nextNumber rcv')" by blast+
  moreover have "kcp_step cfg N s (s\<lparr>ks_rcv := rcv', ks_out := ks_out s @ mb_content mb\<rparr>)"
    by (rule kcp_step.read [where op = AppReadMultiBuffer]) (simp_all add: r)
  ultimately show ?thesis using that by (simp add: steady_def paced_def)
qed

text \<open>A ping from the receiver makes the sender drop everything handed on.\<close>

lemma ping_steps:
  assumes "kcp_inv N s"
  obtains s' where "kcp_reach cfg N s s'" "ks_log s' = ks_log s" "ks_rcv s' = ks_rcv s"
    "cache (ks_snd s') = filter (\<lambda>x. rw_nextNumber (ks_rcv s) \<le> ds_Number x) (cache (ks_snd s))"
    "ks_now s' = ks_now s" "\<forall>R. steady R s \<longrightarrow> steady R s'"
proof -
  let ?c = "NewCmdOnlySegment\<lparr>cs_Cmd := CommandPing, cs_ReceivingNext := NextNumber (ks_rcv s),
    cs_PeerRTO := Timeout (ks_peer_rt s)\<rparr>"
  let ?s1 = "s\<lparr>ks_net := ks_net s \<union> {wire (CmdOnly ?c)}\<rparr>"
  have 1: "kcp_step cfg N s ?s1" by (rule kcp_step.send_ping) simp_all
  have "segment_ok (CmdOnly ?c)" by (simp add: CommandPing_def CommandData_def CommandACK_def)
  then have "read_segments (wire (CmdOnly ?c)) = [CmdOnly ?c]" using read_segments_wires [of "[CmdOnly ?c]"] by simp
  then have 2: "kcp_step cfg N ?s1 (?s1\<lparr>ks_snd := ProcessReceivingNext (cs_ReceivingNext ?c) (ks_snd ?s1),
      ks_rt := UpdatePeerRTO (cs_PeerRTO ?c) (elapsed ?s1) (ks_rt ?s1)\<rparr>)" (is "kcp_step cfg N ?s1 ?s2")
    by (intro kcp_step.ping [of "wire (CmdOnly ?c)"]) simp_all
  have "kcp_reach cfg N s ?s2" using kcp_reach.step [OF kcp_reach_one [OF 1] 2] .
  moreover have "sender_inv (ks_log s) (ks_snd s)" using assms by (simp add: kcp_inv_def)
  ultimately show ?thesis
    by (intro that [of ?s2]) (simp_all add: ProcessReceivingNext_spec(2) NextNumber_def
        steady_def paced_def rto_UpdatePeerRTO timely_ProcessReceivingNext)
qed

text \<open>The sender waits until the oldest segment is due, then a flush sends it, and it arrives.\<close>

lemma flush_head:
  assumes "kcp_inv N s" "GetSendingInFlightSize cfg \<noteq> None" "cache (ks_snd s) = x # xs" "is_due (elapsed s) x"
    and "unat (ds_Number x) < unat (rw_nextNumber (ks_rcv s)) + unat (rw_windowSize (ks_rcv s))"
  obtains s' where "kcp_reach cfg N s s'" "ks_log s' = ks_log s" "received (ks_rcv s') (ds_Number x)"
    "rw_nextNumber (ks_rcv s') = rw_nextNumber (ks_rcv s)" "rw_leftOver (ks_rcv s') = rw_leftOver (ks_rcv s)"
    "ks_now s' = ks_now s" "\<forall>R. steady R s \<longrightarrow> steady R s'"
proof -
  have inv: "sender_inv (ks_log s) (ks_snd s)" "\<not> w_closed (ks_snd s)"
    and rinv: "rw_inv (nth (ks_log s)) (length (ks_log s)) (ks_rcv s)"
    using assms(1) by (simp_all add: kcp_inv_def)
  obtain out ping snd' where f: "SendingWorker_Flush 0 StateActive cfg (ks_rt s) (elapsed s) (ks_snd s) = Some (out, ping, snd')"
    using SendingWorker_Flush_total [OF assms(2)] by fastforce
  let ?s1 = "s\<lparr>ks_snd := snd', ks_net := ks_net s \<union> (wire \<circ> Data) ` set out\<rparr>"
  have st1: "kcp_step cfg N s ?s1" by (rule kcp_step.send [OF f])
  have net: "net_ok (ks_log s) (ks_rcv s) (ks_net ?s1)" using send_kept [OF assms(1) f] by (simp add: kcp_inv_def)
  obtain cwnd where c: "flush_cwnd cfg (ks_snd s) = Some cwnd" using assms(2) flush_cwnd_Some by fastforce
  define seg where "seg = SendingWorker_Write 0 StateActive (ks_snd s) (stamp (elapsed s) (Timeout (ks_rt s)) x)"
  have "seg \<in> set out"
    using SendingWorker_Flush_spec(1) [OF inv(2) c f] assms(3,4) by (simp add: seg_def take_Cons' max_def)
  then have pk: "wire (Data seg) \<in> ks_net ?s1" by auto
  have sx: "ds_Number seg = ds_Number x" "ds_payload seg = ds_payload x"
    by (simp_all add: seg_def SendingWorker_Write_def stamp_def)
  have "genuine (nth (ks_log s)) (length (ks_log s)) x" using inv(1) assms(3) by (simp add: sender_inv_def)
  then obtain b where b: "ds_payload x = Some b" "buffer_wf b" "content b = ks_log s ! unat (ds_Number x)"
    "unat (ds_Number x) < length (ks_log s)" by (auto simp: genuine_def)
  have "content b \<noteq> []" "length (content b) \<le> 8192"
    using assms(1) b(3,4) by (auto simp: kcp_inv_def list_all_length)
  then have "ReadSegment (wire (Data seg)) = Some (Data (arrived seg b), [])" "wire (Data seg) \<noteq> []"
    using ReadSegment_Data_arrived [of seg b "[]"] b(1,2) sx(2) by (auto simp: ReadSegment_def)
  then have rs: "Data (arrived seg b) \<in> set (read_segments (wire (Data seg)))" by (simp add: read_segments.simps)
  have tr: "truthful (ks_log s) (ks_rcv s) (Data (arrived seg b))" by (rule arrival_truthful [OF net pk rs])
  let ?rcv = "ReceivingWorker_ProcessSegment (arrived seg b) (ks_rcv s)"
  have st2: "kcp_step cfg N ?s1 (?s1\<lparr>ks_rcv := ReceivingWorker_ProcessSegment (arrived seg b) (ks_rcv ?s1)\<rparr>)"
    by (rule kcp_step.data [OF pk rs])
  have num: "ds_Number (arrived seg b) = ds_Number x" by (simp add: arrived_def sx(1))
  have "received ?rcv (ds_Number x)"
    using ProcessSegment_received [OF rinv, of "arrived seg b"] tr assms(5) by (simp add: num)
  moreover have "rw_nextNumber ?rcv = rw_nextNumber (ks_rcv s)" "rw_leftOver ?rcv = rw_leftOver (ks_rcv s)"
    by (simp_all add: ReceivingWorker_ProcessSegment_def)
  moreover have "\<forall>R. unat (Timeout (ks_rt s)) \<le> R \<and> timely (ks_now s + R) (ks_snd s) \<longrightarrow> timely (ks_now s + R) snd'"
    using timely_Flush [OF _ f] by simp
  ultimately show ?thesis
    using kcp_reach.step [OF kcp_reach_one [OF st1] st2]
    by (intro that [of "?s1\<lparr>ks_rcv := ReceivingWorker_ProcessSegment (arrived seg b) (ks_rcv ?s1)\<rparr>"]) (simp_all add: steady_def paced_def)
qed

lemma send_head:
  assumes "kcp_inv N s" "GetSendingInFlightSize cfg \<noteq> None" "cache (ks_snd s) = x # xs"
    and "unat (ds_Number x) < unat (rw_nextNumber (ks_rcv s)) + unat (rw_windowSize (ks_rcv s))"
  obtains s' where "kcp_reach cfg N s s'" "ks_log s' = ks_log s" "received (ks_rcv s') (ds_Number x)"
    "rw_nextNumber (ks_rcv s') = rw_nextNumber (ks_rcv s)" "rw_leftOver (ks_rcv s') = rw_leftOver (ks_rcv s)"
    "ks_now s' < ks_now s + 4294967296"
    "\<forall>R. steady R s \<longrightarrow> steady R s' \<and> (ks_now s < 0x7FFFFFFF \<longrightarrow> ks_now s' \<le> ks_now s + R)"
proof -
  obtain d where d: "is_due (of_nat (ks_now s + d)) x" "d < 4294967296"
    "\<forall>R. ks_now s < 0x7FFFFFFF \<longrightarrow> unat (ds_timeout x) \<le> ks_now s + R \<longrightarrow> d \<le> R"
    by (rule due_wait)
  let ?s1 = "s\<lparr>ks_now := ks_now s + d, ks_peer_now := ks_peer_now s + d\<rparr>"
  have st: "kcp_step cfg N s ?s1" by (rule kcp_step.tick)
  have inv: "kcp_inv N ?s1" using assms(1) by (simp add: kcp_inv_def)
  have steady: "steady R ?s1 \<and> (ks_now s < 0x7FFFFFFF \<longrightarrow> d \<le> R)" if "steady R s" for R
    using that d(3) assms(3) by (auto simp: steady_def paced_def timely_def list_all_iff)
  obtain s' where s': "kcp_reach cfg N ?s1 s'" "ks_log s' = ks_log ?s1" "received (ks_rcv s') (ds_Number x)"
    "rw_nextNumber (ks_rcv s') = rw_nextNumber (ks_rcv ?s1)" "rw_leftOver (ks_rcv s') = rw_leftOver (ks_rcv ?s1)"
    "ks_now s' = ks_now ?s1" "\<forall>R. steady R ?s1 \<longrightarrow> steady R s'"
    by (rule flush_head [OF inv assms(2), of x xs]) (use assms(3,4) d(1) in simp_all)
  show ?thesis
    using s' d(2) steady kcp_reach_trans [OF s'(1) kcp_reach_one [OF st]] by (intro that [of s']) auto
qed

text \<open>The number of payloads pushed and not yet handed on.\<close>

definition missing :: "kcp_sys \<Rightarrow> nat" where
  "missing s = length (ks_log s) - unat (rw_nextNumber (ks_rcv s))"

lemma one_more:
  assumes "kcp_inv N s" "N \<le> 0x7FFFFFFE" "GetSendingInFlightSize cfg \<noteq> None"
    and "unat (rw_nextNumber (ks_rcv s)) < length (ks_log s)"
  obtains s' where "kcp_reach cfg N s s'" "ks_log s' = ks_log s"
    "unat (rw_nextNumber (ks_rcv s)) < unat (rw_nextNumber (ks_rcv s'))"
    "ks_now s' < ks_now s + 4294967296"
    "\<forall>R. steady R s \<longrightarrow> steady R s' \<and> (ks_now s < 0x7FFFFFFF \<longrightarrow> ks_now s' \<le> ks_now s + R)"
proof -
  obtain s1 where s1: "kcp_step cfg N s s1" "ks_log s1 = ks_log s" "rw_leftOver (ks_rcv s1) = None"
    "unat (rw_nextNumber (ks_rcv s)) \<le> unat (rw_nextNumber (ks_rcv s1))"
    "ks_now s1 = ks_now s" "\<forall>R. steady R s \<longrightarrow> steady R s1"
    by (rule read_step [OF assms(1)])
  show ?thesis
  proof (cases "unat (rw_nextNumber (ks_rcv s)) < unat (rw_nextNumber (ks_rcv s1))")
    case True
    then show ?thesis using that [OF kcp_reach_one [OF s1(1)] s1(2)] s1(5,6) by simp
  next
    case False
    then have nx: "rw_nextNumber (ks_rcv s1) = rw_nextNumber (ks_rcv s)"
      using s1(4) by (simp add: word_unat_eq_iff)
    let ?n = "rw_nextNumber (ks_rcv s)"
    have i1: "kcp_inv N s1" by (rule kcp_step_inv [OF s1(1) assms(1,2)])
    obtain s2 where s2: "kcp_reach cfg N s1 s2" "ks_log s2 = ks_log s1" "ks_rcv s2 = ks_rcv s1"
      "cache (ks_snd s2) = filter (\<lambda>x. rw_nextNumber (ks_rcv s1) \<le> ds_Number x) (cache (ks_snd s1))"
      "ks_now s2 = ks_now s1" "\<forall>R. steady R s1 \<longrightarrow> steady R s2"
      by (rule ping_steps [OF i1])
    have i2: "kcp_inv N s2" by (rule kcp_reach_inv [OF s2(1) i1 assms(2)])
    obtain s3 where s3: "kcp_reach cfg N s2 s3" "ks_log s3 = ks_log s" "received (ks_rcv s3) ?n"
      "rw_nextNumber (ks_rcv s3) = ?n" "rw_leftOver (ks_rcv s3) = None"
      "ks_now s3 < ks_now s2 + 4294967296"
      "\<forall>R. steady R s2 \<longrightarrow> steady R s3 \<and> (ks_now s2 < 0x7FFFFFFF \<longrightarrow> ks_now s3 \<le> ks_now s2 + R)"
    proof (cases "received (ks_rcv s2) ?n")
      case True
      then show ?thesis using that [OF kcp_reach.start] s1(2,3) s2(2,3) nx by simp
    next
      case nr: False
      then have "?n \<in> set (numbers (cache (ks_snd s2)))"
        using i2 assms(4) s1(2) s2(2) by (auto simp: kcp_inv_def)
      then obtain x xs where x: "cache (ks_snd s2) = x # xs" by (cases "cache (ks_snd s2)") auto
      have srt: "sorted_wrt (<) (numbers (cache (ks_snd s2)))" using i2 by (simp add: kcp_inv_def sender_inv_def)
      have "x \<in> set (cache (ks_snd s2))" by (simp add: x)
      then have "?n \<le> ds_Number x" unfolding s2(4) using nx by simp
      moreover have "ds_Number x \<le> ?n" using \<open>?n \<in> _\<close> srt unfolding x by auto
      ultimately have xn: "ds_Number x = ?n" by simp
      have "0 < unat (rw_windowSize (ks_rcv s2))" using i2 by (simp add: kcp_inv_def rw_inv_def rw_wf_def)
      then have "unat (ds_Number x) < unat (rw_nextNumber (ks_rcv s2)) + unat (rw_windowSize (ks_rcv s2))"
        using xn nx s2(3) by simp
      from send_head [OF i2 assms(3) x this] show ?thesis
        using that xn nx s1(2,3) s2(2,3) by metis
    qed
    have i3: "kcp_inv N s3" by (rule kcp_reach_inv [OF s3(1) i2 assms(2)])
    obtain mb rcv' where r: "ReceivingWorker_ReadMultiBuffer (ks_rcv s3) = (mb, rcv')"
      by (cases "ReceivingWorker_ReadMultiBuffer (ks_rcv s3)")
    have "\<forall>i. unat i < unat ?n + 1 \<longrightarrow> received (ks_rcv s3) i"
    proof (intro allI impI)
      fix i :: u32
      assume "unat i < unat ?n + 1"
      then have "unat i < unat ?n \<or> i = ?n" by (auto simp: word_unat_eq_iff)
      then show "received (ks_rcv s3) i" using s3(3,4) by (auto simp: received_def)
    qed
    moreover have "rw_inv (nth (ks_log s3)) (length (ks_log s3)) (ks_rcv s3)" using i3 by (simp add: kcp_inv_def)
    ultimately have "unat ?n + 1 \<le> unat (rw_nextNumber rcv')"
      using hands_on(1) [OF _ s3(5) _ r] by blast
    moreover have "kcp_step cfg N s3 (s3\<lparr>ks_rcv := rcv', ks_out := ks_out s3 @ mb_content mb\<rparr>)"
      by (rule kcp_step.read [where op = AppReadMultiBuffer]) (simp_all add: r)
    then have "kcp_reach cfg N s (s3\<lparr>ks_rcv := rcv', ks_out := ks_out s3 @ mb_content mb\<rparr>)"
      using kcp_reach_trans s3(1) s2(1) kcp_reach_one [OF s1(1)] kcp_reach_one by meson
    ultimately show ?thesis using that s1(5,6) s2(5,6) s3(2,6,7) by (simp add: steady_def paced_def)
  qed
qed

lemma all_delivered:
  assumes "kcp_inv N s" "N \<le> 0x7FFFFFFE" "GetSendingInFlightSize cfg \<noteq> None"
  shows "\<exists>s'. kcp_reach cfg N s s' \<and> ks_log s' = ks_log s \<and> ks_out s' = concat (ks_log s) \<and>
    ks_now s' \<le> ks_now s + missing s * 4294967296 \<and>
    (\<forall>R. steady R s \<and> ks_now s + missing s * R < 0x7FFFFFFF \<longrightarrow> ks_now s' \<le> ks_now s + missing s * R)"
  using assms(1)
proof (induction "missing s" arbitrary: s rule: less_induct)
  case less
  show ?case
  proof (cases "unat (rw_nextNumber (ks_rcv s)) < length (ks_log s)")
    case True
    obtain s1 where s1: "kcp_reach cfg N s s1" "ks_log s1 = ks_log s"
      "unat (rw_nextNumber (ks_rcv s)) < unat (rw_nextNumber (ks_rcv s1))" "ks_now s1 < ks_now s + 4294967296"
      "\<forall>R. steady R s \<longrightarrow> steady R s1 \<and> (ks_now s < 0x7FFFFFFF \<longrightarrow> ks_now s1 \<le> ks_now s + R)"
      by (rule one_more [OF less.prems assms(2,3) True])
    have fewer: "missing s1 + 1 \<le> missing s" using True s1(2,3) by (simp add: missing_def)
    then have bound: "k + missing s1 * k \<le> missing s * k" for k
      using mult_le_mono1 [OF fewer, of k] by simp
    obtain s2 where s2: "kcp_reach cfg N s1 s2" "ks_log s2 = ks_log s1" "ks_out s2 = concat (ks_log s1)"
      "ks_now s2 \<le> ks_now s1 + missing s1 * 4294967296"
      "\<forall>R. steady R s1 \<and> ks_now s1 + missing s1 * R < 0x7FFFFFFF \<longrightarrow> ks_now s2 \<le> ks_now s1 + missing s1 * R"
      using less.hyps [of s1] kcp_reach_inv [OF s1(1) less.prems assms(2)] fewer by auto
    have "ks_now s2 \<le> ks_now s + missing s * 4294967296"
      using s1(4) s2(4) bound [of 4294967296] by linarith
    moreover have "ks_now s2 \<le> ks_now s + missing s * R" if "steady R s" "ks_now s + missing s * R < 0x7FFFFFFF" for R
    proof -
      have le: "ks_now s1 \<le> ks_now s + R" "steady R s1" using s1(5) that by auto
      then have "ks_now s1 + missing s1 * R < 0x7FFFFFFF" using that(2) bound [of R] by linarith
      then have "ks_now s2 \<le> ks_now s1 + missing s1 * R" using s2(5) le(2) by blast
      then show ?thesis using le(1) bound [of R] by linarith
    qed
    ultimately show ?thesis
      using s1(2) s2(2,3) kcp_reach_trans [OF s2(1) s1(1)] by (intro exI [of _ s2]) simp
  next
    case False
    obtain s1 where s1: "kcp_step cfg N s s1" "ks_log s1 = ks_log s" "rw_leftOver (ks_rcv s1) = None"
      "unat (rw_nextNumber (ks_rcv s)) \<le> unat (rw_nextNumber (ks_rcv s1))" "ks_now s1 = ks_now s"
      by (rule read_step [OF less.prems])
    have "kcp_inv N s1" by (rule kcp_step_inv [OF s1(1) less.prems assms(2)])
    then have "ks_out s1 = concat (take (unat (rw_nextNumber (ks_rcv s1))) (ks_log s1))"
      using s1(3) by (simp add: kcp_inv_def left_bytes_def)
    then have "ks_out s1 = concat (ks_log s)" using False s1(2,4) by simp
    then show ?thesis using kcp_reach_one [OF s1(1)] s1(2,5) by (intro exI [of _ s1]) simp
  qed
qed

section \<open>Properties\<close>

definition demo_rt :: RoundTripInfo where
  "demo_rt = \<lparr>rt_variation = 0, rt_srtt = 0, rt_rto = 100, rt_minRtt = 50, rt_updatedTimestamp = 0\<rparr>"

text \<open>A fresh connection into which two bytes have been pushed.\<close>

definition demo_pushed :: kcp_sys where
  "demo_pushed = (kcp_start demo_sender demo_receiver demo_rt)
     \<lparr>ks_snd := snd (SendingWorker_Push (FromBytes [1, 2]) demo_sender), ks_log := [[1, 2]]\<rparr>"

lemma demo_pushed_reached: "kcp_reach default_config 1000 (kcp_start demo_sender demo_receiver demo_rt) demo_pushed"
proof -
  let ?s = "kcp_start demo_sender demo_receiver demo_rt"
  have "SendingWorker_Push (FromBytes [1, 2]) (ks_snd ?s) =
      (True, snd (SendingWorker_Push (FromBytes [1, 2]) demo_sender))"
    by (simp add: SendingWorker_Push_def kcp_start_def demo_sender_def SendingWindow_Len_def NewSendingWindow_def)
  then have "kcp_step default_config 1000 ?s (?s\<lparr>ks_snd := snd (SendingWorker_Push (FromBytes [1, 2]) demo_sender),
      ks_log := ks_log ?s @ [content (FromBytes [1, 2])]\<rparr>)"
    by (rule kcp_step.push) (simp_all add: wf_FromBytes content_FromBytes kcp_start_def)
  then show ?thesis
    by (intro kcp_reach_one) (simp add: demo_pushed_def content_FromBytes kcp_start_def)
qed

text \<open>
  C19: Reliable, ordered delivery. In every state the two sides and the network can reach, with
  packets lost, delayed, reordered and repeated at will, the bytes handed to the application
  are a prefix of the bytes pushed into the sender, and every payload the receiver does not
  have yet is still in the sender's window, so that it will be sent again: an acknowledgement
  never removes what did not arrive.
\<close>

theorem kcp_reliable:
  assumes "NewSendingWorker cfg = Some w" "NewReceivingWorker cfg' = Some rcv"
    and "N \<le> 0x7FFFFFFE" "N + unat (rw_windowSize rcv) \<le> 4294967296"
    and "kcp_reach cfg N (kcp_start w rcv rt) s"
  shows "(\<exists>rest. concat (ks_log s) = ks_out s @ rest) \<and>
    (\<forall>n. unat n < length (ks_log s) \<longrightarrow>
       n \<in> set (numbers (cache (ks_snd s))) \<or> received (ks_rcv s) n)"
proof -
  have inv: "kcp_inv N s"
    by (rule kcp_reach_inv [OF assms(5) kcp_start_inv [OF assms(1,2,4)] assms(3)])
  then have "concat (take (unat (rw_nextNumber (ks_rcv s))) (ks_log s)) = ks_out s @ left_bytes (ks_rcv s)"
    by (simp add: kcp_inv_def)
  then have "concat (ks_log s) = ks_out s @ left_bytes (ks_rcv s) @
      concat (drop (unat (rw_nextNumber (ks_rcv s))) (ks_log s))"
    by (metis append_take_drop_id concat_append append_assoc)
  with inv show ?thesis by (auto simp: kcp_inv_def)
qed

theorem kcp_reliable_witness:
  "(\<exists>rest. concat (ks_log demo_pushed) = ks_out demo_pushed @ rest) \<and>
   (0 \<in> set (numbers (cache (ks_snd demo_pushed))) \<or> received (ks_rcv demo_pushed) 0)"
  using kcp_reliable [OF demo_sender_New demo_receiver_New _ _ demo_pushed_reached]
  by (auto simp: demo_receiver_def demo_pushed_def)

text \<open>
  C20: no deadlock, with the clocks of both sides only going forward. From every reachable state, whatever the network did
  before, there is a run (waiting, pings, flushes, arrivals and reads) after which the application has received every byte
  that was pushed. The wait is bounded: for each payload not yet handed on at most a period of the 32-bit clock, 49 days, as
  new data is held back while the clock is in its upper half; and while the clock stays below \<open>2 ^ 31 - 1\<close> ms (24 days) at
  most \<open>R\<close> ms, where no time-out that the peer uses or has asked for, nor the initial one, exceeds \<open>R\<close>, and \<open>R\<close> is at
  least the 12500 ms that the connection's own estimate can reach.
\<close>

theorem kcp_can_deliver:
  assumes "NewSendingWorker cfg = Some w" "NewReceivingWorker cfg' = Some rcv"
    and "N \<le> 0x7FFFFFFE" "N + unat (rw_windowSize rcv) \<le> 4294967296"
    and "kcp_reach cfg N (kcp_start w rcv rt) s"
  shows "\<exists>s'. kcp_reach cfg N s s' \<and> ks_log s' = ks_log s \<and> ks_out s' = concat (ks_log s) \<and>
    ks_now s' \<le> ks_now s + missing s * 4294967296 \<and>
    (12500 \<le> R \<and> unat (Timeout rt) \<le> R \<and> peer_asks R s \<and> ks_now s + missing s * R < 0x7FFFFFFF \<longrightarrow>
       ks_now s' \<le> ks_now s + missing s * R)"
proof -
  have "kcp_inv N s"
    by (rule kcp_reach_inv [OF assms(5) kcp_start_inv [OF assms(1,2,4)] assms(3)])
  moreover have "GetSendingInFlightSize cfg \<noteq> None"
    using assms(1) by (auto simp: NewSendingWorker_def bind_eq_Some_conv)
  moreover have "steady R s" if "12500 \<le> R" "unat (Timeout rt) \<le> R" "peer_asks R s"
    using reach_paced [OF assms(5,1) that(2,1)] that(3) by (simp add: steady_def peer_asks_def)
  ultimately show ?thesis using all_delivered [OF _ assms(3), of s cfg] by blast
qed

theorem kcp_can_deliver_witness:
  "\<exists>s'. kcp_reach default_config 1000 demo_pushed s' \<and> ks_log s' = [[1, 2]] \<and> ks_out s' = [1, 2] \<and> ks_now s' \<le> 12500"
proof -
  have "ks_log demo_pushed = [[1, 2]]" "ks_now demo_pushed = 0" "missing demo_pushed = 1" "peer_asks 12500 demo_pushed"
    by (simp_all add: demo_pushed_def kcp_start_def missing_def peer_asks_def demo_receiver_def demo_rt_def Timeout_def)
  then show ?thesis
    using kcp_can_deliver [OF demo_sender_New demo_receiver_New _ _ demo_pushed_reached, of 12500]
    by (auto simp: demo_receiver_def demo_rt_def Timeout_def)
qed

end
