(* ===== verification/KCP_Output.thy ===== *)
theory KCP_Output
  imports KCP_Segment
begin

text \<open>
  \<^verbatim>\<open>transport/internet/kcp/output.go\<close>: the writer that a connection hands its segments to. It
  serializes a segment into its one buffer, from the pool, and writes that as one packet; a
  failed write is repeated (\<^verbatim>\<open>common/retry\<close>: five attempts, 100 ms apart; the waiting has no
  effect on the state). \<open>None\<close> is a panic: \<^verbatim>\<open>Extend\<close> on a segment that does not fit the buffer, or
  the serialization of a data segment without a payload.
\<close>

record SimpleSegmentWriter =
  ssw_buffer :: Buffer
  ssw_writer :: sink

definition NewSegmentWriter :: "sink \<Rightarrow> SimpleSegmentWriter" where
  "NewSegmentWriter writer = \<lparr>ssw_buffer = fresh_buffer, ssw_writer = writer\<rparr>"

definition SimpleSegmentWriter_Write ::
  "Segment \<Rightarrow> SimpleSegmentWriter \<Rightarrow> (goerr option \<times> SimpleSegmentWriter) option" where
  "SimpleSegmentWriter_Write seg w =
     do {
       b \<leftarrow> Buffer_Extend (Buffer_Clear (ssw_buffer w)) (ByteSize seg);
       raw \<leftarrow> Serialize seg;
       b' \<leftarrow> Some (b\<lparr>b_v := blit (b_v b) 0 raw\<rparr>);
       bs \<leftarrow> Buffer_Bytes b';
       Some (case io_Write bs (ssw_writer w) of (n, e, s) \<Rightarrow> (e, \<lparr>ssw_buffer = b', ssw_writer = s\<rparr>))
     }"

definition ErrRetryFailed :: goerr where "ErrRetryFailed = ErrMsg ''all retry attempts failed''"

fun retryer_On :: "nat \<Rightarrow> ('s \<Rightarrow> (goerr option \<times> 's) option) \<Rightarrow> 's \<Rightarrow> (goerr option \<times> 's) option" where
  "retryer_On 0 method s = Some (Some ErrRetryFailed, s)"
| "retryer_On (Suc attempts) method s =
     (case method s of
        None \<Rightarrow> None
      | Some (None, s') \<Rightarrow> Some (None, s')
      | Some (Some e, s') \<Rightarrow> retryer_On attempts method s')"

definition RetryableWriter_Write ::
  "Segment \<Rightarrow> SimpleSegmentWriter \<Rightarrow> (goerr option \<times> SimpleSegmentWriter) option" where
  "RetryableWriter_Write seg = retryer_On 5 (SimpleSegmentWriter_Write seg)"

section \<open>Segments that fit\<close>

definition small_payload :: "DataSegment \<Rightarrow> bool" where
  "small_payload s \<longleftrightarrow> (\<exists>b. ds_payload s = Some b \<and> buffer_wf b \<and> length (content b) \<le> 8174)"

fun fits_buffer :: "Segment \<Rightarrow> bool" where
  "fits_buffer (Data s) \<longleftrightarrow> small_payload s"
| "fits_buffer (Ack s) \<longleftrightarrow> length (as_NumberList s) \<le> 128"
| "fits_buffer (CmdOnly s) \<longleftrightarrow> True"

lemma fits_buffer_Serialize:
  assumes "fits_buffer seg"
  obtains raw where "Serialize seg = Some raw" "ByteSize seg = int (length raw)" "length raw \<le> 8192" "wire seg = raw"
proof (cases seg)
  case (Data s)
  then obtain b where b: "ds_payload s = Some b" "buffer_wf b" "length (content b) \<le> 8174"
    using assms by (auto simp: small_payload_def)
  then show thesis
    using Data that by (simp add: DataSegment_Serialize_def wire_def Buffer_Len_content i32_def PutUint16_def PutUint32_def)
next
  case (Ack s)
  have "length (concat (map PutUint32 ns)) = length ns * 4" for ns by (induction ns) (simp_all add: PutUint32_def)
  then show thesis
    using Ack assms that by (simp add: AckSegment_Serialize_def wire_def i32_def PutUint16_def PutUint32_def)
next
  case (CmdOnly s)
  then show thesis using that by (simp add: CmdOnlySegment_Serialize_def wire_def PutUint16_def PutUint32_def)
qed

text \<open>The buffer of the writer is one of the pool, and stays one.\<close>

definition ssw_wf :: "SimpleSegmentWriter \<Rightarrow> bool" where
  "ssw_wf w \<longleftrightarrow> length (b_v (ssw_buffer w)) = 8192"

lemma ssw_wf_New: "ssw_wf (NewSegmentWriter s)"
  by (simp add: ssw_wf_def NewSegmentWriter_def buf_New_def Size_def)

lemma SimpleSegmentWriter_Write_fits:
  assumes "fits_buffer seg" "ssw_wf w"
  obtains b where "length (b_v b) = 8192"
    "SimpleSegmentWriter_Write seg w = Some (case io_Write (wire seg) (ssw_writer w) of (n, e, s) \<Rightarrow> (e, \<lparr>ssw_buffer = b, ssw_writer = s\<rparr>))"
proof -
  obtain raw where raw: "Serialize seg = Some raw" "ByteSize seg = int (length raw)" "length raw \<le> 8192" "wire seg = raw"
    by (rule fits_buffer_Serialize [OF assms(1)])
  let ?b = "Buffer_Clear (ssw_buffer w)"
  have "go_slice (b_v ?b) 0 (int (length raw)) = Some (take (length raw) (b_v ?b))"
    using raw(3) assms(2) by (simp add: go_slice_def ssw_wf_def Buffer_Clear_def)
  then obtain b where b: "Buffer_Extend ?b (ByteSize seg) = Some b" "length (b_v b) = 8192" "b_start b = 0" "b_end b = int (length raw)"
    using raw(2,3) assms(2) by (simp add: Buffer_Extend_def Buffer_Clear_def Let_def i32_def b_len32_def ssw_wf_def)
  let ?b' = "b\<lparr>b_v := blit (b_v b) 0 raw\<rparr>"
  have "Buffer_Bytes ?b' = Some raw"
    using b raw(3) by (simp add: Buffer_Bytes_def go_slice_def blit_def)
  then have "SimpleSegmentWriter_Write seg w =
      Some (case io_Write (wire seg) (ssw_writer w) of (n, e, s) \<Rightarrow> (e, \<lparr>ssw_buffer = ?b', ssw_writer = s\<rparr>))"
    using b(1) raw(1,4) by (simp add: SimpleSegmentWriter_Write_def)
  moreover have "length (b_v ?b') = 8192" using b(2) raw(3) by simp
  ultimately show thesis using that by blast
qed

lemma retryer_On_returns:
  assumes "\<And>s. P s \<Longrightarrow> \<exists>e s'. method s = Some (e, s') \<and> P s'" "P s"
  shows "\<exists>e s'. retryer_On n method s = Some (e, s') \<and> P s'"
  using assms(2)
proof (induction n arbitrary: s)
  case (Suc n)
  obtain e s' where "method s = Some (e, s')" "P s'" using assms(1) [OF Suc.prems] by blast
  then show ?case using Suc.IH [of s'] by (cases e) auto
qed simp

text \<open>
  A segment of at most 8192 bytes is written without a panic, and, by a connection that does not
  fail, as one packet.
\<close>

lemma RetryableWriter_returns:
  assumes "fits_buffer seg" "ssw_wf w"
  shows "\<exists>e w'. RetryableWriter_Write seg w = Some (e, w') \<and> ssw_wf w'"
  unfolding RetryableWriter_Write_def
proof (rule retryer_On_returns)
  fix w
  assume "ssw_wf w"
  from SimpleSegmentWriter_Write_fits [OF assms(1) this]
  show "\<exists>e w'. SimpleSegmentWriter_Write seg w = Some (e, w') \<and> ssw_wf w'"
    by (fastforce simp: ssw_wf_def split: prod.splits)
qed (rule assms(2))

lemma RetryableWriter_packet:
  assumes "fits_buffer seg" "ssw_wf w" "faults (ssw_writer w) = []"
  shows "\<exists>w'. RetryableWriter_Write seg w = Some (None, w') \<and>
    ssw_writer w' = (ssw_writer w)\<lparr>written := written (ssw_writer w) @ [wire seg]\<rparr>"
proof -
  obtain b where "SimpleSegmentWriter_Write seg w =
      Some (case io_Write (wire seg) (ssw_writer w) of (n, e, s) \<Rightarrow> (e, \<lparr>ssw_buffer = b, ssw_writer = s\<rparr>))"
    using SimpleSegmentWriter_Write_fits [OF assms(1,2)] by metis
  then show ?thesis
    using assms(3) by (simp add: RetryableWriter_Write_def numeral_eq_Suc io_Write.simps)
qed

text \<open>A data segment with a payload of 8175 bytes does not fit: a maximum segment size that large panics.\<close>

lemma large_segment_panics:
  assumes "ds_payload s = Some b" "buffer_wf b" "8174 < length (content b)" "length (content b) \<le> 8192" "ssw_wf w"
  shows "RetryableWriter_Write (Data s) w = None"
proof -
  have "Buffer_Extend (Buffer_Clear (ssw_buffer w)) (ByteSize (Data s)) = None"
    using assms by (simp add: Buffer_Extend_def Buffer_Clear_def Let_def i32_def b_len32_def ssw_wf_def Buffer_Len_content)
  then show ?thesis by (simp add: RetryableWriter_Write_def SimpleSegmentWriter_Write_def numeral_eq_Suc)
qed

end
