(* ===== verification/KCP_Connection.thy ===== *)
theory KCP_Connection
  imports KCP_Sending KCP_Receiving KCP_Output
begin

unbundle bit_operations_syntax

text \<open>
  \<^verbatim>\<open>transport/internet/kcp/connection.go\<close>: the connection that ties the two workers together. Its
  operations are functions on the record \<open>Connection\<close>; \<open>current\<close> is the reading of the clock
  (\<^verbatim>\<open>Elapsed\<close>, milliseconds since the start) at which an operation runs. \<open>cn_output\<close> lists the
  segments handed to the output writer, newest last. Notifiers are channels that hold at most one
  token. \<open>None\<close> is a panic. Each operation is one step: the source reads the state and sets it
  without holding a lock in between, so that operations of several goroutines can interleave
  there; runs here take the operations one after the other. What the output writer does with a
  segment is in \<open>KCP_Output\<close>. The goroutine that \<^verbatim>\<open>SetState\<close> starts on termination is recorded in
  \<open>cn_terminating\<close> and runs as \<open>Terminate\<close>.
\<close>

section \<open>Updaters\<close>

record Updater =
  u_interval :: int
  u_running :: bool

definition NewUpdater :: "u32 \<Rightarrow> Updater" where
  "NewUpdater interval = \<lparr>u_interval = uint interval * 1000000, u_running = False\<rparr>"

text \<open>The notifier starts with one token, which a running updater holds.\<close>

definition WakeUp :: "Updater \<Rightarrow> Updater" where
  "WakeUp u = (if \<not> u_running u then u\<lparr>u_running := True\<rparr> else u)"

definition SetInterval :: "int \<Rightarrow> Updater \<Rightarrow> Updater" where
  "SetInterval d u = u\<lparr>u_interval := d\<rparr>"

definition time_Second :: int where "time_Second = 1000000000"

section \<open>The connection\<close>

definition DataSegmentOverhead :: u32 where "DataSegmentOverhead = 18"

record Connection =
  cn_Conversation :: u16
  cn_Config :: Config
  cn_rd :: "int option"
  cn_wd :: "int option"
  cn_dataInput :: bool
  cn_dataOutput :: bool
  cn_state :: State
  cn_stateBeginTime :: u32
  cn_lastIncomingTime :: u32
  cn_lastPingTime :: u32
  cn_mss :: u32
  cn_roundTrip :: RoundTripInfo
  cn_receivingWorker :: ReceivingWorker
  cn_sendingWorker :: SendingWorker
  cn_output :: "Segment list"
  cn_dataUpdater :: Updater
  cn_pingUpdater :: Updater
  cn_terminating :: bool
  cn_closed :: bool

definition ErrIOTimeout :: goerr where "ErrIOTimeout = ErrMsg ''Read/Write timeout''"
definition ErrClosedConnection :: goerr where "ErrClosedConnection = ErrMsg ''Connection closed.''"

definition NewConnection :: "u16 \<Rightarrow> nat \<Rightarrow> Config \<Rightarrow> Connection option" where
  "NewConnection conv overhead config =
     do {
       rw \<leftarrow> NewReceivingWorker config;
       sw \<leftarrow> NewSendingWorker config;
       Some \<lparr>cn_Conversation = conv, cn_Config = config, cn_rd = None, cn_wd = None,
             cn_dataInput = False, cn_dataOutput = False, cn_state = StateActive,
             cn_stateBeginTime = 0, cn_lastIncomingTime = 0, cn_lastPingTime = 0,
             cn_mss = GetMTUValue config - of_nat overhead - DataSegmentOverhead,
             cn_roundTrip = \<lparr>rt_variation = 0, rt_srtt = 0, rt_rto = 100, rt_minRtt = GetTTIValue config,
                             rt_updatedTimestamp = 0\<rparr>,
             cn_receivingWorker = rw, cn_sendingWorker = sw, cn_output = [],
             cn_dataUpdater = NewUpdater (GetTTIValue config),
             cn_pingUpdater = WakeUp (NewUpdater 5000),
             cn_terminating = False, cn_closed = False\<rparr>
     }"

definition isTerminating :: "Connection \<Rightarrow> bool" where
  "isTerminating c \<longleftrightarrow> State_Is (cn_state c) [StateTerminating, StateTerminated]"

definition isTerminated :: "Connection \<Rightarrow> bool" where
  "isTerminated c \<longleftrightarrow> cn_state c = StateTerminated"

abbreviation wake_data :: "Connection \<Rightarrow> Connection" where
  "wake_data c \<equiv> c\<lparr>cn_dataUpdater := WakeUp (cn_dataUpdater c)\<rparr>"

text \<open>What entering a state does beyond recording it and the time.\<close>

definition enter_state :: "State \<Rightarrow> Connection \<Rightarrow> Connection" where
  "enter_state state c =
     (let close_read = (\<lambda>c. c\<lparr>cn_receivingWorker := CloseRead (cn_receivingWorker c)\<rparr>);
          close_write = (\<lambda>c. c\<lparr>cn_sendingWorker := CloseWrite (cn_sendingWorker c)\<rparr>);
          fast_ping = (\<lambda>c. c\<lparr>cn_pingUpdater := SetInterval time_Second (cn_pingUpdater c)\<rparr>)
      in case state of
           StateActive \<Rightarrow> c
         | StateReadyToClose \<Rightarrow> close_read c
         | StatePeerClosed \<Rightarrow> close_write c
         | StateTerminating \<Rightarrow> fast_ping (close_write (close_read c))
         | StatePeerTerminating \<Rightarrow> fast_ping (close_write c)
         | StateTerminated \<Rightarrow>
             (let c1 = wake_data (fast_ping (close_write (close_read c)))
              in c1\<lparr>cn_pingUpdater := WakeUp (cn_pingUpdater c1), cn_terminating := True\<rparr>))"

definition SetState :: "u32 \<Rightarrow> State \<Rightarrow> Connection \<Rightarrow> Connection" where
  "SetState current state c = enter_state state (c\<lparr>cn_state := state, cn_stateBeginTime := current\<rparr>)"

definition signal_both :: "Connection \<Rightarrow> Connection" where
  "signal_both c = c\<lparr>cn_dataInput := True, cn_dataOutput := True\<rparr>"

definition Connection_Close :: "u32 \<Rightarrow> Connection \<Rightarrow> goerr option \<times> Connection" where
  "Connection_Close current c0 =
     (let c = signal_both c0
      in case cn_state c of
           StateReadyToClose \<Rightarrow> (Some ErrClosedConnection, c)
         | StateTerminating \<Rightarrow> (Some ErrClosedConnection, c)
         | StateTerminated \<Rightarrow> (Some ErrClosedConnection, c)
         | StateActive \<Rightarrow> (None, SetState current StateReadyToClose c)
         | StatePeerClosed \<Rightarrow> (None, SetState current StateTerminating c)
         | StatePeerTerminating \<Rightarrow> (None, SetState current StateTerminated c))"

definition SetReadDeadline :: "int option \<Rightarrow> Connection \<Rightarrow> goerr option \<times> Connection" where
  "SetReadDeadline t c =
     (if cn_state c \<noteq> StateActive then (Some ErrClosedConnection, c) else (None, c\<lparr>cn_rd := t\<rparr>))"

definition SetWriteDeadline :: "int option \<Rightarrow> Connection \<Rightarrow> goerr option \<times> Connection" where
  "SetWriteDeadline t c =
     (if cn_state c \<noteq> StateActive then (Some ErrClosedConnection, c) else (None, c\<lparr>cn_wd := t\<rparr>))"

definition SetDeadline :: "int option \<Rightarrow> Connection \<Rightarrow> goerr option \<times> Connection" where
  "SetDeadline t c =
     (case SetReadDeadline t c of
        (Some e, c1) \<Rightarrow> (Some e, c1)
      | (None, c1) \<Rightarrow> SetWriteDeadline t c1)"

definition Terminate :: "Connection \<Rightarrow> Connection" where
  "Terminate c =
     (let c1 = signal_both c
      in c1\<lparr>cn_closed := True, cn_sendingWorker := SendingWorker_Release (cn_sendingWorker c1),
            cn_receivingWorker := ReceivingWorker_Release (cn_receivingWorker c1)\<rparr>)"

definition OnPeerClosed :: "u32 \<Rightarrow> Connection \<Rightarrow> Connection" where
  "OnPeerClosed current c =
     (if cn_state c = StateReadyToClose then SetState current StateTerminating c
      else if cn_state c = StateActive then SetState current StatePeerClosed c
      else c)"

definition HandleOption :: "u32 \<Rightarrow> byte \<Rightarrow> Connection \<Rightarrow> Connection" where
  "HandleOption current opt c =
     (if opt AND SegmentOptionClose = SegmentOptionClose then OnPeerClosed current c else c)"

section \<open>Input\<close>

definition input_data :: "u32 \<Rightarrow> DataSegment \<Rightarrow> Connection \<Rightarrow> Connection" where
  "input_data current seg c =
     (let c1 = HandleOption current (ds_Option seg) c;
          c2 = c1\<lparr>cn_receivingWorker := ReceivingWorker_ProcessSegment seg (cn_receivingWorker c1)\<rparr>;
          c3 = (if IsDataAvailable (cn_receivingWorker c2) then c2\<lparr>cn_dataInput := True\<rparr> else c2)
      in wake_data c3)"

definition input_ack :: "u32 \<Rightarrow> AckSegment \<Rightarrow> Connection \<Rightarrow> Connection" where
  "input_ack current seg c =
     (let c1 = HandleOption current (as_Option seg) c
      in case SendingWorker_ProcessSegment current seg (Timeout (cn_roundTrip c1)) (cn_sendingWorker c1)
             (cn_roundTrip c1) of
           (sw, rt) \<Rightarrow> wake_data (c1\<lparr>cn_sendingWorker := sw, cn_roundTrip := rt, cn_dataOutput := True\<rparr>))"

definition peer_terminates :: "u32 \<Rightarrow> Connection \<Rightarrow> Connection" where
  "peer_terminates current c =
     (if cn_state c = StateActive \<or> cn_state c = StatePeerClosed then SetState current StatePeerTerminating c
      else if cn_state c = StateReadyToClose then SetState current StateTerminating c
      else if cn_state c = StateTerminating then SetState current StateTerminated c
      else c)"

definition input_cmd :: "u32 \<Rightarrow> CmdOnlySegment \<Rightarrow> Connection \<Rightarrow> Connection" where
  "input_cmd current seg c =
     (let c1 = HandleOption current (cs_Option seg) c;
          c2 = (if cs_Cmd seg = CommandTerminate then peer_terminates current c1 else c1);
          c3 = (if cs_Option seg = SegmentOptionClose \<or> cs_Cmd seg = CommandTerminate then signal_both c2 else c2)
      in c3\<lparr>cn_sendingWorker := ProcessReceivingNext (cs_ReceivingNext seg) (cn_sendingWorker c3),
            cn_receivingWorker := ProcessSendingNext (cs_SendingNext seg) (cn_receivingWorker c3),
            cn_roundTrip := UpdatePeerRTO (cs_PeerRTO seg) current (cn_roundTrip c3)\<rparr>)"

fun input_segment :: "u32 \<Rightarrow> Segment \<Rightarrow> Connection \<Rightarrow> Connection" where
  "input_segment current (Data seg) c = input_data current seg c"
| "input_segment current (Ack seg) c = input_ack current seg c"
| "input_segment current (CmdOnly seg) c = input_cmd current seg c"

fun input_loop :: "u32 \<Rightarrow> Segment list \<Rightarrow> Connection \<Rightarrow> Connection" where
  "input_loop current [] c = c"
| "input_loop current (seg # segs) c =
     (if Conversation seg \<noteq> cn_Conversation c then c
      else input_loop current segs (input_segment current seg c))"

definition Input :: "u32 \<Rightarrow> Segment list \<Rightarrow> Connection \<Rightarrow> Connection" where
  "Input current segments c = input_loop current segments (c\<lparr>cn_lastIncomingTime := current\<rparr>)"

section \<open>Output\<close>

definition Ping :: "u32 \<Rightarrow> byte \<Rightarrow> Connection \<Rightarrow> Connection" where
  "Ping current cmd c =
     (let seg = NewCmdOnlySegment\<lparr>cs_Conv := cn_Conversation c, cs_Cmd := cmd,
                  cs_ReceivingNext := NextNumber (cn_receivingWorker c),
                  cs_SendingNext := FirstUnacknowledged (cn_sendingWorker c),
                  cs_PeerRTO := Timeout (cn_roundTrip c),
                  cs_Option := (if cn_state c = StateReadyToClose then SegmentOptionClose else 0)\<rparr>
      in c\<lparr>cn_output := cn_output c @ [CmdOnly seg], cn_lastPingTime := current\<rparr>)"

definition flush_receiving :: "u32 \<Rightarrow> Connection \<Rightarrow> Connection" where
  "flush_receiving current c =
     (case ReceivingWorker_Flush (cn_Conversation c) (cn_state c) (Timeout (cn_roundTrip c)) current
             (cn_receivingWorker c) of
        (segs, rw) \<Rightarrow> c\<lparr>cn_receivingWorker := rw, cn_output := cn_output c @ map Ack segs\<rparr>)"

definition flush_sending :: "u32 \<Rightarrow> Connection \<Rightarrow> Connection option" where
  "flush_sending current c =
     (case SendingWorker_Flush (cn_Conversation c) (cn_state c) (cn_Config c) (cn_roundTrip c) current
             (cn_sendingWorker c) of
        None \<Rightarrow> None
      | Some (segs, updated, sw) \<Rightarrow>
          (let c1 = c\<lparr>cn_sendingWorker := sw, cn_output := cn_output c @ map Data segs\<rparr>
           in Some (if updated then Ping current CommandPing c1 else c1)))"

text \<open>The beginning of \<^verbatim>\<open>flush\<close>: closing an idle connection, and one whose data is all sent.\<close>

definition flush_close :: "u32 \<Rightarrow> Connection \<Rightarrow> Connection" where
  "flush_close current c =
     (let c1 = (if cn_state c = StateActive \<and> current - cn_lastIncomingTime c \<ge> 30000
                then snd (Connection_Close current c) else c)
      in if cn_state c1 = StateReadyToClose \<and> SendingWorker_IsEmpty (cn_sendingWorker c1)
         then SetState current StateTerminating c1 else c1)"

definition flush_timeouts :: "u32 \<Rightarrow> Connection \<Rightarrow> Connection" where
  "flush_timeouts current c =
     (let c1 = (if cn_state c = StatePeerTerminating \<and> current - cn_stateBeginTime c > 4000
                then SetState current StateTerminating c else c)
      in if cn_state c1 = StateReadyToClose \<and> current - cn_stateBeginTime c1 > 15000
         then SetState current StateTerminating c1 else c1)"

definition flush :: "u32 \<Rightarrow> Connection \<Rightarrow> Connection option" where
  "flush current c =
     (if cn_state c = StateTerminated then Some c
      else
        (let c1 = flush_close current c
         in if cn_state c1 = StateTerminating then
              (let c2 = Ping current CommandTerminate c1
               in Some (if current - cn_stateBeginTime c2 > 8000 then SetState current StateTerminated c2 else c2))
            else
              map_option (\<lambda>c3. if current - cn_lastPingTime c3 \<ge> 3000 then Ping current CommandPing c3 else c3)
                (flush_sending current (flush_receiving current (flush_timeouts current c1)))))"

text \<open>
  One round of an updater that runs: \<^verbatim>\<open>updateTask\<close>, or the end of its goroutine. The check
  \<^verbatim>\<open>shouldTerminate\<close> at its start is implied by the loop condition.
\<close>

definition data_round :: "u32 \<Rightarrow> Connection \<Rightarrow> Connection option" where
  "data_round current c =
     (if \<not> isTerminating c \<and>
         (SendingWorker_UpdateNecessary (cn_sendingWorker c) \<or> ReceivingWorker_UpdateNecessary (cn_receivingWorker c))
      then flush current c
      else Some (c\<lparr>cn_dataUpdater := (cn_dataUpdater c)\<lparr>u_running := False\<rparr>\<rparr>))"

definition ping_round :: "u32 \<Rightarrow> Connection \<Rightarrow> Connection option" where
  "ping_round current c =
     (if \<not> isTerminated c then flush current c
      else Some (c\<lparr>cn_pingUpdater := (cn_pingUpdater c)\<lparr>u_running := False\<rparr>\<rparr>))"

section \<open>Reading and writing\<close>

datatype 'a io_result = Returned "goerr option" 'a | Blocked

text \<open>One round of the read loops; \<open>Blocked\<close>: the caller waits for \<^verbatim>\<open>dataInput\<close> or its deadline.\<close>

definition Connection_ReadMultiBuffer :: "Connection \<Rightarrow> MultiBuffer io_result \<times> Connection" where
  "Connection_ReadMultiBuffer c =
     (if State_Is (cn_state c) [StateReadyToClose, StateTerminating, StateTerminated] then (Returned (Some EOF) [], c)
      else
        (case ReceivingWorker_ReadMultiBuffer (cn_receivingWorker c) of
           (mb, rw) \<Rightarrow>
             (let c1 = c\<lparr>cn_receivingWorker := rw\<rparr>
              in if \<not> MultiBuffer_IsEmpty mb then (Returned None mb, wake_data c1)
                 else if cn_state c1 = StatePeerTerminating then (Returned (Some EOF) [], c1)
                 else (Blocked, c1))))"

definition Connection_Read :: "nat \<Rightarrow> Connection \<Rightarrow> (byte list) io_result \<times> Connection" where
  "Connection_Read k c =
     (if State_Is (cn_state c) [StateReadyToClose, StateTerminating, StateTerminated] then (Returned (Some EOF) [], c)
      else
        (case ReceivingWorker_Read (cn_receivingWorker c) k of
           (bs, rw) \<Rightarrow>
             (let c1 = c\<lparr>cn_receivingWorker := rw\<rparr>
              in if length bs > 0 then (Returned None bs, wake_data c1) else (Blocked, c1))))"

text \<open>
  What a wait for input or output answers when it ends: \<open>None\<close>, the caller tries again. \<open>early\<close>:
  the notifier had a token during the first sixteen looks; otherwise the wait starts at \<open>start\<close>
  and ends at \<open>finish\<close>, by a token (\<open>late\<close>) or by the timer. Without a deadline the timer fires
  after 16 seconds, which is no error.
\<close>

definition wait_result :: "int option \<Rightarrow> bool \<Rightarrow> int \<Rightarrow> bool \<Rightarrow> int \<Rightarrow> goerr option" where
  "wait_result deadline early start late finish =
     (if early then None
      else
        (case deadline of
           None \<Rightarrow> None
         | Some d \<Rightarrow>
             (if d - start < 0 then Some ErrIOTimeout
              else if late then None
              else if d < finish then Some ErrIOTimeout
              else None)))"

text \<open>
  The write loop up to the point where it blocks or returns. A payload is what one read of at
  most \<^verbatim>\<open>mss\<close> bytes puts into a new buffer.
\<close>

definition payload_size :: "Connection \<Rightarrow> nat" where
  "payload_size c = min (unat (cn_mss c)) 8192"

function write_loop :: "byte list \<Rightarrow> Connection \<Rightarrow> unit io_result \<times> byte list \<times> Connection" where
  "write_loop data c =
     (if cn_state c \<noteq> StateActive then (Returned (Some ErrClosedPipe) (), data, c)
      else if take (payload_size c) data = [] then (Returned None (), data, c)
      else
        (case SendingWorker_Push (append_read fresh_buffer (take (payload_size c) data)) (cn_sendingWorker c) of
           (False, _) \<Rightarrow> (Blocked, data, c)
         | (True, sw) \<Rightarrow> write_loop (drop (payload_size c) data) (c\<lparr>cn_sendingWorker := sw\<rparr>)))"
  by pat_completeness auto
termination by (relation "measure (\<lambda>(data, c). length data)") auto

declare write_loop.simps [simp del]

text \<open>\<^verbatim>\<open>updatePending\<close>: the data updater is woken if anything was pushed.\<close>

definition writeMultiBufferInternal_round :: "byte list \<Rightarrow> Connection \<Rightarrow> unit io_result \<times> byte list \<times> Connection" where
  "writeMultiBufferInternal_round data c =
     (case write_loop data c of
        (r, rest, c') \<Rightarrow> (r, rest, if length rest < length data then wake_data c' else c'))"

section \<open>Moves between states\<close>

fun later :: "State \<Rightarrow> State \<Rightarrow> bool" where
  "later StateActive s \<longleftrightarrow> s \<noteq> StateActive"
| "later StateReadyToClose s \<longleftrightarrow> s = StateTerminating \<or> s = StateTerminated"
| "later StatePeerClosed s \<longleftrightarrow> s = StatePeerTerminating \<or> s = StateTerminating \<or> s = StateTerminated"
| "later StatePeerTerminating s \<longleftrightarrow> s = StateTerminating \<or> s = StateTerminated"
| "later StateTerminating s \<longleftrightarrow> s = StateTerminated"
| "later StateTerminated s \<longleftrightarrow> False"

lemma later_trans: "later a b \<Longrightarrow> later b c \<Longrightarrow> later a c"
  by (cases a; cases b; cases c; simp)

text \<open>What an operation at time \<open>current\<close> may do: stay, or move on and note the time.\<close>

definition moves :: "u32 \<Rightarrow> Connection \<Rightarrow> Connection \<Rightarrow> bool" where
  "moves current c c' \<longleftrightarrow>
     cn_Config c' = cn_Config c \<and>
     (cn_state c' = cn_state c \<and> cn_stateBeginTime c' = cn_stateBeginTime c \<or>
      later (cn_state c) (cn_state c') \<and> cn_stateBeginTime c' = current)"

lemma moves_refl [intro, simp]: "moves current c c"
  by (simp add: moves_def)

lemma moves_trans: "moves current a b \<Longrightarrow> moves current b c \<Longrightarrow> moves current a c"
  by (auto simp: moves_def intro: later_trans)

lemma moves_same [intro]:
  "cn_state c' = cn_state c \<Longrightarrow> cn_stateBeginTime c' = cn_stateBeginTime c \<Longrightarrow> cn_Config c' = cn_Config c \<Longrightarrow>
   moves current c c'"
  by (simp add: moves_def)

lemma SetState_simps [simp]:
  "cn_state (SetState current s c) = s" "cn_stateBeginTime (SetState current s c) = current"
  "cn_Config (SetState current s c) = cn_Config c" "cn_output (SetState current s c) = cn_output c"
  by (cases s; simp add: SetState_def enter_state_def Let_def)+

lemma moves_SetState [intro]: "later (cn_state c) s \<Longrightarrow> moves current c (SetState current s c)"
  by (simp add: moves_def)

lemma signal_both_simps [simp]:
  "cn_state (signal_both c) = cn_state c" "cn_stateBeginTime (signal_both c) = cn_stateBeginTime c"
  "cn_Config (signal_both c) = cn_Config c" "cn_output (signal_both c) = cn_output c"
  by (simp_all add: signal_both_def)

lemma Close_moves: "moves current c (snd (Connection_Close current c))"
proof -
  have "moves current c (signal_both c)" by (intro moves_same) simp_all
  moreover have "moves current (signal_both c) (snd (Connection_Close current c))"
    by (cases "cn_state c") (auto simp: Connection_Close_def Let_def)
  ultimately show ?thesis by (rule moves_trans)
qed

lemma HandleOption_moves: "moves current c (HandleOption current opt c)"
  by (auto simp: HandleOption_def OnPeerClosed_def)

lemma peer_terminates_moves: "moves current c (peer_terminates current c)"
  by (auto simp: peer_terminates_def)

lemma input_segment_moves: "moves current c (input_segment current seg c)"
proof (cases seg)
  case (Data s)
  have "moves current (HandleOption current (ds_Option s) c) (input_segment current seg c)"
    unfolding Data by (rule moves_same) (simp_all add: input_data_def Let_def)
  with HandleOption_moves show ?thesis by (rule moves_trans)
next
  case (Ack s)
  have "moves current (HandleOption current (as_Option s) c) (input_segment current seg c)"
    unfolding Ack by (rule moves_same) (simp_all add: input_ack_def Let_def split: prod.splits)
  with HandleOption_moves show ?thesis by (rule moves_trans)
next
  case (CmdOnly s)
  let ?c1 = "HandleOption current (cs_Option s) c"
  let ?c2 = "if cs_Cmd s = CommandTerminate then peer_terminates current ?c1 else ?c1"
  have "moves current ?c1 ?c2" by (simp add: peer_terminates_moves)
  with HandleOption_moves have "moves current c ?c2" by (rule moves_trans)
  moreover have "moves current ?c2 (input_segment current seg c)"
    unfolding CmdOnly by (rule moves_same) (simp_all add: input_cmd_def Let_def)
  ultimately show ?thesis by (rule moves_trans)
qed

lemma input_loop_moves: "moves current c (input_loop current segs c)"
proof (induction segs arbitrary: c)
  case (Cons seg segs)
  then show ?case using moves_trans [OF input_segment_moves Cons.IH] by simp
qed simp

lemma Input_moves: "moves current c (Input current segs c)"
proof -
  have "moves current c (c\<lparr>cn_lastIncomingTime := current\<rparr>)" by (rule moves_same) simp_all
  then show ?thesis unfolding Input_def using input_loop_moves by (rule moves_trans)
qed

lemma Ping_moves: "moves current c (Ping t cmd c)"
  by (rule moves_same) (simp_all add: Ping_def Let_def)

lemma flush_close_moves: "moves current c (flush_close current c)"
proof -
  let ?c1 = "if cn_state c = StateActive \<and> current - cn_lastIncomingTime c \<ge> 30000
    then snd (Connection_Close current c) else c"
  have "moves current c ?c1" by (simp add: Close_moves)
  moreover have "moves current ?c1 (flush_close current c)" by (auto simp: flush_close_def Let_def)
  ultimately show ?thesis by (rule moves_trans)
qed

lemma flush_timeouts_moves: "moves current c (flush_timeouts current c)"
proof -
  let ?c1 = "if cn_state c = StatePeerTerminating \<and> current - cn_stateBeginTime c > 4000
    then SetState current StateTerminating c else c"
  have "moves current c ?c1" by auto
  moreover have "moves current ?c1 (flush_timeouts current c)" by (auto simp: flush_timeouts_def Let_def)
  ultimately show ?thesis by (rule moves_trans)
qed

lemma flush_receiving_moves: "moves current c (flush_receiving t c)"
  by (rule moves_same) (simp_all add: flush_receiving_def split: prod.splits)

lemma flush_sending_moves: "flush_sending t c = Some c' \<Longrightarrow> moves current c c'"
proof -
  assume "flush_sending t c = Some c'"
  then obtain segs updated sw where "c' = (let c1 = c\<lparr>cn_sendingWorker := sw, cn_output := cn_output c @ map Data segs\<rparr>
      in if updated then Ping t CommandPing c1 else c1)"
    by (auto simp: flush_sending_def Let_def split: option.splits)
  then show ?thesis by (auto simp: Let_def Ping_def)
qed

lemma flush_moves: "flush current c = Some c' \<Longrightarrow> moves current c c'"
proof -
  assume f: "flush current c = Some c'"
  let ?c1 = "flush_close current c"
  show ?thesis
  proof (cases "cn_state c = StateTerminated")
    case True
    with f show ?thesis by (simp add: flush_def)
  next
    case nt: False
    show ?thesis
    proof (cases "cn_state ?c1 = StateTerminating")
      case True
      let ?c2 = "Ping current CommandTerminate ?c1"
      have "cn_state ?c2 = StateTerminating" using True by (simp add: Ping_def Let_def)
      then have "moves current ?c2 (SetState current StateTerminated ?c2)" by (intro moves_SetState) simp
      then have "moves current ?c2 c'"
        using f nt True by (auto simp: flush_def Let_def)
      from moves_trans [OF flush_close_moves moves_trans [OF Ping_moves this]] show ?thesis .
    next
      case False
      obtain c3 where s: "flush_sending current (flush_receiving current (flush_timeouts current ?c1)) = Some c3"
        and c': "c' = (if current - cn_lastPingTime c3 \<ge> 3000 then Ping current CommandPing c3 else c3)"
        using f nt False by (auto simp: flush_def Let_def)
      have "moves current c3 c'" by (simp add: c' Ping_moves)
      from moves_trans [OF flush_close_moves moves_trans [OF flush_timeouts_moves
        moves_trans [OF flush_receiving_moves moves_trans [OF flush_sending_moves [OF s] this]]]] show ?thesis .
    qed
  qed
qed

lemma flush_total: "GetSendingInFlightSize (cn_Config c) \<noteq> None \<Longrightarrow> flush current c \<noteq> None"
proof -
  assume g: "GetSendingInFlightSize (cn_Config c) \<noteq> None"
  have "cn_Config (flush_receiving current (flush_timeouts current (flush_close current c))) = cn_Config c"
    using moves_trans [OF flush_close_moves moves_trans [OF flush_timeouts_moves flush_receiving_moves]]
    by (simp add: moves_def)
  with g have "flush_sending current (flush_receiving current (flush_timeouts current (flush_close current c))) \<noteq> None"
    using SendingWorker_Flush_total by (auto simp: flush_sending_def Let_def split: option.splits prod.splits)
  then show ?thesis by (simp add: flush_def Let_def)
qed

section \<open>Runs\<close>

datatype conn_event =
    EInput "Segment list"
  | EClose
  | EDataRound
  | EPingRound
  | EWrite "byte list"
  | ERead nat
  | EReadMulti
  | EDeadline "int option"
  | ETerminate

text \<open>One event at a time; \<open>ETerminate\<close> is the goroutine started on termination.\<close>

fun conn_step :: "u32 \<Rightarrow> conn_event \<Rightarrow> Connection \<Rightarrow> Connection option" where
  "conn_step current (EInput segs) c = Some (Input current segs c)"
| "conn_step current EClose c = Some (snd (Connection_Close current c))"
| "conn_step current EDataRound c = data_round current c"
| "conn_step current EPingRound c = ping_round current c"
| "conn_step current (EWrite data) c = Some (snd (snd (writeMultiBufferInternal_round data c)))"
| "conn_step current (ERead k) c = Some (snd (Connection_Read k c))"
| "conn_step current EReadMulti c = Some (snd (Connection_ReadMultiBuffer c))"
| "conn_step current (EDeadline t) c = Some (snd (SetDeadline t c))"
| "conn_step current ETerminate c = (if cn_terminating c then Some (Terminate c) else Some c)"

fun conn_run :: "(u32 \<times> conn_event) list \<Rightarrow> Connection \<Rightarrow> Connection option" where
  "conn_run [] c = Some c"
| "conn_run ((t, e) # es) c = (case conn_step t e c of None \<Rightarrow> None | Some c' \<Rightarrow> conn_run es c')"

lemma conn_run_append:
  "conn_run (xs @ ys) c = (case conn_run xs c of None \<Rightarrow> None | Some c' \<Rightarrow> conn_run ys c')"
  by (induction xs arbitrary: c) (auto split: option.splits)

lemma write_loop_cases:
  assumes "write_loop data c = (r, rest, c')"
  obtains (closed) "cn_state c \<noteq> StateActive" "r = Returned (Some ErrClosedPipe) ()" "rest = data" "c' = c"
  | (finished) "cn_state c = StateActive" "take (payload_size c) data = []" "r = Returned None ()" "rest = data" "c' = c"
  | (full) sw where "cn_state c = StateActive" "r = Blocked" "rest = data" "c' = c"
    "SendingWorker_Push (append_read fresh_buffer (take (payload_size c) data)) (cn_sendingWorker c) = (False, sw)"
  | (pushed) sw where "cn_state c = StateActive" "take (payload_size c) data \<noteq> []"
    "SendingWorker_Push (append_read fresh_buffer (take (payload_size c) data)) (cn_sendingWorker c) = (True, sw)"
    "write_loop (drop (payload_size c) data) (c\<lparr>cn_sendingWorker := sw\<rparr>) = (r, rest, c')"
proof (cases "cn_state c = StateActive \<and> take (payload_size c) data \<noteq> []")
  case False
  then show thesis using assms closed finished by (auto simp: write_loop.simps [of data c] split: if_splits)
next
  case True
  obtain ok sw where p: "SendingWorker_Push (append_read fresh_buffer (take (payload_size c) data))
      (cn_sendingWorker c) = (ok, sw)" by (metis prod.collapse)
  with True assms show thesis
    by (cases ok) (auto simp: write_loop.simps [of data c] intro: full pushed)
qed

lemma write_loop_shorter: "take (payload_size c) data \<noteq> [] \<Longrightarrow> length (drop (payload_size c) data) < length data"
  by (cases "payload_size c"; cases data) auto

lemma write_loop_fields:
  "write_loop data c = (r, rest, c') \<Longrightarrow>
   cn_state c' = cn_state c \<and> cn_stateBeginTime c' = cn_stateBeginTime c \<and> cn_Config c' = cn_Config c \<and>
   cn_output c' = cn_output c"
proof (induction "length data" arbitrary: data c rule: less_induct)
  case less
  from less.prems show ?case
  proof (cases rule: write_loop_cases)
    case (pushed sw)
    from less.hyps [OF write_loop_shorter [OF pushed(2)] pushed(4)] show ?thesis by simp
  qed simp_all
qed

lemma conn_step_moves:
  assumes "conn_step current e c = Some c'"
  shows "moves current c c'"
proof (cases e)
  case (EInput segs)
  with assms Input_moves show ?thesis by auto
next
  case EClose
  with assms Close_moves show ?thesis by auto
next
  case EDataRound
  with assms flush_moves show ?thesis by (auto simp: data_round_def split: if_splits)
next
  case EPingRound
  with assms flush_moves show ?thesis by (auto simp: ping_round_def split: if_splits)
next
  case (EWrite data)
  obtain r rest c1 where w: "write_loop data c = (r, rest, c1)" by (metis prod_cases3)
  with assms EWrite write_loop_fields [OF w] show ?thesis
    by (auto simp: writeMultiBufferInternal_round_def)
next
  case (ERead k)
  with assms show ?thesis by (auto simp: Connection_Read_def Let_def split: prod.splits)
next
  case EReadMulti
  with assms show ?thesis by (auto simp: Connection_ReadMultiBuffer_def Let_def split: prod.splits)
next
  case (EDeadline t)
  with assms show ?thesis
    by (auto simp: SetDeadline_def SetReadDeadline_def SetWriteDeadline_def split: if_splits)
next
  case ETerminate
  with assms show ?thesis by (auto simp: Terminate_def Let_def split: if_splits)
qed

lemma conn_step_total: "GetSendingInFlightSize (cn_Config c) \<noteq> None \<Longrightarrow> conn_step current e c \<noteq> None"
  using flush_total by (cases e) (auto simp: data_round_def ping_round_def)

lemma NewConnection_total:
  "NewConnection conv overhead config = Some c \<Longrightarrow>
   GetSendingInFlightSize (cn_Config c) \<noteq> None \<and> cn_state c = StateActive"
  by (auto simp: NewConnection_def NewSendingWorker_def bind_eq_Some_conv)

lemma conn_run_total:
  "GetSendingInFlightSize (cn_Config c) \<noteq> None \<Longrightarrow> \<exists>c'. conn_run es c = Some c' \<and> cn_Config c' = cn_Config c"
proof (induction es arbitrary: c)
  case (Cons te es)
  obtain t e where te: "te = (t, e)" by (cases te)
  obtain c1 where c1: "conn_step t e c = Some c1" using conn_step_total [OF Cons.prems] by fastforce
  have "cn_Config c1 = cn_Config c" using conn_step_moves [OF c1] by (simp add: moves_def)
  with Cons.IH [of c1] Cons.prems te c1 show ?case by auto
qed simp

text \<open>A terminated connection sends nothing.\<close>

lemma HandleOption_output [simp]: "cn_output (HandleOption current opt c) = cn_output c"
  by (simp add: HandleOption_def OnPeerClosed_def)

lemma peer_terminates_output [simp]: "cn_output (peer_terminates current c) = cn_output c"
  by (simp add: peer_terminates_def)

lemma input_segment_output [simp]: "cn_output (input_segment current seg c) = cn_output c"
  by (cases seg) (simp_all add: input_data_def input_ack_def input_cmd_def Let_def split: prod.splits)

lemma Input_output [simp]: "cn_output (Input current segs c) = cn_output c"
proof -
  have "cn_output (input_loop current segs x) = cn_output x" for x
    by (induction segs arbitrary: x) simp_all
  then show ?thesis by (simp add: Input_def)
qed

lemma terminated_silent:
  assumes "conn_step current e c = Some c'" "cn_state c = StateTerminated"
  shows "cn_output c' = cn_output c"
proof (cases e)
  case (EWrite data)
  obtain r rest c1 where w: "write_loop data c = (r, rest, c1)" by (metis prod_cases3)
  with assms EWrite write_loop_fields [OF w] show ?thesis by (auto simp: writeMultiBufferInternal_round_def)
next
  case (EDeadline t)
  with assms show ?thesis by (simp add: SetDeadline_def SetReadDeadline_def)
next
  case ETerminate
  with assms show ?thesis by (auto simp: Terminate_def Let_def split: if_splits)
qed (use assms in \<open>auto simp: Connection_Close_def Let_def data_round_def ping_round_def isTerminating_def
      isTerminated_def State_Is_def Connection_Read_def Connection_ReadMultiBuffer_def\<close>)

section \<open>What is handed to the output writer\<close>

text \<open>
  With a maximum segment size of at most 8174 bytes everything that is sent fits the writer's
  buffer: payloads by the write loop, acknowledgements since they list at most 128 numbers.
\<close>

definition out_inv :: "Connection \<Rightarrow> bool" where
  "out_inv c \<longleftrightarrow> unat (cn_mss c) \<le> 8174 \<and> al_wf (rw_acklist (cn_receivingWorker c)) \<and>
     list_all small_payload (cache (cn_sendingWorker c)) \<and> list_all fits_buffer (cn_output c)"

lemma out_inv_same:
  "out_inv c \<Longrightarrow> cn_mss c' = cn_mss c \<Longrightarrow> cn_receivingWorker c' = cn_receivingWorker c \<Longrightarrow>
   cn_sendingWorker c' = cn_sendingWorker c \<Longrightarrow> cn_output c' = cn_output c \<Longrightarrow> out_inv c'"
  by (simp add: out_inv_def)

lemma CloseWrite_all: "list_all P (cache w) \<Longrightarrow> list_all P (cache (CloseWrite w))"
  using set_clear_front by (fastforce simp: CloseWrite_def SendingWindow_Clear_def list_all_iff)

lemma out_inv_SetState: "out_inv c \<Longrightarrow> out_inv (SetState current st c)"
  by (cases st) (auto simp: out_inv_def SetState_def enter_state_def Let_def CloseRead_def CloseWrite_all)

lemma out_inv_signal: "out_inv c \<Longrightarrow> out_inv (signal_both c)"
  by (erule out_inv_same) (simp_all add: signal_both_def)

lemma out_inv_Close: "out_inv c \<Longrightarrow> out_inv (snd (Connection_Close current c))"
  by (auto simp: Connection_Close_def Let_def out_inv_SetState out_inv_signal split: State.splits)

lemma out_inv_HandleOption: "out_inv c \<Longrightarrow> out_inv (HandleOption current opt c)"
  by (auto simp: HandleOption_def OnPeerClosed_def out_inv_SetState)

lemma out_inv_peer_terminates: "out_inv c \<Longrightarrow> out_inv (peer_terminates current c)"
  by (auto simp: peer_terminates_def out_inv_SetState)

lemma small_payload_same: "same_data x y \<Longrightarrow> small_payload x \<Longrightarrow> small_payload y"
  by (simp add: small_payload_def same_data_def)

lemma out_inv_input_data: "out_inv c \<Longrightarrow> out_inv (input_data current seg c)"
  using out_inv_HandleOption [of c current "ds_Option seg"]
  by (auto simp: out_inv_def input_data_def Let_def ReceivingWorker_ProcessSegment_def AckList_Add_spec(1) AckList_Clear_spec(1))

lemma out_inv_input_ack: "out_inv c \<Longrightarrow> out_inv (input_ack current seg c)"
proof -
  let ?c1 = "HandleOption current (as_Option seg) c"
  assume "out_inv c"
  then have inv: "out_inv ?c1" by (rule out_inv_HandleOption)
  obtain sw rt where p: "SendingWorker_ProcessSegment current seg (Timeout (cn_roundTrip ?c1)) (cn_sendingWorker ?c1)
      (cn_roundTrip ?c1) = (sw, rt)" by fastforce
  have "list_all small_payload (cache sw)"
    using inv by (intro ProcessSegment_all [OF _ _ p] small_payload_same [OF fast_ack_same]) (simp_all add: out_inv_def)
  with inv p show ?thesis by (simp add: input_ack_def Let_def out_inv_def)
qed

lemma out_inv_input_cmd: "out_inv c \<Longrightarrow> out_inv (input_cmd current seg c)"
proof -
  assume "out_inv c"
  then have "out_inv (HandleOption current (cs_Option seg) c)" by (rule out_inv_HandleOption)
  then have "out_inv (if cs_Cmd seg = CommandTerminate then peer_terminates current (HandleOption current (cs_Option seg) c)
      else HandleOption current (cs_Option seg) c)" (is "out_inv ?c2") by (simp add: out_inv_peer_terminates)
  then have "out_inv (if cs_Option seg = SegmentOptionClose \<or> cs_Cmd seg = CommandTerminate then signal_both ?c2 else ?c2)"
    (is "out_inv ?c3") by (simp only: out_inv_signal if_split) simp
  moreover have "input_cmd current seg c = ?c3\<lparr>cn_sendingWorker := ProcessReceivingNext (cs_ReceivingNext seg) (cn_sendingWorker ?c3),
      cn_receivingWorker := ProcessSendingNext (cs_SendingNext seg) (cn_receivingWorker ?c3),
      cn_roundTrip := UpdatePeerRTO (cs_PeerRTO seg) current (cn_roundTrip ?c3)\<rparr>"
    by (simp only: input_cmd_def Let_def)
  ultimately show ?thesis
    by (simp add: out_inv_def ProcessReceivingNext_all ProcessSendingNext_def AckList_Clear_spec(1))
qed

lemma out_inv_Input: "out_inv c \<Longrightarrow> out_inv (Input current segs c)"
proof -
  have seg: "out_inv x \<Longrightarrow> out_inv (input_segment current y x)" for x y
    by (cases y) (simp_all add: out_inv_input_data out_inv_input_ack out_inv_input_cmd)
  have "out_inv x \<Longrightarrow> out_inv (input_loop current segs x)" for x
    by (induction segs arbitrary: x) (simp_all add: seg)
  moreover assume "out_inv c"
  then have "out_inv (c\<lparr>cn_lastIncomingTime := current\<rparr>)" by (rule out_inv_same) simp_all
  ultimately show ?thesis by (simp add: Input_def)
qed

lemma out_inv_Ping: "out_inv c \<Longrightarrow> out_inv (Ping current cmd c)"
  by (simp add: out_inv_def Ping_def Let_def)

lemma out_inv_flush_receiving: "out_inv c \<Longrightarrow> out_inv (flush_receiving current c)"
proof -
  assume inv: "out_inv c"
  obtain raw l where f: "AckList_Flush current (Timeout (cn_roundTrip c)) (rw_acklist (cn_receivingWorker c)) = (raw, l)"
    by fastforce
  have "al_wf l" "\<forall>s\<in>set raw. length (as_NumberList s) \<le> 128"
    using AckList_Flush_spec [OF _ f] inv by (auto simp: out_inv_def)
  with inv f show ?thesis
    by (auto simp: flush_receiving_def ReceivingWorker_Flush_def ReceivingWorker_Write_def out_inv_def list_all_iff)
qed

lemma out_inv_flush_sending: "flush_sending current c = Some c' \<Longrightarrow> out_inv c \<Longrightarrow> out_inv c'"
proof -
  assume f: "flush_sending current c = Some c'" and inv: "out_inv c"
  obtain segs updated sw where s: "SendingWorker_Flush (cn_Conversation c) (cn_state c) (cn_Config c) (cn_roundTrip c) current
      (cn_sendingWorker c) = Some (segs, updated, sw)"
    and c': "c' = (let c1 = c\<lparr>cn_sendingWorker := sw, cn_output := cn_output c @ map Data segs\<rparr>
      in if updated then Ping current CommandPing c1 else c1)"
    using f by (auto simp: flush_sending_def Let_def split: option.splits)
  have "list_all small_payload (cache sw) \<and> list_all small_payload segs"
    using inv by (intro SendingWorker_Flush_all [OF _ _ s] small_payload_same [OF Write_same]) (simp_all add: out_inv_def)
  then have "out_inv (c\<lparr>cn_sendingWorker := sw, cn_output := cn_output c @ map Data segs\<rparr>)"
    using inv by (auto simp: out_inv_def list_all_iff)
  then show ?thesis by (simp add: c' Let_def out_inv_Ping)
qed

lemma out_inv_flush: "flush current c = Some c' \<Longrightarrow> out_inv c \<Longrightarrow> out_inv c'"
proof -
  assume f: "flush current c = Some c'" and inv: "out_inv c"
  let ?c1 = "flush_close current c"
  have c1: "out_inv ?c1" using inv by (auto simp: flush_close_def Let_def out_inv_SetState out_inv_Close)
  then have c2: "out_inv (flush_receiving current (flush_timeouts current ?c1))"
    by (intro out_inv_flush_receiving) (auto simp: flush_timeouts_def Let_def out_inv_SetState)
  show ?thesis
    using f inv c1 out_inv_flush_sending [OF _ c2]
    by (auto simp: flush_def Let_def out_inv_Ping out_inv_SetState split: if_splits)
qed

lemma out_inv_write_loop: "write_loop data c = (r, rest, c') \<Longrightarrow> out_inv c \<Longrightarrow> out_inv c'"
proof (induction "length data" arbitrary: data c rule: less_induct)
  case less
  from less.prems(1) show ?case
  proof (cases rule: write_loop_cases)
    case (pushed sw)
    let ?b = "append_read fresh_buffer (take (payload_size c) data)"
    have mss: "unat (cn_mss c) \<le> 8174" using less.prems(2) by (simp add: out_inv_def)
    then have "length (take (payload_size c) data) \<le> 8174" "length (take (payload_size c) data) \<le> 8192" by (auto simp: payload_size_def)
    then have "buffer_wf ?b" "length (content ?b) \<le> 8174" by (simp_all add: append_read_wf append_read_content)
    then have "list_all small_payload (cache sw)"
      using pushed(3) less.prems(2)
      by (auto simp: SendingWorker_Push_def SendingWindow_Push_def small_payload_def out_inv_def split: if_splits)
    then have "out_inv (c\<lparr>cn_sendingWorker := sw\<rparr>)" using less.prems(2) by (simp add: out_inv_def)
    from less.hyps [OF write_loop_shorter [OF pushed(2)] pushed(4) this] show ?thesis .
  qed (use less.prems(2) in simp_all)
qed

lemma acklist_reads [simp]:
  "ReceivingWorker_ReadMultiBuffer w = (mb, w') \<Longrightarrow> rw_acklist w' = rw_acklist w"
  "ReceivingWorker_Read w k = (bs, w') \<Longrightarrow> rw_acklist w' = rw_acklist w"
  by (auto simp: ReceivingWorker_ReadMultiBuffer_def ReceivingWorker_Read_def split: option.splits prod.splits if_splits)

lemma out_inv_step:
  assumes "conn_step current e c = Some c'" "out_inv c"
  shows "out_inv c'"
proof (cases e)
  case (EInput segs)
  with assms out_inv_Input show ?thesis by auto
next
  case EClose
  with assms out_inv_Close show ?thesis by auto
next
  case EDataRound
  with assms out_inv_flush show ?thesis by (fastforce simp: data_round_def out_inv_def split: if_splits)
next
  case EPingRound
  with assms out_inv_flush show ?thesis by (fastforce simp: ping_round_def out_inv_def split: if_splits)
next
  case (EWrite data)
  obtain r rest c1 where w: "write_loop data c = (r, rest, c1)" by (metis prod_cases3)
  have "out_inv c1" by (rule out_inv_write_loop [OF w assms(2)])
  with assms(1) EWrite w show ?thesis by (auto simp: writeMultiBufferInternal_round_def out_inv_def)
next
  case (ERead k)
  with assms show ?thesis by (auto simp: Connection_Read_def Let_def out_inv_def split: prod.splits if_splits)
next
  case EReadMulti
  with assms show ?thesis by (auto simp: Connection_ReadMultiBuffer_def Let_def out_inv_def split: prod.splits if_splits)
next
  case (EDeadline t)
  with assms show ?thesis
    by (auto simp: SetDeadline_def SetReadDeadline_def SetWriteDeadline_def out_inv_def split: if_splits)
next
  case ETerminate
  with assms show ?thesis
    by (auto simp: Terminate_def Let_def signal_both_def out_inv_def SendingWorker_Release_def SendingWindow_Release_def
        ReceivingWorker_Release_def split: if_splits)
qed

lemma out_inv_run: "conn_run es c = Some c' \<Longrightarrow> out_inv c \<Longrightarrow> out_inv c'"
proof (induction es arbitrary: c)
  case (Cons te es)
  then show ?case using out_inv_step by (cases te) (auto split: option.splits)
qed simp

lemma out_inv_New: "NewConnection conv overhead config = Some c \<Longrightarrow> unat (cn_mss c) \<le> 8174 \<Longrightarrow> out_inv c"
  by (auto simp: NewConnection_def NewSendingWorker_def NewReceivingWorker_def NewSendingWindow_def NewAckList_def al_wf_def
      out_inv_def bind_eq_Some_conv)

section \<open>Closing\<close>

text \<open>
  Where a connection closed at \<open>t0\<close> may be: still waiting for its data to be acknowledged, saying
  good-bye since a time not after \<open>t1\<close>, or over.
\<close>

definition closing :: "u32 \<Rightarrow> u32 \<Rightarrow> Connection \<Rightarrow> bool" where
  "closing t0 t1 c \<longleftrightarrow>
     cn_state c = StateReadyToClose \<and> cn_stateBeginTime c = t0 \<or>
     cn_state c = StateTerminating \<and> unat (cn_stateBeginTime c) \<le> unat t1 \<or>
     cn_state c = StateTerminated"

definition leaving :: "u32 \<Rightarrow> Connection \<Rightarrow> bool" where
  "leaving t1 c \<longleftrightarrow>
     cn_state c = StateTerminating \<and> unat (cn_stateBeginTime c) \<le> unat t1 \<or> cn_state c = StateTerminated"

lemma closing_moves: "closing t0 t1 c \<Longrightarrow> moves t c c' \<Longrightarrow> unat t \<le> unat t1 \<Longrightarrow> closing t0 t1 c'"
  by (auto simp: closing_def moves_def)

lemma leaving_moves: "leaving t1 c \<Longrightarrow> moves t c c' \<Longrightarrow> leaving t1 c'"
  by (auto simp: leaving_def moves_def)

lemma closing_run:
  "conn_run es c = Some c' \<Longrightarrow> closing t0 t1 c \<Longrightarrow> \<forall>(t, e)\<in>set es. unat t \<le> unat t1 \<Longrightarrow> closing t0 t1 c'"
proof (induction es arbitrary: c)
  case (Cons te es)
  obtain t e where te: "te = (t, e)" by (cases te)
  obtain c1 where c1: "conn_step t e c = Some c1" "conn_run es c1 = Some c'"
    using Cons.prems(1) te by (auto split: option.splits)
  have "closing t0 t1 c1" using closing_moves [OF Cons.prems(2) conn_step_moves [OF c1(1)]] Cons.prems(3) te by simp
  with Cons.IH [OF c1(2)] Cons.prems(3) show ?case by simp
qed simp

lemma leaving_run: "conn_run es c = Some c' \<Longrightarrow> leaving t1 c \<Longrightarrow> leaving t1 c'"
proof (induction es arbitrary: c)
  case (Cons te es)
  obtain t e where te: "te = (t, e)" by (cases te)
  obtain c1 where c1: "conn_step t e c = Some c1" "conn_run es c1 = Some c'"
    using Cons.prems(1) te by (auto split: option.splits)
  from Cons.IH [OF c1(2) leaving_moves [OF Cons.prems(2) conn_step_moves [OF c1(1)]]] show ?case .
qed simp

lemma later_than: "unat (b :: u32) \<le> unat a \<Longrightarrow> unat a + k < unat t \<Longrightarrow> k < unat (t - b)"
  by (simp add: unat_sub word_le_nat_alt)

lemma flush_leaves:
  assumes "closing t0 t1 c" "unat t0 + 15000 < unat t1" "flush t1 c = Some c'"
  shows "leaving t1 c'"
proof (cases "cn_state c = StateReadyToClose")
  case False
  then have "leaving t1 c" using assms(1) by (auto simp: closing_def leaving_def)
  then show ?thesis using flush_moves [OF assms(3)] by (rule leaving_moves)
next
  case True
  then have b: "cn_stateBeginTime c = t0" using assms(1) by (auto simp: closing_def)
  let ?c1 = "flush_close t1 c"
  show ?thesis
  proof (cases "cn_state ?c1 = StateTerminating")
    case t: True
    have "moves t1 c ?c1" by (rule flush_close_moves)
    then have "cn_stateBeginTime ?c1 = t1" using True t by (simp add: moves_def)
    then have "leaving t1 ?c1" using t by (simp add: leaving_def)
    moreover have "moves t1 ?c1 (Ping t1 CommandTerminate ?c1)" by (rule Ping_moves)
    ultimately have l: "leaving t1 (Ping t1 CommandTerminate ?c1)" by (rule leaving_moves)
    have "c' = Ping t1 CommandTerminate ?c1 \<or> c' = SetState t1 StateTerminated (Ping t1 CommandTerminate ?c1)"
      using assms(3) True t by (auto simp: flush_def Let_def split: if_splits)
    then show ?thesis using l by (auto simp: leaving_def)
  next
    case nt: False
    have c1: "?c1 = c" using nt True by (auto simp: flush_close_def Let_def split: if_splits)
    have "15000 < t1 - t0" using later_than [of t0 t0 15000 t1] assms(2) by (simp add: word_less_nat_alt)
    then have tm: "flush_timeouts t1 c = SetState t1 StateTerminating c"
      using True b by (simp add: flush_timeouts_def Let_def)
    obtain c3 where s: "flush_sending t1 (flush_receiving t1 (flush_timeouts t1 c)) = Some c3"
      and c': "c' = (if t1 - cn_lastPingTime c3 \<ge> 3000 then Ping t1 CommandPing c3 else c3)"
      using assms(3) True nt unfolding c1 by (auto simp: flush_def Let_def c1)
    have "leaving t1 (flush_timeouts t1 c)" by (simp add: tm leaving_def)
    moreover have "moves t1 (flush_timeouts t1 c) c'"
      using moves_trans [OF flush_receiving_moves moves_trans [OF flush_sending_moves [OF s]]] Ping_moves
      unfolding c' by auto
    ultimately show ?thesis by (rule leaving_moves)
  qed
qed

lemma flush_ends:
  assumes "leaving t1 c" "unat t1 + 8000 < unat t2" "flush t2 c = Some c'"
  shows "cn_state c' = StateTerminated"
proof (cases "cn_state c = StateTerminated")
  case True
  with assms(3) show ?thesis by (simp add: flush_def)
next
  case False
  then have t: "cn_state c = StateTerminating" "unat (cn_stateBeginTime c) \<le> unat t1"
    using assms(1) by (auto simp: leaving_def)
  have "8000 < t2 - cn_stateBeginTime c"
    using later_than [OF t(2) assms(2)] by (simp add: word_less_nat_alt)
  moreover have "flush_close t2 c = c" using t(1) by (simp add: flush_close_def Let_def)
  ultimately show ?thesis using assms(3) t(1) by (auto simp: flush_def Let_def Ping_def)
qed

section \<open>Properties\<close>

text \<open>
  C26: The state machine, with the operations of a connection taken one after the other. Whatever
  happens to a connection that was created successfully, its state only moves forward (from active
  over closing on either side to terminating to terminated), every move records the time of the
  move, and a terminated connection never leaves that state and sends nothing more. No operation
  panics, and with a maximum segment size of at most 8174 bytes (the configuration allows an MTU of
  at most 1460) neither does the output writer on any segment handed to it, however its writes fail.
\<close>

theorem connection_states:
  assumes "NewConnection conv overhead config = Some c0" "conn_run es c0 = Some c"
  shows "\<exists>c'. conn_step current e c = Some c' \<and>
    (cn_state c' = cn_state c \<and> cn_stateBeginTime c' = cn_stateBeginTime c \<or>
     later (cn_state c) (cn_state c') \<and> cn_stateBeginTime c' = current) \<and>
    (cn_state c = StateTerminated \<longrightarrow> cn_state c' = StateTerminated \<and> cn_output c' = cn_output c) \<and>
    (unat (cn_mss c0) \<le> 8174 \<and> seg \<in> set (cn_output c') \<and> ssw_wf w \<longrightarrow>
       (\<exists>err w'. RetryableWriter_Write seg w = Some (err, w') \<and> ssw_wf w'))"
proof -
  have "GetSendingInFlightSize (cn_Config c0) \<noteq> None" using NewConnection_total [OF assms(1)] by simp
  then have g: "GetSendingInFlightSize (cn_Config c) \<noteq> None"
    using conn_run_total [of c0 es] assms(2) by auto
  obtain c' where c': "conn_step current e c = Some c'" using conn_step_total [OF g] by fastforce
  have "cn_output c' = cn_output c" if "cn_state c = StateTerminated"
    by (rule terminated_silent [OF c' that])
  moreover have "fits_buffer seg" if "unat (cn_mss c0) \<le> 8174" "seg \<in> set (cn_output c')"
    using out_inv_step [OF c' out_inv_run [OF assms(2) out_inv_New [OF assms(1) that(1)]]] that(2)
    by (simp add: out_inv_def list_all_iff)
  ultimately show ?thesis
    using conn_step_moves [OF c'] c' RetryableWriter_returns by (auto simp: moves_def)
qed

definition demo_conn :: Connection where
  "demo_conn = the (NewConnection 7 6 default_config)"

lemma demo_conn_New: "NewConnection 7 6 default_config = Some demo_conn"
  using demo_receiver_New demo_sender_New by (simp add: demo_conn_def NewConnection_def)

lemma demo_conn_mss: "unat (cn_mss demo_conn) \<le> 8174"
  using demo_receiver_New demo_sender_New
  by (simp add: demo_conn_def NewConnection_def DataSegmentOverhead_def GetMTUValue_def dflt_def default_config_def)

text \<open>A round of the updater after three seconds, which sends a ping.\<close>

theorem connection_states_witness:
  "\<exists>c' seg err w'. conn_step 3000 EPingRound demo_conn = Some c' \<and>
    (cn_state c' = StateActive \<or> later StateActive (cn_state c') \<and> cn_stateBeginTime c' = 3000) \<and>
    seg \<in> set (cn_output c') \<and> RetryableWriter_Write seg (NewSegmentWriter fresh_sink) = Some (err, w')"
proof -
  have a: "cn_state demo_conn = StateActive" using NewConnection_total [OF demo_conn_New] by simp
  have s: "cn_sendingWorker demo_conn = demo_sender" "cn_receivingWorker demo_conn = demo_receiver"
    "cn_lastIncomingTime demo_conn = 0" "cn_lastPingTime demo_conn = 0" "cn_Config demo_conn = default_config"
    using demo_receiver_New demo_sender_New by (simp_all add: demo_conn_def NewConnection_def)
  obtain c' where c': "conn_step 3000 EPingRound demo_conn = Some c'"
    using connection_states [OF demo_conn_New, of "[]" demo_conn 3000 EPingRound] by auto
  have cl: "flush_close 3000 demo_conn = demo_conn" "flush_timeouts 3000 demo_conn = demo_conn"
    using a s(3) by (simp_all add: flush_close_def flush_timeouts_def Let_def)
  let ?c2 = "flush_receiving 3000 demo_conn"
  obtain c3 where f: "flush_sending 3000 ?c2 = Some c3"
    and c3: "c' = (if 3000 - cn_lastPingTime c3 \<ge> 3000 then Ping 3000 CommandPing c3 else c3)"
    using c' a by (auto simp: ping_round_def isTerminated_def flush_def Let_def cl)
  have "cn_lastPingTime ?c2 = 0" using s(4) by (simp add: flush_receiving_def split: prod.splits)
  then have "cn_output c' \<noteq> []"
    using f c3 by (auto simp: flush_sending_def Let_def Ping_def split: option.splits if_splits)
  then obtain seg where "seg \<in> set (cn_output c')" by (cases "cn_output c'") auto
  then show ?thesis
    using connection_states [OF demo_conn_New, of "[]" demo_conn 3000 EPingRound seg "NewSegmentWriter fresh_sink"]
      c' a demo_conn_mss ssw_wf_New by auto
qed

text \<open>
  C27: Closing terminates. A connection closed at time \<open>t0\<close> is terminated after a round of its
  updater more than 15 s later and another more than 8 s after that, whatever segments
  arrive and whatever else is done to it in between, also if the peer never answers.
\<close>

theorem close_completes:
  assumes "NewConnection conv overhead config = Some c0" "conn_run es0 c0 = Some c" "cn_state c = StateActive"
    and "unat t0 + 15000 < unat t1" "unat t1 + 8000 < unat t2"
    and "\<forall>(t, e)\<in>set es1. unat t \<le> unat t1"
  shows "\<exists>c'. conn_run ([(t0, EClose)] @ es1 @ [(t1, EPingRound)] @ es2 @ [(t2, EPingRound)]) c = Some c' \<and>
    cn_state c' = StateTerminated"
proof -
  let ?ok = "\<lambda>c. GetSendingInFlightSize (cn_Config c) \<noteq> None"
  have "?ok c0" using NewConnection_total [OF assms(1)] by simp
  then have ok: "?ok c" using conn_run_total [of c0 es0] assms(2) by auto
  let ?c1 = "snd (Connection_Close t0 c)"
  have 1: "closing t0 t1 ?c1" using assms(3) by (simp add: Connection_Close_def Let_def closing_def)
  have ok1: "?ok ?c1" using ok Close_moves [of t0 c] by (simp add: moves_def)
  obtain c2 where c2: "conn_run es1 ?c1 = Some c2" "?ok c2" using conn_run_total [OF ok1, of es1] ok1 by auto
  have 2: "closing t0 t1 c2" by (rule closing_run [OF c2(1) 1 assms(6)])
  obtain c3 where c3: "conn_step t1 EPingRound c2 = Some c3" "leaving t1 c3"
  proof (cases "isTerminated c2")
    case True
    then show ?thesis
      using that [of "c2\<lparr>cn_pingUpdater := (cn_pingUpdater c2)\<lparr>u_running := False\<rparr>\<rparr>"]
      by (simp add: ping_round_def leaving_def isTerminated_def)
  next
    case False
    obtain c3 where f: "flush t1 c2 = Some c3" using flush_total [OF c2(2)] by fastforce
    from that [of c3] False f flush_leaves [OF 2 assms(4) f] show ?thesis by (simp add: ping_round_def)
  qed
  have ok3: "?ok c3" using c2(2) conn_step_moves [OF c3(1)] by (simp add: moves_def)
  obtain c4 where c4: "conn_run es2 c3 = Some c4" "?ok c4" using conn_run_total [OF ok3, of es2] ok3 by auto
  have 4: "leaving t1 c4" by (rule leaving_run [OF c4(1) c3(2)])
  obtain c5 where c5: "conn_step t2 EPingRound c4 = Some c5" "cn_state c5 = StateTerminated"
  proof (cases "isTerminated c4")
    case True
    then show ?thesis
      using that [of "c4\<lparr>cn_pingUpdater := (cn_pingUpdater c4)\<lparr>u_running := False\<rparr>\<rparr>"]
      by (simp add: ping_round_def isTerminated_def)
  next
    case False
    obtain c5 where f: "flush t2 c4 = Some c5" using flush_total [OF c4(2)] by fastforce
    from that [of c5] False f flush_ends [OF 4 assms(5) f] show ?thesis by (simp add: ping_round_def)
  qed
  have "conn_run ([(t0, EClose)] @ es1 @ [(t1, EPingRound)] @ es2 @ [(t2, EPingRound)]) c = Some c5"
    using c2(1) c3(1) c4(1) c5(1) by (simp add: conn_run_append)
  with c5(2) show ?thesis by blast
qed

theorem close_completes_witness:
  "\<exists>c'. conn_run [(0, EClose), (16000, EPingRound), (25000, EPingRound)] demo_conn = Some c' \<and>
    cn_state c' = StateTerminated"
  using close_completes [OF demo_conn_New, of "[]" demo_conn 0 16000 25000 "[]" "[]"]
    NewConnection_total [OF demo_conn_New] by simp

text \<open>
  Writing cuts the stream into payloads of at most the segment size, in order and without
  loss: what a write has taken from the data is the concatenation of the payloads it pushed,
  and it stops only at the end of the data, on a full window or because the connection is no
  longer active.
\<close>

theorem write_segments:
  assumes "sender_inv log (cn_sendingWorker c)" "0 < payload_size c" "length log + length data < 0x7FFFFFFE"
    and "write_loop data c = (r, rest, c')"
  shows "\<exists>pushed. data = concat pushed @ rest \<and> sender_inv (log @ pushed) (cn_sendingWorker c') \<and>
    (\<forall>p\<in>set pushed. p \<noteq> [] \<and> length p \<le> payload_size c) \<and>
    (r = Returned None () \<longrightarrow> rest = []) \<and>
    (r = Returned (Some ErrClosedPipe) () \<longrightarrow> cn_state c' \<noteq> StateActive)"
  using assms
proof (induction "length data" arbitrary: data c log rule: less_induct)
  case less
  from less.prems(4) show ?case
  proof (cases rule: write_loop_cases)
    case (pushed sw)
    let ?p = "take (payload_size c) data" and ?rest = "drop (payload_size c) data"
    let ?c1 = "c\<lparr>cn_sendingWorker := sw\<rparr>"
    have p8: "length ?p \<le> 8192" by (simp add: payload_size_def)
    have wf: "buffer_wf (append_read fresh_buffer ?p)" and ct: "content (append_read fresh_buffer ?p) = ?p"
      using p8 by (simp_all add: append_read_wf append_read_content)
    have "length log < 0x7FFFFFFE" using less.prems(3) by simp
    from SendingWorker_Push_spec(1) [OF less.prems(1) pushed(3) wf this]
    have inv: "sender_inv (log @ [?p]) (cn_sendingWorker ?c1)" by (simp add: ct)
    have len: "length ?rest < length data" by (rule write_loop_shorter [OF pushed(2)])
    have ps: "payload_size ?c1 = payload_size c" by (simp add: payload_size_def)
    have "length (log @ [?p]) + length ?rest < 0x7FFFFFFE" using less.prems(3) len by simp
    from less.hyps [OF len inv _ this pushed(4)] less.prems(2)
    obtain ps' where "?rest = concat ps' @ rest" "sender_inv ((log @ [?p]) @ ps') (cn_sendingWorker c')"
      "\<forall>p\<in>set ps'. p \<noteq> [] \<and> length p \<le> payload_size c" "r = Returned None () \<longrightarrow> rest = []"
      "r = Returned (Some ErrClosedPipe) () \<longrightarrow> cn_state c' \<noteq> StateActive" by (auto simp: ps)
    moreover have "data = ?p @ ?rest" by simp
    ultimately show ?thesis using pushed(2) by (intro exI [of _ "?p # ps'"]) auto
  qed (use less.prems in \<open>auto intro!: exI [of _ "[]"]\<close>)
qed

theorem write_segments_witness:
  "case write_loop [1, 2, 3] demo_conn of (r, rest, c') \<Rightarrow>
     \<exists>pushed. [1, 2, 3] = concat pushed @ rest \<and> sender_inv pushed (cn_sendingWorker c')"
proof -
  obtain r rest c' where w: "write_loop [1, 2, 3] demo_conn = (r, rest, c')" by (metis prod_cases3)
  have s: "cn_sendingWorker demo_conn = demo_sender" "cn_mss demo_conn = 1326"
    using demo_receiver_New demo_sender_New
    by (simp_all add: demo_conn_def NewConnection_def DataSegmentOverhead_def GetMTUValue_def dflt_def default_config_def)
  have "sender_inv [] (cn_sendingWorker demo_conn)" using NewSendingWorker_inv [OF demo_sender_New] s(1) by simp
  moreover have "0 < payload_size demo_conn" by (simp add: payload_size_def s(2))
  ultimately show ?thesis using write_segments [OF _ _ _ w, of "[]"] w by auto
qed

end
