(* ===== verification/Sniff_TLS.thy ===== *)
theory Sniff_TLS
  imports Go_IO
begin

text \<open>
  \<^verbatim>\<open>common/protocol/tls/sniff.go\<close>: the server name of a TLS client hello. Every index and every slice of the code may
  panic, which is \<open>None\<close>; the loops are partial functions, so \<open>None\<close> is also a loop that does not end.
\<close>

unbundle bit_operations_syntax

section \<open>The parser\<close>

definition ErrProtoNeedMoreData :: goerr where "ErrProtoNeedMoreData = ErrMsg ''protocol matches, but need more data to complete sniffing''"
definition errNotTLS :: goerr where "errNotTLS = ErrMsg ''not TLS header''"
definition errNotClientHello :: goerr where "errNotClientHello = ErrMsg ''not client hello''"

text \<open>\<^verbatim>\<open>data[i]\<close> and \<^verbatim>\<open>data[i:]\<close>.\<close>

definition at_index :: "byte list \<Rightarrow> nat \<Rightarrow> byte option" where
  "at_index data i = (if i < length data then Some (data ! i) else None)"

definition slice_from :: "byte list \<Rightarrow> nat \<Rightarrow> byte list option" where
  "slice_from data i = (if i \<le> length data then Some (drop i data) else None)"

definition slice_to :: "byte list \<Rightarrow> nat \<Rightarrow> byte list option" where
  "slice_to data i = (if i \<le> length data then Some (take i data) else None)"

text \<open>\<^verbatim>\<open>int(data[i])<<8 | int(data[i+1])\<close>.\<close>

definition two_bytes :: "byte list \<Rightarrow> nat \<Rightarrow> nat option" where
  "two_bytes data i = do { a \<leftarrow> at_index data i; b \<leftarrow> at_index data (i + 1); Some (push_bit 8 (unat a) OR unat b) }"

definition IsValidTLSVersion :: "byte \<Rightarrow> byte \<Rightarrow> bool" where
  "IsValidTLSVersion major minor \<longleftrightarrow> major = 3"

text \<open>The checks on a host name; the last byte of an empty name is the initial 0.\<close>

definition check_name :: "byte list \<Rightarrow> goerr + gostring" where
  "check_name name =
     (if list_ex (\<lambda>b. b \<le> 32) name then Inl ErrProtoNeedMoreData
      else if (if name = [] then 0 else last name) = 46 then Inl errNotClientHello
      else Inr name)"

text \<open>The loop over the names of the extension: \<open>Inr None\<close> leaves it without a host name.\<close>

partial_function (option) names_loop :: "byte list \<Rightarrow> (goerr + gostring option) option" where
  "names_loop d =
     (if d = [] then Some (Inr None)
      else if length d < 3 then Some (Inl errNotClientHello)
      else
        do { nameType \<leftarrow> at_index d 0;
             nameLen \<leftarrow> two_bytes d 1;
             d1 \<leftarrow> slice_from d 3;
             if length d1 < nameLen then Some (Inl errNotClientHello)
             else if nameType = 0 then
               do { name \<leftarrow> slice_to d1 nameLen;
                    Some (case check_name name of Inl e \<Rightarrow> Inl e | Inr n \<Rightarrow> Inr (Some n)) }
             else do { d2 \<leftarrow> slice_from d1 nameLen; names_loop d2 } })"

definition server_name :: "byte list \<Rightarrow> (goerr + gostring option) option" where
  "server_name d =
     (if length d < 2 then Some (Inl errNotClientHello)
      else
        do { namesLen \<leftarrow> two_bytes d 0;
             d1 \<leftarrow> slice_from d 2;
             if length d1 \<noteq> namesLen then Some (Inl errNotClientHello) else names_loop d1 })"

partial_function (option) extensions_loop :: "byte list \<Rightarrow> (goerr + gostring) option" where
  "extensions_loop data =
     (if data = [] then Some (Inl errNotTLS)
      else if length data < 4 then Some (Inl errNotClientHello)
      else
        do { extension \<leftarrow> two_bytes data 0;
             len \<leftarrow> two_bytes data 2;
             data1 \<leftarrow> slice_from data 4;
             if length data1 < len then Some (Inl errNotClientHello)
             else
               do { d \<leftarrow> slice_to data1 len;
                    found \<leftarrow> (if extension = 0 then server_name d else Some (Inr None));
                    (case found of
                       Inl e \<Rightarrow> Some (Inl e)
                     | Inr (Some name) \<Rightarrow> Some (Inr name)
                     | Inr None \<Rightarrow> do { data2 \<leftarrow> slice_from data1 len; extensions_loop data2 }) } })"

definition hello_extensions :: "byte list \<Rightarrow> (goerr + gostring) option" where
  "hello_extensions data =
     (if length data < 2 then Some (Inl errNotClientHello)
      else
        do { extensionsLength \<leftarrow> two_bytes data 0;
             data1 \<leftarrow> slice_from data 2;
             if extensionsLength \<noteq> length data1 then Some (Inl errNotClientHello) else extensions_loop data1 })"

definition hello_compression :: "byte list \<Rightarrow> (goerr + gostring) option" where
  "hello_compression data =
     (if length data < 1 then Some (Inl ErrNoClue)
      else
        do { n \<leftarrow> at_index data 0;
             if length data < 1 + unat n then Some (Inl ErrNoClue)
             else do { data1 \<leftarrow> slice_from data (1 + unat n); hello_extensions data1 } })"

definition hello_ciphers :: "byte list \<Rightarrow> (goerr + gostring) option" where
  "hello_ciphers data =
     (if length data < 2 then Some (Inl ErrNoClue)
      else
        do { cipherSuiteLen \<leftarrow> two_bytes data 0;
             if cipherSuiteLen mod 2 = 1 \<or> length data < 2 + cipherSuiteLen then Some (Inl errNotClientHello)
             else do { data1 \<leftarrow> slice_from data (2 + cipherSuiteLen); hello_compression data1 } })"

definition ReadClientHello :: "byte list \<Rightarrow> (goerr + gostring) option" where
  "ReadClientHello data =
     (if length data < 42 then Some (Inl ErrNoClue)
      else
        do { sessionIDLen \<leftarrow> at_index data 38;
             if unat sessionIDLen > 32 \<or> length data < 39 + unat sessionIDLen then Some (Inl ErrNoClue)
             else do { data1 \<leftarrow> slice_from data (39 + unat sessionIDLen); hello_ciphers data1 } })"

definition SniffTLS :: "byte list \<Rightarrow> (goerr + gostring) option" where
  "SniffTLS b =
     (if length b < 5 then Some (Inl ErrNoClue)
      else
        do { b0 \<leftarrow> at_index b 0;
             b1 \<leftarrow> at_index b 1;
             b2 \<leftarrow> at_index b 2;
             if b0 \<noteq> 0x16 then Some (Inl errNotTLS)
             else if \<not> IsValidTLSVersion b1 b2 then Some (Inl errNotTLS)
             else
               do { hdr \<leftarrow> go_slice b 3 5;
                    let headerLen = unat (Uint16 hdr);
                    if 5 + headerLen > length b then Some (Inl ErrNoClue)
                    else do { hello \<leftarrow> go_slice b 5 (5 + int headerLen); ReadClientHello hello } } })"

section \<open>No panic\<close>

lemma at_index_ok: "i < length d \<Longrightarrow> at_index d i = Some (d ! i)"
  by (simp add: at_index_def)

lemma slice_ok: "i \<le> length d \<Longrightarrow> slice_from d i = Some (drop i d)" "i \<le> length d \<Longrightarrow> slice_to d i = Some (take i d)"
  by (simp_all add: slice_from_def slice_to_def)

lemma two_bytes_ok: "i + 1 < length d \<Longrightarrow> two_bytes d i = Some (push_bit 8 (unat (d ! i)) OR unat (d ! (i + 1)))"
  by (simp add: two_bytes_def at_index_def)

lemmas in_range = at_index_ok slice_ok two_bytes_ok

lemma names_loop_returns: "\<exists>x. names_loop d = Some x"
proof (induction "length d" arbitrary: d rule: less_induct)
  case less
  show ?case
  proof (cases "d = [] \<or> length d < 3")
    case True
    then show ?thesis by (subst names_loop.simps) auto
  next
    case False
    then have parts: "slice_from d 3 = Some (drop 3 d)" "at_index d 0 = Some (d ! 0)" by (simp_all add: in_range)
    obtain n where n: "two_bytes d 1 = Some n" using two_bytes_ok [of 1 d] False by auto
    have "length (drop n (drop 3 d)) < length d" using False by auto
    from less [OF this] obtain x where "names_loop (drop n (drop 3 d)) = Some x" by blast
    with parts n False show ?thesis by (subst names_loop.simps) (auto simp: slice_ok not_less)
  qed
qed

lemma server_name_returns: "\<exists>x. server_name d = Some x"
proof (cases "length d < 2")
  case False
  then obtain n where "two_bytes d 0 = Some n" using two_bytes_ok [of 0 d] by auto
  with False names_loop_returns [of "drop 2 d"] show ?thesis by (auto simp: server_name_def slice_ok not_less)
qed (simp add: server_name_def)

lemma extensions_loop_returns: "\<exists>x. extensions_loop d = Some x"
proof (induction "length d" arbitrary: d rule: less_induct)
  case less
  show ?case
  proof (cases "d = [] \<or> length d < 4")
    case True
    then show ?thesis by (subst extensions_loop.simps) auto
  next
    case False
    then obtain e n where n: "two_bytes d 0 = Some e" "two_bytes d 2 = Some n" using two_bytes_ok [of 0 d] two_bytes_ok [of 2 d] by auto
    have "length (drop n (drop 4 d)) < length d" using False by auto
    from less [OF this] obtain x where "extensions_loop (drop n (drop 4 d)) = Some x" by blast
    moreover obtain y where y: "(if e = 0 then server_name (take n (drop 4 d)) else Some (Inr None)) = Some y"
      using server_name_returns [of "take n (drop 4 d)"] by (cases "e = 0") auto
    ultimately show ?thesis
      using n False by (subst extensions_loop.simps) (auto simp: slice_ok not_less split: sum.splits option.splits if_splits)
  qed
qed

lemma ReadClientHello_returns: "\<exists>x. ReadClientHello d = Some x"
proof -
  have ext: "\<exists>x. hello_extensions d = Some x" for d
  proof (cases "length d < 2")
    case False
    then obtain n where "two_bytes d 0 = Some n" using two_bytes_ok [of 0 d] by auto
    with False extensions_loop_returns [of "drop 2 d"] show ?thesis by (auto simp: hello_extensions_def slice_ok not_less)
  qed (simp add: hello_extensions_def)
  have comp: "\<exists>x. hello_compression d = Some x" for d
    using ext by (auto simp: hello_compression_def in_range not_less)
  have ciph: "\<exists>x. hello_ciphers d = Some x" for d
  proof (cases "length d < 2")
    case False
    then obtain n where "two_bytes d 0 = Some n" using two_bytes_ok [of 0 d] by auto
    with False comp show ?thesis by (auto simp: hello_ciphers_def slice_ok not_less)
  qed (simp add: hello_ciphers_def)
  show ?thesis using ciph by (auto simp: ReadClientHello_def in_range not_less)
qed

lemma SniffTLS_unfold:
  assumes "\<not> length b < 5"
  shows "SniffTLS b =
    (if b ! 0 \<noteq> 0x16 \<or> b ! 1 \<noteq> 3 then Some (Inl errNotTLS)
     else if 5 + unat (Uint16 (take 2 (drop 3 b))) > length b then Some (Inl ErrNoClue)
     else ReadClientHello (take (unat (Uint16 (take 2 (drop 3 b)))) (drop 5 b)))"
proof -
  define n where "n = unat (Uint16 (take 2 (drop 3 b)))"
  have idx: "at_index b 0 = Some (b ! 0)" "at_index b 1 = Some (b ! 1)" "at_index b 2 = Some (b ! 2)" "go_slice b 3 5 = Some (take 2 (drop 3 b))"
    using assms by (auto simp: at_index_def go_slice_def)
  have "go_slice b 5 (5 + int n) = Some (take n (drop 5 b))" if "5 + n \<le> length b" using that by (simp add: go_slice_def)
  then show ?thesis unfolding SniffTLS_def idx n_def [symmetric] using assms by (auto simp: n_def [symmetric] IsValidTLSVersion_def Let_def simp del: of_nat_unat)
qed

lemma SniffTLS_returns: "\<exists>x. SniffTLS b = Some x"
proof (cases "length b < 5")
  case False
  with ReadClientHello_returns show ?thesis by (simp add: SniffTLS_unfold)
qed (simp add: SniffTLS_def)

section \<open>What a client hello says\<close>

text \<open>A client hello by its fields; an extension is a list of server names or anything else.\<close>

datatype hello_extension = ServerNames "(byte \<times> byte list) list" | OtherExtension u16 "byte list"

record client_hello =
  ch_head :: "byte list"
  ch_session :: "byte list"
  ch_ciphers :: "byte list"
  ch_compression :: "byte list"
  ch_extensions :: "hello_extension list"

definition be16 :: "nat \<Rightarrow> byte list" where "be16 n = PutUint16 (of_nat n)"

definition names_bytes :: "(byte \<times> byte list) list \<Rightarrow> byte list" where
  "names_bytes ns = concat (map (\<lambda>(t, n). t # be16 (length n) @ n) ns)"

fun extension_bytes :: "hello_extension \<Rightarrow> byte list" where
  "extension_bytes (ServerNames ns) = be16 0 @ be16 (length (names_bytes ns) + 2) @ be16 (length (names_bytes ns)) @ names_bytes ns"
| "extension_bytes (OtherExtension t d) = PutUint16 t @ be16 (length d) @ d"

definition extensions_bytes :: "hello_extension list \<Rightarrow> byte list" where
  "extensions_bytes es = concat (map extension_bytes es)"

definition hello_bytes :: "client_hello \<Rightarrow> byte list" where
  "hello_bytes h = ch_head h @ of_nat (length (ch_session h)) # ch_session h @ be16 (length (ch_ciphers h)) @ ch_ciphers h @
     of_nat (length (ch_compression h)) # ch_compression h @
     be16 (length (extensions_bytes (ch_extensions h))) @ extensions_bytes (ch_extensions h)"

definition hello_record :: "byte \<Rightarrow> client_hello \<Rightarrow> byte list" where
  "hello_record minor h = [0x16, 3, minor] @ be16 (length (hello_bytes h)) @ hello_bytes h"

fun extension_ok :: "hello_extension \<Rightarrow> bool" where
  "extension_ok (ServerNames ns) \<longleftrightarrow> length (names_bytes ns) + 2 < 65536 \<and> (\<forall>(t, n) \<in> set ns. length n < 65536)"
| "extension_ok (OtherExtension t d) \<longleftrightarrow> t \<noteq> 0 \<and> length d < 65536"

definition hello_ok :: "client_hello \<Rightarrow> bool" where
  "hello_ok h \<longleftrightarrow> length (ch_head h) = 38 \<and> length (ch_session h) \<le> 32 \<and> even (length (ch_ciphers h)) \<and> length (ch_ciphers h) < 65536 \<and>
     length (ch_compression h) < 256 \<and> list_all extension_ok (ch_extensions h) \<and> length (extensions_bytes (ch_extensions h)) < 65536 \<and>
     length (hello_bytes h) < 65536"

text \<open>The name that the sniffer is to find: the first host name of the first extension that has one.\<close>

fun first_host :: "(byte \<times> byte list) list \<Rightarrow> byte list option" where
  "first_host [] = None"
| "first_host ((t, n) # ns) = (if t = 0 then Some n else first_host ns)"

fun hello_name :: "hello_extension list \<Rightarrow> goerr + gostring" where
  "hello_name [] = Inl errNotTLS"
| "hello_name (ServerNames ns # es) = (case first_host ns of None \<Rightarrow> hello_name es | Some n \<Rightarrow> check_name n)"
| "hello_name (OtherExtension t d # es) = hello_name es"

lemma length_be16 [simp]: "length (be16 n) = 2" "be16 n \<noteq> []"
  by (simp_all add: be16_def PutUint16_def)

lemma be16_value:
  assumes "n < 65536"
  shows "push_bit 8 (unat (be16 n ! 0)) OR unat (be16 n ! 1) = n"
proof -
  have v: "Uint16 (be16 n) = of_nat n" using Uint16_PutUint16 [of "of_nat n" "[]"] by (simp add: be16_def)
  obtain a b where ab: "be16 n = [a, b]" by (simp add: be16_def PutUint16_def)
  have "push_bit 8 (unat a) OR unat b = unat (Uint16 (be16 n))"
    unfolding ab by (rule bit_eqI) (auto simp: bit_simps ab dest: bit_imp_le_length)
  with v ab assms show ?thesis by (simp add: unsigned_of_nat take_bit_nat_eq_self)
qed

lemma two_bytes_be16:
  assumes "n < 65536" "length xs = i"
  shows "two_bytes (xs @ be16 n @ ys) i = Some n"
proof -
  have "(xs @ be16 n @ ys) ! i = be16 n ! 0" "(xs @ be16 n @ ys) ! (i + 1) = be16 n ! 1"
    using assms(2) by (simp_all add: nth_append)
  with two_bytes_ok [of i "xs @ be16 n @ ys"] be16_value [OF assms(1)] assms(2) show ?thesis by simp
qed

lemma names_loop_bytes:
  assumes "\<forall>(t, n) \<in> set ns. length n < 65536"
  shows "names_loop (names_bytes ns) =
    Some (case first_host ns of None \<Rightarrow> Inr None | Some n \<Rightarrow> (case check_name n of Inl e \<Rightarrow> Inl e | Inr m \<Rightarrow> Inr (Some m)))"
  using assms
proof (induction ns)
  case Nil
  then show ?case by (simp add: names_bytes_def names_loop.simps)
next
  case (Cons p ns)
  obtain t n where p: "p = (t, n)" by (cases p)
  let ?d = "t # be16 (length n) @ n @ names_bytes ns"
  have d: "names_bytes (p # ns) = ?d" by (simp add: names_bytes_def p)
  have "two_bytes ?d 1 = Some (length n)" using two_bytes_be16 [of "length n" "[t]" 1] Cons.prems p by simp
  moreover have "slice_from ?d 3 = Some (n @ names_bytes ns)" "at_index ?d 0 = Some t" by (simp_all add: slice_from_def at_index_def)
  ultimately show ?case
    unfolding d using Cons p by (subst names_loop.simps) (simp add: slice_ok split: sum.splits)
qed

lemma extension_step:
  assumes "extension_ok e"
  shows "extensions_loop (extension_bytes e @ rest) =
    (case e of
       ServerNames ns \<Rightarrow> (case first_host ns of None \<Rightarrow> extensions_loop rest | Some n \<Rightarrow> Some (check_name n))
     | OtherExtension t d \<Rightarrow> extensions_loop rest)"
proof (cases e)
  case (ServerNames ns)
  let ?n = "names_bytes ns"
  let ?d = "be16 0 @ be16 (length ?n + 2) @ be16 (length ?n) @ ?n @ rest"
  have len: "length ?n + 2 < 65536" "\<forall>(t, n) \<in> set ns. length n < 65536" using assms ServerNames by auto
  have parts: "two_bytes ?d 0 = Some 0" "two_bytes ?d 2 = Some (length ?n + 2)"
    using two_bytes_be16 [of 0 "[]" 0] two_bytes_be16 [of "length ?n + 2" "be16 0" 2] len by simp_all
  have rest: "slice_from ?d 4 = Some (be16 (length ?n) @ ?n @ rest)" by (simp add: slice_from_def)
  have sn: "server_name (be16 (length ?n) @ ?n) =
      Some (case first_host ns of None \<Rightarrow> Inr None | Some n \<Rightarrow> (case check_name n of Inl e \<Rightarrow> Inl e | Inr m \<Rightarrow> Inr (Some m)))"
    using two_bytes_be16 [of "length ?n" "[]" 0 ?n] len names_loop_bytes [OF len(2)] by (simp add: server_name_def slice_from_def)
  have "slice_to (be16 (length ?n) @ ?n @ rest) (length ?n + 2) = Some (be16 (length ?n) @ ?n)"
    "slice_from (be16 (length ?n) @ ?n @ rest) (length ?n + 2) = Some rest"
    by (simp_all add: slice_from_def slice_to_def)
  then show ?thesis
    using ServerNames parts rest sn by (subst extensions_loop.simps) (simp split: option.splits sum.splits)
next
  case (OtherExtension t d)
  let ?d = "PutUint16 t @ be16 (length d) @ d @ rest"
  have ok: "t \<noteq> 0" "length d < 65536" using assms OtherExtension by auto
  have t: "PutUint16 t = be16 (unat t)" by (simp add: be16_def)
  have "unat t < 65536" using unsigned_less [of t, where 'a = nat] by simp
  then have "two_bytes ?d 0 = Some (unat t)" using two_bytes_be16 [of "unat t" "[]" 0] by (simp add: t)
  moreover have "two_bytes ?d 2 = Some (length d)" using two_bytes_be16 [of "length d" "PutUint16 t" 2] ok by simp
  moreover have "slice_from ?d 4 = Some (d @ rest)" by (simp add: slice_from_def)
  moreover have "unat t \<noteq> 0" using ok by (simp add: unat_eq_0)
  ultimately show ?thesis
    using OtherExtension by (subst extensions_loop.simps) (simp add: slice_from_def slice_to_def)
qed

lemma extensions_loop_bytes: "list_all extension_ok es \<Longrightarrow> extensions_loop (extensions_bytes es) = Some (hello_name es)"
proof (induction es)
  case Nil
  then show ?case by (simp add: extensions_bytes_def extensions_loop.simps)
next
  case (Cons e es)
  have "extensions_bytes (e # es) = extension_bytes e @ extensions_bytes es" by (simp add: extensions_bytes_def)
  with Cons extension_step [of e "extensions_bytes es"] show ?case
    by (cases e) (simp_all split: option.splits)
qed

lemma ReadClientHello_bytes:
  assumes "hello_ok h"
  shows "ReadClientHello (hello_bytes h) = Some (hello_name (ch_extensions h))"
proof -
  let ?x = "extensions_bytes (ch_extensions h)" and ?cm = "ch_compression h" and ?c = "ch_ciphers h" and ?s = "ch_session h"
  note ok = assms [unfolded hello_ok_def]
  let ?d3 = "be16 (length ?x) @ ?x"
  let ?d2 = "of_nat (length ?cm) # ?cm @ ?d3"
  let ?d1 = "be16 (length ?c) @ ?c @ ?d2"
  have "hello_extensions ?d3 = Some (hello_name (ch_extensions h))"
    using two_bytes_be16 [of "length ?x" "[]" 0 ?x] ok extensions_loop_bytes by (simp add: hello_extensions_def slice_from_def)
  then have "hello_compression ?d2 = Some (hello_name (ch_extensions h))"
    using ok by (simp add: hello_compression_def at_index_def slice_from_def unsigned_of_nat take_bit_nat_eq_self)
  then have 1: "hello_ciphers ?d1 = Some (hello_name (ch_extensions h))"
    using two_bytes_be16 [of "length ?c" "[]" 0 "?c @ ?d2"] ok by (simp add: hello_ciphers_def slice_from_def even_iff_mod_2_eq_zero)
  have n: "unat (of_nat (length ?s) :: byte) = length ?s" using ok by (simp add: unsigned_of_nat take_bit_nat_eq_self)
  have h: "hello_bytes h = ch_head h @ of_nat (length ?s) # ?s @ ?d1" by (simp add: hello_bytes_def)
  have "at_index (hello_bytes h) 38 = Some (of_nat (length ?s))" "slice_from (hello_bytes h) (39 + length ?s) = Some ?d1"
    using ok unfolding h by (simp_all add: at_index_def slice_from_def nth_append)
  moreover have "\<not> length (hello_bytes h) < 42" "39 + length ?s \<le> length (hello_bytes h)" using ok unfolding h by simp_all
  ultimately show ?thesis using 1 n ok by (simp add: ReadClientHello_def)
qed

lemma SniffTLS_prefix:
  assumes "hello_ok h"
  shows "SniffTLS (take k (hello_record minor h @ rest)) =
    Some (if k < length (hello_record minor h) then Inl ErrNoClue else hello_name (ch_extensions h))"
proof -
  let ?n = "length (hello_bytes h)" and ?b = "take k (hello_record minor h @ rest)"
  have n: "?n < 65536" using assms by (simp add: hello_ok_def)
  show ?thesis
  proof (cases "length ?b < 5")
    case True
    then have "k < 5 + ?n" by (simp add: hello_record_def)
    with True show ?thesis by (simp add: SniffTLS_def hello_record_def)
  next
    case False
    then have k: "5 \<le> k" by simp
    obtain j where j: "k = 5 + j" using k le_Suc_ex by blast
    have "length ([0x16, 3, minor] @ be16 ?n) = 5" by simp
    then have "take (5 + j) (([0x16, 3, minor] @ be16 ?n) @ hello_bytes h @ rest) = ([0x16, 3, minor] @ be16 ?n) @ take j (hello_bytes h @ rest)"
      by (subst take_append) simp
    then have b: "?b = [0x16, 3, minor] @ be16 ?n @ take j (hello_bytes h @ rest)" by (simp add: hello_record_def j)
    have u: "unat (Uint16 (take 2 (drop 3 ?b))) = ?n"
      using n Uint16_PutUint16 [of "of_nat ?n" "[]"] unfolding b by (simp add: be16_def unsigned_of_nat take_bit_nat_eq_self)
    have hd2: "?b ! 0 = 0x16" "?b ! 1 = 3" unfolding b by simp_all
    show ?thesis
    proof (cases "j < ?n")
      case True
      then have "length ?b < 5 + ?n" unfolding b by simp
      then show ?thesis unfolding SniffTLS_unfold [OF False] u using hd2 True j by (simp add: hello_record_def)
    next
      case ge: False
      then have "take ?n (drop 5 ?b) = hello_bytes h" "\<not> length ?b < 5 + ?n" unfolding b by simp_all
      then show ?thesis
        unfolding SniffTLS_unfold [OF False] u using hd2 ge j ReadClientHello_bytes [OF assms] by (simp add: hello_record_def)
    qed
  qed
qed

section \<open>Properties\<close>

text \<open>
  C18: the TLS sniffer never panics and always returns, whatever bytes it is given. Given a prefix of a connection that
  starts with a client hello, it asks for more until the whole record is there, and then answers, whatever follows, the
  first host name of the first extension that has one (or why there is none), whatever the other fields and extensions.
\<close>

theorem tls_server_name_found:
  assumes "hello_ok h"
  shows "(\<exists>x. SniffTLS b = Some x) \<and>
    SniffTLS (take k (hello_record minor h @ rest)) =
      Some (if k < length (hello_record minor h) then Inl ErrNoClue else hello_name (ch_extensions h))"
  using SniffTLS_returns SniffTLS_prefix [OF assms] by blast

text \<open>A hello with another extension first, then the name \<^verbatim>\<open>a.de\<close>.\<close>

definition demo_hello :: client_hello where
  "demo_hello = \<lparr>ch_head = replicate 38 7, ch_session = [1, 2], ch_ciphers = [19, 1], ch_compression = [0],
     ch_extensions = [OtherExtension 43 [2, 3, 4], ServerNames [(1, [9]), (0, [97, 46, 100, 101])]]\<rparr>"

theorem tls_server_name_found_witness:
  "SniffTLS (hello_record 1 demo_hello @ [5, 5]) = Some (Inr [97, 46, 100, 101]) \<and>
   SniffTLS (take 60 (hello_record 1 demo_hello)) = Some (Inl ErrNoClue) \<and> SniffTLS [0x16, 3, 1, 0, 0] \<noteq> None"
proof -
  have ok: "hello_ok demo_hello" by (simp add: hello_ok_def demo_hello_def hello_bytes_def extensions_bytes_def names_bytes_def)
  have name: "hello_name (ch_extensions demo_hello) = Inr [97, 46, 100, 101]" by (simp add: demo_hello_def check_name_def)
  have len: "length (hello_record 1 demo_hello) = 78" by (simp add: hello_record_def demo_hello_def hello_bytes_def extensions_bytes_def names_bytes_def)
  show ?thesis
    using tls_server_name_found [OF ok, of "[]" 80 1 "[5, 5]"] tls_server_name_found [OF ok, of "[0x16, 3, 1, 0, 0]" 60 1 "[]"] name len by auto
qed

end
