(* ===== verification/Routing_Context.thy ===== *)
theory Routing_Context
  imports Net_Address
begin

text \<open>
  What the router sees of a connection: \<^verbatim>\<open>features/routing/session/context.go\<close> reads it from the metadata of
  \<^verbatim>\<open>common/session/session.go\<close>, and \<^verbatim>\<open>features/routing/dns/context.go\<close> adds the resolution of the target
  domain, with a cache. \<open>None\<close> is a panic (a valid destination without address).
\<close>

section \<open>The session\<close>

record Inbound =
  in_Source :: Destination
  in_Local :: Destination
  in_Tag :: gostring
  in_User :: "gostring option"
  in_VlessRoute :: Port

record Outbound =
  ob_OriginalTarget :: Destination
  ob_Target :: Destination
  ob_RouteTarget :: Destination
  ob_Tag :: gostring

record SniffingRequest =
  sr_ExcludeForDomain :: "gostring list"
  sr_OverrideDestinationForProtocol :: "gostring list"
  sr_Enabled :: bool
  sr_MetadataOnly :: bool
  sr_RouteOnly :: bool

record Content =
  ct_Protocol :: gostring
  ct_SniffingRequest :: SniffingRequest
  ct_Attributes :: "(gostring \<times> gostring) list option"
  ct_SkipDNSResolve :: bool

record SessionContext =
  sc_Inbound :: "Inbound option"
  sc_Outbound :: "Outbound option"
  sc_Content :: "Content option"

definition GetInboundTag :: "SessionContext \<Rightarrow> gostring" where
  "GetInboundTag ctx = (case sc_Inbound ctx of None \<Rightarrow> [] | Some i \<Rightarrow> in_Tag i)"

text \<open>The address of a valid destination as a list of IPs, as the three accessors make it.\<close>

definition dest_ips :: "Destination \<Rightarrow> byte list list option" where
  "dest_ips d =
     (if \<not> Destination_IsValid d then Some []
      else do { a \<leftarrow> d_Address d;
                if IsIP (Family a) then do { ip \<leftarrow> Address_IP a; Some [ip] } else Some [] })"

definition dest_port :: "Destination \<Rightarrow> Port" where
  "dest_port d = (if \<not> Destination_IsValid d then 0 else d_Port d)"

definition GetSourceIPs :: "SessionContext \<Rightarrow> byte list list option" where
  "GetSourceIPs ctx = (case sc_Inbound ctx of None \<Rightarrow> Some [] | Some i \<Rightarrow> dest_ips (in_Source i))"

definition GetSourcePort :: "SessionContext \<Rightarrow> Port" where
  "GetSourcePort ctx = (case sc_Inbound ctx of None \<Rightarrow> 0 | Some i \<Rightarrow> dest_port (in_Source i))"

definition GetTargetIPs :: "SessionContext \<Rightarrow> byte list list option" where
  "GetTargetIPs ctx = (case sc_Outbound ctx of None \<Rightarrow> Some [] | Some ob \<Rightarrow> dest_ips (ob_Target ob))"

definition GetTargetPort :: "SessionContext \<Rightarrow> Port" where
  "GetTargetPort ctx = (case sc_Outbound ctx of None \<Rightarrow> 0 | Some ob \<Rightarrow> dest_port (ob_Target ob))"

definition GetLocalIPs :: "SessionContext \<Rightarrow> byte list list option" where
  "GetLocalIPs ctx = (case sc_Inbound ctx of None \<Rightarrow> Some [] | Some i \<Rightarrow> dest_ips (in_Local i))"

definition GetLocalPort :: "SessionContext \<Rightarrow> Port" where
  "GetLocalPort ctx = (case sc_Inbound ctx of None \<Rightarrow> 0 | Some i \<Rightarrow> dest_port (in_Local i))"

definition GetTargetDomain :: "SessionContext \<Rightarrow> gostring option" where
  "GetTargetDomain ctx =
     (case sc_Outbound ctx of
        None \<Rightarrow> Some []
      | Some ob \<Rightarrow>
          if \<not> Destination_IsValid (ob_Target ob) then Some []
          else
            do { routed \<leftarrow> (if Destination_IsValid (ob_RouteTarget ob)
                   then do { a \<leftarrow> d_Address (ob_RouteTarget ob); Some (Address_Domain a) } else Some None);
                 (case routed of
                    Some d \<Rightarrow> Some d
                  | None \<Rightarrow>
                      do { a \<leftarrow> d_Address (ob_Target ob);
                           Some (case Address_Domain a of None \<Rightarrow> [] | Some d \<Rightarrow> d) }) })"

definition GetNetwork :: "SessionContext \<Rightarrow> Network" where
  "GetNetwork ctx = (case sc_Outbound ctx of None \<Rightarrow> Network_Unknown | Some ob \<Rightarrow> d_Network (ob_Target ob))"

definition GetProtocol :: "SessionContext \<Rightarrow> gostring" where
  "GetProtocol ctx = (case sc_Content ctx of None \<Rightarrow> [] | Some c \<Rightarrow> ct_Protocol c)"

definition GetUser :: "SessionContext \<Rightarrow> gostring" where
  "GetUser ctx = (case sc_Inbound ctx of None \<Rightarrow> [] | Some i \<Rightarrow> (case in_User i of None \<Rightarrow> [] | Some email \<Rightarrow> email))"

definition GetVlessRoute :: "SessionContext \<Rightarrow> Port" where
  "GetVlessRoute ctx = (case sc_Inbound ctx of None \<Rightarrow> 0 | Some i \<Rightarrow> in_VlessRoute i)"

definition GetAttributes :: "SessionContext \<Rightarrow> (gostring \<times> gostring) list option" where
  "GetAttributes ctx = (case sc_Content ctx of None \<Rightarrow> None | Some c \<Rightarrow> ct_Attributes c)"

definition GetSkipDNSResolve :: "SessionContext \<Rightarrow> bool" where
  "GetSkipDNSResolve ctx = (case sc_Content ctx of None \<Rightarrow> False | Some c \<Rightarrow> ct_SkipDNSResolve c)"

section \<open>Resolution\<close>

text \<open>
  A context of the router: the session alone, or with a DNS client. \<open>LookupIP n\<close> is the answer of the
  client to its \<open>n\<close>-th call.
\<close>

record ResolvableContext =
  rc_session :: SessionContext
  rc_dnsClient :: bool
  rc_cacheIPs :: "byte list list"
  rc_hasError :: bool
  rc_lookups :: nat

definition plain_context :: "SessionContext \<Rightarrow> ResolvableContext" where
  "plain_context s = \<lparr>rc_session = s, rc_dnsClient = False, rc_cacheIPs = [], rc_hasError = False, rc_lookups = 0\<rparr>"

definition ContextWithDNSClient :: "ResolvableContext \<Rightarrow> ResolvableContext" where
  "ContextWithDNSClient ctx = ctx\<lparr>rc_dnsClient := True, rc_cacheIPs := [], rc_hasError := False\<rparr>"

definition Resolvable_GetTargetIPs ::
  "(nat \<Rightarrow> gostring \<Rightarrow> goerr + byte list list) \<Rightarrow> ResolvableContext \<Rightarrow> (ResolvableContext \<times> byte list list) option" where
  "Resolvable_GetTargetIPs LookupIP ctx =
     (if rc_cacheIPs ctx \<noteq> [] then Some (ctx, rc_cacheIPs ctx)
      else if rc_hasError ctx then Some (ctx, [])
      else
        do { domain \<leftarrow> GetTargetDomain (rc_session ctx);
             let ctx1 = (if domain \<noteq> [] then ctx\<lparr>rc_lookups := rc_lookups ctx + 1\<rparr> else ctx);
             let found = (if domain \<noteq> [] then (case LookupIP (rc_lookups ctx) domain of Inl e \<Rightarrow> None | Inr ips \<Rightarrow> Some ips) else None);
             (case found of
                Some ips \<Rightarrow> Some (ctx1\<lparr>rc_cacheIPs := ips\<rparr>, ips)
              | None \<Rightarrow>
                  do { ips \<leftarrow> GetTargetIPs (rc_session ctx);
                       if ips \<noteq> [] then Some (ctx1\<lparr>rc_cacheIPs := ips\<rparr>, ips)
                       else Some (ctx1\<lparr>rc_hasError := True\<rparr>, []) }) })"

definition ctx_GetTargetIPs where
  "ctx_GetTargetIPs LookupIP ctx =
     (if rc_dnsClient ctx then Resolvable_GetTargetIPs LookupIP ctx
      else map_option (Pair ctx) (GetTargetIPs (rc_session ctx)))"

section \<open>The cache is transparent\<close>

text \<open>
  The addresses a context stands for, given the answer to the first lookup. A client reports an empty
  answer as an error (\<^verbatim>\<open>ErrEmptyResponse\<close>).
\<close>

definition resolved :: "(nat \<Rightarrow> gostring \<Rightarrow> goerr + byte list list) \<Rightarrow> nat \<Rightarrow> SessionContext \<Rightarrow> byte list list option" where
  "resolved LookupIP n s =
     do { domain \<leftarrow> GetTargetDomain s;
          (case (if domain \<noteq> [] then LookupIP n domain else Inl EOF) of
             Inr ips \<Rightarrow> Some ips
           | Inl e \<Rightarrow> GetTargetIPs s) }"

definition no_empty_answer :: "(nat \<Rightarrow> gostring \<Rightarrow> goerr + byte list list) \<Rightarrow> bool" where
  "no_empty_answer LookupIP \<longleftrightarrow> (\<forall>n d. LookupIP n d \<noteq> Inr [])"

text \<open>Before the first lookup nothing is cached; afterwards the answer is.\<close>

definition ctx_ok :: "(nat \<Rightarrow> gostring \<Rightarrow> goerr + byte list list) \<Rightarrow> nat \<Rightarrow> ResolvableContext \<Rightarrow> bool" where
  "ctx_ok LookupIP n ctx \<longleftrightarrow> rc_dnsClient ctx \<and>
     (if rc_cacheIPs ctx = [] \<and> \<not> rc_hasError ctx then rc_lookups ctx = n
      else resolved LookupIP n (rc_session ctx) = Some (rc_cacheIPs ctx) \<and> n \<le> rc_lookups ctx \<and> rc_lookups ctx \<le> n + 1)"

lemma target_ips_resolved:
  assumes "no_empty_answer LookupIP" "ctx_ok LookupIP n ctx"
  shows "case ctx_GetTargetIPs LookupIP ctx of
      None \<Rightarrow> resolved LookupIP n (rc_session ctx) = None
    | Some (ctx', ips) \<Rightarrow> resolved LookupIP n (rc_session ctx) = Some ips \<and> ctx_ok LookupIP n ctx' \<and> rc_session ctx' = rc_session ctx"
proof (cases "rc_cacheIPs ctx = [] \<and> \<not> rc_hasError ctx")
  case False
  with assms(2) show ?thesis by (auto simp: ctx_GetTargetIPs_def Resolvable_GetTargetIPs_def ctx_ok_def)
next
  case True
  show ?thesis
  proof (cases "GetTargetDomain (rc_session ctx)")
    case None
    with True assms(2) show ?thesis by (simp add: ctx_GetTargetIPs_def Resolvable_GetTargetIPs_def ctx_ok_def resolved_def)
  next
    case (Some d)
    let ?s = "rc_session ctx"
    from assms(2) True have c: "rc_dnsClient ctx" "rc_lookups ctx = n" by (auto simp: ctx_ok_def)
    define r where "r = (if d \<noteq> [] then LookupIP n d else Inl EOF)"
    note unfold = ctx_GetTargetIPs_def Resolvable_GetTargetIPs_def ctx_ok_def resolved_def Let_def
    show ?thesis
    proof (cases r)
      case (Inl e)
      then show ?thesis using True Some c
        by (cases "d = []"; cases "GetTargetIPs ?s"; cases "the (GetTargetIPs ?s)") (simp_all add: unfold r_def)
    next
      case (Inr ips)
      then have "ips \<noteq> []" using assms(1) by (auto simp: r_def no_empty_answer_def split: if_splits)
      with Inr show ?thesis using True Some c by (cases "d = []") (simp_all add: unfold r_def)
    qed
  qed
qed

lemma ctx_ok_wrap: "ctx_ok LookupIP (rc_lookups ctx) (ContextWithDNSClient ctx)"
  by (simp add: ctx_ok_def ContextWithDNSClient_def)

end
