(* ===== verification/Router_GeoIP.thy ===== *)
theory Router_GeoIP
  imports Net_Address "HOL-Library.AList" "HOL-Library.Multiset"
begin

text \<open>
  \<^verbatim>\<open>app/router/condition_geoip.go\<close>: sets of networks, matchers on them, and the matcher built for a list of
  country entries. A matcher that knows that its networks are all coarse (at most 24 bits, or 64 for
  IPv6) asks about one address per network of that size only. The sets of networks are those of the
  package \<^verbatim>\<open>go4.org/netipx\<close>, a parameter here; the addresses and prefixes of \<^verbatim>\<open>net/netip\<close> are modelled. The
  order in which Go iterates over a map is a parameter as well.
\<close>

section \<open>Addresses and prefixes of net/netip\<close>

datatype Addr = Addr4 "byte list" | Addr6 "byte list"

fun Addr_bytes :: "Addr \<Rightarrow> byte list" where
  "Addr_bytes (Addr4 b) = b"
| "Addr_bytes (Addr6 b) = b"

fun Is4 :: "Addr \<Rightarrow> bool" where
  "Is4 (Addr4 b) = True"
| "Is4 (Addr6 b) = False"

definition AddrFromSlice :: "byte list \<Rightarrow> Addr option" where
  "AddrFromSlice b = (if length b = 4 then Some (Addr4 b) else if length b = 16 then Some (Addr6 b) else None)"

record Prefix =
  pf_addr :: Addr
  pf_bits :: nat

definition Prefix_IsValid :: "Prefix \<Rightarrow> bool" where
  "Prefix_IsValid p \<longleftrightarrow> pf_bits p \<le> (if Is4 (pf_addr p) then 32 else 128)"

text \<open>The bits of an address, the most significant first.\<close>

definition byte_bits :: "byte \<Rightarrow> bool list" where
  "byte_bits b = map (bit b) [7, 6, 5, 4, 3, 2, 1, 0]"

definition addr_bits :: "byte list \<Rightarrow> bool list" where
  "addr_bits b = concat (map byte_bits b)"

definition Prefix_Contains :: "Prefix \<Rightarrow> Addr \<Rightarrow> bool" where
  "Prefix_Contains p a \<longleftrightarrow> Is4 (pf_addr p) = Is4 a \<and>
     take (pf_bits p) (addr_bits (Addr_bytes (pf_addr p))) = take (pf_bits p) (addr_bits (Addr_bytes a))"

section \<open>The package netipx\<close>

text \<open>
  \<open>nx_FromStdIP\<close> is \<^verbatim>\<open>netipx.FromStdIP\<close>; \<open>nx_IPSet ps\<close> is an \<^verbatim>\<open>IPSetBuilder\<close> to which the prefixes \<open>ps\<close> have been
  added and whose \<^verbatim>\<open>IPSet\<close> is called; \<open>nx_Contains\<close> and \<open>nx_Prefixes\<close> are the methods of \<^verbatim>\<open>IPSet\<close>.
\<close>

record 's netipx =
  nx_FromStdIP :: "byte list \<Rightarrow> Addr option"
  nx_IPSet :: "Prefix list \<Rightarrow> goerr + 's"
  nx_Contains :: "'s \<Rightarrow> Addr \<Rightarrow> bool"
  nx_Prefixes :: "'s \<Rightarrow> Prefix list"

text \<open>What its documentation says: \<^verbatim>\<open>FromStdIP\<close> fails on an invalid slice and unmaps IPv4-mapped addresses;
  a set built from valid prefixes contains the addresses of these; its prefixes cover just its
  addresses.\<close>

definition std_addr :: "byte list \<Rightarrow> Addr option" where
  "std_addr ip = (case To4 ip of Some b \<Rightarrow> Some (Addr4 b)
     | None \<Rightarrow> if length ip = 16 then Some (Addr6 ip) else None)"

definition netipx_ok :: "'s netipx \<Rightarrow> bool" where
  "netipx_ok N \<longleftrightarrow> nx_FromStdIP N = std_addr \<and>
     (\<forall>ps. (\<forall>p \<in> set ps. Prefix_IsValid p) \<longrightarrow>
        (\<exists>s. nx_IPSet N ps = Inr s \<and> (\<forall>a. nx_Contains N s a \<longleftrightarrow> (\<exists>p \<in> set ps. Prefix_Contains p a)))) \<and>
     (\<forall>s. (\<forall>p \<in> set (nx_Prefixes N s). Prefix_IsValid p) \<and>
        (\<forall>a. nx_Contains N s a \<longleftrightarrow> (\<exists>p \<in> set (nx_Prefixes N s). Prefix_Contains p a)))"

section \<open>One set of networks\<close>

record 's GeoIPSet =
  gs_ipv4 :: 's
  gs_ipv6 :: 's
  max4 :: byte
  max6 :: byte

record 's HeuristicGeoIPMatcher =
  ipset :: "'s GeoIPSet"
  reverse :: bool

record ipBucket =
  bk_rep :: Addr
  bk_ips :: "byte list list"

definition matchAddr :: "'s netipx \<Rightarrow> 's HeuristicGeoIPMatcher \<Rightarrow> Addr \<Rightarrow> bool" where
  "matchAddr N m ipx =
     (if Is4 ipx then nx_Contains N (gs_ipv4 (ipset m)) ipx \<noteq> reverse m
      else nx_Contains N (gs_ipv6 (ipset m)) ipx \<noteq> reverse m)"

definition Heuristic_Match :: "'s netipx \<Rightarrow> 's HeuristicGeoIPMatcher \<Rightarrow> byte list \<Rightarrow> bool" where
  "Heuristic_Match N m ip = (case nx_FromStdIP N ip of None \<Rightarrow> False | Some ipx \<Rightarrow> matchAddr N m ipx)"

definition heur4 :: "'s HeuristicGeoIPMatcher \<Rightarrow> bool" where "heur4 m \<longleftrightarrow> max4 (ipset m) \<le> 24"

definition heur6 :: "'s HeuristicGeoIPMatcher \<Rightarrow> bool" where "heur6 m \<longleftrightarrow> max6 (ipset m) \<le> 64"

definition prefixKeyFromIP :: "byte list \<Rightarrow> byte list option" where
  "prefixKeyFromIP ip =
     (case To4 ip of
        Some ip4 \<Rightarrow> Some (4 # take 3 ip4 @ replicate 5 0)
      | None \<Rightarrow> if length ip = 16 then Some (6 # take 8 ip) else None)"

definition heur_key :: "bool \<Rightarrow> bool \<Rightarrow> byte list \<Rightarrow> bool" where
  "heur_key h4 h6 key \<longleftrightarrow> (key ! 0 = 4 \<and> h4) \<or> (key ! 0 = 6 \<and> h6)"

text \<open>The loops of \<^verbatim>\<open>AnyMatch\<close>.\<close>

fun any_precise :: "'s netipx \<Rightarrow> 's HeuristicGeoIPMatcher \<Rightarrow> byte list list \<Rightarrow> bool" where
  "any_precise N m [] = False"
| "any_precise N m (ip # ips) =
     (case nx_FromStdIP N ip of
        Some ipx \<Rightarrow> if matchAddr N m ipx then True else any_precise N m ips
      | None \<Rightarrow> any_precise N m ips)"

fun any_buckets :: "'s netipx \<Rightarrow> 's HeuristicGeoIPMatcher \<Rightarrow> byte list list \<Rightarrow> byte list list \<Rightarrow> bool" where
  "any_buckets N m buckets [] = False"
| "any_buckets N m buckets (ip # ips) =
     (case prefixKeyFromIP ip of
        None \<Rightarrow> any_buckets N m buckets ips
      | Some key \<Rightarrow>
          let heur = heur_key (heur4 m) (heur6 m) key in
          if heur \<and> key \<in> set buckets then any_buckets N m buckets ips
          else (case nx_FromStdIP N ip of
                  None \<Rightarrow> any_buckets N m buckets ips
                | Some ipx \<Rightarrow>
                    if matchAddr N m ipx then True
                    else any_buckets N m (if heur then key # buckets else buckets) ips))"

definition Heuristic_AnyMatch :: "'s netipx \<Rightarrow> 's HeuristicGeoIPMatcher \<Rightarrow> byte list list \<Rightarrow> bool" where
  "Heuristic_AnyMatch N m ips =
     (case ips of
        [] \<Rightarrow> False
      | [ip] \<Rightarrow> Heuristic_Match N m ip
      | _ \<Rightarrow> if \<not> heur4 m \<and> \<not> heur6 m then any_precise N m ips else any_buckets N m [] ips)"

text \<open>The loops of \<^verbatim>\<open>Matches\<close>. The buckets are a map; its entries are kept in the order of insertion.\<close>

fun all_precise :: "'s netipx \<Rightarrow> 's HeuristicGeoIPMatcher \<Rightarrow> byte list list \<Rightarrow> bool" where
  "all_precise N m [] = True"
| "all_precise N m (ip # ips) =
     (case nx_FromStdIP N ip of
        None \<Rightarrow> False
      | Some ipx \<Rightarrow> if \<not> matchAddr N m ipx then False else all_precise N m ips)"

fun collect_reps ::
  "'s netipx \<Rightarrow> bool \<Rightarrow> bool \<Rightarrow> byte list list \<Rightarrow> (byte list \<times> Addr) list \<Rightarrow> Addr list \<Rightarrow> ((byte list \<times> Addr) list \<times> Addr list) option" where
  "collect_reps N h4 h6 [] buckets precise = Some (buckets, precise)"
| "collect_reps N h4 h6 (ip # ips) buckets precise =
     do { key \<leftarrow> prefixKeyFromIP ip;
          if heur_key h4 h6 key
          then (case map_of buckets key of
                  Some _ \<Rightarrow> collect_reps N h4 h6 ips buckets precise
                | None \<Rightarrow>
                    do { ipx \<leftarrow> nx_FromStdIP N ip;
                         collect_reps N h4 h6 ips (buckets @ [(key, ipx)]) precise })
          else do { ipx \<leftarrow> nx_FromStdIP N ip;
                    collect_reps N h4 h6 ips buckets (precise @ [ipx]) } }"

definition Heuristic_Matches :: "'s netipx \<Rightarrow> 's HeuristicGeoIPMatcher \<Rightarrow> byte list list \<Rightarrow> bool" where
  "Heuristic_Matches N m ips =
     (case ips of
        [] \<Rightarrow> False
      | [ip] \<Rightarrow> Heuristic_Match N m ip
      | _ \<Rightarrow>
          if \<not> heur4 m \<and> \<not> heur6 m then all_precise N m ips
          else (case collect_reps N (heur4 m) (heur6 m) ips [] [] of
                  None \<Rightarrow> False
                | Some (buckets, precise) \<Rightarrow>
                    list_all (matchAddr N m) (map snd buckets) \<and> list_all (matchAddr N m) precise))"

text \<open>
  \<^verbatim>\<open>FilterIPs\<close>. The order in which a map is iterated is a function of the number of the iteration and of
  the keys, one for each type of map.
\<close>

record map_order =
  mo_key :: "nat \<Rightarrow> byte list list \<Rightarrow> byte list list"
  mo_addr :: "nat \<Rightarrow> Addr list \<Rightarrow> Addr list"

definition in_order :: "('k list \<Rightarrow> 'k list) \<Rightarrow> ('k \<times> 'v) list \<Rightarrow> ('k \<times> 'v) list" where
  "in_order f xs = List.map_filter (\<lambda>k. map_option (Pair k) (map_of xs k)) (f (map fst xs))"

fun split_precise :: "'s netipx \<Rightarrow> 's HeuristicGeoIPMatcher \<Rightarrow> byte list list \<Rightarrow> byte list list \<times> byte list list" where
  "split_precise N m [] = ([], [])"
| "split_precise N m (ip # ips) =
     (let (matched, unmatched) = split_precise N m ips in
      case nx_FromStdIP N ip of
        None \<Rightarrow> (matched, unmatched)
      | Some ipx \<Rightarrow> if matchAddr N m ipx then (ip # matched, unmatched) else (matched, ip # unmatched))"

fun collect_buckets ::
  "'s netipx \<Rightarrow> bool \<Rightarrow> bool \<Rightarrow> byte list list \<Rightarrow> (byte list \<times> ipBucket) list \<Rightarrow> byte list list \<Rightarrow> (byte list \<times> ipBucket) list \<times> byte list list" where
  "collect_buckets N h4 h6 [] buckets precise = (buckets, precise)"
| "collect_buckets N h4 h6 (ip # ips) buckets precise =
     (case prefixKeyFromIP ip of
        None \<Rightarrow> collect_buckets N h4 h6 ips buckets precise
      | Some key \<Rightarrow>
          if (key ! 0 = 4 \<and> \<not> h4) \<or> (key ! 0 = 6 \<and> \<not> h6)
          then collect_buckets N h4 h6 ips buckets (precise @ [ip])
          else (case map_of buckets key of
                  None \<Rightarrow>
                    (case nx_FromStdIP N ip of
                       None \<Rightarrow> collect_buckets N h4 h6 ips buckets precise
                     | Some ipx \<Rightarrow>
                         collect_buckets N h4 h6 ips (buckets @ [(key, \<lparr>bk_rep = ipx, bk_ips = [ip]\<rparr>)]) precise)
                | Some b \<Rightarrow>
                    collect_buckets N h4 h6 ips (AList.update key (b\<lparr>bk_ips := bk_ips b @ [ip]\<rparr>) buckets) precise))"

definition Heuristic_FilterIPs ::
  "'s netipx \<Rightarrow> map_order \<Rightarrow> 's HeuristicGeoIPMatcher \<Rightarrow> byte list list \<Rightarrow> byte list list \<times> byte list list" where
  "Heuristic_FilterIPs N mo m ips =
     (case ips of
        [] \<Rightarrow> ([], [])
      | [ip] \<Rightarrow>
          (case nx_FromStdIP N ip of
             None \<Rightarrow> ([], [])
           | Some ipx \<Rightarrow> if matchAddr N m ipx then (ips, []) else ([], ips))
      | _ \<Rightarrow>
          if \<not> heur4 m \<and> \<not> heur6 m then split_precise N m ips
          else
            let (buckets, precise) = collect_buckets N (heur4 m) (heur6 m) ips [] [];
                bs = map snd (in_order (mo_key mo 0) buckets);
                (matched, unmatched) = split_precise N m precise
            in (concat (map bk_ips (filter (\<lambda>b. matchAddr N m (bk_rep b)) bs)) @ matched,
                concat (map bk_ips (filter (\<lambda>b. \<not> matchAddr N m (bk_rep b)) bs)) @ unmatched))"

definition Heuristic_ToggleReverse :: "'s HeuristicGeoIPMatcher \<Rightarrow> 's HeuristicGeoIPMatcher" where
  "Heuristic_ToggleReverse m = m\<lparr>reverse := \<not> reverse m\<rparr>"

definition Heuristic_SetReverse :: "bool \<Rightarrow> 's HeuristicGeoIPMatcher \<Rightarrow> 's HeuristicGeoIPMatcher" where
  "Heuristic_SetReverse r m = m\<lparr>reverse := r\<rparr>"

section \<open>Several sets\<close>

definition HMulti_Match :: "'s netipx \<Rightarrow> 's HeuristicGeoIPMatcher list \<Rightarrow> byte list \<Rightarrow> bool" where
  "HMulti_Match N ms ip =
     (case nx_FromStdIP N ip of None \<Rightarrow> False | Some ipx \<Rightarrow> list_ex (\<lambda>m. matchAddr N m ipx) ms)"

text \<open>
  One address of \<^verbatim>\<open>AnyMatch\<close>: the loop over the matchers with \<^verbatim>\<open>state\<close> (0: not looked up, 1: new, 4 and 6: its
  network was seen) and the address once it is converted. The answer is whether one matched, and the
  networks seen.
\<close>

fun any_matchers ::
  "'s netipx \<Rightarrow> byte list \<Rightarrow> byte \<Rightarrow> Addr option \<Rightarrow> byte list list \<Rightarrow> 's HeuristicGeoIPMatcher list \<Rightarrow> bool \<times> byte list list" where
  "any_matchers N ip state ipx buckets [] = (False, buckets)"
| "any_matchers N ip state ipx buckets (m # ms) =
     (case (if state = 0 \<and> (heur4 m \<or> heur6 m)
            then (case prefixKeyFromIP ip of
                    None \<Rightarrow> None
                  | Some key \<Rightarrow> Some (if key \<in> set buckets then (key ! 0, buckets) else (1, key # buckets)))
            else Some (state, buckets)) of
        None \<Rightarrow> (False, buckets)
      | Some (state', buckets') \<Rightarrow>
          if (heur4 m \<and> state' = 4) \<or> (heur6 m \<and> state' = 6)
          then any_matchers N ip state' ipx buckets' ms
          else (case (if ipx = None then nx_FromStdIP N ip else ipx) of
                  None \<Rightarrow> (False, buckets')
                | Some a \<Rightarrow>
                    if matchAddr N m a then (True, buckets')
                    else any_matchers N ip state' (Some a) buckets' ms))"

fun any_ips :: "'s netipx \<Rightarrow> 's HeuristicGeoIPMatcher list \<Rightarrow> byte list list \<Rightarrow> byte list list \<Rightarrow> bool" where
  "any_ips N ms buckets [] = False"
| "any_ips N ms buckets (ip # ips) =
     (case any_matchers N ip 0 None buckets ms of
        (found, buckets') \<Rightarrow> if found then True else any_ips N ms buckets' ips)"

definition HMulti_AnyMatch :: "'s netipx \<Rightarrow> 's HeuristicGeoIPMatcher list \<Rightarrow> byte list list \<Rightarrow> bool" where
  "HMulti_AnyMatch N ms ips =
     (case ips of [] \<Rightarrow> False | [ip] \<Rightarrow> HMulti_Match N ms ip | _ \<Rightarrow> any_ips N ms [] ips)"

text \<open>The views of \<^verbatim>\<open>Matches\<close>, made when a matcher first needs them; \<open>None\<close> is \<^verbatim>\<open>nil\<close>.\<close>

record ipViews =
  vw_buckets4 :: "(byte list \<times> Addr) list option"
  vw_buckets6 :: "(byte list \<times> Addr) list option"
  vw_precise4 :: "Addr list option"
  vw_precise6 :: "Addr list option"

definition no_views :: ipViews where
  "no_views = \<lparr>vw_buckets4 = None, vw_buckets6 = None, vw_precise4 = None, vw_precise6 = None\<rparr>"

text \<open>One address of one family; \<open>None\<close> is that the code returns false.\<close>

definition view_add ::
  "'s netipx \<Rightarrow> bool \<Rightarrow> bool \<Rightarrow> byte list \<Rightarrow> byte list \<Rightarrow> (byte list \<times> Addr) list \<times> Addr list \<Rightarrow> ((byte list \<times> Addr) list \<times> Addr list) option" where
  "view_add N needHeur needPrec ip key v =
     (case v of (buckets, precise) \<Rightarrow>
        do { (buckets', ipx) \<leftarrow>
               (if needHeur \<and> map_of buckets key = None
                then do { a \<leftarrow> nx_FromStdIP N ip; Some (buckets @ [(key, a)], Some a) }
                else Some (buckets, None));
             if needPrec
             then do { a \<leftarrow> (if ipx = None then nx_FromStdIP N ip else ipx); Some (buckets', precise @ [a]) }
             else Some (buckets', precise) })"

fun fill_views where
  "fill_views N h4 p4 h6 p6 [] v4 v6 = Some (v4, v6)"
| "fill_views N h4 p4 h6 p6 (ip # ips) v4 v6 =
     do { key \<leftarrow> prefixKeyFromIP ip;
          if key ! 0 = 4
          then do { v4' \<leftarrow> view_add N h4 p4 ip key v4; fill_views N h4 p4 h6 p6 ips v4' v6 }
          else if key ! 0 = 6
          then do { v6' \<leftarrow> view_add N h6 p6 ip key v6; fill_views N h4 p4 h6 p6 ips v4 v6' }
          else None }"

definition views_ensure :: "'s netipx \<Rightarrow> ipViews \<Rightarrow> 's HeuristicGeoIPMatcher \<Rightarrow> byte list list \<Rightarrow> ipViews option" where
  "views_ensure N v m ips =
     (let needHeur4 = heur4 m \<and> vw_buckets4 v = None;
          needHeur6 = heur6 m \<and> vw_buckets6 v = None;
          needPrec4 = \<not> heur4 m \<and> vw_precise4 v = None;
          needPrec6 = \<not> heur6 m \<and> vw_precise6 v = None
      in if \<not> needHeur4 \<and> \<not> needHeur6 \<and> \<not> needPrec4 \<and> \<not> needPrec6 then Some v
         else do { ((b4, p4), (b6, p6)) \<leftarrow> fill_views N needHeur4 needPrec4 needHeur6 needPrec6 ips ([], []) ([], []);
                   Some \<lparr>vw_buckets4 = if needHeur4 then Some b4 else vw_buckets4 v,
                         vw_buckets6 = if needHeur6 then Some b6 else vw_buckets6 v,
                         vw_precise4 = if needPrec4 then Some p4 else vw_precise4 v,
                         vw_precise6 = if needPrec6 then Some p6 else vw_precise6 v\<rparr> })"

definition views_match :: "'s netipx \<Rightarrow> 's HeuristicGeoIPMatcher \<Rightarrow> ipViews \<Rightarrow> bool" where
  "views_match N m v \<longleftrightarrow>
     list_all (matchAddr N m) (if heur4 m then map snd (case_option [] id (vw_buckets4 v)) else case_option [] id (vw_precise4 v)) \<and>
     list_all (matchAddr N m) (if heur6 m then map snd (case_option [] id (vw_buckets6 v)) else case_option [] id (vw_precise6 v))"

fun matches_loop :: "'s netipx \<Rightarrow> byte list list \<Rightarrow> ipViews \<Rightarrow> 's HeuristicGeoIPMatcher list \<Rightarrow> bool" where
  "matches_loop N ips v [] = False"
| "matches_loop N ips v (m # ms) =
     (case views_ensure N v m ips of
        None \<Rightarrow> False
      | Some v' \<Rightarrow> if views_match N m v' then True else matches_loop N ips v' ms)"

definition HMulti_Matches :: "'s netipx \<Rightarrow> 's HeuristicGeoIPMatcher list \<Rightarrow> byte list list \<Rightarrow> bool" where
  "HMulti_Matches N ms ips =
     (case ips of [] \<Rightarrow> False | [ip] \<Rightarrow> HMulti_Match N ms ip | _ \<Rightarrow> matches_loop N ips no_views ms)"

text \<open>
  The views of \<^verbatim>\<open>FilterIPs\<close>: an entry becomes \<^verbatim>\<open>nil\<close> once its addresses are matched.
\<close>

record ipBucketViews =
  bv_buckets4 :: "(byte list \<times> ipBucket option) list option"
  bv_buckets6 :: "(byte list \<times> ipBucket option) list option"
  bv_precise4 :: "(Addr \<times> byte list option) list option"
  bv_precise6 :: "(Addr \<times> byte list option) list option"

definition no_bucket_views :: ipBucketViews where
  "no_bucket_views = \<lparr>bv_buckets4 = None, bv_buckets6 = None, bv_precise4 = None, bv_precise6 = None\<rparr>"

definition bucket_view_add ::
  "'s netipx \<Rightarrow> bool \<Rightarrow> bool \<Rightarrow> byte list \<Rightarrow> byte list \<Rightarrow> (byte list \<times> ipBucket) list \<times> (Addr \<times> byte list) list \<Rightarrow>
   (byte list \<times> ipBucket) list \<times> (Addr \<times> byte list) list" where
  "bucket_view_add N needHeur needPrec ip key v =
     (case v of (buckets, precise) \<Rightarrow>
        case (if needHeur
              then (case map_of buckets key of
                      None \<Rightarrow>
                        do { a \<leftarrow> nx_FromStdIP N ip;
                             Some (buckets @ [(key, \<lparr>bk_rep = a, bk_ips = [ip]\<rparr>)], Some a) }
                    | Some b \<Rightarrow> Some (AList.update key (b\<lparr>bk_ips := bk_ips b @ [ip]\<rparr>) buckets, None))
              else Some (buckets, None)) of
          None \<Rightarrow> (buckets, precise)
        | Some (buckets', ipx) \<Rightarrow>
            if needPrec
            then (case (if ipx = None then nx_FromStdIP N ip else ipx) of
                    None \<Rightarrow> (buckets', precise)
                  | Some a \<Rightarrow> (buckets', AList.update a ip precise))
            else (buckets', precise))"

fun fill_bucket_views where
  "fill_bucket_views N h4 p4 h6 p6 [] v4 v6 = (v4, v6)"
| "fill_bucket_views N h4 p4 h6 p6 (ip # ips) v4 v6 =
     (case prefixKeyFromIP ip of
        None \<Rightarrow> fill_bucket_views N h4 p4 h6 p6 ips v4 v6
      | Some key \<Rightarrow>
          if key ! 0 = 4 then fill_bucket_views N h4 p4 h6 p6 ips (bucket_view_add N h4 p4 ip key v4) v6
          else if key ! 0 = 6 then fill_bucket_views N h4 p4 h6 p6 ips v4 (bucket_view_add N h6 p6 ip key v6)
          else fill_bucket_views N h4 p4 h6 p6 ips v4 v6)"

abbreviation live :: "('k \<times> 'v) list \<Rightarrow> ('k \<times> 'v option) list" where
  "live xs \<equiv> map (apsnd Some) xs"

definition bucket_views_ensure ::
  "'s netipx \<Rightarrow> ipBucketViews \<Rightarrow> 's HeuristicGeoIPMatcher \<Rightarrow> byte list list \<Rightarrow> ipBucketViews" where
  "bucket_views_ensure N v m ips =
     (let needHeur4 = heur4 m \<and> bv_buckets4 v = None;
          needHeur6 = heur6 m \<and> bv_buckets6 v = None;
          needPrec4 = \<not> heur4 m \<and> bv_precise4 v = None;
          needPrec6 = \<not> heur6 m \<and> bv_precise6 v = None
      in if \<not> needHeur4 \<and> \<not> needHeur6 \<and> \<not> needPrec4 \<and> \<not> needPrec6 then v
         else (case fill_bucket_views N needHeur4 needPrec4 needHeur6 needPrec6 ips ([], []) ([], []) of
                 ((b4, p4), (b6, p6)) \<Rightarrow>
                   \<lparr>bv_buckets4 = if needHeur4 then Some (live b4) else bv_buckets4 v,
                    bv_buckets6 = if needHeur6 then Some (live b6) else bv_buckets6 v,
                    bv_precise4 = if needPrec4 then Some (live p4) else bv_precise4 v,
                    bv_precise6 = if needPrec6 then Some (live p6) else bv_precise6 v\<rparr>))"

text \<open>One of the four loops: the entries that match become \<^verbatim>\<open>nil\<close> and their addresses are matched.\<close>

fun take_matched ::
  "('k \<Rightarrow> 'v \<Rightarrow> bool) \<Rightarrow> ('v \<Rightarrow> byte list list) \<Rightarrow> ('k \<times> 'v option) list \<Rightarrow> ('k \<times> 'v option) list \<Rightarrow> ('k \<times> 'v option) list \<times> byte list list" where
  "take_matched hit ips_of [] m = (m, [])"
| "take_matched hit ips_of ((k, None) # es) m = take_matched hit ips_of es m"
| "take_matched hit ips_of ((k, Some b) # es) m =
     (if hit k b
      then (case take_matched hit ips_of es (AList.update k None m) of (m', matched) \<Rightarrow> (m', ips_of b @ matched))
      else take_matched hit ips_of es m)"

definition take_buckets ::
  "'s netipx \<Rightarrow> (byte list list \<Rightarrow> byte list list) \<Rightarrow> 's HeuristicGeoIPMatcher \<Rightarrow> (byte list \<times> ipBucket option) list option \<Rightarrow>
   (byte list \<times> ipBucket option) list option \<times> byte list list" where
  "take_buckets N f m v =
     (case v of
        None \<Rightarrow> (None, [])
      | Some bs \<Rightarrow> apfst Some (take_matched (\<lambda>k b. matchAddr N m (bk_rep b)) bk_ips (in_order f bs) bs))"

definition take_addrs ::
  "'s netipx \<Rightarrow> (Addr list \<Rightarrow> Addr list) \<Rightarrow> 's HeuristicGeoIPMatcher \<Rightarrow> (Addr \<times> byte list option) list option \<Rightarrow>
   (Addr \<times> byte list option) list option \<times> byte list list" where
  "take_addrs N f m v =
     (case v of
        None \<Rightarrow> (None, [])
      | Some ps \<Rightarrow> apfst Some (take_matched (\<lambda>ipx ip. matchAddr N m ipx) (\<lambda>ip. [ip]) (in_order f ps) ps))"

text \<open>One matcher of \<^verbatim>\<open>FilterIPs\<close>.\<close>

definition filter_matcher ::
  "'s netipx \<Rightarrow> map_order \<Rightarrow> nat \<Rightarrow> 's HeuristicGeoIPMatcher \<Rightarrow> ipBucketViews \<Rightarrow> ipBucketViews \<times> byte list list" where
  "filter_matcher N mo i m v =
     (let (v1, matched4) =
            (if heur4 m
             then (case take_buckets N (mo_key mo i) m (bv_buckets4 v) of (b, r) \<Rightarrow> (v\<lparr>bv_buckets4 := b\<rparr>, r))
             else (case take_addrs N (mo_addr mo i) m (bv_precise4 v) of (b, r) \<Rightarrow> (v\<lparr>bv_precise4 := b\<rparr>, r)));
          (v2, matched6) =
            (if heur6 m
             then (case take_buckets N (mo_key mo i) m (bv_buckets6 v1) of (b, r) \<Rightarrow> (v1\<lparr>bv_buckets6 := b\<rparr>, r))
             else (case take_addrs N (mo_addr mo i) m (bv_precise6 v1) of (b, r) \<Rightarrow> (v1\<lparr>bv_precise6 := b\<rparr>, r)))
      in (v2, matched4 @ matched6))"

fun filter_loop ::
  "'s netipx \<Rightarrow> map_order \<Rightarrow> byte list list \<Rightarrow> nat \<Rightarrow> ipBucketViews \<Rightarrow> 's HeuristicGeoIPMatcher list \<Rightarrow> ipBucketViews \<times> byte list list" where
  "filter_loop N mo ips i v [] = (v, [])"
| "filter_loop N mo ips i v (m # ms) =
     (case filter_matcher N mo i m (bucket_views_ensure N v m ips) of
        (v', matched) \<Rightarrow> (case filter_loop N mo ips (i + 1) v' ms of (v'', rest) \<Rightarrow> (v'', matched @ rest)))"

definition left_buckets :: "(byte list list \<Rightarrow> byte list list) \<Rightarrow> (byte list \<times> ipBucket option) list option \<Rightarrow> byte list list" where
  "left_buckets f v = (case v of None \<Rightarrow> []
     | Some bs \<Rightarrow> concat (map (\<lambda>(k, b). case b of None \<Rightarrow> [] | Some b \<Rightarrow> bk_ips b) (in_order f bs)))"

definition left_addrs :: "(Addr list \<Rightarrow> Addr list) \<Rightarrow> (Addr \<times> byte list option) list option \<Rightarrow> byte list list" where
  "left_addrs f v = (case v of None \<Rightarrow> []
     | Some ps \<Rightarrow> concat (map (\<lambda>(k, ip). case ip of None \<Rightarrow> [] | Some ip \<Rightarrow> [ip]) (in_order f ps)))"

text \<open>The capacity \<^verbatim>\<open>n-len(matched)\<close> given to \<^verbatim>\<open>make\<close> must not be negative: \<open>None\<close> is the panic.\<close>

definition HMulti_FilterIPs ::
  "'s netipx \<Rightarrow> map_order \<Rightarrow> 's HeuristicGeoIPMatcher list \<Rightarrow> byte list list \<Rightarrow> (byte list list \<times> byte list list) option" where
  "HMulti_FilterIPs N mo ms ips =
     (case ips of
        [] \<Rightarrow> Some ([], [])
      | [ip] \<Rightarrow>
          (case nx_FromStdIP N ip of
             None \<Rightarrow> Some ([], [])
           | Some ipx \<Rightarrow> Some (if list_ex (\<lambda>m. matchAddr N m ipx) ms then (ips, []) else ([], ips)))
      | _ \<Rightarrow>
          let n = length ms; (v, matched) = filter_loop N mo ips 0 no_bucket_views ms in
          if length ips < length matched then None
          else Some (matched, left_buckets (mo_key mo n) (bv_buckets4 v) @ left_addrs (mo_addr mo n) (bv_precise4 v) @
                 left_buckets (mo_key mo n) (bv_buckets6 v) @ left_addrs (mo_addr mo n) (bv_precise6 v)))"

section \<open>The interface GeoIPMatcher\<close>

datatype 's GeoIPMatcher =
    Heuristic "'s HeuristicGeoIPMatcher"
  | GeneralMulti "'s GeoIPMatcher list"
  | HeuristicMulti "'s HeuristicGeoIPMatcher list"

fun GeoIP_Match :: "'s netipx \<Rightarrow> 's GeoIPMatcher \<Rightarrow> byte list \<Rightarrow> bool" where
  "GeoIP_Match N (Heuristic m) ip = Heuristic_Match N m ip"
| "GeoIP_Match N (GeneralMulti ms) ip = list_ex (\<lambda>m. GeoIP_Match N m ip) ms"
| "GeoIP_Match N (HeuristicMulti ms) ip = HMulti_Match N ms ip"

fun GeoIP_AnyMatch :: "'s netipx \<Rightarrow> 's GeoIPMatcher \<Rightarrow> byte list list \<Rightarrow> bool" where
  "GeoIP_AnyMatch N (Heuristic m) ips = Heuristic_AnyMatch N m ips"
| "GeoIP_AnyMatch N (GeneralMulti ms) ips = list_ex (\<lambda>m. GeoIP_AnyMatch N m ips) ms"
| "GeoIP_AnyMatch N (HeuristicMulti ms) ips = HMulti_AnyMatch N ms ips"

fun GeoIP_Matches :: "'s netipx \<Rightarrow> 's GeoIPMatcher \<Rightarrow> byte list list \<Rightarrow> bool" where
  "GeoIP_Matches N (Heuristic m) ips = Heuristic_Matches N m ips"
| "GeoIP_Matches N (GeneralMulti ms) ips = list_ex (\<lambda>m. GeoIP_Matches N m ips) ms"
| "GeoIP_Matches N (HeuristicMulti ms) ips = HMulti_Matches N ms ips"

text \<open>The loop of \<^verbatim>\<open>GeneralMultiGeoIPMatcher.FilterIPs\<close> and the method on every kind of matcher.\<close>

fun GeoIP_FilterIPs :: "'s netipx \<Rightarrow> map_order \<Rightarrow> 's GeoIPMatcher \<Rightarrow> byte list list \<Rightarrow> (byte list list \<times> byte list list) option"
  and general_filter :: "'s netipx \<Rightarrow> map_order \<Rightarrow> 's GeoIPMatcher list \<Rightarrow> byte list list \<Rightarrow> (byte list list \<times> byte list list) option" where
  "GeoIP_FilterIPs N mo (Heuristic m) ips = Some (Heuristic_FilterIPs N mo m ips)"
| "GeoIP_FilterIPs N mo (GeneralMulti ms) ips = general_filter N mo ms ips"
| "GeoIP_FilterIPs N mo (HeuristicMulti ms) ips = HMulti_FilterIPs N mo ms ips"
| "general_filter N mo [] unmatched = Some ([], unmatched)"
| "general_filter N mo (m # ms) unmatched =
     (if unmatched = [] then Some ([], unmatched)
      else do { (mtch, unmatched') \<leftarrow> GeoIP_FilterIPs N mo m unmatched;
                (rest, left) \<leftarrow> general_filter N mo ms unmatched';
                Some (mtch @ rest, left) })"

fun GeoIP_ToggleReverse :: "'s GeoIPMatcher \<Rightarrow> 's GeoIPMatcher" where
  "GeoIP_ToggleReverse (Heuristic m) = Heuristic (Heuristic_ToggleReverse m)"
| "GeoIP_ToggleReverse (GeneralMulti ms) = GeneralMulti (map GeoIP_ToggleReverse ms)"
| "GeoIP_ToggleReverse (HeuristicMulti ms) = HeuristicMulti (map Heuristic_ToggleReverse ms)"

fun GeoIP_SetReverse :: "bool \<Rightarrow> 's GeoIPMatcher \<Rightarrow> 's GeoIPMatcher" where
  "GeoIP_SetReverse r (Heuristic m) = Heuristic (Heuristic_SetReverse r m)"
| "GeoIP_SetReverse r (GeneralMulti ms) = GeneralMulti (map (GeoIP_SetReverse r) ms)"
| "GeoIP_SetReverse r (HeuristicMulti ms) = HeuristicMulti (map (Heuristic_SetReverse r) ms)"

section \<open>Building matchers\<close>

record CIDR =
  cd_Ip :: "byte list"
  cd_Prefix :: u32

record GeoIP =
  CountryCode :: gostring
  Cidr :: "CIDR list"
  ReverseMatch :: bool

definition cidr_prefix :: "CIDR \<Rightarrow> Prefix option" where
  "cidr_prefix c =
     do { addr \<leftarrow> AddrFromSlice (cd_Ip c);
          let p = \<lparr>pf_addr = addr, pf_bits = unat (cd_Prefix c)\<rparr>;
          if Prefix_IsValid p then Some p else None }"

definition max_bits :: "Prefix list \<Rightarrow> byte" where
  "max_bits ps = (let b = foldl (\<lambda>b p. if pf_bits p > b then pf_bits p else b) 0 ps in if b = 0 then 0xff else of_nat b)"

definition GeoIPSet_Create :: "'s netipx \<Rightarrow> CIDR list list \<Rightarrow> goerr + 's GeoIPSet" where
  "GeoIPSet_Create N cidrGroups =
     (let ps = List.map_filter cidr_prefix (concat cidrGroups) in
      case nx_IPSet N (filter (\<lambda>p. Is4 (pf_addr p)) ps) of
        Inl e \<Rightarrow> Inl (ErrMsg ''failed to build IPv4 set'')
      | Inr ipv4 \<Rightarrow>
          (case nx_IPSet N (filter (\<lambda>p. \<not> Is4 (pf_addr p)) ps) of
             Inl e \<Rightarrow> Inl (ErrMsg ''failed to build IPv6 set'')
           | Inr ipv6 \<Rightarrow>
               Inr \<lparr>gs_ipv4 = ipv4, gs_ipv6 = ipv6, max4 = max_bits (nx_Prefixes N ipv4), max6 = max_bits (nx_Prefixes N ipv6)\<rparr>))"

type_synonym 's set_factory = "gostring \<Rightarrow> 's GeoIPSet option"

definition GetOrCreate ::
  "'s netipx \<Rightarrow> 's set_factory \<Rightarrow> gostring \<Rightarrow> CIDR list list \<Rightarrow> 's set_factory \<times> (goerr + 's GeoIPSet)" where
  "GetOrCreate N shared key cidrGroups =
     (case shared key of
        Some s \<Rightarrow> (shared, Inr s)
      | None \<Rightarrow>
          (case GeoIPSet_Create N cidrGroups of
             Inl e \<Rightarrow> (shared, Inl e)
           | Inr s \<Rightarrow> (shared(key \<mapsto> s), Inr s)))"

text \<open>The first loop of \<^verbatim>\<open>BuildOptimizedGeoIPMatcher\<close>: entries without a country code become matchers of their
  own, the others are sorted by their sign.\<close>

fun split_geoips ::
  "'s netipx \<Rightarrow> GeoIP option list \<Rightarrow> goerr + ('s HeuristicGeoIPMatcher list \<times> GeoIP list \<times> GeoIP list)" where
  "split_geoips N [] = Inr ([], [], [])"
| "split_geoips N (None # gs) = Inl (ErrMsg ''geoip entry is nil'')"
| "split_geoips N (Some g # gs) =
     (if CountryCode g = [] then
        (case GeoIPSet_Create N [Cidr g] of
           Inl e \<Rightarrow> Inl e
         | Inr s \<Rightarrow>
             (case split_geoips N gs of
                Inl e \<Rightarrow> Inl e
              | Inr (subs, pos, neg) \<Rightarrow> Inr (\<lparr>ipset = s, reverse = ReverseMatch g\<rparr> # subs, pos, neg)))
      else
        (case split_geoips N gs of
           Inl e \<Rightarrow> Inl e
         | Inr (subs, pos, neg) \<Rightarrow>
             if \<not> ReverseMatch g then Inr (subs, g # pos, neg) else Inr (subs, pos, g # neg)))"

text \<open>The groups of one sign, after sorting: of neighbours with the same code only the first counts.\<close>

fun merge_codes :: "gostring option \<Rightarrow> GeoIP list \<Rightarrow> gostring \<times> CIDR list list" where
  "merge_codes lst [] = ([], [])"
| "merge_codes lst (g # gs) =
     (if lst \<noteq> Some (CountryCode g)
      then (case merge_codes (Some (CountryCode g)) gs of
              (key, groups) \<Rightarrow> (CountryCode g @ gostr '','' @ key, Cidr g # groups))
      else merge_codes lst gs)"

definition buildIPSet ::
  "'s netipx \<Rightarrow> (GeoIP list \<Rightarrow> GeoIP list) \<Rightarrow> 's set_factory \<Rightarrow> GeoIP list \<Rightarrow> 's set_factory \<times> (goerr + 's GeoIPSet option)" where
  "buildIPSet N srt shared mergeables =
     (if mergeables = [] then (shared, Inr None)
      else (case merge_codes None (srt mergeables) of
              (key, groups) \<Rightarrow> apsnd (map_sum id Some) (GetOrCreate N shared key groups)))"

definition BuildOptimizedGeoIPMatcher ::
  "'s netipx \<Rightarrow> (GeoIP list \<Rightarrow> GeoIP list) \<Rightarrow> 's set_factory \<Rightarrow> GeoIP option list \<Rightarrow> 's set_factory \<times> (goerr + 's GeoIPMatcher)" where
  "BuildOptimizedGeoIPMatcher N srt shared geoips =
     (if geoips = [] then (shared, Inl (ErrMsg ''no geoip configs provided''))
      else case split_geoips N geoips of
        Inl e \<Rightarrow> (shared, Inl e)
      | Inr (subs, pos, neg) \<Rightarrow>
          (case buildIPSet N srt shared pos of
             (shared1, Inl e) \<Rightarrow> (shared1, Inl e)
           | (shared1, Inr s1) \<Rightarrow>
               (case buildIPSet N srt shared1 neg of
                  (shared2, Inl e) \<Rightarrow> (shared2, Inl e)
                | (shared2, Inr s2) \<Rightarrow>
                    (case subs @ (case s1 of None \<Rightarrow> [] | Some s \<Rightarrow> [\<lparr>ipset = s, reverse = False\<rparr>]) @
                            (case s2 of None \<Rightarrow> [] | Some s \<Rightarrow> [\<lparr>ipset = s, reverse = True\<rparr>]) of
                       [] \<Rightarrow> (shared2, Inl (ErrMsg ''no valid geoip matcher''))
                     | [m] \<Rightarrow> (shared2, Inr (Heuristic m))
                     | ms \<Rightarrow> (shared2, Inr (HeuristicMulti ms))))))"

end
