(* ===== verification/Router_GeoIP_Props.thy ===== *)
theory Router_GeoIP_Props
  imports Router_GeoIP
begin

text \<open>
  The matchers of \<^verbatim>\<open>Router_GeoIP\<close> against plain definitions: asking about one address per coarse network
  gives the same answers as asking about every address, and the matcher built from a list of entries
  answers what the entries say.
\<close>

section \<open>Networks and keys\<close>

fun addr_key :: "Addr \<Rightarrow> byte list" where
  "addr_key (Addr4 b) = 4 # take 3 b @ replicate 5 0"
| "addr_key (Addr6 b) = 6 # take 8 b"

fun addr_len :: "Addr \<Rightarrow> bool" where
  "addr_len (Addr4 b) = (length b = 4)"
| "addr_len (Addr6 b) = (length b = 16)"

lemma prefixKey_addr: "prefixKeyFromIP ip = map_option addr_key (std_addr ip)"
  by (auto simp: prefixKeyFromIP_def std_addr_def split: option.split)

lemma std_addr_len: "std_addr ip = Some a \<Longrightarrow> addr_len a"
  by (auto simp: std_addr_def To4_def split: option.splits if_splits)

lemma addr_key_hd: "addr_key a ! 0 = (if Is4 a then 4 else 6)"
  by (cases a) auto

lemma addr_key_Is4: "addr_key a = addr_key b \<Longrightarrow> Is4 a = Is4 b"
  using addr_key_hd [of a] addr_key_hd [of b] by (auto split: if_splits)

lemma heur_key_addr: "heur_key h4 h6 (addr_key a) = (if Is4 a then h4 else h6)"
  by (simp add: heur_key_def addr_key_hd)

lemma length_byte_bits [simp]: "length (byte_bits b) = 8"
  by (simp add: byte_bits_def)

lemma take_addr_bits: "take (8 * k) (addr_bits b) = addr_bits (take k b)"
proof (induction b arbitrary: k)
  case (Cons x b)
  then show ?case by (cases k) (simp_all add: addr_bits_def)
qed (simp add: addr_bits_def)

lemma same_network:
  assumes "n \<le> 8 * k" "take k b = take k c"
  shows "take n (addr_bits b) = take n (addr_bits c)"
proof -
  have "take n (addr_bits b) = take n (take (8 * k) (addr_bits b))" for b using assms(1) by (simp add: min_absorb1)
  then show ?thesis using assms(2) take_addr_bits by metis
qed

text \<open>The coarse networks: the addresses with one key are in the same prefixes of up to 24 or 64 bits.\<close>

lemma Prefix_Contains_key:
  assumes "addr_key a = addr_key b" "addr_len a" "addr_len b" "pf_bits p \<le> (if Is4 a then 24 else 64)"
  shows "Prefix_Contains p a = Prefix_Contains p b"
proof (cases a)
  case (Addr4 x)
  moreover from this assms(1) obtain y where "b = Addr4 y" by (cases b) auto
  ultimately show ?thesis using assms same_network [of "pf_bits p" 3 x y] by (simp add: Prefix_Contains_def)
next
  case (Addr6 x)
  moreover from this assms(1) obtain y where "b = Addr6 y" by (cases b) auto
  ultimately show ?thesis using assms same_network [of "pf_bits p" 8 x y] by (simp add: Prefix_Contains_def)
qed

lemma max_bits_foldl: "foldl (\<lambda>b p. if pf_bits p > b then pf_bits p else b) c ps = foldl max c (map pf_bits ps)"
  by (induction ps arbitrary: c) (simp_all add: max_def)

lemma foldl_max: "foldl max c xs \<le> n \<longleftrightarrow> c \<le> (n :: nat) \<and> (\<forall>x \<in> set xs. x \<le> n)"
  by (induction xs arbitrary: c) auto

lemma max_bits_bound:
  assumes "\<forall>p \<in> set ps. Prefix_IsValid p" "max_bits ps \<le> of_nat n" "n < 128" "p \<in> set ps"
  shows "pf_bits p \<le> n"
proof -
  define b where "b = foldl max 0 (map pf_bits ps)"
  have le: "b \<le> 128" unfolding b_def foldl_max using assms(1) by (fastforce simp: Prefix_IsValid_def split: if_splits)
  have m: "max_bits ps = (if b = 0 then 0xff else of_nat b)"
    by (simp add: max_bits_def max_bits_foldl b_def Let_def)
  have "unat (of_nat n :: byte) = n" "unat (of_nat b :: byte) = b"
    using assms(3) le by (simp_all add: unat_of_nat take_bit_nat_eq_self)
  with assms(2,3) m have "b \<le> n" by (auto simp: word_le_nat_alt split: if_splits)
  then show ?thesis unfolding b_def foldl_max using assms(4) by simp
qed

section \<open>Well-formed matchers\<close>

definition set_ok :: "'s netipx \<Rightarrow> 's GeoIPSet \<Rightarrow> bool" where
  "set_ok N s \<longleftrightarrow> max4 s = max_bits (nx_Prefixes N (gs_ipv4 s)) \<and> max6 s = max_bits (nx_Prefixes N (gs_ipv6 s))"

lemma netipx_okD:
  assumes "netipx_ok N"
  shows netipx_std: "nx_FromStdIP N = std_addr"
    and netipx_contains: "nx_Contains N s a \<longleftrightarrow> (\<exists>p \<in> set (nx_Prefixes N s). Prefix_Contains p a)"
    and netipx_valid: "\<forall>p \<in> set (nx_Prefixes N s). Prefix_IsValid p"
  using assms unfolding netipx_ok_def by blast+

lemma netipx_set:
  assumes "netipx_ok N" "\<forall>p \<in> set ps. Prefix_IsValid p"
  obtains s where "nx_IPSet N ps = Inr s" "\<And>a. nx_Contains N s a \<longleftrightarrow> (\<exists>p \<in> set ps. Prefix_Contains p a)"
  using assms unfolding netipx_ok_def by blast

lemma matchAddr_key:
  assumes N: "netipx_ok N" and m: "set_ok N (ipset m)"
    and k: "addr_key a = addr_key b" "addr_len a" "addr_len b" "heur_key (heur4 m) (heur6 m) (addr_key a)"
  shows "matchAddr N m a = matchAddr N m b"
proof -
  let ?s = "if Is4 a then gs_ipv4 (ipset m) else gs_ipv6 (ipset m)"
  have "pf_bits p \<le> (if Is4 a then 24 else 64)" if "p \<in> set (nx_Prefixes N ?s)" for p
    using max_bits_bound [OF netipx_valid [OF N], of ?s "if Is4 a then 24 else 64" p] that m k(4)
    by (auto simp: heur_key_addr set_ok_def heur4_def heur6_def split: if_splits)
  then have "nx_Contains N ?s a = nx_Contains N ?s b"
    unfolding netipx_contains [OF N] using Prefix_Contains_key [OF k(1-3)] by blast
  then show ?thesis using addr_key_Is4 [OF k(1)] by (simp add: matchAddr_def split: if_splits)
qed

lemma Heuristic_Match_std:
  assumes "netipx_ok N"
  shows "Heuristic_Match N m ip \<longleftrightarrow> (\<exists>a. std_addr ip = Some a \<and> matchAddr N m a)"
  by (auto simp: Heuristic_Match_def netipx_std [OF assms] split: option.split)

section \<open>Any\<close>

lemma any_precise_eq:
  assumes "netipx_ok N"
  shows "any_precise N m ips \<longleftrightarrow> list_ex (Heuristic_Match N m) ips"
  by (induction ips) (auto simp: Heuristic_Match_def split: option.split)

lemma any_buckets_eq:
  assumes N: "netipx_ok N" and m: "set_ok N (ipset m)"
    and b: "\<forall>a. addr_len a \<longrightarrow> addr_key a \<in> set buckets \<longrightarrow> \<not> matchAddr N m a"
  shows "any_buckets N m buckets ips \<longleftrightarrow> list_ex (Heuristic_Match N m) ips"
  using b
proof (induction ips arbitrary: buckets)
  case (Cons ip ips)
  show ?case
  proof (cases "std_addr ip")
    case None
    with Cons show ?thesis by (simp add: prefixKey_addr Heuristic_Match_std [OF N])
  next
    case (Some a)
    note a = std_addr_len [OF Some]
    let ?h = "heur_key (heur4 m) (heur6 m) (addr_key a)"
    have "any_buckets N m (if ?h then addr_key a # buckets else buckets) ips \<longleftrightarrow> list_ex (Heuristic_Match N m) ips"
      if "\<not> matchAddr N m a"
      using Cons.prems that matchAddr_key [OF N m _ a] by (intro Cons.IH) auto
    moreover have "\<not> matchAddr N m a" if "addr_key a \<in> set buckets" using Cons.prems a that by blast
    moreover have "Heuristic_Match N m ip = matchAddr N m a" using Some by (simp add: Heuristic_Match_std [OF N])
    ultimately show ?thesis using Some Cons.IH [OF Cons.prems]
      by (auto simp: prefixKey_addr netipx_std [OF N] Let_def)
  qed
qed simp

lemma Heuristic_AnyMatch_eq:
  assumes "netipx_ok N" "set_ok N (ipset m)"
  shows "Heuristic_AnyMatch N m ips \<longleftrightarrow> list_ex (Heuristic_Match N m) ips"
  by (cases ips rule: remdups_adj.cases)
    (simp_all add: Heuristic_AnyMatch_def any_precise_eq [OF assms(1)] any_buckets_eq [OF assms, of "[]"]
      del: any_precise.simps any_buckets.simps)

text \<open>
  Several matchers: a network in \<open>buckets\<close> was tried with every matcher that treats it as one, without
  success.
\<close>

definition tried :: "'s netipx \<Rightarrow> 's HeuristicGeoIPMatcher list \<Rightarrow> byte list list \<Rightarrow> bool" where
  "tried N ms buckets \<longleftrightarrow> (\<forall>a m. addr_len a \<longrightarrow> addr_key a \<in> set buckets \<longrightarrow> m \<in> set ms \<longrightarrow>
     heur_key (heur4 m) (heur6 m) (addr_key a) \<longrightarrow> \<not> matchAddr N m a)"

lemma any_matchers_go_on:
  assumes N: "netipx_ok N" and a: "std_addr ip = Some a"
    and s: "state = 1 \<or> state = addr_key a ! 0 \<and> tried N ms buckets \<and> addr_key a \<in> set buckets"
    and x: "x = None \<or> x = Some a"
  shows "any_matchers N ip state x buckets ms = (list_ex (\<lambda>m. matchAddr N m a) ms, buckets)"
  using s x
proof (induction ms arbitrary: x)
  case (Cons m ms)
  have IH: "any_matchers N ip state y buckets ms = (list_ex (\<lambda>m. matchAddr N m a) ms, buckets)"
    if "y = None \<or> y = Some a" for y
    using Cons.prems(1) that by (intro Cons.IH) (auto simp: tried_def)
  have sk: "\<not> matchAddr N m a" if "(heur4 m \<and> state = 4) \<or> (heur6 m \<and> state = 6)"
    using that Cons.prems(1) std_addr_len [OF a] by (auto simp: tried_def heur_key_addr addr_key_hd split: if_splits)
  have "state \<noteq> 0" using Cons.prems(1) by (auto simp: addr_key_hd split: if_splits)
  moreover have "(if x = None then nx_FromStdIP N ip else x) = Some a"
    using Cons.prems(2) a by (auto simp: netipx_std [OF N])
  ultimately show ?case using IH [OF Cons.prems(2)] IH [of "Some a"] sk by simp
qed simp

lemma any_matchers_start:
  assumes N: "netipx_ok N" and a: "std_addr ip = Some a"
  shows "tried N ms buckets \<Longrightarrow> x = None \<or> x = Some a \<Longrightarrow>
    \<exists>b'. any_matchers N ip 0 x buckets ms = (list_ex (\<lambda>m. matchAddr N m a) ms, b') \<and>
      (b' = buckets \<or> b' = addr_key a # buckets)"
proof (induction ms arbitrary: x)
  case (Cons m ms)
  have x: "(if x = None then nx_FromStdIP N ip else x) = Some a"
    using Cons.prems(2) a by (auto simp: netipx_std [OF N])
  have key: "prefixKeyFromIP ip = Some (addr_key a)" using a by (simp add: prefixKey_addr)
  let ?known = "addr_key a \<in> set buckets"
  show ?case
  proof (cases "heur4 m \<or> heur6 m")
    case False
    have "tried N ms buckets" using Cons.prems(1) by (auto simp: tried_def)
    from Cons.IH [OF this, of "Some a"] False x show ?thesis by (cases "matchAddr N m a") auto
  next
    case True
    have "any_matchers N ip 0 x buckets (m # ms) =
      (if ?known then any_matchers N ip (addr_key a ! 0) x buckets (m # ms)
       else any_matchers N ip 1 x (addr_key a # buckets) (m # ms))"
      using True key by (cases "Is4 a") (simp_all add: addr_key_hd)
    also have "\<dots> = (list_ex (\<lambda>m. matchAddr N m a) (m # ms), if ?known then buckets else addr_key a # buckets)"
      using any_matchers_go_on [OF N a _ Cons.prems(2)] Cons.prems(1)
      by (simp del: any_matchers.simps)
    finally show ?thesis by simp
  qed
qed auto

lemma any_ips_eq:
  assumes N: "netipx_ok N" and ms: "\<forall>m \<in> set ms. set_ok N (ipset m)"
  shows "tried N ms buckets \<Longrightarrow> any_ips N ms buckets ips \<longleftrightarrow> list_ex (HMulti_Match N ms) ips"
proof (induction ips arbitrary: buckets)
  case (Cons ip ips)
  show ?case
  proof (cases "std_addr ip")
    case None
    have "any_matchers N ip 0 None buckets ms = (False, buckets)"
      using None by (cases ms) (auto simp: prefixKey_addr netipx_std [OF N])
    with Cons None show ?thesis by (simp add: HMulti_Match_def netipx_std [OF N])
  next
    case (Some a)
    from any_matchers_start [OF N Some Cons.prems, of None] obtain b' where
      b': "any_matchers N ip 0 None buckets ms = (list_ex (\<lambda>m. matchAddr N m a) ms, b')"
        "b' = buckets \<or> b' = addr_key a # buckets" by blast
    have "tried N ms b'" if "\<not> list_ex (\<lambda>m. matchAddr N m a) ms"
      unfolding tried_def
    proof (intro allI impI)
      fix c m assume c: "addr_len c" "addr_key c \<in> set b'" "m \<in> set ms" "heur_key (heur4 m) (heur6 m) (addr_key c)"
      show "\<not> matchAddr N m c"
      proof (cases "addr_key c = addr_key a")
        case True
        with matchAddr_key [OF N _ True c(1) std_addr_len [OF Some] c(4)] ms c(3) that show ?thesis
          by (auto simp: list_ex_iff)
      next
        case False
        with c b'(2) Cons.prems show ?thesis by (auto simp: tried_def)
      qed
    qed
    with b' Cons.IH Some show ?thesis by (auto simp: HMulti_Match_def netipx_std [OF N])
  qed
qed simp

lemma HMulti_AnyMatch_eq:
  assumes "netipx_ok N" "\<forall>m \<in> set ms. set_ok N (ipset m)"
  shows "HMulti_AnyMatch N ms ips \<longleftrightarrow> list_ex (HMulti_Match N ms) ips"
proof -
  have "tried N ms []" by (simp add: tried_def)
  from any_ips_eq [OF assms this] show ?thesis
    by (cases ips rule: remdups_adj.cases) (simp_all add: HMulti_AnyMatch_def del: any_ips.simps)
qed

section \<open>All\<close>

abbreviation addrs :: "byte list list \<Rightarrow> Addr list option" where
  "addrs ips \<equiv> those (map std_addr ips)"

fun add_reps :: "(byte list \<times> Addr) list \<Rightarrow> Addr list \<Rightarrow> (byte list \<times> Addr) list" where
  "add_reps b [] = b"
| "add_reps b (a # as) = add_reps (if map_of b (addr_key a) = None then b @ [(addr_key a, a)] else b) as"

lemma addrs_len: "addrs ips = Some as \<Longrightarrow> \<forall>a \<in> set as. addr_len a"
  by (induction ips arbitrary: as) (auto simp: std_addr_len split: option.splits)

lemma addrs_ball: "addrs ips = Some as \<Longrightarrow> list_all P as \<longleftrightarrow> (\<forall>ip \<in> set ips. \<exists>a. std_addr ip = Some a \<and> P a)"
  by (induction ips arbitrary: as) (auto split: option.splits)

lemma addrs_None: "addrs ips = None \<longleftrightarrow> (\<exists>ip \<in> set ips. std_addr ip = None)"
  by (induction ips) (auto split: option.splits)

lemma addrs_None_Match: "netipx_ok N \<Longrightarrow> addrs ips = None \<Longrightarrow> \<not> list_all (Heuristic_Match N m) ips"
  by (force simp: addrs_None list_all_iff Heuristic_Match_std)

text \<open>A condition that does not tell addresses of one network apart holds of the representatives when
  it holds of all.\<close>

lemma add_reps_all:
  assumes "\<forall>a \<in> set as. \<forall>b. addr_len b \<longrightarrow> addr_key a = addr_key b \<longrightarrow> P a = P b" "\<forall>a \<in> set as. addr_len a"
    and "\<forall>(k, a) \<in> set b. addr_key a = k \<and> addr_len a"
  shows "list_all P (map snd (add_reps b as)) \<longleftrightarrow> list_all P (map snd b) \<and> list_all P as"
  using assms
proof (induction as arbitrary: b)
  case (Cons a as)
  show ?case
  proof (cases "map_of b (addr_key a)")
    case None
    then show ?thesis using Cons.IH [of "b @ [(addr_key a, a)]"] Cons.prems by auto
  next
    case (Some c)
    then have c: "(addr_key a, c) \<in> set b" by (rule map_of_SomeD)
    then have "addr_key a = addr_key c" "addr_len c" using Cons.prems(3) by auto
    with Cons.prems(1) have "P a = P c" by auto
    with c have "list_all P (map snd b) \<Longrightarrow> P a" by (force simp: list_all_iff)
    with Some Cons show ?thesis by auto
  qed
qed simp

lemma collect_reps_eq:
  assumes N: "netipx_ok N"
  shows "collect_reps N h4 h6 ips b p = map_option (\<lambda>as. (add_reps b (filter (\<lambda>a. heur_key h4 h6 (addr_key a)) as),
    p @ filter (\<lambda>a. \<not> heur_key h4 h6 (addr_key a)) as)) (addrs ips)"
proof (induction ips arbitrary: b p)
  case (Cons ip ips)
  then show ?case
    by (cases "std_addr ip") (auto simp: prefixKey_addr netipx_std [OF N] option.map_comp comp_def split: option.split)
qed simp

lemma matchAddr_reps:
  assumes "netipx_ok N" "set_ok N (ipset m)" "\<forall>a \<in> set as. addr_len a"
    "\<forall>a \<in> set as. heur_key (heur4 m) (heur6 m) (addr_key a)"
  shows "list_all (matchAddr N m) (map snd (add_reps [] as)) \<longleftrightarrow> list_all (matchAddr N m) as"
proof -
  have "matchAddr N m a = matchAddr N m b" if "a \<in> set as" "addr_len b" "addr_key a = addr_key b" for a b
    using matchAddr_key [OF assms(1,2) that(3) _ that(2)] assms(3,4) that(1) by blast
  from add_reps_all [of as "matchAddr N m" "[]"] this assms(3) show ?thesis by simp
qed

lemma list_all_two_parts: "list_all P (filter Q xs) \<and> list_all P (filter (\<lambda>x. \<not> Q x) xs) \<longleftrightarrow> list_all P xs"
  by (auto simp: list_all_iff)

lemma all_precise_eq: "netipx_ok N \<Longrightarrow> all_precise N m ips \<longleftrightarrow> list_all (Heuristic_Match N m) ips"
  by (induction ips) (auto simp: Heuristic_Match_def split: option.split)

lemma Heuristic_Matches_eq:
  assumes N: "netipx_ok N" and m: "set_ok N (ipset m)"
  shows "Heuristic_Matches N m ips \<longleftrightarrow> ips \<noteq> [] \<and> list_all (Heuristic_Match N m) ips"
proof -
  have c: "(case collect_reps N (heur4 m) (heur6 m) ips [] [] of None \<Rightarrow> False
      | Some (b, p) \<Rightarrow> list_all (matchAddr N m) (map snd b) \<and> list_all (matchAddr N m) p) \<longleftrightarrow>
      list_all (Heuristic_Match N m) ips" for ips
  proof (cases "addrs ips")
    case None
    with addrs_None_Match [OF N] show ?thesis by (simp add: collect_reps_eq [OF N])
  next
    case (Some as)
    let ?h = "\<lambda>a. heur_key (heur4 m) (heur6 m) (addr_key a)"
    have "list_all (matchAddr N m) (map snd (add_reps [] (filter ?h as))) \<longleftrightarrow> list_all (matchAddr N m) (filter ?h as)"
      using matchAddr_reps [OF N m] addrs_len [OF Some] by simp
    with Some show ?thesis using list_all_two_parts [of "matchAddr N m" ?h as] addrs_ball [OF Some, of "matchAddr N m"]
      by (simp add: collect_reps_eq [OF N]) (simp add: list_all_iff Heuristic_Match_std [OF N])
  qed
  show ?thesis
    by (cases ips rule: remdups_adj.cases)
      (simp_all add: Heuristic_Matches_def all_precise_eq [OF N] c del: all_precise.simps collect_reps.simps)
qed

text \<open>The views of the address list, as \<^verbatim>\<open>ensureForMatcher\<close> makes them.\<close>

lemma view_add_eq:
  assumes N: "netipx_ok N" and a: "std_addr ip = Some a"
  shows "view_add N h p ip (addr_key a) (b, q) =
    Some (if h then add_reps b [a] else b, if p then q @ [a] else q)"
  using a by (simp add: view_add_def netipx_std [OF N])

lemma fill_views_eq:
  assumes N: "netipx_ok N"
  shows "fill_views N h4 p4 h6 p6 ips (b4, q4) (b6, q6) = map_option (\<lambda>as.
    ((if h4 then add_reps b4 (filter Is4 as) else b4, if p4 then q4 @ filter Is4 as else q4),
     (if h6 then add_reps b6 (filter (\<lambda>a. \<not> Is4 a) as) else b6, if p6 then q6 @ filter (\<lambda>a. \<not> Is4 a) as else q6)))
    (addrs ips)"
proof (induction ips arbitrary: b4 q4 b6 q6)
  case (Cons ip ips)
  show ?case
  proof (cases "std_addr ip")
    case (Some a)
    then show ?thesis
      by (cases "Is4 a"; cases "addrs ips") (simp_all add: prefixKey_addr addr_key_hd view_add_eq [OF N Some] Cons)
  qed (simp add: prefixKey_addr)
qed simp

definition views_ok :: "Addr list \<Rightarrow> ipViews \<Rightarrow> bool" where
  "views_ok as v \<longleftrightarrow>
     (vw_buckets4 v = None \<or> vw_buckets4 v = Some (add_reps [] (filter Is4 as))) \<and>
     (vw_buckets6 v = None \<or> vw_buckets6 v = Some (add_reps [] (filter (\<lambda>a. \<not> Is4 a) as))) \<and>
     (vw_precise4 v = None \<or> vw_precise4 v = Some (filter Is4 as)) \<and>
     (vw_precise6 v = None \<or> vw_precise6 v = Some (filter (\<lambda>a. \<not> Is4 a) as))"

lemma views_ensure_ok:
  assumes N: "netipx_ok N" and as: "addrs ips = Some as" and v: "views_ok as v"
  obtains v' where "views_ensure N v m ips = Some v'" "views_ok as v'"
    "heur4 m \<Longrightarrow> vw_buckets4 v' \<noteq> None" "heur6 m \<Longrightarrow> vw_buckets6 v' \<noteq> None"
    "\<not> heur4 m \<Longrightarrow> vw_precise4 v' \<noteq> None" "\<not> heur6 m \<Longrightarrow> vw_precise6 v' \<noteq> None"
proof (rule that)
  show "views_ensure N v m ips = Some (the (views_ensure N v m ips))"
    by (simp add: views_ensure_def fill_views_eq [OF N] as Let_def)
qed (use v in \<open>auto simp: views_ensure_def fill_views_eq [OF N] as Let_def views_ok_def\<close>)

lemma views_match_eq:
  assumes N: "netipx_ok N" and m: "set_ok N (ipset m)" and as: "\<forall>a \<in> set as. addr_len a" and v: "views_ok as v"
    "heur4 m \<Longrightarrow> vw_buckets4 v \<noteq> None" "heur6 m \<Longrightarrow> vw_buckets6 v \<noteq> None"
    "\<not> heur4 m \<Longrightarrow> vw_precise4 v \<noteq> None" "\<not> heur6 m \<Longrightarrow> vw_precise6 v \<noteq> None"
  shows "views_match N m v \<longleftrightarrow> list_all (matchAddr N m) as"
proof -
  have 4: "list_all (matchAddr N m) (if heur4 m then map snd (case_option [] id (vw_buckets4 v)) else case_option [] id (vw_precise4 v))
      \<longleftrightarrow> list_all (matchAddr N m) (filter Is4 as)"
    using v matchAddr_reps [OF N m, of "filter Is4 as"] as by (auto simp: views_ok_def heur_key_addr)
  have 6: "list_all (matchAddr N m) (if heur6 m then map snd (case_option [] id (vw_buckets6 v)) else case_option [] id (vw_precise6 v))
      \<longleftrightarrow> list_all (matchAddr N m) (filter (\<lambda>a. \<not> Is4 a) as)"
    using v matchAddr_reps [OF N m, of "filter (\<lambda>a. \<not> Is4 a) as"] as by (auto simp: views_ok_def heur_key_addr)
  show ?thesis unfolding views_match_def 4 6 by (rule list_all_two_parts)
qed

lemma matches_loop_eq:
  assumes N: "netipx_ok N" and as: "addrs ips = Some as"
  shows "\<forall>m \<in> set ms. set_ok N (ipset m) \<Longrightarrow> views_ok as v \<Longrightarrow>
    matches_loop N ips v ms \<longleftrightarrow> (\<exists>m \<in> set ms. list_all (matchAddr N m) as)"
proof (induction ms arbitrary: v)
  case (Cons m ms)
  from views_ensure_ok [OF N as Cons.prems(2), of m] obtain v' where
    v': "views_ensure N v m ips = Some v'" "views_ok as v'" "views_match N m v' \<longleftrightarrow> list_all (matchAddr N m) as"
    using views_match_eq [OF N _ addrs_len [OF as]] Cons.prems(1) by (metis list.set_intros(1))
  with Cons show ?case by auto
qed simp

lemma HMulti_Matches_eq:
  assumes N: "netipx_ok N" and ms: "\<forall>m \<in> set ms. set_ok N (ipset m)"
  shows "HMulti_Matches N ms ips \<longleftrightarrow> ips \<noteq> [] \<and> (\<exists>m \<in> set ms. list_all (Heuristic_Match N m) ips)"
proof -
  have l: "matches_loop N ips no_views ms \<longleftrightarrow> (\<exists>m \<in> set ms. list_all (Heuristic_Match N m) ips)" if "ips \<noteq> []" for ips
  proof (cases "addrs ips")
    case None
    then have "matches_loop N ips no_views ms = False"
      by (cases ms) (auto simp: views_ensure_def fill_views_eq [OF N] no_views_def Let_def)
    with addrs_None_Match [OF N None] show ?thesis by simp
  next
    case (Some as)
    have "views_ok as no_views" by (simp add: views_ok_def no_views_def)
    from matches_loop_eq [OF N Some ms this] show ?thesis
      unfolding addrs_ball [OF Some] by (simp add: list_all_iff Heuristic_Match_std [OF N])
  qed
  show ?thesis
    by (cases ips rule: remdups_adj.cases)
      (auto simp: HMulti_Matches_def HMulti_Match_def l list_ex_iff Heuristic_Match_std [OF N] netipx_std [OF N] split: option.split)
qed

end
