(* ===== verification/Router_GeoIP_Filter.thy ===== *)
theory Router_GeoIP_Filter
  imports Router_GeoIP_Props
begin

text \<open>
  \<^verbatim>\<open>FilterIPs\<close> of the matchers of \<^verbatim>\<open>Router_GeoIP\<close>: which addresses end up on which side, up to the order, which
  depends on the iteration of maps.
\<close>

section \<open>Maps in some order\<close>

definition order_ok :: "map_order \<Rightarrow> bool" where
  "order_ok mo \<longleftrightarrow> (\<forall>i ks. mset (mo_key mo i ks) = mset ks) \<and> (\<forall>i as. mset (mo_addr mo i as) = mset as)"

lemma in_order_mset:
  assumes "distinct (map fst xs)" "mset (f (map fst xs)) = mset (map fst xs)"
  shows "mset (in_order f xs) = mset xs"
proof -
  let ?g = "\<lambda>k. (k, the (map_of xs k))"
  have "List.map_filter (\<lambda>k. map_option (Pair k) (map_of xs k)) ks = map ?g ks" if "set ks \<subseteq> fst ` set xs" for ks
    using that by (induction ks) (auto simp: map_of_eq_None_iff split: option.split)
  then have "in_order f xs = map ?g (f (map fst xs))"
    using mset_eq_setD [OF assms(2)] by (simp add: in_order_def)
  then have "mset (in_order f xs) = image_mset ?g (mset (f (map fst xs)))" by simp
  also have "\<dots> = image_mset ?g (mset (map fst xs))" by (simp only: assms(2))
  also have "\<dots> = mset (map (?g \<circ> fst) xs)" by (simp add: multiset.map_comp)
  also have "map (?g \<circ> fst) xs = xs"
    using assms(1) by (intro map_idI) (auto simp: map_of_is_SomeI)
  finally show ?thesis .
qed

lemma sum_list_mset: "sum_list (map g xs) = sum_mset (image_mset g (mset xs))"
  by (induction xs) (simp_all add: ac_simps)

section \<open>Buckets\<close>

definition add_bucket :: "byte list \<Rightarrow> (byte list \<times> ipBucket) list \<Rightarrow> (byte list \<times> ipBucket) list" where
  "add_bucket ip b =
     (let a = the (std_addr ip) in
      case map_of b (addr_key a) of
        None \<Rightarrow> b @ [(addr_key a, \<lparr>bk_rep = a, bk_ips = [ip]\<rparr>)]
      | Some bk \<Rightarrow> AList.update (addr_key a) (bk\<lparr>bk_ips := bk_ips bk @ [ip]\<rparr>) b)"

definition bucket_ok :: "byte list \<Rightarrow> ipBucket \<Rightarrow> bool" where
  "bucket_ok k bk \<longleftrightarrow> addr_key (bk_rep bk) = k \<and> addr_len (bk_rep bk) \<and>
     (\<forall>ip \<in> set (bk_ips bk). \<exists>a. std_addr ip = Some a \<and> addr_key a = k)"

definition buckets_ok :: "(byte list \<times> ipBucket) list \<Rightarrow> bool" where
  "buckets_ok b \<longleftrightarrow> distinct (map fst b) \<and> (\<forall>(k, bk) \<in> set b. bucket_ok k bk)"

definition bucket_ips :: "(byte list \<times> ipBucket) list \<Rightarrow> byte list multiset" where
  "bucket_ips b = sum_list (map (\<lambda>(k, bk). mset (bk_ips bk)) b)"

lemma AList_update_split:
  assumes "map_of b k = Some v"
  obtains b1 b2 where "b = b1 @ (k, v) # b2" "\<And>w. AList.update k w b = b1 @ (k, w) # b2"
proof -
  have "\<exists>b1 b2. b = b1 @ (k, v) # b2 \<and> (\<forall>w. AList.update k w b = b1 @ (k, w) # b2)"
    using assms
  proof (induction b)
    case (Cons x b)
    show ?case
    proof (cases "fst x = k")
      case True
      with Cons.prems show ?thesis by (intro exI [of _ "[]"] exI [of _ b]) (cases x; auto)
    next
      case False
      with Cons obtain b1 b2 where "b = b1 @ (k, v) # b2" "\<forall>w. AList.update k w b = b1 @ (k, w) # b2"
        by (cases x) auto
      with False show ?thesis by (intro exI [of _ "x # b1"] exI [of _ b2]) (cases x; simp)
    qed
  qed simp
  with that show thesis by blast
qed

lemma add_bucket_ok:
  assumes b: "buckets_ok b" and a: "std_addr ip = Some a"
  shows "buckets_ok (add_bucket ip b)" "bucket_ips (add_bucket ip b) = add_mset ip (bucket_ips b)"
    "fst ` set (add_bucket ip b) = insert (addr_key a) (fst ` set b)"
proof -
  have "buckets_ok (add_bucket ip b) \<and> bucket_ips (add_bucket ip b) = add_mset ip (bucket_ips b) \<and>
    fst ` set (add_bucket ip b) = insert (addr_key a) (fst ` set b)"
  proof (cases "map_of b (addr_key a)")
    case None
    then have "add_bucket ip b = b @ [(addr_key a, \<lparr>bk_rep = a, bk_ips = [ip]\<rparr>)]"
      by (simp add: add_bucket_def a)
    moreover have "addr_key a \<notin> fst ` set b" using None by (simp add: map_of_eq_None_iff)
    ultimately show ?thesis using b a std_addr_len [OF a]
      by (auto simp: buckets_ok_def bucket_ok_def bucket_ips_def)
  next
    case (Some bk)
    from AList_update_split [OF Some] obtain b1 b2 where
      s: "b = b1 @ (addr_key a, bk) # b2" "\<And>w. AList.update (addr_key a) w b = b1 @ (addr_key a, w) # b2" by blast
    then have "add_bucket ip b = b1 @ (addr_key a, bk\<lparr>bk_ips := bk_ips bk @ [ip]\<rparr>) # b2"
      using Some by (simp add: add_bucket_def a)
    with b a s(1) show ?thesis by (auto simp: buckets_ok_def bucket_ok_def bucket_ips_def)
  qed
  then show "buckets_ok (add_bucket ip b)" "bucket_ips (add_bucket ip b) = add_mset ip (bucket_ips b)"
    "fst ` set (add_bucket ip b) = insert (addr_key a) (fst ` set b)" by blast+
qed

abbreviation all_buckets :: "byte list list \<Rightarrow> (byte list \<times> ipBucket) list \<Rightarrow> (byte list \<times> ipBucket) list" where
  "all_buckets ips b \<equiv> fold add_bucket ips b"

lemma all_buckets_ok:
  "\<forall>ip \<in> set ips. std_addr ip \<noteq> None \<Longrightarrow> buckets_ok b \<Longrightarrow>
   buckets_ok (all_buckets ips b) \<and> bucket_ips (all_buckets ips b) = bucket_ips b + mset ips \<and>
   fst ` set (all_buckets ips b) = fst ` set b \<union> (\<lambda>ip. addr_key (the (std_addr ip))) ` set ips"
proof (induction ips arbitrary: b)
  case (Cons ip ips)
  then obtain a where a: "std_addr ip = Some a" by auto
  note add_bucket_ok [OF Cons.prems(2) a]
  with Cons.IH [of "add_bucket ip b"] Cons.prems a show ?case by auto
qed simp

definition coarse :: "bool \<Rightarrow> bool \<Rightarrow> byte list \<Rightarrow> bool" where
  "coarse h4 h6 ip \<longleftrightarrow> (\<exists>a. std_addr ip = Some a \<and> heur_key h4 h6 (addr_key a))"

lemma collect_buckets_eq:
  assumes N: "netipx_ok N"
  shows "collect_buckets N h4 h6 ips b p =
    (all_buckets (filter (coarse h4 h6) ips) b, p @ filter (\<lambda>ip. std_addr ip \<noteq> None \<and> \<not> coarse h4 h6 ip) ips)"
proof (induction ips arbitrary: b p)
  case (Cons ip ips)
  show ?case
  proof (cases "std_addr ip")
    case None
    with Cons show ?thesis by (simp add: prefixKey_addr coarse_def)
  next
    case (Some a)
    have "(addr_key a ! 0 = 4 \<and> \<not> h4) \<or> (addr_key a ! 0 = 6 \<and> \<not> h6) \<longleftrightarrow> \<not> coarse h4 h6 ip"
      using Some by (simp add: coarse_def heur_key_addr addr_key_hd)
    with Some Cons show ?thesis
      by (auto simp: prefixKey_addr netipx_std [OF N] add_bucket_def split: option.split)
  qed
qed simp

section \<open>One matcher\<close>

text \<open>The addresses of a bucket agree with its representative.\<close>

lemma bucket_agrees:
  assumes N: "netipx_ok N" and m: "set_ok N (ipset m)" and b: "bucket_ok k bk" "heur_key (heur4 m) (heur6 m) k"
    and ip: "ip \<in> set (bk_ips bk)"
  shows "Heuristic_Match N m ip = matchAddr N m (bk_rep bk)"
proof -
  have k: "k = addr_key (bk_rep bk)" "addr_len (bk_rep bk)" "\<exists>a. std_addr ip = Some a \<and> addr_key a = k"
    using b(1) ip unfolding bucket_ok_def by blast+
  then obtain a where a: "std_addr ip = Some a" "addr_key a = addr_key (bk_rep bk)" "addr_len (bk_rep bk)" "k = addr_key a"
    by metis
  from matchAddr_key [OF N m a(2) std_addr_len [OF a(1)] a(3)] b(2) a(4)
  have "matchAddr N m a = matchAddr N m (bk_rep bk)" by blast
  with a(1) show ?thesis by (simp add: Heuristic_Match_std [OF N])
qed

lemma filter_mset_sum:
  "(\<And>x y. x \<in> set xs \<Longrightarrow> y \<in># g x \<Longrightarrow> Q y = P x) \<Longrightarrow>
   sum_list (map g (filter P xs)) = filter_mset Q (sum_list (map g xs))"
proof (induction xs)
  case (Cons x xs)
  have "filter_mset Q (g x) = filter_mset (\<lambda>_. P x) (g x)"
    using Cons.prems [of x] by (intro filter_mset_cong) auto
  with Cons show ?case by simp
qed simp

lemma mset_filter_parts:
  "(\<And>x. P x \<Longrightarrow> c x \<longleftrightarrow> \<not> d x) \<Longrightarrow> mset (filter P xs) = filter_mset P (mset (filter c xs)) + mset (filter P (filter d xs))"
proof (induction xs)
  case (Cons x xs)
  then show ?case by (cases "P x"; cases "c x"; cases "d x") (auto simp del: filter_filter)
qed simp

lemma split_precise_eq:
  assumes N: "netipx_ok N"
  shows "split_precise N m ips = (filter (Heuristic_Match N m) ips, filter (\<lambda>ip. std_addr ip \<noteq> None \<and> \<not> Heuristic_Match N m ip) ips)"
  by (induction ips) (auto simp: Heuristic_Match_def netipx_std [OF N] split: option.split)

lemma coarse_buckets:
  assumes "\<forall>ip \<in> set ips. coarse h4 h6 ip"
  shows "buckets_ok (all_buckets ips []) \<and> bucket_ips (all_buckets ips []) = mset ips \<and>
    (\<forall>(k, bk) \<in> set (all_buckets ips []). heur_key h4 h6 k)"
proof -
  have "\<forall>ip \<in> set ips. std_addr ip \<noteq> None" using assms by (auto simp: coarse_def)
  moreover have "buckets_ok []" by (simp add: buckets_ok_def)
  ultimately have b: "buckets_ok (all_buckets ips [])" "bucket_ips (all_buckets ips []) = mset ips"
    "fst ` set (all_buckets ips []) = (\<lambda>ip. addr_key (the (std_addr ip))) ` set ips"
    using all_buckets_ok [of ips "[]"] by (auto simp: bucket_ips_def)
  have "heur_key h4 h6 k" if "(k, bk) \<in> set (all_buckets ips [])" for k bk
  proof -
    have "k \<in> fst ` set (all_buckets ips [])" using that by force
    with b(3) assms show ?thesis by (auto simp: coarse_def)
  qed
  with b show ?thesis by blast
qed

lemma Heuristic_FilterIPs_eq:
  assumes N: "netipx_ok N" and m: "set_ok N (ipset m)" and mo: "order_ok mo"
    and r: "Heuristic_FilterIPs N mo m ips = (matched, unmatched)"
  shows "mset matched = mset (filter (Heuristic_Match N m) ips) \<and>
    mset unmatched = mset (filter (\<lambda>ip. std_addr ip \<noteq> None \<and> \<not> Heuristic_Match N m ip) ips)"
proof (cases ips rule: remdups_adj.cases)
  case (3 x y xs)
  show ?thesis
  proof (cases "\<not> heur4 m \<and> \<not> heur6 m")
    case True
    then show ?thesis using r 3
      by (simp add: Heuristic_FilterIPs_def split_precise_eq [OF N] del: split_precise.simps filter.simps)
  next
    case False
    let ?c = "coarse (heur4 m) (heur6 m)"
    let ?b = "all_buckets (filter ?c ips) []"
    let ?p = "filter (\<lambda>ip. std_addr ip \<noteq> None \<and> \<not> ?c ip) ips"
    let ?bs = "map snd (in_order (mo_key mo 0) ?b)"
    from coarse_buckets [of "filter ?c ips" "heur4 m" "heur6 m"] have b: "buckets_ok ?b" "bucket_ips ?b = mset (filter ?c ips)"
      "\<forall>(k, bk) \<in> set ?b. heur_key (heur4 m) (heur6 m) k" by auto
    have o: "mset (in_order (mo_key mo 0) ?b) = mset ?b"
      using b(1) mo by (intro in_order_mset) (auto simp: buckets_ok_def order_ok_def)
    have agree: "Heuristic_Match N m ip = matchAddr N m (bk_rep bk)" if "bk \<in> set ?bs" "ip \<in># mset (bk_ips bk)" for bk ip
    proof -
      from that(1) mset_eq_setD [OF o] obtain k where "(k, bk) \<in> set ?b" by auto
      with b bucket_agrees [OF N m _ _, of k bk ip] that(2) show ?thesis by (auto simp: buckets_ok_def)
    qed
    have all: "sum_list (map (mset \<circ> bk_ips) ?bs) = mset (filter ?c ips)"
      using b(2) by (simp add: bucket_ips_def sum_list_mset o image_mset.compositionality comp_def case_prod_unfold)
    let ?M = "Heuristic_Match N m" and ?U = "\<lambda>ip. std_addr ip \<noteq> None \<and> \<not> Heuristic_Match N m ip"
    have e: "matched = concat (map bk_ips (filter (\<lambda>b. matchAddr N m (bk_rep b)) ?bs)) @ filter ?M ?p"
      "unmatched = concat (map bk_ips (filter (\<lambda>b. \<not> matchAddr N m (bk_rep b)) ?bs)) @ filter ?U ?p"
      using r 3 False
      by (auto simp: Heuristic_FilterIPs_def collect_buckets_eq [OF N] split_precise_eq [OF N] Let_def
          simp del: collect_buckets.simps split_precise.simps filter.simps)
    have "sum_list (map (mset \<circ> bk_ips) (filter (\<lambda>b. matchAddr N m (bk_rep b)) ?bs)) = filter_mset ?M (mset (filter ?c ips))"
      unfolding all [symmetric] by (rule filter_mset_sum) (use agree in auto)
    with e(1) have m1: "mset matched = filter_mset ?M (mset (filter ?c ips)) + mset (filter ?M ?p)"
      by (simp only: mset_append mset_concat map_map)
    have "sum_list (map (mset \<circ> bk_ips) (filter (\<lambda>b. \<not> matchAddr N m (bk_rep b)) ?bs)) =
        filter_mset (\<lambda>ip. \<not> ?M ip) (mset (filter ?c ips))"
      unfolding all [symmetric] by (rule filter_mset_sum) (use agree in auto)
    with e(2) have m2: "mset unmatched = filter_mset (\<lambda>ip. \<not> ?M ip) (mset (filter ?c ips)) + mset (filter ?U ?p)"
      by (simp only: mset_append mset_concat map_map)
    have m3: "filter_mset (\<lambda>ip. \<not> ?M ip) (mset (filter ?c ips)) = filter_mset ?U (mset (filter ?c ips))"
      by (intro filter_mset_cong) (auto simp: coarse_def)
    have p1: "mset (filter ?M ips) = filter_mset ?M (mset (filter ?c ips)) + mset (filter ?M ?p)"
      by (rule mset_filter_parts) (auto simp: Heuristic_Match_std [OF N])
    have p2: "mset (filter ?U ips) = filter_mset ?U (mset (filter ?c ips)) + mset (filter ?U ?p)"
      by (rule mset_filter_parts) blast
    show ?thesis unfolding p1 p2 m1 m2 m3 by (rule conjI) (rule refl)+
  qed
qed (use r in \<open>auto simp: Heuristic_FilterIPs_def Heuristic_Match_def netipx_std [OF N] split: option.splits if_splits\<close>)

section \<open>Entries that are taken out\<close>

definition ent :: "('v \<Rightarrow> byte list list) \<Rightarrow> ('k \<times> 'v option) list \<Rightarrow> byte list multiset" where
  "ent ips_of xs = sum_list (map (\<lambda>(k, v). case v of None \<Rightarrow> {#} | Some b \<Rightarrow> mset (ips_of b)) xs)"

fun hits :: "('k \<Rightarrow> 'v \<Rightarrow> bool) \<Rightarrow> 'k \<times> 'v option \<Rightarrow> bool" where
  "hits hit (k, None) = False"
| "hits hit (k, Some b) = hit k b"

definition clear :: "('k \<Rightarrow> 'v \<Rightarrow> bool) \<Rightarrow> ('k \<times> 'v option) list \<Rightarrow> ('k \<times> 'v option) list" where
  "clear hit xs = map (\<lambda>(k, v). (k, if hits hit (k, v) then None else v)) xs"

lemma clear_simps [simp]:
  "map fst (clear hit xs) = map fst xs"
  "(k, Some b) \<in> set (clear hit xs) \<longleftrightarrow> (k, Some b) \<in> set xs \<and> \<not> hit k b"
  by (auto simp: clear_def comp_def case_prod_unfold split: if_splits) force+

lemma AList_update_map:
  "distinct (map fst m) \<Longrightarrow> k \<in> fst ` set m \<Longrightarrow> AList.update k w m = map (\<lambda>(k', v). (k', if k' = k then w else v)) m"
proof (induction m)
  case (Cons x m)
  have "map (\<lambda>(k', v). (k', if k' = k then w else v)) m = m" if "k \<notin> fst ` set m"
    using that by (intro map_idI) force
  with Cons show ?case by (cases x) auto
qed simp

lemma take_matched_some:
  "distinct (map fst m) \<Longrightarrow> distinct (map fst es) \<Longrightarrow> set es \<subseteq> set m \<Longrightarrow>
   fst (take_matched hit ips_of es m) = map (\<lambda>(k, v). (k, if (k, v) \<in> set es \<and> hits hit (k, v) then None else v)) m \<and>
   mset (snd (take_matched hit ips_of es m)) = ent ips_of (filter (hits hit) es)"
proof (induction hit ips_of es m rule: take_matched.induct)
  case (1 hit ips_of m)
  have "map (\<lambda>(k, v). (k, v)) m = m" by (intro map_idI) auto
  then show ?case by (simp add: ent_def)
next
  case (2 hit ips_of k es m)
  then show ?case by (auto simp: ent_def case_prod_unfold)
next
  case (3 hit ips_of k b es m)
  show ?case
  proof (cases "hit k b")
    case True
    let ?m = "AList.update k None m"
    have k: "(k, Some b) \<in> set m" "k \<notin> fst ` set es" using "3.prems" by auto
    have u: "?m = map (\<lambda>(k', v). (k', if k' = k then None else v)) m"
      using k "3.prems"(1) by (intro AList_update_map) force+
    have "set es \<subseteq> set ?m"
    proof
      fix x assume x: "x \<in> set es"
      with "3.prems"(3) k(2) show "x \<in> set ?m" unfolding u by (cases x) (force simp: image_iff)
    qed
    moreover have "map fst ?m = map fst m" by (simp add: u comp_def case_prod_unfold)
    ultimately have IH: "fst (take_matched hit ips_of es ?m) = map (\<lambda>(k, v). (k, if (k, v) \<in> set es \<and> hits hit (k, v) then None else v)) ?m"
      "mset (snd (take_matched hit ips_of es ?m)) = ent ips_of (filter (hits hit) es)"
      using "3.IH"(1) [OF True] "3.prems" by auto
    have uniq: "v = Some b" if "(k, v) \<in> set m" for v
      using that k(1) "3.prems"(1) by (metis eq_key_imp_eq_value)
    have "fst (take_matched hit ips_of es ?m) = map (\<lambda>(k', v). (k', if (k', v) \<in> set ((k, Some b) # es) \<and> hits hit (k', v) then None else v)) m"
      unfolding IH(1) unfolding u map_map using True k(2) by (intro map_cong) (auto simp: image_iff dest!: uniq)
    with IH(2) True show ?thesis by (simp add: ent_def case_prod_unfold)
  next
    case False
    with "3.IH"(2) [OF False] "3.prems" show ?thesis by (auto simp: case_prod_unfold)
  qed
qed

lemma take_matched_all:
  assumes m: "distinct (map fst m)" and es: "mset es = mset m"
    and Q: "\<And>k b ip. (k, Some b) \<in> set m \<Longrightarrow> ip \<in> set (ips_of b) \<Longrightarrow> Q ip = hit k b"
    and r: "take_matched hit ips_of es m = (m', r)"
  shows "m' = clear hit m" "mset r = filter_mset Q (ent ips_of m)" "ent ips_of m' = filter_mset (\<lambda>ip. \<not> Q ip) (ent ips_of m)"
proof -
  have d: "distinct (map fst es)" using m es by (metis mset_eq_imp_distinct_iff mset_map)
  note T = take_matched_some [OF m d, of hit ips_of] mset_eq_setD [OF es]
  show m': "m' = clear hit m" using T r by (auto simp: clear_def intro!: map_cong)
  have g: "y \<in># (case snd x of None \<Rightarrow> {#} | Some b \<Rightarrow> mset (ips_of b)) \<Longrightarrow> Q y = hits hit x" if "x \<in> set m" for x y
    using Q that by (cases x; cases "snd x") auto
  have "ent ips_of (filter (hits hit) es) = ent ips_of (filter (hits hit) m)"
    unfolding ent_def sum_list_mset mset_filter es ..
  also have "\<dots> = filter_mset Q (ent ips_of m)"
    unfolding ent_def by (rule filter_mset_sum) (use g in \<open>auto simp: case_prod_unfold\<close>)
  finally show "mset r = filter_mset Q (ent ips_of m)" using T r by simp
  have "ent ips_of (clear hit m) = ent ips_of (filter (\<lambda>x. \<not> hits hit x) m)"
    by (induction m) (auto simp: clear_def ent_def)
  also have "\<dots> = filter_mset (\<lambda>ip. \<not> Q ip) (ent ips_of m)"
    unfolding ent_def by (rule filter_mset_sum) (use g in \<open>auto simp: case_prod_unfold\<close>)
  finally show "ent ips_of m' = filter_mset (\<lambda>ip. \<not> Q ip) (ent ips_of m)" by (simp add: m')
qed

section \<open>Views of several matchers\<close>

text \<open>
  The view of one family, with the multiset of addresses that are left in it: buckets whose addresses
  agree with the representative, or addresses under their own key.
\<close>

definition okb :: "'s HeuristicGeoIPMatcher list \<Rightarrow> (byte list \<times> ipBucket option) list \<Rightarrow> bool" where
  "okb ms bs \<longleftrightarrow> distinct (map fst bs) \<and>
     (\<forall>k b. (k, Some b) \<in> set bs \<longrightarrow> bucket_ok k b \<and> (\<forall>m \<in> set ms. heur_key (heur4 m) (heur6 m) k))"

definition okp :: "(Addr \<times> byte list option) list \<Rightarrow> bool" where
  "okp ps \<longleftrightarrow> distinct (map fst ps) \<and> (\<forall>a ip. (a, Some ip) \<in> set ps \<longrightarrow> std_addr ip = Some a)"

definition family :: "'s HeuristicGeoIPMatcher list \<Rightarrow> bool \<Rightarrow> (byte list \<times> ipBucket option) list option \<Rightarrow>
    (Addr \<times> byte list option) list option \<Rightarrow> byte list multiset \<Rightarrow> bool" where
  "family ms h b p M \<longleftrightarrow>
     (if h then p = None \<and> (\<exists>bs. b = Some bs \<and> okb ms bs \<and> ent bk_ips bs = M)
      else b = None \<and> (\<exists>ps. p = Some ps \<and> okp ps \<and> ent (\<lambda>ip. [ip]) ps = M))"

lemma take_buckets_family:
  assumes N: "netipx_ok N" and m: "set_ok N (ipset m)" "m \<in> set ms" and f: "\<And>ks. mset (f ks) = mset ks"
    and F: "family ms True b p M" and r: "take_buckets N f m b = (b', r)"
  shows "family ms True b' p (filter_mset (\<lambda>ip. \<not> Heuristic_Match N m ip) M) \<and> mset r = filter_mset (Heuristic_Match N m) M"
proof -
  from F obtain bs where bs: "p = None" "b = Some bs" "okb ms bs" "ent bk_ips bs = M" by (auto simp: family_def)
  let ?hit = "\<lambda>k b. matchAddr N m (bk_rep b)"
  obtain bs' where t: "take_matched ?hit bk_ips (in_order f bs) bs = (bs', r)" "b' = Some bs'"
    using r bs(2) by (auto simp: take_buckets_def apfst_def map_prod_def split: prod.splits)
  have d: "distinct (map fst bs)" using bs(3) by (simp add: okb_def)
  have "Heuristic_Match N m ip = ?hit k c" if "(k, Some c) \<in> set bs" "ip \<in> set (bk_ips c)" for k c ip
    using bucket_agrees [OF N m(1) _ _ that(2), of k] bs(3) that(1) m(2) by (auto simp: okb_def)
  note T = take_matched_all [where hit = ?hit and ips_of = bk_ips and Q = "Heuristic_Match N m", OF d in_order_mset [OF d, of f, OF f] this t(1)]
  have "okb ms (clear ?hit bs)" using bs(3) by (auto simp: okb_def)
  with T bs t(2) show ?thesis by (simp add: family_def)
qed

lemma take_addrs_family:
  assumes N: "netipx_ok N" and f: "\<And>ks. mset (f ks) = mset ks"
    and F: "family ms False b p M" and r: "take_addrs N f m p = (p', r)"
  shows "family ms False b p' (filter_mset (\<lambda>ip. \<not> Heuristic_Match N m ip) M) \<and> mset r = filter_mset (Heuristic_Match N m) M"
proof -
  from F obtain ps where ps: "b = None" "p = Some ps" "okp ps" "ent (\<lambda>ip. [ip]) ps = M" by (auto simp: family_def)
  let ?hit = "\<lambda>a ip. matchAddr N m a"
  obtain ps' where t: "take_matched ?hit (\<lambda>ip. [ip]) (in_order f ps) ps = (ps', r)" "p' = Some ps'"
    using r ps(2) by (auto simp: take_addrs_def apfst_def map_prod_def split: prod.splits)
  have d: "distinct (map fst ps)" using ps(3) by (simp add: okp_def)
  have "Heuristic_Match N m ip = ?hit a c" if "(a, Some c) \<in> set ps" "ip \<in> set [c]" for a c ip
    using that ps(3) by (auto simp: okp_def Heuristic_Match_std [OF N])
  note T = take_matched_all [where hit = ?hit and ips_of = "\<lambda>ip. [ip]" and Q = "Heuristic_Match N m", OF d in_order_mset [OF d, of f, OF f] this t(1)]
  have "okp (clear ?hit ps)" using ps(3) by (auto simp: okp_def)
  with T ps t(2) show ?thesis by (simp add: family_def)
qed

lemma take_family:
  assumes N: "netipx_ok N" and m: "set_ok N (ipset m)" "m \<in> set ms"
    and f: "\<And>ks. mset (f ks) = mset ks" "\<And>as. mset (g as) = mset as" and F: "family ms h b p M"
    and r: "(if h then (case take_buckets N f m b of (b', r) \<Rightarrow> (b', p, r))
             else (case take_addrs N g m p of (p', r) \<Rightarrow> (b, p', r))) = (b', p', r)"
  shows "family ms h b' p' (filter_mset (\<lambda>ip. \<not> Heuristic_Match N m ip) M) \<and> mset r = filter_mset (Heuristic_Match N m) M"
proof (cases h)
  case True
  with r have "take_buckets N f m b = (b', r)" "p' = p" by (auto split: prod.splits)
  with take_buckets_family [OF N m f(1), of b p M b' r] F True show ?thesis by simp
next
  case False
  with r have "take_addrs N g m p = (p', r)" "b' = b" by (auto split: prod.splits)
  with take_addrs_family [OF N f(2), of ms b p M m p' r] F False show ?thesis by simp
qed

definition views :: "'s HeuristicGeoIPMatcher list \<Rightarrow> bool \<Rightarrow> bool \<Rightarrow> ipBucketViews \<Rightarrow> byte list multiset \<Rightarrow> byte list multiset \<Rightarrow> bool" where
  "views ms h4 h6 v M4 M6 \<longleftrightarrow> family ms h4 (bv_buckets4 v) (bv_precise4 v) M4 \<and> family ms h6 (bv_buckets6 v) (bv_precise6 v) M6"

lemma filter_matcher_views:
  assumes N: "netipx_ok N" and m: "set_ok N (ipset m)" "m \<in> set ms" and mo: "order_ok mo"
    and V: "views ms (heur4 m) (heur6 m) v M4 M6" and r: "filter_matcher N mo i m v = (v', r)"
  shows "views ms (heur4 m) (heur6 m) v' (filter_mset (\<lambda>ip. \<not> Heuristic_Match N m ip) M4) (filter_mset (\<lambda>ip. \<not> Heuristic_Match N m ip) M6) \<and>
    mset r = filter_mset (Heuristic_Match N m) (M4 + M6)"
proof -
  have k: "mset (mo_key mo i ks) = mset ks" and a: "mset (mo_addr mo i as) = mset as" for ks as
    using mo by (auto simp: order_ok_def)
  obtain b4 p4 r4 where 4: "(if heur4 m then (case take_buckets N (mo_key mo i) m (bv_buckets4 v) of (b', r) \<Rightarrow> (b', bv_precise4 v, r))
      else (case take_addrs N (mo_addr mo i) m (bv_precise4 v) of (p', r) \<Rightarrow> (bv_buckets4 v, p', r))) = (b4, p4, r4)"
    by (metis prod_cases3)
  obtain b6 p6 r6 where 6: "(if heur6 m then (case take_buckets N (mo_key mo i) m (bv_buckets6 v) of (b', r) \<Rightarrow> (b', bv_precise6 v, r))
      else (case take_addrs N (mo_addr mo i) m (bv_precise6 v) of (p', r) \<Rightarrow> (bv_buckets6 v, p', r))) = (b6, p6, r6)"
    by (metis prod_cases3)
  have "bv_buckets4 v' = b4 \<and> bv_precise4 v' = p4 \<and> bv_buckets6 v' = b6 \<and> bv_precise6 v' = p6 \<and> r = r4 @ r6"
    using 4 6 r by (auto simp: filter_matcher_def split: prod.splits if_splits)
  with take_family [OF N m k a _ 4, of M4] take_family [OF N m k a _ 6, of M6] V show ?thesis by (simp add: views_def)
qed

lemma views_ensure_id: "views ms (heur4 m) (heur6 m) v M4 M6 \<Longrightarrow> bucket_views_ensure N v m ips = v"
  by (auto simp: bucket_views_ensure_def views_def family_def Let_def)

lemma filter_loop_views:
  assumes N: "netipx_ok N" and mo: "order_ok mo" and ms0: "\<forall>m \<in> set ms0. set_ok N (ipset m) \<and> heur4 m = h4 \<and> heur6 m = h6"
  shows "set ms \<subseteq> set ms0 \<Longrightarrow> views ms0 h4 h6 v M4 M6 \<Longrightarrow> filter_loop N mo ips i v ms = (v', r) \<Longrightarrow>
    views ms0 h4 h6 v' (filter_mset (\<lambda>ip. \<not> (\<exists>m \<in> set ms. Heuristic_Match N m ip)) M4)
      (filter_mset (\<lambda>ip. \<not> (\<exists>m \<in> set ms. Heuristic_Match N m ip)) M6) \<and>
    mset r = filter_mset (\<lambda>ip. \<exists>m \<in> set ms. Heuristic_Match N m ip) (M4 + M6)"
proof (induction ms arbitrary: v M4 M6 i v' r)
  case (Cons m ms)
  have m: "set_ok N (ipset m)" "m \<in> set ms0" "h4 = heur4 m" "h6 = heur6 m" using Cons.prems(1) ms0 by auto
  from Cons.prems(2) have V: "views ms0 (heur4 m) (heur6 m) v M4 M6" by (simp add: m(3,4))
  from Cons.prems(3) obtain v1 r1 r2 where s: "filter_matcher N mo i m v = (v1, r1)" "filter_loop N mo ips (i + 1) v1 ms = (v', r2)" "r = r1 @ r2"
    using views_ensure_id [OF V] by (auto split: prod.splits)
  from filter_matcher_views [OF N m(1,2) mo V s(1)] have
    1: "views ms0 h4 h6 v1 (filter_mset (\<lambda>ip. \<not> Heuristic_Match N m ip) M4) (filter_mset (\<lambda>ip. \<not> Heuristic_Match N m ip) M6)"
      "mset r1 = filter_mset (Heuristic_Match N m) (M4 + M6)" by (simp_all add: m(3,4))
  from Cons.IH [OF _ 1(1) s(2)] Cons.prems(1) have
    2: "views ms0 h4 h6 v' (filter_mset (\<lambda>ip. \<not> (\<exists>m \<in> set ms. Heuristic_Match N m ip)) (filter_mset (\<lambda>ip. \<not> Heuristic_Match N m ip) M4))
      (filter_mset (\<lambda>ip. \<not> (\<exists>m \<in> set ms. Heuristic_Match N m ip)) (filter_mset (\<lambda>ip. \<not> Heuristic_Match N m ip) M6))"
      "mset r2 = filter_mset (\<lambda>ip. \<exists>m \<in> set ms. Heuristic_Match N m ip)
        (filter_mset (\<lambda>ip. \<not> Heuristic_Match N m ip) M4 + filter_mset (\<lambda>ip. \<not> Heuristic_Match N m ip) M6)" by auto
  have left: "filter_mset (\<lambda>ip. \<not> (\<exists>m \<in> set ms. Heuristic_Match N m ip)) (filter_mset (\<lambda>ip. \<not> Heuristic_Match N m ip) M) =
      filter_mset (\<lambda>ip. \<not> (\<exists>m \<in> set (m # ms). Heuristic_Match N m ip)) M" for M
    by (simp add: filter_filter_mset)
  have both: "filter_mset (Heuristic_Match N m) M + filter_mset (\<lambda>ip. \<exists>m \<in> set ms. Heuristic_Match N m ip) (filter_mset (\<lambda>ip. \<not> Heuristic_Match N m ip) M) =
      filter_mset (\<lambda>ip. \<exists>m \<in> set (m # ms). Heuristic_Match N m ip) M" for M
    by (induction M) auto
  show ?case using 1(2) 2 s(3) both [of "M4 + M6"] unfolding left by simp
qed (auto simp: filter_mset_True)

section \<open>The views at the start and at the end\<close>

abbreviation ips4 :: "byte list list \<Rightarrow> byte list list" where
  "ips4 ips \<equiv> filter (\<lambda>ip. \<exists>a. std_addr ip = Some a \<and> Is4 a) ips"

abbreviation ips6 :: "byte list list \<Rightarrow> byte list list" where
  "ips6 ips \<equiv> filter (\<lambda>ip. \<exists>a. std_addr ip = Some a \<and> \<not> Is4 a) ips"

definition add_addr :: "byte list \<Rightarrow> (Addr \<times> byte list) list \<Rightarrow> (Addr \<times> byte list) list" where
  "add_addr ip q = AList.update (the (std_addr ip)) ip q"

lemma bucket_view_add_eq:
  assumes N: "netipx_ok N" and a: "std_addr ip = Some a"
  shows "bucket_view_add N h p ip (addr_key a) (b, q) = (if h then add_bucket ip b else b, if p then add_addr ip q else q)"
  using a by (auto simp: bucket_view_add_def netipx_std [OF N] add_bucket_def add_addr_def split: option.split)

lemma fill_bucket_views_eq:
  assumes N: "netipx_ok N"
  shows "fill_bucket_views N h4 p4 h6 p6 ips (b4, q4) (b6, q6) =
    ((if h4 then all_buckets (ips4 ips) b4 else b4, if p4 then fold add_addr (ips4 ips) q4 else q4),
     (if h6 then all_buckets (ips6 ips) b6 else b6, if p6 then fold add_addr (ips6 ips) q6 else q6))"
proof (induction ips arbitrary: b4 q4 b6 q6)
  case (Cons ip ips)
  show ?case
  proof (cases "std_addr ip")
    case (Some a)
    then show ?thesis
      by (cases "Is4 a") (simp_all add: prefixKey_addr addr_key_hd bucket_view_add_eq [OF N Some] Cons)
  qed (simp add: prefixKey_addr Cons)
qed simp

lemma AList_update_new: "k \<notin> fst ` set xs \<Longrightarrow> AList.update k v xs = xs @ [(k, v)]"
  by (induction xs) auto

lemma add_addrs_new:
  "distinct (map std_addr ips) \<Longrightarrow> \<forall>ip \<in> set ips. std_addr ip \<noteq> None \<and> the (std_addr ip) \<notin> fst ` set q \<Longrightarrow>
   fold add_addr ips q = q @ map (\<lambda>ip. (the (std_addr ip), ip)) ips"
proof (induction ips arbitrary: q)
  case (Cons ip ips)
  have "the (std_addr ip') \<noteq> the (std_addr ip)" if "ip' \<in> set ips" for ip'
    using Cons.prems that by (auto simp: image_iff) (metis option.sel)
  with Cons show ?case by (simp add: add_addr_def AList_update_new)
qed simp

lemma ent_live: "ent g (live xs) = sum_list (map (\<lambda>(k, b). mset (g b)) xs)"
  by (induction xs) (auto simp: ent_def)

lemma family_start:
  assumes "h \<Longrightarrow> \<forall>m \<in> set ms. \<forall>ip \<in> set ips. coarse (heur4 m) (heur6 m) ip"
    and "\<forall>ip \<in> set ips. std_addr ip \<noteq> None" "distinct (map std_addr ips)"
  shows "family ms h (if h then Some (live (all_buckets ips [])) else None)
    (if \<not> h then Some (live (fold add_addr ips [])) else None) (mset ips)"
proof (cases h)
  case True
  have b: "buckets_ok (all_buckets ips [])" "bucket_ips (all_buckets ips []) = mset ips"
    using all_buckets_ok [OF assms(2), of "[]"] by (auto simp: buckets_ok_def bucket_ips_def)
  moreover have "heur_key (heur4 m) (heur6 m) k" if "m \<in> set ms" "(k, b) \<in> set (all_buckets ips [])" for m k b
    using coarse_buckets [of ips "heur4 m" "heur6 m"] assms(1) [OF True] that by blast
  ultimately have "okb ms (live (all_buckets ips []))"
    by (auto simp: okb_def buckets_ok_def comp_def)
  with True b show ?thesis by (auto simp: family_def ent_live bucket_ips_def)
next
  case False
  let ?q = "map (\<lambda>ip. (the (std_addr ip), ip)) ips"
  have q: "fold add_addr ips [] = ?q" using add_addrs_new [OF assms(3), of "[]"] assms(2) by simp
  have "map (\<lambda>ip. Some (the (std_addr ip))) ips = map std_addr ips" using assms(2) by (intro map_cong) auto
  then have "distinct (map (\<lambda>ip. the (std_addr ip)) ips)" using assms(3) by (simp add: distinct_map inj_on_def) metis
  then have "okp (live ?q)" using assms(2) by (auto simp: okp_def comp_def)
  moreover have "ent (\<lambda>ip. [ip]) (live ?q) = mset ips" unfolding ent_live by (induction ips) auto
  ultimately show ?thesis using False by (simp add: family_def q)
qed

lemma family_left:
  assumes F: "family ms h b p M" and f: "\<And>ks. mset (f ks) = mset ks" "\<And>as. mset (g as) = mset as"
  shows "mset (left_buckets f b @ left_addrs g p) = M"
proof (cases h)
  case True
  with F obtain bs where bs: "p = None" "b = Some bs" "okb ms bs" "ent bk_ips bs = M" by (auto simp: family_def)
  have "mset (in_order f bs) = mset bs" using bs(3) f(1) by (intro in_order_mset) (auto simp: okb_def)
  then have "sum_list (map (\<lambda>x. mset ((\<lambda>(k, b). case b of None \<Rightarrow> [] | Some b \<Rightarrow> bk_ips b) x)) (in_order f bs)) = ent bk_ips bs"
    unfolding ent_def sum_list_mset by (auto intro!: arg_cong [where f = sum_mset] image_mset_cong split: option.split)
  with bs show ?thesis by (simp add: left_buckets_def left_addrs_def mset_concat comp_def)
next
  case False
  with F obtain ps where ps: "b = None" "p = Some ps" "okp ps" "ent (\<lambda>ip. [ip]) ps = M" by (auto simp: family_def)
  have "mset (in_order g ps) = mset ps" using ps(3) f(2) by (intro in_order_mset) (auto simp: okp_def)
  then have "sum_list (map (\<lambda>x. mset ((\<lambda>(k, ip). case ip of None \<Rightarrow> [] | Some ip \<Rightarrow> [ip]) x)) (in_order g ps)) = ent (\<lambda>ip. [ip]) ps"
    unfolding ent_def sum_list_mset by (auto intro!: arg_cong [where f = sum_mset] image_mset_cong split: option.split)
  with ps show ?thesis by (simp add: left_buckets_def left_addrs_def mset_concat comp_def)
qed

lemma views_start:
  assumes N: "netipx_ok N" and ms: "\<forall>m \<in> set ms. heur4 m = heur4 m0 \<and> heur6 m = heur6 m0"
    and d: "distinct (map std_addr (filter (\<lambda>ip. std_addr ip \<noteq> None) ips))"
  shows "views ms (heur4 m0) (heur6 m0) (bucket_views_ensure N no_bucket_views m0 ips) (mset (ips4 ips)) (mset (ips6 ips))"
proof -
  have sub: "distinct (map std_addr (filter P ips))" if "\<And>ip. P ip \<Longrightarrow> std_addr ip \<noteq> None" for P
  proof -
    have "filter P ips = filter P (filter (\<lambda>ip. std_addr ip \<noteq> None) ips)"
      using that by (auto simp: filter_filter intro!: filter_cong)
    then show ?thesis using d by (metis distinct_map_filter)
  qed
  have "bucket_views_ensure N no_bucket_views m0 ips =
    \<lparr>bv_buckets4 = if heur4 m0 then Some (live (all_buckets (ips4 ips) [])) else None,
     bv_buckets6 = if heur6 m0 then Some (live (all_buckets (ips6 ips) [])) else None,
     bv_precise4 = if \<not> heur4 m0 then Some (live (fold add_addr (ips4 ips) [])) else None,
     bv_precise6 = if \<not> heur6 m0 then Some (live (fold add_addr (ips6 ips) [])) else None\<rparr>"
    by (auto simp: bucket_views_ensure_def no_bucket_views_def fill_bucket_views_eq [OF N] Let_def)
  moreover have "family ms (heur4 m0) (if heur4 m0 then Some (live (all_buckets (ips4 ips) [])) else None)
      (if \<not> heur4 m0 then Some (live (fold add_addr (ips4 ips) [])) else None) (mset (ips4 ips))"
    using ms by (intro family_start sub) (auto simp: coarse_def heur_key_addr)
  moreover have "family ms (heur6 m0) (if heur6 m0 then Some (live (all_buckets (ips6 ips) [])) else None)
      (if \<not> heur6 m0 then Some (live (fold add_addr (ips6 ips) [])) else None) (mset (ips6 ips))"
    using ms by (intro family_start sub) (auto simp: coarse_def heur_key_addr)
  ultimately show ?thesis by (simp add: views_def)
qed

lemma mset_ips46: "mset (ips4 ips) + mset (ips6 ips) = mset (filter (\<lambda>ip. std_addr ip \<noteq> None) ips)"
  by (induction ips) auto

lemma HMulti_Match_std:
  assumes "netipx_ok N"
  shows "HMulti_Match N ms ip \<longleftrightarrow> (\<exists>m \<in> set ms. Heuristic_Match N m ip)"
  by (auto simp: HMulti_Match_def Heuristic_Match_def netipx_std [OF assms] list_ex_iff split: option.split)

text \<open>
  Matchers that treat the same families as coarse share one view of each family: the addresses are
  split as by the single answers.
\<close>

lemma HMulti_FilterIPs_eq:
  assumes N: "netipx_ok N" and mo: "order_ok mo" and ms: "ms \<noteq> []" "\<forall>m \<in> set ms. set_ok N (ipset m)"
    and same: "\<forall>m \<in> set ms. heur4 m = heur4 (hd ms) \<and> heur6 m = heur6 (hd ms)"
    and d: "distinct (map std_addr (filter (\<lambda>ip. std_addr ip \<noteq> None) ips))"
  shows "\<exists>matched unmatched. HMulti_FilterIPs N mo ms ips = Some (matched, unmatched) \<and>
    mset matched = mset (filter (HMulti_Match N ms) ips) \<and>
    mset unmatched = mset (filter (\<lambda>ip. std_addr ip \<noteq> None \<and> \<not> HMulti_Match N ms ip) ips)"
proof (cases ips rule: remdups_adj.cases)
  case (3 x y xs)
  let ?Q = "\<lambda>ip. \<exists>m \<in> set ms. Heuristic_Match N m ip" and ?V = "filter (\<lambda>ip. std_addr ip \<noteq> None) ips"
  obtain m0 ms' where m0: "ms = m0 # ms'" using ms(1) by (cases ms) auto
  let ?v = "bucket_views_ensure N no_bucket_views m0 ips"
  have V: "views ms (heur4 m0) (heur6 m0) ?v (mset (ips4 ips)) (mset (ips6 ips))"
    using same by (intro views_start [OF N _ d]) (simp add: m0)
  obtain v r where l: "filter_loop N mo ips 0 no_bucket_views ms = (v, r)" by (cases "filter_loop N mo ips 0 no_bucket_views ms")
  then have l': "filter_loop N mo ips 0 ?v ms = (v, r)"
    unfolding m0 by (simp add: views_ensure_id [OF V])
  have "\<forall>m \<in> set ms. set_ok N (ipset m) \<and> heur4 m = heur4 m0 \<and> heur6 m = heur6 m0" using ms(2) same by (simp add: m0)
  note L = filter_loop_views [OF N mo this subset_refl V l']
  have R: "views ms (heur4 m0) (heur6 m0) v (filter_mset (\<lambda>ip. \<not> ?Q ip) (mset (ips4 ips))) (filter_mset (\<lambda>ip. \<not> ?Q ip) (mset (ips6 ips)))"
    "mset r = filter_mset ?Q (mset ?V)"
    using L unfolding mset_ips46 by blast+
  have k: "mset (mo_key mo i ks) = mset ks" and a: "mset (mo_addr mo i as) = mset as" for i ks as
    using mo by (auto simp: order_ok_def)
  let ?n = "length ms"
  let ?u = "left_buckets (mo_key mo ?n) (bv_buckets4 v) @ left_addrs (mo_addr mo ?n) (bv_precise4 v) @
    left_buckets (mo_key mo ?n) (bv_buckets6 v) @ left_addrs (mo_addr mo ?n) (bv_precise6 v)"
  have "mset ?u = filter_mset (\<lambda>ip. \<not> ?Q ip) (mset (ips4 ips)) + filter_mset (\<lambda>ip. \<not> ?Q ip) (mset (ips6 ips))"
    unfolding family_left [OF conjunct1 [OF R(1) [unfolded views_def]] k [of ?n] a [of ?n], symmetric]
      family_left [OF conjunct2 [OF R(1) [unfolded views_def]] k [of ?n] a [of ?n], symmetric]
    by (simp add: add.assoc)
  then have U: "mset ?u = filter_mset (\<lambda>ip. \<not> ?Q ip) (mset ?V)" by (simp add: mset_ips46 flip: filter_union_mset del: mset_filter)
  have "size (mset r) \<le> size (mset ips)" unfolding R(2)
    by (intro size_mset_mono) (simp add: filter_filter_mset)
  then have e: "HMulti_FilterIPs N mo ms ips = Some (r, ?u)"
    using l 3 by (simp add: HMulti_FilterIPs_def Let_def del: filter_loop.simps)
  have q: "filter_mset ?Q (mset ?V) = mset (filter (HMulti_Match N ms) ips)"
    "filter_mset (\<lambda>ip. \<not> ?Q ip) (mset ?V) = mset (filter (\<lambda>ip. std_addr ip \<noteq> None \<and> \<not> HMulti_Match N ms ip) ips)"
    by (auto simp: filter_filter_mset HMulti_Match_std [OF N] Heuristic_Match_std [OF N] intro!: filter_mset_cong)
  show ?thesis by (intro exI conjI, rule e, unfold R(2) U q, (rule refl)+)
qed (auto simp: HMulti_FilterIPs_def HMulti_Match_def netipx_std [OF N] split: option.split)

end
