(* ===== verification/Router_GeoIP_Build.thy ===== *)
theory Router_GeoIP_Build
  imports Router_GeoIP_Filter
begin

text \<open>
  The interface \<^verbatim>\<open>GeoIPMatcher\<close> as a contract, its implementations, and the matcher that
  \<^verbatim>\<open>BuildOptimizedGeoIPMatcher\<close> makes from a list of entries, with the cache of sets it keeps.
\<close>

section \<open>The contract\<close>

text \<open>The laws are the comments of the interface: an invalid address never matches; \<open>AnyMatch\<close> is true
  if any address matches; \<open>Matches\<close> is true only if all do.\<close>

locale geoip_matcher =
  fixes ok :: "'m \<Rightarrow> bool"
    and match :: "'m \<Rightarrow> byte list \<Rightarrow> bool"
    and any_match :: "'m \<Rightarrow> byte list list \<Rightarrow> bool"
    and matches :: "'m \<Rightarrow> byte list list \<Rightarrow> bool"
  assumes match_valid: "ok m \<Longrightarrow> match m ip \<Longrightarrow> std_addr ip \<noteq> None"
    and any_law: "ok m \<Longrightarrow> any_match m ips \<longleftrightarrow> list_ex (match m) ips"
    and all_law: "ok m \<Longrightarrow> matches m ips \<Longrightarrow> ips \<noteq> [] \<and> list_all (match m) ips"
begin

lemma any_set: "ok m \<Longrightarrow> set ips = set ips' \<Longrightarrow> any_match m ips = any_match m ips'"
  by (simp add: any_law list_ex_iff)

lemma any_append: "ok m \<Longrightarrow> any_match m (ips @ ips') \<longleftrightarrow> any_match m ips \<or> any_match m ips'"
  by (simp add: any_law)

lemma matches_any: "ok m \<Longrightarrow> matches m ips \<Longrightarrow> any_match m ips"
  using all_law by (cases ips) (force simp: any_law)+

lemma matches_valid: "ok m \<Longrightarrow> matches m ips \<Longrightarrow> ip \<in> set ips \<Longrightarrow> std_addr ip \<noteq> None"
  using all_law match_valid by (metis list_all_iff)

end

text \<open>Filtering, for lists on which the implementation is exact.\<close>

locale geoip_filter = geoip_matcher ok match any_match matches
  for ok :: "'m \<Rightarrow> bool" and match :: "'m \<Rightarrow> byte list \<Rightarrow> bool"
    and any_match :: "'m \<Rightarrow> byte list list \<Rightarrow> bool" and matches :: "'m \<Rightarrow> byte list list \<Rightarrow> bool" +
  fixes exact :: "'m \<Rightarrow> byte list list \<Rightarrow> bool"
    and filter_ips :: "'m \<Rightarrow> byte list list \<Rightarrow> (byte list list \<times> byte list list) option"
  assumes filter_law: "ok m \<Longrightarrow> exact m ips \<Longrightarrow> \<exists>a b. filter_ips m ips = Some (a, b) \<and>
      mset a = mset (filter (match m) ips) \<and> mset b = mset (filter (\<lambda>ip. std_addr ip \<noteq> None \<and> \<not> match m ip) ips)"
begin

lemma filter_splits:
  assumes "ok m" "exact m ips" "filter_ips m ips = Some (a, b)"
  shows "mset a + mset b = mset (filter (\<lambda>ip. std_addr ip \<noteq> None) ips)" "any_match m ips \<longleftrightarrow> a \<noteq> []"
proof -
  from filter_law [OF assms(1,2)] assms(3) have ab: "mset a = mset (filter (match m) ips)"
    "mset b = mset (filter (\<lambda>ip. std_addr ip \<noteq> None \<and> \<not> match m ip) ips)" by auto
  have "mset (filter (match m) ips) + mset (filter (\<lambda>ip. std_addr ip \<noteq> None \<and> \<not> match m ip) ips) =
      mset (filter (\<lambda>ip. std_addr ip \<noteq> None) ips)"
    using match_valid [OF assms(1)] by (induction ips) auto
  with ab show "mset a + mset b = mset (filter (\<lambda>ip. std_addr ip \<noteq> None) ips)" by simp
  have "a = [] \<longleftrightarrow> filter (match m) ips = []" using ab(1) by (metis mset_zero_iff)
  then show "any_match m ips \<longleftrightarrow> a \<noteq> []" by (auto simp: any_law [OF assms(1)] list_ex_iff filter_empty_conv)
qed

end

section \<open>The implementations\<close>

fun geo_ok :: "'s netipx \<Rightarrow> 's GeoIPMatcher \<Rightarrow> bool" where
  "geo_ok N (Heuristic m) = set_ok N (ipset m)"
| "geo_ok N (GeneralMulti ms) = (ms \<noteq> [] \<and> list_all (geo_ok N) ms)"
| "geo_ok N (HeuristicMulti ms) = (ms \<noteq> [] \<and> list_all (\<lambda>m. set_ok N (ipset m)) ms)"

text \<open>All sets of a \<open>HeuristicMulti\<close> are coarse in the same families.\<close>

fun geo_even :: "'s GeoIPMatcher \<Rightarrow> bool" where
  "geo_even (Heuristic m) = True"
| "geo_even (GeneralMulti ms) = list_all geo_even ms"
| "geo_even (HeuristicMulti ms) = list_all (\<lambda>m. heur4 m = heur4 (hd ms) \<and> heur6 m = heur6 (hd ms)) ms"

definition addrs_distinct :: "byte list list \<Rightarrow> bool" where
  "addrs_distinct ips \<longleftrightarrow> distinct (map std_addr (filter (\<lambda>ip. std_addr ip \<noteq> None) ips))"

lemma geo_Match_valid:
  assumes N: "netipx_ok N"
  shows "GeoIP_Match N m ip \<Longrightarrow> std_addr ip \<noteq> None"
  by (induction m) (auto simp: Heuristic_Match_std [OF N] HMulti_Match_std [OF N] list_ex_iff)

lemma geo_AnyMatch_eq:
  assumes N: "netipx_ok N"
  shows "geo_ok N m \<Longrightarrow> GeoIP_AnyMatch N m ips \<longleftrightarrow> list_ex (GeoIP_Match N m) ips"
proof (induction m)
  case (GeneralMulti ms)
  then show ?case by (auto simp: list_ex_iff list_all_iff)
qed (simp_all add: Heuristic_AnyMatch_eq [OF N] HMulti_AnyMatch_eq [OF N] list_all_iff cong: list_ex_cong)

lemma geo_Matches_all:
  assumes N: "netipx_ok N"
  shows "geo_ok N m \<Longrightarrow> GeoIP_Matches N m ips \<Longrightarrow> ips \<noteq> [] \<and> list_all (GeoIP_Match N m) ips"
proof (induction m)
  case (GeneralMulti ms)
  then show ?case by (auto simp: list_ex_iff list_all_iff)
qed (auto simp: Heuristic_Matches_eq [OF N] HMulti_Matches_eq [OF N] HMulti_Match_std [OF N] list_all_iff)

abbreviation splits :: "(byte list \<Rightarrow> bool) \<Rightarrow> byte list list \<Rightarrow> byte list list \<times> byte list list \<Rightarrow> bool" where
  "splits P ips r \<equiv> mset (fst r) = mset (filter P ips) \<and>
     mset (snd r) = mset (filter (\<lambda>ip. std_addr ip \<noteq> None \<and> \<not> P ip) ips)"

lemma addrs_distinct_mset:
  assumes "addrs_distinct ips" "mset u = mset (filter P ips)"
  shows "addrs_distinct u"
proof -
  have "mset (filter (\<lambda>ip. std_addr ip \<noteq> None) u) = mset (filter P (filter (\<lambda>ip. std_addr ip \<noteq> None) ips))"
    using assms(2) by (simp add: filter_filter_mset conj_commute)
  then have "mset (map std_addr (filter (\<lambda>ip. std_addr ip \<noteq> None) u)) =
      mset (map std_addr (filter P (filter (\<lambda>ip. std_addr ip \<noteq> None) ips)))" unfolding mset_map by (rule arg_cong)
  moreover have "distinct (map std_addr (filter P (filter (\<lambda>ip. std_addr ip \<noteq> None) ips)))"
    using assms(1) unfolding addrs_distinct_def by (rule distinct_map_filter)
  ultimately show ?thesis unfolding addrs_distinct_def by (metis mset_eq_imp_distinct_iff)
qed

lemma two_filters:
  assumes "\<And>x. P x \<or> Q x \<Longrightarrow> V x"
  shows "filter_mset P M + filter_mset Q (filter_mset (\<lambda>x. V x \<and> \<not> P x) M) = filter_mset (\<lambda>x. P x \<or> Q x) M"
  using assms by (induction M) auto

lemma general_filter_eq:
  assumes N: "netipx_ok N"
    and "\<And>m ips. m \<in> set ms \<Longrightarrow> addrs_distinct ips \<Longrightarrow> \<exists>r. GeoIP_FilterIPs N mo m ips = Some r \<and> splits (GeoIP_Match N m) ips r"
    and "addrs_distinct ips" "ms \<noteq> [] \<or> (\<forall>ip \<in> set ips. std_addr ip \<noteq> None)"
  shows "\<exists>r. general_filter N mo ms ips = Some r \<and> splits (\<lambda>ip. \<exists>m \<in> set ms. GeoIP_Match N m ip) ips r"
  using assms(2-)
proof (induction ms arbitrary: ips)
  case Nil
  have "filter (\<lambda>ip. std_addr ip \<noteq> None) ips = ips" using Nil.prems(3) by (simp add: filter_id_conv)
  then show ?case by simp
next
  case (Cons m ms)
  let ?P = "GeoIP_Match N m" and ?Q = "\<lambda>ip. \<exists>m \<in> set ms. GeoIP_Match N m ip" and ?V = "\<lambda>ip. std_addr ip \<noteq> None"
  show ?case
  proof (cases "ips = []")
    case False
    from Cons.prems(1) [of m ips] Cons.prems(2) obtain a b where
      1: "GeoIP_FilterIPs N mo m ips = Some (a, b)" "splits ?P ips (a, b)" by auto
    have b: "mset b = filter_mset (\<lambda>ip. ?V ip \<and> \<not> ?P ip) (mset ips)" using 1(2) by simp
    have "addrs_distinct b" using 1(2) by (intro addrs_distinct_mset [OF Cons.prems(2)]) simp
    moreover have "\<forall>ip \<in> set b. ?V ip" unfolding set_mset_mset [symmetric] b by simp
    ultimately obtain c d where 2: "general_filter N mo ms b = Some (c, d)" "splits ?Q b (c, d)"
      using Cons.IH [of b] Cons.prems(1) by auto
    have "mset (a @ c) = filter_mset (\<lambda>ip. ?P ip \<or> ?Q ip) (mset ips)"
      using 1(2) 2(2) b two_filters [of ?P ?Q ?V "mset ips"] geo_Match_valid [OF N] by auto
    moreover have "mset d = filter_mset (\<lambda>ip. ?V ip \<and> \<not> (?P ip \<or> ?Q ip)) (mset ips)"
      using 2(2) b by (auto simp: filter_filter_mset intro: filter_mset_cong)
    ultimately show ?thesis using False 1(1) 2(1) by simp
  qed simp
qed

lemma geo_FilterIPs_eq:
  assumes N: "netipx_ok N" and mo: "order_ok mo"
  shows "geo_ok N m \<Longrightarrow> geo_even m \<Longrightarrow> addrs_distinct ips \<Longrightarrow>
    \<exists>r. GeoIP_FilterIPs N mo m ips = Some r \<and> splits (GeoIP_Match N m) ips r"
proof (induction m arbitrary: ips)
  case (Heuristic m)
  obtain a b where "Heuristic_FilterIPs N mo m ips = (a, b)" by (cases "Heuristic_FilterIPs N mo m ips")
  with Heuristic_FilterIPs_eq [OF N _ mo this] Heuristic.prems(1) show ?case by simp
next
  case (GeneralMulti ms)
  have "\<exists>r. general_filter N mo ms ips = Some r \<and> splits (\<lambda>ip. \<exists>m \<in> set ms. GeoIP_Match N m ip) ips r"
    using GeneralMulti by (intro general_filter_eq [OF N]) (auto simp: list_all_iff)
  then show ?case by (simp add: list_ex_iff)
next
  case (HeuristicMulti ms)
  have "\<exists>matched unmatched. HMulti_FilterIPs N mo ms ips = Some (matched, unmatched) \<and> splits (HMulti_Match N ms) ips (matched, unmatched)"
    unfolding fst_conv snd_conv
    using HeuristicMulti unfolding geo_ok.simps geo_even.simps list_all_iff addrs_distinct_def
    by (intro HMulti_FilterIPs_eq [OF N mo]) blast+
  then show ?case unfolding GeoIP_FilterIPs.simps GeoIP_Match.simps by blast
qed

interpretation geoip: geoip_filter "\<lambda>(N, mo, m). netipx_ok N \<and> order_ok mo \<and> geo_ok N m"
  "\<lambda>(N, mo, m). GeoIP_Match N m" "\<lambda>(N, mo, m). GeoIP_AnyMatch N m" "\<lambda>(N, mo, m). GeoIP_Matches N m"
  "\<lambda>(N, mo, m) ips. geo_even m \<and> addrs_distinct ips" "\<lambda>(N, mo, m). GeoIP_FilterIPs N mo m"
proof (unfold_locales, goal_cases)
  case (1 m ip) then show ?case using geo_Match_valid by (auto split: prod.splits)
next
  case (2 m ips) then show ?case by (auto simp: geo_AnyMatch_eq split: prod.splits)
next
  case (3 m ips) then show ?case using geo_Matches_all by (auto split: prod.splits)
next
  case (4 m ips)
  obtain N mo g where m: "m = (N, mo, g)" by (cases m)
  from geo_FilterIPs_eq [of N mo g ips] 4 show ?case unfolding m by auto
qed

section \<open>Building\<close>

definition in_cidrs :: "CIDR list \<Rightarrow> Addr \<Rightarrow> bool" where
  "in_cidrs cs a \<longleftrightarrow> list_ex (\<lambda>c. case cidr_prefix c of None \<Rightarrow> False | Some p \<Rightarrow> Prefix_Contains p a) cs"

definition in_set :: "'s netipx \<Rightarrow> 's GeoIPSet \<Rightarrow> Addr \<Rightarrow> bool" where
  "in_set N s a = nx_Contains N (if Is4 a then gs_ipv4 s else gs_ipv6 s) a"

lemma GeoIPSet_Create_ok:
  assumes N: "netipx_ok N"
  obtains s where "GeoIPSet_Create N groups = Inr s" "set_ok N s" "\<And>a. in_set N s a \<longleftrightarrow> in_cidrs (concat groups) a"
proof -
  let ?ps = "List.map_filter cidr_prefix (concat groups)"
  have ps: "p \<in> set ?ps \<longleftrightarrow> (\<exists>c \<in> set (concat groups). cidr_prefix c = Some p)" for p
    by (auto simp: map_filter_def image_iff) (metis option.sel option.distinct(1))+
  have valid: "\<forall>p \<in> set (filter P ?ps). Prefix_IsValid p" for P
    by (auto simp: ps cidr_prefix_def bind_eq_Some_conv Let_def split: if_splits)
  from netipx_set [OF N valid] obtain s4 where
    4: "nx_IPSet N (filter (\<lambda>p. Is4 (pf_addr p)) ?ps) = Inr s4"
      "\<And>a. nx_Contains N s4 a \<longleftrightarrow> (\<exists>p \<in> set (filter (\<lambda>p. Is4 (pf_addr p)) ?ps). Prefix_Contains p a)" by blast
  from netipx_set [OF N valid] obtain s6 where
    6: "nx_IPSet N (filter (\<lambda>p. \<not> Is4 (pf_addr p)) ?ps) = Inr s6"
      "\<And>a. nx_Contains N s6 a \<longleftrightarrow> (\<exists>p \<in> set (filter (\<lambda>p. \<not> Is4 (pf_addr p)) ?ps). Prefix_Contains p a)" by blast
  let ?s = "\<lparr>gs_ipv4 = s4, gs_ipv6 = s6, max4 = max_bits (nx_Prefixes N s4), max6 = max_bits (nx_Prefixes N s6)\<rparr>"
  have "in_cidrs (concat groups) a \<longleftrightarrow> (\<exists>c \<in> set (concat groups). \<exists>p. cidr_prefix c = Some p \<and> Prefix_Contains p a)" for a
    unfolding in_cidrs_def list_ex_iff by (intro bex_cong) (auto split: option.splits)
  then have "in_cidrs (concat groups) a \<longleftrightarrow> (\<exists>p \<in> set ?ps. Prefix_Contains p a)" for a unfolding Bex_def ps by blast
  then have "in_set N ?s a \<longleftrightarrow> in_cidrs (concat groups) a" for a
    using 4(2) 6(2) by (auto simp: in_set_def Prefix_Contains_def)
  moreover have "GeoIPSet_Create N groups = Inr ?s" using 4(1) 6(1) by (simp add: GeoIPSet_Create_def Let_def)
  ultimately show thesis by (intro that [of ?s]) (simp_all add: set_ok_def)
qed

lemma matchAddr_in_set: "matchAddr N m a \<longleftrightarrow> in_set N (ipset m) a \<noteq> reverse m"
  by (simp add: matchAddr_def in_set_def)

text \<open>
  Country codes stand for lists of networks, given by a database; a code has no comma. The cache holds
  under the joined codes the set of their networks.
\<close>

definition join_codes :: "gostring list \<Rightarrow> gostring" where
  "join_codes cs = concat (map (\<lambda>c. c @ gostr '','') cs)"

abbreviation no_comma :: "gostring \<Rightarrow> bool" where "no_comma c \<equiv> 44 \<notin> set c"

definition from_db :: "(gostring \<Rightarrow> CIDR list) \<Rightarrow> GeoIP \<Rightarrow> bool" where
  "from_db db g \<longleftrightarrow> (CountryCode g = [] \<or> Cidr g = db (CountryCode g) \<and> no_comma (CountryCode g))"

definition cache_ok :: "'s netipx \<Rightarrow> (gostring \<Rightarrow> CIDR list) \<Rightarrow> 's set_factory \<Rightarrow> bool" where
  "cache_ok N db shared \<longleftrightarrow> (\<forall>cs s. (\<forall>c \<in> set cs. no_comma c) \<longrightarrow> shared (join_codes cs) = Some s \<longrightarrow>
     set_ok N s \<and> (\<forall>a. in_set N s a \<longleftrightarrow> (\<exists>c \<in> set cs. in_cidrs (db c) a)))"

lemma join_codes_inj:
  "\<forall>c \<in> set xs. no_comma c \<Longrightarrow> \<forall>c \<in> set ys. no_comma c \<Longrightarrow> join_codes xs = join_codes ys \<Longrightarrow> xs = ys"
proof (induction xs arbitrary: ys)
  case Nil
  then show ?case by (cases ys) (auto simp: join_codes_def)
next
  case (Cons x xs)
  then obtain y ys' where y: "ys = y # ys'" by (cases ys) (auto simp: join_codes_def)
  from Cons.prems(3) have e: "x @ 44 # join_codes xs = y @ 44 # join_codes ys'" by (simp add: y join_codes_def)
  have split: "takeWhile (\<lambda>b. b \<noteq> 44) (z @ 44 # zs) = z" if "no_comma z" for z zs
    using that by (subst takeWhile_append2) auto
  have "x = y" using arg_cong [OF e, of "takeWhile (\<lambda>b. b \<noteq> 44)"] Cons.prems(1,2) by (simp add: split y)
  moreover from this e have "join_codes xs = join_codes ys'" by simp
  with Cons.IH [of ys'] Cons.prems(1,2) have "xs = ys'" by (simp add: y)
  ultimately show ?case by (simp add: y)
qed

lemma merge_codes_eq:
  assumes "\<forall>g \<in> set gs. Cidr g = db (CountryCode g)"
  shows "\<exists>cs. merge_codes l gs = (join_codes cs, map db cs) \<and> set cs \<union> set_option l = CountryCode ` set gs \<union> set_option l \<and>
    set cs \<subseteq> CountryCode ` set gs"
  using assms
proof (induction gs arbitrary: l)
  case (Cons g gs)
  show ?case
  proof (cases "l = Some (CountryCode g)")
    case True
    from Cons.IH [of l] Cons.prems obtain cs where
      cs: "merge_codes l gs = (join_codes cs, map db cs)" "set cs \<union> set_option l = CountryCode ` set gs \<union> set_option l"
        "set cs \<subseteq> CountryCode ` set gs" by auto
    moreover have "set cs \<union> set_option l = CountryCode ` set (g # gs) \<union> set_option l"
      using cs(2) by (simp add: True)
    ultimately show ?thesis using True by (intro exI [of _ cs]) auto
  next
    case False
    from Cons.IH [of "Some (CountryCode g)"] Cons.prems obtain cs where
      cs: "merge_codes (Some (CountryCode g)) gs = (join_codes cs, map db cs)"
        "set cs \<union> {CountryCode g} = CountryCode ` set gs \<union> {CountryCode g}" "set cs \<subseteq> CountryCode ` set gs" by auto
    with False Cons.prems show ?thesis
      by (intro exI [of _ "CountryCode g # cs"]) (auto simp: join_codes_def)
  qed
qed (simp add: join_codes_def)

lemma buildIPSet_ok:
  assumes N: "netipx_ok N" and srt: "\<And>gs. mset (srt gs) = mset gs" and c: "cache_ok N db shared"
    and gs: "\<forall>g \<in> set gs. Cidr g = db (CountryCode g) \<and> no_comma (CountryCode g)" "gs \<noteq> []"
  shows "\<exists>shared' s. buildIPSet N srt shared gs = (shared', Inr (Some s)) \<and> cache_ok N db shared' \<and> set_ok N s \<and>
    (\<forall>a. in_set N s a \<longleftrightarrow> (\<exists>g \<in> set gs. in_cidrs (Cidr g) a))"
proof -
  have "set (srt gs) = set gs" using srt by (metis mset_eq_setD)
  with merge_codes_eq [of "srt gs" db None] gs(1) obtain cs where
    cs: "merge_codes None (srt gs) = (join_codes cs, map db cs)" "set cs = CountryCode ` set gs" by auto
  have nc: "\<forall>c \<in> set cs. no_comma c" using gs(1) cs(2) by auto
  have sets: "(\<exists>c \<in> set cs. in_cidrs (db c) a) \<longleftrightarrow> (\<exists>g \<in> set gs. in_cidrs (Cidr g) a)" for a
    using gs(1) cs(2) by auto
  show ?thesis
  proof (cases "shared (join_codes cs)")
    case (Some s)
    with c nc sets have "set_ok N s" "\<forall>a. in_set N s a \<longleftrightarrow> (\<exists>g \<in> set gs. in_cidrs (Cidr g) a)"
      by (auto simp: cache_ok_def)
    with Some c gs(2) cs(1) show ?thesis by (simp add: buildIPSet_def GetOrCreate_def)
  next
    case None
    obtain s where s: "GeoIPSet_Create N (map db cs) = Inr s" "set_ok N s" "\<And>a. in_set N s a \<longleftrightarrow> in_cidrs (concat (map db cs)) a"
      using GeoIPSet_Create_ok [OF N, of "map db cs"] by blast
    have i: "in_set N s a \<longleftrightarrow> (\<exists>c \<in> set cs. in_cidrs (db c) a)" for a
      by (simp add: s(3)) (auto simp: in_cidrs_def list_ex_iff)
    have "cache_ok N db (shared(join_codes cs \<mapsto> s))" unfolding cache_ok_def
    proof (intro allI impI)
      fix cs' s' assume a: "\<forall>c \<in> set cs'. no_comma c" "(shared(join_codes cs \<mapsto> s)) (join_codes cs') = Some s'"
      show "set_ok N s' \<and> (\<forall>a. in_set N s' a \<longleftrightarrow> (\<exists>c \<in> set cs'. in_cidrs (db c) a))"
      proof (cases "join_codes cs' = join_codes cs")
        case True
        with join_codes_inj [OF a(1) nc] a(2) s(2) i show ?thesis by simp
      next
        case False
        with a c show ?thesis by (simp add: cache_ok_def)
      qed
    qed
    with None gs(2) cs(1) s i sets show ?thesis by (simp add: buildIPSet_def GetOrCreate_def)
  qed
qed

text \<open>What a list of entries says of an address.\<close>

definition geo_spec :: "GeoIP list \<Rightarrow> Addr \<Rightarrow> bool" where
  "geo_spec gs a \<longleftrightarrow>
     (\<exists>g \<in> set gs. CountryCode g = [] \<and> in_cidrs (Cidr g) a \<noteq> ReverseMatch g) \<or>
     (\<exists>g \<in> set gs. CountryCode g \<noteq> [] \<and> \<not> ReverseMatch g \<and> in_cidrs (Cidr g) a) \<or>
     (\<exists>g \<in> set gs. CountryCode g \<noteq> [] \<and> ReverseMatch g) \<and>
     (\<forall>g \<in> set gs. CountryCode g \<noteq> [] \<and> ReverseMatch g \<longrightarrow> \<not> in_cidrs (Cidr g) a)"

lemma split_geoips_ok:
  assumes N: "netipx_ok N"
  shows "\<exists>subs. split_geoips N (map Some gs) = Inr (subs, filter (\<lambda>g. CountryCode g \<noteq> [] \<and> \<not> ReverseMatch g) gs,
      filter (\<lambda>g. CountryCode g \<noteq> [] \<and> ReverseMatch g) gs) \<and> (\<forall>m \<in> set subs. set_ok N (ipset m)) \<and>
    (\<forall>a. (\<exists>m \<in> set subs. matchAddr N m a) \<longleftrightarrow> (\<exists>g \<in> set gs. CountryCode g = [] \<and> in_cidrs (Cidr g) a \<noteq> ReverseMatch g)) \<and>
    (subs = [] \<longleftrightarrow> (\<forall>g \<in> set gs. CountryCode g \<noteq> []))"
proof (induction gs)
  case (Cons g gs)
  obtain s where s: "GeoIPSet_Create N [Cidr g] = Inr s" "set_ok N s" "\<And>a. in_set N s a \<longleftrightarrow> in_cidrs (concat [Cidr g]) a"
    using GeoIPSet_Create_ok [OF N, of "[Cidr g]"] by blast
  from Cons obtain subs where IH: "split_geoips N (map Some gs) = Inr (subs, filter (\<lambda>g. CountryCode g \<noteq> [] \<and> \<not> ReverseMatch g) gs,
      filter (\<lambda>g. CountryCode g \<noteq> [] \<and> ReverseMatch g) gs)" "\<forall>m \<in> set subs. set_ok N (ipset m)"
    "\<forall>a. (\<exists>m \<in> set subs. matchAddr N m a) \<longleftrightarrow> (\<exists>g \<in> set gs. CountryCode g = [] \<and> in_cidrs (Cidr g) a \<noteq> ReverseMatch g)"
    "subs = [] \<longleftrightarrow> (\<forall>g \<in> set gs. CountryCode g \<noteq> [])" by blast
  show ?case
  proof (cases "CountryCode g = []")
    case True
    let ?m = "\<lparr>ipset = s, reverse = ReverseMatch g\<rparr>"
    have "matchAddr N ?m a \<longleftrightarrow> in_cidrs (Cidr g) a \<noteq> ReverseMatch g" for a by (simp add: matchAddr_in_set s(3))
    with True IH s(1,2) show ?thesis by (intro exI [of _ "?m # subs"]) simp
  next
    case False
    with IH show ?thesis by (intro exI [of _ subs]) simp
  qed
qed simp

lemma Build_result:
  assumes N: "netipx_ok N" and ms: "ms \<noteq> []" "\<forall>m \<in> set ms. set_ok N (ipset m)"
  shows "\<exists>m. (case ms of [] \<Rightarrow> (shared, Inl e) | [m] \<Rightarrow> (shared, Inr (Heuristic m)) | ms \<Rightarrow> (shared, Inr (HeuristicMulti ms))) = (shared, Inr m) \<and>
    geo_ok N m \<and> (\<forall>ip. GeoIP_Match N m ip \<longleftrightarrow> (\<exists>a. std_addr ip = Some a \<and> (\<exists>m \<in> set ms. matchAddr N m a)))"
  using ms
  by (cases ms rule: remdups_adj.cases)
    (auto simp: Heuristic_Match_std [OF N] HMulti_Match_std [OF N] list_all_iff)

lemma Build_ok:
  assumes N: "netipx_ok N" and srt: "\<And>gs. mset (srt gs) = mset gs" and c: "cache_ok N db shared"
    and gs: "\<forall>g \<in> set gs. from_db db g" "gs \<noteq> []"
  shows "\<exists>shared' m. BuildOptimizedGeoIPMatcher N srt shared (map Some gs) = (shared', Inr m) \<and> cache_ok N db shared' \<and>
    geo_ok N m \<and> (\<forall>ip. GeoIP_Match N m ip \<longleftrightarrow> (\<exists>a. std_addr ip = Some a \<and> geo_spec gs a))"
proof -
  let ?pos = "filter (\<lambda>g. CountryCode g \<noteq> [] \<and> \<not> ReverseMatch g) gs" and ?neg = "filter (\<lambda>g. CountryCode g \<noteq> [] \<and> ReverseMatch g) gs"
  from split_geoips_ok [OF N, of gs] obtain subs where S: "split_geoips N (map Some gs) = Inr (subs, ?pos, ?neg)"
    "\<forall>m \<in> set subs. set_ok N (ipset m)"
    "\<And>a. (\<exists>m \<in> set subs. matchAddr N m a) \<longleftrightarrow> (\<exists>g \<in> set gs. CountryCode g = [] \<and> in_cidrs (Cidr g) a \<noteq> ReverseMatch g)"
    "subs = [] \<longleftrightarrow> (\<forall>g \<in> set gs. CountryCode g \<noteq> [])" by blast
  have part: "\<exists>shared' s. buildIPSet N srt sh xs = (shared', Inr s) \<and> cache_ok N db shared' \<and> (s = None \<longleftrightarrow> xs = []) \<and>
      (\<forall>s'. s = Some s' \<longrightarrow> set_ok N s' \<and> (\<forall>a. in_set N s' a \<longleftrightarrow> (\<exists>g \<in> set xs. in_cidrs (Cidr g) a)))"
    if "cache_ok N db sh" "xs = ?pos \<or> xs = ?neg" for sh xs
  proof (cases "xs = []")
    case True
    with that show ?thesis by (simp add: buildIPSet_def)
  next
    case False
    have "\<forall>g \<in> set xs. Cidr g = db (CountryCode g) \<and> no_comma (CountryCode g)"
      using that(2) gs(1) by (auto simp: from_db_def)
    from buildIPSet_ok [OF N srt that(1) this False] show ?thesis using False by auto
  qed
  from part [OF c, of ?pos] obtain sh1 s1 where 1: "buildIPSet N srt shared ?pos = (sh1, Inr s1)" "cache_ok N db sh1" "s1 = None \<longleftrightarrow> ?pos = []"
    "\<And>s. s1 = Some s \<Longrightarrow> set_ok N s \<and> (\<forall>a. in_set N s a \<longleftrightarrow> (\<exists>g \<in> set ?pos. in_cidrs (Cidr g) a))" by blast
  from part [OF 1(2), of ?neg] obtain sh2 s2 where 2: "buildIPSet N srt sh1 ?neg = (sh2, Inr s2)" "cache_ok N db sh2" "s2 = None \<longleftrightarrow> ?neg = []"
    "\<And>s. s2 = Some s \<Longrightarrow> set_ok N s \<and> (\<forall>a. in_set N s a \<longleftrightarrow> (\<exists>g \<in> set ?neg. in_cidrs (Cidr g) a))" by blast
  let ?m1 = "case s1 of None \<Rightarrow> [] | Some s \<Rightarrow> [\<lparr>ipset = s, reverse = False\<rparr>]"
  let ?m2 = "case s2 of None \<Rightarrow> [] | Some s \<Rightarrow> [\<lparr>ipset = s, reverse = True\<rparr>]"
  let ?ms = "subs @ ?m1 @ ?m2"
  have ok: "\<forall>m \<in> set ?ms. set_ok N (ipset m)" using S(2) 1(4) 2(4) by (auto split: option.splits)
  have "?ms \<noteq> []" using S(4) 1(3) 2(3) gs(2) by (cases gs) (auto split: option.splits if_splits)
  from Build_result [OF N this ok, where shared = sh2 and e = "ErrMsg ''no valid geoip matcher''"] obtain m where m: "(case ?ms of [] \<Rightarrow> (sh2, Inl (ErrMsg ''no valid geoip matcher''))
      | [m] \<Rightarrow> (sh2, Inr (Heuristic m)) | ms \<Rightarrow> (sh2, Inr (HeuristicMulti ms))) = (sh2, Inr m)"
    "geo_ok N m" "\<And>ip. GeoIP_Match N m ip \<longleftrightarrow> (\<exists>a. std_addr ip = Some a \<and> (\<exists>m \<in> set ?ms. matchAddr N m a))" by blast
  have "(\<exists>m \<in> set ?m1. matchAddr N m a) \<longleftrightarrow> (\<exists>g \<in> set ?pos. in_cidrs (Cidr g) a)" for a
    using 1(3,4) by (auto simp: matchAddr_in_set filter_empty_conv split: option.splits)
  moreover have "(\<exists>m \<in> set ?m2. matchAddr N m a) \<longleftrightarrow> ?neg \<noteq> [] \<and> \<not> (\<exists>g \<in> set ?neg. in_cidrs (Cidr g) a)" for a
    using 2(3,4) by (auto simp: matchAddr_in_set split: option.splits)
  ultimately have "(\<exists>m \<in> set ?ms. matchAddr N m a) \<longleftrightarrow> geo_spec gs a" for a
    unfolding set_append bex_Un S(3) geo_spec_def by (auto simp: filter_empty_conv)
  with m 2(2) have "cache_ok N db sh2 \<and> geo_ok N m \<and> (\<forall>ip. GeoIP_Match N m ip \<longleftrightarrow> (\<exists>a. std_addr ip = Some a \<and> geo_spec gs a))" by simp
  moreover have "BuildOptimizedGeoIPMatcher N srt shared (map Some gs) = (sh2, Inr m)"
    using gs(2) S(1) 1(1) 2(1) m(1) by (simp add: BuildOptimizedGeoIPMatcher_def)
  ultimately show ?thesis by blast
qed

lemma Build_history_ok:
  assumes N: "netipx_ok N" and srt: "\<And>gs. mset (srt gs) = mset gs"
  shows "\<forall>gs \<in> set history. (\<forall>g \<in> set gs. from_db db g) \<Longrightarrow> cache_ok N db shared \<Longrightarrow>
    cache_ok N db (fold (\<lambda>gs sh. fst (BuildOptimizedGeoIPMatcher N srt sh (map Some gs))) history shared)"
proof (induction history arbitrary: shared)
  case (Cons gs history)
  have "cache_ok N db (fst (BuildOptimizedGeoIPMatcher N srt shared (map Some gs)))"
  proof (cases "gs = []")
    case True
    then show ?thesis using Cons.prems(2) by (simp add: BuildOptimizedGeoIPMatcher_def)
  next
    case False
    with Build_ok [OF N srt Cons.prems(2), of gs] Cons.prems(1) show ?thesis by auto
  qed
  with Cons show ?case by simp
qed simp

section \<open>Properties\<close>

text \<open>
  C32: the matcher built for a list of entries answers what the entries say. Whatever matchers were
  built before with the same cache, building succeeds when the networks of a country code come from
  one database; an address matches exactly if it is valid and an entry without code says so, or it is
  in a country of a plain entry, or there are inverted country entries and it is in none of their
  countries. Asking for a list gives true if one address matches, and \<^verbatim>\<open>Matches\<close> only if all do,
  although only one address of each coarse network is looked up.
\<close>

theorem geoip_build:
  assumes "netipx_ok N" "\<And>gs. mset (srt gs) = mset gs" "\<forall>gs' \<in> set (gs # history). \<forall>g \<in> set gs'. from_db db g" "gs \<noteq> []"
  shows "\<exists>shared' m. BuildOptimizedGeoIPMatcher N srt
      (fold (\<lambda>gs sh. fst (BuildOptimizedGeoIPMatcher N srt sh (map Some gs))) history Map.empty) (map Some gs) = (shared', Inr m) \<and>
    (\<forall>ip. GeoIP_Match N m ip \<longleftrightarrow> (\<exists>a. std_addr ip = Some a \<and> geo_spec gs a)) \<and>
    (\<forall>ips. GeoIP_AnyMatch N m ips \<longleftrightarrow> (\<exists>ip \<in> set ips. \<exists>a. std_addr ip = Some a \<and> geo_spec gs a)) \<and>
    (\<forall>ips. GeoIP_Matches N m ips \<longrightarrow> ips \<noteq> [] \<and> (\<forall>ip \<in> set ips. \<exists>a. std_addr ip = Some a \<and> geo_spec gs a))"
proof -
  have "cache_ok N db Map.empty" by (simp add: cache_ok_def)
  from Build_history_ok [OF assms(1,2) _ this, of history] assms(3)
  have "cache_ok N db (fold (\<lambda>gs sh. fst (BuildOptimizedGeoIPMatcher N srt sh (map Some gs))) history Map.empty)" by simp
  from Build_ok [OF assms(1,2) this, of gs] assms(3,4) obtain shared' m where
    m: "BuildOptimizedGeoIPMatcher N srt (fold (\<lambda>gs sh. fst (BuildOptimizedGeoIPMatcher N srt sh (map Some gs))) history Map.empty) (map Some gs) = (shared', Inr m)"
      "geo_ok N m" "\<And>ip. GeoIP_Match N m ip \<longleftrightarrow> (\<exists>a. std_addr ip = Some a \<and> geo_spec gs a)" by auto
  have mo: "order_ok \<lparr>mo_key = \<lambda>_. id, mo_addr = \<lambda>_. id\<rparr>" by (simp add: order_ok_def)
  note any = geoip.any_law [of "(N, \<lparr>mo_key = \<lambda>_. id, mo_addr = \<lambda>_. id\<rparr>, m)"] and all = geoip.all_law [of "(N, \<lparr>mo_key = \<lambda>_. id, mo_addr = \<lambda>_. id\<rparr>, m)"]
  show ?thesis using m any all assms(1) mo
    by (intro exI [of _ shared'] exI [of _ m]) (simp add: list_ex_iff list_all_iff)
qed

text \<open>A list of prefixes is a set in the sense of \<^verbatim>\<open>netipx\<close>.\<close>

definition list_netipx :: "Prefix list netipx" where
  "list_netipx = \<lparr>nx_FromStdIP = std_addr, nx_IPSet = Inr,
     nx_Contains = (\<lambda>s a. list_ex (\<lambda>p. Prefix_Contains p a) (filter Prefix_IsValid s)), nx_Prefixes = filter Prefix_IsValid\<rparr>"

lemma list_netipx_ok: "netipx_ok list_netipx"
  by (auto simp: netipx_ok_def list_netipx_def list_ex_iff)

definition demo_geoips :: "GeoIP list" where
  "demo_geoips =
     [\<lparr>CountryCode = gostr ''CN'', Cidr = [\<lparr>cd_Ip = [1, 2, 0, 0], cd_Prefix = 16\<rparr>], ReverseMatch = False\<rparr>,
      \<lparr>CountryCode = [], Cidr = [\<lparr>cd_Ip = [10, 0, 0, 1], cd_Prefix = 32\<rparr>], ReverseMatch = False\<rparr>]"

theorem geoip_build_witness:
  "\<exists>shared' m. BuildOptimizedGeoIPMatcher list_netipx id Map.empty (map Some demo_geoips) = (shared', Inr m) \<and>
    GeoIP_AnyMatch list_netipx m [[8, 8, 8, 8], [1, 2, 3, 4], [1, 2, 3, 5]]"
proof -
  have "\<forall>gs' \<in> set [demo_geoips]. \<forall>g \<in> set gs'. from_db (\<lambda>_. [\<lparr>cd_Ip = [1, 2, 0, 0], cd_Prefix = 16\<rparr>]) g"
    by (simp add: demo_geoips_def from_db_def)
  moreover have "std_addr [1, 2, 3, 4] = Some (Addr4 [1, 2, 3, 4])" "geo_spec demo_geoips (Addr4 [1, 2, 3, 4])"
    by (simp_all add: std_addr_def To4_def geo_spec_def demo_geoips_def in_cidrs_def cidr_prefix_def AddrFromSlice_def
        Prefix_IsValid_def Prefix_Contains_def addr_bits_def byte_bits_def)
  ultimately show ?thesis
    using geoip_build [OF list_netipx_ok, of id demo_geoips "[]" "\<lambda>_. [\<lparr>cd_Ip = [1, 2, 0, 0], cd_Prefix = 16\<rparr>]"]
    by (fastforce simp: demo_geoips_def)
qed

definition given_order :: map_order where
  "given_order = \<lparr>mo_key = \<lambda>_. id, mo_addr = \<lambda>_. id\<rparr>"

text \<open>A coarse and a fine set that overlap.\<close>

definition uneven_geoips :: "GeoIP list" where
  "uneven_geoips =
     [\<lparr>CountryCode = [], Cidr = [\<lparr>cd_Ip = [1, 2, 0, 0], cd_Prefix = 16\<rparr>], ReverseMatch = False\<rparr>,
      \<lparr>CountryCode = [], Cidr = [\<lparr>cd_Ip = [1, 2, 3, 4], cd_Prefix = 31\<rparr>], ReverseMatch = False\<rparr>]"

text \<open>
  Filtering addresses with a built matcher. If the matchers it consists of are coarse in the same
  families and the addresses differ, \<^verbatim>\<open>FilterIPs\<close> returns, whatever the order of map iteration, and
  every valid address is on one side only, on the first just if it matches. Otherwise an address can
  be counted by two matchers: with a set of a /16 and one of a /31 inside it, filtering the two
  addresses of the latter makes \<^verbatim>\<open>FilterIPs\<close> panic on a negative capacity.
\<close>

theorem geoip_filter_partition:
  "(netipx_ok N \<and> order_ok mo \<and> (\<forall>gs. mset (srt gs) = mset gs) \<and> (\<forall>g \<in> set gs. from_db db g) \<and> gs \<noteq> [] \<and>
     BuildOptimizedGeoIPMatcher N srt Map.empty (map Some gs) = (shared', Inr m) \<and> geo_even m \<and> addrs_distinct ips \<longrightarrow>
     (\<exists>matched unmatched. GeoIP_FilterIPs N mo m ips = Some (matched, unmatched) \<and>
        mset matched = mset (filter (\<lambda>ip. \<exists>a. std_addr ip = Some a \<and> geo_spec gs a) ips) \<and>
        mset unmatched = mset (filter (\<lambda>ip. \<exists>a. std_addr ip = Some a \<and> \<not> geo_spec gs a) ips))) \<and>
   (case BuildOptimizedGeoIPMatcher list_netipx id Map.empty (map Some uneven_geoips) of
      (_, Inr m) \<Rightarrow> GeoIP_AnyMatch list_netipx m [[1, 2, 3, 4], [1, 2, 3, 5]] \<and>
        GeoIP_FilterIPs list_netipx given_order m [[1, 2, 3, 4], [1, 2, 3, 5]] = None
    | (_, Inl e) \<Rightarrow> False)"
proof (rule conjI, rule impI)
  assume a: "netipx_ok N \<and> order_ok mo \<and> (\<forall>gs. mset (srt gs) = mset gs) \<and> (\<forall>g \<in> set gs. from_db db g) \<and> gs \<noteq> [] \<and>
     BuildOptimizedGeoIPMatcher N srt Map.empty (map Some gs) = (shared', Inr m) \<and> geo_even m \<and> addrs_distinct ips"
  then have N: "netipx_ok N" and srt: "\<And>gs. mset (srt gs) = mset gs" by auto
  have "cache_ok N db Map.empty" by (simp add: cache_ok_def)
  from Build_ok [OF N srt this, of gs] a have m: "geo_ok N m"
    "\<And>ip. GeoIP_Match N m ip \<longleftrightarrow> (\<exists>a. std_addr ip = Some a \<and> geo_spec gs a)" by auto
  from geoip.filter_law [of "(N, mo, m)" ips] a m(1) obtain x y where
    r: "GeoIP_FilterIPs N mo m ips = Some (x, y)" "mset x = mset (filter (GeoIP_Match N m) ips)"
      "mset y = mset (filter (\<lambda>ip. std_addr ip \<noteq> None \<and> \<not> GeoIP_Match N m ip) ips)" by auto
  have "filter (\<lambda>ip. std_addr ip \<noteq> None \<and> \<not> GeoIP_Match N m ip) ips = filter (\<lambda>ip. \<exists>a. std_addr ip = Some a \<and> \<not> geo_spec gs a) ips"
    by (intro filter_cong) (auto simp: m(2))
  moreover have "filter (GeoIP_Match N m) ips = filter (\<lambda>ip. \<exists>a. std_addr ip = Some a \<and> geo_spec gs a) ips"
    by (intro filter_cong) (auto simp: m(2))
  ultimately show "\<exists>matched unmatched. GeoIP_FilterIPs N mo m ips = Some (matched, unmatched) \<and>
        mset matched = mset (filter (\<lambda>ip. \<exists>a. std_addr ip = Some a \<and> geo_spec gs a) ips) \<and>
        mset unmatched = mset (filter (\<lambda>ip. \<exists>a. std_addr ip = Some a \<and> \<not> geo_spec gs a) ips)" using r by metis
qed code_simp

theorem geoip_filter_partition_witness:
  "\<exists>shared' m matched unmatched. BuildOptimizedGeoIPMatcher list_netipx id Map.empty (map Some [hd demo_geoips]) = (shared', Inr m) \<and>
    GeoIP_FilterIPs list_netipx given_order m [[8, 8, 8, 8], [1, 2, 3, 4], [1, 2, 3, 5]] = Some (matched, unmatched) \<and>
    mset matched = {#[1, 2, 3, 4], [1, 2, 3, 5]#} \<and> mset unmatched = {#[8, 8, 8, 8]#}"
proof -
  let ?db = "\<lambda>_. [\<lparr>cd_Ip = [1, 2, 0, 0], cd_Prefix = 16\<rparr>]" and ?ips = "[[8, 8, 8, 8], [1, 2, 3, 4], [1, 2, 3, 5]] :: byte list list"
  obtain shared' m where b: "BuildOptimizedGeoIPMatcher list_netipx id Map.empty (map Some [hd demo_geoips]) = (shared', Inr (Heuristic m))"
    by (simp add: BuildOptimizedGeoIPMatcher_def demo_geoips_def buildIPSet_def GetOrCreate_def GeoIPSet_Create_def list_netipx_def Let_def)
  have "from_db ?db (hd demo_geoips)" by (simp add: demo_geoips_def from_db_def)
  moreover have "order_ok given_order" by (simp add: order_ok_def given_order_def)
  moreover have "addrs_distinct ?ips" by (simp add: addrs_distinct_def std_addr_def To4_def)
  moreover have "filter (\<lambda>ip. \<exists>a. std_addr ip = Some a \<and> geo_spec [hd demo_geoips] a) ?ips = [[1, 2, 3, 4], [1, 2, 3, 5]]"
    "filter (\<lambda>ip. \<exists>a. std_addr ip = Some a \<and> \<not> geo_spec [hd demo_geoips] a) ?ips = [[8, 8, 8, 8]]"
    by (simp_all add: std_addr_def To4_def geo_spec_def demo_geoips_def in_cidrs_def cidr_prefix_def AddrFromSlice_def
        Prefix_IsValid_def Prefix_Contains_def addr_bits_def byte_bits_def)
  ultimately show ?thesis
    using b geoip_filter_partition [of list_netipx given_order id "[hd demo_geoips]" ?db shared' "Heuristic m" ?ips] list_netipx_ok
    by (simp del: filter.simps)
qed

end
