(* ===== verification/Str_Matcher.thy ===== *)
theory Str_Matcher
  imports Net_Address "HOL-Library.Sublist" "HOL-Library.Multiset"
begin

text \<open>
  \<^verbatim>\<open>common/strmatcher\<close>, first part: the single matchers (\<^verbatim>\<open>matchers.go\<close>), which are the reference
  for everything else, the group of full matchers (\<^verbatim>\<open>full_matcher.go\<close>), the label tree for domain
  matchers (\<^verbatim>\<open>domain_matcher.go\<close>) and the group that combines them (\<^verbatim>\<open>strmatcher.go\<close>). Go's
  \<^verbatim>\<open>regexp\<close> package is a parameter: compiling a pattern gives an error or a predicate on strings.
\<close>

section \<open>strmatcher.go, matchers.go: types and single matchers\<close>

text \<open>\<^verbatim>\<open>Type\<close> is a byte with four named values; \<open>OtherType\<close> stands for the rest.\<close>

datatype Type = Full | Substr | Domain | Regex | OtherType byte

datatype Matcher =
    fullMatcher gostring
  | substrMatcher gostring
  | domainMatcher gostring
  | regexMatcher gostring "gostring \<Rightarrow> bool"

abbreviation dot :: byte where "dot \<equiv> 46"

fun Matcher_Match :: "Matcher \<Rightarrow> gostring \<Rightarrow> bool" where
  "Matcher_Match (fullMatcher m) s \<longleftrightarrow> m = s"
| "Matcher_Match (substrMatcher m) s \<longleftrightarrow> sublist m s"
| "Matcher_Match (domainMatcher m) s \<longleftrightarrow>
     suffix m s \<and> (length s = length m \<or> s ! (length s - length m - 1) = dot)"
| "Matcher_Match (regexMatcher m pattern) s \<longleftrightarrow> pattern s"

fun Matcher_String :: "Matcher \<Rightarrow> gostring" where
  "Matcher_String (fullMatcher m) = gostr ''full:'' @ m"
| "Matcher_String (substrMatcher m) = gostr ''keyword:'' @ m"
| "Matcher_String (domainMatcher m) = gostr ''domain:'' @ m"
| "Matcher_String (regexMatcher m pattern) = gostr ''regexp:'' @ m"

fun Type_New :: "(gostring \<Rightarrow> goerr + (gostring \<Rightarrow> bool)) \<Rightarrow> Type \<Rightarrow> gostring \<Rightarrow> goerr + Matcher" where
  "Type_New compile Full pattern = Inr (fullMatcher pattern)"
| "Type_New compile Substr pattern = Inr (substrMatcher pattern)"
| "Type_New compile Domain pattern = Inr (domainMatcher pattern)"
| "Type_New compile Regex pattern =
     (case compile pattern of Inl e \<Rightarrow> Inl e | Inr r \<Rightarrow> Inr (regexMatcher pattern r))"
| "Type_New compile (OtherType b) pattern = Inl (ErrMsg ''unk type'')"

section \<open>full_matcher.go\<close>

text \<open>The nil map of an empty group behaves as the empty map.\<close>

record FullMatcherGroup =
  matchers :: "gostring \<rightharpoonup> u32 list"

definition FullMatcherGroup_Add :: "FullMatcherGroup \<Rightarrow> gostring \<Rightarrow> u32 \<Rightarrow> FullMatcherGroup" where
  "FullMatcherGroup_Add g domain v =
     g\<lparr>matchers := (matchers g)
        (domain \<mapsto> (case matchers g domain of None \<Rightarrow> [] | Some vs \<Rightarrow> vs) @ [v])\<rparr>"

definition FullMatcherGroup_Match :: "FullMatcherGroup \<Rightarrow> gostring \<Rightarrow> u32 list" where
  "FullMatcherGroup_Match g str = (case matchers g str of None \<Rightarrow> [] | Some vs \<Rightarrow> vs)"

section \<open>domain_matcher.go\<close>

definition breakDomain :: "gostring \<Rightarrow> gostring list" where
  "breakDomain domain = split_on dot domain"

datatype node = Node (nvalues: "u32 list") (sub: "gostring \<rightharpoonup> node")

abbreviation new_node :: node where "new_node \<equiv> Node [] (\<lambda>_. None)"

record DomainMatcherGroup =
  root :: "node option"

text \<open>The loop that walks down from the last label, making the nodes that are missing.\<close>

fun node_add :: "node \<Rightarrow> gostring list \<Rightarrow> u32 \<Rightarrow> node" where
  "node_add (Node vs sb) [] v = Node (vs @ [v]) sb"
| "node_add (Node vs sb) (part # parts) v =
     Node vs (sb(part \<mapsto> node_add (case sb part of None \<Rightarrow> new_node | Some n \<Rightarrow> n) parts v))"

definition DomainMatcherGroup_Add :: "DomainMatcherGroup \<Rightarrow> gostring \<Rightarrow> u32 \<Rightarrow> DomainMatcherGroup" where
  "DomainMatcherGroup_Add g domain v =
     (let r = (case root g of None \<Rightarrow> new_node | Some n \<Rightarrow> n)
      in g\<lparr>root := Some (node_add r (rev (breakDomain domain)) v)\<rparr>)"

text \<open>The closure \<^verbatim>\<open>nextPart\<close>: the last dot before index \<open>idx\<close>, or -1.\<close>

fun nextPart :: "gostring \<Rightarrow> nat \<Rightarrow> int" where
  "nextPart domain 0 = -1"
| "nextPart domain (Suc i) = (if domain ! i = dot then int i else nextPart domain i)"

lemma nextPart_range: "-1 \<le> nextPart d i \<and> nextPart d i < int i"
  by (induction i) auto

text \<open>The loop of \<^verbatim>\<open>Match\<close>: it answers the values of the nodes it passes, in that order.\<close>

function match_loop :: "gostring \<Rightarrow> node \<Rightarrow> int \<Rightarrow> u32 list list" where
  "match_loop domain current idx =
     (if idx < 0 then []
      else let nidx = nextPart domain (nat idx);
               part = take (nat (idx - (nidx + 1))) (drop (nat (nidx + 1)) domain)
           in case sub current part of
                None \<Rightarrow> []
              | Some n \<Rightarrow>
                  (if nvalues n \<noteq> [] then [nvalues n] else []) @ match_loop domain n nidx)"
  by pat_completeness auto
termination
proof (relation "measure (\<lambda>(domain, current, idx). nat (idx + 1))")
  fix domain :: gostring and current n :: node and idx nidx :: int and part :: gostring
  assume "\<not> idx < 0" "nidx = nextPart domain (nat idx)"
  with nextPart_range [of domain "nat idx"]
  show "((domain, n, nidx), domain, current, idx) \<in> measure (\<lambda>(domain, current, idx). nat (idx + 1))"
    by simp
qed simp

declare match_loop.simps [simp del]

definition DomainMatcherGroup_Match :: "DomainMatcherGroup \<Rightarrow> gostring \<Rightarrow> u32 list" where
  "DomainMatcherGroup_Match g domain =
     (if domain = [] then []
      else case root g of
             None \<Rightarrow> []
           | Some current \<Rightarrow>
               (case match_loop domain current (int (length domain)) of
                  [] \<Rightarrow> []
                | [m] \<Rightarrow> m
                | matches \<Rightarrow> concat (rev matches)))"

section \<open>strmatcher.go: the group of all matchers\<close>

record matcherEntry =
  entry_m :: Matcher
  entry_id :: u32

record MatcherGroup =
  g_count :: u32
  g_full :: FullMatcherGroup
  g_domain :: DomainMatcherGroup
  g_other :: "matcherEntry list"

text \<open>The zero value: an empty group.\<close>

definition empty_group :: MatcherGroup where
  "empty_group = \<lparr>g_count = 0, g_full = \<lparr>matchers = Map.empty\<rparr>, g_domain = \<lparr>root = None\<rparr>, g_other = []\<rparr>"

definition MatcherGroup_Add :: "MatcherGroup \<Rightarrow> Matcher \<Rightarrow> MatcherGroup \<times> u32" where
  "MatcherGroup_Add g m =
     (let c = g_count g + 1; g1 = g\<lparr>g_count := c\<rparr>
      in (case m of
            fullMatcher p \<Rightarrow> g1\<lparr>g_full := FullMatcherGroup_Add (g_full g1) p c\<rparr>
          | domainMatcher p \<Rightarrow> g1\<lparr>g_domain := DomainMatcherGroup_Add (g_domain g1) p c\<rparr>
          | _ \<Rightarrow> g1\<lparr>g_other := g_other g1 @ [\<lparr>entry_m = m, entry_id = c\<rparr>]\<rparr>, c))"

definition MatcherGroup_Match :: "MatcherGroup \<Rightarrow> gostring \<Rightarrow> u32 list" where
  "MatcherGroup_Match g pattern =
     FullMatcherGroup_Match (g_full g) pattern @ DomainMatcherGroup_Match (g_domain g) pattern @
     map entry_id (filter (\<lambda>e. Matcher_Match (entry_m e) pattern) (g_other g))"

definition MatcherGroup_Size :: "MatcherGroup \<Rightarrow> u32" where
  "MatcherGroup_Size g = g_count g"

text \<open>A group made by adding the matchers of a list one after the other.\<close>

definition group_of :: "Matcher list \<Rightarrow> MatcherGroup" where
  "group_of ms = foldl (\<lambda>g m. fst (MatcherGroup_Add g m)) empty_group ms"

section \<open>Labels\<close>

lemma split_on_nonempty [simp]: "split_on d s \<noteq> []" "[] \<noteq> split_on d s"
  by (cases s; auto split: list.splits)+

lemma split_on_append: "split_on d (a @ d # b) = split_on d a @ split_on d b"
  by (induction a) (auto split: list.splits simp: neq_Nil_conv)

lemma split_on_single: "d \<notin> set a \<Longrightarrow> split_on d a = [a]"
  by (induction a) auto

lemma split_on_dest:
  "split_on d s = xs @ ys \<Longrightarrow> xs \<noteq> [] \<Longrightarrow> ys \<noteq> [] \<Longrightarrow>
   \<exists>a b. s = a @ d # b \<and> split_on d a = xs \<and> split_on d b = ys"
proof (induction s arbitrary: xs)
  case (Cons c s)
  show ?case
  proof (cases "c = d")
    case True
    with Cons.prems obtain xs' where xs: "xs = [] # xs'" "split_on d s = xs' @ ys"
      by (cases xs) auto
    show ?thesis
    proof (cases "xs' = []")
      case True
      with xs \<open>c = d\<close> show ?thesis by (intro exI [of _ "[]"] exI [of _ s]) auto
    next
      case False
      with Cons.IH [of xs'] xs Cons.prems obtain a b
        where "s = a @ d # b" "split_on d a = xs'" "split_on d b = ys" by auto
      with xs \<open>c = d\<close> show ?thesis by (intro exI [of _ "c # a"] exI [of _ b]) auto
    qed
  next
    case False
    obtain p ps where s: "split_on d s = p # ps" by (cases "split_on d s") auto
    with False Cons.prems obtain xs' where xs: "xs = (c # p) # xs'" "ps = xs' @ ys"
      by (cases xs) auto
    with Cons.IH [of "p # xs'"] s Cons.prems obtain a b
      where "s = a @ d # b" "split_on d a = p # xs'" "split_on d b = ys" by auto
    with xs False show ?thesis by (intro exI [of _ "c # a"] exI [of _ b]) auto
  qed
qed (simp add: Cons_eq_append_conv)

lemma split_on_inj: "split_on d s = split_on d t \<Longrightarrow> s = t"
proof (induction s arbitrary: t)
  case Nil
  then show ?case by (cases t) (auto split: if_splits list.splits)
next
  case (Cons c s)
  then show ?case
    by (cases t) (auto split: if_splits list.splits)
qed

lemma suffix_split_on: "suffix (split_on d p) (split_on d s) \<longleftrightarrow> s = p \<or> suffix (d # p) s"
proof
  assume "suffix (split_on d p) (split_on d s)"
  then obtain xs where xs: "split_on d s = xs @ split_on d p" by (auto simp: suffix_def)
  show "s = p \<or> suffix (d # p) s"
  proof (cases "xs = []")
    case True
    with xs show ?thesis by (auto dest: split_on_inj)
  next
    case False
    with split_on_dest [OF xs] obtain a b where "s = a @ d # b" "split_on d b = split_on d p" by auto
    then show ?thesis by (auto dest: split_on_inj simp: suffix_def)
  qed
next
  assume "s = p \<or> suffix (d # p) s"
  then show "suffix (split_on d p) (split_on d s)"
    by (auto simp: suffix_def split_on_append)
qed

text \<open>The reference matcher, by labels.\<close>

lemma domainMatcher_labels:
  "Matcher_Match (domainMatcher p) s \<longleftrightarrow> prefix (rev (breakDomain p)) (rev (breakDomain s))"
proof -
  have "Matcher_Match (domainMatcher p) s \<longleftrightarrow> s = p \<or> suffix (dot # p) s"
  proof
    assume "Matcher_Match (domainMatcher p) s"
    then obtain a where s: "s = a @ p" and d: "a = [] \<or> s ! (length a - 1) = dot"
      by (auto simp: suffix_def)
    show "s = p \<or> suffix (dot # p) s"
    proof (cases a rule: rev_cases)
      case (snoc a' x)
      with s d have "x = dot" by (simp add: nth_append)
      with s snoc show ?thesis by (auto simp: suffix_def)
    qed (use s in simp)
  next
    assume "s = p \<or> suffix (dot # p) s"
    then show "Matcher_Match (domainMatcher p) s" by (auto simp: suffix_def nth_append)
  qed
  then show ?thesis by (simp add: breakDomain_def suffix_split_on flip: suffix_to_prefix)
qed

section \<open>The label tree\<close>

text \<open>What \<^verbatim>\<open>Match\<close> collects, by labels instead of indices.\<close>

fun tree_walk :: "node \<Rightarrow> gostring list \<Rightarrow> u32 list list" where
  "tree_walk n [] = []"
| "tree_walk n (part # parts) =
     (case sub n part of
        None \<Rightarrow> []
      | Some m \<Rightarrow> (if nvalues m \<noteq> [] then [nvalues m] else []) @ tree_walk m parts)"

lemma nextPart_append:
  "nextPart (s @ rest) (length s) = (if dot \<in> set s then nextPart s (length s) else -1)"
proof -
  have "i \<le> length s \<Longrightarrow> nextPart (s @ rest) i = nextPart s i" for i
    by (induction i) (auto simp: nth_append)
  moreover have "i \<le> length s \<Longrightarrow> dot \<notin> set s \<Longrightarrow> nextPart s i = -1" for i
    by (induction i) (auto simp: in_set_conv_nth)
  ultimately show ?thesis by auto
qed

lemma nextPart_last_dot: "dot \<notin> set b \<Longrightarrow> nextPart (a @ dot # b) (length (a @ dot # b)) = int (length a)"
proof (induction b rule: rev_induct)
  case Nil
  then show ?case by (simp add: nth_append)
next
  case (snoc c b)
  then show ?case
    using nextPart_append [of "a @ dot # b" "[c]"] by (simp add: nth_append)
qed

lemma split_last_dot:
  assumes "dot \<in> set s"
  obtains a b where "s = a @ dot # b" "dot \<notin> set b"
  using split_list_last [OF assms] by blast

lemma match_loop_walk:
  "match_loop (s @ rest) n (int (length s)) = tree_walk n (rev (breakDomain s))"
proof (induction "length s" arbitrary: s rest n rule: less_induct)
  case less
  show ?case
  proof (cases "dot \<in> set s")
    case True
    then obtain a b where s: "s = a @ dot # b" "dot \<notin> set b" by (rule split_last_dot)
    have np: "nextPart (s @ rest) (length s) = int (length a)"
      using nextPart_last_dot [OF s(2), of a] nextPart_append [of s rest] True s(1) by simp
    have part: "drop (nat (int (length a) + 1)) s = b" using s(1) by (simp add: nat_add_distrib)
    have IH: "match_loop (s @ rest) m (int (length a)) = tree_walk m (rev (breakDomain a))" for m
      using less [of a "dot # b @ rest" m] s(1) by simp
    have "breakDomain s = breakDomain a @ [b]"
      using s by (simp add: breakDomain_def split_on_append split_on_single)
    then show ?thesis
      by (subst match_loop.simps) (simp add: np part IH Let_def split: option.split)
  next
    case False
    then have "breakDomain s = [s]" by (simp add: breakDomain_def split_on_single)
    moreover have "nextPart (s @ rest) (length s) = -1" using False by (simp add: nextPart_append)
    moreover have "match_loop (s @ rest) m (-1) = []" for m by (subst match_loop.simps) simp
    ultimately show ?thesis
      by (subst match_loop.simps) (simp add: Let_def split: option.split)
  qed
qed

lemma DomainMatcherGroup_Match_walk:
  "DomainMatcherGroup_Match g s =
     (if s = [] then []
      else case root g of None \<Rightarrow> [] | Some n \<Rightarrow> concat (rev (tree_walk n (rev (breakDomain s)))))"
  using match_loop_walk [of s "[]"]
  by (auto simp: DomainMatcherGroup_Match_def split: option.split list.split)

lemma tree_walk_new [simp]: "tree_walk new_node ps = []"
  by (cases ps) auto

lemma nvalues_node_add: "nvalues (node_add n qs v) = nvalues n @ (if qs = [] then [v] else [])"
  by (cases n; cases qs) auto

lemma mset_concat_rev: "mset (concat (rev xss)) = mset (concat xss)"
  by (induction xss) auto

lemma tree_walk_add:
  "mset (concat (tree_walk (node_add n qs v) ps)) =
   mset (concat (tree_walk n ps)) + (if qs \<noteq> [] \<and> prefix qs ps then {#v#} else {#})"
proof (induction qs arbitrary: n ps)
  case Nil
  then show ?case by (cases n; cases ps) auto
next
  case (Cons q qs)
  obtain vs sb where n: "n = Node vs sb" by (cases n)
  show ?case
  proof (cases ps)
    case (Cons p ps')
    show ?thesis
    proof (cases "p = q")
      case True
      define m where "m = (case sb q of None \<Rightarrow> new_node | Some n \<Rightarrow> n)"
      have concat_walk: "concat ((if us \<noteq> [] then [us] else []) @ w) = us @ concat w" for us :: "u32 list" and w
        by simp
      have old: "concat (tree_walk n ps) = nvalues m @ concat (tree_walk m ps')"
        unfolding Cons n m_def using True by (auto split: option.split)
      have new: "concat (tree_walk (node_add n (q # qs) v) ps) =
          nvalues (node_add m qs v) @ concat (tree_walk (node_add m qs v) ps')"
        unfolding Cons n m_def [symmetric] using True by (simp add: m_def [symmetric])
      show ?thesis unfolding old new using Cons.IH [of m ps'] True Cons
        by (auto simp: nvalues_node_add)
    qed (use n Cons in simp)
  qed simp
qed

text \<open>The values stored under a path of labels, and the order in which a walk meets them: a node
  further down the tree has more labels.\<close>

fun values_at :: "node \<Rightarrow> gostring list \<Rightarrow> u32 list" where
  "values_at n [] = nvalues n"
| "values_at n (p # ps) = (case sub n p of None \<Rightarrow> [] | Some m \<Rightarrow> values_at m ps)"

lemma values_at_new [simp]: "values_at new_node ps = []"
  by (cases ps) auto

lemma values_at_add:
  "values_at (node_add n qs v) ps = values_at n ps @ (if ps = qs then [v] else [])"
proof (induction qs arbitrary: n ps)
  case Nil
  then show ?case by (cases n; cases ps) (auto split: option.split)
next
  case (Cons q qs)
  then show ?case by (cases n; cases ps) (auto split: option.split)
qed

definition placed :: "(u32 \<Rightarrow> gostring list) \<Rightarrow> node \<Rightarrow> gostring list \<Rightarrow> bool" where
  "placed f n path \<longleftrightarrow> (\<forall>qs. \<forall>v \<in> set (values_at n qs). f v = path @ qs)"

lemma placed_sub: "placed f n path \<Longrightarrow> sub n p = Some m \<Longrightarrow> placed f m (path @ [p])"
  unfolding placed_def by (auto dest: spec [of _ "p # _"])

lemma placed_own: "placed f n path \<Longrightarrow> v \<in> set (nvalues n) \<Longrightarrow> f v = path"
  unfolding placed_def by (auto dest: spec [of _ "[]"])

lemma tree_walk_deeper:
  "placed f n path \<Longrightarrow> v \<in> set (concat (tree_walk n ps)) \<Longrightarrow> length path < length (f v)"
proof (induction ps arbitrary: n path)
  case (Cons p ps)
  from Cons.prems(2) obtain m where m: "sub n p = Some m" by (cases "sub n p") auto
  from Cons.prems(2) m have "v \<in> set (nvalues m) \<or> v \<in> set (concat (tree_walk m ps))"
    by (auto split: if_splits)
  then show ?case
  proof
    assume "v \<in> set (nvalues m)"
    with placed_own [OF placed_sub [OF Cons.prems(1) m]] show ?thesis by simp
  next
    assume "v \<in> set (concat (tree_walk m ps))"
    from Cons.IH [OF placed_sub [OF Cons.prems(1) m] this] show ?thesis by simp
  qed
qed simp

lemma tree_walk_ranked:
  "placed f n path \<Longrightarrow> sorted_wrt (\<lambda>a b. length (f b) \<le> length (f a)) (concat (rev (tree_walk n ps)))"
proof (induction ps arbitrary: n path)
  case (Cons p ps)
  show ?case
  proof (cases "sub n p")
    case (Some m)
    note pl = placed_sub [OF Cons.prems Some]
    have "sorted_wrt (\<lambda>a b. length (f b) \<le> length (f a)) (nvalues m)"
      using placed_own [OF pl] by (auto simp: sorted_wrt_iff_nth_less)
    moreover have "length (f b) \<le> length (f a)"
      if "a \<in> set (concat (tree_walk m ps))" "b \<in> set (nvalues m)" for a b
      using tree_walk_deeper [OF pl that(1)] placed_own [OF pl that(2)] by simp
    ultimately show ?thesis
      using Some Cons.IH [OF pl] by (auto simp: sorted_wrt_append)
  qed simp
qed simp

section \<open>Groups as indexes\<close>

text \<open>
  What the combined group relies on: a group finds, for a string, the numbers of the patterns that
  match it, each as often as it was added.
\<close>

locale index_group =
  fixes empty :: 'g
    and add :: "'g \<Rightarrow> gostring \<Rightarrow> u32 \<Rightarrow> 'g"
    and find :: "'g \<Rightarrow> gostring \<Rightarrow> u32 list"
    and matches :: "gostring \<Rightarrow> gostring \<Rightarrow> bool"
  assumes find_empty: "find empty s = []"
    and find_add: "mset (find (add g p v) s) = mset (find g s) + (if matches p s then {#v#} else {#})"
begin

lemma find_all:
  "mset (find (foldl (\<lambda>g (p, v). add g p v) empty pvs) s) =
   mset (map snd (filter (\<lambda>(p, v). matches p s) pvs))"
  by (induction pvs rule: rev_induct) (auto simp: find_empty find_add)

end

interpretation full_group: index_group "\<lparr>matchers = Map.empty\<rparr>" FullMatcherGroup_Add FullMatcherGroup_Match
    "\<lambda>p s. Matcher_Match (fullMatcher p) s"
  by unfold_locales (auto simp: FullMatcherGroup_Match_def FullMatcherGroup_Add_def split: option.split)

interpretation domain_group: index_group "\<lparr>root = None\<rparr>" DomainMatcherGroup_Add DomainMatcherGroup_Match
    "\<lambda>p s. s \<noteq> [] \<and> Matcher_Match (domainMatcher p) s"
proof
  fix g p v s
  show "mset (DomainMatcherGroup_Match (DomainMatcherGroup_Add g p v) s) =
      mset (DomainMatcherGroup_Match g s) +
      (if s \<noteq> [] \<and> Matcher_Match (domainMatcher p) s then {#v#} else {#})"
    unfolding domainMatcher_labels
    by (auto simp: DomainMatcherGroup_Match_walk DomainMatcherGroup_Add_def mset_concat_rev tree_walk_add
        breakDomain_def split: option.split)
qed (simp add: DomainMatcherGroup_Match_def)

section \<open>The combined group\<close>

definition numbered :: "Matcher list \<Rightarrow> (Matcher \<times> u32) list" where
  "numbered ms = zip ms (map (\<lambda>i. of_nat (Suc i)) [0..<length ms])"

lemma numbered_snoc [simp]:
  "numbered [] = []" "numbered (ms @ [m]) = numbered ms @ [(m, of_nat (Suc (length ms)))]"
  by (simp_all add: numbered_def)

fun full_of :: "Matcher \<times> u32 \<Rightarrow> (gostring \<times> u32) list" where
  "full_of (fullMatcher p, v) = [(p, v)]"
| "full_of _ = []"

fun domain_of :: "Matcher \<times> u32 \<Rightarrow> (gostring \<times> u32) list" where
  "domain_of (domainMatcher p, v) = [(p, v)]"
| "domain_of _ = []"

fun other_of :: "Matcher \<times> u32 \<Rightarrow> matcherEntry list" where
  "other_of (fullMatcher p, v) = []"
| "other_of (domainMatcher p, v) = []"
| "other_of (m, v) = [\<lparr>entry_m = m, entry_id = v\<rparr>]"

lemma group_of_parts:
  "g_count (group_of ms) = of_nat (length ms)"
  "g_full (group_of ms) =
     foldl (\<lambda>g (p, v). FullMatcherGroup_Add g p v) \<lparr>matchers = Map.empty\<rparr> (concat (map full_of (numbered ms)))"
  "g_domain (group_of ms) =
     foldl (\<lambda>g (p, v). DomainMatcherGroup_Add g p v) \<lparr>root = None\<rparr> (concat (map domain_of (numbered ms)))"
  "g_other (group_of ms) = concat (map other_of (numbered ms))"
proof -
  have "g_count (group_of ms) = of_nat (length ms) \<and>
    g_full (group_of ms) =
      foldl (\<lambda>g (p, v). FullMatcherGroup_Add g p v) \<lparr>matchers = Map.empty\<rparr> (concat (map full_of (numbered ms))) \<and>
    g_domain (group_of ms) =
      foldl (\<lambda>g (p, v). DomainMatcherGroup_Add g p v) \<lparr>root = None\<rparr> (concat (map domain_of (numbered ms))) \<and>
    g_other (group_of ms) = concat (map other_of (numbered ms))"
  proof (induction ms rule: rev_induct)
    case Nil
    then show ?case by (simp add: group_of_def empty_group_def)
  next
    case (snoc m ms)
    have "group_of (ms @ [m]) = fst (MatcherGroup_Add (group_of ms) m)" by (simp add: group_of_def)
    with snoc show ?case by (cases m) (simp_all add: MatcherGroup_Add_def Let_def add.commute)
  qed
  then show "g_count (group_of ms) = of_nat (length ms)"
    "g_full (group_of ms) =
      foldl (\<lambda>g (p, v). FullMatcherGroup_Add g p v) \<lparr>matchers = Map.empty\<rparr> (concat (map full_of (numbered ms)))"
    "g_domain (group_of ms) =
      foldl (\<lambda>g (p, v). DomainMatcherGroup_Add g p v) \<lparr>root = None\<rparr> (concat (map domain_of (numbered ms)))"
    "g_other (group_of ms) = concat (map other_of (numbered ms))"
    by blast+
qed

text \<open>The one string on which the label tree and the domain matcher differ is the empty one.\<close>

lemma group_match_mset:
  assumes "s \<noteq> [] \<or> domainMatcher [] \<notin> set ms"
  shows "mset (MatcherGroup_Match (group_of ms) s) =
    mset (map snd (filter (\<lambda>(m, v). Matcher_Match m s) (numbered ms)))"
proof -
  have parts: "mset (MatcherGroup_Match (group_of ms) s) =
      mset (map snd (filter (\<lambda>(p, v). Matcher_Match (fullMatcher p) s) (concat (map full_of (numbered ms))))) +
      mset (map snd (filter (\<lambda>(p, v). s \<noteq> [] \<and> Matcher_Match (domainMatcher p) s) (concat (map domain_of (numbered ms))))) +
      mset (map entry_id (filter (\<lambda>e. Matcher_Match (entry_m e) s) (concat (map other_of (numbered ms)))))"
    unfolding MatcherGroup_Match_def group_of_parts
    by (simp only: mset_append full_group.find_all domain_group.find_all add.assoc)
  have "set ps \<subseteq> set (numbered ms) \<Longrightarrow>
      mset (map snd (filter (\<lambda>(p, v). Matcher_Match (fullMatcher p) s) (concat (map full_of ps)))) +
      mset (map snd (filter (\<lambda>(p, v). s \<noteq> [] \<and> Matcher_Match (domainMatcher p) s) (concat (map domain_of ps)))) +
      mset (map entry_id (filter (\<lambda>e. Matcher_Match (entry_m e) s) (concat (map other_of ps)))) =
      mset (map snd (filter (\<lambda>(m, v). Matcher_Match m s) ps))" for ps
  proof (induction ps)
    case (Cons x ps)
    obtain m v where x: "x = (m, v)" by (cases x)
    with Cons.prems have "m \<in> set ms" by (auto simp: numbered_def dest: set_zip_leftD)
    with assms have "\<not> (s = [] \<and> m = domainMatcher [])" by auto
    with Cons x show ?case by (cases m) (auto simp: suffix_def)
  qed simp
  with parts show ?thesis by simp
qed

lemma set_numbered: "set (numbered ms) = {(ms ! i, of_nat (Suc i)) | i. i < length ms}"
  by (auto simp: numbered_def set_zip simp del: of_nat_Suc)

lemma numbered_distinct: "length ms < 2 ^ 32 \<Longrightarrow> distinct (map snd (numbered ms))"
proof -
  assume "length ms < 2 ^ 32"
  then have "inj_on (\<lambda>i. of_nat (Suc i) :: u32) {0..<length ms}"
    by (auto intro!: inj_onI simp: word_of_nat_eq_iff take_bit_nat_eq_self)
  then show ?thesis by (simp add: numbered_def distinct_map)
qed

text \<open>Every number stored in the label tree of a group stands where the labels of its pattern say.\<close>

definition pattern_of :: "Matcher list \<Rightarrow> u32 \<Rightarrow> gostring" where
  "pattern_of ms v = (case ms ! (unat v - 1) of domainMatcher p \<Rightarrow> p | _ \<Rightarrow> [])"

lemma placed_add:
  "placed f n [] \<Longrightarrow> f v = qs \<Longrightarrow> placed f (node_add n qs v) []"
  by (auto simp: placed_def values_at_add)

lemma group_tree_placed:
  assumes "\<And>p v. (p, v) \<in> set pvs \<Longrightarrow> f v = rev (breakDomain p)"
  shows "case root (foldl (\<lambda>g (p, v). DomainMatcherGroup_Add g p v) \<lparr>root = None\<rparr> pvs) of
    None \<Rightarrow> True | Some n \<Rightarrow> placed f n []"
  using assms
proof (induction pvs rule: rev_induct)
  case (snoc x pvs)
  have "placed f new_node []" by (simp add: placed_def)
  with snoc show ?case
    by (cases x) (auto simp: DomainMatcherGroup_Add_def Let_def intro!: placed_add split: option.splits)
qed simp

lemma pattern_of_numbered:
  assumes "length ms < 2 ^ 32" "(domainMatcher p, v) \<in> set (numbered ms)"
  shows "pattern_of ms v = p"
proof -
  from assms(2) obtain i where i: "i < length ms" "ms ! i = domainMatcher p" "v = of_nat (Suc i)"
    by (auto simp: numbered_def in_set_zip)
  from i assms(1) have "unat v = Suc i" by (simp add: unat_of_nat take_bit_nat_eq_self del: of_nat_Suc)
  with i show ?thesis by (simp add: pattern_of_def)
qed

lemma domain_match_ranked:
  assumes "length ms < 2 ^ 32"
  shows "sorted_wrt (\<lambda>a b. length (breakDomain (pattern_of ms b)) \<le> length (breakDomain (pattern_of ms a)))
    (DomainMatcherGroup_Match (g_domain (group_of ms)) s)"
proof -
  define f where "f v = rev (breakDomain (pattern_of ms v))" for v
  have "f v = rev (breakDomain p)" if "(p, v) \<in> set (concat (map domain_of (numbered ms)))" for p v
  proof -
    from that obtain x where x: "x \<in> set (numbered ms)" "(p, v) \<in> set (domain_of x)" by auto
    from x(2) have "x = (domainMatcher p, v)" by (cases x rule: domain_of.cases) auto
    with x(1) pattern_of_numbered [OF assms] show ?thesis by (simp add: f_def)
  qed
  from group_tree_placed [of "concat (map domain_of (numbered ms))" f, OF this]
  have "case root (g_domain (group_of ms)) of None \<Rightarrow> True | Some n \<Rightarrow> placed f n []"
    by (simp add: group_of_parts)
  then show ?thesis
    using tree_walk_ranked [of f _ "[]" "rev (breakDomain s)"]
    by (auto simp: DomainMatcherGroup_Match_walk f_def split: option.splits)
qed

text \<open>
  A group of matchers answers, for every non-empty string, exactly the numbers of the added
  matchers that match it, each once, although full and domain matchers are not tried one by one but
  looked up in a map and in a tree of labels; numbers count from 1 in the order of adding. Among the
  domain matchers the more specific ones come first.
\<close>

theorem matcher_group_equiv:
  assumes "length ms < 2 ^ 32" and "s \<noteq> [] \<or> domainMatcher [] \<notin> set ms"
  shows "set (MatcherGroup_Match (group_of ms) s) =
      {of_nat (Suc i) | i. i < length ms \<and> Matcher_Match (ms ! i) s} \<and>
    distinct (MatcherGroup_Match (group_of ms) s) \<and>
    sorted_wrt (\<lambda>a b. length (breakDomain (pattern_of ms b)) \<le> length (breakDomain (pattern_of ms a)))
      (DomainMatcherGroup_Match (g_domain (group_of ms)) s)"
proof (intro conjI domain_match_ranked [OF assms(1)])
  note m = group_match_mset [OF assms(2)]
  have "set (MatcherGroup_Match (group_of ms) s) = snd ` {x \<in> set (numbered ms). Matcher_Match (fst x) s}"
    using arg_cong [OF m, of set_mset] by (simp add: case_prod_beta)
  then show "set (MatcherGroup_Match (group_of ms) s) =
      {of_nat (Suc i) | i. i < length ms \<and> Matcher_Match (ms ! i) s}"
    unfolding set_numbered by (auto simp del: of_nat_Suc simp: image_iff) blast
  have "distinct (map snd (filter (\<lambda>(m, v). Matcher_Match m s) (numbered ms)))"
    by (rule distinct_map_filter [OF numbered_distinct [OF assms(1)]])
  with m show "distinct (MatcherGroup_Match (group_of ms) s)" using mset_eq_imp_distinct_iff by blast
qed

theorem matcher_group_equiv_witness:
  "distinct (MatcherGroup_Match (group_of [domainMatcher (gostr ''org''), substrMatcher (gostr ''x''),
      domainMatcher (gostr ''a.org''), fullMatcher (gostr ''b.a.org'')]) (gostr ''b.a.org'')) \<and>
   MatcherGroup_Match (group_of [domainMatcher (gostr ''org''), substrMatcher (gostr ''x''),
      domainMatcher (gostr ''a.org''), fullMatcher (gostr ''b.a.org'')]) (gostr ''b.a.org'') = [4, 3, 1]"
proof
  show "distinct (MatcherGroup_Match (group_of [domainMatcher (gostr ''org''), substrMatcher (gostr ''x''),
      domainMatcher (gostr ''a.org''), fullMatcher (gostr ''b.a.org'')]) (gostr ''b.a.org''))"
    by (rule matcher_group_equiv [THEN conjunct2, THEN conjunct1]) simp_all
qed code_simp

end
