(* ===== verification/Str_AC.thy ===== *)
theory Str_AC
  imports Str_Matcher "HOL-Library.While_Combinator"
begin

text \<open>
  \<^verbatim>\<open>common/strmatcher/ac_automaton_matcher.go\<close>: the Aho-Corasick automaton for keywords. Patterns and
  texts are read from the last character to the first. The automaton is an array of rows of 53
  edges; \<^verbatim>\<open>Add\<close> grows it as a trie, \<^verbatim>\<open>Build\<close> fills in the missing edges breadth first, and \<^verbatim>\<open>Match\<close>
  follows one edge per character. The development shows that \<^verbatim>\<open>Build\<close> returns on every automaton made
  by \<^verbatim>\<open>Add\<close>, that its edges lead to the longest suffix that is still a node, and what \<^verbatim>\<open>Match\<close> means
  for the strings.
\<close>

section \<open>The automaton\<close>

abbreviation (input) validCharCount :: nat where "validCharCount \<equiv> 53"

record MatchType =
  matchType :: Type
  exist :: bool

abbreviation (input) TrieEdge :: bool where "TrieEdge \<equiv> True"
abbreviation (input) FailEdge :: bool where "FailEdge \<equiv> False"

record Edge =
  edgeType :: bool
  nextNode :: nat

record ACAutomaton =
  trie :: "Edge list list"
  fail :: "nat list"
  exists :: "MatchType list"
  ac_count :: nat

definition newNode :: "Edge list" where
  "newNode = replicate validCharCount \<lparr>edgeType = FailEdge, nextNode = 0\<rparr>"

text \<open>
  The table \<^verbatim>\<open>char2Index\<close> has an entry for every byte up to the tilde; the bytes its literal does not
  name have the zero value.
\<close>

definition char_table :: "(byte \<times> nat) list" where
  "char_table =
     zip (gostr ''ABCDEFGHIJKLMNOPQRSTUVWXYZ'') [0..<26] @ zip (gostr ''abcdefghijklmnopqrstuvwxyz'') [0..<26] @
     zip (gostr ''!$&'' @ [39] @ gostr ''()*+,;=:%-._~0123456789'') [26..<53]"

definition char2Index :: "nat list" where
  "char2Index = map (\<lambda>c. case map_of char_table (of_nat c) of None \<Rightarrow> 0 | Some i \<Rightarrow> i) [0..<127]"

abbreviation no_match :: MatchType where "no_match \<equiv> \<lparr>matchType = Full, exist = False\<rparr>"

definition NewACAutomaton :: ACAutomaton where
  "NewACAutomaton = \<lparr>trie = [newNode], fail = [0], exists = [no_match], ac_count = 0\<rparr>"

section \<open>Add\<close>

text \<open>One step down the trie, making the node when it is missing.\<close>

definition child :: "ACAutomaton \<Rightarrow> nat \<Rightarrow> nat \<Rightarrow> ACAutomaton \<times> nat" where
  "child ac node idx =
     (let ac1 =
        (if nextNode (trie ac ! node ! idx) = 0
         then let c = ac_count ac + 1;
                  ac' = ac\<lparr>ac_count := c\<rparr>;
                  ac'' = (if length (trie ac') < c + 1
                          then ac'\<lparr>trie := trie ac' @ [newNode], fail := fail ac' @ [0],
                                  exists := exists ac' @ [no_match]\<rparr>
                          else ac')
              in ac''\<lparr>trie := (trie ac'')[node := (trie ac'' ! node)[idx := \<lparr>edgeType = TrieEdge, nextNode = c\<rparr>]]\<rparr>
         else ac)
      in (ac1, nextNode (trie ac1 ! node ! idx)))"

text \<open>The loop over the characters, last one first; a byte outside the table panics.\<close>

fun add_chars :: "ACAutomaton \<Rightarrow> nat \<Rightarrow> gostring \<Rightarrow> (ACAutomaton \<times> nat) option" where
  "add_chars ac node [] = Some (ac, node)"
| "add_chars ac node (c # cs) =
     (if unat c < length char2Index
      then let (ac', node') = child ac node (char2Index ! unat c) in add_chars ac' node' cs
      else None)"

definition set_exists :: "ACAutomaton \<Rightarrow> nat \<Rightarrow> Type \<Rightarrow> ACAutomaton" where
  "set_exists ac node t = ac\<lparr>exists := (exists ac)[node := \<lparr>matchType = t, exist = True\<rparr>]\<rparr>"

definition ACAutomaton_Add :: "ACAutomaton \<Rightarrow> gostring \<Rightarrow> Type \<Rightarrow> ACAutomaton option" where
  "ACAutomaton_Add ac domain t =
     do { (ac1, node) \<leftarrow> add_chars ac 0 (rev domain);
          let ac2 = set_exists ac1 node t;
          if t = Domain
          then (let ac3 = set_exists ac2 node Full;
                    (ac4, node') = child ac3 node (char2Index ! 46)
                in Some (set_exists ac4 node' t))
          else Some ac2 }"

section \<open>Build\<close>

text \<open>One iteration of the inner loop, for edge \<open>i\<close> of \<open>node\<close>.\<close>

definition build_edge :: "nat \<Rightarrow> ACAutomaton \<times> Edge list \<Rightarrow> nat \<Rightarrow> ACAutomaton \<times> Edge list" where
  "build_edge node = (\<lambda>(ac, queue) i.
     if nextNode (trie ac ! node ! i) \<noteq> 0
     then (ac\<lparr>fail := (fail ac)[nextNode (trie ac ! node ! i) := nextNode (trie ac ! (fail ac ! node) ! i)]\<rparr>,
           queue @ [trie ac ! node ! i])
     else (ac\<lparr>trie := (trie ac)[node := (trie ac ! node)
             [i := \<lparr>edgeType = FailEdge, nextNode = nextNode (trie ac ! (fail ac ! node) ! i)\<rparr>]]\<rparr>,
           queue))"

definition build_node :: "ACAutomaton \<times> Edge list \<Rightarrow> ACAutomaton \<times> Edge list" where
  "build_node = (\<lambda>(ac, queue).
     foldl (build_edge (nextNode (hd queue))) (ac, tl queue) [0..<validCharCount])"

definition ACAutomaton_Build :: "ACAutomaton \<Rightarrow> ACAutomaton option" where
  "ACAutomaton_Build ac =
     map_option fst (while_option (\<lambda>(ac, queue). queue \<noteq> []) build_node
       (ac, filter (\<lambda>e. nextNode e \<noteq> 0) (map (\<lambda>i. trie ac ! 0 ! i) [0..<validCharCount])))"

section \<open>Match\<close>

fun match_chars :: "ACAutomaton \<Rightarrow> nat \<Rightarrow> bool \<Rightarrow> gostring \<Rightarrow> bool" where
  "match_chars ac node fullMatch [] = (fullMatch \<and> exist (exists ac ! node))"
| "match_chars ac node fullMatch (c # cs) =
     (if length char2Index \<le> unat c then False
      else let e = trie ac ! node ! (char2Index ! unat c);
               fullMatch' = (fullMatch \<and> edgeType e);
               node' = nextNode e
           in (case matchType (exists ac ! node') of
                 Substr \<Rightarrow> True
               | Domain \<Rightarrow> (if fullMatch' then True else match_chars ac node' fullMatch' cs)
               | _ \<Rightarrow> match_chars ac node' fullMatch' cs))"

definition ACAutomaton_Match :: "ACAutomaton \<Rightarrow> gostring \<Rightarrow> bool" where
  "ACAutomaton_Match ac s = match_chars ac 0 True (rev s)"

section \<open>The table of characters\<close>

lemma length_char2Index [simp]: "length char2Index = 127"
  by (simp add: char2Index_def)

lemma char2Index_range: "c < 127 \<Longrightarrow> char2Index ! c < 53"
proof -
  have "(c, i) \<in> set char_table \<Longrightarrow> i < 53" for c i
    by (auto simp: char_table_def simp del: gostr_simps dest!: set_zip_rightD)
  then show "c < 127 \<Longrightarrow> char2Index ! c < 53"
    by (auto simp: char2Index_def split: option.split dest: map_of_SomeD)
qed

text \<open>The word of indices of a string, in the order in which it is read.\<close>

definition word_of :: "gostring \<Rightarrow> nat list" where
  "word_of s = map (\<lambda>c. char2Index ! unat c) (rev s)"

definition in_table :: "gostring \<Rightarrow> bool" where
  "in_table s \<longleftrightarrow> list_all (\<lambda>c. unat c < 127) s"

section \<open>The trie as a set of words\<close>

text \<open>
  A list \<open>ws\<close> of words names the nodes: node \<open>k\<close> is reached by the word \<open>ws ! k\<close>. The row of a node
  is determined by the list.
\<close>

definition num :: "nat list list \<Rightarrow> nat list \<Rightarrow> nat" where
  "num ws w = length (takeWhile (\<lambda>v. v \<noteq> w) ws)"

lemma num_props: "w \<in> set ws \<Longrightarrow> num ws w < length ws \<and> ws ! num ws w = w"
proof (induction ws)
  case (Cons v ws)
  then show ?case by (auto simp: num_def)
qed simp

lemma num_lt [simp]: "w \<in> set ws \<Longrightarrow> num ws w < length ws"
  and nth_num [simp]: "w \<in> set ws \<Longrightarrow> ws ! num ws w = w"
  using num_props by blast+

lemma num_append: "w \<in> set ws \<Longrightarrow> num (ws @ vs) w = num ws w"
  by (induction ws) (auto simp: num_def)

lemma num_last: "w \<notin> set ws \<Longrightarrow> num (ws @ [w]) w = length ws"
  by (induction ws) (auto simp: num_def)

lemma num_nth: "distinct ws \<Longrightarrow> k < length ws \<Longrightarrow> num ws (ws ! k) = k"
  using num_props [of "ws ! k" ws] nth_eq_iff_index_eq [of ws "num ws (ws ! k)" k] by simp

lemma num_eq_iff: "w \<in> set ws \<Longrightarrow> v \<in> set ws \<Longrightarrow> num ws w = num ws v \<longleftrightarrow> w = v"
  by (metis nth_num)

lemma map_update_num:
  assumes "distinct ws" "w \<in> set ws"
  shows "(map f ws)[num ws w := x] = map (f(w := x)) ws"
proof (rule nth_equalityI)
  fix k assume "k < length ((map f ws)[num ws w := x])"
  then have k: "k < length ws" by simp
  with num_nth [OF assms(1) k] assms(2) nth_num [OF assms(2)]
  show "(map f ws)[num ws w := x] ! k = map (f(w := x)) ws ! k"
    by (cases "k = num ws w") auto
qed simp

definition raw_edge :: "nat list list \<Rightarrow> nat list \<Rightarrow> nat \<Rightarrow> Edge" where
  "raw_edge ws w i = (if w @ [i] \<in> set ws then \<lparr>edgeType = True, nextNode = num ws (w @ [i])\<rparr>
     else \<lparr>edgeType = False, nextNode = 0\<rparr>)"

definition raw_row :: "nat list list \<Rightarrow> nat list \<Rightarrow> Edge list" where
  "raw_row ws w = map (raw_edge ws w) [0..<53]"

definition words_ok :: "nat list list \<Rightarrow> bool" where
  "words_ok ws \<longleftrightarrow> ws \<noteq> [] \<and> hd ws = [] \<and> distinct ws \<and>
     (\<forall>w i. w @ [i] \<in> set ws \<longrightarrow> w \<in> set ws \<and> i < 53)"

definition trie_of :: "ACAutomaton \<Rightarrow> nat list list \<Rightarrow> (nat list \<Rightarrow> MatchType) \<Rightarrow> bool" where
  "trie_of ac ws ex \<longleftrightarrow> words_ok ws \<and> trie ac = map (raw_row ws) ws \<and>
     fail ac = replicate (length ws) 0 \<and> exists ac = map ex ws \<and> Suc (ac_count ac) = length ws \<and>
     (\<forall>w. w \<notin> set ws \<longrightarrow> ex w = no_match)"

lemma words_ok_root: "words_ok ws \<Longrightarrow> [] \<in> set ws \<and> num ws [] = 0"
  by (cases ws) (auto simp: words_ok_def num_def)

lemma num_nonzero: "words_ok ws \<Longrightarrow> w @ [i] \<in> set ws \<Longrightarrow> num ws (w @ [i]) \<noteq> 0"
  using words_ok_root [of ws] num_eq_iff [of "w @ [i]" ws "[]"] by auto

lemma words_ok_prefix: "words_ok ws \<Longrightarrow> w @ v \<in> set ws \<Longrightarrow> w \<in> set ws"
proof (induction v rule: rev_induct)
  case (snoc i v)
  then show ?case unfolding words_ok_def by (metis append_assoc)
qed simp

lemma words_ok_letters: "words_ok ws \<Longrightarrow> w @ [i] \<in> set ws \<Longrightarrow> i < 53"
  by (simp add: words_ok_def)

lemma raw_edge_nth: "i < 53 \<Longrightarrow> raw_row ws w ! i = raw_edge ws w i"
  by (simp add: raw_row_def)

lemma length_raw_row [simp]: "length (raw_row ws w) = 53"
  by (simp add: raw_row_def)

lemma new_trie_of: "trie_of NewACAutomaton [[]] (\<lambda>_. no_match)"
  by (auto simp: trie_of_def NewACAutomaton_def words_ok_def newNode_def raw_row_def raw_edge_def
      intro!: nth_equalityI)

text \<open>Making a node.\<close>

definition grow :: "nat list list \<Rightarrow> nat list \<Rightarrow> nat list list" where
  "grow ws w = (if w \<in> set ws then ws else ws @ [w])"

lemma set_grow [simp]: "set (grow ws w) = insert w (set ws)"
  by (auto simp: grow_def)

lemma grow_words_ok: "words_ok ws \<Longrightarrow> w \<in> set ws \<Longrightarrow> i < 53 \<Longrightarrow> words_ok (grow ws (w @ [i]))"
  by (auto simp: words_ok_def grow_def)

lemma raw_row_grow:
  assumes ok: "words_ok ws" and w: "w \<in> set ws" and i: "i < 53" and new: "w @ [i] \<notin> set ws" and v: "v \<in> set ws"
  shows "raw_row (ws @ [w @ [i]]) v =
    (if v = w then (raw_row ws w)[i := \<lparr>edgeType = True, nextNode = length ws\<rparr>] else raw_row ws v)"
  using assms by (auto simp: raw_edge_def nth_list_update raw_edge_nth num_append num_last intro!: nth_equalityI)

lemma raw_row_leaf:
  assumes ok: "words_ok ws" and new: "w @ [i] \<notin> set ws"
  shows "raw_row (ws @ [w @ [i]]) (w @ [i]) = newNode"
  using assms words_ok_prefix [OF ok, of "w @ [i]"]
  by (auto simp: newNode_def raw_row_def raw_edge_def intro!: nth_equalityI)

lemma child_trie_of:
  assumes t: "trie_of ac ws ex" and w: "w \<in> set ws" and i: "i < 53"
  shows "\<exists>ac'. child ac (num ws w) i = (ac', num (grow ws (w @ [i])) (w @ [i])) \<and>
    trie_of ac' (grow ws (w @ [i])) ex"
proof -
  note td = t [unfolded trie_of_def]
  have ok: "words_ok ws" using td by simp
  have row: "trie ac ! num ws w = raw_row ws w" using td w by simp
  show ?thesis
  proof (cases "w @ [i] \<in> set ws")
    case True
    with row i num_nonzero [OF ok True] t show ?thesis
      by (auto simp: child_def raw_edge_nth raw_edge_def grow_def)
  next
    case False
    let ?ws = "ws @ [w @ [i]]"
    define ac' where "ac' = ac\<lparr>ac_count := ac_count ac + 1,
      trie := (trie ac @ [newNode])[num ws w := (raw_row ws w)[i := \<lparr>edgeType = True, nextNode = length ws\<rparr>]],
      fail := fail ac @ [0], exists := exists ac @ [no_match]\<rparr>"
    have rows: "trie ac' = map (raw_row ?ws) ?ws"
    proof -
      have "trie ac' = (map (raw_row ws) ws)[num ws w := (raw_row ws w)[i := \<lparr>edgeType = True, nextNode = length ws\<rparr>]] @ [newNode]"
        using td w by (simp add: ac'_def list_update_append)
      also have "\<dots> = map (raw_row ?ws) ws @ [newNode]"
        using td w i False ok by (simp add: map_update_num words_ok_def raw_row_grow)
      finally show ?thesis using raw_row_leaf [OF ok False] by simp
    qed
    have "trie_of ac' ?ws ex"
      using td rows False grow_words_ok [OF ok w i] unfolding trie_of_def
      by (auto simp: ac'_def grow_def replicate_append_same)
    moreover have "child ac (num ws w) i = (ac', num ?ws (w @ [i]))"
    proof -
      have "length ws = Suc (ac_count ac)" "length (trie ac) = length ws" using td by simp_all
      then show ?thesis
        using False row i num_lt [OF w] td
        by (simp add: child_def raw_edge_nth raw_edge_def Let_def ac'_def nth_append num_last)
    qed
    ultimately show ?thesis using False by (auto simp: grow_def)
  qed
qed

lemma word_of_append [simp]: "word_of [] = []" "word_of (c # s) = word_of s @ [char2Index ! unat c]"
  by (simp_all add: word_of_def)

lemma word_of_rev: "map (\<lambda>c. char2Index ! unat c) cs = word_of (rev cs)"
  by (simp add: word_of_def)

fun grow_path :: "nat list list \<Rightarrow> nat list \<Rightarrow> nat list \<Rightarrow> nat list list" where
  "grow_path ws w [] = ws"
| "grow_path ws w (i # is) = grow_path (grow ws (w @ [i])) (w @ [i]) is"

lemma set_grow_path:
  "w \<in> set ws \<Longrightarrow> set (grow_path ws w is) = set ws \<union> {w @ u | u. prefix u is}"
proof (induction "is" arbitrary: ws w)
  case (Cons i "is")
  have "{w @ u | u. prefix u (i # is)} = insert w {(w @ [i]) @ u | u. prefix u is}"
    by (auto simp: prefix_Cons)
  with Cons show ?case by auto
qed auto

lemma add_chars_trie_of:
  assumes "trie_of ac ws ex" "w \<in> set ws" "in_table cs"
  shows "\<exists>ac' ws'. add_chars ac (num ws w) cs = Some (ac', num ws' (w @ word_of (rev cs))) \<and>
    trie_of ac' ws' ex \<and> set ws' = set ws \<union> {w @ u | u. prefix u (word_of (rev cs))}"
  using assms
proof (induction cs arbitrary: ac ws w)
  case (Cons c cs)
  let ?i = "char2Index ! unat c"
  from Cons.prems have i: "?i < 53" and tl: "in_table cs" by (simp_all add: in_table_def char2Index_range)
  from child_trie_of [OF Cons.prems(1,2) i] obtain ac1
    where ac1: "child ac (num ws w) ?i = (ac1, num (grow ws (w @ [?i])) (w @ [?i]))"
      "trie_of ac1 (grow ws (w @ [?i])) ex" by blast
  from Cons.IH [OF ac1(2) _ tl, of "w @ [?i]"] obtain ac' ws' where
    r: "add_chars ac1 (num (grow ws (w @ [?i])) (w @ [?i])) cs = Some (ac', num ws' (w @ ?i # word_of (rev cs)))"
    "trie_of ac' ws' ex" "set ws' = insert (w @ [?i]) (set ws) \<union> {w @ ?i # u | u. prefix u (word_of (rev cs))}"
    by auto
  have "word_of (rev (c # cs)) = ?i # word_of (rev cs)" by (simp add: word_of_def)
  moreover have "set ws' = set ws \<union> {w @ u | u. prefix u (?i # word_of (rev cs))}"
    using r(3) Cons.prems(2) by (auto simp: prefix_Cons)
  ultimately show ?case
    using r ac1(1) Cons.prems(3) by (intro exI [of _ ac'] exI [of _ ws']) (auto simp: in_table_def)
qed auto

text \<open>Adding keywords.\<close>

lemma Add_Substr:
  assumes t: "trie_of ac ws ex" and p: "in_table p"
  shows "\<exists>ac' ws'. ACAutomaton_Add ac p Substr = Some ac' \<and>
    trie_of ac' ws' (ex(word_of p := \<lparr>matchType = Substr, exist = True\<rparr>)) \<and>
    set ws' = set ws \<union> {u. prefix u (word_of p)}"
proof -
  note root = words_ok_root [of ws]
  from t have ok: "words_ok ws" by (simp add: trie_of_def)
  from p have "in_table (rev p)" by (simp add: in_table_def)
  from add_chars_trie_of [OF t _ this, of "[]"] root [OF ok] obtain ac' ws' where
    r: "add_chars ac 0 (rev p) = Some (ac', num ws' (word_of p))" "trie_of ac' ws' ex"
    "set ws' = set ws \<union> {u. prefix u (word_of p)}" by auto
  have w: "word_of p \<in> set ws'" using r(3) by simp
  have "(map ex ws')[num ws' (word_of p) := m] = map (ex(word_of p := m)) ws'" for m
    using r(2) w by (intro map_update_num) (auto simp: trie_of_def words_ok_def)
  then have "trie_of (set_exists ac' (num ws' (word_of p)) Substr) ws'
      (ex(word_of p := \<lparr>matchType = Substr, exist = True\<rparr>))"
    using r(2) w by (auto simp: trie_of_def set_exists_def)
  moreover have "ACAutomaton_Add ac p Substr = Some (set_exists ac' (num ws' (word_of p)) Substr)"
    using r(1) by (simp add: ACAutomaton_Add_def)
  ultimately show ?thesis using r(3) by blast
qed

fun add_keywords :: "ACAutomaton \<Rightarrow> gostring list \<Rightarrow> ACAutomaton option" where
  "add_keywords ac [] = Some ac"
| "add_keywords ac (p # ps) = do { ac' \<leftarrow> ACAutomaton_Add ac p Substr; add_keywords ac' ps }"

lemma add_keywords_snoc:
  "add_keywords ac (ps @ [p]) = do { ac' \<leftarrow> add_keywords ac ps; ACAutomaton_Add ac' p Substr }"
  by (induction ps arbitrary: ac) (auto split: bind_splits)

abbreviation keyword_map :: "gostring list \<Rightarrow> nat list \<Rightarrow> MatchType" where
  "keyword_map ps w \<equiv> (if w \<in> word_of ` set ps then \<lparr>matchType = Substr, exist = True\<rparr> else no_match)"

lemma add_keywords_trie_of:
  "list_all in_table ps \<Longrightarrow>
   \<exists>ac ws. add_keywords NewACAutomaton ps = Some ac \<and> trie_of ac ws (keyword_map ps) \<and>
     set ws = insert [] {u. \<exists>p \<in> set ps. prefix u (word_of p)}"
proof (induction ps rule: rev_induct)
  case Nil
  with new_trie_of show ?case by (intro exI [of _ NewACAutomaton] exI [of _ "[[]]"]) auto
next
  case (snoc p ps)
  then obtain ac ws where
    r: "add_keywords NewACAutomaton ps = Some ac" "trie_of ac ws (keyword_map ps)"
      "set ws = insert [] {u. \<exists>p \<in> set ps. prefix u (word_of p)}" by auto
  from Add_Substr [OF r(2), of p] snoc.prems obtain ac' ws' where
    a: "ACAutomaton_Add ac p Substr = Some ac'" "set ws' = set ws \<union> {u. prefix u (word_of p)}"
      "trie_of ac' ws' ((keyword_map ps)(word_of p := \<lparr>matchType = Substr, exist = True\<rparr>))" by auto
  have "(keyword_map ps)(word_of p := \<lparr>matchType = Substr, exist = True\<rparr>) = keyword_map (ps @ [p])" by auto
  with a(3) have "trie_of ac' ws' (keyword_map (ps @ [p]))" by simp
  moreover have "set ws' = insert [] {u. \<exists>p \<in> set (ps @ [p]). prefix u (word_of p)}" using a(2) r(3) by auto
  moreover have "add_keywords NewACAutomaton (ps @ [p]) = Some ac'" using a(1) r(1) by (simp add: add_keywords_snoc)
  ultimately show ?case by blast
qed

section \<open>Longest suffixes\<close>

fun lsuf :: "nat list set \<Rightarrow> nat list \<Rightarrow> nat list" where
  "lsuf W [] = []"
| "lsuf W (x # xs) = (if x # xs \<in> W then x # xs else lsuf W xs)"

lemma lsuf_in: "[] \<in> W \<Longrightarrow> lsuf W w \<in> W"
  by (induction w) auto

lemma lsuf_self: "w \<in> W \<Longrightarrow> lsuf W w = w"
  by (cases w) auto

lemma lsuf_suffix: "suffix (lsuf W w) w"
  by (induction w) (auto simp: suffix_Cons)

lemma lsuf_longest: "v \<in> W \<Longrightarrow> suffix v w \<Longrightarrow> suffix v (lsuf W w)"
  by (induction w) (auto simp: suffix_Cons)

lemma lsuf_tl: "w \<noteq> [] \<Longrightarrow> w \<notin> W \<Longrightarrow> lsuf W w = lsuf W (tl w)"
  by (cases w) auto

lemma suffix_length_eq: "suffix v w \<Longrightarrow> length v = length w \<Longrightarrow> v = w"
  by (auto simp: suffix_def)

lemma lsuf_eqI:
  assumes "v \<in> W" "suffix v w" "\<And>u. u \<in> W \<Longrightarrow> suffix u w \<Longrightarrow> length u \<le> length v" "[] \<in> W"
  shows "lsuf W w = v"
  using assms lsuf_longest [OF assms(1,2)] lsuf_in [OF assms(4), of w] lsuf_suffix [of W w]
    suffix_length_eq suffix_length_le by (metis le_antisym)

lemma lsuf_snoc:
  assumes closed: "\<And>w i. w @ [i] \<in> W \<Longrightarrow> w \<in> W" and root: "[] \<in> W"
  shows "lsuf W (w @ [i]) = lsuf W (lsuf W w @ [i])"
proof (rule lsuf_eqI [OF lsuf_in [OF root] _ _ root])
  show "suffix (lsuf W (lsuf W w @ [i])) (w @ [i])"
    using lsuf_suffix [of W "lsuf W w @ [i]"] lsuf_suffix [of W w]
    by (meson suffix_order.trans suffix_snoc suffix_order.refl same_suffix_suffix)
next
  fix u assume u: "u \<in> W" "suffix u (w @ [i])"
  then show "length u \<le> length (lsuf W (lsuf W w @ [i]))"
  proof (cases u rule: rev_cases)
    case (snoc u' j)
    with u have "j = i" "suffix u' w" by (auto simp: suffix_snoc)
    with closed u(1) snoc have "suffix u' (lsuf W w)" by (blast intro: lsuf_longest)
    then have "suffix u (lsuf W w @ [i])" using snoc \<open>j = i\<close> by (simp add: suffix_snoc)
    with u(1) show ?thesis by (intro suffix_length_le lsuf_longest)
  qed simp
qed

section \<open>The breadth-first search\<close>

text \<open>
  The finished row of a node: every edge leads to the longest suffix that is a node, and is marked
  as an edge of the trie when nothing had to be cut off.
\<close>

definition full_edge :: "nat list list \<Rightarrow> nat list \<Rightarrow> nat \<Rightarrow> Edge" where
  "full_edge ws w i = \<lparr>edgeType = (w @ [i] \<in> set ws), nextNode = num ws (lsuf (set ws) (w @ [i]))\<rparr>"

definition full_row :: "nat list list \<Rightarrow> nat list \<Rightarrow> Edge list" where
  "full_row ws w = map (full_edge ws w) [0..<53]"

text \<open>
  The invariant of the search: \<open>D\<close> are the nodes that are finished, \<open>qw\<close> the words of the queue.
\<close>

definition bfs_inv ::
  "nat list list \<Rightarrow> (nat list \<Rightarrow> MatchType) \<Rightarrow> nat list set \<Rightarrow> nat list list \<Rightarrow> ACAutomaton \<times> Edge list \<Rightarrow> bool" where
  "bfs_inv ws ex D qw = (\<lambda>(ac, queue).
     queue = map (\<lambda>w. \<lparr>edgeType = True, nextNode = num ws w\<rparr>) qw \<and>
     trie ac = map (\<lambda>w. if w \<in> D then full_row ws w else raw_row ws w) ws \<and>
     fail ac = map (\<lambda>w. if w \<in> D \<union> set qw then num ws (lsuf (set ws) (tl w)) else 0) ws \<and>
     exists ac = map ex ws \<and>
     [] \<in> D \<and> D \<subseteq> set ws \<and> set qw \<subseteq> set ws - D \<and> distinct qw \<and>
     (\<forall>u \<in> set ws - D. \<exists>m \<in> set qw. prefix m u) \<and>
     (\<forall>w i. w @ [i] \<in> D \<union> set qw \<longrightarrow> w \<in> D) \<and>
     sorted (map length qw) \<and> (\<forall>m \<in> set qw. length m \<le> Suc (length (hd qw))))"

lemma lsuf_snoc_ok: "words_ok ws \<Longrightarrow> lsuf (set ws) (w @ [i]) = lsuf (set ws) (lsuf (set ws) w @ [i])"
  using words_ok_root [of ws] by (intro lsuf_snoc) (auto simp: words_ok_def)

lemma full_edge_raw: "w @ [i] \<in> set ws \<Longrightarrow> full_edge ws w i = raw_edge ws w i"
  by (simp add: full_edge_def raw_edge_def lsuf_self)

lemma root_row: "words_ok ws \<Longrightarrow> full_row ws [] = raw_row ws []"
  using words_ok_root [of ws] by (auto simp: full_row_def raw_row_def full_edge_def raw_edge_def)

text \<open>One iteration of the inner loop, as the state after the edges below \<open>k\<close> of the node \<open>w\<close>.\<close>

definition row_upto :: "nat list list \<Rightarrow> nat list \<Rightarrow> nat \<Rightarrow> Edge list" where
  "row_upto ws w k = map (\<lambda>i. if i < k then full_edge ws w i else raw_edge ws w i) [0..<53]"

lemma row_upto_simps: "row_upto ws w 0 = raw_row ws w" "row_upto ws w 53 = full_row ws w"
  by (auto simp: row_upto_def raw_row_def full_row_def)

lemma row_upto_Suc: "k < 53 \<Longrightarrow> row_upto ws w (Suc k) = (row_upto ws w k)[k := full_edge ws w k]"
  by (auto simp: row_upto_def nth_list_update intro!: nth_equalityI)

definition children :: "nat list list \<Rightarrow> nat list \<Rightarrow> nat \<Rightarrow> nat list list" where
  "children ws w k = filter (\<lambda>u. u \<in> set ws) (map (\<lambda>i. w @ [i]) [0..<k])"

lemma set_children: "set (children ws w k) = {w @ [i] | i. i < k \<and> w @ [i] \<in> set ws}"
  by (auto simp: children_def)

lemma children_Suc: "children ws w (Suc k) = children ws w k @ (if w @ [k] \<in> set ws then [w @ [k]] else [])"
  by (simp add: children_def)

lemma build_edges:
  assumes ok: "words_ok ws" and w: "w \<in> set ws" "w \<noteq> []" "w \<notin> D" and D: "[] \<in> D" "D \<subseteq> set ws"
    and v: "v = lsuf (set ws) (tl w)" "v \<in> D"
    and ac: "trie ac = map (\<lambda>u. if u \<in> D then full_row ws u else raw_row ws u) ws"
      "fail ac = map (\<lambda>u. if u \<in> F then num ws (lsuf (set ws) (tl u)) else 0) ws" "w \<in> F"
      "exists ac = map ex ws"
    and k: "k \<le> 53"
  shows "\<exists>ac'. foldl (build_edge (num ws w)) (ac, q) [0..<k] =
      (ac', q @ map (\<lambda>u. \<lparr>edgeType = True, nextNode = num ws u\<rparr>) (children ws w k)) \<and>
    trie ac' = map (\<lambda>u. if u = w then row_upto ws w k else if u \<in> D then full_row ws u else raw_row ws u) ws \<and>
    fail ac' = map (\<lambda>u. if u \<in> F \<union> set (children ws w k) then num ws (lsuf (set ws) (tl u)) else 0) ws \<and>
    exists ac' = map ex ws"
  using k
proof (induction k)
  case 0
  have "trie ac = map (\<lambda>u. if u = w then row_upto ws w 0 else if u \<in> D then full_row ws u else raw_row ws u) ws"
    unfolding ac using w by (auto simp: row_upto_simps)
  with ac show ?case by (intro exI [of _ ac]) (simp add: children_def)
next
  case (Suc k)
  then have k: "k < 53" by simp
  let ?ch = "children ws w k"
  from Suc obtain ac' where IH: "foldl (build_edge (num ws w)) (ac, q) [0..<k] =
      (ac', q @ map (\<lambda>u. \<lparr>edgeType = True, nextNode = num ws u\<rparr>) ?ch)"
    and tr: "trie ac' = map (\<lambda>u. if u = w then row_upto ws w k else if u \<in> D then full_row ws u else raw_row ws u) ws"
    and fl: "fail ac' = map (\<lambda>u. if u \<in> F \<union> set ?ch then num ws (lsuf (set ws) (tl u)) else 0) ws"
    and exs: "exists ac' = map ex ws" by auto
  have dist: "distinct ws" using ok by (simp add: words_ok_def)
  have row: "trie ac' ! num ws w = row_upto ws w k" using tr w by simp
  have here: "trie ac' ! num ws w ! k = raw_edge ws w k" using row k by (simp add: row_upto_def)
  have fw: "fail ac' ! num ws w = num ws v" using fl w ac(3) v(1) by simp
  have vw: "v \<in> set ws" "v \<noteq> w" using v D w by auto
  have via: "nextNode (trie ac' ! num ws v ! k) = num ws (lsuf (set ws) (tl (w @ [k])))"
  proof -
    have "trie ac' ! num ws v ! k = full_edge ws v k" using tr vw v(2) k by (simp add: full_row_def)
    then show ?thesis using lsuf_snoc_ok [OF ok, of "tl w" k] w(2) v(1) by (simp add: full_edge_def)
  qed
  show ?case
  proof (cases "w @ [k] \<in> set ws")
    case True
    note nz = num_nonzero [OF ok True]
    define ac'' where "ac'' = ac'\<lparr>fail := (fail ac')[num ws (w @ [k]) := num ws (lsuf (set ws) (tl (w @ [k])))]\<rparr>"
    have "build_edge (num ws w) (ac', q @ map (\<lambda>u. \<lparr>edgeType = True, nextNode = num ws u\<rparr>) ?ch) k =
        (ac'', q @ map (\<lambda>u. \<lparr>edgeType = True, nextNode = num ws u\<rparr>) (children ws w (Suc k)))"
      using True nz here via fw by (simp add: build_edge_def ac''_def raw_edge_def children_Suc)
    moreover have "row_upto ws w (Suc k) = row_upto ws w k"
      using k full_edge_raw [OF True] by (auto simp: row_upto_def less_Suc_eq)
    moreover have "fail ac'' = map (\<lambda>u. if u \<in> F \<union> set (children ws w (Suc k)) then num ws (lsuf (set ws) (tl u)) else 0) ws"
      unfolding ac''_def using fl True dist by (auto simp: map_update_num children_Suc)
    ultimately show ?thesis using IH tr exs by (intro exI [of _ ac'']) (simp add: ac''_def)
  next
    case False
    define ac'' where "ac'' = ac'\<lparr>trie := (trie ac')[num ws w := (row_upto ws w k)[k := full_edge ws w k]]\<rparr>"
    have fe: "full_edge ws w k = \<lparr>edgeType = False, nextNode = num ws (lsuf (set ws) (tl (w @ [k])))\<rparr>"
      using False lsuf_tl [of "w @ [k]" "set ws"] by (simp add: full_edge_def)
    have "build_edge (num ws w) (ac', q @ map (\<lambda>u. \<lparr>edgeType = True, nextNode = num ws u\<rparr>) ?ch) k =
        (ac'', q @ map (\<lambda>u. \<lparr>edgeType = True, nextNode = num ws u\<rparr>) (children ws w (Suc k)))"
      using False here via fw row by (simp add: build_edge_def ac''_def raw_edge_def children_Suc fe)
    moreover have "trie ac'' = map (\<lambda>u. if u = w then row_upto ws w (Suc k) else if u \<in> D then full_row ws u else raw_row ws u) ws"
      unfolding ac''_def using tr w(1) dist k by (auto simp: map_update_num row_upto_Suc)
    moreover have "children ws w (Suc k) = ?ch" using False by (simp add: children_Suc)
    ultimately show ?thesis using IH fl exs by (intro exI [of _ ac'']) (simp add: ac''_def)
  qed
qed

text \<open>The front of the queue falls back to a node that is already finished, because the queue is
  ordered by length and covers every node that is not finished.\<close>

lemma bfs_fail_finished:
  assumes ok: "words_ok ws" and inv: "bfs_inv ws ex D (w # qw) s"
  shows "lsuf (set ws) (tl w) \<in> D"
proof (rule ccontr)
  let ?v = "lsuf (set ws) (tl w)"
  obtain ac queue where s: "s = (ac, queue)" by (cases s)
  note i = inv [unfolded s bfs_inv_def, simplified]
  have "w \<noteq> []" using i by auto
  have "?v \<in> set ws" using lsuf_in words_ok_root [OF ok] by blast
  moreover assume "?v \<notin> D"
  ultimately have "\<exists>m \<in> insert w (set qw). prefix m ?v" using i by auto
  then obtain m where m: "m \<in> insert w (set qw)" "prefix m ?v" by blast
  from m(2) have "length m \<le> length ?v" by (rule prefix_length_le)
  also have "\<dots> \<le> length (tl w)" using lsuf_suffix by (rule suffix_length_le)
  also have "\<dots> < length w" using \<open>w \<noteq> []\<close> by (cases w) auto
  finally show False using i m(1) by auto
qed

lemma children_props:
  "distinct (children ws w k)" "u \<in> set (children ws w k) \<Longrightarrow> length u = Suc (length w)"
  "u \<in> set (children ws w k) \<Longrightarrow> u \<in> set ws \<and> u \<noteq> w"
  by (auto simp: children_def distinct_map inj_on_def)

lemma sorted_constant: "(\<And>x. x \<in> set xs \<Longrightarrow> f x = c) \<Longrightarrow> sorted (map f xs)"
  by (induction xs) auto

lemma bfs_order:
  assumes "sorted (map length (w # qw))" "\<forall>m \<in> set (w # qw). length m \<le> Suc (length w)"
  shows "sorted (map length (qw @ children ws w k))"
    and "\<forall>m \<in> set (qw @ children ws w k). length m \<le> Suc (length (hd (qw @ children ws w k)))"
proof -
  have ch: "sorted (map length (children ws w k))"
    by (rule sorted_constant [of _ _ "Suc (length w)"]) (rule children_props)
  show "sorted (map length (qw @ children ws w k))"
    using assms ch children_props(2) [of _ ws w k] by (auto simp: sorted_append)
  have "length w \<le> length (hd (qw @ children ws w k))" if "qw @ children ws w k \<noteq> []"
    using assms that children_props(2) [of _ ws w k]
    by (cases qw) (auto simp: hd_append intro: le_trans dest: hd_in_set)
  moreover have "length m \<le> Suc (length w)" if "m \<in> set (qw @ children ws w k)" for m
    using that assms(2) children_props(2) [of m ws w k] by auto
  ultimately show "\<forall>m \<in> set (qw @ children ws w k). length m \<le> Suc (length (hd (qw @ children ws w k)))"
    by (metis Suc_le_mono in_set_conv_decomp append_is_Nil_conv list.distinct(1) order_trans)
qed

lemma bfs_cover:
  assumes ok: "words_ok ws" and cover: "\<forall>u \<in> set ws - D. \<exists>m \<in> set (w # qw). prefix m u"
    and u: "u \<in> set ws - insert w D"
  shows "\<exists>m \<in> set (qw @ children ws w 53). prefix m u"
proof -
  from cover u obtain m where m: "m \<in> set (w # qw)" "prefix m u" by auto
  show ?thesis
  proof (cases "m = w")
    case True
    with m obtain z' where z': "u = w @ z'" by (auto simp: prefix_def)
    with u obtain i z where z: "u = w @ i # z" by (cases z') auto
    then have "u = (w @ [i]) @ z" by simp
    with u have "w @ [i] \<in> set ws" using words_ok_prefix [OF ok] by auto
    with words_ok_letters [OF ok this] have "w @ [i] \<in> set (children ws w 53)" by (auto simp: set_children)
    with z show ?thesis by (intro bexI [of _ "w @ [i]"]) auto
  next
    case False
    with m show ?thesis by auto
  qed
qed

lemma bfs_step:
  assumes ok: "words_ok ws" and inv: "bfs_inv ws ex D (w # qw) s"
  shows "bfs_inv ws ex (insert w D) (qw @ children ws w 53) (build_node s)"
proof -
  obtain ac queue where s: "s = (ac, queue)" by (cases s)
  note i = inv [unfolded s bfs_inv_def prod.case]
  let ?edge = "\<lambda>u. \<lparr>edgeType = True, nextNode = num ws u\<rparr>"
  let ?F = "D \<union> set (w # qw)"
  have w: "w \<in> set ws" "w \<noteq> []" "w \<notin> D" using i by auto
  have D: "[] \<in> D" "D \<subseteq> set ws" using i by auto
  have closed: "u @ [j] \<in> ?F \<Longrightarrow> u \<in> D" for u j using i by blast
  from build_edges [OF ok w D refl bfs_fail_finished [OF ok inv], of ac ?F ex 53 "map ?edge qw"] i
  obtain ac' where ac': "foldl (build_edge (num ws w)) (ac, map ?edge qw) [0..<53] =
      (ac', map ?edge qw @ map ?edge (children ws w 53))"
    and tr: "trie ac' = map (\<lambda>u. if u = w then row_upto ws w 53 else if u \<in> D then full_row ws u else raw_row ws u) ws"
    and fl: "fail ac' = map (\<lambda>u. if u \<in> ?F \<union> set (children ws w 53) then num ws (lsuf (set ws) (tl u)) else 0) ws"
    and exs: "exists ac' = map ex ws" by auto
  have step: "build_node s = (ac', map ?edge (qw @ children ws w 53))"
    using i ac' by (simp add: build_node_def s)
  have trie': "trie ac' = map (\<lambda>u. if u \<in> insert w D then full_row ws u else raw_row ws u) ws"
    unfolding tr by (auto simp: row_upto_simps)
  have fail': "fail ac' = map (\<lambda>u. if u \<in> insert w D \<union> set (qw @ children ws w 53)
      then num ws (lsuf (set ws) (tl u)) else 0) ws"
    unfolding fl by (rule map_cong) auto
  have fresh: "u \<notin> D \<and> u \<notin> set qw" if "u \<in> set (children ws w 53)" for u
    using that closed w(3) by (auto simp: set_children)
  have sub: "set (qw @ children ws w 53) \<subseteq> set ws - insert w D"
    using i fresh children_props(3) [of _ ws w 53] by auto
  have dist: "distinct (qw @ children ws w 53)"
    using i fresh children_props(1) [of ws w 53] by auto
  have clo: "\<forall>u j. u @ [j] \<in> insert w D \<union> set (qw @ children ws w 53) \<longrightarrow> u \<in> insert w D"
    using closed by (auto simp: set_children)
  have "sorted (map length (w # qw))" "\<forall>m \<in> set (w # qw). length m \<le> Suc (length w)" using i by auto
  note order = bfs_order [OF this, of ws 53]
  have "\<forall>u \<in> set ws - insert w D. \<exists>m \<in> set (qw @ children ws w 53). prefix m u"
    using bfs_cover [OF ok, of D w qw] i by blast
  then show ?thesis
    unfolding step bfs_inv_def prod.case using trie' fail' exs D w(1) sub dist clo order by simp
qed

lemma bfs_init:
  assumes t: "trie_of ac ws ex"
  shows "bfs_inv ws ex {[]} (children ws [] 53)
    (ac, filter (\<lambda>e. nextNode e \<noteq> 0) (map (\<lambda>i. trie ac ! 0 ! i) [0..<53]))"
proof -
  note td = t [unfolded trie_of_def]
  have ok: "words_ok ws" using td by simp
  note root = words_ok_root [OF ok]
  have row: "trie ac ! 0 = raw_row ws []" using td root nth_num [of "[]" ws] by (metis nth_map num_lt)
  have edges: "map (\<lambda>i. trie ac ! 0 ! i) [0..<53] = map (raw_edge ws []) [0..<53]"
    by (simp add: row raw_edge_nth)
  have "filter (\<lambda>e. nextNode e \<noteq> 0) (map (raw_edge ws []) is) =
      map (\<lambda>w. \<lparr>edgeType = True, nextNode = num ws w\<rparr>) (filter (\<lambda>u. u \<in> set ws) (map (\<lambda>i. [i]) is))" for "is"
    using num_nonzero [OF ok, of "[]"] by (induction "is") (auto simp: raw_edge_def)
  then have q: "filter (\<lambda>e. nextNode e \<noteq> 0) (map (\<lambda>i. trie ac ! 0 ! i) [0..<53]) =
      map (\<lambda>w. \<lparr>edgeType = True, nextNode = num ws w\<rparr>) (children ws [] 53)"
    by (simp only: edges children_def append_Nil)
  have tr: "trie ac = map (\<lambda>w. if w \<in> {[]} then full_row ws w else raw_row ws w) ws"
    using td root_row [OF ok] by auto
  have fl: "fail ac = map (\<lambda>w. if w \<in> {[]} \<union> set (children ws [] 53) then num ws (lsuf (set ws) (tl w)) else 0) ws"
    using td root by (auto simp: set_children map_replicate_const [symmetric] intro!: nth_equalityI)
  have cover: "\<forall>u \<in> set ws - {[]}. \<exists>m \<in> set (children ws [] 53). prefix m u"
    using bfs_cover [OF ok, of "{}" "[]" "[]"] by auto
  have order: "sorted (map length (children ws [] 53))"
      "\<forall>m \<in> set (children ws [] 53). length m \<le> Suc (length (hd (children ws [] 53)))"
    using bfs_order [of "[]" "[]" ws 53] by auto
  show ?thesis
    unfolding bfs_inv_def prod.case q using tr fl td root cover order children_props(1) [of ws "[]" 53]
    by (auto simp: set_children)
qed

text \<open>The search returns, with every row finished.\<close>

lemma bfs_returns:
  assumes ok: "words_ok ws"
  shows "bfs_inv ws ex D qw s \<Longrightarrow>
    \<exists>ac'. while_option (\<lambda>(ac, queue). queue \<noteq> []) build_node s = Some (ac', []) \<and>
      trie ac' = map (full_row ws) ws \<and> exists ac' = map ex ws"
proof (induction "card (set ws - D)" arbitrary: D qw s rule: less_induct)
  case less
  obtain ac queue where s: "s = (ac, queue)" by (cases s)
  show ?case
  proof (cases qw)
    case Nil
    with less.prems s have "queue = []" "set ws - D = {}" "trie ac = map (full_row ws) ws" "exists ac = map ex ws"
      by (auto simp: bfs_inv_def)
    then show ?thesis by (subst while_option_unfold) (simp add: s)
  next
    case (Cons w qw')
    with less.prems s have w: "w \<in> set ws - D" and q: "queue \<noteq> []" by (auto simp: bfs_inv_def)
    have "set ws - insert w D \<subset> set ws - D" using w by blast
    then have "card (set ws - insert w D) < card (set ws - D)" by (intro psubset_card_mono) auto
    from less.hyps [OF this bfs_step [OF ok less.prems [unfolded Cons]]] q show ?thesis
      by (subst while_option_unfold) (simp add: s)
  qed
qed

lemma Build_returns:
  assumes t: "trie_of ac ws ex"
  obtains ac' where "ACAutomaton_Build ac = Some ac'" "trie ac' = map (full_row ws) ws" "exists ac' = map ex ws"
proof -
  have "words_ok ws" using t by (simp add: trie_of_def)
  from bfs_returns [OF this bfs_init [OF t]] obtain ac' where
    "while_option (\<lambda>(ac, queue). queue \<noteq> []) build_node
      (ac, filter (\<lambda>e. nextNode e \<noteq> 0) (map (\<lambda>i. trie ac ! 0 ! i) [0..<53])) = Some (ac', [])"
    "trie ac' = map (full_row ws) ws" "exists ac' = map ex ws" by blast
  then show thesis using that [of ac'] by (simp add: ACAutomaton_Build_def)
qed

section \<open>What Match finds\<close>

lemma ex_prefix_Cons:
  "(\<exists>u. u \<noteq> [] \<and> prefix u (i # v) \<and> P u) \<longleftrightarrow> P [i] \<or> (\<exists>u. u \<noteq> [] \<and> prefix u v \<and> P (i # u))" (is "?L \<longleftrightarrow> ?R")
proof
  assume ?L
  then obtain u where "prefix u v" "P (i # u)" by (auto simp: prefix_Cons)
  then show ?R by (cases u) auto
next
  assume ?R
  then show ?L by (auto intro: exI [of _ "[i]"] exI [of _ "i # _"])
qed

lemma match_chars_run:
  assumes ok: "words_ok ws" and ac: "trie ac = map (full_row ws) ws" "exists ac = map (keyword_map ps) ws"
    and "in_table cs"
  shows "match_chars ac (num ws (lsuf (set ws) t)) (t \<in> set ws) cs \<longleftrightarrow>
    (\<exists>u. u \<noteq> [] \<and> prefix u (word_of (rev cs)) \<and> lsuf (set ws) (t @ u) \<in> word_of ` set ps) \<or>
    (t @ word_of (rev cs) \<in> set ws \<and> t @ word_of (rev cs) \<in> word_of ` set ps)"
  using assms(4)
proof (induction cs arbitrary: t)
  case Nil
  have "t \<in> set ws \<Longrightarrow> exists ac ! num ws (lsuf (set ws) t) = keyword_map ps t"
    using ac(2) by (simp add: lsuf_self)
  then show ?case by (auto split: if_splits)
next
  case (Cons c cs)
  let ?i = "char2Index ! unat c"
  let ?W = "set ws" and ?K = "word_of ` set ps"
  from Cons.prems have c: "unat c < 127" and cs: "in_table cs" by (simp_all add: in_table_def)
  note i = char2Index_range [OF c]
  have in_W: "lsuf ?W v \<in> ?W" for v using words_ok_root [OF ok] by (simp add: lsuf_in)
  have edge: "trie ac ! num ws (lsuf ?W t) ! ?i = full_edge ws (lsuf ?W t) ?i"
    using ac(1) in_W i by (simp add: full_row_def)
  have nxt: "nextNode (full_edge ws (lsuf ?W t) ?i) = num ws (lsuf ?W (t @ [?i]))"
    using lsuf_snoc_ok [OF ok] by (simp add: full_edge_def)
  have fm: "(t \<in> ?W \<and> edgeType (full_edge ws (lsuf ?W t) ?i)) \<longleftrightarrow> t @ [?i] \<in> ?W"
    using words_ok_prefix [OF ok, of t "[?i]"] by (auto simp: full_edge_def lsuf_self)
  have ex: "exists ac ! num ws (lsuf ?W (t @ [?i])) = keyword_map ps (lsuf ?W (t @ [?i]))"
    using ac(2) in_W by simp
  have step: "match_chars ac (num ws (lsuf ?W t)) (t \<in> ?W) (c # cs) \<longleftrightarrow>
      lsuf ?W (t @ [?i]) \<in> ?K \<or> match_chars ac (num ws (lsuf ?W (t @ [?i]))) (t @ [?i] \<in> ?W) cs"
    using c by (simp add: edge nxt fm [symmetric] ex Let_def)
  have w: "word_of (rev (c # cs)) = ?i # word_of (rev cs)" by (simp add: word_of_def)
  show ?case unfolding step Cons.IH [OF cs] w ex_prefix_Cons by simp
qed

text \<open>The characters of a string as the automaton sees them.\<close>

definition canon :: "gostring \<Rightarrow> nat list" where
  "canon s = map (\<lambda>c. char2Index ! unat c) s"

lemma word_of_canon: "word_of s = rev (canon s)"
  by (simp add: word_of_def canon_def rev_map)

lemma sublist_canon: "sublist (canon p) (canon s) \<longleftrightarrow> sublist (word_of p) (word_of s)"
  by (simp add: word_of_canon)

lemma prefix_sublist: "sublist u w \<longleftrightarrow> (\<exists>v. prefix v w \<and> suffix u v)"
  by (rule sublist_altdef)

lemma keyword_set_facts:
  assumes ws: "set ws = insert [] {u. \<exists>p \<in> set ps. prefix u (word_of p)}"
    and free: "\<And>p q. p \<in> set ps \<Longrightarrow> q \<in> set ps \<Longrightarrow> sublist (canon p) (canon q) \<Longrightarrow> canon p = canon q"
    and p: "p \<in> set ps" and u: "suffix (word_of p) u" "u \<noteq> []"
  shows "lsuf (set ws) u \<in> word_of ` set ps"
proof -
  have "word_of p \<in> set ws" using p ws by auto
  then have s: "suffix (word_of p) (lsuf (set ws) u)" using u(1) by (rule lsuf_longest)
  show ?thesis
  proof (cases "lsuf (set ws) u = []")
    case True
    with s p show ?thesis by (auto simp: image_iff intro: bexI [of _ p])
  next
    case False
    have "lsuf (set ws) u \<in> set ws" using ws by (intro lsuf_in) simp
    with False ws obtain q where q: "q \<in> set ps" "prefix (lsuf (set ws) u) (word_of q)" by auto
    with s have "sublist (word_of p) (word_of q)" by (auto simp: prefix_sublist)
    then have "word_of p = word_of q" using free [OF p q(1)] by (simp add: word_of_canon)
    with s q(2) have "lsuf (set ws) u = word_of p"
      by (metis le_antisym prefix_length_le suffix_length_eq suffix_length_le)
    with p show ?thesis by blast
  qed
qed

lemma Match_run:
  assumes ok: "words_ok ws" and ac: "trie ac = map (full_row ws) ws" "exists ac = map (keyword_map ps) ws"
    and s: "in_table s"
  shows "ACAutomaton_Match ac s \<longleftrightarrow>
    (\<exists>u. u \<noteq> [] \<and> prefix u (word_of s) \<and> lsuf (set ws) u \<in> word_of ` set ps) \<or>
    (word_of s \<in> set ws \<and> word_of s \<in> word_of ` set ps)"
proof -
  have "[] \<in> set ws" "num ws (lsuf (set ws) []) = 0" using words_ok_root [OF ok] by auto
  with match_chars_run [OF ok ac, of "rev s" "[]"] s show ?thesis
    by (simp add: ACAutomaton_Match_def in_table_def)
qed

lemma keywords_found:
  assumes ok: "words_ok ws" and ac: "trie ac = map (full_row ws) ws" "exists ac = map (keyword_map ps) ws"
    and ws: "set ws = insert [] {u. \<exists>p \<in> set ps. prefix u (word_of p)}" and s: "in_table s"
  shows "ACAutomaton_Match ac s \<Longrightarrow> \<exists>p \<in> set ps. sublist (canon p) (canon s)"
    and "(\<And>p q. p \<in> set ps \<Longrightarrow> q \<in> set ps \<Longrightarrow> sublist (canon p) (canon q) \<Longrightarrow> canon p = canon q) \<Longrightarrow>
      p \<in> set ps \<Longrightarrow> sublist (canon p) (canon s) \<Longrightarrow> ACAutomaton_Match ac s"
proof -
  note run = Match_run [OF ok ac s]
  show "\<exists>p \<in> set ps. sublist (canon p) (canon s)" if "ACAutomaton_Match ac s"
  proof (cases "\<exists>u. prefix u (word_of s) \<and> lsuf (set ws) u \<in> word_of ` set ps")
    case True
    then obtain u p where u: "prefix u (word_of s)" "p \<in> set ps" "lsuf (set ws) u = word_of p" by auto
    with lsuf_suffix [of "set ws" u] have "sublist (word_of p) (word_of s)" by (auto simp: prefix_sublist)
    with u(2) show ?thesis by (auto simp: sublist_canon)
  next
    case False
    with that run have "word_of s \<in> word_of ` set ps" by blast
    then show ?thesis by (auto simp: sublist_canon)
  qed
  assume free: "\<And>p q. p \<in> set ps \<Longrightarrow> q \<in> set ps \<Longrightarrow> sublist (canon p) (canon q) \<Longrightarrow> canon p = canon q"
    and p: "p \<in> set ps" and sl: "sublist (canon p) (canon s)"
  from sl have "sublist (word_of p) (word_of s)" by (simp add: sublist_canon)
  then obtain v where v: "prefix v (word_of s)" "suffix (word_of p) v" by (auto simp: prefix_sublist)
  note found = keyword_set_facts [OF ws free p]
  show "ACAutomaton_Match ac s"
  proof (cases "word_of s = []")
    case True
    with v p ws show ?thesis unfolding run by (auto intro!: image_eqI [of _ _ p])
  next
    case False
    then obtain i w where i: "word_of s = i # w" by (cases "word_of s") auto
    show ?thesis
    proof (cases "v = []")
      case True
      with v(2) i found [of "[i]"] show ?thesis unfolding run by (auto intro!: exI [of _ "[i]"])
    qed (use v found in \<open>auto simp: run\<close>)
  qed
qed

section \<open>Properties\<close>

lemma child_other:
  assumes "trie_of ac ws ex" "w \<in> set ws"
  shows "trie_of (set_exists ac (num ws w) t) ws (ex(w := \<lparr>matchType = t, exist = True\<rparr>))"
  using assms by (auto simp: trie_of_def set_exists_def map_update_num words_ok_def)

lemma Add_trie_of:
  assumes t: "trie_of ac ws ex" and p: "in_table p"
  shows "\<exists>ac' ws' ex'. ACAutomaton_Add ac p ty = Some ac' \<and> trie_of ac' ws' ex'"
proof -
  from t have ok: "words_ok ws" by (simp add: trie_of_def)
  from p have "in_table (rev p)" by (simp add: in_table_def)
  from add_chars_trie_of [OF t _ this, of "[]"] words_ok_root [OF ok] obtain ac1 ws1 where
    r: "add_chars ac 0 (rev p) = Some (ac1, num ws1 (word_of p))" "trie_of ac1 ws1 ex"
    "set ws1 = set ws \<union> {u. prefix u (word_of p)}" by auto
  have w: "word_of p \<in> set ws1" using r(3) by simp
  note t2 = child_other [OF r(2) w, of ty]
  note t3 = child_other [OF t2 w, of Full]
  from child_trie_of [OF t3 w char2Index_range, of 46] obtain ac4 where
    c: "child (set_exists (set_exists ac1 (num ws1 (word_of p)) ty) (num ws1 (word_of p)) Full) (num ws1 (word_of p)) (char2Index ! 46) =
      (ac4, num (grow ws1 (word_of p @ [char2Index ! 46])) (word_of p @ [char2Index ! 46]))"
    and t4: "\<exists>ex. trie_of ac4 (grow ws1 (word_of p @ [char2Index ! 46])) ex" by auto
  show ?thesis
  proof (cases "ty = Domain")
    case True
    from t4 obtain ex4 where "trie_of ac4 (grow ws1 (word_of p @ [char2Index ! 46])) ex4" by blast
    from child_other [OF this, of "word_of p @ [char2Index ! 46]" ty] r(1) c True show ?thesis
      by (auto simp: ACAutomaton_Add_def Let_def)
  next
    case False
    with r(1) t2 show ?thesis by (auto simp: ACAutomaton_Add_def Let_def)
  qed
qed

lemma Add_panics: "\<not> in_table p \<Longrightarrow> ACAutomaton_Add ac p ty = None"
proof -
  have "\<not> in_table cs \<Longrightarrow> add_chars ac node cs = None" for cs ac node
    by (induction cs arbitrary: ac node) (auto simp: in_table_def split: prod.split)
  then show "\<not> in_table p \<Longrightarrow> ACAutomaton_Add ac p ty = None"
    by (simp add: ACAutomaton_Add_def in_table_def)
qed

fun add_patterns :: "ACAutomaton \<Rightarrow> (gostring \<times> Type) list \<Rightarrow> ACAutomaton option" where
  "add_patterns ac [] = Some ac"
| "add_patterns ac ((p, t) # pts) = do { ac' \<leftarrow> ACAutomaton_Add ac p t; add_patterns ac' pts }"

lemma add_patterns_trie_of:
  assumes "trie_of ac ws ex"
  shows "case add_patterns ac pts of
      None \<Rightarrow> \<not> list_all (\<lambda>(p, t). in_table p) pts
    | Some ac' \<Rightarrow> list_all (\<lambda>(p, t). in_table p) pts \<and> (\<exists>ws' ex'. trie_of ac' ws' ex')"
  using assms
proof (induction pts arbitrary: ac ws ex)
  case (Cons x pts)
  obtain p t where x: "x = (p, t)" by (cases x)
  show ?case
  proof (cases "in_table p")
    case True
    from Add_trie_of [OF Cons.prems True, of t] obtain ac' ws' ex'
      where "ACAutomaton_Add ac p t = Some ac'" "trie_of ac' ws' ex'" by blast
    with Cons.IH [of ac' ws' ex'] True show ?thesis unfolding x by (simp split: option.splits)
  qed (simp add: x Add_panics)
qed auto

text \<open>
  Building the automaton always comes to an end. After any patterns of any type have been added,
  the breadth-first loop of Build returns; adding panics exactly when a pattern contains a byte
  beyond the table (any non-ASCII character).
\<close>

theorem ac_build_terminates:
  "case add_patterns NewACAutomaton pts of
     None \<Rightarrow> \<not> list_all (\<lambda>(p, t). in_table p) pts
   | Some ac \<Rightarrow> list_all (\<lambda>(p, t). in_table p) pts \<and> (\<exists>ac'. ACAutomaton_Build ac = Some ac')"
proof -
  have "\<exists>ac'. ACAutomaton_Build ac = Some ac'" if "trie_of ac ws ex" for ac ws ex
    using that by (rule Build_returns) blast
  with add_patterns_trie_of [OF new_trie_of, of pts] show ?thesis by (auto split: option.splits)
qed

lemma keyword_automaton_exists:
  assumes "list_all in_table ps"
  obtains ac ac' ws where "add_keywords NewACAutomaton ps = Some ac" "ACAutomaton_Build ac = Some ac'"
    "words_ok ws" "trie ac' = map (full_row ws) ws" "exists ac' = map (keyword_map ps) ws"
    "set ws = insert [] {u. \<exists>p \<in> set ps. prefix u (word_of p)}"
proof -
  from add_keywords_trie_of [OF assms] obtain ac ws where a: "add_keywords NewACAutomaton ps = Some ac"
    "trie_of ac ws (keyword_map ps)" "set ws = insert [] {u. \<exists>p \<in> set ps. prefix u (word_of p)}" by blast
  from Build_returns [OF a(2)] obtain ac' where "ACAutomaton_Build ac = Some ac'"
    "trie ac' = map (full_row ws) ws" "exists ac' = map (keyword_map ps) ws" by blast
  moreover have "words_ok ws" using a(2) by (simp add: trie_of_def)
  ultimately show thesis using that [of ac ac' ws] a by blast
qed

text \<open>Building an automaton for keywords and asking it about a string.\<close>

definition keyword_match :: "gostring list \<Rightarrow> gostring \<Rightarrow> bool option" where
  "keyword_match ps s =
     do { ac \<leftarrow> add_keywords NewACAutomaton ps; ac' \<leftarrow> ACAutomaton_Build ac; Some (ACAutomaton_Match ac' s) }"

lemma keyword_match_iff:
  assumes ps: "list_all in_table ps" and s: "in_table s"
  shows "\<exists>b. keyword_match ps s = Some b \<and> (b \<longrightarrow> (\<exists>p \<in> set ps. sublist (canon p) (canon s))) \<and>
    ((\<forall>p \<in> set ps. \<forall>q \<in> set ps. sublist (canon p) (canon q) \<longrightarrow> canon p = canon q) \<longrightarrow>
     (\<exists>p \<in> set ps. sublist (canon p) (canon s)) \<longrightarrow> b)"
proof -
  from keyword_automaton_exists [OF ps] obtain ac ac' ws
    where a: "add_keywords NewACAutomaton ps = Some ac" "ACAutomaton_Build ac = Some ac'"
      and w: "words_ok ws" "trie ac' = map (full_row ws) ws" "exists ac' = map (keyword_map ps) ws"
        "set ws = insert [] {u. \<exists>p \<in> set ps. prefix u (word_of p)}" by blast
  from a have k: "keyword_match ps s = Some (ACAutomaton_Match ac' s)" by (simp add: keyword_match_def)
  note found = keywords_found [OF w s]
  show ?thesis
    by (intro exI [of _ "ACAutomaton_Match ac' s"] conjI impI k found(1))
       (auto intro!: found(2) simp del: sublist_altdef)
qed

text \<open>On lower-case domain names the index of a character identifies it.\<close>

definition plain_chars :: "gostring" where
  "plain_chars = gostr ''abcdefghijklmnopqrstuvwxyz'' @ gostr ''!$&'' @ [39] @ gostr ''()*+,;=:%-._~0123456789''"

definition plain :: "gostring \<Rightarrow> bool" where
  "plain s \<longleftrightarrow> list_all (\<lambda>c. c \<in> set plain_chars) s"

lemma char_table_plain:
  "char_table = zip (gostr ''ABCDEFGHIJKLMNOPQRSTUVWXYZ'') [0..<26] @ zip plain_chars [0..<53]"
proof -
  have "[0..<53] = [0..<26] @ [26..<53::nat]" using upt_add_eq_append [of 0 26 27] by simp
  then show ?thesis by (simp add: char_table_def plain_chars_def del: gostr_simps(2))
qed

lemma plain_chars_facts:
  "distinct (gostr ''ABCDEFGHIJKLMNOPQRSTUVWXYZ'' @ plain_chars)" "length plain_chars = 53"
  "c \<in> set plain_chars \<Longrightarrow> unat c < 127"
  by (auto simp: plain_chars_def)

lemma char2Index_plain:
  assumes "i < 53"
  shows "char2Index ! unat (plain_chars ! i) = i"
proof -
  have c: "plain_chars ! i \<in> set plain_chars" using assms plain_chars_facts(2) by simp
  have "(plain_chars ! i, i) \<in> set char_table"
    using assms plain_chars_facts(2) by (auto simp: char_table_plain set_zip)
  moreover have "distinct (map fst char_table)"
    using plain_chars_facts(1,2) by (simp add: char_table_plain del: gostr_simps(2))
  ultimately have "map_of char_table (plain_chars ! i) = Some i" by (simp add: map_of_eq_Some_iff)
  with plain_chars_facts(3) [OF c] show ?thesis by (simp add: char2Index_def)
qed

lemma plain_chars_inj: "inj_on (\<lambda>c. char2Index ! unat c) (set plain_chars)"
proof (rule inj_onI)
  fix c d
  assume "c \<in> set plain_chars" "d \<in> set plain_chars" and eq: "char2Index ! unat c = char2Index ! unat d"
  then obtain i j where i: "i < 53" "c = plain_chars ! i" "j < 53" "d = plain_chars ! j"
    by (auto simp: in_set_conv_nth plain_chars_facts(2))
  with eq show "c = d" by (simp add: char2Index_plain)
qed

lemma plain_in_table: "plain s \<Longrightarrow> in_table s"
  by (auto simp: plain_def in_table_def list_all_iff plain_chars_facts(3))

lemma sublist_map_inj:
  assumes "sublist (map f xs) (map f ys)" "inj_on f A" "set xs \<subseteq> A" "set ys \<subseteq> A"
  shows "sublist xs ys"
proof -
  from assms(1) obtain a b where "map f ys = a @ map f xs @ b" by (auto simp: sublist_def)
  then obtain as zs bs where ys: "ys = as @ zs @ bs" "map f zs = map f xs"
    by (auto simp: append_eq_map_conv map_eq_append_conv)
  from ys assms(3,4) have "inj_on f (set zs \<union> set xs)" by (intro inj_on_subset [OF assms(2)]) auto
  from inj_on_map_eq_map [OF this] ys show ?thesis by (auto simp: sublist_def)
qed

lemma sublist_canon_plain: "plain p \<Longrightarrow> plain s \<Longrightarrow> sublist (canon p) (canon s) \<longleftrightarrow> sublist p s"
  using sublist_map_inj [OF _ plain_chars_inj, of p s] map_mono_sublist [of p s]
  by (auto simp: plain_def list_all_iff canon_def simp del: sublist_altdef)

text \<open>A keyword that occurs only inside a longer one on the way is missed.\<close>

lemma keyword_missed: "keyword_match [gostr ''b'', gostr ''abc''] (gostr ''xbc'') = Some False"
proof -
  let ?ps = "[gostr ''b'', gostr ''abc'']" and ?s = "gostr ''xbc''"
  have idx: "char2Index ! 97 = 0" "char2Index ! 98 = 1" "char2Index ! 99 = 2" "char2Index ! 120 = 23"
    using char2Index_plain [of 0] char2Index_plain [of 1] char2Index_plain [of 2] char2Index_plain [of 23]
    by (simp_all add: plain_chars_def)
  have wd: "word_of ?s = [2, 1, 23]" "word_of ` set ?ps = {[1], [2, 1, 0]}"
    by (simp_all add: word_of_def idx)
  have tab: "list_all in_table ?ps" "in_table ?s" by (simp_all add: in_table_def)
  from keyword_automaton_exists [OF tab(1)] obtain ac ac' ws
    where a: "add_keywords NewACAutomaton ?ps = Some ac" "ACAutomaton_Build ac = Some ac'"
      and w: "words_ok ws" "trie ac' = map (full_row ws) ws" "exists ac' = map (keyword_map ?ps) ws"
        "set ws = insert [] {u. \<exists>p \<in> set ?ps. prefix u (word_of p)}" by blast
  have ws: "u \<in> set ws \<longleftrightarrow> u = [] \<or> prefix u [1] \<or> prefix u [2, 1, 0]" for u
    unfolding w(4) by (simp add: word_of_def idx)
  have "\<not> ACAutomaton_Match ac' ?s"
    unfolding Match_run [OF w(1-3) tab(2)] wd ex_prefix_Cons by (simp add: ws prefix_Cons)
  with a show ?thesis by (simp add: keyword_match_def)
qed

text \<open>
  C29: keywords. For keywords and texts of ASCII characters (the 127 characters below DEL), the automaton (Add, Build, Match) never
  panics and reports only texts that contain a keyword, up to the table of characters, which
  folds upper and lower case. On lower-case domain names, when no keyword is contained in another,
  it agrees with the reference matcher: it answers whether some keyword is a substring. The condition
  is needed, because Match does not look at the nodes reached by fail links: with the keywords \<open>b\<close>
  and \<open>abc\<close> it does not find \<open>b\<close> in \<open>xbc\<close>.
\<close>

theorem keyword_automaton:
  assumes "list_all in_table ps" "in_table s"
  shows "(\<exists>b. keyword_match ps s = Some b \<and> (b \<longrightarrow> (\<exists>p \<in> set ps. sublist (canon p) (canon s)))) \<and>
    (list_all plain ps \<longrightarrow> plain s \<longrightarrow> (\<forall>p \<in> set ps. \<forall>q \<in> set ps. sublist p q \<longrightarrow> p = q) \<longrightarrow>
      keyword_match ps s = Some (\<exists>p \<in> set ps. Matcher_Match (substrMatcher p) s)) \<and>
    keyword_match [gostr ''b'', gostr ''abc''] (gostr ''xbc'') = Some False"
proof -
  from keyword_match_iff [OF assms] obtain b where b: "keyword_match ps s = Some b"
    "b \<longrightarrow> (\<exists>p \<in> set ps. sublist (canon p) (canon s))"
    "(\<forall>p \<in> set ps. \<forall>q \<in> set ps. sublist (canon p) (canon q) \<longrightarrow> canon p = canon q) \<longrightarrow>
       (\<exists>p \<in> set ps. sublist (canon p) (canon s)) \<longrightarrow> b" by auto
  have "keyword_match ps s = Some (\<exists>p \<in> set ps. Matcher_Match (substrMatcher p) s)"
    if pl: "list_all plain ps" "plain s" and free: "\<forall>p \<in> set ps. \<forall>q \<in> set ps. sublist p q \<longrightarrow> p = q"
  proof -
    have sl: "sublist (canon p) (canon q) \<longleftrightarrow> sublist p q" if "p \<in> set ps" "q \<in> insert s (set ps)" for p q
      using that pl by (auto simp: list_all_iff intro!: sublist_canon_plain simp del: sublist_altdef)
    have "(\<forall>p \<in> set ps. \<forall>q \<in> set ps. sublist (canon p) (canon q) \<longrightarrow> canon p = canon q)"
      using free sl by blast
    moreover have "(\<exists>p \<in> set ps. sublist (canon p) (canon s)) \<longleftrightarrow> (\<exists>p \<in> set ps. sublist p s)" using sl by blast
    ultimately have "b \<longleftrightarrow> (\<exists>p \<in> set ps. sublist p s)" using b(2,3) by blast
    with b(1) show ?thesis by simp
  qed
  with b(1,2) keyword_missed show ?thesis by blast
qed

theorem keyword_automaton_witness:
  "keyword_match [gostr ''bc'', gostr ''ca''] (gostr ''xbcx'') =
    Some (\<exists>p \<in> set [gostr ''bc'', gostr ''ca'']. Matcher_Match (substrMatcher p) (gostr ''xbcx''))"
proof -
  have "list_all in_table [gostr ''bc'', gostr ''ca'']" "in_table (gostr ''xbcx'')"
    "list_all plain [gostr ''bc'', gostr ''ca'']" "plain (gostr ''xbcx'')"
    by (simp_all add: in_table_def plain_def plain_chars_def)
  moreover have "\<forall>p \<in> set [gostr ''bc'', gostr ''ca'']. \<forall>q \<in> set [gostr ''bc'', gostr ''ca'']. sublist p q \<longrightarrow> p = q"
    by code_simp
  ultimately show ?thesis using keyword_automaton [of "[gostr ''bc'', gostr ''ca'']" "gostr ''xbcx''"] by blast
qed

end
