(* ===== verification/Str_Mph.thy ===== *)
theory Str_Mph
  imports Str_AC "HOL-Library.AList"
begin

text \<open>
  \<^verbatim>\<open>common/strmatcher/mph_matcher.go\<close>: the matcher of the router. Full and domain patterns are rules in
  a two-level hash table found by a search for seeds, keywords are in the automaton of \<^verbatim>\<open>Str_AC\<close>, and
  regular expressions are tried in turn. Parameters are the order in which Go visits a map
  (\<open>visit\<close>), the order in which \<^verbatim>\<open>sort.Sort\<close> leaves equal elements (\<open>sorter\<close>), \<^verbatim>\<open>strings.ToLower\<close>
  (\<open>lower\<close>) and \<^verbatim>\<open>regexp.Compile\<close> (\<open>compile\<close>). A panic is \<open>None\<close>. Integers of type \<^verbatim>\<open>int\<close> and
  \<^verbatim>\<open>uintptr\<close> have 64 bits.
\<close>

section \<open>Hash functions\<close>

definition PrimeRK :: u32 where "PrimeRK = 16777619"

definition RollingHash :: "gostring \<Rightarrow> u32" where
  "RollingHash s = foldl (\<lambda>h c. h * PrimeRK + ucast c) 0 (rev s)"

definition m1 :: u64 where "m1 = 16877499708836156737"
definition m2 :: u64 where "m2 = 2820277070424839065"
definition m3 :: u64 where "m3 = 9497967016996688599"
definition m4 :: u64 where "m4 = 15839092249703872147"

definition readUnaligned32 :: "byte list \<Rightarrow> u32" where
  "readUnaligned32 q = ucast (q ! 0) OR push_bit 8 (ucast (q ! 1)) OR push_bit 16 (ucast (q ! 2)) OR
     push_bit 24 (ucast (q ! 3))"

definition readUnaligned64 :: "byte list \<Rightarrow> u64" where
  "readUnaligned64 q = ucast (q ! 0) OR push_bit 8 (ucast (q ! 1)) OR push_bit 16 (ucast (q ! 2)) OR
     push_bit 24 (ucast (q ! 3)) OR push_bit 32 (ucast (q ! 4)) OR push_bit 40 (ucast (q ! 5)) OR
     push_bit 48 (ucast (q ! 6)) OR push_bit 56 (ucast (q ! 7))"

definition rotl31 :: "u64 \<Rightarrow> u64" where
  "rotl31 x = push_bit 31 x OR drop_bit (64 - 31) x"

text \<open>The memory at \<open>p\<close> is the list of the bytes left, so \<^verbatim>\<open>add(p, x)\<close> drops bytes and \<^verbatim>\<open>s\<close> is its
  length. The cases after the label \<^verbatim>\<open>tail\<close>, for at most 32 bytes:\<close>

definition hash_tail :: "u64 \<Rightarrow> byte list \<Rightarrow> u64" where
  "hash_tail h p =
     (let s = length p; mix = (\<lambda>h. rotl31 (h * m1) * m2)
      in if s = 0 then h
         else if s < 4 then
           mix (h XOR ucast (p ! 0) XOR push_bit 8 (ucast (p ! (s div 2))) XOR push_bit 16 (ucast (p ! (s - 1))))
         else if s \<le> 8 then
           mix (h XOR ucast (readUnaligned32 p) XOR push_bit 32 (ucast (readUnaligned32 (drop (s - 4) p))))
         else if s \<le> 16 then
           mix (mix (h XOR readUnaligned64 p) XOR readUnaligned64 (drop (s - 8) p))
         else
           mix (mix (mix (mix (h XOR readUnaligned64 p) XOR readUnaligned64 (drop 8 p))
             XOR readUnaligned64 (drop (s - 16) p)) XOR readUnaligned64 (drop (s - 8) p)))"

text \<open>The loop over blocks of 32 bytes.\<close>

fun hash_blocks :: "u64 \<Rightarrow> u64 \<Rightarrow> u64 \<Rightarrow> u64 \<Rightarrow> byte list \<Rightarrow> u64 \<times> byte list" where
  "hash_blocks v1 v2 v3 v4 p =
     (if 32 \<le> length p
      then hash_blocks (rotl31 ((v1 XOR readUnaligned64 p) * m1) * m2)
             (rotl31 ((v2 XOR readUnaligned64 (drop 8 p)) * m2) * m3)
             (rotl31 ((v3 XOR readUnaligned64 (drop 16 p)) * m3) * m4)
             (rotl31 ((v4 XOR readUnaligned64 (drop 24 p)) * m4) * m1) (drop 32 p)
      else (v1 XOR v2 XOR v3 XOR v4, p))"

declare hash_blocks.simps [simp del]

definition memhashFallback :: "byte list \<Rightarrow> u64 \<Rightarrow> u64" where
  "memhashFallback p seed =
     (let h0 = seed + of_nat (length p);
          (h, q) = (if 32 < length p then hash_blocks h0 seed seed seed p else (h0, p));
          h1 = hash_tail h q;
          h2 = (h1 XOR drop_bit 29 h1) * m3
      in h2 XOR drop_bit 32 h2)"

definition strhashFallback :: "gostring \<Rightarrow> u64 \<Rightarrow> u64" where
  "strhashFallback a h = memhashFallback a h"

definition LeadingZeros :: "u64 \<Rightarrow> nat" where
  "LeadingZeros v = length (takeWhile (\<lambda>i. \<not> bit v i) (rev [0..<64]))"

definition nextPow2 :: "nat \<Rightarrow> nat" where
  "nextPow2 v = (if v \<le> 1 then 1 else unat (drop_bit (LeadingZeros (of_nat v)) (- 1 :: u64) + 1))"

section \<open>The group\<close>

record indexBucket =
  b_n :: nat
  b_vals :: "nat list"

record MphMatcherGroup =
  m_ac :: "ACAutomaton option"
  m_otherMatchers :: "matcherEntry list"
  rules :: "gostring list"
  level0 :: "u32 list"
  level0Mask :: int
  level1 :: "u32 list"
  level1Mask :: int
  m_count :: u32
  ruleMap :: "(gostring \<times> u32) list option"

definition NewMphMatcherGroup :: MphMatcherGroup where
  "NewMphMatcherGroup =
     \<lparr>m_ac = None, m_otherMatchers = [], rules = [], level0 = [], level0Mask = 0, level1 = [],
      level1Mask = 0, m_count = 1, ruleMap = Some []\<rparr>"

definition AddFullOrDomainPattern :: "MphMatcherGroup \<Rightarrow> gostring \<Rightarrow> Type \<Rightarrow> MphMatcherGroup option" where
  "AddFullOrDomainPattern g pattern t =
     (let h = RollingHash pattern
      in case t of
           Domain \<Rightarrow>
             do { m \<leftarrow> ruleMap g;
                  Some (g\<lparr>ruleMap := Some (AList.update pattern h
                    (AList.update (dot # pattern) (h * PrimeRK + ucast dot) m))\<rparr>) }
         | Full \<Rightarrow> do { m \<leftarrow> ruleMap g; Some (g\<lparr>ruleMap := Some (AList.update pattern h m)\<rparr>) }
         | _ \<Rightarrow> Some g)"

definition AddPattern ::
  "(gostring \<Rightarrow> gostring) \<Rightarrow> (gostring \<Rightarrow> goerr + (gostring \<Rightarrow> bool)) \<Rightarrow> MphMatcherGroup \<Rightarrow> gostring \<Rightarrow> Type
     \<Rightarrow> (MphMatcherGroup \<times> (goerr + u32)) option" where
  "AddPattern lower compile g pattern t =
     (case t of
        Substr \<Rightarrow>
          do { ac \<leftarrow> ACAutomaton_Add (case m_ac g of None \<Rightarrow> NewACAutomaton | Some ac \<Rightarrow> ac) pattern t;
               Some (g\<lparr>m_ac := Some ac\<rparr>, Inr (m_count g)) }
      | Regex \<Rightarrow>
          (case compile pattern of
             Inl e \<Rightarrow> Some (g, Inl e)
           | Inr r \<Rightarrow>
               Some (g\<lparr>m_otherMatchers := m_otherMatchers g @
                   [\<lparr>entry_m = regexMatcher pattern r, entry_id = m_count g\<rparr>]\<rparr>, Inr (m_count g)))
      | OtherType b \<Rightarrow> None
      | _ \<Rightarrow>
          do { g' \<leftarrow> AddFullOrDomainPattern g (lower pattern) t; Some (g', Inr (m_count g)) })"

section \<open>Build\<close>

text \<open>\<^verbatim>\<open>int(x) & mask\<close> for a mask that is a table length less one, used as an index.\<close>

definition slot0 :: "u32 \<Rightarrow> int \<Rightarrow> nat" where
  "slot0 h msk = nat (uint h AND msk)"

definition slot1 :: "gostring \<Rightarrow> u32 \<Rightarrow> int \<Rightarrow> nat" where
  "slot1 s seed msk = nat (sint (strhashFallback s (ucast seed)) AND msk)"

text \<open>The rules are put into sparse buckets by the first hash; the empty ones are dropped.\<close>

fun sparse_buckets :: "int \<Rightarrow> (gostring \<times> u32) list \<Rightarrow> nat \<Rightarrow> nat list list \<Rightarrow> nat list list" where
  "sparse_buckets msk [] ruleIdx bs = bs"
| "sparse_buckets msk ((rule, hash) # rs) ruleIdx bs =
     (let n = slot0 hash msk in sparse_buckets msk rs (ruleIdx + 1) (bs[n := bs ! n @ [ruleIdx]]))"

definition buckets_of :: "nat list list \<Rightarrow> indexBucket list" where
  "buckets_of bs = map (\<lambda>n. \<lparr>b_n = n, b_vals = bs ! n\<rparr>) (filter (\<lambda>n. bs ! n \<noteq> []) [0..<length bs])"

text \<open>One round of the seed search: place the members of a bucket one by one; when a slot is taken,
  give the slots of this round back.\<close>

fun try_seed ::
  "gostring list \<Rightarrow> int \<Rightarrow> u32 \<Rightarrow> nat list \<Rightarrow> nat list \<Rightarrow> bool list \<Rightarrow> u32 list \<Rightarrow> bool \<times> bool list \<times> u32 list" where
  "try_seed rs msk seed [] tmpOcc occ lev1 = (True, occ, lev1)"
| "try_seed rs msk seed (i # is) tmpOcc occ lev1 =
     (let n = slot1 (rs ! i) seed msk
      in if occ ! n then (False, foldl (\<lambda>o' n'. o'[n' := False]) occ tmpOcc, lev1)
         else try_seed rs msk seed is (tmpOcc @ [n]) (occ[n := True]) (lev1[n := of_nat i]))"

text \<open>The loop over seeds, which may not end.\<close>

definition find_seed ::
  "gostring list \<Rightarrow> int \<Rightarrow> nat list \<Rightarrow> bool list \<Rightarrow> u32 list \<Rightarrow> (u32 \<times> bool \<times> bool list \<times> u32 list) option" where
  "find_seed rs msk vals occ lev1 =
     while_option (\<lambda>(seed, findSeed, occ, lev1). \<not> findSeed)
       (\<lambda>(seed, findSeed, occ, lev1).
          case try_seed rs msk seed vals [] occ lev1 of
            (True, occ', lev1') \<Rightarrow> (seed, True, occ', lev1')
          | (False, occ', lev1') \<Rightarrow> (seed + 1, False, occ', lev1'))
       (0, False, occ, lev1)"

fun place_buckets ::
  "gostring list \<Rightarrow> int \<Rightarrow> indexBucket list \<Rightarrow> u32 list \<Rightarrow> bool list \<Rightarrow> u32 list \<Rightarrow> (u32 list \<times> u32 list) option" where
  "place_buckets rs msk [] lev0 occ lev1 = Some (lev0, lev1)"
| "place_buckets rs msk (b # bs) lev0 occ lev1 =
     do { (seed, _, occ', lev1') \<leftarrow> find_seed rs msk (b_vals b) occ lev1;
          place_buckets rs msk bs (lev0[b_n b := seed]) occ' lev1' }"

definition empty_rule :: gostring where "empty_rule = gostr ''empty___''"

definition MphMatcherGroup_Build ::
  "((gostring \<times> u32) list \<Rightarrow> (gostring \<times> u32) list) \<Rightarrow> (indexBucket list \<Rightarrow> indexBucket list) \<Rightarrow>
   MphMatcherGroup \<Rightarrow> MphMatcherGroup option" where
  "MphMatcherGroup_Build visit sorter g =
     do { ac' \<leftarrow> (case m_ac g of
                  None \<Rightarrow> Some None
                | Some ac \<Rightarrow> do { a \<leftarrow> ACAutomaton_Build ac; Some (Some a) });
          m \<leftarrow> ruleMap g;
          let m' = (if m = [] then [(empty_rule, RollingHash empty_rule)] else m);
          let keyLen = length m';
          let lev0 = replicate (nextPow2 (keyLen div 4)) 0;
          let lev1 = replicate (nextPow2 keyLen) 0;
          let mask0 = int (length lev0) - 1;
          let mask1 = int (length lev1) - 1;
          let order = visit m';
          let rs = rules g @ map fst order;
          let bs = sorter (buckets_of (sparse_buckets mask0 order 0 (replicate (length lev0) [])));
          (lev0', lev1') \<leftarrow> place_buckets rs mask1 bs lev0 (replicate (length lev1) False) lev1;
          Some (g\<lparr>m_ac := ac', rules := rs, level0 := lev0', level0Mask := mask0, level1 := lev1',
                 level1Mask := mask1, ruleMap := None\<rparr>) }"

section \<open>Lookup and Match\<close>

definition index_list :: "'a list \<Rightarrow> nat \<Rightarrow> 'a option" where
  "index_list xs i = (if i < length xs then Some (xs ! i) else None)"

definition Lookup :: "MphMatcherGroup \<Rightarrow> u32 \<Rightarrow> gostring \<Rightarrow> bool option" where
  "Lookup g h s =
     do { seed \<leftarrow> index_list (level0 g) (slot0 h (level0Mask g));
          n \<leftarrow> index_list (level1 g) (slot1 s seed (level1Mask g));
          r \<leftarrow> index_list (rules g) (unat n);
          Some (s = r) }"

text \<open>The loop of \<^verbatim>\<open>Match\<close> over the characters from the last one, then the lookup of the whole string.\<close>

fun match_rules :: "MphMatcherGroup \<Rightarrow> gostring \<Rightarrow> gostring \<Rightarrow> u32 \<Rightarrow> bool option" where
  "match_rules g [] suf hash = Lookup g hash suf"
| "match_rules g (c # cs) suf hash =
     (let hash' = hash * PrimeRK + ucast c
      in if c = dot
         then do { b \<leftarrow> Lookup g hash' (c # suf);
                   if b then Some True else match_rules g cs (c # suf) hash' }
         else match_rules g cs (c # suf) hash')"

definition MphMatcherGroup_Match :: "MphMatcherGroup \<Rightarrow> gostring \<Rightarrow> u32 list option" where
  "MphMatcherGroup_Match g pattern =
     do { b \<leftarrow> match_rules g (rev pattern) [] 0;
          if b then Some [1]
          else if (case m_ac g of None \<Rightarrow> False | Some ac \<Rightarrow> ACAutomaton_Match ac pattern) then Some [1]
          else case filter (\<lambda>e. Matcher_Match (entry_m e) pattern) (m_otherMatchers g) of
                 [] \<Rightarrow> Some []
               | e # es \<Rightarrow> Some [entry_id e] }"

section \<open>The rolling hash\<close>

lemma RollingHash_simps [simp]:
  "RollingHash [] = 0" "RollingHash (c # s) = RollingHash s * PrimeRK + ucast c"
  by (simp_all add: RollingHash_def)

section \<open>The seed search\<close>

lemma and_mask_bound: "0 < n \<Longrightarrow> nat (x AND (int n - 1)) < n"
  using AND_upper2 [of "int n - 1" x] by (simp add: nat_less_iff)

lemma slot_bounds: "0 < n \<Longrightarrow> slot0 h (int n - 1) < n" "0 < n \<Longrightarrow> slot1 s seed (int n - 1) < n"
  by (simp_all add: slot0_def slot1_def and_mask_bound)

lemma nextPow2_pos: "v < 2 ^ 63 \<Longrightarrow> 0 < nextPow2 v"
proof (cases "v \<le> 1")
  case False
  assume v: "v < 2 ^ 63"
  have "\<not> bit (of_nat v :: u64) 63"
    using v by (simp add: bit_of_nat_iff bit_iff_odd [of v])
  moreover have "rev [0..<64] = 63 # rev [0..<63::nat]"
    using upt_Suc_append [of 0 63] by simp
  ultimately have "0 < LeadingZeros (of_nat v)" by (simp add: LeadingZeros_def)
  then have "\<not> bit (drop_bit (LeadingZeros (of_nat v)) (- 1 :: u64)) 63"
    by (simp add: bit_mask_iff)
  moreover have "bit (- 1 :: u64) 63" by simp
  ultimately have "drop_bit (LeadingZeros (of_nat v)) (- 1 :: u64) \<noteq> - 1" by metis
  then have "drop_bit (LeadingZeros (of_nat v)) (- 1 :: u64) + 1 \<noteq> 0"
    by (metis add_eq_0_iff2)
  with False show ?thesis by (simp add: nextPow2_def unat_gt_0)
qed (simp add: nextPow2_def)

text \<open>
  \<open>keeps N occ lev occ' lev'\<close>: the tables keep their lengths, the slots taken in \<open>occ\<close> and what they hold.
\<close>

definition keeps :: "nat \<Rightarrow> bool list \<Rightarrow> u32 list \<Rightarrow> bool list \<Rightarrow> u32 list \<Rightarrow> bool" where
  "keeps N occ lev occ' lev' \<longleftrightarrow> length occ' = N \<and> length lev' = N \<and>
     (\<forall>n < N. occ ! n \<longrightarrow> occ' ! n \<and> lev' ! n = lev ! n)"

lemma keeps_trans: "keeps N o1 l1 o2 l2 \<Longrightarrow> keeps N o2 l2 o3 l3 \<Longrightarrow> keeps N o1 l1 o3 l3"
  by (auto simp: keeps_def)

lemma reset_slots:
  "n \<notin> set tmp \<Longrightarrow> foldl (\<lambda>o' n'. o'[n' := False]) occ tmp ! n = occ ! n"
  "length (foldl (\<lambda>o' n'. o'[n' := False]) occ tmp) = length occ"
  by (induction tmp arbitrary: occ) (auto simp: nth_list_update)

lemma try_seed_spec:
  assumes N: "0 < N" and "try_seed rs (int N - 1) seed vals tmp occ lev = (ok, occ', lev')"
    and "keeps N occ0 lev0 occ lev" "\<forall>n \<in> set tmp. n < N \<and> \<not> occ0 ! n"
  shows "keeps N occ0 lev0 occ' lev' \<and> set lev' \<subseteq> set lev \<union> of_nat ` set vals \<and>
    (ok \<longrightarrow> keeps N occ lev occ' lev' \<and>
      (\<forall>i \<in> set vals. occ' ! slot1 (rs ! i) seed (int N - 1) \<and> lev' ! slot1 (rs ! i) seed (int N - 1) = of_nat i))"
  using assms(2-)
proof (induction vals arbitrary: tmp occ lev)
  case Nil
  then show ?case by (auto simp: keeps_def)
next
  case (Cons i vals)
  define n where "n = slot1 (rs ! i) seed (int N - 1)"
  have n: "n < N" unfolding n_def using N by (rule slot_bounds)
  show ?case
  proof (cases "occ ! n")
    case True
    with Cons.prems show ?thesis
      by (auto simp: n_def [symmetric] keeps_def reset_slots)
  next
    case False
    have run: "try_seed rs (int N - 1) seed vals (tmp @ [n]) (occ[n := True]) (lev[n := of_nat i]) = (ok, occ', lev')"
      using Cons.prems(1) False by (simp add: n_def [symmetric] Let_def)
    have fresh: "\<not> occ0 ! n" using Cons.prems(2) False n by (auto simp: keeps_def)
    with Cons.prems(2) n have "keeps N occ0 lev0 (occ[n := True]) (lev[n := of_nat i])"
      by (auto simp: keeps_def nth_list_update)
    with Cons.IH [OF run this] Cons.prems(3) fresh n
    have IH: "keeps N occ0 lev0 occ' lev'" "set lev' \<subseteq> set (lev[n := of_nat i]) \<union> of_nat ` set vals"
      "ok \<Longrightarrow> keeps N (occ[n := True]) (lev[n := of_nat i]) occ' lev'"
      "ok \<Longrightarrow> \<forall>i \<in> set vals. occ' ! slot1 (rs ! i) seed (int N - 1) \<and> lev' ! slot1 (rs ! i) seed (int N - 1) = of_nat i"
      by auto
    have len: "length occ = N" "length lev = N" using Cons.prems(2) by (auto simp: keeps_def)
    have here: "occ' ! n \<and> lev' ! n = of_nat i" and old: "keeps N occ lev occ' lev'" if ok
      using IH(3) [OF that] n len False by (auto simp: keeps_def nth_list_update)
    have "set lev' \<subseteq> set lev \<union> of_nat ` set (i # vals)"
      using IH(2) set_update_subset_insert [of lev n "of_nat i"] by auto
    then show ?thesis using IH(1,4) here old by (auto simp: n_def)
  qed
qed

lemma find_seed_spec:
  assumes N: "0 < N" and len: "length occ = N" "length lev = N"
    and r: "find_seed rs (int N - 1) vals occ lev = Some (seed, found, occ', lev')"
  shows "keeps N occ lev occ' lev' \<and> set lev' \<subseteq> set lev \<union> of_nat ` set vals \<and>
    (\<forall>i \<in> set vals. occ' ! slot1 (rs ! i) seed (int N - 1) \<and> lev' ! slot1 (rs ! i) seed (int N - 1) = of_nat i)"
proof -
  define P where "P = (\<lambda>(seed, found, occ', lev'). keeps N occ lev occ' lev' \<and>
    set lev' \<subseteq> set lev \<union> of_nat ` set vals \<and>
    (found \<longrightarrow> (\<forall>i \<in> set vals. occ' ! slot1 (rs ! i) seed (int N - 1) \<and> lev' ! slot1 (rs ! i) seed (int N - 1) = of_nat i)))"
  have "P (seed, found, occ', lev')"
  proof (rule while_option_rule [of P, OF _ r [unfolded find_seed_def]])
    show "P (0, False, occ, lev)" using len by (auto simp: P_def keeps_def)
  next
    fix s :: "u32 \<times> bool \<times> bool list \<times> u32 list"
    obtain sd fd o1 l1 where s: "s = (sd, fd, o1, l1)" by (cases s)
    assume "P s"
    then have k: "keeps N occ lev o1 l1" "set l1 \<subseteq> set lev \<union> of_nat ` set vals" by (auto simp: P_def s)
    obtain ok o2 l2 where t: "try_seed rs (int N - 1) sd vals [] o1 l1 = (ok, o2, l2)"
      by (cases "try_seed rs (int N - 1) sd vals [] o1 l1")
    from try_seed_spec [OF N t k(1)] k(2) t show "P (case s of (seed, findSeed, occ, lev1) \<Rightarrow>
          case try_seed rs (int N - 1) seed vals [] occ lev1 of
            (True, occ', lev1') \<Rightarrow> (seed, True, occ', lev1')
          | (False, occ', lev1') \<Rightarrow> (seed + 1, False, occ', lev1'))"
      by (cases ok) (auto simp: P_def s)
  qed
  moreover have found using while_option_stop [OF r [unfolded find_seed_def]] by simp
  ultimately show ?thesis by (simp add: P_def)
qed

lemma place_buckets_spec:
  assumes N: "0 < N"
  shows "place_buckets rs (int N - 1) bs lev0 occ lev1 = Some (lev0', lev1') \<Longrightarrow>
    length occ = N \<Longrightarrow> length lev1 = N \<Longrightarrow> distinct (map b_n bs) \<Longrightarrow> \<forall>b \<in> set bs. b_n b < length lev0 \<Longrightarrow>
    length lev0' = length lev0 \<and> length lev1' = N \<and>
    (\<forall>n < N. occ ! n \<longrightarrow> lev1' ! n = lev1 ! n) \<and> (\<forall>k. k \<notin> b_n ` set bs \<longrightarrow> lev0' ! k = lev0 ! k) \<and>
    set lev1' \<subseteq> set lev1 \<union> of_nat ` (\<Union>b \<in> set bs. set (b_vals b)) \<and>
    (\<forall>b \<in> set bs. \<forall>i \<in> set (b_vals b). lev1' ! slot1 (rs ! i) (lev0' ! b_n b) (int N - 1) = of_nat i)"
proof (induction bs arbitrary: lev0 occ lev1)
  case (Cons b bs)
  from Cons.prems(1) obtain seed found occ1 lev2 where
    f: "find_seed rs (int N - 1) (b_vals b) occ lev1 = Some (seed, found, occ1, lev2)"
    and r: "place_buckets rs (int N - 1) bs (lev0[b_n b := seed]) occ1 lev2 = Some (lev0', lev1')"
    by (auto split: bind_splits prod.splits)
  note F = find_seed_spec [OF N Cons.prems(2,3) f]
  have len: "length occ1 = N" "length lev2 = N" using F by (auto simp: keeps_def)
  from Cons.IH [OF r len] Cons.prems(4,5) have
    IH: "length lev0' = length lev0" "length lev1' = N" "\<forall>n < N. occ1 ! n \<longrightarrow> lev1' ! n = lev2 ! n"
    "\<forall>k. k \<notin> b_n ` set bs \<longrightarrow> lev0' ! k = (lev0[b_n b := seed]) ! k"
    "set lev1' \<subseteq> set lev2 \<union> of_nat ` (\<Union>b \<in> set bs. set (b_vals b))"
    "\<forall>b \<in> set bs. \<forall>i \<in> set (b_vals b). lev1' ! slot1 (rs ! i) (lev0' ! b_n b) (int N - 1) = of_nat i"
    by auto
  have seed: "lev0' ! b_n b = seed" using IH(4) Cons.prems(4,5) by auto
  have here: "lev1' ! slot1 (rs ! i) (lev0' ! b_n b) (int N - 1) = of_nat i" if "i \<in> set (b_vals b)" for i
    using F that IH(3) slot_bounds(2) [OF N] by (simp add: seed)
  have "\<forall>n < N. occ ! n \<longrightarrow> lev1' ! n = lev1 ! n" using F IH(3) by (auto simp: keeps_def)
  moreover have "set lev1' \<subseteq> set lev1 \<union> of_nat ` (\<Union>b \<in> set (b # bs). set (b_vals b))"
    using F IH(5) by (simp add: image_Un) blast
  moreover have "\<forall>k. k \<notin> b_n ` set (b # bs) \<longrightarrow> lev0' ! k = lev0 ! k" using IH(4) by (auto simp: nth_list_update)
  ultimately show ?case using IH(1,2,6) here by auto
qed auto

section \<open>The buckets\<close>

lemma length_sparse_buckets [simp]: "length (sparse_buckets msk rs k bs) = length bs"
  by (induction msk rs k bs rule: sparse_buckets.induct) (auto simp: Let_def)

lemma set_sparse_buckets:
  "0 < length bs \<Longrightarrow> n < length bs \<Longrightarrow>
   set (sparse_buckets (int (length bs) - 1) rs k bs ! n) =
   set (bs ! n) \<union> {k + j | j. j < length rs \<and> slot0 (snd (rs ! j)) (int (length bs) - 1) = n}"
proof (induction rs arbitrary: k bs)
  case (Cons x rs)
  obtain rule hash where x: "x = (rule, hash)" by (cases x)
  define n' where "n' = slot0 hash (int (length bs) - 1)"
  have n': "n' < length bs" unfolding n'_def by (rule slot_bounds(1) [OF Cons.prems(1)])
  have split: "{k + j | j. j < length (x # rs) \<and> slot0 (snd ((x # rs) ! j)) (int (length bs) - 1) = n} =
      (if n' = n then {k} else {}) \<union>
      {Suc k + j | j. j < length rs \<and> slot0 (snd (rs ! j)) (int (length bs) - 1) = n}" (is "?A = ?B")
  proof
    show "?A \<subseteq> ?B"
    proof
      fix y assume "y \<in> ?A"
      then obtain j where "y = k + j" "j < length (x # rs)" "slot0 (snd ((x # rs) ! j)) (int (length bs) - 1) = n" by auto
      then show "y \<in> ?B" by (cases j) (auto simp: x n'_def)
    qed
    show "?B \<subseteq> ?A"
      by (auto simp: x n'_def intro: exI [of _ 0] exI [of _ "Suc _"])
  qed
  have "set (sparse_buckets (int (length bs) - 1) (x # rs) k bs ! n) =
      set (sparse_buckets (int (length (bs[n' := bs ! n' @ [k]])) - 1) rs (Suc k) (bs[n' := bs ! n' @ [k]]) ! n)"
    by (simp add: x Let_def n'_def [symmetric])
  also have "\<dots> = set (bs[n' := bs ! n' @ [k]] ! n) \<union>
      {Suc k + j | j. j < length rs \<and> slot0 (snd (rs ! j)) (int (length bs) - 1) = n}"
    using Cons.IH [of "bs[n' := bs ! n' @ [k]]" "Suc k"] Cons.prems by simp
  finally show ?case unfolding split using Cons.prems(2) n' by (auto simp: nth_list_update)
qed simp

lemma buckets_of_props:
  "distinct (map b_n (buckets_of bs))" "b \<in> set (buckets_of bs) \<Longrightarrow> b_n b < length bs \<and> b_vals b = bs ! b_n b"
  "n < length bs \<Longrightarrow> bs ! n \<noteq> [] \<Longrightarrow> \<lparr>b_n = n, b_vals = bs ! n\<rparr> \<in> set (buckets_of bs)"
  by (auto simp: buckets_of_def comp_def)

section \<open>The finished table\<close>

lemma place_rules:
  assumes N: "0 < M" "0 < N" and perm: "mset sbk = mset bks"
    and bks: "bks = buckets_of (sparse_buckets (int M - 1) order 0 (replicate M []))"
    and r: "place_buckets (map fst order) (int N - 1) sbk (replicate M 0) (replicate N False) (replicate N 0) = Some (lev0, lev1)"
  shows "length lev0 = M" "length lev1 = N"
    and "v \<in> set lev1 \<Longrightarrow> v = 0 \<or> (\<exists>i < length order. v = of_nat i)"
    and "i < length order \<Longrightarrow>
      lev1 ! slot1 (fst (order ! i)) (lev0 ! slot0 (snd (order ! i)) (int M - 1)) (int N - 1) = of_nat i"
proof -
  let ?sp = "sparse_buckets (int M - 1) order 0 (replicate M [])"
  have sp: "set (?sp ! n) = {j. j < length order \<and> slot0 (snd (order ! j)) (int M - 1) = n}" if "n < M" for n
    using set_sparse_buckets [of "replicate M []" n order 0] that by auto
  have set_eq: "set sbk = set bks" using perm by (rule mset_eq_setD)
  have "mset (map b_n sbk) = mset (map b_n bks)" using perm by simp
  then have dist: "distinct (map b_n sbk)"
    using mset_eq_imp_distinct_iff buckets_of_props(1) bks by blast
  have bnd: "\<forall>b \<in> set sbk. b_n b < length (replicate M (0 :: u32))"
    using buckets_of_props(2) [of _ ?sp] set_eq bks by auto
  note P = place_buckets_spec [OF N(2) r _ _ dist bnd]
  show "length lev0 = M" "length lev1 = N" using P by auto
  have members: "set (b_vals b) \<subseteq> {..<length order}" if "b \<in> set bks" for b
    using buckets_of_props(2) [of b ?sp] that bks sp [of "b_n b"] by auto
  show "v = 0 \<or> (\<exists>i < length order. v = of_nat i)" if "v \<in> set lev1"
  proof -
    have "set lev1 \<subseteq> insert 0 (of_nat ` (\<Union>b \<in> set bks. set (b_vals b)))" using P set_eq N(2) by simp
    also have "\<dots> \<subseteq> insert 0 (of_nat ` {..<length order})" using members by blast
    finally show ?thesis using that by auto
  qed
  show "lev1 ! slot1 (fst (order ! i)) (lev0 ! slot0 (snd (order ! i)) (int M - 1)) (int N - 1) = of_nat i"
    if "i < length order"
  proof -
    let ?n = "slot0 (snd (order ! i)) (int M - 1)"
    have n: "?n < M" by (rule slot_bounds(1) [OF N(1)])
    then have i: "i \<in> set (?sp ! ?n)" using sp that by simp
    then have "?sp ! ?n \<noteq> []" by auto
    with buckets_of_props(3) [of ?n ?sp] n have "\<lparr>b_n = ?n, b_vals = ?sp ! ?n\<rparr> \<in> set sbk"
      by (simp add: set_eq bks)
    with P i that show ?thesis by fastforce
  qed
qed

text \<open>A table is right for a set of rules when looking a string up, with its hash, finds out whether
  it is one of them.\<close>

definition table_ok :: "MphMatcherGroup \<Rightarrow> gostring set \<Rightarrow> bool" where
  "table_ok g R \<longleftrightarrow> (\<forall>s. Lookup g (RollingHash s) s = Some (s \<in> R))"

definition hashes_ok :: "(gostring \<times> u32) list \<Rightarrow> bool" where
  "hashes_ok m \<longleftrightarrow> (\<forall>(r, h) \<in> set m. h = RollingHash r)"

abbreviation rules_of :: "(gostring \<times> u32) list \<Rightarrow> gostring set" where
  "rules_of m \<equiv> (if m = [] then {empty_rule} else fst ` set m)"

lemma Build_table:
  assumes perm: "\<And>xs. mset (visit xs) = mset xs" "\<And>bs. mset (sorter bs) = mset bs"
    and m: "ruleMap g = Some m" "hashes_ok m" "length m < 2 ^ 32" and rs: "rules g = []"
    and b: "MphMatcherGroup_Build visit sorter g = Some g'"
  shows "table_ok g' (rules_of m)" "m_otherMatchers g' = m_otherMatchers g"
    "m_ac g' = (case m_ac g of None \<Rightarrow> None | Some ac \<Rightarrow> ACAutomaton_Build ac)"
proof -
  define m' where "m' = (if m = [] then [(empty_rule, RollingHash empty_rule)] else m)"
  define order where "order = visit m'"
  define M where "M = nextPow2 (length m' div 4)"
  define N where "N = nextPow2 (length m')"
  have len: "length m' < 2 ^ 32" "m' \<noteq> []" using m(3) by (auto simp: m'_def)
  then have pos: "0 < M" "0 < N" unfolding M_def N_def by (auto intro!: nextPow2_pos)
  define bks where "bks = buckets_of (sparse_buckets (int M - 1) order 0 (replicate M []))"
  from b m(1) rs obtain lev0 lev1 where
    p: "place_buckets (map fst order) (int N - 1) (sorter bks) (replicate M 0) (replicate N False) (replicate N 0) = Some (lev0, lev1)"
    and g': "level0 g' = lev0" "level1 g' = lev1" "level0Mask g' = int M - 1" "level1Mask g' = int N - 1"
      "rules g' = map fst order" "m_otherMatchers g' = m_otherMatchers g"
      "m_ac g' = (case m_ac g of None \<Rightarrow> None | Some ac \<Rightarrow> ACAutomaton_Build ac)"
    by (auto simp: MphMatcherGroup_Build_def Let_def M_def N_def order_def bks_def m'_def
        split: bind_splits option.splits prod.splits)
  note P = place_rules [OF pos perm(2) [of bks] bks_def p]
  have order: "length order = length m'" "set order = set m'"
    unfolding order_def using perm(1) mset_eq_length mset_eq_setD by blast+
  have R: "fst ` set order = rules_of m" unfolding order(2) by (simp add: m'_def)
  have hash: "snd x = RollingHash (fst x)" if "x \<in> set order" for x
    using that m(2) unfolding order(2) m'_def hashes_ok_def by (auto split: if_splits)
  show "table_ok g' (rules_of m)" unfolding table_ok_def
  proof
    fix s
    define i0 where "i0 = slot0 (RollingHash s) (int M - 1)"
    define i1 where "i1 = slot1 s (lev0 ! i0) (int N - 1)"
    have i: "i0 < length lev0" "i1 < length lev1"
      unfolding i0_def i1_def P(1,2) using pos by (simp_all add: slot_bounds)
    have v: "unat (lev1 ! i1) < length order"
      using P(3) [of "lev1 ! i1"] i(2) len order(1) by (auto simp: unat_of_nat take_bit_nat_eq_self)
    have L: "Lookup g' (RollingHash s) s = Some (s = fst (order ! unat (lev1 ! i1)))"
      using i v by (simp add: Lookup_def g' index_list_def i0_def [symmetric] i1_def [symmetric])
    show "Lookup g' (RollingHash s) s = Some (s \<in> rules_of m)"
    proof (cases "s \<in> fst ` set order")
      case True
      then obtain j where j: "j < length order" "s = fst (order ! j)" by (auto simp: in_set_conv_nth)
      with P(4) [OF j(1)] hash [of "order ! j"] have "lev1 ! i1 = of_nat j" by (simp add: i0_def i1_def)
      then have "unat (lev1 ! i1) = j" using j(1) len(1) order(1) by (simp add: unat_of_nat take_bit_nat_eq_self)
      with L j True R show ?thesis by simp
    next
      case False
      with L v R show ?thesis by auto
    qed
  qed
  show "m_otherMatchers g' = m_otherMatchers g" "m_ac g' = (case m_ac g of None \<Rightarrow> None | Some ac \<Rightarrow> ACAutomaton_Build ac)"
    using g' by simp_all
qed

end
