(* ===== verification/Router_Domain.thy ===== *)
theory Router_Domain
  imports Str_Mph
begin

text \<open>
  The domain condition of the router, \<^verbatim>\<open>DomainMatcher\<close> of \<^verbatim>\<open>app/router/condition.go\<close>: a list of domain
  rules becomes a group of the package \<^verbatim>\<open>strmatcher\<close>, and a target domain is matched against it in
  lower case. The theory shows that the hash table, the automaton and the list of regular expressions
  together answer what the single matchers of \<^verbatim>\<open>matchers.go\<close> would.
\<close>

section \<open>The code\<close>

text \<open>The enumeration \<^verbatim>\<open>Domain_Type\<close> of the configuration messages; other numbers can occur.\<close>

datatype Domain_Type = Domain_Plain | Domain_Regex | Domain_Domain | Domain_Full | Domain_Other int

record RDomain =
  d_Type :: Domain_Type
  d_Value :: gostring
  d_Attribute :: "gostring list"

fun matcherTypeMap :: "Domain_Type \<Rightarrow> Type option" where
  "matcherTypeMap Domain_Plain = Some Substr"
| "matcherTypeMap Domain_Regex = Some Regex"
| "matcherTypeMap Domain_Domain = Some Domain"
| "matcherTypeMap Domain_Full = Some Full"
| "matcherTypeMap (Domain_Other n) = None"

text \<open>The loop of \<^verbatim>\<open>NewMphMatcherGroup\<close>: rules of unknown type and patterns that do not compile are
  logged and skipped.\<close>

definition add_domain ::
  "(gostring \<Rightarrow> gostring) \<Rightarrow> (gostring \<Rightarrow> goerr + (gostring \<Rightarrow> bool)) \<Rightarrow> MphMatcherGroup \<Rightarrow> RDomain \<Rightarrow> MphMatcherGroup option" where
  "add_domain lower compile g d =
     (case matcherTypeMap (d_Type d) of
        None \<Rightarrow> Some g
      | Some t \<Rightarrow> map_option fst (AddPattern lower compile g (d_Value d) t))"

fun add_domains ::
  "(gostring \<Rightarrow> gostring) \<Rightarrow> (gostring \<Rightarrow> goerr + (gostring \<Rightarrow> bool)) \<Rightarrow> MphMatcherGroup \<Rightarrow> RDomain list \<Rightarrow> MphMatcherGroup option" where
  "add_domains lower compile g [] = Some g"
| "add_domains lower compile g (d # ds) =
     do { g' \<leftarrow> add_domain lower compile g d; add_domains lower compile g' ds }"

definition NewDomainMatcher where
  "NewDomainMatcher lower compile visit sorter ds =
     do { g \<leftarrow> add_domains lower compile NewMphMatcherGroup ds; MphMatcherGroup_Build visit sorter g }"

definition ApplyDomain :: "(gostring \<Rightarrow> gostring) \<Rightarrow> MphMatcherGroup \<Rightarrow> gostring \<Rightarrow> bool option" where
  "ApplyDomain lower m domain = map_option (\<lambda>r. r \<noteq> []) (MphMatcherGroup_Match m (lower domain))"

definition DomainMatcher_Apply :: "(gostring \<Rightarrow> gostring) \<Rightarrow> MphMatcherGroup \<Rightarrow> gostring \<Rightarrow> bool option" where
  "DomainMatcher_Apply lower m targetDomain =
     (if targetDomain = [] then Some False else ApplyDomain lower m targetDomain)"

section \<open>The reference\<close>

text \<open>The single matcher a rule stands for.\<close>

fun rule_matcher :: "(gostring \<Rightarrow> gostring) \<Rightarrow> (gostring \<Rightarrow> goerr + (gostring \<Rightarrow> bool)) \<Rightarrow> Domain_Type \<Rightarrow> gostring \<Rightarrow> Matcher option" where
  "rule_matcher lower compile Domain_Plain p = Some (substrMatcher p)"
| "rule_matcher lower compile Domain_Regex p =
     (case compile p of Inl e \<Rightarrow> None | Inr r \<Rightarrow> Some (regexMatcher p r))"
| "rule_matcher lower compile Domain_Domain p = Some (domainMatcher (lower p))"
| "rule_matcher lower compile Domain_Full p = Some (fullMatcher (lower p))"
| "rule_matcher lower compile (Domain_Other n) p = None"

definition rule_matches :: "(gostring \<Rightarrow> gostring) \<Rightarrow> (gostring \<Rightarrow> goerr + (gostring \<Rightarrow> bool)) \<Rightarrow> RDomain \<Rightarrow> gostring \<Rightarrow> bool" where
  "rule_matches lower compile d s \<longleftrightarrow>
     (case rule_matcher lower compile (d_Type d) (d_Value d) of None \<Rightarrow> False | Some m \<Rightarrow> Matcher_Match m s)"

section \<open>What the group holds\<close>

fun rule_keys :: "(gostring \<Rightarrow> gostring) \<Rightarrow> Domain_Type \<Rightarrow> gostring \<Rightarrow> gostring set" where
  "rule_keys lower Domain_Full p = {lower p}"
| "rule_keys lower Domain_Domain p = {lower p, dot # lower p}"
| "rule_keys lower _ p = {}"

definition keyword_rules :: "RDomain list \<Rightarrow> gostring list" where
  "keyword_rules ds = map d_Value (filter (\<lambda>d. d_Type d = Domain_Plain) ds)"

definition regexes :: "(gostring \<Rightarrow> goerr + (gostring \<Rightarrow> bool)) \<Rightarrow> RDomain list \<Rightarrow> Matcher list" where
  "regexes compile ds = concat (map (\<lambda>d. if d_Type d = Domain_Regex
     then (case compile (d_Value d) of Inl e \<Rightarrow> [] | Inr r \<Rightarrow> [regexMatcher (d_Value d) r]) else []) ds)"

definition group_holds ::
  "(gostring \<Rightarrow> gostring) \<Rightarrow> (gostring \<Rightarrow> goerr + (gostring \<Rightarrow> bool)) \<Rightarrow> RDomain list \<Rightarrow> MphMatcherGroup \<Rightarrow> bool" where
  "group_holds lower compile ds g \<longleftrightarrow>
     rules g = [] \<and>
     (\<exists>m. ruleMap g = Some m \<and> hashes_ok m \<and> length m \<le> 2 * length ds \<and> distinct (map fst m) \<and>
        fst ` set m = (\<Union>d \<in> set ds. rule_keys lower (d_Type d) (d_Value d))) \<and>
     m_ac g = (if keyword_rules ds = [] then None else add_keywords NewACAutomaton (keyword_rules ds)) \<and>
     map entry_m (m_otherMatchers g) = regexes compile ds"

lemma set_AList_update: "set (AList.update k v al) \<subseteq> insert (k, v) (set al)"
  by (induction al) auto

lemma hashes_ok_update: "hashes_ok m \<Longrightarrow> h = RollingHash k \<Longrightarrow> hashes_ok (AList.update k h m)"
  using set_AList_update [of k h m] by (fastforce simp: hashes_ok_def)

lemma length_AList_update: "length (AList.update k v al) \<le> Suc (length al)"
  by (induction al) auto

lemma keyword_rules_snoc [simp]:
  "keyword_rules (ds @ [d]) = keyword_rules ds @ (if d_Type d = Domain_Plain then [d_Value d] else [])"
  by (simp add: keyword_rules_def)

lemma group_holds_add:
  assumes h: "group_holds lower compile ds g" and k: "list_all in_table (keyword_rules (ds @ [d]))"
  shows "\<exists>g'. add_domain lower compile g d = Some g' \<and> group_holds lower compile (ds @ [d]) g'"
proof -
  from h obtain m where m: "ruleMap g = Some m" "hashes_ok m" "length m \<le> 2 * length ds" "distinct (map fst m)"
    "fst ` set m = (\<Union>d \<in> set ds. rule_keys lower (d_Type d) (d_Value d))"
    and g: "rules g = []" "m_ac g = (if keyword_rules ds = [] then None else add_keywords NewACAutomaton (keyword_rules ds))"
      "map entry_m (m_otherMatchers g) = regexes compile ds"
    by (auto simp: group_holds_def)
  note defs = add_domain_def AddPattern_def AddFullOrDomainPattern_def group_holds_def regexes_def
  show ?thesis
  proof (cases "d_Type d")
    case Domain_Plain
    from k Domain_Plain have kt: "list_all in_table (keyword_rules ds @ [d_Value d])" by simp
    from add_keywords_trie_of [OF kt] obtain ac
      where "add_keywords NewACAutomaton (keyword_rules ds @ [d_Value d]) = Some ac" by blast
    moreover from this obtain ac0 where "add_keywords NewACAutomaton (keyword_rules ds) = Some ac0"
      "ACAutomaton_Add ac0 (d_Value d) Substr = Some ac"
      by (auto simp: add_keywords_snoc split: bind_splits)
    ultimately show ?thesis using Domain_Plain m g by (auto simp: defs)
  next
    case Domain_Full
    then show ?thesis
      using m g length_AList_update [of "lower (d_Value d)" "RollingHash (lower (d_Value d))" m]
      by (auto simp: defs Let_def hashes_ok_update AList.dom_update AList.distinct_update)
  next
    case Domain_Domain
    let ?p = "lower (d_Value d)"
    let ?m1 = "AList.update (dot # ?p) (RollingHash ?p * PrimeRK + ucast dot) m"
    have "hashes_ok ?m1" using m(2) by (intro hashes_ok_update) simp_all
    moreover have "length (AList.update ?p (RollingHash ?p) ?m1) \<le> Suc (Suc (length m))"
      using length_AList_update le_trans Suc_le_mono by meson
    ultimately show ?thesis using Domain_Domain m g
      by (auto simp: defs Let_def hashes_ok_update AList.dom_update AList.distinct_update)
  next
    case Domain_Regex
    then show ?thesis using m g by (auto simp: defs split: sum.splits)
  next
    case (Domain_Other n)
    then show ?thesis using m g by (auto simp: defs)
  qed
qed

lemma add_domains_snoc:
  "add_domains lower compile g (ds @ [d]) = do { g' \<leftarrow> add_domains lower compile g ds; add_domain lower compile g' d }"
  by (induction ds arbitrary: g) (auto split: bind_splits)

lemma add_domains_holds:
  "list_all in_table (keyword_rules ds) \<Longrightarrow>
   \<exists>g. add_domains lower compile NewMphMatcherGroup ds = Some g \<and> group_holds lower compile ds g"
proof (induction ds rule: rev_induct)
  case Nil
  then show ?case
    by (simp add: NewMphMatcherGroup_def group_holds_def hashes_ok_def keyword_rules_def regexes_def)
next
  case (snoc d ds)
  then obtain g where g: "add_domains lower compile NewMphMatcherGroup ds = Some g" "group_holds lower compile ds g"
    by auto
  from group_holds_add [OF g(2) snoc.prems] g(1) show ?case by (auto simp: add_domains_snoc)
qed

section \<open>Matching\<close>

lemma match_rules_table:
  assumes "table_ok g R"
  shows "match_rules g cs suf (RollingHash suf) =
    Some ((\<exists>v. dot # v \<in> R \<and> suffix (dot # v) (rev cs @ suf) \<and> length suf \<le> length v) \<or> rev cs @ suf \<in> R)"
proof (induction cs arbitrary: suf)
  case Nil
  have "\<not> (suffix (dot # v) suf \<and> length suf \<le> length v)" for v
    by (auto dest: suffix_length_le)
  then show ?case using assms by (auto simp: table_ok_def)
next
  case (Cons c cs)
  have step: "RollingHash suf * PrimeRK + ucast c = RollingHash (c # suf)" by simp
  have first: "(suffix (dot # v) (rev cs @ c # suf) \<and> length suf \<le> length v) \<longleftrightarrow>
      (suffix (dot # v) (rev cs @ c # suf) \<and> length (c # suf) \<le> length v) \<or> (c = dot \<and> v = suf)" for v
  proof -
    have "c = dot \<and> v = suf" if "suffix (dot # v) (rev cs @ c # suf)" "length v = length suf"
    proof -
      from that(1) obtain a where "rev cs @ c # suf = a @ dot # v" by (auto simp: suffix_def)
      with that(2) show ?thesis by (simp add: append_eq_append_conv)
    qed
    then show ?thesis by (auto simp: suffix_def le_less)
  qed
  have "Lookup g (RollingHash (c # suf)) (c # suf) = Some (c # suf \<in> R)" using assms unfolding table_ok_def by blast
  then show ?case
    unfolding match_rules.simps step Let_def Cons.IH by (auto simp: first)
qed

lemma domainMatcher_suffix: "Matcher_Match (domainMatcher p) s \<longleftrightarrow> s = p \<or> suffix (dot # p) s"
  by (simp only: domainMatcher_labels breakDomain_def suffix_split_on flip: suffix_to_prefix)

abbreviation no_dot :: "(gostring \<Rightarrow> gostring) \<Rightarrow> RDomain \<Rightarrow> bool" where
  "no_dot lower d \<equiv> d_Type d \<in> {Domain_Full, Domain_Domain} \<longrightarrow> \<not> prefix [dot] (lower (d_Value d))"

lemma rule_keys_match:
  assumes "no_dot lower d" "d_Type d \<in> {Domain_Full, Domain_Domain}"
  shows "(\<exists>v. dot # v \<in> rule_keys lower (d_Type d) (d_Value d) \<and> suffix (dot # v) s) \<or>
      s \<in> rule_keys lower (d_Type d) (d_Value d) \<longleftrightarrow> rule_matches lower compile d s"
proof -
  have nd: "lower (d_Value d) \<noteq> dot # v" "dot # v \<noteq> lower (d_Value d)" for v
    using assms by (auto dest: sym)
  from assms(2) consider (full) "d_Type d = Domain_Full" | (domain) "d_Type d = Domain_Domain" by auto
  then show ?thesis
  proof cases
    case full
    then show ?thesis using nd by (auto simp: rule_matches_def)
  next
    case domain
    then show ?thesis using nd
      by (auto simp: rule_matches_def domainMatcher_suffix simp del: Matcher_Match.simps dest: sym)
  qed
qed

lemma keyword_group:
  assumes "group_holds lower compile ds g" "ACb = (case m_ac g of None \<Rightarrow> None | Some ac \<Rightarrow> ACAutomaton_Build ac)"
    and pl: "list_all plain (keyword_rules ds)" "plain s"
    and free: "\<forall>p \<in> set (keyword_rules ds). \<forall>q \<in> set (keyword_rules ds). sublist p q \<longrightarrow> p = q"
  shows "(case ACb of None \<Rightarrow> False | Some ac \<Rightarrow> ACAutomaton_Match ac s) \<longleftrightarrow> (\<exists>p \<in> set (keyword_rules ds). sublist p s)"
proof (cases "keyword_rules ds = []")
  case True
  with assms(1,2) show ?thesis by (simp add: group_holds_def)
next
  case False
  have tab: "list_all in_table (keyword_rules ds)" using pl(1) by (auto simp: list_all_iff plain_in_table)
  from keyword_automaton_exists [OF tab] obtain ac ac' ws
    where a: "add_keywords NewACAutomaton (keyword_rules ds) = Some ac" "ACAutomaton_Build ac = Some ac'"
      and w: "words_ok ws" "trie ac' = map (full_row ws) ws" "exists ac' = map (keyword_map (keyword_rules ds)) ws"
        "set ws = insert [] {u. \<exists>p \<in> set (keyword_rules ds). prefix u (word_of p)}" by blast
  have sl: "sublist (canon p) (canon q) \<longleftrightarrow> sublist p q" if "p \<in> set (keyword_rules ds)" "q \<in> insert s (set (keyword_rules ds))" for p q
    using that pl by (auto simp: list_all_iff intro!: sublist_canon_plain simp del: sublist_altdef)
  note found = keywords_found [OF w plain_in_table [OF pl(2)]]
  have "ACAutomaton_Match ac' s \<longleftrightarrow> (\<exists>p \<in> set (keyword_rules ds). sublist p s)"
    using found(1) found(2) free sl by (metis insertI1 insertI2)
  with a False assms(1,2) show ?thesis by (simp add: group_holds_def)
qed

text \<open>A group with at most one rule in its table is always built: there is nothing to collide with.\<close>

lemma Build_single:
  assumes perm: "\<And>xs. mset (visit xs) = mset xs" "\<And>bs. mset (sorter bs) = mset bs"
    and g: "ruleMap g = Some m" "length m \<le> 1" "rules g = []"
    and ac: "\<And>ac. m_ac g = Some ac \<Longrightarrow> \<exists>a. ACAutomaton_Build ac = Some a"
  shows "\<exists>g'. MphMatcherGroup_Build visit sorter g = Some g'"
proof -
  define m' where "m' = (if m = [] then [(empty_rule, RollingHash empty_rule)] else m)"
  have "length m' = 1" using g(2) by (cases m) (auto simp: m'_def)
  moreover have "length (visit m') = length m'" using perm(1) mset_eq_length by blast
  ultimately obtain r h where v: "visit m' = [(r, h)]" by (auto simp: length_Suc_conv)
  have sorted: "sorter [b] = [b]" for b using perm(2) [of "[b]"] by simp
  have slot: "slot0 h 0 = 0" "slot1 s seed 0 = 0" for h s seed by (simp_all add: slot0_def slot1_def)
  have bks: "buckets_of (sparse_buckets 0 [(r, h)] 0 [[]]) = [\<lparr>b_n = 0, b_vals = [0]\<rparr>]"
    by (simp add: buckets_of_def slot)
  have seed: "find_seed [r] 0 [0] [False] [0] = Some (0, True, [True], [0])"
    unfolding find_seed_def by (subst while_option_unfold, simp add: slot, subst while_option_unfold, simp)
  have "\<exists>x. (case m_ac g of None \<Rightarrow> Some None | Some ac \<Rightarrow> do { a \<leftarrow> ACAutomaton_Build ac; Some (Some a) }) = Some x"
    using ac by (cases "m_ac g") auto
  moreover have "place_buckets [r] 0 (sorter (buckets_of (sparse_buckets 0 [(r, h)] 0 [[]]))) [0] [False] [0] = Some ([0], [0])"
    by (simp only: bks sorted, simp add: seed)
  ultimately show ?thesis
    using g(1,3) v \<open>length m' = 1\<close> unfolding MphMatcherGroup_Build_def m'_def
    by (auto simp: Let_def nextPow2_def split: if_splits)
qed

lemma group_automaton_built:
  assumes "list_all in_table (keyword_rules ds)" "group_holds lower compile ds g" "m_ac g = Some ac"
  shows "\<exists>a. ACAutomaton_Build ac = Some a"
  using keyword_automaton_exists [OF assms(1)] assms(2,3)
  by (auto simp: group_holds_def split: if_splits) (metis option.inject)

lemma regexes_simps:
  "regexes compile [] = []"
  "regexes compile (d # ds) = (if d_Type d = Domain_Regex
     then (case compile (d_Value d) of Inl e \<Rightarrow> [] | Inr r \<Rightarrow> [regexMatcher (d_Value d) r]) else []) @ regexes compile ds"
  by (simp_all add: regexes_def)

lemma regexes_match:
  "(\<forall>x \<in> set (regexes compile ds). \<not> Matcher_Match x s) \<longleftrightarrow>
   \<not> (\<exists>d \<in> set ds. d_Type d = Domain_Regex \<and> rule_matches lower compile d s)"
proof (induction ds)
  case (Cons d ds)
  show ?case
  proof (cases "d_Type d = Domain_Regex")
    case True
    show ?thesis
    proof (cases "compile (d_Value d)")
      case (Inl e)
      with True have "regexes compile (d # ds) = regexes compile ds" by (simp add: regexes_simps)
      with Cons True Inl show ?thesis by (simp add: rule_matches_def)
    next
      case (Inr r)
      with True have "regexes compile (d # ds) = regexMatcher (d_Value d) r # regexes compile ds"
        by (simp add: regexes_simps)
      with Cons True Inr show ?thesis by (simp add: rule_matches_def)
    qed
  next
    case False
    then have "regexes compile (d # ds) = regexes compile ds" by (simp add: regexes_simps)
    with Cons False show ?thesis by simp
  qed
qed (simp add: regexes_simps)

lemma built_group_match:
  assumes perm: "\<And>xs. mset (visit xs) = mset xs" "\<And>bs. mset (sorter bs) = mset bs"
    and len: "length ds < 2 ^ 31" and h: "group_holds lower compile ds g0"
    and b: "MphMatcherGroup_Build visit sorter g0 = Some g"
    and pl: "list_all plain (keyword_rules ds)" "plain s" and s: "s \<noteq> empty_rule"
    and free: "\<forall>p \<in> set (keyword_rules ds). \<forall>q \<in> set (keyword_rules ds). sublist p q \<longrightarrow> p = q"
    and nodot: "\<forall>d \<in> set ds. no_dot lower d"
  shows "\<exists>r. MphMatcherGroup_Match g s = Some r \<and> (r \<noteq> [] \<longleftrightarrow> (\<exists>d \<in> set ds. rule_matches lower compile d s))"
proof -
  let ?hash = "\<exists>d \<in> set ds. d_Type d \<in> {Domain_Full, Domain_Domain} \<and> rule_matches lower compile d s"
  let ?kw = "\<exists>d \<in> set ds. d_Type d = Domain_Plain \<and> rule_matches lower compile d s"
  let ?re = "\<exists>d \<in> set ds. d_Type d = Domain_Regex \<and> rule_matches lower compile d s"
  from h obtain m where m: "ruleMap g0 = Some m" "hashes_ok m" "length m \<le> 2 * length ds" "rules g0 = []"
    and keys: "fst ` set m = (\<Union>d \<in> set ds. rule_keys lower (d_Type d) (d_Value d))"
    and others: "map entry_m (m_otherMatchers g0) = regexes compile ds"
    by (auto simp: group_holds_def)
  have "length m < 2 ^ 32" using m(3) len by simp
  note B = Build_table [OF perm m(1,2) this m(4) b]
  define R where "R = rules_of m"
  have "match_rules g (rev s) [] 0 = Some ((\<exists>v. dot # v \<in> R \<and> suffix (dot # v) s) \<or> s \<in> R)"
    using match_rules_table [OF B(1), of "rev s" "[]"] by (simp add: R_def)
  moreover have "(\<exists>v. dot # v \<in> R \<and> suffix (dot # v) s) \<or> s \<in> R \<longleftrightarrow>
      (\<exists>v. dot # v \<in> fst ` set m \<and> suffix (dot # v) s) \<or> s \<in> fst ` set m"
    using s by (auto simp: R_def empty_rule_def)
  moreover have "(\<exists>v. dot # v \<in> fst ` set m \<and> suffix (dot # v) s) \<or> s \<in> fst ` set m \<longleftrightarrow>
      (\<exists>d \<in> set ds. (\<exists>v. dot # v \<in> rule_keys lower (d_Type d) (d_Value d) \<and> suffix (dot # v) s) \<or>
        s \<in> rule_keys lower (d_Type d) (d_Value d))"
    unfolding keys by blast
  moreover have "\<dots> \<longleftrightarrow> ?hash"
  proof (rule bex_cong [OF refl])
    fix d assume "d \<in> set ds"
    then show "(\<exists>v. dot # v \<in> rule_keys lower (d_Type d) (d_Value d) \<and> suffix (dot # v) s) \<or>
        s \<in> rule_keys lower (d_Type d) (d_Value d) \<longleftrightarrow>
        d_Type d \<in> {Domain_Full, Domain_Domain} \<and> rule_matches lower compile d s"
      using rule_keys_match [of d lower s compile] nodot
      by (cases "d_Type d \<in> {Domain_Full, Domain_Domain}") (cases "d_Type d"; simp)+
  qed
  ultimately have R1: "match_rules g (rev s) [] 0 = Some ?hash" by (simp only:)
  have R2: "(case m_ac g of None \<Rightarrow> False | Some ac \<Rightarrow> ACAutomaton_Match ac s) \<longleftrightarrow> ?kw"
    unfolding keyword_group [OF h B(3) pl free] by (auto simp: keyword_rules_def rule_matches_def simp del: sublist_altdef)
  have R3: "filter (\<lambda>e. Matcher_Match (entry_m e) s) (m_otherMatchers g) = [] \<longleftrightarrow> \<not> ?re"
  proof -
    have "filter (\<lambda>e. Matcher_Match (entry_m e) s) (m_otherMatchers g) = [] \<longleftrightarrow>
        (\<forall>x \<in> set (map entry_m (m_otherMatchers g0)). \<not> Matcher_Match x s)"
      by (auto simp: B(2) filter_empty_conv)
    also have "\<dots> \<longleftrightarrow> \<not> ?re" unfolding others by (rule regexes_match)
    finally show ?thesis .
  qed
  have all: "(\<exists>d \<in> set ds. rule_matches lower compile d s) \<longleftrightarrow> ?hash \<or> ?kw \<or> ?re"
  proof -
    have "rule_matches lower compile d s \<Longrightarrow> d_Type d \<in> {Domain_Full, Domain_Domain, Domain_Plain, Domain_Regex}" for d
      by (cases "d_Type d") (auto simp: rule_matches_def)
    then show ?thesis by blast
  qed
  show ?thesis
    unfolding MphMatcherGroup_Match_def R1 R2 all using R3
    by (cases ?hash; cases ?kw) (auto split: list.split)
qed

lemma few_rules:
  assumes "group_holds lower compile ds g" "ruleMap g = Some m"
    and "\<forall>d \<in> set ds. d_Type d \<noteq> Domain_Domain" "length (filter (\<lambda>d. d_Type d = Domain_Full) ds) \<le> 1"
  shows "length m \<le> 1"
proof -
  have m: "distinct (map fst m)" "fst ` set m = (\<Union>d \<in> set ds. rule_keys lower (d_Type d) (d_Value d))"
    using assms(1,2) by (auto simp: group_holds_def)
  have "rule_keys lower (d_Type d) (d_Value d) = (if d_Type d = Domain_Full then {lower (d_Value d)} else {})" if "d \<in> set ds" for d
    using that assms(3) by (cases "d_Type d") auto
  then have "fst ` set m = (\<lambda>d. lower (d_Value d)) ` set (filter (\<lambda>d. d_Type d = Domain_Full) ds)"
    unfolding m(2) by auto
  then have "card (fst ` set m) \<le> length (filter (\<lambda>d. d_Type d = Domain_Full) ds)"
    by (metis card_image_le card_length finite_set le_trans)
  moreover have "card (fst ` set m) = length m"
    using distinct_card [OF m(1)] by simp
  ultimately show ?thesis using assms(4) by simp
qed

text \<open>
  C28: the domain condition of the router means what its rules say. Whatever order Go visits the map
  of rules in and however sort.Sort orders equal buckets, the compiled matcher (two hash tables,
  an automaton, a list of regular expressions) answers true for a lower-case name exactly when the
  single matcher of some rule does, and it never indexes out of range. The name and the keywords
  must consist of lower-case letters, digits and the marks \<open>!$&'()*+,;=:%-._~\<close> (the automaton
  folds capitals, which the single matcher of a keyword does not), the rules must not start
  with a dot and no keyword may be contained in another; there are fewer than \<open>2 ^ 31\<close> rules, and the
  name is not \<open>empty___\<close>, the placeholder rule of an empty table. A group without domain rules and with at most one full rule is always
  built; for others the search for seeds may in principle run on, and the statement is for a group
  that was built.
\<close>

theorem router_domain_equiv:
  assumes perm: "\<And>xs. mset (visit xs) = mset xs" "\<And>bs. mset (sorter bs) = mset bs"
    and len: "length ds < 2 ^ 31"
    and pl: "list_all plain (keyword_rules ds)"
    and free: "\<forall>p \<in> set (keyword_rules ds). \<forall>q \<in> set (keyword_rules ds). sublist p q \<longrightarrow> p = q"
    and nodot: "\<forall>d \<in> set ds. no_dot lower d"
  shows "(\<forall>g s. NewDomainMatcher lower compile visit sorter ds = Some g \<longrightarrow> plain (lower s) \<longrightarrow> lower s \<noteq> empty_rule \<longrightarrow>
      ApplyDomain lower g s = Some (\<exists>d \<in> set ds. rule_matches lower compile d (lower s))) \<and>
    ((\<forall>d \<in> set ds. d_Type d \<noteq> Domain_Domain) \<longrightarrow> length (filter (\<lambda>d. d_Type d = Domain_Full) ds) \<le> 1 \<longrightarrow>
      (\<exists>g. NewDomainMatcher lower compile visit sorter ds = Some g))"
proof -
  have tab: "list_all in_table (keyword_rules ds)" using pl by (auto simp: list_all_iff plain_in_table)
  from add_domains_holds [OF tab, of lower compile] obtain g0
    where g0: "add_domains lower compile NewMphMatcherGroup ds = Some g0" "group_holds lower compile ds g0" by blast
  then have new: "NewDomainMatcher lower compile visit sorter ds = MphMatcherGroup_Build visit sorter g0"
    by (simp add: NewDomainMatcher_def)
  have match: "ApplyDomain lower g s = Some (\<exists>d \<in> set ds. rule_matches lower compile d (lower s))"
    if "NewDomainMatcher lower compile visit sorter ds = Some g" "plain (lower s)" "lower s \<noteq> empty_rule" for g s
    using built_group_match [OF perm len g0(2) that(1) [unfolded new] pl that(2,3) free nodot]
    by (auto simp: ApplyDomain_def)
  have built: "\<exists>g. NewDomainMatcher lower compile visit sorter ds = Some g"
    if "\<forall>d \<in> set ds. d_Type d \<noteq> Domain_Domain" "length (filter (\<lambda>d. d_Type d = Domain_Full) ds) \<le> 1"
  proof -
    from g0(2) obtain m where m: "ruleMap g0 = Some m" "rules g0 = []" by (auto simp: group_holds_def)
    from Build_single [OF perm m(1) few_rules [OF g0(2) m(1) that] m(2) group_automaton_built [OF tab g0(2)]]
    show ?thesis unfolding new .
  qed
  show ?thesis using match built by blast
qed

definition sample_rules :: "RDomain list" where
  "sample_rules = [\<lparr>d_Type = Domain_Domain, d_Value = gostr ''ab'', d_Attribute = []\<rparr>, \<lparr>d_Type = Domain_Full, d_Value = gostr ''x'', d_Attribute = []\<rparr>]"

lemma sample_built: "\<exists>g. NewDomainMatcher id (\<lambda>_. Inl EOF) id id sample_rules = Some g"
proof -
  have "\<not> Option.is_none (NewDomainMatcher id (\<lambda>_. Inl EOF) id id sample_rules)" by code_simp
  then show ?thesis by (simp add: Option.is_none_def)
qed

theorem router_domain_equiv_witness:
  "\<exists>g. NewDomainMatcher id (\<lambda>_. Inl EOF) id id sample_rules = Some g \<and>
     ApplyDomain id g (gostr ''c.ab'') = Some True \<and> ApplyDomain id g (gostr ''c.x'') = Some False"
proof -
  from sample_built obtain g where g: "NewDomainMatcher id (\<lambda>_. Inl EOF) id id sample_rules = Some g" by blast
  have kw: "keyword_rules sample_rules = []" by (simp add: keyword_rules_def sample_rules_def)
  have rules: "length sample_rules < 2 ^ 31" "\<forall>d \<in> set sample_rules. no_dot id d" by (simp_all add: sample_rules_def)
  have ref: "ApplyDomain id g s = Some (\<exists>d \<in> set sample_rules. rule_matches id (\<lambda>_. Inl EOF) d s)"
    if "plain s" "s \<noteq> empty_rule" for s
    using router_domain_equiv [of id id sample_rules id "\<lambda>_. Inl EOF"] g that rules
    by (simp add: kw)
  have "plain (gostr ''c.ab'')" "plain (gostr ''c.x'')" "gostr ''c.ab'' \<noteq> empty_rule" "gostr ''c.x'' \<noteq> empty_rule"
    by (simp_all add: plain_def plain_chars_def empty_rule_def)
  with ref [of "gostr ''c.ab''"] ref [of "gostr ''c.x''"] g show ?thesis
    by (auto simp: sample_rules_def rule_matches_def suffix_def)
qed

end
