(* ===== verification/Router_Condition.thy ===== *)
theory Router_Condition
  imports Routing_Context Router_GeoIP_Build Router_Domain
begin

text \<open>
  The conditions of a routing rule, \<^verbatim>\<open>app/router/condition.go\<close>. Each looks at one aspect of the connection; a
  rule is the conjunction of its conditions. Looking at the target addresses may resolve the domain,
  so a condition is a function on contexts. The process that owns a source port is found by the
  operating system and is a parameter, as are regular expressions and \<^verbatim>\<open>strings.ToLower\<close>.
\<close>

section \<open>Text of an IP address\<close>

text \<open>\<^verbatim>\<open>net.IP.String\<close>: dotted decimal, or hexadecimal groups of which the longest run of two or more zero
  groups is left out.\<close>

definition hex_digit :: "nat \<Rightarrow> byte" where
  "hex_digit n = (if n < 10 then of_nat (48 + n) else of_nat (87 + n))"

fun hex :: "nat \<Rightarrow> gostring" where
  "hex n = (if n < 16 then [hex_digit n] else hex (n div 16) @ [hex_digit (n mod 16)])"

declare hex.simps [simp del]

fun join :: "gostring \<Rightarrow> gostring list \<Rightarrow> gostring" where
  "join sep [] = []"
| "join sep [s] = s"
| "join sep (s # ss) = s @ sep @ join sep ss"

fun ip_groups :: "byte list \<Rightarrow> nat list" where
  "ip_groups (a # b # bs) = (unat a * 256 + unat b) # ip_groups bs"
| "ip_groups _ = []"

definition zero_run :: "nat list \<Rightarrow> (nat \<times> nat) option" where
  "zero_run g =
     (let run = (\<lambda>i. length (takeWhile (\<lambda>x. x = 0) (drop i g)));
          m = foldl max 0 (map run [0..<length g])
      in if m < 2 then None else Some (hd (filter (\<lambda>i. run i = m) [0..<length g]), m))"

definition ipv6_text :: "nat list \<Rightarrow> gostring" where
  "ipv6_text g =
     (case zero_run g of
        None \<Rightarrow> join (gostr '':'') (map hex g)
      | Some (i, m) \<Rightarrow> join (gostr '':'') (map hex (take i g)) @ gostr ''::'' @ join (gostr '':'') (map hex (drop (i + m) g)))"

definition IP_String :: "byte list \<Rightarrow> gostring" where
  "IP_String ip =
     (if ip = [] then gostr ''<nil>''
      else case To4 ip of
        Some b \<Rightarrow> join (gostr ''.'') (map (\<lambda>x. itoa (unat x)) b)
      | None \<Rightarrow>
          if length ip = 16 then ipv6_text (ip_groups ip)
          else gostr ''?'' @ concat (map (\<lambda>x. [hex_digit (unat x div 16), hex_digit (unat x mod 16)]) ip))"

section \<open>Conditions\<close>

datatype MatcherAsType = MatcherAsType_Local | MatcherAsType_Source | MatcherAsType_Target | MatcherAsType_VlessRoute

datatype 's Condition =
    DomainMatcher MphMatcherGroup
  | IPMatcher "'s GeoIPMatcher" MatcherAsType
  | PortMatcher "MemoryPortRange list" MatcherAsType
  | NetworkMatcher "bool list"
  | UserMatcher "gostring list" "(gostring \<Rightarrow> bool) list"
  | InboundTagMatcher "gostring list"
  | ProtocolMatcher "gostring list"
  | AttributeMatcher "(gostring \<times> (gostring \<Rightarrow> bool)) list"
  | ProcessNameMatcher "gostring list"

record 's route_env =
  re_netipx :: "'s netipx"
  re_lower :: "gostring \<Rightarrow> gostring"
  re_LookupIP :: "nat \<Rightarrow> gostring \<Rightarrow> goerr + byte list list"
  re_FindProcess :: "Destination \<Rightarrow> goerr + int \<times> gostring"
  re_Getpid :: int

definition HasPrefix :: "gostring \<Rightarrow> gostring \<Rightarrow> bool" where
  "HasPrefix s p \<longleftrightarrow> take (length p) s = p"

subsection \<open>Constructors\<close>

definition NewPortMatcher :: "PortRange list \<Rightarrow> MatcherAsType \<Rightarrow> 's Condition" where
  "NewPortMatcher list asType = PortMatcher (PortListFromProto list) asType"

definition NewNetworkMatcher :: "Network list \<Rightarrow> 's Condition" where
  "NewNetworkMatcher network = NetworkMatcher (foldl (\<lambda>l n. l[Network_num n := True]) (replicate 8 False) network)"

fun split_users ::
  "(gostring \<Rightarrow> goerr + (gostring \<Rightarrow> bool)) \<Rightarrow> gostring list \<Rightarrow> gostring list \<times> (gostring \<Rightarrow> bool) list" where
  "split_users compile [] = ([], [])"
| "split_users compile (user # users) =
     (case split_users compile users of (us, ps) \<Rightarrow>
        if user \<noteq> [] then
          if length user > 7 \<and> HasPrefix user (gostr ''regexp:'') then
            (case compile (drop 7 user) of Inr re \<Rightarrow> (us, re # ps) | Inl e \<Rightarrow> (us, ps))
          else (user # us, ps)
        else (us, ps))"

definition NewUserMatcher :: "(gostring \<Rightarrow> goerr + (gostring \<Rightarrow> bool)) \<Rightarrow> gostring list \<Rightarrow> 's Condition" where
  "NewUserMatcher compile users = (case split_users compile users of (us, ps) \<Rightarrow> UserMatcher us ps)"

definition NewInboundTagMatcher :: "gostring list \<Rightarrow> 's Condition" where
  "NewInboundTagMatcher tags = InboundTagMatcher (filter (\<lambda>tag. tag \<noteq> []) tags)"

definition NewProtocolMatcher :: "gostring list \<Rightarrow> 's Condition" where
  "NewProtocolMatcher protocols = ProtocolMatcher (filter (\<lambda>p. p \<noteq> []) protocols)"

definition NewIPMatcher ::
  "'s netipx \<Rightarrow> (GeoIP list \<Rightarrow> GeoIP list) \<Rightarrow> 's set_factory \<Rightarrow> GeoIP option list \<Rightarrow> MatcherAsType \<Rightarrow> 's set_factory \<times> (goerr + 's Condition)" where
  "NewIPMatcher N srt shared geoips asType =
     apsnd (map_sum id (\<lambda>matcher. IPMatcher matcher asType)) (BuildOptimizedGeoIPMatcher N srt shared geoips)"

subsection \<open>Apply\<close>

definition IPMatcher_Apply ::
  "'s route_env \<Rightarrow> 's GeoIPMatcher \<Rightarrow> MatcherAsType \<Rightarrow> ResolvableContext \<Rightarrow> (ResolvableContext \<times> bool) option" where
  "IPMatcher_Apply E m asType ctx =
     do { (ctx', ips) \<leftarrow>
            (case asType of
               MatcherAsType_Local \<Rightarrow> map_option (Pair ctx) (GetLocalIPs (rc_session ctx))
             | MatcherAsType_Source \<Rightarrow> map_option (Pair ctx) (GetSourceIPs (rc_session ctx))
             | MatcherAsType_Target \<Rightarrow> ctx_GetTargetIPs (re_LookupIP E) ctx
             | MatcherAsType_VlessRoute \<Rightarrow> None);
          Some (ctx', GeoIP_AnyMatch (re_netipx E) m ips) }"

definition PortMatcher_Apply :: "MemoryPortRange list \<Rightarrow> MatcherAsType \<Rightarrow> SessionContext \<Rightarrow> bool" where
  "PortMatcher_Apply port asType ctx =
     MemoryPortList_Contains port
       (case asType of
          MatcherAsType_Local \<Rightarrow> GetLocalPort ctx
        | MatcherAsType_Source \<Rightarrow> GetSourcePort ctx
        | MatcherAsType_Target \<Rightarrow> GetTargetPort ctx
        | MatcherAsType_VlessRoute \<Rightarrow> GetVlessRoute ctx)"

definition NetworkMatcher_Apply :: "bool list \<Rightarrow> SessionContext \<Rightarrow> bool" where
  "NetworkMatcher_Apply list ctx = list ! Network_num (GetNetwork ctx)"

definition UserMatcher_Apply :: "gostring list \<Rightarrow> (gostring \<Rightarrow> bool) list \<Rightarrow> SessionContext \<Rightarrow> bool" where
  "UserMatcher_Apply users patterns ctx =
     (let user = GetUser ctx in
      if user = [] then False
      else if list_ex (\<lambda>u. u = user) users then True else list_ex (\<lambda>re. re user) patterns)"

definition InboundTagMatcher_Apply :: "gostring list \<Rightarrow> SessionContext \<Rightarrow> bool" where
  "InboundTagMatcher_Apply tags ctx =
     (let tag = GetInboundTag ctx in if tag = [] then False else list_ex (\<lambda>t. t = tag) tags)"

definition ProtocolMatcher_Apply :: "gostring list \<Rightarrow> SessionContext \<Rightarrow> bool" where
  "ProtocolMatcher_Apply protocols ctx =
     (let protocol = GetProtocol ctx in if protocol = [] then False else list_ex (HasPrefix protocol) protocols)"

text \<open>Headers are visited in the order of the list; of two whose lower-case names agree the later one
  counts.\<close>

definition Attribute_Match ::
  "(gostring \<Rightarrow> gostring) \<Rightarrow> (gostring \<times> (gostring \<Rightarrow> bool)) list \<Rightarrow> (gostring \<times> gostring) list \<Rightarrow> bool" where
  "Attribute_Match lower configuredKeys attrs =
     (let httpHeaders = foldl (\<lambda>h (key, value). h(lower key \<mapsto> value)) Map.empty attrs in
      list_all (\<lambda>(key, regex). case httpHeaders key of None \<Rightarrow> False | Some a \<Rightarrow> regex a) configuredKeys)"

definition AttributeMatcher_Apply ::
  "(gostring \<Rightarrow> gostring) \<Rightarrow> (gostring \<times> (gostring \<Rightarrow> bool)) list \<Rightarrow> SessionContext \<Rightarrow> bool" where
  "AttributeMatcher_Apply lower configuredKeys ctx =
     (case GetAttributes ctx of None \<Rightarrow> False | Some attrs \<Rightarrow> Attribute_Match lower configuredKeys attrs)"

definition ProcessNameMatcher_Apply ::
  "(Destination \<Rightarrow> goerr + int \<times> gostring) \<Rightarrow> int \<Rightarrow> gostring list \<Rightarrow> SessionContext \<Rightarrow> bool option" where
  "ProcessNameMatcher_Apply FindProcess pid0 names ctx =
     do { ips \<leftarrow> GetSourceIPs ctx;
          if ips = [] then None
          else
            let srcPort = Port_String (GetSourcePort ctx); srcIP = IP_String (hd ips) in
            (case (case GetNetwork ctx of Network_TCP \<Rightarrow> Some (gostr ''tcp'') | Network_UDP \<Rightarrow> Some (gostr ''udp'') | _ \<Rightarrow> None) of
               None \<Rightarrow> Some False
             | Some network \<Rightarrow>
                 (case ParseDestination (join (gostr '':'') [network, srcIP, srcPort]) of
                    Inl e \<Rightarrow> Some False
                  | Inr src \<Rightarrow>
                      (case FindProcess src of
                         Inl e \<Rightarrow> Some False
                       | Inr (pid, name) \<Rightarrow>
                           Some (list_ex (\<lambda>n. (name = gostr ''/self'' \<and> pid = pid0) \<or> n = name) names)))) }"

fun Condition_Apply :: "'s route_env \<Rightarrow> 's Condition \<Rightarrow> ResolvableContext \<Rightarrow> (ResolvableContext \<times> bool) option" where
  "Condition_Apply E (DomainMatcher m) ctx =
     do { domain \<leftarrow> GetTargetDomain (rc_session ctx);
          b \<leftarrow> DomainMatcher_Apply (re_lower E) m domain; Some (ctx, b) }"
| "Condition_Apply E (IPMatcher m asType) ctx = IPMatcher_Apply E m asType ctx"
| "Condition_Apply E (PortMatcher port asType) ctx = Some (ctx, PortMatcher_Apply port asType (rc_session ctx))"
| "Condition_Apply E (NetworkMatcher list) ctx = Some (ctx, NetworkMatcher_Apply list (rc_session ctx))"
| "Condition_Apply E (UserMatcher us ps) ctx = Some (ctx, UserMatcher_Apply us ps (rc_session ctx))"
| "Condition_Apply E (InboundTagMatcher tags) ctx = Some (ctx, InboundTagMatcher_Apply tags (rc_session ctx))"
| "Condition_Apply E (ProtocolMatcher ps) ctx = Some (ctx, ProtocolMatcher_Apply ps (rc_session ctx))"
| "Condition_Apply E (AttributeMatcher ks) ctx = Some (ctx, AttributeMatcher_Apply (re_lower E) ks (rc_session ctx))"
| "Condition_Apply E (ProcessNameMatcher ns) ctx =
     map_option (Pair ctx) (ProcessNameMatcher_Apply (re_FindProcess E) (re_Getpid E) ns (rc_session ctx))"

text \<open>\<^verbatim>\<open>ConditionChan\<close>: all conditions, up to the first that fails.\<close>

fun ConditionChan_Apply :: "'s route_env \<Rightarrow> 's Condition list \<Rightarrow> ResolvableContext \<Rightarrow> (ResolvableContext \<times> bool) option" where
  "ConditionChan_Apply E [] ctx = Some (ctx, True)"
| "ConditionChan_Apply E (cond # conds) ctx =
     do { (ctx', b) \<leftarrow> Condition_Apply E cond ctx;
          if \<not> b then Some (ctx', False) else ConditionChan_Apply E conds ctx' }"

subsection \<open>Attributes of geosite entries\<close>

definition GeoBooleanMatcher_Match :: "gostring \<Rightarrow> gostring list \<Rightarrow> bool" where
  "GeoBooleanMatcher_Match m attribute = list_ex (\<lambda>key. key = m) attribute"

definition GeoAttributeList_Match :: "gostring list \<Rightarrow> gostring list \<Rightarrow> bool" where
  "GeoAttributeList_Match al attribute = list_all (\<lambda>m. GeoBooleanMatcher_Match m attribute) al"

definition ParseAttrs :: "(gostring \<Rightarrow> gostring) \<Rightarrow> gostring list \<Rightarrow> gostring list" where
  "ParseAttrs lower attrs = map lower attrs"

end
