(* ===== verification/Sniff_HTTP.thy ===== *)
theory Sniff_HTTP
  imports Sniff_TLS Router_Condition
begin

text \<open>
  \<^verbatim>\<open>common/protocol/http/sniff.go\<close>, with \<^verbatim>\<open>ParseHost\<close> of \<^verbatim>\<open>common/protocol/http/headers.go\<close> and the attributes of
  \<^verbatim>\<open>session.Content\<close>: what the first bytes of a connection say about the host of an HTTP request. Header names and hosts
  are folded by \<^verbatim>\<open>strings.ToLower\<close>, a parameter.
\<close>

section \<open>Attributes of the content\<close>

definition SetAttribute :: "gostring \<Rightarrow> gostring \<Rightarrow> Content \<Rightarrow> Content" where
  "SetAttribute name value c =
     c\<lparr>ct_Attributes := Some (AList.update name value (case ct_Attributes c of None \<Rightarrow> [] | Some a \<Rightarrow> a))\<rparr>"

definition Content_Attribute :: "Content \<Rightarrow> gostring \<Rightarrow> gostring" where
  "Content_Attribute c name =
     (case ct_Attributes c of
        None \<Rightarrow> []
      | Some a \<Rightarrow> (case map_of a name of None \<Rightarrow> [] | Some v \<Rightarrow> v))"

section \<open>Hosts\<close>

text \<open>\<^verbatim>\<open>strconv.Atoi\<close> fails on anything but decimal digits with a sign before them, and on what 64 bits do not hold.\<close>

definition Atoi_fails :: "gostring \<Rightarrow> bool" where
  "Atoi_fails s =
     (let digits = (if s \<noteq> [] \<and> (hd s = 43 \<or> hd s = 45) then tl s else s) in
      digits = [] \<or> \<not> list_all is_digit digits \<or> decimal digits \<ge> 2 ^ 63 + (if s \<noteq> [] \<and> hd s = 45 then 1 else 0))"

text \<open>The value of \<^verbatim>\<open>Atoi\<close>, cut to the sixteen bits of a port.\<close>

definition Atoi_port :: "gostring \<Rightarrow> Port" where
  "Atoi_port s =
     (if hd s = 45 then of_int (- decimal (tl s)) else if hd s = 43 then of_int (decimal (tl s)) else of_int (decimal s))"

definition ParseHost :: "gostring \<Rightarrow> Port \<Rightarrow> goerr + Destination" where
  "ParseHost rawHost defaultPort =
     (case SplitHostPort rawHost of
        Inl e \<Rightarrow>
          if e = ErrMsg ''missing port in address'' then Inr (TCPDestination (ParseAddress rawHost) defaultPort) else Inl e
      | Inr (host, rawPort) \<Rightarrow>
          if length rawPort > 0 then
            if Atoi_fails rawPort then Inl (ErrMsg ''strconv.Atoi'')
            else Inr (TCPDestination (ParseAddress host) (Atoi_port rawPort))
          else Inr (TCPDestination (ParseAddress host) defaultPort))"

fun Address_String :: "Address \<Rightarrow> gostring" where
  "Address_String (ipv4Address a) = IP_String a"
| "Address_String (ipv6Address a) = gostr ''['' @ IP_String a @ gostr '']''"
| "Address_String (domainAddress d) = d"

section \<open>The sniffer\<close>

text \<open>\<^verbatim>\<open>strings.EqualFold\<close> with a string of ASCII letters, on as many bytes.\<close>

definition ascii_lower :: "byte \<Rightarrow> byte" where
  "ascii_lower c = (if 65 \<le> c \<and> c \<le> 90 then c + 32 else c)"

definition http_methods :: "gostring list" where
  "http_methods = map gostr [''get'', ''post'', ''head'', ''put'', ''delete'', ''options'', ''connect'']"

definition errNotHTTPMethod :: goerr where "errNotHTTPMethod = ErrMsg ''not an HTTP method''"

fun http_method_in :: "gostring list \<Rightarrow> byte list \<Rightarrow> goerr option" where
  "http_method_in [] b = Some errNotHTTPMethod"
| "http_method_in (m # ms) b =
     (if length b \<ge> length m \<and> map ascii_lower (take (length m) b) = m then None
      else if length b < length m then Some ErrNoClue
      else http_method_in ms b)"

definition beginWithHTTPMethod :: "byte list \<Rightarrow> goerr option" where
  "beginWithHTTPMethod b = http_method_in http_methods b"

text \<open>\<^verbatim>\<open>bytes.SplitN(header, ":", 2)\<close>, where it has two parts.\<close>

definition header_parts :: "byte list \<Rightarrow> (gostring \<times> gostring) option" where
  "header_parts h =
     (if 58 \<in> set h then Some (takeWhile (\<lambda>c. c \<noteq> 58) h, tl (dropWhile (\<lambda>c. c \<noteq> 58) h)) else None)"

text \<open>The loop over the lines after the first: the host found last, and the content with the attributes.\<close>

fun http_headers ::
  "(gostring \<Rightarrow> gostring) \<Rightarrow> bool \<Rightarrow> byte list list \<Rightarrow> gostring \<Rightarrow> Content option \<Rightarrow> (goerr + gostring) \<times> Content option" where
  "http_headers lower shouldSniffAttr [] host c = (Inr host, c)"
| "http_headers lower shouldSniffAttr (header # headers) host c =
     (if length header = 0 then (Inr host, c)
      else
        (case header_parts header of
           None \<Rightarrow> http_headers lower shouldSniffAttr headers host c
         | Some (k, v) \<Rightarrow>
             (let key = lower k; value = TrimSpace v;
                  c' = (if shouldSniffAttr then map_option (SetAttribute key value) c else c)
              in if key = gostr ''host'' then
                   (case ParseHost (lower value) 80 of
                      Inl e \<Rightarrow> (Inl e, c')
                    | Inr dest \<Rightarrow> (case d_Address dest of
                         None \<Rightarrow> (Inl EOF, c')
                       | Some a \<Rightarrow> http_headers lower shouldSniffAttr headers (Address_String a) c'))
                 else http_headers lower shouldSniffAttr headers host c')))"

text \<open>The answer is the host of a header of version \<^verbatim>\<open>HTTP1\<close>.\<close>

definition SniffHTTP :: "(gostring \<Rightarrow> gostring) \<Rightarrow> byte list \<Rightarrow> Content option \<Rightarrow> (goerr + gostring) \<times> Content option" where
  "SniffHTTP lower b content =
     (let shouldSniffAttr = (case content of None \<Rightarrow> False | Some c \<Rightarrow> ct_Attributes c = None \<or> ct_Attributes c = Some []) in
      case beginWithHTTPMethod b of
        Some e \<Rightarrow> (Inl e, content)
      | None \<Rightarrow>
          (let headers = split_on 10 b in
           case http_headers lower shouldSniffAttr (drop 1 headers) [] content of
             (Inl e, content') \<Rightarrow> (Inl e, content')
           | (Inr host, content') \<Rightarrow>
               (let requestLineParts = split_on 32 (hd headers);
                    content'' =
                      (if shouldSniffAttr \<and> length requestLineParts = 3
                       then map_option (SetAttribute (gostr '':path'') (requestLineParts ! 1) \<circ>
                                        SetAttribute (gostr '':method'') (requestLineParts ! 0)) content'
                       else content')
                in (if length host > 0 then Inr host else Inl ErrNoClue, content''))))"

section \<open>Which host is found\<close>

lemma ParseHost_address: "ParseHost h p = Inr d \<Longrightarrow> \<exists>a. d_Address d = Some a"
  by (auto simp: ParseHost_def TCPDestination_def split: sum.splits if_splits)

text \<open>The address of a host line, as the loop reads it.\<close>

definition host_line :: "(gostring \<Rightarrow> gostring) \<Rightarrow> byte list \<Rightarrow> (goerr + gostring) option" where
  "host_line lower header =
     (case header_parts header of
        None \<Rightarrow> None
      | Some (k, v) \<Rightarrow>
          if lower k = gostr ''host''
          then Some (case ParseHost (lower (TrimSpace v)) 80 of Inl e \<Rightarrow> Inl e | Inr d \<Rightarrow> Inr (Address_String (the (d_Address d))))
          else None)"

fun last_host :: "(gostring \<Rightarrow> gostring) \<Rightarrow> byte list list \<Rightarrow> gostring \<Rightarrow> goerr + gostring" where
  "last_host lower [] host = Inr host"
| "last_host lower (l # ls) host =
     (if l = [] then Inr host
      else (case host_line lower l of
              None \<Rightarrow> last_host lower ls host
            | Some (Inl e) \<Rightarrow> Inl e
            | Some (Inr h) \<Rightarrow> last_host lower ls h))"

lemma http_headers_host: "fst (http_headers lower attr ls host c) = last_host lower ls host"
proof (induction ls arbitrary: host c)
  case (Cons l ls)
  show ?case
  proof (cases "l = [] \<or> header_parts l = None")
    case True
    with Cons show ?thesis by (auto simp: host_line_def)
  next
    case False
    then obtain k v where kv: "header_parts l = Some (k, v)" by auto
    show ?thesis
    proof (cases "ParseHost (lower (TrimSpace v)) 80")
      case (Inl e)
      with Cons False kv show ?thesis by (simp add: host_line_def Let_def)
    next
      case (Inr d)
      then obtain a where "d_Address d = Some a" using ParseHost_address by blast
      with Inr Cons False kv show ?thesis by (simp add: host_line_def Let_def)
    qed
  qed
qed simp

text \<open>The end of the headers of a message with CR LF lines is not an empty line here: lines of the body count as well.\<close>

lemma last_host_append:
  assumes "[] \<notin> set ls" "l \<noteq> []" "\<forall>x \<in> set ls. \<forall>e. host_line lower x \<noteq> Some (Inl e)" "host_line lower l = Some (Inr h)"
    and "\<forall>x \<in> set after. host_line lower x = None"
  shows "last_host lower (ls @ l # after) host = Inr h"
proof -
  have "last_host lower after h = Inr h" using assms(5) by (induction after) auto
  moreover have "last_host lower (ls @ l # after) host = last_host lower after h"
    using assms(1,3) by (induction ls arbitrary: host) (use assms(2,4) in \<open>auto split: option.splits sum.splits\<close>)
  ultimately show ?thesis by simp
qed

lemma SniffHTTP_last_host:
  assumes "beginWithHTTPMethod b = None" "split_on 10 b = request # ls @ l # after" "h \<noteq> []"
    and "[] \<notin> set ls" "l \<noteq> []" "\<forall>x \<in> set ls. \<forall>e. host_line lower x \<noteq> Some (Inl e)" "host_line lower l = Some (Inr h)"
    and "\<forall>x \<in> set after. host_line lower x = None"
  shows "fst (SniffHTTP lower b c) = Inr h"
proof -
  have *: "fst (http_headers lower attr (ls @ l # after) [] c) = Inr h" for attr
    using last_host_append [OF assms(4-8)] by (simp add: http_headers_host)
  define attr where "attr = (case c of None \<Rightarrow> False | Some c \<Rightarrow> ct_Attributes c = None \<or> ct_Attributes c = Some [])"
  obtain c' where "http_headers lower attr (ls @ l # after) [] c = (Inr h, c')"
    using * [of attr] by (cases "http_headers lower attr (ls @ l # after) [] c") auto
  then show ?thesis using assms(1,2,3) by (simp add: SniffHTTP_def Let_def flip: attr_def)
qed

text \<open>A request for \<^verbatim>\<open>a.de\<close> whose body has a line that reads like a header: the host is the one of the body.\<close>

lemma SniffHTTP_body_host:
  "fst (SniffHTTP (map ascii_lower)
     (gostr ''POST / HTTP/1.1'' @ [13, 10] @ gostr ''Host: a.de'' @ [13, 10, 13, 10] @ gostr ''host: b.org'') None) = Inr (gostr ''b.org'')"
  by code_simp

end
