(* ===== verification/Sniffer.thy ===== *)
theory Sniffer
  imports Sniff_HTTP
begin

text \<open>
  \<^verbatim>\<open>app/dispatcher/sniffer.go\<close> and \<^verbatim>\<open>fakednssniffer.go\<close>, with the sniffers of \<^verbatim>\<open>common/protocol/bittorrent\<close>. The QUIC sniffer,
  which decrypts a packet, and the clock are parameters; the fake DNS engine is given by its answers. A sniffer may add
  attributes to the content of the session, which is passed along. \<open>None\<close> is a panic.
\<close>

unbundle bit_operations_syntax

section \<open>Results\<close>

datatype http_version = HTTP1 | HTTP2

datatype SniffResult =
    HTTPHeader http_version gostring
  | TLSHeader gostring
  | BittorrentHeader
  | QUICHeader gostring
  | fakeDNSSniffResult gostring
  | DNSThenOthersSniffResult gostring gostring
  | compositeResult SniffResult SniffResult

fun res_Protocol :: "SniffResult \<Rightarrow> gostring" where
  "res_Protocol (HTTPHeader v h) = (case v of HTTP1 \<Rightarrow> gostr ''http1'' | HTTP2 \<Rightarrow> gostr ''http2'')"
| "res_Protocol (TLSHeader d) = gostr ''tls''"
| "res_Protocol BittorrentHeader = gostr ''bittorrent''"
| "res_Protocol (QUICHeader d) = gostr ''quic''"
| "res_Protocol (fakeDNSSniffResult d) = gostr ''fakedns''"
| "res_Protocol (DNSThenOthersSniffResult d p) = gostr ''fakedns+others''"
| "res_Protocol (compositeResult d p) = res_Protocol p"

fun res_Domain :: "SniffResult \<Rightarrow> gostring" where
  "res_Domain (HTTPHeader v h) = h"
| "res_Domain (TLSHeader d) = d"
| "res_Domain BittorrentHeader = []"
| "res_Domain (QUICHeader d) = d"
| "res_Domain (fakeDNSSniffResult d) = d"
| "res_Domain (DNSThenOthersSniffResult d p) = d"
| "res_Domain (compositeResult d p) = res_Domain d"

section \<open>Sniffers\<close>

definition errNotBittorrent :: goerr where "errNotBittorrent = ErrMsg ''not bittorrent header''"

definition SniffBittorrent :: "byte list \<Rightarrow> (goerr + SniffResult) option" where
  "SniffBittorrent b =
     (if length b < 20 then Some (Inl ErrNoClue)
      else
        do { b0 \<leftarrow> at_index b 0;
             name \<leftarrow> go_slice b 1 20;
             Some (if b0 = 19 \<and> name = gostr ''BitTorrent protocol'' then Inr BittorrentHeader else Inl errNotBittorrent) })"

text \<open>
  The buffer of \<^verbatim>\<open>SniffUTP\<close> is what is left of the packet; \<^verbatim>\<open>binary.Read\<close> of a byte and \<^verbatim>\<open>ReadBytes\<close> fail when too little
  is left. Each round of the loop over the extensions reads two bytes.
\<close>

fun utp_extensions :: "byte \<Rightarrow> byte list \<Rightarrow> goerr + byte list" where
  "utp_extensions extension buffer =
     (if extension = 0 then Inr buffer
      else if extension \<noteq> 1 then Inl errNotBittorrent
      else
        (case buffer of
           [] \<Rightarrow> Inl ErrNoClue
         | [_] \<Rightarrow> Inl ErrNoClue
         | ext # len # rest \<Rightarrow> if length rest < unat len then Inl ErrNoClue else utp_extensions ext (drop (unat len) rest)))"

declare utp_extensions.simps [simp del]

text \<open>The comparison is between 64-bit floats: whole numbers below \<open>2 ^ 53\<close> are exact. \<^verbatim>\<open>24*time.Hour\<close> is in nanoseconds.\<close>

definition day_ns :: int where "day_ns = 24 * 3600 * 1000000000"

definition utp_timestamp :: "int \<Rightarrow> byte list \<Rightarrow> goerr + SniffResult" where
  "utp_timestamp unixMicro buffer =
     (if length buffer < 2 then Inl ErrNoClue
      else let buffer1 = drop 2 buffer in
        if length buffer1 < 4 then Inl ErrNoClue
        else if \<bar>unixMicro - uint (Uint32 buffer1)\<bar> > day_ns then Inl errNotBittorrent
        else Inr BittorrentHeader)"

definition SniffUTP :: "int \<Rightarrow> byte list \<Rightarrow> (goerr + SniffResult) option" where
  "SniffUTP unixMicro b =
     (if length b < 20 then Some (Inl ErrNoClue)
      else
        do { b0 \<leftarrow> at_index b 0;
             if drop_bit 4 b0 AND 0xF > 4 \<or> b0 AND 0xF \<noteq> 1 then Some (Inl errNotBittorrent)
             else
               do { extension \<leftarrow> at_index b 1;
                    if extension \<noteq> 0 \<and> extension \<noteq> 1 then Some (Inl errNotBittorrent)
                    else Some (case utp_extensions extension (drop 2 b) of Inl e \<Rightarrow> Inl e | Inr buffer \<Rightarrow> utp_timestamp unixMicro buffer) } })"

section \<open>The fake DNS sniffers\<close>

record fake_engine =
  fd_domain :: "Address \<Rightarrow> gostring"
  fd_rev0 :: bool
  fd_in_pool :: "Address \<Rightarrow> bool"

text \<open>A sniffer gets the content of the session and the bytes, or nil for a metadata sniffer; it may panic.\<close>

record protocolSniffer =
  si_sniff :: "Content option \<Rightarrow> byte list option \<Rightarrow> ((goerr + SniffResult) \<times> Content option) option"
  si_metadata :: bool
  si_network :: Network

text \<open>The result, and what is stored under \<^verbatim>\<open>ipAddressInRange\<close> when the context has that value.\<close>

definition fakedns_sniff :: "fake_engine \<Rightarrow> Destination \<Rightarrow> bool \<Rightarrow> ((goerr + SniffResult) \<times> bool option) option" where
  "fakedns_sniff engine target asked =
     (let found = (if d_Network target = Network_TCP \<or> d_Network target = Network_UDP
                   then map_option (fd_domain engine) (d_Address target) else Some [])
      in do { domain \<leftarrow> found;
              if domain \<noteq> [] then Some (Inr (fakeDNSSniffResult domain), None)
              else if asked \<and> fd_rev0 engine then do { a \<leftarrow> d_Address target; Some (Inl ErrNoClue, Some (fd_in_pool engine a)) }
              else Some (Inl ErrNoClue, None) })"

definition newFakeDNSSniffer :: "fake_engine \<Rightarrow> Destination \<Rightarrow> protocolSniffer" where
  "newFakeDNSSniffer engine target =
     \<lparr>si_sniff = (\<lambda>c b. map_option (\<lambda>(res, _). (res, c)) (fakedns_sniff engine target False)), si_metadata = True, si_network = Network_Unknown\<rparr>"

fun sniff_others ::
  "protocolSniffer list \<Rightarrow> Content option \<Rightarrow> byte list option \<Rightarrow> ((goerr + SniffResult) \<times> Content option) option" where
  "sniff_others [] c b = Some (Inl ErrNoClue, c)"
| "sniff_others (v # vs) c b =
     (if si_metadata v \<or> b \<noteq> None then
        (case si_sniff v c b of
           None \<Rightarrow> None
         | Some (Inr r, c') \<Rightarrow> Some (Inr (DNSThenOthersSniffResult (res_Domain r) (res_Protocol r)), c')
         | Some (Inl e, c') \<Rightarrow> sniff_others vs c' b)
      else sniff_others vs c b)"

definition newFakeDNSThenOthers :: "fake_engine \<Rightarrow> Destination \<Rightarrow> protocolSniffer list \<Rightarrow> protocolSniffer" where
  "newFakeDNSThenOthers engine target others =
     \<lparr>si_sniff = (\<lambda>c b. do { (res, inRange) \<leftarrow> fakedns_sniff engine target True;
                             (case res of
                                Inr r \<Rightarrow> Some (Inr r, c)
                              | Inl e \<Rightarrow> (case inRange of Some True \<Rightarrow> sniff_others others c b | _ \<Rightarrow> Some (Inl ErrNoClue, c))) }),
      si_metadata = False, si_network = Network_Unknown\<rparr>"

section \<open>The sniffer\<close>

text \<open>A sniffer that only looks at the bytes; nil has none.\<close>

definition byte_sniffer :: "(byte list \<Rightarrow> (goerr + SniffResult) option) \<Rightarrow> Network \<Rightarrow> protocolSniffer" where
  "byte_sniffer f network =
     \<lparr>si_sniff = (\<lambda>c b. map_option (\<lambda>res. (res, c)) (f (case b of None \<Rightarrow> [] | Some bs \<Rightarrow> bs))), si_metadata = False, si_network = network\<rparr>"

definition http_sniffer :: "(gostring \<Rightarrow> gostring) \<Rightarrow> protocolSniffer" where
  "http_sniffer lower =
     \<lparr>si_sniff = (\<lambda>c b. Some (map_prod (map_sum id (HTTPHeader HTTP1)) id (SniffHTTP lower (case b of None \<Rightarrow> [] | Some bs \<Rightarrow> bs) c))),
      si_metadata = False, si_network = Network_TCP\<rparr>"

text \<open>What the sniffers of a connection use: \<^verbatim>\<open>strings.ToLower\<close>, the QUIC sniffer, the clock.\<close>

record sniff_env =
  se_lower :: "gostring \<Rightarrow> gostring"
  se_quic :: "byte list \<Rightarrow> (goerr + SniffResult) option"
  se_unixMicro :: int

definition protocol_sniffers :: "sniff_env \<Rightarrow> protocolSniffer list" where
  "protocol_sniffers N =
     [http_sniffer (se_lower N),
      byte_sniffer (\<lambda>b. map_option (map_sum id TLSHeader) (SniffTLS b)) Network_TCP,
      byte_sniffer SniffBittorrent Network_TCP,
      byte_sniffer (se_quic N) Network_UDP,
      byte_sniffer (SniffUTP (se_unixMicro N)) Network_UDP]"

definition NewSniffer :: "sniff_env \<Rightarrow> fake_engine option \<Rightarrow> Destination \<Rightarrow> protocolSniffer list" where
  "NewSniffer N engine target =
     (let others = protocol_sniffers N in
      case engine of
        None \<Rightarrow> others
      | Some e \<Rightarrow> newFakeDNSThenOthers e target others # others @ [newFakeDNSSniffer e target])"

definition errUnknownContent :: goerr where "errUnknownContent = ErrMsg ''unknown content''"

text \<open>The loop of \<^verbatim>\<open>Sniff\<close>: the answer, the sniffers that are kept, if they change, and the content.\<close>

fun sniff_loop ::
  "protocolSniffer list \<Rightarrow> byte list \<Rightarrow> Network \<Rightarrow> protocolSniffer list \<Rightarrow> Content option \<Rightarrow>
   ((goerr + SniffResult) \<times> protocolSniffer list option \<times> Content option) option" where
  "sniff_loop [] payload network pending c =
     Some (if length pending > 0 then (Inl ErrNoClue, Some pending, c) else (Inl errUnknownContent, None, c))"
| "sniff_loop (si # ss) payload network pending c =
     (if si_metadata si \<or> si_network si \<noteq> network then sniff_loop ss payload network pending c
      else
        (case si_sniff si c (Some payload) of
           None \<Rightarrow> None
         | Some (Inr r, c') \<Rightarrow> Some (Inr r, None, c')
         | Some (Inl e, c') \<Rightarrow>
             if e = ErrNoClue then sniff_loop ss payload network (pending @ [si]) c'
             else if e = ErrProtoNeedMoreData then Some (Inl e, Some [si], c')
             else sniff_loop ss payload network pending c'))"

text \<open>\<^verbatim>\<open>s.sniffer\<close> changes only where the source assigns it.\<close>

definition kept :: "protocolSniffer list \<Rightarrow> 'a \<times> protocolSniffer list option \<times> 'c \<Rightarrow> 'a \<times> protocolSniffer list \<times> 'c" where
  "kept s x = (case x of (r, s', c) \<Rightarrow> (r, (case s' of None \<Rightarrow> s | Some s' \<Rightarrow> s'), c))"

definition Sniff ::
  "protocolSniffer list \<Rightarrow> byte list \<Rightarrow> Network \<Rightarrow> Content option \<Rightarrow> ((goerr + SniffResult) \<times> protocolSniffer list \<times> Content option) option" where
  "Sniff s payload network c = map_option (kept s) (sniff_loop s payload network [] c)"

fun sniff_metadata_loop ::
  "protocolSniffer list \<Rightarrow> protocolSniffer list \<Rightarrow> Content option \<Rightarrow>
   ((goerr + SniffResult) \<times> protocolSniffer list option \<times> Content option) option" where
  "sniff_metadata_loop [] pending c =
     Some (if length pending > 0 then (Inl ErrNoClue, Some pending, c) else (Inl errUnknownContent, None, c))"
| "sniff_metadata_loop (si # ss) pending c =
     (if \<not> si_metadata si then sniff_metadata_loop ss (pending @ [si]) c
      else
        (case si_sniff si c None of
           None \<Rightarrow> None
         | Some (Inr r, c') \<Rightarrow> Some (Inr r, None, c')
         | Some (Inl e, c') \<Rightarrow> if e = ErrNoClue then sniff_metadata_loop ss (pending @ [si]) c' else sniff_metadata_loop ss pending c'))"

definition SniffMetadata ::
  "protocolSniffer list \<Rightarrow> Content option \<Rightarrow> ((goerr + SniffResult) \<times> protocolSniffer list \<times> Content option) option" where
  "SniffMetadata s c = map_option (kept s) (sniff_metadata_loop s [] c)"

section \<open>Where an answer comes from\<close>

lemma sniff_loop_sound:
  assumes "sniff_loop ss payload network pending c = Some (res, keep, c')"
  shows "(\<forall>s. keep = Some s \<longrightarrow> set s \<subseteq> set ss \<union> set pending) \<and>
    (\<forall>r. res = Inr r \<longrightarrow> (\<exists>si \<in> set ss. \<exists>c0. \<not> si_metadata si \<and> si_network si = network \<and> si_sniff si c0 (Some payload) = Some (Inr r, c')))"
  using assms
proof (induction ss arbitrary: pending c)
  case (Cons si ss)
  show ?case
  proof (cases "si_metadata si \<or> si_network si \<noteq> network")
    case True
    with Cons.IH [of pending c] Cons.prems show ?thesis by fastforce
  next
    case False
    obtain x c1 where x: "si_sniff si c (Some payload) = Some (x, c1)"
      using Cons.prems False by (cases "si_sniff si c (Some payload)") auto
    show ?thesis
    proof (cases x)
      case (Inr r)
      with x False Cons.prems show ?thesis by auto
    next
      case (Inl e)
      with x False Cons.prems Cons.IH [of "pending @ [si]" c1] Cons.IH [of pending c1] show ?thesis
        by (fastforce split: if_splits)
    qed
  qed
qed (auto split: if_splits)

lemma Sniff_sound:
  assumes "Sniff s payload network c = Some (res, s', c')"
  shows "set s' \<subseteq> set s"
    "res = Inr r \<Longrightarrow> \<exists>si \<in> set s. \<exists>c0. \<not> si_metadata si \<and> si_network si = network \<and> si_sniff si c0 (Some payload) = Some (Inr r, c')"
proof -
  obtain keep where "sniff_loop s payload network [] c = Some (res, keep, c')" "s' = (case keep of None \<Rightarrow> s | Some s' \<Rightarrow> s')"
    using assms by (auto simp: Sniff_def kept_def)
  with sniff_loop_sound [of s payload network "[]" c res keep c'] show "set s' \<subseteq> set s"
    "res = Inr r \<Longrightarrow> \<exists>si \<in> set s. \<exists>c0. \<not> si_metadata si \<and> si_network si = network \<and> si_sniff si c0 (Some payload) = Some (Inr r, c')"
    by (auto split: option.splits)
qed

text \<open>The timestamp of a packet has 32 bits of microseconds: about 71 minutes, which a clock since 1970 left behind long ago.\<close>

lemma SniffUTP_never:
  assumes "day_ns + 2 ^ 32 \<le> unixMicro" "SniffUTP unixMicro b = Some (Inr r)"
  shows False
proof -
  have "uint (t :: u32) < 2 ^ 32" for t using uint_lt2p [of t] by simp
  then have "day_ns < \<bar>unixMicro - uint (t :: u32)\<bar>" for t using assms(1) by (smt (verit))
  then have "utp_timestamp unixMicro buffer \<noteq> Inr r" for buffer by (simp add: utp_timestamp_def)
  then have "(case x of Inl e \<Rightarrow> Inl e | Inr buffer \<Rightarrow> utp_timestamp unixMicro buffer) \<noteq> Inr r" for x by (cases x) auto
  with assms(2) show False by (auto simp: SniffUTP_def bind_eq_Some_conv split: if_splits)
qed

lemma SniffBittorrent_returns: "\<exists>x. SniffBittorrent b = Some x"
  by (simp add: SniffBittorrent_def at_index_def go_slice_def)

lemma SniffUTP_returns: "\<exists>x. SniffUTP t b = Some x"
  by (simp add: SniffUTP_def at_index_def)

lemma NewSniffer_members:
  assumes "si \<in> set (NewSniffer N engine target)"
  shows "(si \<in> set (protocol_sniffers N)) \<or>
    (\<exists>e. engine = Some e \<and> (si = newFakeDNSThenOthers e target (protocol_sniffers N) \<or> si = newFakeDNSSniffer e target))"
  using assms by (auto simp: NewSniffer_def Let_def split: option.splits)

lemma sniff_errors_distinct [simp]:
  "EOF \<noteq> ErrNoClue" "EOF \<noteq> ErrProtoNeedMoreData" "ErrProtoNeedMoreData \<noteq> ErrNoClue" "ErrNoClue \<noteq> ErrProtoNeedMoreData"
  by (simp_all add: ErrNoClue_def ErrProtoNeedMoreData_def)

lemma map_sum_Inr: "map_sum f g z = Inr y \<longleftrightarrow> (\<exists>x. z = Inr x \<and> y = g x)"
  by (cases z) auto

lemma NewSniffer_asked:
  assumes "si \<in> set (NewSniffer N engine target)" "\<not> si_metadata si" "si_network si \<noteq> Network_Unknown"
  shows "si \<in> set (protocol_sniffers N)"
  using NewSniffer_members [OF assms(1)] assms(2,3) by (auto simp: newFakeDNSThenOthers_def newFakeDNSSniffer_def)

lemmas sniffer_simps = protocol_sniffers_def http_sniffer_def byte_sniffer_def

section \<open>Properties\<close>

text \<open>
  Two of the sniffers never contribute. However often a connection is sniffed, from the sniffers that a new one starts
  with, BitTorrent is not recognised over UDP at any time since 1973 (the 32-bit timestamp of a packet is compared with
  the microseconds since 1970, and the tolerance of a day is in nanoseconds), and the sniffer that combines fake DNS with
  the others is never asked, because it has no network.
\<close>

theorem sniffers_without_effect:
  assumes "network = Network_TCP \<or> network = Network_UDP" "day_ns + 2 ^ 32 \<le> se_unixMicro N"
    and "\<forall>b r. se_quic N b = Some (Inr r) \<longrightarrow> (\<exists>d. r = QUICHeader d)"
    and "set s \<subseteq> set (NewSniffer N engine target)" "Sniff s payload network c = Some (res, s', c')"
  shows "set s' \<subseteq> set (NewSniffer N engine target) \<and> res \<noteq> Inr (DNSThenOthersSniffResult d p) \<and>
    (network = Network_UDP \<longrightarrow> res \<noteq> Inr BittorrentHeader)"
proof -
  have "\<exists>d. r = QUICHeader d" if r: "res = Inr r" "network = Network_UDP" for r
  proof -
    obtain si c0 where si: "si \<in> set s" "\<not> si_metadata si" "si_network si = Network_UDP" "si_sniff si c0 (Some payload) = Some (Inr r, c')"
      using Sniff_sound(2) [OF assms(5) r(1)] r(2) by blast
    have "si \<in> set (protocol_sniffers N)" using NewSniffer_asked [OF subsetD [OF assms(4) si(1)] si(2)] si(3) by simp
    with si(3,4) have "SniffUTP (se_unixMicro N) payload = Some (Inr r) \<or> se_quic N payload = Some (Inr r)"
      by (auto simp: sniffer_simps)
    with SniffUTP_never [OF assms(2)] assms(3) show ?thesis by blast
  qed
  moreover have "\<forall>d p. r \<noteq> DNSThenOthersSniffResult d p" if r: "res = Inr r" "network = Network_TCP" for r
  proof -
    obtain si c0 where si: "si \<in> set s" "\<not> si_metadata si" "si_network si = Network_TCP" "si_sniff si c0 (Some payload) = Some (Inr r, c')"
      using Sniff_sound(2) [OF assms(5) r(1)] r(2) by blast
    have "si \<in> set (protocol_sniffers N)" using NewSniffer_asked [OF subsetD [OF assms(4) si(1)] si(2)] si(3) by simp
    with si(3,4) show ?thesis
      by (auto simp: sniffer_simps SniffBittorrent_def map_sum_Inr map_prod_def bind_eq_Some_conv split: prod.splits if_splits)
  qed
  ultimately show ?thesis using assms(1,4) Sniff_sound(1) [OF assms(5)] by fastforce
qed

text \<open>A micro transport packet of the moment the clock shows, for a connection to a fake address.\<close>

definition demo_utp :: "byte list" where
  "demo_utp = [0x41, 0, 0, 1] @ PutUint32 (of_int (1700000000 * 1000000)) @ replicate 12 0"

definition demo_engine :: fake_engine where
  "demo_engine = \<lparr>fd_domain = (\<lambda>_. []), fd_rev0 = True, fd_in_pool = (\<lambda>_. True)\<rparr>"

definition demo_target :: Destination where
  "demo_target = UDPDestination (ipv4Address [198, 18, 0, 1]) 443"

definition demo_sniff :: sniff_env where
  "demo_sniff = \<lparr>se_lower = map ascii_lower, se_quic = (\<lambda>_. Some (Inl EOF)), se_unixMicro = 1700000000000000\<rparr>"

theorem sniffers_without_effect_witness:
  "length demo_utp = 20 \<and>
   (\<exists>res s' c. Sniff (NewSniffer demo_sniff (Some demo_engine) demo_target) demo_utp Network_UDP None = Some (res, s', c) \<and>
     res \<noteq> Inr BittorrentHeader)"
proof -
  let ?s = "NewSniffer demo_sniff (Some demo_engine) demo_target"
  have len: "length demo_utp = 20" by (simp add: demo_utp_def)
  have "SniffUTP 1700000000000000 demo_utp \<noteq> None" using len by (simp add: SniffUTP_def at_index_def)
  then obtain y where y: "SniffUTP 1700000000000000 demo_utp = Some y" by blast
  have "Sniff ?s demo_utp Network_UDP None \<noteq> None"
    by (cases y) (simp_all add: Sniff_def NewSniffer_def sniffer_simps Let_def newFakeDNSThenOthers_def newFakeDNSSniffer_def demo_sniff_def y)
  then obtain res s' c where r: "Sniff ?s demo_utp Network_UDP None = Some (res, s', c)" by auto
  have "day_ns + 2 ^ 32 \<le> se_unixMicro demo_sniff" "\<forall>b r. se_quic demo_sniff b = Some (Inr r) \<longrightarrow> (\<exists>d. r = QUICHeader d)"
    by (simp_all add: day_ns_def demo_sniff_def)
  with r len sniffers_without_effect [of Network_UDP demo_sniff ?s "Some demo_engine" demo_target demo_utp None res s' c] show ?thesis by auto
qed

end
