(* ===== verification/Cached_Reader.thy ===== *)
theory Cached_Reader
  imports Sniffer Pipe
begin

text \<open>
  The readers with a time-out: \<^verbatim>\<open>TimeoutWrapperReader\<close> of \<^verbatim>\<open>common/buf/io.go\<close> and the pipe, and the \<^verbatim>\<open>cachedReader\<close> of
  \<^verbatim>\<open>app/dispatcher/default.go\<close>, which lets the dispatcher look at the first bytes of a connection and hands them on
  afterwards. The locale \<open>timeout_reader\<close> is the contract between them: what a read returns, then what is left, is what
  was there before, then what arrived in the meantime.
\<close>

section \<open>The interface\<close>

text \<open>
  A read answers buffers, an error and the reader; the event says what happens while it waits. \<open>pending\<close> is what is
  still to be read, \<open>arrived\<close> what ever came in.
\<close>

locale timeout_reader =
  fixes rd :: "'e \<Rightarrow> 'r \<Rightarrow> MultiBuffer \<times> goerr option \<times> 'r"
    and ok :: "'r \<Rightarrow> bool"
    and fine :: "'e \<Rightarrow> bool"
    and pending :: "'r \<Rightarrow> byte list"
    and arrived :: "'r \<Rightarrow> byte list"
  assumes rd_ok: "ok r \<Longrightarrow> fine e \<Longrightarrow> rd e r = (mb, x, r') \<Longrightarrow> ok r' \<and> mb_wf mb"
    and rd_stream: "ok r \<Longrightarrow> fine e \<Longrightarrow> rd e r = (mb, x, r') \<Longrightarrow>
      \<exists>new. arrived r' = arrived r @ new \<and> (if x = None then mb_content mb else []) @ pending r' = pending r @ new"

section \<open>Readers with a time-out\<close>

text \<open>
  The reader below answers its results in turn, then the end; \<open>tw_done\<close>: a read is under way. Whether the result comes
  in time is the event.
\<close>

record TimeoutWrapperReader =
  tw_Reader :: "(MultiBuffer \<times> goerr option) list"
  tw_done :: bool
  tw_Counter :: "int option"

definition tw_result :: "TimeoutWrapperReader \<Rightarrow> MultiBuffer \<times> goerr option" where
  "tw_result r = (case tw_Reader r of [] \<Rightarrow> ([], Some EOF) | x # xs \<Rightarrow> x)"

definition tw_take :: "TimeoutWrapperReader \<Rightarrow> MultiBuffer \<times> goerr option \<times> TimeoutWrapperReader" where
  "tw_take r =
     (case tw_result r of (mb, e) \<Rightarrow>
        (mb, e, r\<lparr>tw_Reader := tl (tw_Reader r), tw_done := False, tw_Counter := map_option (\<lambda>c. c + MultiBuffer_Len mb) (tw_Counter r)\<rparr>))"

text \<open>With a read under way \<^verbatim>\<open>ReadMultiBuffer\<close> waits for it, otherwise it reads: the result is the next one either way.\<close>

definition Timeout_ReadMultiBuffer :: "TimeoutWrapperReader \<Rightarrow> MultiBuffer \<times> goerr option \<times> TimeoutWrapperReader" where
  "Timeout_ReadMultiBuffer r = tw_take r"

definition Timeout_ReadMultiBufferTimeout :: "bool \<Rightarrow> TimeoutWrapperReader \<Rightarrow> MultiBuffer \<times> goerr option \<times> TimeoutWrapperReader" where
  "Timeout_ReadMultiBufferTimeout in_time r = (if in_time then tw_take r else ([], None, r\<lparr>tw_done := True\<rparr>))"

text \<open>
  The pipe: what others do between two rounds of the loop of \<^verbatim>\<open>ReadMultiBufferTimeout\<close>; after the last the timer fires.
  \<open>tp_in\<close> are the bytes accepted so far.
\<close>

datatype pipe_act = Act_Write MultiBuffer | Act_Close | Act_Interrupt

record timed_pipe =
  tp_pipe :: pipe
  tp_in :: "byte list"

fun pipe_do :: "pipe_act \<Rightarrow> timed_pipe \<Rightarrow> timed_pipe" where
  "pipe_do (Act_Write mb) r =
     (case writeMultiBufferInternal mb (tp_pipe r) of (e, p) \<Rightarrow> r\<lparr>tp_pipe := p, tp_in := tp_in r @ accepted_bytes mb e\<rparr>)"
| "pipe_do Act_Close r = r\<lparr>tp_pipe := pipe_Close (tp_pipe r)\<rparr>"
| "pipe_do Act_Interrupt r = r\<lparr>tp_pipe := pipe_Interrupt (tp_pipe r)\<rparr>"

fun pipe_ReadMultiBufferTimeout :: "pipe_act list \<Rightarrow> timed_pipe \<Rightarrow> MultiBuffer \<times> goerr option \<times> timed_pipe" where
  "pipe_ReadMultiBufferTimeout acts r =
     (case readMultiBufferInternal (tp_pipe r) of
        (d, e, p) \<Rightarrow>
          if d \<noteq> None \<or> e \<noteq> None then ((case d of None \<Rightarrow> [] | Some mb \<Rightarrow> mb), e, r\<lparr>tp_pipe := Signal_write p\<rparr>)
          else
            (case acts of
               [] \<Rightarrow> ([], Some ErrReadTimeout, r\<lparr>tp_pipe := p\<rparr>)
             | a # later \<Rightarrow> pipe_ReadMultiBufferTimeout later (pipe_do a (r\<lparr>tp_pipe := p\<rparr>))))"

declare pipe_ReadMultiBufferTimeout.simps [simp del]

section \<open>The cached reader\<close>

record 'r cachedReader =
  cr_reader :: 'r
  cr_cache :: MultiBuffer

text \<open>\<^verbatim>\<open>Cache\<close> into the buffer \<open>b\<close>.\<close>

definition Cache ::
  "('e \<Rightarrow> 'r \<Rightarrow> MultiBuffer \<times> goerr option \<times> 'r) \<Rightarrow> 'e \<Rightarrow> Buffer \<Rightarrow> 'r cachedReader \<Rightarrow> (goerr option \<times> Buffer \<times> 'r cachedReader) option" where
  "Cache rd e b r =
     (case rd e (cr_reader r) of
        (mb, Some x, rd') \<Rightarrow> Some (Some x, b, r\<lparr>cr_reader := rd'\<rparr>)
      | (mb, None, rd') \<Rightarrow>
          (let cache = (if \<not> MultiBuffer_IsEmpty mb then fst (MergeMulti (cr_cache r) mb) else cr_cache r);
               n = min (MultiBuffer_Len cache) (Buffer_Cap b)
           in do { b1 \<leftarrow> Buffer_Extend (Buffer_Clear b) n;
                   let rawBytes = MultiBuffer_Copy cache (nat n);
                   b2 \<leftarrow> Buffer_Resize (b1\<lparr>b_v := blit (b_v b1) 0 rawBytes\<rparr>) 0 (i32 (int (length rawBytes)));
                   Some (None, b2, r\<lparr>cr_reader := rd', cr_cache := cache\<rparr>) }))"

definition readInternal :: "'r cachedReader \<Rightarrow> MultiBuffer option \<times> 'r cachedReader" where
  "readInternal r =
     (if \<not> MultiBuffer_IsEmpty (cr_cache r) then (Some (cr_cache r), r\<lparr>cr_cache := []\<rparr>) else (None, r))"

text \<open>\<^verbatim>\<open>ReadMultiBuffer\<close> and \<^verbatim>\<open>ReadMultiBufferTimeout\<close> differ only in the operation of the reader below.\<close>

definition cached_Read ::
  "('e \<Rightarrow> 'r \<Rightarrow> MultiBuffer \<times> goerr option \<times> 'r) \<Rightarrow> 'e \<Rightarrow> 'r cachedReader \<Rightarrow> MultiBuffer \<times> goerr option \<times> 'r cachedReader" where
  "cached_Read rd e r =
     (case readInternal r of
        (Some mb, r') \<Rightarrow> (mb, None, r')
      | (None, r') \<Rightarrow> (case rd e (cr_reader r') of (mb, x, rd') \<Rightarrow> (mb, x, r'\<lparr>cr_reader := rd'\<rparr>)))"

definition cached_Interrupt :: "('r \<Rightarrow> 'r) \<Rightarrow> 'r cachedReader \<Rightarrow> 'r cachedReader" where
  "cached_Interrupt interrupt r = r\<lparr>cr_cache := ReleaseMulti (cr_cache r), cr_reader := interrupt (cr_reader r)\<rparr>"

section \<open>Sniffing the content\<close>

definition errSniffingTimeout :: goerr where "errSniffingTimeout = ErrMsg ''timeout on sniffing''"
definition ErrCanceled :: goerr where "ErrCanceled = ErrMsg ''context canceled''"

text \<open>What a round makes of the bytes in the buffer: an answer, or the sniffers and the count to go on with.\<close>

datatype sniff_looked = Stop "goerr + SniffResult" | Again "protocolSniffer list" nat

definition sniff_round ::
  "Network \<Rightarrow> protocolSniffer list \<Rightarrow> Buffer \<Rightarrow> nat \<Rightarrow> Content option \<Rightarrow> (sniff_looked \<times> Content option) option" where
  "sniff_round network s payload totalAttempt c =
     (if \<not> Buffer_IsEmpty payload then
        do { bytes \<leftarrow> Buffer_Bytes payload;
             (res, s', c') \<leftarrow> Sniff s bytes network c;
             Some (case res of
                     Inr result \<Rightarrow> Stop (Inr result)
                   | Inl err \<Rightarrow>
                       if err = ErrNoClue then Again s' (totalAttempt + 1)
                       else if err = ErrProtoNeedMoreData then Again s' totalAttempt
                       else Stop (Inl err), c') }
      else Some (Again s (totalAttempt + 1), c))"

text \<open>
  The loop of \<^verbatim>\<open>sniffer\<close>. Each round is given whether the context is done, what happens during the read, and how long it
  takes in nanoseconds. \<open>None\<close> is a panic, or that there are not enough rounds.
\<close>

type_synonym 'e attempt = "bool \<times> 'e \<times> int"

fun sniff_content ::
  "('e \<Rightarrow> 'r \<Rightarrow> MultiBuffer \<times> goerr option \<times> 'r) \<Rightarrow> Network \<Rightarrow> 'e attempt list \<Rightarrow> protocolSniffer list \<Rightarrow> Buffer \<Rightarrow> int \<Rightarrow> nat \<Rightarrow>
   Content option \<Rightarrow> 'r cachedReader \<Rightarrow> ((goerr + SniffResult) \<times> Content option \<times> 'r cachedReader) option" where
  "sniff_content rd network [] s payload cacheDeadline totalAttempt c r = None"
| "sniff_content rd network ((isDone, e, elapsed) # attempts) s payload cacheDeadline totalAttempt c r =
     (if isDone then Some (Inl ErrCanceled, c, r)
      else
        do { (x, payload', r') \<leftarrow> Cache rd e payload r;
             (case x of
                Some err \<Rightarrow> Some (Inl err, c, r')
              | None \<Rightarrow>
                  (let cacheDeadline' = cacheDeadline - elapsed in
                   do { (looked, c') \<leftarrow> sniff_round network s payload' totalAttempt c;
                        (case looked of
                           Stop res \<Rightarrow> Some (res, c', r')
                         | Again s' totalAttempt' \<Rightarrow>
                             if totalAttempt' \<ge> 2 \<or> cacheDeadline' \<le> 0 then Some (Inl errSniffingTimeout, c', r')
                             else sniff_content rd network attempts s' payload' cacheDeadline' totalAttempt' c' r') })) })"

declare sniff_content.simps(2) [simp del]

section \<open>The contract holds\<close>

definition tw_pending :: "TimeoutWrapperReader \<Rightarrow> byte list" where
  "tw_pending r = concat (map (mb_content \<circ> fst) (tw_Reader r))"

text \<open>No result of the reader below has both bytes and an error.\<close>

definition tw_ok :: "TimeoutWrapperReader \<Rightarrow> bool" where
  "tw_ok r \<longleftrightarrow> list_all (\<lambda>(mb, e). mb_wf mb \<and> (e \<noteq> None \<longrightarrow> mb_content mb = [])) (tw_Reader r)"

lemma tw_take_stream:
  assumes "tw_ok r" "tw_take r = (mb, x, r')"
  shows "tw_ok r' \<and> mb_wf mb \<and> (if x = None then mb_content mb else []) @ tw_pending r' = tw_pending r"
  using assms by (cases "tw_Reader r") (auto simp: tw_take_def tw_result_def tw_ok_def tw_pending_def)

interpretation twr: timeout_reader Timeout_ReadMultiBufferTimeout tw_ok "\<lambda>_. True" tw_pending "\<lambda>_. []"
proof
  fix r mb x r' and e :: bool
  assume "tw_ok r" "Timeout_ReadMultiBufferTimeout e r = (mb, x, r')"
  then have "(tw_ok r' \<and> mb_wf mb) \<and> (if x = None then mb_content mb else []) @ tw_pending r' = tw_pending r"
    using tw_take_stream [of r mb x r']
    by (cases e) (auto simp: Timeout_ReadMultiBufferTimeout_def tw_ok_def tw_pending_def)
  then show "tw_ok r' \<and> mb_wf mb"
    "\<exists>new. [] = [] @ new \<and> (if x = None then mb_content mb else []) @ tw_pending r' = tw_pending r @ new" by auto
qed

text \<open>Bytes that come together with an error are lost: \<^verbatim>\<open>Cache\<close> returns the error before it keeps them.\<close>

lemma Cache_drops_bytes:
  assumes "tw_Reader r = [(mb, Some x)]"
  shows "\<exists>r'. Cache Timeout_ReadMultiBufferTimeout True b \<lparr>cr_reader = r, cr_cache = []\<rparr> = Some (Some x, b, r') \<and>
    mb_content (cr_cache r') @ tw_pending (cr_reader r') = [] \<and> tw_pending r = mb_content mb"
  using assms by (simp add: Cache_def Timeout_ReadMultiBufferTimeout_def tw_take_def tw_result_def tw_pending_def)

definition tp_ok :: "timed_pipe \<Rightarrow> bool" where
  "tp_ok r \<longleftrightarrow> mb_wf (p_mb (tp_pipe r))"

definition act_fine :: "pipe_act \<Rightarrow> bool" where
  "act_fine a \<longleftrightarrow> (case a of Act_Write mb \<Rightarrow> mb_wf mb | _ \<Rightarrow> True)"

abbreviation tp_pending :: "timed_pipe \<Rightarrow> byte list" where
  "tp_pending r \<equiv> mb_content (p_mb (tp_pipe r))"

lemma pipe_do_stream:
  assumes "tp_ok r" "act_fine a" "p_data (tp_pipe r) = None"
  shows "tp_ok (pipe_do a r) \<and> (\<exists>new. tp_in (pipe_do a r) = tp_in r @ new \<and> tp_pending (pipe_do a r) = tp_pending r @ new)"
proof (cases a)
  case (Act_Write mb)
  obtain e p where w: "writeMultiBufferInternal mb (tp_pipe r) = (e, p)" by (cases "writeMultiBufferInternal mb (tp_pipe r)")
  from w show ?thesis
    by (cases rule: write_cases) (use assms Act_Write w in \<open>auto simp: tp_ok_def act_fine_def accepted_bytes_def\<close>)
next
  case Act_Close
  with assms show ?thesis by (auto simp: tp_ok_def pipe_Close_def)
next
  case Act_Interrupt
  with assms show ?thesis by (auto simp: tp_ok_def pipe_Interrupt_def Let_def)
qed

lemma pipe_read_stream:
  assumes "tp_ok r" "list_all act_fine acts" "pipe_ReadMultiBufferTimeout acts r = (mb, x, r')"
  shows "(tp_ok r' \<and> mb_wf mb) \<and>
    (\<exists>new. tp_in r' = tp_in r @ new \<and> (if x = None then mb_content mb else []) @ tp_pending r' = tp_pending r @ new)"
  using assms
proof (induction acts r rule: pipe_ReadMultiBufferTimeout.induct)
  case (1 acts r)
  obtain d e p where rd: "readMultiBufferInternal (tp_pipe r) = (d, e, p)" by (cases "readMultiBufferInternal (tp_pipe r)") auto
  show ?case
  proof (cases "d \<noteq> None \<or> e \<noteq> None")
    case True
    with "1.prems" rd have eq: "mb = (case d of None \<Rightarrow> [] | Some mb \<Rightarrow> mb)" "x = e" "r' = r\<lparr>tp_pipe := Signal_write p\<rparr>"
      by (simp_all add: pipe_ReadMultiBufferTimeout.simps [of acts r])
    from rd show ?thesis
      by (cases rule: read_cases) (use "1.prems"(1) eq in \<open>auto simp: tp_ok_def Signal_write_def split: option.splits\<close>)
  next
    case False
    then have p: "p = (tp_pipe r)\<lparr>p_data := None\<rparr>" "p_data (tp_pipe r) = None" "p = tp_pipe r"
      using rd by (auto elim!: read_cases)
    show ?thesis
    proof (cases acts)
      case Nil
      with "1.prems" rd False p show ?thesis by (auto simp: pipe_ReadMultiBufferTimeout.simps [of "[]" r] tp_ok_def)
    next
      case (Cons a later)
      have s: "r\<lparr>tp_pipe := p\<rparr> = r" using p(3) by simp
      have "pipe_ReadMultiBufferTimeout later (pipe_do a r) = (mb, x, r')"
        using "1.prems"(3) rd False Cons s by (simp add: pipe_ReadMultiBufferTimeout.simps [of "a # later" r])
      moreover note pipe_do_stream [OF "1.prems"(1) _ p(2), of a]
      ultimately show ?thesis
        using "1.IH" [OF rd [symmetric] refl _ Cons] "1.prems"(2) Cons False s by fastforce
    qed
  qed
qed

interpretation tpr: timeout_reader pipe_ReadMultiBufferTimeout tp_ok "list_all act_fine" tp_pending tp_in
  by unfold_locales (use pipe_read_stream in blast)+

section \<open>What the cache holds\<close>

lemma Cache_data:
  assumes "rd e (cr_reader r) = (mb, None, rd')" "mb_wf mb" "mb_wf (cr_cache r)" "buffer_wf b"
    and "length (mb_content (cr_cache r) @ mb_content mb) < 2147483648"
  shows "\<exists>b' cache. Cache rd e b r = Some (None, b', r\<lparr>cr_reader := rd', cr_cache := cache\<rparr>) \<and> mb_wf cache \<and>
    mb_content cache = mb_content (cr_cache r) @ mb_content mb \<and> buffer_wf b' \<and> length (b_v b') = length (b_v b) \<and>
    content b' = take (length (b_v b)) (mb_content (cr_cache r) @ mb_content mb)"
proof -
  define whole where whole: "whole = mb_content (cr_cache r) @ mb_content mb"
  define cache where "cache = (if \<not> MultiBuffer_IsEmpty mb then fst (MergeMulti (cr_cache r) mb) else cr_cache r)"
  have cache: "mb_wf cache" "mb_content cache = whole"
    using assms(2,3) by (auto simp: whole cache_def MergeMulti_def MultiBuffer_IsEmpty_content)
  define n where "n = min (length whole) (length (b_v b))"
  have n: "min (MultiBuffer_Len cache) (Buffer_Cap b) = int n"
    using assms(4,5) [folded whole] cache by (simp add: n_def MultiBuffer_Len_content Buffer_Cap_def b_len32_wf)
  have room: "n \<le> room (Buffer_Clear b)" "n < 2147483648" using assms(4,5) [folded whole] by (simp_all add: n_def Buffer_Clear_room)
  define b1 where "b1 = append_read (Buffer_Clear b) (replicate n 0)"
  have e: "Buffer_Extend (Buffer_Clear b) (int n) = Some b1"
    using room Buffer_Extend_append [OF Buffer_Clear_wf [OF assms(4)], of "int n"] by (simp add: b1_def)
  have raw: "MultiBuffer_Copy cache n = take n whole" "length (take n whole) = n"
    using cache by (simp_all add: MultiBuffer_Copy_content n_def)
  define b2 where "b2 = b1\<lparr>b_v := blit (b_v b1) 0 (take n whole)\<rparr>"
  have parts: "b_start b1 = 0" "b_end b1 = int n" "length (b_v b1) = length (b_v b)" "n \<le> length (b_v b)"
    using room by (auto simp: b1_def append_read_def Buffer_Clear_def n_def length_blit)
  then have b2: "b_start b2 = 0" "b_end b2 = int n" "length (b_v b2) = length (b_v b)" "take n (b_v b2) = take n whole"
    using raw(2) by (auto simp: b2_def length_blit blit_def)
  have "i32 (int n) = int n" using room by (simp add: i32_id)
  then have "Buffer_Resize b2 0 (int n) = Some b2"
    using b2 by (simp add: Buffer_Resize_def from_end_def Buffer_Check_def Let_def)
  then have "Cache rd e b r = Some (None, b2, r\<lparr>cr_reader := rd', cr_cache := cache\<rparr>)"
    using e raw n room \<open>i32 (int n) = int n\<close> by (simp add: Cache_def assms(1) cache_def [symmetric] b2_def Let_def)
  moreover have "buffer_wf b2" using b2 parts assms(4) by (simp add: buffer_wf_def)
  moreover have "content b2 = take (length (b_v b)) whole"
    using b2 by (simp add: content_def n_def min_def split: if_splits)
  ultimately show ?thesis unfolding whole [symmetric] using cache b2(3) by blast
qed

text \<open>What is still to be read through the cache, and all that came in.\<close>

definition cr_pending :: "('r \<Rightarrow> byte list) \<Rightarrow> 'r cachedReader \<Rightarrow> byte list" where
  "cr_pending pending r = mb_content (cr_cache r) @ pending (cr_reader r)"

definition cr_ok :: "('r \<Rightarrow> bool) \<Rightarrow> 'r cachedReader \<Rightarrow> bool" where
  "cr_ok ok r \<longleftrightarrow> ok (cr_reader r) \<and> mb_wf (cr_cache r)"

context timeout_reader
begin

text \<open>A cached reader keeps the contract of the reader below it.\<close>

lemma cached: "timeout_reader (cached_Read rd) (cr_ok ok) fine (cr_pending pending) (\<lambda>r. arrived (cr_reader r))"
proof
  fix r e mb x r'
  assume r: "cr_ok ok r" "fine e" "cached_Read rd e r = (mb, x, r')"
  have "cr_ok ok r' \<and> mb_wf mb \<and> (\<exists>new. arrived (cr_reader r') = arrived (cr_reader r) @ new \<and>
    (if x = None then mb_content mb else []) @ cr_pending pending r' = cr_pending pending r @ new)"
  proof (cases "MultiBuffer_IsEmpty (cr_cache r)")
    case False
    with r show ?thesis by (auto simp: cached_Read_def readInternal_def cr_pending_def cr_ok_def)
  next
    case True
    with r(1) have "mb_content (cr_cache r) = []" by (simp add: cr_ok_def MultiBuffer_IsEmpty_content)
    moreover obtain mb1 x1 rd' where rd: "rd e (cr_reader r) = (mb1, x1, rd')" by (cases "rd e (cr_reader r)") auto
    moreover have "mb = mb1" "x = x1" "r' = r\<lparr>cr_reader := rd'\<rparr>"
      using r(3) True rd by (simp_all add: cached_Read_def readInternal_def)
    ultimately show ?thesis
      using rd_ok [OF _ r(2) rd] rd_stream [OF _ r(2) rd] r(1) by (auto simp: cr_pending_def cr_ok_def)
  qed
  then show "cr_ok ok r' \<and> mb_wf mb"
    "\<exists>new. arrived (cr_reader r') = arrived (cr_reader r) @ new \<and>
      (if x = None then mb_content mb else []) @ cr_pending pending r' = cr_pending pending r @ new" by auto
qed

text \<open>One call of \<^verbatim>\<open>Cache\<close>: the bytes stay in order, and the buffer holds the first of them.\<close>

lemma Cache_step:
  assumes "cr_ok ok r" "fine e" "buffer_wf b" "rd e (cr_reader r) = (mb, x, rd')"
    and "x = None \<Longrightarrow> length (mb_content (cr_cache r) @ mb_content mb) < 2147483648"
  obtains b' r' new where "Cache rd e b r = Some (x, b', r')" "cr_ok ok r'" "buffer_wf b'" "length (b_v b') = length (b_v b)"
    "arrived (cr_reader r') = arrived (cr_reader r) @ new" "cr_pending pending r' = cr_pending pending r @ new"
    "x = None \<longrightarrow> mb_content (cr_cache r') = mb_content (cr_cache r) @ mb_content mb \<and> content b' = take (length (b_v b)) (mb_content (cr_cache r'))"
proof (cases x)
  case (Some err)
  with assms(4) have "Cache rd e b r = Some (x, b, r\<lparr>cr_reader := rd'\<rparr>)" by (simp add: Cache_def)
  with that [of b "r\<lparr>cr_reader := rd'\<rparr>"] rd_ok [OF _ assms(2,4)] rd_stream [OF _ assms(2,4)] assms(1,3) Some show thesis
    by (auto simp: cr_pending_def cr_ok_def)
next
  case None
  note w = rd_ok [OF _ assms(2,4)] and st = rd_stream [OF _ assms(2,4)]
  from None Cache_data [of rd e r mb rd' b] w assms [unfolded cr_ok_def] obtain b' cache where c:
    "Cache rd e b r = Some (None, b', r\<lparr>cr_reader := rd', cr_cache := cache\<rparr>)" "mb_wf cache"
    "mb_content cache = mb_content (cr_cache r) @ mb_content mb" "buffer_wf b'" "length (b_v b') = length (b_v b)"
    "content b' = take (length (b_v b)) (mb_content (cr_cache r) @ mb_content mb)" by auto
  with that [of b' "r\<lparr>cr_reader := rd', cr_cache := cache\<rparr>"] st w assms(1) None show thesis
    by (auto simp: cr_pending_def cr_ok_def)
qed

text \<open>Whatever the buffer does, no byte is lost.\<close>

lemma Cache_stream:
  assumes "cr_ok ok r" "fine e" "Cache rd e b r = Some (x, b', r')"
  shows "cr_ok ok r' \<and> (\<exists>new. arrived (cr_reader r') = arrived (cr_reader r) @ new \<and> cr_pending pending r' = cr_pending pending r @ new)"
proof -
  obtain mb x1 rd' where rd: "rd e (cr_reader r) = (mb, x1, rd')" by (cases "rd e (cr_reader r)") auto
  have ok: "ok rd'" "mb_wf mb" using rd_ok [OF _ assms(2) rd] assms(1) by (simp_all add: cr_ok_def)
  obtain new where new: "arrived rd' = arrived (cr_reader r) @ new"
    "(if x1 = None then mb_content mb else []) @ pending rd' = pending (cr_reader r) @ new"
    using rd_stream [OF _ assms(2) rd] assms(1) by (auto simp: cr_ok_def)
  have "cr_reader r' = rd'" "mb_wf (cr_cache r')"
    "mb_content (cr_cache r') = mb_content (cr_cache r) @ (if x1 = None then mb_content mb else [])"
    using assms(1,3) rd ok
    by (auto simp: Cache_def cr_ok_def Let_def bind_eq_Some_conv MergeMulti_def MultiBuffer_IsEmpty_content split: option.splits if_splits)
  with ok new show ?thesis by (auto simp: cr_ok_def cr_pending_def)
qed

lemma sniff_content_stream:
  assumes "cr_ok ok r" "\<forall>(d, e, t) \<in> set attempts. fine e"
    and "sniff_content rd network attempts s payload cacheDeadline totalAttempt c r = Some (res, c', r')"
  shows "cr_ok ok r' \<and> (\<exists>new. arrived (cr_reader r') = arrived (cr_reader r) @ new \<and> cr_pending pending r' = cr_pending pending r @ new)"
  using assms
proof (induction attempts arbitrary: s payload cacheDeadline totalAttempt c r)
  case (Cons a attempts)
  obtain isDone e t where a: "a = (isDone, e, t)" by (cases a) auto
  show ?case
  proof (cases isDone)
    case True
    with Cons.prems a show ?thesis by (auto simp: sniff_content.simps(2))
  next
    case False
    obtain x payload' r1 where ch: "Cache rd e payload r = Some (x, payload', r1)"
      using Cons.prems(3) a False by (cases "Cache rd e payload r") (auto simp: sniff_content.simps(2))
    have st: "cr_ok ok r1 \<and> (\<exists>new. arrived (cr_reader r1) = arrived (cr_reader r) @ new \<and> cr_pending pending r1 = cr_pending pending r @ new)"
      using Cache_stream [OF Cons.prems(1) _ ch] Cons.prems(2) a by auto
    have "r' = r1 \<or> (\<exists>s d n c. sniff_content rd network attempts s payload' d n c r1 = Some (res, c', r'))"
    proof (cases x)
      case None
      obtain looked c1 where l: "sniff_round network s payload' totalAttempt c = Some (looked, c1)"
        using Cons.prems(3) a False ch None by (cases "sniff_round network s payload' totalAttempt c") (auto simp: sniff_content.simps(2) Let_def)
      show ?thesis
        using Cons.prems(3) a False ch None l by (cases looked) (auto simp: sniff_content.simps(2) Let_def split: if_splits)
    qed (use Cons.prems(3) a False ch in \<open>auto simp: sniff_content.simps(2)\<close>)
    with st Cons.IH [of r1] Cons.prems(2) show ?thesis by (elim disjE exE) (simp, fastforce)
  qed
qed simp

end

section \<open>Sniffing ends\<close>

definition never_panics :: "protocolSniffer list \<Rightarrow> Network \<Rightarrow> bool" where
  "never_panics s network \<longleftrightarrow>
     (\<forall>si \<in> set s. \<forall>b. \<not> si_metadata si \<longrightarrow> si_network si = network \<longrightarrow> (\<forall>c. si_sniff si c (Some b) \<noteq> None))"

lemma sniff_loop_total:
  assumes "never_panics ss network"
  shows "sniff_loop ss payload network acc c \<noteq> None"
  using assms
proof (induction ss arbitrary: acc c)
  case (Cons si ss)
  then have *: "never_panics ss network" by (simp add: never_panics_def)
  show ?case
  proof (cases "si_metadata si \<or> si_network si \<noteq> network")
    case False
    with Cons.prems obtain x c1 where "si_sniff si c (Some payload) = Some (x, c1)" unfolding never_panics_def by fastforce
    with False Cons.IH [OF *] show ?thesis by (cases x) auto
  qed (use Cons.IH [OF *] in auto)
qed simp

lemma Sniff_total:
  assumes "never_panics s network"
  obtains res s' c' where "Sniff s payload network c = Some (res, s', c')" "never_panics s' network"
proof -
  obtain res s' c' where "Sniff s payload network c = Some (res, s', c')"
    using sniff_loop_total [OF assms, of payload "[]" c] by (auto simp: Sniff_def kept_def)
  with that Sniff_sound(1) [OF this] assms show thesis by (auto simp: never_panics_def)
qed

lemma sniff_round_total:
  assumes "never_panics s network" "buffer_wf payload"
  obtains looked c' where "sniff_round network s payload n c = Some (looked, c')" "\<forall>s' n. looked = Again s' n \<longrightarrow> never_panics s' network"
proof -
  obtain bytes where b: "Buffer_Bytes payload = Some bytes" using assms(2) by (auto simp: Buffer_Bytes_def go_slice_def buffer_wf_def)
  obtain res s' c' where "Sniff s bytes network c = Some (res, s', c')" "never_panics s' network"
    using Sniff_total [OF assms(1)] by metis
  with b assms(1) have "\<exists>looked c'. sniff_round network s payload n c = Some (looked, c') \<and> (\<forall>s' n. looked = Again s' n \<longrightarrow> never_panics s' network)"
    by (cases res) (auto simp: sniff_round_def)
  with that show thesis by blast
qed

text \<open>
  With a stream of less than two gigabytes, \<open>amount\<close> bounding what arrives during a read, the loop returns within the rounds
  that take up the 200 milliseconds.
\<close>

context timeout_reader
begin

lemma sniff_content_returns:
  assumes amount: "\<forall>r e. length (arrived (snd (snd (rd e r)))) \<le> length (arrived r) + amount e"
    and "cr_ok ok r" "length (cr_pending pending r) + sum_list (map (amount \<circ> fst \<circ> snd) attempts) < 2147483648"
    and "never_panics s network" "buffer_wf payload" "\<forall>(d, e, t) \<in> set attempts. 0 \<le> t \<and> fine e"
    and "attempts \<noteq> []" "cacheDeadline \<le> sum_list (map (snd \<circ> snd) attempts)"
  shows "\<exists>x. sniff_content rd network attempts s payload cacheDeadline totalAttempt c r = Some x"
  using assms(2-)
proof (induction attempts arbitrary: s payload cacheDeadline totalAttempt c r)
  case (Cons a attempts)
  obtain isDone e t where a: "a = (isDone, e, t)" by (cases a) auto
  have e: "fine e" using Cons.prems(5) a by auto
  obtain mb x rd' where rd: "rd e (cr_reader r) = (mb, x, rd')" by (cases "rd e (cr_reader r)") auto
  have am: "length (arrived rd') \<le> length (arrived (cr_reader r)) + amount e" using amount rd by (metis snd_conv)
  obtain new1 where "arrived rd' = arrived (cr_reader r) @ new1"
    "(if x = None then mb_content mb else []) @ pending rd' = pending (cr_reader r) @ new1"
    using rd_stream [OF _ e rd] Cons.prems(1) by (auto simp: cr_ok_def)
  then have small: "length (mb_content (cr_cache r) @ mb_content mb) < 2147483648" if "x = None"
    using am Cons.prems(2) that a by (auto simp: cr_pending_def dest!: arg_cong [of _ _ length])
  obtain payload' r1 new where ch: "Cache rd e payload r = Some (x, payload', r1)" "cr_ok ok r1" "buffer_wf payload'"
    "arrived (cr_reader r1) = arrived (cr_reader r) @ new" "cr_pending pending r1 = cr_pending pending r @ new"
    using Cache_step [OF Cons.prems(1) e Cons.prems(4) rd] small by metis
  have "cr_reader r1 = rd'" using ch(1) rd by (auto simp: Cache_def Let_def bind_eq_Some_conv split: option.splits)
  with am ch(4) have new: "length new \<le> amount e" by simp
  have again: "\<exists>y. (if 2 \<le> n \<or> cacheDeadline - t \<le> 0 then Some (Inl errSniffingTimeout, c', r1)
      else sniff_content rd network attempts s' payload' (cacheDeadline - t) n c' r1) = Some y"
    if "never_panics s' network" for s' n c'
  proof (cases "2 \<le> n \<or> cacheDeadline - t \<le> 0")
    case False
    then have "attempts \<noteq> []" using Cons.prems(7) a by auto
    with False Cons.IH [OF ch(2) _ that ch(3), of "cacheDeadline - t" n c'] Cons.prems(2,5,7) ch(5) new a show ?thesis by auto
  qed auto
  obtain looked c' where l: "sniff_round network s payload' totalAttempt c = Some (looked, c')" "\<forall>s' n. looked = Again s' n \<longrightarrow> never_panics s' network"
    using sniff_round_total [OF Cons.prems(3) ch(3)] by metis
  show ?case
    using again ch(1) l a by (cases looked) (auto simp: sniff_content.simps(2) Let_def split: option.splits)
qed simp

end

text \<open>What others write into the pipe during a read.\<close>

definition pipe_amount :: "pipe_act list \<Rightarrow> nat" where
  "pipe_amount acts = sum_list (map (\<lambda>a. case a of Act_Write mb \<Rightarrow> length (mb_content mb) | _ \<Rightarrow> 0) acts)"

lemma pipe_read_amount:
  "pipe_ReadMultiBufferTimeout acts r = (mb, x, r') \<Longrightarrow> length (tp_in r') \<le> length (tp_in r) + pipe_amount acts"
proof (induction acts r rule: pipe_ReadMultiBufferTimeout.induct)
  case (1 acts r)
  obtain d e p where rd: "readMultiBufferInternal (tp_pipe r) = (d, e, p)" by (cases "readMultiBufferInternal (tp_pipe r)") auto
  show ?case
  proof (cases "d \<noteq> None \<or> e \<noteq> None")
    case True
    with "1.prems" rd show ?thesis by (auto simp: pipe_ReadMultiBufferTimeout.simps [of acts r])
  next
    case False
    show ?thesis
    proof (cases acts)
      case Nil
      with "1.prems" rd False show ?thesis by (auto simp: pipe_ReadMultiBufferTimeout.simps [of "[]" r])
    next
      case (Cons a later)
      let ?r = "pipe_do a (r\<lparr>tp_pipe := p\<rparr>)"
      have "pipe_ReadMultiBufferTimeout later ?r = (mb, x, r')"
        using "1.prems" rd False Cons by (simp add: pipe_ReadMultiBufferTimeout.simps [of "a # later" r])
      then have "length (tp_in r') \<le> length (tp_in ?r) + pipe_amount later"
        using "1.IH" [OF rd [symmetric] refl _ Cons] False by blast
      moreover have "length (tp_in ?r) \<le> length (tp_in r) + pipe_amount [a]"
        by (cases a) (auto simp: pipe_amount_def accepted_bytes_def split: prod.split)
      ultimately show ?thesis using Cons by (simp add: pipe_amount_def)
    qed
  qed
qed

end
