(* ===== verification/Outbound_Manager.thy ===== *)
theory Outbound_Manager
  imports Go_IO "HOL-Library.List_Lexorder" "HOL-Library.AList" "HOL-Library.Multiset"
begin

text \<open>
  \<^verbatim>\<open>app/proxyman/outbound/outbound.go\<close>: the manager of outbound handlers, with the selection of handlers by
  tag prefix that balancers use. What the handlers do when they are started or closed is a parameter;
  the operations answer which handlers they called. The handlers with a tag are a map, kept as an
  association list; the order in which Go visits it is a parameter.
\<close>

section \<open>The manager\<close>

record OutHandler =
  h_Tag :: gostring
  h_ref :: nat

record Manager =
  defaultHandler :: "OutHandler option"
  taggedHandler :: "(gostring \<times> OutHandler) list"
  untaggedHandlers :: "OutHandler list"
  running :: bool
  tagsCache :: "gostring \<Rightarrow> gostring list option"

definition NewManager :: Manager where
  "NewManager = \<lparr>defaultHandler = None, taggedHandler = [], untaggedHandlers = [], running = False, tagsCache = Map.empty\<rparr>"

text \<open>Start the handlers up to the first that fails; the handlers called, and the error.\<close>

fun start_handlers :: "(OutHandler \<Rightarrow> goerr option) \<Rightarrow> OutHandler list \<Rightarrow> OutHandler list \<times> goerr option" where
  "start_handlers start [] = ([], None)"
| "start_handlers start (h # hs) =
     (case start h of
        Some e \<Rightarrow> ([h], Some e)
      | None \<Rightarrow> (case start_handlers start hs of (called, e) \<Rightarrow> (h # called, e)))"

definition visit_handlers :: "(gostring list \<Rightarrow> gostring list) \<Rightarrow> Manager \<Rightarrow> OutHandler list" where
  "visit_handlers visit m = List.map_filter (map_of (taggedHandler m)) (visit (map fst (taggedHandler m)))"

definition Manager_Start ::
  "(gostring list \<Rightarrow> gostring list) \<Rightarrow> (OutHandler \<Rightarrow> goerr option) \<Rightarrow> Manager \<Rightarrow> Manager \<times> OutHandler list \<times> goerr option" where
  "Manager_Start visit start m = (m\<lparr>running := True\<rparr>, start_handlers start (visit_handlers visit m @ untaggedHandlers m))"

text \<open>\<^verbatim>\<open>errors.Combine\<close> of the errors of all handlers.\<close>

definition Manager_Close ::
  "(gostring list \<Rightarrow> gostring list) \<Rightarrow> (OutHandler \<Rightarrow> goerr option) \<Rightarrow> Manager \<Rightarrow> Manager \<times> OutHandler list \<times> goerr list" where
  "Manager_Close visit close m =
     (let hs = visit_handlers visit m @ untaggedHandlers m in (m\<lparr>running := False\<rparr>, hs, List.map_filter close hs))"

definition GetDefaultHandler :: "Manager \<Rightarrow> OutHandler option" where
  "GetDefaultHandler m = defaultHandler m"

definition GetHandler :: "Manager \<Rightarrow> gostring \<Rightarrow> OutHandler option" where
  "GetHandler m tag = map_of (taggedHandler m) tag"

definition AddHandler :: "(OutHandler \<Rightarrow> goerr option) \<Rightarrow> Manager \<Rightarrow> OutHandler \<Rightarrow> Manager \<times> goerr option" where
  "AddHandler start m handler =
     (let m1 = m\<lparr>tagsCache := Map.empty\<rparr>;
          m2 = (if defaultHandler m1 = None then m1\<lparr>defaultHandler := Some handler\<rparr> else m1);
          tag = h_Tag handler
      in if tag \<noteq> [] \<and> map_of (taggedHandler m2) tag \<noteq> None then (m2, Some (ErrMsg ''existing tag found''))
         else
           let m3 = (if tag \<noteq> [] then m2\<lparr>taggedHandler := taggedHandler m2 @ [(tag, handler)]\<rparr>
                     else m2\<lparr>untaggedHandlers := untaggedHandlers m2 @ [handler]\<rparr>)
           in (m3, if running m3 then start handler else None))"

definition RemoveHandler :: "Manager \<Rightarrow> gostring \<Rightarrow> Manager \<times> goerr option" where
  "RemoveHandler m tag =
     (if tag = [] then (m, Some ErrNoClue)
      else
        let m1 = m\<lparr>tagsCache := Map.empty, taggedHandler := AList.delete tag (taggedHandler m)\<rparr> in
        ((case defaultHandler m1 of
            Some h \<Rightarrow> if h_Tag h = tag then m1\<lparr>defaultHandler := None\<rparr> else m1
          | None \<Rightarrow> m1), None))"

definition ListHandlers :: "(gostring list \<Rightarrow> gostring list) \<Rightarrow> Manager \<Rightarrow> OutHandler list" where
  "ListHandlers visit m = untaggedHandlers m @ visit_handlers visit m"

fun comma_join :: "gostring list \<Rightarrow> gostring" where
  "comma_join [] = []"
| "comma_join [s] = s"
| "comma_join (s # ss) = s @ gostr '','' @ comma_join ss"

definition selected :: "gostring list \<Rightarrow> gostring list \<Rightarrow> gostring list" where
  "selected selectors tags = filter (\<lambda>tag. list_ex (\<lambda>selector. take (length selector) tag = selector) selectors) tags"

definition Select :: "(gostring list \<Rightarrow> gostring list) \<Rightarrow> Manager \<Rightarrow> gostring list \<Rightarrow> Manager \<times> gostring list" where
  "Select visit m selectors =
     (let key = comma_join selectors in
      case tagsCache m key of
        Some tags \<Rightarrow> (m, tags)
      | None \<Rightarrow>
          let tags = sort (selected selectors (visit (map fst (taggedHandler m))))
          in (m\<lparr>tagsCache := (tagsCache m)(key \<mapsto> tags)\<rparr>, tags))"

section \<open>The cache\<close>

text \<open>Selectors as they may be cached: at least one, and no comma in them.\<close>

definition plain_selectors :: "gostring list \<Rightarrow> bool" where
  "plain_selectors ss \<longleftrightarrow> ss \<noteq> [] \<and> (\<forall>s \<in> set ss. 44 \<notin> set s)"

lemma comma_join_inj: "plain_selectors xs \<Longrightarrow> plain_selectors ys \<Longrightarrow> comma_join xs = comma_join ys \<Longrightarrow> xs = ys"
proof (induction xs arbitrary: ys rule: comma_join.induct)
  case (2 s)
  then obtain t ts where ys: "ys = t # ts" by (cases ys) (auto simp: plain_selectors_def)
  with 2 show ?case by (cases ts) (auto simp: plain_selectors_def)
next
  case (3 s s' ss)
  then obtain t ts where ys: "ys = t # ts" by (cases ys) (auto simp: plain_selectors_def)
  have "ts \<noteq> []" using "3.prems" ys by (auto simp: plain_selectors_def)
  then obtain t' ts' where ts: "ts = t' # ts'" by (cases ts) auto
  from "3.prems"(3) have e: "s @ 44 # comma_join (s' # ss) = t @ 44 # comma_join ts" by (simp add: ys ts)
  have cut: "takeWhile (\<lambda>b. b \<noteq> 44) (z @ 44 # zs) = z" if "44 \<notin> set z" for z zs :: gostring
    using that by (subst takeWhile_append2) auto
  have "s = t" using arg_cong [OF e, of "takeWhile (\<lambda>b. b \<noteq> 44)"] "3.prems"(1,2) by (simp add: cut ys plain_selectors_def)
  moreover from this e have "comma_join (s' # ss) = comma_join ts" by simp
  with "3.IH" [of ts] "3.prems"(1,2) have "s' # ss = ts" by (simp add: plain_selectors_def ys ts)
  ultimately show ?case by (simp add: ys)
qed (simp add: plain_selectors_def)

definition select_spec :: "Manager \<Rightarrow> gostring list \<Rightarrow> gostring list" where
  "select_spec m ss = sort (selected ss (map fst (taggedHandler m)))"

definition manager_ok :: "Manager \<Rightarrow> bool" where
  "manager_ok m \<longleftrightarrow> distinct (map fst (taggedHandler m)) \<and> (\<forall>(t, h) \<in> set (taggedHandler m). h_Tag h = t \<and> t \<noteq> []) \<and>
     (\<forall>h \<in> set (untaggedHandlers m). h_Tag h = []) \<and>
     (\<forall>ss ts. plain_selectors ss \<longrightarrow> tagsCache m (comma_join ss) = Some ts \<longrightarrow> ts = select_spec m ss)"

lemma selected_mset: "mset xs = mset ys \<Longrightarrow> mset (selected ss xs) = mset (selected ss ys)"
  by (simp add: selected_def)

lemma sort_mset: "mset xs = mset ys \<Longrightarrow> sort xs = sort (ys :: 'a :: linorder list)"
  by (metis mset_sort properties_for_sort sorted_sort)

lemma Select_ok:
  assumes m: "manager_ok m" and v: "\<And>ts. mset (visit ts) = mset ts" and ss: "plain_selectors ss"
    and r: "Select visit m ss = (m', tags)"
  shows "manager_ok m' \<and> tags = select_spec m ss \<and> taggedHandler m' = taggedHandler m"
proof -
  have s: "sort (selected ss (visit (map fst (taggedHandler m)))) = select_spec m ss"
    unfolding select_spec_def by (intro sort_mset selected_mset v)
  show ?thesis
  proof (cases "tagsCache m (comma_join ss)")
    case None
    with r s have m': "m' = m\<lparr>tagsCache := (tagsCache m)(comma_join ss \<mapsto> select_spec m ss)\<rparr>" "tags = select_spec m ss"
      by (auto simp: Select_def Let_def)
    have "ts = select_spec m' xs" if "plain_selectors xs" "tagsCache m' (comma_join xs) = Some ts" for xs ts
      using that m comma_join_inj [OF that(1) ss]
      by (cases "comma_join xs = comma_join ss") (auto simp: m' manager_ok_def select_spec_def)
    with m m' show ?thesis by (simp add: manager_ok_def)
  next
    case (Some ts)
    with r m ss show ?thesis by (auto simp: Select_def manager_ok_def)
  qed
qed

lemma AddHandler_ok:
  assumes "manager_ok m"
  shows "manager_ok (fst (AddHandler start m h))"
  using assms by (auto simp: AddHandler_def manager_ok_def Let_def map_of_eq_None_iff)

lemma RemoveHandler_ok:
  assumes "manager_ok m"
  shows "manager_ok (fst (RemoveHandler m tag))"
proof -
  have "set (AList.delete tag (taggedHandler m)) \<subseteq> set (taggedHandler m)" by (auto simp: AList.delete_eq)
  then show ?thesis using assms
    by (auto simp: RemoveHandler_def manager_ok_def Let_def distinct_delete split: option.split)
qed

section \<open>Properties\<close>

datatype om_op = OAdd OutHandler | ORemove gostring | OSelect "gostring list" | OStart | OClose

definition om_step where
  "om_step visit start m op =
     (case op of
        OAdd h \<Rightarrow> fst (AddHandler start m h)
      | ORemove tag \<Rightarrow> fst (RemoveHandler m tag)
      | OSelect ss \<Rightarrow> fst (Select visit m ss)
      | OStart \<Rightarrow> fst (Manager_Start visit start m)
      | OClose \<Rightarrow> fst (Manager_Close visit start m))"

lemma om_step_ok:
  assumes "manager_ok m" "\<And>ts. mset (visit ts) = mset ts" "\<And>ss. op = OSelect ss \<Longrightarrow> plain_selectors ss"
  shows "manager_ok (om_step visit start m op)"
proof (cases op)
  case (OSelect ss)
  with Select_ok [OF assms(1,2), of ss "fst (Select visit m ss)" "snd (Select visit m ss)"] assms(3) show ?thesis
    by (simp add: om_step_def)
next
  case OStart
  with assms(1) show ?thesis by (simp add: om_step_def Manager_Start_def manager_ok_def select_spec_def)
next
  case OClose
  with assms(1) show ?thesis by (simp add: om_step_def Manager_Close_def manager_ok_def select_spec_def Let_def)
qed (use assms(1) AddHandler_ok RemoveHandler_ok in \<open>simp_all add: om_step_def\<close>)

lemma om_run_ok:
  assumes v: "\<And>ts. mset (visit ts) = mset ts"
  shows "manager_ok m \<Longrightarrow> \<forall>ss. OSelect ss \<in> set ops \<longrightarrow> plain_selectors ss \<Longrightarrow> manager_ok (foldl (om_step visit start) m ops)"
proof (induction ops arbitrary: m)
  case (Cons op ops)
  have "manager_ok (om_step visit start m op)"
    by (rule om_step_ok [OF Cons.prems(1) v]) (use Cons.prems(2) in auto)
  with Cons show ?case by simp
qed simp

text \<open>
  Selection by prefix sees every change. After any sequence of adding, removing, starting, closing
  and selecting, with selectors that contain no comma, \<^verbatim>\<open>Select\<close> answers the sorted list of the tags
  that start with one of the selectors, although answers are cached; tags are unique. Selectors are
  joined by commas to make the key of the cache, and so selectors with a comma can be answered with
  what was cached for others.
\<close>

theorem manager_select:
  "((\<forall>ts. mset (visit ts) = mset ts) \<and> (\<forall>ss'. OSelect ss' \<in> set ops \<longrightarrow> plain_selectors ss') \<and> plain_selectors ss \<longrightarrow>
     (let m = foldl (om_step visit start) NewManager ops in
      snd (Select visit m ss) = sort (selected ss (map fst (taggedHandler m))) \<and> distinct (map fst (taggedHandler m)))) \<and>
   (let m = foldl (om_step id (\<lambda>_. None)) NewManager [OAdd \<lparr>h_Tag = gostr ''a'', h_ref = 0\<rparr>, OSelect [gostr ''a,b'']] in
      snd (Select id m [gostr ''a'', gostr ''b'']) = [] \<and> selected [gostr ''a'', gostr ''b''] (map fst (taggedHandler m)) = [gostr ''a''])"
proof (rule conjI, rule impI)
  assume a: "(\<forall>ts. mset (visit ts) = mset ts) \<and> (\<forall>ss'. OSelect ss' \<in> set ops \<longrightarrow> plain_selectors ss') \<and> plain_selectors ss"
  let ?m = "foldl (om_step visit start) NewManager ops"
  have "manager_ok NewManager" by (simp add: manager_ok_def NewManager_def)
  with om_run_ok [of visit NewManager ops start] a have m: "manager_ok ?m" by simp
  obtain m' tags where s: "Select visit ?m ss = (m', tags)" by (cases "Select visit ?m ss")
  from Select_ok [OF m _ _ s] a have "tags = select_spec ?m ss" by simp
  with s m show "let m = ?m in snd (Select visit m ss) = sort (selected ss (map fst (taggedHandler m))) \<and> distinct (map fst (taggedHandler m))"
    by (simp add: Let_def select_spec_def manager_ok_def)
qed code_simp

theorem manager_select_witness:
  "let m = foldl (om_step id (\<lambda>_. None)) NewManager
       [OAdd \<lparr>h_Tag = gostr ''proxy-b'', h_ref = 0\<rparr>, OSelect [gostr ''proxy''], OAdd \<lparr>h_Tag = gostr ''proxy-a'', h_ref = 1\<rparr>] in
   snd (Select id m [gostr ''proxy'']) = [gostr ''proxy-a'', gostr ''proxy-b'']"
proof -
  let ?ops = "[OAdd \<lparr>h_Tag = gostr ''proxy-b'', h_ref = 0\<rparr>, OSelect [gostr ''proxy''], OAdd \<lparr>h_Tag = gostr ''proxy-a'', h_ref = 1\<rparr>]"
  let ?m = "foldl (om_step id (\<lambda>_. None)) NewManager ?ops"
  have "plain_selectors [gostr ''proxy'']" by (simp add: plain_selectors_def)
  with manager_select [of id ?ops "[gostr ''proxy'']" "\<lambda>_. None"]
  have "snd (Select id ?m [gostr ''proxy'']) = sort (selected [gostr ''proxy''] (map fst (taggedHandler ?m)))"
    by (simp add: Let_def del: foldl.simps)
  also have "\<dots> = [gostr ''proxy-a'', gostr ''proxy-b'']" by code_simp
  finally show ?thesis by (simp add: Let_def del: foldl.simps)
qed

end
