(* ===== verification/Router_Balancer.thy ===== *)
theory Router_Balancer
  imports Complex_Main Outbound_Manager "HOL-Library.Product_Lexorder"
begin

text \<open>
  The balancers of the router: \<^verbatim>\<open>app/router/balancing.go\<close>, \<^verbatim>\<open>balancing_override.go\<close>, \<^verbatim>\<open>strategy_random.go\<close>,
  \<^verbatim>\<open>strategy_leastping.go\<close>, \<^verbatim>\<open>strategy_leastload.go\<close> and \<^verbatim>\<open>weight.go\<close>. A balancer selects outbounds of the manager
  by prefix and asks its strategy for one of them. Reports of the observatory and random numbers are
  arguments of a pick; regular expressions, \<^verbatim>\<open>strconv.ParseFloat\<close> and the scaling of a duration by the
  root of a weight, which compute with floating-point numbers, are parameters. \<open>None\<close> is a panic.
\<close>

section \<open>Observations\<close>

record HealthPing =
  hp_All :: int
  hp_Fail :: int
  hp_Deviation :: int
  hp_Average :: int

record OutboundStatus =
  os_Alive :: bool
  os_Delay :: int
  os_OutboundTag :: gostring
  os_HealthPing :: "HealthPing option"

text \<open>An answer of \<^verbatim>\<open>GetObservation\<close>: an error, a report, or a message of another type.\<close>

type_synonym observation = "goerr + OutboundStatus list option"

definition i64 :: "int \<Rightarrow> int" where
  "i64 x = (x + 2 ^ 63) mod 2 ^ 64 - 2 ^ 63"

text \<open>Integer division of Go, which rounds towards zero.\<close>

definition go_div :: "int \<Rightarrow> int \<Rightarrow> int" where
  "go_div a b = sgn a * sgn b * (\<bar>a\<bar> div \<bar>b\<bar>)"

text \<open>The candidates that are alive or not reported on; the last report on a tag counts.\<close>

definition statusMap :: "OutboundStatus list \<Rightarrow> gostring \<Rightarrow> OutboundStatus option" where
  "statusMap status = foldl (\<lambda>m s. m(os_OutboundTag s \<mapsto> s)) Map.empty status"

definition aliveTags :: "OutboundStatus list \<Rightarrow> gostring list \<Rightarrow> gostring list" where
  "aliveTags status tags =
     filter (\<lambda>candidate. case statusMap status candidate of Some s \<Rightarrow> os_Alive s | None \<Rightarrow> True) tags"

definition observed :: "bool \<Rightarrow> observation \<Rightarrow> gostring list \<Rightarrow> gostring list" where
  "observed observatory obs tags =
     (if observatory then (case obs of Inr (Some status) \<Rightarrow> aliveTags status tags | _ \<Rightarrow> tags) else tags)"

section \<open>Weights\<close>

record StrategyWeight =
  sw_Regexp :: bool
  sw_Match :: gostring
  sw_Value :: rat

record WeightManager =
  wm_settings :: "StrategyWeight list"
  wm_cache :: "gostring \<Rightarrow> rat option"
  wm_defaultWeight :: rat

record weight_env =
  we_FindRegexp :: "gostring \<Rightarrow> goerr + (gostring \<Rightarrow> gostring)"
  we_ParseFloat :: "gostring \<Rightarrow> goerr + rat"
  we_scale :: "int \<Rightarrow> rat \<Rightarrow> int"

definition NewWeightManager :: "StrategyWeight list \<Rightarrow> rat \<Rightarrow> WeightManager" where
  "NewWeightManager s d = \<lparr>wm_settings = s, wm_cache = Map.empty, wm_defaultWeight = d\<rparr>"

definition is_dec :: "byte \<Rightarrow> bool" where "is_dec c \<longleftrightarrow> 48 \<le> c \<and> c \<le> 57"

text \<open>The regular expression \<^verbatim>\<open>\d+(\.\d+)?\<close>: the first match.\<close>

definition find_number :: "gostring \<Rightarrow> gostring" where
  "find_number s =
     (let t = dropWhile (\<lambda>c. \<not> is_dec c) s; a = takeWhile is_dec t; r = dropWhile is_dec t in
      case r of
        [] \<Rightarrow> a
      | c # r' \<Rightarrow> let b = takeWhile is_dec r' in if c = 46 \<and> b \<noteq> [] then a @ 46 # b else a)"

definition getMatch :: "weight_env \<Rightarrow> gostring \<Rightarrow> gostring \<Rightarrow> bool \<Rightarrow> gostring" where
  "getMatch W tag pat isRegexp =
     (if \<not> isRegexp then (if list_ex (\<lambda>i. take (length pat) (drop i tag) = pat) [0..<length tag + 1] then pat else [])
      else (case we_FindRegexp W pat of Inl e \<Rightarrow> [] | Inr r \<Rightarrow> r tag))"

fun findValue :: "weight_env \<Rightarrow> rat \<Rightarrow> gostring \<Rightarrow> StrategyWeight list \<Rightarrow> rat" where
  "findValue W d tag [] = d"
| "findValue W d tag (w # ws) =
     (let matched = getMatch W tag (sw_Match w) (sw_Regexp w) in
      if matched = [] then findValue W d tag ws
      else if sw_Value w > 0 then sw_Value w
      else
        let numStr = find_number matched in
        if numStr = [] then d
        else (case we_ParseFloat W numStr of Inl e \<Rightarrow> d | Inr weight \<Rightarrow> weight))"

definition WeightManager_Get :: "weight_env \<Rightarrow> WeightManager \<Rightarrow> gostring \<Rightarrow> WeightManager \<times> rat" where
  "WeightManager_Get W s tag =
     (case wm_cache s tag of
        Some weight \<Rightarrow> (s, weight)
      | None \<Rightarrow>
          let weight = findValue W (wm_defaultWeight s) tag (wm_settings s)
          in (s\<lparr>wm_cache := (wm_cache s)(tag \<mapsto> weight)\<rparr>, weight))"

definition WeightManager_Apply :: "weight_env \<Rightarrow> WeightManager \<Rightarrow> gostring \<Rightarrow> int \<Rightarrow> WeightManager \<times> int" where
  "WeightManager_Apply W s tag value = apsnd (we_scale W value) (WeightManager_Get W s tag)"

section \<open>Least load\<close>

record StrategyLeastLoadConfig =
  ll_Costs :: "StrategyWeight list"
  ll_Baselines :: "int list"
  ll_Expected :: int
  ll_MaxRTT :: int

record ll_node =
  nd_Tag :: gostring
  nd_CountAll :: int
  nd_CountFail :: int
  nd_RTTAverage :: int
  nd_RTTDeviation :: int
  nd_RTTDeviationCost :: int

definition node_key :: "ll_node \<Rightarrow> int \<times> int \<times> int \<times> int \<times> gostring" where
  "node_key n = (nd_RTTDeviationCost n, nd_RTTAverage n, nd_CountFail n, - nd_CountAll n, nd_Tag n)"

definition leastloadSort :: "ll_node list \<Rightarrow> ll_node list" where
  "leastloadSort nodes = sort_key node_key nodes"

text \<open>The node made of one report.\<close>

definition make_node :: "weight_env \<Rightarrow> WeightManager \<Rightarrow> OutboundStatus \<Rightarrow> WeightManager \<times> ll_node" where
  "make_node W costs v =
     (let d = i64 (os_Delay v * 1000000); (costs1, c) = WeightManager_Apply W costs (os_OutboundTag v) d in
      case os_HealthPing v of
        None \<Rightarrow>
          (costs1, \<lparr>nd_Tag = os_OutboundTag v, nd_CountAll = 1, nd_CountFail = 1, nd_RTTAverage = d, nd_RTTDeviation = d,
             nd_RTTDeviationCost = c\<rparr>)
      | Some hp \<Rightarrow>
          (case WeightManager_Apply W costs1 (os_OutboundTag v) (hp_Deviation hp) of (costs2, c2) \<Rightarrow>
             (costs2, \<lparr>nd_Tag = os_OutboundTag v, nd_CountAll = hp_All hp, nd_CountFail = hp_Fail hp,
                nd_RTTAverage = hp_Average hp, nd_RTTDeviation = hp_Deviation hp, nd_RTTDeviationCost = c2\<rparr>)))"

fun collect_nodes ::
  "weight_env \<Rightarrow> gostring list \<Rightarrow> int \<Rightarrow> WeightManager \<Rightarrow> OutboundStatus list \<Rightarrow> WeightManager \<times> ll_node list" where
  "collect_nodes W candidates maxRTT costs [] = (costs, [])"
| "collect_nodes W candidates maxRTT costs (v # vs) =
     (if os_Alive v \<and> (os_Delay v < go_div maxRTT 1000000 \<or> maxRTT = 0) \<and> os_OutboundTag v \<in> set candidates
      then (case make_node W costs v of (costs1, n) \<Rightarrow> apsnd (Cons n) (collect_nodes W candidates maxRTT costs1 vs))
      else collect_nodes W candidates maxRTT costs vs)"

definition getNodes ::
  "weight_env \<Rightarrow> bool \<Rightarrow> observation \<Rightarrow> WeightManager \<Rightarrow> gostring list \<Rightarrow> int \<Rightarrow> (WeightManager \<times> ll_node list) option" where
  "getNodes W observer obs costs candidates maxRTT =
     (if \<not> observer then Some (costs, [])
      else (case obs of
              Inl e \<Rightarrow> Some (costs, [])
            | Inr None \<Rightarrow> None
            | Inr (Some status) \<Rightarrow> Some (apsnd leastloadSort (collect_nodes W candidates maxRTT costs status))))"

fun baseline_loop :: "ll_node list \<Rightarrow> int \<Rightarrow> nat \<Rightarrow> int list \<Rightarrow> nat" where
  "baseline_loop nodes expected cnt [] = cnt"
| "baseline_loop nodes expected cnt (b # bs) =
     (let cnt' = cnt + length (takeWhile (\<lambda>n. nd_RTTDeviationCost n < b) (drop cnt nodes)) in
      if int cnt' \<ge> expected then cnt' else baseline_loop nodes expected cnt' bs)"

definition selectLeastLoad :: "StrategyLeastLoadConfig \<Rightarrow> ll_node list \<Rightarrow> ll_node list" where
  "selectLeastLoad s nodes =
     (if nodes = [] then []
      else
        let availableCount = int (length nodes) in
        if ll_Expected s > availableCount then nodes
        else
          let expected = (if ll_Expected s \<le> 0 then 1 else ll_Expected s) in
          if ll_Baselines s = [] then take (nat expected) nodes
          else
            let cnt = baseline_loop nodes expected 0 (ll_Baselines s);
                cnt' = (if ll_Expected s > 0 \<and> int cnt < expected then nat expected else cnt)
            in take cnt' nodes)"

section \<open>Strategies\<close>

datatype Strategy =
    RandomStrategy gostring bool
  | RoundRobinStrategy gostring bool nat
  | LeastPingStrategy bool
  | LeastLoadStrategy StrategyLeastLoadConfig WeightManager bool

text \<open>What a pick can see: the report and the random numbers (\<^verbatim>\<open>dice.Roll\<close>).\<close>

record pick_env =
  pe_obs :: observation
  pe_weights :: weight_env
  pe_Roll :: "nat \<Rightarrow> nat"

definition dice_index :: "pick_env \<Rightarrow> nat \<Rightarrow> nat" where
  "dice_index E n = (if n = 1 then 0 else pe_Roll E n)"

definition NewLeastLoadStrategy :: "StrategyLeastLoadConfig \<Rightarrow> Strategy" where
  "NewLeastLoadStrategy settings = LeastLoadStrategy settings (NewWeightManager (ll_Costs settings) 1) False"

text \<open>\<^verbatim>\<open>InjectContext\<close>: the observatory is required from the instance; \<^verbatim>\<open>RandomStrategy\<close> and
  \<^verbatim>\<open>RoundRobinStrategy\<close> only ask for it when they have a fallback.\<close>

fun Strategy_InjectContext :: "Strategy \<Rightarrow> Strategy" where
  "Strategy_InjectContext (RandomStrategy f obs) = RandomStrategy f (if f \<noteq> [] then True else obs)"
| "Strategy_InjectContext (RoundRobinStrategy f obs i) = RoundRobinStrategy f (if f \<noteq> [] then True else obs) i"
| "Strategy_InjectContext (LeastPingStrategy obs) = LeastPingStrategy True"
| "Strategy_InjectContext (LeastLoadStrategy s c obs) = LeastLoadStrategy s c True"

definition Random_Pick :: "pick_env \<Rightarrow> bool \<Rightarrow> gostring list \<Rightarrow> gostring" where
  "Random_Pick E observatory candidates =
     (let cs = observed observatory (pe_obs E) candidates in
      if cs = [] then [] else cs ! dice_index E (length cs))"

definition RoundRobin_Pick :: "pick_env \<Rightarrow> bool \<Rightarrow> nat \<Rightarrow> gostring list \<Rightarrow> nat \<times> gostring" where
  "RoundRobin_Pick E observatory index tags =
     (let ts = observed observatory (pe_obs E) tags; n = length ts in
      if n = 0 then (index, []) else ((index + 1) mod n, ts ! (index mod n)))"

fun least_ping :: "gostring list \<Rightarrow> int \<Rightarrow> gostring \<Rightarrow> OutboundStatus list \<Rightarrow> gostring" where
  "least_ping tags leastPing sel [] = sel"
| "least_ping tags leastPing sel (v # vs) =
     (if os_OutboundTag v \<in> set tags \<and> os_Alive v \<and> os_Delay v < leastPing
      then least_ping tags (os_Delay v) (os_OutboundTag v) vs else least_ping tags leastPing sel vs)"

definition LeastPing_Pick :: "pick_env \<Rightarrow> bool \<Rightarrow> gostring list \<Rightarrow> gostring" where
  "LeastPing_Pick E observatory tags =
     (if \<not> observatory then []
      else (case pe_obs E of Inr (Some status) \<Rightarrow> least_ping tags 99999999 [] status | _ \<Rightarrow> []))"

definition pickOutbounds ::
  "pick_env \<Rightarrow> StrategyLeastLoadConfig \<Rightarrow> WeightManager \<Rightarrow> bool \<Rightarrow> gostring list \<Rightarrow> (WeightManager \<times> ll_node list) option" where
  "pickOutbounds E s costs observer candidates =
     map_option (apsnd (selectLeastLoad s)) (getNodes (pe_weights E) observer (pe_obs E) costs candidates (ll_MaxRTT s))"

fun Strategy_PickOutbound :: "pick_env \<Rightarrow> Strategy \<Rightarrow> gostring list \<Rightarrow> (Strategy \<times> gostring) option" where
  "Strategy_PickOutbound E (RandomStrategy f obs) tags = Some (RandomStrategy f obs, Random_Pick E obs tags)"
| "Strategy_PickOutbound E (RoundRobinStrategy f obs i) tags =
     (case RoundRobin_Pick E obs i tags of (i', tag) \<Rightarrow> Some (RoundRobinStrategy f obs i', tag))"
| "Strategy_PickOutbound E (LeastPingStrategy obs) tags = Some (LeastPingStrategy obs, LeastPing_Pick E obs tags)"
| "Strategy_PickOutbound E (LeastLoadStrategy s c obs) tags =
     do { (c', sel) \<leftarrow> pickOutbounds E s c obs tags;
          Some (LeastLoadStrategy s c' obs,
                if sel = [] then [] else nd_Tag (sel ! dice_index E (length sel))) }"

fun GetPrincipleTarget :: "pick_env \<Rightarrow> Strategy \<Rightarrow> gostring list \<Rightarrow> (Strategy \<times> gostring list) option" where
  "GetPrincipleTarget E (LeastPingStrategy obs) tags = Some (LeastPingStrategy obs, [LeastPing_Pick E obs tags])"
| "GetPrincipleTarget E (LeastLoadStrategy s c obs) tags =
     do { (c', sel) \<leftarrow> pickOutbounds E s c obs tags; Some (LeastLoadStrategy s c' obs, map nd_Tag sel) }"
| "GetPrincipleTarget E st tags = Some (st, tags)"

section \<open>Balancers\<close>

record Balancer =
  ba_selectors :: "gostring list"
  ba_strategy :: Strategy
  ba_fallbackTag :: gostring
  ba_override :: gostring

text \<open>The outbound manager is \<open>None\<close> when it cannot select.\<close>

definition SelectOutbounds ::
  "(gostring list \<Rightarrow> gostring list) \<Rightarrow> Manager option \<Rightarrow> Balancer \<Rightarrow> Manager option \<times> (goerr + gostring list)" where
  "SelectOutbounds visit ohm b =
     (case ohm of
        None \<Rightarrow> (None, Inl (ErrMsg ''outbound.Manager is not a HandlerSelector''))
      | Some m \<Rightarrow> (case Select visit m (ba_selectors b) of (m', tags) \<Rightarrow> (Some m', Inr tags)))"

definition fallback_or :: "Balancer \<Rightarrow> goerr \<Rightarrow> goerr + gostring" where
  "fallback_or b e = (if ba_fallbackTag b \<noteq> [] then Inr (ba_fallbackTag b) else Inl e)"

definition Balancer_PickOutbound ::
  "(gostring list \<Rightarrow> gostring list) \<Rightarrow> pick_env \<Rightarrow> Manager option \<Rightarrow> Balancer \<Rightarrow> (Manager option \<times> Balancer \<times> (goerr + gostring)) option" where
  "Balancer_PickOutbound visit E ohm b =
     (case SelectOutbounds visit ohm b of
        (ohm', Inl e) \<Rightarrow> Some (ohm', b, fallback_or b e)
      | (ohm', Inr candidates) \<Rightarrow>
          do { (st, tag) \<leftarrow> (if ba_override b \<noteq> [] then Some (ba_strategy b, ba_override b)
                              else Strategy_PickOutbound E (ba_strategy b) candidates);
               let b' = b\<lparr>ba_strategy := st\<rparr>;
               Some (ohm', b', if tag = [] then fallback_or b' (ErrMsg ''balancing strategy returns empty tag'') else Inr tag) })"

definition Balancer_InjectContext :: "Balancer \<Rightarrow> Balancer" where
  "Balancer_InjectContext b = b\<lparr>ba_strategy := Strategy_InjectContext (ba_strategy b)\<rparr>"

definition override_Put :: "Balancer \<Rightarrow> gostring \<Rightarrow> Balancer" where
  "override_Put b target = b\<lparr>ba_override := target\<rparr>"

definition override_Clear :: "Balancer \<Rightarrow> Balancer" where
  "override_Clear b = b\<lparr>ba_override := []\<rparr>"

record BalancingRule =
  br_Tag :: gostring
  br_OutboundSelector :: "gostring list"
  br_Strategy :: gostring
  br_Settings :: "goerr + StrategyLeastLoadConfig option"
  br_FallbackTag :: gostring

text \<open>\<^verbatim>\<open>BalancingRule.Build\<close>; \<open>br_Settings\<close> is the instance of the settings message, \<open>None\<close> one of another type.\<close>

definition BalancingRule_Build :: "(gostring \<Rightarrow> gostring) \<Rightarrow> BalancingRule \<Rightarrow> goerr + Balancer" where
  "BalancingRule_Build lower br =
     (let mk = (\<lambda>st. Inr \<lparr>ba_selectors = br_OutboundSelector br, ba_strategy = st, ba_fallbackTag = br_FallbackTag br, ba_override = []\<rparr>);
          s = lower (br_Strategy br)
      in if s = gostr ''leastping'' then mk (LeastPingStrategy False)
         else if s = gostr ''roundrobin'' then mk (RoundRobinStrategy (br_FallbackTag br) False 0)
         else if s = gostr ''leastload'' then
           (case br_Settings br of
              Inl e \<Rightarrow> Inl e
            | Inr None \<Rightarrow> Inl (ErrMsg ''not a StrategyLeastLoadConfig'')
            | Inr (Some c) \<Rightarrow> mk (NewLeastLoadStrategy c))
         else if s = gostr ''random'' \<or> s = [] then mk (RandomStrategy (br_FallbackTag br) False)
         else Inl (ErrMsg ''unrecognized balancer type''))"

section \<open>Strategies pick candidates\<close>

text \<open>The interface \<^verbatim>\<open>BalancingStrategy\<close>: a pick answers one of the candidates, or the empty tag for "none".\<close>

locale balancing_strategy =
  fixes fair :: "'e \<Rightarrow> bool"
    and pick :: "'e \<Rightarrow> 's \<Rightarrow> gostring list \<Rightarrow> ('s \<times> gostring) option"
  assumes pick_candidate: "fair e \<Longrightarrow> pick e s tags = Some (s', tag) \<Longrightarrow> tag = [] \<or> tag \<in> set tags"
begin

fun picks :: "'s \<Rightarrow> ('e \<times> gostring list) list \<Rightarrow> gostring list option" where
  "picks s [] = Some []"
| "picks s ((e, tags) # es) = do { (s', tag) \<leftarrow> pick e s tags; rest \<leftarrow> picks s' es; Some (tag # rest) }"

lemma picks_candidates:
  "\<forall>(e, tags) \<in> set es. fair e \<Longrightarrow> picks s es = Some ts \<Longrightarrow>
   length ts = length es \<and> (\<forall>i < length ts. ts ! i = [] \<or> ts ! i \<in> set (snd (es ! i)))"
proof (induction es arbitrary: s ts)
  case (Cons x es)
  obtain e tags where x: "x = (e, tags)" by (cases x)
  with Cons.prems(2) obtain s' tag rest where
    p: "pick e s tags = Some (s', tag)" "picks s' es = Some rest" "ts = tag # rest"
    by (auto simp: bind_eq_Some_conv)
  from pick_candidate [OF _ p(1)] Cons.prems(1) x have "tag = [] \<or> tag \<in> set tags" by auto
  with Cons.IH [OF _ p(2)] Cons.prems(1) p(3) x show ?case by (auto simp: nth_Cons split: nat.split)
qed simp

end

definition fair_dice :: "pick_env \<Rightarrow> bool" where
  "fair_dice E \<longleftrightarrow> (\<forall>n > 0. pe_Roll E n < n)"

lemma observed_subset: "set (observed b r tags) \<subseteq> set tags"
  by (auto simp: observed_def aliveTags_def split: sum.splits option.splits)

lemma dice_mem:
  assumes "fair_dice E" "cs \<noteq> []"
  shows "cs ! dice_index E (length cs) \<in> set cs"
  using assms by (intro nth_mem) (simp add: dice_index_def fair_dice_def)

lemma Random_Pick_candidate:
  assumes "fair_dice E"
  shows "Random_Pick E obs tags = [] \<or> Random_Pick E obs tags \<in> set tags"
  using dice_mem [OF assms, of "observed obs (pe_obs E) tags"] observed_subset [of obs "pe_obs E" tags]
  unfolding Random_Pick_def Let_def by auto

lemma RoundRobin_Pick_candidate: "RoundRobin_Pick E obs i tags = (i', tag) \<Longrightarrow> tag = [] \<or> tag \<in> set tags"
  using observed_subset [of obs "pe_obs E" tags]
  by (auto simp: RoundRobin_Pick_def Let_def split: if_splits) (metis length_greater_0_conv mod_less_divisor nth_mem subsetD)

lemma least_ping_candidate: "least_ping tags l sel status = sel \<or> least_ping tags l sel status \<in> set tags"
  by (induction status arbitrary: l sel) (auto, metis)

lemma collect_nodes_tags:
  "collect_nodes W candidates maxRTT costs status = (c, ns) \<Longrightarrow> nd_Tag ` set ns \<subseteq> set candidates"
proof (induction status arbitrary: costs ns)
  case (Cons v vs)
  obtain c1 n where mk: "make_node W costs v = (c1, n)" by (cases "make_node W costs v")
  then have n: "nd_Tag n = os_OutboundTag v" by (auto simp: make_node_def Let_def split: option.splits prod.splits)
  show ?case
    using Cons.prems Cons.IH [of costs] Cons.IH [of c1] mk n
    by (cases "collect_nodes W candidates maxRTT c1 vs") (auto simp: image_subset_iff split: if_splits)
qed simp

lemma selectLeastLoad_subset: "set (selectLeastLoad s nodes) \<subseteq> set nodes"
  by (auto simp: selectLeastLoad_def Let_def split: if_splits dest: in_set_takeD)

lemma pickOutbounds_candidates:
  assumes "pickOutbounds E s c obs tags = Some (c', sel)"
  shows "nd_Tag ` set sel \<subseteq> set tags"
proof -
  from assms obtain ns where n: "getNodes (pe_weights E) obs (pe_obs E) c tags (ll_MaxRTT s) = Some (c', ns)" "sel = selectLeastLoad s ns"
    by (auto simp: pickOutbounds_def apsnd_def map_prod_def split: prod.splits)
  have "nd_Tag ` set ns \<subseteq> set tags"
    using n(1) collect_nodes_tags
    by (fastforce simp: getNodes_def leastloadSort_def apsnd_def map_prod_def split: if_splits sum.splits option.splits prod.splits)
  moreover have "set sel \<subseteq> set ns" using selectLeastLoad_subset n(2) by simp
  ultimately show ?thesis by blast
qed

interpretation strategy: balancing_strategy fair_dice Strategy_PickOutbound
proof (unfold_locales, goal_cases)
  case (1 E st tags st' tag)
  show ?case
  proof (cases st)
    case (RandomStrategy f obs)
    with 1 Random_Pick_candidate show ?thesis by auto
  next
    case (RoundRobinStrategy f obs i)
    with 1 RoundRobin_Pick_candidate show ?thesis by (auto split: prod.splits)
  next
    case (LeastPingStrategy obs)
    with 1 least_ping_candidate show ?thesis
      by (auto simp: LeastPing_Pick_def split: if_splits sum.splits option.splits)
  next
    case (LeastLoadStrategy s c obs)
    with 1 obtain c' sel where p: "pickOutbounds E s c obs tags = Some (c', sel)"
      "tag = (if sel = [] then [] else nd_Tag (sel ! dice_index E (length sel)))"
      by (auto simp: bind_eq_Some_conv)
    show ?thesis using dice_mem [OF 1(1), of sel] p(2) pickOutbounds_candidates [OF p(1)] by (auto simp: image_subset_iff)
  qed
qed

section \<open>The selection of the least loaded nodes\<close>

text \<open>The documented selection: the nodes below the first baseline that has as many of them as expected; without
  such a baseline the expected number of nodes, or none when only baselines were configured.\<close>

definition below :: "ll_node list \<Rightarrow> int \<Rightarrow> ll_node list" where
  "below nodes b = filter (\<lambda>n. nd_RTTDeviationCost n < b) nodes"

definition least_load_spec :: "StrategyLeastLoadConfig \<Rightarrow> ll_node list \<Rightarrow> ll_node list" where
  "least_load_spec s nodes =
     (let expected = max 1 (ll_Expected s) in
      case List.find (\<lambda>b. int (length (below nodes b)) \<ge> expected) (ll_Baselines s) of
        Some b \<Rightarrow> below nodes b
      | None \<Rightarrow> if ll_Expected s \<le> 0 \<and> ll_Baselines s \<noteq> [] then [] else take (nat expected) nodes)"

abbreviation by_cost :: "ll_node list \<Rightarrow> bool" where
  "by_cost nodes \<equiv> sorted (map nd_RTTDeviationCost nodes)"

lemma below_Cons:
  assumes "by_cost (x # xs)"
  shows "below (x # xs) b = (if nd_RTTDeviationCost x < b then x # below xs b else [])"
  using assms by (fastforce simp: below_def filter_empty_conv)

lemma below_step:
  "by_cost nodes \<Longrightarrow> cnt \<le> length nodes \<Longrightarrow>
   cnt + length (takeWhile (\<lambda>n. nd_RTTDeviationCost n < b) (drop cnt nodes)) = max cnt (length (below nodes b))"
proof (induction nodes arbitrary: cnt)
  case (Cons x xs)
  have s: "by_cost xs" using Cons.prems by simp
  show ?case
  proof (cases cnt)
    case 0
    then show ?thesis using Cons.IH [OF s, of 0] below_Cons [OF Cons.prems(1), of b] by simp
  next
    case (Suc c)
    moreover have "\<not> nd_RTTDeviationCost x < b \<Longrightarrow> below xs b = []"
      using Cons.prems(1) by (fastforce simp: below_def filter_empty_conv)
    ultimately show ?thesis using Cons.IH [OF s, of c] Cons.prems(2) below_Cons [OF Cons.prems(1), of b] by auto
  qed
qed (simp add: below_def)

lemma below_take: "by_cost nodes \<Longrightarrow> below nodes b = take (length (below nodes b)) nodes"
  by (induction nodes) (simp_all add: below_Cons, simp add: below_def)

lemma baseline_loop_found:
  assumes "by_cost nodes"
  shows "cnt \<le> length nodes \<Longrightarrow> int cnt < e \<Longrightarrow>
    (case List.find (\<lambda>b. int (length (below nodes b)) \<ge> e) bs of
       Some b \<Rightarrow> baseline_loop nodes e cnt bs = length (below nodes b)
     | None \<Rightarrow> int (baseline_loop nodes e cnt bs) < e)"
proof (induction bs arbitrary: cnt)
  case (Cons b bs)
  have "length (below nodes b) \<le> length nodes" by (simp add: below_def)
  then show ?case
    using Cons.IH [of "max cnt (length (below nodes b))"] Cons.prems below_step [OF assms Cons.prems(1), of b]
    by (auto simp: Let_def max_def split: option.splits)
qed simp

lemma selectLeastLoad_spec:
  assumes "by_cost nodes"
  shows "selectLeastLoad s nodes = least_load_spec s nodes"
proof -
  let ?e = "max 1 (ll_Expected s)"
  have e: "(if ll_Expected s \<le> 0 then 1 else ll_Expected s) = ?e" by auto
  have len: "length (below nodes b) \<le> length nodes" for b by (simp add: below_def)
  have found: "int (length (below nodes b)) \<ge> ?e" if "List.find (\<lambda>b. int (length (below nodes b)) \<ge> ?e) (ll_Baselines s) = Some b" for b
    using that by (auto simp: find_Some_iff)
  note loop = baseline_loop_found [OF assms, of 0 ?e "ll_Baselines s", simplified]
  consider "nodes = []" | "nodes \<noteq> []" "ll_Expected s > int (length nodes)"
    | "nodes \<noteq> []" "\<not> ll_Expected s > int (length nodes)" by blast
  then show ?thesis
  proof cases
    case 1
    then show ?thesis by (simp add: selectLeastLoad_def least_load_spec_def below_def split: option.split)
  next
    case 2
    have "\<not> int (length (below nodes b)) \<ge> ?e" for b using 2 len [of b] by linarith
    then have "List.find (\<lambda>b. int (length (below nodes b)) \<ge> ?e) (ll_Baselines s) = None"
      by (simp only: find_None_iff) blast
    with 2 show ?thesis by (simp add: selectLeastLoad_def least_load_spec_def)
  next
    case 3
    show ?thesis
    proof (cases "List.find (\<lambda>b. int (length (below nodes b)) \<ge> ?e) (ll_Baselines s)")
      case None
      with loop 3 show ?thesis
        by (auto simp: selectLeastLoad_def least_load_spec_def Let_def e)
    next
      case (Some b)
      with loop 3 found [OF Some] below_take [OF assms, of b] show ?thesis
        by (auto simp: selectLeastLoad_def least_load_spec_def Let_def e)
    qed
  qed
qed

lemma leastloadSort_by_cost: "by_cost (leastloadSort nodes)"
proof -
  have "sorted (map node_key (leastloadSort nodes))" by (simp add: leastloadSort_def)
  then show ?thesis by (auto simp: sorted_map node_key_def less_eq_prod_def elim: sorted_wrt_mono_rel [rotated])
qed

text \<open>The node that a report stands for: its weight is that of the first setting that matches its tag, cached or not.\<close>

definition weights_ok :: "weight_env \<Rightarrow> WeightManager \<Rightarrow> bool" where
  "weights_ok W m \<longleftrightarrow> (\<forall>tag w. wm_cache m tag = Some w \<longrightarrow> w = findValue W (wm_defaultWeight m) tag (wm_settings m))"

definition cost_of :: "weight_env \<Rightarrow> WeightManager \<Rightarrow> gostring \<Rightarrow> int \<Rightarrow> int" where
  "cost_of W m tag d = we_scale W d (findValue W (wm_defaultWeight m) tag (wm_settings m))"

definition node_of :: "weight_env \<Rightarrow> WeightManager \<Rightarrow> OutboundStatus \<Rightarrow> ll_node" where
  "node_of W m v =
     (case os_HealthPing v of
        None \<Rightarrow>
          (let d = i64 (os_Delay v * 1000000) in
           \<lparr>nd_Tag = os_OutboundTag v, nd_CountAll = 1, nd_CountFail = 1, nd_RTTAverage = d, nd_RTTDeviation = d,
            nd_RTTDeviationCost = cost_of W m (os_OutboundTag v) d\<rparr>)
      | Some hp \<Rightarrow>
          \<lparr>nd_Tag = os_OutboundTag v, nd_CountAll = hp_All hp, nd_CountFail = hp_Fail hp, nd_RTTAverage = hp_Average hp,
           nd_RTTDeviation = hp_Deviation hp, nd_RTTDeviationCost = cost_of W m (os_OutboundTag v) (hp_Deviation hp)\<rparr>)"

definition qualifies :: "StrategyLeastLoadConfig \<Rightarrow> gostring list \<Rightarrow> OutboundStatus \<Rightarrow> bool" where
  "qualifies s candidates v \<longleftrightarrow>
     os_Alive v \<and> (ll_MaxRTT s \<noteq> 0 \<longrightarrow> os_Delay v < go_div (ll_MaxRTT s) 1000000) \<and> os_OutboundTag v \<in> set candidates"

text \<open>Looking weights up changes nothing but the cache.\<close>

definition same_weights :: "WeightManager \<Rightarrow> WeightManager \<Rightarrow> bool" where
  "same_weights m m' \<longleftrightarrow> wm_settings m' = wm_settings m \<and> wm_defaultWeight m' = wm_defaultWeight m"

lemma same_weights_trans: "same_weights a b \<Longrightarrow> same_weights b c \<Longrightarrow> same_weights a c"
  by (simp add: same_weights_def)

lemma same_weights_node: "same_weights m m' \<Longrightarrow> node_of W m' v = node_of W m v"
  by (simp add: same_weights_def node_of_def cost_of_def split: option.split)

lemma WeightManager_Apply_cost:
  assumes "weights_ok W m" "WeightManager_Apply W m tag d = (m', c)"
  shows "c = cost_of W m tag d \<and> weights_ok W m' \<and> same_weights m m'"
  using assms
  by (auto simp: WeightManager_Apply_def WeightManager_Get_def weights_ok_def cost_of_def same_weights_def Let_def split: option.splits if_splits)

lemma make_node_of:
  assumes "weights_ok W m" "make_node W m v = (m', n)"
  shows "n = node_of W m v \<and> weights_ok W m' \<and> same_weights m m'"
proof -
  let ?d = "i64 (os_Delay v * 1000000)"
  obtain m1 c where 1: "WeightManager_Apply W m (os_OutboundTag v) ?d = (m1, c)" by fastforce
  note a1 = WeightManager_Apply_cost [OF assms(1) 1]
  show ?thesis
  proof (cases "os_HealthPing v")
    case None
    with assms(2) 1 a1 show ?thesis by (auto simp: make_node_def node_of_def Let_def)
  next
    case (Some hp)
    obtain m2 c2 where 2: "WeightManager_Apply W m1 (os_OutboundTag v) (hp_Deviation hp) = (m2, c2)" by fastforce
    from WeightManager_Apply_cost [OF _ 2] a1 Some assms(2) 1 2 show ?thesis
      by (auto simp: make_node_def node_of_def Let_def cost_of_def same_weights_def)
  qed
qed

lemma collect_nodes_of:
  "weights_ok W m \<Longrightarrow> collect_nodes W candidates (ll_MaxRTT s) m status = (m', nodes) \<Longrightarrow>
   nodes = map (node_of W m) (filter (qualifies s candidates) status) \<and> weights_ok W m' \<and> same_weights m m'"
proof (induction status arbitrary: m nodes)
  case (Cons v vs)
  show ?case
  proof (cases "qualifies s candidates v")
    case True
    obtain m1 n where n: "make_node W m v = (m1, n)" by fastforce
    obtain rest where r: "collect_nodes W candidates (ll_MaxRTT s) m1 vs = (m', rest)" "nodes = n # rest"
      using Cons.prems(2) True n by (auto simp: qualifies_def apsnd_def map_prod_def split: prod.splits if_splits)
    note mk = make_node_of [OF Cons.prems(1) n]
    from Cons.IH [OF _ r(1)] mk have "rest = map (node_of W m1) (filter (qualifies s candidates) vs)" "weights_ok W m'" "same_weights m1 m'"
      by blast+
    moreover have "node_of W m1 = node_of W m" using mk same_weights_node by blast
    ultimately show ?thesis using True mk r(2) same_weights_trans [of m m1 m'] by simp
  next
    case False
    with Cons show ?thesis by (auto simp: qualifies_def split: if_splits)
  qed
qed (auto simp: same_weights_def)

lemma leastloadSort_sorted: "sorted (map node_key (leastloadSort nodes)) \<and> mset (leastloadSort nodes) = mset nodes"
  by (simp add: leastloadSort_def)

text \<open>
  C35: the least-load strategy selects as its comment documents. With a report, its nodes are those of the reports on live
  candidates whose delay is below \<^verbatim>\<open>MaxRTT\<close> (if one is set), one for each such report, each with its measured values and the cost
  that its weight gives, ordered by cost, then by average, failures, tests and tag; of these \<^verbatim>\<open>pickOutbounds\<close> takes the ones below
  the first baseline that the expected number of nodes are below; when there is none it takes the expected number of the cheapest
  nodes, or none at all if only baselines were configured. Without an observer, or when the observation fails, it takes none. Its cache of weights,
  empty at first, only ever holds weights of the settings.
\<close>

theorem least_load_selects:
  assumes "weights_ok (pe_weights E) costs"
  shows "(observer \<and> pe_obs E = Inr (Some status) \<longrightarrow>
      (\<exists>costs' nodes. pickOutbounds E s costs observer candidates = Some (costs', least_load_spec s nodes) \<and>
         sorted (map node_key nodes) \<and>
         mset nodes = mset (map (node_of (pe_weights E) costs) (filter (qualifies s candidates) status)) \<and>
         weights_ok (pe_weights E) costs')) \<and>
    (\<not> observer \<or> (\<exists>e. pe_obs E = Inl e) \<longrightarrow> pickOutbounds E s costs observer candidates = Some (costs, []))"
proof -
  have report: "\<exists>costs' nodes. pickOutbounds E s costs observer candidates = Some (costs', least_load_spec s nodes) \<and>
      sorted (map node_key nodes) \<and>
      mset nodes = mset (map (node_of (pe_weights E) costs) (filter (qualifies s candidates) status)) \<and>
      weights_ok (pe_weights E) costs'" if o: "observer" "pe_obs E = Inr (Some status)"
  proof -
    obtain costs' ns where c: "collect_nodes (pe_weights E) candidates (ll_MaxRTT s) costs status = (costs', ns)" by fastforce
    have "pickOutbounds E s costs observer candidates = Some (costs', least_load_spec s (leastloadSort ns))"
      using o c selectLeastLoad_spec [OF leastloadSort_by_cost, of s ns] by (simp add: pickOutbounds_def getNodes_def)
    moreover have "mset (leastloadSort ns) = mset (map (node_of (pe_weights E) costs) (filter (qualifies s candidates) status))"
      "weights_ok (pe_weights E) costs'" "sorted (map node_key (leastloadSort ns))"
      using collect_nodes_of [OF assms c] leastloadSort_sorted [of ns] by simp_all
    ultimately show ?thesis by (intro exI [of _ costs'] exI [of _ "leastloadSort ns"] conjI)
  qed
  have none: "pickOutbounds E s costs observer candidates = Some (costs, [])" if "\<not> observer \<or> (\<exists>e. pe_obs E = Inl e)"
  proof -
    have "getNodes (pe_weights E) observer (pe_obs E) costs candidates (ll_MaxRTT s) = Some (costs, [])"
      using that by (auto simp: getNodes_def)
    then show ?thesis by (simp add: pickOutbounds_def selectLeastLoad_def)
  qed
  show ?thesis
  proof (intro conjI impI)
    assume o: "observer \<and> pe_obs E = Inr (Some status)"
    then show "\<exists>costs' nodes. pickOutbounds E s costs observer candidates = Some (costs', least_load_spec s nodes) \<and>
      sorted (map node_key nodes) \<and>
      mset nodes = mset (map (node_of (pe_weights E) costs) (filter (qualifies s candidates) status)) \<and>
      weights_ok (pe_weights E) costs'" by (intro report conjunct1 [OF o] conjunct2 [OF o])
  qed (rule none)
qed

section \<open>Round robin\<close>

fun rr_picks :: "pick_env \<Rightarrow> bool \<Rightarrow> gostring list \<Rightarrow> nat \<Rightarrow> nat \<Rightarrow> gostring list" where
  "rr_picks E observatory tags index 0 = []"
| "rr_picks E observatory tags index (Suc k) =
     (case RoundRobin_Pick E observatory index tags of (index', tag) \<Rightarrow> tag # rr_picks E observatory tags index' k)"

lemma mset_rotate1: "mset (rotate1 xs) = mset xs"
  by (cases xs) simp_all

lemma rr_picks_nth:
  assumes "ts = observed observatory (pe_obs E) tags" "ts \<noteq> []"
  shows "rr_picks E observatory tags index k = map (\<lambda>j. ts ! ((index + j) mod length ts)) [0..<k]"
proof (induction k arbitrary: index)
  case (Suc k)
  have "rr_picks E observatory tags index (Suc k) = ts ! (index mod length ts) # rr_picks E observatory tags ((index + 1) mod length ts) k"
    using assms by (simp add: RoundRobin_Pick_def Let_def)
  also have "rr_picks E observatory tags ((index + 1) mod length ts) k = map (\<lambda>j. ts ! ((index + Suc j) mod length ts)) [0..<k]"
    unfolding Suc.IH by (simp add: mod_add_left_eq)
  finally show ?case by (simp only: upt_conv_Cons [OF zero_less_Suc] list.map map_Suc_upt [symmetric] map_map o_def) simp
qed simp

text \<open>
  Round robin is fair. While the report and the candidates stay the same, as many consecutive picks as there
  are usable candidates are a rotation of them, whatever the counter was before (it may be past the end when
  candidates have left): every candidate is picked exactly once. Candidates reported dead are not picked.
\<close>

theorem round_robin_fair:
  "let ts = observed observatory (pe_obs E) tags; ps = rr_picks E observatory tags index (length ts)
   in ps = rotate index ts \<and> mset ps = mset ts \<and> (ts = [] \<longrightarrow> RoundRobin_Pick E observatory index tags = (index, []))"
proof -
  let ?ts = "observed observatory (pe_obs E) tags"
  have "rr_picks E observatory tags index (length ?ts) = rotate index ?ts"
  proof (cases "?ts = []")
    case False
    show ?thesis unfolding rr_picks_nth [OF refl False] by (rule nth_equalityI) (simp_all add: nth_rotate)
  qed simp
  moreover have "mset (rotate index ?ts) = mset ?ts" by (induction index) (simp_all add: rotate_Suc mset_rotate1)
  ultimately show ?thesis by (simp add: Let_def RoundRobin_Pick_def)
qed

definition sample_report :: pick_env where
  "sample_report = \<lparr>
     pe_obs = Inr (Some [\<lparr>os_Alive = False, os_Delay = 9, os_OutboundTag = gostr ''b'', os_HealthPing = None\<rparr>,
                        \<lparr>os_Alive = True, os_Delay = 5, os_OutboundTag = gostr ''c'', os_HealthPing = None\<rparr>]),
     pe_weights = \<lparr>we_FindRegexp = \<lambda>_. Inl (ErrMsg ''x''), we_ParseFloat = \<lambda>_. Inl (ErrMsg ''x''), we_scale = \<lambda>v w. v\<rparr>, pe_Roll = \<lambda>n. n - 1\<rparr>"

theorem least_load_selects_witness:
  "\<exists>costs' sel. pickOutbounds sample_report \<lparr>ll_Costs = [], ll_Baselines = [], ll_Expected = 3, ll_MaxRTT = 0\<rparr> (NewWeightManager [] 1) True
       [gostr ''b'', gostr ''c''] = Some (costs', sel) \<and> map nd_Tag sel = [gostr ''c''] \<and> weights_ok (pe_weights sample_report) costs'"
proof -
  let ?s = "\<lparr>ll_Costs = [], ll_Baselines = [], ll_Expected = 3, ll_MaxRTT = 0\<rparr>"
  have w: "weights_ok W (NewWeightManager [] 1)" for W by (simp add: weights_ok_def NewWeightManager_def)
  obtain status where st: "pe_obs sample_report = Inr (Some status)" "filter (qualifies ?s [gostr ''b'', gostr ''c'']) status =
      [\<lparr>os_Alive = True, os_Delay = 5, os_OutboundTag = gostr ''c'', os_HealthPing = None\<rparr>]"
    by (simp add: sample_report_def qualifies_def)
  from least_load_selects [OF w, of True sample_report status ?s "[gostr ''b'', gostr ''c'']"] st
  obtain costs' nodes where n: "pickOutbounds sample_report ?s (NewWeightManager [] 1) True [gostr ''b'', gostr ''c''] =
      Some (costs', least_load_spec ?s nodes)" "weights_ok (pe_weights sample_report) costs'"
    "nodes = [node_of (pe_weights sample_report) (NewWeightManager [] 1)
       \<lparr>os_Alive = True, os_Delay = 5, os_OutboundTag = gostr ''c'', os_HealthPing = None\<rparr>]"
    by (auto simp del: mset_map)
  have "map nd_Tag (least_load_spec ?s nodes) = [gostr ''c'']"
    unfolding n(3) by (simp add: least_load_spec_def node_of_def Let_def)
  with n(1,2) show ?thesis by (intro exI [of _ costs'] exI [of _ "least_load_spec ?s nodes"] conjI)
qed

theorem round_robin_fair_witness:
  "rr_picks sample_report True [gostr ''a'', gostr ''b'', gostr ''c''] 1 2 = [gostr ''c'', gostr ''a''] \<and>
   RoundRobin_Pick sample_report True 3 [gostr ''b''] = (3, [])"
proof -
  have o1: "observed True (pe_obs sample_report) [gostr ''a'', gostr ''b'', gostr ''c''] = [gostr ''a'', gostr ''c'']"
    and o2: "observed True (pe_obs sample_report) [gostr ''b''] = []"
    by (simp_all add: observed_def sample_report_def aliveTags_def statusMap_def gostr_def)
  show ?thesis
    using round_robin_fair [of True sample_report "[gostr ''a'', gostr ''b'', gostr ''c'']" 1]
      round_robin_fair [of True sample_report "[gostr ''b'']" 3]
    unfolding Let_def o1 o2 by (simp add: numeral_2_eq_2 del: rr_picks.simps)
qed

section \<open>Picking an outbound\<close>

text \<open>
  What a balancer answers. An override wins over the strategy and leaves it untouched. Otherwise the answer is
  a tag of the outbound manager that starts with one of the selectors, or the fallback tag; only a balancer without
  fallback tag answers with an error. The manager's cache stays right, and a tag that is answered is never empty.
\<close>

theorem balancer_picks:
  assumes E: "fair_dice E" and m: "manager_ok m" and v: "\<And>ts. mset (visit ts) = mset ts" and ss: "plain_selectors (ba_selectors b)"
    and r: "Balancer_PickOutbound visit E (Some m) b = Some (ohm', b', res)"
  shows "(\<exists>m'. ohm' = Some m' \<and> manager_ok m' \<and> taggedHandler m' = taggedHandler m) \<and>
    (ba_override b \<noteq> [] \<longrightarrow> res = Inr (ba_override b) \<and> b' = b) \<and>
    (ba_override b = [] \<longrightarrow>
       (case res of
          Inl e \<Rightarrow> ba_fallbackTag b = []
        | Inr tag \<Rightarrow> tag \<noteq> [] \<and> (tag = ba_fallbackTag b \<or> tag \<in> set (selected (ba_selectors b) (map fst (taggedHandler m))))))"
proof -
  obtain m' cs where s: "Select visit m (ba_selectors b) = (m', cs)" by (cases "Select visit m (ba_selectors b)")
  from Select_ok [OF m v ss s] have m': "manager_ok m'" "cs = select_spec m (ba_selectors b)" "taggedHandler m' = taggedHandler m" by auto
  show ?thesis
  proof (cases "ba_override b = []")
    case False
    with r s m' show ?thesis by (auto simp: Balancer_PickOutbound_def SelectOutbounds_def)
  next
    case True
    with r s obtain st tag where p: "Strategy_PickOutbound E (ba_strategy b) cs = Some (st, tag)" and o: "ohm' = Some m'"
      and res: "res = (if tag = [] then fallback_or (b\<lparr>ba_strategy := st\<rparr>) (ErrMsg ''balancing strategy returns empty tag'') else Inr tag)"
      by (auto simp: Balancer_PickOutbound_def SelectOutbounds_def bind_eq_Some_conv Let_def)
    from strategy.pick_candidate [OF E p] have "tag = [] \<or> tag \<in> set cs" .
    with True o m' res show ?thesis by (auto simp: select_spec_def fallback_or_def)
  qed
qed

definition sample_balancer :: Balancer where
  "sample_balancer = \<lparr>ba_selectors = [gostr ''px''], ba_strategy = RoundRobinStrategy [] False 5, ba_fallbackTag = [], ba_override = []\<rparr>"

definition sample_manager :: Manager where
  "sample_manager = fst (AddHandler (\<lambda>_. None) NewManager \<lparr>h_Tag = gostr ''px1'', h_ref = 0\<rparr>)"

theorem balancer_picks_witness:
  "case Balancer_PickOutbound id sample_report (Some sample_manager) sample_balancer of
     Some (_, b', res) \<Rightarrow> res = Inr (gostr ''px1'') \<and> ba_strategy b' = RoundRobinStrategy [] False 0 \<and>
       gostr ''px1'' \<in> set (selected [gostr ''px''] (map fst (taggedHandler sample_manager)))
   | None \<Rightarrow> False"
proof -
  have r: "Balancer_PickOutbound id sample_report (Some sample_manager) sample_balancer =
    Some (Some (fst (Select id sample_manager [gostr ''px''])), sample_balancer\<lparr>ba_strategy := RoundRobinStrategy [] False 0\<rparr>, Inr (gostr ''px1''))"
    by (simp add: Balancer_PickOutbound_def SelectOutbounds_def sample_balancer_def sample_manager_def Select_def AddHandler_def
        NewManager_def selected_def gostr_def RoundRobin_Pick_def observed_def Let_def)
  have m: "manager_ok sample_manager"
    unfolding sample_manager_def by (rule AddHandler_ok) (simp add: manager_ok_def NewManager_def)
  have "fair_dice sample_report" by (simp add: fair_dice_def sample_report_def)
  moreover have "plain_selectors (ba_selectors sample_balancer)" by (simp add: plain_selectors_def sample_balancer_def gostr_def)
  ultimately show ?thesis using balancer_picks [of sample_report sample_manager id, OF _ m _ _ r] r
    by (simp add: sample_balancer_def gostr_def)
qed

end
