(* ===== verification/Geo_Asset.thy ===== *)
theory Geo_Asset
  imports Go_IO
begin

unbundle bit_operations_syntax

text \<open>
  \<^verbatim>\<open>common/platform/filesystem/asset_tools.go\<close>: finding the entry of a country or site code in a geo data file
  without parsing all of it. A file is a sequence of length-prefixed entries (the wire format of protocol buffers),
  each of which starts with its code. \<open>None\<close> is a panic, \<open>Some None\<close> the answer \<^verbatim>\<open>nil\<close>.
\<close>

section \<open>The functions\<close>

function DecodeVarint_loop :: "byte list \<Rightarrow> 64 word \<Rightarrow> nat \<Rightarrow> nat \<Rightarrow> 64 word \<times> nat" where
  "DecodeVarint_loop buf x n shift =
     (if shift < 64 then
        if n \<ge> length buf then (0, 0)
        else
          let b = (ucast (buf ! n) :: 64 word); n' = n + 1; x' = x OR push_bit shift (b AND 0x7F) in
          if b AND 0x80 = 0 then (x', n') else DecodeVarint_loop buf x' n' (shift + 7)
      else (0, 0))"
  by pat_completeness auto
termination by (relation "measure (\<lambda>(buf, x, n, shift). 64 - shift)") auto

declare DecodeVarint_loop.simps [simp del]

definition DecodeVarint :: "byte list \<Rightarrow> 64 word \<times> nat" where
  "DecodeVarint buf = DecodeVarint_loop buf 0 0 0"

text \<open>The comparison with the code, byte by byte; reading past the end panics.\<close>

fun code_match :: "byte list \<Rightarrow> byte list \<Rightarrow> bool option" where
  "code_match ds [] = Some False"
| "code_match [] (c # cs) = None"
| "code_match (d # ds) (c # cs) = (if d = c then if cs = [] then Some True else code_match ds cs else Some False)"

function Find_loop :: "byte list \<Rightarrow> byte list \<Rightarrow> byte list option option" where
  "Find_loop data code =
     (if length data < 2 then Some None
      else case DecodeVarint (drop 1 data) of (x, y) \<Rightarrow>
        if x = 0 \<and> y = 0 then Some None
        else
          let headL = 1 + y; bodyL = sint x; dataL = int (length data) - int headL in
          if dataL < bodyL then Some None
          else
            let data1 = drop headL data in
            if length data1 < 2 then None
            else
              do { found \<leftarrow> (if unat (data1 ! 1) = length code then code_match (drop 2 data1) code else Some False);
                   if found then (if bodyL < 0 then None else Some (Some (take (nat bodyL) data1)))
                   else if dataL = bodyL then Some None
                   else if bodyL < 0 then None
                   else Find_loop (drop (nat bodyL) data1) code })"
  by pat_completeness auto
termination by (relation "measure (\<lambda>(data, code). length data)") auto

declare Find_loop.simps [simp del]

definition Find :: "byte list \<Rightarrow> byte list \<Rightarrow> byte list option option" where
  "Find data code = (if length code = 0 then Some None else Find_loop data code)"

section \<open>Well-formed files\<close>

fun varint :: "nat \<Rightarrow> byte list" where
  "varint n = (if n < 128 then [of_nat n] else of_nat (n mod 128 + 128) # varint (n div 128))"

declare varint.simps [simp del]

definition entry_body :: "byte list \<times> byte list \<Rightarrow> byte list" where
  "entry_body = (\<lambda>(code, rest). 10 # of_nat (length code) # code @ rest)"

definition geo_file :: "(byte list \<times> byte list) list \<Rightarrow> byte list" where
  "geo_file es = concat (map (\<lambda>e. 10 # varint (length (entry_body e)) @ entry_body e) es)"

definition entry_ok :: "byte list \<times> byte list \<Rightarrow> bool" where
  "entry_ok e \<longleftrightarrow> length (fst e) < 128 \<and> length (entry_body e) < 2 ^ 63"

lemma word_split7: "of_nat n = (of_nat (n mod 128) OR push_bit 7 (of_nat (n div 128)) :: 64 word)"
proof (rule bit_word_eqI)
  fix i
  have "n mod 128 = take_bit 7 n" "n div 128 = drop_bit 7 n" by (simp_all add: take_bit_eq_mod drop_bit_eq_div)
  then show "bit (of_nat n :: 64 word) i = bit (of_nat (n mod 128) OR push_bit 7 (of_nat (n div 128)) :: 64 word) i" if "i < LENGTH(64)"
    using that by (auto simp: bit_simps)
qed

lemma low7: "m < 256 \<Longrightarrow> (ucast (of_nat m :: byte) :: 64 word) AND 0x7F = of_nat (m mod 128)"
proof -
  assume "m < 256"
  have "(0x7F :: 64 word) = Bit_Operations.mask 7" by (simp add: mask_eq_exp_minus_1)
  then have "(ucast (of_nat m :: byte) :: 64 word) AND 0x7F = take_bit 7 ((ucast (of_nat m :: byte) :: 64 word))" by (simp add: take_bit_eq_mask)
  also have "\<dots> = of_nat (m mod 128)"
    by (rule bit_word_eqI) (auto simp: bit_simps simp flip: take_bit_eq_mod [of 7, simplified])
  finally show ?thesis .
qed

lemma high_bit: "m < 256 \<Longrightarrow> ((ucast (of_nat m :: byte) :: 64 word) AND 0x80 = 0) \<longleftrightarrow> m < 128"
proof -
  assume m: "m < 256"
  have "(0x80 :: 64 word) = push_bit 7 1" by (simp add: push_bit_eq_mult)
  then have "((ucast (of_nat m :: byte) :: 64 word) AND 0x80 = 0) \<longleftrightarrow> \<not> bit ((ucast (of_nat m :: byte) :: 64 word)) 7"
    by (metis and_exp_eq_0_iff_not_bit push_bit_of_1 )
  also have "\<dots> \<longleftrightarrow> \<not> bit m 7" by (simp add: bit_simps)
  also have "\<dots> \<longleftrightarrow> m < 128" 
  proof -
    have "m div 128 < 2" using m by (simp add: less_mult_imp_div_less)
    then have "even (m div 128) \<longleftrightarrow> m div 128 = 0" by (cases "m div 128") auto
    then show ?thesis by (simp add: bit_iff_odd div_eq_0_iff)
  qed
  finally show ?thesis .
qed

lemma DecodeVarint_loop_varint:
  assumes "shift < 64" "n < 2 ^ (64 - shift)"
  shows "DecodeVarint_loop (pre @ varint n @ suf) x (length pre) shift = (x OR push_bit shift (of_nat n), length pre + length (varint n))"
  using assms
proof (induction n arbitrary: pre x shift rule: varint.induct)
  case (1 n)
  show ?case
  proof (cases "n < 128")
    case True
    with 1(2) show ?thesis
      by (simp add: varint.simps [of n] DecodeVarint_loop.simps [of _ _ _ shift] low7 high_bit Let_def del: push_bit_and)
  next
    case False
    let ?b = "n mod 128 + 128"
    have b: "?b < 256" "?b mod 128 = n mod 128" by (simp_all add: Suc_diff_le less_diff_conv)
    have "shift + 7 < 64"
    proof (rule ccontr)
      assume "\<not> shift + 7 < 64"
      then have "(2 :: nat) ^ (64 - shift) \<le> 2 ^ 7" by (intro power_increasing) auto
      with 1(3) False show False by simp
    qed
    moreover from this have "64 - shift = 7 + (64 - (shift + 7))" by simp
    then have "(2 :: nat) ^ (64 - shift) = 2 ^ 7 * 2 ^ (64 - (shift + 7))" by (metis power_add)
    with 1(3) have "n div 128 < 2 ^ (64 - (shift + 7))" by (simp add: less_mult_imp_div_less mult.commute)
    ultimately have ih: "DecodeVarint_loop ((pre @ [of_nat ?b]) @ varint (n div 128) @ suf) y (length (pre @ [of_nat ?b])) (shift + 7) =
        (y OR push_bit (shift + 7) (of_nat (n div 128)), length (pre @ [of_nat ?b]) + length (varint (n div 128)))" for y
      using 1(1) [OF False, of "shift + 7" "pre @ [of_nat ?b]" y] by blast
    have "push_bit shift (of_nat n :: 64 word) = push_bit shift (of_nat (n mod 128)) OR push_bit (shift + 7) (of_nat (n div 128))"
      by (subst word_split7) (simp add: push_bit_or)
    with ih False 1(2) b show ?thesis
      by (simp add: varint.simps [of n] DecodeVarint_loop.simps [of _ _ _ shift] low7 high_bit Let_def or.assoc del: of_nat_add push_bit_and)
  qed
qed

lemma DecodeVarint_varint: "n < 2 ^ 63 \<Longrightarrow> DecodeVarint (varint n @ suf) = (of_nat n, length (varint n))"
  using DecodeVarint_loop_varint [of 0 n "[]" suf 0] by (simp add: DecodeVarint_def)

lemma varint_nonempty: "varint n \<noteq> []"
  by (simp add: varint.simps)

lemma sint_of_nat: "n < 2 ^ 63 \<Longrightarrow> sint (of_nat n :: 64 word) = int n"
  by (simp add: signed_of_nat signed_take_bit_int_eq_self)

lemma code_match_iff: "code \<noteq> [] \<Longrightarrow> length code \<le> length ds \<Longrightarrow> code_match ds code = Some (take (length code) ds = code)"
  by (induction ds code rule: code_match.induct) (auto simp: Suc_le_eq)

lemma Find_loop_unfold:
  assumes "DecodeVarint (v @ D) = (x, length v)" "v \<noteq> []" "sint x = int b" "b \<le> length D" "2 \<le> length D"
    and "(if unat (D ! 1) = length code then code_match (drop 2 D) code else Some False) = Some f"
  shows "Find_loop (10 # v @ D) code =
    (if f then Some (Some (take b D)) else if length D = b then Some None else Find_loop (drop b D) code)"
proof -
  have "length (10 # v @ D) \<ge> 2" using assms(5) by simp
  then show ?thesis using assms by (subst Find_loop.simps) (simp add: Let_def del: length_Cons)
qed

lemma Find_loop_step:
  assumes "code \<noteq> []" "entry_ok e"
  shows "Find_loop (10 # varint (length (entry_body e)) @ entry_body e @ suf) code =
    (if fst e = code then Some (Some (entry_body e)) else if suf = [] then Some None else Find_loop suf code)"
proof -
  obtain c r where e: "e = (c, r)" by (cases e)
  let ?B = "entry_body e" and ?v = "varint (length (entry_body e))"
  have len: "length ?B < 2 ^ 63" "length c < 128" using assms(2) by (auto simp: entry_ok_def e)
  have B: "?B @ suf = 10 # of_nat (length c) # c @ r @ suf" by (simp add: entry_body_def e)
  have eqlen: "unat ((?B @ suf) ! 1) = length c" using len(2) by (simp add: B unat_of_nat)
  have m: "(if unat ((?B @ suf) ! 1) = length code then code_match (drop 2 (?B @ suf)) code else Some False) = Some (c = code)"
    using assms(1) unfolding eqlen by (auto simp: B code_match_iff)
  have "2 \<le> length (?B @ suf)" unfolding B by simp
  with Find_loop_unfold [OF DecodeVarint_varint [OF len(1)] varint_nonempty sint_of_nat [OF len(1)] _ _ m]
  show ?thesis by (simp add: e)
qed

lemma Find_geo_file:
  assumes "code \<noteq> []"
  shows "\<forall>e \<in> set es. entry_ok e \<Longrightarrow> Find_loop (geo_file es) code = Some (map_option (\<lambda>r. entry_body (code, r)) (map_of es code))"
proof (induction es)
  case Nil
  then show ?case by (simp add: geo_file_def Find_loop.simps)
next
  case (Cons e es)
  have f: "geo_file (e # es) = 10 # varint (length (entry_body e)) @ entry_body e @ geo_file es" by (simp add: geo_file_def)
  have emp: "geo_file es = [] \<longleftrightarrow> es = []" by (cases es) (simp_all add: geo_file_def)
  show ?case unfolding f using Cons Find_loop_step [OF assms, of e "geo_file es"] by (cases e) (auto simp: emp)
qed

text \<open>
  In a file of entries with codes of fewer than 128 bytes, \<^verbatim>\<open>Find\<close> answers the first entry with the given code, and
  \<^verbatim>\<open>nil\<close> if there is none. It always ends; but it trusts its input, and a file that ends after the length of an entry, or
  whose entry has a length of \<open>2 ^ 63\<close> or more, makes it panic.
\<close>

theorem geo_find:
  "((\<forall>e \<in> set es. entry_ok e) \<longrightarrow>
     Find (geo_file es) code = Some (if code = [] then None else map_option (\<lambda>r. entry_body (code, r)) (map_of es code))) \<and>
   Find [10, 0] [65] = None \<and> Find ([10] @ replicate 9 255 @ [1, 0, 0]) [65] = None"
  using Find_geo_file [of code es] by (cases "code = []") (simp_all add: Find_def, code_simp+)

theorem geo_find_witness:
  "Find (geo_file [(gostr ''CN'', [1]), (gostr ''IR'', [2, 3])]) (gostr ''IR'') = Some (Some (entry_body (gostr ''IR'', [2, 3])))"
  using geo_find [of "[(gostr ''CN'', [1]), (gostr ''IR'', [2, 3])]" "gostr ''IR''"]
  by (simp add: entry_ok_def entry_body_def)

end
