(* ===== verification/Router_Config.thy ===== *)
theory Router_Config
  imports Router_Condition Router_Balancer Geo_Asset
begin

text \<open>
  \<^verbatim>\<open>app/router/config.go\<close>: building the condition of a routing rule from its configuration, with the geo data
  that a rule names loaded from asset files. The operating system (\<open>be_mmap\<close> is false on Windows and WebAssembly), the
  contents of the asset files, the decoding of protocol buffers, regular expressions, sorting and the order in
  which Go visits a map are parameters. Building keeps the factory of shared address sets; \<open>None\<close> is a panic.
\<close>

section \<open>Configuration\<close>

record 's build_env =
  be_mmap :: bool
  be_netipx :: "'s netipx"
  be_srt :: "GeoIP list \<Rightarrow> GeoIP list"
  be_lower :: "gostring \<Rightarrow> gostring"
  be_compile :: "gostring \<Rightarrow> goerr + (gostring \<Rightarrow> bool)"
  be_visit :: "(gostring \<times> u32) list \<Rightarrow> (gostring \<times> u32) list"
  be_sorter :: "indexBucket list \<Rightarrow> indexBucket list"
  be_ReadAsset :: "gostring \<Rightarrow> goerr + byte list"
  be_UnmarshalGeoIP :: "byte list \<Rightarrow> goerr + GeoIP"
  be_UnmarshalGeoSite :: "byte list \<Rightarrow> goerr + RDomain list"

datatype TargetTag = RoutingRule_Tag gostring | RoutingRule_BalancingTag gostring | NoTarget

record RoutingRule =
  rr_TargetTag :: TargetTag
  rr_RuleTag :: gostring
  rr_InboundTag :: "gostring list"
  rr_Networks :: "Network list"
  rr_Protocol :: "gostring list"
  rr_PortList :: "PortRange list option"
  rr_SourcePortList :: "PortRange list option"
  rr_LocalPortList :: "PortRange list option"
  rr_VlessRouteList :: "PortRange list option"
  rr_UserEmail :: "gostring list"
  rr_Attributes :: "(gostring \<times> gostring) list"
  rr_Geoip :: "GeoIP option list"
  rr_SourceGeoip :: "GeoIP option list"
  rr_LocalGeoip :: "GeoIP option list"
  rr_Domain :: "RDomain list"
  rr_ProcessName :: "gostring list"

fun GetTag :: "TargetTag \<Rightarrow> gostring" where
  "GetTag (RoutingRule_Tag t) = t" | "GetTag _ = []"

fun GetBalancingTag :: "TargetTag \<Rightarrow> gostring" where
  "GetBalancingTag (RoutingRule_BalancingTag t) = t" | "GetBalancingTag _ = []"

section \<open>Geo data\<close>

text \<open>One entry of \<^verbatim>\<open>getGeoIPList\<close>. What \<^verbatim>\<open>Find\<close> does not find is the empty message.\<close>

definition nil_bytes :: "byte list option \<Rightarrow> byte list" where
  "nil_bytes bs = (case bs of None \<Rightarrow> [] | Some b \<Rightarrow> b)"

definition load_geoip :: "'s build_env \<Rightarrow> GeoIP \<Rightarrow> (goerr + GeoIP) option" where
  "load_geoip B ip =
     (if CountryCode ip \<noteq> [] then
        let val = split_on 95 (CountryCode ip);
            fileName = (if length val = 2 then be_lower B (val ! 0) else gostr ''geoip.dat'') in
        (case be_ReadAsset B fileName of
           Inl e \<Rightarrow> Some (Inl (ErrMsg ''failed to load file: ''))
         | Inr bs \<Rightarrow>
             do { found \<leftarrow> Find bs (CountryCode ip);
                  Some (case be_UnmarshalGeoIP B (nil_bytes found) of
                          Inl e \<Rightarrow> Inl (ErrMsg ''failed Unmarshal :'') | Inr geoip \<Rightarrow> Inr geoip) })
      else Some (Inr ip))"

fun getGeoIPList :: "'s build_env \<Rightarrow> GeoIP option list \<Rightarrow> (goerr + GeoIP option list) option" where
  "getGeoIPList B [] = Some (Inr [])"
| "getGeoIPList B (None # ips) = None"
| "getGeoIPList B (Some ip # ips) =
     do { r \<leftarrow> load_geoip B ip;
          (case r of
             Inl e \<Rightarrow> Some (Inl e)
           | Inr geoip \<Rightarrow> map_option (map_sum id (Cons (Some geoip))) (getGeoIPList B ips)) }"

text \<open>One entry of \<^verbatim>\<open>getDomainList\<close>: \<^verbatim>\<open>file_code\<close> or \<^verbatim>\<open>file_code_attributes\<close> stands for the domains of a site.\<close>

definition load_domains :: "'s build_env \<Rightarrow> RDomain \<Rightarrow> (goerr + RDomain list) option" where
  "load_domains B domain =
     (let val = split_on 95 (d_Value domain) in
      if length val \<ge> 2 then
        (case be_ReadAsset B (val ! 0) of
           Inl e \<Rightarrow> Some (Inl (ErrMsg ''failed to load file: ''))
         | Inr bs \<Rightarrow>
             do { found \<leftarrow> Find bs (val ! 1);
                  Some (case be_UnmarshalGeoSite B (nil_bytes found) of
                          Inl e \<Rightarrow> Inl (ErrMsg ''failed Unmarshal :'')
                        | Inr ds \<Rightarrow>
                            Inr (if length val = 3 then
                                   let attrs = ParseAttrs (be_lower B) (split_on 44 (val ! 2)) in
                                   if attrs \<noteq> [] then filter (\<lambda>d. GeoAttributeList_Match attrs (d_Attribute d)) ds else ds
                                 else ds)) })
      else Some (Inr [domain]))"

fun getDomainList :: "'s build_env \<Rightarrow> RDomain list \<Rightarrow> (goerr + RDomain list) option" where
  "getDomainList B [] = Some (Inr [])"
| "getDomainList B (domain # domains) =
     do { r \<leftarrow> load_domains B domain;
          (case r of
             Inl e \<Rightarrow> Some (Inl e)
           | Inr ds \<Rightarrow> map_option (map_sum id (append ds)) (getDomainList B domains)) }"

section \<open>BuildCondition\<close>

text \<open>\<^verbatim>\<open>regexp.MustCompile\<close> panics; of two keys with the same lower-case form the later one counts.\<close>

fun attribute_keys ::
  "'s build_env \<Rightarrow> (gostring \<times> (gostring \<Rightarrow> bool)) list \<Rightarrow> (gostring \<times> gostring) list \<Rightarrow> (gostring \<times> (gostring \<Rightarrow> bool)) list option" where
  "attribute_keys B keys [] = Some keys"
| "attribute_keys B keys ((key, value) # as) =
     (case be_compile B value of
        Inl e \<Rightarrow> None
      | Inr re \<Rightarrow> attribute_keys B (AList.update (be_lower B key) re keys) as)"

definition TrimSuffix :: "gostring \<Rightarrow> gostring \<Rightarrow> gostring" where
  "TrimSuffix s suf =
     (if length suf \<le> length s \<and> drop (length s - length suf) s = suf then take (length s - length suf) s else s)"

text \<open>The conditions that need no assets, in the order of the code.\<close>

definition basic_conditions :: "'s build_env \<Rightarrow> RoutingRule \<Rightarrow> 's Condition list option" where
  "basic_conditions B rr =
     do { attrs \<leftarrow> (if rr_Attributes rr \<noteq> []
                     then do { keys \<leftarrow> attribute_keys B [] (rr_Attributes rr); Some [AttributeMatcher keys] } else Some []);
          Some ((if rr_InboundTag rr \<noteq> [] then [NewInboundTagMatcher (rr_InboundTag rr)] else []) @
                (if rr_Networks rr \<noteq> [] then [NewNetworkMatcher (rr_Networks rr)] else []) @
                (if rr_Protocol rr \<noteq> [] then [NewProtocolMatcher (rr_Protocol rr)] else []) @
                (case rr_PortList rr of None \<Rightarrow> [] | Some l \<Rightarrow> [NewPortMatcher l MatcherAsType_Target]) @
                (case rr_SourcePortList rr of None \<Rightarrow> [] | Some l \<Rightarrow> [NewPortMatcher l MatcherAsType_Source]) @
                (case rr_LocalPortList rr of None \<Rightarrow> [] | Some l \<Rightarrow> [NewPortMatcher l MatcherAsType_Local]) @
                (case rr_VlessRouteList rr of None \<Rightarrow> [] | Some l \<Rightarrow> [NewPortMatcher l MatcherAsType_VlessRoute]) @
                (if rr_UserEmail rr \<noteq> [] then [NewUserMatcher (be_compile B) (rr_UserEmail rr)] else []) @
                attrs) }"

text \<open>Steps that may fail or panic, over the factory of shared address sets.\<close>

type_synonym ('s, 'a) build = "'s set_factory \<Rightarrow> ('s set_factory \<times> (goerr + 'a)) option"

definition build_bind :: "('s, 'a) build \<Rightarrow> ('a \<Rightarrow> ('s, 'b) build) \<Rightarrow> ('s, 'b) build" where
  "build_bind m k f =
     (case m f of
        None \<Rightarrow> None
      | Some (f', Inl e) \<Rightarrow> Some (f', Inl e)
      | Some (f', Inr a) \<Rightarrow> k a f')"

definition geoip_condition :: "'s build_env \<Rightarrow> bool \<Rightarrow> GeoIP option list \<Rightarrow> MatcherAsType \<Rightarrow> ('s, 's Condition list) build" where
  "geoip_condition B load geoips asType f =
     (if geoips = [] then Some (f, Inr [])
      else
        do { r \<leftarrow> (if load \<and> be_mmap B then getGeoIPList B geoips else Some (Inr geoips));
             Some (case r of
                     Inl e \<Rightarrow> (f, Inl (ErrMsg ''failed to build geoip from mmap''))
                   | Inr gs \<Rightarrow> apsnd (map_sum id (\<lambda>cond. [cond])) (NewIPMatcher (be_netipx B) (be_srt B) f gs asType)) })"

definition domain_condition :: "'s build_env \<Rightarrow> RDomain list \<Rightarrow> ('s, 's Condition list) build" where
  "domain_condition B domains f =
     (if domains = [] then Some (f, Inr [])
      else
        do { r \<leftarrow> (if be_mmap B then getDomainList B domains else Some (Inr domains));
             (case r of
                Inl e \<Rightarrow> Some (f, Inl (ErrMsg ''failed to build domains from mmap''))
              | Inr ds \<Rightarrow>
                  do { g \<leftarrow> NewDomainMatcher (be_lower B) (be_compile B) (be_visit B) (be_sorter B) ds;
                       Some (f, Inr [DomainMatcher g]) }) })"

definition BuildCondition :: "'s build_env \<Rightarrow> RoutingRule \<Rightarrow> ('s, 's Condition list) build" where
  "BuildCondition B rr f =
     do { basic \<leftarrow> basic_conditions B rr;
          build_bind (geoip_condition B True (rr_Geoip rr) MatcherAsType_Target) (\<lambda>c1.
          build_bind (geoip_condition B False (rr_SourceGeoip rr) MatcherAsType_Source) (\<lambda>c2.
          build_bind (geoip_condition B False (rr_LocalGeoip rr) MatcherAsType_Local) (\<lambda>c3.
          build_bind (domain_condition B (rr_Domain rr)) (\<lambda>c4 f'.
            let c5 = (if rr_ProcessName rr \<noteq> []
                      then [ProcessNameMatcher (map (\<lambda>name. TrimSuffix name (gostr ''.exe'')) (rr_ProcessName rr))] else []);
                conds = basic @ c1 @ c2 @ c3 @ c4 @ c5
            in if conds = [] then Some (f', Inl (ErrMsg ''this rule has no effective fields'')) else Some (f', Inr conds))))) f }"

section \<open>Lookups of geo data\<close>

lemma split_on_none: "d \<notin> set c \<Longrightarrow> split_on d c = [c]"
  by (induction c) auto

lemma split_on_at: "d \<notin> set a \<Longrightarrow> split_on d (a @ d # b) = a # split_on d b"
  by (induction a) (auto split: list.split)

text \<open>
  Loading geo addresses. A rule that names a country gets the entry of \<^verbatim>\<open>geoip.dat\<close>, as it was decoded: an
  inversion that was configured with the country is not carried over. For a country of another file, written
  \<^verbatim>\<open>FILE_COUNTRY\<close>, the file is chosen by the first part, but the entry is looked up under the whole text; so if the file
  only has names without an underscore the rule gets the empty message in place of the entry that is there.
\<close>

theorem geoip_loaded:
  assumes lower: "be_lower B F = file" and F: "95 \<notin> set F" and c: "95 \<notin> set c" "c \<noteq> []"
    and files: "be_ReadAsset B (gostr ''geoip.dat'') = Inr (geo_file es)" "be_ReadAsset B file = Inr (geo_file es)"
    and es: "\<forall>e \<in> set es. entry_ok e \<and> 95 \<notin> set (fst e)" and found: "map_of es c = Some r"
  shows "getGeoIPList B [Some \<lparr>CountryCode = c, Cidr = cs, ReverseMatch = rm\<rparr>] =
      Some (case be_UnmarshalGeoIP B (entry_body (c, r)) of Inl e \<Rightarrow> Inl (ErrMsg ''failed Unmarshal :'') | Inr g \<Rightarrow> Inr [Some g]) \<and>
    getGeoIPList B [Some \<lparr>CountryCode = F @ 95 # c, Cidr = cs, ReverseMatch = rm\<rparr>] =
      Some (case be_UnmarshalGeoIP B [] of Inl e \<Rightarrow> Inl (ErrMsg ''failed Unmarshal :'') | Inr g \<Rightarrow> Inr [Some g])"
proof -
  have ok: "\<forall>e \<in> set es. entry_ok e" using es by blast
  have "map_of es (F @ 95 # c) = None" using es by (force simp: map_of_eq_None_iff)
  then have "Find (geo_file es) c = Some (Some (entry_body (c, r)))" "Find (geo_file es) (F @ 95 # c) = Some None"
    using Find_geo_file [OF _ ok] c(2) found by (simp_all add: Find_def)
  then show ?thesis
    using assms by (simp add: load_geoip_def Let_def split_on_none split_on_at nil_bytes_def split: sum.split)
qed

definition demo_env :: "Prefix list build_env" where
  "demo_env = \<lparr>be_mmap = True, be_netipx = list_netipx, be_srt = id, be_lower = (\<lambda>s. if s = gostr ''X'' then gostr ''x'' else s),
     be_compile = (\<lambda>_. Inl EOF), be_visit = id, be_sorter = id,
     be_ReadAsset = (\<lambda>_. Inr (geo_file [(gostr ''IR'', [1])])),
     be_UnmarshalGeoIP = (\<lambda>bs. Inr \<lparr>CountryCode = drop 2 bs, Cidr = [], ReverseMatch = False\<rparr>), be_UnmarshalGeoSite = (\<lambda>_. Inr [])\<rparr>"

theorem geoip_loaded_witness:
  "getGeoIPList demo_env [Some \<lparr>CountryCode = gostr ''IR'', Cidr = [], ReverseMatch = True\<rparr>] =
     Some (Inr [Some \<lparr>CountryCode = gostr ''IR'' @ [1], Cidr = [], ReverseMatch = False\<rparr>]) \<and>
   getGeoIPList demo_env [Some \<lparr>CountryCode = gostr ''X_IR'', Cidr = [], ReverseMatch = True\<rparr>] =
     Some (Inr [Some \<lparr>CountryCode = [], Cidr = [], ReverseMatch = False\<rparr>])"
  using geoip_loaded [of demo_env "gostr ''X''" "gostr ''x''" "gostr ''IR''" "[(gostr ''IR'', [1])]" "[1]" "[]" True]
  by (simp add: demo_env_def entry_ok_def entry_body_def)

end
