(* ===== verification/Router.thy ===== *)
theory Router
  imports Router_Config
begin

text \<open>
  \<^verbatim>\<open>app/router/router.go\<close>, with the operations of the router in \<^verbatim>\<open>balancing.go\<close> and \<^verbatim>\<open>balancing_override.go\<close> and the
  rules of \<^verbatim>\<open>config.go\<close>: the rules are tried in order, with or without resolving the target domain. Rules point at
  balancers; the balancers are a heap, which the map of balancers and the rules index. \<open>None\<close> is a panic.
\<close>

section \<open>The router\<close>

datatype DomainStrategy = Config_AsIs | Config_IpIfNonMatch | Config_IpOnDemand

record 's Rule =
  ru_Tag :: gostring
  ru_RuleTag :: gostring
  ru_Balancer :: "nat option"
  ru_Condition :: "'s Condition list"

record 's Router =
  rt_domainStrategy :: DomainStrategy
  rt_rules :: "'s Rule list"
  rt_balancers :: "gostring \<Rightarrow> nat option"
  rt_heap :: "Balancer list"
  rt_ohm :: "Manager option"
  rt_shared :: "'s set_factory"

record Config =
  cf_DomainStrategy :: DomainStrategy
  cf_Rule :: "RoutingRule list"
  cf_BalancingRule :: "BalancingRule list"

definition new_router :: "Manager option \<Rightarrow> 's set_factory \<Rightarrow> 's Router" where
  "new_router ohm shared =
     \<lparr>rt_domainStrategy = Config_AsIs, rt_rules = [], rt_balancers = Map.empty, rt_heap = [], rt_ohm = ohm, rt_shared = shared\<rparr>"

definition Rule_Apply :: "'s route_env \<Rightarrow> 's Rule \<Rightarrow> ResolvableContext \<Rightarrow> (ResolvableContext \<times> bool) option" where
  "Rule_Apply E r ctx = ConditionChan_Apply E (ru_Condition r) ctx"

section \<open>Loading rules\<close>

definition add_balancer :: "'s build_env \<Rightarrow> 's Router \<Rightarrow> BalancingRule \<Rightarrow> 's Router \<times> goerr option" where
  "add_balancer B r br =
     (case BalancingRule_Build (be_lower B) br of
        Inl e \<Rightarrow> (r, Some e)
      | Inr b \<Rightarrow>
          (r\<lparr>rt_heap := rt_heap r @ [Balancer_InjectContext b], rt_balancers := (rt_balancers r)(br_Tag br \<mapsto> length (rt_heap r))\<rparr>, None))"

definition add_rule :: "'s build_env \<Rightarrow> 's Router \<Rightarrow> RoutingRule \<Rightarrow> ('s Router \<times> goerr option) option" where
  "add_rule B r rule =
     do { (shared, res) \<leftarrow> BuildCondition B rule (rt_shared r);
          let r1 = r\<lparr>rt_shared := shared\<rparr>;
          Some (case res of
                  Inl e \<Rightarrow> (r1, Some e)
                | Inr cond \<Rightarrow>
                    let rr = \<lparr>ru_Tag = GetTag (rr_TargetTag rule), ru_RuleTag = rr_RuleTag rule, ru_Balancer = None, ru_Condition = cond\<rparr>;
                        btag = GetBalancingTag (rr_TargetTag rule) in
                    if length btag > 0 then
                      (case rt_balancers r1 btag of
                         None \<Rightarrow> (r1, Some (ErrMsg ''balancer not found''))
                       | Some brule \<Rightarrow> (r1\<lparr>rt_rules := rt_rules r1 @ [rr\<lparr>ru_Balancer := Some brule\<rparr>]\<rparr>, None))
                    else (r1\<lparr>rt_rules := rt_rules r1 @ [rr]\<rparr>, None)) }"

fun init_balancers :: "'s build_env \<Rightarrow> 's Router \<Rightarrow> BalancingRule list \<Rightarrow> 's Router \<times> goerr option" where
  "init_balancers B r [] = (r, None)"
| "init_balancers B r (br # brs) =
     (case add_balancer B r br of (r', Some e) \<Rightarrow> (r', Some e) | (r', None) \<Rightarrow> init_balancers B r' brs)"

fun init_rules :: "'s build_env \<Rightarrow> 's Router \<Rightarrow> RoutingRule list \<Rightarrow> ('s Router \<times> goerr option) option" where
  "init_rules B r [] = Some (r, None)"
| "init_rules B r (rule # rest) =
     do { (r', e) \<leftarrow> add_rule B r rule;
          (case e of Some e \<Rightarrow> Some (r', Some e) | None \<Rightarrow> init_rules B r' rest) }"

definition Init :: "'s build_env \<Rightarrow> 's Router \<Rightarrow> Config \<Rightarrow> ('s Router \<times> goerr option) option" where
  "Init B r config =
     (case init_balancers B (r\<lparr>rt_domainStrategy := cf_DomainStrategy config, rt_balancers := Map.empty\<rparr>) (cf_BalancingRule config) of
        (r1, Some e) \<Rightarrow> Some (r1, Some e)
      | (r1, None) \<Rightarrow> init_rules B (r1\<lparr>rt_rules := []\<rparr>) (cf_Rule config))"

definition RuleExists :: "'s Router \<Rightarrow> gostring \<Rightarrow> bool" where
  "RuleExists r tag \<longleftrightarrow> tag \<noteq> [] \<and> list_ex (\<lambda>rule. ru_RuleTag rule = tag) (rt_rules r)"

fun reload_balancers :: "'s build_env \<Rightarrow> 's Router \<Rightarrow> BalancingRule list \<Rightarrow> 's Router \<times> goerr option" where
  "reload_balancers B r [] = (r, None)"
| "reload_balancers B r (br # brs) =
     (if rt_balancers r (br_Tag br) \<noteq> None then (r, Some (ErrMsg ''duplicate balancer tag''))
      else (case add_balancer B r br of (r', Some e) \<Rightarrow> (r', Some e) | (r', None) \<Rightarrow> reload_balancers B r' brs))"

fun reload_rules :: "'s build_env \<Rightarrow> 's Router \<Rightarrow> RoutingRule list \<Rightarrow> ('s Router \<times> goerr option) option" where
  "reload_rules B r [] = Some (r, None)"
| "reload_rules B r (rule # rest) =
     (if RuleExists r (rr_RuleTag rule) then Some (r, Some (ErrMsg ''duplicate ruleTag''))
      else do { (r', e) \<leftarrow> add_rule B r rule;
                (case e of Some e \<Rightarrow> Some (r', Some e) | None \<Rightarrow> reload_rules B r' rest) })"

definition ReloadRules :: "'s build_env \<Rightarrow> 's Router \<Rightarrow> Config \<Rightarrow> bool \<Rightarrow> ('s Router \<times> goerr option) option" where
  "ReloadRules B r config shouldAppend =
     (let r0 = (if \<not> shouldAppend then r\<lparr>rt_balancers := Map.empty, rt_rules := []\<rparr> else r) in
      case reload_balancers B r0 (cf_BalancingRule config) of
        (r1, Some e) \<Rightarrow> Some (r1, Some e)
      | (r1, None) \<Rightarrow> reload_rules B r1 (cf_Rule config))"

text \<open>The instance of the typed message: an error, a configuration, or a message of another type.\<close>

definition AddRule :: "'s build_env \<Rightarrow> 's Router \<Rightarrow> goerr + Config option \<Rightarrow> bool \<Rightarrow> ('s Router \<times> goerr option) option" where
  "AddRule B r inst shouldAppend =
     (case inst of
        Inl e \<Rightarrow> Some (r, Some e)
      | Inr (Some c) \<Rightarrow> ReloadRules B r c shouldAppend
      | Inr None \<Rightarrow> Some (r, Some (ErrMsg ''AddRule: config type error'')))"

definition RemoveRule :: "'s Router \<Rightarrow> gostring \<Rightarrow> 's Router \<times> goerr option" where
  "RemoveRule r tag =
     (if tag \<noteq> [] then (r\<lparr>rt_rules := filter (\<lambda>rule. ru_RuleTag rule \<noteq> tag) (rt_rules r)\<rparr>, None)
      else (r, Some (ErrMsg ''empty tag name!'')))"

section \<open>Picking a route\<close>

fun first_rule :: "'s route_env \<Rightarrow> 's Rule list \<Rightarrow> ResolvableContext \<Rightarrow> (ResolvableContext \<times> 's Rule option) option" where
  "first_rule E [] ctx = Some (ctx, None)"
| "first_rule E (rule # rest) ctx =
     do { (ctx', b) \<leftarrow> Rule_Apply E rule ctx; if b then Some (ctx', Some rule) else first_rule E rest ctx' }"

definition pickRouteInternal ::
  "'s route_env \<Rightarrow> 's Router \<Rightarrow> ResolvableContext \<Rightarrow> (ResolvableContext \<times> (goerr + 's Rule)) option" where
  "pickRouteInternal E r ctx =
     (let skipDNSResolve = GetSkipDNSResolve (rc_session ctx);
          ctx0 = (if rt_domainStrategy r = Config_IpOnDemand \<and> \<not> skipDNSResolve then ContextWithDNSClient ctx else ctx)
      in do { (ctx1, m) \<leftarrow> first_rule E (rt_rules r) ctx0;
              (case m of
                 Some rule \<Rightarrow> Some (ctx1, Inr rule)
               | None \<Rightarrow>
                   if rt_domainStrategy r \<noteq> Config_IpIfNonMatch then Some (ctx1, Inl ErrNoClue)
                   else
                     do { domain \<leftarrow> GetTargetDomain (rc_session ctx1);
                          if length domain = 0 \<or> skipDNSResolve then Some (ctx1, Inl ErrNoClue)
                          else
                            do { (ctx2, m) \<leftarrow> first_rule E (rt_rules r) (ContextWithDNSClient ctx1);
                                 Some (ctx2, case m of Some rule \<Rightarrow> Inr rule | None \<Rightarrow> Inl ErrNoClue) } }) })"

text \<open>\<^verbatim>\<open>Rule.GetTag\<close>, which may ask the rule's balancer.\<close>

definition Rule_GetTag ::
  "(gostring list \<Rightarrow> gostring list) \<Rightarrow> pick_env \<Rightarrow> 's Router \<Rightarrow> 's Rule \<Rightarrow> ('s Router \<times> (goerr + gostring)) option" where
  "Rule_GetTag visit P r rule =
     (case ru_Balancer rule of
        None \<Rightarrow> Some (r, Inr (ru_Tag rule))
      | Some i \<Rightarrow>
          if i < length (rt_heap r) then
            do { (ohm, b, res) \<leftarrow> Balancer_PickOutbound visit P (rt_ohm r) (rt_heap r ! i);
                 Some (r\<lparr>rt_ohm := ohm, rt_heap := (rt_heap r)[i := b]\<rparr>, res) }
          else None)"

record Route =
  ro_context :: ResolvableContext
  ro_outboundTag :: gostring
  ro_ruleTag :: gostring

definition PickRoute ::
  "'s route_env \<Rightarrow> (gostring list \<Rightarrow> gostring list) \<Rightarrow> pick_env \<Rightarrow> 's Router \<Rightarrow> ResolvableContext \<Rightarrow> ('s Router \<times> (goerr + Route)) option" where
  "PickRoute E visit P r ctx =
     do { (ctx', res) \<leftarrow> pickRouteInternal E r ctx;
          (case res of
             Inl e \<Rightarrow> Some (r, Inl e)
           | Inr rule \<Rightarrow>
               do { (r', t) \<leftarrow> Rule_GetTag visit P r rule;
                    Some (r', case t of
                                Inl e \<Rightarrow> Inl e
                              | Inr tag \<Rightarrow> Inr \<lparr>ro_context = ctx', ro_outboundTag = tag, ro_ruleTag = ru_RuleTag rule\<rparr>) }) }"

section \<open>Balancers of the router\<close>

definition Router_GetPrincipleTarget ::
  "(gostring list \<Rightarrow> gostring list) \<Rightarrow> pick_env \<Rightarrow> 's Router \<Rightarrow> gostring \<Rightarrow> ('s Router \<times> (goerr + gostring list)) option" where
  "Router_GetPrincipleTarget visit P r tag =
     (case rt_balancers r tag of
        None \<Rightarrow> Some (r, Inl (ErrMsg ''cannot find tag''))
      | Some i \<Rightarrow>
          (case SelectOutbounds visit (rt_ohm r) (rt_heap r ! i) of
             (ohm, Inl e) \<Rightarrow> Some (r\<lparr>rt_ohm := ohm\<rparr>, Inl (ErrMsg ''unable to select outbounds''))
           | (ohm, Inr candidates) \<Rightarrow>
               do { (st, ts) \<leftarrow> GetPrincipleTarget P (ba_strategy (rt_heap r ! i)) candidates;
                    Some (r\<lparr>rt_ohm := ohm, rt_heap := (rt_heap r)[i := (rt_heap r ! i)\<lparr>ba_strategy := st\<rparr>]\<rparr>, Inr ts) }))"

definition SetOverrideTarget :: "'s Router \<Rightarrow> gostring \<Rightarrow> gostring \<Rightarrow> 's Router \<times> goerr option" where
  "SetOverrideTarget r tag target =
     (case rt_balancers r tag of
        None \<Rightarrow> (r, Some (ErrMsg ''cannot find tag''))
      | Some i \<Rightarrow> (r\<lparr>rt_heap := (rt_heap r)[i := override_Put (rt_heap r ! i) target]\<rparr>, None))"

definition GetOverrideTarget :: "'s Router \<Rightarrow> gostring \<Rightarrow> goerr + gostring" where
  "GetOverrideTarget r tag =
     (case rt_balancers r tag of
        None \<Rightarrow> Inl (ErrMsg ''cannot find tag'') | Some i \<Rightarrow> Inr (ba_override (rt_heap r ! i)))"

definition OverrideBalancer :: "'s Router \<Rightarrow> gostring \<Rightarrow> gostring \<Rightarrow> 's Router \<times> goerr option" where
  "OverrideBalancer r balancer target =
     (case rt_balancers r balancer of
        None \<Rightarrow> (r, Some (ErrMsg ''balancer not found''))
      | Some i \<Rightarrow> (r\<lparr>rt_heap := (rt_heap r)[i := override_Put (rt_heap r ! i) target]\<rparr>, None))"

section \<open>What a condition means\<close>

text \<open>The value of a condition for given target addresses, without the bookkeeping of the resolving context.\<close>

definition cond_value :: "'s route_env \<Rightarrow> byte list list option \<Rightarrow> SessionContext \<Rightarrow> 's Condition \<Rightarrow> bool option" where
  "cond_value E ips s cond =
     (case cond of
        IPMatcher m MatcherAsType_Target \<Rightarrow> map_option (GeoIP_AnyMatch (re_netipx E) m) ips
      | _ \<Rightarrow> map_option snd (Condition_Apply E cond (plain_context s)))"

fun chan_value :: "'s route_env \<Rightarrow> byte list list option \<Rightarrow> SessionContext \<Rightarrow> 's Condition list \<Rightarrow> bool option" where
  "chan_value E ips s [] = Some True"
| "chan_value E ips s (c # cs) = do { b \<leftarrow> cond_value E ips s c; if b then chan_value E ips s cs else Some False }"

fun first_match :: "'s route_env \<Rightarrow> byte list list option \<Rightarrow> SessionContext \<Rightarrow> 's Rule list \<Rightarrow> 's Rule option option" where
  "first_match E ips s [] = Some None"
| "first_match E ips s (r # rs) =
     do { b \<leftarrow> chan_value E ips s (ru_Condition r); if b then Some (Some r) else first_match E ips s rs }"

text \<open>A computation on contexts follows a value if it panics when the value is undefined, and otherwise answers the
  value and leaves the session and a relation on contexts as they are.\<close>

definition follows :: "(ResolvableContext \<Rightarrow> bool) \<Rightarrow> SessionContext \<Rightarrow> 'a option \<Rightarrow> (ResolvableContext \<times> 'a) option \<Rightarrow> bool" where
  "follows I s v m \<longleftrightarrow> (case m of None \<Rightarrow> v = None | Some (ctx, a) \<Rightarrow> v = Some a \<and> I ctx \<and> rc_session ctx = s)"

lemma follows_return: "I ctx \<Longrightarrow> rc_session ctx = s \<Longrightarrow> follows I s (Some a) (Some (ctx, a))"
  by (simp add: follows_def)

lemma follows_bind:
  assumes "follows I s v m" "\<And>ctx a. I ctx \<Longrightarrow> rc_session ctx = s \<Longrightarrow> follows I s (w a) (k ctx a)"
  shows "follows I s (v \<bind> w) (m \<bind> (\<lambda>(ctx, a). k ctx a))"
proof (cases m)
  case None
  with assms(1) show ?thesis by (simp add: follows_def)
next
  case (Some p)
  obtain ctx a where p: "p = (ctx, a)" by (cases p)
  with assms(1) Some have "v = Some a" "I ctx" "rc_session ctx = s" by (auto simp: follows_def)
  with assms(2) [of ctx a] Some p show ?thesis by simp
qed

lemma session_condition:
  assumes "\<And>m. cond \<noteq> IPMatcher m MatcherAsType_Target"
  shows "Condition_Apply E cond ctx = map_option (Pair ctx) (cond_value E ips (rc_session ctx) cond)"
proof (cases cond)
  case (DomainMatcher m)
  then show ?thesis
    by (cases "GetTargetDomain (rc_session ctx)") (auto simp: cond_value_def plain_context_def option.map_comp o_def bind_map_option
      split: option.splits Option.bind_splits)
next
  case (IPMatcher m t)
  with assms show ?thesis
    by (cases t) (auto simp: cond_value_def IPMatcher_Apply_def plain_context_def split: option.splits Option.bind_splits)
qed (simp_all add: cond_value_def plain_context_def option.map_comp o_def)

text \<open>Rules are tried alike on a plain context and on one that resolves.\<close>

locale target_addresses =
  fixes E :: "'s route_env" and I :: "ResolvableContext \<Rightarrow> bool" and s :: SessionContext and ips :: "byte list list option"
  assumes target: "I ctx \<Longrightarrow> rc_session ctx = s \<Longrightarrow> follows I s ips (ctx_GetTargetIPs (re_LookupIP E) ctx)"
begin

lemma condition_follows:
  assumes "I ctx" "rc_session ctx = s"
  shows "follows I s (cond_value E ips s cond) (Condition_Apply E cond ctx)"
proof (cases "\<exists>m. cond = IPMatcher m MatcherAsType_Target")
  case True
  then obtain m where "cond = IPMatcher m MatcherAsType_Target" by blast
  with target [OF assms] show ?thesis
    by (auto simp: cond_value_def IPMatcher_Apply_def follows_def split: option.splits)
next
  case False
  then have "Condition_Apply E cond ctx = map_option (Pair ctx) (cond_value E ips s cond)"
    using session_condition [of cond E ctx ips] assms(2) by blast
  with assms show ?thesis by (simp add: follows_def split: option.split)
qed

lemma chan_follows: "I ctx \<Longrightarrow> rc_session ctx = s \<Longrightarrow> follows I s (chan_value E ips s cs) (ConditionChan_Apply E cs ctx)"
proof (induction cs arbitrary: ctx)
  case (Cons c cs)
  show ?case unfolding chan_value.simps ConditionChan_Apply.simps
    by (rule follows_bind [OF condition_follows [OF Cons.prems]]) (simp add: Cons.IH follows_return)
qed (simp add: follows_return)

lemma rules_follow: "I ctx \<Longrightarrow> rc_session ctx = s \<Longrightarrow> follows I s (first_match E ips s rs) (first_rule E rs ctx)"
proof (induction rs arbitrary: ctx)
  case (Cons r rs)
  show ?case unfolding first_match.simps first_rule.simps Rule_Apply_def
    by (rule follows_bind [OF chan_follows [OF Cons.prems]]) (simp add: Cons.IH follows_return)
qed (simp add: follows_return)

end

text \<open>A context without DNS client sees the session's addresses; one with a client sees the answer to one lookup.\<close>

definition plain_ok :: "ResolvableContext \<Rightarrow> bool" where
  "plain_ok ctx \<longleftrightarrow> \<not> rc_dnsClient ctx \<and> rc_lookups ctx = 0"

interpretation as_is: target_addresses E plain_ok s "GetTargetIPs s"
  by unfold_locales (auto simp: follows_def plain_ok_def ctx_GetTargetIPs_def split: option.splits)

definition resolving :: "(nat \<Rightarrow> gostring \<Rightarrow> goerr + byte list list) \<Rightarrow> ResolvableContext \<Rightarrow> bool" where
  "resolving LookupIP ctx \<longleftrightarrow> no_empty_answer LookupIP \<and> ctx_ok LookupIP 0 ctx"

interpretation on_demand: target_addresses E "resolving (re_LookupIP E)" s "resolved (re_LookupIP E) 0 s"
proof
  fix ctx assume c: "resolving (re_LookupIP E) ctx" "rc_session ctx = s"
  show "follows (resolving (re_LookupIP E)) s (resolved (re_LookupIP E) 0 s) (ctx_GetTargetIPs (re_LookupIP E) ctx)"
    using target_ips_resolved [of "re_LookupIP E" 0 ctx] c by (auto simp: follows_def resolving_def split: option.splits)
qed

section \<open>The route\<close>

text \<open>The rule for a session: with \<^verbatim>\<open>IpOnDemand\<close> the rules see the resolved addresses; otherwise they see the session's
  own, and with \<^verbatim>\<open>IpIfNonMatch\<close> they are tried again with the resolved ones. No resolution for the DNS module's own
  connections.\<close>

definition route_spec :: "'s route_env \<Rightarrow> 's Router \<Rightarrow> SessionContext \<Rightarrow> 's Rule option option" where
  "route_spec E r s =
     (let own = first_match E (GetTargetIPs s) s (rt_rules r);
          resolving = first_match E (resolved (re_LookupIP E) 0 s) s (rt_rules r);
          skip = GetSkipDNSResolve s in
      case rt_domainStrategy r of
        Config_AsIs \<Rightarrow> own
      | Config_IpOnDemand \<Rightarrow> if skip then own else resolving
      | Config_IpIfNonMatch \<Rightarrow>
          do { m \<leftarrow> own;
               if m \<noteq> None then Some m
               else do { domain \<leftarrow> GetTargetDomain s; if domain = [] \<or> skip then Some None else resolving } })"

lemma first_match_first:
  "first_match E ips s rs = Some (Some r) \<longleftrightarrow>
   (\<exists>i < length rs. rs ! i = r \<and> chan_value E ips s (ru_Condition r) = Some True \<and>
      (\<forall>j < i. chan_value E ips s (ru_Condition (rs ! j)) = Some False))"
proof (induction rs)
  case (Cons x xs)
  then show ?case
    by (cases "chan_value E ips s (ru_Condition x)"; cases "the (chan_value E ips s (ru_Condition x))")
      (auto simp: Ex_less_Suc2 All_less_Suc2)
qed simp

lemma ctx_ok_lookups: "ctx_ok L 0 ctx \<Longrightarrow> rc_lookups ctx \<le> 1"
  by (auto simp: ctx_ok_def split: if_splits)

text \<open>
  C33: the router answers the first rule that matches. For a session and a DNS client that reports an empty answer as an
  error, \<^verbatim>\<open>pickRouteInternal\<close> answers the rule that the domain strategy prescribes, and \<^verbatim>\<open>ErrNoClue\<close> if no rule matches;
  the answers of the caching context are those of one lookup. At most one lookup is made, and none with \<^verbatim>\<open>AsIs\<close> or for a
  session that must not be resolved.
\<close>

theorem route_picked:
  assumes L: "no_empty_answer (re_LookupIP E)"
  shows "case pickRouteInternal E r (plain_context s) of
      None \<Rightarrow> route_spec E r s = None
    | Some (ctx, res) \<Rightarrow>
        route_spec E r s = Some (case res of Inr rule \<Rightarrow> Some rule | Inl e \<Rightarrow> None) \<and> (\<forall>e. res = Inl e \<longrightarrow> e = ErrNoClue) \<and>
        rc_session ctx = s \<and> rc_lookups ctx \<le> 1 \<and>
        (rt_domainStrategy r = Config_AsIs \<or> GetSkipDNSResolve s \<longrightarrow> rc_lookups ctx = 0)"
proof -
  let ?plain = "first_rule E (rt_rules r) (plain_context s)"
  let ?res = "\<lambda>ctx. first_rule E (rt_rules r) (ContextWithDNSClient ctx)"
  have p: "follows plain_ok s (first_match E (GetTargetIPs s) s (rt_rules r)) ?plain"
    by (rule as_is.rules_follow) (simp_all add: plain_ok_def plain_context_def)
  have q: "follows (resolving (re_LookupIP E)) s (first_match E (resolved (re_LookupIP E) 0 s) s (rt_rules r)) (?res ctx)"
    if "rc_lookups ctx = 0" "rc_session ctx = s" for ctx
    using that L ctx_ok_wrap [of "re_LookupIP E" ctx]
    by (intro on_demand.rules_follow) (simp_all add: resolving_def ContextWithDNSClient_def)
  have pc: "rc_session (plain_context s) = s" "rc_lookups (plain_context s) = 0" by (simp_all add: plain_context_def)
  note defs = pickRouteInternal_def route_spec_def Let_def follows_def
  show ?thesis
  proof (cases "rt_domainStrategy r")
    case Config_AsIs
    with p pc show ?thesis by (auto simp: defs plain_ok_def split: option.splits)
  next
    case Config_IpOnDemand
    with p q [OF pc(2,1)] pc show ?thesis
      by (cases "GetSkipDNSResolve s")
        (auto simp: defs plain_ok_def resolving_def dest: ctx_ok_lookups split: option.splits)
  next
    case Config_IpIfNonMatch
    show ?thesis
    proof (cases ?plain)
      case None
      with p pc Config_IpIfNonMatch show ?thesis by (simp add: defs)
    next
      case (Some x)
      then obtain ctx m where x: "?plain = Some (ctx, m)" by (cases x) simp
      with p have c: "first_match E (GetTargetIPs s) s (rt_rules r) = Some m" "rc_session ctx = s" "rc_lookups ctx = 0"
        by (auto simp: follows_def plain_ok_def)
      show ?thesis using q [OF c(3,2)] c x pc Config_IpIfNonMatch
        by (cases m; cases "GetTargetDomain s")
          (auto simp: defs resolving_def dest: ctx_ok_lookups split: option.splits if_splits)
    qed
  qed
qed

definition demo_session :: SessionContext where
  "demo_session = \<lparr>sc_Inbound = None,
     sc_Outbound = Some \<lparr>ob_OriginalTarget = zero_Destination,
                          ob_Target = \<lparr>d_Address = Some (domainAddress (gostr ''a.ir'')), d_Port = 443, d_Network = Network_TCP\<rparr>,
                          ob_RouteTarget = \<lparr>d_Address = None, d_Port = 0, d_Network = Network_Unknown\<rparr>, ob_Tag = []\<rparr>,
     sc_Content = None\<rparr>"

definition demo_routes :: "Prefix list route_env" where
  "demo_routes = \<lparr>re_netipx = list_netipx, re_lower = id, re_LookupIP = (\<lambda>n d. Inr [[1, 2, 3, 4]]), re_FindProcess = (\<lambda>_. Inl EOF), re_Getpid = 1\<rparr>"

definition demo_matcher :: "Prefix list GeoIPMatcher" where
  "demo_matcher = (case BuildOptimizedGeoIPMatcher list_netipx id Map.empty (map Some [hd demo_geoips]) of (_, Inr m) \<Rightarrow> m)"

definition demo_router :: "Prefix list Router" where
  "demo_router = (new_router None Map.empty)\<lparr>rt_domainStrategy := Config_IpIfNonMatch, rt_rules :=
     [\<lparr>ru_Tag = gostr ''direct'', ru_RuleTag = [], ru_Balancer = None, ru_Condition = [PortMatcher [(80, 80)] MatcherAsType_Target]\<rparr>,
      \<lparr>ru_Tag = gostr ''proxy'', ru_RuleTag = [], ru_Balancer = None, ru_Condition = [IPMatcher demo_matcher MatcherAsType_Target]\<rparr>]\<rparr>"

theorem route_picked_witness:
  "case pickRouteInternal demo_routes demo_router (plain_context demo_session) of
     Some (ctx, Inr rule) \<Rightarrow> ru_Tag rule = gostr ''proxy'' \<and> route_spec demo_routes demo_router demo_session = Some (Some rule) \<and> rc_lookups ctx = 1
   | _ \<Rightarrow> False"
proof -
  have "no_empty_answer (re_LookupIP demo_routes)" by (simp add: no_empty_answer_def demo_routes_def)
  note r = route_picked [OF this, of demo_router demo_session]
  have "case pickRouteInternal demo_routes demo_router (plain_context demo_session) of
     Some (ctx, Inr rule) \<Rightarrow> ru_Tag rule = gostr ''proxy'' \<and> rc_lookups ctx = 1 | _ \<Rightarrow> False"
    by code_simp
  with r show ?thesis by (auto split: option.splits sum.splits)
qed

section \<open>Well-formed routers\<close>

text \<open>No balancer is missing: the map and the rules only index balancers that exist, and every rule has a condition.\<close>

definition router_ok :: "'s Router \<Rightarrow> bool" where
  "router_ok r \<longleftrightarrow> (\<forall>tag i. rt_balancers r tag = Some i \<longrightarrow> i < length (rt_heap r)) \<and>
     (\<forall>rule \<in> set (rt_rules r). ru_Condition rule \<noteq> [] \<and> (\<forall>i. ru_Balancer rule = Some i \<longrightarrow> i < length (rt_heap r)))"

definition tags_ok :: "'s Router \<Rightarrow> bool" where
  "tags_ok r \<longleftrightarrow> distinct (filter (\<lambda>t. t \<noteq> []) (map ru_RuleTag (rt_rules r)))"

text \<open>A rule has a balancer exactly if its configuration names one, and then the one registered under that name.\<close>

definition balanced :: "'s Router \<Rightarrow> RoutingRule \<Rightarrow> 's Rule \<Rightarrow> bool" where
  "balanced r conf rule \<longleftrightarrow>
     (if GetBalancingTag (rr_TargetTag conf) = [] then ru_Balancer rule = None
      else ru_Balancer rule \<noteq> None \<and> ru_Balancer rule = rt_balancers r (GetBalancingTag (rr_TargetTag conf)))"

lemma balanced_cong: "rt_balancers r' = rt_balancers r \<Longrightarrow> balanced r' = balanced r"
  by (simp add: balanced_def fun_eq_iff)

lemma router_okD:
  "router_ok r \<Longrightarrow> rt_balancers r tag = Some i \<Longrightarrow> i < length (rt_heap r)"
  "router_ok r \<Longrightarrow> rule \<in> set (rt_rules r) \<Longrightarrow> ru_Balancer rule = Some i \<Longrightarrow> i < length (rt_heap r)"
  by (auto simp: router_ok_def)

lemma build_bind_Inr:
  "build_bind m k f = Some (f', Inr b) \<longleftrightarrow> (\<exists>f1 a. m f = Some (f1, Inr a) \<and> k a f1 = Some (f', Inr b))"
  by (auto simp: build_bind_def split: option.splits sum.splits)

lemma BuildCondition_nonempty: "BuildCondition B rr f = Some (f', Inr conds) \<Longrightarrow> conds \<noteq> []"
  by (auto simp: BuildCondition_def build_bind_Inr Let_def bind_eq_Some_conv split: if_splits)

lemma add_balancer_ok:
  assumes "add_balancer B r br = (r', e)" "router_ok r"
  shows "router_ok r' \<and> rt_rules r' = rt_rules r \<and> rt_domainStrategy r' = rt_domainStrategy r \<and> (\<exists>hs. rt_heap r' = rt_heap r @ hs)"
  using assms by (auto simp: add_balancer_def router_ok_def split: sum.splits if_splits) (fastforce simp: less_Suc_eq)+

text \<open>A rule is added at the end, or not at all.\<close>

lemma add_rule_cases:
  assumes "add_rule B r rule = Some (r', e)"
  shows "rt_balancers r' = rt_balancers r \<and> rt_heap r' = rt_heap r \<and>
    (if e = None
     then \<exists>rr. rt_rules r' = rt_rules r @ [rr] \<and> ru_RuleTag rr = rr_RuleTag rule \<and> ru_Condition rr \<noteq> [] \<and>
            ru_Tag rr = GetTag (rr_TargetTag rule) \<and> balanced r rule rr
     else rt_rules r' = rt_rules r)"
proof -
  from assms obtain shared res where b: "BuildCondition B rule (rt_shared r) = Some (shared, res)"
    by (auto simp: add_rule_def bind_eq_Some_conv)
  show ?thesis
  proof (cases res)
    case (Inr conds)
    with b assms BuildCondition_nonempty [of B rule "rt_shared r" shared conds] show ?thesis
      by (auto simp: add_rule_def Let_def balanced_def split: if_splits option.splits)
  qed (use assms b in \<open>auto simp: add_rule_def Let_def\<close>)
qed

lemma add_rule_ok: "add_rule B r rule = Some (r', e) \<Longrightarrow> router_ok r \<Longrightarrow> router_ok r'"
  using add_rule_cases [of B r rule r' e] by (fastforce simp: router_ok_def balanced_def split: if_splits)

lemma init_balancers_ok:
  "init_balancers B r brs = (r', e) \<Longrightarrow> router_ok r \<Longrightarrow> router_ok r' \<and> rt_rules r' = rt_rules r"
  by (induction B r brs rule: init_balancers.induct) (auto split: prod.splits option.splits dest!: add_balancer_ok)

lemma reload_balancers_ok:
  "reload_balancers B r brs = (r', e) \<Longrightarrow> router_ok r \<Longrightarrow> router_ok r' \<and> rt_rules r' = rt_rules r"
  by (induction B r brs rule: reload_balancers.induct) (auto split: prod.splits option.splits if_splits dest!: add_balancer_ok)

lemma init_rules_ok: "init_rules B r rs = Some (r', e) \<Longrightarrow> router_ok r \<Longrightarrow> router_ok r'"
  by (induction rs arbitrary: r) (auto simp: bind_eq_Some_conv split: option.splits dest: add_rule_ok)

lemma reload_rules_ok:
  "reload_rules B r rs = Some (r', e) \<Longrightarrow> router_ok r \<Longrightarrow> router_ok r' \<and> (tags_ok r \<longrightarrow> tags_ok r')"
proof (induction rs arbitrary: r)
  case (Cons rule rs)
  show ?case
  proof (cases "RuleExists r (rr_RuleTag rule)")
    case False
    with Cons.prems(1) obtain r1 e1 where a: "add_rule B r rule = Some (r1, e1)"
      and rest: "(case e1 of Some e' \<Rightarrow> Some (r1, Some e') | None \<Rightarrow> reload_rules B r1 rs) = Some (r', e)"
      by (auto simp: bind_eq_Some_conv)
    have "tags_ok r1" if "tags_ok r"
      using that add_rule_cases [OF a] False by (auto simp: tags_ok_def RuleExists_def list_ex_iff split: if_splits) blast
    with add_rule_ok [OF a Cons.prems(2)] rest Cons.IH [of r1] show ?thesis by (auto split: option.splits)
  qed (use Cons.prems in simp)
qed simp

lemma Init_ok: "Init B r c = Some (r', e) \<Longrightarrow> router_ok r \<Longrightarrow> router_ok r'"
proof -
  assume i: "Init B r c = Some (r', e)" and ok: "router_ok r"
  let ?r0 = "r\<lparr>rt_domainStrategy := cf_DomainStrategy c, rt_balancers := Map.empty\<rparr>"
  obtain r1 e1 where b: "init_balancers B ?r0 (cf_BalancingRule c) = (r1, e1)" by (cases "init_balancers B ?r0 (cf_BalancingRule c)")
  have "router_ok ?r0" using ok by (simp add: router_ok_def)
  from init_balancers_ok [OF b this] have "router_ok r1" by simp
  then show "router_ok r'"
    using i b init_rules_ok [of B "r1\<lparr>rt_rules := []\<rparr>" "cf_Rule c" r' e]
    by (auto simp: Init_def router_ok_def split: option.splits)
qed

lemma reload_start:
  "router_ok r \<Longrightarrow> router_ok (if \<not> app then r\<lparr>rt_balancers := Map.empty, rt_rules := []\<rparr> else r)"
  "tags_ok r \<Longrightarrow> tags_ok (if \<not> app then r\<lparr>rt_balancers := Map.empty, rt_rules := []\<rparr> else r)"
  by (auto simp: router_ok_def tags_ok_def)

lemma ReloadRules_ok:
  assumes "ReloadRules B r c app = Some (r', e)" "router_ok r"
  shows "router_ok r' \<and> (tags_ok r \<longrightarrow> tags_ok r')"
proof -
  let ?r0 = "if \<not> app then r\<lparr>rt_balancers := Map.empty, rt_rules := []\<rparr> else r"
  obtain r1 e1 where b: "reload_balancers B ?r0 (cf_BalancingRule c) = (r1, e1)" by (cases "reload_balancers B ?r0 (cf_BalancingRule c)")
  from reload_balancers_ok [OF b reload_start(1) [OF assms(2)]] have "router_ok r1" "tags_ok r \<longrightarrow> tags_ok r1"
    using reload_start(2) [of r app] by (simp_all add: tags_ok_def)
  with assms(1) b reload_rules_ok [of B r1 "cf_Rule c" r' e] show ?thesis
    by (auto simp: ReloadRules_def Let_def split: option.splits)
qed

lemma same_length_ok:
  assumes "router_ok r" "rt_rules r' = rt_rules r" "rt_balancers r' = rt_balancers r" "length (rt_heap r') = length (rt_heap r)"
  shows "router_ok r'"
  using assms by (simp add: router_ok_def)

lemma Rule_GetTag_keeps:
  "Rule_GetTag visit P r rule = Some (r', res) \<Longrightarrow>
   rt_rules r' = rt_rules r \<and> rt_balancers r' = rt_balancers r \<and> length (rt_heap r') = length (rt_heap r)"
  by (auto simp: Rule_GetTag_def bind_eq_Some_conv split: option.splits if_splits)

lemma PickRoute_keeps:
  "PickRoute E visit P r ctx = Some (r', res) \<Longrightarrow>
   rt_rules r' = rt_rules r \<and> rt_balancers r' = rt_balancers r \<and> length (rt_heap r') = length (rt_heap r)"
proof -
  assume p: "PickRoute E visit P r ctx = Some (r', res)"
  then obtain ctx' res1 where i: "pickRouteInternal E r ctx = Some (ctx', res1)" by (auto simp: PickRoute_def bind_eq_Some_conv)
  show ?thesis
  proof (cases res1)
    case (Inr rule)
    with p i show ?thesis by (auto simp: PickRoute_def bind_eq_Some_conv dest: Rule_GetTag_keeps)
  qed (use p i in \<open>simp add: PickRoute_def\<close>)
qed

lemma GetPrincipleTarget_keeps:
  "Router_GetPrincipleTarget visit P r tag = Some (r', res) \<Longrightarrow>
   rt_rules r' = rt_rules r \<and> rt_balancers r' = rt_balancers r \<and> length (rt_heap r') = length (rt_heap r)"
  by (auto simp: Router_GetPrincipleTarget_def bind_eq_Some_conv split: option.splits prod.splits sum.splits)

text \<open>Histories of a router: operations of its interface in any order, failed ones included.\<close>

datatype router_op =
    RInit Config
  | RAdd "goerr + Config option" bool
  | RRemove gostring
  | RSetOverride gostring gostring
  | ROverride gostring gostring
  | RPick SessionContext
  | RPrinciple gostring

definition router_step where
  "router_step B E visit P r op =
     (case op of
        RInit c \<Rightarrow> map_option fst (Init B r c)
      | RAdd inst app \<Rightarrow> map_option fst (AddRule B r inst app)
      | RRemove tag \<Rightarrow> Some (fst (RemoveRule r tag))
      | RSetOverride tag target \<Rightarrow> Some (fst (SetOverrideTarget r tag target))
      | ROverride tag target \<Rightarrow> Some (fst (OverrideBalancer r tag target))
      | RPick s \<Rightarrow> map_option fst (PickRoute E visit P r (plain_context s))
      | RPrinciple tag \<Rightarrow> map_option fst (Router_GetPrincipleTarget visit P r tag))"

fun router_run where
  "router_run B E visit P r [] = Some r"
| "router_run B E visit P r (op # ops) = do { r' \<leftarrow> router_step B E visit P r op; router_run B E visit P r' ops }"

lemma tags_ok_filter: "tags_ok r \<Longrightarrow> tags_ok (r\<lparr>rt_rules := filter (\<lambda>rule. ru_RuleTag rule \<noteq> tag) (rt_rules r)\<rparr>)"
proof -
  assume t: "tags_ok r"
  let ?ts = "map ru_RuleTag (rt_rules r)"
  have m: "map ru_RuleTag (filter (\<lambda>rule. ru_RuleTag rule \<noteq> tag) (rt_rules r)) = filter (\<lambda>t. t \<noteq> tag) ?ts"
    by (simp add: filter_map o_def)
  have "filter (\<lambda>t. t \<noteq> []) (filter (\<lambda>t. t \<noteq> tag) ?ts) = filter (\<lambda>t. t \<noteq> tag) (filter (\<lambda>t. t \<noteq> []) ?ts)" by (simp add: conj_commute)
  moreover have "distinct (filter (\<lambda>t. t \<noteq> tag) (filter (\<lambda>t. t \<noteq> []) ?ts))" using t unfolding tags_ok_def by (rule distinct_filter)
  ultimately show ?thesis by (simp add: tags_ok_def m)
qed

lemma router_step_ok:
  assumes "router_step B E visit P r op = Some r'" "router_ok r"
  shows "router_ok r' \<and> (tags_ok r \<and> (\<forall>c. op \<noteq> RInit c) \<longrightarrow> tags_ok r')"
proof (cases op)
  case (RInit c)
  with assms Init_ok show ?thesis by (auto simp: router_step_def)
next
  case (RAdd inst app)
  with assms show ?thesis by (auto simp: router_step_def AddRule_def split: sum.splits option.splits dest: ReloadRules_ok)
next
  case (RRemove tag)
  with assms show ?thesis by (auto simp: router_step_def RemoveRule_def router_ok_def tags_ok_filter split: if_splits)
next
  case (RSetOverride tag target)
  with assms show ?thesis by (auto simp: router_step_def SetOverrideTarget_def tags_ok_def split: option.splits intro: same_length_ok)
next
  case (ROverride tag target)
  with assms show ?thesis by (auto simp: router_step_def OverrideBalancer_def tags_ok_def split: option.splits intro: same_length_ok)
next
  case (RPick s)
  with assms show ?thesis by (auto simp: router_step_def tags_ok_def intro: same_length_ok dest: PickRoute_keeps)
next
  case (RPrinciple tag)
  with assms show ?thesis by (auto simp: router_step_def tags_ok_def intro: same_length_ok dest: GetPrincipleTarget_keeps)
qed

lemma router_run_ok:
  "router_run B E visit P r ops = Some r' \<Longrightarrow> router_ok r \<Longrightarrow>
   router_ok r' \<and> (tags_ok r \<and> (\<forall>c. RInit c \<notin> set ops) \<longrightarrow> tags_ok r')"
proof (induction ops arbitrary: r)
  case (Cons op ops)
  then obtain r1 where "router_step B E visit P r op = Some r1" "router_run B E visit P r1 ops = Some r'"
    by (auto simp: bind_eq_Some_conv)
  with router_step_ok [of B E visit P r op r1] Cons.IH [of r1] Cons.prems(2) show ?case by auto
qed simp

text \<open>The configurations that a history brings in, and that the balancers and rules of a router come from these.\<close>

fun op_config :: "router_op \<Rightarrow> Config option" where
  "op_config (RInit c) = Some c"
| "op_config (RAdd (Inr (Some c)) app) = Some c"
| "op_config _ = None"

definition op_rules :: "router_op \<Rightarrow> RoutingRule list" where
  "op_rules op = (case op_config op of None \<Rightarrow> [] | Some c \<Rightarrow> cf_Rule c)"

definition op_balancings :: "router_op \<Rightarrow> BalancingRule list" where
  "op_balancings op = (case op_config op of None \<Rightarrow> [] | Some c \<Rightarrow> cf_BalancingRule c)"

definition built_from :: "BalancingRule \<Rightarrow> Balancer \<Rightarrow> bool" where
  "built_from br b \<longleftrightarrow> ba_selectors b = br_OutboundSelector br \<and> ba_fallbackTag b = br_FallbackTag br"

definition balancers_from :: "BalancingRule list \<Rightarrow> 's Router \<Rightarrow> bool" where
  "balancers_from brs r \<longleftrightarrow> (\<forall>tag i. rt_balancers r tag = Some i \<longrightarrow>
     i < length (rt_heap r) \<and> (\<exists>br \<in> set brs. br_Tag br = tag \<and> built_from br (rt_heap r ! i)))"

definition rules_from :: "RoutingRule list \<Rightarrow> 's Router \<Rightarrow> bool" where
  "rules_from rrs r \<longleftrightarrow> (\<forall>rule \<in> set (rt_rules r). \<exists>conf \<in> set rrs.
     ru_Tag rule = GetTag (rr_TargetTag conf) \<and> ru_RuleTag rule = rr_RuleTag conf \<and> balanced r conf rule)"

lemma add_balancer_from:
  assumes "add_balancer B r br = (r', e)" "balancers_from brs r" "br \<in> set brs"
  shows "balancers_from brs r'"
proof (cases "BalancingRule_Build (be_lower B) br")
  case (Inr b)
  have "built_from br (Balancer_InjectContext b)"
    using Inr by (auto simp: BalancingRule_Build_def Let_def built_from_def Balancer_InjectContext_def split: if_splits sum.splits option.splits)
  moreover have r': "rt_heap r' = rt_heap r @ [Balancer_InjectContext b]" "rt_balancers r' = (rt_balancers r)(br_Tag br \<mapsto> length (rt_heap r))"
    using assms(1) Inr by (auto simp: add_balancer_def)
  ultimately show ?thesis
    using assms(2,3) unfolding balancers_from_def r' by (auto simp: nth_append less_Suc_eq)
qed (use assms in \<open>simp add: add_balancer_def\<close>)

lemma add_balancer_rules:
  "add_balancer B r br = (r', e) \<Longrightarrow> rt_balancers r (br_Tag br) = None \<Longrightarrow> rules_from rrs r \<Longrightarrow> rules_from rrs r'"
  by (fastforce simp: add_balancer_def rules_from_def balanced_def split: sum.splits if_splits)

lemma add_balancer_no_rules: "add_balancer B r br = (r', e) \<Longrightarrow> rt_rules r' = rt_rules r"
  by (auto simp: add_balancer_def split: sum.splits)

lemma init_balancers_from:
  "init_balancers B r brs' = (r', e) \<Longrightarrow> balancers_from brs r \<Longrightarrow> set brs' \<subseteq> set brs \<Longrightarrow> balancers_from brs r' \<and> rt_rules r' = rt_rules r"
proof (induction brs' arbitrary: r)
  case (Cons br brs')
  obtain r1 e1 where a: "add_balancer B r br = (r1, e1)" by fastforce
  from add_balancer_from [OF a Cons.prems(2)] add_balancer_no_rules [OF a] Cons.IH [of r1] Cons.prems a
  show ?case by (auto split: option.splits)
qed simp

lemma reload_balancers_from:
  "reload_balancers B r brs' = (r', e) \<Longrightarrow> balancers_from brs r \<Longrightarrow> rules_from rrs r \<Longrightarrow> set brs' \<subseteq> set brs \<Longrightarrow>
   balancers_from brs r' \<and> rules_from rrs r'"
proof (induction brs' arbitrary: r)
  case (Cons br brs')
  show ?case
  proof (cases "rt_balancers r (br_Tag br) = None")
    case True
    obtain r1 e1 where a: "add_balancer B r br = (r1, e1)" by fastforce
    from add_balancer_from [OF a Cons.prems(2)] add_balancer_rules [OF a True Cons.prems(3)] Cons.IH [of r1] Cons.prems True a
    show ?thesis by (auto split: option.splits)
  qed (use Cons.prems in auto)
qed simp

lemma add_rule_from:
  assumes "add_rule B r conf = Some (r', e)" "balancers_from brs r" "rules_from rrs r" "conf \<in> set rrs"
  shows "balancers_from brs r' \<and> rules_from rrs r'"
proof -
  note c = add_rule_cases [OF assms(1)]
  then have "balancers_from brs r'" using assms(2) by (simp add: balancers_from_def)
  moreover have b: "balanced r' = balanced r" using c by (intro balanced_cong) blast
  have "rules_from rrs r'"
  proof (cases e)
    case None
    with c obtain rr where "rt_rules r' = rt_rules r @ [rr]" "ru_RuleTag rr = rr_RuleTag conf"
      "ru_Tag rr = GetTag (rr_TargetTag conf)" "balanced r conf rr" by auto
    with assms(3,4) show ?thesis by (auto simp: rules_from_def b)
  next
    case (Some x)
    with c assms(3) show ?thesis by (simp add: rules_from_def b)
  qed
  ultimately show ?thesis by blast
qed

lemma init_rules_from:
  "init_rules B r rrs' = Some (r', e) \<Longrightarrow> balancers_from brs r \<Longrightarrow> rules_from rrs r \<Longrightarrow> set rrs' \<subseteq> set rrs \<Longrightarrow>
   balancers_from brs r' \<and> rules_from rrs r'"
proof (induction rrs' arbitrary: r)
  case (Cons conf rrs')
  then obtain r1 e1 where a: "add_rule B r conf = Some (r1, e1)" by (auto simp: bind_eq_Some_conv)
  from add_rule_from [OF a Cons.prems(2,3)] Cons.IH [of r1] Cons.prems a show ?case by (auto split: option.splits)
qed simp

lemma reload_rules_from:
  "reload_rules B r rrs' = Some (r', e) \<Longrightarrow> balancers_from brs r \<Longrightarrow> rules_from rrs r \<Longrightarrow> set rrs' \<subseteq> set rrs \<Longrightarrow>
   balancers_from brs r' \<and> rules_from rrs r'"
proof (induction rrs' arbitrary: r)
  case (Cons conf rrs')
  show ?case
  proof (cases "RuleExists r (rr_RuleTag conf)")
    case False
    then obtain r1 e1 where a: "add_rule B r conf = Some (r1, e1)" using Cons.prems(1) by (auto simp: bind_eq_Some_conv)
    from add_rule_from [OF a Cons.prems(2,3)] Cons.IH [of r1] Cons.prems a False show ?thesis by (auto split: option.splits)
  qed (use Cons.prems in auto)
qed simp

lemma ReloadRules_from:
  assumes "ReloadRules B r c app = Some (r', e)" "balancers_from brs r" "rules_from rrs r"
    and "set (cf_BalancingRule c) \<subseteq> set brs" "set (cf_Rule c) \<subseteq> set rrs"
  shows "balancers_from brs r' \<and> rules_from rrs r'"
proof -
  let ?r0 = "if \<not> app then r\<lparr>rt_balancers := Map.empty, rt_rules := []\<rparr> else r"
  obtain r1 e1 where b: "reload_balancers B ?r0 (cf_BalancingRule c) = (r1, e1)" by (cases "reload_balancers B ?r0 (cf_BalancingRule c)")
  have "balancers_from brs ?r0" "rules_from rrs ?r0" using assms(2,3) by (simp_all add: balancers_from_def rules_from_def)
  from reload_balancers_from [OF b this assms(4)] reload_rules_from [of B r1 "cf_Rule c" r' e brs rrs] assms(1,5) b
  show ?thesis by (auto simp: ReloadRules_def Let_def split: option.splits)
qed

lemma Init_from:
  assumes "Init B r c = Some (r', e)" "rt_rules r = []"
    and "set (cf_BalancingRule c) \<subseteq> set brs" "set (cf_Rule c) \<subseteq> set rrs"
  shows "balancers_from brs r' \<and> rules_from rrs r'"
proof -
  let ?r0 = "r\<lparr>rt_domainStrategy := cf_DomainStrategy c, rt_balancers := Map.empty\<rparr>"
  obtain r1 e1 where b: "init_balancers B ?r0 (cf_BalancingRule c) = (r1, e1)" by (cases "init_balancers B ?r0 (cf_BalancingRule c)")
  from init_balancers_from [OF b _ assms(3)] assms(2) have "balancers_from brs r1" "rt_rules r1 = []"
    by (simp_all add: balancers_from_def)
  then have r1: "balancers_from brs (r1\<lparr>rt_rules := []\<rparr>)" "rules_from rrs (r1\<lparr>rt_rules := []\<rparr>)" "rules_from rrs r1"
    by (simp_all add: balancers_from_def rules_from_def)
  with init_rules_from [of B "r1\<lparr>rt_rules := []\<rparr>" "cf_Rule c" r' e brs rrs] assms(1,4) b \<open>balancers_from brs r1\<close>
  show ?thesis by (auto simp: Init_def split: option.splits)
qed

text \<open>Steps that leave rules, registered balancers and the configuration of every balancer as they are.\<close>

definition heap_view :: "'s Router \<Rightarrow> (gostring list \<times> gostring) list" where
  "heap_view r = map (\<lambda>b. (ba_selectors b, ba_fallbackTag b)) (rt_heap r)"

lemma heap_view_from:
  assumes "balancers_from brs r \<and> rules_from rrs r"
    and "rt_rules r' = rt_rules r" "rt_balancers r' = rt_balancers r" "heap_view r' = heap_view r"
  shows "balancers_from brs r' \<and> rules_from rrs r'"
proof -
  have len: "length (rt_heap r') = length (rt_heap r)" using arg_cong [OF assms(4), of length] by (simp add: heap_view_def)
  have "built_from br (rt_heap r' ! i) = built_from br (rt_heap r ! i)" if "i < length (rt_heap r)" for br i
  proof -
    have "heap_view r' ! i = heap_view r ! i" by (simp add: assms(4))
    then show ?thesis using that len by (simp add: heap_view_def built_from_def)
  qed
  then have "balancers_from brs r'"
    using assms(1) unfolding balancers_from_def assms(3) len by (simp cong: conj_cong)
  moreover have "balanced r' = balanced r" by (rule balanced_cong [OF assms(3)])
  then have "rules_from rrs r'" using assms(1,2) by (simp add: rules_from_def)
  ultimately show ?thesis ..
qed

lemma heap_view_update:
  "ba_selectors b = ba_selectors (rt_heap r ! i) \<Longrightarrow> ba_fallbackTag b = ba_fallbackTag (rt_heap r ! i) \<Longrightarrow>
   heap_view (r\<lparr>rt_heap := (rt_heap r)[i := b]\<rparr>) = heap_view r"
  by (cases "i < length (rt_heap r)") (simp_all add: heap_view_def map_update list_update_same_conv list_update_beyond)

lemma heap_view_ohm [simp]: "heap_view (r\<lparr>rt_ohm := ohm\<rparr>) = heap_view r"
  by (simp add: heap_view_def)

lemma heap_view_ohm_heap [simp]: "heap_view (r\<lparr>rt_ohm := ohm, rt_heap := h\<rparr>) = heap_view (r\<lparr>rt_heap := h\<rparr>)"
  by (simp add: heap_view_def)

lemma PickOutbound_configured:
  "Balancer_PickOutbound visit P ohm b = Some (ohm', b', res) \<Longrightarrow> ba_selectors b' = ba_selectors b \<and> ba_fallbackTag b' = ba_fallbackTag b"
  by (auto simp: Balancer_PickOutbound_def Let_def bind_eq_Some_conv split: prod.splits sum.splits if_splits)

lemma Rule_GetTag_view: "Rule_GetTag visit P r rule = Some (r', res) \<Longrightarrow> heap_view r' = heap_view r"
  by (auto simp: Rule_GetTag_def bind_eq_Some_conv heap_view_update split: option.splits if_splits dest!: PickOutbound_configured)

lemma PickRoute_view: "PickRoute E visit P r ctx = Some (r', res) \<Longrightarrow> heap_view r' = heap_view r"
proof -
  assume p: "PickRoute E visit P r ctx = Some (r', res)"
  then obtain ctx' res1 where i: "pickRouteInternal E r ctx = Some (ctx', res1)" by (auto simp: PickRoute_def bind_eq_Some_conv)
  show ?thesis
  proof (cases res1)
    case (Inr rule)
    with p i show ?thesis by (auto simp: PickRoute_def bind_eq_Some_conv dest: Rule_GetTag_view)
  qed (use p i in \<open>simp add: PickRoute_def\<close>)
qed

lemma GetPrincipleTarget_view: "Router_GetPrincipleTarget visit P r tag = Some (r', res) \<Longrightarrow> heap_view r' = heap_view r"
  by (auto simp: Router_GetPrincipleTarget_def bind_eq_Some_conv heap_view_update split: option.splits prod.splits sum.splits)

lemma router_step_from:
  assumes "router_step B E visit P r op = Some r'" "balancers_from brs r \<and> rules_from rrs r"
    and "\<forall>c. op = RInit c \<longrightarrow> rt_rules r = []" "set (op_balancings op) \<subseteq> set brs" "set (op_rules op) \<subseteq> set rrs"
  shows "balancers_from brs r' \<and> rules_from rrs r'"
proof (cases op)
  case (RInit c)
  with assms show ?thesis by (auto simp: router_step_def op_balancings_def op_rules_def dest: Init_from)
next
  case (RAdd inst app)
  with assms show ?thesis
    by (auto simp: router_step_def AddRule_def op_balancings_def op_rules_def split: sum.splits option.splits dest: ReloadRules_from)
next
  case (RRemove tag)
  with assms show ?thesis
    by (auto simp: router_step_def RemoveRule_def balancers_from_def rules_from_def
        balanced_cong [of "r\<lparr>rt_rules := filter (\<lambda>rule. ru_RuleTag rule \<noteq> tag) (rt_rules r)\<rparr>" r] split: if_splits)
next
  case (RSetOverride tag target)
  with assms(1) have "r' = r \<or> (\<exists>i. r' = r\<lparr>rt_heap := (rt_heap r)[i := override_Put (rt_heap r ! i) target]\<rparr>)"
    by (auto simp: router_step_def SetOverrideTarget_def split: option.splits)
  then show ?thesis using assms(2) heap_view_from [OF assms(2), of r'] by (auto simp: heap_view_update override_Put_def)
next
  case (ROverride tag target)
  with assms(1) have "r' = r \<or> (\<exists>i. r' = r\<lparr>rt_heap := (rt_heap r)[i := override_Put (rt_heap r ! i) target]\<rparr>)"
    by (auto simp: router_step_def OverrideBalancer_def split: option.splits)
  then show ?thesis using assms(2) heap_view_from [OF assms(2), of r'] by (auto simp: heap_view_update override_Put_def)
next
  case (RPick s)
  with assms(1) show ?thesis
    using heap_view_from [OF assms(2), of r'] by (auto simp: router_step_def dest: PickRoute_keeps PickRoute_view)
next
  case (RPrinciple tag)
  with assms(1) show ?thesis
    using heap_view_from [OF assms(2), of r'] by (auto simp: router_step_def dest: GetPrincipleTarget_keeps GetPrincipleTarget_view)
qed

lemma router_run_from:
  "router_run B E visit P r ops = Some r' \<Longrightarrow> balancers_from brs r \<and> rules_from rrs r \<Longrightarrow> rt_rules r = [] \<or> (\<forall>c. RInit c \<notin> set ops) \<Longrightarrow>
   \<forall>c. RInit c \<notin> set (tl ops) \<Longrightarrow> set (concat (map op_balancings ops)) \<subseteq> set brs \<Longrightarrow> set (concat (map op_rules ops)) \<subseteq> set rrs \<Longrightarrow>
   balancers_from brs r' \<and> rules_from rrs r'"
proof (induction ops arbitrary: r)
  case (Cons op ops)
  then obtain r1 where r1: "router_step B E visit P r op = Some r1" "router_run B E visit P r1 ops = Some r'"
    by (auto simp: bind_eq_Some_conv)
  have "balancers_from brs r1 \<and> rules_from rrs r1"
    by (rule router_step_from [OF r1(1) Cons.prems(2)]) (use Cons.prems in auto)
  moreover have "\<forall>c. RInit c \<notin> set ops" using Cons.prems(4) by simp
  moreover have "\<forall>c. RInit c \<notin> set (tl ops)" using Cons.prems(4) by (cases ops) auto
  ultimately show ?case using Cons.IH [OF r1(2)] Cons.prems(5,6) by auto
qed simp

text \<open>
  C34: a router stays well-formed. After any sequence of its operations, failed ones included, with \<^verbatim>\<open>Init\<close> only as the first, every
  rule has a condition and comes from a rule of a configuration: it has that rule's tags, and a balancer exactly if that rule names
  one, namely the balancer registered in the router under that name (a rule that names a missing balancer is never added). The
  balancer registered under a name was built from a balancing rule of that name, whose selectors and fallback it has. Rule tags are
  unique as long as all rules came in through \<^verbatim>\<open>AddRule\<close>; \<^verbatim>\<open>Init\<close> does not look for duplicates.
\<close>

theorem router_well_formed:
  assumes "router_run B E visit P (new_router ohm shared) ops = Some r" "\<forall>c. RInit c \<notin> set (tl ops)"
  shows "(\<forall>rule \<in> set (rt_rules r). ru_Condition rule \<noteq> [] \<and>
      (\<exists>conf \<in> set (concat (map op_rules ops)).
         ru_Tag rule = GetTag (rr_TargetTag conf) \<and> ru_RuleTag rule = rr_RuleTag conf \<and>
         (if GetBalancingTag (rr_TargetTag conf) = [] then ru_Balancer rule = None
          else ru_Balancer rule \<noteq> None \<and> ru_Balancer rule = rt_balancers r (GetBalancingTag (rr_TargetTag conf))))) \<and>
    (\<forall>tag i. rt_balancers r tag = Some i \<longrightarrow> i < length (rt_heap r) \<and>
      (\<exists>br \<in> set (concat (map op_balancings ops)). br_Tag br = tag \<and>
         ba_selectors (rt_heap r ! i) = br_OutboundSelector br \<and> ba_fallbackTag (rt_heap r ! i) = br_FallbackTag br)) \<and>
    ((\<forall>c. RInit c \<notin> set ops) \<longrightarrow> distinct (filter (\<lambda>t. t \<noteq> []) (map ru_RuleTag (rt_rules r))))"
proof -
  let ?r = "new_router ohm shared" and ?brs = "concat (map op_balancings ops)" and ?rrs = "concat (map op_rules ops)"
  have "router_ok ?r" "tags_ok ?r" by (simp_all add: router_ok_def tags_ok_def new_router_def)
  with router_run_ok [OF assms(1)] have ok: "router_ok r" "(\<forall>c. RInit c \<notin> set ops) \<longrightarrow> tags_ok r" by simp_all
  have "balancers_from ?brs ?r \<and> rules_from ?rrs ?r" "rt_rules ?r = []" by (simp_all add: balancers_from_def rules_from_def new_router_def)
  from router_run_from [OF assms(1) this(1) _ assms(2)] this(2) have "balancers_from ?brs r" "rules_from ?rrs r" by auto
  with ok show ?thesis unfolding router_ok_def tags_ok_def balancers_from_def rules_from_def balanced_def built_from_def by blast
qed

definition demo_balancing :: BalancingRule where
  "demo_balancing = \<lparr>br_Tag = gostr ''b'', br_OutboundSelector = [gostr ''px''], br_Strategy = gostr ''roundrobin'',
     br_Settings = Inr None, br_FallbackTag = []\<rparr>"

definition demo_rule :: RoutingRule where
  "demo_rule = \<lparr>rr_TargetTag = RoutingRule_BalancingTag (gostr ''b''), rr_RuleTag = gostr ''r'', rr_InboundTag = [], rr_Networks = [Network_TCP],
     rr_Protocol = [], rr_PortList = None, rr_SourcePortList = None, rr_LocalPortList = None, rr_VlessRouteList = None, rr_UserEmail = [],
     rr_Attributes = [], rr_Geoip = [], rr_SourceGeoip = [], rr_LocalGeoip = [], rr_Domain = [], rr_ProcessName = []\<rparr>"

definition demo_config :: Config where
  "demo_config = \<lparr>cf_DomainStrategy = Config_AsIs, cf_Rule = [demo_rule, demo_rule], cf_BalancingRule = [demo_balancing]\<rparr>"

definition demo_run :: "Prefix list Router option" where
  "demo_run = router_run demo_env demo_routes id sample_report (new_router (Some sample_manager) Map.empty)
     [RAdd (Inr (Some demo_config)) False, RPick demo_session]"

theorem router_well_formed_witness:
  "case demo_run of
     Some r \<Rightarrow> map ru_Balancer (rt_rules r) = [Some 0] \<and> rt_balancers r (gostr ''b'') = Some 0 \<and>
       ba_selectors (rt_heap r ! 0) = [gostr ''px''] \<and> distinct (filter (\<lambda>t. t \<noteq> []) (map ru_RuleTag (rt_rules r)))
   | None \<Rightarrow> False"
proof -
  have e: "case demo_run of Some r \<Rightarrow> map ru_Balancer (rt_rules r) = [Some 0] | None \<Rightarrow> False" by code_simp
  then obtain r where r: "demo_run = Some r" by (cases demo_run) auto
  have "map ru_Balancer (rt_rules r) = [Some 0]" using e unfolding r option.case .
  then obtain rule where rule: "rt_rules r = [rule]" "ru_Balancer rule = Some 0" by (auto simp: map_eq_Cons_conv)
  have wf: "rt_balancers r (gostr ''b'') = Some 0 \<and> ba_selectors (rt_heap r ! 0) = [gostr ''px''] \<and>
      distinct (filter (\<lambda>t. t \<noteq> []) (map ru_RuleTag (rt_rules r)))"
    using router_well_formed [OF r [unfolded demo_run_def]] rule
    by (auto simp: op_rules_def op_balancings_def demo_config_def demo_rule_def demo_balancing_def split: if_splits)
  with rule show ?thesis unfolding r option.case by simp
qed

section \<open>Reloading\<close>

lemma reload_rules_appends:
  "reload_rules B r rs = Some (r', e) \<Longrightarrow>
   \<exists>new. rt_rules r' = rt_rules r @ new \<and> map ru_RuleTag new = map rr_RuleTag (take (length new) rs) \<and>
     (e = None \<longleftrightarrow> length new = length rs) \<and> length new \<le> length rs"
proof (induction rs arbitrary: r)
  case (Cons rule rs)
  show ?case
  proof (cases "RuleExists r (rr_RuleTag rule)")
    case False
    with Cons.prems(1) obtain r1 e1 where a: "add_rule B r rule = Some (r1, e1)"
      and rest: "(case e1 of Some e' \<Rightarrow> Some (r1, Some e') | None \<Rightarrow> reload_rules B r1 rs) = Some (r', e)"
      by (auto simp: bind_eq_Some_conv)
    show ?thesis
    proof (cases e1)
      case None
      with add_rule_cases [OF a] obtain rr where rr: "rt_rules r1 = rt_rules r @ [rr]" "ru_RuleTag rr = rr_RuleTag rule" by auto
      from Cons.IH [of r1] rest None obtain new where "rt_rules r' = rt_rules r1 @ new"
        "map ru_RuleTag new = map rr_RuleTag (take (length new) rs)" "(e = None) = (length new = length rs)" "length new \<le> length rs" by auto
      with rr show ?thesis by (intro exI [of _ "rr # new"]) simp
    qed (use rest add_rule_cases [OF a] in auto)
  qed (use Cons.prems in auto)
qed simp

text \<open>
  What reloading leaves behind. The rules of the configuration are added in order, up to the first that cannot be
  built, names a missing balancer or has a tag in use; all of them if and only if no error is answered. When rules are replaced
  rather than appended, the old ones are gone even if the new configuration is refused.
\<close>

theorem rules_reloaded:
  assumes "ReloadRules B r c app = Some (r', e)" "router_ok r"
  shows "\<exists>new. rt_rules r' = (if app then rt_rules r else []) @ new \<and>
    map ru_RuleTag new = map rr_RuleTag (take (length new) (cf_Rule c)) \<and> (e = None \<longrightarrow> length new = length (cf_Rule c)) \<and>
    (e \<noteq> None \<longrightarrow> length new < length (cf_Rule c) \<or> new = [])"
proof -
  let ?r0 = "if \<not> app then r\<lparr>rt_balancers := Map.empty, rt_rules := []\<rparr> else r"
  obtain r1 e1 where b: "reload_balancers B ?r0 (cf_BalancingRule c) = (r1, e1)" by (cases "reload_balancers B ?r0 (cf_BalancingRule c)")
  from reload_balancers_ok [OF b reload_start(1) [OF assms(2)]] have rules: "rt_rules r1 = (if app then rt_rules r else [])" by simp
  show ?thesis
  proof (cases e1)
    case None
    with assms(1) b have "reload_rules B r1 (cf_Rule c) = Some (r', e)" by (simp add: ReloadRules_def Let_def)
    from reload_rules_appends [OF this] rules show ?thesis by force
  next
    case (Some x)
    with assms(1) b rules show ?thesis by (auto simp: ReloadRules_def Let_def)
  qed
qed

theorem rules_reloaded_witness:
  "case ReloadRules demo_env (new_router None Map.empty) demo_config False of
     Some (r, e) \<Rightarrow> e \<noteq> None \<and> map ru_RuleTag (rt_rules r) = [gostr ''r''] |
     None \<Rightarrow> False"
proof -
  let ?R = "new_router None Map.empty :: Prefix list Router"
  have e: "case ReloadRules demo_env ?R demo_config False of Some (r, e) \<Rightarrow> e \<noteq> None \<and> length (rt_rules r) = 1 | None \<Rightarrow> False"
    by code_simp
  then obtain r' x where r: "ReloadRules demo_env ?R demo_config False = Some (r', x)" by (auto split: option.splits)
  have "router_ok ?R" by (simp add: router_ok_def new_router_def)
  from rules_reloaded [OF r this] r e show ?thesis
    by (auto simp: demo_config_def demo_rule_def length_Suc_conv)
qed

end
