(* ===== verification/Cache_Lru.thy ===== *)
theory Cache_Lru
  imports Go_Prelude
begin

text \<open>
  \<^verbatim>\<open>common/cache/lru.go\<close>: a cache with a bound, searched by key and by value. The linked list of
  \<^verbatim>\<open>container/list\<close> is a list of element numbers, front first; an element keeps its value after it has
  left the list, as in Go. Every method holds the mutex (except the peek, a single load), so each is
  one step. The abstract cache is the list of pairs, most recently used first.
\<close>

section \<open>The code\<close>

record ('k, 'v) lru =
  capacity :: int
  elems :: "('k \<times> 'v) list"
  order :: "nat list"
  keyToElement :: "'k \<rightharpoonup> nat"
  valueToElement :: "'v \<rightharpoonup> nat"

definition NewLru :: "int \<Rightarrow> ('k, 'v) lru" where
  "NewLru cap = \<lparr>capacity = cap, elems = [], order = [], keyToElement = Map.empty, valueToElement = Map.empty\<rparr>"

text \<open>\<^verbatim>\<open>MoveToFront\<close> does nothing for an element that is not in the list.\<close>

definition MoveToFront :: "nat \<Rightarrow> nat list \<Rightarrow> nat list" where
  "MoveToFront e xs = (if e \<in> set xs then e # remove1 e xs else xs)"

definition lru_Get :: "('k, 'v) lru \<Rightarrow> 'k \<Rightarrow> ('k, 'v) lru \<times> 'v option" where
  "lru_Get l key =
     (case keyToElement l key of
        None \<Rightarrow> (l, None)
      | Some e \<Rightarrow> (l\<lparr>order := MoveToFront e (order l)\<rparr>, Some (snd (elems l ! e))))"

definition lru_GetKeyFromValue :: "('k, 'v) lru \<Rightarrow> 'v \<Rightarrow> ('k, 'v) lru \<times> 'k option" where
  "lru_GetKeyFromValue l v =
     (case valueToElement l v of
        None \<Rightarrow> (l, None)
      | Some e \<Rightarrow> (l\<lparr>order := MoveToFront e (order l)\<rparr>, Some (fst (elems l ! e))))"

definition lru_PeekKeyFromValue :: "('k, 'v) lru \<Rightarrow> 'v \<Rightarrow> 'k option" where
  "lru_PeekKeyFromValue l v =
     (case valueToElement l v of None \<Rightarrow> None | Some e \<Rightarrow> Some (fst (elems l ! e)))"

definition lru_Put :: "('k, 'v) lru \<Rightarrow> 'k \<Rightarrow> 'v \<Rightarrow> ('k, 'v) lru" where
  "lru_Put l key v =
     (case keyToElement l key of
        Some e \<Rightarrow> l\<lparr>elems := (elems l)[e := (key, v)], order := MoveToFront e (order l)\<rparr>
      | None \<Rightarrow>
          (let e = length (elems l);
               l1 = l\<lparr>elems := elems l @ [(key, v)], order := e # order l,
                      keyToElement := (keyToElement l)(key \<mapsto> e),
                      valueToElement := (valueToElement l)(v \<mapsto> e)\<rparr>
           in if int (length (order l1)) > capacity l1
              then let b = last (order l1); (bk, bv) = elems l1 ! b
                   in l1\<lparr>order := butlast (order l1), keyToElement := (keyToElement l1)(bk := None),
                         valueToElement := (valueToElement l1)(bv := None)\<rparr>
              else l1))"

section \<open>Invariant and abstract value\<close>

definition lru_content :: "('k, 'v) lru \<Rightarrow> ('k \<times> 'v) list" where
  "lru_content l = map (\<lambda>e. elems l ! e) (order l)"

definition lru_inv :: "('k, 'v) lru \<Rightarrow> bool" where
  "lru_inv l \<longleftrightarrow> distinct (order l) \<and> (\<forall>e \<in> set (order l). e < length (elems l)) \<and>
     int (length (order l)) \<le> max 0 (capacity l) \<and>
     (\<forall>k e. keyToElement l k = Some e \<longleftrightarrow> e \<in> set (order l) \<and> fst (elems l ! e) = k) \<and>
     (\<forall>v e. valueToElement l v = Some e \<longleftrightarrow> e \<in> set (order l) \<and> snd (elems l ! e) = v)"

text \<open>A pair may be put when it is in the cache already, or when neither its key nor its value is.\<close>

definition may_put :: "('k \<times> 'v) list \<Rightarrow> 'k \<Rightarrow> 'v \<Rightarrow> bool" where
  "may_put xs k v \<longleftrightarrow> (k, v) \<in> set xs \<or> (k \<notin> fst ` set xs \<and> v \<notin> snd ` set xs)"

definition touch :: "'k \<times> 'v \<Rightarrow> ('k \<times> 'v) list \<Rightarrow> ('k \<times> 'v) list" where
  "touch x xs = x # remove1 x xs"

lemma set_touch: "x \<in> set xs \<Longrightarrow> set (touch x xs) = set xs"
  using set_remove1_subset [of x xs] by (auto simp: touch_def) (metis in_set_remove1)

lemma lru_inv_NewLru [simp]:
  "lru_inv (NewLru cap)" "lru_content (NewLru cap) = []" "capacity (NewLru cap) = cap"
  by (simp_all add: lru_inv_def lru_content_def NewLru_def)

lemma lru_keys_distinct:
  assumes "lru_inv l"
  shows "distinct (map fst (lru_content l))" "distinct (map snd (lru_content l))"
proof -
  have "inj_on (\<lambda>e. fst (elems l ! e)) (set (order l))" "inj_on (\<lambda>e. snd (elems l ! e)) (set (order l))"
    using assms by (auto simp: lru_inv_def inj_on_def) (metis option.inject)+
  with assms show "distinct (map fst (lru_content l))" "distinct (map snd (lru_content l))"
    by (simp_all add: lru_content_def comp_def distinct_map lru_inv_def)
qed

lemma link_None:
  assumes "\<And>k e. m k = Some e \<longleftrightarrow> e \<in> set xs \<and> f e = k"
  shows "m k = None \<longleftrightarrow> k \<notin> f ` set xs"
proof
  assume "m k = None"
  with assms [of k] show "k \<notin> f ` set xs" by auto
next
  assume "k \<notin> f ` set xs"
  then have "m k \<noteq> Some e" for e using assms [of k e] by auto
  then show "m k = None" by (cases "m k") auto
qed

lemma lru_key_lookup:
  assumes "lru_inv l"
  shows "keyToElement l k = Some e \<Longrightarrow> e \<in> set (order l) \<and> (k, snd (elems l ! e)) \<in> set (lru_content l) \<and> elems l ! e = (k, snd (elems l ! e))"
    and "keyToElement l k = None \<longleftrightarrow> k \<notin> fst ` set (lru_content l)"
proof -
  show "keyToElement l k = Some e \<Longrightarrow> e \<in> set (order l) \<and> (k, snd (elems l ! e)) \<in> set (lru_content l) \<and> elems l ! e = (k, snd (elems l ! e))"
    using assms by (auto simp: lru_inv_def lru_content_def image_iff)
  show "keyToElement l k = None \<longleftrightarrow> k \<notin> fst ` set (lru_content l)"
    using link_None [of "keyToElement l" "order l" "\<lambda>e. fst (elems l ! e)" k] assms
    by (simp add: lru_inv_def lru_content_def image_image)
qed

lemma lru_value_lookup:
  assumes "lru_inv l"
  shows "valueToElement l v = Some e \<Longrightarrow> e \<in> set (order l) \<and> (fst (elems l ! e), v) \<in> set (lru_content l) \<and> elems l ! e = (fst (elems l ! e), v)"
    and "valueToElement l v = None \<longleftrightarrow> v \<notin> snd ` set (lru_content l)"
proof -
  show "valueToElement l v = Some e \<Longrightarrow> e \<in> set (order l) \<and> (fst (elems l ! e), v) \<in> set (lru_content l) \<and> elems l ! e = (fst (elems l ! e), v)"
    using assms by (auto simp: lru_inv_def lru_content_def image_iff)
  show "valueToElement l v = None \<longleftrightarrow> v \<notin> snd ` set (lru_content l)"
    using link_None [of "valueToElement l" "order l" "\<lambda>e. snd (elems l ! e)" v] assms
    by (simp add: lru_inv_def lru_content_def image_image)
qed

lemma map_remove1_inj:
  "distinct xs \<Longrightarrow> inj_on f (set xs) \<Longrightarrow> e \<in> set xs \<Longrightarrow> map f (remove1 e xs) = remove1 (f e) (map f xs)"
proof (induction xs)
  case (Cons x xs)
  then show ?case by (cases "x = e") (auto simp: inj_on_def)
qed simp

lemma lru_move:
  assumes l: "lru_inv l" and e: "e \<in> set (order l)"
  shows "lru_inv (l\<lparr>order := MoveToFront e (order l)\<rparr>)"
    and "lru_content (l\<lparr>order := MoveToFront e (order l)\<rparr>) = touch (elems l ! e) (lru_content l)"
proof -
  have d: "distinct (order l)" using l by (simp add: lru_inv_def)
  have s: "set (MoveToFront e (order l)) = set (order l)" "distinct (MoveToFront e (order l))"
    "length (MoveToFront e (order l)) = length (order l)"
    using e d length_pos_if_in_set [OF e] by (auto simp: MoveToFront_def set_remove1_eq length_remove1)
  with l show "lru_inv (l\<lparr>order := MoveToFront e (order l)\<rparr>)" by (simp add: lru_inv_def)
  have "inj_on (\<lambda>e. elems l ! e) (set (order l))"
    using l by (auto simp: lru_inv_def inj_on_def) (metis option.inject)
  from map_remove1_inj [OF d this e] e
  show "lru_content (l\<lparr>order := MoveToFront e (order l)\<rparr>) = touch (elems l ! e) (lru_content l)"
    by (simp add: lru_content_def MoveToFront_def touch_def)
qed

text \<open>The links between list and maps, without the bound on the length, and removing the last element.\<close>

definition lru_links :: "('k, 'v) lru \<Rightarrow> bool" where
  "lru_links l \<longleftrightarrow> distinct (order l) \<and> (\<forall>e \<in> set (order l). e < length (elems l)) \<and>
     (\<forall>k e. keyToElement l k = Some e \<longleftrightarrow> e \<in> set (order l) \<and> fst (elems l ! e) = k) \<and>
     (\<forall>v e. valueToElement l v = Some e \<longleftrightarrow> e \<in> set (order l) \<and> snd (elems l ! e) = v)"

lemma lru_inv_links: "lru_inv l \<longleftrightarrow> lru_links l \<and> int (length (order l)) \<le> max 0 (capacity l)"
  by (auto simp: lru_inv_def lru_links_def)

lemma last_split:
  assumes "distinct xs" "xs \<noteq> []"
  shows "x \<in> set (butlast xs) \<longleftrightarrow> x \<in> set xs \<and> x \<noteq> last xs"
  using assms by (cases xs rule: rev_cases) auto

lemma map_unlink:
  assumes "\<And>k e. m k = Some e \<longleftrightarrow> e \<in> set xs \<and> f e = k" "distinct xs" "xs \<noteq> []"
  shows "(m(f (last xs) := None)) k = Some e \<longleftrightarrow> e \<in> set (butlast xs) \<and> f e = k"
  using assms last_split [OF assms(2,3)] by (auto) (metis last_in_set option.inject)

lemma lru_evict:
  assumes "lru_links l" "order l \<noteq> []"
  shows "lru_links (l\<lparr>order := butlast (order l),
      keyToElement := (keyToElement l)(fst (elems l ! last (order l)) := None),
      valueToElement := (valueToElement l)(snd (elems l ! last (order l)) := None)\<rparr>)"
  using assms map_unlink [of "keyToElement l" "order l" "\<lambda>e. fst (elems l ! e)"]
    map_unlink [of "valueToElement l" "order l" "\<lambda>e. snd (elems l ! e)"]
  unfolding lru_links_def by (auto simp: distinct_butlast dest: in_set_butlastD simp del: fun_upd_apply)

lemma lru_push:
  assumes l: "lru_links l" and new: "keyToElement l k = None" "valueToElement l v = None"
  shows "lru_links (l\<lparr>elems := elems l @ [(k, v)], order := length (elems l) # order l,
      keyToElement := (keyToElement l)(k \<mapsto> length (elems l)),
      valueToElement := (valueToElement l)(v \<mapsto> length (elems l))\<rparr>)"
proof -
  have "e \<in> set (order l) \<Longrightarrow> fst (elems l ! e) \<noteq> k \<and> snd (elems l ! e) \<noteq> v \<and> e < length (elems l)" for e
    using l new unfolding lru_links_def by (metis option.distinct(1))
  then show ?thesis using l unfolding lru_links_def by (auto simp: nth_append less_Suc_eq)
qed

lemma lru_Put_inv:
  assumes l: "lru_inv l" and p: "may_put (lru_content l) k v"
  shows "lru_inv (lru_Put l k v) \<and> capacity (lru_Put l k v) = capacity l \<and>
    lru_content (lru_Put l k v) = (if (k, v) \<in> set (lru_content l) then touch (k, v) (lru_content l)
      else take (nat (capacity l)) ((k, v) # lru_content l))"
proof (cases "keyToElement l k")
  case (Some e)
  note look = lru_key_lookup(1) [OF l Some]
  have k: "k \<in> fst ` set (lru_content l)" using look by (metis fst_conv image_eqI)
  with p have kv: "(k, v) \<in> set (lru_content l)" by (auto simp: may_put_def)
  with look lru_keys_distinct(1) [OF l] have e: "elems l ! e = (k, v)" by (metis eq_key_imp_eq_value)
  have "(elems l)[e := (k, v)] = elems l" using e by (metis list_update_id)
  with Some have "lru_Put l k v = l\<lparr>order := MoveToFront e (order l)\<rparr>" by (simp add: lru_Put_def)
  with lru_move [OF l] look e kv show ?thesis by simp
next
  case None
  with lru_key_lookup(2) [OF l] have k: "k \<notin> fst ` set (lru_content l)" by blast
  with p have v: "valueToElement l v = None" and nin: "(k, v) \<notin> set (lru_content l)"
    using lru_value_lookup(2) [OF l] by (force simp: may_put_def)+
  define l1 where "l1 = l\<lparr>elems := elems l @ [(k, v)], order := length (elems l) # order l,
      keyToElement := (keyToElement l)(k \<mapsto> length (elems l)),
      valueToElement := (valueToElement l)(v \<mapsto> length (elems l))\<rparr>"
  have links: "lru_links l1" unfolding l1_def using l by (intro lru_push None v) (simp add: lru_inv_links)
  have bound: "int (length (order l)) \<le> max 0 (capacity l)" and old: "\<forall>e \<in> set (order l). e < length (elems l)"
    using l by (auto simp: lru_inv_def)
  have c1: "lru_content l1 = (k, v) # lru_content l"
    using old by (simp add: l1_def lru_content_def nth_append)
  show ?thesis
  proof (cases "int (length (order l1)) > capacity l")
    case True
    define l2 where "l2 = l1\<lparr>order := butlast (order l1),
      keyToElement := (keyToElement l1)(fst (elems l1 ! last (order l1)) := None),
      valueToElement := (valueToElement l1)(snd (elems l1 ! last (order l1)) := None)\<rparr>"
    have put: "lru_Put l k v = l2"
      using None True unfolding lru_Put_def l2_def l1_def by (simp add: Let_def case_prod_beta)
    have ne: "order l1 \<noteq> []" and len: "length (order l1) = Suc (length (order l))" and cap: "capacity l2 = capacity l"
      by (simp_all add: l1_def l2_def)
    have "lru_links l2" unfolding l2_def by (rule lru_evict [OF links ne])
    moreover have "length (order l2) = length (order l)" by (simp add: l2_def len)
    moreover have "lru_content l2 = take (nat (capacity l)) ((k, v) # lru_content l)"
    proof -
      have "lru_content l2 = butlast (lru_content l1)" by (simp add: l2_def lru_content_def map_butlast)
      also have "\<dots> = take (length (order l)) ((k, v) # lru_content l)"
        unfolding c1 by (simp add: butlast_conv_take lru_content_def)
      also have "length (order l) = nat (capacity l)" using bound True len by linarith
      finally show ?thesis .
    qed
    ultimately show ?thesis using put bound nin cap by (simp add: lru_inv_links)
  next
    case False
    then have put: "lru_Put l k v = l1"
      using None unfolding lru_Put_def l1_def by (simp add: Let_def)
    have "length (order l1) = length (lru_content l1)" by (simp add: lru_content_def)
    then have "lru_content l1 = take (nat (capacity l)) ((k, v) # lru_content l)"
      using False c1 by (simp add: le_nat_iff)
    then show ?thesis using put links False nin by (simp add: lru_inv_links l1_def)
  qed
qed

lemma lru_Get_content:
  assumes l: "lru_inv l"
  shows "lru_Get l k = (l', r) \<Longrightarrow> lru_inv l' \<and> capacity l' = capacity l \<and> r = map_of (lru_content l) k \<and>
    lru_content l' = (case r of None \<Rightarrow> lru_content l | Some v \<Rightarrow> touch (k, v) (lru_content l))"
proof (cases "keyToElement l k")
  case None
  moreover from this have "map_of (lru_content l) k = None"
    using lru_key_lookup(2) [OF l] by (simp add: map_of_eq_None_iff)
  moreover assume "lru_Get l k = (l', r)"
  ultimately show ?thesis using l by (simp add: lru_Get_def)
next
  case (Some e)
  from lru_key_lookup(1) [OF l Some] obtain v where
    e: "e \<in> set (order l)" "elems l ! e = (k, v)" "(k, v) \<in> set (lru_content l)" by metis
  moreover from this have "map_of (lru_content l) k = Some v"
    using lru_keys_distinct(1) [OF l] by (intro map_of_is_SomeI)
  moreover assume "lru_Get l k = (l', r)"
  ultimately show ?thesis using Some lru_move [OF l e(1)] by (auto simp: lru_Get_def split: option.split)
qed

text \<open>The list read from value to key.\<close>

abbreviation key_of :: "('k \<times> 'v) list \<Rightarrow> 'v \<rightharpoonup> 'k" where
  "key_of xs \<equiv> map_of (map prod.swap xs)"

lemma key_of_lookup:
  assumes l: "lru_inv l"
  shows "key_of (lru_content l) v = (case valueToElement l v of None \<Rightarrow> None | Some e \<Rightarrow> Some (fst (elems l ! e)))"
proof (cases "valueToElement l v")
  case None
  with lru_value_lookup(2) [OF l] have "v \<notin> snd ` set (lru_content l)" by blast
  with None show ?thesis by (auto simp: map_of_eq_None_iff image_image)
next
  case (Some e)
  with lru_value_lookup(1) [OF l Some] have "(v, fst (elems l ! e)) \<in> set (map prod.swap (lru_content l))"
    by (auto simp: image_iff) (metis swap_simp)
  moreover have "distinct (map fst (map prod.swap (lru_content l)))"
    using lru_keys_distinct(2) [OF l] by (simp add: comp_def)
  ultimately show ?thesis using Some by simp
qed

lemma lru_Peek_content: "lru_inv l \<Longrightarrow> lru_PeekKeyFromValue l v = key_of (lru_content l) v"
  by (simp add: key_of_lookup lru_PeekKeyFromValue_def)

lemma lru_GetKey_content:
  assumes l: "lru_inv l"
  shows "lru_GetKeyFromValue l v = (l', r) \<Longrightarrow> lru_inv l' \<and> capacity l' = capacity l \<and> r = key_of (lru_content l) v \<and>
    lru_content l' = (case r of None \<Rightarrow> lru_content l | Some k \<Rightarrow> touch (k, v) (lru_content l))"
proof (cases "valueToElement l v")
  case None
  moreover assume "lru_GetKeyFromValue l v = (l', r)"
  ultimately show ?thesis using l key_of_lookup [OF l, of v] by (simp add: lru_GetKeyFromValue_def)
next
  case (Some e)
  from lru_value_lookup(1) [OF l Some] obtain k where
    e: "e \<in> set (order l)" "elems l ! e = (k, v)" by metis
  moreover from this have "key_of (lru_content l) v = Some k" using key_of_lookup [OF l, of v] Some by simp
  moreover assume "lru_GetKeyFromValue l v = (l', r)"
  ultimately show ?thesis using Some lru_move [OF l e(1)] by (auto simp: lru_GetKeyFromValue_def split: option.split)
qed

section \<open>The abstract cache\<close>

datatype ('k, 'v) lru_op = OGet 'k | OGetKey 'v | OPeek 'v | OPut 'k 'v

datatype ('k, 'v) lru_res = RValue "'v option" | RKey "'k option" | RUnit

fun lru_step :: "('k, 'v) lru \<Rightarrow> ('k, 'v) lru_op \<Rightarrow> ('k, 'v) lru \<times> ('k, 'v) lru_res" where
  "lru_step l (OGet k) = map_prod id RValue (lru_Get l k)"
| "lru_step l (OGetKey v) = map_prod id RKey (lru_GetKeyFromValue l v)"
| "lru_step l (OPeek v) = (l, RKey (lru_PeekKeyFromValue l v))"
| "lru_step l (OPut k v) = (lru_Put l k v, RUnit)"

text \<open>The specification works on the list of pairs alone: looking up moves to the front, putting adds
  to the front and drops what is beyond the capacity.\<close>

fun spec_step :: "nat \<Rightarrow> ('k \<times> 'v) list \<Rightarrow> ('k, 'v) lru_op \<Rightarrow> ('k \<times> 'v) list \<times> ('k, 'v) lru_res" where
  "spec_step n xs (OGet k) =
     (case map_of xs k of None \<Rightarrow> (xs, RValue None) | Some v \<Rightarrow> (touch (k, v) xs, RValue (Some v)))"
| "spec_step n xs (OGetKey v) =
     (case key_of xs v of None \<Rightarrow> (xs, RKey None) | Some k \<Rightarrow> (touch (k, v) xs, RKey (Some k)))"
| "spec_step n xs (OPeek v) = (xs, RKey (key_of xs v))"
| "spec_step n xs (OPut k v) =
     (if (k, v) \<in> set xs then touch (k, v) xs else take n ((k, v) # xs), RUnit)"

fun may_do :: "('k \<times> 'v) list \<Rightarrow> ('k, 'v) lru_op \<Rightarrow> bool" where
  "may_do xs (OPut k v) = may_put xs k v"
| "may_do xs _ = True"

fun run_lru :: "('s \<Rightarrow> ('k, 'v) lru_op \<Rightarrow> 's \<times> ('k, 'v) lru_res) \<Rightarrow> 's \<Rightarrow> ('k, 'v) lru_op list \<Rightarrow> 's \<times> ('k, 'v) lru_res list" where
  "run_lru step s [] = (s, [])"
| "run_lru step s (op # ops) =
     (let (s', r) = step s op; (s'', rs) = run_lru step s' ops in (s'', r # rs))"

fun may_run :: "nat \<Rightarrow> ('k \<times> 'v) list \<Rightarrow> ('k, 'v) lru_op list \<Rightarrow> bool" where
  "may_run n xs [] = True"
| "may_run n xs (op # ops) = (may_do xs op \<and> may_run n (fst (spec_step n xs op)) ops)"

lemma lru_step_refines:
  assumes l: "lru_inv l" and "may_do (lru_content l) op"
  shows "lru_inv (fst (lru_step l op)) \<and> capacity (fst (lru_step l op)) = capacity l \<and>
    (lru_content (fst (lru_step l op)), snd (lru_step l op)) = spec_step (nat (capacity l)) (lru_content l) op"
proof (cases op)
  case (OGet k)
  obtain l' r where g: "lru_Get l k = (l', r)" by (cases "lru_Get l k")
  with lru_Get_content [OF l g] OGet show ?thesis by (auto split: option.split)
next
  case (OGetKey v)
  obtain l' r where g: "lru_GetKeyFromValue l v = (l', r)" by (cases "lru_GetKeyFromValue l v")
  with lru_GetKey_content [OF l g] OGetKey show ?thesis by (auto split: option.split)
next
  case (OPeek v)
  then show ?thesis using l by (simp add: lru_Peek_content)
next
  case (OPut k v)
  then show ?thesis using lru_Put_inv [OF l] assms(2) by simp
qed

lemma run_lru_refines:
  "lru_inv l \<Longrightarrow> may_run (nat (capacity l)) (lru_content l) ops \<Longrightarrow> run_lru lru_step l ops = (l', rs) \<Longrightarrow>
   lru_inv l' \<and> capacity l' = capacity l \<and>
   run_lru (spec_step (nat (capacity l))) (lru_content l) ops = (lru_content l', rs)"
proof (induction ops arbitrary: l l' rs)
  case (Cons op ops)
  obtain l1 r where s: "lru_step l op = (l1, r)" by (cases "lru_step l op")
  obtain l2 rs' where r: "run_lru lru_step l1 ops = (l2, rs')" by (cases "run_lru lru_step l1 ops")
  from lru_step_refines [OF Cons.prems(1), of op] Cons.prems(2) s
  have 1: "lru_inv l1" "capacity l1 = capacity l" "spec_step (nat (capacity l)) (lru_content l) op = (lru_content l1, r)"
    by auto
  with Cons.IH [OF 1(1) _ r] Cons.prems s r show ?case by auto
qed auto

text \<open>
  C31: the cache is a least-recently-used cache with a reverse index. Under every sequence of
  operations in which a pair is put only when it is there already or both its key and its value are
  new (as the fake DNS uses it), the answers are those of a list of pairs in which each use moves to
  the front and what is beyond the capacity falls off the end, and it never holds more pairs than
  its capacity. Without that condition the reverse index goes wrong: after a key has been given a new
  value, the new value is not found, and the old one still leads to the key.
\<close>

theorem lru_refines_list:
  "(may_run (nat cap) [] ops \<longrightarrow>
     (case run_lru lru_step (NewLru cap) ops of (l, rs) \<Rightarrow>
        run_lru (spec_step (nat cap)) [] ops = (lru_content l, rs) \<and> length (order l) \<le> nat cap)) \<and>
   snd (run_lru lru_step (NewLru 2) [OPut (1::nat) ''a'', OPut 1 ''b'', OPeek ''b'', OPeek ''a'']) =
     [RUnit, RUnit, RKey None, RKey (Some 1)]"
proof
  show "may_run (nat cap) [] ops \<longrightarrow>
     (case run_lru lru_step (NewLru cap) ops of (l, rs) \<Rightarrow>
        run_lru (spec_step (nat cap)) [] ops = (lru_content l, rs) \<and> length (order l) \<le> nat cap)"
  proof (intro impI)
    assume ok: "may_run (nat cap) [] ops"
    obtain l rs where r: "run_lru lru_step (NewLru cap) ops = (l, rs)" by (cases "run_lru lru_step (NewLru cap) ops")
    from run_lru_refines [OF lru_inv_NewLru(1) _ r] ok
    have "lru_inv l" "capacity l = cap" "run_lru (spec_step (nat cap)) [] ops = (lru_content l, rs)" by auto
    moreover from this have "length (order l) \<le> nat cap" unfolding lru_inv_links by linarith
    ultimately show "case run_lru lru_step (NewLru cap) ops of (l, rs) \<Rightarrow>
        run_lru (spec_step (nat cap)) [] ops = (lru_content l, rs) \<and> length (order l) \<le> nat cap"
      using r by simp
  qed
qed code_simp

theorem lru_refines_list_witness:
  "run_lru (spec_step (nat 1)) [] [OPut (1::nat) ''a'', OPut 2 ''b'', OGet 1, OGetKey ''b''] =
     ([(2, ''b'')], [RUnit, RUnit, RValue None, RKey (Some 2)]) \<and>
   snd (run_lru lru_step (NewLru 1) [OPut (1::nat) ''a'', OPut 2 ''b'', OGet 1, OGetKey ''b'']) =
     [RUnit, RUnit, RValue None, RKey (Some 2)]"
proof -
  let ?ops = "[OPut (1::nat) ''a'', OPut 2 ''b'', OGet 1, OGetKey ''b'']"
  have s: "run_lru (spec_step (nat 1)) [] ?ops = ([(2, ''b'')], [RUnit, RUnit, RValue None, RKey (Some 2)])" by code_simp
  have "may_run (nat 1) [] ?ops" by code_simp
  with lru_refines_list [of 1 ?ops] s show ?thesis by (auto split: prod.splits)
qed

section \<open>The contract for clients\<close>

text \<open>What a client of a cache with a reverse index relies on.\<close>

locale bidi_cache =
  fixes inv :: "'c \<Rightarrow> bool"
    and content :: "'c \<Rightarrow> ('k \<times> 'v) list"
    and room :: "'c \<Rightarrow> nat"
    and get :: "'c \<Rightarrow> 'k \<Rightarrow> 'c \<times> 'v option"
    and getkey :: "'c \<Rightarrow> 'v \<Rightarrow> 'c \<times> 'k option"
    and peek :: "'c \<Rightarrow> 'v \<Rightarrow> 'k option"
    and put :: "'c \<Rightarrow> 'k \<Rightarrow> 'v \<Rightarrow> 'c"
  assumes unique: "inv c \<Longrightarrow> distinct (map fst (content c)) \<and> distinct (map snd (content c))"
    and bound: "inv c \<Longrightarrow> length (content c) \<le> room c"
    and get_law: "inv c \<Longrightarrow> get c k = (c', r) \<Longrightarrow>
      inv c' \<and> room c' = room c \<and> set (content c') = set (content c) \<and> r = map_of (content c) k"
    and getkey_law: "inv c \<Longrightarrow> getkey c v = (c', s) \<Longrightarrow>
      inv c' \<and> room c' = room c \<and> set (content c') = set (content c) \<and> s = key_of (content c) v"
    and peek_law: "inv c \<Longrightarrow> peek c v = key_of (content c) v"
    and put_law: "inv c \<Longrightarrow> k \<notin> fst ` set (content c) \<Longrightarrow> v \<notin> snd ` set (content c) \<Longrightarrow>
      inv (put c k v) \<and> room (put c k v) = room c \<and> content (put c k v) = take (room c) ((k, v) # content c)"
begin

lemma peek_None: "inv c \<Longrightarrow> peek c v = None \<longleftrightarrow> v \<notin> snd ` set (content c)"
  by (auto simp: peek_law map_of_eq_None_iff image_image)

lemma getkey_member:
  assumes "inv c" "(k, v) \<in> set (content c)"
  shows "snd (getkey c v) = Some k"
proof -
  obtain c' s where g: "getkey c v = (c', s)" by (cases "getkey c v")
  have "distinct (map fst (map prod.swap (content c)))" using unique [OF assms(1)] by (simp add: comp_def)
  moreover have "(v, k) \<in> set (map prod.swap (content c))" using assms(2) by (auto intro!: image_eqI [of _ _ "(k, v)"])
  ultimately have "key_of (content c) v = Some k" by (rule map_of_is_SomeI)
  with getkey_law [OF assms(1) g] g show ?thesis by simp
qed

lemma value_unique: "inv c \<Longrightarrow> (k, v) \<in> set (content c) \<Longrightarrow> (k', v) \<in> set (content c) \<Longrightarrow> k = k'"
  by (metis getkey_member option.inject)

lemma put_member:
  assumes "inv c" "k \<notin> fst ` set (content c)" "v \<notin> snd ` set (content c)" "0 < room c"
  shows "(k, v) \<in> set (content (put c k v))"
  using put_law [OF assms(1-3)] assms(4) by (cases "room c") auto

text \<open>Of more values than there is room for, one is not in the cache.\<close>

lemma free_value:
  assumes "inv c" "finite A" "room c < card A"
  obtains v where "v \<in> A" "peek c v = None"
proof -
  have "card (snd ` set (content c)) \<le> room c"
    using bound [OF assms(1)] card_image_le [of "set (content c)" snd] card_length [of "content c"] by simp
  with assms(3) have "card (snd ` set (content c)) < card A" by simp
  then have "\<not> A \<subseteq> snd ` set (content c)" using card_mono [of "snd ` set (content c)" A] by auto
  then obtain v where "v \<in> A" "v \<notin> snd ` set (content c)" by blast
  then show thesis using peek_None [OF assms(1), of v] by (intro that [of v]) simp_all
qed

end

interpretation lruc: bidi_cache lru_inv lru_content "\<lambda>l. nat (capacity l)" lru_Get lru_GetKeyFromValue
    lru_PeekKeyFromValue lru_Put
proof
  fix l :: "('k, 'v) lru" and k :: 'k and v :: 'v and l' r s
  assume l: "lru_inv l"
  show "distinct (map fst (lru_content l)) \<and> distinct (map snd (lru_content l))"
    using lru_keys_distinct [OF l] by blast
  show "length (lru_content l) \<le> nat (capacity l)" using l unfolding lru_inv_links lru_content_def length_map by linarith
  show "lru_PeekKeyFromValue l v = key_of (lru_content l) v" by (rule lru_Peek_content [OF l])
  show "lru_inv l' \<and> nat (capacity l') = nat (capacity l) \<and> set (lru_content l') = set (lru_content l) \<and> r = map_of (lru_content l) k"
    if "lru_Get l k = (l', r)"
    using lru_Get_content [OF l that] set_touch [of _ "lru_content l"]
    by (auto split: option.splits dest: map_of_SomeD)
  show "lru_inv l' \<and> nat (capacity l') = nat (capacity l) \<and> set (lru_content l') = set (lru_content l) \<and> s = key_of (lru_content l) v"
    if "lru_GetKeyFromValue l v = (l', s)"
    using lru_GetKey_content [OF l that] set_touch [of _ "lru_content l"]
    by (auto split: option.splits dest!: map_of_SomeD)
  show "lru_inv (lru_Put l k v) \<and> nat (capacity (lru_Put l k v)) = nat (capacity l) \<and>
      lru_content (lru_Put l k v) = take (nat (capacity l)) ((k, v) # lru_content l)"
    if "k \<notin> fst ` set (lru_content l)" "v \<notin> snd ` set (lru_content l)"
    using lru_Put_inv [OF l, of k v] that by (force simp: may_put_def)
qed

end
