(* ===== verification/Fake_DNS.thy ===== *)
theory Fake_DNS
  imports Cache_Lru Net_Address "HOL-Library.While_Combinator"
begin

text \<open>
  \<^verbatim>\<open>app/dns/fakedns/fake.go\<close>: names are given addresses of a private pool, and the address leads back to
  the name. The pairs live in the cache of \<^verbatim>\<open>Cache_Lru\<close>. Addresses are numbers while the code looks for
  a free one; the loop that does so may in principle run forever, and \<open>None\<close> is that it does (or
  that the code panics). Parameters are \<^verbatim>\<open>net.ParseCIDR\<close>, the comparison of \<^verbatim>\<open>math.Log2\<close> with the width
  of the pool, and the clock.
\<close>

section \<open>Networks\<close>

text \<open>An \<^verbatim>\<open>IPNet\<close> as \<^verbatim>\<open>ParseCIDR\<close> makes it: a network number and a mask of as many bytes that starts
  with \<open>net_ones\<close> ones.\<close>

record IPNet =
  net_IP :: "byte list"
  net_ones :: nat

definition be_value :: "byte list \<Rightarrow> nat" where
  "be_value bs = foldl (\<lambda>a b. a * 256 + unat b) 0 bs"

text \<open>\<^verbatim>\<open>big.Int.Bytes\<close>: big endian, without leading zeros.\<close>

fun nat_bytes :: "nat \<Rightarrow> byte list" where
  "nat_bytes n = (if n = 0 then [] else nat_bytes (n div 256) @ [of_nat (n mod 256)])"

declare nat_bytes.simps [simp del]

definition shorten :: "byte list \<Rightarrow> byte list" where
  "shorten ip = (case To4 ip of None \<Rightarrow> ip | Some x \<Rightarrow> x)"

definition rooms :: "IPNet \<Rightarrow> nat" where
  "rooms n = 8 * length (net_IP n) - net_ones n"

definition IPNet_Contains :: "IPNet \<Rightarrow> byte list \<Rightarrow> bool" where
  "IPNet_Contains n ip \<longleftrightarrow> length (shorten ip) = length (shorten (net_IP n)) \<and>
     be_value (shorten ip) div 2 ^ rooms n = be_value (shorten (net_IP n)) div 2 ^ rooms n"

section \<open>The holder of one pool\<close>

record FakeDnsPool =
  IpPool :: gostring
  LruSize :: int

record Holder =
  domainToIP :: "(gostring, Address option) lru option"
  ipRange :: "IPNet option"
  fk_config :: "FakeDnsPool option"

definition NewFakeDNSHolderConfigOnly :: "FakeDnsPool option \<Rightarrow> Holder" where
  "NewFakeDNSHolderConfigOnly conf = \<lparr>domainToIP = None, ipRange = None, fk_config = conf\<rparr>"

definition fk_initialize ::
  "(gostring \<Rightarrow> goerr + IPNet) \<Rightarrow> (int \<Rightarrow> nat \<Rightarrow> bool) \<Rightarrow> Holder \<Rightarrow> gostring \<Rightarrow> int \<Rightarrow> Holder \<times> goerr option" where
  "fk_initialize ParseCIDR log2_ge h ipPoolCidr lruSize =
     (case ParseCIDR ipPoolCidr of
        Inl e \<Rightarrow> (h, Some (ErrMsg ''Unable to parse CIDR for Fake DNS IP assignment''))
      | Inr n \<Rightarrow>
          if log2_ge lruSize (rooms n) then (h, Some (ErrMsg ''LRU size is bigger than subnet size''))
          else (h\<lparr>domainToIP := Some (NewLru lruSize), ipRange := Some n\<rparr>, None))"

definition initializeFromConfig where
  "initializeFromConfig ParseCIDR log2_ge h c = fk_initialize ParseCIDR log2_ge h (IpPool c) (LruSize c)"

definition Holder_Start where
  "Holder_Start ParseCIDR log2_ge h =
     (case fk_config h of
        Some c \<Rightarrow>
          if IpPool c \<noteq> [] \<and> LruSize c \<noteq> 0 then initializeFromConfig ParseCIDR log2_ge h c
          else (h, Some (ErrMsg ''invalid fakeDNS setting''))
      | None \<Rightarrow> (h, Some (ErrMsg ''invalid fakeDNS setting'')))"

definition NewFakeDNSHolder where
  "NewFakeDNSHolder ParseCIDR log2_ge =
     (case fk_initialize ParseCIDR log2_ge (NewFakeDNSHolderConfigOnly None) (gostr ''198.18.0.0/15'') 65535 of
        (h, Some e) \<Rightarrow> Inl e
      | (h, None) \<Rightarrow> Inr h)"

definition Holder_Close :: "Holder \<Rightarrow> Holder" where
  "Holder_Close h = h\<lparr>domainToIP := None, ipRange := None\<rparr>"

definition Holder_IsIPInIPPool :: "Holder \<Rightarrow> Address \<Rightarrow> bool option" where
  "Holder_IsIPInIPPool h ip =
     (case Address_IP ip of
        None \<Rightarrow> Some False
      | Some b \<Rightarrow> do { n \<leftarrow> ipRange h; Some (IPNet_Contains n b) })"

text \<open>The search for an address that is not in use: one step, and the loop.\<close>

definition next_ip :: "IPNet \<Rightarrow> nat \<Rightarrow> nat" where
  "next_ip n b = (if IPNet_Contains n (nat_bytes (b + 1)) then b + 1 else be_value (net_IP n))"

definition find_ip :: "IPNet \<Rightarrow> (gostring, Address option) lru \<Rightarrow> nat \<Rightarrow> nat option" where
  "find_ip n c b =
     while_option (\<lambda>b. lru_PeekKeyFromValue c (IPAddress (nat_bytes b)) \<noteq> None) (next_ip n) b"

definition GetFakeIPForDomain :: "Holder \<Rightarrow> u64 \<Rightarrow> gostring \<Rightarrow> (Holder \<times> Address option list) option" where
  "GetFakeIPForDomain h now domain =
     do { c \<leftarrow> domainToIP h;
          (case lru_Get c domain of
             (c', Some (Some v)) \<Rightarrow> Some (h\<lparr>domainToIP := Some c'\<rparr>, [Some v])
           | (c', Some None) \<Rightarrow> None
           | (c', None) \<Rightarrow>
               do { n \<leftarrow> ipRange h;
                    let currentTimeMillis = (if rooms n < 64 then unat now mod 2 ^ rooms n else unat now);
                    b \<leftarrow> find_ip n c' (be_value (net_IP n) + currentTimeMillis);
                    let ip = IPAddress (nat_bytes b);
                    Some (h\<lparr>domainToIP := Some (lru_Put c' domain ip)\<rparr>, [ip]) }) }"

definition GetFakeIPForDomain3 :: "Holder \<Rightarrow> u64 \<Rightarrow> gostring \<Rightarrow> bool \<Rightarrow> bool \<Rightarrow> (Holder \<times> Address option list) option" where
  "GetFakeIPForDomain3 h now domain ipv4 ipv6 =
     do { n \<leftarrow> ipRange h;
          let isIPv6 = (To4 (net_IP n) = None);
          if (isIPv6 \<and> ipv6) \<or> (\<not> isIPv6 \<and> ipv4) then GetFakeIPForDomain h now domain else Some (h, []) }"

definition GetDomainFromFakeDNS :: "Holder \<Rightarrow> Address \<Rightarrow> (Holder \<times> gostring) option" where
  "GetDomainFromFakeDNS h ip =
     (case Address_IP ip of
        None \<Rightarrow> Some (h, [])
      | Some b \<Rightarrow>
          do { n \<leftarrow> ipRange h;
               if \<not> IPNet_Contains n b then Some (h, [])
               else do { c \<leftarrow> domainToIP h;
                         (case lru_GetKeyFromValue c (Some ip) of
                            (c', Some k) \<Rightarrow> Some (h\<lparr>domainToIP := Some c'\<rparr>, k)
                          | (c', None) \<Rightarrow> Some (h\<lparr>domainToIP := Some c'\<rparr>, [])) } })"

section \<open>Several pools\<close>

record HolderMulti =
  holders :: "Holder list"
  multi_config :: "FakeDnsPool list"

definition NewFakeDNSHolderMulti :: "FakeDnsPool list \<Rightarrow> HolderMulti" where
  "NewFakeDNSHolderMulti conf =
     \<lparr>holders = map (\<lambda>v. NewFakeDNSHolderConfigOnly (Some v)) conf, multi_config = conf\<rparr>"

fun any_in_pool :: "Holder list \<Rightarrow> Address \<Rightarrow> bool option" where
  "any_in_pool [] ip = Some False"
| "any_in_pool (v # vs) ip =
     do { b \<leftarrow> Holder_IsIPInIPPool v ip; if b then Some True else any_in_pool vs ip }"

definition Multi_IsIPInIPPool :: "HolderMulti \<Rightarrow> Address \<Rightarrow> bool option" where
  "Multi_IsIPInIPPool h ip = (if Family ip = AddressFamilyDomain then Some False else any_in_pool (holders h) ip)"

fun collect_ips :: "(Holder \<Rightarrow> (Holder \<times> Address option list) option) \<Rightarrow> Holder list \<Rightarrow> (Holder list \<times> Address option list) option" where
  "collect_ips ask [] = Some ([], [])"
| "collect_ips ask (v # vs) =
     do { (v', r) \<leftarrow> ask v; (vs', rs) \<leftarrow> collect_ips ask vs; Some (v' # vs', r @ rs) }"

definition Multi_GetFakeIPForDomain3 where
  "Multi_GetFakeIPForDomain3 h now domain ipv4 ipv6 =
     do { (vs, ret) \<leftarrow> collect_ips (\<lambda>v. GetFakeIPForDomain3 v now domain ipv4 ipv6) (holders h);
          Some (h\<lparr>holders := vs\<rparr>, ret) }"

definition Multi_GetFakeIPForDomain where
  "Multi_GetFakeIPForDomain h now domain =
     do { (vs, ret) \<leftarrow> collect_ips (\<lambda>v. GetFakeIPForDomain v now domain) (holders h);
          Some (h\<lparr>holders := vs\<rparr>, ret) }"

fun first_domain :: "Holder list \<Rightarrow> Address \<Rightarrow> (Holder list \<times> gostring) option" where
  "first_domain [] ip = Some ([], [])"
| "first_domain (v # vs) ip =
     do { (v', domain) \<leftarrow> GetDomainFromFakeDNS v ip;
          if domain \<noteq> [] then Some (v' # vs, domain)
          else do { (vs', d) \<leftarrow> first_domain vs ip; Some (v' # vs', d) } }"

definition Multi_GetDomainFromFakeDNS where
  "Multi_GetDomainFromFakeDNS h ip =
     do { (vs, d) \<leftarrow> first_domain (holders h) ip; Some (h\<lparr>holders := vs\<rparr>, d) }"

fun start_all :: "(Holder \<Rightarrow> Holder \<times> goerr option) \<Rightarrow> Holder list \<Rightarrow> Holder list \<times> goerr option" where
  "start_all start [] = ([], None)"
| "start_all start (v # vs) =
     (case fk_config v of
        Some c \<Rightarrow>
          if IpPool c \<noteq> [] \<and> LruSize c \<noteq> 0
          then (case start v of
                  (v', Some e) \<Rightarrow> (v' # vs, Some (ErrMsg ''Cannot start all fake dns pools''))
                | (v', None) \<Rightarrow> (case start_all start vs of (vs', e) \<Rightarrow> (v' # vs', e)))
          else (v # vs, Some (ErrMsg ''invalid fakeDNS setting''))
      | None \<Rightarrow> (v # vs, Some (ErrMsg ''invalid fakeDNS setting'')))"

definition Multi_Start where
  "Multi_Start ParseCIDR log2_ge h =
     (case start_all (Holder_Start ParseCIDR log2_ge) (holders h) of (vs, e) \<Rightarrow> (h\<lparr>holders := vs\<rparr>, e))"

definition Multi_Close :: "HolderMulti \<Rightarrow> HolderMulti" where
  "Multi_Close h = h\<lparr>holders := map Holder_Close (holders h)\<rparr>"

section \<open>Numbers and addresses\<close>

lemma be_value_simps [simp]: "be_value [] = 0" "be_value (bs @ [b]) = be_value bs * 256 + unat b"
  by (simp_all add: be_value_def)

lemma byte_less: "unat (b :: byte) < 256"
  using unsigned_less [of b] by simp

lemma be_value_less: "be_value bs < 256 ^ length bs"
proof (induction bs rule: rev_induct)
  case (snoc b bs)
  have "be_value (bs @ [b]) < (be_value bs + 1) * 256" using byte_less [of b] by simp
  also have "\<dots> \<le> 256 ^ length bs * 256" using snoc by (intro mult_le_mono1) simp
  finally show ?case by (simp add: mult.commute)
qed simp

lemma be_value_ge: "bs \<noteq> [] \<Longrightarrow> hd bs \<noteq> 0 \<Longrightarrow> 256 ^ (length bs - 1) \<le> be_value bs"
proof (induction bs rule: rev_induct)
  case (snoc b bs)
  show ?case
  proof (cases "bs = []")
    case True
    with snoc.prems show ?thesis using unat_gt_0 [of b] by (simp add: be_value_def)
  next
    case False
    with snoc have "256 ^ (length bs - 1) * 256 \<le> be_value bs * 256" by simp
    moreover have "256 ^ (length bs - 1) * 256 = (256 :: nat) ^ length bs"
      using False by (cases bs) (simp_all add: mult.commute)
    ultimately show ?thesis by simp
  qed
qed simp

lemma be_value_nat_bytes [simp]: "be_value (nat_bytes n) = n"
proof (induction n rule: nat_bytes.induct)
  case (1 n)
  then show ?case
    by (subst nat_bytes.simps) (simp add: unat_of_nat take_bit_eq_mod)
qed

lemma nat_bytes_hd: "n \<noteq> 0 \<Longrightarrow> nat_bytes n \<noteq> [] \<and> hd (nat_bytes n) \<noteq> 0"
proof (induction n rule: nat_bytes.induct)
  case (1 n)
  show ?case
  proof (cases "n div 256 = 0")
    case True
    then have "n < 256" by simp
    with 1(2) have "nat_bytes n = [of_nat n]" by (simp add: nat_bytes.simps [of n] nat_bytes.simps [of 0])
    moreover have "(of_nat n :: byte) \<noteq> 0"
      using 1(2) \<open>n < 256\<close> by (simp add: word_of_nat_eq_0_iff) (metis dvd_imp_le not_le neq0_conv)
    ultimately show ?thesis by simp
  next
    case False
    with 1 show ?thesis by (subst (1 2) nat_bytes.simps) auto
  qed
qed

lemma nat_bytes_length:
  assumes "256 ^ k \<le> n" "n < 256 ^ Suc k"
  shows "length (nat_bytes n) = Suc k"
proof -
  have n: "n \<noteq> 0" using le_less_trans [of 0 "256 ^ k" n] assms(1) by (metis not_less power_eq_0_iff zero_neq_numeral neq0_conv less_le_trans)
  note h = nat_bytes_hd [OF n]
  have 1: "256 ^ (length (nat_bytes n) - 1) \<le> n" using be_value_ge [of "nat_bytes n"] h by simp
  have 2: "n < 256 ^ length (nat_bytes n)" using be_value_less [of "nat_bytes n"] by simp
  have "256 ^ (length (nat_bytes n) - 1) < (256 :: nat) ^ Suc k" by (rule le_less_trans [OF 1 assms(2)])
  then have "length (nat_bytes n) - 1 < Suc k" by (rule power_less_imp_less_exp [rotated]) simp
  moreover have "256 ^ k < (256 :: nat) ^ length (nat_bytes n)" by (rule le_less_trans [OF assms(1) 2])
  then have "k < length (nat_bytes n)" by (rule power_less_imp_less_exp [rotated]) simp
  ultimately show ?thesis by simp
qed

section \<open>The addresses of a pool\<close>

text \<open>
  A pool as \<^verbatim>\<open>ParseCIDR\<close> answers it has a network number of 4 or 16 bytes whose host bits are zero; its
  first byte must not be zero, because the bytes of a number have no leading zeros.
\<close>

definition pool_ok :: "IPNet \<Rightarrow> bool" where
  "pool_ok n \<longleftrightarrow> (length (net_IP n) = 4 \<or> length (net_IP n) = 16) \<and> hd (net_IP n) \<noteq> 0 \<and>
     net_ones n \<le> 8 * length (net_IP n) \<and> be_value (net_IP n) mod 2 ^ rooms n = 0"

abbreviation base :: "IPNet \<Rightarrow> nat" where "base n \<equiv> be_value (net_IP n)"

lemma shorten_id: "ip \<noteq> [] \<Longrightarrow> hd ip \<noteq> 0 \<Longrightarrow> shorten ip = ip"
  by (cases ip) (auto simp: shorten_def To4_def v4_mapped_def numeral_eq_Suc)

lemma pool_end:
  assumes "pool_ok n"
  shows "base n + 2 ^ rooms n \<le> 256 ^ length (net_IP n)"
proof -
  let ?r = "rooms n" and ?len = "length (net_IP n)"
  have "256 ^ ?len = (2 :: nat) ^ (8 * ?len)" by (simp add: power_mult)
  also have "\<dots> = 2 ^ net_ones n * 2 ^ ?r" using assms by (simp add: pool_ok_def rooms_def flip: power_add)
  finally have e: "256 ^ ?len = (2 :: nat) ^ net_ones n * 2 ^ ?r" .
  have b: "base n = base n div 2 ^ ?r * 2 ^ ?r"
    using assms by (simp add: pool_ok_def mod_0_imp_dvd)
  from be_value_less [of "net_IP n"] have "base n div 2 ^ ?r * 2 ^ ?r < 2 ^ net_ones n * 2 ^ ?r"
    using b e by simp
  then have "base n div 2 ^ ?r + 1 \<le> 2 ^ net_ones n" by simp
  then have "(base n div 2 ^ ?r + 1) * 2 ^ ?r \<le> 2 ^ net_ones n * 2 ^ ?r" by (intro mult_le_mono1)
  with b e show ?thesis by simp
qed

lemma pool_bytes:
  assumes n: "pool_ok n" and b: "base n \<le> b" "b < base n + 2 ^ rooms n"
  shows "length (nat_bytes b) = length (net_IP n)" "nat_bytes b \<noteq> [] \<and> hd (nat_bytes b) \<noteq> 0"
proof -
  obtain k where k: "length (net_IP n) = Suc k" using n by (auto simp: pool_ok_def)
  have "256 ^ k \<le> base n" using be_value_ge [of "net_IP n"] n k by (cases "net_IP n") (auto simp: pool_ok_def)
  then have lo: "256 ^ k \<le> b" using b(1) by simp
  have hi: "b < 256 ^ Suc k" using pool_end [OF n] b(2) k by simp
  show "length (nat_bytes b) = length (net_IP n)" unfolding k by (rule nat_bytes_length [OF lo hi])
  moreover have "nat_bytes 0 = []" by (simp add: nat_bytes.simps)
  ultimately have "b \<noteq> 0" using k by (intro notI) simp
  then show "nat_bytes b \<noteq> [] \<and> hd (nat_bytes b) \<noteq> 0" by (rule nat_bytes_hd)
qed

lemma pool_div:
  assumes "pool_ok n"
  shows "b div 2 ^ rooms n = base n div 2 ^ rooms n \<longleftrightarrow> base n \<le> b \<and> b < base n + 2 ^ rooms n"
proof -
  have d: "base n = base n div 2 ^ rooms n * 2 ^ rooms n"
    using assms by (simp add: pool_ok_def mod_0_imp_dvd)
  show ?thesis
    by (subst d, subst (2) d) (metis d div_nat_eqI dividend_less_times_div mult.commute mult_Suc add.commute times_div_less_eq_dividend zero_less_power zero_less_numeral)
qed

lemma Contains_number:
  assumes n: "pool_ok n" and b: "b \<noteq> 0"
  shows "IPNet_Contains n (nat_bytes b) \<longleftrightarrow> base n \<le> b \<and> b < base n + 2 ^ rooms n"
proof -
  have s: "shorten (nat_bytes b) = nat_bytes b" using nat_bytes_hd [OF b] by (simp add: shorten_id)
  have "net_IP n \<noteq> []" using n by (auto simp: pool_ok_def)
  then have t: "shorten (net_IP n) = net_IP n" using n by (intro shorten_id) (auto simp: pool_ok_def)
  show ?thesis unfolding IPNet_Contains_def s t be_value_nat_bytes pool_div [OF n]
    using pool_bytes(1) [OF n] by auto
qed

lemma next_ip_wraps:
  assumes n: "pool_ok n" and k: "k < 2 ^ rooms n"
  shows "next_ip n (base n + k) = base n + Suc k mod 2 ^ rooms n"
proof -
  have "IPNet_Contains n (nat_bytes (base n + k + 1)) \<longleftrightarrow> Suc k < 2 ^ rooms n"
    using Contains_number [OF n, of "base n + k + 1"] by auto
  moreover have "Suc k mod 2 ^ rooms n = (if Suc k < 2 ^ rooms n then Suc k else 0)"
  proof (cases "Suc k < 2 ^ rooms n")
    case False
    with k have "Suc k = 2 ^ rooms n" by linarith
    then show ?thesis by simp
  qed simp
  ultimately show ?thesis by (simp add: next_ip_def)
qed

definition pool_addr :: "IPNet \<Rightarrow> nat \<Rightarrow> Address" where
  "pool_addr n b = (if length (net_IP n) = 4 then ipv4Address (nat_bytes b) else ipv6Address (nat_bytes b))"

lemma pool_IPAddress:
  assumes "pool_ok n" "base n \<le> b" "b < base n + 2 ^ rooms n"
  shows "IPAddress (nat_bytes b) = Some (pool_addr n b)"
proof -
  have "\<not> v4_mapped (nat_bytes b)" using pool_bytes(2) [OF assms] by (cases "nat_bytes b") (auto simp: v4_mapped_def numeral_eq_Suc)
  then show ?thesis using pool_bytes(1) [OF assms] assms(1) by (auto simp: IPAddress_def pool_addr_def pool_ok_def)
qed

lemma pool_addr_inj: "pool_addr n a = pool_addr n b \<Longrightarrow> a = b"
  by (auto simp: pool_addr_def split: if_splits) (metis be_value_nat_bytes)+

lemma pool_addr_props:
  "Address_IP (pool_addr n b) = Some (nat_bytes b)" "Family (pool_addr n b) \<noteq> AddressFamilyDomain"
  by (simp_all add: pool_addr_def)

section \<open>The search for a free address\<close>

text \<open>From every starting point the loop meets a free address if there is one, because it goes round
  the pool.\<close>

lemma find_ip_from:
  assumes n: "pool_ok n"
  shows "k < 2 ^ rooms n \<Longrightarrow>
    lru_PeekKeyFromValue c (IPAddress (nat_bytes (base n + (k + d) mod 2 ^ rooms n))) = None \<Longrightarrow>
    \<exists>k' < 2 ^ rooms n. find_ip n c (base n + k) = Some (base n + k') \<and>
      lru_PeekKeyFromValue c (IPAddress (nat_bytes (base n + k'))) = None"
proof (induction d arbitrary: k)
  case 0
  then show ?case by (intro exI [of _ k]) (simp add: find_ip_def while_option_unfold)
next
  case (Suc d)
  show ?case
  proof (cases "lru_PeekKeyFromValue c (IPAddress (nat_bytes (base n + k)))")
    case None
    with Suc.prems(1) show ?thesis by (intro exI [of _ k]) (simp add: find_ip_def while_option_unfold)
  next
    case (Some x)
    have "find_ip n c (base n + k) = find_ip n c (base n + Suc k mod 2 ^ rooms n)"
      using Some next_ip_wraps [OF n Suc.prems(1)]
      by (simp add: find_ip_def while_option_unfold [of _ _ "base n + k"])
    moreover have "(Suc k mod 2 ^ rooms n + d) mod 2 ^ rooms n = (k + Suc d) mod 2 ^ rooms n"
      by (simp add: mod_add_left_eq)
    ultimately show ?thesis using Suc.IH [of "Suc k mod 2 ^ rooms n"] Suc.prems(2) by simp
  qed
qed

lemma find_ip_returns:
  assumes n: "pool_ok n" and c: "lru_inv c" "nat (capacity c) < 2 ^ rooms n" and k: "k < 2 ^ rooms n"
  obtains k' where "k' < 2 ^ rooms n" "find_ip n c (base n + k) = Some (base n + k')"
    "Some (pool_addr n (base n + k')) \<notin> snd ` set (lru_content c)"
proof -
  let ?A = "(\<lambda>i. Some (pool_addr n (base n + i))) ` {..<2 ^ rooms n}"
  have addr: "IPAddress (nat_bytes (base n + i)) = Some (pool_addr n (base n + i))" if "i < 2 ^ rooms n" for i
    using pool_IPAddress [OF n, of "base n + i"] that by simp
  have "inj_on (\<lambda>i. Some (pool_addr n (base n + i))) {..<2 ^ rooms n}"
    by (auto intro!: inj_onI dest: pool_addr_inj)
  then have "card ?A = 2 ^ rooms n" by (simp add: card_image)
  with c(2) have "nat (capacity c) < card ?A" by simp
  from lruc.free_value [OF c(1) _ this] obtain i where i: "i < 2 ^ rooms n"
    "lru_PeekKeyFromValue c (Some (pool_addr n (base n + i))) = None" by blast
  have "(k + (i + 2 ^ rooms n - k)) mod 2 ^ rooms n = i" using i(1) k by simp
  with i addr have "lru_PeekKeyFromValue c (IPAddress (nat_bytes (base n + (k + (i + 2 ^ rooms n - k)) mod 2 ^ rooms n))) = None"
    by simp
  from find_ip_from [OF n k this] obtain k' where k': "k' < 2 ^ rooms n" "find_ip n c (base n + k) = Some (base n + k')"
    "lru_PeekKeyFromValue c (IPAddress (nat_bytes (base n + k'))) = None" by blast
  with addr lruc.peek_None [OF c(1)] show thesis by (intro that [of k']) auto
qed

section \<open>The holder\<close>

definition holder_ok :: "Holder \<Rightarrow> bool" where
  "holder_ok h \<longleftrightarrow> (\<exists>c n. domainToIP h = Some c \<and> ipRange h = Some n \<and> pool_ok n \<and> lru_inv c \<and>
     1 \<le> capacity c \<and> nat (capacity c) < 2 ^ rooms n \<and>
     (\<forall>v \<in> snd ` set (lru_content c). \<exists>k < 2 ^ rooms n. v = Some (pool_addr n (base n + k))))"

text \<open>One request: the name is in the cache afterwards, with an address of the pool.\<close>

lemma GetFakeIP_ok:
  assumes "holder_ok h"
  obtains h' c' n k where "GetFakeIPForDomain h now d = Some (h', [Some (pool_addr n (base n + k))])"
    "holder_ok h'" "ipRange h' = Some n" "pool_ok n" "k < 2 ^ rooms n" "domainToIP h' = Some c'"
    "(d, Some (pool_addr n (base n + k))) \<in> set (lru_content c')"
    "\<And>c d'. domainToIP h = Some c \<Longrightarrow> (d', Some (pool_addr n (base n + k))) \<in> set (lru_content c) \<Longrightarrow> d' = d"
proof -
  from assms obtain c n where c: "domainToIP h = Some c" "ipRange h = Some n" "pool_ok n" "lru_inv c"
    "1 \<le> capacity c" "nat (capacity c) < 2 ^ rooms n"
    and vals: "\<forall>v \<in> snd ` set (lru_content c). \<exists>k < 2 ^ rooms n. v = Some (pool_addr n (base n + k))"
    unfolding holder_ok_def by blast
  obtain c1 r where g: "lru_Get c d = (c1, r)" by (cases "lru_Get c d")
  note G = lru_Get_content [OF c(4) g]
  have G': "lru_inv c1" "capacity c1 = capacity c" "r = map_of (lru_content c) d" "set (lru_content c1) = set (lru_content c)"
    using G lruc.get_law [OF c(4) g] by auto
  show thesis
  proof (cases r)
    case (Some v)
    with G'(3) have m: "(d, v) \<in> set (lru_content c)" by (simp add: map_of_SomeD)
    then have "v \<in> snd ` set (lru_content c)" by force
    with vals obtain k where k: "k < 2 ^ rooms n" "v = Some (pool_addr n (base n + k))" by blast
    let ?h = "h\<lparr>domainToIP := Some c1\<rparr>"
    have "holder_ok ?h" unfolding holder_ok_def
      by (intro exI [of _ c1] exI [of _ n]) (use c G' vals in simp)
    moreover have "GetFakeIPForDomain h now d = Some (?h, [v])"
      using c(1) g Some k(2) by (simp add: GetFakeIPForDomain_def)
    moreover have "d' = d" if "(d', v) \<in> set (lru_content c)" for d'
      by (rule lruc.value_unique [OF c(4) that m])
    moreover have "(d, v) \<in> set (lru_content c1)" using m G'(4) by simp
    ultimately show thesis
      by (intro that [of ?h n k c1]; use k(1) c(1-3) in \<open>simp add: k(2) [symmetric]\<close>)
  next
    case None
    with G'(3,4) have d: "d \<notin> fst ` set (lru_content c1)" by (metis map_of_eq_None_iff)
    let ?t = "if rooms n < 64 then unat now mod 2 ^ rooms n else unat now"
    have "?t < 2 ^ rooms n"
    proof (cases "rooms n < 64")
      case False
      have "unat now < 2 ^ 64" using unsigned_less [of now] by simp
      also have "\<dots> \<le> (2 :: nat) ^ rooms n" using False by (intro power_increasing) auto
      finally show ?thesis using False by simp
    qed simp
    from find_ip_returns [OF c(3) G'(1) _ this] c(6) G'(2) obtain k where k: "k < 2 ^ rooms n"
      "find_ip n c1 (base n + ?t) = Some (base n + k)" "Some (pool_addr n (base n + k)) \<notin> snd ` set (lru_content c1)" by auto
    let ?v = "Some (pool_addr n (base n + k))" and ?c = "lru_Put c1 d (Some (pool_addr n (base n + k)))"
    let ?h = "h\<lparr>domainToIP := Some ?c\<rparr>"
    have addr: "IPAddress (nat_bytes (base n + k)) = ?v" using pool_IPAddress [OF c(3)] k(1) by simp
    note P = lruc.put_law [OF G'(1) d k(3)]
    have cap: "capacity ?c = capacity c"
      using lru_Put_inv [OF G'(1), of d ?v] d k(3) G'(2) by (simp add: may_put_def)
    have sub: "set (lru_content ?c) \<subseteq> insert (d, ?v) (set (lru_content c1))"
      using P set_take_subset [of "nat (capacity c1)" "(d, ?v) # lru_content c1"] by simp
    have "\<exists>k < 2 ^ rooms n. v = Some (pool_addr n (base n + k))" if "v \<in> snd ` set (lru_content ?c)" for v
    proof -
      from that sub G'(4) have "v = ?v \<or> v \<in> snd ` set (lru_content c)" by auto
      then show ?thesis using vals k(1) by blast
    qed
    then have "holder_ok ?h" unfolding holder_ok_def
      by (intro exI [of _ ?c] exI [of _ n]) (use c P cap G'(2) in simp)
    moreover have "GetFakeIPForDomain h now d = Some (?h, [?v])"
      using c g None k(2) addr by (simp add: GetFakeIPForDomain_def Let_def)
    moreover have "(d, ?v) \<in> set (lru_content ?c)"
      by (rule lruc.put_member [OF G'(1) d k(3)]) (use c(5) G'(2) in simp)
    moreover have "(d', ?v) \<notin> set (lru_content c)" for d' using k(3) G'(4) by force
    ultimately show thesis using k(1) c(1-3) by (intro that [of ?h n k ?c]) simp_all
  qed
qed

lemma GetDomain_ok:
  assumes "holder_ok h"
  shows "\<exists>h' d. GetDomainFromFakeDNS h ip = Some (h', d) \<and> holder_ok h'"
proof -
  from assms obtain c n where c: "domainToIP h = Some c" "ipRange h = Some n" "lru_inv c" unfolding holder_ok_def by blast
  obtain c1 r where g: "lru_GetKeyFromValue c (Some ip) = (c1, r)" by (cases "lru_GetKeyFromValue c (Some ip)")
  have "capacity c1 = capacity c" using lru_GetKey_content [OF c(3) g] by blast
  with lruc.getkey_law [OF c(3) g] assms c have "holder_ok (h\<lparr>domainToIP := Some c1\<rparr>)"
    by (auto simp: holder_ok_def)
  with c g assms show ?thesis
    by (auto simp: GetDomainFromFakeDNS_def split: option.split)
qed

lemma GetDomain_finds:
  assumes "holder_ok h" "domainToIP h = Some c" "ipRange h = Some n" "k < 2 ^ rooms n"
    "(d, Some (pool_addr n (base n + k))) \<in> set (lru_content c)"
  shows "\<exists>h'. GetDomainFromFakeDNS h (pool_addr n (base n + k)) = Some (h', d)"
    and "Holder_IsIPInIPPool h (pool_addr n (base n + k)) = Some True"
proof -
  have n: "pool_ok n" and c: "lru_inv c" using assms by (auto simp: holder_ok_def)
  have "nat_bytes 0 = []" by (simp add: nat_bytes.simps)
  with pool_bytes(2) [OF n, of "base n + k"] assms(4) have "base n + k \<noteq> 0" by (metis add_less_cancel_left le_add1)
  with Contains_number [OF n] assms(4) have "IPNet_Contains n (nat_bytes (base n + k))" by simp
  with lruc.getkey_member [OF c assms(5)] assms(2,3)
  show "\<exists>h'. GetDomainFromFakeDNS h (pool_addr n (base n + k)) = Some (h', d)"
    "Holder_IsIPInIPPool h (pool_addr n (base n + k)) = Some True"
    by (auto simp: GetDomainFromFakeDNS_def Holder_IsIPInIPPool_def pool_addr_props split: prod.split option.split)
qed

section \<open>Properties\<close>

datatype fk_op = FGet gostring u64 | FGet3 gostring u64 bool bool | FDomain Address

fun fk_run :: "Holder \<Rightarrow> fk_op list \<Rightarrow> Holder option" where
  "fk_run h [] = Some h"
| "fk_run h (FGet d now # ops) = do { (h', _) \<leftarrow> GetFakeIPForDomain h now d; fk_run h' ops }"
| "fk_run h (FGet3 d now v4 v6 # ops) = do { (h', _) \<leftarrow> GetFakeIPForDomain3 h now d v4 v6; fk_run h' ops }"
| "fk_run h (FDomain ip # ops) = do { (h', _) \<leftarrow> GetDomainFromFakeDNS h ip; fk_run h' ops }"

lemma fk_run_ok: "holder_ok h \<Longrightarrow> \<exists>h'. fk_run h ops = Some h' \<and> holder_ok h'"
proof (induction ops arbitrary: h)
  case (Cons op ops)
  have get: "\<exists>h' r. GetFakeIPForDomain h now d = Some (h', r) \<and> holder_ok h'" for now d
    using GetFakeIP_ok [OF Cons.prems, of now d] by metis
  show ?case
  proof (cases op)
    case (FGet d now)
    with get [of now d] Cons.IH show ?thesis by auto
  next
    case (FGet3 d now v4 v6)
    obtain n where "ipRange h = Some n" using Cons.prems by (auto simp: holder_ok_def)
    with FGet3 get [of now d] Cons show ?thesis by (auto simp: GetFakeIPForDomain3_def Let_def)
  next
    case (FDomain ip)
    with GetDomain_ok [OF Cons.prems, of ip] Cons.IH show ?thesis by auto
  qed
qed simp

lemma Holder_Start_ok:
  assumes "ParseCIDR pool = Inr n" "pool_ok n" "1 \<le> sz" "\<And>k r. 2 ^ r \<le> k \<Longrightarrow> log2_ge k r"
    and "Holder_Start ParseCIDR log2_ge (NewFakeDNSHolderConfigOnly (Some \<lparr>IpPool = pool, LruSize = sz\<rparr>)) = (h, None)"
  shows "holder_ok h" "nat sz = (case domainToIP h of None \<Rightarrow> 0 | Some c \<Rightarrow> nat (capacity c))"
proof -
  from assms(1,5) have h: "domainToIP h = Some (NewLru sz)" "ipRange h = Some n" and l: "\<not> log2_ge sz (rooms n)"
    by (auto simp: Holder_Start_def NewFakeDNSHolderConfigOnly_def initializeFromConfig_def fk_initialize_def split: if_splits)
  from l assms(4) [of "rooms n" sz] have "sz < 2 ^ rooms n" by (meson not_less)
  then have "nat sz < 2 ^ rooms n" using assms(3) by (simp add: nat_less_iff)
  with h assms(2,3) show "holder_ok h" "nat sz = (case domainToIP h of None \<Rightarrow> 0 | Some c \<Rightarrow> nat (capacity c))"
    by (auto simp: holder_ok_def)
qed

text \<open>How long a pair stays: every request moves it down by at most one place.\<close>

lemma take_touch: "x \<in> set (take m xs) \<Longrightarrow> x \<in> set (take (Suc m) (touch y xs))"
proof -
  have "x \<in> set (take m xs) \<Longrightarrow> x \<noteq> y \<Longrightarrow> x \<in> set (take m (remove1 y xs))" for m
  proof (induction xs arbitrary: m)
    case (Cons z xs)
    then show ?case
    proof (cases m)
      case (Suc k)
      have "set (take k xs) \<subseteq> set (take (Suc k) xs)" by (rule set_take_subset_set_take) simp
      with Cons Suc show ?thesis by auto
    qed simp
  qed simp
  then show "x \<in> set (take m xs) \<Longrightarrow> x \<in> set (take (Suc m) (touch y xs))" by (auto simp: touch_def)
qed

lemma GetFakeIP_content:
  assumes "holder_ok h" "domainToIP h = Some c" "GetFakeIPForDomain h now d = Some (h', r)"
  obtains c' v where "domainToIP h' = Some c'" "ipRange h' = ipRange h" "capacity c' = capacity c" "r = [v]"
    "lru_content c' = touch (d, v) (lru_content c) \<or> lru_content c' = take (nat (capacity c)) ((d, v) # lru_content c)"
proof -
  have inv: "lru_inv c" using assms(1,2) by (auto simp: holder_ok_def)
  obtain c1 x where g: "lru_Get c d = (c1, x)" by (cases "lru_Get c d")
  have G: "lru_inv c1" "capacity c1 = capacity c" "x = map_of (lru_content c) d"
    "lru_content c1 = (case x of None \<Rightarrow> lru_content c | Some v \<Rightarrow> touch (d, v) (lru_content c))"
    using lru_Get_content [OF inv g] by blast+
  show thesis
  proof (cases x)
    case (Some v)
    with assms(2,3) g have "h' = h\<lparr>domainToIP := Some c1\<rparr>" "r = [v]" by (auto simp: GetFakeIPForDomain_def split: option.splits)
    moreover have "lru_content c1 = touch (d, v) (lru_content c)" using G(4) Some by simp
    ultimately show thesis using that [of c1 v] G(2) by simp
  next
    case None
    with assms(2,3) g obtain n b where b: "find_ip n c1 (be_value (net_IP n) + (if rooms n < 64 then unat now mod 2 ^ rooms n else unat now)) = Some b"
      "h' = h\<lparr>domainToIP := Some (lru_Put c1 d (IPAddress (nat_bytes b)))\<rparr>" "r = [IPAddress (nat_bytes b)]"
      by (auto simp: GetFakeIPForDomain_def Let_def bind_eq_Some_conv)
    have "lru_PeekKeyFromValue c1 (IPAddress (nat_bytes b)) = None" using while_option_stop [OF b(1) [unfolded find_ip_def]] by simp
    then have free: "IPAddress (nat_bytes b) \<notin> snd ` set (lru_content c1)" using lruc.peek_None [OF G(1)] by blast
    have same: "lru_content c1 = lru_content c" using None G(4) by simp
    have new: "d \<notin> fst ` set (lru_content c1)" unfolding same using None G(3) by (metis map_of_eq_None_iff)
    have "capacity (lru_Put c1 d (IPAddress (nat_bytes b))) = capacity c1"
      using lru_Put_inv [OF G(1), of d "IPAddress (nat_bytes b)"] free new by (simp add: may_put_def)
    with that [of "lru_Put c1 d (IPAddress (nat_bytes b))" "IPAddress (nat_bytes b)"] lruc.put_law [OF G(1) new free] b(2,3) G(2) same show thesis
      by simp
  qed
qed

definition recent :: "Holder \<Rightarrow> nat \<Rightarrow> gostring \<Rightarrow> Address \<Rightarrow> bool" where
  "recent h m d ip \<longleftrightarrow> (\<exists>c. domainToIP h = Some c \<and> (d, Some ip) \<in> set (take m (lru_content c)))"

definition room_of :: "Holder \<Rightarrow> nat" where
  "room_of h = (case domainToIP h of None \<Rightarrow> 0 | Some c \<Rightarrow> nat (capacity c))"

lemma room_GetFakeIP:
  assumes "holder_ok h" "GetFakeIPForDomain h now d = Some (h', r)"
  shows "holder_ok h' \<and> room_of h' = room_of h"
proof -
  obtain c where c: "domainToIP h = Some c" using assms(1) by (auto simp: holder_ok_def)
  obtain c' v where "domainToIP h' = Some c'" "capacity c' = capacity c" by (rule GetFakeIP_content [OF assms(1) c assms(2)])
  moreover have "holder_ok h'" using GetFakeIP_ok [OF assms(1), of now d] assms(2) by (metis option.inject prod.inject)
  ultimately show ?thesis using c by (simp add: room_of_def)
qed

lemma room_GetDomain:
  assumes "holder_ok h" "GetDomainFromFakeDNS h a = Some (h', d)"
  shows "holder_ok h' \<and> room_of h' = room_of h"
proof -
  obtain c where c: "domainToIP h = Some c" "lru_inv c" using assms(1) by (auto simp: holder_ok_def)
  obtain c1 x where g: "lru_GetKeyFromValue c (Some a) = (c1, x)" by (cases "lru_GetKeyFromValue c (Some a)")
  have "capacity c1 = capacity c" using lru_GetKey_content [OF c(2) g] by blast
  moreover have "h' = h \<or> h' = h\<lparr>domainToIP := Some c1\<rparr>"
    using assms(2) c(1) g by (auto simp: GetDomainFromFakeDNS_def bind_eq_Some_conv split: option.splits if_splits)
  ultimately have "room_of h' = room_of h" using c(1) by (auto simp: room_of_def)
  moreover have "holder_ok h'" using GetDomain_ok [OF assms(1), of a] assms(2) by auto
  ultimately show ?thesis by simp
qed

lemma fk_run_room: "holder_ok h \<Longrightarrow> fk_run h ops = Some h' \<Longrightarrow> room_of h' = room_of h"
proof (induction h ops rule: fk_run.induct)
  case (2 h d now ops)
  then show ?case by (auto simp: bind_eq_Some_conv dest: room_GetFakeIP)
next
  case (3 h d now v4 v6 ops)
  from "3.prems"(2) obtain h1 r where g: "GetFakeIPForDomain3 h now d v4 v6 = Some (h1, r)" "fk_run h1 ops = Some h'"
    by (auto simp: bind_eq_Some_conv)
  then have "h1 = h \<or> GetFakeIPForDomain h now d = Some (h1, r)"
    by (auto simp: GetFakeIPForDomain3_def Let_def bind_eq_Some_conv split: if_splits)
  then have "holder_ok h1 \<and> room_of h1 = room_of h" using room_GetFakeIP "3.prems"(1) by blast
  with "3.IH" g show ?case by fastforce
next
  case (4 h ip ops)
  then show ?case by (auto simp: bind_eq_Some_conv dest: room_GetDomain)
qed simp

lemma recent_GetFakeIP:
  assumes "holder_ok h" "recent h m d ip" "m < room_of h" "GetFakeIPForDomain h now d' = Some (h', r)"
  shows "recent h' (Suc m) d ip \<and> room_of h' = room_of h \<and> ipRange h' = ipRange h"
proof -
  obtain c where c: "domainToIP h = Some c" "(d, Some ip) \<in> set (take m (lru_content c))" using assms(2) by (auto simp: recent_def)
  obtain c' v where c': "domainToIP h' = Some c'" "ipRange h' = ipRange h" "capacity c' = capacity c"
    "lru_content c' = touch (d', v) (lru_content c) \<or> lru_content c' = take (nat (capacity c)) ((d', v) # lru_content c)"
    by (rule GetFakeIP_content [OF assms(1) c(1) assms(4)])
  have "Suc m \<le> nat (capacity c)" using assms(3) c(1) by (simp add: room_of_def)
  then have "(d, Some ip) \<in> set (take (Suc m) (lru_content c'))"
    using c'(4) take_touch [OF c(2), of "(d', v)"] c(2) by (auto simp: min_absorb1)
  with c c' show ?thesis by (simp add: recent_def room_of_def)
qed

lemma recent_GetDomain:
  assumes "holder_ok h" "recent h m d ip" "GetDomainFromFakeDNS h a = Some (h', d')"
  shows "recent h' (Suc m) d ip \<and> room_of h' = room_of h \<and> ipRange h' = ipRange h"
proof -
  obtain c where c: "domainToIP h = Some c" "(d, Some ip) \<in> set (take m (lru_content c))" using assms(2) by (auto simp: recent_def)
  have inv: "lru_inv c" using assms(1) c(1) by (auto simp: holder_ok_def)
  have same: "(d, Some ip) \<in> set (take (Suc m) (lru_content c))" using c(2) set_take_subset_set_take [of m "Suc m" "lru_content c"] by auto
  obtain c1 x where g: "lru_GetKeyFromValue c (Some a) = (c1, x)" by (cases "lru_GetKeyFromValue c (Some a)")
  have G: "capacity c1 = capacity c" "(d, Some ip) \<in> set (take (Suc m) (lru_content c1))"
    using lru_GetKey_content [OF inv g] take_touch [OF c(2)] same by (auto split: option.splits)
  from assms(3) c(1) g have "h' = h \<or> h' = h\<lparr>domainToIP := Some c1\<rparr>"
    by (auto simp: GetDomainFromFakeDNS_def bind_eq_Some_conv split: option.splits if_splits)
  with c(1) G same show ?thesis by (auto simp: recent_def room_of_def)
qed

lemma fk_run_recent:
  assumes "holder_ok h" "recent h m d ip" "m + length ops \<le> room_of h" "fk_run h ops = Some h'"
  shows "recent h' (m + length ops) d ip \<and> ipRange h' = ipRange h"
  using assms
proof (induction ops arbitrary: h m)
  case (Cons opn ops)
  have less: "recent h (Suc m) d ip" using Cons.prems(2) set_take_subset_set_take [of m "Suc m"] by (fastforce simp: recent_def)
  obtain h1 where h1: "fk_run h1 ops = Some h'" "holder_ok h1" "recent h1 (Suc m) d ip" "room_of h1 = room_of h" "ipRange h1 = ipRange h"
  proof (cases opn)
    case (FGet d' now)
    with Cons.prems(4) obtain h1 r where g: "GetFakeIPForDomain h now d' = Some (h1, r)" "fk_run h1 ops = Some h'"
      by (auto simp: bind_eq_Some_conv)
    have "holder_ok h1" using room_GetFakeIP [OF Cons.prems(1) g(1)] by simp
    with that [of h1] g recent_GetFakeIP [OF Cons.prems(1,2) _ g(1)] Cons.prems(3) show thesis by simp
  next
    case (FGet3 d' now v4 v6)
    with Cons.prems(4) obtain h1 r where g: "GetFakeIPForDomain3 h now d' v4 v6 = Some (h1, r)" "fk_run h1 ops = Some h'"
      by (auto simp: bind_eq_Some_conv)
    then consider "h1 = h" | "GetFakeIPForDomain h now d' = Some (h1, r)"
      by (auto simp: GetFakeIPForDomain3_def Let_def bind_eq_Some_conv split: if_splits)
    then show thesis
    proof cases
      case 1
      with that [of h1] g less Cons.prems(1) show thesis by simp
    next
      case 2
      have "holder_ok h1" using room_GetFakeIP [OF Cons.prems(1) 2] by simp
      with that [of h1] g recent_GetFakeIP [OF Cons.prems(1,2) _ 2] Cons.prems(3) show thesis by simp
    qed
  next
    case (FDomain a)
    with Cons.prems(4) obtain h1 x where g: "GetDomainFromFakeDNS h a = Some (h1, x)" "fk_run h1 ops = Some h'"
      by (auto simp: bind_eq_Some_conv)
    have "holder_ok h1" using room_GetDomain [OF Cons.prems(1) g(1)] by simp
    with that [of h1] g recent_GetDomain [OF Cons.prems(1,2) g(1)] show thesis by simp
  qed
  from Cons.IH [OF h1(2,3)] h1 Cons.prems(3) show ?case by simp
qed simp

text \<open>The address of a name after further requests, fewer than the cache has entries.\<close>

lemma fake_address_stays:
  assumes "holder_ok h" "GetFakeIPForDomain h now d = Some (h1, [Some ip])" "length later < room_of h"
  obtains h2 c2 n k where "fk_run h1 later = Some h2" "holder_ok h2" "ipRange h2 = Some n" "k < 2 ^ rooms n" "ip = pool_addr n (base n + k)"
    "domainToIP h2 = Some c2" "(d, Some ip) \<in> set (lru_content c2)"
proof -
  obtain h' c0 n k where "GetFakeIPForDomain h now d = Some (h', [Some (pool_addr n (base n + k))])" "holder_ok h'"
    "ipRange h' = Some n" "k < 2 ^ rooms n" by (rule GetFakeIP_ok [OF assms(1), of now d])
  then have 1: "holder_ok h1" "ipRange h1 = Some n" "k < 2 ^ rooms n" "ip = pool_addr n (base n + k)" using assms(2) by simp_all
  obtain c where c: "domainToIP h = Some c" "1 \<le> capacity c" using assms(1) by (auto simp: holder_ok_def)
  obtain c' v where c': "domainToIP h1 = Some c'" "capacity c' = capacity c" "[Some ip] = [v]"
    "lru_content c' = touch (d, v) (lru_content c) \<or> lru_content c' = take (nat (capacity c)) ((d, v) # lru_content c)"
    by (rule GetFakeIP_content [OF assms(1) c(1) assms(2)])
  have "0 < nat (capacity c)" using c(2) by simp
  then have "(d, Some ip) \<in> set (take 1 (lru_content c'))" using c'(3,4) by (auto simp: touch_def take_Cons')
  then have r: "recent h1 1 d ip" using c'(1) by (simp add: recent_def)
  have room: "1 + length later \<le> room_of h1" using assms(3) c c' by (simp add: room_of_def)
  obtain h2 where h2: "fk_run h1 later = Some h2" "holder_ok h2" using fk_run_ok [OF 1(1)] by blast
  from fk_run_recent [OF 1(1) r room h2(1)] obtain c2 where "domainToIP h2 = Some c2" "(d, Some ip) \<in> set (lru_content c2)" "ipRange h2 = Some n"
    using 1(2) by (auto simp: recent_def dest: in_set_takeD)
  with that h2 1 show thesis by blast
qed

text \<open>
  C30: fake DNS is consistent. Take a pool that is an aligned network of 4 or 16 bytes whose first byte is not 0, with a cache
  of at least one entry and fewer entries than the pool has addresses. After any sequence of
  requests, the next request for a name is answered (the search for a free address comes to an end
  and no operation panics) with an address of the pool. As long as fewer further requests than the cache has entries
  have come in, that address leads back to the name, and the answer for another name is a different address.
\<close>

theorem fakedns_consistent:
  assumes "ParseCIDR pool = Inr n" "pool_ok n" "1 \<le> sz" "\<And>k r. 2 ^ r \<le> k \<Longrightarrow> log2_ge k r"
    and "Holder_Start ParseCIDR log2_ge (NewFakeDNSHolderConfigOnly (Some \<lparr>IpPool = pool, LruSize = sz\<rparr>)) = (h0, None)"
    and "d \<noteq> d'" "int (length later) < sz"
  shows "\<exists>h h1 ip h2 h3 h4 ip'. fk_run h0 ops = Some h \<and>
    GetFakeIPForDomain h now d = Some (h1, [Some ip]) \<and> Holder_IsIPInIPPool h1 ip = Some True \<and>
    fk_run h1 later = Some h2 \<and> GetDomainFromFakeDNS h2 ip = Some (h3, d) \<and>
    GetFakeIPForDomain h2 now' d' = Some (h4, [Some ip']) \<and> ip' \<noteq> ip"
proof -
  note start = Holder_Start_ok [OF assms(1-5)]
  from fk_run_ok [OF start(1)] obtain h where h: "fk_run h0 ops = Some h" "holder_ok h" by blast
  have room: "room_of h = nat sz" using fk_run_room [OF start(1) h(1)] start(2) by (simp add: room_of_def)
  from GetFakeIP_ok [OF h(2), of now d] obtain h1 c1 n k
    where 1: "GetFakeIPForDomain h now d = Some (h1, [Some (pool_addr n (base n + k))])"
      "holder_ok h1" "ipRange h1 = Some n" "k < 2 ^ rooms n" "domainToIP h1 = Some c1"
      "(d, Some (pool_addr n (base n + k))) \<in> set (lru_content c1)" by metis
  let ?ip = "pool_addr n (base n + k)"
  have pool: "Holder_IsIPInIPPool h1 ?ip = Some True" by (rule GetDomain_finds(2) [OF 1(2,5,3,4,6)])
  have len: "length later < room_of h" using room assms(7) by simp
  obtain h2 c2 n' k' where 2: "fk_run h1 later = Some h2" "holder_ok h2" "ipRange h2 = Some n'" "k' < 2 ^ rooms n'"
    "?ip = pool_addr n' (base n' + k')" "domainToIP h2 = Some c2" "(d, Some ?ip) \<in> set (lru_content c2)"
    by (rule fake_address_stays [OF h(2) 1(1) len])
  from GetDomain_finds(1) [OF 2(2,6,3,4)] 2(5,7) obtain h3 where 3: "GetDomainFromFakeDNS h2 ?ip = Some (h3, d)" by auto
  from GetFakeIP_ok [OF 2(2), of now' d'] obtain h4 m j where
    4: "GetFakeIPForDomain h2 now' d' = Some (h4, [Some (pool_addr m (base m + j))])"
      "\<And>c d''. domainToIP h2 = Some c \<Longrightarrow> (d'', Some (pool_addr m (base m + j))) \<in> set (lru_content c) \<Longrightarrow> d'' = d'" by metis
  from 4(2) [OF 2(6), of d] 2(7) assms(6) have "pool_addr m (base m + j) \<noteq> ?ip" by auto
  with h(1) 1(1) pool 2(1) 3 4(1) show ?thesis by blast
qed

definition demo_net :: IPNet where "demo_net = \<lparr>net_IP = [198, 18, 0, 0], net_ones = 30\<rparr>"

theorem fakedns_consistent_witness:
  "\<exists>h h1 ip h2 h3 h4 ip'.
    fk_run (NewFakeDNSHolderConfigOnly (Some \<lparr>IpPool = gostr ''198.18.0.0/30'', LruSize = 2\<rparr>)
        \<lparr>domainToIP := Some (NewLru 2), ipRange := Some demo_net\<rparr>) [FGet (gostr ''a'') 7, FGet (gostr ''b'') 7] = Some h \<and>
    GetFakeIPForDomain h 7 (gostr ''c'') = Some (h1, [Some ip]) \<and> Holder_IsIPInIPPool h1 ip = Some True \<and>
    fk_run h1 [FGet (gostr ''e'') 8] = Some h2 \<and> GetDomainFromFakeDNS h2 ip = Some (h3, gostr ''c'') \<and>
    GetFakeIPForDomain h2 8 (gostr ''d'') = Some (h4, [Some ip']) \<and> ip' \<noteq> ip"
proof -
  have r: "rooms demo_net = 2" by (simp add: rooms_def demo_net_def)
  have "pool_ok demo_net"
    unfolding pool_ok_def r by (simp add: demo_net_def be_value_def)
  moreover have "Holder_Start (\<lambda>_. Inr demo_net) (\<lambda>k r. 2 ^ r \<le> k)
      (NewFakeDNSHolderConfigOnly (Some \<lparr>IpPool = gostr ''198.18.0.0/30'', LruSize = 2\<rparr>)) =
      (NewFakeDNSHolderConfigOnly (Some \<lparr>IpPool = gostr ''198.18.0.0/30'', LruSize = 2\<rparr>)
        \<lparr>domainToIP := Some (NewLru 2), ipRange := Some demo_net\<rparr>, None)"
    by (simp add: Holder_Start_def NewFakeDNSHolderConfigOnly_def initializeFromConfig_def fk_initialize_def r)
  ultimately show ?thesis
    using fakedns_consistent [of "\<lambda>_. Inr demo_net" "gostr ''198.18.0.0/30''" demo_net 2 "\<lambda>k r. 2 ^ r \<le> k"]
    by (simp del: fk_run.simps)
qed

end
