(* ===== verification/Dispatcher.thy ===== *)
theory Dispatcher
  imports Cached_Reader Router Fake_DNS
begin

text \<open>
  \<^verbatim>\<open>app/dispatcher/default.go\<close>: a connection from an inbound is sniffed if its session asks for it, the name found replaces
  the target or only the target that the router sees, and the connection is handed to the outbound that the platform, the
  router or the default determines. The manager of outbounds is one object, which the router uses as well. Regular
  expressions and \<^verbatim>\<open>strings.ToLower\<close> are parameters. The statistics of users and the access log's sink are left out.
\<close>

section \<open>The dispatcher\<close>

record 's DefaultDispatcher =
  dd_ohm :: Manager
  dd_router :: "'s Router option"
  dd_fdns :: "fake_engine option"

record dispatch_env =
  de_sniff :: sniff_env
  de_regexp :: "gostring \<Rightarrow> (gostring \<Rightarrow> bool) option"

section \<open>Whether a sniffed name counts\<close>

fun IsProtoSubsetOf :: "SniffResult \<Rightarrow> gostring \<Rightarrow> bool" where
  "IsProtoSubsetOf (DNSThenOthersSniffResult d p) protocolName = HasPrefix protocolName p"
| "IsProtoSubsetOf _ protocolName = False"

text \<open>The protocol that the domain of a result belongs to.\<close>

fun domain_protocol :: "SniffResult \<Rightarrow> gostring" where
  "domain_protocol (compositeResult d p) = res_Protocol d"
| "domain_protocol r = res_Protocol r"

fun excluded :: "dispatch_env \<Rightarrow> gostring \<Rightarrow> gostring list \<Rightarrow> bool" where
  "excluded D domain [] = False"
| "excluded D domain (d # ds) =
     (if HasPrefix d (gostr ''regexp:'') then
        (case de_regexp D (drop 7 d) of
           None \<Rightarrow> excluded D domain ds
         | Some re \<Rightarrow> if re domain then True else excluded D domain ds)
      else if se_lower (de_sniff D) domain = d then True else excluded D domain ds)"

definition in_fake_pool :: "fake_engine option \<Rightarrow> Destination \<Rightarrow> bool option" where
  "in_fake_pool engine destination =
     (case engine of
        None \<Rightarrow> Some False
      | Some e \<Rightarrow> if fd_rev0 e then map_option (fd_in_pool e) (d_Address destination) else Some False)"

fun override_for :: "fake_engine option \<Rightarrow> SniffResult \<Rightarrow> gostring \<Rightarrow> Destination \<Rightarrow> gostring list \<Rightarrow> bool option" where
  "override_for engine result protocolString destination [] = Some False"
| "override_for engine result protocolString destination (p # ps) =
     (if HasPrefix protocolString p \<or> HasPrefix p protocolString then Some True
      else
        do { missed \<leftarrow> (if protocolString \<noteq> gostr ''bittorrent'' \<and> p = gostr ''fakedns''
                         then in_fake_pool engine destination else Some False);
             if missed then Some True
             else if IsProtoSubsetOf result p then Some True
             else override_for engine result protocolString destination ps })"

definition shouldOverride ::
  "dispatch_env \<Rightarrow> fake_engine option \<Rightarrow> SniffResult \<Rightarrow> SniffingRequest \<Rightarrow> Destination \<Rightarrow> bool option" where
  "shouldOverride D engine result request destination =
     (let domain = res_Domain result in
      if domain = [] then Some False
      else if excluded D domain (sr_ExcludeForDomain request) then Some False
      else override_for engine result (domain_protocol result) destination (sr_OverrideDestinationForProtocol request))"

section \<open>Sniffing\<close>

text \<open>\<open>mem\<close> is the array of the pool; the answer, the content and the reader.\<close>

definition sniffer ::
  "dispatch_env \<Rightarrow> fake_engine option \<Rightarrow> Destination \<Rightarrow> byte list \<Rightarrow> ('e \<Rightarrow> 'r \<Rightarrow> MultiBuffer \<times> goerr option \<times> 'r) \<Rightarrow> 'e attempt list \<Rightarrow>
   bool \<Rightarrow> Network \<Rightarrow> Content option \<Rightarrow> 'r cachedReader \<Rightarrow> ((goerr + SniffResult) \<times> Content option \<times> 'r cachedReader) option" where
  "sniffer D engine target mem rd attempts metadataOnly network c r =
     do { payload \<leftarrow> NewWithSize mem 32767;
          (metaresult, s, c1) \<leftarrow> SniffMetadata (NewSniffer (de_sniff D) engine target) c;
          if metadataOnly then Some (metaresult, c1, r)
          else
            do { (contentResult, c2, r') \<leftarrow> sniff_content rd network attempts s payload 200000000 0 c1 r;
                 Some (case metaresult of
                         Inr m \<Rightarrow> (case contentResult of Inl _ \<Rightarrow> Inr m | Inr x \<Rightarrow> Inr (compositeResult m x))
                       | Inl _ \<Rightarrow> contentResult, c2, r') } }"

section \<open>The session\<close>

definition zero_SniffingRequest :: SniffingRequest where
  "zero_SniffingRequest = \<lparr>sr_ExcludeForDomain = [], sr_OverrideDestinationForProtocol = [], sr_Enabled = False, sr_MetadataOnly = False, sr_RouteOnly = False\<rparr>"

definition zero_Content :: Content where
  "zero_Content = \<lparr>ct_Protocol = [], ct_SniffingRequest = zero_SniffingRequest, ct_Attributes = None, ct_SkipDNSResolve = False\<rparr>"

definition zero_Outbound :: Outbound where
  "zero_Outbound = \<lparr>ob_OriginalTarget = zero_Destination, ob_Target = zero_Destination, ob_RouteTarget = zero_Destination, ob_Tag = []\<rparr>"

text \<open>The session as \<^verbatim>\<open>Dispatch\<close> and \<^verbatim>\<open>DispatchLink\<close> set it up: its last outbound and its content exist afterwards.\<close>

definition with_target :: "SessionContext \<Rightarrow> Destination \<Rightarrow> SessionContext" where
  "with_target ctx destination =
     (let ob = (case sc_Outbound ctx of None \<Rightarrow> zero_Outbound | Some ob \<Rightarrow> ob);
          content = (case sc_Content ctx of None \<Rightarrow> zero_Content | Some c \<Rightarrow> c)
      in ctx\<lparr>sc_Outbound := Some (ob\<lparr>ob_OriginalTarget := destination, ob_Target := destination\<rparr>), sc_Content := Some content\<rparr>)"

text \<open>What a sniffed result does to the session: the protocol, and the target or the target for the router.\<close>

definition with_result ::
  "dispatch_env \<Rightarrow> fake_engine option \<Rightarrow> SniffingRequest \<Rightarrow> Destination \<Rightarrow> (goerr + SniffResult) \<Rightarrow> SessionContext \<Rightarrow> SessionContext option" where
  "with_result D engine request destination res ctx =
     (case res of
        Inl e \<Rightarrow> Some ctx
      | Inr result \<Rightarrow>
          (let ctx1 = ctx\<lparr>sc_Content := map_option (\<lambda>c. c\<lparr>ct_Protocol := res_Protocol result\<rparr>) (sc_Content ctx)\<rparr> in
           do { override \<leftarrow> shouldOverride D engine result request destination;
                if \<not> override then Some ctx1
                else
                  do { ob \<leftarrow> sc_Outbound ctx1;
                       let destination' = destination\<lparr>d_Address := Some (ParseAddress (res_Domain result))\<rparr>;
                       let protocol = domain_protocol result;
                       isFakeIP \<leftarrow> in_fake_pool engine (ob_Target ob);
                       Some (ctx1\<lparr>sc_Outbound := Some
                         (if sr_RouteOnly request \<and> protocol \<noteq> gostr ''fakedns'' \<and> protocol \<noteq> gostr ''fakedns+others'' \<and> \<not> isFakeIP
                          then ob\<lparr>ob_RouteTarget := destination'\<rparr> else ob\<lparr>ob_Target := destination'\<rparr>)\<rparr>) } }))"

section \<open>Routing\<close>

definition GetForcedOutboundTag :: "SessionContext \<Rightarrow> gostring" where
  "GetForcedOutboundTag ctx = (case sc_Content ctx of None \<Rightarrow> [] | Some c \<Rightarrow> Content_Attribute c (gostr ''forcedOutboundTag''))"

definition SetForcedOutboundTag :: "SessionContext \<Rightarrow> gostring \<Rightarrow> SessionContext" where
  "SetForcedOutboundTag ctx tag =
     ctx\<lparr>sc_Content := Some (SetAttribute (gostr ''forcedOutboundTag'') tag (case sc_Content ctx of None \<Rightarrow> zero_Content | Some c \<Rightarrow> c))\<rparr>"

text \<open>
  What becomes of a connection: its link is closed and interrupted, or a handler gets it. The second part is the detour
  of the access message.
\<close>

datatype dispatched = Dropped | Handed OutHandler "gostring option"

datatype pick_kind = Defaulted | Forced | Routed

definition detour :: "gostring \<Rightarrow> pick_kind \<Rightarrow> gostring \<Rightarrow> gostring option" where
  "detour inTag kind tag =
     (if tag = [] then None
      else if inTag = [] then Some tag
      else Some (inTag @ (case kind of Forced \<Rightarrow> gostr '' ==> '' | Routed \<Rightarrow> gostr '' -> '' | Defaulted \<Rightarrow> gostr '' >> '') @ tag))"

text \<open>The handler for the forced tag or the route: \<open>Inl\<close> where the tag has none, \<open>Inr None\<close> where there is no route.\<close>

definition pick_handler ::
  "'s route_env \<Rightarrow> (gostring list \<Rightarrow> gostring list) \<Rightarrow> pick_env \<Rightarrow> 's DefaultDispatcher \<Rightarrow> SessionContext \<Rightarrow>
   ('s DefaultDispatcher \<times> SessionContext \<times> (unit + (pick_kind \<times> OutHandler) option)) option" where
  "pick_handler E visit P d ctx =
     (let known = (\<lambda>d kind tag. case GetHandler (dd_ohm d) tag of None \<Rightarrow> Inl () | Some h \<Rightarrow> Inr (Some (kind, h)));
          forcedOutboundTag = GetForcedOutboundTag ctx
      in if forcedOutboundTag \<noteq> [] then Some (d, SetForcedOutboundTag ctx [], known d Forced forcedOutboundTag)
         else
           (case dd_router d of
              None \<Rightarrow> Some (d, ctx, Inr None)
            | Some r \<Rightarrow>
                do { (r', route) \<leftarrow> PickRoute E visit P (r\<lparr>rt_ohm := map_option (\<lambda>_. dd_ohm d) (rt_ohm r)\<rparr>) (plain_context ctx);
                     let d' = d\<lparr>dd_ohm := (case rt_ohm r' of None \<Rightarrow> dd_ohm d | Some m \<Rightarrow> m), dd_router := Some r'\<rparr>;
                     Some (d', ctx, case route of Inl e \<Rightarrow> Inr None | Inr ro \<Rightarrow> known d' Routed (ro_outboundTag ro)) }))"

definition routedDispatch ::
  "'s route_env \<Rightarrow> (gostring list \<Rightarrow> gostring list) \<Rightarrow> pick_env \<Rightarrow> 's DefaultDispatcher \<Rightarrow> SessionContext \<Rightarrow>
   ('s DefaultDispatcher \<times> SessionContext \<times> dispatched) option" where
  "routedDispatch E visit P d ctx =
     (let inTag = GetInboundTag ctx in
      do { (d', ctx', picked) \<leftarrow> pick_handler E visit P d ctx;
           Some (case picked of
                   Inl _ \<Rightarrow> (d', ctx', Dropped)
                 | Inr p \<Rightarrow>
                     (case (case p of Some x \<Rightarrow> Some x | None \<Rightarrow> map_option (Pair Defaulted) (GetDefaultHandler (dd_ohm d'))) of
                        None \<Rightarrow> (d', ctx', Dropped)
                      | Some (kind, h) \<Rightarrow>
                          (d', ctx'\<lparr>sc_Outbound := map_option (\<lambda>ob. ob\<lparr>ob_Tag := h_Tag h\<rparr>) (sc_Outbound ctx')\<rparr>,
                           Handed h (detour inTag kind (h_Tag h))))) })"

section \<open>Dispatching\<close>

text \<open>The reader of the link that a handler gets.\<close>

datatype 'r link_reader = Plain 'r | Cached "'r cachedReader"

text \<open>The common part of \<^verbatim>\<open>Dispatch\<close> and \<^verbatim>\<open>DispatchLink\<close>: the session for the router, and the reader.\<close>

definition sniffed ::
  "dispatch_env \<Rightarrow> fake_engine option \<Rightarrow> byte list \<Rightarrow> ('e \<Rightarrow> 'r \<Rightarrow> MultiBuffer \<times> goerr option \<times> 'r) \<Rightarrow> 'e attempt list \<Rightarrow> SessionContext \<Rightarrow>
   Destination \<Rightarrow> 'r \<Rightarrow> (SessionContext \<times> 'r link_reader) option" where
  "sniffed D engine mem rd attempts ctx destination r =
     (let ctx0 = with_target ctx destination in
      do { content \<leftarrow> sc_Content ctx0;
           let request = ct_SniffingRequest content;
           if \<not> sr_Enabled request then Some (ctx0, Plain r)
           else
             do { (res, c, cReader) \<leftarrow> sniffer D engine destination mem rd attempts (sr_MetadataOnly request) (d_Network destination)
                                          (Some content) \<lparr>cr_reader = r, cr_cache = []\<rparr>;
                  ctx1 \<leftarrow> with_result D engine request destination res (ctx0\<lparr>sc_Content := c\<rparr>);
                  Some (ctx1, Cached cReader) } })"

text \<open>\<^verbatim>\<open>Dispatch\<close> reads from a new pipe and panics on an invalid destination.\<close>

definition Dispatch ::
  "dispatch_env \<Rightarrow> 's route_env \<Rightarrow> (gostring list \<Rightarrow> gostring list) \<Rightarrow> pick_env \<Rightarrow> byte list \<Rightarrow> pipe_option list \<Rightarrow> pipe_act list attempt list \<Rightarrow>
   's DefaultDispatcher \<Rightarrow> SessionContext \<Rightarrow> Destination \<Rightarrow> ('s DefaultDispatcher \<times> SessionContext \<times> dispatched \<times> timed_pipe link_reader) option" where
  "Dispatch D E visit P mem opt attempts d ctx destination =
     (if \<not> Destination_IsValid destination then None
      else
        do { (ctx1, reader) \<leftarrow> sniffed D (dd_fdns d) mem pipe_ReadMultiBufferTimeout attempts ctx destination \<lparr>tp_pipe = pipe_New opt, tp_in = []\<rparr>;
             (d', ctx2, out) \<leftarrow> routedDispatch E visit P d ctx1;
             Some (d', ctx2, out, reader) })"

definition DispatchLink ::
  "dispatch_env \<Rightarrow> 's route_env \<Rightarrow> (gostring list \<Rightarrow> gostring list) \<Rightarrow> pick_env \<Rightarrow> byte list \<Rightarrow> bool attempt list \<Rightarrow>
   's DefaultDispatcher \<Rightarrow> SessionContext \<Rightarrow> Destination \<Rightarrow> TimeoutWrapperReader \<Rightarrow>
   (goerr + 's DefaultDispatcher \<times> SessionContext \<times> dispatched \<times> TimeoutWrapperReader link_reader) option" where
  "DispatchLink D E visit P mem attempts d ctx destination reader =
     (if \<not> Destination_IsValid destination then Some (Inl (ErrMsg ''Dispatcher: Invalid destination.''))
      else
        do { (ctx1, reader') \<leftarrow> sniffed D (dd_fdns d) mem Timeout_ReadMultiBufferTimeout attempts ctx destination reader;
             (d', ctx2, out) \<leftarrow> routedDispatch E visit P d ctx1;
             Some (Inr (d', ctx2, out, reader')) })"

section \<open>The sniffers of a connection\<close>

lemma sniff_metadata_loop_kept:
  assumes "sniff_metadata_loop ss pending c = Some (res, keep, c')"
  shows "\<forall>s. keep = Some s \<longrightarrow> set s \<subseteq> set ss \<union> set pending"
  using assms
proof (induction ss arbitrary: pending c)
  case (Cons si ss)
  show ?case
  proof (cases "si_metadata si")
    case False
    with Cons.IH [of "pending @ [si]" c] Cons.prems show ?thesis by fastforce
  next
    case True
    obtain x c1 where "si_sniff si c None = Some (x, c1)" using Cons.prems True by (cases "si_sniff si c None") auto
    with True Cons.prems Cons.IH [of "pending @ [si]" c1] Cons.IH [of pending c1] show ?thesis
      by (cases x) (fastforce split: if_splits)+
  qed
qed (auto split: if_splits)

lemma sniff_metadata_skip:
  "list_all (\<lambda>si. \<not> si_metadata si) ss \<Longrightarrow> sniff_metadata_loop (ss @ ss') pending c = sniff_metadata_loop ss' (pending @ ss) c"
  by (induction ss arbitrary: pending) auto

lemma protocol_sniffers_metadata: "list_all (\<lambda>si. \<not> si_metadata si) (protocol_sniffers N)"
  by (simp add: sniffer_simps)

text \<open>Only the fake DNS sniffer looks at the metadata; otherwise all sniffers are kept.\<close>

lemma SniffMetadata_new:
  assumes "d_Address target = Some a"
  obtains s where "SniffMetadata (NewSniffer N engine target) c = Some
      ((case engine of
          Some e \<Rightarrow> if (d_Network target = Network_TCP \<or> d_Network target = Network_UDP) \<and> fd_domain e a \<noteq> []
                    then Inr (fakeDNSSniffResult (fd_domain e a)) else Inl ErrNoClue
        | None \<Rightarrow> Inl ErrNoClue), s, c)"
    "set s \<subseteq> set (NewSniffer N engine target)" "engine = None \<longrightarrow> s = protocol_sniffers N"
    "\<forall>e. engine = Some e \<longrightarrow> s = newFakeDNSThenOthers e target (protocol_sniffers N) # protocol_sniffers N @ [newFakeDNSSniffer e target]"
proof (cases engine)
  case None
  have "sniff_metadata_loop (protocol_sniffers N) [] c = Some (Inl ErrNoClue, Some (protocol_sniffers N), c)"
    using sniff_metadata_skip [OF protocol_sniffers_metadata, of N "[]" "[]" c] by (simp add: protocol_sniffers_def)
  with that [of "protocol_sniffers N"] None show thesis by (simp add: SniffMetadata_def NewSniffer_def Let_def kept_def)
next
  case (Some e)
  let ?f = "newFakeDNSThenOthers e target (protocol_sniffers N)" and ?m = "newFakeDNSSniffer e target"
  have all: "list_all (\<lambda>si. \<not> si_metadata si) (?f # protocol_sniffers N)"
    using protocol_sniffers_metadata by (simp add: newFakeDNSThenOthers_def)
  have m: "si_metadata ?m" "si_sniff ?m c None = Some ((if (d_Network target = Network_TCP \<or> d_Network target = Network_UDP) \<and> fd_domain e a \<noteq> []
      then Inr (fakeDNSSniffResult (fd_domain e a)) else Inl ErrNoClue), c)"
    using assms by (auto simp: newFakeDNSSniffer_def fakedns_sniff_def Let_def)
  show thesis
    using that [of "NewSniffer N engine target"] Some m sniff_metadata_skip [OF all, of "[?m]" "[]" c]
    by (simp add: SniffMetadata_def NewSniffer_def Let_def kept_def)
qed

lemma NewSniffer_never_panics:
  assumes "\<forall>b. se_quic N b \<noteq> None" "network \<noteq> Network_Unknown" "set s \<subseteq> set (NewSniffer N engine target)"
  shows "never_panics s network"
proof -
  have "si_sniff si c (Some b) \<noteq> None" if "si \<in> set (protocol_sniffers N)" for si c b
    using that assms(1) SniffTLS_returns [of b] SniffUTP_returns [of "se_unixMicro N" b] SniffBittorrent_returns [of b]
    by (auto simp: sniffer_simps)
  with NewSniffer_asked [of _ N engine target] assms(2,3) show ?thesis unfolding never_panics_def by blast
qed

section \<open>No byte is lost\<close>

definition lr_pending :: "('r \<Rightarrow> byte list) \<Rightarrow> 'r link_reader \<Rightarrow> byte list" where
  "lr_pending pending r = (case r of Plain x \<Rightarrow> pending x | Cached x \<Rightarrow> cr_pending pending x)"

definition lr_arrived :: "('r \<Rightarrow> byte list) \<Rightarrow> 'r link_reader \<Rightarrow> byte list" where
  "lr_arrived arrived r = (case r of Plain x \<Rightarrow> arrived x | Cached x \<Rightarrow> arrived (cr_reader x))"

context timeout_reader
begin

lemma sniffer_stream:
  assumes "cr_ok ok r" "\<forall>(d, e, t) \<in> set attempts. fine e"
    and "sniffer D engine target mem rd attempts metadataOnly network c r = Some (res, c', r')"
  shows "cr_ok ok r' \<and> (\<exists>new. arrived (cr_reader r') = arrived (cr_reader r) @ new \<and> cr_pending pending r' = cr_pending pending r @ new)"
proof (cases metadataOnly)
  case True
  with assms(1,3) show ?thesis by (auto simp: sniffer_def bind_eq_Some_conv)
next
  case False
  with assms(3) obtain s payload c1 res1 where "sniff_content rd network attempts s payload 200000000 0 c1 r = Some (res1, c', r')"
    by (auto simp: sniffer_def bind_eq_Some_conv)
  from sniff_content_stream [OF assms(1,2) this] show ?thesis .
qed

lemma sniffed_stream:
  assumes "ok r" "\<forall>(d, e, t) \<in> set attempts. fine e" "sniffed D engine mem rd attempts ctx destination r = Some (ctx', reader)"
  shows "\<exists>new. lr_arrived arrived reader = arrived r @ new \<and> lr_pending pending reader = pending r @ new"
proof (cases "sr_Enabled (ct_SniffingRequest (the (sc_Content (with_target ctx destination))))")
  case False
  with assms(3) show ?thesis by (auto simp: sniffed_def Let_def bind_eq_Some_conv lr_arrived_def lr_pending_def)
next
  case True
  with assms(3) obtain res c cReader m content where s: "reader = Cached cReader"
    "sniffer D engine destination mem rd attempts m (d_Network destination) (Some content) \<lparr>cr_reader = r, cr_cache = []\<rparr> = Some (res, c, cReader)"
    by (auto simp: sniffed_def Let_def bind_eq_Some_conv)
  with sniffer_stream [OF _ assms(2) s(2)] assms(1) show ?thesis
    by (simp add: cr_ok_def cr_pending_def [of _ "\<lparr>cr_reader = r, cr_cache = []\<rparr>"] lr_arrived_def lr_pending_def)
qed

end

section \<open>Sniffing returns\<close>

lemma payload_buffer:
  assumes "int (length mem) = Alloc 32767"
  obtains payload where "NewWithSize mem 32767 = Some payload" "buffer_wf payload" "length (b_v payload) = length mem"
    "32767 \<le> length mem" "content payload = []"
proof -
  have "Alloc 32767 = 32768" by code_simp
  with assms that show thesis by (simp add: NewWithSize_def buffer_wf_def content_def)
qed

lemma in_fake_pool_returns: "d_Address destination = Some a \<Longrightarrow> in_fake_pool engine destination \<noteq> None"
  by (simp add: in_fake_pool_def del: not_None_eq split: option.split)

lemma override_for_returns:
  "d_Address destination = Some a \<Longrightarrow> override_for engine result protocolString destination ps \<noteq> None"
proof (induction ps)
  case (Cons p ps)
  with in_fake_pool_returns [OF Cons.prems, of engine] show ?case by (cases "in_fake_pool engine destination") auto
qed simp

lemma with_result_returns:
  assumes "d_Address destination = Some a" "sc_Outbound ctx = Some ob" "ob_Target ob = destination"
  shows "with_result D engine request destination res ctx \<noteq> None"
proof (cases res)
  case (Inr result)
  have "shouldOverride D engine result request destination \<noteq> None"
    using override_for_returns [OF assms(1)] by (simp add: shouldOverride_def Let_def del: not_None_eq)
  moreover have "in_fake_pool engine destination \<noteq> None" using in_fake_pool_returns [OF assms(1)] by blast
  ultimately show ?thesis using Inr assms by (auto simp: with_result_def Let_def)
qed (simp add: with_result_def)

lemma with_target_simps [simp]:
  "\<exists>c. sc_Content (with_target ctx destination) = Some c"
  "\<exists>ob. sc_Outbound (with_target ctx destination) = Some ob \<and> ob_Target ob = destination \<and> ob_OriginalTarget ob = destination"
  by (simp_all add: with_target_def Let_def)

context timeout_reader
begin

lemma sniffer_returns:
  assumes "\<forall>r e. length (arrived (snd (snd (rd e r)))) \<le> length (arrived r) + amount e"
    and "d_Address target = Some a" "\<forall>b. se_quic (de_sniff D) b \<noteq> None" "network \<noteq> Network_Unknown" "int (length mem) = Alloc 32767"
    and "cr_ok ok r" "length (cr_pending pending r) + sum_list (map (amount \<circ> fst \<circ> snd) attempts) < 2147483648"
    and "\<forall>(d, e, t) \<in> set attempts. 0 \<le> t \<and> fine e" "200000000 \<le> sum_list (map (snd \<circ> snd) attempts)"
  shows "\<exists>res c' r'. sniffer D engine target mem rd attempts metadataOnly network c r = Some (res, c', r')"
proof -
  obtain payload where p: "NewWithSize mem 32767 = Some payload" "buffer_wf payload" using payload_buffer [OF assms(5)] by metis
  obtain res s where s: "SniffMetadata (NewSniffer (de_sniff D) engine target) c = Some (res, s, c)"
    "set s \<subseteq> set (NewSniffer (de_sniff D) engine target)"
    by (rule SniffMetadata_new [OF assms(2), of "de_sniff D" engine c]) blast
  have "attempts \<noteq> []" using assms(9) by auto
  from sniff_content_returns [where totalAttempt = 0 and c = c, OF assms(1,6,7) NewSniffer_never_panics [OF assms(3,4) s(2)] p(2) assms(8) this assms(9)]
  obtain res1 c1 r1 where "sniff_content rd network attempts s payload 200000000 0 c r = Some (res1, c1, r1)" by auto
  with p(1) s(1) show ?thesis by (cases metadataOnly) (simp_all add: sniffer_def)
qed

lemma sniffed_returns:
  assumes "\<forall>r e. length (arrived (snd (snd (rd e r)))) \<le> length (arrived r) + amount e"
    and "Destination_IsValid destination" "d_Address destination = Some a" "\<forall>b. se_quic (de_sniff D) b \<noteq> None" "int (length mem) = Alloc 32767"
    and "ok r" "length (pending r) + sum_list (map (amount \<circ> fst \<circ> snd) attempts) < 2147483648"
    and "\<forall>(d, e, t) \<in> set attempts. 0 \<le> t \<and> fine e" "200000000 \<le> sum_list (map (snd \<circ> snd) attempts)"
  shows "\<exists>ctx' reader. sniffed D engine mem rd attempts ctx destination r = Some (ctx', reader)"
proof -
  obtain content ob where c: "sc_Content (with_target ctx destination) = Some content" "sc_Outbound (with_target ctx destination) = Some ob"
    "ob_Target ob = destination" using with_target_simps by metis
  have n: "d_Network destination \<noteq> Network_Unknown" using assms(2) by (simp add: Destination_IsValid_def)
  obtain res c' r' where s: "sniffer D engine destination mem rd attempts (sr_MetadataOnly (ct_SniffingRequest content))
      (d_Network destination) (Some content) \<lparr>cr_reader = r, cr_cache = []\<rparr> = Some (res, c', r')"
    using sniffer_returns [where r = "\<lparr>cr_reader = r, cr_cache = []\<rparr>", OF assms(1) assms(3,4) n assms(5) _ _ assms(8,9)] assms(6,7)
    by (simp add: cr_ok_def cr_pending_def) blast
  obtain ctx1 where "with_result D engine (ct_SniffingRequest content) destination res ((with_target ctx destination)\<lparr>sc_Content := c'\<rparr>) = Some ctx1"
    using with_result_returns [OF assms(3), of "(with_target ctx destination)\<lparr>sc_Content := c'\<rparr>" ob D engine "ct_SniffingRequest content" res] c by auto
  with s c show ?thesis by (auto simp: sniffed_def Let_def)
qed

end

lemma tw_sniffed_returns:
  assumes "Destination_IsValid destination" "d_Address destination = Some a" "\<forall>b. se_quic (de_sniff D) b \<noteq> None" "int (length mem) = Alloc 32767"
    and "tw_ok r" "length (tw_pending r) < 2147483648"
    and "\<forall>(d, e, t) \<in> set attempts. 0 \<le> t" "200000000 \<le> sum_list (map (snd \<circ> snd) attempts)"
  shows "\<exists>ctx' reader. sniffed D engine mem Timeout_ReadMultiBufferTimeout attempts ctx destination r = Some (ctx', reader)"
  by (rule twr.sniffed_returns [where amount = "\<lambda>_. 0"]) (use assms in \<open>auto simp: comp_def\<close>)

lemma tp_sniffed_returns:
  assumes "Destination_IsValid destination" "d_Address destination = Some a" "\<forall>b. se_quic (de_sniff D) b \<noteq> None" "int (length mem) = Alloc 32767"
    and "tp_ok r" "length (tp_pending r) + sum_list (map (pipe_amount \<circ> fst \<circ> snd) rounds) < 2147483648"
    and "\<forall>(d, e, t) \<in> set rounds. 0 \<le> t \<and> list_all act_fine e" "200000000 \<le> sum_list (map (snd \<circ> snd) rounds)"
  shows "\<exists>ctx' reader. sniffed D engine mem pipe_ReadMultiBufferTimeout rounds ctx destination r = Some (ctx', reader)"
proof (rule tpr.sniffed_returns [where amount = pipe_amount])
  show "\<forall>r e. length (tp_in (snd (snd (pipe_ReadMultiBufferTimeout e r)))) \<le> length (tp_in r) + pipe_amount e"
    using pipe_read_amount by (metis prod.collapse)
qed (use assms in auto)

end
