(* ===== verification/Dispatcher_Props.thy ===== *)
theory Dispatcher_Props
  imports Dispatcher
begin

text \<open>
  What the dispatcher makes of what it finds: the name in a TLS client hello and the name behind a fake address reach the
  router and the outbound, and the handler is the one of the forced tag, of the route, or the default.
\<close>

section \<open>A client hello\<close>

lemma http_method_in_other:
  assumes "list_all (\<lambda>m. m \<noteq> [] \<and> hd m \<noteq> ascii_lower (hd b) \<and> length m \<le> length b) ms" "b \<noteq> []"
  shows "http_method_in ms b = Some errNotHTTPMethod"
  using assms
proof (induction ms)
  case (Cons m ms)
  have "map ascii_lower (take (length m) b) \<noteq> m"
  proof
    assume "map ascii_lower (take (length m) b) = m"
    then have "hd (map ascii_lower (take (length m) b)) = hd m" by simp
    with Cons.prems show False by (cases b; cases m) auto
  qed
  with Cons show ?case by simp
qed simp

lemma beginWithHTTPMethod_tls:
  assumes "7 \<le> length b" "take 1 b = [0x16]"
  shows "beginWithHTTPMethod b = Some errNotHTTPMethod"
proof -
  obtain bs where b: "b = 0x16 # bs" using assms by (cases b) auto
  have "list_all (\<lambda>m. m \<noteq> [] \<and> hd m \<noteq> ascii_lower 0x16 \<and> length m \<le> 7) http_methods" by code_simp
  then have "list_all (\<lambda>m. m \<noteq> [] \<and> hd m \<noteq> ascii_lower (hd b) \<and> length m \<le> length b) http_methods"
    using assms(1) b by (auto simp: list_all_iff)
  with http_method_in_other b show ?thesis unfolding beginWithHTTPMethod_def by blast
qed

lemma Sniff_tls:
  assumes "7 \<le> length b" "take 1 b = [0x16]" "SniffTLS b = Some (Inr n)"
  shows "Sniff (protocol_sniffers N) b Network_TCP c = Some (Inr (TLSHeader n), protocol_sniffers N, c)"
    "Sniff (newFakeDNSThenOthers e target others # protocol_sniffers N @ ss) b Network_TCP c =
       Some (Inr (TLSHeader n), newFakeDNSThenOthers e target others # protocol_sniffers N @ ss, c)"
proof -
  have "sniff_loop (protocol_sniffers N @ ss) b Network_TCP [] c = Some (Inr (TLSHeader n), None, c)" for ss
    using beginWithHTTPMethod_tls [OF assms(1,2)] assms(3)
    by (simp add: sniffer_simps SniffHTTP_def Let_def errNotHTTPMethod_def ErrNoClue_def ErrProtoNeedMoreData_def)
  from this [of "[]"] this [of ss] show
    "Sniff (protocol_sniffers N) b Network_TCP c = Some (Inr (TLSHeader n), protocol_sniffers N, c)"
    "Sniff (newFakeDNSThenOthers e target others # protocol_sniffers N @ ss) b Network_TCP c =
       Some (Inr (TLSHeader n), newFakeDNSThenOthers e target others # protocol_sniffers N @ ss, c)"
    by (simp_all add: Sniff_def kept_def newFakeDNSThenOthers_def)
qed

lemma sniff_content_tls:
  assumes "cr_ok tw_ok r" "tw_Reader (cr_reader r) = (mb, None) # results" "cr_cache r = []" "length (mb_content mb) < 2147483648"
    and "buffer_wf payload" "SniffTLS (take (length (b_v payload)) (mb_content mb)) = Some (Inr n)"
    and "7 \<le> length (take (length (b_v payload)) (mb_content mb))" "take 1 (mb_content mb) = [0x16]"
    and "s = protocol_sniffers N \<or> (\<exists>e target others ss. s = newFakeDNSThenOthers e target others # protocol_sniffers N @ ss)"
  shows "\<exists>r'. sniff_content Timeout_ReadMultiBufferTimeout Network_TCP ((False, True, t) # attempts) s payload deadline k c r =
    Some (Inr (TLSHeader n), c, r')"
proof -
  obtain rd' where rd: "Timeout_ReadMultiBufferTimeout True (cr_reader r) = (mb, None, rd')"
    using assms(2) by (simp add: Timeout_ReadMultiBufferTimeout_def tw_take_def tw_result_def)
  from twr.Cache_step [OF assms(1) TrueI assms(5) rd] assms(3,4) obtain b' r' where
    c: "Cache Timeout_ReadMultiBufferTimeout True payload r = Some (None, b', r')" "buffer_wf b'"
      "content b' = take (length (b_v payload)) (mb_content mb)" by (metis append_Nil mb_content_simps(1))
  let ?b = "take (length (b_v payload)) (mb_content mb)"
  have "Buffer_Bytes b' = Some ?b" "\<not> Buffer_IsEmpty b'"
    using c(2,3) assms(7) Buffer_Bytes_content [OF c(2)] by (auto simp: Buffer_IsEmpty_content)
  moreover have "1 \<le> length (b_v payload)" using assms(7) by simp
  then have "take 1 ?b = [0x16]" using assms(8) by (simp only: take_take min_absorb1)
  then have "Sniff s ?b Network_TCP c = Some (Inr (TLSHeader n), s, c)" using Sniff_tls [OF assms(7) _ assms(6)] assms(9) by blast
  ultimately have "sniff_round Network_TCP s b' k c = Some (Stop (Inr (TLSHeader n)), c)" by (simp add: sniff_round_def)
  with c(1) show ?thesis by (simp add: sniff_content.simps(2) Let_def)
qed

section \<open>A name in the session\<close>

lemma override_for_member:
  assumes "d_Address destination = Some a" "protocolString \<in> set ps"
  shows "override_for engine result protocolString destination ps = Some True"
  using assms(2)
proof (induction ps)
  case (Cons p ps)
  obtain b where "in_fake_pool engine destination = Some b" using in_fake_pool_returns [OF assms(1), of engine] by blast
  with Cons show ?case by (auto simp: HasPrefix_def)
qed simp

definition sniffed_outbound :: "bool \<Rightarrow> Destination \<Rightarrow> gostring \<Rightarrow> Outbound \<Rightarrow> Outbound" where
  "sniffed_outbound routeOnly destination n ob =
     (let destination' = destination\<lparr>d_Address := Some (domainAddress n)\<rparr> in
      if routeOnly then ob\<lparr>ob_RouteTarget := destination'\<rparr> else ob\<lparr>ob_Target := destination'\<rparr>)"

lemma with_result_name:
  assumes "d_Address destination = Some a" "sc_Outbound ctx = Some ob" "ob_Target ob = destination"
    and "res_Domain result = n" "n \<noteq> []" "\<not> excluded D n (sr_ExcludeForDomain request)"
    and "domain_protocol result \<in> set (sr_OverrideDestinationForProtocol request)" "ParseAddress n = domainAddress n"
    and "in_fake_pool engine destination = Some fake"
  shows "with_result D engine request destination (Inr result) ctx =
    Some (ctx\<lparr>sc_Content := map_option (\<lambda>c. c\<lparr>ct_Protocol := res_Protocol result\<rparr>) (sc_Content ctx),
      sc_Outbound := Some (sniffed_outbound (sr_RouteOnly request \<and> domain_protocol result \<noteq> gostr ''fakedns'' \<and>
        domain_protocol result \<noteq> gostr ''fakedns+others'' \<and> \<not> fake) destination n ob)\<rparr>)"
proof -
  have "shouldOverride D engine result request destination = Some True"
    using assms override_for_member [OF assms(1,7)] by (simp add: shouldOverride_def)
  with assms show ?thesis by (simp add: with_result_def Let_def sniffed_outbound_def)
qed

lemma sniffed_domain:
  assumes "sc_Outbound ctx = Some (sniffed_outbound routeOnly destination n ob)" "Destination_IsValid destination" "ob_Target ob = destination"
    and "\<not> Destination_IsValid (ob_RouteTarget ob)" "d_Address destination = Some a"
  shows "GetTargetDomain ctx = Some n" "GetTargetPort ctx = d_Port destination" "GetNetwork ctx = d_Network destination"
  using assms by (auto simp: GetTargetDomain_def GetTargetPort_def GetNetwork_def dest_port_def sniffed_outbound_def Let_def Destination_IsValid_def)

text \<open>Routing keeps what the router was asked about.\<close>

lemma SetForcedOutboundTag_outbound [simp]: "sc_Outbound (SetForcedOutboundTag ctx tag) = sc_Outbound ctx"
  by (simp add: SetForcedOutboundTag_def)

lemma pick_handler_outbound: "pick_handler E visit P d ctx = Some (d', ctx', picked) \<Longrightarrow> sc_Outbound ctx' = sc_Outbound ctx"
  by (auto simp: pick_handler_def Let_def bind_eq_Some_conv split: if_splits option.splits)

section \<open>Names and the router\<close>

text \<open>
  C11: the name of a TLS connection reaches the router. Let the first read of a TCP connection to an address come in time and
  bring, whole and as its first bytes, a client hello record of at most 32767 bytes with a server name that is no IP address. If the
  session asks for the names of TLS connections and for more than metadata, does not exclude this name and has no target for the
  router yet, and the address is in no fake DNS pool and has no fake name, then the router decides by that name and by the protocol \<^verbatim>\<open>tls\<close>, with port
  and network unchanged; the outbound gets the name as its target, or the address where names are only for routing; and the
  handler reads the connection from its first byte. The reads of the connection never return bytes together with an error.
\<close>

theorem sniffed_name_routed:
  assumes "hello_ok h" "hello_name (ch_extensions h) = Inr n" "length (hello_record minor h) \<le> 32767"
    and "n \<noteq> []" "ParseAddress n = domainAddress n"
    and "tw_ok r" "tw_Reader r = (mb, None) # results" "mb_content mb = hello_record minor h @ rest" "length (tw_pending r) < 2147483648"
    and "d_Network destination = Network_TCP" "d_Address destination = Some a" "int (length mem) = Alloc 32767"
    and "\<forall>e. dd_fdns d = Some e \<longrightarrow> fd_domain e a = [] \<and> \<not> fd_in_pool e a"
    and "sc_Content ctx = Some c" "sr_Enabled (ct_SniffingRequest c)" "\<not> sr_MetadataOnly (ct_SniffingRequest c)"
    and "gostr ''tls'' \<in> set (sr_OverrideDestinationForProtocol (ct_SniffingRequest c))" "\<not> excluded D n (sr_ExcludeForDomain (ct_SniffingRequest c))"
    and "\<forall>ob. sc_Outbound ctx = Some ob \<longrightarrow> \<not> Destination_IsValid (ob_RouteTarget ob)"
  shows "\<exists>ctx' ob reader. DispatchLink D E visit P mem ((False, True, t) # attempts) d ctx destination r =
      map_option (\<lambda>(d', ctx2, out). Inr (d', ctx2, out, reader)) (routedDispatch E visit P d ctx') \<and>
    GetTargetDomain ctx' = Some n \<and> GetProtocol ctx' = gostr ''tls'' \<and> GetTargetPort ctx' = d_Port destination \<and> GetNetwork ctx' = Network_TCP \<and>
    sc_Outbound ctx' = Some ob \<and> ob_OriginalTarget ob = destination \<and>
    ob_Target ob = (if sr_RouteOnly (ct_SniffingRequest c) then destination else destination\<lparr>d_Address := Some (domainAddress n)\<rparr>) \<and>
    lr_pending tw_pending reader = tw_pending r"
proof -
  let ?ctx0 = "with_target ctx destination" and ?r = "\<lparr>cr_reader = r, cr_cache = []\<rparr>" and ?c = "Some c"
  have valid: "Destination_IsValid destination" using assms(10) by (simp add: Destination_IsValid_def)
  obtain ob where ob: "sc_Outbound ?ctx0 = Some ob" "ob_Target ob = destination" "ob_OriginalTarget ob = destination"
    "\<not> Destination_IsValid (ob_RouteTarget ob)"
    using assms(19) by (cases "sc_Outbound ctx") (auto simp: with_target_def Let_def zero_Outbound_def zero_Destination_def Destination_IsValid_def)
  have content: "sc_Content ?ctx0 = Some c" using assms(14) by (simp add: with_target_def)
  obtain payload where p: "NewWithSize mem 32767 = Some payload" "buffer_wf payload" "length (b_v payload) = length mem" "32767 \<le> length mem"
    using payload_buffer [OF assms(12)] by metis
  have mb: "length (mb_content mb) < 2147483648" using assms(7,9) by (simp add: tw_pending_def)
  have k: "\<not> length mem < length (hello_record minor h)" using p(4) assms(3) by linarith
  have name: "SniffTLS (take (length (b_v payload)) (mb_content mb)) = Some (Inr n)"
    using SniffTLS_prefix [OF assms(1), of "length mem" minor rest] assms(2,8) p(3) k by simp
  have long: "7 \<le> length (hello_record minor h)" using assms(1) by (simp add: hello_record_def hello_ok_def hello_bytes_def)
  then have long': "7 \<le> length (take (length (b_v payload)) (mb_content mb))" using assms(8) p(3,4) by simp
  have first: "take 1 (mb_content mb) = [0x16]" using assms(8) by (simp add: hello_record_def)
  obtain s where meta: "SniffMetadata (NewSniffer (de_sniff D) (dd_fdns d) destination) ?c = Some (Inl ErrNoClue, s, ?c)"
    "s = protocol_sniffers (de_sniff D) \<or> (\<exists>e target others ss. s = newFakeDNSThenOthers e target others # protocol_sniffers (de_sniff D) @ ss)"
    by (rule SniffMetadata_new [OF assms(11), of "de_sniff D" "dd_fdns d" ?c]) (use assms(13) in \<open>auto split: option.splits\<close>)
  from sniff_content_tls [OF _ _ _ mb p(2) name long' first meta(2), of ?r results t attempts 200000000 0 ?c] assms(6,7)
  obtain r' where sc: "sniff_content Timeout_ReadMultiBufferTimeout Network_TCP ((False, True, t) # attempts) s payload 200000000 0 ?c ?r =
    Some (Inr (TLSHeader n), ?c, r')" by (auto simp: cr_ok_def)
  have "sniffer D (dd_fdns d) destination mem Timeout_ReadMultiBufferTimeout ((False, True, t) # attempts) False Network_TCP ?c ?r =
    Some (Inr (TLSHeader n), ?c, r')" using p(1) meta(1) sc by (simp add: sniffer_def)
  moreover have fake: "in_fake_pool (dd_fdns d) destination = Some False"
    using assms(11,13) by (auto simp: in_fake_pool_def split: option.split)
  define ctx' where "ctx' = ?ctx0\<lparr>sc_Content := Some (c\<lparr>ct_Protocol := gostr ''tls''\<rparr>),
      sc_Outbound := Some (sniffed_outbound (sr_RouteOnly (ct_SniffingRequest c)) destination n ob)\<rparr>"
  have "with_result D (dd_fdns d) (ct_SniffingRequest c) destination (Inr (TLSHeader n)) (?ctx0\<lparr>sc_Content := ?c\<rparr>) = Some ctx'"
    using with_result_name [OF assms(11) _ ob(2) _ assms(4,18) _ assms(5) fake, of "?ctx0\<lparr>sc_Content := ?c\<rparr>" "TLSHeader n"] ob(1) assms(17)
    by (simp add: ctx'_def gostr_def)
  ultimately have sn: "sniffed D (dd_fdns d) mem Timeout_ReadMultiBufferTimeout ((False, True, t) # attempts) ctx destination r = Some (ctx', Cached r')"
    using content assms(10,15,16) by (simp add: sniffed_def Let_def)
  have "lr_pending tw_pending (Cached r') = tw_pending r"
    using twr.sniffed_stream [OF assms(6) _ sn] by (auto simp: lr_arrived_def)
  moreover have "DispatchLink D E visit P mem ((False, True, t) # attempts) d ctx destination r =
      map_option (\<lambda>(d', ctx2, out). Inr (d', ctx2, out, Cached r')) (routedDispatch E visit P d ctx')"
    using valid sn by (cases "routedDispatch E visit P d ctx'") (auto simp: DispatchLink_def)
  moreover have "sc_Outbound ctx' = Some (sniffed_outbound (sr_RouteOnly (ct_SniffingRequest c)) destination n ob)" by (simp add: ctx'_def)
  moreover note sniffed_domain [OF this valid ob(2,4) assms(11)]
  moreover have "GetProtocol ctx' = gostr ''tls''" by (simp add: ctx'_def GetProtocol_def)
  ultimately show ?thesis
    using ob(2,3) assms(10)
    by (intro exI [of _ ctx'] exI [of _ "sniffed_outbound (sr_RouteOnly (ct_SniffingRequest c)) destination n ob"] exI [of _ "Cached r'"])
      (simp add: sniffed_outbound_def Let_def)
qed

text \<open>A session that asks for the names of TLS connections, and a dispatcher with a default outbound only.\<close>

definition demo_content :: Content where
  "demo_content = zero_Content\<lparr>ct_SniffingRequest := zero_SniffingRequest
     \<lparr>sr_Enabled := True, sr_OverrideDestinationForProtocol := [gostr ''tls'', gostr ''fakedns'']\<rparr>\<rparr>"

definition demo_ctx :: SessionContext where
  "demo_ctx = \<lparr>sc_Inbound = None, sc_Outbound = None, sc_Content = Some demo_content\<rparr>"

definition demo_dispatcher :: "Prefix list DefaultDispatcher" where
  "demo_dispatcher = \<lparr>dd_ohm = NewManager\<lparr>defaultHandler := Some \<lparr>h_Tag = gostr ''out'', h_ref = 0\<rparr>\<rparr>, dd_router = None, dd_fdns = None\<rparr>"

definition demo_dispatch :: dispatch_env where
  "demo_dispatch = \<lparr>de_sniff = demo_sniff, de_regexp = (\<lambda>_. None)\<rparr>"

definition demo_reader :: TimeoutWrapperReader where
  "demo_reader = \<lparr>tw_Reader = [(new_buffers (hello_record 1 demo_hello @ [5, 5]), None)], tw_done = False, tw_Counter = None\<rparr>"

definition demo_dest :: Destination where
  "demo_dest = TCPDestination (ipv4Address [1, 2, 3, 4]) 443"

lemma demo_hello_facts:
  "hello_ok demo_hello" "hello_name (ch_extensions demo_hello) = Inr (gostr ''a.de'')" "length (hello_record 1 demo_hello) = 78"
  by (simp_all add: hello_ok_def demo_hello_def hello_bytes_def extensions_bytes_def names_bytes_def check_name_def hello_record_def gostr_def)

lemma demo_reader_facts:
  "tw_ok demo_reader" "tw_pending demo_reader = hello_record 1 demo_hello @ [5, 5]" "length (tw_pending demo_reader) = 80"
  "mb_content (new_buffers (hello_record 1 demo_hello @ [5, 5])) = hello_record 1 demo_hello @ [5, 5]"
  using new_buffers_spec [of "hello_record 1 demo_hello @ [5, 5]"] demo_hello_facts(3)
  by (simp_all add: demo_reader_def tw_ok_def tw_pending_def)

lemma demo_mem: "int (length (replicate 32768 (0 :: byte))) = Alloc 32767"
proof -
  have "Alloc 32767 = 32768" by code_simp
  then show ?thesis by simp
qed

lemma demo_dest_facts:
  "d_Network demo_dest = Network_TCP" "d_Address demo_dest = Some (ipv4Address [1, 2, 3, 4])" "Destination_IsValid demo_dest"
  "ParseAddress (gostr ''a.de'') = domainAddress (gostr ''a.de'')"
proof -
  show "ParseAddress (gostr ''a.de'') = domainAddress (gostr ''a.de'')" by code_simp
qed (simp_all add: demo_dest_def TCPDestination_def Destination_IsValid_def)

lemma demo_request:
  "sc_Content demo_ctx = Some demo_content" "sr_Enabled (ct_SniffingRequest demo_content)" "\<not> sr_MetadataOnly (ct_SniffingRequest demo_content)"
  "\<not> sr_RouteOnly (ct_SniffingRequest demo_content)"
  "sr_OverrideDestinationForProtocol (ct_SniffingRequest demo_content) = [gostr ''tls'', gostr ''fakedns'']"
  "sr_ExcludeForDomain (ct_SniffingRequest demo_content) = []"
  by (simp_all add: demo_ctx_def demo_content_def zero_Content_def zero_SniffingRequest_def)

theorem sniffed_name_routed_witness:
  "\<forall>P. \<exists>ctx' reader. DispatchLink demo_dispatch demo_routes id P (replicate 32768 0) [(False, True, 1000)] demo_dispatcher demo_ctx demo_dest demo_reader =
      map_option (\<lambda>(d', ctx2, out). Inr (d', ctx2, out, reader)) (routedDispatch demo_routes id P demo_dispatcher ctx') \<and>
    GetTargetDomain ctx' = Some (gostr ''a.de'') \<and> lr_pending tw_pending reader = hello_record 1 demo_hello @ [5, 5]"
proof
  fix P
  have 1: "length (hello_record 1 demo_hello) \<le> 32767" using demo_hello_facts(3) by simp
  have 2: "gostr ''a.de'' \<noteq> []" by (simp add: gostr_def)
  have 3: "tw_Reader demo_reader = (new_buffers (hello_record 1 demo_hello @ [5, 5]), None) # []" by (simp add: demo_reader_def)
  have 4: "length (tw_pending demo_reader) < 2147483648" using demo_reader_facts(3) by simp
  have 5: "\<forall>e. dd_fdns demo_dispatcher = Some e \<longrightarrow> fd_domain e (ipv4Address [1, 2, 3, 4]) = [] \<and> \<not> fd_in_pool e (ipv4Address [1, 2, 3, 4])"
    by (simp add: demo_dispatcher_def)
  have 6: "gostr ''tls'' \<in> set (sr_OverrideDestinationForProtocol (ct_SniffingRequest demo_content))"
    "\<not> excluded demo_dispatch (gostr ''a.de'') (sr_ExcludeForDomain (ct_SniffingRequest demo_content))" by (simp_all add: demo_request)
  have 7: "\<forall>ob. sc_Outbound demo_ctx = Some ob \<longrightarrow> \<not> Destination_IsValid (ob_RouteTarget ob)" by (simp add: demo_ctx_def)
  show "\<exists>ctx' reader. DispatchLink demo_dispatch demo_routes id P (replicate 32768 0) [(False, True, 1000)] demo_dispatcher demo_ctx demo_dest demo_reader =
      map_option (\<lambda>(d', ctx2, out). Inr (d', ctx2, out, reader)) (routedDispatch demo_routes id P demo_dispatcher ctx') \<and>
    GetTargetDomain ctx' = Some (gostr ''a.de'') \<and> lr_pending tw_pending reader = hello_record 1 demo_hello @ [5, 5]"
    using sniffed_name_routed [OF demo_hello_facts(1,2) 1 2 demo_dest_facts(4) demo_reader_facts(1) 3 demo_reader_facts(4) 4 demo_dest_facts(1,2)
        demo_mem 5 demo_request(1,2,3) 6 7, of demo_routes id P 1000 "[]"] demo_reader_facts(2) by metis
qed

section \<open>The whole connection\<close>


text \<open>A hello that arrives late, and a pipe into which three bytes are written during the second round.\<close>

definition demo_attempts :: "bool attempt list" where "demo_attempts = [(False, False, 150000000), (False, True, 60000000)]"

definition demo_rounds :: "pipe_act list attempt list" where
  "demo_rounds = [(False, [], 150000000), (False, [Act_Write [FromBytes [1, 2, 3]]], 60000000)]"


section \<open>Fake addresses\<close>

text \<open>
  A started fake DNS holder as an engine of the sniffers, in the state it has when a connection is dispatched. A lookup only
  moves the name up in the cache; it changes no answer.
\<close>

definition holder_engine :: "Holder \<Rightarrow> fake_engine" where
  "holder_engine h =
     \<lparr>fd_domain = (\<lambda>a. case GetDomainFromFakeDNS h a of None \<Rightarrow> [] | Some (_, d) \<Rightarrow> d), fd_rev0 = True,
      fd_in_pool = (\<lambda>a. Holder_IsIPInIPPool h a = Some True)\<rparr>"

lemma holder_engine_lookup:
  assumes "holder_ok h" "GetDomainFromFakeDNS h a = Some (h', d)"
  shows "holder_engine h' = holder_engine h"
proof -
  obtain c n where c: "domainToIP h = Some c" "ipRange h = Some n" "lru_inv c" using assms(1) by (auto simp: holder_ok_def)
  obtain c1 x where g: "lru_GetKeyFromValue c (Some a) = (c1, x)" by (cases "lru_GetKeyFromValue c (Some a)")
  have G: "lru_inv c1" "set (lru_content c1) = set (lru_content c)" using lruc.getkey_law [OF c(3) g] by blast+
  have same: "snd (lru_GetKeyFromValue c1 v) = snd (lru_GetKeyFromValue c v)" for v
  proof (cases "\<exists>k. (k, v) \<in> set (lru_content c)")
    case True
    then obtain k where "(k, v) \<in> set (lru_content c)" by blast
    with lruc.getkey_member [OF c(3)] lruc.getkey_member [OF G(1)] G(2) show ?thesis by metis
  next
    case False
    have "key_of xs v = None" if "set xs = set (lru_content c)" for xs using False that by (force simp: map_of_eq_None_iff)
    with lruc.getkey_law [OF c(3), of v] lruc.getkey_law [OF G(1), of v] G(2) show ?thesis by (metis prod.collapse)
  qed
  have names: "map_option snd (GetDomainFromFakeDNS (h\<lparr>domainToIP := Some c1\<rparr>) b) = map_option snd (GetDomainFromFakeDNS h b)" for b
    using same [of "Some b"] c(1,2)
    by (auto simp: GetDomainFromFakeDNS_def map_option_case split: option.splits prod.splits)
  have "h' = h \<or> h' = h\<lparr>domainToIP := Some c1\<rparr>"
    using assms(2) c(1) g by (auto simp: GetDomainFromFakeDNS_def bind_eq_Some_conv split: option.splits if_splits)
  moreover have "holder_engine (h\<lparr>domainToIP := Some c1\<rparr>) = holder_engine h"
  proof -
    have "(case GetDomainFromFakeDNS (h\<lparr>domainToIP := Some c1\<rparr>) b of None \<Rightarrow> [] | Some (_, d) \<Rightarrow> d) =
      (case GetDomainFromFakeDNS h b of None \<Rightarrow> [] | Some (_, d) \<Rightarrow> d)" for b
      using names [of b] by (auto split: option.splits)
    moreover have "Holder_IsIPInIPPool (h\<lparr>domainToIP := Some c1\<rparr>) b = Holder_IsIPInIPPool h b" for b
      by (simp add: Holder_IsIPInIPPool_def split: option.split)
    ultimately show ?thesis by (simp add: holder_engine_def)
  qed
  ultimately show ?thesis by auto
qed

text \<open>With a name from the metadata the domain of the result is that name, whatever the content is.\<close>

lemma sniffer_metadata:
  assumes "d_Address target = Some a" "d_Network target = Network_TCP \<or> d_Network target = Network_UDP" "fd_domain e a = n" "n \<noteq> []"
    and "sniffer D (Some e) target mem rd attempts metadataOnly network c r = Some (res, c', r')"
  shows "\<exists>result. res = Inr result \<and> res_Domain result = n \<and> domain_protocol result = gostr ''fakedns''"
proof -
  obtain s where "SniffMetadata (NewSniffer (de_sniff D) (Some e) target) c = Some (Inr (fakeDNSSniffResult n), s, c)"
    by (rule SniffMetadata_new [OF assms(1), of "de_sniff D" "Some e" c]) (use assms in auto)
  note m = this
  show ?thesis
  proof (cases metadataOnly)
    case True
    with m assms(5) show ?thesis by (auto simp: sniffer_def bind_eq_Some_conv)
  next
    case False
    with m assms(5) obtain cont :: "goerr + SniffResult" where
      "res = (case cont of Inl _ \<Rightarrow> Inr (fakeDNSSniffResult n) | Inr x \<Rightarrow> Inr (compositeResult (fakeDNSSniffResult n) x))"
      by (auto simp: sniffer_def bind_eq_Some_conv)
    then show ?thesis by (cases cont) auto
  qed
qed

lemma routedDispatch_targets:
  assumes "routedDispatch E visit P d ctx = Some (d', ctx', out)" "sc_Outbound ctx = Some ob"
  shows "\<exists>tag. sc_Outbound ctx' = Some (ob\<lparr>ob_Tag := tag\<rparr>)"
proof -
  obtain d1 ctx1 picked where p: "pick_handler E visit P d ctx = Some (d1, ctx1, picked)"
    using assms(1) by (cases "pick_handler E visit P d ctx") (auto simp: routedDispatch_def Let_def)
  have "ob = ob\<lparr>ob_Tag := ob_Tag ob\<rparr>" by simp
  with pick_handler_outbound [OF p] p assms show ?thesis
    by (auto simp: routedDispatch_def Let_def split: sum.splits option.splits intro: exI [of _ "ob_Tag ob"])
qed


lemma demo_pool: "rooms demo_net = 2" "pool_ok demo_net"
proof -
  show r: "rooms demo_net = 2" by (simp add: rooms_def demo_net_def)
  show "pool_ok demo_net" unfolding pool_ok_def r by (simp add: demo_net_def be_value_def)
qed

definition demo_holder :: Holder where
  "demo_holder = (NewFakeDNSHolderConfigOnly (Some \<lparr>IpPool = gostr ''198.18.0.0/30'', LruSize = 2\<rparr>))
     \<lparr>domainToIP := Some (NewLru 2), ipRange := Some demo_net\<rparr>"

lemma demo_holder_ok: "holder_ok demo_holder"
proof (rule Holder_Start_ok [of "\<lambda>_. Inr demo_net" "gostr ''198.18.0.0/30''" demo_net 2 "\<lambda>k r. 2 ^ r \<le> k"])
  show "Holder_Start (\<lambda>_. Inr demo_net) (\<lambda>k r. 2 ^ r \<le> k)
      (NewFakeDNSHolderConfigOnly (Some \<lparr>IpPool = gostr ''198.18.0.0/30'', LruSize = 2\<rparr>)) = (demo_holder, None)"
    by (simp add: Holder_Start_def NewFakeDNSHolderConfigOnly_def initializeFromConfig_def fk_initialize_def demo_pool demo_holder_def)
qed (simp_all add: demo_pool)


end
