(* ===== verification/Trojan_Protocol.thy ===== *)
theory Trojan_Protocol
  imports Address_Parser Buf_MultiBuffer
begin

text \<open>
  \<^verbatim>\<open>proxy/trojan/protocol.go\<close>: the header of a Trojan connection, its packets, and the readers and writers on both
  sides. An error that the source wraps is given by its cause. \<open>None\<close> is a panic.
\<close>

section \<open>The format\<close>

definition tj_crlf :: "byte list" where "tj_crlf = [13, 10]"

definition tj_addrParser :: parser_option where
  "tj_addrParser = the (NewAddressParser [AddressFamilyByte 1 AddressFamilyIPv4, AddressFamilyByte 4 AddressFamilyIPv6,
     AddressFamilyByte 3 AddressFamilyDomain])"

definition tj_maxLength :: int where "tj_maxLength = 8192"

definition tj_commandTCP :: byte where "tj_commandTCP = 1"
definition tj_commandUDP :: byte where "tj_commandUDP = 3"

text \<open>One write after another, up to the first error.\<close>

fun writes :: "('b \<Rightarrow> goerr option \<times> 'b) list \<Rightarrow> 'b \<Rightarrow> goerr option \<times> 'b" where
  "writes [] b = (None, b)"
| "writes (w # ws) b = (case w b of (Some e, b') \<Rightarrow> (Some e, b') | (None, b') \<Rightarrow> writes ws b')"

section \<open>Connections\<close>

record ConnWriter =
  tc_Writer :: sink
  tc_Target :: Destination
  tc_Key :: "byte list"
  tc_headerSent :: bool

text \<open>The target of a client has an address; \<^verbatim>\<open>WriteAddressPort\<close> panics on none.\<close>

definition tj_writeHeader :: "ConnWriter \<Rightarrow> (goerr option \<times> ConnWriter) option" where
  "tj_writeHeader c =
     (let command = (if d_Network (tc_Target c) = Network_UDP then tj_commandUDP else tj_commandTCP) in
      do { address \<leftarrow> d_Address (tc_Target c);
           (case writes [buffer_wr (tc_Key c), buffer_wr tj_crlf, (\<lambda>b. Buffer_WriteByte b command),
                         (\<lambda>b. WriteAddressPort buffer_wr tj_addrParser b address (d_Port (tc_Target c))), buffer_wr tj_crlf] fresh_buffer of
              (Some e, _) \<Rightarrow> Some (Some e, c)
            | (None, buffer) \<Rightarrow>
                do { bytes \<leftarrow> Buffer_Bytes buffer;
                     (case sink_wr bytes (tc_Writer c) of
                        (Some e, w) \<Rightarrow> Some (Some e, c\<lparr>tc_Writer := w\<rparr>)
                      | (None, w) \<Rightarrow> Some (None, c\<lparr>tc_Writer := w, tc_headerSent := True\<rparr>)) }) })"

definition ConnWriter_Write :: "ConnWriter \<Rightarrow> byte list \<Rightarrow> (nat \<times> goerr option \<times> ConnWriter) option" where
  "ConnWriter_Write c p =
     do { (err, c1) \<leftarrow> (if tc_headerSent c then Some (None, c) else tj_writeHeader c);
          Some (case err of
                  Some e \<Rightarrow> (0, Some e, c1)
                | None \<Rightarrow> (case io_Write p (tc_Writer c1) of (n, e, w) \<Rightarrow> (n, e, c1\<lparr>tc_Writer := w\<rparr>))) }"

fun ConnWriter_WriteMultiBuffer :: "ConnWriter \<Rightarrow> MultiBuffer \<Rightarrow> (goerr option \<times> ConnWriter) option" where
  "ConnWriter_WriteMultiBuffer c [] = Some (None, c)"
| "ConnWriter_WriteMultiBuffer c (b # mb) =
     (if Buffer_IsEmpty b then ConnWriter_WriteMultiBuffer c mb
      else
        do { bytes \<leftarrow> Buffer_Bytes b;
             (n, err, c') \<leftarrow> ConnWriter_Write c bytes;
             (case err of Some e \<Rightarrow> Some (Some e, c') | None \<Rightarrow> ConnWriter_WriteMultiBuffer c' mb) })"

record ConnReader =
  tr_Reader :: instream
  tr_Target :: Destination
  tr_headerParsed :: bool

definition tj_ParseHeader :: "ConnReader \<Rightarrow> (goerr option \<times> ConnReader) option" where
  "tj_ParseHeader c =
     (case io_ReadFull 56 (tr_Reader c) of
        (_, Some e, r) \<Rightarrow> Some (Some e, c\<lparr>tr_Reader := r\<rparr>)
      | (hash, None, r) \<Rightarrow>
     (case io_ReadFull 2 r of
        (_, Some e, r) \<Rightarrow> Some (Some e, c\<lparr>tr_Reader := r\<rparr>)
      | (crlf, None, r) \<Rightarrow>
     (case io_ReadFull 1 r of
        (_, Some e, r) \<Rightarrow> Some (Some e, c\<lparr>tr_Reader := r\<rparr>)
      | (command, None, r) \<Rightarrow>
          (let network = (if command ! 0 = tj_commandUDP then Network_UDP else Network_TCP) in
           do { (res, r) \<leftarrow> ReadAddressPort tj_addrParser None r;
                (case res of
                   Inl e \<Rightarrow> Some (Some e, c\<lparr>tr_Reader := r\<rparr>)
                 | Inr (addr, port) \<Rightarrow>
                     (let target = \<lparr>d_Address = Some addr, d_Port = port, d_Network = network\<rparr> in
                      case io_ReadFull 2 r of
                        (_, Some e, r) \<Rightarrow> Some (Some e, c\<lparr>tr_Reader := r, tr_Target := target\<rparr>)
                      | (crlf, None, r) \<Rightarrow> Some (None, c\<lparr>tr_Reader := r, tr_Target := target, tr_headerParsed := True\<rparr>))) }))))"

definition ConnReader_Read :: "ConnReader \<Rightarrow> nat \<Rightarrow> (byte list \<times> goerr option \<times> ConnReader) option" where
  "ConnReader_Read c n =
     do { (err, c1) \<leftarrow> (if tr_headerParsed c then Some (None, c) else tj_ParseHeader c);
          Some (case err of
                  Some e \<Rightarrow> ([], Some e, c1)
                | None \<Rightarrow> (case io_Read n (tr_Reader c1) of (bs, e, r) \<Rightarrow> (bs, e, c1\<lparr>tr_Reader := r\<rparr>))) }"

text \<open>\<^verbatim>\<open>b.ReadFrom(c)\<close> into a new buffer: one read of at most its room.\<close>

definition ConnReader_ReadMultiBuffer :: "ConnReader \<Rightarrow> (MultiBuffer \<times> goerr option \<times> ConnReader) option" where
  "ConnReader_ReadMultiBuffer c =
     do { (bs, e, c') \<leftarrow> ConnReader_Read c (room fresh_buffer);
          Some ([append_read fresh_buffer bs], e, c') }"

section \<open>Packets\<close>

definition tj_writePacket :: "sink \<Rightarrow> byte list \<Rightarrow> Destination \<Rightarrow> (goerr option \<times> sink) option" where
  "tj_writePacket w payload dest =
     (let lengthBuf = PutUint16 (of_nat (length payload)) in
      do { address \<leftarrow> d_Address dest;
           (case writes [(\<lambda>b. WriteAddressPort buffer_wr tj_addrParser b address (d_Port dest)),
                         buffer_wr lengthBuf, buffer_wr tj_crlf, buffer_wr payload] fresh_buffer of
              (Some e, _) \<Rightarrow> Some (Some e, w)
            | (None, buffer) \<Rightarrow> do { bytes \<leftarrow> Buffer_Bytes buffer; Some (sink_wr bytes w) }) })"

text \<open>A packet goes to the destination of its buffer, or to the target of the writer.\<close>

fun PacketWriter_WriteMultiBuffer :: "Destination \<Rightarrow> sink \<Rightarrow> MultiBuffer \<Rightarrow> (goerr option \<times> sink) option" where
  "PacketWriter_WriteMultiBuffer target w [] = Some (None, w)"
| "PacketWriter_WriteMultiBuffer target w (b # mb) =
     do { bytes \<leftarrow> Buffer_Bytes b;
          (err, w') \<leftarrow> tj_writePacket w bytes (case b_UDP b of None \<Rightarrow> target | Some d \<Rightarrow> d);
          (case err of Some e \<Rightarrow> Some (Some e, w') | None \<Rightarrow> PacketWriter_WriteMultiBuffer target w' mb) }"

text \<open>The loop that reads the payload: every buffer but the last is filled.\<close>

function read_payload :: "Destination \<Rightarrow> nat \<Rightarrow> MultiBuffer \<Rightarrow> instream \<Rightarrow> ((goerr + MultiBuffer) \<times> instream) option" where
  "read_payload dest remain mb r =
     (if remain > 0 then
        (let len = (if int remain < Size then remain else nat Size) in
         case Buffer_ReadFullFrom (fresh_buffer\<lparr>b_UDP := Some dest\<rparr>) r (int len) of
           None \<Rightarrow> None
         | Some (_, Some e, _, r') \<Rightarrow> Some (Inl e, r')
         | Some (_, None, b, r') \<Rightarrow> read_payload dest (remain - len) (mb @ [b]) r')
      else Some (Inr mb, r))"
  by pat_completeness auto
termination
  by (relation "measure (\<lambda>(dest, remain, mb, r). remain)") (auto simp: Size_def)

declare read_payload.simps [simp del]

definition PacketReader_ReadMultiBuffer :: "instream \<Rightarrow> ((goerr + MultiBuffer) \<times> instream) option" where
  "PacketReader_ReadMultiBuffer r =
     do { (res, r) \<leftarrow> ReadAddressPort tj_addrParser None r;
          (case res of
             Inl e \<Rightarrow> Some (Inl e, r)
           | Inr (addr, port) \<Rightarrow>
          (case io_ReadFull 2 r of
             (_, Some e, r) \<Rightarrow> Some (Inl e, r)
           | (lengthBuf, None, r) \<Rightarrow>
               (let remain = unat (Uint16 lengthBuf) in
                if int remain > tj_maxLength then Some (Inl (ErrMsg ''oversize payload''), r)
                else
                  (case io_ReadFull 2 r of
                     (_, Some e, r) \<Rightarrow> Some (Inl e, r)
                   | (crlf, None, r) \<Rightarrow> read_payload (UDPDestination addr port) remain [] r)))) }"

section \<open>What is written\<close>

lemma tj_addrParser_ok: "parser_ok (o_maps tj_addrParser)" "\<not> portFirst tj_addrParser"
proof -
  have "addrByteMap (o_maps tj_addrParser) f < 16 \<and>
     addrTypeMap (o_maps tj_addrParser) (unat (addrByteMap (o_maps tj_addrParser) f)) = Some f" for f
    by (cases f) (simp_all add: tj_addrParser_def NewAddressParser_def)
  then show "parser_ok (o_maps tj_addrParser)" by (simp add: parser_ok_def tj_addrParser_def NewAddressParser_def)
  show "\<not> portFirst tj_addrParser" by (simp add: tj_addrParser_def NewAddressParser_def)
qed

text \<open>A write that appends these bytes to a buffer with room for them.\<close>

definition writes_bytes :: "(Buffer \<Rightarrow> goerr option \<times> Buffer) \<Rightarrow> byte list \<Rightarrow> bool" where
  "writes_bytes w bs \<longleftrightarrow> (\<forall>b. buffer_wf b \<longrightarrow> length bs \<le> room b \<longrightarrow> (\<exists>b'. w b = (None, b') \<and> appended b bs b'))"

lemma writes_bytes_prims:
  "writes_bytes (buffer_wr bs) bs" "writes_bytes (\<lambda>b. Buffer_WriteByte b x) [x]"
  "sendable a \<Longrightarrow> writes_bytes (\<lambda>b. WriteAddressPort buffer_wr tj_addrParser b a port) (address_port_bytes tj_addrParser (a, port))"
proof -
  show "writes_bytes (buffer_wr bs) bs" by (auto simp: writes_bytes_def buffer_wr_ok append_read_appended)
  have "append_read b [x] = append_read b [x] \<and> appended b [x] (append_read b [x])" if "buffer_wf b" "1 \<le> room b" for b
    using that append_read_appended [of b "[x]"] by simp
  then show "writes_bytes (\<lambda>b. Buffer_WriteByte b x) [x]" by (auto simp: writes_bytes_def Buffer_WriteByte_append)
  assume "sendable a"
  then show "writes_bytes (\<lambda>b. WriteAddressPort buffer_wr tj_addrParser b a port) (address_port_bytes tj_addrParser (a, port))"
    unfolding writes_bytes_def using WriteAddressPort_buffer [OF tj_addrParser_ok(1)] by metis
qed

lemma writes_append:
  "list_all2 writes_bytes ws bss \<Longrightarrow> writes_bytes (writes ws) (concat bss)"
proof (induction ws bss rule: list_all2_induct)
  case Nil
  then show ?case by (simp add: writes_bytes_def)
next
  case (Cons w ws bs bss)
  show ?case unfolding writes_bytes_def
  proof (intro allI impI)
    fix b
    assume b: "buffer_wf b" "length (concat (bs # bss)) \<le> room b"
    then obtain b1 where b1: "w b = (None, b1)" "appended b bs b1" using Cons(1) by (auto simp: writes_bytes_def)
    then have "buffer_wf b1" "length (concat bss) \<le> room b1" using b(2) by (auto simp: appended_def)
    then obtain b2 where "writes ws b1 = (None, b2)" "appended b1 (concat bss) b2" using Cons.IH by (auto simp: writes_bytes_def)
    with b1 appended_trans [OF b1(2)] show "\<exists>b'. writes (w # ws) b = (None, b') \<and> appended b (concat (bs # bss)) b'" by auto
  qed
qed

lemma writes_fresh:
  assumes "list_all2 writes_bytes ws bss" "length (concat bss) \<le> 8192"
  obtains b where "writes ws fresh_buffer = (None, b)" "Buffer_Bytes b = Some (concat bss)"
proof -
  have "room fresh_buffer = 8192" by (simp add: room_def buf_New_def Size_def)
  with writes_append [OF assms(1)] assms(2) obtain b where b: "writes ws fresh_buffer = (None, b)" "appended fresh_buffer (concat bss) b"
    unfolding writes_bytes_def using wf_new by (metis order_refl order_trans)
  have "content fresh_buffer = []" by (simp add: content_def buf_New_def)
  with b(2) have "Buffer_Bytes b = Some (concat bss)" by (simp add: appended_def Buffer_Bytes_content)
  with b(1) that show thesis by blast
qed

definition tj_header_bytes :: "byte list \<Rightarrow> Network \<Rightarrow> Address \<Rightarrow> Port \<Rightarrow> byte list" where
  "tj_header_bytes key network a port =
     key @ tj_crlf @ [if network = Network_UDP then tj_commandUDP else tj_commandTCP] @ address_port_bytes tj_addrParser (a, port) @ tj_crlf"

lemma tj_writeHeader_bytes:
  assumes "d_Address (tc_Target c) = Some a" "sendable a" "length (tc_Key c) = 56"
  shows "tj_writeHeader c =
    (case sink_wr (tj_header_bytes (tc_Key c) (d_Network (tc_Target c)) a (d_Port (tc_Target c))) (tc_Writer c) of
       (Some e, w) \<Rightarrow> Some (Some e, c\<lparr>tc_Writer := w\<rparr>)
     | (None, w) \<Rightarrow> Some (None, c\<lparr>tc_Writer := w, tc_headerSent := True\<rparr>))"
proof -
  let ?command = "if d_Network (tc_Target c) = Network_UDP then tj_commandUDP else tj_commandTCP"
  let ?ws = "[buffer_wr (tc_Key c), buffer_wr tj_crlf, (\<lambda>b. Buffer_WriteByte b ?command),
     (\<lambda>b. WriteAddressPort buffer_wr tj_addrParser b a (d_Port (tc_Target c))), buffer_wr tj_crlf]"
  let ?bss = "[tc_Key c, tj_crlf, [?command], address_port_bytes tj_addrParser (a, d_Port (tc_Target c)), tj_crlf]"
  have "list_all2 writes_bytes ?ws ?bss" using assms(2) by (simp add: writes_bytes_prims)
  moreover have "length (concat ?bss) \<le> 8192"
    using length_address_port_bytes [OF assms(2), of tj_addrParser "d_Port (tc_Target c)"] assms(3) by (simp add: tj_crlf_def)
  ultimately obtain b where "writes ?ws fresh_buffer = (None, b)" "Buffer_Bytes b = Some (concat ?bss)" by (rule writes_fresh)
  then show ?thesis using assms(1) by (simp add: tj_writeHeader_def Let_def tj_header_bytes_def del: writes.simps split: prod.split option.split)
qed

text \<open>What a client has sent after a successful write: the header goes out with the first byte.\<close>

lemma ConnWriter_Write_bytes:
  assumes "d_Address (tc_Target c) = Some a" "sendable a" "length (tc_Key c) = 56" "ConnWriter_Write c p = Some (n, None, c')"
  shows "tc_headerSent c' \<and> tc_Target c' = tc_Target c \<and> tc_Key c' = tc_Key c \<and>
    sent (tc_Writer c') = sent (tc_Writer c) @
      (if tc_headerSent c then [] else tj_header_bytes (tc_Key c) (d_Network (tc_Target c)) a (d_Port (tc_Target c))) @ p"
proof (cases "tc_headerSent c")
  case True
  with assms(4) show ?thesis by (auto simp: ConnWriter_Write_def dest: io_Write_ok split: prod.splits)
next
  case False
  let ?h = "tj_header_bytes (tc_Key c) (d_Network (tc_Target c)) a (d_Port (tc_Target c))"
  obtain e w where w: "sink_wr ?h (tc_Writer c) = (e, w)" by (cases "sink_wr ?h (tc_Writer c)")
  have "e = None" using assms(4) False w tj_writeHeader_bytes [OF assms(1-3)] by (cases e) (simp_all add: ConnWriter_Write_def)
  with w sink_wr_ok have "sent w = sent (tc_Writer c) @ ?h" by blast
  with assms(4) False w \<open>e = None\<close> tj_writeHeader_bytes [OF assms(1-3)] show ?thesis
    by (auto simp: ConnWriter_Write_def dest: io_Write_ok split: prod.splits)
qed

lemma ConnWriter_WriteMultiBuffer_bytes:
  assumes "d_Address (tc_Target c) = Some a" "sendable a" "length (tc_Key c) = 56" "mb_wf mb" "ConnWriter_WriteMultiBuffer c mb = Some (None, c')"
  shows "tc_Target c' = tc_Target c \<and> tc_Key c' = tc_Key c \<and> (tc_headerSent c' \<longleftrightarrow> tc_headerSent c \<or> mb_content mb \<noteq> []) \<and>
    sent (tc_Writer c') = sent (tc_Writer c) @
      (if tc_headerSent c \<or> mb_content mb = [] then [] else tj_header_bytes (tc_Key c) (d_Network (tc_Target c)) a (d_Port (tc_Target c))) @ mb_content mb"
  using assms
proof (induction mb arbitrary: c)
  case (Cons b mb)
  show ?case
  proof (cases "Buffer_IsEmpty b")
    case True
    with Cons show ?thesis by (simp add: Buffer_IsEmpty_content)
  next
    case False
    have b: "Buffer_Bytes b = Some (content b)" "content b \<noteq> []"
      using Cons.prems(4) False by (simp_all add: Buffer_Bytes_content Buffer_IsEmpty_content)
    obtain n err c1 where w: "ConnWriter_Write c (content b) = Some (n, err, c1)"
      using Cons.prems(5) False b by (cases "ConnWriter_Write c (content b)") auto
    have err: "err = None" using Cons.prems(5) False b w by (cases err) auto
    note W = ConnWriter_Write_bytes [OF Cons.prems(1-3) w [unfolded err]]
    with Cons.IH [of c1] Cons.prems False b w err show ?thesis by auto
  qed
qed simp

section \<open>What is read\<close>

lemma read_bytes:
  assumes "flat r = bs @ rest" "length bs = k"
  obtains r' where "io_ReadFull k r = (bs, None, r')" "flat r' = rest" "fin r' = fin r"
proof -
  have "k \<le> length (flat r)" using assms by simp
  then obtain r' where "io_ReadFull k r = (take k (flat r), None, r')" "flat r' = drop k (flat r)" "fin r' = fin r" by (rule io_ReadFull_ok)
  with that assms show thesis by simp
qed

lemma tj_ParseHeader_ok:
  assumes "flat (tr_Reader c) = tj_header_bytes key network a port @ rest" "length key = 56" "sendable a"
  obtains r where "tj_ParseHeader c = Some (None, c\<lparr>tr_Reader := r, tr_headerParsed := True,
      tr_Target := \<lparr>d_Address = Some a, d_Port = port, d_Network = (if network = Network_UDP then Network_UDP else Network_TCP)\<rparr>\<rparr>)"
    "flat r = rest" "fin r = fin (tr_Reader c)"
proof -
  let ?command = "if network = Network_UDP then tj_commandUDP else tj_commandTCP" and ?a = "address_port_bytes tj_addrParser (a, port)"
  have "flat (tr_Reader c) = key @ tj_crlf @ [?command] @ ?a @ tj_crlf @ rest" using assms(1) by (simp add: tj_header_bytes_def)
  from read_bytes [OF this assms(2)] obtain r1 where 1: "io_ReadFull 56 (tr_Reader c) = (key, None, r1)" "fin r1 = fin (tr_Reader c)"
    "flat r1 = tj_crlf @ [?command] @ ?a @ tj_crlf @ rest" by blast
  from read_bytes [OF 1(3), of 2] obtain r2 where 2: "io_ReadFull 2 r1 = (tj_crlf, None, r2)" "fin r2 = fin r1"
    "flat r2 = [?command] @ ?a @ tj_crlf @ rest" by (auto simp: tj_crlf_def)
  from read_bytes [OF 2(3), of 1] obtain r3 where 3: "io_ReadFull 1 r2 = ([?command], None, r3)" "fin r3 = fin r2"
    "flat r3 = ?a @ tj_crlf @ rest" by auto
  from ReadAddressPort_ok [OF tj_addrParser_ok(1) assms(3) 3(3)] obtain r4 where
    4: "ReadAddressPort tj_addrParser None r3 = Some (Inr (a, port), r4)" "flat r4 = tj_crlf @ rest" "fin r4 = fin r3" by blast
  from read_bytes [OF 4(2), of 2] obtain r5 where 5: "io_ReadFull 2 r4 = (tj_crlf, None, r5)" "fin r5 = fin r4" "flat r5 = rest"
    by (auto simp: tj_crlf_def)
  from that [of r5] 1 2 3 4 5 show thesis
    by (simp add: tj_ParseHeader_def Let_def tj_commandUDP_def tj_commandTCP_def)
qed

lemma tj_ParseHeader_returns: "\<exists>e c'. tj_ParseHeader c = Some (e, c')"
proof -
  have *: "\<exists>x. ReadAddressPort tj_addrParser None r = Some x" for r using ReadAddressPort_safe [of tj_addrParser r] by blast
  obtain x1 e1 r1 where 1: "io_ReadFull 56 (tr_Reader c) = (x1, e1, r1)" by (metis prod_cases3)
  obtain x2 e2 r2 where 2: "io_ReadFull 2 r1 = (x2, e2, r2)" by (metis prod_cases3)
  obtain x3 e3 r3 where 3: "io_ReadFull 1 r2 = (x3, e3, r3)" by (metis prod_cases3)
  obtain res r4 where 4: "ReadAddressPort tj_addrParser None r3 = Some (res, r4)" using * by (metis prod.exhaust)
  obtain x5 e5 r5 where 5: "io_ReadFull 2 r4 = (x5, e5, r5)" by (metis prod_cases3)
  show ?thesis
    using 1 2 3 4 5 by (cases e1; cases e2; cases e3; cases res; cases e5) (auto simp: tj_ParseHeader_def Let_def)
qed

section \<open>Packets\<close>

definition tj_packet_bytes :: "Address \<Rightarrow> Port \<Rightarrow> byte list \<Rightarrow> byte list" where
  "tj_packet_bytes a port payload = address_port_bytes tj_addrParser (a, port) @ PutUint16 (of_nat (length payload)) @ tj_crlf @ payload"

lemma tj_writePacket_bytes:
  assumes "d_Address dest = Some a" "sendable a" "length (tj_packet_bytes a (d_Port dest) payload) \<le> 8192"
  shows "tj_writePacket w payload dest = Some (sink_wr (tj_packet_bytes a (d_Port dest) payload) w)"
proof -
  let ?ws = "[(\<lambda>b. WriteAddressPort buffer_wr tj_addrParser b a (d_Port dest)),
    buffer_wr (PutUint16 (of_nat (length payload))), buffer_wr tj_crlf, buffer_wr payload]"
  let ?bss = "[address_port_bytes tj_addrParser (a, d_Port dest), PutUint16 (of_nat (length payload)), tj_crlf, payload]"
  have "list_all2 writes_bytes ?ws ?bss" using assms(2) by (simp add: writes_bytes_prims)
  moreover have "length (concat ?bss) \<le> 8192" using assms(3) by (simp add: tj_packet_bytes_def)
  ultimately obtain b where "writes ?ws fresh_buffer = (None, b)" "Buffer_Bytes b = Some (concat ?bss)" by (rule writes_fresh)
  then show ?thesis using assms(1) by (simp add: tj_writePacket_def Let_def tj_packet_bytes_def del: writes.simps)
qed

lemma PacketReader_ok:
  assumes "flat r = tj_packet_bytes a port payload @ rest" "sendable a" "length payload \<le> 8192"
  obtains mb r' where "PacketReader_ReadMultiBuffer r = Some (Inr mb, r')" "flat r' = rest" "fin r' = fin r"
    "payload = [] \<longrightarrow> mb = []" "payload \<noteq> [] \<longrightarrow> (\<exists>b. mb = [b] \<and> buffer_wf b \<and> content b = payload \<and> b_UDP b = Some (UDPDestination a port))"
proof -
  let ?n = "PutUint16 (of_nat (length payload)) :: byte list"
  have "flat r = address_port_bytes tj_addrParser (a, port) @ ?n @ tj_crlf @ payload @ rest" using assms(1) by (simp add: tj_packet_bytes_def)
  from ReadAddressPort_ok [OF tj_addrParser_ok(1) assms(2) this] obtain r1 where
    1: "ReadAddressPort tj_addrParser None r = Some (Inr (a, port), r1)" "fin r1 = fin r" "flat r1 = ?n @ tj_crlf @ payload @ rest" by blast
  from read_bytes [OF 1(3), of 2] obtain r2 where 2: "io_ReadFull 2 r1 = (?n, None, r2)" "fin r2 = fin r1" "flat r2 = tj_crlf @ payload @ rest" by auto
  from read_bytes [OF 2(3), of 2] obtain r3 where 3: "io_ReadFull 2 r2 = (tj_crlf, None, r3)" "fin r3 = fin r2" "flat r3 = payload @ rest"
    by (auto simp: tj_crlf_def)
  have len: "unat (Uint16 ?n) = length payload"
    using assms(3) Uint16_PutUint16 [of "of_nat (length payload)" "[]"] by (simp add: unsigned_of_nat take_bit_nat_eq_self)
  have pr: "PacketReader_ReadMultiBuffer r = read_payload (UDPDestination a port) (length payload) [] r3"
    using 1(1) 2(1) 3(1) len assms(3) by (simp add: PacketReader_ReadMultiBuffer_def Let_def tj_maxLength_def)
  show thesis
  proof (cases "payload = []")
    case True
    with that [of "[]" r3] pr 1 2 3 show thesis by (simp add: read_payload.simps)
  next
    case False
    let ?b = "fresh_buffer\<lparr>b_UDP := Some (UDPDestination a port)\<rparr>"
    have b: "buffer_wf ?b" "room ?b = 8192" "content ?b = []" by (simp_all add: buffer_wf_def room_def content_def buf_New_def Size_def)
    have "int (length payload) \<le> int (room ?b)" "nat (int (length payload)) \<le> length (flat r3)" using assms(3) b(2) 3(3) by simp_all
    then obtain r4 where 4: "Buffer_ReadFullFrom ?b r3 (int (length payload)) = Some (length payload, None, append_read ?b payload, r4)"
      "flat r4 = rest" "fin r4 = fin r3"
      using Buffer_ReadFullFrom_ok [OF b(1), of "int (length payload)" r3] 3(3) by auto
    have "(if int (length payload) < Size then length payload else nat Size) = length payload" using assms(3) by (simp add: Size_def)
    then have "read_payload (UDPDestination a port) (length payload) [] r3 = Some (Inr [append_read ?b payload], r4)"
      using 4(1) False by (simp add: read_payload.simps [of _ "length payload"] read_payload.simps [of _ 0] Let_def)
    with that [of "[append_read ?b payload]" r4] pr False 1 2 3 4 b assms(3) show thesis
      by (simp add: append_read_wf append_read_content)
  qed
qed

end
