(* ===== verification/Trojan_Server.thy ===== *)
theory Trojan_Server
  imports Trojan_Protocol Router_Condition
begin

text \<open>
  The Trojan inbound: \<^verbatim>\<open>proxy/trojan/config.go\<close>, \<^verbatim>\<open>validator.go\<close> and \<^verbatim>\<open>server.go\<close> up to the point where a connection is
  handed to the dispatcher or relayed to a fallback. SHA-224, \<^verbatim>\<open>strings.ToLower\<close>, the names a TLS connection reports and the
  order in which Go visits a map are parameters; the maps of \<^verbatim>\<open>sync.Map\<close> are association lists. \<open>None\<close> is a panic.
\<close>

section \<open>Accounts\<close>

definition hexString :: "byte list \<Rightarrow> gostring" where
  "hexString data = concat (map (\<lambda>v. [hex_digit (unat v div 16), hex_digit (unat v mod 16)]) data)"

text \<open>\<^verbatim>\<open>hex.Encode\<close> writes the same digits.\<close>

definition hexSha224 :: "(gostring \<Rightarrow> byte list) \<Rightarrow> gostring \<Rightarrow> byte list" where
  "hexSha224 sha224 password = hexString (sha224 password)"

record TrojanUser =
  tu_Email :: gostring
  tu_Level :: u32
  tu_Password :: gostring
  tu_Key :: "byte list"

definition tj_AsAccount :: "(gostring \<Rightarrow> byte list) \<Rightarrow> gostring \<Rightarrow> u32 \<Rightarrow> gostring \<Rightarrow> TrojanUser" where
  "tj_AsAccount sha224 email level password =
     \<lparr>tu_Email = email, tu_Level = level, tu_Password = password, tu_Key = hexSha224 sha224 password\<rparr>"

section \<open>The validator\<close>

record TrojanValidator =
  va_email :: "(gostring \<times> TrojanUser) list"
  va_users :: "(gostring \<times> TrojanUser) list"

definition Validator_Add :: "(gostring \<Rightarrow> gostring) \<Rightarrow> TrojanValidator \<Rightarrow> TrojanUser \<Rightarrow> TrojanValidator \<times> goerr option" where
  "Validator_Add lower v u =
     (let e = lower (tu_Email u) in
      if tu_Email u \<noteq> [] \<and> map_of (va_email v) e \<noteq> None then (v, Some (ErrMsg ''User already exists.''))
      else
        let v1 = (if tu_Email u \<noteq> [] then v\<lparr>va_email := (e, u) # va_email v\<rparr> else v)
        in (v1\<lparr>va_users := AList.update (hexString (tu_Key u)) u (va_users v1)\<rparr>, None))"

definition Validator_Del :: "(gostring \<Rightarrow> gostring) \<Rightarrow> TrojanValidator \<Rightarrow> gostring \<Rightarrow> TrojanValidator \<times> goerr option" where
  "Validator_Del lower v e =
     (if e = [] then (v, Some (ErrMsg ''Email must not be empty.''))
      else
        let le = lower e in
        (case map_of (va_email v) le of
           None \<Rightarrow> (v, Some (ErrMsg ''User not found.''))
         | Some u \<Rightarrow> (v\<lparr>va_email := AList.delete le (va_email v), va_users := AList.delete (hexString (tu_Key u)) (va_users v)\<rparr>, None)))"

definition Validator_Get :: "TrojanValidator \<Rightarrow> gostring \<Rightarrow> TrojanUser option" where
  "Validator_Get v hash = map_of (va_users v) hash"

definition Validator_GetByEmail :: "(gostring \<Rightarrow> gostring) \<Rightarrow> TrojanValidator \<Rightarrow> gostring \<Rightarrow> TrojanUser option" where
  "Validator_GetByEmail lower v email = map_of (va_email v) (lower email)"

text \<open>\<open>visit\<close> is the order in which \<^verbatim>\<open>Range\<close> visits the entries.\<close>

definition Validator_GetAll :: "(TrojanUser list \<Rightarrow> TrojanUser list) \<Rightarrow> TrojanValidator \<Rightarrow> TrojanUser list" where
  "Validator_GetAll visit v = visit (map snd (va_email v))"

definition Validator_GetCount :: "TrojanValidator \<Rightarrow> nat" where
  "Validator_GetCount v = length (va_email v)"

section \<open>Fallbacks\<close>

record Fallback =
  fb_Name :: gostring
  fb_Alpn :: gostring
  fb_Path :: gostring
  fb_Type :: gostring
  fb_Dest :: gostring
  fb_Xver :: u64

type_synonym path_map = "(gostring \<times> Fallback) list"
type_synonym alpn_map = "(gostring \<times> path_map) list"
type_synonym name_map = "(gostring \<times> alpn_map) list"

definition or_new :: "'a list option \<Rightarrow> 'a list" where
  "or_new x = (case x of None \<Rightarrow> [] | Some y \<Rightarrow> y)"

definition add_fallback :: "name_map \<Rightarrow> Fallback \<Rightarrow> name_map" where
  "add_fallback m fb =
     (let apfb = or_new (map_of m (fb_Name fb)); pfb = or_new (map_of apfb (fb_Alpn fb))
      in AList.update (fb_Name fb) (AList.update (fb_Alpn fb) (AList.update (fb_Path fb) fb pfb) apfb) m)"

text \<open>
  The three loops of \<^verbatim>\<open>NewServer\<close> over the maps. Each treats its entries one by one and changes only the entry it is at,
  so the order of the visit does not matter.
\<close>

definition ensure_alpns :: "alpn_map \<Rightarrow> gostring list \<Rightarrow> alpn_map" where
  "ensure_alpns apfb alpns = foldl (\<lambda>a alpn. if map_of a alpn = None then AList.update alpn [] a else a) apfb alpns"

definition fallback_loop1 :: "name_map \<Rightarrow> name_map" where
  "fallback_loop1 m =
     (case map_of m [] of
        None \<Rightarrow> m
      | Some dflt \<Rightarrow> map (\<lambda>(name, apfb). (name, if name \<noteq> [] then ensure_alpns apfb (map fst dflt) else apfb)) m)"

definition fill_paths :: "path_map \<Rightarrow> path_map \<Rightarrow> path_map" where
  "fill_paths pfb dflt = foldl (\<lambda>p (path, fb). if map_of p path = None then AList.update path fb p else p) pfb dflt"

definition fallback_loop2 :: "name_map \<Rightarrow> name_map" where
  "fallback_loop2 m =
     map (\<lambda>(name, apfb). (name,
       case map_of apfb [] of
         None \<Rightarrow> apfb
       | Some dflt \<Rightarrow> map (\<lambda>(alpn, pfb). (alpn, if alpn \<noteq> [] then fill_paths pfb dflt else pfb)) apfb)) m"

text \<open>Writing into a map that is nil panics.\<close>

fun fill_alpns :: "alpn_map \<Rightarrow> alpn_map \<Rightarrow> alpn_map option" where
  "fill_alpns apfb [] = Some apfb"
| "fill_alpns apfb ((alpn, pfb) # rest) =
     (case map_of apfb alpn of
        None \<Rightarrow> if pfb = [] then fill_alpns apfb rest else None
      | Some p \<Rightarrow> fill_alpns (AList.update alpn (fill_paths p pfb) apfb) rest)"

definition fallback_loop3 :: "name_map \<Rightarrow> name_map option" where
  "fallback_loop3 m =
     (case map_of m [] of
        None \<Rightarrow> Some m
      | Some dflt \<Rightarrow>
          those (map (\<lambda>(name, apfb). map_option (Pair name) (if name \<noteq> [] then fill_alpns apfb dflt else Some apfb)) m))"

definition fallback_tables :: "Fallback list \<Rightarrow> name_map option" where
  "fallback_tables fbs = fallback_loop3 (fallback_loop2 (fallback_loop1 (foldl add_fallback [] fbs)))"

record TrojanServer =
  ts_validator :: TrojanValidator
  ts_fallbacks :: "name_map option"
  ts_cone :: bool

fun add_users :: "(gostring \<Rightarrow> gostring) \<Rightarrow> TrojanValidator \<Rightarrow> (goerr + TrojanUser) list \<Rightarrow> goerr + TrojanValidator" where
  "add_users lower v [] = Inr v"
| "add_users lower v (Inl e # us) = Inl e"
| "add_users lower v (Inr u # us) = (case Validator_Add lower v u of (v', Some e) \<Rightarrow> Inl e | (v', None) \<Rightarrow> add_users lower v' us)"

definition tj_NewServer ::
  "(gostring \<Rightarrow> gostring) \<Rightarrow> bool \<Rightarrow> (goerr + TrojanUser) list \<Rightarrow> Fallback list option \<Rightarrow> (goerr + TrojanServer) option" where
  "tj_NewServer lower cone users fallbacks =
     (case add_users lower \<lparr>va_email = [], va_users = []\<rparr> users of
        Inl e \<Rightarrow> Some (Inl e)
      | Inr v \<Rightarrow>
          (case fallbacks of
             None \<Rightarrow> Some (Inr \<lparr>ts_validator = v, ts_fallbacks = None, ts_cone = cone\<rparr>)
           | Some fbs \<Rightarrow>
               map_option (\<lambda>m. Inr \<lparr>ts_validator = v, ts_fallbacks = Some m, ts_cone = cone\<rparr>)
                 (fallback_tables fbs)))"

section \<open>Choosing a fallback\<close>

definition str_contains :: "gostring \<Rightarrow> gostring \<Rightarrow> bool" where
  "str_contains s part = list_ex (\<lambda>i. take (length part) (drop i s) = part) [0..<length s + 1]"

definition longest_match :: "gostring \<Rightarrow> gostring list \<Rightarrow> gostring" where
  "longest_match name ns =
     foldl (\<lambda>m n. if n \<noteq> [] \<and> str_contains name n \<and> length n > length m then n else m) [] ns"

definition fallback_name :: "(gostring list \<Rightarrow> gostring list) \<Rightarrow> name_map \<Rightarrow> gostring \<Rightarrow> gostring" where
  "fallback_name visit napfb name0 =
     (let name1 = (if (length napfb > 1 \<or> map_of napfb [] = None) \<and> name0 \<noteq> [] \<and> map_of napfb name0 = None
                   then longest_match name0 (visit (map fst napfb)) else name0)
      in if map_of napfb name1 = None then [] else name1)"

text \<open>The path in the first line of an HTTP request: from a slash after a space to a question mark or a space.\<close>

definition request_path :: "byte list \<Rightarrow> gostring" where
  "request_path firstBytes =
     (case find (\<lambda>i. firstBytes ! i = 47 \<and> firstBytes ! (i - 1) = 32) [4..<9] of
        None \<Rightarrow> []
      | Some i \<Rightarrow>
          (case find (\<lambda>j. firstBytes ! j \<in> {13, 10, 63, 32}) [i + 1..<min (length firstBytes) 64] of
             None \<Rightarrow> []
           | Some j \<Rightarrow> if firstBytes ! j = 63 \<or> firstBytes ! j = 32 then take (j - i) (drop i firstBytes) else []))"

definition fallback_path :: "path_map \<Rightarrow> byte list \<Rightarrow> gostring" where
  "fallback_path pfb firstBytes =
     (if (length pfb > 1 \<or> map_of pfb [] = None) \<and> length firstBytes \<ge> 18 \<and> firstBytes ! 4 \<noteq> 42
      then (let path = request_path firstBytes in if map_of pfb path = None then [] else path)
      else [])"

definition choose_fallback ::
  "(gostring list \<Rightarrow> gostring list) \<Rightarrow> (gostring \<Rightarrow> gostring) \<Rightarrow> name_map \<Rightarrow> gostring \<Rightarrow> gostring \<Rightarrow> byte list \<Rightarrow> goerr + Fallback" where
  "choose_fallback visit lower napfb realName realAlpn firstBytes =
     (case map_of napfb (fallback_name visit napfb (lower realName)) of
        None \<Rightarrow> Inl (ErrMsg ''failed to find the default name config'')
      | Some apfb \<Rightarrow>
          (let alpn = (if map_of apfb (lower realAlpn) = None then [] else lower realAlpn) in
           case map_of apfb alpn of
             None \<Rightarrow> Inl (ErrMsg ''failed to find the default alpn config'')
           | Some pfb \<Rightarrow>
               (case map_of pfb (fallback_path pfb firstBytes) of
                  None \<Rightarrow> Inl (ErrMsg ''failed to find the default path config'')
                | Some fb \<Rightarrow> Inr fb)))"

section \<open>A connection\<close>

text \<open>What becomes of a connection; the streams are what is left to read.\<close>

datatype tj_outcome =
    TJ_error goerr
  | TJ_fallback Fallback instream
  | TJ_connect TrojanUser Destination instream
  | TJ_packets TrojanUser "(Destination \<times> Buffer) list" "goerr option"

text \<open>The loop over the packets of a client: the packets with the destination they are dispatched to.\<close>

partial_function (option) tj_packet_loop ::
  "bool \<Rightarrow> Destination option \<Rightarrow> (Destination \<times> Buffer) list \<Rightarrow> instream \<Rightarrow> ((Destination \<times> Buffer) list \<times> goerr option) option" where
  "tj_packet_loop cone dest acc r =
     do { (res, r') \<leftarrow> PacketReader_ReadMultiBuffer r;
          (case res of
             Inl e \<Rightarrow> Some (acc, if e \<noteq> EOF then Some (ErrMsg ''unexpected EOF'') else None)
           | Inr [] \<Rightarrow> tj_packet_loop cone dest acc r'
           | Inr (b # mb2) \<Rightarrow>
               do { destination \<leftarrow> b_UDP b;
                    let dest' = (case dest of None \<Rightarrow> destination | Some d \<Rightarrow> if cone then d else destination);
                    tj_packet_loop cone (Some dest') (acc @ map (Pair dest') (b # mb2)) r' }) }"

text \<open>A connection that is no user's.\<close>

definition tj_fallback ::
  "(gostring list \<Rightarrow> gostring list) \<Rightarrow> (gostring \<Rightarrow> gostring) \<Rightarrow> TrojanServer \<Rightarrow> gostring \<Rightarrow> gostring \<Rightarrow> byte list \<Rightarrow> instream \<Rightarrow> tj_outcome" where
  "tj_fallback visit lower s realName realAlpn firstBytes bufferedReader =
     (case ts_fallbacks s of
        None \<Rightarrow> TJ_error (ErrMsg ''invalid protocol or invalid user'')
      | Some napfb \<Rightarrow>
          (case choose_fallback visit lower napfb realName realAlpn firstBytes of
             Inl e \<Rightarrow> TJ_error e
           | Inr fb \<Rightarrow> TJ_fallback fb bufferedReader))"

text \<open>A connection of a user.\<close>

definition tj_serve :: "TrojanServer \<Rightarrow> TrojanUser \<Rightarrow> instream \<Rightarrow> tj_outcome option" where
  "tj_serve s u bufferedReader =
     do { (err, clientReader) \<leftarrow> tj_ParseHeader \<lparr>tr_Reader = bufferedReader, tr_Target = zero_Destination, tr_headerParsed = False\<rparr>;
          (case err of
             Some e \<Rightarrow> Some (TJ_error e)
           | None \<Rightarrow>
               if d_Network (tr_Target clientReader) = Network_UDP
               then map_option (\<lambda>(sent, err). TJ_packets u sent err) (tj_packet_loop (ts_cone s) None [] (tr_Reader clientReader))
               else Some (TJ_connect u (tr_Target clientReader) (tr_Reader clientReader))) }"

definition tj_Process ::
  "(gostring list \<Rightarrow> gostring list) \<Rightarrow> (gostring \<Rightarrow> gostring) \<Rightarrow> TrojanServer \<Rightarrow> gostring \<Rightarrow> gostring \<Rightarrow> instream \<Rightarrow> tj_outcome option" where
  "tj_Process visit lower s realName realAlpn conn =
     (case Buffer_ReadFrom (Buffer_Clear (FromBytes (replicate (nat Size) 0))) conn of
        (firstLen, Some e, first, rest) \<Rightarrow> Some (TJ_error e)
      | (firstLen, None, first, rest) \<Rightarrow>
          do { firstBytes \<leftarrow> Buffer_Bytes first;
               let bufferedReader = rest\<lparr>chunks := firstBytes # chunks rest\<rparr>;
               user \<leftarrow> (if firstLen < 58 then Some None
                        else do { b \<leftarrow> Buffer_Byte first 56;
                                  if b \<noteq> 13 then Some None
                                  else do { hash \<leftarrow> Buffer_BytesTo first 56; Some (Validator_Get (ts_validator s) (hexString hash)) } });
               (case user of
                  None \<Rightarrow> Some (tj_fallback visit lower s realName realAlpn firstBytes bufferedReader)
                | Some u \<Rightarrow> tj_serve s u bufferedReader) })"

end
