(* ===== verification/Trojan_Fallbacks.thy ===== *)
theory Trojan_Fallbacks
  imports Trojan_Server
begin

text \<open>
  What the tables of fallbacks hold after the loops of \<^verbatim>\<open>NewServer\<close>, against the entries of the configuration, and when
  a connection finds a fallback in them.
\<close>

section \<open>Maps\<close>

lemma or_new_simps [simp]: "or_new None = []" "or_new (Some x) = x" by (simp_all add: or_new_def)

lemma map_of_map_key: "map_of (map (\<lambda>(k, v). (k, f k v)) m) n = map_option (f n) (map_of m n)"
  by (induction m) auto

lemma fst_map_key: "map fst (map (\<lambda>(k, v). (k, f k v)) m) = map fst m"
  by (induction m) auto

lemma fill_paths_lookup: "map_of (fill_paths pfb dflt) p = (case map_of pfb p of Some fb \<Rightarrow> Some fb | None \<Rightarrow> map_of dflt p)"
proof (induction dflt arbitrary: pfb)
  case Nil
  then show ?case by (simp add: fill_paths_def split: option.split)
next
  case (Cons x dflt)
  obtain path fb where x: "x = (path, fb)" by force
  have "fill_paths pfb (x # dflt) = fill_paths (if map_of pfb path = None then AList.update path fb pfb else pfb) dflt"
    by (simp add: fill_paths_def x)
  then show ?case by (simp add: Cons.IH x update_conv split: option.split)
qed

lemma ensure_alpns_lookup:
  "map_of (ensure_alpns apfb alpns) a = (if map_of apfb a = None \<and> a \<in> set alpns then Some [] else map_of apfb a)"
proof (induction alpns arbitrary: apfb)
  case (Cons x alpns)
  have "ensure_alpns apfb (x # alpns) = ensure_alpns (if map_of apfb x = None then AList.update x [] apfb else apfb) alpns"
    by (simp add: ensure_alpns_def)
  then show ?case by (simp add: Cons.IH update_conv)
qed (simp add: ensure_alpns_def)

lemma fill_alpns_lookup:
  assumes "distinct (map fst dflt)" "\<forall>a\<in>set (map fst dflt). map_of apfb a \<noteq> None"
  shows "\<exists>m. fill_alpns apfb dflt = Some m \<and>
    (\<forall>a. map_of m a = (case map_of dflt a of None \<Rightarrow> map_of apfb a | Some pfb \<Rightarrow> Some (fill_paths (the (map_of apfb a)) pfb)))"
  using assms
proof (induction dflt arbitrary: apfb)
  case (Cons x dflt)
  obtain alpn pfb where x: "x = (alpn, pfb)" by force
  with Cons.prems obtain p where p: "map_of apfb alpn = Some p" by auto
  let ?apfb = "AList.update alpn (fill_paths p pfb) apfb"
  have new: "alpn \<notin> fst ` set dflt" using Cons.prems(1) x by simp
  then have none: "map_of dflt alpn = None" by (simp add: map_of_eq_None_iff)
  have "\<forall>a\<in>set (map fst dflt). map_of ?apfb a \<noteq> None" using Cons.prems(2) x by (simp add: update_conv)
  with Cons.IH [of ?apfb] Cons.prems(1) obtain m where "fill_alpns ?apfb dflt = Some m"
    "\<forall>a. map_of m a = (case map_of dflt a of None \<Rightarrow> map_of ?apfb a | Some pfb \<Rightarrow> Some (fill_paths (the (map_of ?apfb a)) pfb))"
    by auto
  with p none x show ?case by (intro exI [of _ m]) (auto simp: update_conv split: option.split)
qed simp

section \<open>The tables\<close>

definition alpns_of :: "name_map \<Rightarrow> gostring \<Rightarrow> alpn_map" where
  "alpns_of m n = or_new (map_of m n)"

definition fb_table :: "name_map \<Rightarrow> gostring \<Rightarrow> gostring \<Rightarrow> gostring \<Rightarrow> Fallback option" where
  "fb_table m n a p = map_of (or_new (map_of (alpns_of m n) a)) p"

definition has_alpn :: "name_map \<Rightarrow> gostring \<Rightarrow> gostring \<Rightarrow> bool" where
  "has_alpn m n a \<longleftrightarrow> map_of (alpns_of m n) a \<noteq> None"

text \<open>The entry of the configuration for a name, a protocol and a path: a later one replaces an earlier one.\<close>

definition configured :: "Fallback list \<Rightarrow> gostring \<Rightarrow> gostring \<Rightarrow> gostring \<Rightarrow> Fallback option" where
  "configured fbs n a p = List.find (\<lambda>fb. fb_Name fb = n \<and> fb_Alpn fb = a \<and> fb_Path fb = p) (rev fbs)"

definition has_entry :: "Fallback list \<Rightarrow> gostring \<Rightarrow> gostring \<Rightarrow> bool" where
  "has_entry fbs n a \<longleftrightarrow> list_ex (\<lambda>fb. fb_Name fb = n \<and> fb_Alpn fb = a) fbs"

definition has_name :: "Fallback list \<Rightarrow> gostring \<Rightarrow> bool" where
  "has_name fbs n \<longleftrightarrow> list_ex (\<lambda>fb. fb_Name fb = n) fbs"

lemma configured_table:
  fixes fbs :: "Fallback list"
  defines "m \<equiv> foldl add_fallback [] fbs"
  shows "fb_table m n a p = configured fbs n a p" "has_alpn m n a \<longleftrightarrow> has_entry fbs n a"
    "map_of m n \<noteq> None \<longleftrightarrow> has_name fbs n" "distinct (map fst (alpns_of m n))"
proof -
  have "fb_table m n a p = configured fbs n a p \<and> (has_alpn m n a \<longleftrightarrow> has_entry fbs n a) \<and>
    (map_of m n \<noteq> None \<longleftrightarrow> has_name fbs n) \<and> distinct (map fst (alpns_of m n))" for n a
    unfolding m_def
  proof (induction fbs arbitrary: n a rule: rev_induct)
    case (snoc fb fbs)
    let ?m = "foldl add_fallback [] fbs"
    have "alpns_of (add_fallback ?m fb) n =
      (if n = fb_Name fb then AList.update (fb_Alpn fb) (AList.update (fb_Path fb) fb (or_new (map_of (alpns_of ?m n) (fb_Alpn fb)))) (alpns_of ?m n)
       else alpns_of ?m n)"
      by (simp add: alpns_of_def add_fallback_def Let_def update_conv)
    moreover have "map_of (add_fallback ?m fb) n \<noteq> None \<longleftrightarrow> n = fb_Name fb \<or> map_of ?m n \<noteq> None"
      by (simp add: add_fallback_def Let_def update_conv)
    ultimately show ?case using snoc [of n a]
      by (auto simp: fb_table_def has_alpn_def configured_def has_entry_def has_name_def update_conv distinct_update)
  qed (simp add: fb_table_def has_alpn_def alpns_of_def configured_def has_entry_def has_name_def)
  then show "fb_table m n a p = configured fbs n a p" "has_alpn m n a \<longleftrightarrow> has_entry fbs n a"
    "map_of m n \<noteq> None \<longleftrightarrow> has_name fbs n" "distinct (map fst (alpns_of m n))" by auto
qed

section \<open>The loops\<close>

lemma loop1_table:
  "fb_table (fallback_loop1 m) n a p = fb_table m n a p"
  "has_alpn (fallback_loop1 m) n a \<longleftrightarrow> has_alpn m n a \<or> (map_of m n \<noteq> None \<and> has_alpn m [] a)"
  "map_of (fallback_loop1 m) n \<noteq> None \<longleftrightarrow> map_of m n \<noteq> None"
  "alpns_of (fallback_loop1 m) [] = alpns_of m []"
proof -
  let ?f = "\<lambda>dflt name apfb. if name \<noteq> [] then ensure_alpns apfb (map fst dflt) else apfb"
  have "map_of (fallback_loop1 m) n = (case map_of m [] of None \<Rightarrow> map_of m n | Some dflt \<Rightarrow> map_option (?f dflt n) (map_of m n))" for n
    by (simp add: fallback_loop1_def map_of_map_key split: option.split)
  note m = this
  have al: "map_of (alpns_of (fallback_loop1 m) n) a =
     (if n \<noteq> [] \<and> map_of m n \<noteq> None \<and> map_of (alpns_of m n) a = None \<and> has_alpn m [] a then Some [] else map_of (alpns_of m n) a)" for n a
  proof (cases "map_of m []")
    case (Some dflt)
    then have "has_alpn m [] a \<longleftrightarrow> a \<in> set (map fst dflt)" by (simp add: has_alpn_def alpns_of_def map_of_eq_None_iff)
    with Some show ?thesis by (cases "map_of m n") (simp_all add: alpns_of_def m ensure_alpns_lookup)
  qed (simp add: alpns_of_def m has_alpn_def)
  show "fb_table (fallback_loop1 m) n a p = fb_table m n a p" by (simp add: fb_table_def al)
  show "has_alpn (fallback_loop1 m) n a \<longleftrightarrow> has_alpn m n a \<or> (map_of m n \<noteq> None \<and> has_alpn m [] a)"
    by (auto simp: has_alpn_def al split: if_splits)
  show "map_of (fallback_loop1 m) n \<noteq> None \<longleftrightarrow> map_of m n \<noteq> None" by (simp add: m split: option.split)
  show "alpns_of (fallback_loop1 m) [] = alpns_of m []" by (simp add: alpns_of_def m option.map_ident split: option.split)
qed

lemma loop2_table:
  "fb_table (fallback_loop2 m) n a p =
     (case fb_table m n a p of Some fb \<Rightarrow> Some fb | None \<Rightarrow> if a \<noteq> [] \<and> has_alpn m n a then fb_table m n [] p else None)"
  "has_alpn (fallback_loop2 m) n a \<longleftrightarrow> has_alpn m n a"
  "map_of (fallback_loop2 m) n \<noteq> None \<longleftrightarrow> map_of m n \<noteq> None"
  "map fst (alpns_of (fallback_loop2 m) n) = map fst (alpns_of m n)"
proof -
  let ?f = "\<lambda>apfb. case map_of apfb [] of None \<Rightarrow> apfb
     | Some dflt \<Rightarrow> map (\<lambda>(alpn, pfb). (alpn, if alpn \<noteq> [] then fill_paths pfb dflt else pfb)) apfb"
  have m: "map_of (fallback_loop2 m) n = map_option ?f (map_of m n)" by (simp add: fallback_loop2_def map_of_map_key)
  have al: "alpns_of (fallback_loop2 m) n = ?f (alpns_of m n)"
    unfolding alpns_of_def m by (cases "map_of m n") (simp_all only: option.map or_new_simps map_of.simps option.case)
  have f: "map_of (?f x) a = map_option (\<lambda>pfb. if a \<noteq> [] then fill_paths pfb (or_new (map_of x [])) else pfb) (map_of x a)" for x
    by (cases "map_of x []"; cases "map_of x a") (simp_all add: map_of_map_key fill_paths_def)
  show "fb_table (fallback_loop2 m) n a p =
     (case fb_table m n a p of Some fb \<Rightarrow> Some fb | None \<Rightarrow> if a \<noteq> [] \<and> has_alpn m n a then fb_table m n [] p else None)"
    by (cases "map_of (alpns_of m n) a") (auto simp: fb_table_def has_alpn_def al f fill_paths_lookup split: option.split)
  show "has_alpn (fallback_loop2 m) n a \<longleftrightarrow> has_alpn m n a" by (simp add: has_alpn_def al f)
  show "map_of (fallback_loop2 m) n \<noteq> None \<longleftrightarrow> map_of m n \<noteq> None" by (simp add: m)
  show "map fst (alpns_of (fallback_loop2 m) n) = map fst (alpns_of m n)" by (auto simp: al split: option.split)
qed

lemma those_map_key:
  assumes "\<And>k v. (k, v) \<in> set m \<Longrightarrow> f k v \<noteq> None"
  shows "\<exists>m'. those (map (\<lambda>(k, v). map_option (Pair k) (f k v)) m) = Some m' \<and> (\<forall>n. map_of m' n = Option.bind (map_of m n) (f n))"
  using assms
proof (induction m)
  case (Cons x m)
  obtain k v where x: "x = (k, v)" by force
  with Cons.prems obtain w where "f k v = Some w" by fastforce
  with Cons x show ?case by fastforce
qed simp

lemma loop3_table:
  assumes "distinct (map fst (alpns_of m []))" "\<And>n v a. (n, v) \<in> set m \<Longrightarrow> has_alpn m [] a \<Longrightarrow> map_of v a \<noteq> None"
  obtains m' where "fallback_loop3 m = Some m'" "\<And>n. map_of m' n \<noteq> None \<longleftrightarrow> map_of m n \<noteq> None"
    "\<And>n a. has_alpn m' n a \<longleftrightarrow> has_alpn m n a"
    "\<And>n a p. fb_table m' n a p =
       (case fb_table m n a p of Some fb \<Rightarrow> Some fb | None \<Rightarrow> if n \<noteq> [] \<and> map_of m n \<noteq> None \<and> has_alpn m [] a then fb_table m [] a p else None)"
proof (cases "map_of m []")
  case None
  with that [of m] show thesis by (simp add: fallback_loop3_def has_alpn_def alpns_of_def split: option.split)
next
  case (Some dflt)
  let ?f = "\<lambda>name apfb. if name \<noteq> [] then fill_alpns apfb dflt else Some apfb"
  have d: "alpns_of m [] = dflt" using Some by (simp add: alpns_of_def)
  have fill: "\<exists>x. fill_alpns v dflt = Some x \<and>
    (\<forall>a. map_of x a = (case map_of dflt a of None \<Rightarrow> map_of v a | Some pfb \<Rightarrow> Some (fill_paths (the (map_of v a)) pfb)))"
    if "(n, v) \<in> set m" for n v
    by (rule fill_alpns_lookup) (use assms that in \<open>auto simp: d has_alpn_def map_of_eq_None_iff image_iff\<close>)
  then have "?f n v \<noteq> None" if "(n, v) \<in> set m" for n v using that by fastforce
  from those_map_key [of m ?f, OF this] obtain m' where m': "fallback_loop3 m = Some m'" "\<And>n. map_of m' n = Option.bind (map_of m n) (?f n)"
    using Some by (auto simp: fallback_loop3_def)
  have al: "map_of (alpns_of m' n) a = (if n \<noteq> [] \<and> map_of m n \<noteq> None \<and> has_alpn m [] a
      then Some (fill_paths (the (map_of (alpns_of m n) a)) (the (map_of dflt a))) else map_of (alpns_of m n) a)" for n a
  proof (cases "map_of m n")
    case (Some v)
    with fill [OF map_of_SomeD [OF Some]] show ?thesis by (auto simp: alpns_of_def m'(2) has_alpn_def d [unfolded alpns_of_def] split: option.split)
  qed (simp add: alpns_of_def m'(2))
  show thesis
  proof (rule that [OF m'(1)])
    fix n
    show "map_of m' n \<noteq> None \<longleftrightarrow> map_of m n \<noteq> None"
      using fill [of n] map_of_SomeD [of m n] by (cases "map_of m n") (fastforce simp: m'(2))+
    fix a
    have known: "map_of (alpns_of m n) a \<noteq> None" if "map_of m n \<noteq> None" "has_alpn m [] a"
      using assms(2) [of n _ a] that map_of_SomeD [of m n] by (fastforce simp: alpns_of_def)
    show "has_alpn m' n a \<longleftrightarrow> has_alpn m n a" using known by (auto simp: has_alpn_def al)
    fix p
    show "fb_table m' n a p =
       (case fb_table m n a p of Some fb \<Rightarrow> Some fb | None \<Rightarrow> if n \<noteq> [] \<and> map_of m n \<noteq> None \<and> has_alpn m [] a then fb_table m [] a p else None)"
    proof (cases "n \<noteq> [] \<and> map_of m n \<noteq> None \<and> has_alpn m [] a")
      case True
      with known obtain pfb where "map_of (alpns_of m n) a = Some pfb" by auto
      with True show ?thesis by (auto simp: fb_table_def al fill_paths_lookup d has_alpn_def split: option.split)
    qed (auto simp: fb_table_def al split: option.split)
  qed
qed

text \<open>
  What the tables hold: the entry for the protocol or else for no protocol, under the name or else, when the protocol is
  configured under no name, under no name.
\<close>

definition own_entry :: "Fallback list \<Rightarrow> gostring \<Rightarrow> gostring \<Rightarrow> gostring \<Rightarrow> Fallback option" where
  "own_entry fbs n a p =
     (case configured fbs n a p of Some fb \<Rightarrow> Some fb | None \<Rightarrow> if a \<noteq> [] then configured fbs n [] p else None)"

definition fallback_spec :: "Fallback list \<Rightarrow> gostring \<Rightarrow> gostring \<Rightarrow> gostring \<Rightarrow> Fallback option" where
  "fallback_spec fbs n a p =
     (if has_name fbs n \<and> (has_entry fbs n a \<or> has_entry fbs [] a) then
        (case own_entry fbs n a p of
           Some fb \<Rightarrow> Some fb
         | None \<Rightarrow> if n \<noteq> [] \<and> has_entry fbs [] a then own_entry fbs [] a p else None)
      else None)"

lemma configured_has: "configured fbs n a p = Some fb \<Longrightarrow> has_entry fbs n a \<and> has_name fbs n \<and> fb \<in> set fbs"
  unfolding configured_def find_Some_iff has_entry_def has_name_def list_ex_iff
  by (metis length_rev nth_mem set_rev)

lemma has_entry_name: "has_entry fbs n a \<Longrightarrow> has_name fbs n"
  by (auto simp: has_entry_def has_name_def list_ex_iff)

lemma fallback_tables_ok:
  obtains m where "fallback_tables fbs = Some m" "\<And>n. map_of m n \<noteq> None \<longleftrightarrow> has_name fbs n"
    "\<And>n a. has_alpn m n a \<longleftrightarrow> has_name fbs n \<and> (has_entry fbs n a \<or> has_entry fbs [] a)"
    "\<And>n a p. fb_table m n a p = fallback_spec fbs n a p"
proof -
  define m0 where "m0 = foldl add_fallback [] fbs"
  define m2 where "m2 = fallback_loop2 (fallback_loop1 m0)"
  note m0 = configured_table [of fbs, folded m0_def]
  have names: "map_of m2 n \<noteq> None \<longleftrightarrow> has_name fbs n" for n by (simp only: m2_def loop1_table loop2_table m0)
  have alpns: "has_alpn m2 n a \<longleftrightarrow> has_name fbs n \<and> (has_entry fbs n a \<or> has_entry fbs [] a)" for n a
    using has_entry_name by (auto simp only: m2_def loop1_table loop2_table m0)
  have entries: "fb_table m2 n a p = (if has_alpn m2 n a then own_entry fbs n a p else None)" for n a p
    using configured_has has_entry_name
    by (auto simp: m2_def loop1_table loop2_table m0 own_entry_def split: option.split)
  have keys: "distinct (map fst m0)"
    unfolding m0_def by (induction fbs rule: rev_induct) (simp_all add: add_fallback_def Let_def distinct_update)
  have "map fst m2 = map fst m0"
    by (simp add: m2_def fallback_loop1_def fallback_loop2_def split: option.split) auto
  with keys have look: "map_of m2 n = Some v" if "(n, v) \<in> set m2" for n v using that by simp
  have "map_of v a \<noteq> None" if "(n, v) \<in> set m2" "has_alpn m2 [] a" for n v a
    using look [OF that(1)] that(2) alpns [of n a] alpns [of "[]" a] names [of n] by (auto simp: has_alpn_def alpns_of_def)
  moreover have "distinct (map fst (alpns_of m2 []))" by (simp only: m2_def loop1_table loop2_table m0)
  ultimately obtain m where m: "fallback_loop3 m2 = Some m" "\<And>n. map_of m n \<noteq> None \<longleftrightarrow> map_of m2 n \<noteq> None"
    "\<And>n a. has_alpn m n a \<longleftrightarrow> has_alpn m2 n a"
    "\<And>n a p. fb_table m n a p = (case fb_table m2 n a p of Some fb \<Rightarrow> Some fb
       | None \<Rightarrow> if n \<noteq> [] \<and> map_of m2 n \<noteq> None \<and> has_alpn m2 [] a then fb_table m2 [] a p else None)"
    using loop3_table [of m2] by metis
  have "fb_table m n a p = fallback_spec fbs n a p" for n a p
    using names [of n] has_entry_name [of fbs "[]" a] alpns [of n a] alpns [of "[]" a]
    by (auto simp: m(4) entries fallback_spec_def split: option.split)
  with that m names alpns show thesis by (simp add: fallback_tables_def m2_def m0_def)
qed

section \<open>Finding a fallback\<close>

lemma fallback_path_found: "map_of pfb [] = Some d \<Longrightarrow> map_of pfb (fallback_path pfb bs) \<noteq> None"
  by (simp add: fallback_path_def Let_def)

text \<open>With a default entry, and an entry under no name for every protocol that is configured, every connection has a fallback.\<close>

lemma fallback_found:
  assumes "configured fbs [] [] [] = Some d" "\<forall>fb\<in>set fbs. has_entry fbs [] (fb_Alpn fb)" "fallback_tables fbs = Some m"
  obtains fb where "choose_fallback visit lower m realName realAlpn bs = Inr fb" "fb \<in> set fbs"
proof -
  obtain m' where m': "fallback_tables fbs = Some m'" "\<And>n. map_of m' n \<noteq> None \<longleftrightarrow> has_name fbs n"
    "\<And>n a. has_alpn m' n a \<longleftrightarrow> has_name fbs n \<and> (has_entry fbs n a \<or> has_entry fbs [] a)"
    "\<And>n a p. fb_table m' n a p = fallback_spec fbs n a p" by (rule fallback_tables_ok [of fbs]) blast
  have m: "m' = m" using m'(1) assms(3) by simp
  note d = configured_has [OF assms(1)]
  let ?n = "fallback_name visit m (lower realName)"
  have "map_of m ?n \<noteq> None" using d m'(2) [unfolded m, of "[]"] by (simp add: fallback_name_def Let_def)
  then obtain apfb where apfb: "map_of m ?n = Some apfb" "has_name fbs ?n" using m'(2) [unfolded m] by auto
  define a where "a = (if map_of apfb (lower realAlpn) = None then [] else lower realAlpn)"
  have "has_alpn m ?n []" using m'(3) [unfolded m] apfb(2) d by simp
  then have "map_of apfb a \<noteq> None" using apfb(1) by (simp add: a_def has_alpn_def alpns_of_def)
  then obtain pfb where pfb: "map_of apfb a = Some pfb" by blast
  have tab: "fb_table m ?n a p = map_of pfb p" for p using apfb(1) pfb by (simp add: fb_table_def alpns_of_def)
  have "has_alpn m ?n a" using apfb(1) pfb by (simp add: has_alpn_def alpns_of_def)
  then have "has_entry fbs ?n a \<or> has_entry fbs [] a" using m'(3) [unfolded m] by simp
  then have "has_entry fbs [] a" using assms(2) by (auto simp: has_entry_def list_ex_iff)
  then have "fallback_spec fbs ?n a [] \<noteq> None" using apfb(2) assms(1)
    by (auto simp: fallback_spec_def own_entry_def split: option.splits)
  with tab [of "[]"] m'(4) [unfolded m] obtain d' where "map_of pfb [] = Some d'" by auto
  from fallback_path_found [OF this] obtain fb where fb: "map_of pfb (fallback_path pfb bs) = Some fb" by blast
  have "fallback_spec fbs ?n a (fallback_path pfb bs) = Some fb" using fb tab m'(4) [unfolded m] by simp
  then have "fb \<in> set fbs" using configured_has by (fastforce simp: fallback_spec_def own_entry_def split: option.splits if_splits)
  moreover have "choose_fallback visit lower m realName realAlpn bs = Inr fb"
    using apfb(1) pfb fb by (simp add: choose_fallback_def Let_def a_def [symmetric])
  ultimately show thesis using that by blast
qed

lemma choose_fallback_configured:
  assumes "fallback_tables fbs = Some m" "choose_fallback visit lower m realName realAlpn bs = Inr fb"
  shows "fb \<in> set fbs"
proof -
  obtain m' where m': "fallback_tables fbs = Some m'" "\<And>n a p. fb_table m' n a p = fallback_spec fbs n a p"
    by (rule fallback_tables_ok [of fbs]) blast
  from assms(2) obtain n apfb a pfb p where "map_of m n = Some apfb" "map_of apfb a = Some pfb" "map_of pfb p = Some fb"
    by (fastforce simp: choose_fallback_def Let_def split: option.splits)
  then have "fb_table m n a p = Some fb" by (simp add: fb_table_def alpns_of_def)
  with m' assms(1) have "fallback_spec fbs n a p = Some fb" by simp
  then show ?thesis using configured_has by (fastforce simp: fallback_spec_def own_entry_def split: option.splits if_splits)
qed

text \<open>
  A protocol that is configured only under a name does not inherit the default: a connection for that name and protocol
  with another path is refused although a default fallback is configured.
\<close>

lemma default_not_inherited:
  "\<exists>named dflt m. fb_Name dflt = [] \<and> fb_Alpn dflt = [] \<and> fb_Path dflt = [] \<and> fb_Name named = [97] \<and>
     fallback_tables [named, dflt] = Some m \<and>
     choose_fallback (\<lambda>ns. ns) (\<lambda>x. x) m [97] [104, 50] [] = Inl (ErrMsg ''failed to find the default path config'') \<and>
     choose_fallback (\<lambda>ns. ns) (\<lambda>x. x) m [97] [] [] = Inr dflt"
proof -
  let ?named = "\<lparr>fb_Name = [97], fb_Alpn = [104, 50], fb_Path = [47, 120], fb_Type = [], fb_Dest = [49], fb_Xver = 0\<rparr>"
  let ?dflt = "\<lparr>fb_Name = [], fb_Alpn = [], fb_Path = [], fb_Type = [], fb_Dest = [50], fb_Xver = 0\<rparr>"
  let ?m = "[([97], [([104, 50], [([47, 120], ?named)]), ([], [([], ?dflt)])]), ([], [([], [([], ?dflt)])])]"
  have "fallback_tables [?named, ?dflt] = Some ?m" by code_simp
  then show ?thesis
    by (intro exI [of _ ?named] exI [of _ ?dflt] exI [of _ ?m])
      (simp add: choose_fallback_def fallback_name_def fallback_path_def Let_def)
qed

text \<open>
  C39: the tables of fallbacks. \<^verbatim>\<open>NewServer\<close> never panics while it builds them, and the fallback that they hold for a server
  name, a protocol and a path is that of the specification over the entries of the configuration: the entry of that name for
  the protocol, else for no protocol, and, when the protocol is configured under no name as well, else the one under no name.
\<close>

theorem trojan_fallback_tables:
  "\<exists>m. (\<forall>n a p. fb_table m n a p = fallback_spec fbs n a p) \<and>
     tj_NewServer lower cone users (Some fbs) =
       Some (case add_users lower \<lparr>va_email = [], va_users = []\<rparr> users of
               Inl e \<Rightarrow> Inl e
             | Inr v \<Rightarrow> Inr \<lparr>ts_validator = v, ts_fallbacks = Some m, ts_cone = cone\<rparr>)"
proof -
  obtain m where "fallback_tables fbs = Some m" "\<And>n a p. fb_table m n a p = fallback_spec fbs n a p"
    by (rule fallback_tables_ok [of fbs]) blast
  then show ?thesis by (intro exI [of _ m]) (simp add: tj_NewServer_def split: sum.split)
qed

end
