(* ===== verification/Trojan_Props.thy ===== *)
theory Trojan_Props
  imports Trojan_Fallbacks
begin

text \<open>
  What the Trojan inbound guarantees: which connections it serves and as whom, that a stranger reaches only a fallback and
  that the fallback sees the connection from its first byte, which fallback the tables of \<^verbatim>\<open>NewServer\<close> give, and that the
  validator implements a list of users.
\<close>

section \<open>The first read\<close>

lemma first_read:
  obtains (fails) first rest where "chunks conn = []"
      "Buffer_ReadFrom (Buffer_Clear (FromBytes (replicate (nat Size) 0))) conn = (0, Some (fin conn), first, rest)"
  | (ok) n first rest where "chunks conn \<noteq> []"
      "Buffer_ReadFrom (Buffer_Clear (FromBytes (replicate (nat Size) 0))) conn = (n, None, first, rest)"
      "buffer_wf first" "content first = take n (flat conn)" "flat conn = content first @ flat rest" "fin rest = fin conn"
      "n = min (length (hd (chunks conn))) 8192" "length (content first) = n"
proof -
  let ?b = "Buffer_Clear (FromBytes (replicate (nat Size) 0))"
  have b: "buffer_wf ?b" "content ?b = []" "room ?b = 8192"
    by (simp_all add: wf_intro content_simps Size_def) (simp add: room_def Buffer_Clear_def FromBytes_def)
  obtain bs e r where rd: "io_Read 8192 conn = (bs, e, r)" by (metis prod_cases3)
  then have R: "Buffer_ReadFrom ?b conn = (length bs, e, append_read ?b bs, r)" by (simp add: Buffer_ReadFrom_def Let_def b(3))
  note spec = Buffer_ReadFrom_spec [OF b(1) R]
  have len: "length (content (append_read ?b bs)) = length bs"
    using io_Read_flat [OF rd] b by (simp add: append_read_content)
  have more: "buffer_wf (append_read ?b bs)" "content (append_read ?b bs) = take (length bs) (flat conn)"
    "flat conn = content (append_read ?b bs) @ flat r" "fin r = fin conn" using spec b(2) by simp_all
  show thesis
  proof (cases "8192 :: nat" conn rule: io_Read_cases)
    case empty
    with rd R fails show thesis by auto
  next
    case (whole c cs)
    then have "bs = c" "e = None" "length bs = min (length (hd (chunks conn))) 8192" "chunks conn \<noteq> []" using rd by simp_all
    with ok [of "length bs" "append_read ?b bs" r] R more len show thesis by blast
  next
    case (part c cs)
    then have "e = None" "length bs = min (length (hd (chunks conn))) 8192" "chunks conn \<noteq> []" using rd by auto
    with ok [of "length bs" "append_read ?b bs" r] R more len show thesis by blast
  qed
qed

section \<open>Clients\<close>

text \<open>The user a first read identifies.\<close>

definition tj_user :: "TrojanValidator \<Rightarrow> byte list \<Rightarrow> TrojanUser option" where
  "tj_user v bs = (if length bs < 58 \<or> bs ! 56 \<noteq> 13 then None else Validator_Get v (hexString (take 56 bs)))"

lemma tj_Process_ok:
  assumes "chunks conn \<noteq> []"
  obtains bs rest where "tj_Process visit lower s realName realAlpn conn =
     (let bufferedReader = rest\<lparr>chunks := bs # chunks rest\<rparr> in
      case tj_user (ts_validator s) bs of
        None \<Rightarrow> Some (tj_fallback visit lower s realName realAlpn bs bufferedReader)
      | Some u \<Rightarrow> tj_serve s u bufferedReader)"
    "flat conn = bs @ flat rest" "fin rest = fin conn" "bs = take 8192 (hd (chunks conn))"
proof (cases conn rule: first_read)
  case (fails first rest)
  with assms show thesis by simp
next
  case (ok n first rest)
  have bytes: "Buffer_Bytes first = Some (content first)" using ok(3) by (simp add: Buffer_Bytes_content)
  have "do { b \<leftarrow> Buffer_Byte first 56; if b \<noteq> 13 then Some None
             else do { hash \<leftarrow> Buffer_BytesTo first 56; Some (Validator_Get (ts_validator s) (hexString hash)) } } =
        Some (tj_user (ts_validator s) (content first))" if "\<not> n < 58"
    using that ok(3,8) Buffer_Byte_content [of first 56] Buffer_BytesTo_content [of first 56] by (simp add: tj_user_def)
  then have user: "(if n < 58 then Some None
             else do { b \<leftarrow> Buffer_Byte first 56; if b \<noteq> 13 then Some None
             else do { hash \<leftarrow> Buffer_BytesTo first 56; Some (Validator_Get (ts_validator s) (hexString hash)) } }) =
        Some (tj_user (ts_validator s) (content first))"
    using ok(8) by (simp add: tj_user_def)
  have first: "content first = take 8192 (hd (chunks conn))"
    using ok(1,4,7) by (cases "chunks conn") (simp_all add: flat_def min_def)
  show thesis
    by (rule that [of "content first" rest, OF _ ok(5,6) first])
      (simp add: tj_Process_def ok(2) bytes user Let_def split: option.split)
qed

text \<open>What the client writes for a packet stream, and what the server dispatches of it.\<close>

definition tj_packet :: "Destination \<Rightarrow> Buffer \<Rightarrow> Destination \<times> byte list" where
  "tj_packet target b = ((case b_UDP b of None \<Rightarrow> target | Some d \<Rightarrow> d), content b)"

definition tj_sendable :: "Destination \<Rightarrow> bool" where
  "tj_sendable d \<longleftrightarrow> (case d_Address d of None \<Rightarrow> False | Some a \<Rightarrow> sendable a \<and> d = UDPDestination a (d_Port d))"

definition tj_dest_bytes :: "Destination \<times> byte list \<Rightarrow> byte list" where
  "tj_dest_bytes p = tj_packet_bytes (the (d_Address (fst p))) (d_Port (fst p)) (snd p)"

definition tj_fits :: "Destination \<times> byte list \<Rightarrow> bool" where
  "tj_fits p \<longleftrightarrow> tj_sendable (fst p) \<and> length (tj_dest_bytes p) \<le> 8192"

lemma tj_sendableE:
  assumes "tj_sendable d"
  obtains a where "d_Address d = Some a" "sendable a" "UDPDestination a (d_Port d) = d"
  using assms by (auto simp: tj_sendable_def split: option.splits)

lemma PacketWriter_bytes:
  assumes "mb_wf mb" "\<forall>b\<in>set mb. tj_fits (tj_packet target b)" "PacketWriter_WriteMultiBuffer target w mb = Some (None, w')"
  shows "sent w' = sent w @ concat (map (\<lambda>b. tj_dest_bytes (tj_packet target b)) mb)"
  using assms
proof (induction mb arbitrary: w)
  case (Cons b mb)
  let ?d = "fst (tj_packet target b)"
  have fits: "tj_fits (tj_packet target b)" using Cons.prems(2) by simp
  then obtain a where a: "d_Address ?d = Some a" "sendable a" by (auto simp: tj_fits_def elim: tj_sendableE)
  have c: "Buffer_Bytes b = Some (content b)" using Cons.prems(1) by (simp add: Buffer_Bytes_content)
  have len: "length (tj_packet_bytes a (d_Port ?d) (content b)) \<le> 8192"
    using fits a(1) by (simp add: tj_fits_def tj_dest_bytes_def) (simp add: tj_packet_def)
  obtain e w1 where w1: "sink_wr (tj_packet_bytes a (d_Port ?d) (content b)) w = (e, w1)" by (metis prod.exhaust)
  have p: "tj_writePacket w (content b) (case b_UDP b of None \<Rightarrow> target | Some d \<Rightarrow> d) = Some (e, w1)"
    using tj_writePacket_bytes [OF a len, of w] w1 by (simp add: tj_packet_def)
  have e: "e = None" using Cons.prems(3) c p by (cases e) simp_all
  have "sent w1 = sent w @ tj_packet_bytes a (d_Port ?d) (content b)" using sink_wr_ok w1 e by blast
  moreover have "tj_dest_bytes (tj_packet target b) = tj_packet_bytes a (d_Port ?d) (content b)"
    using a(1) by (simp add: tj_dest_bytes_def) (simp add: tj_packet_def)
  ultimately show ?case using Cons.IH [of w1] Cons.prems c p e by simp
qed simp

lemma PacketReader_end:
  assumes "flat r = []"
  obtains r' where "PacketReader_ReadMultiBuffer r = Some (Inl (fin r), r')"
proof -
  have b: "buffer_wf fresh_buffer" by (rule wf_new)
  have rm: "room fresh_buffer = 8192" by (simp add: room_def buf_New_def Size_def)
  obtain r' where "io_ReadFull 1 r = ([], Some (fin r), r')" using io_ReadFull_short [of r 1] assms by auto
  then have "ReadAddressPort tj_addrParser None r = Some (Inl (fin r), r')"
    using tj_addrParser_ok(2) Buffer_ReadFullFrom_unfold [OF b, of 1 r] rm
    by (simp add: ReadAddressPort_def readAddress_def)
  with that show thesis by (simp add: PacketReader_ReadMultiBuffer_def)
qed

text \<open>On every stream that ends the loop over the packets returns: each round uses up some of it.\<close>

lemma ReadFullFrom_shrinks: "Buffer_ReadFullFrom b r sz = Some (n, e, b', r') \<Longrightarrow> length (flat r') \<le> length (flat r)"
  by (auto simp: Buffer_ReadFullFrom_def Let_def bind_eq_Some_conv case_prod_beta split: if_splits)
    (metis io_ReadFull_shrinks prod.collapse)

lemma readPort_shrinks: "readPort b r = Some (x, b', r') \<Longrightarrow> length (flat r') \<le> length (flat r)"
  by (auto simp: readPort_def split: option.splits prod.splits dest: ReadFullFrom_shrinks)

lemma read_domain_shrinks: "read_domain b r = Some (x, b', r') \<Longrightarrow> length (flat r') \<le> length (flat r)"
  by (auto simp: read_domain_def Let_def split: option.splits prod.splits list.splits if_splits dest!: ReadFullFrom_shrinks)

lemma read_ip_shrinks: "read_ip k b r = Some (x, b', r') \<Longrightarrow> length (flat r') \<le> length (flat r)"
  by (auto simp: read_ip_def split: option.splits prod.splits dest: ReadFullFrom_shrinks)

lemma readAddress_shrinks: "readAddress p b r = Some (x, b', r') \<Longrightarrow> length (flat r') \<le> length (flat r)"
  by (auto simp: readAddress_def Let_def split: option.splits prod.splits if_splits AddressFamily.splits
      dest!: ReadFullFrom_shrinks read_ip_shrinks read_domain_shrinks)

lemma ReadAddressPort_shrinks: "ReadAddressPort tj_addrParser None r = Some (x, r') \<Longrightarrow> length (flat r') \<le> length (flat r)"
  using tj_addrParser_ok(2)
  by (auto simp: ReadAddressPort_def split: option.splits prod.splits sum.splits dest!: readAddress_shrinks readPort_shrinks)

lemma read_payload_safe:
  assumes "\<forall>b\<in>set mb. b_UDP b \<noteq> None" "remain \<le> 8192"
  shows "\<exists>res r'. read_payload dest remain mb r = Some (res, r') \<and>
    (\<forall>mb'. res = Inr mb' \<longrightarrow> length (flat r') \<le> length (flat r) \<and> (\<forall>b\<in>set mb'. b_UDP b \<noteq> None))"
proof (cases "remain = 0")
  case True
  with assms show ?thesis by (simp add: read_payload.simps)
next
  case False
  let ?b = "fresh_buffer\<lparr>b_UDP := Some dest\<rparr>"
  have b: "buffer_wf ?b" "room ?b = 8192" by (simp_all add: buffer_wf_def room_def buf_New_def Size_def)
  have len: "(if int remain < Size then remain else nat Size) = remain" using assms(2) by (simp add: Size_def)
  obtain bs e r' where rd: "io_ReadFull remain r = (bs, e, r')" by (metis prod_cases3)
  have F: "Buffer_ReadFullFrom ?b r (int remain) = Some (length bs, e, append_read ?b bs, r')"
    using Buffer_ReadFullFrom_unfold [OF b(1), of "int remain" r] b(2) assms(2) rd by simp
  have "b_UDP (append_read ?b bs) = Some dest" by (simp add: append_read_def)
  with F len False assms(1) io_ReadFull_shrinks [OF rd] show ?thesis
    by (cases e) (simp_all add: read_payload.simps [of _ remain] read_payload.simps [of _ 0] Let_def)
qed

lemma PacketReader_safe:
  "\<exists>res r'. PacketReader_ReadMultiBuffer r = Some (res, r') \<and>
    (\<forall>mb. res = Inr mb \<longrightarrow> length (flat r') < length (flat r) \<and> (\<forall>b\<in>set mb. b_UDP b \<noteq> None))"
proof -
  obtain res r1 where 1: "ReadAddressPort tj_addrParser None r = Some (res, r1)" using ReadAddressPort_safe [of tj_addrParser r] by blast
  note s1 = ReadAddressPort_shrinks [OF 1]
  show ?thesis
  proof (cases res)
    case (Inl e)
    with 1 show ?thesis by (simp add: PacketReader_ReadMultiBuffer_def)
  next
    case (Inr x)
    obtain addr port where x: "x = (addr, port)" by force
    obtain n e2 r2 where 2: "io_ReadFull 2 r1 = (n, e2, r2)" by (metis prod_cases3)
    obtain l e3 r3 where 3: "io_ReadFull 2 r2 = (l, e3, r3)" by (metis prod_cases3)
    have s2: "length (flat r2) < length (flat r)" if "e2 = None" using io_ReadFull_None [of 2 r1 n r2] 2 that s1 by auto
    note s3 = io_ReadFull_shrinks [OF 3]
    have rp: "unat (Uint16 n) \<le> 8192 \<Longrightarrow> \<exists>res r'. read_payload (UDPDestination addr port) (unat (Uint16 n)) [] r3 = Some (res, r') \<and>
      (\<forall>mb'. res = Inr mb' \<longrightarrow> length (flat r') \<le> length (flat r3) \<and> (\<forall>b\<in>set mb'. b_UDP b \<noteq> None))"
      by (rule read_payload_safe) simp_all
    show ?thesis
    proof (cases "e2 = None \<and> e3 = None \<and> unat (Uint16 n) \<le> 8192")
      case True
      with rp obtain res' r' where "read_payload (UDPDestination addr port) (unat (Uint16 n)) [] r3 = Some (res', r')"
        "\<forall>mb'. res' = Inr mb' \<longrightarrow> length (flat r') \<le> length (flat r3) \<and> (\<forall>b\<in>set mb'. b_UDP b \<noteq> None)" by blast
      with 1 2 3 Inr x True s2 s3 show ?thesis
        by (intro exI [of _ res'] exI [of _ r']) (auto simp: PacketReader_ReadMultiBuffer_def Let_def tj_maxLength_def)
    next
      case False
      with 1 2 3 Inr x show ?thesis
        by (cases e2; cases e3) (auto simp: PacketReader_ReadMultiBuffer_def Let_def tj_maxLength_def)
    qed
  qed
qed

lemma tj_packet_loop_returns: "tj_packet_loop cone dest acc r \<noteq> None"
proof (induction "length (flat r)" arbitrary: dest acc r rule: less_induct)
  case less
  obtain res r' where P: "PacketReader_ReadMultiBuffer r = Some (res, r')"
    "\<forall>mb. res = Inr mb \<longrightarrow> length (flat r') < length (flat r) \<and> (\<forall>b\<in>set mb. b_UDP b \<noteq> None)"
    using PacketReader_safe [of r] by blast
  show ?case
  proof (cases res)
    case (Inr mb)
    with P(2) less have IH: "tj_packet_loop cone dest acc r' \<noteq> None" for dest acc by blast
    show ?thesis
    proof (cases mb)
      case (Cons b mb2)
      with P(2) Inr obtain d where "b_UDP b = Some d" by auto
      with P(1) Inr Cons IH show ?thesis by (simp add: tj_packet_loop.simps [of _ _ _ r] Let_def)
    qed (use P(1) Inr IH in \<open>simp add: tj_packet_loop.simps [of _ _ _ r]\<close>)
  qed (use P(1) in \<open>simp add: tj_packet_loop.simps [of _ _ _ r]\<close>)
qed

lemma tj_serve_returns: "tj_serve s u r \<noteq> None"
  using tj_ParseHeader_returns [of "\<lparr>tr_Reader = r, tr_Target = zero_Destination, tr_headerParsed = False\<rparr>"] tj_packet_loop_returns
  by (auto simp: tj_serve_def split: option.split)

text \<open>Packets without a payload are skipped; with cone NAT all packets go to the destination of the first.\<close>

definition tj_routed :: "bool \<Rightarrow> Destination option \<Rightarrow> (Destination \<times> byte list) list \<Rightarrow> (Destination \<times> byte list) list" where
  "tj_routed cone dest ps =
     (let qs = filter (\<lambda>p. snd p \<noteq> []) ps
      in if cone then map (\<lambda>p. (case dest of None \<Rightarrow> fst (hd qs) | Some d \<Rightarrow> d, snd p)) qs else qs)"

lemma tj_packet_loop_ok:
  assumes "flat r = concat (map tj_dest_bytes ps)" "list_all tj_fits ps"
  shows "\<exists>out. tj_packet_loop cone dest acc r = Some (acc @ out, if fin r = EOF then None else Some (ErrMsg ''unexpected EOF'')) \<and>
    map (\<lambda>(d, b). (d, content b)) out = tj_routed cone dest ps \<and> list_all (\<lambda>p. buffer_wf (snd p)) out"
  using assms
proof (induction ps arbitrary: dest acc r)
  case Nil
  then have "flat r = []" by simp
  then obtain r' where "PacketReader_ReadMultiBuffer r = Some (Inl (fin r), r')" by (rule PacketReader_end)
  then show ?case by (simp add: tj_packet_loop.simps tj_routed_def)
next
  case (Cons p ps)
  obtain d payload where p: "p = (d, payload)" by force
  from Cons.prems(2) p obtain a where a: "d_Address d = Some a" "sendable a" "UDPDestination a (d_Port d) = d"
    by (auto simp: tj_fits_def elim: tj_sendableE)
  have len: "length payload \<le> 8192" using Cons.prems(2) p by (simp add: tj_fits_def tj_dest_bytes_def tj_packet_bytes_def)
  have "flat r = tj_packet_bytes a (d_Port d) payload @ concat (map tj_dest_bytes ps)"
    using Cons.prems(1) p a(1) tj_dest_bytes_def [of p] by simp
  from PacketReader_ok [OF this a(2) len] obtain mb r' where
    rd: "PacketReader_ReadMultiBuffer r = Some (Inr mb, r')" "flat r' = concat (map tj_dest_bytes ps)" "fin r' = fin r"
    "payload = [] \<longrightarrow> mb = []" "payload \<noteq> [] \<longrightarrow> (\<exists>b. mb = [b] \<and> buffer_wf b \<and> content b = payload \<and> b_UDP b = Some d)"
    unfolding a(3) by blast
  have "list_all tj_fits ps" using Cons.prems(2) by simp
  note IH' = Cons.IH [OF rd(2) this, unfolded rd(3)]
  have IH: "\<exists>out. tj_packet_loop cone dest acc r' = Some (acc @ out, if fin r = EOF then None else Some (ErrMsg ''unexpected EOF'')) \<and>
    map (\<lambda>(d, b). (d, content b)) out = tj_routed cone dest ps \<and> list_all (\<lambda>p. buffer_wf (snd p)) out" for dest acc
    by (rule IH')
  show ?case
  proof (cases "payload = []")
    case True
    then have "tj_packet_loop cone dest acc r = tj_packet_loop cone dest acc r'" "tj_routed cone dest (p # ps) = tj_routed cone dest ps"
      using rd(1,4) p by (simp_all add: tj_packet_loop.simps [of _ _ _ r] tj_routed_def)
    then show ?thesis using IH' by (simp only:)
  next
    case False
    then obtain b where b: "mb = [b]" "buffer_wf b" "content b = payload" "b_UDP b = Some d" using rd(5) by blast
    define dest' where "dest' = (case dest of None \<Rightarrow> d | Some d' \<Rightarrow> if cone then d' else d)"
    from IH [of "Some dest'" "acc @ [(dest', b)]"] obtain out where out:
      "tj_packet_loop cone (Some dest') (acc @ [(dest', b)]) r' =
        Some ((acc @ [(dest', b)]) @ out, if fin r = EOF then None else Some (ErrMsg ''unexpected EOF''))"
      "map (\<lambda>(d, b). (d, content b)) out = tj_routed cone (Some dest') ps" "list_all (\<lambda>p. buffer_wf (snd p)) out" by blast
    have "tj_packet_loop cone dest acc r = tj_packet_loop cone (Some dest') (acc @ [(dest', b)]) r'"
      using rd(1) b by (simp add: tj_packet_loop.simps [of _ _ _ r] dest'_def Let_def)
    moreover have "tj_routed cone dest (p # ps) = (dest', payload) # tj_routed cone (Some dest') ps"
      using False p by (cases dest) (simp_all add: tj_routed_def dest'_def Let_def)
    ultimately show ?thesis using out b by (intro exI [of _ "(dest', b) # out"]) simp
  qed
qed

section \<open>Accounts\<close>

lemma hex_digit_inj:
  assumes "hex_digit i = hex_digit j" "i < 16" "j < 16"
  shows "i = j"
proof -
  have *: "unat (of_nat k :: byte) = k" if "k < 256" for k using that by (simp add: unsigned_of_nat take_bit_nat_eq_self)
  have "unat (hex_digit k) = (if k < 10 then 48 + k else 87 + k)" if "k < 16" for k
    using that by (cases "k < 10") (simp_all only: hex_digit_def if_True if_False *)
  then have "(if i < 10 then 48 + i else 87 + i) = (if j < 10 then 48 + j else 87 + j)" using assms by metis
  then show ?thesis using assms(2,3) by (simp split: if_splits)
qed

lemma hexString_inj: "hexString xs = hexString ys \<Longrightarrow> xs = ys"
proof (induction xs arbitrary: ys)
  case Nil
  then show ?case by (cases ys) (simp_all add: hexString_def)
next
  case (Cons x xs)
  then obtain y ys' where ys: "ys = y # ys'" by (cases ys) (simp_all add: hexString_def)
  have lt: "unat v div 16 < 16" "unat v mod 16 < 16" for v :: byte using unsigned_less [where 'a = nat, of v] by simp_all
  from Cons.prems ys have "hex_digit (unat x div 16) = hex_digit (unat y div 16)" "hex_digit (unat x mod 16) = hex_digit (unat y mod 16)"
    "hexString xs = hexString ys'" by (simp_all add: hexString_def)
  then have "unat x div 16 = unat y div 16" "unat x mod 16 = unat y mod 16" "xs = ys'"
    using hex_digit_inj lt Cons.IH by blast+
  then have "x = y" by (metis div_mult_mod_eq word_unat_eq_iff)
  with ys \<open>xs = ys'\<close> show ?case by simp
qed

text \<open>The requests of the user manager and the users they leave registered.\<close>

datatype tj_op = OpAdd TrojanUser | OpDel gostring

fun tj_apply :: "(gostring \<Rightarrow> gostring) \<Rightarrow> TrojanValidator \<Rightarrow> tj_op \<Rightarrow> TrojanValidator \<times> goerr option" where
  "tj_apply lower v (OpAdd u) = Validator_Add lower v u"
| "tj_apply lower v (OpDel e) = Validator_Del lower v e"

definition same_email :: "(gostring \<Rightarrow> gostring) \<Rightarrow> gostring \<Rightarrow> TrojanUser \<Rightarrow> bool" where
  "same_email lower e u \<longleftrightarrow> tu_Email u \<noteq> [] \<and> lower (tu_Email u) = lower e"

fun users_apply :: "(gostring \<Rightarrow> gostring) \<Rightarrow> TrojanUser list \<Rightarrow> tj_op \<Rightarrow> TrojanUser list" where
  "users_apply lower us (OpAdd u) = (if tu_Email u \<noteq> [] \<and> list_ex (same_email lower (tu_Email u)) us then us else u # us)"
| "users_apply lower us (OpDel e) = (if e = [] then us else filter (\<lambda>u. \<not> same_email lower e u) us)"

definition users_ok :: "(gostring \<Rightarrow> gostring) \<Rightarrow> TrojanUser list \<Rightarrow> bool" where
  "users_ok lower us \<longleftrightarrow> distinct (map tu_Key us) \<and> distinct (map (lower \<circ> tu_Email) (filter (\<lambda>u. tu_Email u \<noteq> []) us))"

definition validator_rel :: "(gostring \<Rightarrow> gostring) \<Rightarrow> TrojanUser list \<Rightarrow> TrojanValidator \<Rightarrow> bool" where
  "validator_rel lower us v \<longleftrightarrow>
     (\<forall>h. map_of (va_users v) h = map_of (map (\<lambda>u. (hexString (tu_Key u), u)) us) h) \<and>
     va_email v = map (\<lambda>u. (lower (tu_Email u), u)) (filter (\<lambda>u. tu_Email u \<noteq> []) us)"

lemma map_of_keyed: "map_of (map (\<lambda>u. (f u, u)) us) k = List.find (\<lambda>u. f u = k) us"
  by (induction us) auto

lemma map_of_filter_key:
  assumes "\<And>x. x \<in> set us \<Longrightarrow> P x \<longleftrightarrow> f x \<noteq> k"
  shows "map_of (map (\<lambda>u. (f u, u)) (filter P us)) h = (if h = k then None else map_of (map (\<lambda>u. (f u, u)) us) h)"
  using assms by (induction us) auto

lemma find_email:
  "map_of (map (\<lambda>u. (lower (tu_Email u), u)) (filter (\<lambda>u. tu_Email u \<noteq> []) us)) (lower e) = List.find (same_email lower e) us"
  by (induction us) (auto simp: same_email_def)

lemma validator_rel_apply:
  assumes "validator_rel lower us v" "users_ok lower us" "users_ok lower (users_apply lower us opn)"
  shows "validator_rel lower (users_apply lower us opn) (fst (tj_apply lower v opn))"
proof (cases opn)
  case (OpAdd u)
  have mail: "map_of (va_email v) (lower e) = List.find (same_email lower e) us" for e
    using assms(1) by (simp add: validator_rel_def find_email)
  have ex: "map_of (va_email v) (lower (tu_Email u)) \<noteq> None \<longleftrightarrow> list_ex (same_email lower (tu_Email u)) us"
    unfolding mail by (induction us) auto
  with assms(1) OpAdd show ?thesis
    by (auto simp: Validator_Add_def Let_def validator_rel_def update_conv fun_eq_iff)
next
  case (OpDel e)
  have mail: "map_of (va_email v) (lower e) = List.find (same_email lower e) us"
    using assms(1) by (simp add: validator_rel_def find_email)
  show ?thesis
  proof (cases "List.find (same_email lower e) us")
    case None
    then have "filter (\<lambda>u. \<not> same_email lower e u) us = us" by (simp add: find_None_iff)
    with None OpDel mail assms(1) show ?thesis by (simp add: Validator_Del_def Let_def)
  next
    case (Some u)
    then have u: "u \<in> set us" "same_email lower e u" by (auto simp: find_Some_iff)
    have only: "same_email lower e x \<longleftrightarrow> tu_Key x = tu_Key u" if "x \<in> set us" for x
    proof -
      have "x = u" if "same_email lower e x"
        using assms(2) \<open>x \<in> set us\<close> u that
        by (auto simp: users_ok_def same_email_def distinct_map inj_on_def)
      moreover have "x = u" if "tu_Key x = tu_Key u"
        using assms(2) \<open>x \<in> set us\<close> u that by (auto simp: users_ok_def distinct_map inj_on_def)
      ultimately show ?thesis using u by blast
    qed
    have users: "map_of (map (\<lambda>u. (hexString (tu_Key u), u)) (filter (\<lambda>u. \<not> same_email lower e u) us)) h =
      ((map_of (map (\<lambda>u. (hexString (tu_Key u), u)) us))(hexString (tu_Key u) := None)) h" for h
      by (subst map_of_filter_key [of us _ "\<lambda>u. hexString (tu_Key u)" "hexString (tu_Key u)"])
        (use only in \<open>auto dest: hexString_inj\<close>)
    have emails: "AList.delete (lower e) (map (\<lambda>u. (lower (tu_Email u), u)) (filter (\<lambda>u. tu_Email u \<noteq> []) xs)) =
      map (\<lambda>u. (lower (tu_Email u), u)) (filter (\<lambda>u. tu_Email u \<noteq> []) (filter (\<lambda>u. \<not> same_email lower e u) xs))" for xs
      by (induction xs) (auto simp: same_email_def)
    show ?thesis
    proof (cases "e = []")
      case True
      with OpDel assms(1) show ?thesis by (simp add: Validator_Del_def)
    next
      case False
      with Some OpDel mail assms(1) show ?thesis
        by (simp add: Validator_Del_def Let_def validator_rel_def delete_conv' emails users)
    qed
  qed
qed

text \<open>The validator after a sequence of requests, and the users that are then registered.\<close>

definition tj_validator :: "(gostring \<Rightarrow> gostring) \<Rightarrow> TrojanValidator \<Rightarrow> tj_op list \<Rightarrow> TrojanValidator" where
  "tj_validator lower v ops = foldl (\<lambda>v opn. fst (tj_apply lower v opn)) v ops"

definition tj_registered :: "(gostring \<Rightarrow> gostring) \<Rightarrow> tj_op list \<Rightarrow> TrojanUser list" where
  "tj_registered lower ops = foldl (users_apply lower) [] ops"

definition no_users :: TrojanValidator where "no_users = \<lparr>va_email = [], va_users = []\<rparr>"

lemma registered_emails: "distinct (map (lower \<circ> tu_Email) (filter (\<lambda>u. tu_Email u \<noteq> []) (tj_registered lower ops)))"
proof (induction ops rule: rev_induct)
  case (snoc opn ops)
  have step: "tj_registered lower (ops @ [opn]) = users_apply lower (tj_registered lower ops) opn" by (simp add: tj_registered_def)
  have sub: "distinct (map f (filter P xs)) \<Longrightarrow> distinct (map f (filter P (filter Q xs)))" for f :: "TrojanUser \<Rightarrow> gostring" and P Q xs
    by (induction xs) auto
  show ?case
  proof (cases opn)
    case (OpAdd u)
    with snoc show ?thesis unfolding step by (auto simp: same_email_def list_ex_iff dest: sym)
  next
    case (OpDel e)
    with snoc sub show ?thesis unfolding step by auto
  qed
qed (simp add: tj_registered_def)

lemma validator_rel_run:
  assumes "\<forall>k\<le>length ops. distinct (map tu_Key (tj_registered lower (take k ops)))"
  shows "validator_rel lower (tj_registered lower ops) (tj_validator lower no_users ops)"
  using assms
proof (induction ops rule: rev_induct)
  case Nil
  then show ?case by (simp add: tj_registered_def tj_validator_def no_users_def validator_rel_def)
next
  case (snoc opn ops)
  have ok: "users_ok lower (tj_registered lower (take k (ops @ [opn])))" if "k \<le> length (ops @ [opn])" for k
    using snoc.prems registered_emails that by (simp only: users_ok_def simp_thms)
  have "distinct (map tu_Key (tj_registered lower (take k ops)))" if "k \<le> length ops" for k
    using snoc.prems [rule_format, of k] that by simp
  with snoc.IH have "validator_rel lower (tj_registered lower ops) (tj_validator lower no_users ops)" by blast
  from validator_rel_apply [OF this, of opn] ok [of "length ops"] ok [of "length ops + 1"] show ?case
    by (simp add: tj_registered_def tj_validator_def)
qed

text \<open>
  C40: the validator of Trojan users implements the list of the registered users. After any requests to add and to delete
  users, as long as no two registered users ever share a key, a key and an email are looked up as in that list, the users
  that are listed, in the order the map is visited in, and counted are the ones with an email, an addition fails exactly when the email is taken, up to
  case, and a deletion exactly when the email is empty or nobody has it.
\<close>

theorem trojan_users:
  assumes "\<forall>k\<le>length ops. distinct (map tu_Key (tj_registered lower (take k ops)))"
    and "v = tj_validator lower no_users ops" "us = tj_registered lower ops"
  shows "Validator_Get v (hexString key) = List.find (\<lambda>u. tu_Key u = key) us \<and>
    Validator_GetByEmail lower v e = List.find (same_email lower e) us \<and>
    Validator_GetAll visit v = visit (filter (\<lambda>u. tu_Email u \<noteq> []) us) \<and> Validator_GetCount v = length (filter (\<lambda>u. tu_Email u \<noteq> []) us) \<and>
    (snd (Validator_Add lower v u) = None \<longleftrightarrow> tu_Email u = [] \<or> \<not> list_ex (same_email lower (tu_Email u)) us) \<and>
    (snd (Validator_Del lower v e) = None \<longleftrightarrow> e \<noteq> [] \<and> list_ex (same_email lower e) us)"
proof -
  have rel: "validator_rel lower us v" using validator_rel_run [OF assms(1)] assms(2,3) by simp
  have hex: "hexString x = hexString y \<longleftrightarrow> x = y" for x y using hexString_inj by blast
  have key: "Validator_Get v (hexString key) = List.find (\<lambda>u. tu_Key u = key) us"
    using rel by (simp add: Validator_Get_def validator_rel_def map_of_keyed hex)
  have mail: "map_of (va_email v) (lower e) = List.find (same_email lower e) us" for e
    using rel by (simp add: validator_rel_def find_email)
  have ex: "List.find P us \<noteq> None \<longleftrightarrow> list_ex P us" for P by (induction us) auto
  have del: "snd (Validator_Del lower v e) = None \<longleftrightarrow> e \<noteq> [] \<and> list_ex (same_email lower e) us"
    using ex [of "same_email lower e"] mail [of e] by (cases "List.find (same_email lower e) us") (auto simp: Validator_Del_def Let_def)
  have add: "snd (Validator_Add lower v u) = None \<longleftrightarrow> tu_Email u = [] \<or> \<not> list_ex (same_email lower (tu_Email u)) us"
    using ex [of "same_email lower (tu_Email u)"] mail [of "tu_Email u"] by (auto simp: Validator_Add_def Let_def)
  have all: "Validator_GetAll visit v = visit (filter (\<lambda>u. tu_Email u \<noteq> []) us)"
    using rel by (simp add: Validator_GetAll_def validator_rel_def comp_def)
  moreover have "Validator_GetCount v = length (filter (\<lambda>u. tu_Email u \<noteq> []) us)"
    using rel by (simp add: Validator_GetCount_def validator_rel_def)
  ultimately show ?thesis using key mail del add by (simp add: Validator_GetByEmail_def)
qed

theorem trojan_users_witness:
  "\<exists>u w v. Validator_Get v (hexString [1]) = None \<and> Validator_Get v (hexString [2]) = Some w \<and> tu_Key u = [1] \<and>
     v = tj_validator (\<lambda>e. e) no_users [OpAdd u, OpAdd w, OpDel [97]] \<and> snd (Validator_Del (\<lambda>e. e) v [97]) \<noteq> None"
proof -
  let ?u = "\<lparr>tu_Email = [97], tu_Level = 0, tu_Password = [], tu_Key = [1]\<rparr>"
  let ?w = "\<lparr>tu_Email = [98], tu_Level = 0, tu_Password = [], tu_Key = [2]\<rparr>"
  let ?ops = "[OpAdd ?u, OpAdd ?w, OpDel [97]]" and ?lower = "\<lambda>e. e"
  have us: "tj_registered ?lower ?ops = [?w]" by (simp add: tj_registered_def same_email_def)
  have "k = 0 \<or> k = 1 \<or> k = 2 \<or> k = 3" if "k \<le> length ?ops" for k using that by auto
  then have "\<forall>k\<le>length ?ops. distinct (map tu_Key (tj_registered ?lower (take k ?ops)))"
    by (fastforce simp: tj_registered_def same_email_def)
  from trojan_users [OF this refl refl, of "[1]" "[97]"] trojan_users [OF this refl refl, of "[2]" "[97]"] us show ?thesis
    by (intro exI [of _ ?u] exI [of _ ?w] exI [of _ "tj_validator ?lower no_users ?ops"]) (simp add: same_email_def)
qed

text \<open>Two users may be added with one key; deleting the one then shuts out the other, who is still listed.\<close>

lemma shared_key_lost:
  assumes "tu_Email u \<noteq> []" "tu_Email w \<noteq> []" "lower (tu_Email u) \<noteq> lower (tu_Email w)" "tu_Key u = tu_Key w"
    and "v = tj_validator lower no_users [OpAdd u, OpAdd w, OpDel (tu_Email w)]"
  shows "Validator_Get v (hexString (tu_Key u)) = None \<and> Validator_GetByEmail lower v (tu_Email u) = Some u"
  using assms
  by (simp add: tj_validator_def no_users_def Validator_Add_def Validator_Del_def Let_def Validator_Get_def Validator_GetByEmail_def
      update_conv delete_conv')

section \<open>Connections\<close>

text \<open>Every user that the validator knows was added, under its own key.\<close>

lemma validator_users:
  assumes "\<forall>(h, u)\<in>set (va_users v). u \<in> A \<and> h = hexString (tu_Key u)" "\<forall>u. OpAdd u \<in> set ops \<longrightarrow> u \<in> A"
  shows "\<forall>(h, u)\<in>set (va_users (tj_validator lower v ops)). u \<in> A \<and> h = hexString (tu_Key u)"
  using assms(2)
proof (induction ops rule: rev_induct)
  case Nil
  with assms(1) show ?case by (simp add: tj_validator_def)
next
  case (snoc opn ops)
  then have IH: "\<forall>(h, u)\<in>set (va_users (tj_validator lower v ops)). u \<in> A \<and> h = hexString (tu_Key u)" by simp
  have upd: "set (AList.update k x m) \<subseteq> insert (k, x) (set m)" for k :: gostring and x :: TrojanUser and m by (induction m) auto
  let ?v = "tj_validator lower v ops"
  have step: "tj_validator lower v (ops @ [opn]) = fst (tj_apply lower ?v opn)" by (simp add: tj_validator_def)
  show ?case
  proof (cases opn)
    case (OpAdd u)
    have "set (va_users (fst (Validator_Add lower ?v u))) \<subseteq> insert (hexString (tu_Key u), u) (set (va_users ?v))"
      using upd by (simp add: Validator_Add_def Let_def subset_insertI)
    with IH snoc.prems OpAdd show ?thesis unfolding step by auto
  next
    case (OpDel e)
    have "set (va_users (fst (Validator_Del lower ?v e))) \<subseteq> set (va_users ?v)"
      by (auto simp: Validator_Del_def Let_def AList.delete_eq split: option.splits)
    with IH OpDel show ?thesis unfolding step by auto
  qed
qed

lemma add_users_run: "add_users lower v users = Inr v' \<Longrightarrow> \<exists>us. users = map Inr us \<and> v' = tj_validator lower v (map OpAdd us)"
proof (induction lower v users rule: add_users.induct)
  case (3 lower v u us)
  then obtain v1 where v1: "Validator_Add lower v u = (v1, None)" by (auto split: prod.splits option.splits)
  with 3 obtain us' where "us = map Inr us'" "v' = tj_validator lower v1 (map OpAdd us')" by auto
  with v1 show ?case by (intro exI [of _ "u # us'"]) (simp add: tj_validator_def)
qed (auto simp: tj_validator_def)

fun out_user :: "tj_outcome \<Rightarrow> TrojanUser option" where
  "out_user (TJ_connect u target r) = Some u"
| "out_user (TJ_packets u ps e) = Some u"
| "out_user _ = None"

lemma tj_serve_user:
  "tj_serve s u r = Some x \<Longrightarrow> out_user x = Some w \<Longrightarrow> w = u" "tj_serve s u r \<noteq> Some (TJ_fallback fb r')"
  by (auto simp: tj_serve_def bind_eq_Some_conv split: option.splits if_splits)


definition demo_user :: TrojanUser where
  "demo_user = \<lparr>tu_Email = [97], tu_Level = 0, tu_Password = [], tu_Key = replicate 56 48\<rparr>"

definition demo_fallback :: Fallback where
  "demo_fallback = \<lparr>fb_Name = [], fb_Alpn = [], fb_Path = [], fb_Type = [], fb_Dest = [], fb_Xver = 0\<rparr>"

lemma demo_server:
  "\<exists>m. tj_NewServer (\<lambda>x. x) True [Inr demo_user] (Some [demo_fallback]) =
     Some (Inr \<lparr>ts_validator = tj_validator (\<lambda>x. x) no_users [OpAdd demo_user], ts_fallbacks = Some m, ts_cone = True\<rparr>)"
  by (rule fallback_tables_ok [of "[demo_fallback]"])
    (auto simp: tj_NewServer_def tj_validator_def no_users_def Validator_Add_def Let_def demo_user_def)


text \<open>The server knows the user of a connection that starts with a Trojan header.\<close>

lemma tj_user_read:
  assumes "flat conn = tj_header_bytes key network a port @ rest" "length key = 56" "Validator_Get (ts_validator s) (hexString key) = Some u"
    and "58 \<le> length (hd (chunks conn))"
  obtains r where "tj_Process visit lower s realName realAlpn conn = tj_serve s u r" "flat r = flat conn" "fin r = fin conn"
proof -
  have ne: "chunks conn \<noteq> []" using assms(1) by (auto simp: flat_def tj_header_bytes_def tj_crlf_def)
  obtain bs rest' where P: "tj_Process visit lower s realName realAlpn conn =
     (let bufferedReader = rest'\<lparr>chunks := bs # chunks rest'\<rparr> in
      case tj_user (ts_validator s) bs of
        None \<Rightarrow> Some (tj_fallback visit lower s realName realAlpn bs bufferedReader)
      | Some u \<Rightarrow> tj_serve s u bufferedReader)"
    "flat conn = bs @ flat rest'" "fin rest' = fin conn" "bs = take 8192 (hd (chunks conn))"
    by (rule tj_Process_ok [OF ne])
  have len: "58 \<le> length bs" using assms(4) P(4) by simp
  have "take 56 bs = take 56 (flat conn)" "bs ! 56 = flat conn ! 56" using P(2) len by (simp_all add: nth_append)
  then have "take 56 bs = key" "bs ! 56 = 13" using assms(1,2) by (simp_all add: tj_header_bytes_def tj_crlf_def nth_append)
  then have "tj_user (ts_validator s) bs = Some u" using len assms(3) by (simp add: tj_user_def)
  with that [of "rest'\<lparr>chunks := bs # chunks rest'\<rparr>"] P show thesis by (simp add: Let_def flat_def)
qed



text \<open>
  C38: a user's packets are dispatched. The packets that a Trojan client with the key of a registered user writes, without a failure, after its header,
  each to its own destination or to the target of the connection, and that fit in a buffer with their addresses, arrive at the
  dispatcher in the order written, whole and one by one: each non-empty packet for its destination, or, with cone NAT, for the
  destination of the first. The server then ends without an error. Its first read must bring at least the 58 bytes of the key and
  the line end (a client whose first read is shorter is taken for a stranger); after them the stream may be cut anywhere, and it ends
  with an end of file. The addresses are such that the protocol can send them.
\<close>

theorem trojan_packets_served:
  assumes client: "c = \<lparr>tc_Writer = fresh_sink, tc_Target = target, tc_Key = key, tc_headerSent = False\<rparr>"
    and target: "target = UDPDestination a port" "sendable a"
    and key: "length key = 56" "Validator_Get (ts_validator s) (hexString key) = Some u"
    and written: "ConnWriter_Write c [] = Some (n, None, c1)" "PacketWriter_WriteMultiBuffer target (tc_Writer c1) mb = Some (None, w)"
    and mb: "mb_wf mb" "\<forall>b\<in>set mb. tj_fits (tj_packet target b)"
    and conn: "flat conn = sent w" "58 \<le> length (hd (chunks conn))" "fin conn = EOF"
  shows "\<exists>ps. tj_Process visit lower s realName realAlpn conn = Some (TJ_packets u ps None) \<and>
    map (\<lambda>(d, b). (d, content b)) ps = tj_routed (ts_cone s) None (map (tj_packet target) mb)"
proof -
  let ?ps = "map (tj_packet target) mb"
  have t: "d_Address target = Some a" "d_Network target = Network_UDP" "d_Port target = port" using target(1) by (simp_all add: UDPDestination_def)
  have "sent (tc_Writer c1) = tj_header_bytes key Network_UDP a port"
    using ConnWriter_Write_bytes [of c a "[]" n c1] client t target(2) key(1) written(1) by simp
  then have fl: "flat conn = tj_header_bytes key Network_UDP a port @ concat (map tj_dest_bytes ?ps)"
    using conn(1) PacketWriter_bytes [OF mb written(2)] by (simp add: comp_def)
  from tj_user_read [OF fl key conn(2), of visit lower realName realAlpn] obtain r0 where
    r0: "tj_Process visit lower s realName realAlpn conn = tj_serve s u r0" "flat r0 = flat conn" "fin r0 = fin conn" by blast
  let ?c = "\<lparr>tr_Reader = r0, tr_Target = zero_Destination, tr_headerParsed = False\<rparr>"
  obtain r where r: "tj_ParseHeader ?c = Some (None, ?c\<lparr>tr_Reader := r, tr_headerParsed := True,
      tr_Target := \<lparr>d_Address = Some a, d_Port = port, d_Network = Network_UDP\<rparr>\<rparr>)" "flat r = concat (map tj_dest_bytes ?ps)" "fin r = fin r0"
    using tj_ParseHeader_ok [of ?c key Network_UDP a port "concat (map tj_dest_bytes ?ps)"] r0(2) fl key(1) target(2) by auto
  have "list_all tj_fits ?ps" using mb(2) by (simp add: list_all_iff)
  from tj_packet_loop_ok [OF r(2) this, of "ts_cone s" None "[]"] r(3) r0(3) conn(3) obtain ps where
    "tj_packet_loop (ts_cone s) None [] r = Some (ps, None)" "map (\<lambda>(d, b). (d, content b)) ps = tj_routed (ts_cone s) None ?ps" by auto
  with r0 r(1) show ?thesis by (intro exI [of _ ps]) (simp add: tj_serve_def)
qed

theorem trojan_packets_served_witness:
  "\<exists>s conn ps. tj_Process (\<lambda>ns. ns) (\<lambda>x. x) s [] [] conn = Some (TJ_packets demo_user ps None) \<and>
     map (\<lambda>(d, b). (d, content b)) ps = [(UDPDestination (ipv4Address [8, 8, 8, 8]) 53, [7, 8]), (UDPDestination (ipv4Address [1, 1, 1, 1]) 53, [9])]"
proof -
  let ?a = "ipv4Address [8, 8, 8, 8]"
  let ?t = "UDPDestination ?a 53" and ?d = "UDPDestination (ipv4Address [1, 1, 1, 1]) 53"
  let ?key = "replicate 56 48 :: byte list"
  let ?c = "\<lparr>tc_Writer = fresh_sink, tc_Target = ?t, tc_Key = ?key, tc_headerSent = False\<rparr>"
  let ?mb = "[FromBytes [7, 8], (FromBytes [9])\<lparr>b_UDP := Some ?d\<rparr>]"
  let ?s = "\<lparr>ts_validator = tj_validator (\<lambda>x. x) no_users [OpAdd demo_user], ts_fallbacks = None, ts_cone = False\<rparr>"
  have u: "Validator_Get (ts_validator ?s) (hexString ?key) = Some demo_user"
    by (simp add: tj_validator_def no_users_def Validator_Add_def Validator_Get_def Let_def demo_user_def)
  have len: "length (address_port_bytes tj_addrParser (ipv4Address [x, x, x, x], p)) \<le> 259" for x p by (rule length_address_port_bytes) simp
  have ct: "content (FromBytes [7, 8]) = [7, 8]" "content ((FromBytes [9])\<lparr>b_UDP := Some ?d\<rparr>) = [9]"
    "buffer_wf (FromBytes [7, 8])" "buffer_wf ((FromBytes [9])\<lparr>b_UDP := Some ?d\<rparr>)"
    "b_UDP (FromBytes [7, 8]) = None"
    by (simp_all add: content_def buffer_wf_def FromBytes_def)
  then have mb: "mb_wf ?mb" by simp
  have pk: "map (tj_packet ?t) ?mb = [(?t, [7, 8]), (?d, [9])]" using ct by (simp add: tj_packet_def)
  have fits: "\<forall>b\<in>set ?mb. tj_fits (tj_packet ?t b)"
    using ct len [of 8 53] len [of 1 53] by (simp add: tj_packet_def tj_fits_def tj_sendable_def tj_dest_bytes_def tj_packet_bytes_def tj_crlf_def UDPDestination_def)
  obtain c1 where c1: "ConnWriter_Write ?c [] = Some (0, None, c1)" "faults (tc_Writer c1) = []"
    by (simp add: ConnWriter_Write_def tj_writeHeader_bytes sink_wr_def io_Write_no_faults UDPDestination_def)
  obtain w where w: "PacketWriter_WriteMultiBuffer ?t (tc_Writer c1) ?mb = Some (None, w)"
    using ct c1(2) len [of 8 53] len [of 1 53] by (simp add: Buffer_Bytes_content tj_writePacket_bytes [where a = ?a] tj_writePacket_bytes [where a = "ipv4Address [1, 1, 1, 1]"]
      tj_packet_bytes_def tj_crlf_def UDPDestination_def sink_wr_def io_Write_no_faults)
  let ?conn = "\<lparr>chunks = [take 60 (sent w), drop 60 (sent w)], fin = EOF\<rparr>"
  have "sent w = tj_header_bytes ?key Network_UDP ?a 53 @ concat (map (\<lambda>b. tj_dest_bytes (tj_packet ?t b)) ?mb)"
    using PacketWriter_bytes [OF mb fits w] ConnWriter_Write_bytes [OF _ _ _ c1(1), of ?a] by (simp add: UDPDestination_def)
  then have "58 \<le> length (sent w)" by (simp add: tj_header_bytes_def tj_crlf_def)
  then have conn: "flat ?conn = sent w" "58 \<le> length (hd (chunks ?conn))" "fin ?conn = EOF" by simp_all
  from trojan_packets_served [OF refl refl _ _ u c1(1) w mb fits conn, of "\<lambda>ns. ns" "\<lambda>x. x" "[]" "[]"] pk
  show ?thesis by (intro exI [of _ ?s] exI [of _ ?conn]) (simp add: tj_routed_def)
qed

end
