(* ===== verification/Spec2Isabelle.thy ===== *)
theory Spec2Isabelle
  imports Reflex_EndToEnd Mux_EndToEnd Mux_Picker Pipe KCP_Protocol KCP_Connection Dispatcher_Props Trojan_Props
begin

text \<open>
  A verification library for xray-core with the Reflex protocol
  (\<^verbatim>\<open>src/Reflex-networkProject-main/xray-core\<close>).

  \<^bold>\<open>The program.\<close> xray-core is a proxy server. An inbound handler accepts a connection, decodes
  its protocol and asks the dispatcher for a link, a pair of in-memory pipes, to an outbound
  handler; bytes travel in buffers of 8 KiB. The Reflex protocol, which this repository adds,
  consists of an encrypted frame layer, a traffic shaper and an inbound handler with a fallback to
  a web server. The dispatcher may look into the first bytes of a connection for the name it is for.
  Below the proxies are the transports, of which KCP is one written in this code base: reliable
  delivery over UDP packets. Beside them stand the multiplexer, which carries many connections in
  one, and the serializer of addresses most protocols share. The router decides which outbound a
  connection takes: rules with conditions on domains, addresses, ports and more, balancers that
  choose among outbounds of the outbound manager, and the DNS client, of which fake DNS is a part,
  for rules on addresses.

  \<^bold>\<open>The theories\<close>, in the order in which they build on one another:

  \<^item> \<^verbatim>\<open>Go_Prelude\<close>, \<^verbatim>\<open>Go_IO\<close>: Go's integers at their widths, slices, big-endian numbers, and the
    readers and writers of the standard library: a reader hands out its chunks, then fails with
    its error; \<^verbatim>\<open>io.ReadFull\<close>, \<^verbatim>\<open>bufio.Reader\<close> and writers that may fail follow their
    documentation.
  \<^item> \<^verbatim>\<open>Interfaces\<close>: the contracts as locales, with what follows from them: \<open>byte_fifo\<close> (a queue of
    bytes; interpreted by the pipe), \<open>aead\<close> (authenticated encryption; the legacy KCP
    authenticator is an instance, and the parameter of the Reflex session is assumed to be one),
    \<open>codec\<close> (self-delimiting encodings and their streams; interpreted by KCP segments) and
    \<open>guarded_counter\<close> (a counter that only moves forward; the replay guard of \<^verbatim>\<open>ReadFrame\<close>).
  \<^item> \<^verbatim>\<open>Net_Address\<close>: \<^verbatim>\<open>common/net\<close> ports, addresses, networks and destinations.
    \<^verbatim>\<open>Buf_Buffer\<close>, \<^verbatim>\<open>Buf_MultiBuffer\<close>: \<^verbatim>\<open>common/bytespool\<close> and \<^verbatim>\<open>common/buf\<close> with the invariant
    of the two cursors, the contents as abstract value, and what every operation does to them.
  \<^item> \<^verbatim>\<open>Reflex_Session\<close>, \<^verbatim>\<open>Reflex_Session_Props\<close>: \<^verbatim>\<open>proxy/reflex/session.go\<close>. \<^verbatim>\<open>WriteFrame\<close> and
    \<^verbatim>\<open>ReadFrame\<close> thread the session record with its two counters. Shown: the round trip of frame
    streams, distinct nonces, strictly increasing accepted counters, rejection of replays,
    truncation, and the limits of the 16-bit length and of the shared key.
  \<^item> \<^verbatim>\<open>Reflex_Morph\<close>: \<^verbatim>\<open>proxy/reflex/morph.go\<close>. The random source is a sequence of numbers;
    weights are rationals rounded as float64. Shown: a morphed frame arrives with a size of the
    profile, one-shot overrides, the 64-bit wrap of delays, the distribution of a capture.
  \<^item> \<^verbatim>\<open>Reflex_Inbound\<close>, \<^verbatim>\<open>Reflex_Fallback\<close>, \<^verbatim>\<open>Reflex_Inbound_Props\<close>, \<^verbatim>\<open>Reflex_EndToEnd\<close>:
    \<^verbatim>\<open>proxy/reflex/inbound/inbound.go\<close>. \<^verbatim>\<open>Process\<close> with detection, the two handshakes,
    authentication and the session loop as functions over the connection; the two copying
    goroutines of the fallback as a step relation. Shown: handshake packets are parsed, strangers
    rejected, the session loop equals decode-then-handle, the relay is transparent under every
    interleaving and ends, and end to end what a client writes is what the dispatcher receives.
  \<^item> \<^verbatim>\<open>Address_Parser\<close>: \<^verbatim>\<open>common/protocol/address.go\<close>; \<^verbatim>\<open>Mux_Frame\<close>: \<^verbatim>\<open>common/mux/frame.go\<close> with
    \<^verbatim>\<open>common/bitmask\<close> and \<^verbatim>\<open>common/serial\<close>. Shown: round trips and that parsers do not panic.
  \<^item> \<^verbatim>\<open>Pipe\<close>: \<^verbatim>\<open>transport/pipe\<close>. What happens under the mutex is a function, the loops of the
    reader and of any number of writers are a step relation. Shown: bytes come out in the order
    they went in under every interleaving, and no wake-up is lost.
  \<^item> \<^verbatim>\<open>KCP_Segment\<close>, \<^verbatim>\<open>KCP_RoundTrip\<close>, \<^verbatim>\<open>KCP_Receiving\<close>, \<^verbatim>\<open>KCP_Sending\<close>, \<^verbatim>\<open>KCP_Protocol\<close>,
    \<^verbatim>\<open>KCP_Output\<close>, \<^verbatim>\<open>KCP_Connection\<close>: \<^verbatim>\<open>transport/internet/kcp\<close>. The wire format and the authenticator; the
    round-trip estimator; the two workers with their windows; two workers, each with a clock that only
    goes forward, over a network that loses, repeats and reorders packets (reliable, and able to deliver
    within a bounded time); the writer of segments with its retries; and the connection with its state
    machine, updaters and deadlines.
  \<^item> \<^verbatim>\<open>Str_Matcher\<close>, \<^verbatim>\<open>Str_AC\<close>, \<^verbatim>\<open>Str_Mph\<close>: \<^verbatim>\<open>common/strmatcher\<close>. Single matchers, the tree of domain labels,
    the keyword automaton on the arrays of the code, and the perfect-hash table. \<^verbatim>\<open>Router_Domain\<close> is the domain
    condition built on them. The locale \<open>index_group\<close> is what the groups share. Shown: the optimised groups
    answer like the patterns one by one, with the exceptions the theorems name; building the automaton ends.
  \<^item> \<^verbatim>\<open>Cache_Lru\<close>, \<^verbatim>\<open>Fake_DNS\<close>: \<^verbatim>\<open>common/cache/lru.go\<close> and \<^verbatim>\<open>app/dns/fakedns/fake.go\<close>. The cache is a
    store of elements with a linked list and two indexes and refines a list of pairs (locale \<open>bidi_cache\<close>); a
    fake address leads back to its domain, and the search for a free address ends.
  \<^item> \<^verbatim>\<open>Router_GeoIP\<close>, \<^verbatim>\<open>Router_GeoIP_Props\<close>, \<^verbatim>\<open>Router_GeoIP_Filter\<close>, \<^verbatim>\<open>Router_GeoIP_Build\<close>:
    \<^verbatim>\<open>app/router/condition_geoip.go\<close>. The matchers group addresses by prefix to ask the address sets less often;
    the locales \<open>geoip_matcher\<close> and \<open>geoip_filter\<close> state what a matcher promises. Shown: the built matcher agrees
    with the configured networks, and filtering is a partition except where it panics.
  \<^item> \<^verbatim>\<open>Routing_Context\<close>, \<^verbatim>\<open>Router_Condition\<close>: \<^verbatim>\<open>features/routing\<close> and \<^verbatim>\<open>app/router/condition.go\<close>, what the router
    sees of a connection, with the context that resolves the target domain once, and the conditions.
    \<^verbatim>\<open>Outbound_Manager\<close>: \<^verbatim>\<open>app/proxyman/outbound/outbound.go\<close>. \<^verbatim>\<open>Router_Balancer\<close>: the balancing strategies of
    \<^verbatim>\<open>app/router\<close> with weights and overrides (locale \<open>balancing_strategy\<close>). \<^verbatim>\<open>Geo_Asset\<close>: the lookup in geo data files.
    \<^verbatim>\<open>Router_Config\<close>, \<^verbatim>\<open>Router\<close>: \<^verbatim>\<open>config.go\<close> and \<^verbatim>\<open>router.go\<close>; rules and balancers are records that point into a heap of
    balancers. Shown: the selection of handlers is right in spite of its cache, strategies pick candidates, round
    robin is fair, least load selects as documented; the first matching rule is picked under each domain
    strategy (locale \<open>target_addresses\<close>, for contexts with and without resolution); a router stays
    well-formed, its rules bound to the balancers their configuration names.

  \<^item> \<^verbatim>\<open>Buf_Reader\<close>: \<^verbatim>\<open>common/buf/reader.go\<close> and \<^verbatim>\<open>copy.go\<close>. \<^verbatim>\<open>Mux_Session\<close>, \<^verbatim>\<open>Mux_Copy\<close>, \<^verbatim>\<open>Mux_Framing\<close>, \<^verbatim>\<open>Mux_Client\<close>,
    \<^verbatim>\<open>Mux_Unmarshal\<close>, \<^verbatim>\<open>Mux_Demux\<close>, \<^verbatim>\<open>Mux_Worker\<close>, \<^verbatim>\<open>Mux_EndToEnd\<close>, \<^verbatim>\<open>Mux_Picker\<close>: \<^verbatim>\<open>common/mux\<close>, the client side of the
    multiplexer. Sessions live on a heap and in the table of their manager; the reading loop is a partial function, and
    what the goroutines of a worker do is a step relation. Shown: the reading loop of a client hands each session exactly
    the bytes its peer wrote to it, however the frames of sessions are mixed; it returns on every finite stream; in every
    reachable state the table and the sessions agree; a request is served within two attempts.
  \<^item> \<^verbatim>\<open>Sniff_TLS\<close>, \<^verbatim>\<open>Sniff_HTTP\<close>, \<^verbatim>\<open>Sniffer\<close>, \<^verbatim>\<open>Cached_Reader\<close>, \<^verbatim>\<open>Dispatcher\<close>, \<^verbatim>\<open>Dispatcher_Props\<close>: the sniffers of
    \<^verbatim>\<open>common/protocol\<close> and \<^verbatim>\<open>app/dispatcher\<close>. A sniffer is a record with a function of the content and the bytes; the
    locale \<open>timeout_reader\<close> is what the cached reader and the dispatcher need of a reader, interpreted by the pipe and by
    \<^verbatim>\<open>TimeoutWrapperReader\<close>. Shown: the server name of a client hello is found from any prefix that has it and no input
    panics; sniffing returns and no byte is lost or reordered; the name reaches the router and the outbound, and a fake
    address of \<^verbatim>\<open>Fake_DNS\<close> is turned back into its name before the outbound gets it.
  \<^item> \<^verbatim>\<open>Trojan_Protocol\<close>, \<^verbatim>\<open>Trojan_Server\<close>, \<^verbatim>\<open>Trojan_Fallbacks\<close>, \<^verbatim>\<open>Trojan_Props\<close>: \<^verbatim>\<open>proxy/trojan\<close>. The readers and writers
    of the protocol, the validator as two association lists, the tables of fallbacks as nested ones, and \<^verbatim>\<open>Process\<close> as a
    function from the connection to what becomes of it: dispatched, its packets dispatched, or given to a fallback. Shown:
    what a registered client writes is dispatched to its target, in streams and packets; strangers never are, and their
    fallback sees every byte; the server always comes to an outcome; the tables hold what a specification over the configured
    entries says; the validator refines a list of users.

  \<^bold>\<open>Bounds.\<close> There is no fuel. Almost every loop of the model is a total function or a step relation. Loops
  over a stream recurse on the bytes left (\<open>handleSession\<close>, \<open>read_segments\<close>, \<open>Find_loop\<close>), loops over windows on
  their length, each with its termination proof. Three loops are \<open>while_option\<close>, whose value is \<open>None\<close> if they do not
  end: building the keyword automaton and the search for a free fake address, which are shown to end, and the
  search for seeds of the perfect-hash table, which need not. The loops of the multiplexer's reader, over the
  packets of a Trojan client and over the extensions of a client hello are partial functions that are shown to return; the rounds of sniffing are given as a
  list, and those that fill 200 milliseconds are shown to be enough. 32-bit numbers wrap as in the code. The theorems
  on a whole KCP run are stated for at most \<open>2 ^ 31 - 2\<close> payloads, because segment numbers are
  compared by the sign of their difference. The frame layer's counters are 64 bits wide and its
  theorems say how many frames may have been sent.

  \<^bold>\<open>Parameters.\<close> AES-GCM, ChaCha20-Poly1305, X25519, HKDF and SHA-224, base64 and JSON decoding, random
  numbers, the clock and the system's packets, the QUIC sniffer, regular expressions, \<^verbatim>\<open>strings.ToLower\<close>, the address sets of
  \<^verbatim>\<open>netipx\<close>, the order in which Go visits a map or sorts equal elements, floating-point scaling of weights, reports of
  the observatory, answers of the DNS client and the contents of asset files are arguments of the definitions; where a theorem
  needs a law (that decryption inverts encryption), it is a hypothesis, and the witness
  instantiates it.

  \<^bold>\<open>Not modelled.\<close> Generated protobuf code; the other proxies, transports and \<^verbatim>\<open>app/\<close> services and
  the configuration front end (\<^verbatim>\<open>infra/conf\<close>), which share the layers above but are separate
  programs of their own; the server side of the multiplexer; the statistics of users; system calls, TLS and QUIC libraries;
  logging. Mutexes are not modelled outside the pipe, the fallback relay, the multiplexer's client and KCP: an operation that holds one is a step of its own. Operations of a KCP connection, which read and set its state
  without one lock, are one step each; those of a multiplexing worker are also taken apart where another goroutine may
  act in between. A reader that returns data together with an error is modelled in \<^verbatim>\<open>Cached_Reader\<close> only.
\<close>

end
